(* ===== verification/Prelude.thy ===== *)
theory Prelude
  imports Main "HOL-Library.Word" "HOL-Library.Monad_Syntax"
begin

text \<open>
  Shared ground of the development.
  \<^item> the machine integers of the kernel's C sources (\<open>unsigned char\<close>, \<open>unsigned short\<close>,
    \<open>unsigned int\<close>, \<open>unsigned long long\<close> as words; \<open>int\<close> return codes as \<open>int\<close>);
  \<^item> counted loops over unsigned counters, and their invariant rule;
  \<^item> the search loops \<open>for (i = 0; i < n; i++) if (P) return i; return -1;\<close>;
  \<^item> single-bit tests and updates of words;
  \<^item> C strings in fixed buffers.
\<close>

unbundle bit_operations_syntax

type_synonym u8 = "8 word"
type_synonym u16 = "16 word"
type_synonym u32 = "32 word"
type_synonym u64 = "64 word"

named_theorems loop_simps \<open>unfolding rules of the counted loops at their bounds\<close>
named_theorems frame_simps \<open>fields that an operation leaves alone\<close>
named_theorems inv_intros \<open>operations that keep a component's invariant\<close>

section \<open>Counted loops\<close>

lemma unat_plus_one_less: "unat (i + 1) = Suc (unat i)" if "i < n" for i n :: "'w::len word"
proof -
  have "unat i < unat n" using that by (simp add: word_less_nat_alt)
  moreover have "unat n < 2 ^ LENGTH('w)" by simp
  ultimately have "Suc (unat i) < 2 ^ LENGTH('w)" by linarith
  then show ?thesis by (simp add: unat_word_ariths)
qed

lemma less_plus_one_iff: "j < n \<Longrightarrow> i < j + 1 \<longleftrightarrow> i < j \<or> i = j" for i j n :: "'w::len word"
  using unat_plus_one_less [of j n] by (auto simp: word_less_nat_alt less_Suc_eq word_unat_eq_iff)

lemma plus_one_le_iff: "j < n \<Longrightarrow> j + 1 \<le> i \<longleftrightarrow> j < i" for i j n :: "'w::len word"
  using unat_plus_one_less [of j n] by (auto simp: word_less_nat_alt word_le_nat_alt)

text \<open>\<open>for (i = lo; i < n; i++) s = body(i, s);\<close> over an unsigned counter of any width.\<close>

function for_w :: "'w::len word \<Rightarrow> 'w word \<Rightarrow> ('w word \<Rightarrow> 's \<Rightarrow> 's) \<Rightarrow> 's \<Rightarrow> 's" where
  "for_w i n body s = (if i < n then for_w (i + 1) n body (body i s) else s)"
  by pat_completeness auto
termination
  by (relation "measure (\<lambda>(i, n, _, _). unat n - unat i)")
    (auto simp: unat_plus_one_less word_less_nat_alt intro!: diff_less_mono2)

declare for_w.simps [simp del]

lemma for_w_done [loop_simps]: "\<not> i < n \<Longrightarrow> for_w i n body s = s"
  by (subst for_w.simps) simp

lemma for_w_step [loop_simps]: "i < n \<Longrightarrow> for_w i n body s = for_w (i + 1) n body (body i s)"
  by (subst for_w.simps) simp

text \<open>An invariant that mentions the counter: it holds at the bound when the loop ends.\<close>

lemma for_w_invariant:
  assumes "P i s" and "i \<le> n"
    and "\<And>j t. i \<le> j \<Longrightarrow> j < n \<Longrightarrow> P j t \<Longrightarrow> P (j + 1) (body j t)"
  shows "P n (for_w i n body s)"
  using assms
proof (induction i n body s rule: for_w.induct)
  case (1 i n body s)
  show ?case
  proof (cases "i < n")
    case True
    then have le: "i + 1 \<le> n" and ile: "i \<le> i + 1"
      by (simp_all add: word_le_nat_alt word_less_nat_alt unat_plus_one_less)
    have "P (i + 1) (body i s)" using "1.prems" True by blast
    moreover have "P (j + 1) (body j t)" if "i + 1 \<le> j" "j < n" "P j t" for j t
      using "1.prems"(3) that ile by (meson order_trans)
    ultimately have "P n (for_w (i + 1) n body (body i s))"
      using "1.IH" True le by blast
    then show ?thesis by (simp add: for_w_step True)
  next
    case False
    with "1.prems" have "i = n" by simp
    with "1.prems" show ?thesis by (simp add: for_w_done)
  qed
qed

lemma for_w_cong:
  "(\<And>j. j < n \<Longrightarrow> body j = body' j) \<Longrightarrow> for_w i n body s = for_w i n body' s"
  by (induction i n body s rule: for_w.induct) (metis for_w_done for_w_step)

text \<open>An invariant that does not mention the counter holds whatever the bounds are.\<close>

lemma for_w_keeps:
  assumes "P s" and "\<And>j t. i \<le> j \<Longrightarrow> j < n \<Longrightarrow> P t \<Longrightarrow> P (body j t)"
  shows "P (for_w i n body s)"
proof (cases "i \<le> n")
  case True
  then show ?thesis using for_w_invariant [where P = "\<lambda>_. P"] assms by metis
next
  case False
  then show ?thesis using assms by (simp add: for_w_done)
qed

section \<open>Search loops\<close>

fun first_index :: "('a \<Rightarrow> bool) \<Rightarrow> 'a list \<Rightarrow> nat option" where
  "first_index P [] = None"
| "first_index P (x # xs) = (if P x then Some 0 else map_option Suc (first_index P xs))"

lemma first_index_None [simp]: "first_index P xs = None \<longleftrightarrow> (\<forall>x\<in>set xs. \<not> P x)"
  by (induction xs) auto

lemma first_index_Some:
  "first_index P xs = Some i \<longleftrightarrow> i < length xs \<and> P (xs ! i) \<and> (\<forall>j<i. \<not> P (xs ! j))"
proof (induction xs arbitrary: i)
  case Nil
  then show ?case by simp
next
  case (Cons x xs)
  then show ?case
    by (cases i) (auto simp: nth_Cons split: nat.splits)
qed

lemma first_index_SomeD:
  assumes "first_index P xs = Some i"
  shows "i < length xs" and "P (xs ! i)" and "j < i \<Longrightarrow> \<not> P (xs ! j)"
  using assms by (auto simp: first_index_Some)

text \<open>The C convention: the index found, or \<open>-1\<close>.\<close>

definition index_or_minus1 :: "nat option \<Rightarrow> int" where
  "index_or_minus1 r = (case r of None \<Rightarrow> -1 | Some i \<Rightarrow> int i)"

lemma index_or_minus1_simps [simp]:
  "index_or_minus1 None = -1" "index_or_minus1 (Some i) = int i"
  by (simp_all add: index_or_minus1_def)

lemma index_or_minus1_neg [simp]: "index_or_minus1 r < 0 \<longleftrightarrow> r = None"
  by (cases r) auto

lemma index_or_minus1_nonneg [simp]: "0 \<le> index_or_minus1 r \<longleftrightarrow> r \<noteq> None"
  by (cases r) auto

lemma index_or_minus1_eq_minus1 [simp]: "index_or_minus1 r = -1 \<longleftrightarrow> r = None"
  by (cases r) auto

section \<open>Single bits\<close>

text \<open>The simplifier writes \<open>1 << k\<close> (\<open>push_bit k 1\<close>) as \<open>2 ^ k\<close>; the rules are stated on that form.\<close>

lemma and_exp_eq_0 [simp]: "w AND 2 ^ k = 0 \<longleftrightarrow> \<not> bit w k" for w :: "'w::len word"
proof -
  have "bit (w AND 2 ^ k) j \<longleftrightarrow> j = k \<and> bit w k" for j
    by (auto simp: bit_and_iff bit_exp_iff dest: bit_imp_le_length)
  then show ?thesis by (metis bit_0_eq bit_eq_iff bot_apply bot_bool_def)
qed

lemma bit_or_exp: "k < LENGTH('w) \<Longrightarrow> bit (w OR 2 ^ k) j \<longleftrightarrow> bit w j \<or> j = k"
  for w :: "'w::len word"
  by (auto simp: bit_or_iff bit_exp_iff)

lemma bit_and_not_exp: "k < LENGTH('w) \<Longrightarrow> bit (w AND NOT (2 ^ k)) j \<longleftrightarrow> bit w j \<and> j \<noteq> k"
  for w :: "'w::len word"
  by (auto simp: bit_and_iff bit_not_iff bit_exp_iff dest: bit_imp_le_length)

text \<open>Clearing the low bits rounds down, keeping them takes the remainder.\<close>

lemma unat_and_mask: "unat (w AND mask n) = unat w mod 2 ^ n" for w :: "'w::len word"
  unfolding take_bit_eq_mask [symmetric] unsigned_take_bit_eq by (rule take_bit_eq_mod)

lemma unat_and_not_mask: "unat (w AND NOT (mask n)) = unat w div 2 ^ n * 2 ^ n" for w :: "'w::len word"
proof -
  have "NOT w AND take_bit n w = 0"
    by (rule bit_eqI) (auto simp: bit_simps)
  then have "w - take_bit n w = w AND NOT (take_bit n w)" by (rule disjunctive_diff_eq_and_not)
  also have "\<dots> = w AND NOT (mask n)"
    by (rule bit_eqI) (auto simp: bit_simps)
  finally have "w AND NOT (mask n) = w - (w AND mask n)" by (simp add: take_bit_eq_mask)
  moreover have "w AND mask n \<le> w" by (rule word_and_le2)
  ultimately show ?thesis by (simp add: unat_sub unat_and_mask minus_mod_eq_div_mult)
qed

end
