(* ===== verification/Memory.thy ===== *)
theory Memory
  imports Prelude
begin

text \<open>
  Physical memory, byte by byte, under the kernel's identity mapping. The kernel follows physical
  addresses as pointers everywhere (page tables, heap headers, zeroed frames, file buffers), so one
  byte memory is shared by all of them and overlaps are visible to the theorems. \<open>rd64\<close> and
  \<open>wr64\<close> are the loads and stores of an \<open>unsigned long long\<close> through a pointer, \<open>rd32\<close> and
  \<open>wr32\<close> those of an \<open>unsigned int\<close>; both are little-endian, as on x86-64.
\<close>

type_synonym memory = "u64 \<Rightarrow> u8"

record machine =
  phys_mem :: memory

definition rd64 :: "memory \<Rightarrow> u64 \<Rightarrow> u64" where
  "rd64 m a =
     ucast (m a) OR push_bit 8 (ucast (m (a + 1))) OR push_bit 16 (ucast (m (a + 2))) OR
     push_bit 24 (ucast (m (a + 3))) OR push_bit 32 (ucast (m (a + 4))) OR
     push_bit 40 (ucast (m (a + 5))) OR push_bit 48 (ucast (m (a + 6))) OR
     push_bit 56 (ucast (m (a + 7)))"

definition wr64 :: "u64 \<Rightarrow> u64 \<Rightarrow> memory \<Rightarrow> memory" where
  "wr64 a v m = (\<lambda>x. if x - a < 8 then ucast (drop_bit (8 * unat (x - a)) v) else m x)"

definition rd32 :: "memory \<Rightarrow> u64 \<Rightarrow> u32" where
  "rd32 m a =
     ucast (m a) OR push_bit 8 (ucast (m (a + 1))) OR push_bit 16 (ucast (m (a + 2))) OR
     push_bit 24 (ucast (m (a + 3)))"

definition wr32 :: "u64 \<Rightarrow> u32 \<Rightarrow> memory \<Rightarrow> memory" where
  "wr32 a v m = (\<lambda>x. if x - a < 4 then ucast (drop_bit (8 * unat (x - a)) v) else m x)"

text \<open>\<open>n\<close> bytes from \<open>a\<close> and \<open>k\<close> bytes from \<open>b\<close> share no address (both ranges modulo \<open>2^64\<close>).\<close>

definition disjnt_ranges :: "u64 \<Rightarrow> u64 \<Rightarrow> u64 \<Rightarrow> u64 \<Rightarrow> bool" where
  "disjnt_ranges a n b k \<longleftrightarrow> (\<forall>x. \<not> (x - a < n \<and> x - b < k))"

text \<open>Without wrap-around, a range of words is an interval of naturals.\<close>

lemma range_iff:
  fixes a n x :: u64
  assumes "unat a + unat n \<le> 2 ^ 64"
  shows "x - a < n \<longleftrightarrow> unat a \<le> unat x \<and> unat x < unat a + unat n"
proof (cases "a \<le> x")
  case True
  then have "unat (x - a) = unat x - unat a" by (simp add: unat_sub_if' word_le_nat_alt)
  then show ?thesis using True by (auto simp: word_less_nat_alt word_le_nat_alt)
next
  case False
  then have "unat (x - a) = unat x + 2 ^ 64 - unat a" by (simp add: unat_sub_if' word_le_nat_alt)
  then show ?thesis using False assms by (auto simp: word_less_nat_alt word_le_nat_alt)
qed

section \<open>Loads after stores\<close>

lemma split_byte:
  "push_bit k (drop_bit k v) =
     push_bit k (ucast (ucast (drop_bit k v) :: u8)) OR push_bit (k + 8) (drop_bit (k + 8) v)"
  for v :: "'w::len word"
proof (rule bit_word_eqI)
  fix n
  assume "n < LENGTH('w)"
  then show "bit (push_bit k (drop_bit k v)) n \<longleftrightarrow>
      bit (push_bit k (ucast (ucast (drop_bit k v) :: u8)) OR
           push_bit (k + 8) (drop_bit (k + 8) v)) n"
    by (cases "k + 8 \<le> n")
      (auto simp: bit_or_iff bit_push_bit_iff bit_ucast_iff bit_drop_bit_eq)
qed

lemma rd64_wr64_same [simp]: "rd64 (wr64 a v m) a = v"
proof -
  have last: "ucast (ucast (drop_bit 56 v) :: u8) = drop_bit 56 v"
    by (rule bit_word_eqI) (auto simp: bit_ucast_iff bit_drop_bit_eq dest: bit_imp_le_length)
  have v: "v = ucast (ucast v :: u8) OR push_bit 8 (ucast (ucast (drop_bit 8 v) :: u8)) OR
     push_bit 16 (ucast (ucast (drop_bit 16 v) :: u8)) OR
     push_bit 24 (ucast (ucast (drop_bit 24 v) :: u8)) OR
     push_bit 32 (ucast (ucast (drop_bit 32 v) :: u8)) OR
     push_bit 40 (ucast (ucast (drop_bit 40 v) :: u8)) OR
     push_bit 48 (ucast (ucast (drop_bit 48 v) :: u8)) OR
     push_bit 56 (ucast (ucast (drop_bit 56 v) :: u8))"
    using split_byte [of 0 v] split_byte [of 8 v] split_byte [of 16 v] split_byte [of 24 v]
      split_byte [of 32 v] split_byte [of 40 v] split_byte [of 48 v] last
    by simp
  show ?thesis unfolding rd64_def wr64_def
    by (simp add: v [symmetric])
qed

lemma rd32_wr32_same [simp]: "rd32 (wr32 a v m) a = v"
proof -
  have last: "ucast (ucast (drop_bit 24 v) :: u8) = drop_bit 24 v"
    by (rule bit_word_eqI) (auto simp: bit_ucast_iff bit_drop_bit_eq dest: bit_imp_le_length)
  have v: "v = ucast (ucast v :: u8) OR push_bit 8 (ucast (ucast (drop_bit 8 v) :: u8)) OR
     push_bit 16 (ucast (ucast (drop_bit 16 v) :: u8)) OR
     push_bit 24 (ucast (ucast (drop_bit 24 v) :: u8))"
    using split_byte [of 0 v] split_byte [of 8 v] split_byte [of 16 v] last
    by simp
  show ?thesis unfolding rd32_def wr32_def
    by (simp add: v [symmetric])
qed

text \<open>A load depends on its own bytes only.\<close>

lemma rd64_cong: "(\<And>x. x - a < 8 \<Longrightarrow> m x = m' x) \<Longrightarrow> rd64 m a = rd64 m' a"
  by (simp add: rd64_def)

lemma rd32_cong: "(\<And>x. x - a < 4 \<Longrightarrow> m x = m' x) \<Longrightarrow> rd32 m a = rd32 m' a"
  by (simp add: rd32_def)

lemma rd64_wr64_other: "disjnt_ranges a 8 b 8 \<Longrightarrow> rd64 (wr64 a v m) b = rd64 m b"
  by (rule rd64_cong) (auto simp: wr64_def disjnt_ranges_def)

lemma rd64_wr32_other: "disjnt_ranges a 4 b 8 \<Longrightarrow> rd64 (wr32 a v m) b = rd64 m b"
  by (rule rd64_cong) (auto simp: wr32_def disjnt_ranges_def)

lemma rd32_wr64_other: "disjnt_ranges a 8 b 4 \<Longrightarrow> rd32 (wr64 a v m) b = rd32 m b"
  by (rule rd32_cong) (auto simp: wr64_def disjnt_ranges_def)

lemma rd32_wr32_other: "disjnt_ranges a 4 b 4 \<Longrightarrow> rd32 (wr32 a v m) b = rd32 m b"
  by (rule rd32_cong) (auto simp: wr32_def disjnt_ranges_def)

section \<open>Filling and copying loops\<close>

text \<open>\<open>for (i = 0; i < n; i++) p[i] = g(i);\<close> writes exactly the \<open>n\<close> bytes from \<open>p\<close>.\<close>

lemma for_w_bytes:
  "for_w 0 n (\<lambda>i m. m(a + i := g i)) m = (\<lambda>x. if x - a < n then g (x - a) else m x)"
    for n :: u64
proof -
  have "for_w 0 n (\<lambda>i m. m(a + i := g i)) m =
    (\<lambda>x. if x - a < n then g (x - a) else m x)"
  proof (rule for_w_invariant [where P = "\<lambda>j t. t = (\<lambda>x. if x - a < j then g (x - a) else m x)"])
    fix j t
    assume "j < n" and t: "t = (\<lambda>x. if x - a < j then g (x - a) else m x)"
    have "x - a < j + 1 \<longleftrightarrow> x - a < j \<or> x = a + j" for x
      unfolding less_plus_one_iff [OF \<open>j < n\<close>] by (auto simp: algebra_simps)
    then show "t(a + j := g j) = (\<lambda>x. if x - a < j + 1 then g (x - a) else m x)"
      unfolding t by (auto simp: fun_eq_iff)
  qed simp_all
  then show ?thesis .
qed

end
