(* ===== verification/E820.thy ===== *)
theory E820
  imports Memory
begin

text \<open>
  The BIOS memory map, \<open>kernel/mm/e820.c\<close>. The bootloader leaves a count and that many packed
  entries at a fixed address; the kernel only reads them. The buffer is a count and an indexable
  array, and \<open>e820_get_entry\<close> guards the index with the count.
\<close>

record e820_entry =
  entry_base :: u64
  entry_length :: u64
  entry_type :: u32
  extended_attributes :: u32

record e820_buffer =
  e820_count :: u32
  e820_entries :: "u32 \<Rightarrow> e820_entry"

definition E820_TYPE_USABLE :: u32 where "E820_TYPE_USABLE = 1"
definition E820_TYPE_RESERVED :: u32 where "E820_TYPE_RESERVED = 2"
definition E820_TYPE_ACPI_RECLAIMABLE :: u32 where "E820_TYPE_ACPI_RECLAIMABLE = 3"
definition E820_TYPE_ACPI_NVS :: u32 where "E820_TYPE_ACPI_NVS = 4"
definition E820_TYPE_BAD :: u32 where "E820_TYPE_BAD = 5"

lemmas e820_type_defs =
  E820_TYPE_USABLE_def E820_TYPE_RESERVED_def E820_TYPE_ACPI_RECLAIMABLE_def
  E820_TYPE_ACPI_NVS_def E820_TYPE_BAD_def

definition e820_entry_count :: "e820_buffer \<Rightarrow> u32" where
  "e820_entry_count b = e820_count b"

definition e820_get_entry :: "e820_buffer \<Rightarrow> u32 \<Rightarrow> e820_entry option" where
  "e820_get_entry b index =
     (if index \<ge> e820_count b then None else Some (e820_entries b index))"

definition e820_total_usable_bytes :: "e820_buffer \<Rightarrow> u64" where
  "e820_total_usable_bytes b =
     for_w 0 (e820_count b)
       (\<lambda>i total. if entry_type (e820_entries b i) = E820_TYPE_USABLE
                  then total + entry_length (e820_entries b i) else total)
       0"

definition e820_type_name :: "u32 \<Rightarrow> string" where
  "e820_type_name t =
     (if t = E820_TYPE_USABLE then ''usable''
      else if t = E820_TYPE_RESERVED then ''reserved''
      else if t = E820_TYPE_ACPI_RECLAIMABLE then ''ACPI reclaimable''
      else if t = E820_TYPE_ACPI_NVS then ''ACPI NVS''
      else if t = E820_TYPE_BAD then ''bad''
      else ''unknown'')"

text \<open>The entries a loop \<open>for (i = 0; i < count; i++)\<close> reaches.\<close>

definition e820_all :: "e820_buffer \<Rightarrow> e820_entry set" where
  "e820_all b = {e820_entries b i | i. i < e820_count b}"

lemma e820_get_entry_in_loop:
  "i < e820_entry_count b \<Longrightarrow> e820_get_entry b i = Some (e820_entries b i)"
  by (simp add: e820_get_entry_def e820_entry_count_def)

end
