(* ===== verification/Ring_Buffer.thy ===== *)
theory Ring_Buffer
  imports Prelude
begin

text \<open>
  \<open>kernel/lib/ring_buffer.c\<close>: the byte ring that the keyboard interrupt handler fills and
  \<open>kbd_getchar\<close> drains. One slot stays empty, so a ring of \<open>capacity\<close> slots holds at most
  \<open>capacity - 1\<close> bytes.

  The theory also holds the two interfaces of first-in first-out queues of the kernel:
  \<open>bounded_queue\<close> (one element at a time, the ring buffer) and \<open>bounded_stream\<close> (several at
  a time, the pipes). The second follows from the first.
\<close>

section \<open>A window of a circular buffer\<close>

text \<open>\<open>n\<close> elements of \<open>buf\<close> from index \<open>start\<close>, wrapping at the end of the buffer.\<close>

definition circ :: "'a list \<Rightarrow> nat \<Rightarrow> nat \<Rightarrow> 'a list" where
  "circ buf start n = map (\<lambda>i. buf ! ((start + i) mod length buf)) [0..<n]"

lemma length_circ [simp]: "length (circ buf start n) = n"
  by (simp add: circ_def)

lemma circ_0 [simp]: "circ buf start 0 = []"
  by (simp add: circ_def)

lemma circ_mod [simp]: "circ buf (start mod length buf) n = circ buf start n"
  by (simp add: circ_def mod_add_left_eq)

lemma circ_Suc: "circ buf start (Suc n) = buf ! (start mod length buf) # circ buf (Suc start) n"
proof -
  have "[0..<Suc n] = 0 # map Suc [0..<n]"
    by (simp add: upt_rec [of 0 "Suc n"] map_Suc_upt del: upt_Suc)
  then show ?thesis by (simp add: circ_def comp_def)
qed

lemma mod_shift_inj:
  fixes a i j m :: nat
  assumes "(a + i) mod m = (a + j) mod m" and "i < m" and "j < m"
  shows "i = j"
proof -
  have "i mod m = j mod m"
    using assms(1) by (simp add: nat_mod_eq_iff)
  then show ?thesis using assms(2,3) by simp
qed

lemma circ_push:
  assumes "n < length buf"
  shows "circ (buf[(start + n) mod length buf := x]) start (Suc n) = circ buf start n @ [x]"
proof -
  have "buf[(start + n) mod length buf := x] ! ((start + i) mod length buf) =
      buf ! ((start + i) mod length buf)" if "i < n" for i
  proof -
    have "(start + n) mod length buf \<noteq> (start + i) mod length buf"
      using mod_shift_inj [of start n "length buf" i] assms that by auto
    then show ?thesis by simp
  qed
  moreover have "(start + n) mod length buf < length buf"
    using assms by (simp add: mod_less_divisor [OF gr_zeroI])
  ultimately show ?thesis by (simp add: circ_def)
qed

section \<open>Queue interfaces\<close>

locale bounded_queue =
  fixes inv :: "'s \<Rightarrow> bool" and contents :: "'s \<Rightarrow> 'a list" and cap :: "'s \<Rightarrow> nat"
    and put :: "'a \<Rightarrow> 's \<Rightarrow> 's \<times> bool" and get :: "'s \<Rightarrow> 's \<times> 'a option"
  assumes bounded: "inv s \<Longrightarrow> length (contents s) \<le> cap s"
    and put_room: "inv s \<Longrightarrow> length (contents s) < cap s \<Longrightarrow>
      \<exists>t. put x s = (t, True) \<and> inv t \<and> cap t = cap s \<and> contents t = contents s @ [x]"
    and put_full: "inv s \<Longrightarrow> length (contents s) = cap s \<Longrightarrow> put x s = (s, False)"
    and get_some: "inv s \<Longrightarrow> contents s = y # ys \<Longrightarrow>
      \<exists>t. get s = (t, Some y) \<and> inv t \<and> cap t = cap s \<and> contents t = ys"
    and get_none: "inv s \<Longrightarrow> contents s = [] \<Longrightarrow> get s = (s, None)"
begin

text \<open>Putting a list one element after the other; getting until \<open>n\<close> elements came or none is left.\<close>

fun put_list :: "'a list \<Rightarrow> 's \<Rightarrow> 's" where
  "put_list [] s = s"
| "put_list (x # xs) s = put_list xs (fst (put x s))"

fun get_n :: "nat \<Rightarrow> 's \<Rightarrow> 's \<times> 'a list" where
  "get_n 0 s = (s, [])"
| "get_n (Suc n) s =
     (case get s of (t, None) \<Rightarrow> (t, [])
      | (t, Some y) \<Rightarrow> let (u, ys) = get_n n t in (u, y # ys))"

lemma put_list_contents:
  "inv s \<Longrightarrow> inv (put_list xs s) \<and> cap (put_list xs s) = cap s \<and>
     contents (put_list xs s) = contents s @ take (cap s - length (contents s)) xs"
proof (induction xs arbitrary: s)
  case Nil
  then show ?case by simp
next
  case (Cons x xs)
  show ?case
  proof (cases "length (contents s) < cap s")
    case True
    obtain t where "put x s = (t, True)" "inv t" "cap t = cap s" "contents t = contents s @ [x]"
      using put_room [OF Cons.prems True, of x] by blast
    then show ?thesis
      using Cons.IH [of t] True by (simp add: take_Cons' Suc_diff_Suc [symmetric] del: Suc_diff_Suc)
  next
    case False
    then show ?thesis
      using Cons.IH [OF Cons.prems] put_full [OF Cons.prems, of x] bounded [OF Cons.prems] by simp
  qed
qed

lemma get_n_contents:
  "inv s \<Longrightarrow> get_n n s = (t, ys) \<Longrightarrow>
     inv t \<and> cap t = cap s \<and> ys = take n (contents s) \<and> contents t = drop n (contents s)"
proof (induction n arbitrary: s t ys)
  case 0
  then show ?case by simp
next
  case (Suc n)
  show ?case
  proof (cases "contents s")
    case Nil
    then show ?thesis using Suc.prems get_none [OF Suc.prems(1)] by auto
  next
    case (Cons z zs)
    obtain u where "get s = (u, Some z)" "inv u" "cap u = cap s" "contents u = zs"
      using get_some [OF Suc.prems(1) Cons] by blast
    then show ?thesis
      using Suc.prems Suc.IH [of u] Cons by (auto split: prod.splits)
  qed
qed

end

text \<open>Reads and writes of several elements, each of which transfers as much as it can.\<close>

datatype 'a stream_op = Put "'a list" | Get nat

locale bounded_stream =
  fixes inv :: "'s \<Rightarrow> bool" and contents :: "'s \<Rightarrow> 'a list" and cap :: "'s \<Rightarrow> nat"
    and send :: "'a list \<Rightarrow> 's \<Rightarrow> 's" and recv :: "nat \<Rightarrow> 's \<Rightarrow> 's \<times> 'a list"
  assumes bounded: "inv s \<Longrightarrow> length (contents s) \<le> cap s"
    and send_inv: "inv s \<Longrightarrow> inv (send xs s)" and send_cap: "inv s \<Longrightarrow> cap (send xs s) = cap s"
    and send_contents:
      "inv s \<Longrightarrow> contents (send xs s) = contents s @ take (cap s - length (contents s)) xs"
    and recv_contents: "inv s \<Longrightarrow> recv n s = (t, ys) \<Longrightarrow>
      inv t \<and> cap t = cap s \<and> ys = take n (contents s) \<and> contents t = drop n (contents s)"
begin

text \<open>
  A run of reads and writes in any order: the bytes that went in and the bytes that came out.
\<close>

fun run_ops :: "'a stream_op list \<Rightarrow> 's \<Rightarrow> 's \<times> 'a list \<times> 'a list" where
  "run_ops [] s = (s, [], [])"
| "run_ops (Put xs # ops) s =
     (let (t, ins, outs) = run_ops ops (send xs s)
      in (t, take (cap s - length (contents s)) xs @ ins, outs))"
| "run_ops (Get n # ops) s =
     (let (u, ys) = recv n s; (t, ins, outs) = run_ops ops u in (t, ins, ys @ outs))"

lemma run_ops_fifo:
  "inv s \<Longrightarrow> run_ops ops s = (t, ins, outs) \<Longrightarrow>
     inv t \<and> cap t = cap s \<and> contents s @ ins = outs @ contents t"
proof (induction ops arbitrary: s t ins outs)
  case Nil
  then show ?case by simp
next
  case (Cons op ops)
  show ?case
  proof (cases op)
    case (Put xs)
    obtain t' ins' outs' where r: "run_ops ops (send xs s) = (t', ins', outs')"
      by (metis prod_cases3)
    then show ?thesis
      using Cons.IH [OF send_inv [OF Cons.prems(1)] r] Cons.prems Put
      by (auto simp: send_cap send_contents)
  next
    case (Get n)
    obtain u ys where g: "recv n s = (u, ys)" by fastforce
    obtain t' ins' outs' where r: "run_ops ops u = (t', ins', outs')"
      by (metis prod_cases3)
    have rc: "inv u \<and> cap u = cap s \<and> ys = take n (contents s) \<and> contents u = drop n (contents s)"
      by (rule recv_contents [OF Cons.prems(1) g])
    then have "contents u @ ins' = outs' @ contents t'" "inv t'" "cap t' = cap s"
      using Cons.IH [OF _ r] by auto
    moreover have "t = t'" "ins = ins'" "outs = ys @ outs'"
      using Cons.prems Get g r by auto
    ultimately show ?thesis using rc
      by (metis append.assoc append_take_drop_id)
  qed
qed

end

sublocale bounded_queue \<subseteq> stream: bounded_stream inv contents cap put_list get_n
  using bounded put_list_contents get_n_contents by unfold_locales blast+

section \<open>The ring buffer\<close>

record ring_buffer =
  storage :: "u8 list"
  capacity :: u32
  head :: u32
  tail :: u32

definition ring_buffer_init :: "u8 list \<Rightarrow> u32 \<Rightarrow> ring_buffer" where
  "ring_buffer_init st n = \<lparr>storage = st, capacity = n, head = 0, tail = 0\<rparr>"

definition ring_buffer_push :: "u8 \<Rightarrow> ring_buffer \<Rightarrow> ring_buffer \<times> bool" where
  "ring_buffer_push v rb =
     (let next = (head rb + 1) mod capacity rb in
      if next = tail rb then (rb, False)
      else (rb\<lparr>storage := (storage rb)[unat (head rb) := v], head := next\<rparr>, True))"

definition ring_buffer_pop :: "ring_buffer \<Rightarrow> ring_buffer \<times> u8 option" where
  "ring_buffer_pop rb =
     (if tail rb = head rb then (rb, None)
      else (rb\<lparr>tail := (tail rb + 1) mod capacity rb\<rparr>, Some (storage rb ! unat (tail rb))))"

text \<open>The invariant: both indices are inside the storage, so every access is in range.\<close>

definition ring_inv :: "ring_buffer \<Rightarrow> bool" where
  "ring_inv rb \<longleftrightarrow> length (storage rb) = unat (capacity rb) \<and> head rb < capacity rb \<and> tail rb < capacity rb"

definition ring_count :: "ring_buffer \<Rightarrow> nat" where
  "ring_count rb = (unat (head rb) + unat (capacity rb) - unat (tail rb)) mod unat (capacity rb)"

definition ring_contents :: "ring_buffer \<Rightarrow> u8 list" where
  "ring_contents rb = circ (storage rb) (unat (tail rb)) (ring_count rb)"

definition ring_cap :: "ring_buffer \<Rightarrow> nat" where
  "ring_cap rb = unat (capacity rb) - 1"

lemma unat_succ_mod:
  "i < n \<Longrightarrow> unat ((i + 1) mod n) = Suc (unat i) mod unat n" for i n :: "'w::len word"
  by (simp add: unat_mod unat_plus_one_less)

lemma ring_head:
  assumes "ring_inv rb"
  shows "unat (head rb) = (unat (tail rb) + ring_count rb) mod length (storage rb)"
proof -
  have "unat (head rb) < unat (capacity rb)" "unat (tail rb) < unat (capacity rb)"
    using assms by (auto simp: ring_inv_def word_less_nat_alt)
  then show ?thesis
    using assms by (simp add: ring_inv_def ring_count_def mod_add_right_eq)
qed

lemma ring_count_less: "ring_inv rb \<Longrightarrow> ring_count rb < unat (capacity rb)"
  unfolding ring_inv_def ring_count_def word_less_nat_alt by (intro mod_less_divisor) linarith

text \<open>The count after each index moves, over the naturals.\<close>

lemma circ_count_push:
  fixes h t c :: nat
  assumes "h < c" and "t < c" and "Suc h mod c \<noteq> t"
  shows "(Suc h mod c + c - t) mod c = Suc ((h + c - t) mod c)" and "Suc ((h + c - t) mod c) < c"
proof -
  have a: "Suc h mod c = (if Suc h = c then 0 else Suc h)" using assms(1) by auto
  have b: "(x + c - t) mod c = (if t \<le> x then x - t else x + c - t)" if "x < c" for x
    using that assms(2) by (auto simp: mod_if)
  have "Suc h mod c < c" using assms(1) by simp
  then show "(Suc h mod c + c - t) mod c = Suc ((h + c - t) mod c)" "Suc ((h + c - t) mod c) < c"
    using a assms by (auto simp: b split: if_splits)
qed

lemma circ_count_full:
  fixes h t c :: nat
  assumes "h < c" and "t < c"
  shows "Suc h mod c = t \<longleftrightarrow> (h + c - t) mod c = c - 1"
proof -
  have a: "Suc h mod c = (if Suc h = c then 0 else Suc h)" using assms(1) by auto
  have b: "(h + c - t) mod c = (if t \<le> h then h - t else h + c - t)"
    using assms by (auto simp: mod_if)
  show ?thesis unfolding a b using assms by auto
qed

lemma circ_count_pop:
  fixes h t c :: nat
  assumes "h < c" and "t < c" and "t \<noteq> h"
  shows "(h + c - t) mod c = Suc ((h + c - Suc t mod c) mod c)"
proof -
  have a: "Suc t mod c = (if Suc t = c then 0 else Suc t)" using assms(2) by auto
  have b: "(h + c - x) mod c = (if x \<le> h then h - x else h + c - x)" if "x < c" for x
    using that assms(1) by (auto simp: mod_if)
  have "Suc t mod c < c" using assms(2) by simp
  then show ?thesis using a assms by (auto simp: b split: if_splits)
qed

lemma ring_push_room:
  assumes "ring_inv rb" and "length (ring_contents rb) < ring_cap rb"
  shows "\<exists>rb'. ring_buffer_push v rb = (rb', True) \<and> ring_inv rb' \<and> ring_cap rb' = ring_cap rb \<and>
     ring_contents rb' = ring_contents rb @ [v]"
proof -
  let ?h = "unat (head rb)" and ?t = "unat (tail rb)" and ?c = "unat (capacity rb)"
  let ?next = "(head rb + 1) mod capacity rb"
  let ?rb = "rb\<lparr>storage := (storage rb)[?h := v], head := ?next\<rparr>"
  have b: "?h < ?c" "?t < ?c" "head rb < capacity rb" "length (storage rb) = ?c"
    using assms(1) by (auto simp: ring_inv_def word_less_nat_alt)
  have next_unat: "unat ?next = Suc ?h mod ?c" by (rule unat_succ_mod [OF b(3)])
  have room: "Suc ?h mod ?c \<noteq> ?t"
    using circ_count_full [OF b(1,2)] assms(2) by (auto simp: ring_contents_def ring_count_def ring_cap_def)
  then have ne: "?next \<noteq> tail rb" using next_unat by auto
  have "?next < capacity rb" using b(1) next_unat by (simp add: word_less_nat_alt)
  then have inv: "ring_inv ?rb" using assms(1) by (simp add: ring_inv_def)
  have count: "ring_count ?rb = Suc (ring_count rb)"
    using circ_count_push(1) [OF b(1,2) room] by (simp add: ring_count_def next_unat)
  have "ring_contents ?rb = circ ((storage rb)[?h := v]) ?t (Suc (ring_count rb))"
    by (simp add: ring_contents_def count)
  also have "\<dots> = ring_contents rb @ [v]"
    using ring_count_less [OF assms(1)] b(4) circ_push [of "ring_count rb" "storage rb" ?t v]
    by (simp add: ring_contents_def ring_head [OF assms(1)])
  finally show ?thesis using inv ne
    by (intro exI [of _ ?rb]) (simp add: ring_buffer_push_def ring_cap_def)
qed

lemma ring_pop_some:
  assumes "ring_inv rb" and "ring_contents rb = y # ys"
  shows "\<exists>rb'. ring_buffer_pop rb = (rb', Some y) \<and> ring_inv rb' \<and> ring_cap rb' = ring_cap rb \<and>
     ring_contents rb' = ys"
proof -
  let ?h = "unat (head rb)" and ?t = "unat (tail rb)" and ?c = "unat (capacity rb)"
  let ?rb = "rb\<lparr>tail := (tail rb + 1) mod capacity rb\<rparr>"
  have b: "?h < ?c" "?t < ?c" "tail rb < capacity rb" "length (storage rb) = ?c"
    using assms(1) by (auto simp: ring_inv_def word_less_nat_alt)
  have next_unat: "unat ((tail rb + 1) mod capacity rb) = Suc ?t mod ?c"
    by (rule unat_succ_mod [OF b(3)])
  have ne: "tail rb \<noteq> head rb"
    using assms(2) by (auto simp: ring_contents_def ring_count_def)
  then have count: "ring_count rb = Suc (ring_count ?rb)"
    using circ_count_pop [OF b(1,2)] by (auto simp: ring_count_def next_unat word_unat_eq_iff)
  have "(tail rb + 1) mod capacity rb < capacity rb"
    using b(2) next_unat by (simp add: word_less_nat_alt)
  then have inv: "ring_inv ?rb" using assms(1) by (simp add: ring_inv_def)
  have "ring_contents rb = storage rb ! ?t # circ (storage rb) (Suc ?t mod length (storage rb)) (ring_count ?rb)"
    using b unfolding circ_mod by (simp add: ring_contents_def count circ_Suc)
  then have "ring_contents rb = storage rb ! ?t # ring_contents ?rb"
    unfolding b(4) by (simp add: ring_contents_def next_unat)
  then show ?thesis using assms(2) ne inv
    by (intro exI [of _ ?rb]) (simp add: ring_buffer_pop_def ring_cap_def)
qed

interpretation ring: bounded_queue ring_inv ring_contents ring_cap ring_buffer_push ring_buffer_pop
proof
  fix rb :: ring_buffer and v
  assume inv: "ring_inv rb"
  have b: "unat (head rb) < unat (capacity rb)" "unat (tail rb) < unat (capacity rb)"
    and hc: "head rb < capacity rb"
    using inv by (auto simp: ring_inv_def word_less_nat_alt)
  show "length (ring_contents rb) \<le> ring_cap rb"
    using ring_count_less [OF inv] by (simp add: ring_contents_def ring_cap_def)
  show "ring_buffer_push v rb = (rb, False)" if "length (ring_contents rb) = ring_cap rb"
  proof -
    have "Suc (unat (head rb)) mod unat (capacity rb) = unat (tail rb)"
      using that b by (simp add: circ_count_full ring_contents_def ring_count_def ring_cap_def)
    then have "(head rb + 1) mod capacity rb = tail rb"
      by (simp add: word_unat_eq_iff unat_succ_mod [OF hc])
    then show ?thesis by (simp add: ring_buffer_push_def)
  qed
  show "ring_buffer_pop rb = (rb, None)" if "ring_contents rb = []"
  proof -
    have "ring_count rb = 0" using that by (metis length_circ list.size(3) ring_contents_def)
    then have "tail rb = head rb"
      using circ_count_pop [OF b] by (auto simp: ring_count_def word_unat_eq_iff)
    then show ?thesis by (simp add: ring_buffer_pop_def)
  qed
qed (fact ring_push_room ring_pop_some)+

lemma ring_inv_init [inv_intros]:
  "length st = unat n \<Longrightarrow> 0 < n \<Longrightarrow> ring_inv (ring_buffer_init st n)"
  by (simp add: ring_inv_def ring_buffer_init_def)

lemma ring_contents_init [simp]: "ring_contents (ring_buffer_init st n) = []"
  by (simp add: ring_contents_def ring_count_def ring_buffer_init_def)

section \<open>Properties\<close>

text \<open>
  The ring buffer is a bounded first-in first-out queue. In any sequence of pushes and pops from a
  consistent ring, every index stays inside the storage, at most \<open>capacity - 1\<close> bytes are held,
  and the bytes held at the start followed by those accepted are exactly those popped followed by
  those still held: no byte is lost, duplicated or reordered (a push into a full ring is refused).
\<close>

theorem ring_buffer_fifo:
  assumes "ring_inv rb" and "ring.stream.run_ops ops rb = (rb', accepted, popped)"
  shows "ring_inv rb' \<and> length (ring_contents rb') \<le> unat (capacity rb) - 1 \<and>
     ring_contents rb @ accepted = popped @ ring_contents rb'"
  using ring.stream.run_ops_fifo [OF assms] ring.bounded [of rb'] by (simp add: ring_cap_def)

definition ring_example :: ring_buffer where
  "ring_example = ring_buffer_init [0, 0, 0, 0] 4"

theorem ring_buffer_fifo_witness:
  "ring_inv ring_example \<and>
   (\<exists>rb'. ring.stream.run_ops [Put [1, 2, 3, 4], Get 2, Put [5]] ring_example = (rb', [1, 2, 3, 5], [1, 2]) \<and>
      ring_contents rb' = [3, 5])"
proof -
  have inv: "ring_inv ring_example" by (simp add: ring_example_def inv_intros)
  obtain rb' acc out where r: "ring.stream.run_ops [Put [1, 2, 3, 4], Get 2, Put [5]] ring_example = (rb', acc, out)"
    by (metis prod_cases3)
  have two: "ring.get_n 2 s = ring.get_n (Suc (Suc 0)) s" for s by (simp add: numeral_2_eq_2)
  have "acc = [1, 2, 3, 5] \<and> out = [1, 2]"
    using r by (simp add: ring_example_def ring_buffer_init_def ring_buffer_push_def ring_buffer_pop_def
        ring_contents_def ring_count_def ring_cap_def Let_def circ_def two)
  then show ?thesis using ring_buffer_fifo [OF inv r] inv r
    by (auto simp: ring_example_def)
qed

end
