(* ===== verification/Pmm.thy ===== *)
theory Pmm
  imports E820
begin

text \<open>
  The physical frame allocator, \<open>kernel/mm/pmm.c\<close>: a bitmap with one bit for each 4 KiB frame below
  4 GiB (set = used), a free counter, and a next-fit hint. The file's statics are the fields of
  \<open>pmm_state\<close>; later components extend this record, so every operation here is a function on any
  extension of it. \<open>irq_save\<close>/\<open>irq_restore\<close> bracket each operation on a single CPU, so an operation
  is one atomic step of the model.

  The abstraction is \<open>free_set\<close>, the set of free frame numbers. The invariant says that the
  counter is its cardinality.
\<close>

definition PMM_FRAME_SIZE :: u64 where "PMM_FRAME_SIZE = 4096"
definition PMM_MAX_MEMORY :: u64 where "PMM_MAX_MEMORY = 0x100000000"
definition PMM_MAX_FRAMES :: u64 where "PMM_MAX_FRAMES = PMM_MAX_MEMORY div PMM_FRAME_SIZE"
definition PMM_BITMAP_BYTES :: u64 where "PMM_BITMAP_BYTES = PMM_MAX_FRAMES div 8"

record pmm_state = machine +
  bitmap :: "u64 \<Rightarrow> u8"
  total_frames :: u64
  free_frames :: u64
  search_hint :: u64

definition frame_of :: "u64 \<Rightarrow> u64" where
  "frame_of addr = addr div PMM_FRAME_SIZE"

definition set_used :: "u64 \<Rightarrow> 'a pmm_state_scheme \<Rightarrow> 'a pmm_state_scheme" where
  "set_used frame s =
     (if frame \<ge> PMM_MAX_FRAMES then s
      else let byte = frame div 8; b = push_bit (unat (frame mod 8)) 1 in
        if bitmap s byte AND b = 0 then
          let s = s\<lparr>bitmap := (bitmap s)(byte := bitmap s byte OR b)\<rparr> in
          if free_frames s > 0 then s\<lparr>free_frames := free_frames s - 1\<rparr> else s
        else s)"

definition set_free :: "u64 \<Rightarrow> 'a pmm_state_scheme \<Rightarrow> 'a pmm_state_scheme" where
  "set_free frame s =
     (if frame \<ge> PMM_MAX_FRAMES then s
      else let byte = frame div 8; b = push_bit (unat (frame mod 8)) 1 in
        if bitmap s byte AND b \<noteq> 0 then
          s\<lparr>bitmap := (bitmap s)(byte := bitmap s byte AND NOT b),
            free_frames := free_frames s + 1\<rparr>
        else s)"

definition is_used :: "'a pmm_state_scheme \<Rightarrow> u64 \<Rightarrow> bool" where
  "is_used s frame =
     (if frame \<ge> PMM_MAX_FRAMES then True
      else let byte = frame div 8; b = push_bit (unat (frame mod 8)) 1 in
        bitmap s byte AND b \<noteq> 0)"

definition reserve_range :: "u64 \<Rightarrow> u64 \<Rightarrow> 'a pmm_state_scheme \<Rightarrow> 'a pmm_state_scheme" where
  "reserve_range start end' s =
     (let first = frame_of start; last = frame_of (end' + PMM_FRAME_SIZE - 1)
      in for_w first last set_used s)"

text \<open>The body of \<open>pmm_init\<close>'s loop over the memory map; \<open>continue\<close> leaves the state as it is.\<close>

definition pmm_init_entry :: "e820_entry option \<Rightarrow> 'a pmm_state_scheme \<Rightarrow> 'a pmm_state_scheme" where
  "pmm_init_entry entry s =
     (case entry of
        None \<Rightarrow> s
      | Some e \<Rightarrow>
          if entry_type e \<noteq> E820_TYPE_USABLE then s
          else let start = entry_base e; end' = entry_base e + entry_length e in
            if start \<ge> PMM_MAX_MEMORY then s
            else let end' = (if end' > PMM_MAX_MEMORY then PMM_MAX_MEMORY else end');
                     first = frame_of (start + PMM_FRAME_SIZE - 1);
                     last = frame_of end'
              in for_w first last
                   (\<lambda>f s. (let s = set_free f s in s\<lparr>total_frames := total_frames s + 1\<rparr>)) s)"

text \<open>\<open>kernel_end\<close> is the address of the linker's symbol \<open>_kernel_end\<close>.\<close>

definition pmm_init :: "e820_buffer \<Rightarrow> u64 \<Rightarrow> 'a pmm_state_scheme \<Rightarrow> 'a pmm_state_scheme" where
  "pmm_init b kernel_end s =
     (let s = for_w 0 PMM_BITMAP_BYTES (\<lambda>i s. s\<lparr>bitmap := (bitmap s)(i := 0xFF)\<rparr>) s;
          s = s\<lparr>total_frames := 0, free_frames := 0, search_hint := 0\<rparr>;
          s = for_w 0 (e820_entry_count b) (\<lambda>i s. pmm_init_entry (e820_get_entry b i) s) s;
          s = reserve_range 0 0x8200 s;
          s = reserve_range 0x80000 0xA0000 s;
          s = reserve_range 0x8200 kernel_end s
      in reserve_range 0xB8000 (0xB8000 + 4000) s)"

text \<open>The loop of \<open>pmm_alloc_frame\<close>: the first free frame, cyclically from the hint.\<close>

function alloc_scan :: "'a pmm_state_scheme \<Rightarrow> u64 \<Rightarrow> u64 option" where
  "alloc_scan s i =
     (if i < PMM_MAX_FRAMES then
        let f = (search_hint s + i) mod PMM_MAX_FRAMES in
        if \<not> is_used s f then Some f else alloc_scan s (i + 1)
      else None)"
  by pat_completeness auto
termination
  by (relation "measure (\<lambda>(_, i). unat PMM_MAX_FRAMES - unat i)")
    (auto simp: unat_plus_one_less word_less_nat_alt intro!: diff_less_mono2)

declare alloc_scan.simps [simp del]

definition pmm_alloc_frame :: "'a pmm_state_scheme \<Rightarrow> 'a pmm_state_scheme \<times> u64" where
  "pmm_alloc_frame s =
     (case alloc_scan s 0 of
        Some f \<Rightarrow> let s = set_used f s; s = s\<lparr>search_hint := f + 1\<rparr>
                  in (s, f * PMM_FRAME_SIZE)
      | None \<Rightarrow> (s, 0))"

definition pmm_alloc_zeroed_frame :: "'a pmm_state_scheme \<Rightarrow> 'a pmm_state_scheme \<times> u64" where
  "pmm_alloc_zeroed_frame s =
     (let (s, frame) = pmm_alloc_frame s in
      if frame = 0 then (s, 0)
      else (s\<lparr>phys_mem := for_w 0 PMM_FRAME_SIZE (\<lambda>i m. m(frame + i := 0)) (phys_mem s)\<rparr>, frame))"

text \<open>The loop of \<open>pmm_alloc_contiguous\<close>: the start of the first run of \<open>count\<close> free frames.\<close>

function contiguous_scan ::
  "'a pmm_state_scheme \<Rightarrow> u64 \<Rightarrow> u64 \<Rightarrow> u64 \<Rightarrow> u64 \<Rightarrow> u64 option" where
  "contiguous_scan s count f run_start run_len =
     (if f < PMM_MAX_FRAMES then
        if \<not> is_used s f then
          let run_start = (if run_len = 0 then f else run_start); run_len = run_len + 1 in
          if run_len = count then Some run_start
          else contiguous_scan s count (f + 1) run_start run_len
        else contiguous_scan s count (f + 1) run_start 0
      else None)"
  by pat_completeness auto
termination
  by (relation "measure (\<lambda>(_, _, f, _, _). unat PMM_MAX_FRAMES - unat f)")
    (auto simp: unat_plus_one_less word_less_nat_alt intro!: diff_less_mono2)

declare contiguous_scan.simps [simp del]

definition pmm_alloc_contiguous :: "u64 \<Rightarrow> 'a pmm_state_scheme \<Rightarrow> 'a pmm_state_scheme \<times> u64" where
  "pmm_alloc_contiguous count s =
     (if count = 0 then (s, 0)
      else case contiguous_scan s count 0 0 0 of
        Some run_start \<Rightarrow>
          (for_w 0 count (\<lambda>i. set_used (run_start + i)) s, run_start * PMM_FRAME_SIZE)
      | None \<Rightarrow> (s, 0))"

definition pmm_free_frame :: "u64 \<Rightarrow> 'a pmm_state_scheme \<Rightarrow> 'a pmm_state_scheme" where
  "pmm_free_frame addr s = set_free (frame_of addr) s"

definition pmm_total_frames :: "'a pmm_state_scheme \<Rightarrow> u64" where
  "pmm_total_frames s = total_frames s"

definition pmm_free_frames :: "'a pmm_state_scheme \<Rightarrow> u64" where
  "pmm_free_frames s = free_frames s"

section \<open>Abstraction and invariant\<close>

definition free_set :: "'a pmm_state_scheme \<Rightarrow> u64 set" where
  "free_set s = {f. \<not> is_used s f}"

definition pmm_inv :: "'a pmm_state_scheme \<Rightarrow> bool" where
  "pmm_inv s \<longleftrightarrow> unat (free_frames s) = card (free_set s)"

lemmas pmm_const_defs = PMM_FRAME_SIZE_def PMM_MAX_MEMORY_def PMM_MAX_FRAMES_def PMM_BITMAP_BYTES_def

lemma PMM_MAX_FRAMES_eq: "PMM_MAX_FRAMES = 0x100000"
  by (simp add: pmm_const_defs)

section \<open>The bitmap as a set of frames\<close>

lemma frame_bit_less: "unat (f mod 8) < 8" for f :: u64
  using mod_less_divisor [of 8 "unat f"] by (simp add: unat_mod)

lemma frame_bit_eqI:
  fixes f g :: u64
  assumes "f div 8 = g div 8" and "unat (f mod 8) = unat (g mod 8)"
  shows "f = g"
proof -
  have "f mod 8 = g mod 8" using assms(2) by (simp add: word_unat_eq_iff)
  then show ?thesis using assms(1) by (metis div_mult_mod_eq)
qed

lemma is_used_bit:
  "is_used s f \<longleftrightarrow> f \<ge> PMM_MAX_FRAMES \<or> bit (bitmap s (f div 8)) (unat (f mod 8))"
  by (simp add: is_used_def Let_def)

lemma is_used_set_used [simp]: "is_used (set_used f s) g \<longleftrightarrow> is_used s g \<or> g = f"
  using frame_bit_less [of f] frame_bit_eqI [of g f]
  by (auto simp: is_used_bit set_used_def Let_def bit_or_exp)

lemma is_used_set_free [simp]:
  "is_used (set_free f s) g \<longleftrightarrow> is_used s g \<and> (g = f \<longrightarrow> f \<ge> PMM_MAX_FRAMES)"
  using frame_bit_less [of f] frame_bit_eqI [of g f]
  by (auto simp: is_used_bit set_free_def Let_def bit_and_not_exp)

lemma free_set_below: "f \<in> free_set s \<Longrightarrow> f < PMM_MAX_FRAMES"
  by (simp add: free_set_def is_used_bit not_le)

lemma finite_free_set [simp]: "finite (free_set s)"
  by (rule finite_subset [OF subset_UNIV]) simp

lemma card_free_set: "card (free_set s) \<le> 0x100000"
proof -
  have "unat ` free_set s \<subseteq> {..<0x100000}"
    by (auto dest!: free_set_below simp: PMM_MAX_FRAMES_eq word_less_nat_alt)
  then have "card (unat ` free_set s) \<le> card {..<0x100000::nat}"
    by (rule card_mono [OF finite_lessThan])
  moreover have "card (unat ` free_set s) = card (free_set s)"
    by (rule card_image) (simp add: inj_on_def word_unat_eq_iff)
  ultimately show ?thesis by simp
qed

lemma free_set_set_used [simp]: "free_set (set_used f s) = free_set s - {f}"
  by (auto simp: free_set_def)

lemma free_set_set_free [simp]:
  "free_set (set_free f s) = (if f < PMM_MAX_FRAMES then insert f (free_set s) else free_set s)"
  by (auto simp: free_set_def not_le)

lemma free_frames_set_used:
  "free_frames (set_used f s) =
     (if f \<in> free_set s \<and> free_frames s > 0 then free_frames s - 1 else free_frames s)"
  by (auto simp: set_used_def free_set_def is_used_bit Let_def)

lemma free_frames_set_free:
  "free_frames (set_free f s) =
     (if f < PMM_MAX_FRAMES \<and> f \<notin> free_set s then free_frames s + 1 else free_frames s)"
  by (auto simp: set_free_def free_set_def is_used_bit Let_def)

lemma pmm_inv_set_used [inv_intros]: "pmm_inv (set_used f s)" if "pmm_inv s"
proof (cases "f \<in> free_set s")
  case True
  then have "card (free_set s) > 0" by (auto simp: card_gt_0_iff)
  with that have pos: "free_frames s > 0"
    by (simp add: pmm_inv_def word_less_nat_alt)
  then have "unat (free_frames s - 1) = unat (free_frames s) - 1"
    by (intro unat_sub_if' [THEN trans]) (simp add: word_le_nat_alt word_less_nat_alt Suc_le_eq)
  with True that pos show ?thesis
    by (simp add: pmm_inv_def free_frames_set_used)
next
  case False
  then show ?thesis using that by (simp add: pmm_inv_def free_frames_set_used)
qed

lemma pmm_inv_set_free [inv_intros]: "pmm_inv (set_free f s)" if "pmm_inv s"
proof (cases "f < PMM_MAX_FRAMES \<and> f \<notin> free_set s")
  case True
  have "unat (free_frames s) \<le> 0x100000" using that card_free_set [of s] by (simp add: pmm_inv_def)
  then have "unat (free_frames s + 1) = Suc (unat (free_frames s))"
    by (simp add: unat_word_ariths)
  with True that show ?thesis by (simp add: pmm_inv_def free_frames_set_free)
next
  case False
  then show ?thesis using that by (auto simp: pmm_inv_def free_frames_set_free insert_absorb)
qed

lemma pmm_inv_hint [simp]: "pmm_inv (s\<lparr>search_hint := h\<rparr>) = pmm_inv s"
  by (simp add: pmm_inv_def free_set_def is_used_bit)

lemma pmm_inv_total [simp]: "pmm_inv (s\<lparr>total_frames := n\<rparr>) = pmm_inv s"
  by (simp add: pmm_inv_def free_set_def is_used_bit)

lemma is_used_upd [simp]:
  "is_used (s\<lparr>search_hint := h\<rparr>) f = is_used s f"
  "is_used (s\<lparr>total_frames := n\<rparr>) f = is_used s f"
  "is_used (s\<lparr>free_frames := n\<rparr>) f = is_used s f"
  "is_used (s\<lparr>phys_mem := m\<rparr>) f = is_used s f"
  by (simp_all add: is_used_bit)

lemma free_set_upd [simp]:
  "free_set (s\<lparr>search_hint := h\<rparr>) = free_set s"
  "free_set (s\<lparr>total_frames := n\<rparr>) = free_set s"
  "free_set (s\<lparr>free_frames := n\<rparr>) = free_set s"
  "free_set (s\<lparr>phys_mem := m\<rparr>) = free_set s"
  by (simp_all add: free_set_def)

section \<open>What the allocator leaves alone\<close>

text \<open>
  \<open>pmm_clear\<close> forgets the allocator's own fields; \<open>pmm_frame s t\<close> says that two states differ in
  those fields only. A field of an extension of the record reads the same in both.
\<close>

definition pmm_clear :: "'a pmm_state_scheme \<Rightarrow> 'a pmm_state_scheme" where
  "pmm_clear s = s\<lparr>bitmap := \<lambda>_. 0, total_frames := 0, free_frames := 0, search_hint := 0\<rparr>"

definition pmm_frame :: "'a pmm_state_scheme \<Rightarrow> 'a pmm_state_scheme \<Rightarrow> bool" where
  "pmm_frame s t \<longleftrightarrow> pmm_clear t = pmm_clear s"

lemma pmm_frame_refl [simp]: "pmm_frame s s"
  by (simp add: pmm_frame_def)

lemma pmm_frame_trans: "pmm_frame s t \<Longrightarrow> pmm_frame t u \<Longrightarrow> pmm_frame s u"
  by (simp add: pmm_frame_def)

text \<open>The rule with which a later component reads its own fields through an allocator call.\<close>

lemma pmm_frame_field:
  "pmm_frame s t \<Longrightarrow> (\<And>u. sel (pmm_clear u) = sel u) \<Longrightarrow> sel t = sel s"
  by (metis pmm_frame_def)

lemma pmm_frame_phys_mem: "pmm_frame s t \<Longrightarrow> phys_mem t = phys_mem s"
  by (erule pmm_frame_field) (simp add: pmm_clear_def)

lemma pmm_frame_upd [simp]:
  "pmm_frame s (t\<lparr>bitmap := b\<rparr>) = pmm_frame s t"
  "pmm_frame s (t\<lparr>total_frames := n\<rparr>) = pmm_frame s t"
  "pmm_frame s (t\<lparr>free_frames := n\<rparr>) = pmm_frame s t"
  "pmm_frame s (t\<lparr>search_hint := n\<rparr>) = pmm_frame s t"
  by (simp_all add: pmm_frame_def pmm_clear_def)

lemma pmm_frame_set_used [simp]: "pmm_frame s (set_used f t) = pmm_frame s t"
  by (simp add: set_used_def Let_def)

lemma pmm_frame_set_free [simp]: "pmm_frame s (set_free f t) = pmm_frame s t"
  by (simp add: set_free_def Let_def)

lemma phys_mem_set_free [simp]: "phys_mem (set_free f s) = phys_mem s"
  by (rule pmm_frame_phys_mem) simp

text \<open>The bitmap and the counter change in the same way in every extension of the record.\<close>

lemma set_free_cong:
  fixes s :: "'a pmm_state_scheme" and t :: "'b pmm_state_scheme"
  assumes "bitmap s = bitmap t" and "free_frames s = free_frames t"
  shows "bitmap (set_free f s) = bitmap (set_free f t)" and "free_frames (set_free f s) = free_frames (set_free f t)"
  using assms by (simp_all add: set_free_def Let_def)

lemma pmm_frame_for_w:
  "(\<And>j t. pmm_frame s (body j t) = pmm_frame s t) \<Longrightarrow> pmm_frame s t \<Longrightarrow> pmm_frame s (for_w i n body t)"
  by (rule for_w_keeps [where P = "pmm_frame s"]) simp_all

lemma pmm_frame_alloc_frame: "pmm_frame s (fst (pmm_alloc_frame s))"
  by (simp add: pmm_alloc_frame_def Let_def split: option.split)

lemma pmm_frame_alloc_contiguous: "pmm_frame s (fst (pmm_alloc_contiguous n s))"
  by (simp add: pmm_alloc_contiguous_def pmm_frame_for_w split: option.split)

lemma pmm_frame_free_frame: "pmm_frame s (pmm_free_frame a s)"
  by (simp add: pmm_free_frame_def)

section \<open>Single frames\<close>

lemma alloc_scan_Some:
  "alloc_scan s i = Some f \<Longrightarrow>
     \<exists>j. i \<le> j \<and> j < PMM_MAX_FRAMES \<and> f = (search_hint s + j) mod PMM_MAX_FRAMES \<and> \<not> is_used s f \<and>
         (\<forall>k. i \<le> k \<and> k < j \<longrightarrow> is_used s ((search_hint s + k) mod PMM_MAX_FRAMES))"
proof (induction s i rule: alloc_scan.induct)
  case (1 s i)
  let ?f = "(search_hint s + i) mod PMM_MAX_FRAMES"
  have i: "i < PMM_MAX_FRAMES" using "1.prems" by (subst (asm) alloc_scan.simps) (auto split: if_splits)
  show ?case
  proof (cases "is_used s ?f")
    case False
    with "1.prems" i have "f = ?f" by (subst (asm) alloc_scan.simps) (simp add: Let_def)
    with False i show ?thesis by auto
  next
    case True
    with "1.prems" i have "alloc_scan s (i + 1) = Some f"
      by (subst (asm) alloc_scan.simps) (simp add: Let_def)
    from "1.IH" [OF i refl _ this] True obtain j where j: "i + 1 \<le> j" "j < PMM_MAX_FRAMES"
      "f = (search_hint s + j) mod PMM_MAX_FRAMES" "\<not> is_used s f"
      "\<forall>k. i + 1 \<le> k \<and> k < j \<longrightarrow> is_used s ((search_hint s + k) mod PMM_MAX_FRAMES)" by auto
    have step: "i + 1 \<le> k \<longleftrightarrow> i \<le> k \<and> i \<noteq> k" for k
      using unat_plus_one_less [OF i] by (auto simp: word_le_nat_alt word_unat_eq_iff)
    show ?thesis using j True unfolding step by metis
  qed
qed

lemma alloc_scan_None:
  "alloc_scan s i = None \<Longrightarrow> i \<le> j \<Longrightarrow> j < PMM_MAX_FRAMES \<Longrightarrow>
     is_used s ((search_hint s + j) mod PMM_MAX_FRAMES)"
proof (induction s i rule: alloc_scan.induct)
  case (1 s i)
  then have i: "i < PMM_MAX_FRAMES" by auto
  let ?f = "(search_hint s + i) mod PMM_MAX_FRAMES"
  from "1.prems"(1) i have used: "is_used s ?f" and rest: "alloc_scan s (i + 1) = None"
    by (subst (asm) alloc_scan.simps; auto simp: Let_def split: if_splits)+
  have step: "i \<noteq> j \<Longrightarrow> i + 1 \<le> j"
    using unat_plus_one_less [OF i] "1.prems"(2) by (auto simp: word_le_nat_alt word_unat_eq_iff)
  show ?case
    using "1.IH" [OF i refl _ rest] used step "1.prems"(3) by auto
qed

text \<open>
  The scan reaches every frame, whatever the hint: \<open>PMM_MAX_FRAMES\<close> divides \<open>2^64\<close>, so the
  wrap-around of \<open>search_hint + i\<close> agrees with the remainder.
\<close>

lemma scan_reaches:
  assumes "f < PMM_MAX_FRAMES"
  shows "\<exists>j < PMM_MAX_FRAMES. (h + j) mod PMM_MAX_FRAMES = f"
proof -
  let ?j = "(f - h) mod PMM_MAX_FRAMES"
  have "?j < PMM_MAX_FRAMES"
    by (rule word_mod_less_divisor) (simp add: PMM_MAX_FRAMES_eq)
  moreover have "uint ((h + ?j) mod PMM_MAX_FRAMES) = uint f mod uint PMM_MAX_FRAMES"
    by (simp add: PMM_MAX_FRAMES_eq uint_word_ariths uint_mod mod_mod_cancel mod_simps)
  then have "(h + ?j) mod PMM_MAX_FRAMES = f mod PMM_MAX_FRAMES"
    by (simp add: word_uint_eq_iff uint_mod)
  ultimately show ?thesis using assms by (metis mod_word_less)
qed

lemma alloc_scan_None_iff: "alloc_scan s 0 = None \<longleftrightarrow> free_set s = {}"
proof
  assume none: "alloc_scan s 0 = None"
  show "free_set s = {}"
  proof (rule ccontr)
    assume "free_set s \<noteq> {}"
    then obtain f where "f \<in> free_set s" by blast
    then obtain j where "j < PMM_MAX_FRAMES" "(search_hint s + j) mod PMM_MAX_FRAMES = f"
      using scan_reaches free_set_below by metis
    with alloc_scan_None [OF none, of j] \<open>f \<in> free_set s\<close> show False
      by (simp add: free_set_def)
  qed
next
  assume "free_set s = {}"
  then show "alloc_scan s 0 = None"
    using alloc_scan_Some [of s 0] by (cases "alloc_scan s 0") (auto simp: free_set_def)
qed

lemma frame_address:
  assumes "f < PMM_MAX_FRAMES"
  shows "unat (f * PMM_FRAME_SIZE) = unat f * 4096" and "frame_of (f * PMM_FRAME_SIZE) = f"
proof -
  have "unat f < 0x100000" using assms by (simp add: PMM_MAX_FRAMES_eq word_less_nat_alt)
  then show mul: "unat (f * PMM_FRAME_SIZE) = unat f * 4096"
    by (simp add: PMM_FRAME_SIZE_def unat_word_ariths)
  have "unat (f * PMM_FRAME_SIZE div PMM_FRAME_SIZE) = unat f"
    by (simp add: unat_div mul) (simp add: PMM_FRAME_SIZE_def)
  then show "frame_of (f * PMM_FRAME_SIZE) = f"
    by (simp add: frame_of_def word_unat_eq_iff)
qed

section \<open>Contiguous runs\<close>

definition free_run :: "'a pmm_state_scheme \<Rightarrow> u64 \<Rightarrow> u64 \<Rightarrow> bool" where
  "free_run s a n \<longleftrightarrow> (\<forall>i<n. \<not> is_used s (a + i))"

text \<open>
  What the loop of \<open>pmm_alloc_contiguous\<close> knows at frame \<open>f\<close>: the last \<open>run_len\<close> frames are free,
  fewer than \<open>count\<close> of them, and no run of \<open>count\<close> free frames starts before them.
\<close>

definition scan_inv :: "'a pmm_state_scheme \<Rightarrow> u64 \<Rightarrow> u64 \<Rightarrow> u64 \<Rightarrow> u64 \<Rightarrow> bool" where
  "scan_inv s count f run_start run_len \<longleftrightarrow>
     f \<le> PMM_MAX_FRAMES \<and> run_len < count \<and> run_len \<le> f \<and> (run_len \<noteq> 0 \<longrightarrow> run_start = f - run_len) \<and>
     free_run s (f - run_len) run_len \<and> (\<forall>a. free_run s a count \<longrightarrow> f - run_len \<le> a)"

lemma used_blocks_run:
  assumes "is_used s f" and "free_run s a count" and "f - n \<le> a" and "n < count" and "n \<le> f"
  shows "f < a"
proof (rule ccontr)
  assume "\<not> f < a"
  then have "f - a \<le> n" using assms(3,5) by (auto simp: word_le_nat_alt not_less unat_sub_if')
  then have "f - a < count" using assms(4) by (rule order_le_less_trans)
  with assms(2) have "\<not> is_used s (a + (f - a))" unfolding free_run_def by blast
  with assms(1) show False by simp
qed

lemma free_run_extend:
  assumes "free_run s a n" and "\<not> is_used s (a + n)" and "n < m"
  shows "free_run s a (n + 1)"
proof -
  have "i < n + 1 \<longleftrightarrow> i < n \<or> i = n" for i
    by (rule less_plus_one_iff [OF assms(3)])
  then show ?thesis using assms by (auto simp: free_run_def)
qed

lemma contiguous_scan_correct:
  "scan_inv s count f rs rl \<Longrightarrow>
     (case contiguous_scan s count f rs rl of
        Some a \<Rightarrow> free_run s a count \<and> (\<forall>b. free_run s b count \<longrightarrow> a \<le> b)
      | None \<Rightarrow> \<forall>b. \<not> free_run s b count)"
proof (induction s count f rs rl rule: contiguous_scan.induct)
  case (1 s count f rs rl)
  let ?rs = "if rl = 0 then f else rs"
  note inv = "1.prems" [unfolded scan_inv_def]
  show ?case
  proof (cases "f < PMM_MAX_FRAMES")
    case f: True
    have f1: "unat (f + 1) = Suc (unat f)" using unat_plus_one_less [OF f] .
    have rl1: "unat (rl + 1) = Suc (unat rl)" using inv unat_plus_one_less [of rl count] by simp
    have diff: "f + 1 - (rl + 1) = f - rl" by simp
    show ?thesis
    proof (cases "is_used s f")
      case used: True
      have "scan_inv s count (f + 1) rs 0"
      proof -
        have "f + 1 \<le> b" if "free_run s b count" for b
          using used_blocks_run [OF used that, of rl] inv that f1 by (simp add: word_le_nat_alt word_less_nat_alt)
        moreover have "f + 1 \<le> PMM_MAX_FRAMES" using f f1 by (simp add: word_le_nat_alt word_less_nat_alt)
        moreover have "0 < count" using inv by (simp add: word_less_nat_alt)
        ultimately show ?thesis by (simp add: scan_inv_def free_run_def)
      qed
      then show ?thesis
        using "1.IH"(2) f used by (subst contiguous_scan.simps) simp
    next
      case free: False
      have rs: "?rs = f - rl" using inv by auto
      have run: "free_run s (f - rl) (rl + 1)"
        by (rule free_run_extend [of _ _ _ count]) (use inv free in auto)
      show ?thesis
      proof (cases "rl + 1 = count")
        case True
        then show ?thesis
          using f free run inv rs by (subst contiguous_scan.simps) (auto simp: Let_def)
      next
        case False
        have "scan_inv s count (f + 1) ?rs (rl + 1)"
          unfolding scan_inv_def diff
          using f inv run rs False f1 rl1
          by (auto simp: word_le_nat_alt word_less_nat_alt word_unat_eq_iff)
        then show ?thesis
          using "1.IH"(1) [OF f free refl refl False] f free False
          by (subst contiguous_scan.simps) (simp add: Let_def)
      qed
    qed
  next
    case False
    then have "f = PMM_MAX_FRAMES" using inv by simp
    then have used: "is_used s f" by (simp add: is_used_bit)
    have "\<not> free_run s b count" for b
    proof
      assume b: "free_run s b count"
      have "f < b" using used_blocks_run [OF used b, of rl] inv b by blast
      moreover have "0 < count" using inv by (simp add: word_less_nat_alt)
      ultimately show False
        using b \<open>f = PMM_MAX_FRAMES\<close> by (auto simp: free_run_def is_used_bit dest!: spec [of _ 0])
    qed
    with False show ?thesis by (subst contiguous_scan.simps) simp
  qed
qed

lemma contiguous_scan_start:
  assumes "count \<noteq> 0"
  shows "case contiguous_scan s count 0 0 0 of
        Some a \<Rightarrow> free_run s a count \<and> (\<forall>b. free_run s b count \<longrightarrow> a \<le> b)
      | None \<Rightarrow> \<forall>b. \<not> free_run s b count"
proof (rule contiguous_scan_correct)
  show "scan_inv s count 0 0 0"
    using assms by (simp add: scan_inv_def free_run_def word_gt_0)
qed

lemma is_used_mark_run:
  "is_used (for_w 0 n (\<lambda>i. set_used (a + i)) s) g \<longleftrightarrow> is_used s g \<or> g - a < n"
proof (rule for_w_invariant [where P = "\<lambda>j t. \<forall>g. is_used t g \<longleftrightarrow> is_used s g \<or> g - a < j", THEN spec])
  fix j t
  assume j: "j < n" and t: "\<forall>g. is_used t g \<longleftrightarrow> is_used s g \<or> g - a < j"
  have "g - a < j + 1 \<longleftrightarrow> g - a < j \<or> g = a + j" for g
    unfolding less_plus_one_iff [OF j] by (auto simp: algebra_simps)
  with t show "\<forall>g. is_used (set_used (a + j) t) g \<longleftrightarrow> is_used s g \<or> g - a < j + 1"
    by auto
qed simp_all

lemma free_run_bounds:
  assumes "free_run s a n" and "n \<noteq> 0"
  shows "unat a + unat n \<le> 0x100000"
proof (rule ccontr)
  assume "\<not> ?thesis"
  then have big: "0x100000 < unat a + unat n" by simp
  from assms have "\<not> is_used s (a + 0)" unfolding free_run_def by (metis word_gt_0)
  then have a: "unat a < 0x100000" by (simp add: is_used_bit not_le PMM_MAX_FRAMES_eq word_less_nat_alt)
  let ?i = "PMM_MAX_FRAMES - a"
  have "unat ?i = 0x100000 - unat a"
    using a by (simp add: PMM_MAX_FRAMES_eq unat_sub_if' word_le_nat_alt)
  then have "unat ?i < unat n" using big a by linarith
  then have "?i < n" by (simp add: word_less_nat_alt)
  with assms(1) have "\<not> is_used s (a + ?i)" unfolding free_run_def by blast
  then show False by (simp add: is_used_bit)
qed

lemma pmm_inv_mark_run: "pmm_inv s \<Longrightarrow> pmm_inv (for_w 0 n (\<lambda>i. set_used (a + i)) s)"
  by (rule for_w_keeps [where P = pmm_inv]) (simp_all add: inv_intros)

lemma pmm_alloc_contiguous_cases:
  obtains (none) "pmm_alloc_contiguous n s = (s, 0)" and "n = 0 \<or> (\<forall>b. \<not> free_run s b n)"
  | (run) a t where "pmm_alloc_contiguous n s = (t, a * PMM_FRAME_SIZE)" and "n \<noteq> 0"
      and "free_run s a n" and "\<forall>b. free_run s b n \<longrightarrow> a \<le> b"
      and "free_set t = {f \<in> free_set s. \<not> f - a < n}" and "pmm_inv s \<longrightarrow> pmm_inv t"
      and "pmm_frame s t"
proof (cases "n = 0")
  case True
  then show ?thesis using none by (simp add: pmm_alloc_contiguous_def)
next
  case n: False
  show ?thesis
  proof (cases "contiguous_scan s n 0 0 0")
    case None
    then show ?thesis using none n contiguous_scan_start [OF n, of s] by (simp add: pmm_alloc_contiguous_def)
  next
    case (Some a)
    let ?t = "for_w 0 n (\<lambda>i. set_used (a + i)) s"
    have "pmm_alloc_contiguous n s = (?t, a * PMM_FRAME_SIZE)"
      using n Some by (simp add: pmm_alloc_contiguous_def)
    moreover have "free_set ?t = {f \<in> free_set s. \<not> f - a < n}"
      by (auto simp: free_set_def is_used_mark_run)
    moreover have "pmm_frame s ?t" by (rule pmm_frame_for_w) simp_all
    moreover have "free_run s a n \<and> (\<forall>b. free_run s b n \<longrightarrow> a \<le> b)"
      using Some contiguous_scan_start [OF n, of s] by simp
    ultimately show ?thesis
      using n pmm_inv_mark_run by (intro run [of ?t a]) blast+
  qed
qed

lemma pmm_alloc_frame_cases:
  obtains (none) "pmm_alloc_frame s = (s, 0)" and "free_set s = {}"
  | (frame) f j t where "pmm_alloc_frame s = (t, f * PMM_FRAME_SIZE)" and "f \<in> free_set s"
      and "j < PMM_MAX_FRAMES" and "f = (search_hint s + j) mod PMM_MAX_FRAMES"
      and "\<forall>k<j. (search_hint s + k) mod PMM_MAX_FRAMES \<notin> free_set s"
      and "free_set t = free_set s - {f}" and "search_hint t = f + 1"
      and "pmm_inv s \<longrightarrow> pmm_inv t" and "pmm_frame s t"
proof (cases "alloc_scan s 0")
  case None
  then show ?thesis using none alloc_scan_None_iff [of s] by (simp add: pmm_alloc_frame_def)
next
  case (Some f)
  let ?t = "(set_used f s)\<lparr>search_hint := f + 1\<rparr>"
  have "pmm_alloc_frame s = (?t, f * PMM_FRAME_SIZE)"
    using Some by (simp add: pmm_alloc_frame_def Let_def)
  then show ?thesis
    using alloc_scan_Some [OF Some] frame pmm_inv_set_used [of s f]
    by (auto simp: free_set_def [of s])
qed

text \<open>
  Frame 0 must never be free: its address is also the failure code. \<open>pmm_ok\<close> is the invariant
  under which the callers' test \<open>frame == 0\<close> is exact.
\<close>

definition pmm_ok :: "'a pmm_state_scheme \<Rightarrow> bool" where
  "pmm_ok s \<longleftrightarrow> pmm_inv s \<and> 0 \<notin> free_set s"

lemma free_set_cong: "bitmap t = bitmap s \<Longrightarrow> free_set t = free_set s"
  by (simp add: free_set_def is_used_bit)

lemma pmm_ok_cong: "bitmap t = bitmap s \<Longrightarrow> free_frames t = free_frames s \<Longrightarrow> pmm_ok t = pmm_ok s"
  using free_set_cong [of t s] by (simp add: pmm_ok_def pmm_inv_def)

lemma frame_nonzero: "f \<in> free_set s \<Longrightarrow> 0 \<notin> free_set s \<Longrightarrow> f * PMM_FRAME_SIZE \<noteq> 0"
proof
  assume f: "f \<in> free_set s" "0 \<notin> free_set s" and zero: "f * PMM_FRAME_SIZE = 0"
  have "unat f = 0" using frame_address(1) [OF free_set_below [OF f(1)]] zero by simp
  with f show False by (simp add: unat_eq_zero)
qed

section \<open>The allocator's interface\<close>

text \<open>
  What the users of single frames (page tables, user pages) rely on: an address is handed out at
  most once until it is given back, and allocation fails only when nothing is left.
\<close>

locale frame_source =
  fixes alloc :: "'s \<Rightarrow> 's \<times> u64"
    and release :: "u64 \<Rightarrow> 's \<Rightarrow> 's"
    and avail :: "'s \<Rightarrow> u64 set"
    and ok :: "'s \<Rightarrow> bool"
    and managed :: "u64 \<Rightarrow> bool"
  assumes alloc_none: "ok s \<Longrightarrow> alloc s = (t, 0) \<Longrightarrow> avail s = {} \<and> t = s"
    and alloc_some: "ok s \<Longrightarrow> alloc s = (t, a) \<Longrightarrow> a \<noteq> 0 \<Longrightarrow>
           a \<in> avail s \<and> avail t = avail s - {a} \<and> ok t"
    and release_avail: "ok s \<Longrightarrow> managed a \<Longrightarrow> avail (release a s) = insert a (avail s)"
    and release_ok: "ok s \<Longrightarrow> managed a \<Longrightarrow> ok (release a s)"
    and avail_managed: "ok s \<Longrightarrow> a \<in> avail s \<Longrightarrow> managed a"
    and finite_avail: "finite (avail s)"
begin

text \<open>\<open>n\<close> allocations in a row, with the addresses that were returned.\<close>

fun alloc_n :: "nat \<Rightarrow> 's \<Rightarrow> 's \<times> u64 list" where
  "alloc_n 0 s = (s, [])"
| "alloc_n (Suc n) s =
     (let (s, a) = alloc s in if a = 0 then (s, []) else let (s, as) = alloc_n n s in (s, a # as))"

lemma alloc_n_fresh:
  "ok s \<Longrightarrow> alloc_n n s = (t, as) \<Longrightarrow>
     distinct as \<and> set as \<subseteq> avail s \<and> avail t = avail s - set as \<and> ok t \<and>
     length as = min n (card (avail s))"
proof (induction n arbitrary: s t as)
  case 0
  then show ?case by auto
next
  case (Suc n)
  obtain u a where a: "alloc s = (u, a)" by (cases "alloc s")
  show ?case
  proof (cases "a = 0")
    case True
    with a Suc.prems alloc_none show ?thesis by auto
  next
    case False
    obtain t' bs where bs: "alloc_n n u = (t', bs)" by (cases "alloc_n n u")
    note some = alloc_some [OF Suc.prems(1) a False]
    have IH: "distinct bs \<and> set bs \<subseteq> avail u \<and> avail t' = avail u - set bs \<and> ok t' \<and>
        length bs = min n (card (avail u))"
      using Suc.IH [OF _ bs] some by simp
    have "as = a # bs" "t = t'" using Suc.prems(2) a False bs by auto
    moreover have "card (avail s) = Suc (card (avail u))"
      using some finite_avail card.remove [of "avail s" a] by metis
    ultimately show ?thesis using IH some by auto
  qed
qed

lemma alloc_release:
  assumes "ok s" and "alloc s = (t, a)" and "a \<noteq> 0"
  shows "ok (release a t) \<and> avail (release a t) = avail s"
proof -
  note some = alloc_some [OF assms]
  have "managed a" using avail_managed [OF assms(1)] some by blast
  then show ?thesis using release_ok release_avail some by auto
qed

end

definition avail_addrs :: "'a pmm_state_scheme \<Rightarrow> u64 set" where
  "avail_addrs s = (\<lambda>f. f * PMM_FRAME_SIZE) ` free_set s"

definition managed_addr :: "u64 \<Rightarrow> bool" where
  "managed_addr a \<longleftrightarrow> (\<exists>f. f \<noteq> 0 \<and> f < PMM_MAX_FRAMES \<and> a = f * PMM_FRAME_SIZE)"

lemma frame_address_inj:
  "f < PMM_MAX_FRAMES \<Longrightarrow> g < PMM_MAX_FRAMES \<Longrightarrow> f * PMM_FRAME_SIZE = g * PMM_FRAME_SIZE \<longleftrightarrow> f = g"
  using frame_address(2) by metis

lemma frame_addresses_inj_on: "inj_on (\<lambda>f. f * PMM_FRAME_SIZE) (free_set s)"
  by (auto intro!: inj_onI dest!: free_set_below simp: frame_address_inj)

lemma avail_addrs_remove:
  "f \<in> free_set s \<Longrightarrow> free_set t = free_set s - {f} \<Longrightarrow>
     avail_addrs t = avail_addrs s - {f * PMM_FRAME_SIZE}"
  using inj_on_image_set_diff [OF frame_addresses_inj_on [of s], of "free_set s" "{f}"]
  by (simp add: avail_addrs_def)

lemma avail_addrs_managed:
  assumes "a \<in> avail_addrs s" and "0 \<notin> free_set s"
  shows "managed_addr a"
proof -
  obtain f where f: "f \<in> free_set s" "a = f * PMM_FRAME_SIZE"
    using assms(1) by (auto simp: avail_addrs_def)
  then have "f \<noteq> 0" using assms(2) by auto
  then show ?thesis
    unfolding managed_addr_def using f free_set_below [OF f(1)] by (intro exI [of _ f]) simp
qed

interpretation pmm: frame_source pmm_alloc_frame pmm_free_frame avail_addrs pmm_ok managed_addr
proof
  fix s t :: "'a pmm_state_scheme" and a
  show "avail_addrs s = {} \<and> t = s" if "pmm_ok s" "pmm_alloc_frame s = (t, 0)"
    using that by (cases s rule: pmm_alloc_frame_cases)
      (auto simp: avail_addrs_def pmm_ok_def dest: frame_nonzero)
  show "a \<in> avail_addrs s \<and> avail_addrs t = avail_addrs s - {a} \<and> pmm_ok t"
    if "pmm_ok s" "pmm_alloc_frame s = (t, a)" "a \<noteq> 0"
    using that
  proof (cases s rule: pmm_alloc_frame_cases)
    case (frame f j u)
    with that show ?thesis
      using avail_addrs_remove [of f s u] by (auto simp: avail_addrs_def pmm_ok_def)
  qed simp
  show "avail_addrs (pmm_free_frame a s) = insert a (avail_addrs s)" if "managed_addr a"
    using that by (auto simp: avail_addrs_def pmm_free_frame_def managed_addr_def frame_address)
  show "pmm_ok (pmm_free_frame a s)" if "pmm_ok s" "managed_addr a"
    using that by (auto simp: pmm_ok_def pmm_free_frame_def managed_addr_def frame_address inv_intros)
  show "managed_addr a" if "pmm_ok s" "a \<in> avail_addrs s"
    using that avail_addrs_managed [of a s] by (simp add: pmm_ok_def)
  show "finite (avail_addrs s)" by (simp add: avail_addrs_def)
qed

section \<open>Initialisation\<close>

lemma unat_frame_of: "unat (frame_of x) = unat x div 4096"
  by (simp add: frame_of_def PMM_FRAME_SIZE_def unat_div)

text \<open>Rounding an address down and up to frames, as statements on bytes.\<close>

lemma frame_of_le_iff: "frame_of x \<le> g \<longleftrightarrow> unat x < unat g * 4096 + 4096"
  by (simp add: word_le_nat_alt unat_frame_of) linarith

lemma less_frame_of_iff: "g < frame_of x \<longleftrightarrow> unat g * 4096 + 4096 \<le> unat x"
  by (simp add: word_less_nat_alt unat_frame_of) linarith

lemma unat_plus_4095: "unat x \<le> 2 ^ 64 - 4096 \<Longrightarrow> unat (x + PMM_FRAME_SIZE - 1) = unat x + 4095"
  by (simp add: PMM_FRAME_SIZE_def unat_word_ariths)

lemma frame_up_le_iff:
  "unat x \<le> 2 ^ 64 - 4096 \<Longrightarrow> frame_of (x + PMM_FRAME_SIZE - 1) \<le> g \<longleftrightarrow> unat x \<le> unat g * 4096"
  by (subst frame_of_le_iff) (simp only: unat_plus_4095, linarith)

lemma less_frame_up_iff:
  "unat x \<le> 2 ^ 64 - 4096 \<Longrightarrow> g < frame_of (x + PMM_FRAME_SIZE - 1) \<longleftrightarrow> unat g * 4096 < unat x"
  by (subst less_frame_of_iff) (simp only: unat_plus_4095, linarith)

lemma is_used_for_set_used:
  "is_used (for_w lo hi set_used s) g \<longleftrightarrow> is_used s g \<or> (lo \<le> g \<and> g < hi)"
proof (cases "lo \<le> hi")
  case True
  have "\<forall>g. is_used (for_w lo hi set_used s) g \<longleftrightarrow> is_used s g \<or> (lo \<le> g \<and> g < hi)"
  proof (rule for_w_invariant [where P = "\<lambda>j t. \<forall>g. is_used t g \<longleftrightarrow> is_used s g \<or> (lo \<le> g \<and> g < j)"])
    fix j t
    assume j: "lo \<le> j" "j < hi" and t: "\<forall>g. is_used t g \<longleftrightarrow> is_used s g \<or> (lo \<le> g \<and> g < j)"
    have "g < j + 1 \<longleftrightarrow> g < j \<or> g = j" for g
      by (rule less_plus_one_iff [OF j(2)])
    with t j show "\<forall>g. is_used (set_used j t) g \<longleftrightarrow> is_used s g \<or> (lo \<le> g \<and> g < j + 1)"
      by auto
  qed (use True in auto)
  then show ?thesis by blast
next
  case False
  then show ?thesis by (auto simp: for_w_done)
qed

lemma is_used_for_set_free:
  fixes s :: "'a pmm_state_scheme"
  assumes "hi \<le> PMM_MAX_FRAMES"
  shows "is_used (for_w lo hi (\<lambda>f s. (let s = set_free f s in s\<lparr>total_frames := total_frames s + 1\<rparr>)) s) g
           \<longleftrightarrow> is_used s g \<and> \<not> (lo \<le> g \<and> g < hi)"
    (is "is_used (for_w lo hi ?body s) g \<longleftrightarrow> _")
proof (cases "lo \<le> hi")
  case True
  have "\<forall>g. is_used (for_w lo hi ?body s) g \<longleftrightarrow> is_used s g \<and> \<not> (lo \<le> g \<and> g < hi)"
  proof (rule for_w_invariant [where P = "\<lambda>j t. \<forall>g. is_used t g \<longleftrightarrow> is_used s g \<and> \<not> (lo \<le> g \<and> g < j)"])
    fix j and t :: "'a pmm_state_scheme"
    assume j: "lo \<le> j" "j < hi" and t: "\<forall>g. is_used t g \<longleftrightarrow> is_used s g \<and> \<not> (lo \<le> g \<and> g < j)"
    have "j < PMM_MAX_FRAMES" using j(2) assms by (rule order_less_le_trans)
    moreover have "g < j + 1 \<longleftrightarrow> g < j \<or> g = j" for g
      by (rule less_plus_one_iff [OF j(2)])
    ultimately show "\<forall>g. is_used (?body j t) g \<longleftrightarrow> is_used s g \<and> \<not> (lo \<le> g \<and> g < j + 1)"
      using t j by (auto simp: Let_def not_le)
  qed (use True in auto)
  then show ?thesis by blast
next
  case False
  then show ?thesis by (auto simp: for_w_done)
qed

lemma is_used_reserve_range:
  "unat hi \<le> 2 ^ 64 - 4096 \<Longrightarrow>
   is_used (reserve_range lo hi s) g \<longleftrightarrow>
     is_used s g \<or> (unat lo < unat g * 4096 + 4096 \<and> unat g * 4096 < unat hi)"
  by (simp add: reserve_range_def Let_def is_used_for_set_used frame_of_le_iff less_frame_up_iff)

text \<open>The frames that a usable entry of the memory map makes free: those it contains completely.\<close>

definition entry_contains :: "e820_entry \<Rightarrow> u64 \<Rightarrow> bool" where
  "entry_contains e g \<longleftrightarrow>
     entry_type e = E820_TYPE_USABLE \<and> unat (entry_base e) \<le> unat g * 4096 \<and>
     unat g * 4096 + 4096 \<le> unat (entry_base e) + unat (entry_length e)"

definition entry_no_wrap :: "e820_entry \<Rightarrow> bool" where
  "entry_no_wrap e \<longleftrightarrow> unat (entry_base e) + unat (entry_length e) < 2 ^ 64"

lemma is_used_init_entry:
  assumes "entry_no_wrap e"
  shows "is_used (pmm_init_entry (Some e) s) g \<longleftrightarrow>
           is_used s g \<and> \<not> (g < PMM_MAX_FRAMES \<and> entry_contains e g)"
proof -
  have len: "unat (entry_base e + entry_length e) = unat (entry_base e) + unat (entry_length e)"
    using assms by (simp add: entry_no_wrap_def unat_word_ariths)
  consider (skip) "entry_type e \<noteq> E820_TYPE_USABLE" | (high) "entry_base e \<ge> PMM_MAX_MEMORY"
    | (low) "entry_type e = E820_TYPE_USABLE" "entry_base e < PMM_MAX_MEMORY" by force
  then show ?thesis
  proof cases
    case skip
    then show ?thesis by (simp add: pmm_init_entry_def entry_contains_def)
  next
    case high
    then have "\<not> (g < PMM_MAX_FRAMES \<and> entry_contains e g)"
      by (auto simp: entry_contains_def pmm_const_defs word_le_nat_alt word_less_nat_alt)
    with high show ?thesis by (simp add: pmm_init_entry_def)
  next
    case low
    define hi where "hi = (if entry_base e + entry_length e > PMM_MAX_MEMORY then PMM_MAX_MEMORY
                           else entry_base e + entry_length e)"
    have hi: "frame_of hi \<le> PMM_MAX_FRAMES"
      by (auto simp: hi_def unat_frame_of pmm_const_defs word_less_nat_alt not_less word_le_nat_alt
          dest: div_le_mono [of _ _ 4096])
    have base: "unat (entry_base e) \<le> 2 ^ 64 - 4096"
      using low(2) by (simp add: pmm_const_defs word_less_nat_alt)
    have "frame_of (entry_base e + PMM_FRAME_SIZE - 1) \<le> g \<and> g < frame_of hi \<longleftrightarrow>
        g < PMM_MAX_FRAMES \<and> entry_contains e g"
      unfolding entry_contains_def frame_up_le_iff [OF base] less_frame_of_iff hi_def
      using low(1) len
      by (auto simp: pmm_const_defs word_less_nat_alt not_less word_le_nat_alt)
    then show ?thesis
      using low unfolding pmm_init_entry_def
      by (auto simp: Let_def is_used_for_set_free [OF hi, unfolded Let_def] simp flip: hi_def)
  qed
qed

lemma is_used_init_entries:
  assumes "\<And>i. i < n \<Longrightarrow> entry_no_wrap (es i)"
  shows "is_used (for_w 0 n (\<lambda>i. pmm_init_entry (Some (es i))) s) g \<longleftrightarrow>
           is_used s g \<and> \<not> (g < PMM_MAX_FRAMES \<and> (\<exists>i<n. entry_contains (es i) g))"
proof (rule for_w_invariant [where P = "\<lambda>j t. is_used t g \<longleftrightarrow>
      is_used s g \<and> \<not> (g < PMM_MAX_FRAMES \<and> (\<exists>i<j. entry_contains (es i) g))"])
  fix j t
  assume j: "j < n"
    and t: "is_used t g \<longleftrightarrow> is_used s g \<and> \<not> (g < PMM_MAX_FRAMES \<and> (\<exists>i<j. entry_contains (es i) g))"
  have "(\<exists>i<j + 1. P i) \<longleftrightarrow> (\<exists>i<j. P i) \<or> P j" for P
    using less_plus_one_iff [OF j] by auto
  with t show "is_used (pmm_init_entry (Some (es j)) t) g \<longleftrightarrow>
      is_used s g \<and> \<not> (g < PMM_MAX_FRAMES \<and> (\<exists>i<j + 1. entry_contains (es i) g))"
    using is_used_init_entry [OF assms [OF j]] by auto
qed auto

lemma pmm_inv_init_entry: "pmm_inv s \<Longrightarrow> pmm_inv (pmm_init_entry e s)"
  by (cases e) (auto simp: pmm_init_entry_def Let_def inv_intros intro!: for_w_keeps [where P = pmm_inv])

lemma pmm_inv_reserve_range: "pmm_inv s \<Longrightarrow> pmm_inv (reserve_range lo hi s)"
  unfolding reserve_range_def Let_def
  by (rule for_w_keeps [where P = pmm_inv]) (simp_all add: inv_intros)

lemma bitmap_fill:
  "bitmap (for_w 0 n (\<lambda>i s. s\<lparr>bitmap := (bitmap s)(i := v)\<rparr>) s) =
     (\<lambda>i. if i < n then v else bitmap s i)"
proof (rule for_w_invariant [where P = "\<lambda>j t. bitmap t = (\<lambda>i. if i < j then v else bitmap s i)"])
  fix j and t :: "'a pmm_state_scheme"
  assume j: "j < n" and t: "bitmap t = (\<lambda>i. if i < j then v else bitmap s i)"
  have "i < j + 1 \<longleftrightarrow> i < j \<or> i = j" for i
    by (rule less_plus_one_iff [OF j])
  with t show "bitmap (t\<lparr>bitmap := (bitmap t)(j := v)\<rparr>) = (\<lambda>i. if i < j + 1 then v else bitmap s i)"
    by (auto simp: fun_eq_iff)
qed auto

lemma is_used_all_ones:
  assumes "\<forall>i<PMM_BITMAP_BYTES. bitmap s i = 0xFF"
  shows "is_used s g"
proof (cases "g < PMM_MAX_FRAMES")
  case True
  then have "g div 8 < PMM_BITMAP_BYTES"
    by (simp add: pmm_const_defs word_less_nat_alt unat_div)
  then have "bitmap s (g div 8) = 0xFF" using assms by blast
  moreover have "bit (0xFF :: u8) k" if "k < 8" for k
  proof -
    have "k \<in> {0, 1, 2, 3, 4, 5, 6, 7}" using that by auto
    then show ?thesis by auto
  qed
  ultimately show ?thesis using frame_bit_less [of g] by (simp add: is_used_bit)
qed (simp add: is_used_bit not_less)

text \<open>The state in which \<open>pmm_init\<close> starts to read the memory map: everything is used.\<close>

definition pmm_blank :: "'a pmm_state_scheme \<Rightarrow> 'a pmm_state_scheme" where
  "pmm_blank s =
     (for_w 0 PMM_BITMAP_BYTES (\<lambda>i s. s\<lparr>bitmap := (bitmap s)(i := 0xFF)\<rparr>) s)
       \<lparr>total_frames := 0, free_frames := 0, search_hint := 0\<rparr>"

lemma is_used_pmm_blank: "is_used (pmm_blank s) g"
  by (rule is_used_all_ones) (simp add: pmm_blank_def bitmap_fill)

lemma pmm_inv_pmm_blank: "pmm_inv (pmm_blank s)"
  using is_used_pmm_blank [of s] by (simp add: pmm_inv_def free_set_def) (simp add: pmm_blank_def)

lemma pmm_init_unfold:
  "pmm_init b kernel_end s =
     reserve_range 0xB8000 (0xB8000 + 4000) (reserve_range 0x8200 kernel_end
       (reserve_range 0x80000 0xA0000 (reserve_range 0 0x8200
         (for_w 0 (e820_entry_count b) (\<lambda>i. pmm_init_entry (e820_get_entry b i)) (pmm_blank s)))))"
  by (simp add: pmm_init_def pmm_blank_def Let_def)

section \<open>Properties\<close>

text \<open>
  C21: \<open>pmm_alloc_frame\<close> either finds no free frame at all, returns 0 and changes nothing; or it
  returns the address of a frame that was free, takes exactly that frame out of the free set,
  keeps the counter equal to the number of free frames, and the frame is the first free one in the
  cyclic order that starts at the search hint (next fit).
\<close>

theorem pmm_alloc_frame_correct:
  assumes "pmm_alloc_frame s = (t, a)"
  shows "(free_set s = {} \<and> a = 0 \<and> t = s) \<or>
     (\<exists>f \<in> free_set s. a = f * PMM_FRAME_SIZE \<and> unat a = unat f * 4096 \<and>
        free_set t = free_set s - {f} \<and> search_hint t = f + 1 \<and> (pmm_inv s \<longrightarrow> pmm_inv t) \<and>
        (\<exists>j. f = (search_hint s + j) mod PMM_MAX_FRAMES \<and>
             (\<forall>k<j. (search_hint s + k) mod PMM_MAX_FRAMES \<notin> free_set s)))"
  using assms
proof (cases s rule: pmm_alloc_frame_cases)
  case (frame f j u)
  then show ?thesis
    using assms frame_address(1) [OF free_set_below [OF frame(2)]] by (intro disjI2 bexI [of _ f]) auto
qed simp

text \<open>A small concrete state for the witnesses: frames 17, 18 and 20 are free, the hint is at 16.\<close>

definition pmm_example :: pmm_state where
  "pmm_example = set_free 20 (set_free 18 (set_free 17
     \<lparr>phys_mem = \<lambda>_. 0, bitmap = \<lambda>_. 0xFF, total_frames = 3, free_frames = 0, search_hint = 16\<rparr>))"

lemma pmm_example_free [simp]: "free_set pmm_example = {17, 18, 20}"
proof -
  have "free_set \<lparr>phys_mem = \<lambda>_. 0, bitmap = \<lambda>_. 0xFF, total_frames = 3, free_frames = 0, search_hint = 16\<rparr> = {}"
    by (auto simp: free_set_def is_used_all_ones)
  then show ?thesis by (auto simp: pmm_example_def PMM_MAX_FRAMES_eq)
qed

lemma pmm_example_ok [simp]: "pmm_ok pmm_example"
proof -
  have "pmm_inv \<lparr>phys_mem = \<lambda>_. 0, bitmap = \<lambda>_. 0xFF, total_frames = 3, free_frames = 0, search_hint = 16\<rparr>"
    by (simp add: pmm_inv_def free_set_def is_used_all_ones)
  then have "pmm_inv pmm_example" by (simp add: pmm_example_def inv_intros)
  then show ?thesis by (simp add: pmm_ok_def)
qed

lemma pmm_example_is_used: "is_used pmm_example f \<longleftrightarrow> f \<noteq> 17 \<and> f \<noteq> 18 \<and> f \<noteq> 20"
  using pmm_example_free unfolding free_set_def by blast

lemma pmm_example_hint: "search_hint pmm_example = 16"
  by (simp add: pmm_example_def set_free_def Let_def)

lemma pmm_example_scan: "alloc_scan pmm_example 0 = Some 17"
  by (simp add: alloc_scan.simps Let_def pmm_example_is_used pmm_example_hint PMM_MAX_FRAMES_eq)

theorem pmm_alloc_frame_correct_witness:
  "\<exists>t. pmm_alloc_frame pmm_example = (t, 17 * PMM_FRAME_SIZE) \<and> free_set t = {18, 20}"
proof -
  obtain t a where t: "pmm_alloc_frame pmm_example = (t, a)" by (cases "pmm_alloc_frame pmm_example")
  have a: "a = 17 * PMM_FRAME_SIZE"
    using t by (simp add: pmm_alloc_frame_def pmm_example_scan Let_def)
  have "17 * PMM_FRAME_SIZE = f * PMM_FRAME_SIZE \<longleftrightarrow> f = 17" if "f \<in> {17, 18, 20}" for f
    using that by (auto simp: PMM_FRAME_SIZE_def)
  then have "free_set t = {18, 20}"
    using pmm_alloc_frame_correct [OF t] a by auto
  then show ?thesis using t a by blast
qed

text \<open>
  C22: \<open>pmm_alloc_contiguous\<close> is exact first fit. It fails, with the state unchanged, only for a
  request of 0 frames or when no \<open>count\<close> consecutive frames are free anywhere; otherwise it returns
  the lowest such run, marks exactly those frames used, and keeps the free counter right.
\<close>

theorem pmm_alloc_contiguous_correct:
  assumes "pmm_alloc_contiguous count s = (t, addr)"
  shows "(addr = 0 \<and> t = s \<and> (count = 0 \<or> (\<forall>b. \<not> free_run s b count))) \<or>
     (\<exists>a. addr = a * PMM_FRAME_SIZE \<and> free_run s a count \<and> unat a + unat count \<le> 0x100000 \<and>
        (\<forall>b. free_run s b count \<longrightarrow> a \<le> b) \<and>
        free_set t = {f \<in> free_set s. \<not> f - a < count} \<and> (pmm_inv s \<longrightarrow> pmm_inv t))"
  using assms
proof (cases rule: pmm_alloc_contiguous_cases [of count s])
  case (run a u)
  then show ?thesis using assms free_run_bounds [OF run(3,2)] by (intro disjI2 exI [of _ a]) auto
qed simp

lemma pmm_example_run: "free_run pmm_example a 2 \<longleftrightarrow> a = 17"
proof -
  have "i < 2 \<longleftrightarrow> i = 0 \<or> i = 1" for i :: u64
    using less_plus_one_iff [of 1 3 i] less_plus_one_iff [of 0 3 i] by simp
  then have "free_run pmm_example a 2 \<longleftrightarrow> a \<in> {17, 18, 20} \<and> a + 1 \<in> {17, 18, 20}"
    unfolding free_run_def pmm_example_is_used by (metis add_0_right insert_iff singletonD)
  moreover have "a + 1 = 17 \<longleftrightarrow> a = 16" "a + 1 = 18 \<longleftrightarrow> a = 17" "a + 1 = 20 \<longleftrightarrow> a = 19"
    using eq_diff_eq [of a 17 1] eq_diff_eq [of a 18 1] eq_diff_eq [of a 20 1] by simp_all
  ultimately show ?thesis by auto
qed

theorem pmm_alloc_contiguous_correct_witness:
  "\<exists>t. pmm_alloc_contiguous 2 pmm_example = (t, 17 * PMM_FRAME_SIZE) \<and> free_set t = {20}"
proof -
  obtain t a where t: "pmm_alloc_contiguous 2 pmm_example = (t, a)"
    by (cases "pmm_alloc_contiguous 2 pmm_example")
  have run: "{f \<in> {17, 18, 20}. \<not> f - 17 < 2} = {20 :: u64}" by auto
  have two: "(2 :: u64) \<noteq> 0" by simp
  have "a = 17 * PMM_FRAME_SIZE \<and> free_set t = {20}"
    using pmm_alloc_contiguous_correct [OF t]
    unfolding pmm_example_run pmm_example_free using run two by metis
  then show ?thesis using t by blast
qed

text \<open>
  C39: after \<open>pmm_init\<close>, a frame is free exactly when some usable entry of the memory map contains
  all of its bytes and no reserved range (low memory up to the kernel's load address, the boot
  stack's guard band, the kernel image up to \<open>_kernel_end\<close>, VGA text memory) touches it; the
  allocator's invariant holds and frame 0 is not free, so address 0 is an unambiguous failure code.
\<close>

theorem pmm_init_correct:
  assumes "\<forall>e \<in> e820_all b. entry_no_wrap e" and "unat kernel_end \<le> 2 ^ 64 - 4096"
  shows "pmm_ok (pmm_init b kernel_end s) \<and>
     (g \<in> free_set (pmm_init b kernel_end s) \<longleftrightarrow>
        g < PMM_MAX_FRAMES \<and> (\<exists>e \<in> e820_all b. entry_contains e g) \<and>
        (\<forall>(lo, hi) \<in> {(0, 0x8200), (0x80000, 0xA0000), (0x8200, unat kernel_end), (0xB8000, 0xB8FA0)}.
           unat g * 4096 + 4096 \<le> lo \<or> hi \<le> unat g * 4096))"
proof -
  let ?es = "for_w 0 (e820_entry_count b) (\<lambda>i. pmm_init_entry (e820_get_entry b i)) (pmm_blank s)"
  have es: "?es = for_w 0 (e820_entry_count b) (\<lambda>i. pmm_init_entry (Some (e820_entries b i))) (pmm_blank s)"
    by (rule for_w_cong) (simp add: e820_get_entry_in_loop)
  have free: "\<not> is_used ?es g \<longleftrightarrow> g < PMM_MAX_FRAMES \<and> (\<exists>e \<in> e820_all b. entry_contains e g)" for g
    unfolding es using assms(1)
    by (subst is_used_init_entries) (auto simp: e820_all_def e820_entry_count_def is_used_pmm_blank)
  have inv: "pmm_inv ?es"
    by (rule for_w_keeps [where P = pmm_inv]) (simp_all add: pmm_inv_init_entry pmm_inv_pmm_blank)
  have init: "is_used (pmm_init b kernel_end s) g \<longleftrightarrow> is_used ?es g \<or>
       (\<exists>(lo, hi) \<in> {(0, 0x8200), (0x80000, 0xA0000), (0x8200, unat kernel_end), (0xB8000, 0xB8FA0)}.
           lo < unat g * 4096 + 4096 \<and> unat g * 4096 < hi)" for g
    unfolding pmm_init_unfold using assms(2) by (auto simp: is_used_reserve_range)
  have "0 \<notin> free_set (pmm_init b kernel_end s)" unfolding free_set_def mem_Collect_eq init by simp
  moreover have "pmm_inv (pmm_init b kernel_end s)"
    unfolding pmm_init_unfold using inv by (intro pmm_inv_reserve_range)
  ultimately show ?thesis
    unfolding pmm_ok_def using free [of g] init [of g] by (auto simp: free_set_def not_less not_le)
qed

definition e820_example :: e820_buffer where
  "e820_example = \<lparr>e820_count = 1, e820_entries = \<lambda>_. \<lparr>entry_base = 0x100000, entry_length = 0x7EE0000,
     entry_type = 1, extended_attributes = 0\<rparr>\<rparr>"

theorem pmm_init_correct_witness:
  "pmm_ok (pmm_init e820_example 0x40000 pmm_example) \<and>
   0x200 \<in> free_set (pmm_init e820_example 0x40000 pmm_example) \<and>
   0x80 \<notin> free_set (pmm_init e820_example 0x40000 pmm_example)"
proof -
  have all: "e820_all e820_example = {e820_entries e820_example 0}"
    by (auto simp: e820_all_def e820_example_def)
  have h: "\<forall>e \<in> e820_all e820_example. entry_no_wrap e" "unat (0x40000 :: u64) \<le> 2 ^ 64 - 4096"
    by (simp_all add: all) (simp add: e820_example_def entry_no_wrap_def)
  show ?thesis
    using pmm_init_correct [OF h, of pmm_example "0x200"] pmm_init_correct [OF h, of pmm_example "0x80"]
    by (simp add: all) (simp add: e820_example_def entry_contains_def PMM_MAX_FRAMES_eq E820_TYPE_USABLE_def)
qed

text \<open>
  \<open>n\<close> calls of \<open>pmm_alloc_frame\<close> in a row return pairwise distinct addresses, all of them
  available before, and as many as there are: the minimum of \<open>n\<close> and the number of free frames.
\<close>

theorem pmm_allocations_distinct:
  assumes "pmm_ok s" and "pmm.alloc_n n s = (t, addrs)"
  shows "distinct addrs \<and> set addrs \<subseteq> avail_addrs s \<and> avail_addrs t = avail_addrs s - set addrs \<and>
     pmm_ok t \<and> length addrs = min n (card (avail_addrs s))"
  using assms by (rule pmm.alloc_n_fresh)

theorem pmm_allocations_distinct_witness:
  "\<exists>t addrs. pmm_ok pmm_example \<and> pmm.alloc_n 5 pmm_example = (t, addrs) \<and> distinct addrs \<and> length addrs = 3"
proof -
  obtain t addrs where "pmm.alloc_n 5 pmm_example = (t, addrs)" by (cases "pmm.alloc_n 5 pmm_example")
  moreover have "avail_addrs pmm_example = {17 * 4096, 18 * 4096, 20 * 4096}"
    by (auto simp: avail_addrs_def PMM_FRAME_SIZE_def)
  ultimately show ?thesis
    using pmm_allocations_distinct [OF pmm_example_ok] by auto
qed

end
