(* ===== verification/Heap.thy ===== *)
theory Heap
  imports Pmm
begin

text \<open>
  The kernel heap, \<open>kernel/mm/heap.c\<close>: a singly linked list of blocks, each a 24-byte header
  (\<open>size\<close> at offset 0, \<open>free\<close> at 8, \<open>next\<close> at 16) followed by the payload. The headers live
  in the byte memory, at the addresses the frame allocator hands out, and are read and written
  there. The three pointer loops follow \<open>next\<close> links, so they are partial functions: \<open>None\<close> is a
  loop that never ends. The theorems show that they end, for every heap the invariant admits.

  The refinement: \<open>heap_seg\<close> relates the memory to a list of blocks, and \<open>kmalloc\<close>, \<open>kfree\<close>
  and the coalescing loop to functions on such lists.
\<close>

record heap_state = pmm_state +
  heap_head :: u64

definition HEAP_ALIGN :: u64 where "HEAP_ALIGN = 16"
definition HEAP_HEADER_SIZE :: u64 where "HEAP_HEADER_SIZE = 24"

definition blk_size :: "memory \<Rightarrow> u64 \<Rightarrow> u64" where "blk_size m b = rd64 m b"
definition blk_free :: "memory \<Rightarrow> u64 \<Rightarrow> bool" where "blk_free m b \<longleftrightarrow> rd32 m (b + 8) \<noteq> 0"
definition blk_next :: "memory \<Rightarrow> u64 \<Rightarrow> u64" where "blk_next m b = rd64 m (b + 16)"

definition set_blk_size :: "u64 \<Rightarrow> u64 \<Rightarrow> memory \<Rightarrow> memory" where "set_blk_size b v = wr64 b v"
definition set_blk_free :: "u64 \<Rightarrow> u32 \<Rightarrow> memory \<Rightarrow> memory" where "set_blk_free b v = wr32 (b + 8) v"
definition set_blk_next :: "u64 \<Rightarrow> u64 \<Rightarrow> memory \<Rightarrow> memory" where "set_blk_next b v = wr64 (b + 16) v"

definition align_up :: "u64 \<Rightarrow> u64 \<Rightarrow> u64" where
  "align_up v align = (v + align - 1) AND NOT (align - 1)"

definition grow_heap :: "u64 \<Rightarrow> 'a heap_state_scheme \<Rightarrow> 'a heap_state_scheme \<times> u64" where
  "grow_heap required_size s =
     (if required_size > NOT 0 - HEAP_HEADER_SIZE then (s, 0)
      else let total_size = HEAP_HEADER_SIZE + required_size;
               frame_count = (total_size + PMM_FRAME_SIZE - 1) div PMM_FRAME_SIZE;
               (s, frame) = pmm_alloc_contiguous frame_count s
        in if frame = 0 then (s, 0)
           else let m = phys_mem s;
                    m = set_blk_size frame (frame_count * PMM_FRAME_SIZE - HEAP_HEADER_SIZE) m;
                    m = set_blk_free frame 1 m;
                    m = set_blk_next frame (heap_head s) m
             in (s\<lparr>phys_mem := m, heap_head := frame\<rparr>, frame))"

definition heap_init :: "'a heap_state_scheme \<Rightarrow> 'a heap_state_scheme" where
  "heap_init s = s\<lparr>heap_head := 0\<rparr>"

text \<open>The first loop of \<open>kmalloc\<close>: first fit along the list.\<close>

partial_function (option) heap_find :: "memory \<Rightarrow> u64 \<Rightarrow> u64 \<Rightarrow> u64 option" where
  "heap_find m sz block =
     (if block = 0 then Some 0
      else if blk_free m block \<and> blk_size m block \<ge> sz then Some block
      else heap_find m sz (blk_next m block))"

text \<open>From the chosen block on: split it when the rest is worth a header, and take it.\<close>

definition heap_take :: "u64 \<Rightarrow> u64 \<Rightarrow> memory \<Rightarrow> memory" where
  "heap_take sz block m =
     (let m = (if blk_size m block \<ge> sz + HEAP_HEADER_SIZE + HEAP_ALIGN then
                 let remainder = block + HEAP_HEADER_SIZE + sz;
                     m = set_blk_size remainder (blk_size m block - sz - HEAP_HEADER_SIZE) m;
                     m = set_blk_free remainder 1 m;
                     m = set_blk_next remainder (blk_next m block) m;
                     m = set_blk_size block sz m
                 in set_blk_next block remainder m
               else m)
      in set_blk_free block 0 m)"

definition kmalloc :: "u64 \<Rightarrow> 'a heap_state_scheme \<Rightarrow> ('a heap_state_scheme \<times> u64) option" where
  "kmalloc sz s =
     (if sz = 0 then Some (s, 0)
      else if sz > NOT 0 - (HEAP_ALIGN - 1) then Some (s, 0)
      else let sz = align_up sz HEAP_ALIGN in
        do {
          block \<leftarrow> heap_find (phys_mem s) sz (heap_head s);
          let (s, block) = (if block = 0 then grow_heap sz s else (s, block));
          if block = 0 then Some (s, 0)
          else Some (s\<lparr>phys_mem := heap_take sz block (phys_mem s)\<rparr>, block + HEAP_HEADER_SIZE)
        })"

text \<open>The first loop of \<open>kfree\<close>: the header whose payload is at \<open>ptr\<close>.\<close>

partial_function (option) heap_search :: "memory \<Rightarrow> u64 \<Rightarrow> u64 \<Rightarrow> u64 option" where
  "heap_search m ptr candidate =
     (if candidate = 0 then Some 0
      else if candidate + HEAP_HEADER_SIZE = ptr then Some candidate
      else heap_search m ptr (blk_next m candidate))"

text \<open>The second loop of \<open>kfree\<close>: merge a free block with a free successor that follows it in memory.\<close>

partial_function (option) heap_coalesce :: "memory \<Rightarrow> u64 \<Rightarrow> memory option" where
  "heap_coalesce m current =
     (if current = 0 \<or> blk_next m current = 0 then Some m
      else let nxt = blk_next m current;
               current_end = current + HEAP_HEADER_SIZE + blk_size m current in
        if blk_free m current \<and> blk_free m nxt \<and> current_end = nxt then
          let m = set_blk_size current (blk_size m current + (HEAP_HEADER_SIZE + blk_size m nxt)) m;
              m = set_blk_next current (blk_next m nxt) m
          in heap_coalesce m current
        else heap_coalesce m (blk_next m current))"

definition kfree :: "u64 \<Rightarrow> 'a heap_state_scheme \<Rightarrow> 'a heap_state_scheme option" where
  "kfree ptr s =
     (if ptr = 0 then Some s
      else do {
        block \<leftarrow> heap_search (phys_mem s) ptr (heap_head s);
        if block = 0 \<or> blk_free (phys_mem s) block then Some s
        else do {
          let m = set_blk_free block 1 (phys_mem s);
          m \<leftarrow> heap_coalesce m (heap_head s);
          Some (s\<lparr>phys_mem := m\<rparr>)
        }
      })"

lemma heap_head_set_free [simp]: "heap_head (set_free f s) = heap_head s"
  by (rule pmm_frame_field [of s]) (simp_all add: pmm_clear_def)

section \<open>Headers in memory\<close>

lemmas heap_const_defs = HEAP_ALIGN_def HEAP_HEADER_SIZE_def

lemma disjnt_offsets:
  "unat i + unat n \<le> unat j \<Longrightarrow> unat j + unat k \<le> 2 ^ 64 \<Longrightarrow> disjnt_ranges (b + i) n (b + j) k"
  "unat i + unat n \<le> unat j \<Longrightarrow> unat j + unat k \<le> 2 ^ 64 \<Longrightarrow> disjnt_ranges (b + j) k (b + i) n"
proof -
  have "\<not> (x - (b + i) < n \<and> x - (b + j) < k)"
    if "unat i + unat n \<le> unat j" "unat j + unat k \<le> 2 ^ 64" for x
    using that range_iff [of i n "x - b"] range_iff [of j k "x - b"]
    by (auto simp: diff_diff_eq)
  then show "unat i + unat n \<le> unat j \<Longrightarrow> unat j + unat k \<le> 2 ^ 64 \<Longrightarrow> disjnt_ranges (b + i) n (b + j) k"
    and "unat i + unat n \<le> unat j \<Longrightarrow> unat j + unat k \<le> 2 ^ 64 \<Longrightarrow> disjnt_ranges (b + j) k (b + i) n"
    by (auto simp: disjnt_ranges_def)
qed

lemmas disjnt_offset0 = disjnt_offsets [where i = 0, simplified]

lemma blk_same [simp]:
  "blk_size (set_blk_size b v m) b = v" "blk_size (set_blk_free b f m) b = blk_size m b"
  "blk_size (set_blk_next b v m) b = blk_size m b"
  "blk_free (set_blk_free b f m) b \<longleftrightarrow> f \<noteq> 0" "blk_free (set_blk_size b v m) b = blk_free m b"
  "blk_free (set_blk_next b v m) b = blk_free m b"
  "blk_next (set_blk_next b v m) b = v" "blk_next (set_blk_size b v m) b = blk_next m b"
  "blk_next (set_blk_free b f m) b = blk_next m b"
  by (simp_all add: blk_size_def blk_free_def blk_next_def set_blk_size_def set_blk_free_def
      set_blk_next_def rd64_wr64_other rd64_wr32_other rd32_wr64_other disjnt_offsets disjnt_offset0)

text \<open>A store into a header changes bytes of that header only; a header is read from its 24 bytes only.\<close>

lemma offset_in_header:
  "x - (b + j) < k \<Longrightarrow> unat j + unat k \<le> 24 \<Longrightarrow> x - b < 24" for x :: u64
  using range_iff [of j k "x - b"] by (simp add: diff_diff_eq word_less_nat_alt)

lemma header_store_outside:
  assumes "\<not> x - b < 24"
  shows "set_blk_size b v m x = m x" and "set_blk_free b f m x = m x" and "set_blk_next b v m x = m x"
  using assms offset_in_header [of x b 0 8] offset_in_header [of x b 8 4] offset_in_header [of x b 16 8]
  by (auto simp: set_blk_size_def set_blk_free_def set_blk_next_def wr64_def wr32_def)

lemma header_cong:
  assumes "\<And>x. x - b < 24 \<Longrightarrow> m' x = m x"
  shows "blk_size m' b = blk_size m b" and "blk_free m' b = blk_free m b" and "blk_next m' b = blk_next m b"
  using assms offset_in_header [of _ b 0 8] offset_in_header [of _ b 8 4] offset_in_header [of _ b 16 8]
  by (auto simp: blk_size_def blk_free_def blk_next_def cong: rd64_cong rd32_cong
      intro!: rd64_cong arg_cong [where f = "\<lambda>v. v = 0"] rd32_cong)

section \<open>The heap as a list of blocks\<close>

datatype block = Block (b_addr: u64) (b_size: u64) (b_free: bool)

text \<open>The list of blocks from pointer \<open>p\<close> up to pointer \<open>q\<close>.\<close>

fun heap_seg :: "memory \<Rightarrow> u64 \<Rightarrow> block list \<Rightarrow> u64 \<Rightarrow> bool" where
  "heap_seg m p [] q \<longleftrightarrow> p = q"
| "heap_seg m p (b # bs) q \<longleftrightarrow>
     p = b_addr b \<and> p \<noteq> 0 \<and> blk_size m p = b_size b \<and> blk_free m p = b_free b \<and>
     heap_seg m (blk_next m p) bs q"

text \<open>The bytes of a block, header included. Blocks lie below 4 GiB, where the frame allocator works.\<close>

definition ext :: "block \<Rightarrow> nat set" where
  "ext b = {unat (b_addr b)..<unat (b_addr b) + 24 + unat (b_size b)}"

definition block_ok :: "block \<Rightarrow> bool" where
  "block_ok b \<longleftrightarrow> b_addr b \<noteq> 0 \<and> unat (b_addr b) + 24 + unat (b_size b) \<le> 2 ^ 32"

definition apart :: "block \<Rightarrow> block \<Rightarrow> bool" where
  "apart b c \<longleftrightarrow> ext b \<inter> ext c = {}"

definition blocks_ok :: "block list \<Rightarrow> bool" where
  "blocks_ok bs \<longleftrightarrow> (\<forall>b\<in>set bs. block_ok b) \<and> sorted_wrt apart bs"

lemma apart_sym: "apart b c \<Longrightarrow> apart c b"
  by (auto simp: apart_def)

lemma apart_subset: "apart b c \<Longrightarrow> ext b' \<subseteq> ext b \<Longrightarrow> ext c' \<subseteq> ext c \<Longrightarrow> apart b' c'"
  by (auto simp: apart_def)

lemma blocks_ok_Cons [simp]:
  "blocks_ok (b # bs) \<longleftrightarrow> block_ok b \<and> (\<forall>c\<in>set bs. apart b c) \<and> blocks_ok bs"
  by (auto simp: blocks_ok_def)

lemma blocks_ok_Nil [simp]: "blocks_ok []"
  by (simp add: blocks_ok_def)

lemma blocks_ok_append:
  "blocks_ok (bs @ cs) \<longleftrightarrow> blocks_ok bs \<and> blocks_ok cs \<and> (\<forall>b\<in>set bs. \<forall>c\<in>set cs. apart b c)"
  by (auto simp: blocks_ok_def sorted_wrt_append)

lemma heap_seg_append:
  "heap_seg m p (bs @ cs) q \<longleftrightarrow> (\<exists>r. heap_seg m p bs r \<and> heap_seg m r cs q)"
  by (induction bs arbitrary: p) auto

lemma heap_seg_unique: "heap_seg m p bs 0 \<Longrightarrow> heap_seg m p cs 0 \<Longrightarrow> bs = cs"
proof (induction bs arbitrary: p cs)
  case Nil
  then show ?case by (cases cs) auto
next
  case (Cons b bs)
  then show ?case by (cases cs) (auto simp: block.expand)
qed

lemma header_in_ext: "block_ok b \<Longrightarrow> x - b_addr b < 24 \<Longrightarrow> unat x \<in> ext b"
  using range_iff [of "b_addr b" 24 x] by (auto simp: block_ok_def ext_def)

text \<open>A list of blocks is unaffected by a change of memory outside all of its blocks.\<close>

lemma heap_seg_cong:
  assumes "\<forall>b\<in>set bs. block_ok b" and "\<And>b x. b \<in> set bs \<Longrightarrow> unat x \<in> ext b \<Longrightarrow> m' x = m x"
    and "heap_seg m p bs q"
  shows "heap_seg m' p bs q"
  using assms
proof (induction bs arbitrary: p)
  case (Cons b bs)
  have "m' x = m x" if "x - b_addr b < 24" for x
    using Cons.prems(1,2) header_in_ext [of b x] that by auto
  moreover have "heap_seg m' (blk_next m (b_addr b)) bs q"
    using Cons.IH [of "blk_next m (b_addr b)"] Cons.prems by auto
  ultimately show ?case
    using Cons.prems(3) header_cong [of "b_addr b" m' m] by auto
qed simp

lemma heap_find_list:
  "heap_seg m p bs 0 \<Longrightarrow>
     heap_find m sz p = Some (case find (\<lambda>b. b_free b \<and> sz \<le> b_size b) bs of None \<Rightarrow> 0 | Some b \<Rightarrow> b_addr b)"
proof (induction bs arbitrary: p)
  case Nil
  then show ?case by (subst heap_find.simps) simp
next
  case (Cons b bs)
  then show ?case by (subst heap_find.simps) auto
qed

lemma heap_search_list:
  "heap_seg m p bs 0 \<Longrightarrow>
     heap_search m ptr p = Some (case find (\<lambda>b. b_addr b + 24 = ptr) bs of None \<Rightarrow> 0 | Some b \<Rightarrow> b_addr b)"
proof (induction bs arbitrary: p)
  case Nil
  then show ?case by (subst heap_search.simps) simp
next
  case (Cons b bs)
  then show ?case by (subst heap_search.simps) (auto simp: HEAP_HEADER_SIZE_def)
qed

section \<open>Taking a block\<close>

definition split_block :: "u64 \<Rightarrow> block \<Rightarrow> block list" where
  "split_block sz b =
     (if b_size b \<ge> sz + 40
      then [Block (b_addr b) sz False, Block (b_addr b + 24 + sz) (b_size b - sz - 24) True]
      else [Block (b_addr b) (b_size b) False])"

fun alloc_blocks :: "u64 \<Rightarrow> block list \<Rightarrow> (block list \<times> u64) option" where
  "alloc_blocks sz [] = None"
| "alloc_blocks sz (b # bs) =
     (if b_free b \<and> sz \<le> b_size b then Some (split_block sz b @ bs, b_addr b + 24)
      else map_option (map_prod ((#) b) id) (alloc_blocks sz bs))"

lemma alloc_blocks_None: "alloc_blocks sz bs = None \<longleftrightarrow> find (\<lambda>b. b_free b \<and> sz \<le> b_size b) bs = None"
  by (induction bs) auto

lemma alloc_blocks_Some:
  "alloc_blocks sz bs = Some (cs, ptr) \<Longrightarrow>
     \<exists>us b vs. bs = us @ b # vs \<and> b_free b \<and> sz \<le> b_size b \<and> cs = us @ split_block sz b @ vs \<and>
        ptr = b_addr b + 24 \<and> find (\<lambda>b. b_free b \<and> sz \<le> b_size b) bs = Some b"
proof (induction bs arbitrary: cs)
  case (Cons b bs)
  show ?case
  proof (cases "b_free b \<and> sz \<le> b_size b")
    case True
    then show ?thesis using Cons.prems by (intro exI [of _ "[]"] exI [of _ b] exI [of _ bs]) auto
  next
    case False
    then obtain ds where ds: "alloc_blocks sz bs = Some (ds, ptr)" "cs = b # ds"
      using Cons.prems by (auto simp del: not_le)
    obtain us c vs where "bs = us @ c # vs" "b_free c" "sz \<le> b_size c" "ds = us @ split_block sz c @ vs"
      "ptr = b_addr c + 24" "find (\<lambda>b. b_free b \<and> sz \<le> b_size b) bs = Some c"
      using Cons.IH [OF ds(1)] by blast
    then have "b # bs = (b # us) @ c # vs \<and> b_free c \<and> sz \<le> b_size c \<and>
        cs = (b # us) @ split_block sz c @ vs \<and> ptr = b_addr c + 24 \<and>
        find (\<lambda>b. b_free b \<and> sz \<le> b_size b) (b # bs) = Some c"
      using ds(2) False by (auto simp del: not_le)
    then show ?thesis by blast
  qed
qed simp

text \<open>The arithmetic of a split: no wrap-around, and both parts lie inside the block.\<close>

lemma split_arith:
  assumes "block_ok b" and "sz \<le> b_size b"
  shows "sz + 40 \<le> b_size b \<longleftrightarrow> unat sz + 40 \<le> unat (b_size b)"
    and "unat sz + 40 \<le> unat (b_size b) \<Longrightarrow> unat (b_addr b + 24 + sz) = unat (b_addr b) + 24 + unat sz"
    and "unat sz + 40 \<le> unat (b_size b) \<Longrightarrow> unat (b_size b - sz - 24) = unat (b_size b) - unat sz - 24"
proof -
  have bounds: "unat (b_addr b) + 24 + unat (b_size b) \<le> 2 ^ 32" "unat sz \<le> unat (b_size b)"
    using assms by (auto simp: block_ok_def word_le_nat_alt)
  then have "unat (sz + 40) = unat sz + 40" by (simp add: unat_word_ariths)
  then show "sz + 40 \<le> b_size b \<longleftrightarrow> unat sz + 40 \<le> unat (b_size b)" by (simp add: word_le_nat_alt)
  assume fits: "unat sz + 40 \<le> unat (b_size b)"
  show "unat (b_addr b + 24 + sz) = unat (b_addr b) + 24 + unat sz"
    using bounds by (simp add: unat_word_ariths)
  have "unat (b_size b - sz) = unat (b_size b) - unat sz"
    using assms(2) by (simp add: unat_sub_if' word_le_nat_alt)
  then show "unat (b_size b - sz - 24) = unat (b_size b) - unat sz - 24"
    using fits by (simp add: unat_sub_if' word_le_nat_alt)
qed

lemma split_sum: "sz + 24 + 16 = sz + 40" for sz :: u64
  by (simp add: add.assoc)

lemma split_block_ok:
  assumes "block_ok b" and "sz \<le> b_size b"
  shows "blocks_ok (split_block sz b)" and "c \<in> set (split_block sz b) \<Longrightarrow> ext c \<subseteq> ext b"
proof -
  have "b_addr b + 24 + sz \<noteq> 0" if "unat sz + 40 \<le> unat (b_size b)"
    using split_arith(2) [OF assms that] by auto
  then show "blocks_ok (split_block sz b)" "c \<in> set (split_block sz b) \<Longrightarrow> ext c \<subseteq> ext b"
    using assms split_arith [OF assms]
    by (auto simp: split_block_def block_ok_def apart_def ext_def word_le_nat_alt)
qed

lemma blocks_ok_replace:
  assumes "blocks_ok (us @ b # vs)" and "blocks_ok cs" and "\<And>c. c \<in> set cs \<Longrightarrow> ext c \<subseteq> ext b"
  shows "blocks_ok (us @ cs @ vs)"
proof -
  have ok: "\<forall>u\<in>set us. apart u b" "\<forall>u\<in>set us. \<forall>v\<in>set vs. apart u v" "\<forall>v\<in>set vs. apart b v"
    "blocks_ok us" "blocks_ok vs"
    using assms(1) by (simp_all add: blocks_ok_append)
  have "\<forall>u\<in>set us. \<forall>c\<in>set cs. apart u c"
    using ok(1) assms(3) apart_subset [OF _ subset_refl] by blast
  moreover have "\<forall>c\<in>set cs. \<forall>v\<in>set vs. apart c v"
    using ok(3) assms(3) apart_subset [OF _ _ subset_refl] by blast
  ultimately show ?thesis using ok assms(2) by (simp add: blocks_ok_append ball_Un)
qed

text \<open>\<open>heap_take\<close> writes inside the block only, and turns it into the blocks of \<open>split_block\<close>.\<close>

lemma heap_take_outside:
  assumes "block_ok b" and "sz \<le> b_size b" and "blk_size m (b_addr b) = b_size b" and "unat x \<notin> ext b"
  shows "heap_take sz (b_addr b) m x = m x"
proof -
  have hdr: "\<not> x - b_addr b < 24" using header_in_ext [OF assms(1)] assms(4) by blast
  have "\<not> x - (b_addr b + 24 + sz) < 24" if fits: "unat sz + 40 \<le> unat (b_size b)"
    using range_iff [of "b_addr b + 24 + sz" 24 x] split_arith(2) [OF assms(1,2) fits] fits assms(1,4)
    by (auto simp: ext_def block_ok_def)
  then show ?thesis
    using hdr split_arith(1) [OF assms(1,2)]
    by (simp add: heap_take_def heap_const_defs assms(3) header_store_outside Let_def split_sum)
qed

lemma header_apart:
  assumes "unat a + 24 \<le> unat b" and "unat b + 24 \<le> 2 ^ 64"
  shows "blk_size (set_blk_size a v m) b = blk_size m b" "blk_free (set_blk_size a v m) b = blk_free m b"
    "blk_next (set_blk_size a v m) b = blk_next m b" "blk_size (set_blk_free a f m) b = blk_size m b"
    "blk_free (set_blk_free a f m) b = blk_free m b" "blk_next (set_blk_free a f m) b = blk_next m b"
    "blk_size (set_blk_next a v m) b = blk_size m b" "blk_free (set_blk_next a v m) b = blk_free m b"
    "blk_next (set_blk_next a v m) b = blk_next m b"
    "blk_size (set_blk_size b v m) a = blk_size m a" "blk_free (set_blk_size b v m) a = blk_free m a"
    "blk_next (set_blk_size b v m) a = blk_next m a" "blk_size (set_blk_free b f m) a = blk_size m a"
    "blk_free (set_blk_free b f m) a = blk_free m a" "blk_next (set_blk_free b f m) a = blk_next m a"
    "blk_size (set_blk_next b v m) a = blk_size m a" "blk_free (set_blk_next b v m) a = blk_free m a"
    "blk_next (set_blk_next b v m) a = blk_next m a"
proof -
  have "\<not> (x - a < 24 \<and> x - b < 24)" for x
    using assms range_iff [of a 24 x] range_iff [of b 24 x] by auto
  then have hdr: "x - b < 24 \<Longrightarrow> \<not> x - a < 24" "x - a < 24 \<Longrightarrow> \<not> x - b < 24" for x by blast+
  note out = header_store_outside [OF hdr(1)] header_store_outside [OF hdr(2)]
  show "blk_size (set_blk_size a v m) b = blk_size m b" "blk_free (set_blk_size a v m) b = blk_free m b"
    "blk_next (set_blk_size a v m) b = blk_next m b" "blk_size (set_blk_free a f m) b = blk_size m b"
    "blk_free (set_blk_free a f m) b = blk_free m b" "blk_next (set_blk_free a f m) b = blk_next m b"
    "blk_size (set_blk_next a v m) b = blk_size m b" "blk_free (set_blk_next a v m) b = blk_free m b"
    "blk_next (set_blk_next a v m) b = blk_next m b"
    "blk_size (set_blk_size b v m) a = blk_size m a" "blk_free (set_blk_size b v m) a = blk_free m a"
    "blk_next (set_blk_size b v m) a = blk_next m a" "blk_size (set_blk_free b f m) a = blk_size m a"
    "blk_free (set_blk_free b f m) a = blk_free m a" "blk_next (set_blk_free b f m) a = blk_next m a"
    "blk_size (set_blk_next b v m) a = blk_size m a" "blk_free (set_blk_next b v m) a = blk_free m a"
    "blk_next (set_blk_next b v m) a = blk_next m a"
    by (rule header_cong; use out in blast)+
qed

lemma heap_take_seg:
  assumes "block_ok b" and "sz \<le> b_size b" and "heap_seg m p [b] q"
  shows "heap_seg (heap_take sz (b_addr b) m) p (split_block sz b) q"
proof (cases "unat sz + 40 \<le> unat (b_size b)")
  case True
  let ?r = "b_addr b + 24 + sz"
  have r: "unat (b_addr b) + 24 \<le> unat ?r" "unat ?r + 24 \<le> 2 ^ 64" "?r \<noteq> 0"
    using split_arith(2) [OF assms(1,2) True] assms(1) True by (auto simp: block_ok_def)
  show ?thesis
    using assms(3) True split_arith(1) [OF assms(1,2)] r(3)
    by (clarsimp simp add: heap_take_def split_block_def heap_const_defs Let_def header_apart [OF r(1,2)] split_sum)
next
  case False
  then show ?thesis
    using assms(3) split_arith(1) [OF assms(1,2)]
    by (clarsimp simp add: heap_take_def split_block_def heap_const_defs Let_def split_sum)
qed

section \<open>Coalescing\<close>

definition joined :: "block \<Rightarrow> block \<Rightarrow> block" where
  "joined b c = Block (b_addr b) (b_size b + (24 + b_size c)) True"

function merge_blocks :: "block list \<Rightarrow> block list" where
  "merge_blocks (b # c # bs) =
     (if b_free b \<and> b_free c \<and> b_addr b + 24 + b_size b = b_addr c
      then merge_blocks (joined b c # bs)
      else b # merge_blocks (c # bs))"
| "merge_blocks [] = []"
| "merge_blocks [b] = [b]"
  by pat_completeness auto
termination by (relation "measure length") auto

text \<open>The allocated payloads: where they start and how long they are.\<close>

definition allocs :: "block list \<Rightarrow> (u64 \<times> nat) set" where
  "allocs bs = (\<lambda>b. (b_addr b + 24, unat (b_size b))) ` {b \<in> set bs. \<not> b_free b}"

lemma allocs_simps [simp]:
  "allocs [] = {}"
  "allocs (b # bs) = (if b_free b then allocs bs else insert (b_addr b + 24, unat (b_size b)) (allocs bs))"
  "allocs (bs @ cs) = allocs bs \<union> allocs cs"
  by (auto simp: allocs_def)

lemma joined_ok:
  assumes "block_ok b" and "block_ok c" and "b_addr b + 24 + b_size b = b_addr c"
  shows "block_ok (joined b c)" and "ext (joined b c) = ext b \<union> ext c"
proof -
  have bounds: "unat (b_addr b) + 24 + unat (b_size b) \<le> 2 ^ 32"
      "unat (b_addr c) + 24 + unat (b_size c) \<le> 2 ^ 32"
    using assms(1,2) by (auto simp: block_ok_def)
  have addr: "unat (b_addr c) = unat (b_addr b) + 24 + unat (b_size b)"
    using bounds(1) unfolding assms(3) [symmetric] by (simp add: unat_word_ariths)
  have sz: "unat (b_size b + (24 + b_size c)) = unat (b_size b) + 24 + unat (b_size c)"
    using bounds by (simp add: unat_word_ariths)
  show "block_ok (joined b c)"
    using assms(1) bounds addr sz by (simp add: joined_def block_ok_def)
  show "ext (joined b c) = ext b \<union> ext c"
    using addr sz by (auto simp: joined_def ext_def)
qed

lemma blocks_ok_joined:
  assumes "blocks_ok (b # c # bs)" and "b_addr b + 24 + b_size b = b_addr c"
  shows "blocks_ok (joined b c # bs)"
  using assms joined_ok [of b c] by (auto simp: apart_def)

lemma merge_blocks_ok:
  "blocks_ok bs \<Longrightarrow> blocks_ok (merge_blocks bs) \<and> allocs (merge_blocks bs) = allocs bs \<and>
     (\<Union>b\<in>set (merge_blocks bs). ext b) = (\<Union>b\<in>set bs. ext b)"
proof (induction bs rule: merge_blocks.induct)
  case (1 b c bs)
  show ?case
  proof (cases "b_free b \<and> b_free c \<and> b_addr b + 24 + b_size b = b_addr c")
    case True
    then have "blocks_ok (joined b c # bs)" "ext (joined b c) = ext b \<union> ext c"
      using "1.prems" blocks_ok_joined joined_ok(2) [of b c] by auto
    then show ?thesis using "1.IH"(1) [OF True] True by (auto simp: joined_def)
  next
    case False
    have IH: "blocks_ok (merge_blocks (c # bs)) \<and> allocs (merge_blocks (c # bs)) = allocs (c # bs) \<and>
        (\<Union>b\<in>set (merge_blocks (c # bs)). ext b) = (\<Union>b\<in>set (c # bs). ext b)"
      using "1.IH"(2) [OF False] "1.prems" by simp
    have "apart b d" if "d \<in> set (merge_blocks (c # bs))" for d
    proof -
      have "ext d \<subseteq> (\<Union>b\<in>set (c # bs). ext b)" using that IH by blast
      then show ?thesis using "1.prems" by (auto simp: apart_def)
    qed
    moreover have "merge_blocks (b # c # bs) = b # merge_blocks (c # bs)"
      using False by (subst merge_blocks.simps(1)) (rule if_not_P)
    ultimately show ?thesis using IH "1.prems" by simp
  qed
qed auto

lemma heap_coalesce_list:
  "heap_seg m p bs 0 \<Longrightarrow> blocks_ok bs \<Longrightarrow>
     \<exists>m'. heap_coalesce m p = Some m' \<and> heap_seg m' p (merge_blocks bs) 0 \<and>
       (\<forall>x. (\<forall>b\<in>set bs. b_free b \<longrightarrow> unat x \<notin> ext b) \<longrightarrow> m' x = m x)"
proof (induction bs arbitrary: m p rule: merge_blocks.induct)
  case (1 b c bs)
  let ?join = "b_free b \<and> b_free c \<and> b_addr b + 24 + b_size b = b_addr c"
  have seg: "p = b_addr b" "b_addr b \<noteq> 0" "blk_size m p = b_size b" "blk_free m p = b_free b"
      "blk_next m p = b_addr c" "b_addr c \<noteq> 0" "blk_size m (b_addr c) = b_size c"
      "blk_free m (b_addr c) = b_free c" "heap_seg m (blk_next m (b_addr c)) bs 0"
    using "1.prems"(1) by auto
  show ?case
  proof (cases ?join)
    case join: True
    let ?m1 = "set_blk_size p (blk_size m p + (24 + blk_size m (b_addr c))) m"
    let ?m2 = "set_blk_next p (blk_next ?m1 (b_addr c)) ?m1"
    have hdr: "?m2 x = m x" if "unat x \<notin> ext b" for x
    proof -
      have "\<not> x - p < 24" using header_in_ext [of b x] that "1.prems"(2) seg(1) by auto
      then show ?thesis by (simp add: header_store_outside)
    qed
    have hc: "blk_next ?m1 (b_addr c) = blk_next m (b_addr c)"
    proof (rule header_cong(3))
      fix x assume "x - b_addr c < 24"
      then have "unat x \<in> ext c" using header_in_ext "1.prems"(2) by simp
      then have "unat x \<notin> ext b" using "1.prems"(2) by (auto simp: apart_def)
      then have "\<not> x - p < 24" using header_in_ext [of b x] "1.prems"(2) seg(1) by auto
      then show "?m1 x = m x" by (simp add: header_store_outside)
    qed
    have ok: "blocks_ok (joined b c # bs)" using blocks_ok_joined "1.prems"(2) join by blast
    have "heap_seg ?m2 (blk_next m (b_addr c)) bs 0"
      using seg(9)
    proof (rule heap_seg_cong [rotated 2])
      show "\<forall>b\<in>set bs. block_ok b" using "1.prems"(2) by (simp add: blocks_ok_def)
      show "?m2 x = m x" if "d \<in> set bs" "unat x \<in> ext d" for d x
        using hdr [of x] that "1.prems"(2) by (auto simp: apart_def)
    qed
    then have "heap_seg ?m2 p (joined b c # bs) 0"
      using seg join hc by (simp add: joined_def)
    from "1.IH"(1) [OF join this ok] obtain m' where m':
      "heap_coalesce ?m2 p = Some m'" "heap_seg m' p (merge_blocks (joined b c # bs)) 0"
      "\<forall>x. (\<forall>d\<in>set (joined b c # bs). b_free d \<longrightarrow> unat x \<notin> ext d) \<longrightarrow> m' x = ?m2 x" by blast
    have "heap_coalesce m p = heap_coalesce ?m2 p"
      using seg join by (subst heap_coalesce.simps) (simp add: Let_def HEAP_HEADER_SIZE_def)
    moreover have "m' x = m x" if "\<forall>d\<in>set (b # c # bs). b_free d \<longrightarrow> unat x \<notin> ext d" for x
      using that join m'(3) hdr [of x] joined_ok(2) [of b c] "1.prems"(2) by auto
    ultimately show ?thesis using m'(1,2) join by auto
  next
    case False
    have "heap_seg m (b_addr c) (c # bs) 0" "blocks_ok (c # bs)" using "1.prems" seg(5) by auto
    from "1.IH"(2) [OF False this] obtain m' where m':
      "heap_coalesce m (b_addr c) = Some m'" "heap_seg m' (b_addr c) (merge_blocks (c # bs)) 0"
      "\<forall>x. (\<forall>d\<in>set (c # bs). b_free d \<longrightarrow> unat x \<notin> ext d) \<longrightarrow> m' x = m x" by blast
    have "heap_coalesce m p = heap_coalesce m (b_addr c)"
      using seg False by (subst heap_coalesce.simps) (auto simp: Let_def HEAP_HEADER_SIZE_def)
    moreover have "m' x = m x" if "x - b_addr b < 24" for x
    proof -
      have "unat x \<in> ext b" using that header_in_ext "1.prems"(2) by simp
      then have "unat x \<notin> ext d" if "d \<in> set (c # bs)" for d
        using that "1.prems"(2) by (auto simp: apart_def)
      then show ?thesis using m'(3) by blast
    qed
    then have "blk_size m' p = b_size b" "blk_free m' p = b_free b" "blk_next m' p = b_addr c"
      using header_cong [of "b_addr b" m' m] seg by auto
    ultimately show ?thesis using m' False seg(1,2) by auto
  qed
next
  case 2
  then show ?case by (subst heap_coalesce.simps) simp
next
  case (3 b)
  then show ?case by (subst heap_coalesce.simps) auto
qed

section \<open>The heap in a machine state\<close>

text \<open>
  \<open>heap_rep s bs\<close>: the list at \<open>heap_head\<close> is \<open>bs\<close>, its blocks do not overlap, and every frame
  they touch is in use as far as the frame allocator knows.
\<close>

definition heap_rep :: "'a heap_state_scheme \<Rightarrow> block list \<Rightarrow> bool" where
  "heap_rep s bs \<longleftrightarrow> pmm_ok s \<and> heap_seg (phys_mem s) (heap_head s) bs 0 \<and> blocks_ok bs \<and>
     (\<forall>b\<in>set bs. \<forall>x. unat x \<in> ext b \<longrightarrow> frame_of x \<notin> free_set s)"

definition heap_ok :: "'a heap_state_scheme \<Rightarrow> bool" where
  "heap_ok s \<longleftrightarrow> (\<exists>bs. heap_rep s bs)"

definition live :: "'a heap_state_scheme \<Rightarrow> (u64 \<times> nat) set" where
  "live s = {pn. \<exists>bs. heap_seg (phys_mem s) (heap_head s) bs 0 \<and> pn \<in> allocs bs}"

lemma live_rep: "heap_rep s bs \<Longrightarrow> live s = allocs bs"
  unfolding live_def heap_rep_def by (blast dest: heap_seg_unique)

text \<open>The bytes an allocation or a release may change: those of free blocks and of free frames.\<close>

definition heap_spare :: "'a heap_state_scheme \<Rightarrow> block list \<Rightarrow> u64 \<Rightarrow> bool" where
  "heap_spare s bs x \<longleftrightarrow> frame_of x \<in> free_set s \<or> (\<exists>b\<in>set bs. b_free b \<and> unat x \<in> ext b)"

definition mem_kept :: "'a heap_state_scheme \<Rightarrow> block list \<Rightarrow> 'a heap_state_scheme \<Rightarrow> bool" where
  "mem_kept s bs t \<longleftrightarrow> (\<forall>x. \<not> heap_spare s bs x \<longrightarrow> phys_mem t x = phys_mem s x)"

lemma align_up_16:
  assumes "unat v \<le> 2 ^ 64 - 16"
  shows "unat (align_up v HEAP_ALIGN) = (unat v + 15) div 16 * 16"
proof -
  let ?w = "v + HEAP_ALIGN - 1"
  have w: "unat ?w = unat v + 15"
    using assms by (simp add: HEAP_ALIGN_def unat_word_ariths)
  have "(15 :: u64) = mask 4" by (simp add: mask_eq_exp_minus_1)
  then show ?thesis
    using w unat_and_not_mask [of ?w 4] by (simp add: align_up_def HEAP_ALIGN_def)
qed

lemma size_guard: "sz > NOT 0 - (HEAP_ALIGN - 1) \<longleftrightarrow> 2 ^ 64 - 16 < unat sz"
  by (simp add: HEAP_ALIGN_def word_less_nat_alt)

text \<open>Growing: the new block covers exactly the frames just taken.\<close>

lemma frames_needed:
  assumes "unat sz \<le> 2 ^ 64 - 25" and "n = (24 + sz + PMM_FRAME_SIZE - 1) div PMM_FRAME_SIZE"
    and "n \<noteq> 0"
  shows "unat sz + 24 \<le> unat n * 4096"
proof -
  have total: "unat (24 + sz) = 24 + unat sz" using assms(1) by (simp add: unat_word_ariths)
  have "unat (24 + sz) \<le> 2 ^ 64 - 4096"
  proof (rule ccontr)
    assume big: "\<not> ?thesis"
    have wrap: "unat (w + PMM_FRAME_SIZE - 1) = (4095 + unat w) mod 2 ^ 64" for w :: u64
      by (simp add: PMM_FRAME_SIZE_def unat_word_ariths)
    have "24 + unat sz < 2 ^ 64" using assms(1) by simp
    with big have "unat (24 + sz + PMM_FRAME_SIZE - 1) < 4096"
      unfolding wrap total by (simp add: mod_if) linarith
    then have "unat n = 0" unfolding assms(2) by (simp add: PMM_FRAME_SIZE_def unat_div)
    then show False using assms(3) by (simp add: unat_eq_zero)
  qed
  then have "unat n = (unat sz + 24 + 4095) div 4096"
    unfolding assms(2) unat_div by (simp only: unat_plus_4095 total) (simp add: PMM_FRAME_SIZE_def)
  then show ?thesis by linarith
qed

lemma run_block:
  assumes "free_run s a n" and "n \<noteq> 0" and "0 \<notin> free_set s"
    and "b = Block (a * PMM_FRAME_SIZE) (n * PMM_FRAME_SIZE - 24) True"
  shows "block_ok b" and "unat (b_size b) = unat n * 4096 - 24"
    and "unat x \<in> ext b \<longleftrightarrow> frame_of x - a < n" and "a * PMM_FRAME_SIZE \<noteq> 0"
    and "frame_of x - a < n \<Longrightarrow> frame_of x \<in> free_set s"
proof -
  have bnd: "unat a + unat n \<le> 0x100000" by (rule free_run_bounds [OF assms(1,2)])
  have n: "0 < unat n" using assms(2) by (simp add: unat_gt_0)
  have free: "a + i \<in> free_set s" if "i < n" for i
    using assms(1) that by (simp add: free_run_def free_set_def)
  have a: "a \<in> free_set s" using free [of 0] assms(2) by (simp add: word_gt_0)
  then show nz: "a * PMM_FRAME_SIZE \<noteq> 0" using frame_nonzero assms(3) by blast
  have ua: "unat (a * PMM_FRAME_SIZE) = unat a * 4096" using frame_address(1) free_set_below [OF a] by blast
  have "unat (n * PMM_FRAME_SIZE) = unat n * 4096"
    using bnd by (simp add: PMM_FRAME_SIZE_def unat_word_ariths)
  then have un: "unat (n * PMM_FRAME_SIZE - 24) = unat n * 4096 - 24"
    using n by (simp add: unat_sub_if')
  then show "unat (b_size b) = unat n * 4096 - 24" by (simp add: assms(4))
  show "block_ok b" using nz ua un bnd n by (simp add: assms(4) block_ok_def)
  show "unat x \<in> ext b \<longleftrightarrow> frame_of x - a < n"
    using range_iff [of a n "frame_of x"] bnd n
    by (auto simp: assms(4) ext_def ua un unat_frame_of)
  show "frame_of x \<in> free_set s" if "frame_of x - a < n"
    using free [OF that] by simp
qed

lemma grow_heap_cases:
  assumes rep: "heap_rep s bs"
  obtains (fail) "grow_heap sz s = (s, 0)"
  | (grown) t b where "grow_heap sz s = (t, b_addr b)" and "b_free b" and "sz \<le> b_size b"
      and "b_addr b \<noteq> 0" and "heap_rep t (b # bs)" and "mem_kept s bs t"
      and "\<And>x. heap_spare t (b # bs) x \<Longrightarrow> heap_spare s bs x"
proof (cases "sz > NOT 0 - HEAP_HEADER_SIZE")
  case True
  then show ?thesis using fail by (simp add: grow_heap_def)
next
  case False
  define n where "n = (24 + sz + PMM_FRAME_SIZE - 1) div PMM_FRAME_SIZE"
  have sz: "unat sz \<le> 2 ^ 64 - 25" using False by (simp add: HEAP_HEADER_SIZE_def word_less_nat_alt)
  have grow: "grow_heap sz s = (let (s, frame) = pmm_alloc_contiguous n s
        in if frame = 0 then (s, 0)
           else (s\<lparr>phys_mem := set_blk_next frame (heap_head s) (set_blk_free frame 1
                  (set_blk_size frame (n * PMM_FRAME_SIZE - 24) (phys_mem s))), heap_head := frame\<rparr>, frame))"
    using False unfolding grow_heap_def n_def Let_def HEAP_HEADER_SIZE_def by (auto split: prod.split)
  show ?thesis
  proof (cases rule: pmm_alloc_contiguous_cases [of n s])
    case none
    then show ?thesis using fail grow by simp
  next
    case (run a u)
    define b where "b = Block (a * PMM_FRAME_SIZE) (n * PMM_FRAME_SIZE - 24) True"
    have zero: "0 \<notin> free_set s" and inv: "pmm_inv s" using rep by (simp_all add: heap_rep_def pmm_ok_def)
    note blk = run_block [OF run(3,2) zero b_def]
    have head: "heap_head u = heap_head s"
      using run(7) by (rule pmm_frame_field) (simp add: pmm_clear_def)
    have mem: "phys_mem u = phys_mem s" using run(7) by (rule pmm_frame_phys_mem)
    let ?m = "set_blk_next (b_addr b) (heap_head s) (set_blk_free (b_addr b) 1
                  (set_blk_size (b_addr b) (b_size b) (phys_mem s)))"
    let ?t = "u\<lparr>phys_mem := ?m, heap_head := b_addr b\<rparr>"
    have used: "frame_of x \<notin> free_set s" if "c \<in> set bs" "unat x \<in> ext c" for c x
      using rep that by (auto simp: heap_rep_def)
    have out: "?m x = phys_mem s x" if "unat x \<notin> ext b" for x
    proof -
      have "\<not> x - b_addr b < 24" using header_in_ext [OF blk(1)] that by blast
      then show ?thesis by (simp add: header_store_outside)
    qed
    have disj: "apart b c" if c: "c \<in> set bs" for c
    proof -
      have "unat (of_nat y :: u64) = y" if "y \<in> ext b" for y
        using that blk(1) by (auto simp: ext_def block_ok_def unat_of_nat)
      then show ?thesis using used [OF c] blk(3,5) unfolding apart_def by (metis disjoint_iff)
    qed
    have seg: "heap_seg ?m (heap_head s) bs 0"
    proof (rule heap_seg_cong)
      show "heap_seg (phys_mem s) (heap_head s) bs 0" "\<forall>b\<in>set bs. block_ok b"
        using rep by (simp_all add: heap_rep_def blocks_ok_def)
      show "?m x = phys_mem s x" if "c \<in> set bs" "unat x \<in> ext c" for c x
        using out [of x] disj [OF that(1)] that(2) by (auto simp: apart_def)
    qed
    have gt: "grow_heap sz s = (?t, b_addr b)"
      using grow run(1) blk(4) head mem by (simp add: b_def)
    have fs: "free_set ?t = {f \<in> free_set s. \<not> f - a < n}"
      using run(5) free_set_cong [of ?t u] by simp
    have "pmm_ok u" using run(5,6) inv zero by (simp add: pmm_ok_def)
    then have "pmm_ok ?t" using pmm_ok_cong [of ?t u] by simp
    then have rep': "heap_rep ?t (b # bs)"
      using seg rep disj blk used fs by (auto simp: heap_rep_def b_def)
    have kept: "mem_kept s bs ?t"
      using out blk(3,5) by (auto simp: mem_kept_def heap_spare_def)
    have spare: "heap_spare s bs x" if "heap_spare ?t (b # bs) x" for x
      using that fs blk(3,5) by (auto simp: heap_spare_def)
    have "unat sz \<le> unat (b_size b)"
      using frames_needed [OF sz n_def run(2)] blk(2) by linarith
    then show ?thesis
      using grown [OF gt _ _ _ rep' kept spare] blk(4) by (simp add: b_def word_le_nat_alt)
  qed
qed

text \<open>Taking a block that fits, in a represented heap.\<close>

lemma allocs_split: "b_size b \<ge> sz \<Longrightarrow> \<exists>n \<ge> unat sz. allocs (split_block sz b) = {(b_addr b + 24, n)}"
  by (auto simp: split_block_def word_le_nat_alt)

lemma heap_rep_take:
  assumes rep: "heap_rep s (us @ b # vs)" and free: "b_free b" and fits: "sz \<le> b_size b"
  shows "heap_rep (s\<lparr>phys_mem := heap_take sz (b_addr b) (phys_mem s)\<rparr>) (us @ split_block sz b @ vs)"
    and "mem_kept s (us @ b # vs) (s\<lparr>phys_mem := heap_take sz (b_addr b) (phys_mem s)\<rparr>)"
proof -
  let ?m = "heap_take sz (b_addr b) (phys_mem s)"
  let ?t = "s\<lparr>phys_mem := ?m\<rparr>"
  obtain r q where seg: "heap_seg (phys_mem s) (heap_head s) us r" "heap_seg (phys_mem s) r [b] q"
      "heap_seg (phys_mem s) q vs 0"
    using rep by (auto simp: heap_rep_def heap_seg_append)
  have ok: "blocks_ok (us @ b # vs)" and bok: "block_ok b"
    using rep by (auto simp: heap_rep_def blocks_ok_def)
  have size: "blk_size (phys_mem s) (b_addr b) = b_size b" using seg(2) by auto
  note out = heap_take_outside [OF bok fits size]
  have cong: "?m x = phys_mem s x" if "c \<in> set us \<union> set vs" "unat x \<in> ext c" for c x
    using that ok by (intro out) (auto simp: blocks_ok_append apart_def)
  have "heap_seg ?m (heap_head s) us r" "heap_seg ?m q vs 0"
    using seg(1,3) ok cong by (auto simp: blocks_ok_def intro: heap_seg_cong)
  then have "heap_seg ?m (heap_head s) (us @ split_block sz b @ vs) 0"
    using heap_take_seg [OF bok fits seg(2)] by (auto simp: heap_seg_append)
  moreover have "blocks_ok (us @ split_block sz b @ vs)"
    using ok split_block_ok [OF bok fits] by (rule blocks_ok_replace)
  moreover have "frame_of x \<notin> free_set s" if "c \<in> set (us @ split_block sz b @ vs)" "unat x \<in> ext c" for c x
    using that rep split_block_ok(2) [OF bok fits] by (auto simp: heap_rep_def)
  moreover have "pmm_ok ?t" using rep pmm_ok_cong [of ?t s] by (simp add: heap_rep_def)
  ultimately show "heap_rep ?t (us @ split_block sz b @ vs)" by (auto simp: heap_rep_def)
  show "mem_kept s (us @ b # vs) ?t"
    using free out by (auto simp: mem_kept_def heap_spare_def)
qed

text \<open>
  \<open>kmalloc\<close> on a represented heap: it always returns; without a fitting block and without
  frames it fails and changes nothing; otherwise it is \<open>alloc_blocks\<close> on the list, to which growing
  may first have added a block.
\<close>

lemma kmalloc_cases:
  assumes rep: "heap_rep s bs"
  obtains (fail) "kmalloc sz s = Some (s, 0)"
  | (ok) t us b vs n where "kmalloc sz s = Some (t, b_addr b + 24)" and "sz \<noteq> 0" and "unat sz \<le> 2 ^ 64 - 16"
      and "us @ b # vs = bs \<or> us = [] \<and> vs = bs" and "b_free b"
      and "heap_rep t (us @ split_block (align_up sz HEAP_ALIGN) b @ vs)"
      and "block_ok b" and "n \<ge> unat sz"
      and "allocs (us @ split_block (align_up sz HEAP_ALIGN) b @ vs) = insert (b_addr b + 24, n) (allocs bs)"
      and "blocks_ok (us @ b # vs)" and "mem_kept s bs t"
proof (cases "sz = 0 \<or> 2 ^ 64 - 16 < unat sz")
  case True
  then show ?thesis using fail size_guard [of sz] by (auto simp: kmalloc_def)
next
  case False
  define a where "a = align_up sz HEAP_ALIGN"
  have "unat a = (unat sz + 15) div 16 * 16" using False align_up_16 by (simp add: a_def)
  then have a_ge: "unat sz \<le> unat a" by linarith
  have guard: "\<not> sz > NOT 0 - (HEAP_ALIGN - 1)" using False size_guard by blast
  have seg: "heap_seg (phys_mem s) (heap_head s) bs 0" using rep by (simp add: heap_rep_def)
  let ?fit = "find (\<lambda>b. b_free b \<and> a \<le> b_size b) bs"
  have result: thesis
    if r: "heap_rep u (us @ b # vs)" and f: "b_free b" and fits: "a \<le> b_size b"
      and split: "us @ b # vs = bs \<or> us = [] \<and> vs = bs"
      and k: "kmalloc sz s = Some (u\<lparr>phys_mem := heap_take a (b_addr b) (phys_mem u)\<rparr>, b_addr b + 24)"
      and kept: "mem_kept s bs u" and spare: "\<And>x. heap_spare u (us @ b # vs) x \<Longrightarrow> heap_spare s bs x"
    for u us b vs
  proof -
    note taken = heap_rep_take [OF r f fits]
    obtain n where n: "n \<ge> unat a" "allocs (split_block a b) = {(b_addr b + 24, n)}"
      using allocs_split [OF fits] by blast
    have "allocs (us @ b # vs) = allocs bs"
      using split f by (elim disjE conjE) simp_all
    then have "allocs (us @ split_block a b @ vs) = insert (b_addr b + 24, n) (allocs bs)"
      using f n(2) by simp
    moreover have "mem_kept s bs (u\<lparr>phys_mem := heap_take a (b_addr b) (phys_mem u)\<rparr>)"
      using kept taken(2) spare unfolding mem_kept_def by metis
    moreover have "block_ok b" "blocks_ok (us @ b # vs)" using r by (auto simp: heap_rep_def blocks_ok_def)
    ultimately show thesis
      using ok [OF k _ _ split f, where n = n] taken(1) False n(1) a_ge unfolding a_def
      by (meson le_trans not_le)
  qed
  show ?thesis
  proof (cases ?fit)
    case None
    have find: "heap_find (phys_mem s) a (heap_head s) = Some 0" using heap_find_list [OF seg] None by simp
    have k: "kmalloc sz s = (let (s, block) = grow_heap a s in
        if block = 0 then Some (s, 0)
        else Some (s\<lparr>phys_mem := heap_take a block (phys_mem s)\<rparr>, block + 24))"
      using False guard find
      by (simp add: kmalloc_def a_def [symmetric] HEAP_HEADER_SIZE_def Let_def split: prod.split)
    show ?thesis
    proof (cases rule: grow_heap_cases [OF rep, of a])
      case 1
      then show ?thesis using k fail by simp
    next
      case (2 t b)
      then show ?thesis using k result [of t "[]" b bs] by simp
    qed
  next
    case (Some b)
    then obtain cs where "alloc_blocks a bs = Some (cs, b_addr b + 24)"
      by (cases "alloc_blocks a bs") (auto dest: alloc_blocks_Some simp: alloc_blocks_None)
    then obtain us vs where bs: "bs = us @ b # vs" "b_free b" "a \<le> b_size b"
      using alloc_blocks_Some [of a bs cs "b_addr b + 24"] Some by auto
    have find: "heap_find (phys_mem s) a (heap_head s) = Some (b_addr b)"
      using heap_find_list [OF seg] Some by simp
    have "b_addr b \<noteq> 0" using rep bs by (auto simp: heap_rep_def blocks_ok_def block_ok_def)
    then have "kmalloc sz s = Some (s\<lparr>phys_mem := heap_take a (b_addr b) (phys_mem s)\<rparr>, b_addr b + 24)"
      using False guard find by (simp add: kmalloc_def a_def [symmetric] HEAP_HEADER_SIZE_def Let_def)
    then show ?thesis using result [of s us b vs] rep bs by (simp add: mem_kept_def)
  qed
qed

lemma payload_addr: "block_ok b \<Longrightarrow> unat (b_addr b + 24) = unat (b_addr b) + 24"
  by (auto simp: block_ok_def unat_word_ariths)

lemma payload_eq: "block_ok b \<Longrightarrow> block_ok c \<Longrightarrow> b_addr b + 24 = b_addr c + 24 \<longleftrightarrow> b_addr b = b_addr c"
  by simp

lemma blocks_addr_distinct:
  assumes "blocks_ok (us @ b # vs)" and "c \<in> set us \<union> set vs"
  shows "b_addr c \<noteq> b_addr b"
proof -
  have "unat (b_addr b) \<in> ext b" "unat (b_addr c) \<in> ext c" by (auto simp: ext_def)
  moreover have "ext b \<inter> ext c = {}" using assms by (auto simp: blocks_ok_append apart_def)
  ultimately show ?thesis by auto
qed

lemma kfree_cases:
  assumes rep: "heap_rep s bs"
  obtains (ignored) "kfree p s = Some s" and "\<forall>n. (p, n) \<notin> allocs bs"
  | (freed) t us b vs where "kfree p s = Some t" and "bs = us @ b # vs" and "\<not> b_free b"
      and "p = b_addr b + 24"
      and "heap_rep t (merge_blocks (us @ Block (b_addr b) (b_size b) True # vs))"
      and "allocs (merge_blocks (us @ Block (b_addr b) (b_size b) True # vs)) = {(q, n) \<in> allocs bs. q \<noteq> p}"
      and "\<forall>x. \<not> heap_spare s (us @ Block (b_addr b) (b_size b) True # vs) x \<longrightarrow> phys_mem t x = phys_mem s x"
proof -
  have seg: "heap_seg (phys_mem s) (heap_head s) bs 0" and ok: "blocks_ok bs"
    using rep by (simp_all add: heap_rep_def)
  have search: "heap_search (phys_mem s) p (heap_head s) =
      Some (case find (\<lambda>b. b_addr b + 24 = p) bs of None \<Rightarrow> 0 | Some b \<Rightarrow> b_addr b)"
    by (rule heap_search_list [OF seg])
  show ?thesis
  proof (cases "find (\<lambda>b. b_addr b + 24 = p) bs")
    case None
    then have "kfree p s = Some s" using search by (simp add: kfree_def)
    moreover have "\<forall>n. (p, n) \<notin> allocs bs" using None by (auto simp: find_None_iff allocs_def)
    ultimately show ?thesis by (rule ignored)
  next
    case (Some b)
    then have "b \<in> set bs" and p: "p = b_addr b + 24" by (auto simp: find_Some_iff)
    then obtain us vs where bs: "bs = us @ b # vs" by (meson split_list)
    have bok: "block_ok b" using ok bs by (simp add: blocks_ok_append)
    have nz: "b_addr b \<noteq> 0" and pnz: "p \<noteq> 0"
      using bok payload_addr [OF bok] p by (auto simp: block_ok_def)
    have others: "b_addr c + 24 \<noteq> p" if "c \<in> set us \<union> set vs" for c
      using blocks_addr_distinct [of us b vs c] that ok bs p by simp
    have hdr: "blk_free (phys_mem s) (b_addr b) = b_free b"
      using seg by (auto simp: bs heap_seg_append)
    show ?thesis
    proof (cases "b_free b")
      case True
      then have "kfree p s = Some s" using search Some nz hdr by (simp add: kfree_def)
      moreover have "\<forall>n. (p, n) \<notin> allocs bs" using others True by (auto simp: bs allocs_def)
      ultimately show ?thesis by (rule ignored)
    next
      case False
      define c where "c = Block (b_addr b) (b_size b) True"
      let ?m = "set_blk_free (b_addr b) 1 (phys_mem s)"
      have c: "ext c = ext b" "block_ok c" using bok by (auto simp: c_def ext_def block_ok_def)
      have ok': "blocks_ok (us @ [c] @ vs)"
        by (rule blocks_ok_replace [of us b vs]) (use ok c bs in auto)
      have out: "?m x = phys_mem s x" if "unat x \<notin> ext b" for x
      proof -
        have "\<not> x - b_addr b < 24" using header_in_ext [OF bok] that by blast
        then show ?thesis by (simp add: header_store_outside)
      qed
      obtain r where r: "heap_seg (phys_mem s) (heap_head s) us r"
          "heap_seg (phys_mem s) r (b # vs) 0"
        using seg by (auto simp: bs heap_seg_append)
      have outside: "?m x = phys_mem s x" if "d \<in> set us \<union> set vs" "unat x \<in> ext d" for d x
        using that ok unfolding bs by (intro out) (auto simp: blocks_ok_append apart_def)
      have ok_us: "\<forall>d\<in>set us. block_ok d" and ok_vs: "\<forall>d\<in>set vs. block_ok d"
        using ok by (auto simp: bs blocks_ok_def)
      have "heap_seg ?m (heap_head s) us r"
        using ok_us outside r(1) by (intro heap_seg_cong [of us ?m "phys_mem s"]) auto
      moreover have "heap_seg ?m (blk_next (phys_mem s) r) vs 0"
        using ok_vs outside r(2) by (intro heap_seg_cong [of vs ?m "phys_mem s"]) auto
      ultimately have "heap_seg ?m (heap_head s) (us @ [c] @ vs) 0"
        using r(2) by (auto simp: heap_seg_append c_def)
      from heap_coalesce_list [OF this ok'] obtain m' where m':
        "heap_coalesce ?m (heap_head s) = Some m'" "heap_seg m' (heap_head s) (merge_blocks (us @ [c] @ vs)) 0"
        "\<forall>x. (\<forall>d\<in>set (us @ [c] @ vs). b_free d \<longrightarrow> unat x \<notin> ext d) \<longrightarrow> m' x = ?m x" by blast
      let ?t = "s\<lparr>phys_mem := m'\<rparr>"
      have k: "kfree p s = Some ?t" using search Some nz pnz hdr False m'(1) by (simp add: kfree_def)
      note merged = merge_blocks_ok [OF ok']
      have "frame_of x \<notin> free_set s" if "d \<in> set (merge_blocks (us @ [c] @ vs))" "unat x \<in> ext d" for d x
      proof -
        have "unat x \<in> (\<Union>b\<in>set (us @ [c] @ vs). ext b)" using that merged by blast
        then show ?thesis using rep c(1) by (auto simp: heap_rep_def bs)
      qed
      moreover have "pmm_ok ?t" using rep pmm_ok_cong [of ?t s] by (simp add: heap_rep_def)
      ultimately have rep': "heap_rep ?t (merge_blocks (us @ [c] @ vs))"
        using m'(2) merged by (auto simp: heap_rep_def)
      have "(q, n) \<in> allocs us \<union> allocs vs \<Longrightarrow> q \<noteq> p" for q n
        using others by (auto simp: allocs_def)
      then have al: "allocs (merge_blocks (us @ [c] @ vs)) = {(q, n) \<in> allocs bs. q \<noteq> p}"
        using merged False p by (auto simp: bs c_def)
      have "phys_mem ?t x = phys_mem s x" if "\<not> heap_spare s (us @ [c] @ vs) x" for x
        using that m'(3) out [of x] c(1) by (auto simp: heap_spare_def c_def)
      then show ?thesis
        using freed [OF k bs False p] rep' al unfolding c_def by simp
    qed
  qed
qed

section \<open>The interface of the kernel's allocator\<close>

text \<open>The bytes of a set of payloads are the same in two memories.\<close>

definition same_payloads :: "(u64 \<times> nat) set \<Rightarrow> memory \<Rightarrow> memory \<Rightarrow> bool" where
  "same_payloads L m m' \<longleftrightarrow>
     (\<forall>(p, n)\<in>L. \<forall>x. unat p \<le> unat x \<and> unat x < unat p + n \<longrightarrow> m' x = m x)"

datatype heap_op = Alloc u64 | Free u64

locale kernel_allocator =
  fixes ok :: "'s \<Rightarrow> bool" and live :: "'s \<Rightarrow> (u64 \<times> nat) set" and mem :: "'s \<Rightarrow> memory"
    and alloc :: "u64 \<Rightarrow> 's \<Rightarrow> ('s \<times> u64) option" and free :: "u64 \<Rightarrow> 's \<Rightarrow> 's option"
  assumes live_apart: "ok s \<Longrightarrow> (p, n) \<in> live s \<Longrightarrow> (q, k) \<in> live s \<Longrightarrow>
      (p, n) = (q, k) \<or> unat p + n \<le> unat q \<or> unat q + k \<le> unat p"
    and alloc_law: "ok s \<Longrightarrow> \<exists>t p. alloc sz s = Some (t, p) \<and> ok t \<and>
      (p = 0 \<and> t = s \<or> p \<noteq> 0 \<and> (\<exists>n \<ge> unat sz. (\<forall>k. (p, k) \<notin> live s) \<and>
         live t = insert (p, n) (live s) \<and> same_payloads (live s) (mem s) (mem t)))"
    and free_law: "ok s \<Longrightarrow> \<exists>t. free p s = Some t \<and> ok t \<and> live t = {(q, n) \<in> live s. q \<noteq> p} \<and>
      ((\<forall>n. (p, n) \<notin> live s) \<longrightarrow> t = s) \<and> same_payloads (live t) (mem s) (mem t)"
begin

fun run_heap :: "heap_op list \<Rightarrow> 's \<Rightarrow> 's option" where
  "run_heap [] s = Some s"
| "run_heap (Alloc sz # ops) s = (case alloc sz s of None \<Rightarrow> None | Some (t, _) \<Rightarrow> run_heap ops t)"
| "run_heap (Free p # ops) s = (case free p s of None \<Rightarrow> None | Some t \<Rightarrow> run_heap ops t)"

lemma run_heap_keeps:
  "ok s \<Longrightarrow> \<exists>t. run_heap ops s = Some t \<and> ok t \<and>
     (\<forall>p n. (p, n) \<in> live s \<and> Free p \<notin> set ops \<longrightarrow>
        (p, n) \<in> live t \<and> same_payloads {(p, n)} (mem s) (mem t))"
proof (induction ops arbitrary: s)
  case Nil
  then show ?case by (auto simp: same_payloads_def)
next
  case (Cons op ops)
  show ?case
  proof (cases op)
    case (Alloc sz)
    obtain u p where u: "alloc sz s = Some (u, p)" "ok u"
        "live s \<subseteq> live u" "same_payloads (live s) (mem s) (mem u)"
      using alloc_law [OF Cons.prems, of sz] by (fastforce simp: same_payloads_def)
    obtain t where t: "run_heap ops u = Some t" "ok t"
        "\<forall>p n. (p, n) \<in> live u \<and> Free p \<notin> set ops \<longrightarrow> (p, n) \<in> live t \<and> same_payloads {(p, n)} (mem u) (mem t)"
      using Cons.IH [OF u(2)] by blast
    have "(p, n) \<in> live t \<and> same_payloads {(p, n)} (mem s) (mem t)"
      if "(p, n) \<in> live s" "Free p \<notin> set ops" for p n
      using that t(3) u(3,4) by (fastforce simp: same_payloads_def)
    then show ?thesis using t(1,2) u(1) Alloc by simp
  next
    case (Free q)
    obtain u where u: "free q s = Some u" "ok u" "live u = {(p, n) \<in> live s. p \<noteq> q}"
        "same_payloads (live u) (mem s) (mem u)"
      using free_law [OF Cons.prems, of q] by blast
    obtain t where t: "run_heap ops u = Some t" "ok t"
        "\<forall>p n. (p, n) \<in> live u \<and> Free p \<notin> set ops \<longrightarrow> (p, n) \<in> live t \<and> same_payloads {(p, n)} (mem u) (mem t)"
      using Cons.IH [OF u(2)] by blast
    have "(p, n) \<in> live t \<and> same_payloads {(p, n)} (mem s) (mem t)"
      if "(p, n) \<in> live s" "Free p \<notin> set (op # ops)" for p n
      using that t(3) u(3,4) Free by (fastforce simp: same_payloads_def)
    then show ?thesis using t(1,2) u(1) Free by simp
  qed
qed

end

lemma payload_in_ext:
  "block_ok b \<Longrightarrow> unat (b_addr b + 24) \<le> y \<Longrightarrow> y < unat (b_addr b + 24) + unat (b_size b) \<Longrightarrow> y \<in> ext b"
  by (simp add: payload_addr ext_def)

lemma sorted_wrt_apart_pair:
  "sorted_wrt apart bs \<Longrightarrow> b \<in> set bs \<Longrightarrow> c \<in> set bs \<Longrightarrow> b = c \<or> apart b c"
  by (induction bs) (auto dest: apart_sym)

lemma allocs_apart:
  assumes "blocks_ok bs" and "(p, n) \<in> allocs bs" and "(q, k) \<in> allocs bs"
  shows "(p, n) = (q, k) \<or> unat p + n \<le> unat q \<or> unat q + k \<le> unat p"
proof -
  obtain b c where b: "b \<in> set bs" "p = b_addr b + 24" "n = unat (b_size b)"
      and c: "c \<in> set bs" "q = b_addr c + 24" "k = unat (b_size c)"
    using assms(2,3) by (auto simp: allocs_def)
  have ok: "block_ok b" "block_ok c" "b = c \<or> apart b c"
    using assms(1) b(1) c(1) sorted_wrt_apart_pair by (auto simp: blocks_ok_def)
  show ?thesis
  proof (cases "b = c")
    case False
    then have "ext b \<inter> ext c = {}" using ok(3) by (simp add: apart_def)
    then have "max (unat (b_addr b)) (unat (b_addr c)) \<notin> ext b \<inter> ext c" by blast
    then show ?thesis using b c payload_addr ok by (auto simp: ext_def max_def split: if_splits)
  qed (use b c in simp)
qed

lemma payloads_kept:
  assumes "heap_rep s bs" and "(\<forall>x. \<not> heap_spare s cs x \<longrightarrow> phys_mem t x = phys_mem s x)"
    and "L \<subseteq> allocs bs" and "blocks_ok cs" and "L \<subseteq> allocs cs"
  shows "same_payloads L (phys_mem s) (phys_mem t)"
proof -
  have "phys_mem t x = phys_mem s x" if pn: "(p, n) \<in> L" and x: "unat p \<le> unat x" "unat x < unat p + n" for p n x
  proof -
    obtain b where b: "b \<in> set bs" "p = b_addr b + 24" "n = unat (b_size b)"
      using assms(3) pn by (auto simp: allocs_def)
    have "block_ok b" using b(1) assms(1) by (auto simp: heap_rep_def blocks_ok_def)
    then have "unat x \<in> ext b" using payload_in_ext x b by simp
    then have f: "frame_of x \<notin> free_set s" using assms(1) b(1) by (auto simp: heap_rep_def)
    obtain c where c: "c \<in> set cs" "\<not> b_free c" "p = b_addr c + 24" "n = unat (b_size c)"
      using assms(5) pn by (auto simp: allocs_def)
    have "block_ok c" using c(1) assms(4) by (auto simp: blocks_ok_def)
    then have xc: "unat x \<in> ext c" using payload_in_ext x c by simp
    have "unat x \<notin> ext d" if "d \<in> set cs" "b_free d" for d
    proof -
      have "apart c d" using sorted_wrt_apart_pair [of cs c d] assms(4) c(1,2) that by (auto simp: blocks_ok_def)
      then show ?thesis using xc by (auto simp: apart_def)
    qed
    then show ?thesis using f assms(2) by (auto simp: heap_spare_def)
  qed
  then show ?thesis by (auto simp: same_payloads_def)
qed

interpretation heap: kernel_allocator heap_ok live phys_mem kmalloc kfree
proof
  fix s :: "'a heap_state_scheme" and p q :: u64 and n k :: nat and sz :: u64
  assume "heap_ok s"
  then obtain bs where rep: "heap_rep s bs" by (auto simp: heap_ok_def)
  have bok: "blocks_ok bs" using rep by (simp add: heap_rep_def)
  have live: "live s = allocs bs" by (rule live_rep [OF rep])
  show "(p, n) = (q, k) \<or> unat p + n \<le> unat q \<or> unat q + k \<le> unat p"
    if "(p, n) \<in> live s" "(q, k) \<in> live s"
    using allocs_apart [OF bok] that unfolding live by blast
  show "\<exists>t p. kmalloc sz s = Some (t, p) \<and> heap_ok t \<and> (p = 0 \<and> t = s \<or> p \<noteq> 0 \<and>
      (\<exists>n \<ge> unat sz. (\<forall>k. (p, k) \<notin> live s) \<and> live t = insert (p, n) (live s) \<and>
         same_payloads (live s) (phys_mem s) (phys_mem t)))"
  proof (cases rule: kmalloc_cases [OF rep, of sz])
    case 1
    then show ?thesis using rep by (auto simp: heap_ok_def)
  next
    case (2 t us b vs n)
    let ?p = "b_addr b + 24"
    have "b_addr c \<noteq> b_addr b" if "c \<in> set bs" "\<not> b_free c" for c
    proof -
      have "c \<in> set us \<union> set vs" using 2(4,5) that by auto
      then show ?thesis using blocks_addr_distinct [OF 2(10)] by blast
    qed
    then have fresh: "(?p, k) \<notin> live s" for k unfolding live allocs_def by fastforce
    have "live t = insert (?p, n) (live s)"
      using live_rep [OF 2(6)] 2(9) live by simp
    moreover have "same_payloads (live s) (phys_mem s) (phys_mem t)"
      unfolding live using 2(11) bok by (intro payloads_kept [OF rep, of bs]) (auto simp: mem_kept_def)
    moreover have "heap_ok t" using 2(6) by (auto simp: heap_ok_def)
    moreover have "?p \<noteq> 0" using payload_addr [OF 2(7)] by auto
    ultimately show ?thesis using 2(1,8) fresh by blast
  qed
  show "\<exists>t. kfree p s = Some t \<and> heap_ok t \<and> live t = {(q, n) \<in> live s. q \<noteq> p} \<and>
      ((\<forall>n. (p, n) \<notin> live s) \<longrightarrow> t = s) \<and> same_payloads (live t) (phys_mem s) (phys_mem t)"
  proof (cases rule: kfree_cases [OF rep, of p])
    case 1
    have "same_payloads (live s) (phys_mem s) (phys_mem s)" by (auto simp: same_payloads_def)
    moreover have "live s = {(q, n) \<in> live s. q \<noteq> p}" using 1(2) live by auto
    ultimately show ?thesis using 1 rep by (auto simp: heap_ok_def)
  next
    case (2 t us b vs)
    let ?cs = "us @ Block (b_addr b) (b_size b) True # vs"
    have cs: "blocks_ok (us @ [Block (b_addr b) (b_size b) True] @ vs)"
      by (rule blocks_ok_replace [of us b vs])
        (use bok in \<open>auto simp: 2(2) blocks_ok_append ext_def block_ok_def\<close>)
    have lt: "live t = {(q, n) \<in> live s. q \<noteq> p}" using live_rep [OF 2(5)] 2(6) live by simp
    have "(p, unat (b_size b)) \<in> live s" using 2 live by (auto simp: allocs_def)
    moreover have "{(q, n) \<in> allocs bs. q \<noteq> p} \<subseteq> allocs ?cs" using 2(2,3,4) by auto
    then have "same_payloads (live t) (phys_mem s) (phys_mem t)"
      unfolding lt live using 2(7) cs by (intro payloads_kept [OF rep, of ?cs]) auto
    ultimately show ?thesis using 2(1,5) lt by (auto simp: heap_ok_def)
  qed
qed

section \<open>Refinement of the list operations\<close>

lemma kmalloc_first_fit:
  assumes rep: "heap_rep s bs" and sz: "sz \<noteq> 0" "unat sz \<le> 2 ^ 64 - 16"
    and fit: "alloc_blocks (align_up sz HEAP_ALIGN) bs = Some (cs, p)"
  shows "\<exists>t. kmalloc sz s = Some (t, p) \<and> heap_rep t cs \<and> bitmap t = bitmap s"
proof -
  define a where "a = align_up sz HEAP_ALIGN"
  obtain us b vs where bs: "bs = us @ b # vs" "b_free b" "a \<le> b_size b" "cs = us @ split_block a b @ vs"
      "p = b_addr b + 24" "find (\<lambda>b. b_free b \<and> a \<le> b_size b) bs = Some b"
    using alloc_blocks_Some fit a_def by blast
  have seg: "heap_seg (phys_mem s) (heap_head s) bs 0" using rep by (simp add: heap_rep_def)
  have find: "heap_find (phys_mem s) a (heap_head s) = Some (b_addr b)"
    using heap_find_list [OF seg] bs(6) by simp
  have "b_addr b \<noteq> 0" using rep bs(1) by (auto simp: heap_rep_def blocks_ok_def block_ok_def)
  moreover have "\<not> sz > NOT 0 - (HEAP_ALIGN - 1)" using sz size_guard [of sz] by (metis not_le)
  ultimately have "kmalloc sz s = Some (s\<lparr>phys_mem := heap_take a (b_addr b) (phys_mem s)\<rparr>, p)"
    using sz find bs(5) by (simp add: kmalloc_def a_def [symmetric] HEAP_HEADER_SIZE_def Let_def)
  then show ?thesis
    using heap_rep_take(1) [of s us b vs a] rep bs by simp
qed

text \<open>No block is left that could still be merged with its successor in the list.\<close>

definition fully_merged :: "block list \<Rightarrow> bool" where
  "fully_merged bs \<longleftrightarrow>
     successively (\<lambda>b c. \<not> (b_free b \<and> b_free c \<and> b_addr b + 24 + b_size b = b_addr c)) bs"

lemma merge_blocks_hd:
  "bs = b # cs \<Longrightarrow> merge_blocks bs \<noteq> [] \<and> b_addr (hd (merge_blocks bs)) = b_addr b \<and>
     b_free (hd (merge_blocks bs)) = b_free b"
  by (induction bs arbitrary: b cs rule: merge_blocks.induct) (auto simp: joined_def)

lemma merge_blocks_fully: "fully_merged (merge_blocks bs)"
proof (induction bs rule: merge_blocks.induct)
  case (1 b c bs)
  then show ?case
    using merge_blocks_hd [of "c # bs" c bs]
    by (auto simp: fully_merged_def successively_Cons simp del: merge_blocks.simps(2))
qed (simp_all add: fully_merged_def)

section \<open>Properties\<close>

text \<open>
  C1: On every well-formed heap \<open>kmalloc\<close> returns. Either it fails with the null pointer and changes
  nothing, or it returns a payload of at least the requested size which was not allocated before,
  overlaps no allocated payload, and leaves the bytes of all of them as they were.
\<close>

theorem kmalloc_correct:
  assumes "heap_ok s"
  shows "\<exists>t p. kmalloc sz s = Some (t, p) \<and> heap_ok t \<and>
     (p = 0 \<and> t = s \<or> p \<noteq> 0 \<and> (\<exists>n \<ge> unat sz. live t = insert (p, n) (live s) \<and>
        (\<forall>(q, k) \<in> live s. unat p + n \<le> unat q \<or> unat q + k \<le> unat p) \<and>
        same_payloads (live s) (phys_mem s) (phys_mem t)))"
proof -
  obtain t p where t: "kmalloc sz s = Some (t, p)" "heap_ok t" "p = 0 \<and> t = s \<or> p \<noteq> 0 \<and>
      (\<exists>n \<ge> unat sz. (\<forall>k. (p, k) \<notin> live s) \<and> live t = insert (p, n) (live s) \<and>
         same_payloads (live s) (phys_mem s) (phys_mem t))"
    using heap.alloc_law [OF assms] by blast
  have "unat p + n \<le> unat q \<or> unat q + k \<le> unat p"
    if "live t = insert (p, n) (live s)" "\<forall>k. (p, k) \<notin> live s" "(q, k) \<in> live s" for n q k
    using heap.live_apart [OF t(2), of p n q k] that by auto
  then show ?thesis using t by blast
qed

text \<open>A heap without blocks, above a frame allocator with frames 17, 18 and 20 free.\<close>

definition heap_example :: heap_state where
  "heap_example = set_free 20 (set_free 18 (set_free 17
     \<lparr>phys_mem = \<lambda>_. 0, bitmap = \<lambda>_. 0xFF, total_frames = 3, free_frames = 0, search_hint = 16, heap_head = 0\<rparr>))"

lemma heap_example_fields:
  "bitmap heap_example = bitmap pmm_example" "free_frames heap_example = free_frames pmm_example"
  "heap_head heap_example = 0"
  unfolding heap_example_def pmm_example_def
  by (intro set_free_cong; simp)+ simp

lemma heap_example_rep: "heap_rep heap_example []"
  using pmm_ok_cong [OF heap_example_fields(1,2)] by (simp add: heap_rep_def heap_example_fields)

lemma heap_example_ok: "heap_ok heap_example"
  using heap_example_rep by (auto simp: heap_ok_def)

lemma heap_example_live: "live heap_example = {}"
  using live_rep [OF heap_example_rep] by simp

lemma heap_example_kmalloc: "\<exists>t p. kmalloc 100 heap_example = Some (t, p) \<and> p \<noteq> 0"
proof -
  have free: "free_set heap_example = {17, 18, 20}"
    using free_set_cong [OF heap_example_fields(1)] by simp
  have run: "free_run heap_example 17 1"
  proof -
    have "17 + i \<in> free_set heap_example" if "i < 1" for i :: u64
      using that free by (simp add: word_less_1)
    then show ?thesis by (simp add: free_run_def free_set_def)
  qed
  have a: "align_up 100 HEAP_ALIGN = 112" by (simp add: align_up_def HEAP_ALIGN_def)
  show ?thesis
  proof (cases rule: pmm_alloc_contiguous_cases [of 1 heap_example])
    case none
    then show ?thesis using run by simp
  next
    case (run f t)
    have "f \<in> free_set heap_example" using run(3) by (simp add: free_run_def free_set_def)
    then have f: "f * PMM_FRAME_SIZE \<in> {17 * 4096, 18 * 4096, 20 * 4096}"
      using free by (auto simp: PMM_FRAME_SIZE_def)
    then have nz: "f * PMM_FRAME_SIZE \<noteq> 0" "f * PMM_FRAME_SIZE + 24 \<noteq> 0" by auto
    have grow: "\<exists>u. grow_heap 112 heap_example = (u, f * PMM_FRAME_SIZE)"
      using run(1) nz(1) by (simp add: grow_heap_def heap_const_defs Let_def PMM_FRAME_SIZE_def)
    have find: "heap_find m 112 0 = Some 0" for m by (subst heap_find.simps) simp
    show ?thesis
      using grow nz by (auto simp: kmalloc_def a [unfolded HEAP_ALIGN_def] heap_const_defs
          heap_example_fields find Let_def)
  qed
qed

theorem kmalloc_correct_witness:
  "\<exists>t p n. kmalloc 100 heap_example = Some (t, p) \<and> p \<noteq> 0 \<and> live t = {(p, n)} \<and> 100 \<le> n"
  using kmalloc_correct [OF heap_example_ok, of 100] heap_example_kmalloc heap_example_live by auto

text \<open>
  C20: \<open>kmalloc\<close> is first fit: when the list of blocks has a free block that is large enough for the
  request rounded up to 16 bytes, the result is the payload of the first such block; the block is
  split when the rest can hold a header and 16 bytes, and the frame allocator is not asked.
\<close>

theorem kmalloc_refines_first_fit:
  assumes "heap_rep s bs" and "sz \<noteq> 0" and "unat sz \<le> 2 ^ 64 - 16"
    and "alloc_blocks (align_up sz HEAP_ALIGN) bs = Some (cs, p)"
  shows "\<exists>t. kmalloc sz s = Some (t, p) \<and> heap_rep t cs \<and> bitmap t = bitmap s"
  using assms by (rule kmalloc_first_fit)

text \<open>A heap of one free block of 4072 bytes in frame 20.\<close>

definition heap_example1 :: heap_state where
  "heap_example1 = (set_free 18 (set_free 17
     \<lparr>phys_mem = set_blk_next 0x14000 0 (set_blk_free 0x14000 1 (set_blk_size 0x14000 4072 (\<lambda>_. 0))),
      bitmap = \<lambda>_. 0xFF, total_frames = 3, free_frames = 0, search_hint = 16, heap_head = 0x14000\<rparr>))"

lemma heap_example1_rep: "heap_rep heap_example1 [Block 0x14000 4072 True]"
proof -
  let ?s = "\<lparr>phys_mem = set_blk_next 0x14000 0 (set_blk_free 0x14000 1 (set_blk_size 0x14000 4072 (\<lambda>_. 0))),
      bitmap = \<lambda>_. 0xFF, total_frames = 3, free_frames = 0, search_hint = 16, heap_head = 0x14000\<rparr>"
  have empty: "free_set ?s = {}" by (auto simp: free_set_def is_used_all_ones)
  then have free: "free_set heap_example1 = {17, 18}"
    by (auto simp: heap_example1_def PMM_MAX_FRAMES_eq)
  have "pmm_inv ?s" using empty by (simp add: pmm_inv_def)
  then have "pmm_ok heap_example1" using free by (simp add: pmm_ok_def heap_example1_def inv_intros)
  moreover have "phys_mem heap_example1 = phys_mem ?s" "heap_head heap_example1 = 0x14000"
    by (simp_all add: heap_example1_def)
  moreover have "frame_of x \<notin> free_set heap_example1" if "unat x \<in> ext (Block 0x14000 4072 True)" for x
  proof -
    have "unat (frame_of x) = 20" using that unat_frame_of [of x] by (auto simp: ext_def)
    then show ?thesis using free by auto
  qed
  ultimately show ?thesis by (simp add: heap_rep_def block_ok_def)
qed

theorem kmalloc_refines_first_fit_witness:
  "\<exists>t. kmalloc 100 heap_example1 = Some (t, 0x14018) \<and>
     heap_rep t [Block 0x14000 112 False, Block 0x14088 3936 True]"
proof -
  have "align_up 100 HEAP_ALIGN = 112" by (simp add: align_up_def HEAP_ALIGN_def)
  then have "alloc_blocks (align_up 100 HEAP_ALIGN) [Block 0x14000 4072 True] =
      Some ([Block 0x14000 112 False, Block 0x14088 3936 True], 0x14018)"
    by (simp add: split_block_def)
  from kmalloc_refines_first_fit [OF heap_example1_rep _ _ this] show ?thesis by simp blast
qed

text \<open>
  C18: \<open>kfree\<close> returns on every well-formed heap, for every pointer. A pointer that is not the start
  of an allocated payload (null, invalid, or freed before) leaves the state as it is; otherwise
  exactly that payload is released and the bytes of the others stay as they were.
\<close>

theorem kfree_correct:
  assumes "heap_ok s"
  shows "\<exists>t. kfree p s = Some t \<and> heap_ok t \<and> live t = {(q, n) \<in> live s. q \<noteq> p} \<and>
     ((\<forall>n. (p, n) \<notin> live s) \<longrightarrow> t = s) \<and> same_payloads (live t) (phys_mem s) (phys_mem t)"
  by (rule heap.free_law [OF assms])

theorem kfree_correct_witness:
  "\<exists>s p t. kmalloc 100 heap_example = Some (s, p) \<and> live s \<noteq> {} \<and> kfree p s = Some t \<and> live t = {}"
proof -
  obtain s p n where s: "kmalloc 100 heap_example = Some (s, p)" "heap_ok s" "live s = {(p, n)}"
    using heap.alloc_law [OF heap_example_ok, of 100] heap_example_kmalloc heap_example_live by auto
  then show ?thesis using kfree_correct [OF s(2), of p] by auto
qed

text \<open>
  The coalescing loop of \<open>kfree\<close> ends on every well-formed list and computes \<open>merge_blocks\<close>:
  the blocks stay apart, cover the same bytes and hold the same allocations, no two neighbours in
  the list remain that could be merged, and only bytes of free blocks are written.
\<close>

theorem heap_coalesce_correct:
  assumes "heap_seg m p bs 0" and "blocks_ok bs"
  shows "\<exists>m'. heap_coalesce m p = Some m' \<and> heap_seg m' p (merge_blocks bs) 0 \<and>
     blocks_ok (merge_blocks bs) \<and> allocs (merge_blocks bs) = allocs bs \<and>
     (\<Union>b\<in>set (merge_blocks bs). ext b) = (\<Union>b\<in>set bs. ext b) \<and> fully_merged (merge_blocks bs) \<and>
     (\<forall>x. (\<forall>b\<in>set bs. b_free b \<longrightarrow> unat x \<notin> ext b) \<longrightarrow> m' x = m x)"
  using heap_coalesce_list [OF assms] merge_blocks_ok [OF assms(2)] merge_blocks_fully [of bs] by blast

definition coalesce_example :: memory where
  "coalesce_example = set_blk_next 0x2028 0 (set_blk_free 0x2028 1 (set_blk_size 0x2028 16
     (set_blk_next 0x2000 0x2028 (set_blk_free 0x2000 1 (set_blk_size 0x2000 16 (\<lambda>_. 0))))))"

theorem heap_coalesce_correct_witness:
  "\<exists>m'. heap_coalesce coalesce_example 0x2000 = Some m' \<and> heap_seg m' 0x2000 [Block 0x2000 56 True] 0"
proof -
  let ?bs = "[Block 0x2000 16 True, Block 0x2028 16 True]"
  have "heap_seg coalesce_example 0x2000 ?bs 0"
    by (simp add: coalesce_example_def header_apart [of "0x2000" "0x2028"])
  moreover have "blocks_ok ?bs" by (simp add: block_ok_def apart_def ext_def)
  moreover have "merge_blocks ?bs = [Block 0x2000 56 True]" by (simp add: joined_def)
  ultimately show ?thesis using heap_coalesce_correct [of coalesce_example "0x2000" ?bs] by auto
qed

text \<open>
  C19: Any sequence of \<open>kmalloc\<close> and \<open>kfree\<close> calls runs to its end and keeps the heap well formed;
  a payload that was allocated before the sequence and is not freed in it is still allocated
  afterwards, with the same bytes.
\<close>

theorem heap_sequences_safe:
  assumes "heap_ok s"
  shows "\<exists>t. heap.run_heap ops s = Some t \<and> heap_ok t \<and>
     (\<forall>p n. (p, n) \<in> live s \<and> Free p \<notin> set ops \<longrightarrow>
        (p, n) \<in> live t \<and> same_payloads {(p, n)} (phys_mem s) (phys_mem t))"
  by (rule heap.run_heap_keeps [OF assms])

theorem heap_sequences_safe_witness:
  "\<exists>t. heap.run_heap [Alloc 10, Alloc 5000, Free 0x1000, Alloc 20] heap_example = Some t \<and> heap_ok t"
  using heap_sequences_safe [OF heap_example_ok] by blast

end
