(* ===== verification/Vmm.thy ===== *)
theory Vmm
  imports Heap "HOL-Library.Sublist"
begin

text \<open>
  The virtual memory manager, \<open>kernel/mm/vmm.c\<close>: four-level page tables that live in the byte
  memory and are followed as pointers, as the hardware follows them. A table is its physical address;
  entry \<open>i\<close> of it is the 64-bit word at offset \<open>8 * i\<close>. \<open>cr3\<close> is the control register. There is
  no translation cache in the model, so \<open>invlpg\<close> has no effect and no definition.
\<close>

record vmm_state = heap_state +
  kernel_pml4 :: u64
  cr3 :: u64

definition PAGE_PRESENT :: u64 where "PAGE_PRESENT = 0x1"
definition PAGE_WRITABLE :: u64 where "PAGE_WRITABLE = 0x2"
definition PAGE_USER :: u64 where "PAGE_USER = 0x4"
definition PAGE_SIZE_2MB :: u64 where "PAGE_SIZE_2MB = 0x80"
definition PAGE_ADDR_MASK :: u64 where "PAGE_ADDR_MASK = 0x000FFFFFFFFFF000"
definition ENTRIES_PER_TABLE :: u32 where "ENTRIES_PER_TABLE = 512"
definition PAGE_2MB_SIZE :: u64 where "PAGE_2MB_SIZE = 2 * 1024 * 1024"
definition PAGE_4KB_SIZE :: u64 where "PAGE_4KB_SIZE = 4096"
definition VMM_WRITABLE :: u64 where "VMM_WRITABLE = 0x2"
definition VMM_USER :: u64 where "VMM_USER = 0x4"

definition pml4_index :: "u64 \<Rightarrow> u32" where "pml4_index addr = ucast (drop_bit 39 addr AND 0x1FF)"
definition pdpt_index :: "u64 \<Rightarrow> u32" where "pdpt_index addr = ucast (drop_bit 30 addr AND 0x1FF)"
definition pd_index :: "u64 \<Rightarrow> u32" where "pd_index addr = ucast (drop_bit 21 addr AND 0x1FF)"
definition pt_index :: "u64 \<Rightarrow> u32" where "pt_index addr = ucast (drop_bit 12 addr AND 0x1FF)"

text \<open>\<open>&table[index]\<close>, \<open>table[index]\<close> and \<open>table[index] = v\<close>.\<close>

definition entry_at :: "u64 \<Rightarrow> u32 \<Rightarrow> u64" where "entry_at table index = table + 8 * ucast index"
definition entry :: "memory \<Rightarrow> u64 \<Rightarrow> u32 \<Rightarrow> u64" where "entry m table index = rd64 m (entry_at table index)"
definition set_entry :: "u64 \<Rightarrow> u32 \<Rightarrow> u64 \<Rightarrow> memory \<Rightarrow> memory" where
  "set_entry table index v = wr64 (entry_at table index) v"

definition get_or_create_table :: "u64 \<Rightarrow> u32 \<Rightarrow> 'a vmm_state_scheme \<Rightarrow> 'a vmm_state_scheme \<times> u64" where
  "get_or_create_table table index s =
     (let (s, ok) =
        (if entry (phys_mem s) table index AND PAGE_PRESENT = 0 then
           let (s, frame) = pmm_alloc_frame s in
           if frame = 0 then (s, False)
           else let m = for_w 0 ENTRIES_PER_TABLE (\<lambda>i. set_entry frame i 0) (phys_mem s);
                    m = set_entry table index (frame OR PAGE_PRESENT OR PAGE_WRITABLE) m
             in (s\<lparr>phys_mem := m\<rparr>, True)
         else (s, True))
      in if \<not> ok then (s, 0)
         else let m = set_entry table index (entry (phys_mem s) table index OR PAGE_USER) (phys_mem s)
             in (s\<lparr>phys_mem := m\<rparr>, entry m table index AND PAGE_ADDR_MASK))"

definition map_2mb_identity :: "u64 \<Rightarrow> u64 \<Rightarrow> 'a vmm_state_scheme \<Rightarrow> 'a vmm_state_scheme" where
  "map_2mb_identity pml4 phys_addr s =
     (let (s, pdpt) = get_or_create_table pml4 (pml4_index phys_addr) s in
      if pdpt = 0 then s
      else let (s, pd) = get_or_create_table pdpt (pdpt_index phys_addr) s in
        if pd = 0 then s
        else let pdi = pd_index phys_addr in
          if entry (phys_mem s) pd pdi AND PAGE_PRESENT = 0
          then s\<lparr>phys_mem := set_entry pd pdi
                   (phys_addr OR PAGE_PRESENT OR PAGE_WRITABLE OR PAGE_SIZE_2MB) (phys_mem s)\<rparr>
          else s)"

text \<open>The pointer to the page directory entry; 0 when a level above is not present.\<close>

definition get_pd_entry :: "memory \<Rightarrow> u64 \<Rightarrow> u64 \<Rightarrow> u64" where
  "get_pd_entry m pml4 virt_addr =
     (if entry m pml4 (pml4_index virt_addr) AND PAGE_PRESENT = 0 then 0
      else let pdpt = entry m pml4 (pml4_index virt_addr) AND PAGE_ADDR_MASK in
        if entry m pdpt (pdpt_index virt_addr) AND PAGE_PRESENT = 0 then 0
        else let pd = entry m pdpt (pdpt_index virt_addr) AND PAGE_ADDR_MASK in
          entry_at pd (pd_index virt_addr))"

text \<open>
  The page table below entry \<open>pdi\<close> of the page directory: an existing one, a new empty one, or one
  that replaces a 2 MiB page by 512 pages of 4 KiB. \<open>None\<close> stands for the \<open>return 0\<close> paths.
\<close>

definition get_or_split_pt :: "u64 \<Rightarrow> u32 \<Rightarrow> 'a vmm_state_scheme \<Rightarrow> 'a vmm_state_scheme \<times> u64 option" where
  "get_or_split_pt pd pdi s =
     (let pd_entry = entry (phys_mem s) pd pdi in
      if pd_entry AND PAGE_PRESENT \<noteq> 0 then
        if pd_entry AND PAGE_SIZE_2MB \<noteq> 0 then
          let region_phys = pd_entry AND PAGE_ADDR_MASK;
              region_flags = pd_entry AND (PAGE_PRESENT OR PAGE_WRITABLE);
              (s, new_pt_frame) = pmm_alloc_frame s
          in if new_pt_frame = 0 then (s, None)
             else let m = for_w 0 ENTRIES_PER_TABLE
                        (\<lambda>i. set_entry new_pt_frame i ((region_phys + ucast i * PAGE_4KB_SIZE) OR region_flags))
                        (phys_mem s);
                      m = set_entry pd pdi (new_pt_frame OR PAGE_PRESENT OR PAGE_WRITABLE OR PAGE_USER) m
               in (s\<lparr>phys_mem := m\<rparr>, Some new_pt_frame)
        else (s, Some (pd_entry AND PAGE_ADDR_MASK))
      else
        let (s, new_pt_frame) = pmm_alloc_frame s
        in if new_pt_frame = 0 then (s, None)
           else let m = for_w 0 ENTRIES_PER_TABLE (\<lambda>i. set_entry new_pt_frame i 0) (phys_mem s);
                    m = set_entry pd pdi (new_pt_frame OR PAGE_PRESENT OR PAGE_WRITABLE OR PAGE_USER) m
             in (s\<lparr>phys_mem := m\<rparr>, Some new_pt_frame))"

definition get_or_split_pt_entry :: "u64 \<Rightarrow> u64 \<Rightarrow> 'a vmm_state_scheme \<Rightarrow> 'a vmm_state_scheme \<times> u64" where
  "get_or_split_pt_entry pml4 virt_addr s =
     (let (s, pdpt) = get_or_create_table pml4 (pml4_index virt_addr) s in
      if pdpt = 0 then (s, 0)
      else let (s, pd) = get_or_create_table pdpt (pdpt_index virt_addr) s in
        if pd = 0 then (s, 0)
        else let pdi = pd_index virt_addr; (s, pt) = get_or_split_pt pd pdi s in
          case pt of None \<Rightarrow> (s, 0)
          | Some pt \<Rightarrow>
              (s\<lparr>phys_mem := set_entry pd pdi (entry (phys_mem s) pd pdi OR PAGE_USER) (phys_mem s)\<rparr>,
               entry_at pt (pt_index virt_addr)))"

definition space_pml4 :: "u64 \<Rightarrow> u64" where "space_pml4 sp = sp AND PAGE_ADDR_MASK"

definition vmm_map_page_in :: "u64 \<Rightarrow> u64 \<Rightarrow> u64 \<Rightarrow> u64 \<Rightarrow> 'a vmm_state_scheme \<Rightarrow> 'a vmm_state_scheme \<times> int" where
  "vmm_map_page_in sp virt_addr phys_addr flags s =
     (let (s, pte) = get_or_split_pt_entry (space_pml4 sp) virt_addr s in
      if pte = 0 then (s, -1)
      else (s\<lparr>phys_mem := wr64 pte ((phys_addr AND PAGE_ADDR_MASK) OR (flags AND 0xFFF) OR PAGE_PRESENT)
              (phys_mem s)\<rparr>, 0))"

definition vmm_unmap_page_in :: "u64 \<Rightarrow> u64 \<Rightarrow> 'a vmm_state_scheme \<Rightarrow> 'a vmm_state_scheme \<times> int" where
  "vmm_unmap_page_in sp virt_addr s =
     (let pml4 = space_pml4 sp; pd_entry = get_pd_entry (phys_mem s) pml4 virt_addr in
      if pd_entry = 0 \<or> rd64 (phys_mem s) pd_entry AND PAGE_PRESENT = 0 then (s, 0)
      else let (s, pte) = get_or_split_pt_entry pml4 virt_addr s in
        if pte = 0 then (s, -1)
        else (s\<lparr>phys_mem := wr64 pte 0 (phys_mem s)\<rparr>, 0))"

definition vmm_is_mapped_in :: "u64 \<Rightarrow> u64 \<Rightarrow> memory \<Rightarrow> bool" where
  "vmm_is_mapped_in sp virt_addr m =
     (let pd_entry = get_pd_entry m (space_pml4 sp) virt_addr in
      if pd_entry = 0 \<or> rd64 m pd_entry AND PAGE_PRESENT = 0 then False
      else if rd64 m pd_entry AND PAGE_SIZE_2MB \<noteq> 0 then True
      else let pt = rd64 m pd_entry AND PAGE_ADDR_MASK in
        entry m pt (pt_index virt_addr) AND PAGE_PRESENT \<noteq> 0)"

definition vmm_is_user_accessible_in :: "u64 \<Rightarrow> u64 \<Rightarrow> memory \<Rightarrow> bool" where
  "vmm_is_user_accessible_in sp virt_addr m =
     (let pml4 = space_pml4 sp; l4 = entry m pml4 (pml4_index virt_addr) in
      if l4 AND PAGE_PRESENT = 0 \<or> l4 AND PAGE_USER = 0 then False
      else let pdpt = l4 AND PAGE_ADDR_MASK; l3 = entry m pdpt (pdpt_index virt_addr) in
        if l3 AND PAGE_PRESENT = 0 \<or> l3 AND PAGE_USER = 0 then False
        else let pd = l3 AND PAGE_ADDR_MASK; l2 = entry m pd (pd_index virt_addr) in
          if l2 AND PAGE_PRESENT = 0 \<or> l2 AND PAGE_USER = 0 then False
          else if l2 AND PAGE_SIZE_2MB \<noteq> 0 then True
          else let pt = l2 AND PAGE_ADDR_MASK; l1 = entry m pt (pt_index virt_addr) in
            l1 AND PAGE_PRESENT \<noteq> 0 \<and> l1 AND PAGE_USER \<noteq> 0)"

definition vmm_guard_page_in :: "u64 \<Rightarrow> u64 \<Rightarrow> 'a vmm_state_scheme \<Rightarrow> 'a vmm_state_scheme" where
  "vmm_guard_page_in sp virt_addr s = fst (vmm_unmap_page_in sp virt_addr s)"

definition vmm_mark_user_in :: "u64 \<Rightarrow> u64 \<Rightarrow> 'a vmm_state_scheme \<Rightarrow> 'a vmm_state_scheme" where
  "vmm_mark_user_in sp virt_addr s =
     fst (vmm_map_page_in sp virt_addr virt_addr (VMM_WRITABLE OR VMM_USER) s)"

definition vmm_debug_walk_flags_in :: "u64 \<Rightarrow> u64 \<Rightarrow> memory \<Rightarrow> u64" where
  "vmm_debug_walk_flags_in sp virt_addr m =
     (let pml4 = space_pml4 sp;
          l4 = entry m pml4 (pml4_index virt_addr) AND 0xFFF in
      if l4 AND PAGE_PRESENT = 0 then l4
      else let pdpt = entry m pml4 (pml4_index virt_addr) AND PAGE_ADDR_MASK;
               l3 = entry m pdpt (pdpt_index virt_addr) AND 0xFFF in
        if l3 AND PAGE_PRESENT = 0 then l4 OR push_bit 12 l3
        else let pd = entry m pdpt (pdpt_index virt_addr) AND PAGE_ADDR_MASK;
                 l2 = entry m pd (pd_index virt_addr) AND 0xFFF in
          if l2 AND PAGE_PRESENT = 0 \<or> l2 AND PAGE_SIZE_2MB \<noteq> 0
          then l4 OR push_bit 12 l3 OR push_bit 24 l2
          else let pt = entry m pd (pd_index virt_addr) AND PAGE_ADDR_MASK;
                   l1 = entry m pt (pt_index virt_addr) AND 0xFFF
            in l4 OR push_bit 12 l3 OR push_bit 24 l2 OR push_bit 36 l1)"

definition vmm_current_address_space :: "'a vmm_state_scheme \<Rightarrow> u64" where
  "vmm_current_address_space s = cr3 s AND PAGE_ADDR_MASK"

definition vmm_kernel_address_space :: "'a vmm_state_scheme \<Rightarrow> u64" where
  "vmm_kernel_address_space s = kernel_pml4 s"

definition vmm_switch_address_space :: "u64 \<Rightarrow> 'a vmm_state_scheme \<Rightarrow> 'a vmm_state_scheme" where
  "vmm_switch_address_space sp s = s\<lparr>cr3 := sp\<rparr>"

definition vmm_map_page :: "u64 \<Rightarrow> u64 \<Rightarrow> u64 \<Rightarrow> 'a vmm_state_scheme \<Rightarrow> 'a vmm_state_scheme \<times> int" where
  "vmm_map_page virt_addr phys_addr flags s =
     vmm_map_page_in (vmm_current_address_space s) virt_addr phys_addr flags s"

definition vmm_unmap_page :: "u64 \<Rightarrow> 'a vmm_state_scheme \<Rightarrow> 'a vmm_state_scheme \<times> int" where
  "vmm_unmap_page virt_addr s = vmm_unmap_page_in (vmm_current_address_space s) virt_addr s"

definition vmm_is_mapped :: "u64 \<Rightarrow> 'a vmm_state_scheme \<Rightarrow> bool" where
  "vmm_is_mapped virt_addr s = vmm_is_mapped_in (vmm_current_address_space s) virt_addr (phys_mem s)"

definition vmm_guard_page :: "u64 \<Rightarrow> 'a vmm_state_scheme \<Rightarrow> 'a vmm_state_scheme" where
  "vmm_guard_page virt_addr s = vmm_guard_page_in (vmm_current_address_space s) virt_addr s"

definition vmm_mark_user :: "u64 \<Rightarrow> 'a vmm_state_scheme \<Rightarrow> 'a vmm_state_scheme" where
  "vmm_mark_user virt_addr s = vmm_mark_user_in (vmm_current_address_space s) virt_addr s"

definition vmm_debug_walk_flags :: "u64 \<Rightarrow> 'a vmm_state_scheme \<Rightarrow> u64" where
  "vmm_debug_walk_flags virt_addr s =
     vmm_debug_walk_flags_in (vmm_current_address_space s) virt_addr (phys_mem s)"

definition vmm_create_address_space :: "'a vmm_state_scheme \<Rightarrow> 'a vmm_state_scheme \<times> u64" where
  "vmm_create_address_space s =
     (let (s, frame) = pmm_alloc_frame s in
      if frame = 0 then (s, 0)
      else (s\<lparr>phys_mem := for_w 0 ENTRIES_PER_TABLE
                (\<lambda>i m. set_entry frame i (entry m (kernel_pml4 s) i) m) (phys_mem s)\<rparr>, frame))"

text \<open>The three inner loops of \<open>vmm_destroy_address_space\<close>, from the innermost out.\<close>

definition destroy_pt :: "u64 \<Rightarrow> 'a vmm_state_scheme \<Rightarrow> 'a vmm_state_scheme" where
  "destroy_pt pt s =
     (let s = for_w 0 ENTRIES_PER_TABLE
            (\<lambda>l1i s. let pte = entry (phys_mem s) pt l1i in
               if pte AND (PAGE_PRESENT OR PAGE_USER) = PAGE_PRESENT OR PAGE_USER
               then pmm_free_frame (pte AND PAGE_ADDR_MASK) s else s) s
      in pmm_free_frame pt s)"

definition destroy_pd :: "u64 \<Rightarrow> 'a vmm_state_scheme \<Rightarrow> 'a vmm_state_scheme" where
  "destroy_pd pd s =
     (let s = for_w 0 ENTRIES_PER_TABLE
            (\<lambda>l2i s. let l2 = entry (phys_mem s) pd l2i in
               if l2 AND PAGE_PRESENT = 0 then s
               else if l2 AND PAGE_SIZE_2MB \<noteq> 0 then s
               else destroy_pt (l2 AND PAGE_ADDR_MASK) s) s
      in pmm_free_frame pd s)"

definition destroy_pdpt :: "u64 \<Rightarrow> 'a vmm_state_scheme \<Rightarrow> 'a vmm_state_scheme" where
  "destroy_pdpt pdpt s =
     (let s = for_w 0 ENTRIES_PER_TABLE
            (\<lambda>l3i s. let l3 = entry (phys_mem s) pdpt l3i in
               if l3 AND PAGE_PRESENT = 0 then s
               else destroy_pd (l3 AND PAGE_ADDR_MASK) s) s
      in pmm_free_frame pdpt s)"

definition vmm_destroy_address_space :: "u64 \<Rightarrow> 'a vmm_state_scheme \<Rightarrow> 'a vmm_state_scheme" where
  "vmm_destroy_address_space sp s =
     (if sp = 0 \<or> sp = vmm_kernel_address_space s then s
      else let pml4 = space_pml4 sp;
               s = for_w 0 ENTRIES_PER_TABLE
                 (\<lambda>l4i s. let l4 = entry (phys_mem s) pml4 l4i in
                    if l4 AND PAGE_PRESENT = 0 \<or> l4 = entry (phys_mem s) (kernel_pml4 s) l4i then s
                    else destroy_pdpt (l4 AND PAGE_ADDR_MASK) s) s
        in pmm_free_frame sp s)"

text \<open>
  The inner loop of \<open>vmm_init\<close> advances by 2 MiB and would run forever when \<open>end\<close> lies within the
  last 2 MiB of the address range: \<open>None\<close>.
\<close>

partial_function (option) map_region :: "u64 \<Rightarrow> u64 \<Rightarrow> 'a vmm_state_scheme \<Rightarrow> 'a vmm_state_scheme option" where
  "map_region addr end' s =
     (if addr < end' then map_region (addr + PAGE_2MB_SIZE) end' (map_2mb_identity (kernel_pml4 s) addr s)
      else Some s)"

definition vmm_init_entry :: "e820_entry option \<Rightarrow> 'a vmm_state_scheme \<Rightarrow> 'a vmm_state_scheme option" where
  "vmm_init_entry e s =
     (case e of
        None \<Rightarrow> Some s
      | Some e \<Rightarrow>
          if entry_type e \<noteq> E820_TYPE_USABLE then Some s
          else let start = entry_base e AND NOT (PAGE_2MB_SIZE - 1);
                   end' = entry_base e + entry_length e
            in map_region start end' s)"

definition vmm_init :: "e820_buffer \<Rightarrow> 'a vmm_state_scheme \<Rightarrow> 'a vmm_state_scheme option" where
  "vmm_init b s =
     (let s = s\<lparr>kernel_pml4 := cr3 s AND PAGE_ADDR_MASK\<rparr> in
      for_w 0 (e820_entry_count b)
        (\<lambda>i r. Option.bind r (vmm_init_entry (e820_get_entry b i))) (Some s))"

lemma vmm_fields_set_free [simp]:
  "kernel_pml4 (set_free f s) = kernel_pml4 s" "cr3 (set_free f s) = cr3 s"
  by (rule pmm_frame_field [of s]; simp add: pmm_clear_def)+

section \<open>Entries\<close>

lemmas page_bits = PAGE_PRESENT_def PAGE_WRITABLE_def PAGE_USER_def PAGE_SIZE_2MB_def VMM_WRITABLE_def VMM_USER_def

text \<open>The flag tests as bits.\<close>

lemma flag_tests [simp]:
  "e AND PAGE_PRESENT = 0 \<longleftrightarrow> \<not> bit e 0" "e AND PAGE_WRITABLE = 0 \<longleftrightarrow> \<not> bit e 1"
  "e AND PAGE_USER = 0 \<longleftrightarrow> \<not> bit e 2" "e AND PAGE_SIZE_2MB = 0 \<longleftrightarrow> \<not> bit e 7"
  using and_exp_eq_0 [of e 0] and_exp_eq_0 [of e 1] and_exp_eq_0 [of e 2] and_exp_eq_0 [of e 7]
  by (simp_all add: page_bits)

lemma PAGE_ADDR_MASK_eq: "PAGE_ADDR_MASK = mask 52 AND NOT (mask 12)"
  by (simp add: PAGE_ADDR_MASK_def mask_eq_exp_minus_1)

lemma bit_PAGE_ADDR_MASK: "bit PAGE_ADDR_MASK n \<longleftrightarrow> 12 \<le> n \<and> n < 52"
  unfolding PAGE_ADDR_MASK_eq by (auto simp: bit_simps)

lemma bit_flags:
  "bit PAGE_PRESENT n \<longleftrightarrow> n = 0" "bit PAGE_WRITABLE n \<longleftrightarrow> n = 1" "bit PAGE_USER n \<longleftrightarrow> n = 2"
  "bit PAGE_SIZE_2MB n \<longleftrightarrow> n = 7"
proof -
  have "bit (2 ^ k :: u64) n \<longleftrightarrow> n = k" if "k < 64" for k using that by (auto simp: bit_exp_iff)
  from this [of 0] this [of 1] this [of 2] this [of 7]
  show "bit PAGE_PRESENT n \<longleftrightarrow> n = 0" "bit PAGE_WRITABLE n \<longleftrightarrow> n = 1" "bit PAGE_USER n \<longleftrightarrow> n = 2"
    "bit PAGE_SIZE_2MB n \<longleftrightarrow> n = 7"
    by (simp_all add: page_bits)
qed

lemmas entry_bits = bit_and_iff bit_or_iff bit_flags bit_PAGE_ADDR_MASK

text \<open>A page-aligned address that fits an entry.\<close>

definition page_addr :: "u64 \<Rightarrow> bool" where
  "page_addr a \<longleftrightarrow> a AND PAGE_ADDR_MASK = a"

lemma page_addr_bits: "page_addr a \<longleftrightarrow> (\<forall>n. bit a n \<longrightarrow> 12 \<le> n \<and> n < 52)"
proof -
  have "n < 64" if "bit a n" for n using bit_imp_le_length [OF that] by simp
  then show ?thesis unfolding page_addr_def bit_eq_iff by (auto simp: entry_bits)
qed

lemma page_addr_mask [simp]: "page_addr (e AND PAGE_ADDR_MASK)"
  by (simp add: page_addr_def and.assoc)

lemma entry_addr_or [simp]:
  "(e OR PAGE_PRESENT) AND PAGE_ADDR_MASK = e AND PAGE_ADDR_MASK"
  "(e OR PAGE_WRITABLE) AND PAGE_ADDR_MASK = e AND PAGE_ADDR_MASK"
  "(e OR PAGE_USER) AND PAGE_ADDR_MASK = e AND PAGE_ADDR_MASK"
  by (rule bit_word_eqI; auto simp: entry_bits)+

lemma page_addr_unat:
  assumes "page_addr a"
  shows "unat a mod 4096 = 0" and "unat a < 2 ^ 52"
proof -
  have "a AND mask 12 = 0"
    using assms unfolding page_addr_bits by (intro bit_eqI) (auto simp: bit_simps)
  then show "unat a mod 4096 = 0" using unat_and_mask [of a 12] by simp
  have "a AND mask 52 = a"
    using assms unfolding page_addr_bits by (intro bit_eqI) (auto simp: bit_simps)
  then show "unat a < 2 ^ 52" using unat_and_mask [of a 52] by simp
qed

lemma page_addr_frame:
  assumes "f < PMM_MAX_FRAMES"
  shows "page_addr (f * PMM_FRAME_SIZE)"
proof -
  let ?a = "f * PMM_FRAME_SIZE"
  have u: "unat ?a = unat f * 4096" "unat f < 0x100000"
    using frame_address(1) [OF assms] assms by (simp_all add: PMM_MAX_FRAMES_eq word_less_nat_alt)
  have low: "?a AND NOT (mask 12) = ?a"
    unfolding word_unat_eq_iff unat_and_not_mask u(1) by simp
  have high: "?a AND mask 52 = ?a"
    unfolding word_unat_eq_iff unat_and_mask u(1) using u(2) by simp
  show ?thesis unfolding page_addr_def PAGE_ADDR_MASK_eq and.assoc [symmetric] high low by (rule refl)
qed

text \<open>An entry's bytes lie in the table's page; different entries of tables share no byte.\<close>

lemma unat_ucast_32_64 [simp]: "unat (ucast i :: u64) = unat i" for i :: u32
proof -
  have "unat i < 2 ^ 32" using unsigned_less [of i] by simp
  then show ?thesis by (simp add: unsigned_ucast_eq take_bit_nat_eq_self)
qed

lemma unat_entry_at:
  assumes "page_addr t" and "i < 512"
  shows "unat (entry_at t i) = unat t + 8 * unat i" and "unat i < 512"
proof -
  show i: "unat i < 512" using assms(2) by (simp add: word_less_nat_alt)
  show "unat (entry_at t i) = unat t + 8 * unat i"
    using i page_addr_unat [OF assms(1)] by (simp add: entry_at_def unat_word_ariths)
qed

lemma entry_byte:
  assumes "page_addr t" and "i < 512" and "x - entry_at t i < 8"
  shows "frame_of x = frame_of t" and "unat t + 8 * unat i \<le> unat x" and "unat x < unat t + 8 * unat i + 8"
proof -
  note u = unat_entry_at [OF assms(1,2)] page_addr_unat [OF assms(1)]
  show lo: "unat t + 8 * unat i \<le> unat x" and hi: "unat x < unat t + 8 * unat i + 8"
    using range_iff [of "entry_at t i" 8 x] u assms(3) by auto
  have "unat x div 4096 = unat t div 4096"
    using lo hi u by (intro div_nat_eqI) (auto simp: mod_eq_0_iff_dvd elim!: dvdE)
  then show "frame_of x = frame_of t" by (simp add: word_unat_eq_iff unat_frame_of)
qed

lemma entries_apart:
  assumes "page_addr t" and "page_addr u" and "i < 512" and "j < 512" and "(t, i) \<noteq> (u, j)"
  shows "disjnt_ranges (entry_at t i) 8 (entry_at u j) 8"
proof -
  have "\<not> (x - entry_at t i < 8 \<and> x - entry_at u j < 8)" for x
  proof
    assume "x - entry_at t i < 8 \<and> x - entry_at u j < 8"
    then have x: "x - entry_at t i < 8" "x - entry_at u j < 8" by auto
    note b = entry_byte [OF assms(1,3) x(1)] entry_byte [OF assms(2,4) x(2)]
    have "unat t div 4096 = unat u div 4096" using b(1,4) by (metis unat_frame_of)
    then have "unat t = unat u"
      using page_addr_unat(1) [OF assms(1)] page_addr_unat(1) [OF assms(2)]
      by (metis div_mult_mod_eq)
    moreover from this have "unat i = unat j" using b(2,3,5,6) by linarith
    ultimately show False using assms(5) by (simp add: word_unat_eq_iff)
  qed
  then show ?thesis by (auto simp: disjnt_ranges_def)
qed

lemma entry_set_entry:
  assumes "page_addr t" and "page_addr u" and "i < 512" and "j < 512"
  shows "entry (set_entry t i e m) u j = (if (u, j) = (t, i) then e else entry m u j)"
  using entries_apart [OF assms] by (auto simp: entry_def set_entry_def rd64_wr64_other)

text \<open>A store into a table's entry changes only bytes of the table's frame; an entry is read from it.\<close>

lemma set_entry_outside:
  "page_addr t \<Longrightarrow> i < 512 \<Longrightarrow> frame_of x \<noteq> frame_of t \<Longrightarrow> set_entry t i e m x = m x"
  using entry_byte(1) [of t i x] by (auto simp: set_entry_def wr64_def)

lemma entry_cong:
  assumes "page_addr t" and "i < 512" and "\<And>x. frame_of x = frame_of t \<Longrightarrow> m' x = m x"
  shows "entry m' t i = entry m t i"
  unfolding entry_def using entry_byte(1) [OF assms(1,2)] assms(3) by (intro rd64_cong) blast

text \<open>Filling a whole table.\<close>

lemma fill_table:
  assumes "page_addr t"
  shows "j < 512 \<Longrightarrow> entry (for_w 0 ENTRIES_PER_TABLE (\<lambda>i. set_entry t i (g i)) m) t j = g j"
    and "frame_of x \<noteq> frame_of t \<Longrightarrow> for_w 0 ENTRIES_PER_TABLE (\<lambda>i. set_entry t i (g i)) m x = m x"
proof -
  let ?fill = "for_w 0 ENTRIES_PER_TABLE (\<lambda>i. set_entry t i (g i)) m"
  have "\<forall>j < ENTRIES_PER_TABLE. entry ?fill t j = g j"
  proof (rule for_w_invariant [where P = "\<lambda>k m'. \<forall>j<k. entry m' t j = g j"])
    fix k m'
    assume k: "k < ENTRIES_PER_TABLE" and IH: "\<forall>j<k. entry m' t j = g j"
    have "entry (set_entry t k (g k) m') t j = g j" if "j < k + 1" for j
    proof -
      have "j < k \<or> j = k" using that less_plus_one_iff [OF k] by blast
      moreover have "k < 512" using k by (simp add: ENTRIES_PER_TABLE_def)
      ultimately show ?thesis
        using IH entry_set_entry [OF assms assms, of k j "g k" m'] by (auto dest: less_trans)
    qed
    then show "\<forall>j<k + 1. entry (set_entry t k (g k) m') t j = g j" by blast
  qed (simp_all add: ENTRIES_PER_TABLE_def)
  then show "j < 512 \<Longrightarrow> entry ?fill t j = g j" by (simp add: ENTRIES_PER_TABLE_def)
  show "?fill x = m x" if "frame_of x \<noteq> frame_of t"
    by (rule for_w_keeps [where P = "\<lambda>m'. m' x = m x"])
      (use that assms in \<open>auto simp: set_entry_outside ENTRIES_PER_TABLE_def\<close>)
qed

section \<open>The tree of tables\<close>

text \<open>
  Levels count down from 4 (PML4) to 1 (page table). An entry is a table pointer when it is present
  and not a leaf; \<open>tbl\<close> follows table pointers along a path of indices, \<open>look\<close> follows a path to its
  leaf entry, with the rest of the path below a 2 MiB page.
\<close>

definition is_tbl :: "nat \<Rightarrow> u64 \<Rightarrow> bool" where
  "is_tbl l e \<longleftrightarrow> l > 1 \<and> bit e 0 \<and> \<not> (l = 2 \<and> bit e 7)"

fun tbl :: "memory \<Rightarrow> nat \<Rightarrow> u64 \<Rightarrow> u32 list \<Rightarrow> u64 option" where
  "tbl m l t [] = Some t"
| "tbl m l t (i # p) =
     (if is_tbl l (entry m t i) then tbl m (l - 1) (entry m t i AND PAGE_ADDR_MASK) p else None)"

fun look :: "memory \<Rightarrow> nat \<Rightarrow> u64 \<Rightarrow> u32 list \<Rightarrow> (u64 \<times> u32 list) option" where
  "look m l t [] = None"
| "look m l t (i # p) =
     (if \<not> bit (entry m t i) 0 then None
      else if is_tbl l (entry m t i) then look m (l - 1) (entry m t i AND PAGE_ADDR_MASK) p
      else Some (entry m t i, p))"

definition idx_ok :: "u32 list \<Rightarrow> bool" where
  "idx_ok p \<longleftrightarrow> (\<forall>i\<in>set p. i < 512)"

lemma idx_ok_simps [simp]:
  "idx_ok []" "idx_ok (i # p) \<longleftrightarrow> i < 512 \<and> idx_ok p" "idx_ok (p @ q) \<longleftrightarrow> idx_ok p \<and> idx_ok q"
  by (auto simp: idx_ok_def)

lemma tbl_append:
  "tbl m l t (p @ q) = Option.bind (tbl m l t p) (\<lambda>u. tbl m (l - length p) u q)"
  by (induction p arbitrary: l t) auto

lemma look_append: "tbl m l t p = Some u \<Longrightarrow> look m l t (p @ q) = look m (l - length p) u q"
  by (induction p arbitrary: l t) (auto simp: is_tbl_def split: if_splits)

lemma tbl_page_addr: "page_addr t \<Longrightarrow> tbl m l t p = Some u \<Longrightarrow> page_addr u"
proof (induction p arbitrary: l t)
  case (Cons i p)
  then show ?case using Cons.IH [OF page_addr_mask] by (simp split: if_splits)
qed simp

lemma tbl_length: "tbl m l t p = Some u \<Longrightarrow> length p < l \<or> p = []"
  by (induction p arbitrary: l t) (fastforce simp: is_tbl_def split: if_splits)+

text \<open>Two memories whose entries agree, up to flags of table pointers, have the same tables.\<close>

definition sim_entry :: "nat \<Rightarrow> u64 \<Rightarrow> u64 \<Rightarrow> bool" where
  "sim_entry l e e' \<longleftrightarrow> e' = e \<or> is_tbl l e \<and> is_tbl l e' \<and> e' AND PAGE_ADDR_MASK = e AND PAGE_ADDR_MASK"

lemma tbl_sim:
  assumes "\<And>q u j r. tbl m l t q = Some u \<Longrightarrow> p = q @ j # r \<Longrightarrow> sim_entry (l - length q) (entry m u j) (entry m' u j)"
  shows "tbl m' l t p = tbl m l t p" and "look m' l t p = look m l t p"
  using assms
proof (induction p arbitrary: l t)
  case (Cons i p)
  {
    case 1
    have sim: "sim_entry l (entry m t i) (entry m' t i)" using 1 [of "[]" t i p] by simp
    show ?case
    proof (cases "is_tbl l (entry m t i)")
      case True
      have "tbl m' (l - 1) (entry m t i AND PAGE_ADDR_MASK) p = tbl m (l - 1) (entry m t i AND PAGE_ADDR_MASK) p"
        using 1 [of "i # _"] True by (intro Cons.IH(1)) simp
      then show ?thesis using sim True by (auto simp: sim_entry_def)
    qed (use sim in \<open>auto simp: sim_entry_def\<close>)
  next
    case 2
    have sim: "sim_entry l (entry m t i) (entry m' t i)" using 2 [of "[]" t i p] by simp
    show ?case
    proof (cases "is_tbl l (entry m t i)")
      case True
      have "look m' (l - 1) (entry m t i AND PAGE_ADDR_MASK) p = look m (l - 1) (entry m t i AND PAGE_ADDR_MASK) p"
        using 2 [of "i # _"] True by (intro Cons.IH(2)) simp
      then show ?thesis using sim True by (auto simp: sim_entry_def is_tbl_def)
    qed (use sim in \<open>auto simp: sim_entry_def\<close>)
  }
qed simp_all

text \<open>
  A well-formed address space: every table is a page in use, and no two paths share a table. Huge
  pages are aligned to 2 MiB.
\<close>

definition space_ok :: "'a vmm_state_scheme \<Rightarrow> u64 \<Rightarrow> bool" where
  "space_ok s root \<longleftrightarrow> page_addr root \<and>
     (\<forall>p t. idx_ok p \<and> tbl (phys_mem s) 4 root p = Some t \<longrightarrow> t \<noteq> 0 \<and> frame_of t \<notin> free_set s) \<and>
     (\<forall>p q t. idx_ok p \<and> idx_ok q \<and> tbl (phys_mem s) 4 root p = Some t \<and> tbl (phys_mem s) 4 root q = Some t \<longrightarrow> p = q) \<and>
     (\<forall>p e r. idx_ok p \<and> length p = 4 \<and> look (phys_mem s) 4 root p = Some (e, r) \<and> r \<noteq> [] \<longrightarrow>
        (\<forall>n. 12 \<le> n \<and> n < 21 \<longrightarrow> \<not> bit e n))"

lemma space_okD:
  assumes "space_ok s root"
  shows "page_addr root"
    and "idx_ok p \<Longrightarrow> tbl (phys_mem s) 4 root p = Some t \<Longrightarrow> t \<noteq> 0 \<and> frame_of t \<notin> free_set s \<and> page_addr t"
    and "idx_ok p \<Longrightarrow> idx_ok q \<Longrightarrow> tbl (phys_mem s) 4 root p = Some t \<Longrightarrow>
      tbl (phys_mem s) 4 root q = Some t \<Longrightarrow> p = q"
    and "idx_ok p \<Longrightarrow> length p = 4 \<Longrightarrow> look (phys_mem s) 4 root p = Some (e, r) \<Longrightarrow> r \<noteq> [] \<Longrightarrow> 12 \<le> n \<Longrightarrow> n < 21 \<Longrightarrow> \<not> bit e n"
  using assms tbl_page_addr unfolding space_ok_def by blast+

section \<open>Changing one entry\<close>

text \<open>
  \<open>m'\<close> keeps every entry of every table of the space, except possibly entry \<open>i\<close> of the table at \<open>p\<close>.
\<close>

definition keeps_entries :: "memory \<Rightarrow> u64 \<Rightarrow> u32 list \<Rightarrow> u32 \<Rightarrow> memory \<Rightarrow> bool" where
  "keeps_entries m root p i m' \<longleftrightarrow>
     (\<forall>q u j. idx_ok q \<and> j < 512 \<and> tbl m 4 root q = Some u \<and> (q, j) \<noteq> (p, i) \<longrightarrow> entry m' u j = entry m u j)"

lemma keeps_entries_set:
  assumes ok: "space_ok s root" and p: "idx_ok p" "tbl (phys_mem s) 4 root p = Some t" "i < 512"
    and same: "\<And>x. frame_of x \<notin> free_set s \<Longrightarrow> m1 x = phys_mem s x"
  shows "keeps_entries (phys_mem s) root p i (set_entry t i e m1)"
    and "entry (set_entry t i e m1) t i = e"
proof -
  have t: "page_addr t" using space_okD(2) [OF ok p(1,2)] by blast
  have "entry (set_entry t i e m1) u j = entry (phys_mem s) u j"
    if q: "idx_ok q" "tbl (phys_mem s) 4 root q = Some u" and j: "j < 512" "(q, j) \<noteq> (p, i)" for q u j
  proof -
    have u: "page_addr u" "frame_of u \<notin> free_set s" using space_okD(2) [OF ok q] by auto
    have ne: "(u, j) \<noteq> (t, i)" using space_okD(3) [OF ok q(1) p(1) q(2)] p(2) j(2) by auto
    have "entry (set_entry t i e m1) u j = entry m1 u j"
      using entry_set_entry [OF t u(1) p(3) j(1), of e m1] ne by auto
    also have "\<dots> = entry (phys_mem s) u j" using entry_cong [OF u(1) j(1)] same u(2) by metis
    finally show ?thesis .
  qed
  then show "keeps_entries (phys_mem s) root p i (set_entry t i e m1)"
    unfolding keeps_entries_def by blast
  show "entry (set_entry t i e m1) t i = e"
    using entry_set_entry [OF t t p(3) p(3)] by simp
qed

lemma keeps_entriesD:
  "keeps_entries m root p i m' \<Longrightarrow> idx_ok (q @ [j]) \<Longrightarrow> tbl m 4 root q = Some u \<Longrightarrow> (q, j) \<noteq> (p, i) \<Longrightarrow>
     entry m' u j = entry m u j"
  unfolding keeps_entries_def
  by (drule spec [of _ q], drule spec [of _ u], drule spec [of _ j]) simp

lemma paths_kept:
  assumes "keeps_entries m root p i m'" and "idx_ok q" and "\<not> prefix (p @ [i]) q"
  shows "tbl m' 4 root q = tbl m 4 root q" and "look m' 4 root q = look m 4 root q"
proof -
  have "sim_entry (4 - length q') (entry m u j) (entry m' u j)"
    if u: "tbl m 4 root q' = Some u" and q: "q = q' @ j # r" for q' u j r
  proof -
    have "(q', j) \<noteq> (p, i)" using assms(3) q by auto
    moreover have "idx_ok q'" "j < 512" using assms(2) q by auto
    ultimately show ?thesis using assms(1) u by (auto simp: keeps_entries_def sim_entry_def)
  qed
  then show "tbl m' 4 root q = tbl m 4 root q" "look m' 4 root q = look m 4 root q"
    by (rule tbl_sim; blast)+
qed

lemma paths_sim:
  assumes "keeps_entries m root p i m'" and "idx_ok q" and "tbl m 4 root p = Some t"
    and "sim_entry (4 - length p) (entry m t i) (entry m' t i)"
  shows "tbl m' 4 root q = tbl m 4 root q" and "look m' 4 root q = look m 4 root q"
proof -
  have "sim_entry (4 - length q') (entry m u j) (entry m' u j)"
    if u: "tbl m 4 root q' = Some u" and q: "q = q' @ j # r" for q' u j r
  proof (cases "(q', j) = (p, i)")
    case True
    then show ?thesis using assms(3,4) u by auto
  next
    case False
    moreover have "idx_ok q'" "j < 512" using assms(2) q by auto
    ultimately show ?thesis using assms(1) u by (auto simp: keeps_entries_def sim_entry_def)
  qed
  then show "tbl m' 4 root q = tbl m 4 root q" "look m' 4 root q = look m 4 root q"
    by (rule tbl_sim; blast)+
qed

text \<open>A new table below entry \<open>i\<close> of the table at \<open>p\<close>, whose own entries point to no table.\<close>

lemma paths_new:
  assumes keep: "keeps_entries m root p i m'" and q: "idx_ok q"
    and t: "tbl m 4 root p = Some t" "idx_ok p" "i < 512" and l: "length p < 3"
    and old: "\<not> is_tbl (4 - length p) (entry m t i)"
    and e: "entry m' t i = e" "is_tbl (4 - length p) e" "e AND PAGE_ADDR_MASK = a"
    and leafs: "\<And>j. j < 512 \<Longrightarrow> \<not> is_tbl (3 - length p) (entry m' a j)"
  shows "tbl m' 4 root q = (if q = p @ [i] then Some a else tbl m 4 root q)"
    and "look m' 4 root (p @ i # r) = look m' (3 - length p) a r"
proof -
  have pm: "tbl m' 4 root p = Some t"
    using paths_kept(1) [OF keep t(2)] t(1) by (auto simp: prefix_def)
  have sub: "4 - length p - Suc 0 = 3 - length p" by simp
  have ext: "tbl m' 4 root (p @ i # r) = tbl m' (3 - length p) a r" for r
    using pm e sub by (simp add: tbl_append)
  show "look m' 4 root (p @ i # r) = look m' (3 - length p) a r"
    using look_append [OF pm, of "i # r"] e sub by (simp add: is_tbl_def)
  show "tbl m' 4 root q = (if q = p @ [i] then Some a else tbl m 4 root q)"
  proof (cases "prefix (p @ [i]) q")
    case True
    then obtain r where r: "q = p @ i # r" by (auto simp: prefix_def)
    have "tbl m 4 root q = None" using r t old by (simp add: tbl_append)
    moreover have "tbl m' (3 - length p) a r = (if r = [] then Some a else None)"
      using leafs q r by (cases r) auto
    ultimately show ?thesis using ext r by simp
  next
    case False
    then show ?thesis using paths_kept(1) [OF keep q] by (auto simp: prefix_def)
  qed
qed

section \<open>Translation\<close>

text \<open>
  What a path of four indices translates to: the physical page and its writable flag. Below a 2 MiB
  page the last index selects the 4 KiB part.
\<close>

definition page_target :: "u64 \<times> u32 list \<Rightarrow> u64 \<times> bool" where
  "page_target er = (case er of (e, r) \<Rightarrow>
     ((e AND PAGE_ADDR_MASK) + (case r of [] \<Rightarrow> 0 | j # _ \<Rightarrow> ucast j * PAGE_4KB_SIZE), bit e 1))"

definition target :: "memory \<Rightarrow> u64 \<Rightarrow> u32 list \<Rightarrow> (u64 \<times> bool) option" where
  "target m root q = map_option page_target (look m 4 root q)"

definition va_path :: "u64 \<Rightarrow> u32 list" where
  "va_path v = [pml4_index v, pdpt_index v, pd_index v, pt_index v]"

text \<open>The translation of a virtual address: the physical address and the writable flag.\<close>

definition walk :: "memory \<Rightarrow> u64 \<Rightarrow> u64 \<Rightarrow> (u64 \<times> bool) option" where
  "walk m root v = map_option (\<lambda>(pg, w). (pg + (v AND 0xFFF), w)) (target m root (va_path v))"

text \<open>
  A step of the page table code that changes no translation: tables may be added (in frames that
  were free) and marked as user tables.
\<close>

definition table_frames :: "memory \<Rightarrow> u64 \<Rightarrow> u64 set" where
  "table_frames m root = {frame_of t | t p. idx_ok p \<and> tbl m 4 root p = Some t}"

definition grows :: "'a vmm_state_scheme \<Rightarrow> u64 \<Rightarrow> 'a vmm_state_scheme \<Rightarrow> bool" where
  "grows s root t \<longleftrightarrow> space_ok t root \<and> pmm_ok t \<and> free_set t \<subseteq> free_set s \<and>
     (\<forall>q. idx_ok q \<and> length q = 4 \<longrightarrow> target (phys_mem t) root q = target (phys_mem s) root q) \<and>
     (\<forall>q u. idx_ok q \<and> tbl (phys_mem s) 4 root q = Some u \<longrightarrow> tbl (phys_mem t) 4 root q = Some u) \<and>
     table_frames (phys_mem t) root \<subseteq> table_frames (phys_mem s) root \<union> free_set s \<and>
     (\<forall>x. frame_of x \<notin> free_set s \<union> table_frames (phys_mem s) root \<longrightarrow> phys_mem t x = phys_mem s x) \<and>
     (\<forall>q u j w. idx_ok (q @ [j]) \<and> tbl (phys_mem s) 4 root q = Some u \<and> tbl (phys_mem s) 4 root (q @ [j]) = Some w \<and>
        bit (entry (phys_mem s) u j) 2 \<longrightarrow> bit (entry (phys_mem t) u j) 2) \<and>
     pmm_frame (s\<lparr>phys_mem := phys_mem t\<rparr>) t \<and>
     (\<forall>q u j. idx_ok (q @ [j]) \<and> length q = 3 \<and> tbl (phys_mem s) 4 root q = Some u \<longrightarrow>
        entry (phys_mem t) u j = entry (phys_mem s) u j)"

lemma growsI:
  assumes "space_ok t root" and "pmm_ok t" and "free_set t \<subseteq> free_set s"
    and "\<And>q. idx_ok q \<Longrightarrow> length q = 4 \<Longrightarrow> target (phys_mem t) root q = target (phys_mem s) root q"
    and "\<And>q u. idx_ok q \<Longrightarrow> tbl (phys_mem s) 4 root q = Some u \<Longrightarrow> tbl (phys_mem t) 4 root q = Some u"
    and "table_frames (phys_mem t) root \<subseteq> table_frames (phys_mem s) root \<union> free_set s"
    and "\<And>x. frame_of x \<notin> free_set s \<union> table_frames (phys_mem s) root \<Longrightarrow> phys_mem t x = phys_mem s x"
    and "\<And>q u j w. idx_ok (q @ [j]) \<Longrightarrow> tbl (phys_mem s) 4 root q = Some u \<Longrightarrow>
      tbl (phys_mem s) 4 root (q @ [j]) = Some w \<Longrightarrow> bit (entry (phys_mem s) u j) 2 \<Longrightarrow> bit (entry (phys_mem t) u j) 2"
    and "pmm_frame (s\<lparr>phys_mem := phys_mem t\<rparr>) t"
    and "\<And>q u j. idx_ok (q @ [j]) \<Longrightarrow> length q = 3 \<Longrightarrow> tbl (phys_mem s) 4 root q = Some u \<Longrightarrow>
      entry (phys_mem t) u j = entry (phys_mem s) u j"
  shows "grows s root t"
  unfolding grows_def by (intro conjI allI impI; (elim conjE)?; rule assms; assumption)

lemma growsD:
  assumes "grows s root t"
  shows "space_ok t root" and "pmm_ok t" and "free_set t \<subseteq> free_set s"
    and "idx_ok q \<Longrightarrow> length q = 4 \<Longrightarrow> target (phys_mem t) root q = target (phys_mem s) root q"
    and "idx_ok q \<Longrightarrow> tbl (phys_mem s) 4 root q = Some u \<Longrightarrow> tbl (phys_mem t) 4 root q = Some u"
    and "idx_ok (q @ [j]) \<Longrightarrow> tbl (phys_mem s) 4 root q = Some u \<Longrightarrow> tbl (phys_mem s) 4 root (q @ [j]) = Some w \<Longrightarrow>
      bit (entry (phys_mem s) u j) 2 \<Longrightarrow> bit (entry (phys_mem t) u j) 2"
    and "frame_of x \<notin> free_set s \<union> table_frames (phys_mem s) root \<Longrightarrow> phys_mem t x = phys_mem s x"
    and "pmm_frame (s\<lparr>phys_mem := phys_mem t\<rparr>) t"
    and "table_frames (phys_mem t) root \<subseteq> table_frames (phys_mem s) root \<union> free_set s"
    and "idx_ok (q @ [j]) \<Longrightarrow> length q = 3 \<Longrightarrow> tbl (phys_mem s) 4 root q = Some u \<Longrightarrow>
      entry (phys_mem t) u j = entry (phys_mem s) u j"
  using assms unfolding grows_def by blast+

lemma grows_refl: "space_ok s root \<Longrightarrow> pmm_ok s \<Longrightarrow> grows s root s"
  by (simp add: grows_def)

lemma pmm_clear_mem: "pmm_clear (s\<lparr>phys_mem := m\<rparr>) = (pmm_clear s)\<lparr>phys_mem := m\<rparr>"
  by (simp add: pmm_clear_def)

lemma grows_trans:
  assumes "grows s root t" and "grows t root u"
  shows "grows s root u"
proof -
  note s = growsD [OF assms(1)] and t = growsD [OF assms(2)]
  have frames: "free_set u \<subseteq> free_set s" "table_frames (phys_mem u) root \<subseteq> table_frames (phys_mem s) root \<union> free_set s"
    using s(3,9) t(3,9) by blast+
  have mem: "phys_mem u x = phys_mem s x" if "frame_of x \<notin> free_set s \<union> table_frames (phys_mem s) root" for x
  proof -
    have "frame_of x \<notin> free_set t \<union> table_frames (phys_mem t) root" using s(3,9) that by blast
    then have "phys_mem u x = phys_mem t x" by (rule t(7))
    also have "phys_mem t x = phys_mem s x" by (rule s(7) [OF that])
    finally show ?thesis .
  qed
  have "pmm_clear u = (pmm_clear t)\<lparr>phys_mem := phys_mem u\<rparr>" "pmm_clear t = (pmm_clear s)\<lparr>phys_mem := phys_mem t\<rparr>"
    using s(8) t(8) by (simp_all add: pmm_frame_def pmm_clear_mem)
  then have fr: "pmm_frame (s\<lparr>phys_mem := phys_mem u\<rparr>) u"
    by (simp add: pmm_frame_def pmm_clear_mem)
  have tgt: "target (phys_mem u) root q = target (phys_mem s) root q" if "idx_ok q" "length q = 4" for q
    using s(4) [OF that] t(4) [OF that] by simp
  have tb: "tbl (phys_mem u) 4 root q = Some w" if "idx_ok q" "tbl (phys_mem s) 4 root q = Some w" for q w
    by (rule t(5) [OF that(1) s(5) [OF that]])
  have usr: "bit (entry (phys_mem u) w j) 2"
    if "idx_ok (q @ [j])" "tbl (phys_mem s) 4 root q = Some w" "tbl (phys_mem s) 4 root (q @ [j]) = Some w'"
      "bit (entry (phys_mem s) w j) 2" for q w j w'
  proof -
    have q: "tbl (phys_mem t) 4 root q = Some w" using growsD(5) [OF assms(1) _ that(2)] that(1) by simp
    have qj: "tbl (phys_mem t) 4 root (q @ [j]) = Some w'" by (rule growsD(5) [OF assms(1) that(1,3)])
    show ?thesis
      by (rule growsD(6) [OF assms(2) that(1) q qj growsD(6) [OF assms(1) that]])
  qed
  have leaf: "entry (phys_mem u) w j = entry (phys_mem s) w j"
    if "idx_ok (q @ [j])" "length q = 3" "tbl (phys_mem s) 4 root q = Some w" for q w j
  proof -
    have q: "tbl (phys_mem t) 4 root q = Some w" using growsD(5) [OF assms(1) _ that(3)] that(1) by simp
    show ?thesis using growsD(10) [OF assms(2) that(1,2) q] growsD(10) [OF assms(1) that] by simp
  qed
  show ?thesis
    by (rule growsI [OF growsD(1,2) [OF assms(2)] frames(1) tgt tb frames(2) mem usr fr leaf])
qed

lemma table_frames_I: "idx_ok p \<Longrightarrow> tbl m 4 root p = Some t \<Longrightarrow> frame_of t \<in> table_frames m root"
  by (auto simp: table_frames_def)

lemma space_ok_cong:
  assumes "space_ok s root"
    and "\<And>q. idx_ok q \<Longrightarrow> tbl (phys_mem t) 4 root q = tbl (phys_mem s) 4 root q"
    and "\<And>q. idx_ok q \<Longrightarrow> look (phys_mem t) 4 root q = look (phys_mem s) 4 root q"
    and "free_set t \<subseteq> free_set s"
  shows "space_ok t root"
  using assms(1,4) unfolding space_ok_def by (simp cong: conj_cong add: assms(2,3)) blast

text \<open>Setting flags of a table pointer.\<close>

lemma grows_set_flags:
  fixes s :: "'a vmm_state_scheme"
  assumes ok: "space_ok s root" "pmm_ok s" and p: "idx_ok p" "tbl (phys_mem s) 4 root p = Some t" "i < 512"
    and old: "is_tbl (4 - length p) (entry (phys_mem s) t i)"
    and new: "is_tbl (4 - length p) e" "e AND PAGE_ADDR_MASK = entry (phys_mem s) t i AND PAGE_ADDR_MASK" "bit e 2"
  shows "grows s root (s\<lparr>phys_mem := set_entry t i e (phys_mem s)\<rparr>)"
    and "entry (set_entry t i e (phys_mem s)) t i = e"
proof -
  let ?m = "set_entry t i e (phys_mem s)"
  let ?s = "s\<lparr>phys_mem := ?m\<rparr>"
  note keep = keeps_entries_set [OF ok(1) p refl, of e]
  have "sim_entry (4 - length p) (entry (phys_mem s) t i) (entry ?m t i)"
    using keep(2) old new by (simp add: sim_entry_def)
  note same = paths_sim [OF keep(1) _ p(2) this]
  have t: "page_addr t" using space_okD(2) [OF ok(1) p(1,2)] by blast
  have sp: "space_ok ?s root"
    by (rule space_ok_cong [OF ok(1)]) (use same in simp_all)
  have frames: "table_frames ?m root = table_frames (phys_mem s) root"
    unfolding table_frames_def using same(1) by (simp cong: conj_cong)
  have mem: "?m x = phys_mem s x" if "frame_of x \<notin> table_frames (phys_mem s) root" for x
    using set_entry_outside [OF t p(3)] table_frames_I [OF p(1,2)] that by metis
  have pmm: "pmm_ok ?s" using ok(2) pmm_ok_cong [of ?s s] by simp
  have "bit (entry ?m u j) 2"
    if q: "idx_ok (q @ [j])" "tbl (phys_mem s) 4 root q = Some u" "bit (entry (phys_mem s) u j) 2" for q u j
  proof (cases "(q, j) = (p, i)")
    case True
    then show ?thesis using q p(2) keep(2) new(3) by auto
  next
    case False
    then show ?thesis using keeps_entriesD [OF keep(1) q(1,2)] q(3) by simp
  qed
  note usr = this
  show "grows s root ?s"
  proof (rule growsI [OF sp pmm])
    show "free_set ?s \<subseteq> free_set s" by simp
    show "target (phys_mem ?s) root q = target (phys_mem s) root q" if "idx_ok q" for q
      using same(2) [OF that] by (simp add: target_def)
    show "tbl (phys_mem ?s) 4 root q = Some u" if "idx_ok q" "tbl (phys_mem s) 4 root q = Some u" for q u
      using same(1) [OF that(1)] that(2) by simp
    show "table_frames (phys_mem ?s) root \<subseteq> table_frames (phys_mem s) root \<union> free_set s"
      using frames by simp
    show "phys_mem ?s x = phys_mem s x" if "frame_of x \<notin> free_set s \<union> table_frames (phys_mem s) root" for x
      using mem [of x] that by simp
    show "bit (entry (phys_mem ?s) u j) 2"
      if "idx_ok (q @ [j])" "tbl (phys_mem s) 4 root q = Some u" "bit (entry (phys_mem s) u j) 2" for q u j
      using usr [OF that] by simp
    show "entry (phys_mem ?s) u j = entry (phys_mem s) u j"
      if q: "idx_ok (q @ [j])" "length q = 3" "tbl (phys_mem s) 4 root q = Some u" for q u j
    proof -
      have "1 < 4 - length p" using old by (simp add: is_tbl_def)
      then have "q \<noteq> p" using q(2) by auto
      then show ?thesis using keeps_entriesD [OF keep(1) q(1,3)] by simp
    qed
  qed simp
  show "entry ?m t i = e" by (rule keep(2))
qed

text \<open>Hanging a new table, filled in a frame that was free, below an entry that was not a table pointer.\<close>

lemma grows_new_table:
  fixes s :: "'a vmm_state_scheme"
  assumes ok: "space_ok s root" "pmm_ok s" and p: "idx_ok p" "tbl (phys_mem s) 4 root p = Some t" "i < 512"
    and l: "length p < 3"
    and f: "f \<in> free_set s" "a = f * PMM_FRAME_SIZE"
    and u: "free_set u = free_set s - {f}" "pmm_inv s \<longrightarrow> pmm_inv u" "pmm_frame s u"
    and fill: "\<And>x. frame_of x \<noteq> f \<Longrightarrow> m1 x = phys_mem s x"
    and old: "\<not> is_tbl (4 - length p) (entry (phys_mem s) t i)"
    and e: "is_tbl (4 - length p) e" "e AND PAGE_ADDR_MASK = a"
    and leafs: "\<And>j. j < 512 \<Longrightarrow> \<not> is_tbl (3 - length p) (entry m1 a j)"
    and tgt: "\<And>r. idx_ok r \<Longrightarrow> length r = 3 - length p \<Longrightarrow>
       map_option page_target (look m1 (3 - length p) a r) = target (phys_mem s) root (p @ i # r)"
    and small: "\<And>r e' r'. idx_ok r \<Longrightarrow> length r = 3 - length p \<Longrightarrow>
       look m1 (3 - length p) a r = Some (e', r') \<Longrightarrow> r' = []"
  shows "grows s root (u\<lparr>phys_mem := set_entry t i e m1\<rparr>)"
    and "tbl (set_entry t i e m1) 4 root (p @ [i]) = Some a"
    and "entry (set_entry t i e m1) t i = e"
proof -
  let ?m = "set_entry t i e m1"
  let ?s = "u\<lparr>phys_mem := ?m\<rparr>"
  have zero: "0 \<notin> free_set s" using ok(2) by (simp add: pmm_ok_def)
  have fa: "page_addr a" "frame_of a = f" "a \<noteq> 0"
    using page_addr_frame [OF free_set_below [OF f(1)]] frame_address(2) [OF free_set_below [OF f(1)]]
      frame_nonzero [OF f(1) zero] f(2) by simp_all
  have t: "page_addr t" "frame_of t \<notin> free_set s" using space_okD(2) [OF ok(1) p(1,2)] by blast+
  have tf: "frame_of t \<noteq> f" using t f(1) by blast
  have same: "m1 x = phys_mem s x" if "frame_of x \<notin> free_set s" for x
    using fill [of x] f(1) that by (cases "frame_of x = f") auto
  note keep = keeps_entries_set [OF ok(1) p same, of e]
  have ea: "entry ?m a j = entry m1 a j" if "j < 512" for j
    using entry_cong [OF fa(1) that, of ?m m1] set_entry_outside [OF t(1) p(3)] fa(2) tf by metis
  have leafs': "\<not> is_tbl (3 - length p) (entry ?m a j)" if "j < 512" for j
    using leafs [OF that] ea [OF that] by simp
  have below: "look ?m 4 root (p @ i # r) = look m1 (3 - length p) a r" if "idx_ok r" for r
  proof -
    have "look ?m 4 root (p @ i # r) = look ?m (3 - length p) a r"
      using paths_new(2) [OF keep(1) _ p(2,1,3) l old keep(2) e leafs', of "[]"] by simp
    also have "\<dots> = look m1 (3 - length p) a r"
      using that ea leafs by (cases r) auto
    finally show ?thesis .
  qed
  have tb: "tbl ?m 4 root q = (if q = p @ [i] then Some a else tbl (phys_mem s) 4 root q)" if "idx_ok q" for q
    by (rule paths_new(1) [OF keep(1) that p(2,1,3) l old keep(2) e leafs'])
  show "tbl ?m 4 root (p @ [i]) = Some a" using tb [of "p @ [i]"] p by simp
  show "entry ?m t i = e" by (rule keep(2))
  have was: "tbl (phys_mem s) 4 root (p @ [i]) = None" using p(2) old by (simp add: tbl_append)
  have fs: "free_set ?s = free_set s - {f}" using u(1) free_set_cong [of ?s u] by simp
  have notbl: "tbl (phys_mem s) 4 root q \<noteq> Some a" if "idx_ok q" for q
    using space_okD(2) [OF ok(1) that, of a] fa(2) f(1) by blast
  have tg: "target ?m root q = target (phys_mem s) root q" if "idx_ok q" "length q = 4" for q
  proof (cases "prefix (p @ [i]) q")
    case True
    then obtain r where r: "q = p @ i # r" by (auto simp: prefix_def)
    then show ?thesis using that below [of r] tgt [of r] by (simp add: target_def)
  next
    case False
    then show ?thesis using paths_kept(2) [OF keep(1) that(1)] by (simp add: target_def)
  qed
  have huge: "\<not> bit e' n"
    if "idx_ok q" "length q = 4" "look ?m 4 root q = Some (e', r')" "r' \<noteq> []" "12 \<le> n" "n < 21" for q e' r' n
  proof (cases "prefix (p @ [i]) q")
    case True
    then obtain r where "q = p @ i # r" by (auto simp: prefix_def)
    then show ?thesis using that below [of r] small [of r e' r'] by simp
  next
    case False
    then show ?thesis using paths_kept(2) [OF keep(1) that(1)] space_okD(4) [OF ok(1)] that by metis
  qed
  have "space_ok ?s root"
    unfolding space_ok_def
  proof (intro conjI allI impI)
    show "page_addr root" using space_okD(1) [OF ok(1)] .
    fix q q' t'
    show "t' \<noteq> 0" "frame_of t' \<notin> free_set ?s" if "idx_ok q \<and> tbl (phys_mem ?s) 4 root q = Some t'"
      using that tb [of q] fs fa space_okD(2) [OF ok(1), of q t'] by (auto split: if_splits)
    show "q = q'" if "idx_ok q \<and> idx_ok q' \<and> tbl (phys_mem ?s) 4 root q = Some t' \<and> tbl (phys_mem ?s) 4 root q' = Some t'"
      using that tb [of q] tb [of q'] notbl space_okD(3) [OF ok(1), of q q' t'] by (auto split: if_splits)
  next
    fix q e' r' n
    show "\<not> bit e' n"
      if "idx_ok q \<and> length q = 4 \<and> look (phys_mem ?s) 4 root q = Some (e', r') \<and> r' \<noteq> []" "12 \<le> n \<and> n < 21"
      using huge [of q e' r' n] that by simp
  qed
  note sp = this
  have "pmm_ok u" using ok(2) u(1,2) zero by (simp add: pmm_ok_def)
  then have pmm: "pmm_ok ?s" using pmm_ok_cong [of ?s u] by simp
  show "grows s root ?s"
  proof (rule growsI [OF sp pmm])
    show "free_set ?s \<subseteq> free_set s" using fs by blast
    show "target (phys_mem ?s) root q = target (phys_mem s) root q" if "idx_ok q" "length q = 4" for q
      using tg [OF that] by simp
    show "tbl (phys_mem ?s) 4 root q = Some u'" if "idx_ok q" "tbl (phys_mem s) 4 root q = Some u'" for q u'
      using tb [OF that(1)] that was by auto
    show "table_frames (phys_mem ?s) root \<subseteq> table_frames (phys_mem s) root \<union> free_set s"
      using tb fa(2) f(1) unfolding table_frames_def by (fastforce split: if_splits)
    show "phys_mem ?s x = phys_mem s x" if "frame_of x \<notin> free_set s \<union> table_frames (phys_mem s) root" for x
      using that set_entry_outside [OF t(1) p(3), of x e m1] table_frames_I [OF p(1,2)] same [of x]
      by (cases "frame_of x = frame_of t") auto
    show "bit (entry (phys_mem ?s) u' j) 2"
      if q: "idx_ok (q @ [j])" "tbl (phys_mem s) 4 root q = Some u'" "tbl (phys_mem s) 4 root (q @ [j]) = Some w"
        "bit (entry (phys_mem s) u' j) 2" for q u' j w
    proof -
      have "(q, j) \<noteq> (p, i)" using was q(3) by auto
      then show ?thesis using keeps_entriesD [OF keep(1) q(1,2)] q(4) by simp
    qed
    show "pmm_frame (s\<lparr>phys_mem := phys_mem ?s\<rparr>) ?s"
      using u(3) by (simp add: pmm_frame_def pmm_clear_mem)
    show "entry (phys_mem ?s) u' j = entry (phys_mem s) u' j"
      if q: "idx_ok (q @ [j])" "length q = 3" "tbl (phys_mem s) 4 root q = Some u'" for q u' j
    proof -
      have "q \<noteq> p" using q(2) l by auto
      then show ?thesis using keeps_entriesD [OF keep(1) q(1,3)] by simp
    qed
  qed
qed

section \<open>The page table operations\<close>

lemma is_tbl_new:
  assumes "page_addr a" and "1 < l"
  shows "is_tbl l (a OR PAGE_PRESENT OR PAGE_WRITABLE)"
    and "is_tbl l (a OR PAGE_PRESENT OR PAGE_WRITABLE OR PAGE_USER)"
    and "(a OR PAGE_PRESENT OR PAGE_WRITABLE) AND PAGE_ADDR_MASK = a"
    and "(a OR PAGE_PRESENT OR PAGE_WRITABLE OR PAGE_USER) AND PAGE_ADDR_MASK = a"
proof -
  have "\<not> bit a 7" using assms(1) by (auto simp: page_addr_bits)
  then show "is_tbl l (a OR PAGE_PRESENT OR PAGE_WRITABLE)"
    "is_tbl l (a OR PAGE_PRESENT OR PAGE_WRITABLE OR PAGE_USER)"
    using assms(2) by (auto simp: is_tbl_def entry_bits)
  show "(a OR PAGE_PRESENT OR PAGE_WRITABLE) AND PAGE_ADDR_MASK = a"
    "(a OR PAGE_PRESENT OR PAGE_WRITABLE OR PAGE_USER) AND PAGE_ADDR_MASK = a"
    using assms(1) by (simp_all add: page_addr_def or.assoc [symmetric])
qed

lemma is_tbl_user: "is_tbl l e \<Longrightarrow> is_tbl l (e OR PAGE_USER)"
  by (auto simp: is_tbl_def entry_bits)

lemma bit_or_user: "bit (e OR PAGE_USER) 2"
  by (simp add: entry_bits)

lemma look_zero: "(\<And>j. j < 512 \<Longrightarrow> entry m a j = 0) \<Longrightarrow> idx_ok r \<Longrightarrow> look m l a r = None"
  by (cases r) auto

lemma get_or_create_table_cases:
  fixes s :: "'a vmm_state_scheme"
  assumes sp: "space_ok s root" "pmm_ok s"
    and p: "idx_ok p" "tbl (phys_mem s) 4 root p = Some t" "i < 512" "length p < 2"
  obtains (fail) "get_or_create_table t i s = (s, 0)" and "free_set s = {}"
  | (ok) s' r where "get_or_create_table t i s = (s', r)" and "r \<noteq> 0" and "grows s root s'"
      and "tbl (phys_mem s') 4 root (p @ [i]) = Some r" and "bit (entry (phys_mem s') t i) 2"
      and "card (free_set s) \<le> Suc (card (free_set s'))"
proof -
  let ?e = "entry (phys_mem s) t i"
  have l: "4 - length p > 2" using p(4) by linarith
  have user: thesis
    if g: "grows s root u" and create: "get_or_create_table t i s =
          (let m = set_entry t i (entry (phys_mem u) t i OR PAGE_USER) (phys_mem u)
           in (u\<lparr>phys_mem := m\<rparr>, entry m t i AND PAGE_ADDR_MASK))"
      and tb: "tbl (phys_mem u) 4 root (p @ [i]) = Some r"
      and card: "card (free_set s) \<le> Suc (card (free_set u))" for u :: "'a vmm_state_scheme" and r
  proof -
    have u: "space_ok u root" "pmm_ok u" "tbl (phys_mem u) 4 root p = Some t"
      using g p by (auto simp: grows_def)
    have it: "is_tbl (4 - length p) (entry (phys_mem u) t i)" "r = entry (phys_mem u) t i AND PAGE_ADDR_MASK"
      using tb u(3) by (auto simp: tbl_append split: if_splits)
    note fl = grows_set_flags [OF u(1,2) p(1) u(3) p(3) it(1) is_tbl_user [OF it(1)] entry_addr_or(3)
        bit_or_user]
    let ?u = "u\<lparr>phys_mem := set_entry t i (entry (phys_mem u) t i OR PAGE_USER) (phys_mem u)\<rparr>"
    have "get_or_create_table t i s = (?u, r)" using create fl(2) it(2) by (simp add: Let_def)
    moreover have "r \<noteq> 0" using space_okD(2) [OF u(1) _ tb] p by simp
    moreover have "tbl (phys_mem ?u) 4 root (p @ [i]) = Some r" using fl(1) tb p by (auto simp: grows_def)
    moreover have "bit (entry (phys_mem ?u) t i) 2" using fl(2) by (simp add: entry_bits)
    moreover have "card (free_set s) \<le> Suc (card (free_set ?u))" using card by simp
    ultimately show thesis using ok [of ?u r] grows_trans [OF g fl(1)] by blast
  qed
  show thesis
  proof (cases "bit ?e 0")
    case True
    have tb: "tbl (phys_mem s) 4 root (p @ [i]) = Some (?e AND PAGE_ADDR_MASK)"
      using p l True by (simp add: tbl_append is_tbl_def)
    show thesis by (rule user [OF grows_refl [OF sp] _ tb]) (simp_all add: get_or_create_table_def True)
  next
    case False
    show thesis
    proof (cases s rule: pmm_alloc_frame_cases)
      case none
      then show thesis using fail False by (simp add: get_or_create_table_def Let_def)
    next
      case (frame f j u)
      define a where "a = f * PMM_FRAME_SIZE"
      have fb: "page_addr a" "frame_of a = f" "a \<noteq> 0"
        using page_addr_frame [OF free_set_below [OF frame(2)]] frame_address(2) [OF free_set_below [OF frame(2)]]
          frame_nonzero [OF frame(2)] sp(2) by (simp_all add: a_def pmm_ok_def)
      have mem: "phys_mem u = phys_mem s" by (rule pmm_frame_phys_mem [OF frame(9)])
      let ?m1 = "for_w 0 ENTRIES_PER_TABLE (\<lambda>i. set_entry a i 0) (phys_mem s)"
      let ?e = "a OR PAGE_PRESENT OR PAGE_WRITABLE"
      let ?u = "u\<lparr>phys_mem := set_entry t i ?e ?m1\<rparr>"
      have zeros: "entry ?m1 a j = 0" if "j < 512" for j by (rule fill_table(1) [OF fb(1) that])
      have fill: "?m1 x = phys_mem s x" if "frame_of x \<noteq> f" for x
        by (rule fill_table(2) [OF fb(1)]) (use that fb(2) in simp)
      have was: "target (phys_mem s) root (p @ i # r) = None" for r
        using False look_append [OF p(2)] by (simp add: target_def)
      have old: "\<not> is_tbl (4 - length p) (entry (phys_mem s) t i)" using False by (simp add: is_tbl_def)
      have l1: "1 < 4 - length p" and l3: "length p < 3" using l by linarith+
      have g: "grows s root ?u" and tb: "tbl (set_entry t i ?e ?m1) 4 root (p @ [i]) = Some a"
        using grows_new_table [OF sp p(1-3) l3 frame(2) a_def frame(6,8,9) fill old
            is_tbl_new(1) [OF fb(1) l1] is_tbl_new(3) [OF fb(1) l1]] zeros was
        by (simp_all add: is_tbl_def look_zero)
      have card: "card (free_set s) \<le> Suc (card (free_set ?u))"
        using frame(6) card_Suc_Diff1 [OF finite_free_set frame(2)] by simp
      show thesis
        by (rule user [OF g, of a])
          (use card tb False frame(1) fb(3) mem in \<open>simp_all add: get_or_create_table_def Let_def a_def [symmetric]\<close>)
    qed
  qed
qed

text \<open>Splitting a 2 MiB page: the 512 entries of the new table translate as the huge page did.\<close>

lemma page_addr_unatI: "unat a mod 4096 = 0 \<Longrightarrow> unat a < 2 ^ 52 \<Longrightarrow> page_addr a"
proof -
  assume a: "unat a mod 4096 = 0" "unat a < 2 ^ 52"
  have low: "a AND NOT (mask 12) = a"
    unfolding word_unat_eq_iff unat_and_not_mask using a(1) by (simp add: mod_0_imp_dvd)
  have high: "a AND mask 52 = a" unfolding word_unat_eq_iff unat_and_mask using a(2) by simp
  show "page_addr a"
    unfolding page_addr_def PAGE_ADDR_MASK_eq and.assoc [symmetric] high low by (rule refl)
qed

lemma split_entry:
  fixes e :: u64 and j :: u32
  assumes "bit e 0" and "\<And>n. 12 \<le> n \<Longrightarrow> n < 21 \<Longrightarrow> \<not> bit e n" and "j < 512"
  defines "x \<equiv> ((e AND PAGE_ADDR_MASK) + ucast j * PAGE_4KB_SIZE) OR (e AND (PAGE_PRESENT OR PAGE_WRITABLE))"
  shows "bit x 0" and "page_target (x, []) = page_target (e, [j])"
proof -
  define rp where "rp = e AND PAGE_ADDR_MASK"
  define a where "a = rp + ucast j * PAGE_4KB_SIZE"
  have "rp AND mask 21 = 0"
    unfolding rp_def using assms(2) by (intro bit_eqI) (auto simp: bit_simps entry_bits not_le)
  then have rp: "unat rp mod 2 ^ 21 = 0" "unat rp < 2 ^ 52"
    using unat_and_mask [of rp 21] page_addr_unat(2) [of rp] by (simp_all add: rp_def)
  have j: "unat j < 512" using assms(3) by (simp add: word_less_nat_alt)
  obtain k where k: "unat rp = 2 ^ 21 * k" using rp(1) by (auto simp: mod_eq_0_iff_dvd)
  then have "unat rp + 4096 * 512 \<le> 2 ^ 52" using rp(2) by simp
  then have a_lt: "unat rp + unat j * 4096 < 2 ^ 52" using j by simp
  have j4: "unat (ucast j * PAGE_4KB_SIZE :: u64) = unat j * 4096"
    using j by (simp add: PAGE_4KB_SIZE_def unat_word_ariths)
  have ua: "unat a = unat rp + unat j * 4096"
    unfolding a_def unat_word_ariths(1) j4 using a_lt by simp
  have pa: "page_addr a"
  proof (rule page_addr_unatI)
    show "unat a mod 4096 = 0" unfolding ua k by simp
    show "unat a < 2 ^ 52" using ua a_lt by simp
  qed
  have low: "\<not> bit a 0" "\<not> bit a 1" using pa by (auto simp: page_addr_bits)
  have x: "x = a OR (e AND (PAGE_PRESENT OR PAGE_WRITABLE))" by (simp add: x_def a_def rp_def)
  show "bit x 0" unfolding x using assms(1) by (simp add: entry_bits)
  have "x AND PAGE_ADDR_MASK = a"
    unfolding x using pa by (intro bit_word_eqI) (auto simp: entry_bits page_addr_bits)
  moreover have "bit x 1 = bit e 1" unfolding x using low by (simp add: entry_bits)
  ultimately show "page_target (x, []) = page_target (e, [j])"
    by (simp add: page_target_def a_def rp_def)
qed

lemma get_or_split_pt_cases:
  fixes s :: "'a vmm_state_scheme"
  assumes sp: "space_ok s root" "pmm_ok s"
    and p: "idx_ok p" "tbl (phys_mem s) 4 root p = Some pd" "i < 512" "length p = 2"
  obtains (fail) "get_or_split_pt pd i s = (s, None)" and "free_set s = {}"
  | (ok) s' pt where "get_or_split_pt pd i s = (s', Some pt)" and "grows s root s'"
      and "tbl (phys_mem s') 4 root (p @ [i]) = Some pt"
proof -
  let ?e = "entry (phys_mem s) pd i"
  have new: thesis
    if old: "\<not> is_tbl 2 ?e" and g: "\<And>f j u. pmm_alloc_frame s = (u, f * PMM_FRAME_SIZE) \<Longrightarrow> f * PMM_FRAME_SIZE \<noteq> 0 \<Longrightarrow>
        get_or_split_pt pd i s = (u\<lparr>phys_mem := set_entry pd i (f * PMM_FRAME_SIZE OR PAGE_PRESENT OR PAGE_WRITABLE OR PAGE_USER)
          (for_w 0 ENTRIES_PER_TABLE (\<lambda>i. set_entry (f * PMM_FRAME_SIZE) i (g i)) (phys_mem u))\<rparr>, Some (f * PMM_FRAME_SIZE))"
      and none: "pmm_alloc_frame s = (s, 0) \<Longrightarrow> get_or_split_pt pd i s = (s, None)"
      and tgt: "\<And>j. j < 512 \<Longrightarrow> (if bit (g j) 0 then Some (page_target (g j, [])) else None) = target (phys_mem s) root (p @ [i, j])"
    for g
  proof (cases s rule: pmm_alloc_frame_cases)
    case none
    then show thesis using fail that(3) by simp
  next
    case (frame f k u)
    define a where "a = f * PMM_FRAME_SIZE"
    have fb: "page_addr a" "frame_of a = f" "a \<noteq> 0"
      using page_addr_frame [OF free_set_below [OF frame(2)]] frame_address(2) [OF free_set_below [OF frame(2)]]
        frame_nonzero [OF frame(2)] sp(2) by (simp_all add: a_def pmm_ok_def)
    have mem: "phys_mem u = phys_mem s" by (rule pmm_frame_phys_mem [OF frame(9)])
    let ?m1 = "for_w 0 ENTRIES_PER_TABLE (\<lambda>i. set_entry a i (g i)) (phys_mem s)"
    let ?e = "a OR PAGE_PRESENT OR PAGE_WRITABLE OR PAGE_USER"
    have gs: "entry ?m1 a j = g j" if "j < 512" for j by (rule fill_table(1) [OF fb(1) that])
    have fill: "?m1 x = phys_mem s x" if "frame_of x \<noteq> f" for x
      by (rule fill_table(2) [OF fb(1)]) (use that fb(2) in simp)
    have one: "idx_ok r \<and> length r = 3 - length p \<longleftrightarrow> (\<exists>j < 512. r = [j])" for r
      using p(4) by (auto simp: length_Suc_conv)
    have l1: "1 < 4 - length p" and l3: "length p < 3" and l2: "4 - length p = 2" "3 - length p = 1" using p(4) by simp_all
    have old': "\<not> is_tbl (4 - length p) (entry (phys_mem s) pd i)" using old l2 by simp
    have leafs: "\<not> is_tbl (3 - length p) (entry ?m1 a j)" for j by (simp add: is_tbl_def l2)
    have tgt': "map_option page_target (look ?m1 (3 - length p) a r) = target (phys_mem s) root (p @ i # r)"
      if r: "idx_ok r" "length r = 3 - length p" for r
    proof -
      obtain j where j: "j < 512" "r = [j]" using r one by blast
      show ?thesis using tgt [OF j(1)] gs [OF j(1)] j l2 by (simp add: is_tbl_def split: if_splits)
    qed
    have small: "r' = []"
      if r: "idx_ok r" "length r = 3 - length p" and lk: "look ?m1 (3 - length p) a r = Some (e', r')" for r e' r'
    proof -
      obtain j where j: "j < 512" "r = [j]" using r one by blast
      show ?thesis using lk j gs [OF j(1)] by (simp add: is_tbl_def l2 split: if_splits)
    qed
    note grown = grows_new_table [OF sp p(1-3) l3 frame(2) a_def frame(6,8,9)]
    note hyps = fill old' is_tbl_new(2) [OF fb(1) l1] is_tbl_new(4) [OF fb(1) l1] leafs tgt' small
    have "grows s root (u\<lparr>phys_mem := set_entry pd i ?e ?m1\<rparr>)"
      by (rule grown(1); (rule hyps; assumption?))
    moreover have "tbl (set_entry pd i ?e ?m1) 4 root (p @ [i]) = Some a"
      by (rule grown(2); (rule hyps; assumption?))
    ultimately show thesis
      using ok [of "u\<lparr>phys_mem := set_entry pd i ?e ?m1\<rparr>" a] g [OF frame(1)] fb(3) mem by (simp add: a_def)
  qed
  have look_pd: "look (phys_mem s) 4 root (p @ i # r) = look (phys_mem s) 2 pd (i # r)" for r
    using look_append [OF p(2)] p(4) by simp
  show thesis
  proof (cases "is_tbl 2 ?e")
    case True
    have "get_or_split_pt pd i s = (s, Some (?e AND PAGE_ADDR_MASK))"
      using True by (simp add: get_or_split_pt_def is_tbl_def)
    moreover have "tbl (phys_mem s) 4 root (p @ [i]) = Some (?e AND PAGE_ADDR_MASK)"
      using p True by (simp add: tbl_append)
    ultimately show thesis using ok grows_refl [OF sp] by blast
  next
    case notbl: False
    show thesis
    proof (cases "bit ?e 0")
      case True
      then have huge: "bit ?e 7" using notbl by (simp add: is_tbl_def)
      have lk: "look (phys_mem s) 4 root (p @ [i, j]) = Some (?e, [j])" for j
        using look_pd [of "[j]"] True notbl by simp
      have al: "\<not> bit ?e n" if "12 \<le> n" "n < 21" for n
        using space_okD(4) [OF sp(1), of "p @ [i, 0]" ?e "[0]"] lk [of 0] p that by simp
      let ?g = "\<lambda>j. ((?e AND PAGE_ADDR_MASK) + ucast j * PAGE_4KB_SIZE) OR (?e AND (PAGE_PRESENT OR PAGE_WRITABLE))"
      show thesis
      proof (rule new [OF notbl, where g = ?g])
        show "(if bit (?g j) 0 then Some (page_target (?g j, [])) else None) = target (phys_mem s) root (p @ [i, j])"
          if "j < 512" for j
          using split_entry [OF True al that] lk [of j] by (simp add: target_def)
      qed (use True huge in \<open>simp_all add: get_or_split_pt_def Let_def\<close>)
    next
      case False
      show thesis
      proof (rule new [OF notbl, where g = "\<lambda>_. 0"])
        show "(if bit (0 :: u64) 0 then Some (page_target (0, [])) else None) = target (phys_mem s) root (p @ [i, j])" for j
          using look_pd [of "[j]"] False by (simp add: target_def)
      qed (use False in \<open>simp_all add: get_or_split_pt_def Let_def\<close>)
    qed
  qed
qed

section \<open>Virtual addresses\<close>

lemma bit_index: "bit (ucast (drop_bit k v AND 0x1FF) :: u32) n \<longleftrightarrow> n < 9 \<and> bit v (k + n)" for v :: u64
proof -
  have m: "(0x1FF :: u64) = mask 9" by (simp add: mask_eq_exp_minus_1)
  show ?thesis unfolding m by (auto simp: bit_simps ac_simps)
qed

lemma index_less: "(ucast (drop_bit k v AND 0x1FF) :: u32) < 512" for v :: u64
proof -
  let ?w = "ucast (drop_bit k v AND 0x1FF) :: u32"
  have "?w AND mask 9 = ?w" by (rule bit_word_eqI) (auto simp: bit_and_iff bit_index bit_mask_iff)
  then have "unat ?w = unat ?w mod 512" using unat_and_mask [of ?w 9] by simp
  then have "unat ?w < 512" by (metis mod_less_divisor zero_less_numeral)
  then show ?thesis by (simp add: word_less_nat_alt)
qed

lemma va_indices [simp]:
  "pml4_index v < 512" "pdpt_index v < 512" "pd_index v < 512" "pt_index v < 512"
  by (simp_all add: pml4_index_def pdpt_index_def pd_index_def pt_index_def index_less)

text \<open>Two addresses have the same path when their bits 12 to 47 agree: they lie in the same page.\<close>

definition same_page :: "u64 \<Rightarrow> u64 \<Rightarrow> bool" where
  "same_page v w \<longleftrightarrow> v AND 0x0000FFFFFFFFF000 = w AND 0x0000FFFFFFFFF000"

lemma same_page_bits: "same_page v w \<longleftrightarrow> (\<forall>n. 12 \<le> n \<and> n < 48 \<longrightarrow> bit v n = bit w n)"
proof -
  have m: "(0x0000FFFFFFFFF000 :: u64) = mask 48 AND NOT (mask 12)" by (simp add: mask_eq_exp_minus_1)
  have b: "bit (u AND 0x0000FFFFFFFFF000) n \<longleftrightarrow> bit u n \<and> 12 \<le> n \<and> n < 48" for u :: u64 and n
    unfolding m by (auto simp: bit_simps)
  show ?thesis
  proof
    assume "same_page v w"
    then have "bit (v AND 0x0000FFFFFFFFF000) n = bit (w AND 0x0000FFFFFFFFF000) n" for n
      by (simp add: same_page_def)
    then show "\<forall>n. 12 \<le> n \<and> n < 48 \<longrightarrow> bit v n = bit w n" unfolding b by blast
  next
    assume "\<forall>n. 12 \<le> n \<and> n < 48 \<longrightarrow> bit v n = bit w n"
    then show "same_page v w" unfolding same_page_def by (intro bit_word_eqI) (auto simp: b)
  qed
qed

lemma index_eq_iff:
  "(ucast (drop_bit k v AND 0x1FF) :: u32) = ucast (drop_bit k w AND 0x1FF) \<longleftrightarrow> (\<forall>n. k \<le> n \<and> n < k + 9 \<longrightarrow> bit v n = bit w n)"
  for v w :: u64
proof -
  have "(ucast (drop_bit k v AND 0x1FF) :: u32) = ucast (drop_bit k w AND 0x1FF) \<longleftrightarrow> (\<forall>n<9. bit v (k + n) = bit w (k + n))"
    (is "?x = ?y \<longleftrightarrow> _")
  proof
    assume "?x = ?y"
    then have "bit ?x n = bit ?y n" for n by simp
    then show "\<forall>n<9. bit v (k + n) = bit w (k + n)" unfolding bit_index by blast
  next
    assume "\<forall>n<9. bit v (k + n) = bit w (k + n)"
    then show "?x = ?y" by (intro bit_word_eqI) (auto simp: bit_index)
  qed
  also have "\<dots> \<longleftrightarrow> (\<forall>n. k \<le> n \<and> n < k + 9 \<longrightarrow> bit v n = bit w n)"
  proof
    assume h: "\<forall>n<9. bit v (k + n) = bit w (k + n)"
    show "\<forall>n. k \<le> n \<and> n < k + 9 \<longrightarrow> bit v n = bit w n"
    proof (intro allI impI)
      fix n assume n: "k \<le> n \<and> n < k + 9"
      then have "n - k < 9" by arith
      then show "bit v n = bit w n" using h [rule_format, of "n - k"] n by simp
    qed
  qed simp
  finally show ?thesis .
qed

lemma va_path_eq_iff: "va_path v = va_path w \<longleftrightarrow> same_page v w"
proof
  assume "va_path v = va_path w"
  then have eq: "\<forall>n. k \<le> n \<and> n < k + 9 \<longrightarrow> bit v n = bit w n" if "k \<in> {12, 21, 30, 39}" for k
    using that unfolding va_path_def list.inject pml4_index_def pdpt_index_def pd_index_def pt_index_def
      index_eq_iff by fast
  have "bit v n = bit w n" if "12 \<le> n" "n < 48" for n
  proof -
    consider "n < 21" | "21 \<le> n" "n < 30" | "30 \<le> n" "n < 39" | "39 \<le> n" by linarith
    then show ?thesis
      using that eq [of 12] eq [of 21] eq [of 30] eq [of 39] by cases simp_all
  qed
  then show "same_page v w" by (simp add: same_page_bits)
next
  assume "same_page v w"
  then have "\<forall>n. k \<le> n \<and> n < k + 9 \<longrightarrow> bit v n = bit w n" if "12 \<le> k" "k + 9 \<le> 48" for k
    using that unfolding same_page_bits by auto
  from this [of 12] this [of 21] this [of 30] this [of 39] show "va_path v = va_path w"
    unfolding va_path_def list.inject pml4_index_def pdpt_index_def pd_index_def pt_index_def index_eq_iff
    by simp
qed

lemma va_path_ok [simp]: "idx_ok (va_path v)" "length (va_path v) = 4"
  by (simp_all add: va_path_def)

lemma walk_cong: "target m root (va_path v) = target m' root (va_path v) \<Longrightarrow> walk m root v = walk m' root v"
  by (simp add: walk_def)

section \<open>Page table entries of an address\<close>

lemma get_or_split_pt_entry_cases:
  fixes s :: "'a vmm_state_scheme"
  assumes sp: "space_ok s root" "pmm_ok s"
  obtains (fail) s' where "get_or_split_pt_entry root v s = (s', 0)" and "grows s root s'"
      and "card (free_set s) < 3"
  | (ok) s' pdpt pd pt where "get_or_split_pt_entry root v s = (s', entry_at pt (pt_index v))"
      and "grows s root s'"
      and "tbl (phys_mem s') 4 root [pml4_index v] = Some pdpt"
      and "tbl (phys_mem s') 4 root [pml4_index v, pdpt_index v] = Some pd"
      and "tbl (phys_mem s') 4 root [pml4_index v, pdpt_index v, pd_index v] = Some pt"
      and "bit (entry (phys_mem s') root (pml4_index v)) 2" and "bit (entry (phys_mem s') pdpt (pdpt_index v)) 2"
      and "bit (entry (phys_mem s') pd (pd_index v)) 2"
proof -
  let ?i4 = "pml4_index v" and ?i3 = "pdpt_index v" and ?i2 = "pd_index v"
  have p0: "idx_ok []" "tbl (phys_mem s) 4 root [] = Some root" "?i4 < 512" "length ([] :: u32 list) < 2" by simp_all
  show thesis
  proof (cases rule: get_or_create_table_cases [OF sp p0])
    case 1
    show thesis
      by (rule fail [of s]) (simp_all add: get_or_split_pt_entry_def 1 grows_refl [OF sp])
  next
    case (2 s1 pdpt)
    note c1 = 2 and g1 = growsD [OF 2(3)]
    have p1: "idx_ok [?i4]" "tbl (phys_mem s1) 4 root [?i4] = Some pdpt" "?i3 < 512" "length [?i4] < 2"
      using c1(4) by (simp_all del: tbl.simps)
    show thesis
    proof (cases rule: get_or_create_table_cases [OF g1(1,2) p1])
      case 1
      show thesis
        by (rule fail [OF _ c1(3)]) (use c1(1,2,6) 1 in \<open>simp_all add: get_or_split_pt_entry_def\<close>)
    next
      case (2 s2 pd)
      note c2 = 2 and g2 = growsD [OF 2(3)]
      have p2: "idx_ok [?i4, ?i3]" "tbl (phys_mem s2) 4 root [?i4, ?i3] = Some pd" "?i2 < 512" "length [?i4, ?i3] = 2"
        using c2(4) by (simp_all del: tbl.simps)
      have g12: "grows s root s2" by (rule grows_trans [OF c1(3) c2(3)])
      show thesis
      proof (cases rule: get_or_split_pt_cases [OF g2(1,2) p2])
        case 1
        show thesis
          by (rule fail [OF _ g12]) (use c1(1,2,6) c2(1,2,6) 1 in \<open>simp_all add: get_or_split_pt_entry_def\<close>)
      next
        case (2 s3 pt)
        note c3 = 2 and g3 = growsD [OF 2(2)]
        have pd3: "tbl (phys_mem s3) 4 root [?i4, ?i3] = Some pd" by (rule g3(5) [OF p2(1,2)])
        have it: "is_tbl 2 (entry (phys_mem s3) pd ?i2)"
          using c3(3) pd3 tbl_append [of "phys_mem s3" 4 root "[?i4, ?i3]" "[?i2]"] by (simp del: tbl.simps(2) add: tbl.simps(2) [of _ 2] split: if_splits)
        let ?e = "entry (phys_mem s3) pd ?i2 OR PAGE_USER"
        let ?s4 = "s3\<lparr>phys_mem := set_entry pd ?i2 ?e (phys_mem s3)\<rparr>"
        have it': "is_tbl (4 - length [?i4, ?i3]) (entry (phys_mem s3) pd ?i2)" using it by simp
        note fl = grows_set_flags [OF g3(1,2) p2(1) pd3 p2(3) it' is_tbl_user [OF it'] entry_addr_or(3) bit_or_user]
        note g4 = growsD [OF fl(1)]
        have g: "grows s root ?s4" by (rule grows_trans [OF g12 grows_trans [OF c3(2) fl(1)]])
        have p1': "tbl (phys_mem s2) 4 root [?i4] = Some pdpt" by (rule g2(5) [OF p1(1,2)])
        have p1'': "tbl (phys_mem s3) 4 root [?i4] = Some pdpt" by (rule g3(5) [OF p1(1) p1'])
        have u4: "bit (entry (phys_mem s2) root ?i4) 2" "bit (entry (phys_mem s3) root ?i4) 2" "bit (entry (phys_mem ?s4) root ?i4) 2"
          using c1(5) g2(6) [of "[]" ?i4 root pdpt] g3(6) [of "[]" ?i4 root pdpt] g4(6) [of "[]" ?i4 root pdpt] p1(2) p1' p1''
          by (simp_all del: tbl.simps(2))
        have u3: "bit (entry (phys_mem s3) pdpt ?i3) 2" "bit (entry (phys_mem ?s4) pdpt ?i3) 2"
          using c2(5) g3(6) [of "[?i4]" ?i3 pdpt pd] g4(6) [of "[?i4]" ?i3 pdpt pd] p1' p1'' p2(2) pd3
          by (simp_all del: tbl.simps(2))
        show thesis
        proof (rule ok [OF _ g])
          show "get_or_split_pt_entry root v s = (?s4, entry_at pt (pt_index v))"
            using c1(1,2) c2(1,2) c3(1) by (simp add: get_or_split_pt_entry_def Let_def)
          show "tbl (phys_mem ?s4) 4 root [?i4] = Some pdpt" by (rule g4(5) [OF p1(1) p1''])
          show "tbl (phys_mem ?s4) 4 root [?i4, ?i3] = Some pd" by (rule g4(5) [OF p2(1) pd3])
          show "tbl (phys_mem ?s4) 4 root [?i4, ?i3, ?i2] = Some pt"
            using g4(5) [of "[?i4, ?i3, ?i2]" pt] c3(3) by (simp del: tbl.simps(2))
          show "bit (entry (phys_mem ?s4) pd ?i2) 2" using fl(2) by (simp add: bit_or_user)
        qed (fact u4(3) u3(2))+
      qed
    qed
  qed
qed

text \<open>Writing the page table entry of an address.\<close>

lemma set_pte:
  fixes s :: "'a vmm_state_scheme" and e :: u64
  assumes sp: "space_ok s root" "pmm_ok s"
    and pt: "tbl (phys_mem s) 4 root [pml4_index v, pdpt_index v, pd_index v] = Some pt"
  defines "m' \<equiv> set_entry pt (pt_index v) e (phys_mem s)"
  shows "space_ok (s\<lparr>phys_mem := m'\<rparr>) root" and "pmm_ok (s\<lparr>phys_mem := m'\<rparr>)"
    and "target m' root (va_path v) = (if bit e 0 then Some (page_target (e, [])) else None)"
    and "idx_ok q \<Longrightarrow> length q = 4 \<Longrightarrow> q \<noteq> va_path v \<Longrightarrow> target m' root q = target (phys_mem s) root q"
    and "idx_ok q \<Longrightarrow> tbl m' 4 root q = tbl (phys_mem s) 4 root q"
    and "idx_ok (q @ [j]) \<Longrightarrow> q @ [j] \<noteq> va_path v \<Longrightarrow> tbl (phys_mem s) 4 root q = Some u \<Longrightarrow>
      entry m' u j = entry (phys_mem s) u j"
    and "entry m' pt (pt_index v) = e"
proof -
  let ?p = "[pml4_index v, pdpt_index v, pd_index v]" and ?i = "pt_index v"
  let ?s = "s\<lparr>phys_mem := m'\<rparr>"
  have p: "idx_ok ?p" "?i < 512" by simp_all
  note keep = keeps_entries_set [OF sp(1) p(1) pt p(2) refl, of e, folded m'_def]
  have path: "?p @ [?i] = va_path v" by (simp add: va_path_def)
  have tb: "tbl m' 4 root q = tbl (phys_mem s) 4 root q" if "idx_ok q" for q
  proof (cases "prefix (va_path v) q")
    case True
    then have "4 \<le> length q" using prefix_length_le va_path_ok(2) by metis
    then have "\<not> length q < 4 \<and> q \<noteq> []" by auto
    then show ?thesis using tbl_length [of _ 4 root q] by (metis not_Some_eq)
  next
    case False
    then show ?thesis using paths_kept(1) [OF keep(1) that] path by simp
  qed
  have pt': "tbl m' 4 root ?p = Some pt" using tb [OF p(1)] pt by simp
  have lk: "look m' 4 root (va_path v) = (if bit e 0 then Some (e, []) else None)"
    using look_append [OF pt', of "[?i]"] keep(2) unfolding path by (simp add: is_tbl_def)
  have other: "look m' 4 root q = look (phys_mem s) 4 root q" if "idx_ok q" "length q = 4" "q \<noteq> va_path v" for q
  proof -
    have "\<not> prefix (va_path v) q"
      using that by (auto simp: prefix_def va_path_def length_Suc_conv)
    then show ?thesis using paths_kept(2) [OF keep(1) that(1)] path by simp
  qed
  show "target m' root (va_path v) = (if bit e 0 then Some (page_target (e, [])) else None)"
    by (simp add: target_def lk)
  show "target m' root q = target (phys_mem s) root q" if "idx_ok q" "length q = 4" "q \<noteq> va_path v"
    using other [OF that] by (simp add: target_def)
  show "tbl m' 4 root q = tbl (phys_mem s) 4 root q" if "idx_ok q" by (rule tb [OF that])
  show "entry m' u j = entry (phys_mem s) u j"
    if "idx_ok (q @ [j])" "q @ [j] \<noteq> va_path v" "tbl (phys_mem s) 4 root q = Some u"
  proof -
    have "(q, j) \<noteq> (?p, ?i)" using that(2) path by auto
    then show ?thesis by (rule keeps_entriesD [OF keep(1) that(1,3)])
  qed
  show "entry m' pt ?i = e" by (rule keep(2))
  show "pmm_ok ?s" using sp(2) pmm_ok_cong [of ?s s] by simp
  show "space_ok ?s root"
    unfolding space_ok_def
  proof (intro conjI allI impI)
    show "page_addr root" by (rule space_okD(1) [OF sp(1)])
    fix q q' t
    show "t \<noteq> 0" "frame_of t \<notin> free_set ?s" if "idx_ok q \<and> tbl (phys_mem ?s) 4 root q = Some t"
      using that tb [of q] space_okD(2) [OF sp(1), of q t] by simp_all
    show "q = q'" if "idx_ok q \<and> idx_ok q' \<and> tbl (phys_mem ?s) 4 root q = Some t \<and> tbl (phys_mem ?s) 4 root q' = Some t"
    proof -
      have "tbl (phys_mem s) 4 root q = Some t" "tbl (phys_mem s) 4 root q' = Some t"
        using that tb [of q] tb [of q'] by simp_all
      then show ?thesis using space_okD(3) [OF sp(1), of q q' t] that by blast
    qed
  next
    fix q e' r' n
    show "\<not> bit e' n"
      if "idx_ok q \<and> length q = 4 \<and> look (phys_mem ?s) 4 root q = Some (e', r') \<and> r' \<noteq> []" "12 \<le> n \<and> n < 21"
      using that lk other [of q] space_okD(4) [OF sp(1), of q e' r' n] by (cases "q = va_path v") (auto split: if_splits)
  qed
qed

lemma pte_nonnull:
  assumes "space_ok s root" and "idx_ok p" and "tbl (phys_mem s) 4 root p = Some t" and "i < 512"
  shows "entry_at t i \<noteq> 0"
proof -
  have t: "page_addr t" "t \<noteq> 0" using space_okD(2) [OF assms(1-3)] by auto
  then have "unat (entry_at t i) \<noteq> 0" using unat_entry_at(1) [OF t(1) assms(4)] by (simp add: unat_eq_zero)
  then show ?thesis by auto
qed

lemma page_addr_space_pml4 [simp]: "page_addr (space_pml4 sp)"
  by (simp add: space_pml4_def)

text \<open>The walks of the code, in terms of the tree.\<close>

lemma get_pd_entry_tbl:
  "get_pd_entry m root v =
     (case tbl m 4 root [pml4_index v, pdpt_index v] of None \<Rightarrow> 0 | Some pd \<Rightarrow> entry_at pd (pd_index v))"
  by (simp add: get_pd_entry_def is_tbl_def Let_def)

lemma target_cases:
  "target m root (va_path v) =
     (case tbl m 4 root [pml4_index v, pdpt_index v] of
        None \<Rightarrow> None
      | Some pd \<Rightarrow>
          let e = entry m pd (pd_index v) in
          if \<not> bit e 0 then None
          else if bit e 7 then Some (page_target (e, [pt_index v]))
          else let l1 = entry m (e AND PAGE_ADDR_MASK) (pt_index v) in
            if bit l1 0 then Some (page_target (l1, [])) else None)"
  by (simp add: target_def va_path_def is_tbl_def Let_def)

lemma user_accessible_tbl:
  "vmm_is_user_accessible_in sp v m \<longleftrightarrow>
     (\<exists>pdpt pd. tbl m 4 (space_pml4 sp) [pml4_index v] = Some pdpt \<and> bit (entry m (space_pml4 sp) (pml4_index v)) 2 \<and>
        tbl m 4 (space_pml4 sp) [pml4_index v, pdpt_index v] = Some pd \<and> bit (entry m pdpt (pdpt_index v)) 2 \<and>
        (let l2 = entry m pd (pd_index v) in bit l2 0 \<and> bit l2 2 \<and>
          (bit l2 7 \<or> (let l1 = entry m (l2 AND PAGE_ADDR_MASK) (pt_index v) in bit l1 0 \<and> bit l1 2))))"
  by (auto simp: vmm_is_user_accessible_in_def is_tbl_def Let_def)

definition pte_value :: "u64 \<Rightarrow> u64 \<Rightarrow> u64" where
  "pte_value phys flags = (phys AND PAGE_ADDR_MASK) OR (flags AND 0xFFF) OR PAGE_PRESENT"

lemma pte_value:
  "bit (pte_value phys flags) 0" "bit (pte_value phys flags) 1 = bit flags 1"
  "bit (pte_value phys flags) 2 = bit flags 2" "pte_value phys flags AND PAGE_ADDR_MASK = phys AND PAGE_ADDR_MASK"
proof -
  have m: "(0xFFF :: u64) = mask 12" by (simp add: mask_eq_exp_minus_1)
  have b: "bit (pte_value phys flags) n \<longleftrightarrow> bit phys n \<and> 12 \<le> n \<and> n < 52 \<or> bit flags n \<and> n < 12 \<or> n = 0" for n
    unfolding pte_value_def m by (auto simp: entry_bits bit_mask_iff dest: bit_imp_le_length)
  show "bit (pte_value phys flags) 0" "bit (pte_value phys flags) 1 = bit flags 1"
    "bit (pte_value phys flags) 2 = bit flags 2" by (simp_all add: b)
  show "pte_value phys flags AND PAGE_ADDR_MASK = phys AND PAGE_ADDR_MASK"
    by (rule bit_word_eqI) (auto simp: bit_and_iff b bit_PAGE_ADDR_MASK)
qed

lemma walk_grows: "grows s root t \<Longrightarrow> walk (phys_mem t) root v = walk (phys_mem s) root v"
  using growsD(4) va_path_ok by (intro walk_cong) blast

section \<open>Properties\<close>

text \<open>
  C2: Mapping a page in a well-formed address space keeps it well formed. It fails only with fewer
  than three free frames, and then no translation changes (tables may have been added, a huge page split). On
  success the address translates to the given physical page with the given writable flag, it is
  user accessible exactly when the user flag was given, and every address of another page translates
  as before, also where the page lay in a 2 MiB page that had to be split.
\<close>

theorem vmm_map_page_in_correct:
  assumes "space_ok s (space_pml4 sp)" and "pmm_ok s"
    and "vmm_map_page_in sp v phys flags s = (t, rc)"
  shows "space_ok t (space_pml4 sp) \<and> pmm_ok t \<and>
     (rc = -1 \<and> card (free_set s) < 3 \<and> (\<forall>w. walk (phys_mem t) (space_pml4 sp) w = walk (phys_mem s) (space_pml4 sp) w) \<or>
      rc = 0 \<and> walk (phys_mem t) (space_pml4 sp) v = Some ((phys AND PAGE_ADDR_MASK) + (v AND 0xFFF), bit flags 1) \<and>
        vmm_is_user_accessible_in sp v (phys_mem t) = bit flags 2 \<and>
        (\<forall>w. \<not> same_page w v \<longrightarrow> walk (phys_mem t) (space_pml4 sp) w = walk (phys_mem s) (space_pml4 sp) w))"
proof (cases rule: get_or_split_pt_entry_cases [OF assms(1,2), of v])
  case (1 s')
  then have "t = s'" "rc = -1" using assms(3) by (simp_all add: vmm_map_page_in_def)
  then show ?thesis using growsD(1,2) [OF 1(2)] walk_grows [OF 1(2)] 1(3) by blast
next
  case (2 s' pdpt pd pt)
  let ?root = "space_pml4 sp" and ?e = "pte_value phys flags"
  note g = growsD [OF 2(2)]
  have "entry_at pt (pt_index v) \<noteq> 0" by (rule pte_nonnull [OF g(1) _ 2(5)]) simp_all
  then have t: "t = s'\<lparr>phys_mem := set_entry pt (pt_index v) ?e (phys_mem s')\<rparr>" and rc: "rc = 0"
    using assms(3) 2(1) by (simp_all add: vmm_map_page_in_def set_entry_def pte_value_def)
  note w = set_pte [OF g(1,2) 2(5), where e = ?e, folded t]
  let ?m = "set_entry pt (pt_index v) ?e (phys_mem s')"
  have m: "phys_mem t = ?m" by (simp add: t)
  have here: "walk (phys_mem t) ?root v = Some ((phys AND PAGE_ADDR_MASK) + (v AND 0xFFF), bit flags 1)"
    unfolding walk_def m w(3) by (simp add: pte_value pte_value(2) [simplified] page_target_def)
  have others: "walk (phys_mem t) ?root x = walk (phys_mem s) ?root x" if "\<not> same_page x v" for x
  proof -
    have "target ?m ?root (va_path x) = target (phys_mem s') ?root (va_path x)"
      using w(4) [of "va_path x"] that va_path_eq_iff by simp
    also have "\<dots> = target (phys_mem s) ?root (va_path x)" by (rule g(4)) simp_all
    finally show ?thesis unfolding m by (rule walk_cong)
  qed
  have l3: "tbl ?m 4 ?root [pml4_index v, pdpt_index v, pd_index v] = Some pt"
    and l2: "tbl ?m 4 ?root [pml4_index v, pdpt_index v] = Some pd"
    and l1: "tbl ?m 4 ?root [pml4_index v] = Some pdpt"
    using w(5) 2(3-5) by (simp_all del: tbl.simps)
  have e4: "bit (entry ?m ?root (pml4_index v)) 2"
    using w(6) [of "[]" "pml4_index v" ?root] 2(6) by (simp add: va_path_def)
  have e3: "bit (entry ?m pdpt (pdpt_index v)) 2"
    using w(6) [OF _ _ 2(3), of "pdpt_index v"] 2(7) by (simp add: va_path_def)
  have e2: "bit (entry ?m pd (pd_index v)) 2"
    using w(6) [OF _ _ 2(4), of "pd_index v"] 2(8) by (simp add: va_path_def)
  have it: "is_tbl 2 (entry ?m pd (pd_index v))" "entry ?m pd (pd_index v) AND PAGE_ADDR_MASK = pt"
    using l3 tbl_append [of ?m 4 ?root "[pml4_index v, pdpt_index v]" "[pd_index v]"] l2
    by (simp_all del: tbl.simps(2) add: tbl.simps(2) [of _ 2] split: if_splits)
  have "vmm_is_user_accessible_in sp v ?m = bit flags 2"
    unfolding user_accessible_tbl using l1 l2 e4 e3 e2 it w(7)
    by (simp add: Let_def is_tbl_def pte_value del: tbl.simps)
  then show ?thesis using here others rc w(1,2) m by simp
qed

text \<open>A space with an empty PML4 in frame 16 and frames 17, 18 and 20 free.\<close>

definition vmm_example :: vmm_state where
  "vmm_example = set_free 20 (set_free 18 (set_free 17
     \<lparr>phys_mem = \<lambda>_. 0, bitmap = \<lambda>_. 0xFF, total_frames = 3, free_frames = 0, search_hint = 16, heap_head = 0,
      kernel_pml4 = 0x10000, cr3 = 0x10000\<rparr>))"

lemma vmm_example_fields:
  "bitmap vmm_example = bitmap pmm_example" "free_frames vmm_example = free_frames pmm_example"
  "phys_mem vmm_example = (\<lambda>_. 0)" "kernel_pml4 vmm_example = 0x10000"
  unfolding vmm_example_def pmm_example_def by (intro set_free_cong; simp)+ simp_all

lemma vmm_example_free: "free_set vmm_example = {17, 18, 20}"
  using free_set_cong [OF vmm_example_fields(1)] by simp

lemma vmm_example_pmm_ok: "pmm_ok vmm_example"
  using pmm_ok_cong [OF vmm_example_fields(1,2)] by simp

lemma vmm_example_space_ok: "space_ok vmm_example 0x10000"
proof -
  have zero: "entry (\<lambda>_. 0) t i = 0" for t i by (simp add: entry_def rd64_def)
  have tb: "tbl (\<lambda>_. 0) 4 r p = (if p = [] then Some r else None)" for r p
    by (cases p) (simp_all add: zero is_tbl_def)
  have lk: "look (\<lambda>_. 0) 4 r p = None" for r p by (cases p) (simp_all add: zero)
  have "frame_of 0x10000 = 16" by (simp add: frame_of_def PMM_FRAME_SIZE_def)
  moreover have "page_addr 0x10000" by (simp add: page_addr_def PAGE_ADDR_MASK_def)
  ultimately show ?thesis
    unfolding space_ok_def vmm_example_fields tb lk vmm_example_free by auto
qed

lemma vmm_example_pml4: "space_pml4 0x10000 = 0x10000"
  by (simp add: space_pml4_def PAGE_ADDR_MASK_def)

theorem vmm_map_page_in_correct_witness:
  "\<exists>t. vmm_map_page_in 0x10000 0x8000000123 0x14000 (VMM_WRITABLE OR VMM_USER) vmm_example = (t, 0) \<and>
     walk (phys_mem t) 0x10000 0x8000000123 = Some (0x14123, True)"
proof -
  obtain t rc where r: "vmm_map_page_in 0x10000 0x8000000123 0x14000 (VMM_WRITABLE OR VMM_USER) vmm_example = (t, rc)"
    by (cases "vmm_map_page_in 0x10000 0x8000000123 0x14000 (VMM_WRITABLE OR VMM_USER) vmm_example")
  have ok: "space_ok vmm_example (space_pml4 0x10000)"
    using vmm_example_space_ok vmm_example_pml4 by simp
  have "card (free_set vmm_example) = 3" by (simp add: vmm_example_free)
  then have "rc = 0 \<and> walk (phys_mem t) 0x10000 0x8000000123 =
      Some ((0x14000 AND PAGE_ADDR_MASK) + (0x8000000123 AND 0xFFF), bit (VMM_WRITABLE OR VMM_USER) 1)"
    using vmm_map_page_in_correct [OF ok vmm_example_pmm_ok r] vmm_example_pml4 by auto
  moreover have "(0x14000 AND PAGE_ADDR_MASK) + (0x8000000123 AND 0xFFF) = 0x14123" "bit (VMM_WRITABLE OR VMM_USER) 1"
    by (simp_all add: PAGE_ADDR_MASK_def page_bits bit_or_iff)
  ultimately show ?thesis using r by auto
qed

text \<open>
  \<open>vmm_is_mapped_in\<close> answers exactly whether the address has a translation, through a 4 KiB page
  or a 2 MiB page.
\<close>

theorem vmm_is_mapped_in_correct:
  assumes "space_ok s (space_pml4 sp)"
  shows "vmm_is_mapped_in sp v (phys_mem s) \<longleftrightarrow> walk (phys_mem s) (space_pml4 sp) v \<noteq> None"
proof -
  let ?m = "phys_mem s" and ?root = "space_pml4 sp" and ?q = "[pml4_index v, pdpt_index v]"
  have "entry_at pd (pd_index v) \<noteq> 0" if "tbl ?m 4 ?root ?q = Some pd" for pd
    by (rule pte_nonnull [OF assms _ that]) simp_all
  then show ?thesis
    by (cases "tbl ?m 4 ?root ?q")
      (auto simp: vmm_is_mapped_in_def get_pd_entry_tbl walk_def target_cases Let_def entry_def simp del: tbl.simps)
qed

theorem vmm_is_mapped_in_correct_witness:
  "\<not> vmm_is_mapped_in 0x10000 0x1000 (phys_mem vmm_example) \<and> walk (phys_mem vmm_example) 0x10000 0x1000 = None"
proof -
  have "walk (phys_mem vmm_example) 0x10000 0x1000 = None"
    by (simp add: walk_def target_def va_path_def vmm_example_fields entry_def rd64_def)
  then show ?thesis
    using vmm_is_mapped_in_correct [of vmm_example "0x10000" "0x1000"] vmm_example_space_ok
    by (simp add: vmm_example_pml4)
qed

text \<open>
  Unmapping a page of a well-formed address space keeps it well formed. On success the address
  has no translation any more, and every address of another page translates as before, also when a
  2 MiB page had to be split for it. Failure changes no translation.
\<close>

theorem vmm_unmap_page_in_correct:
  assumes "space_ok s (space_pml4 sp)" and "pmm_ok s" and "vmm_unmap_page_in sp v s = (t, rc)"
  shows "space_ok t (space_pml4 sp) \<and> pmm_ok t \<and>
     (rc = -1 \<and> (\<forall>w. walk (phys_mem t) (space_pml4 sp) w = walk (phys_mem s) (space_pml4 sp) w) \<or>
      rc = 0 \<and> walk (phys_mem t) (space_pml4 sp) v = None \<and>
        (\<forall>w. \<not> same_page w v \<longrightarrow> walk (phys_mem t) (space_pml4 sp) w = walk (phys_mem s) (space_pml4 sp) w))"
proof -
  let ?root = "space_pml4 sp" and ?q = "[pml4_index v, pdpt_index v]" and ?m = "phys_mem s"
  have nn: "entry_at pd (pd_index v) \<noteq> 0" if "tbl ?m 4 ?root ?q = Some pd" for pd
    by (rule pte_nonnull [OF assms(1) _ that]) simp_all
  let ?absent = "get_pd_entry ?m ?root v = 0 \<or> rd64 ?m (get_pd_entry ?m ?root v) AND PAGE_PRESENT = 0"
  show ?thesis
  proof (cases ?absent)
    case True
    then have "t = s" "rc = 0" using assms(3) by (simp_all add: vmm_unmap_page_in_def)
    moreover have "walk ?m ?root v = None"
      using True nn by (cases "tbl ?m 4 ?root ?q")
        (auto simp: get_pd_entry_tbl walk_def target_cases Let_def entry_def simp del: tbl.simps)
    ultimately show ?thesis using assms(1,2) by blast
  next
    case False
    then have un: "vmm_unmap_page_in sp v s = (let (s, pte) = get_or_split_pt_entry ?root v s in
        if pte = 0 then (s, -1) else (s\<lparr>phys_mem := wr64 pte 0 (phys_mem s)\<rparr>, 0))"
      by (simp only: vmm_unmap_page_in_def Let_def if_False)
    show ?thesis
    proof (cases rule: get_or_split_pt_entry_cases [OF assms(1,2), of v])
      case (1 s')
      then have "t = s'" "rc = -1" using assms(3) un by simp_all
      then show ?thesis using growsD(1,2) [OF 1(2)] walk_grows [OF 1(2)] by blast
    next
      case (2 s' pdpt pd pt)
      note g = growsD [OF 2(2)]
      have "entry_at pt (pt_index v) \<noteq> 0" by (rule pte_nonnull [OF g(1) _ 2(5)]) simp_all
      then have t: "t = s'\<lparr>phys_mem := set_entry pt (pt_index v) 0 (phys_mem s')\<rparr>" and rc: "rc = 0"
        using assms(3) 2(1) un by (simp_all add: set_entry_def)
      note w = set_pte [OF g(1,2) 2(5), where e = 0, folded t]
      have m: "phys_mem t = set_entry pt (pt_index v) 0 (phys_mem s')" by (simp add: t)
      have here: "walk (phys_mem t) ?root v = None" unfolding walk_def m w(3) by simp
      have others: "walk (phys_mem t) ?root x = walk ?m ?root x" if "\<not> same_page x v" for x
      proof -
        have "target (phys_mem t) ?root (va_path x) = target (phys_mem s') ?root (va_path x)"
          unfolding m using w(4) [of "va_path x"] that va_path_eq_iff by simp
        also have "\<dots> = target ?m ?root (va_path x)" by (rule g(4)) simp_all
        finally show ?thesis by (rule walk_cong)
      qed
      show ?thesis using here others rc w(1,2) by blast
    qed
  qed
qed

theorem vmm_unmap_page_in_correct_witness:
  "\<exists>t rc. vmm_unmap_page_in 0x10000 0x1000 vmm_example = (t, rc) \<and> space_ok t 0x10000 \<and> pmm_ok t"
  using vmm_unmap_page_in_correct [of vmm_example "0x10000" "0x1000"] vmm_example_space_ok vmm_example_pmm_ok
  by (cases "vmm_unmap_page_in 0x10000 0x1000 vmm_example") (simp add: vmm_example_pml4)

end
