(* ===== verification/Address_Space.thy ===== *)
theory Address_Space
  imports Vmm
begin

text \<open>
  Creation and destruction of address spaces (\<open>vmm_create_address_space\<close> and
  \<open>vmm_destroy_address_space\<close> of \<open>kernel/mm/vmm.c\<close>), and the growable user stacks of
  \<open>kernel/mm/vmm_growable_stack.c\<close> with the page-fault handler. A stack region is a node that
  \<open>kmalloc\<close> provides; the linked list of nodes is a list of records that carry their pointer.
\<close>

section \<open>Growable stacks\<close>

record stack_region =
  region_ptr :: u64
  region_space :: u64
  stack_top :: u64
  stack_limit :: u64

record stack_state = vmm_state +
  stack_regions :: "stack_region list"

text \<open>\<open>sizeof(stack_region_t)\<close>: four 8-byte fields.\<close>

definition STACK_REGION_SIZE :: u64 where "STACK_REGION_SIZE = 32"

definition vmm_register_growable_stack ::
  "u64 \<Rightarrow> u64 \<Rightarrow> u64 \<Rightarrow> 'a stack_state_scheme \<Rightarrow> 'a stack_state_scheme option" where
  "vmm_register_growable_stack sp stop max_size s = do {
     (s, region) \<leftarrow> kmalloc STACK_REGION_SIZE s;
     if region = 0 then Some s
     else Some (s\<lparr>stack_regions :=
       \<lparr>region_ptr = region, region_space = sp, stack_top = stop, stack_limit = stop - max_size\<rparr> # stack_regions s\<rparr>)
   }"

text \<open>The loop over the links: the first region of the space is taken out of the list and freed.\<close>

fun unlink_region :: "u64 \<Rightarrow> stack_region list \<Rightarrow> stack_region list \<times> u64 option" where
  "unlink_region sp [] = ([], None)"
| "unlink_region sp (r # rs) =
     (if region_space r = sp then (rs, Some (region_ptr r))
      else let (rs', dead) = unlink_region sp rs in (r # rs', dead))"

definition vmm_unregister_growable_stack :: "u64 \<Rightarrow> 'a stack_state_scheme \<Rightarrow> 'a stack_state_scheme option" where
  "vmm_unregister_growable_stack sp s =
     (case unlink_region sp (stack_regions s) of
        (_, None) \<Rightarrow> Some s
      | (rs, Some dead) \<Rightarrow> kfree dead (s\<lparr>stack_regions := rs\<rparr>))"

definition find_region :: "u64 \<Rightarrow> u64 \<Rightarrow> stack_region list \<Rightarrow> stack_region option" where
  "find_region sp page rs =
     find (\<lambda>r. \<not> region_space r \<noteq> sp \<and> \<not> (page < stack_limit r \<or> page \<ge> stack_top r)) rs"

text \<open>The result says whether the fault was handled.\<close>

definition vmm_handle_page_fault :: "u64 \<Rightarrow> 'a stack_state_scheme \<Rightarrow> 'a stack_state_scheme \<times> bool" where
  "vmm_handle_page_fault fault_addr s =
     (let sp = vmm_current_address_space s; page = fault_addr AND NOT (PAGE_4KB_SIZE - 1) in
      case find_region sp page (stack_regions s) of
        None \<Rightarrow> (s, False)
      | Some region \<Rightarrow>
          if vmm_is_mapped_in sp page (phys_mem s) then (s, False)
          else let (s, frame) = pmm_alloc_zeroed_frame s in
            if frame = 0 then (s, False)
            else let (s, rc) = vmm_map_page_in sp page frame (VMM_WRITABLE OR VMM_USER) s in
              if rc \<noteq> 0 then (pmm_free_frame frame s, False)
              else (s, True))"

section \<open>Freeing frames\<close>

text \<open>\<open>freed s F t\<close>: from \<open>s\<close> to \<open>t\<close> exactly the frames of \<open>F\<close> were given back to the frame allocator.\<close>

definition freed :: "'a vmm_state_scheme \<Rightarrow> u64 set \<Rightarrow> 'a vmm_state_scheme \<Rightarrow> bool" where
  "freed s F t \<longleftrightarrow> pmm_frame s t \<and> free_set t = free_set s \<union> {f \<in> F. f < PMM_MAX_FRAMES} \<and>
     (pmm_inv s \<longrightarrow> pmm_inv t)"

lemma freed_refl: "freed s {} s"
  by (simp add: freed_def)

lemma freed_trans: "freed s F t \<Longrightarrow> freed t G u \<Longrightarrow> freed s (F \<union> G) u"
  unfolding freed_def by (auto intro: pmm_frame_trans)

lemma freed_free_frame: "freed s {frame_of a} (pmm_free_frame a s)"
  by (auto simp: freed_def pmm_frame_free_frame) (auto simp: pmm_free_frame_def inv_intros split: if_splits)

lemma freed_fields:
  assumes "freed s F t"
  shows "phys_mem t = phys_mem s" and "kernel_pml4 t = kernel_pml4 s"
proof -
  have f: "pmm_frame s t" using assms by (simp add: freed_def)
  show "phys_mem t = phys_mem s" by (rule pmm_frame_phys_mem [OF f])
  show "kernel_pml4 t = kernel_pml4 s" by (rule pmm_frame_field [OF f]) (simp add: pmm_clear_def)
qed

lemma freed_loop:
  assumes "\<And>j t. j < n \<Longrightarrow> phys_mem t = phys_mem s \<Longrightarrow> kernel_pml4 t = kernel_pml4 s \<Longrightarrow> freed t (F j) (body j t)"
  shows "freed s (\<Union>j\<in>{..<n}. F j) (for_w 0 n body s)"
proof (rule for_w_invariant [where P = "\<lambda>k t. freed s (\<Union>j\<in>{..<k}. F j) t"])
  fix k t
  assume k: "k < n" and IH: "freed s (\<Union>j\<in>{..<k}. F j) t"
  have "freed t (F k) (body k t)" using assms [OF k] freed_fields [OF IH] by blast
  then have "freed s ((\<Union>j\<in>{..<k}. F j) \<union> F k) (body k t)" by (rule freed_trans [OF IH])
  moreover have "{..<k + 1} = insert k {..<k}" using less_plus_one_iff [OF k] by auto
  ultimately show "freed s (\<Union>j\<in>{..<k + 1}. F j) (body k t)" by (simp add: Un_commute)
qed (auto simp: freed_refl lessThan_def)

section \<open>What the destruction loops free\<close>

definition pt_frames :: "memory \<Rightarrow> u64 \<Rightarrow> u64 set" where
  "pt_frames m pt = insert (frame_of pt)
     {frame_of (entry m pt j AND PAGE_ADDR_MASK) | j. j < 512 \<and> bit (entry m pt j) 0 \<and> bit (entry m pt j) 2}"

definition pd_frames :: "memory \<Rightarrow> u64 \<Rightarrow> u64 set" where
  "pd_frames m pd = insert (frame_of pd)
     (\<Union>j\<in>{j. j < 512 \<and> is_tbl 2 (entry m pd j)}. pt_frames m (entry m pd j AND PAGE_ADDR_MASK))"

definition pdpt_frames :: "memory \<Rightarrow> u64 \<Rightarrow> u64 set" where
  "pdpt_frames m pdpt = insert (frame_of pdpt)
     (\<Union>j\<in>{j. j < 512 \<and> is_tbl 3 (entry m pdpt j)}. pd_frames m (entry m pdpt j AND PAGE_ADDR_MASK))"

lemma user_leaf_test:
  "pte AND (PAGE_PRESENT OR PAGE_USER) = PAGE_PRESENT OR PAGE_USER \<longleftrightarrow> bit pte 0 \<and> bit pte 2"
proof -
  have b: "bit (PAGE_PRESENT OR PAGE_USER) n \<longleftrightarrow> n = 0 \<or> n = 2" for n by (auto simp: entry_bits)
  show ?thesis
  proof
    assume "pte AND (PAGE_PRESENT OR PAGE_USER) = PAGE_PRESENT OR PAGE_USER"
    then have "bit (pte AND (PAGE_PRESENT OR PAGE_USER)) n = bit (PAGE_PRESENT OR PAGE_USER) n" for n by simp
    from this [of 0] this [of 2] show "bit pte 0 \<and> bit pte 2" by (simp add: bit_and_iff b)
  next
    assume "bit pte 0 \<and> bit pte 2"
    then show "pte AND (PAGE_PRESENT OR PAGE_USER) = PAGE_PRESENT OR PAGE_USER"
      by (intro bit_word_eqI) (auto simp: bit_and_iff b)
  qed
qed

lemma freed_if: "(c \<Longrightarrow> freed s F t) \<Longrightarrow> freed s (if c then F else {}) (if c then t else s)"
  by (simp add: freed_refl)

lemma destroy_pt_freed: "freed s (pt_frames (phys_mem s) pt) (destroy_pt pt s)"
proof -
  let ?m = "phys_mem s"
  let ?c = "\<lambda>j. bit (entry ?m pt j) 0 \<and> bit (entry ?m pt j) 2"
  let ?F = "\<lambda>j. if ?c j then {frame_of (entry ?m pt j AND PAGE_ADDR_MASK)} else {}"
  let ?t = "for_w 0 ENTRIES_PER_TABLE (\<lambda>l1i s. let pte = entry (phys_mem s) pt l1i in
               if pte AND (PAGE_PRESENT OR PAGE_USER) = PAGE_PRESENT OR PAGE_USER
               then pmm_free_frame (pte AND PAGE_ADDR_MASK) s else s) s"
  have "freed s (\<Union>j\<in>{..<ENTRIES_PER_TABLE}. ?F j) ?t"
    by (rule freed_loop) (simp add: user_leaf_test freed_free_frame freed_refl Let_def)
  then have "freed s ((\<Union>j\<in>{..<ENTRIES_PER_TABLE}. ?F j) \<union> {frame_of pt}) (destroy_pt pt s)"
    unfolding destroy_pt_def Let_def by (rule freed_trans [OF _ freed_free_frame])
  moreover have "(\<Union>j\<in>{..<ENTRIES_PER_TABLE}. ?F j) \<union> {frame_of pt} = pt_frames ?m pt"
    by (auto simp: pt_frames_def ENTRIES_PER_TABLE_def split: if_splits)
  ultimately show ?thesis by simp
qed

lemma destroy_pd_freed:
  fixes s :: "'a vmm_state_scheme"
  shows "freed s (pd_frames (phys_mem s) pd) (destroy_pd pd s)"
proof -
  let ?m = "phys_mem s"
  let ?F = "\<lambda>j. if is_tbl 2 (entry ?m pd j) then pt_frames ?m (entry ?m pd j AND PAGE_ADDR_MASK) else {}"
  let ?t = "for_w 0 ENTRIES_PER_TABLE (\<lambda>l2i s. let l2 = entry (phys_mem s) pd l2i in
               if l2 AND PAGE_PRESENT = 0 then s
               else if l2 AND PAGE_SIZE_2MB \<noteq> 0 then s
               else destroy_pt (l2 AND PAGE_ADDR_MASK) s) s"
  have "freed s (\<Union>j\<in>{..<ENTRIES_PER_TABLE}. ?F j) ?t"
  proof (rule freed_loop)
    fix j and t :: "'a vmm_state_scheme"
    assume m: "phys_mem t = ?m"
    show "freed t (?F j) (let l2 = entry (phys_mem t) pd j in
               if l2 AND PAGE_PRESENT = 0 then t
               else if l2 AND PAGE_SIZE_2MB \<noteq> 0 then t
               else destroy_pt (l2 AND PAGE_ADDR_MASK) t)"
      using destroy_pt_freed [of t "entry ?m pd j AND PAGE_ADDR_MASK"] m
      by (simp add: is_tbl_def Let_def freed_refl)
  qed
  then have "freed s ((\<Union>j\<in>{..<ENTRIES_PER_TABLE}. ?F j) \<union> {frame_of pd}) (destroy_pd pd s)"
    unfolding destroy_pd_def Let_def by (rule freed_trans [OF _ freed_free_frame])
  moreover have "(\<Union>j\<in>{..<ENTRIES_PER_TABLE}. ?F j) \<union> {frame_of pd} = pd_frames ?m pd"
    by (auto simp: pd_frames_def ENTRIES_PER_TABLE_def split: if_splits)
  ultimately show ?thesis by simp
qed

lemma destroy_pdpt_freed:
  fixes s :: "'a vmm_state_scheme"
  shows "freed s (pdpt_frames (phys_mem s) pdpt) (destroy_pdpt pdpt s)"
proof -
  let ?m = "phys_mem s"
  let ?F = "\<lambda>j. if is_tbl 3 (entry ?m pdpt j) then pd_frames ?m (entry ?m pdpt j AND PAGE_ADDR_MASK) else {}"
  let ?t = "for_w 0 ENTRIES_PER_TABLE (\<lambda>l3i s. let l3 = entry (phys_mem s) pdpt l3i in
               if l3 AND PAGE_PRESENT = 0 then s
               else destroy_pd (l3 AND PAGE_ADDR_MASK) s) s"
  have "freed s (\<Union>j\<in>{..<ENTRIES_PER_TABLE}. ?F j) ?t"
  proof (rule freed_loop)
    fix j and t :: "'a vmm_state_scheme"
    assume m: "phys_mem t = ?m"
    show "freed t (?F j) (let l3 = entry (phys_mem t) pdpt j in
               if l3 AND PAGE_PRESENT = 0 then t else destroy_pd (l3 AND PAGE_ADDR_MASK) t)"
      using destroy_pd_freed [of t "entry ?m pdpt j AND PAGE_ADDR_MASK"] m
      by (simp add: is_tbl_def Let_def freed_refl)
  qed
  then have "freed s ((\<Union>j\<in>{..<ENTRIES_PER_TABLE}. ?F j) \<union> {frame_of pdpt}) (destroy_pdpt pdpt s)"
    unfolding destroy_pdpt_def Let_def by (rule freed_trans [OF _ freed_free_frame])
  moreover have "(\<Union>j\<in>{..<ENTRIES_PER_TABLE}. ?F j) \<union> {frame_of pdpt} = pdpt_frames ?m pdpt"
    by (auto simp: pdpt_frames_def ENTRIES_PER_TABLE_def split: if_splits)
  ultimately show ?thesis by simp
qed

text \<open>The top-level entries a space has of its own: present and different from the kernel's entry.\<close>

definition private_slot :: "memory \<Rightarrow> u64 \<Rightarrow> u64 \<Rightarrow> u32 \<Rightarrow> bool" where
  "private_slot m kroot root i \<longleftrightarrow> i < 512 \<and> bit (entry m root i) 0 \<and> entry m root i \<noteq> entry m kroot i"

definition private_frames :: "memory \<Rightarrow> u64 \<Rightarrow> u64 \<Rightarrow> u64 set" where
  "private_frames m kroot root =
     (\<Union>i\<in>{i. private_slot m kroot root i}. pdpt_frames m (entry m root i AND PAGE_ADDR_MASK))"

lemma vmm_destroy_freed:
  fixes s :: "'a vmm_state_scheme"
  assumes "sp \<noteq> 0" and "sp \<noteq> kernel_pml4 s"
  shows "freed s (insert (frame_of sp) (private_frames (phys_mem s) (kernel_pml4 s) (space_pml4 sp)))
     (vmm_destroy_address_space sp s)"
proof -
  let ?m = "phys_mem s" and ?k = "kernel_pml4 s" and ?root = "space_pml4 sp"
  let ?F = "\<lambda>j. if bit (entry ?m ?root j) 0 \<and> entry ?m ?root j \<noteq> entry ?m ?k j
     then pdpt_frames ?m (entry ?m ?root j AND PAGE_ADDR_MASK) else {}"
  let ?body = "\<lambda>l4i s. let l4 = entry (phys_mem s) ?root l4i in
      if l4 AND PAGE_PRESENT = 0 \<or> l4 = entry (phys_mem s) (kernel_pml4 s) l4i then s
      else destroy_pdpt (l4 AND PAGE_ADDR_MASK) s"
  have "freed s (\<Union>j\<in>{..<ENTRIES_PER_TABLE}. ?F j) (for_w 0 ENTRIES_PER_TABLE ?body s)"
  proof (rule freed_loop)
    fix j and t :: "'a vmm_state_scheme"
    assume m: "phys_mem t = ?m" and k: "kernel_pml4 t = ?k"
    show "freed t (?F j) (?body j t)"
      using destroy_pdpt_freed [of t "entry ?m ?root j AND PAGE_ADDR_MASK"] m k
      by (simp add: Let_def freed_refl)
  qed
  then have "freed s ((\<Union>j\<in>{..<ENTRIES_PER_TABLE}. ?F j) \<union> {frame_of sp})
      (pmm_free_frame sp (for_w 0 ENTRIES_PER_TABLE ?body s))"
    by (rule freed_trans [OF _ freed_free_frame])
  moreover have "(\<Union>j\<in>{..<ENTRIES_PER_TABLE}. ?F j) \<union> {frame_of sp} =
      insert (frame_of sp) (private_frames ?m ?k ?root)"
    by (auto simp: private_frames_def private_slot_def ENTRIES_PER_TABLE_def split: if_splits)
  ultimately show ?thesis
    using assms by (simp add: vmm_destroy_address_space_def vmm_kernel_address_space_def Let_def)
qed

text \<open>
  The same frames in terms of paths: the frames of all tables reached from a table, and the frames of
  the user pages below it.
\<close>

definition tree_frames :: "memory \<Rightarrow> nat \<Rightarrow> u64 \<Rightarrow> u64 set" where
  "tree_frames m l t =
     {frame_of u | u r. idx_ok r \<and> tbl m l t r = Some u} \<union>
     {frame_of (e AND PAGE_ADDR_MASK) | e r. idx_ok r \<and> length r = l \<and> look m l t r = Some (e, []) \<and> bit e 2}"

lemma tree_frames_1: "tree_frames m 1 t = pt_frames m t"
proof -
  have "{frame_of u | u r. idx_ok r \<and> tbl m 1 t r = Some u} = {frame_of t}"
  proof -
    have "tbl m 1 t r = (if r = [] then Some t else None)" for r by (cases r) (simp_all add: is_tbl_def)
    then show ?thesis by (auto intro: exI [of _ "[]"])
  qed
  moreover have leaf: "idx_ok r \<and> length r = 1 \<and> look m 1 t r = Some (e, []) \<and> bit e 2 \<longleftrightarrow>
      (\<exists>j. r = [j] \<and> j < 512 \<and> bit (entry m t j) 0 \<and> e = entry m t j \<and> bit (entry m t j) 2)" for r e
    by (auto simp: length_Suc_conv is_tbl_def split: if_splits)
  have "{frame_of (e AND PAGE_ADDR_MASK) | e r. idx_ok r \<and> length r = 1 \<and> look m 1 t r = Some (e, []) \<and> bit e 2} =
      {frame_of (entry m t j AND PAGE_ADDR_MASK) | j. j < 512 \<and> bit (entry m t j) 0 \<and> bit (entry m t j) 2}"
    unfolding leaf by auto
  ultimately show ?thesis unfolding tree_frames_def pt_frames_def by simp
qed

lemma tree_frames_Suc:
  assumes "0 < l"
  shows "tree_frames m (Suc l) t = insert (frame_of t)
     (\<Union>j\<in>{j. j < 512 \<and> is_tbl (Suc l) (entry m t j)}. tree_frames m l (entry m t j AND PAGE_ADDR_MASK))"
proof -
  let ?J = "{j. j < 512 \<and> is_tbl (Suc l) (entry m t j)}" and ?c = "\<lambda>j. entry m t j AND PAGE_ADDR_MASK"
  have tb: "idx_ok r \<and> tbl m (Suc l) t r = Some u \<longleftrightarrow>
      r = [] \<and> u = t \<or> (\<exists>j\<in>?J. \<exists>r'. r = j # r' \<and> idx_ok r' \<and> tbl m l (?c j) r' = Some u)" for r u
    by (cases r) auto
  have lk: "idx_ok r \<and> length r = Suc l \<and> look m (Suc l) t r = Some (e, []) \<longleftrightarrow>
      (\<exists>j\<in>?J. \<exists>r'. r = j # r' \<and> idx_ok r' \<and> length r' = l \<and> look m l (?c j) r' = Some (e, []))" for r e
    using assms by (cases r) (auto simp: is_tbl_def)
  have "g \<in> tree_frames m (Suc l) t \<longleftrightarrow>
      g = frame_of t \<or> (\<exists>j\<in>?J. g \<in> tree_frames m l (?c j))" for g
  proof -
    have "g \<in> tree_frames m (Suc l) t \<longleftrightarrow>
        (\<exists>u r. g = frame_of u \<and> (idx_ok r \<and> tbl m (Suc l) t r = Some u)) \<or>
        (\<exists>e r. g = frame_of (e AND PAGE_ADDR_MASK) \<and>
           (idx_ok r \<and> length r = Suc l \<and> look m (Suc l) t r = Some (e, [])) \<and> bit e 2)"
      unfolding tree_frames_def by blast
    also have "\<dots> \<longleftrightarrow> g = frame_of t \<or> (\<exists>j\<in>?J. g \<in> tree_frames m l (?c j))"
      unfolding tb lk tree_frames_def by blast
    finally show ?thesis .
  qed
  then show ?thesis by blast
qed

lemma pdpt_frames_tree: "pdpt_frames m t = tree_frames m 3 t"
proof -
  have "pd_frames m u = tree_frames m 2 u" for u
    unfolding pd_frames_def using tree_frames_Suc [of 1 m u] tree_frames_1 [of m] by (simp add: numeral_2_eq_2)
  then show ?thesis
    unfolding pdpt_frames_def using tree_frames_Suc [of 2 m t] by (simp add: numeral_3_eq_3 numeral_2_eq_2)
qed

section \<open>Creating a space\<close>

text \<open>A table whose entries are those of another one, in a frame of its own, leads to the same tables.\<close>

lemma copied_root:
  assumes "\<And>q u j. idx_ok (q @ [j]) \<Longrightarrow> tbl m l k q = Some u \<Longrightarrow> entry m' u j = entry m u j"
    and "\<And>j. j < 512 \<Longrightarrow> entry m' a j = entry m k j" and "idx_ok q"
  shows "look m' l a q = look m l k q" and "q \<noteq> [] \<Longrightarrow> tbl m' l a q = tbl m l k q"
proof -
  have sub: "tbl m' (l - 1) (entry m k i AND PAGE_ADDR_MASK) r = tbl m (l - 1) (entry m k i AND PAGE_ADDR_MASK) r"
      "look m' (l - 1) (entry m k i AND PAGE_ADDR_MASK) r = look m (l - 1) (entry m k i AND PAGE_ADDR_MASK) r"
    if "q = i # r" "is_tbl l (entry m k i)" for i r
  proof -
    have "sim_entry (l - 1 - length p) (entry m u j) (entry m' u j)"
      if "tbl m (l - 1) (entry m k i AND PAGE_ADDR_MASK) p = Some u" "r = p @ j # r'" for p u j r'
      using assms(1) [of "i # p" j u] assms(3) that \<open>q = i # r\<close> \<open>is_tbl l (entry m k i)\<close>
      by (simp add: sim_entry_def)
    then show "tbl m' (l - 1) (entry m k i AND PAGE_ADDR_MASK) r = tbl m (l - 1) (entry m k i AND PAGE_ADDR_MASK) r"
      "look m' (l - 1) (entry m k i AND PAGE_ADDR_MASK) r = look m (l - 1) (entry m k i AND PAGE_ADDR_MASK) r"
      by (rule tbl_sim; blast)+
  qed
  show "look m' l a q = look m l k q" "q \<noteq> [] \<Longrightarrow> tbl m' l a q = tbl m l k q"
    using assms(2,3) sub by (cases q; simp)+
qed

lemma vmm_create_cases:
  fixes s :: "'a vmm_state_scheme"
  assumes ok: "space_ok s (kernel_pml4 s)" "pmm_ok s"
  obtains (fail) "vmm_create_address_space s = (s, 0)" and "free_set s = {}"
  | (made) f u m' where "vmm_create_address_space s = (u\<lparr>phys_mem := m'\<rparr>, f * PMM_FRAME_SIZE)" and "f \<in> free_set s"
      and "free_set u = free_set s - {f}" and "pmm_ok u" and "pmm_frame s u"
      and "\<And>x. frame_of x \<noteq> f \<Longrightarrow> m' x = phys_mem s x"
      and "\<And>j. j < 512 \<Longrightarrow> entry m' (f * PMM_FRAME_SIZE) j = entry (phys_mem s) (kernel_pml4 s) j"
proof (cases s rule: pmm_alloc_frame_cases)
  case none
  then show ?thesis using fail by (simp add: vmm_create_address_space_def)
next
  case (frame f k u)
  define a where "a = f * PMM_FRAME_SIZE"
  have fb: "page_addr a" "frame_of a = f" "a \<noteq> 0"
    using page_addr_frame [OF free_set_below [OF frame(2)]] frame_address(2) [OF free_set_below [OF frame(2)]]
      frame_nonzero [OF frame(2)] ok(2) by (simp_all add: a_def pmm_ok_def)
  have mem: "phys_mem u = phys_mem s" by (rule pmm_frame_phys_mem [OF frame(9)])
  have kr: "kernel_pml4 u = kernel_pml4 s" by (rule pmm_frame_field [OF frame(9)]) (simp add: pmm_clear_def)
  have kp: "page_addr (kernel_pml4 s)" "frame_of (kernel_pml4 s) \<noteq> f"
    using space_okD(1) [OF ok(1)] space_okD(2) [OF ok(1), of "[]"] frame(2) by auto
  let ?body = "\<lambda>i m. set_entry a i (entry m (kernel_pml4 s) i) m"
  let ?m = "for_w 0 ENTRIES_PER_TABLE ?body (phys_mem s)"
  let ?P = "\<lambda>n m. (\<forall>x. frame_of x \<noteq> f \<longrightarrow> m x = phys_mem s x) \<and>
      (\<forall>j<n. entry m a j = entry (phys_mem s) (kernel_pml4 s) j)"
  have "?P ENTRIES_PER_TABLE ?m"
  proof (rule for_w_invariant [where P = ?P])
    fix n m
    assume n: "n < ENTRIES_PER_TABLE" and IH: "?P n m"
    have n512: "n < 512" using n by (simp add: ENTRIES_PER_TABLE_def)
    have e: "entry m (kernel_pml4 s) n = entry (phys_mem s) (kernel_pml4 s) n"
      using IH kp by (intro entry_cong [OF kp(1) n512]) auto
    have "entry (?body n m) a j = entry (phys_mem s) (kernel_pml4 s) j" if "j < n + 1" for j
    proof -
      have "j < n \<or> j = n" using that less_plus_one_iff [OF n] by blast
      then show ?thesis
        using IH e entry_set_entry [OF fb(1) fb(1) n512, of j "entry m (kernel_pml4 s) n" m] n512
        by (auto dest: less_trans)
    qed
    then show "?P (n + 1) (?body n m)"
      using IH set_entry_outside [OF fb(1) n512] fb(2) by simp
  qed (simp_all add: ENTRIES_PER_TABLE_def)
  then have P: "\<And>x. frame_of x \<noteq> f \<Longrightarrow> ?m x = phys_mem s x"
      "\<And>j. j < 512 \<Longrightarrow> entry ?m a j = entry (phys_mem s) (kernel_pml4 s) j"
    by (simp_all add: ENTRIES_PER_TABLE_def)
  have "vmm_create_address_space s = (u\<lparr>phys_mem := ?m\<rparr>, f * PMM_FRAME_SIZE)"
    using frame(1) fb(3) mem kr by (simp add: vmm_create_address_space_def a_def)
  moreover have "pmm_ok u" using frame(6,8) ok(2) by (simp add: pmm_ok_def)
  ultimately show ?thesis using made [where u = u and m' = ?m and f = f] frame(2,6,9) P unfolding a_def by blast
qed

section \<open>Pages and fresh frames\<close>

text \<open>Mapping a page writes only page tables and frames that were free.\<close>

lemma vmm_map_page_in_mem:
  fixes s :: "'a vmm_state_scheme"
  assumes "space_ok s (space_pml4 sp)" and "pmm_ok s" and "vmm_map_page_in sp v phys flags s = (t, rc)"
    and "frame_of x \<notin> free_set s \<union> table_frames (phys_mem s) (space_pml4 sp)"
  shows "phys_mem t x = phys_mem s x"
proof (cases rule: get_or_split_pt_entry_cases [OF assms(1,2), of v])
  case (1 s')
  then show ?thesis using growsD(7) [OF 1(2) assms(4)] assms(3) by (simp add: vmm_map_page_in_def)
next
  case (2 s' pdpt pd pt)
  note g = growsD [OF 2(2)]
  have idx: "idx_ok [pml4_index v, pdpt_index v, pd_index v]" by simp
  have pt: "page_addr pt" using space_okD(2) [OF g(1) idx 2(5)] by blast
  have "frame_of pt \<in> table_frames (phys_mem s) (space_pml4 sp) \<union> free_set s"
    by (rule subsetD [OF g(9) table_frames_I [OF idx 2(5)]])
  then have "frame_of x \<noteq> frame_of pt" using assms(4) by auto
  then have out: "set_entry pt (pt_index v) e (phys_mem s') x = phys_mem s' x" for e
    by (rule set_entry_outside [OF pt va_indices(4)])
  have "phys_mem t = phys_mem s' \<or> (\<exists>e. phys_mem t = set_entry pt (pt_index v) e (phys_mem s'))"
    using assms(3) 2(1) unfolding vmm_map_page_in_def set_entry_def Let_def by (auto split: if_splits)
  then show ?thesis using out g(7) [OF assms(4)] by auto
qed

text \<open>Taking a free frame and writing it changes neither the tables nor the translations of a space.\<close>

lemma space_fresh:
  fixes s :: "'a vmm_state_scheme" and u :: "'a vmm_state_scheme"
  assumes ok: "space_ok s root" and f: "f \<in> free_set s"
    and m: "\<And>x. frame_of x \<noteq> f \<Longrightarrow> phys_mem u x = phys_mem s x" and fs: "free_set u = free_set s - {f}"
  shows "space_ok u root" and "idx_ok q \<Longrightarrow> tbl (phys_mem u) 4 root q = tbl (phys_mem s) 4 root q"
    and "walk (phys_mem u) root v = walk (phys_mem s) root v"
proof -
  have ent: "entry (phys_mem u) w j = entry (phys_mem s) w j"
    if "idx_ok (q @ [j])" "tbl (phys_mem s) 4 root q = Some w" for q w j
  proof -
    have "page_addr w" "frame_of w \<noteq> f" "j < 512" using space_okD(2) [OF ok _ that(2)] that(1) f by auto
    then show ?thesis using m by (intro entry_cong) auto
  qed
  have same: "tbl (phys_mem u) 4 root q = tbl (phys_mem s) 4 root q" "look (phys_mem u) 4 root q = look (phys_mem s) 4 root q"
    if "idx_ok q" for q
  proof -
    have "sim_entry (4 - length p) (entry (phys_mem s) w j) (entry (phys_mem u) w j)"
      if "tbl (phys_mem s) 4 root p = Some w" "q = p @ j # r" for p w j r
      using ent [of p j w] that \<open>idx_ok q\<close> by (simp add: sim_entry_def)
    then show "tbl (phys_mem u) 4 root q = tbl (phys_mem s) 4 root q" "look (phys_mem u) 4 root q = look (phys_mem s) 4 root q"
      by (rule tbl_sim; blast)+
  qed
  show "space_ok u root" by (rule space_ok_cong [OF ok same]) (use fs in auto)
  show "idx_ok q \<Longrightarrow> tbl (phys_mem u) 4 root q = tbl (phys_mem s) 4 root q" by (rule same(1))
  show "walk (phys_mem u) root v = walk (phys_mem s) root v"
    by (rule walk_cong) (simp add: target_def same(2))
qed

lemma pmm_alloc_zeroed_cases:
  fixes s :: "'a pmm_state_scheme"
  assumes "pmm_ok s"
  obtains (none) "pmm_alloc_zeroed_frame s = (s, 0)" and "free_set s = {}"
  | (frame) f u where "pmm_alloc_zeroed_frame s = (u, f * PMM_FRAME_SIZE)" and "f * PMM_FRAME_SIZE \<noteq> 0"
      and "f \<in> free_set s" and "free_set u = free_set s - {f}" and "pmm_ok u"
      and "phys_mem u = (\<lambda>x. if frame_of x = f then 0 else phys_mem s x)"
      and "pmm_frame (s\<lparr>phys_mem := phys_mem u\<rparr>) u"
proof (cases s rule: pmm_alloc_frame_cases)
  case none
  then show ?thesis using that(1) by (simp add: pmm_alloc_zeroed_frame_def)
next
  case (frame f j t)
  let ?a = "f * PMM_FRAME_SIZE"
  have fb: "f < PMM_MAX_FRAMES" "?a \<noteq> 0"
    using free_set_below [OF frame(2)] frame_nonzero [OF frame(2)] assms by (simp_all add: pmm_ok_def)
  have ua: "unat ?a = unat f * 4096" "unat f < 0x100000"
    using frame_address(1) [OF fb(1)] fb(1) by (simp_all add: PMM_MAX_FRAMES_eq word_less_nat_alt)
  have page: "x - ?a < PMM_FRAME_SIZE \<longleftrightarrow> frame_of x = f" for x
  proof -
    have "x - ?a < PMM_FRAME_SIZE \<longleftrightarrow> unat ?a \<le> unat x \<and> unat x < unat ?a + 4096"
      using range_iff [of ?a PMM_FRAME_SIZE x] ua by (simp add: PMM_FRAME_SIZE_def)
    also have "\<dots> \<longleftrightarrow> unat (frame_of x) = unat f" unfolding ua unat_frame_of by auto
    finally show ?thesis by (simp add: word_unat_eq_iff)
  qed
  let ?m = "for_w 0 PMM_FRAME_SIZE (\<lambda>i m. m(?a + i := 0)) (phys_mem s)"
  let ?u = "t\<lparr>phys_mem := ?m\<rparr>"
  have mem: "phys_mem t = phys_mem s" by (rule pmm_frame_phys_mem [OF frame(9)])
  have z: "pmm_alloc_zeroed_frame s = (?u, ?a)"
    using frame(1) fb(2) mem by (simp add: pmm_alloc_zeroed_frame_def)
  have m: "?m = (\<lambda>x. if frame_of x = f then 0 else phys_mem s x)"
    unfolding for_w_bytes page by (rule refl)
  have ok: "pmm_ok ?u" using frame(6,8) assms pmm_ok_cong [of ?u t] by (simp add: pmm_ok_def)
  have "pmm_frame (s\<lparr>phys_mem := ?m\<rparr>) ?u" using frame(9) by (simp add: pmm_frame_def pmm_clear_mem)
  then show ?thesis using that(2) [OF z fb(2) frame(2) _ ok] frame(6) m by simp
qed

text \<open>A copied root in a fresh frame makes a well-formed space with the translations of the original.\<close>

lemma copied_space:
  fixes s :: "'a vmm_state_scheme" and t :: "'a vmm_state_scheme"
  assumes ok: "space_ok s k" and f: "f \<in> free_set s" "page_addr a" "frame_of a = f" "a \<noteq> 0"
    and fs: "free_set t = free_set s - {f}"
    and m: "\<And>x. frame_of x \<noteq> f \<Longrightarrow> phys_mem t x = phys_mem s x"
    and root: "\<And>j. j < 512 \<Longrightarrow> entry (phys_mem t) a j = entry (phys_mem s) k j"
  shows "space_ok t a" and "walk (phys_mem t) a v = walk (phys_mem s) k v"
proof -
  let ?m = "phys_mem s" and ?m' = "phys_mem t"
  have ent: "entry ?m' w j = entry ?m w j" if "idx_ok (q @ [j])" "tbl ?m 4 k q = Some w" for q w j
  proof -
    have "page_addr w" "frame_of w \<noteq> f" "j < 512" using space_okD(2) [OF ok _ that(2)] that(1) f(1) by auto
    then show ?thesis using m by (intro entry_cong) auto
  qed
  have cp1: "look ?m' 4 a q = look ?m 4 k q" if "idx_ok q" for q
    by (rule copied_root(1); (rule ent root that; assumption?))
  have cp2: "tbl ?m' 4 a q = tbl ?m 4 k q" if "idx_ok q" "q \<noteq> []" for q
    by (rule copied_root(2); (rule ent root that; assumption?))
  show "walk ?m' a v = walk ?m k v" using cp1 [of "va_path v"] by (simp add: walk_def target_def)
  have a_new: "tbl ?m 4 k q \<noteq> Some a" if "idx_ok q" for q
    using space_okD(2) [OF ok that, of a] f by blast
  have at_root: "r = []" if "idx_ok r" "tbl ?m' 4 a r = Some a" for r
    using cp2 [OF that(1)] a_new [OF that(1)] that(2) by metis
  show "space_ok t a"
    unfolding space_ok_def
  proof (intro conjI allI impI)
    show "page_addr a" by (rule f(2))
    fix q q' w
    show "w \<noteq> 0" "frame_of w \<notin> free_set t" if "idx_ok q \<and> tbl ?m' 4 a q = Some w"
      using that cp2 [of q] space_okD(2) [OF ok, of q w] fs f by (cases "q = []"; auto)+
    show "q = q'" if h: "idx_ok q \<and> idx_ok q' \<and> tbl ?m' 4 a q = Some w \<and> tbl ?m' 4 a q' = Some w"
    proof (cases "q = [] \<or> q' = []")
      case True
      then have "w = a" using h by auto
      then show ?thesis using at_root [of q] at_root [of q'] h by simp
    next
      case False
      then show ?thesis using space_okD(3) [OF ok, of q q' w] cp2 h by metis
    qed
  next
    fix q e r n
    show "\<not> bit e n"
      if "idx_ok q \<and> length q = 4 \<and> look ?m' 4 a q = Some (e, r) \<and> r \<noteq> []" "12 \<le> n \<and> n < 21"
      using that cp1 [of q] space_okD(4) [OF ok, of q e r n] by simp
  qed
qed

text \<open>Mapping a page to a frame that was just taken and zeroed.\<close>

lemma map_zeroed_page:
  fixes s :: "'a vmm_state_scheme" and u :: "'a vmm_state_scheme"
  assumes ok: "space_ok s (space_pml4 sp)" and f: "f \<in> free_set s" and fs: "free_set u = free_set s - {f}"
    and u: "pmm_ok u" and m: "phys_mem u = (\<lambda>x. if frame_of x = f then 0 else phys_mem s x)"
    and w: "vmm_map_page_in sp page (f * PMM_FRAME_SIZE) (VMM_WRITABLE OR VMM_USER) u = (w, rc)"
    and low: "page AND 0xFFF = 0"
  defines "root \<equiv> space_pml4 sp"
  shows "rc \<noteq> 0 \<Longrightarrow> walk (phys_mem w) root v = walk (phys_mem s) root v"
    and "rc = 0 \<Longrightarrow> walk (phys_mem w) root page = Some (f * PMM_FRAME_SIZE, True)"
    and "rc = 0 \<Longrightarrow> vmm_is_user_accessible_in sp page (phys_mem w)"
    and "rc = 0 \<Longrightarrow> frame_of x = f \<Longrightarrow> phys_mem w x = 0"
    and "rc = 0 \<Longrightarrow> \<not> same_page v page \<Longrightarrow> walk (phys_mem w) root v = walk (phys_mem s) root v"
    and "space_ok w root" and "pmm_ok w"
proof -
  have mo: "phys_mem u x = phys_mem s x" if "frame_of x \<noteq> f" for x using m that by simp
  have uok: "space_ok u (space_pml4 sp)" by (rule space_fresh(1) [OF ok f _ fs]) (use mo in simp)
  have walks: "walk (phys_mem u) root v = walk (phys_mem s) root v" for v
    unfolding root_def by (rule space_fresh(3) [OF ok f _ fs]) (use mo in simp)
  have tbls: "idx_ok q \<Longrightarrow> tbl (phys_mem u) 4 (space_pml4 sp) q = tbl (phys_mem s) 4 (space_pml4 sp) q" for q
    by (rule space_fresh(2) [OF ok f _ fs]) (use mo in simp_all)
  note mp = vmm_map_page_in_correct [OF uok u w, folded root_def]
  have flags: "bit (VMM_WRITABLE OR VMM_USER) 1" "bit (VMM_WRITABLE OR VMM_USER) 2"
    by (simp_all add: page_bits bit_or_iff)
  have addr: "f * PMM_FRAME_SIZE AND PAGE_ADDR_MASK = f * PMM_FRAME_SIZE"
    using page_addr_frame [OF free_set_below [OF f]] by (simp add: page_addr_def)
  show "space_ok w root" "pmm_ok w" using mp by blast+
  show "walk (phys_mem w) root v = walk (phys_mem s) root v" if "rc \<noteq> 0" using mp that walks by simp
  show "walk (phys_mem w) root page = Some (f * PMM_FRAME_SIZE, True)" if "rc = 0"
    using mp that flags addr low by simp
  show "vmm_is_user_accessible_in sp page (phys_mem w)" if "rc = 0" using mp that flags by simp
  show "walk (phys_mem w) root v = walk (phys_mem s) root v" if "rc = 0" "\<not> same_page v page"
    using mp that walks by simp
  show "phys_mem w x = 0" if "frame_of x = f"
  proof -
    have "frame_of z \<noteq> f" if "idx_ok q" "tbl (phys_mem u) 4 (space_pml4 sp) q = Some z" for q z
      using tbls [OF that(1)] space_okD(2) [OF ok that(1), of z] f that(2) by auto
    then have "f \<notin> table_frames (phys_mem u) (space_pml4 sp)" unfolding table_frames_def by blast
    then have "phys_mem w x = phys_mem u x"
      using vmm_map_page_in_mem [OF uok u w, of x] that fs by simp
    then show ?thesis using m that by simp
  qed
qed

lemma same_page_of_page: "same_page w (addr AND NOT 0xFFF) \<longleftrightarrow> same_page w addr"
  and page_offset_0: "(addr AND NOT 0xFFF) AND 0xFFF = 0" for addr :: u64
proof -
  have m: "(0xFFF :: u64) = mask 12" by (simp add: mask_eq_exp_minus_1)
  have "bit (addr AND NOT 0xFFF) n \<longleftrightarrow> bit addr n \<and> 12 \<le> n" for n
    unfolding m by (auto simp: bit_simps dest: bit_imp_le_length)
  then show "same_page w (addr AND NOT 0xFFF) \<longleftrightarrow> same_page w addr" by (simp add: same_page_bits)
  show "(addr AND NOT 0xFFF) AND 0xFFF = 0" by (rule bit_eqI) (simp add: bit_simps)
qed

text \<open>The three ways the handler ends: nothing done, the mapping failed, the page was mapped.\<close>

lemma handle_page_fault_cases:
  fixes s :: "'a stack_state_scheme"
  defines "sp \<equiv> vmm_current_address_space s" and "page \<equiv> \<lambda>addr. addr AND NOT 0xFFF"
  assumes "pmm_ok s"
  obtains (ignored) "vmm_handle_page_fault addr s = (s, False)"
  | (mapped) region f u w rc where "region \<in> set (stack_regions s)" and "region_space region = sp"
      and "stack_limit region \<le> page addr" and "page addr < stack_top region"
      and "\<not> vmm_is_mapped_in sp (page addr) (phys_mem s)" and "f \<in> free_set s"
      and "free_set u = free_set s - {f}" and "pmm_ok u"
      and "phys_mem u = (\<lambda>x. if frame_of x = f then 0 else phys_mem s x)"
      and "vmm_map_page_in sp (page addr) (f * PMM_FRAME_SIZE) (VMM_WRITABLE OR VMM_USER) u = (w, rc)"
      and "vmm_handle_page_fault addr s = (if rc \<noteq> 0 then (pmm_free_frame (f * PMM_FRAME_SIZE) w, False) else (w, True))"
proof -
  have mask: "PAGE_4KB_SIZE - 1 = 0xFFF" by (simp add: PAGE_4KB_SIZE_def)
  have step: "vmm_handle_page_fault addr s =
     (case find_region sp (page addr) (stack_regions s) of
        None \<Rightarrow> (s, False)
      | Some region \<Rightarrow>
          if vmm_is_mapped_in sp (page addr) (phys_mem s) then (s, False)
          else let (s, frame) = pmm_alloc_zeroed_frame s in
            if frame = 0 then (s, False)
            else let (s, rc) = vmm_map_page_in sp (page addr) frame (VMM_WRITABLE OR VMM_USER) s in
              if rc \<noteq> 0 then (pmm_free_frame frame s, False)
              else (s, True))"
    unfolding vmm_handle_page_fault_def Let_def mask page_def sp_def by (rule refl)
  show thesis
  proof (cases "find_region sp (page addr) (stack_regions s)")
    case None
    then show thesis using ignored step by simp
  next
    case (Some region)
    then have reg: "region \<in> set (stack_regions s)" "region_space region = sp"
        "stack_limit region \<le> page addr" "page addr < stack_top region"
      by (auto simp: find_region_def find_Some_iff)
    show thesis
    proof (cases "vmm_is_mapped_in sp (page addr) (phys_mem s)")
      case True
      then show thesis using ignored step Some by simp
    next
      case unmapped: False
      show thesis
      proof (cases rule: pmm_alloc_zeroed_cases [OF assms(3)])
        case 1
        then show thesis using ignored step Some unmapped by simp
      next
        case (2 f u)
        obtain w rc where w: "vmm_map_page_in sp (page addr) (f * PMM_FRAME_SIZE) (VMM_WRITABLE OR VMM_USER) u = (w, rc)"
          by (cases "vmm_map_page_in sp (page addr) (f * PMM_FRAME_SIZE) (VMM_WRITABLE OR VMM_USER) u")
        show thesis
          by (rule mapped [OF reg unmapped 2(3,4,5,6) w]) (use step Some unmapped 2(1,2) w in simp)
      qed
    qed
  qed
qed

section \<open>Properties\<close>

text \<open>
  C35: A new address space is a fresh PML4 that translates every address exactly as the kernel's
  address space does; the kernel's own translations are untouched, the new space is well formed, and
  creation fails only when no frame is free, with nothing changed.
\<close>

theorem vmm_create_address_space_correct:
  assumes "space_ok s (kernel_pml4 s)" and "pmm_ok s" and "vmm_create_address_space s = (t, sp)"
  shows "(sp = 0 \<and> t = s \<and> free_set s = {}) \<or>
     (sp \<noteq> 0 \<and> frame_of sp \<in> free_set s \<and> free_set t = free_set s - {frame_of sp} \<and> pmm_ok t \<and> space_ok t sp \<and>
      (\<forall>v. walk (phys_mem t) sp v = walk (phys_mem s) (kernel_pml4 s) v \<and>
           walk (phys_mem t) (kernel_pml4 s) v = walk (phys_mem s) (kernel_pml4 s) v))"
proof (cases rule: vmm_create_cases [OF assms(1,2)])
  case 1
  then show ?thesis using assms(3) by simp
next
  case (2 f u m')
  have fb: "page_addr sp" "frame_of sp = f" "sp \<noteq> 0" and t: "t = u\<lparr>phys_mem := m'\<rparr>" "sp = f * PMM_FRAME_SIZE"
    using page_addr_frame [OF free_set_below [OF 2(2)]] frame_address(2) [OF free_set_below [OF 2(2)]]
      frame_nonzero [OF 2(2)] assms(2,3) 2(1) by (simp_all add: pmm_ok_def)
  have fs: "free_set t = free_set s - {f}" using 2(3) t(1) free_set_cong [of t u] by simp
  have m: "phys_mem t x = phys_mem s x" if "frame_of x \<noteq> f" for x using 2(6) [OF that] t(1) by simp
  have root: "entry (phys_mem t) sp j = entry (phys_mem s) (kernel_pml4 s) j" if "j < 512" for j
    using 2(7) [OF that] t by simp
  note new = copied_space [OF assms(1) 2(2) fb fs m root]
  have "pmm_ok t" using 2(4) t(1) pmm_ok_cong [of t u] by simp
  then show ?thesis using fb fs 2(2) new space_fresh(3) [OF assms(1) 2(2) m fs] by simp
qed

theorem vmm_create_address_space_correct_witness:
  "\<exists>t sp. vmm_create_address_space vmm_example = (t, sp) \<and> sp \<noteq> 0 \<and> space_ok t sp"
proof -
  obtain t sp where r: "vmm_create_address_space vmm_example = (t, sp)"
    by (cases "vmm_create_address_space vmm_example")
  have "space_ok vmm_example (kernel_pml4 vmm_example)"
    using vmm_example_space_ok vmm_example_fields(4) by simp
  from vmm_create_address_space_correct [OF this vmm_example_pmm_ok r] show ?thesis
    using r vmm_example_free by auto
qed

text \<open>
  C24: Destroying an address space that is not the kernel's gives back exactly its PML4 and, below the
  top-level entries that differ from the kernel's, every table and every user page; no frame below an
  entry shared with the kernel is freed through it, memory is not written, and the free counter stays
  right. For the null space and the kernel's space nothing happens.
\<close>

theorem vmm_destroy_address_space_correct:
  shows "if sp = 0 \<or> sp = kernel_pml4 s then vmm_destroy_address_space sp s = s
    else phys_mem (vmm_destroy_address_space sp s) = phys_mem s \<and>
      free_set (vmm_destroy_address_space sp s) = free_set s \<union>
        {g. g < PMM_MAX_FRAMES \<and> (g = frame_of sp \<or>
          (\<exists>i. private_slot (phys_mem s) (kernel_pml4 s) (space_pml4 sp) i \<and>
             g \<in> tree_frames (phys_mem s) 3 (entry (phys_mem s) (space_pml4 sp) i AND PAGE_ADDR_MASK)))}"
proof (cases "sp = 0 \<or> sp = kernel_pml4 s")
  case True
  then show ?thesis by (simp add: vmm_destroy_address_space_def vmm_kernel_address_space_def)
next
  case False
  then have f: "freed s (insert (frame_of sp) (private_frames (phys_mem s) (kernel_pml4 s) (space_pml4 sp)))
     (vmm_destroy_address_space sp s)"
    using vmm_destroy_freed [of sp s] by blast
  then have "free_set (vmm_destroy_address_space sp s) = free_set s \<union>
      {g \<in> insert (frame_of sp) (private_frames (phys_mem s) (kernel_pml4 s) (space_pml4 sp)). g < PMM_MAX_FRAMES}"
    by (simp add: freed_def)
  then show ?thesis
    using False freed_fields(1) [OF f] unfolding private_frames_def pdpt_frames_tree by auto
qed


definition stack_example :: stack_state where
  "stack_example = set_free 20 (set_free 18 (set_free 17
     \<lparr>phys_mem = \<lambda>_. 0, bitmap = \<lambda>_. 0xFF, total_frames = 3, free_frames = 0, search_hint = 16, heap_head = 0,
      kernel_pml4 = 0x10000, cr3 = 0x10000,
      stack_regions = [\<lparr>region_ptr = 0x20018, region_space = 0x10000, stack_top = 0x8000100000, stack_limit = 0x80000F0000\<rparr>]\<rparr>))"

lemma stack_example_fields:
  "bitmap stack_example = bitmap vmm_example" "free_frames stack_example = free_frames vmm_example"
  "phys_mem stack_example = phys_mem vmm_example" "cr3 stack_example = 0x10000"
  unfolding stack_example_def vmm_example_def by (intro set_free_cong; simp)+ simp_all


end
