(* ===== verification/Mm_Frame.thy ===== *)
theory Mm_Frame
  imports Address_Space
begin

text \<open>
  What the memory managers leave alone. The components above them keep their own state in further
  fields of the record; \<open>mm_frame s t\<close> says that \<open>s\<close> and \<open>t\<close> differ at most in the byte memory
  and in the fields of the frame allocator and the heap. Every memory operation is shown to stay
  inside that frame on every path, whether or not the structures in memory are well formed, so
  that the clients read their own fields through a call with \<open>mm_frame_field\<close>.
\<close>

definition mm_clear :: "'a heap_state_scheme \<Rightarrow> 'a heap_state_scheme" where
  "mm_clear s = (pmm_clear s)\<lparr>phys_mem := \<lambda>_. 0, heap_head := 0\<rparr>"

definition mm_frame :: "'a heap_state_scheme \<Rightarrow> 'a heap_state_scheme \<Rightarrow> bool" where
  "mm_frame s t \<longleftrightarrow> mm_clear t = mm_clear s"

named_theorems mm_simps \<open>memory operations that stay inside the frame of the memory managers\<close>

lemma mm_frame_refl [simp]: "mm_frame s s"
  by (simp add: mm_frame_def)

lemma mm_frame_trans: "mm_frame s t \<Longrightarrow> mm_frame t u \<Longrightarrow> mm_frame s u"
  by (simp add: mm_frame_def)

lemma mm_frame_field: "mm_frame s t \<Longrightarrow> (\<And>u. sel (mm_clear u) = sel u) \<Longrightarrow> sel t = sel s"
  by (metis mm_frame_def)

lemma mm_frame_upd [mm_simps]:
  "mm_frame s (t\<lparr>phys_mem := m\<rparr>) = mm_frame s t"
  "mm_frame s (t\<lparr>heap_head := h\<rparr>) = mm_frame s t"
  by (simp_all add: mm_frame_def mm_clear_def pmm_clear_def)

lemma pmm_frame_mm: "pmm_frame t u \<Longrightarrow> mm_frame s u = mm_frame s t"
  by (simp add: pmm_frame_def mm_frame_def mm_clear_def)

lemmas mm_frame_pmm [mm_simps] =
  pmm_frame_alloc_frame [THEN pmm_frame_mm] pmm_frame_alloc_contiguous [THEN pmm_frame_mm]
  pmm_frame_free_frame [THEN pmm_frame_mm]

lemma mm_frame_alloc_zeroed [mm_simps]: "mm_frame s (fst (pmm_alloc_zeroed_frame t)) = mm_frame s t"
  by (simp add: pmm_alloc_zeroed_frame_def case_prod_unfold mm_simps Let_def)

lemma mm_frame_for_w:
  "(\<And>j t. mm_frame s (body j t) = mm_frame s t) \<Longrightarrow> mm_frame s (for_w i n body t) = mm_frame s t"
  using for_w_keeps [where P = "\<lambda>u. mm_frame s u = mm_frame s t" and body = body] by simp

section \<open>The heap\<close>

lemma mm_frame_grow_heap [mm_simps]: "mm_frame s (fst (grow_heap n t)) = mm_frame s t"
  by (simp add: grow_heap_def case_prod_unfold mm_simps Let_def)

lemma kmalloc_frame: "kmalloc n t = Some (u, p) \<Longrightarrow> mm_frame s u = mm_frame s t"
  by (auto simp: kmalloc_def case_prod_unfold mm_simps Let_def split: if_splits bind_splits)

lemma kfree_frame: "kfree p t = Some u \<Longrightarrow> mm_frame s u = mm_frame s t"
  by (auto simp: kfree_def mm_simps Let_def split: if_splits bind_splits)

section \<open>Page tables\<close>

lemma mm_frame_get_or_create [mm_simps]:
  "mm_frame s (fst (get_or_create_table tb i t)) = mm_frame s t"
  by (simp add: get_or_create_table_def case_prod_unfold mm_simps Let_def)

lemma mm_frame_get_or_split [mm_simps]:
  "mm_frame s (fst (get_or_split_pt pd i t)) = mm_frame s t"
  by (simp add: get_or_split_pt_def case_prod_unfold mm_simps Let_def)

lemma mm_frame_get_or_split_entry [mm_simps]:
  "mm_frame s (fst (get_or_split_pt_entry p v t)) = mm_frame s t"
  by (simp add: get_or_split_pt_entry_def case_prod_unfold mm_simps Let_def split: option.split)

lemma mm_frame_map_page_in [mm_simps]: "mm_frame s (fst (vmm_map_page_in sp v p fl t)) = mm_frame s t"
  by (simp add: vmm_map_page_in_def case_prod_unfold mm_simps Let_def)

lemma mm_frame_unmap_page_in [mm_simps]: "mm_frame s (fst (vmm_unmap_page_in sp v t)) = mm_frame s t"
  by (simp add: vmm_unmap_page_in_def case_prod_unfold mm_simps Let_def)

lemma mm_frame_page [mm_simps]:
  "mm_frame s (fst (vmm_map_page v p fl t)) = mm_frame s t"
  "mm_frame s (fst (vmm_unmap_page v t)) = mm_frame s t"
  "mm_frame s (vmm_guard_page v t) = mm_frame s t"
  by (simp_all add: vmm_map_page_def vmm_unmap_page_def vmm_guard_page_def vmm_guard_page_in_def mm_simps)

lemma mm_frame_create_address_space [mm_simps]:
  "mm_frame s (fst (vmm_create_address_space t)) = mm_frame s t"
  by (simp add: vmm_create_address_space_def case_prod_unfold mm_simps Let_def)

lemma mm_frame_destroy [mm_simps]:
  "mm_frame s (destroy_pt pt t) = mm_frame s t"
  "mm_frame s (destroy_pd pd t) = mm_frame s t"
  "mm_frame s (destroy_pdpt pdpt t) = mm_frame s t"
  "mm_frame s (vmm_destroy_address_space sp t) = mm_frame s t"
proof -
  show pt: "mm_frame s (destroy_pt pt t) = mm_frame s t" for pt t
    by (simp add: destroy_pt_def Let_def mm_simps) (rule mm_frame_for_w, simp add: mm_simps)
  show pd: "mm_frame s (destroy_pd pd t) = mm_frame s t" for pd t
    by (simp add: destroy_pd_def Let_def mm_simps) (rule mm_frame_for_w, simp add: pt)
  show pdpt: "mm_frame s (destroy_pdpt pdpt t) = mm_frame s t" for pdpt t
    by (simp add: destroy_pdpt_def Let_def mm_simps) (rule mm_frame_for_w, simp add: pd)
  show "mm_frame s (vmm_destroy_address_space sp t) = mm_frame s t"
    by (simp add: vmm_destroy_address_space_def Let_def mm_simps)
      (intro impI mm_frame_for_w, simp add: pdpt)
qed

lemma mm_frame_handle_page_fault [mm_simps]:
  "mm_frame s (fst (vmm_handle_page_fault a t)) = mm_frame s t"
  by (simp add: vmm_handle_page_fault_def case_prod_unfold mm_simps Let_def split: option.split)

end
