(* ===== verification/Thread.thy ===== *)
theory Thread
  imports Mm_Frame
begin

text \<open>
  The scheduler of \<open>kernel/sched/thread.c\<close>: the thread table, round-robin dispatch with
  quanta, sleep and wakeup channels, creation of threads with a guarded kernel stack, the
  descriptor slots of each thread, and the context switch of
  \<open>kernel/arch/x86_64/context_switch.asm\<close> on the saved registers and the stack in memory.
  The table is a list whose length is \<open>thread_capacity\<close>; the pointer that \<open>kmalloc\<close> returned for
  it is kept beside it. The operations that end a thread also close its descriptors and update
  the process table; they are in the theory of processes.
\<close>

section \<open>Data\<close>

datatype thread_state = THREAD_UNUSED | THREAD_READY | THREAD_RUNNING | THREAD_BLOCKED | THREAD_ZOMBIE

definition THREAD_PRIO_LOW :: int where "THREAD_PRIO_LOW = 0"
definition THREAD_PRIO_NORMAL :: int where "THREAD_PRIO_NORMAL = 1"
definition THREAD_PRIO_HIGH :: int where "THREAD_PRIO_HIGH = 2"
definition THREAD_PRIO_COUNT :: int where "THREAD_PRIO_COUNT = 3"

definition FD_KIND_UNUSED :: int where "FD_KIND_UNUSED = 0"
definition FD_KIND_CONSOLE :: int where "FD_KIND_CONSOLE = 1"
definition FD_KIND_MEMFS :: int where "FD_KIND_MEMFS = 2"
definition FD_KIND_UFS :: int where "FD_KIND_UFS = 3"
definition FD_KIND_PIPE_READ :: int where "FD_KIND_PIPE_READ = 4"
definition FD_KIND_PIPE_WRITE :: int where "FD_KIND_PIPE_WRITE = 5"

lemmas fd_kinds = FD_KIND_UNUSED_def FD_KIND_CONSOLE_def FD_KIND_MEMFS_def FD_KIND_UFS_def
  FD_KIND_PIPE_READ_def FD_KIND_PIPE_WRITE_def

definition THREAD_MAX_FDS :: nat where "THREAD_MAX_FDS = 8"
definition INITIAL_THREAD_CAPACITY :: nat where "INITIAL_THREAD_CAPACITY = 4"
definition THREAD_STACK_PAGES :: u64 where "THREAD_STACK_PAGES = 2"
definition THREAD_STACK_SIZE :: u64 where "THREAD_STACK_SIZE = THREAD_STACK_PAGES * PMM_FRAME_SIZE"

record fd_slot =
  fd_kind :: int
  fd_handle :: int
  fd_cursor :: u32

record thread =
  t_rsp :: u64
  t_state :: thread_state
  t_stack_low :: u64
  t_guard_page :: u64
  t_priority :: int
  t_ticks_remaining :: int
  t_address_space :: u64
  t_wait_channel :: u64
  t_context :: u64
  t_fds :: "fd_slot list"
  t_uid :: u32

text \<open>\<open>sizeof(thread_t)\<close> and \<open>offsetof(thread_t, uid)\<close> under the x86-64 ABI.\<close>

definition THREAD_SIZE :: u64 where "THREAD_SIZE = 168"
definition THREAD_UID_OFFSET :: u64 where "THREAD_UID_OFFSET = 160"

text \<open>The registers that a context switch saves and restores.\<close>

record cpu_regs =
  rip :: u64
  rsp :: u64
  rflags :: u64
  rbp :: u64
  rbx :: u64
  r12 :: u64
  r13 :: u64
  r14 :: u64
  r15 :: u64

record sched_state = stack_state +
  threads :: "thread list"
  threads_ptr :: u64
  current_thread :: int
  cpu :: cpu_regs
  tss_rsp0 :: u64

definition quantum_ticks :: "int \<Rightarrow> int" where
  "quantum_ticks p = [2, 4, 8] ! nat p"

definition thread_at :: "int \<Rightarrow> 'a sched_state_scheme \<Rightarrow> thread" where
  "thread_at tid s = threads s ! nat tid"

definition upd_thread :: "int \<Rightarrow> (thread \<Rightarrow> thread) \<Rightarrow> 'a sched_state_scheme \<Rightarrow> 'a sched_state_scheme" where
  "upd_thread tid f s = s\<lparr>threads := (threads s)[nat tid := f (threads s ! nat tid)]\<rparr>"

abbreviation thread_capacity :: "'a sched_state_scheme \<Rightarrow> int" where
  "thread_capacity s \<equiv> int (length (threads s))"

section \<open>Slots and the table\<close>

definition reset_fd_slot :: "fd_slot \<Rightarrow> fd_slot" where
  "reset_fd_slot fd = fd\<lparr>fd_kind := FD_KIND_UNUSED, fd_handle := -1, fd_cursor := 0\<rparr>"

definition unused_fd :: fd_slot where
  "unused_fd = \<lparr>fd_kind = FD_KIND_UNUSED, fd_handle = -1, fd_cursor = 0\<rparr>"

definition console_fd :: fd_slot where
  "console_fd = \<lparr>fd_kind = FD_KIND_CONSOLE, fd_handle = 0, fd_cursor = 0\<rparr>"

text \<open>
  A slot of a table that \<open>kmalloc\<close> just returned. Every field but \<open>uid\<close> is assigned by the
  functions below, so only \<open>uid\<close> is read from the bytes that the allocator left there.
\<close>

definition raw_thread_slot :: "memory \<Rightarrow> u64 \<Rightarrow> thread" where
  "raw_thread_slot m a =
     \<lparr>t_rsp = 0, t_state = THREAD_UNUSED, t_stack_low = 0, t_guard_page = 0, t_priority = 0,
      t_ticks_remaining = 0, t_address_space = 0, t_wait_channel = 0, t_context = 0,
      t_fds = replicate THREAD_MAX_FDS unused_fd, t_uid = rd32 m (a + THREAD_UID_OFFSET)\<rparr>"

definition init_thread_slot :: "thread \<Rightarrow> thread" where
  "init_thread_slot t = t\<lparr>t_state := THREAD_UNUSED, t_stack_low := 0, t_guard_page := 0, t_rsp := 0,
     t_priority := THREAD_PRIO_NORMAL, t_ticks_remaining := quantum_ticks THREAD_PRIO_NORMAL,
     t_address_space := 0, t_wait_channel := 0, t_context := 0,
     t_fds := map reset_fd_slot (t_fds t)\<rparr>"

definition copy_thread_slot :: "thread \<Rightarrow> thread \<Rightarrow> thread" where
  "copy_thread_slot dst src = dst\<lparr>t_rsp := t_rsp src, t_state := t_state src,
     t_stack_low := t_stack_low src, t_guard_page := t_guard_page src, t_priority := t_priority src,
     t_ticks_remaining := t_ticks_remaining src, t_address_space := t_address_space src,
     t_wait_channel := t_wait_channel src, t_context := t_context src, t_fds := t_fds src\<rparr>"

definition grow_thread_table :: "'a sched_state_scheme \<Rightarrow> ('a sched_state_scheme \<times> int) option" where
  "grow_thread_table s =
     (let n = length (threads s);
          new_capacity = (if n = 0 then INITIAL_THREAD_CAPACITY else n * 2) in do {
        (s, new_table) \<leftarrow> kmalloc (THREAD_SIZE * of_nat new_capacity) s;
        if new_table = 0 then Some (s, -1)
        else let raw = \<lambda>i. raw_thread_slot (phys_mem s) (new_table + of_nat i * THREAD_SIZE);
                 copied = map (\<lambda>i. copy_thread_slot (raw i) (threads s ! i)) [0..<n];
                 inited = map (\<lambda>i. init_thread_slot (raw i)) [n..<new_capacity];
                 old_table = threads_ptr s;
                 s = s\<lparr>threads := copied @ inited, threads_ptr := new_table\<rparr> in
          if old_table \<noteq> 0 then do { s \<leftarrow> kfree old_table s; Some (s, 0) }
          else Some (s, 0)
      })"

section \<open>Dispatch\<close>

definition runnable :: "thread \<Rightarrow> bool" where
  "runnable t \<longleftrightarrow> t_state t = THREAD_READY \<or> t_state t = THREAD_RUNNING"

text \<open>The loop of \<open>find_next_runnable\<close>, with the number of rounds that are left.\<close>

fun next_runnable_loop :: "nat \<Rightarrow> thread list \<Rightarrow> int \<Rightarrow> int" where
  "next_runnable_loop 0 ts nxt = nxt"
| "next_runnable_loop (Suc k) ts nxt =
     (let nxt = (nxt + 1) mod int (length ts) in
      if runnable (ts ! nat nxt) then nxt else next_runnable_loop k ts nxt)"

definition find_next_runnable :: "int \<Rightarrow> thread list \<Rightarrow> int" where
  "find_next_runnable from ts = next_runnable_loop (length ts) ts from"

definition alloc_guarded_stack :: "'a sched_state_scheme \<Rightarrow> 'a sched_state_scheme \<times> (u64 \<times> u64) option" where
  "alloc_guarded_stack s =
     (let (s, region) = pmm_alloc_contiguous (THREAD_STACK_PAGES + 1) s in
      if region = 0 then (s, None)
      else let guard_page = region; stack_low = region + PMM_FRAME_SIZE;
               s = vmm_guard_page guard_page s in
        if vmm_is_mapped guard_page s
        then (for_w 0 (THREAD_STACK_PAGES + 1) (\<lambda>i s. pmm_free_frame (region + i * PMM_FRAME_SIZE) s) s, None)
        else (s, Some (stack_low, guard_page)))"

definition tss_set_kernel_stack :: "u64 \<Rightarrow> 'a sched_state_scheme \<Rightarrow> 'a sched_state_scheme" where
  "tss_set_kernel_stack rsp0 s = s\<lparr>tss_rsp0 := rsp0\<rparr>"

definition activate :: "int \<Rightarrow> 'a sched_state_scheme \<Rightarrow> 'a sched_state_scheme" where
  "activate tid s =
     vmm_switch_address_space (t_address_space (thread_at tid s))
       (tss_set_kernel_stack (t_stack_low (thread_at tid s) + THREAD_STACK_SIZE) s)"

subsection \<open>The context switch\<close>

definition push64 :: "u64 \<Rightarrow> 'a sched_state_scheme \<Rightarrow> 'a sched_state_scheme" where
  "push64 v s = (let sp = rsp (cpu s) - 8 in
     s\<lparr>phys_mem := wr64 sp v (phys_mem s), cpu := (cpu s)\<lparr>rsp := sp\<rparr>\<rparr>)"

definition pop64 :: "(u64 \<Rightarrow> cpu_regs \<Rightarrow> cpu_regs) \<Rightarrow> 'a sched_state_scheme \<Rightarrow> 'a sched_state_scheme" where
  "pop64 set_reg s = (let sp = rsp (cpu s); v = rd64 (phys_mem s) sp in
     s\<lparr>cpu := set_reg v ((cpu s)\<lparr>rsp := sp + 8\<rparr>)\<rparr>)"

text \<open>The seven pushes, and the seven pops with the final \<open>ret\<close>.\<close>

definition save_context :: "'a sched_state_scheme \<Rightarrow> 'a sched_state_scheme" where
  "save_context s =
     (let c = cpu s in
      push64 (r15 c) (push64 (r14 c) (push64 (r13 c) (push64 (r12 c)
        (push64 (rbx c) (push64 (rbp c) (push64 (rflags c) s)))))))"

definition restore_context :: "'a sched_state_scheme \<Rightarrow> 'a sched_state_scheme" where
  "restore_context s =
     pop64 (\<lambda>v. rip_update (\<lambda>_. v)) (pop64 (\<lambda>v. rflags_update (\<lambda>_. v)) (pop64 (\<lambda>v. rbp_update (\<lambda>_. v))
       (pop64 (\<lambda>v. rbx_update (\<lambda>_. v)) (pop64 (\<lambda>v. r12_update (\<lambda>_. v)) (pop64 (\<lambda>v. r13_update (\<lambda>_. v))
         (pop64 (\<lambda>v. r14_update (\<lambda>_. v)) (pop64 (\<lambda>v. r15_update (\<lambda>_. v)) s)))))))"

text \<open>
  \<open>switch_context(&threads[prev].rsp, &threads[next].rsp)\<close>; \<open>None\<close> stands for a discarded
  save slot, as in \<open>sched_exit_status\<close>.
\<close>

definition switch_context :: "int option \<Rightarrow> int \<Rightarrow> 'a sched_state_scheme \<Rightarrow> 'a sched_state_scheme" where
  "switch_context prev nxt s =
     (let s = save_context s;
          s = (case prev of None \<Rightarrow> s | Some p \<Rightarrow> upd_thread p (t_rsp_update (\<lambda>_. rsp (cpu s))) s);
          s = s\<lparr>cpu := (cpu s)\<lparr>rsp := t_rsp (thread_at nxt s)\<rparr>\<rparr>
      in restore_context s)"

section \<open>Creation of threads\<close>

definition sched_init :: "'a sched_state_scheme \<Rightarrow> 'a sched_state_scheme option" where
  "sched_init s = do {
     (s, _) \<leftarrow> grow_thread_table s;
     (let (s, stack) = alloc_guarded_stack s;
         (stack_low, guard_page) = (case stack of None \<Rightarrow> (0, 0) | Some p \<Rightarrow> p);
         s = upd_thread 0 (\<lambda>t. t\<lparr>t_state := THREAD_RUNNING, t_address_space := vmm_kernel_address_space s,
               t_stack_low := stack_low, t_guard_page := guard_page,
               t_fds := (t_fds t)[0 := console_fd, 1 := console_fd], t_uid := 0\<rparr>) s;
         s = s\<lparr>current_thread := 0\<rparr>
      in Some (activate 0 s))
   }"

text \<open>The frame that the first context switch to the thread pops.\<close>

definition initial_frame :: "u64 \<Rightarrow> u64 \<Rightarrow> memory \<Rightarrow> memory" where
  "initial_frame sp fn m =
     wr64 (sp - 64) 0 (wr64 (sp - 56) 0 (wr64 (sp - 48) 0 (wr64 (sp - 40) 0 (wr64 (sp - 32) 0
       (wr64 (sp - 24) 0 (wr64 (sp - 16) 0x202 (wr64 (sp - 8) fn m)))))))"

text \<open>The slot that a new thread gets: the first unused one, or the first of a larger table.\<close>

definition spawn_slot :: "'a sched_state_scheme \<Rightarrow> ('a sched_state_scheme \<times> int option) option" where
  "spawn_slot s =
     (case first_index (\<lambda>t. t_state t = THREAD_UNUSED) (threads s) of
        Some i \<Rightarrow> Some (s, Some (int i))
      | None \<Rightarrow> let previous_capacity = thread_capacity s in do {
          (s, rc) \<leftarrow> grow_thread_table s;
          Some (s, if rc \<noteq> 0 then None else Some previous_capacity)
        })"

definition sched_spawn_prio_with_context ::
  "u64 \<Rightarrow> int \<Rightarrow> u64 \<Rightarrow> 'a sched_state_scheme \<Rightarrow> ('a sched_state_scheme \<times> int) option" where
  "sched_spawn_prio_with_context fn priority ctx s =
     (let priority = (if priority < 0 \<or> priority \<ge> THREAD_PRIO_COUNT then THREAD_PRIO_NORMAL else priority) in do {
        (s, slot) \<leftarrow> spawn_slot s;
        case slot of None \<Rightarrow> Some (s, -1)
        | Some slot \<Rightarrow>
          (case alloc_guarded_stack s of
             (s, None) \<Rightarrow> Some (s, -1)
           | (s, Some (stack_low, guard_page)) \<Rightarrow>
               let sp = stack_low + THREAD_STACK_SIZE;
                   s = s\<lparr>phys_mem := initial_frame sp fn (phys_mem s)\<rparr>;
                   s = upd_thread slot (\<lambda>t. t\<lparr>t_rsp := sp - 64, t_state := THREAD_READY,
                         t_stack_low := stack_low, t_guard_page := guard_page,
                         t_priority := priority, t_ticks_remaining := quantum_ticks priority,
                         t_address_space := vmm_kernel_address_space s, t_context := ctx,
                         t_fds := map (\<lambda>i. if i < 2 then console_fd else unused_fd) [0..<THREAD_MAX_FDS]\<rparr>) s;
                   s = upd_thread slot (\<lambda>t. t\<lparr>t_uid :=
                         if current_thread s \<ge> 0 then t_uid (thread_at (current_thread s) s) else 0\<rparr>) s
               in Some (s, slot))
      })"

definition sched_spawn_prio :: "u64 \<Rightarrow> int \<Rightarrow> 'a sched_state_scheme \<Rightarrow> ('a sched_state_scheme \<times> int) option" where
  "sched_spawn_prio fn priority s = sched_spawn_prio_with_context fn priority 0 s"

definition sched_spawn :: "u64 \<Rightarrow> 'a sched_state_scheme \<Rightarrow> ('a sched_state_scheme \<times> int) option" where
  "sched_spawn fn s = sched_spawn_prio_with_context fn THREAD_PRIO_NORMAL 0 s"

definition sched_spawn_with_context :: "u64 \<Rightarrow> u64 \<Rightarrow> 'a sched_state_scheme \<Rightarrow> ('a sched_state_scheme \<times> int) option" where
  "sched_spawn_with_context fn ctx s = sched_spawn_prio_with_context fn THREAD_PRIO_NORMAL ctx s"

section \<open>Scheduling\<close>

text \<open>
  Every thread has a valid index while the system runs (\<open>current_thread\<close> is \<open>-1\<close> only before
  \<open>sched_init\<close>). \<open>tid_ok\<close> is the range test of the operations that take a thread.
\<close>

definition tid_ok :: "int \<Rightarrow> 'a sched_state_scheme \<Rightarrow> bool" where
  "tid_ok tid s \<longleftrightarrow> \<not> (tid < 0 \<or> tid \<ge> thread_capacity s)"

definition sched_set_address_space :: "int \<Rightarrow> u64 \<Rightarrow> 'a sched_state_scheme \<Rightarrow> 'a sched_state_scheme" where
  "sched_set_address_space tid sp s =
     (if \<not> tid_ok tid s then s
      else let s = upd_thread tid (t_address_space_update (\<lambda>_. sp)) s in
        if tid = current_thread s then vmm_switch_address_space sp s else s)"

text \<open>The part that \<open>sched_yield\<close>, \<open>sched_sleep\<close> share: run \<open>next\<close> from here on.\<close>

definition dispatch :: "int \<Rightarrow> 'a sched_state_scheme \<Rightarrow> 'a sched_state_scheme" where
  "dispatch nxt s =
     (let s = upd_thread nxt (\<lambda>t. t\<lparr>t_state := THREAD_RUNNING\<rparr>) s;
          s = upd_thread nxt (\<lambda>t. t\<lparr>t_ticks_remaining := quantum_ticks (t_priority t)\<rparr>) s;
          prev = current_thread s;
          s = s\<lparr>current_thread := nxt\<rparr>;
          s = activate nxt s
      in switch_context (Some prev) nxt s)"

definition sched_yield :: "'a sched_state_scheme \<Rightarrow> 'a sched_state_scheme" where
  "sched_yield s =
     (if current_thread s = -1 then s
      else let nxt = find_next_runnable (current_thread s) (threads s) in
        if nxt = current_thread s then s
        else dispatch nxt (upd_thread (current_thread s) (\<lambda>t. t\<lparr>t_state := THREAD_READY\<rparr>) s))"

definition sched_tick :: "'a sched_state_scheme \<Rightarrow> 'a sched_state_scheme" where
  "sched_tick s =
     (if current_thread s = -1 then s
      else let s = upd_thread (current_thread s) (\<lambda>t. t\<lparr>t_ticks_remaining := t_ticks_remaining t - 1\<rparr>) s in
        if t_ticks_remaining (thread_at (current_thread s) s) > 0 then s
        else sched_yield s)"

text \<open>
  \<open>sched_sleep\<close> up to the point where the CPU leaves it: either another thread runs, or, when
  no thread is runnable, the sleeper halts in its loop with interrupts on (the result \<open>True\<close>).
  \<open>sched_sleep_resume\<close> is the exit of that loop, taken once an interrupt made the state leave
  \<open>BLOCKED\<close>.
\<close>

definition sched_sleep :: "u64 \<Rightarrow> 'a sched_state_scheme \<Rightarrow> 'a sched_state_scheme \<times> bool" where
  "sched_sleep channel s =
     (let s = upd_thread (current_thread s) (\<lambda>t. t\<lparr>t_wait_channel := channel, t_state := THREAD_BLOCKED\<rparr>) s;
          nxt = find_next_runnable (current_thread s) (threads s) in
      if nxt = current_thread s then (s, True)
      else (dispatch nxt s, False))"

definition sched_sleep_resume :: "'a sched_state_scheme \<Rightarrow> 'a sched_state_scheme option" where
  "sched_sleep_resume s =
     (if t_state (thread_at (current_thread s) s) = THREAD_BLOCKED then None
      else Some (upd_thread (current_thread s) (\<lambda>t. t\<lparr>t_state := THREAD_RUNNING\<rparr>) s))"

definition wake :: "u64 \<Rightarrow> thread \<Rightarrow> thread" where
  "wake channel t =
     (if t_state t = THREAD_BLOCKED \<and> t_wait_channel t = channel
      then t\<lparr>t_state := THREAD_READY, t_wait_channel := 0\<rparr> else t)"

definition sched_wakeup :: "u64 \<Rightarrow> 'a sched_state_scheme \<Rightarrow> 'a sched_state_scheme" where
  "sched_wakeup channel s = s\<lparr>threads := map (wake channel) (threads s)\<rparr>"

definition sched_is_alive :: "int \<Rightarrow> 'a sched_state_scheme \<Rightarrow> bool" where
  "sched_is_alive tid s \<longleftrightarrow> tid_ok tid s \<and>
     (t_state (thread_at tid s) = THREAD_READY \<or> t_state (thread_at tid s) = THREAD_RUNNING \<or>
      t_state (thread_at tid s) = THREAD_BLOCKED)"

text \<open>One round of the loop of \<open>sched_wait\<close>: \<open>None\<close> when the wait is over, else the sleep.\<close>

definition sched_wait :: "int \<Rightarrow> 'a sched_state_scheme \<Rightarrow> ('a sched_state_scheme \<times> bool) option" where
  "sched_wait tid s = (if sched_is_alive tid s then Some (sched_sleep (word_of_int tid) s) else None)"

section \<open>Descriptor slots, priorities, identities\<close>

definition upd_fd :: "int \<Rightarrow> int \<Rightarrow> (fd_slot \<Rightarrow> fd_slot) \<Rightarrow> 'a sched_state_scheme \<Rightarrow> 'a sched_state_scheme" where
  "upd_fd tid fd f s = upd_thread tid (\<lambda>t. t\<lparr>t_fds := (t_fds t)[nat fd := f (t_fds t ! nat fd)]\<rparr>) s"

definition fd_ok :: "int \<Rightarrow> bool" where
  "fd_ok fd \<longleftrightarrow> \<not> (fd < 0 \<or> fd \<ge> int THREAD_MAX_FDS)"

definition sched_fd_open :: "int \<Rightarrow> int \<Rightarrow> 'a sched_state_scheme \<Rightarrow> 'a sched_state_scheme \<times> int" where
  "sched_fd_open k h s =
     (if current_thread s = -1 then (s, -1)
      else case first_index (\<lambda>f. fd_kind f = FD_KIND_UNUSED) (drop 2 (t_fds (thread_at (current_thread s) s))) of
        Some i \<Rightarrow> (upd_fd (current_thread s) (int (i + 2))
                     (\<lambda>f. f\<lparr>fd_kind := k, fd_handle := h, fd_cursor := 0\<rparr>) s, int (i + 2))
      | None \<Rightarrow> (s, -1))"

definition sched_fd_close :: "int \<Rightarrow> 'a sched_state_scheme \<Rightarrow> 'a sched_state_scheme \<times> int" where
  "sched_fd_close fd s =
     (if current_thread s = -1 \<or> \<not> fd_ok fd then (s, -1)
      else (upd_fd (current_thread s) fd reset_fd_slot s, 0))"

text \<open>A pointer to a slot is the pair of its thread and number; the slot is read through \<open>fd_at\<close>.\<close>

definition fd_at :: "int \<Rightarrow> int \<Rightarrow> 'a sched_state_scheme \<Rightarrow> fd_slot" where
  "fd_at tid fd s = t_fds (thread_at tid s) ! nat fd"

definition sched_fd_get_for :: "int \<Rightarrow> int \<Rightarrow> 'a sched_state_scheme \<Rightarrow> fd_slot option" where
  "sched_fd_get_for tid fd s =
     (if \<not> tid_ok tid s \<or> \<not> fd_ok fd then None
      else if fd_kind (fd_at tid fd s) = FD_KIND_UNUSED then None
      else Some (fd_at tid fd s))"

definition sched_fd_get :: "int \<Rightarrow> 'a sched_state_scheme \<Rightarrow> fd_slot option" where
  "sched_fd_get fd s =
     (if current_thread s = -1 \<or> \<not> fd_ok fd then None
      else if fd_kind (fd_at (current_thread s) fd s) = FD_KIND_UNUSED then None
      else Some (fd_at (current_thread s) fd s))"

definition sched_fd_set :: "int \<Rightarrow> int \<Rightarrow> int \<Rightarrow> int \<Rightarrow> 'a sched_state_scheme \<Rightarrow> 'a sched_state_scheme \<times> int" where
  "sched_fd_set tid fd k h s =
     (if \<not> tid_ok tid s \<or> \<not> fd_ok fd then (s, -1)
      else (upd_fd tid fd (\<lambda>f. f\<lparr>fd_kind := k, fd_handle := h, fd_cursor := 0\<rparr>) s, 0))"

definition sched_set_priority :: "int \<Rightarrow> int \<Rightarrow> 'a sched_state_scheme \<Rightarrow> 'a sched_state_scheme" where
  "sched_set_priority tid p s =
     (if \<not> tid_ok tid s then s
      else if p < 0 \<or> p \<ge> THREAD_PRIO_COUNT then s
      else upd_thread tid (t_priority_update (\<lambda>_. p)) s)"

definition sched_current_tid :: "'a sched_state_scheme \<Rightarrow> int" where
  "sched_current_tid s = current_thread s"

definition sched_get_uid :: "int \<Rightarrow> 'a sched_state_scheme \<Rightarrow> u32" where
  "sched_get_uid tid s = (if \<not> tid_ok tid s then 0 else t_uid (thread_at tid s))"

definition sched_set_uid :: "int \<Rightarrow> u32 \<Rightarrow> 'a sched_state_scheme \<Rightarrow> 'a sched_state_scheme \<times> int" where
  "sched_set_uid tid u s = (if \<not> tid_ok tid s then (s, -1) else (upd_thread tid (t_uid_update (\<lambda>_. u)) s, 0))"

definition sched_current_context :: "'a sched_state_scheme \<Rightarrow> u64" where
  "sched_current_context s =
     (if \<not> tid_ok (current_thread s) s then 0 else t_context (thread_at (current_thread s) s))"

definition sched_set_current_context :: "u64 \<Rightarrow> 'a sched_state_scheme \<Rightarrow> 'a sched_state_scheme" where
  "sched_set_current_context ctx s =
     (if \<not> tid_ok (current_thread s) s then s
      else upd_thread (current_thread s) (t_context_update (\<lambda>_. ctx)) s)"


section \<open>Reading the state after an update\<close>

lemma tid_ok_iff: "tid_ok tid s \<longleftrightarrow> 0 \<le> tid \<and> tid < thread_capacity s"
  by (auto simp: tid_ok_def)

lemma threads_upd_thread: "threads (upd_thread tid f s) = (threads s)[nat tid := f (threads s ! nat tid)]"
  by (simp add: upd_thread_def)

lemma length_threads_upd [simp]: "length (threads (upd_thread tid f s)) = length (threads s)"
  by (simp add: threads_upd_thread)

lemma nth_upd_thread:
  "i < length (threads s) \<Longrightarrow>
     threads (upd_thread tid f s) ! i = (if nat tid = i then f (threads s ! i) else threads s ! i)"
  by (auto simp: threads_upd_thread)

lemma upd_thread_fields [simp]:
  "phys_mem (upd_thread tid f s) = phys_mem s" "kernel_pml4 (upd_thread tid f s) = kernel_pml4 s"
  "cr3 (upd_thread tid f s) = cr3 s" "current_thread (upd_thread tid f s) = current_thread s"
  "cpu (upd_thread tid f s) = cpu s" "tss_rsp0 (upd_thread tid f s) = tss_rsp0 s"
  "threads_ptr (upd_thread tid f s) = threads_ptr s" "stack_regions (upd_thread tid f s) = stack_regions s"
  by (simp_all add: upd_thread_def)

lemma upd_thread_upd_thread:
  "nat tid < length (threads s) \<Longrightarrow> upd_thread tid f (upd_thread tid g s) = upd_thread tid (f \<circ> g) s"
  by (simp add: upd_thread_def)

lemma switch_fields [simp]:
  "threads (push64 v s) = threads s" "current_thread (push64 v s) = current_thread s"
  "threads (pop64 r s) = threads s" "current_thread (pop64 r s) = current_thread s"
  "phys_mem (pop64 r s) = phys_mem s"
  by (simp_all add: push64_def pop64_def Let_def)

lemma context_fields [simp]:
  "threads (save_context s) = threads s" "current_thread (save_context s) = current_thread s"
  "threads (restore_context s) = threads s" "current_thread (restore_context s) = current_thread s"
  "phys_mem (restore_context s) = phys_mem s"
  by (simp_all add: save_context_def restore_context_def Let_def)

lemma activate_fields [simp]:
  "threads (activate tid s) = threads s" "current_thread (activate tid s) = current_thread s"
  "phys_mem (activate tid s) = phys_mem s" "cpu (activate tid s) = cpu s"
  "cr3 (activate tid s) = t_address_space (threads s ! nat tid)"
  "tss_rsp0 (activate tid s) = t_stack_low (threads s ! nat tid) + THREAD_STACK_SIZE"
  by (simp_all add: activate_def tss_set_kernel_stack_def vmm_switch_address_space_def thread_at_def)

text \<open>Two tables that differ at most in the saved stack pointers.\<close>

definition same_but_rsp :: "thread list \<Rightarrow> thread list \<Rightarrow> bool" where
  "same_but_rsp ts us \<longleftrightarrow> list_all2 (\<lambda>t u. \<exists>v. t = t_rsp_update (\<lambda>_. v) u) ts us"

lemma same_but_rsp_nth:
  assumes "same_but_rsp ts us" and "i < length us"
  shows "t_state (ts ! i) = t_state (us ! i)" "t_priority (ts ! i) = t_priority (us ! i)"
    "t_ticks_remaining (ts ! i) = t_ticks_remaining (us ! i)" "t_fds (ts ! i) = t_fds (us ! i)"
    "t_wait_channel (ts ! i) = t_wait_channel (us ! i)" "t_uid (ts ! i) = t_uid (us ! i)"
    "t_address_space (ts ! i) = t_address_space (us ! i)" "t_stack_low (ts ! i) = t_stack_low (us ! i)"
proof -
  obtain v where "ts ! i = t_rsp_update (\<lambda>_. v) (us ! i)"
    using list_all2_nthD2 [OF assms(1) [unfolded same_but_rsp_def] assms(2)] by blast
  then show "t_state (ts ! i) = t_state (us ! i)" "t_priority (ts ! i) = t_priority (us ! i)"
    "t_ticks_remaining (ts ! i) = t_ticks_remaining (us ! i)" "t_fds (ts ! i) = t_fds (us ! i)"
    "t_wait_channel (ts ! i) = t_wait_channel (us ! i)" "t_uid (ts ! i) = t_uid (us ! i)"
    "t_address_space (ts ! i) = t_address_space (us ! i)" "t_stack_low (ts ! i) = t_stack_low (us ! i)"
    by simp_all
qed

lemma same_but_rsp_length: "same_but_rsp ts us \<Longrightarrow> length ts = length us"
  unfolding same_but_rsp_def by (rule list_all2_lengthD)

lemma same_but_rsp_refl [simp]: "same_but_rsp ts ts"
proof -
  have "\<exists>v. t = t_rsp_update (\<lambda>_. v) t" for t :: thread by (intro exI [of _ "t_rsp t"]) simp
  then show ?thesis unfolding same_but_rsp_def by (simp add: list_all2_refl)
qed

lemma same_but_rsp_upd: "same_but_rsp (ts[i := t_rsp_update (\<lambda>_. v) (ts ! i)]) ts"
proof -
  have self: "\<exists>v. t = t_rsp_update (\<lambda>_. v) t" for t :: thread by (intro exI [of _ "t_rsp t"]) simp
  have "\<exists>w. ts[i := t_rsp_update (\<lambda>_. v) (ts ! i)] ! j = t_rsp_update (\<lambda>_. w) (ts ! j)"
    if "j < length ts" for j
  proof (cases "j = i")
    case True
    then show ?thesis using that by (intro exI [of _ v]) simp
  next
    case False
    then show ?thesis using self [of "ts ! j"] by simp
  qed
  then show ?thesis by (simp add: same_but_rsp_def list_all2_conv_all_nth)
qed

lemma switch_context_threads:
  "same_but_rsp (threads (switch_context p nxt s)) (threads s)"
  "current_thread (switch_context p nxt s) = current_thread s"
proof -
  show "same_but_rsp (threads (switch_context p nxt s)) (threads s)"
    by (cases p) (simp_all add: switch_context_def Let_def threads_upd_thread same_but_rsp_upd)
  show "current_thread (switch_context p nxt s) = current_thread s"
    by (cases p) (simp_all add: switch_context_def Let_def)
qed

text \<open>What \<open>dispatch\<close> does to the table.\<close>

lemma dispatch_table:
  assumes "i < length (threads s)" and "nat nxt < length (threads s)"
  shows "current_thread (dispatch nxt s) = nxt" "length (threads (dispatch nxt s)) = length (threads s)"
    "t_state (threads (dispatch nxt s) ! i) = (if nat nxt = i then THREAD_RUNNING else t_state (threads s ! i))"
    "t_ticks_remaining (threads (dispatch nxt s) ! i) =
       (if nat nxt = i then quantum_ticks (t_priority (threads s ! i)) else t_ticks_remaining (threads s ! i))"
    "t_priority (threads (dispatch nxt s) ! i) = t_priority (threads s ! i)"
    "t_fds (threads (dispatch nxt s) ! i) = t_fds (threads s ! i)"
    "t_uid (threads (dispatch nxt s) ! i) = t_uid (threads s ! i)"
    "t_wait_channel (threads (dispatch nxt s) ! i) = t_wait_channel (threads s ! i)"
proof -
  let ?ts = "(threads s)[nat nxt := (threads s ! nat nxt)\<lparr>t_state := THREAD_RUNNING,
     t_ticks_remaining := quantum_ticks (t_priority (threads s ! nat nxt))\<rparr>]"
  have same: "same_but_rsp (threads (dispatch nxt s)) ?ts"
    using switch_context_threads(1) [of "Some (current_thread s)" nxt
        "activate nxt (upd_thread nxt (\<lambda>t. t\<lparr>t_ticks_remaining := quantum_ticks (t_priority t)\<rparr>)
           (upd_thread nxt (\<lambda>t. t\<lparr>t_state := THREAD_RUNNING\<rparr>) s)\<lparr>current_thread := nxt\<rparr>)"] assms(2)
    by (simp add: dispatch_def Let_def threads_upd_thread)
  show "current_thread (dispatch nxt s) = nxt"
    by (simp add: dispatch_def Let_def switch_context_threads(2))
  show "length (threads (dispatch nxt s)) = length (threads s)"
    using same_but_rsp_length [OF same] by simp
  have i: "i < length ?ts" using assms(1) by simp
  show "t_state (threads (dispatch nxt s) ! i) = (if nat nxt = i then THREAD_RUNNING else t_state (threads s ! i))"
    "t_ticks_remaining (threads (dispatch nxt s) ! i) =
       (if nat nxt = i then quantum_ticks (t_priority (threads s ! i)) else t_ticks_remaining (threads s ! i))"
    "t_priority (threads (dispatch nxt s) ! i) = t_priority (threads s ! i)"
    "t_fds (threads (dispatch nxt s) ! i) = t_fds (threads s ! i)"
    "t_uid (threads (dispatch nxt s) ! i) = t_uid (threads s ! i)"
    "t_wait_channel (threads (dispatch nxt s) ! i) = t_wait_channel (threads s ! i)"
    using assms by (simp_all add: same_but_rsp_nth [OF same i] nth_list_update)
qed

section \<open>The next runnable thread\<close>

lemma next_runnable_loop_steps:
  assumes "0 \<le> from" and "from < int (length ts)" and "k \<le> length ts"
  shows "\<exists>j. next_runnable_loop k ts from = (from + int j) mod int (length ts) \<and> j \<le> k \<and>
     (\<forall>i. 1 \<le> i \<and> i < j \<longrightarrow> \<not> runnable (ts ! nat ((from + int i) mod int (length ts)))) \<and>
     (1 \<le> j \<and> runnable (ts ! nat ((from + int j) mod int (length ts))) \<or>
      j = k \<and> (\<forall>i. 1 \<le> i \<and> i \<le> k \<longrightarrow> \<not> runnable (ts ! nat ((from + int i) mod int (length ts)))))"
  using assms
proof (induction k arbitrary: "from")
  case 0
  then show ?case by (intro exI [of _ 0]) simp
next
  case (Suc k)
  let ?n = "int (length ts)" and ?f = "(from + 1) mod int (length ts)"
  have n: "0 < ?n" using Suc.prems by linarith
  have shift: "(?f + int i) mod ?n = (from + int (Suc i)) mod ?n" for i
    using mod_add_left_eq [of "from + 1" ?n "int i"] by (simp add: ac_simps)
  show ?case
  proof (cases "runnable (ts ! nat ?f)")
    case True
    then show ?thesis by (intro exI [of _ 1]) simp
  next
    case False
    have f: "0 \<le> ?f" "?f < ?n" using n by simp_all
    obtain j where j: "next_runnable_loop k ts ?f = (from + int (Suc j)) mod ?n" "j \<le> k"
      "\<forall>i. 1 \<le> i \<and> i < j \<longrightarrow> \<not> runnable (ts ! nat ((from + int (Suc i)) mod ?n))"
      "1 \<le> j \<and> runnable (ts ! nat ((from + int (Suc j)) mod ?n)) \<or>
       j = k \<and> (\<forall>i. 1 \<le> i \<and> i \<le> k \<longrightarrow> \<not> runnable (ts ! nat ((from + int (Suc i)) mod ?n)))"
      using Suc.IH [OF f] Suc.prems(3) unfolding shift by auto
    have ext: "\<not> runnable (ts ! nat ((from + int i) mod ?n))"
      if "1 \<le> i" "i \<le> Suc b" "\<forall>i. 1 \<le> i \<and> i \<le> b \<longrightarrow> \<not> runnable (ts ! nat ((from + int (Suc i)) mod ?n))" for i b
      using that False by (cases i; cases "i = 1") auto
    show ?thesis
    proof (intro exI [of _ "Suc j"] conjI)
      show "next_runnable_loop (Suc k) ts from = (from + int (Suc j)) mod ?n" using False j(1) by simp
      show "Suc j \<le> Suc k" using j(2) by simp
      show "\<forall>i. 1 \<le> i \<and> i < Suc j \<longrightarrow> \<not> runnable (ts ! nat ((from + int i) mod ?n))"
        using ext [where b = "j - 1"] j(3) by (metis False One_nat_def Suc_diff_1 Suc_le_lessD diff_Suc_1 le_neq_implies_less less_Suc_eq_le linorder_not_le not_less_eq_eq of_nat_1 le_less_Suc_eq)
      show "1 \<le> Suc j \<and> runnable (ts ! nat ((from + int (Suc j)) mod ?n)) \<or>
        Suc j = Suc k \<and> (\<forall>i. 1 \<le> i \<and> i \<le> Suc k \<longrightarrow> \<not> runnable (ts ! nat ((from + int i) mod ?n)))"
        using j(4) ext [where b = k] by auto
    qed
  qed
qed


text \<open>How far thread \<open>b\<close> is ahead of thread \<open>a\<close> in the round; \<open>a\<close> itself comes last.\<close>

definition ahead :: "nat \<Rightarrow> int \<Rightarrow> int \<Rightarrow> nat" where
  "ahead n a b = nat ((b - a - 1) mod int n)"

lemma ahead_step:
  assumes "1 \<le> d" and "d \<le> n"
  shows "ahead n a ((a + int d) mod int n) = d - 1"
proof -
  have "((a + int d) mod int n - a - 1) mod int n = (a + int d - a - 1) mod int n"
    by (metis mod_diff_left_eq)
  also have "\<dots> = int (d - 1)" using assms by (simp add: of_nat_diff mod_pos_pos_trivial)
  finally show ?thesis by (simp add: ahead_def)
qed

lemma ahead_inverse:
  assumes "0 \<le> b" and "b < int n"
  shows "b = (a + int (Suc (ahead n a b))) mod int n" and "ahead n a b < n"
proof -
  have n: "0 < int n" using assms by linarith
  then have "int (ahead n a b) = (b - a - 1) mod int n" by (simp add: ahead_def)
  then have "(a + int (Suc (ahead n a b))) mod int n = (a + 1 + (b - a - 1) mod int n) mod int n"
    by (simp add: ac_simps)
  also have "\<dots> = b mod int n" by (simp add: mod_add_right_eq)
  finally show "b = (a + int (Suc (ahead n a b))) mod int n" using assms by simp
  show "ahead n a b < n" using n by (simp add: ahead_def nat_less_iff)
qed

lemma find_next_runnable_cases:
  assumes "0 \<le> from" and "from < int (length ts)"
  obtains (found) d where "find_next_runnable from ts = (from + int d) mod int (length ts)"
      "1 \<le> d" "d \<le> length ts" "runnable (ts ! nat ((from + int d) mod int (length ts)))"
      "\<And>i. 1 \<le> i \<Longrightarrow> i < d \<Longrightarrow> \<not> runnable (ts ! nat ((from + int i) mod int (length ts)))"
  | (none) "find_next_runnable from ts = from" "\<And>t. t \<in> set ts \<Longrightarrow> \<not> runnable t"
proof -
  let ?n = "int (length ts)"
  obtain j where j: "find_next_runnable from ts = (from + int j) mod ?n" "j \<le> length ts"
     "\<forall>i. 1 \<le> i \<and> i < j \<longrightarrow> \<not> runnable (ts ! nat ((from + int i) mod ?n))"
     "1 \<le> j \<and> runnable (ts ! nat ((from + int j) mod ?n)) \<or>
      j = length ts \<and> (\<forall>i. 1 \<le> i \<and> i \<le> length ts \<longrightarrow> \<not> runnable (ts ! nat ((from + int i) mod ?n)))"
    using next_runnable_loop_steps [OF assms order_refl] unfolding find_next_runnable_def by blast
  from j(4) show ?thesis
  proof
    assume "1 \<le> j \<and> runnable (ts ! nat ((from + int j) mod ?n))"
    then show ?thesis using found [OF j(1) _ j(2)] j(3) by blast
  next
    assume all: "j = length ts \<and> (\<forall>i. 1 \<le> i \<and> i \<le> length ts \<longrightarrow> \<not> runnable (ts ! nat ((from + int i) mod ?n)))"
    then have "find_next_runnable from ts = (from + ?n) mod ?n" using j(1) by metis
    then have "find_next_runnable from ts = from" using assms by simp
    moreover have "\<not> runnable t" if t: "t \<in> set ts" for t
    proof -
      obtain b where b: "b < length ts" "t = ts ! b" using t by (auto simp: in_set_conv_nth)
      let ?d = "ahead (length ts) from (int b)"
      have "int b = (from + int (Suc ?d)) mod ?n" "Suc ?d \<le> length ts"
        using ahead_inverse [of "int b" "length ts" "from"] b(1) by auto
      then have "\<not> runnable (ts ! nat (int b))"
        using all by (metis le_add1 plus_1_eq_Suc)
      then show ?thesis using b(2) by simp
    qed
    ultimately show ?thesis by (rule none)
  qed
qed

section \<open>The scheduler's invariant\<close>

text \<open>
  The current thread is a slot of the table, a \<open>RUNNING\<close> thread is the current one, and every slot
  has its eight descriptors, a valid priority and at most the longest quantum left.
\<close>

definition thread_ok :: "thread \<Rightarrow> bool" where
  "thread_ok t \<longleftrightarrow> length (t_fds t) = THREAD_MAX_FDS \<and> 0 \<le> t_priority t \<and> t_priority t < THREAD_PRIO_COUNT \<and>
     t_ticks_remaining t \<le> 8"

definition sched_inv :: "'a sched_state_scheme \<Rightarrow> bool" where
  "sched_inv s \<longleftrightarrow> tid_ok (current_thread s) s \<and>
     (\<forall>i<length (threads s). thread_ok (threads s ! i) \<and>
        (t_state (threads s ! i) = THREAD_RUNNING \<longrightarrow> int i = current_thread s))"

lemma sched_inv_current:
  assumes "sched_inv s"
  shows "0 \<le> current_thread s" "current_thread s < thread_capacity s" "nat (current_thread s) < length (threads s)"
    "current_thread s \<noteq> -1"
  using assms by (auto simp: sched_inv_def tid_ok_iff)

lemma quantum_ticks_bounds:
  "0 \<le> p \<Longrightarrow> p < THREAD_PRIO_COUNT \<Longrightarrow> 2 \<le> quantum_ticks p \<and> quantum_ticks p \<le> 8"
proof -
  assume "0 \<le> p" "p < THREAD_PRIO_COUNT"
  then have "p = 0 \<or> p = 1 \<or> p = 2" by (auto simp: THREAD_PRIO_COUNT_def)
  then show ?thesis by (auto simp: quantum_ticks_def)
qed

lemma find_next_runnable_range:
  assumes "0 \<le> from" and "from < int (length ts)"
  shows "0 \<le> find_next_runnable from ts" "find_next_runnable from ts < int (length ts)"
proof -
  have "0 \<le> find_next_runnable from ts \<and> find_next_runnable from ts < int (length ts)"
    using assms
  proof (cases rule: find_next_runnable_cases)
    case (found d)
    have "0 < int (length ts)" using assms by linarith
    then show ?thesis unfolding found(1) by simp
  next
    case none
    show ?thesis unfolding none(1) using assms by simp
  qed
  then show "0 \<le> find_next_runnable from ts" "find_next_runnable from ts < int (length ts)" by auto
qed

text \<open>Changing one slot to one that is as good, without making it \<open>RUNNING\<close>.\<close>

lemma sched_inv_upd_thread:
  assumes "sched_inv s"
    and "\<And>t. thread_ok t \<Longrightarrow> thread_ok (f t)"
    and "\<And>t. t_state (f t) = THREAD_RUNNING \<Longrightarrow> t_state t = THREAD_RUNNING"
  shows "sched_inv (upd_thread tid f s)"
  using assms by (auto simp: sched_inv_def tid_ok_iff nth_upd_thread)

lemma sched_inv_dispatch:
  assumes inv: "sched_inv s" and nxt: "0 \<le> nxt" "nxt < thread_capacity s"
    and cur: "t_state (threads s ! nat (current_thread s)) \<noteq> THREAD_RUNNING \<or> nxt = current_thread s"
  shows "sched_inv (dispatch nxt s)"
proof -
  have n: "nat nxt < length (threads s)" using nxt by linarith
  note d = dispatch_table [OF _ n]
  have "thread_ok (threads (dispatch nxt s) ! i) \<and>
      (t_state (threads (dispatch nxt s) ! i) = THREAD_RUNNING \<longrightarrow> int i = nxt)" if i: "i < length (threads s)" for i
  proof -
    have ok: "thread_ok (threads s ! i)" and run: "t_state (threads s ! i) = THREAD_RUNNING \<Longrightarrow> int i = current_thread s"
      using inv i by (auto simp: sched_inv_def)
    have "quantum_ticks (t_priority (threads s ! i)) \<le> 8"
      using ok quantum_ticks_bounds by (simp add: thread_ok_def)
    moreover have "nat (current_thread s) = i" if "t_state (threads s ! i) = THREAD_RUNNING"
      using run [OF that] by linarith
    ultimately show ?thesis using ok run cur nxt by (auto simp: thread_ok_def d [OF i])
  qed
  moreover have "current_thread (dispatch nxt s) = nxt" "length (threads (dispatch nxt s)) = length (threads s)"
    using d(1,2) n by blast+
  ultimately show ?thesis using nxt by (simp add: sched_inv_def tid_ok_iff)
qed

lemma sched_inv_yield [inv_intros]: "sched_inv s \<Longrightarrow> sched_inv (sched_yield s)"
proof -
  assume inv: "sched_inv s"
  note cur = sched_inv_current [OF inv]
  let ?s = "upd_thread (current_thread s) (\<lambda>t. t\<lparr>t_state := THREAD_READY\<rparr>) s"
  have "sched_inv ?s" by (rule sched_inv_upd_thread [OF inv]) (simp_all add: thread_ok_def)
  moreover have "t_state (threads ?s ! nat (current_thread s)) \<noteq> THREAD_RUNNING"
    using cur by (simp add: nth_upd_thread)
  ultimately show ?thesis
    using find_next_runnable_range [OF cur(1,2)] inv by (auto simp: sched_yield_def Let_def intro!: sched_inv_dispatch)
qed

lemma sched_inv_tick [inv_intros]: "sched_inv s \<Longrightarrow> sched_inv (sched_tick s)"
proof -
  assume inv: "sched_inv s"
  have "sched_inv (upd_thread (current_thread s) (\<lambda>t. t\<lparr>t_ticks_remaining := t_ticks_remaining t - 1\<rparr>) s)"
    by (rule sched_inv_upd_thread [OF inv]) (simp_all add: thread_ok_def)
  then show ?thesis using inv by (simp add: sched_tick_def Let_def sched_inv_yield)
qed

lemma sched_inv_sleep [inv_intros]: "sched_inv s \<Longrightarrow> sched_inv (fst (sched_sleep ch s))"
proof -
  assume inv: "sched_inv s"
  note cur = sched_inv_current [OF inv]
  let ?s = "upd_thread (current_thread s) (\<lambda>t. t\<lparr>t_wait_channel := ch, t_state := THREAD_BLOCKED\<rparr>) s"
  have inv': "sched_inv ?s" by (rule sched_inv_upd_thread [OF inv]) (simp_all add: thread_ok_def)
  moreover have "t_state (threads ?s ! nat (current_thread s)) \<noteq> THREAD_RUNNING"
    using cur by (simp add: nth_upd_thread)
  ultimately show ?thesis
    using find_next_runnable_range [of "current_thread s" "threads ?s"] cur
    by (auto simp: sched_sleep_def Let_def intro!: sched_inv_dispatch)
qed

lemma sched_inv_resume [inv_intros]: "sched_inv s \<Longrightarrow> sched_sleep_resume s = Some t \<Longrightarrow> sched_inv t"
  by (auto simp: sched_sleep_resume_def sched_inv_def tid_ok_iff nth_upd_thread thread_ok_def split: if_splits)

lemma sched_inv_wakeup [inv_intros]: "sched_inv s \<Longrightarrow> sched_inv (sched_wakeup ch s)"
  by (auto simp: sched_inv_def tid_ok_iff sched_wakeup_def wake_def thread_ok_def)

lemma sched_inv_set_priority [inv_intros]: "sched_inv s \<Longrightarrow> sched_inv (sched_set_priority tid p s)"
  unfolding sched_set_priority_def by (auto intro!: sched_inv_upd_thread simp: thread_ok_def)

lemma sched_inv_upd_fd: "sched_inv s \<Longrightarrow> sched_inv (upd_fd tid fd f s)"
  unfolding upd_fd_def by (rule sched_inv_upd_thread) (simp_all add: thread_ok_def)

lemma sched_inv_fd_open [inv_intros]: "sched_inv s \<Longrightarrow> sched_inv (fst (sched_fd_open k h s))"
  by (simp add: sched_fd_open_def sched_inv_upd_fd split: option.split)

lemma sched_inv_fd_close [inv_intros]: "sched_inv s \<Longrightarrow> sched_inv (fst (sched_fd_close fd s))"
  by (simp add: sched_fd_close_def sched_inv_upd_fd)

lemma sched_inv_fd_set [inv_intros]: "sched_inv s \<Longrightarrow> sched_inv (fst (sched_fd_set tid fd k h s))"
  by (simp add: sched_fd_set_def sched_inv_upd_fd)

lemma sched_inv_set_uid [inv_intros]: "sched_inv s \<Longrightarrow> sched_inv (fst (sched_set_uid tid u s))"
  unfolding sched_set_uid_def by (auto intro!: sched_inv_upd_thread simp: thread_ok_def)

lemma sched_inv_set_context [inv_intros]: "sched_inv s \<Longrightarrow> sched_inv (sched_set_current_context c s)"
  unfolding sched_set_current_context_def by (auto intro!: sched_inv_upd_thread simp: thread_ok_def)

lemma sched_inv_cong:
  "threads t = threads s \<Longrightarrow> current_thread t = current_thread s \<Longrightarrow> sched_inv t = sched_inv s"
  by (simp add: sched_inv_def tid_ok_iff)

lemma sched_inv_set_address_space [inv_intros]: "sched_inv s \<Longrightarrow> sched_inv (sched_set_address_space tid sp s)"
proof -
  assume inv: "sched_inv s"
  have "sched_inv (upd_thread tid (t_address_space_update (\<lambda>_. sp)) s)"
    by (rule sched_inv_upd_thread [OF inv]) (simp_all add: thread_ok_def)
  moreover have "sched_inv (vmm_switch_address_space sp t) = sched_inv t" for t :: "'a sched_state_scheme"
    by (rule sched_inv_cong) (simp_all add: vmm_switch_address_space_def)
  ultimately show ?thesis using inv by (auto simp: sched_set_address_space_def Let_def)
qed


section \<open>Round robin\<close>

lemma ahead_shift:
  assumes "0 \<le> b" and "b < int n" and "d \<le> ahead n a b"
  shows "ahead n ((a + int d) mod int n) b = ahead n a b - d"
proof -
  have n: "0 < int n" using assms by linarith
  have "(b - (a + int d) mod int n - 1) mod int n = (b - a - 1 - int d) mod int n"
    by (metis (no_types) diff_diff_eq diff_right_commute mod_diff_eq mod_mod_trivial)
  also have "\<dots> = ((b - a - 1) mod int n - int d) mod int n" by (simp add: mod_diff_left_eq)
  also have "(b - a - 1) mod int n = int (ahead n a b)" using n by (simp add: ahead_def)
  also have "(int (ahead n a b) - int d) mod int n = int (ahead n a b - d)"
    using assms ahead_inverse(2) [OF assms(1,2), of a] by (simp add: of_nat_diff mod_pos_pos_trivial)
  finally show ?thesis by (simp add: ahead_def)
qed

text \<open>The next dispatched thread is no farther ahead than any runnable one.\<close>

lemma find_next_runnable_ahead:
  assumes cur: "0 \<le> cur" "cur < int (length ts)" and i: "i < length ts" "runnable (ts ! i)" "int i \<noteq> cur"
  obtains d where "find_next_runnable cur ts = (cur + int d) mod int (length ts)"
    "1 \<le> d" "d \<le> Suc (ahead (length ts) cur (int i))" "find_next_runnable cur ts \<noteq> cur"
    "runnable (ts ! nat (find_next_runnable cur ts))"
  using cur
proof (cases rule: find_next_runnable_cases)
  case (found d)
  let ?n = "length ts" and ?a = "ahead (length ts) cur (int i)"
  have inv: "int i = (cur + int (Suc ?a)) mod int ?n" "?a < ?n"
    using ahead_inverse [of "int i" ?n cur] i(1) by auto
  have le: "d \<le> Suc ?a"
  proof (rule ccontr)
    assume "\<not> d \<le> Suc ?a"
    then have "\<not> runnable (ts ! nat ((cur + int (Suc ?a)) mod int ?n))" using found(5) [of "Suc ?a"] by simp
    then show False using inv(1) i(2) by (metis nat_int)
  qed
  have "find_next_runnable cur ts \<noteq> cur"
  proof
    assume "find_next_runnable cur ts = cur"
    then have "ahead ?n cur cur = d - 1" using ahead_step [OF found(2,3), of cur] found(1) by simp
    moreover have "ahead ?n cur cur = ?n - 1"
      using ahead_step [of ?n ?n cur] cur by simp
    ultimately have "?a = ?n - 1" using le found(2) inv(2) by linarith
    then have "int i = (cur + int ?n) mod int ?n" using inv i(1) by (metis Suc_diff_1 gr_implies_not0 neq0_conv)
    then show False using i(3) cur by simp
  qed
  then show ?thesis using that found(1,2,4) le by simp
next
  case none
  then show ?thesis using i(1,2) by auto
qed

text \<open>An upper bound of the ticks until thread \<open>i\<close> is dispatched.\<close>

definition turn_weight :: "nat \<Rightarrow> 'a sched_state_scheme \<Rightarrow> nat" where
  "turn_weight i s = 8 * ahead (length (threads s)) (current_thread s) (int i) +
     nat (max 1 (t_ticks_remaining (threads s ! nat (current_thread s))))"

definition waits_turn :: "nat \<Rightarrow> 'a sched_state_scheme \<Rightarrow> bool" where
  "waits_turn i s \<longleftrightarrow> sched_inv s \<and> i < length (threads s) \<and> t_state (threads s ! i) = THREAD_READY \<and>
     int i \<noteq> current_thread s"

lemma sched_yield_progress:
  assumes "waits_turn i s"
  shows "length (threads (sched_yield s)) = length (threads s)"
    and "current_thread (sched_yield s) = int i \<or>
      waits_turn i (sched_yield s) \<and> turn_weight i (sched_yield s) < turn_weight i s"
proof -
  let ?n = "length (threads s)" and ?c = "current_thread s"
  let ?s = "upd_thread ?c (\<lambda>t. t\<lparr>t_state := THREAD_READY\<rparr>) s" and ?nx = "find_next_runnable ?c (threads s)"
  have inv: "sched_inv s" and i: "i < ?n" "t_state (threads s ! i) = THREAD_READY" "int i \<noteq> ?c"
    using assms by (auto simp: waits_turn_def)
  note cur = sched_inv_current [OF inv]
  obtain d where d: "?nx = (?c + int d) mod int ?n" "1 \<le> d" "d \<le> Suc (ahead ?n ?c (int i))" "?nx \<noteq> ?c"
    using find_next_runnable_ahead [OF cur(1,2) i(1) _ i(3)] i(2) by (auto simp: runnable_def)
  have y: "sched_yield s = dispatch ?nx ?s" using d(4) cur by (simp add: sched_yield_def Let_def)
  have nx: "0 \<le> ?nx" "nat ?nx < length (threads ?s)" "nat ?nx < ?n"
    using find_next_runnable_range [OF cur(1,2)] by simp_all
  have dt: "current_thread (sched_yield s) = ?nx" "length (threads (sched_yield s)) = ?n"
    "t_state (threads (sched_yield s) ! i) = (if nat ?nx = i then THREAD_RUNNING else t_state (threads ?s ! i))"
    using dispatch_table [of i ?s ?nx] i nx by (simp_all add: y)
  then show "length (threads (sched_yield s)) = ?n" by simp
  show "current_thread (sched_yield s) = int i \<or>
      waits_turn i (sched_yield s) \<and> turn_weight i (sched_yield s) < turn_weight i s"
  proof (cases "?nx = int i")
    case True
    then show ?thesis using dt by simp
  next
    case False
    have inv': "sched_inv (sched_yield s)" using inv by (rule sched_inv_yield)
    have "nat ?c \<noteq> i" using i(3) cur(1) by auto
    then have "waits_turn i (sched_yield s)"
      using False dt i inv' nx(1) by (auto simp: waits_turn_def nth_upd_thread)
    moreover have "d \<noteq> Suc (ahead ?n ?c (int i))"
      using False d(1) ahead_inverse(1) [of "int i" ?n ?c] i(1) by auto
    then have "ahead ?n ?nx (int i) = ahead ?n ?c (int i) - d" "d \<le> ahead ?n ?c (int i)"
      using ahead_shift [of "int i" ?n d ?c] d i(1) by auto
    moreover have "t_ticks_remaining (threads (sched_yield s) ! nat ?nx) \<le> 8"
      using inv' nx dt by (auto simp: sched_inv_def thread_ok_def)
    moreover have "8 * (a - d) + nat (max 1 x) < 8 * a + nat (max 1 y)" if "1 \<le> d" "d \<le> a" "x \<le> 8" for a x y
      using that by (auto simp: max_def)
    ultimately show ?thesis using d(2) dt by (simp add: turn_weight_def)
  qed
qed

lemma sched_tick_progress:
  assumes "waits_turn i s"
  shows "length (threads (sched_tick s)) = length (threads s)"
    and "current_thread (sched_tick s) = int i \<or>
      waits_turn i (sched_tick s) \<and> turn_weight i (sched_tick s) < turn_weight i s"
proof -
  let ?c = "current_thread s"
  let ?s = "upd_thread ?c (\<lambda>t. t\<lparr>t_ticks_remaining := t_ticks_remaining t - 1\<rparr>) s"
  have inv: "sched_inv s" using assms by (simp add: waits_turn_def)
  note cur = sched_inv_current [OF inv]
  have "sched_inv ?s" by (rule sched_inv_upd_thread [OF inv]) (simp_all add: thread_ok_def)
  then have w: "waits_turn i ?s" using assms by (auto simp: waits_turn_def nth_upd_thread)
  have weight: "turn_weight i ?s \<le> turn_weight i s" using cur by (simp add: turn_weight_def nth_upd_thread)
  have tick: "sched_tick s = (if t_ticks_remaining (threads s ! nat ?c) - 1 > 0 then ?s else sched_yield ?s)"
    using cur by (simp add: sched_tick_def Let_def thread_at_def nth_upd_thread)
  show "length (threads (sched_tick s)) = length (threads s)"
    using sched_yield_progress(1) [OF w] by (simp add: tick)
  show "current_thread (sched_tick s) = int i \<or>
      waits_turn i (sched_tick s) \<and> turn_weight i (sched_tick s) < turn_weight i s"
  proof (cases "t_ticks_remaining (threads s ! nat ?c) - 1 > 0")
    case True
    then have "turn_weight i ?s < turn_weight i s" using cur by (simp add: turn_weight_def nth_upd_thread)
    then show ?thesis using True w by (simp add: tick)
  next
    case False
    then show ?thesis using sched_yield_progress(2) [OF w] weight by (auto simp: tick)
  qed
qed

lemma waits_turn_bounded:
  "waits_turn i s \<Longrightarrow> \<exists>k\<le>turn_weight i s. current_thread ((sched_tick ^^ k) s) = int i"
proof (induction "turn_weight i s" arbitrary: s rule: less_induct)
  case less
  show ?case
  proof (cases "current_thread (sched_tick s) = int i")
    case True
    moreover have "1 \<le> turn_weight i s" by (simp add: turn_weight_def)
    ultimately show ?thesis by (intro exI [of _ 1]) simp
  next
    case False
    then have w: "waits_turn i (sched_tick s)" "turn_weight i (sched_tick s) < turn_weight i s"
      using sched_tick_progress(2) [OF less.prems] by auto
    obtain k where "k \<le> turn_weight i (sched_tick s)" "current_thread ((sched_tick ^^ k) (sched_tick s)) = int i"
      using less.hyps [OF w(2,1)] by blast
    then show ?thesis using w(2) by (intro exI [of _ "Suc k"]) (simp add: funpow_Suc_right del: funpow.simps)
  qed
qed


section \<open>Context switches\<close>

text \<open>
  \<open>saved_frame m sp c\<close>: the frame at \<open>sp\<close> is what \<open>switch_context\<close> pops to resume with the
  registers \<open>c\<close>.
\<close>

definition saved_frame :: "memory \<Rightarrow> u64 \<Rightarrow> cpu_regs \<Rightarrow> bool" where
  "saved_frame m sp c \<longleftrightarrow> rd64 m sp = r15 c \<and> rd64 m (sp + 8) = r14 c \<and> rd64 m (sp + 16) = r13 c \<and>
     rd64 m (sp + 24) = r12 c \<and> rd64 m (sp + 32) = rbx c \<and> rd64 m (sp + 40) = rbp c \<and>
     rd64 m (sp + 48) = rflags c \<and> rd64 m (sp + 56) = rip c \<and> rsp c = sp + 64"

lemma restore_saved_frame: "saved_frame (phys_mem s) (rsp (cpu s)) c \<Longrightarrow> cpu (restore_context s) = c"
  by (simp add: saved_frame_def restore_context_def pop64_def Let_def add.assoc)

lemma rd64_wr64_offset:
  "unat i + 8 \<le> unat j \<Longrightarrow> unat j + 8 \<le> 2 ^ 64 \<Longrightarrow> rd64 (wr64 (b + i) v m) (b + j) = rd64 m (b + j)"
  "unat i + 8 \<le> unat j \<Longrightarrow> unat j + 8 \<le> 2 ^ 64 \<Longrightarrow> rd64 (wr64 (b + j) v m) (b + i) = rd64 m (b + i)"
  by (rule rd64_wr64_other, rule disjnt_offsets; simp)+

lemma rd64_wr64_offset0:
  "8 \<le> unat j \<Longrightarrow> unat j + 8 \<le> 2 ^ 64 \<Longrightarrow> rd64 (wr64 b v m) (b + j) = rd64 m (b + j)"
  "8 \<le> unat j \<Longrightarrow> unat j + 8 \<le> 2 ^ 64 \<Longrightarrow> rd64 (wr64 (b + j) v m) b = rd64 m b"
  using rd64_wr64_offset [of 0 j b v m] by simp_all

lemma saved_frame_cong:
  assumes "saved_frame m sp c" and "\<And>x. x - sp < 64 \<Longrightarrow> m' x = m x"
  shows "saved_frame m' sp c"
proof -
  have "rd64 m' (sp + k) = rd64 m (sp + k)" if "unat k + 8 \<le> 64" for k
  proof (rule rd64_cong)
    fix x
    assume "x - (sp + k) < 8"
    then have "(x - sp) - k < 8" by (simp add: algebra_simps)
    then have "unat (x - sp) < unat k + 8" using range_iff [of k 8 "x - sp"] that by simp
    then have "x - sp < 64" using that by (simp add: word_less_nat_alt)
    then show "m' x = m x" by (rule assms(2))
  qed
  from this [of 0] this [of 8] this [of 16] this [of 24] this [of 32] this [of 40] this [of 48] this [of 56]
  show ?thesis using assms(1) by (simp add: saved_frame_def)
qed

lemma initial_frame_saved:
  "saved_frame (initial_frame sp fn m) (sp - 64)
     \<lparr>rip = fn, rsp = sp, rflags = 0x202, rbp = 0, rbx = 0, r12 = 0, r13 = 0, r14 = 0, r15 = 0\<rparr>"
proof -
  define b where "b = sp - 64"
  have sp: "sp = b + 64" by (simp add: b_def)
  have e: "sp - 56 = b + 8" "sp - 48 = b + 16" "sp - 40 = b + 24" "sp - 32 = b + 32"
    "sp - 24 = b + 40" "sp - 16 = b + 48" "sp - 8 = b + 56" "sp - 64 = b"
    by (simp_all add: b_def algebra_simps)
  show ?thesis unfolding initial_frame_def e
    by (simp add: saved_frame_def rd64_wr64_offset rd64_wr64_offset0 sp)
qed

lemma save_context_frame:
  assumes "ret = rd64 (phys_mem s) (rsp (cpu s))"
  shows "saved_frame (phys_mem (save_context s)) (rsp (cpu s) - 56) ((cpu s)\<lparr>rip := ret, rsp := rsp (cpu s) + 8\<rparr>)"
    and "rsp (cpu (save_context s)) = rsp (cpu s) - 56"
    and "\<not> x - (rsp (cpu s) - 56) < 56 \<Longrightarrow> phys_mem (save_context s) x = phys_mem s x"
proof -
  define b where "b = rsp (cpu s) - 56"
  have e: "rsp (cpu s) = b + 56" by (simp add: b_def)
  let ?c = "cpu s"
  have mem: "phys_mem (save_context s) =
    wr64 b (r15 ?c) (wr64 (b + 8) (r14 ?c) (wr64 (b + 16) (r13 ?c) (wr64 (b + 24) (r12 ?c)
      (wr64 (b + 32) (rbx ?c) (wr64 (b + 40) (rbp ?c) (wr64 (b + 48) (rflags ?c) (phys_mem s)))))))"
    by (simp add: save_context_def push64_def Let_def e add.commute)
  show "saved_frame (phys_mem (save_context s)) (rsp ?c - 56) (?c\<lparr>rip := ret, rsp := rsp ?c + 8\<rparr>)"
    unfolding mem using assms
    by (simp add: saved_frame_def e rd64_wr64_offset rd64_wr64_offset0)
  show "rsp (cpu (save_context s)) = rsp ?c - 56"
    by (simp add: save_context_def push64_def Let_def e)
  have far: "\<not> y - k < 8" if "\<not> y < 56" "unat k \<le> 48" for y k :: u64
    using that range_iff [of k 8 y] by (auto simp: word_less_nat_alt)
  show "phys_mem (save_context s) x = phys_mem s x" if "\<not> x - (rsp ?c - 56) < 56"
  proof -
    have "\<not> x - b < 56" using that by (simp add: e)
    from far [OF this, of 0] far [OF this, of 8] far [OF this, of 16] far [OF this, of 24] far [OF this, of 32]
      far [OF this, of 40] far [OF this, of 48]
    show ?thesis unfolding mem by (simp add: wr64_def diff_diff_eq)
  qed
qed

lemma switch_context_restores:
  assumes "nat nxt < length (threads s)" and "prev \<noteq> Some nxt" and "0 \<le> nxt" and "\<And>p. prev = Some p \<Longrightarrow> 0 \<le> p"
    and "saved_frame (phys_mem s) (t_rsp (threads s ! nat nxt)) c"
    and "disjnt_ranges (rsp (cpu s) - 56) 56 (t_rsp (threads s ! nat nxt)) 64"
  shows "cpu (switch_context prev nxt s) = c"
proof -
  let ?s = "save_context s"
  let ?t = "case prev of None \<Rightarrow> ?s | Some p \<Rightarrow> upd_thread p (t_rsp_update (\<lambda>_. rsp (cpu ?s))) ?s"
  have nth: "t_rsp (thread_at nxt ?t) = t_rsp (threads s ! nat nxt)"
    using assms(1-4) by (cases prev) (auto simp: thread_at_def nth_upd_thread eq_nat_nat_iff)
  have "saved_frame (phys_mem ?s) (t_rsp (threads s ! nat nxt)) c"
    using assms(6) by (intro saved_frame_cong [OF assms(5)] save_context_frame(3)) (auto simp: disjnt_ranges_def)
  moreover have "phys_mem ?t = phys_mem ?s" by (cases prev) simp_all
  ultimately show ?thesis
    unfolding switch_context_def Let_def nth by (intro restore_saved_frame) simp
qed


section \<open>Growth of the table\<close>

lemma raw_slot_ok: "length (t_fds (raw_thread_slot m a)) = THREAD_MAX_FDS"
  by (simp add: raw_thread_slot_def)

lemma init_thread_slot_ok: "length (t_fds t) = THREAD_MAX_FDS \<Longrightarrow> thread_ok (init_thread_slot t)"
  by (simp add: thread_ok_def init_thread_slot_def THREAD_PRIO_NORMAL_def THREAD_PRIO_COUNT_def quantum_ticks_def)

text \<open>The copy of a slot is the old one but for the owner, which comes from the new memory.\<close>

lemma copy_raw_slot: "copy_thread_slot (raw_thread_slot m a) t = t\<lparr>t_uid := rd32 m (a + THREAD_UID_OFFSET)\<rparr>"
  by (simp add: copy_thread_slot_def raw_thread_slot_def)

definition grown_slots :: "memory \<Rightarrow> u64 \<Rightarrow> thread list \<Rightarrow> thread list" where
  "grown_slots m p ts =
     (let n = length ts; c = (if n = 0 then INITIAL_THREAD_CAPACITY else n * 2) in
      map (\<lambda>i. (if i < n then ts ! i else init_thread_slot (raw_thread_slot m 0))
                 \<lparr>t_uid := rd32 m (p + of_nat i * THREAD_SIZE + THREAD_UID_OFFSET)\<rparr>) [0..<c])"

lemma mm_frame_sched:
  assumes "mm_frame s t"
  shows "threads t = threads s" "current_thread t = current_thread s" "threads_ptr t = threads_ptr s"
    "kernel_pml4 t = kernel_pml4 s" "cr3 t = cr3 s" "cpu t = cpu s" "tss_rsp0 t = tss_rsp0 s"
  by (rule mm_frame_field [OF assms]; simp add: mm_clear_def pmm_clear_def)+

lemma kmalloc_sched: "kmalloc n s = Some (t, p) \<Longrightarrow> mm_frame s t"
  using kmalloc_frame [of n s t p s] by simp

lemma kfree_sched: "kfree p s = Some t \<Longrightarrow> mm_frame s t"
  using kfree_frame [of p s t s] by simp

lemma grow_thread_table_cases:
  assumes "grow_thread_table s = Some (t, rc)"
  obtains (failed) "rc = -1" "mm_frame s t"
  | (grown) u p where "rc = 0" "p \<noteq> 0" "mm_frame s u"
      "kmalloc (THREAD_SIZE * of_nat (length (grown_slots (phys_mem u) p (threads s)))) s = Some (u, p)"
      "mm_frame (u\<lparr>threads := grown_slots (phys_mem u) p (threads s), threads_ptr := p\<rparr>) t"
proof -
  let ?n = "length (threads s)"
  let ?c = "if ?n = 0 then INITIAL_THREAD_CAPACITY else ?n * 2"
  obtain u p where k: "kmalloc (THREAD_SIZE * of_nat ?c) s = Some (u, p)"
    using assms by (auto simp: grow_thread_table_def Let_def split: bind_splits)
  have u: "mm_frame s u" by (rule kmalloc_sched [OF k])
  note th = mm_frame_sched [OF u]
  have len: "length (grown_slots m p (threads s)) = ?c" for m by (simp add: grown_slots_def Let_def)
  show ?thesis
  proof (cases "p = 0")
    case True
    then have "rc = -1" "t = u" using assms k by (auto simp: grow_thread_table_def Let_def)
    then show ?thesis using u failed by simp
  next
    case False
    let ?raw = "\<lambda>i. raw_thread_slot (phys_mem u) (p + of_nat i * THREAD_SIZE)"
    let ?ts = "map (\<lambda>i. copy_thread_slot (?raw i) (threads s ! i)) [0..<?n] @ map (\<lambda>i. init_thread_slot (?raw i)) [?n..<?c]"
    have split: "[0..<?c] = [0..<?n] @ [?n..<?c]" using upt_add_eq_append [of 0 ?n "?c - ?n"] by simp
    have ts: "?ts = grown_slots (phys_mem u) p (threads s)"
      unfolding grown_slots_def Let_def split
      by (simp add: copy_raw_slot) (simp add: init_thread_slot_def raw_thread_slot_def)
    have "mm_frame (u\<lparr>threads := ?ts, threads_ptr := p\<rparr>) t \<and> rc = 0"
      using assms k False th kfree_sched by (auto simp: grow_thread_table_def Let_def split: if_splits bind_splits)
    then show ?thesis using grown [of p u] False u k len unfolding ts by simp
  qed
qed


lemma grow_thread_table_total:
  fixes s :: "'a sched_state_scheme"
  assumes "heap_ok s"
  shows "\<exists>t rc. grow_thread_table s = Some (t, rc)"
proof -
  let ?n = "length (threads s)"
  let ?c = "if ?n = 0 then INITIAL_THREAD_CAPACITY else ?n * 2"
  obtain u p where k: "kmalloc (THREAD_SIZE * of_nat ?c) s = Some (u, p)" "heap_ok u"
    using heap.alloc_law [OF assms, of "THREAD_SIZE * of_nat ?c"] by blast
  have same: "heap_ok (v\<lparr>threads := ts, threads_ptr := q\<rparr>) = heap_ok v" for v :: "'a sched_state_scheme" and ts q
    by (simp add: heap_ok_def heap_rep_def pmm_ok_def pmm_inv_def free_set_def is_used_def)
  show ?thesis
  proof (cases "p = 0 \<or> threads_ptr u = 0")
    case True
    then show ?thesis using k by (auto simp: grow_thread_table_def Let_def)
  next
    case False
    let ?raw = "\<lambda>i. raw_thread_slot (phys_mem u) (p + of_nat i * THREAD_SIZE)"
    let ?ts = "map (\<lambda>i. copy_thread_slot (?raw i) (threads u ! i)) [0..<?n] @ map (\<lambda>i. init_thread_slot (?raw i)) [?n..<?c]"
    obtain t where "kfree (threads_ptr u) (u\<lparr>threads := ?ts, threads_ptr := p\<rparr>) = Some t"
      using heap.free_law [of "u\<lparr>threads := ?ts, threads_ptr := p\<rparr>" "threads_ptr u"] k(2) same by blast
    then show ?thesis using k False by (auto simp: grow_thread_table_def Let_def)
  qed
qed

lemma grown_slots_nth:
  assumes "i < length (grown_slots m p ts)"
  shows "grown_slots m p ts ! i = (if i < length ts then ts ! i else init_thread_slot (raw_thread_slot m 0))
           \<lparr>t_uid := rd32 m (p + of_nat i * THREAD_SIZE + THREAD_UID_OFFSET)\<rparr>"
  using assms by (auto simp: grown_slots_def Let_def)

lemma length_grown_slots: "length ts < length (grown_slots m p ts)"
  by (auto simp: grown_slots_def Let_def INITIAL_THREAD_CAPACITY_def)

lemma grown_slots_ok:
  assumes "sched_inv s" and "i < length (grown_slots m p (threads s))"
  shows "thread_ok (grown_slots m p (threads s) ! i)"
    "t_state (grown_slots m p (threads s) ! i) = THREAD_RUNNING \<Longrightarrow> int i = current_thread s"
proof -
  have uid: "thread_ok (t\<lparr>t_uid := u\<rparr>) = thread_ok t" for t :: thread and u by (simp add: thread_ok_def)
  show "thread_ok (grown_slots m p (threads s) ! i)"
    using assms init_thread_slot_ok [OF raw_slot_ok] by (auto simp: grown_slots_nth uid sched_inv_def)
  have "t_state (init_thread_slot t) = THREAD_UNUSED" for t by (simp add: init_thread_slot_def)
  then show "int i = current_thread s" if "t_state (grown_slots m p (threads s) ! i) = THREAD_RUNNING"
    using that assms by (auto simp: grown_slots_nth sched_inv_def split: if_splits)
qed

lemma sched_inv_mm_frame: "mm_frame s t \<Longrightarrow> sched_inv t = sched_inv s"
  by (rule sched_inv_cong) (simp_all add: mm_frame_sched)

lemma sched_inv_grow [inv_intros]:
  assumes "sched_inv s" and "grow_thread_table s = Some (t, rc)"
  shows "sched_inv t"
  using assms(2)
proof (cases rule: grow_thread_table_cases)
  case failed
  then show ?thesis using assms(1) sched_inv_mm_frame by blast
next
  case (grown u p)
  let ?u = "u\<lparr>threads := grown_slots (phys_mem u) p (threads s), threads_ptr := p\<rparr>"
  have "sched_inv ?u"
    using grown_slots_ok [OF assms(1)] sched_inv_current [OF assms(1)] mm_frame_sched [OF grown(3)]
      length_grown_slots [of "threads s" "phys_mem u" p]
    by (auto simp: sched_inv_def tid_ok_iff)
  then show ?thesis using sched_inv_mm_frame [OF grown(5)] by simp
qed

section \<open>New threads\<close>

lemma alloc_guarded_stack_frame: "mm_frame s (fst (alloc_guarded_stack s))"
  by (simp add: alloc_guarded_stack_def case_prod_unfold Let_def mm_simps mm_frame_for_w)

lemma alloc_guarded_stack_unmapped:
  "alloc_guarded_stack s = (t, Some (low, guard)) \<Longrightarrow>
     \<not> vmm_is_mapped guard t \<and> low = guard + PMM_FRAME_SIZE \<and> guard \<noteq> 0"
  by (auto simp: alloc_guarded_stack_def Let_def split: prod.splits if_splits)

text \<open>Threads keep everything but their owner, and keep that too unless the table grows.\<close>

definition kept_threads :: "'a sched_state_scheme \<Rightarrow> 'a sched_state_scheme \<Rightarrow> bool" where
  "kept_threads s t \<longleftrightarrow> length (threads s) \<le> length (threads t) \<and>
     (\<forall>i<length (threads s). (threads t ! i)\<lparr>t_uid := 0\<rparr> = (threads s ! i)\<lparr>t_uid := 0\<rparr>)"

lemma spawn_slot_cases:
  fixes s t :: "'a sched_state_scheme"
  assumes inv: "sched_inv s" and "spawn_slot s = Some (t, slot)"
  shows "sched_inv t" and "kernel_pml4 t = kernel_pml4 s" and "current_thread t = current_thread s"
    and "kept_threads s t"
    and "slot = Some i \<Longrightarrow> 0 \<le> i \<and> nat i < length (threads t) \<and> t_state (threads t ! nat i) = THREAD_UNUSED \<and>
      (nat i < length (threads s) \<and> t = s \<or> i = thread_capacity s)"
proof -
  have "sched_inv t \<and> kernel_pml4 t = kernel_pml4 s \<and> current_thread t = current_thread s \<and> kept_threads s t \<and>
      (\<forall>i. slot = Some i \<longrightarrow> 0 \<le> i \<and> nat i < length (threads t) \<and> t_state (threads t ! nat i) = THREAD_UNUSED \<and>
        (nat i < length (threads s) \<and> t = s \<or> i = thread_capacity s))"
  proof (cases "first_index (\<lambda>t. t_state t = THREAD_UNUSED) (threads s)")
    case (Some j)
    then have "t = s" "slot = Some (int j)" using assms(2) by (auto simp: spawn_slot_def)
    then show ?thesis using first_index_SomeD [OF Some] inv by (auto simp: kept_threads_def)
  next
    case None
    then obtain rc where g: "grow_thread_table s = Some (t, rc)"
      and slot: "slot = (if rc \<noteq> 0 then None else Some (thread_capacity s))"
      using assms(2) unfolding spawn_slot_def None by (auto simp: Let_def split: bind_splits)
    have inv': "sched_inv t" by (rule sched_inv_grow [OF inv g])
    from g show ?thesis
    proof (cases rule: grow_thread_table_cases)
      case failed
      then show ?thesis using inv' slot mm_frame_sched [OF failed(2)] by (simp add: kept_threads_def)
    next
      case (grown u p)
      note lt = length_grown_slots [of "threads s" "phys_mem u" p]
      have "t_state (init_thread_slot r) = THREAD_UNUSED" for r by (simp add: init_thread_slot_def)
      then show ?thesis
        using inv' slot grown(1) mm_frame_sched [OF grown(5)] mm_frame_sched [OF grown(3)] lt
        by (auto simp: kept_threads_def grown_slots_nth)
    qed
  qed
  then show "sched_inv t" "kernel_pml4 t = kernel_pml4 s" "current_thread t = current_thread s"
    "kept_threads s t" "slot = Some i \<Longrightarrow> 0 \<le> i \<and> nat i < length (threads t) \<and> t_state (threads t ! nat i) = THREAD_UNUSED \<and>
      (nat i < length (threads s) \<and> t = s \<or> i = thread_capacity s)"
    by blast+
qed


lemma spawn_slot_total: "heap_ok s \<Longrightarrow> \<exists>t slot. spawn_slot s = Some (t, slot)"
  using grow_thread_table_total [of s] by (auto simp: spawn_slot_def Let_def split: option.split)

text \<open>The registers with which a new thread starts.\<close>

definition start_regs :: "u64 \<Rightarrow> u64 \<Rightarrow> cpu_regs" where
  "start_regs fn sp = \<lparr>rip = fn, rsp = sp, rflags = 0x202, rbp = 0, rbx = 0, r12 = 0, r13 = 0, r14 = 0, r15 = 0\<rparr>"

definition spawned :: "u64 \<Rightarrow> int \<Rightarrow> u64 \<Rightarrow> 'a sched_state_scheme \<Rightarrow> thread \<Rightarrow> bool" where
  "spawned fn priority ctx t th \<longleftrightarrow> t_state th = THREAD_READY \<and> t_context th = ctx \<and>
     t_priority th = (if 0 \<le> priority \<and> priority < THREAD_PRIO_COUNT then priority else THREAD_PRIO_NORMAL) \<and>
     t_ticks_remaining th = quantum_ticks (t_priority th) \<and> t_address_space th = kernel_pml4 t \<and>
     t_fds th = [console_fd, console_fd] @ replicate 6 unused_fd \<and>
     t_uid th = t_uid (threads t ! nat (current_thread t)) \<and>
     saved_frame (phys_mem t) (t_rsp th) (start_regs fn (t_stack_low th + THREAD_STACK_SIZE))"

lemma spawn_fds: "map (\<lambda>i. if i < 2 then console_fd else unused_fd) [0..<THREAD_MAX_FDS] =
  [console_fd, console_fd] @ replicate 6 unused_fd"
  by (simp add: THREAD_MAX_FDS_def upt_rec numeral_eq_Suc)

lemma sched_spawn_cases:
  fixes s :: "'a sched_state_scheme"
  assumes inv: "sched_inv s" and ok: "heap_ok s"
  obtains (failed) u where "sched_spawn_prio_with_context fn priority ctx s = Some (u, -1)" "kept_threads s u" "sched_inv u"
  | (created) t slot u where "sched_spawn_prio_with_context fn priority ctx s = Some (t, slot)"
      "kept_threads s u" "sched_inv u" "0 \<le> slot" "nat slot < length (threads u)"
      "t_state (threads u ! nat slot) = THREAD_UNUSED"
      "nat slot < length (threads s) \<and> threads u = threads s \<or> slot = thread_capacity s"
      "\<And>i. i < length (threads u) \<Longrightarrow> i \<noteq> nat slot \<Longrightarrow> threads t ! i = threads u ! i"
      "length (threads t) = length (threads u)" "current_thread t = current_thread s" "current_thread u = current_thread s"
      "kernel_pml4 t = kernel_pml4 s" "spawned fn priority ctx t (threads t ! nat slot)"
proof -
  let ?spawn = "sched_spawn_prio_with_context fn priority ctx s"
  obtain v sl where sl: "spawn_slot s = Some (v, sl)" using spawn_slot_total [OF ok] by blast
  note v = spawn_slot_cases [OF inv sl]
  obtain w st where st: "alloc_guarded_stack v = (w, st)" by (cases "alloc_guarded_stack v")
  have w: "mm_frame v w" using alloc_guarded_stack_frame [of v] st by simp
  note wt = mm_frame_sched [OF w]
  have kept: "kept_threads s w" "sched_inv w" using v(1,4) wt sched_inv_mm_frame [OF w] by (simp_all add: kept_threads_def)
  consider "sl = None" | slot where "sl = Some slot" "st = None" | slot low guard where "sl = Some slot" "st = Some (low, guard)"
    by (cases sl; cases st) auto
  then show ?thesis
  proof cases
    case 1
    then have "?spawn = Some (v, -1)" using sl by (simp add: sched_spawn_prio_with_context_def Let_def)
    then show ?thesis using failed v by blast
  next
    case 2
    then have "?spawn = Some (w, -1)" using sl st by (simp add: sched_spawn_prio_with_context_def Let_def)
    then show ?thesis using failed kept by blast
  next
    case 3
    let ?p = "if priority < 0 \<or> priority \<ge> THREAD_PRIO_COUNT then THREAD_PRIO_NORMAL else priority"
    let ?sp = "low + THREAD_STACK_SIZE"
    let ?a = "w\<lparr>phys_mem := initial_frame ?sp fn (phys_mem w)\<rparr>"
    let ?b = "upd_thread slot (\<lambda>t. t\<lparr>t_rsp := ?sp - 64, t_state := THREAD_READY, t_stack_low := low,
       t_guard_page := guard, t_priority := ?p, t_ticks_remaining := quantum_ticks ?p,
       t_address_space := vmm_kernel_address_space ?a, t_context := ctx,
       t_fds := map (\<lambda>i. if i < 2 then console_fd else unused_fd) [0..<THREAD_MAX_FDS]\<rparr>) ?a"
    let ?t = "upd_thread slot (\<lambda>t. t\<lparr>t_uid :=
       if current_thread ?b \<ge> 0 then t_uid (thread_at (current_thread ?b) ?b) else 0\<rparr>) ?b"
    have r: "?spawn = Some (?t, slot)" using sl st 3 by (simp add: sched_spawn_prio_with_context_def Let_def)
    have slot: "0 \<le> slot" "nat slot < length (threads w)" "t_state (threads w ! nat slot) = THREAD_UNUSED"
      "nat slot < length (threads s) \<and> threads w = threads s \<or> slot = thread_capacity s"
      using v(5) [OF 3(1)] wt(1) by auto
    have cur: "0 \<le> current_thread w" "nat (current_thread w) < length (threads w)"
      using sched_inv_current [OF kept(2)] by auto
    have "spawned fn priority ctx ?t (threads ?t ! nat slot)"
      using slot(1,2) cur initial_frame_saved [of ?sp fn "phys_mem w"]
      by (auto simp: spawned_def nth_upd_thread thread_at_def start_regs_def spawn_fds vmm_kernel_address_space_def not_le not_less)
    moreover have "threads ?t ! i = threads w ! i" if "i < length (threads w)" "i \<noteq> nat slot" for i
      using that by (simp add: nth_upd_thread)
    ultimately show ?thesis
      using created [OF r kept slot] v(2,3) wt by simp
  qed
qed

section \<open>What the scheduler leaves alone\<close>

text \<open>
  \<open>sched_frame s t\<close>: the two states differ at most in memory and in the fields of the memory
  managers and the scheduler. The components above read their own fields through it.
\<close>

definition sched_clear :: "'a sched_state_scheme \<Rightarrow> 'a sched_state_scheme" where
  "sched_clear s = (mm_clear s)\<lparr>cr3 := 0, stack_regions := [], threads := [], threads_ptr := 0,
     current_thread := 0, cpu := start_regs 0 0, tss_rsp0 := 0\<rparr>"

definition sched_frame :: "'a sched_state_scheme \<Rightarrow> 'a sched_state_scheme \<Rightarrow> bool" where
  "sched_frame s t \<longleftrightarrow> sched_clear t = sched_clear s"

named_theorems sched_frame_simps \<open>operations that stay inside the frame of the scheduler\<close>

lemma sched_frame_refl [simp]: "sched_frame s s"
  by (simp add: sched_frame_def)

lemma sched_frame_trans: "sched_frame s t \<Longrightarrow> sched_frame t u \<Longrightarrow> sched_frame s u"
  by (simp add: sched_frame_def)

lemma sched_frame_field: "sched_frame s t \<Longrightarrow> (\<And>u. sel (sched_clear u) = sel u) \<Longrightarrow> sel t = sel s"
  by (metis sched_frame_def)

lemma mm_frame_sched_frame: "mm_frame t u \<Longrightarrow> sched_frame s u = sched_frame s t"
  by (simp add: mm_frame_def sched_frame_def sched_clear_def)

lemma sched_frame_upd [sched_frame_simps]:
  "sched_frame s (t\<lparr>phys_mem := m\<rparr>) = sched_frame s t"
  "sched_frame s (t\<lparr>cr3 := a\<rparr>) = sched_frame s t"
  "sched_frame s (t\<lparr>stack_regions := r\<rparr>) = sched_frame s t"
  "sched_frame s (t\<lparr>threads := ts\<rparr>) = sched_frame s t"
  "sched_frame s (t\<lparr>threads_ptr := a\<rparr>) = sched_frame s t"
  "sched_frame s (t\<lparr>current_thread := c\<rparr>) = sched_frame s t"
  "sched_frame s (t\<lparr>cpu := r'\<rparr>) = sched_frame s t"
  "sched_frame s (t\<lparr>tss_rsp0 := a\<rparr>) = sched_frame s t"
  by (simp_all add: sched_frame_def sched_clear_def mm_clear_def pmm_clear_def)

lemma sched_frame_ops [sched_frame_simps]:
  "sched_frame s (upd_thread tid f t) = sched_frame s t"
  "sched_frame s (upd_fd tid fd g t) = sched_frame s t"
  "sched_frame s (vmm_switch_address_space sp t) = sched_frame s t"
  "sched_frame s (activate tid t) = sched_frame s t"
  "sched_frame s (push64 v t) = sched_frame s t"
  "sched_frame s (pop64 r t) = sched_frame s t"
  "sched_frame s (sched_wakeup ch t) = sched_frame s t"
  by (simp_all add: upd_fd_def upd_thread_def activate_def tss_set_kernel_stack_def vmm_switch_address_space_def
      push64_def pop64_def sched_wakeup_def Let_def sched_frame_upd)

lemma sched_frame_switch [sched_frame_simps]:
  "sched_frame s (switch_context p n t) = sched_frame s t"
  "sched_frame s (dispatch n t) = sched_frame s t"
  by (simp_all add: switch_context_def dispatch_def save_context_def restore_context_def Let_def sched_frame_upd
      sched_frame_ops split: option.split)

lemma sched_frame_calls [sched_frame_simps]:
  "sched_frame s (sched_yield t) = sched_frame s t"
  "sched_frame s (sched_tick t) = sched_frame s t"
  "sched_frame s (fst (sched_sleep ch t)) = sched_frame s t"
  "sched_frame s (fst (sched_fd_open k h t)) = sched_frame s t"
  "sched_frame s (fst (sched_fd_close fd t)) = sched_frame s t"
  "sched_frame s (fst (sched_fd_set tid fd k h t)) = sched_frame s t"
  "sched_frame s (sched_set_address_space tid sp t) = sched_frame s t"
  "sched_frame s (fst (sched_set_uid tid u t)) = sched_frame s t"
  "sched_frame s (sched_set_current_context c t) = sched_frame s t"
  "sched_frame s (sched_set_priority tid pr t) = sched_frame s t"
  by (simp_all add: sched_yield_def sched_tick_def sched_sleep_def sched_fd_open_def sched_fd_close_def
      sched_fd_set_def sched_set_address_space_def sched_set_uid_def sched_set_current_context_def
      sched_set_priority_def Let_def sched_frame_upd sched_frame_ops sched_frame_switch split: option.split)

lemma grow_thread_table_frame:
  assumes "grow_thread_table s = Some (t, rc)"
  shows "sched_frame s t"
  using assms
proof (cases rule: grow_thread_table_cases)
  case failed
  then show ?thesis using mm_frame_sched_frame [OF failed(2), of s] by simp
next
  case (grown u p)
  show ?thesis using mm_frame_sched_frame [OF grown(3), of s]
    by (simp add: mm_frame_sched_frame [OF grown(5)] sched_frame_upd)
qed

lemma sched_spawn_frame:
  assumes "sched_spawn_prio_with_context fn p c s = Some (t, slot)"
  shows "sched_frame s t"
proof -
  obtain v sl where v: "spawn_slot s = Some (v, sl)"
    using assms by (auto simp: sched_spawn_prio_with_context_def Let_def split: bind_splits)
  have fv: "sched_frame s v"
    using v grow_thread_table_frame [of s] by (auto simp: spawn_slot_def Let_def split: option.splits bind_splits)
  obtain w st where w: "alloc_guarded_stack v = (w, st)" by (cases "alloc_guarded_stack v")
  have "mm_frame v w" using alloc_guarded_stack_frame [of v] w by simp
  then have "sched_frame s w" using fv by (simp add: mm_frame_sched_frame)
  then show ?thesis using assms v w fv
    by (auto simp: sched_spawn_prio_with_context_def Let_def sched_frame_simps split: option.splits)
qed

section \<open>Sleepers\<close>

text \<open>Some thread sleeps on channel \<open>c\<close>.\<close>

definition blocked_on :: "u64 \<Rightarrow> 'a sched_state_scheme \<Rightarrow> bool" where
  "blocked_on c s \<longleftrightarrow> (\<exists>i<length (threads s). t_state (threads s ! i) = THREAD_BLOCKED \<and> t_wait_channel (threads s ! i) = c)"

lemma blocked_on_cong: "threads t = threads s \<Longrightarrow> blocked_on c t = blocked_on c s"
  by (simp add: blocked_on_def)

lemma blocked_on_wakeup [simp]: "blocked_on c (sched_wakeup ch s) \<longleftrightarrow> c \<noteq> ch \<and> blocked_on c s"
proof -
  have "t_state (wake ch t) = THREAD_BLOCKED \<and> t_wait_channel (wake ch t) = c \<longleftrightarrow>
      c \<noteq> ch \<and> t_state t = THREAD_BLOCKED \<and> t_wait_channel t = c" for t
    by (auto simp: wake_def)
  then show ?thesis by (simp add: blocked_on_def sched_wakeup_def cong: conj_cong) blast
qed

lemma blocked_on_upd_thread:
  assumes "blocked_on c (upd_thread tid f s)"
    and "\<And>t. t_state (f t) = THREAD_BLOCKED \<Longrightarrow> t_state t = THREAD_BLOCKED \<and> t_wait_channel (f t) = t_wait_channel t"
  shows "blocked_on c s"
  using assms by (fastforce simp: blocked_on_def nth_upd_thread split: if_splits)

lemma blocked_on_dispatch:
  assumes "blocked_on c (dispatch n s)" and "nat n < length (threads s)"
  shows "blocked_on c s"
proof -
  obtain i where i: "i < length (threads (dispatch n s))" "t_state (threads (dispatch n s) ! i) = THREAD_BLOCKED"
    "t_wait_channel (threads (dispatch n s) ! i) = c" using assms(1) by (auto simp: blocked_on_def)
  have "length (threads (dispatch n s)) = length (threads s)" using dispatch_table(2) [of 0 s n] assms(2) by force
  then show ?thesis using i dispatch_table(3,8) [of i s n] assms(2)
    by (auto simp: blocked_on_def split: if_splits)
qed

lemma blocked_on_yield:
  assumes "sched_inv s" and "blocked_on c (sched_yield s)"
  shows "blocked_on c s"
proof -
  note cur = sched_inv_current [OF assms(1)]
  have "nat (find_next_runnable (current_thread s) (threads s)) < length (threads s)"
    using find_next_runnable_range [OF cur(1,2)] by simp
  then show ?thesis using assms(2) cur
    by (auto simp: sched_yield_def Let_def split: if_splits dest!: blocked_on_dispatch elim: blocked_on_upd_thread)
qed

lemma blocked_on_tick:
  assumes "sched_inv s" and "blocked_on c (sched_tick s)"
  shows "blocked_on c s"
proof -
  let ?s = "upd_thread (current_thread s) (\<lambda>t. t\<lparr>t_ticks_remaining := t_ticks_remaining t - 1\<rparr>) s"
  have inv: "sched_inv ?s" by (rule sched_inv_upd_thread [OF assms(1)]) (simp_all add: thread_ok_def)
  have "blocked_on c ?s"
    using assms(2) sched_inv_current(4) [OF assms(1)] blocked_on_yield [OF inv]
    by (auto simp: sched_tick_def Let_def split: if_splits)
  then show ?thesis by (rule blocked_on_upd_thread) simp
qed

lemma blocked_on_sleep:
  assumes "sched_inv s" and "blocked_on c (fst (sched_sleep ch s))" and "c \<noteq> ch"
  shows "blocked_on c s"
proof -
  note cur = sched_inv_current [OF assms(1)]
  let ?s = "upd_thread (current_thread s) (\<lambda>t. t\<lparr>t_wait_channel := ch, t_state := THREAD_BLOCKED\<rparr>) s"
  have "nat (find_next_runnable (current_thread s) (threads ?s)) < length (threads ?s)"
    using find_next_runnable_range [of "current_thread s" "threads ?s"] cur by simp
  then have "blocked_on c ?s"
    using assms(2) by (auto simp: sched_sleep_def Let_def split: if_splits dest!: blocked_on_dispatch)
  then show ?thesis using assms(3) by (auto simp: blocked_on_def nth_upd_thread split: if_splits)
qed

lemma blocked_on_set:
  "blocked_on c s \<longleftrightarrow> (\<exists>t\<in>set (threads s). t_state t = THREAD_BLOCKED \<and> t_wait_channel t = c)"
  unfolding blocked_on_def Bex_def in_set_conv_nth by blast

lemma sched_sleep_length: "sched_inv s \<Longrightarrow> length (threads (fst (sched_sleep ch s))) = length (threads s)"
proof -
  assume inv: "sched_inv s"
  note cur = sched_inv_current [OF inv]
  let ?s = "upd_thread (current_thread s) (\<lambda>t. t\<lparr>t_wait_channel := ch, t_state := THREAD_BLOCKED\<rparr>) s"
  let ?n = "find_next_runnable (current_thread s) (threads ?s)"
  have n: "nat ?n < length (threads ?s)"
    using find_next_runnable_range [of "current_thread s" "threads ?s"] cur by simp
  have "length (threads (dispatch ?n ?s)) = length (threads ?s)" by (rule dispatch_table(2) [OF n n])
  then show ?thesis by (simp add: sched_sleep_def Let_def)
qed

lemma sched_sleep_blocks:
  assumes "sched_inv s"
  shows "t_state (threads (fst (sched_sleep ch s)) ! nat (current_thread s)) = THREAD_BLOCKED"
    "t_wait_channel (threads (fst (sched_sleep ch s)) ! nat (current_thread s)) = ch"
proof -
  note cur = sched_inv_current [OF assms]
  let ?s = "upd_thread (current_thread s) (\<lambda>t. t\<lparr>t_wait_channel := ch, t_state := THREAD_BLOCKED\<rparr>) s"
  let ?n = "find_next_runnable (current_thread s) (threads ?s)"
  have n: "0 \<le> ?n" "nat ?n < length (threads ?s)"
    using find_next_runnable_range [of "current_thread s" "threads ?s"] cur by simp_all
  have "nat ?n = nat (current_thread s) \<Longrightarrow> ?n = current_thread s" using n(1) cur(1) by linarith
  then show "t_state (threads (fst (sched_sleep ch s)) ! nat (current_thread s)) = THREAD_BLOCKED"
    "t_wait_channel (threads (fst (sched_sleep ch s)) ! nat (current_thread s)) = ch"
    using cur dispatch_table(3,8) [OF _ n(2), of "nat (current_thread s)"]
    by (auto simp: sched_sleep_def Let_def nth_upd_thread)
qed

lemma blocked_on_resume: "sched_sleep_resume s = Some t \<Longrightarrow> blocked_on c t \<Longrightarrow> blocked_on c s"
  by (auto simp: sched_sleep_resume_def split: if_splits elim: blocked_on_upd_thread)

lemma blocked_on_spawn_slot:
  assumes "spawn_slot s = Some (t, slot)" and "blocked_on c t"
  shows "blocked_on c s"
proof (cases "first_index (\<lambda>t. t_state t = THREAD_UNUSED) (threads s)")
  case (Some j)
  then show ?thesis using assms by (simp add: spawn_slot_def)
next
  case None
  then obtain rc where g: "grow_thread_table s = Some (t, rc)"
    using assms(1) unfolding spawn_slot_def None by (auto simp: Let_def split: bind_splits)
  then show ?thesis
  proof (cases rule: grow_thread_table_cases)
    case failed
    then show ?thesis using assms(2) blocked_on_cong [OF mm_frame_sched(1) [OF failed(2)]] by simp
  next
    case (grown u p)
    have "threads t = grown_slots (phys_mem u) p (threads s)" using mm_frame_sched(1) [OF grown(5)] by simp
    moreover have "t_state (init_thread_slot r) = THREAD_UNUSED" for r by (simp add: init_thread_slot_def)
    ultimately show ?thesis using assms(2) by (auto simp: blocked_on_def grown_slots_nth split: if_splits)
  qed
qed

lemma blocked_on_spawn:
  assumes "sched_spawn_prio_with_context fn p x s = Some (t, slot)" and "blocked_on c t"
  shows "blocked_on c s"
proof -
  obtain v sl where v: "spawn_slot s = Some (v, sl)"
    using assms(1) by (auto simp: sched_spawn_prio_with_context_def Let_def split: bind_splits)
  obtain w st where w: "alloc_guarded_stack v = (w, st)" by (cases "alloc_guarded_stack v")
  have tw: "threads w = threads v" using mm_frame_sched(1) [OF alloc_guarded_stack_frame [of v]] w by simp
  have "blocked_on c (u\<lparr>phys_mem := m\<rparr>) = blocked_on c u" for u :: "'a sched_state_scheme" and m
    by (rule blocked_on_cong) simp
  then have "blocked_on c w \<or> blocked_on c v"
    using assms v w
    by (auto simp: sched_spawn_prio_with_context_def Let_def split: option.splits dest!: blocked_on_upd_thread)
  then show ?thesis using blocked_on_spawn_slot [OF v] blocked_on_cong [OF tw] by blast
qed

section \<open>Runs of the scheduler\<close>

text \<open>
  The operations of the scheduler as steps of the system. \<open>sched_sleep\<close> is called by the running
  thread; \<open>sched_sleep_resume\<close> happens when the thread that halted in it finds its state changed.
\<close>

inductive sched_step :: "'a sched_state_scheme \<Rightarrow> 'a sched_state_scheme \<Rightarrow> bool" where
  tick: "sched_step s (sched_tick s)"
| yield: "sched_step s (sched_yield s)"
| sleep: "sched_step s (fst (sched_sleep ch s))"
| resume: "sched_sleep_resume s = Some t \<Longrightarrow> sched_step s t"
| wakeup: "sched_step s (sched_wakeup ch s)"
| wait_step: "sched_wait tid s = Some (t, idle) \<Longrightarrow> sched_step s t"
| spawn: "heap_ok s \<Longrightarrow> sched_spawn_prio_with_context fn p c s = Some (t, slot) \<Longrightarrow> sched_step s t"
| fd_open: "sched_step s (fst (sched_fd_open k h s))"
| fd_close: "sched_step s (fst (sched_fd_close fd s))"
| fd_set: "sched_step s (fst (sched_fd_set tid fd k h s))"
| set_priority: "sched_step s (sched_set_priority tid p s)"
| set_address_space: "sched_step s (sched_set_address_space tid sp s)"
| set_uid: "sched_step s (fst (sched_set_uid tid u s))"
| set_context: "sched_step s (sched_set_current_context c s)"

lemma sched_inv_spawn [inv_intros]:
  assumes inv: "sched_inv s" and ok: "heap_ok s"
    and r: "sched_spawn_prio_with_context fn p c s = Some (t, slot)"
  shows "sched_inv t"
  using inv ok
proof (cases rule: sched_spawn_cases [where fn = fn and priority = p and ctx = c])
  case (failed u)
  then show ?thesis using r by simp
next
  case (created t' slot' u)
  have tt: "t' = t" "slot' = slot" using created(1) r by simp_all
  have "thread_ok (threads t ! i) \<and> (t_state (threads t ! i) = THREAD_RUNNING \<longrightarrow> int i = current_thread t)"
    if "i < length (threads t)" for i
  proof (cases "i = nat slot")
    case True
    have "0 \<le> t_priority (threads t ! i)" "t_priority (threads t ! i) < THREAD_PRIO_COUNT"
      "t_state (threads t ! i) = THREAD_READY" "length (t_fds (threads t ! i)) = THREAD_MAX_FDS"
      "t_ticks_remaining (threads t ! i) = quantum_ticks (t_priority (threads t ! i))"
      using created(13) unfolding tt True
      by (auto simp: spawned_def THREAD_PRIO_NORMAL_def THREAD_PRIO_COUNT_def THREAD_MAX_FDS_def)
    then show ?thesis using quantum_ticks_bounds by (simp add: thread_ok_def)
  next
    case False
    then show ?thesis using that created(3,8,9,10,11) tt by (auto simp: sched_inv_def)
  qed
  moreover have "tid_ok (current_thread t) t" using created(3,9,10,11) tt by (simp add: sched_inv_def tid_ok_iff)
  ultimately show ?thesis by (simp add: sched_inv_def)
qed


lemma sched_inv_wait: "sched_sleep ch s = (t, idle) \<Longrightarrow> sched_inv s \<Longrightarrow> sched_inv t"
  using sched_inv_sleep [of s ch] by simp

lemma sched_step_inv: "sched_step s t \<Longrightarrow> sched_inv s \<Longrightarrow> sched_inv t"
  by (induction rule: sched_step.induct)
    (auto simp: sched_wait_def intro: inv_intros dest: sched_inv_wait split: if_splits)

section \<open>Properties\<close>


text \<open>Three threads, the first of them running, the second ready and the third asleep; one slot is unused.\<close>

definition example_thread :: "thread_state \<Rightarrow> u64 \<Rightarrow> thread" where
  "example_thread st ch = \<lparr>t_rsp = 0x9000, t_state = st, t_stack_low = 0, t_guard_page = 0,
     t_priority = THREAD_PRIO_NORMAL, t_ticks_remaining = 4, t_address_space = 0x10000,
     t_wait_channel = ch, t_context = 0, t_fds = replicate THREAD_MAX_FDS unused_fd, t_uid = 7\<rparr>"

definition sched_example :: sched_state where
  "sched_example = set_free 19 (set_free 18 (set_free 17
     \<lparr>phys_mem = \<lambda>_. 0, bitmap = \<lambda>_. 0xFF, total_frames = 3, free_frames = 0, search_hint = 16,
      heap_head = 0, kernel_pml4 = 0x10000, cr3 = 0x10000, stack_regions = [],
      threads = [example_thread THREAD_RUNNING 0, example_thread THREAD_READY 0,
                 example_thread THREAD_BLOCKED 0x55, example_thread THREAD_UNUSED 0],
      threads_ptr = 0, current_thread = 0,
      cpu = \<lparr>rip = 0, rsp = 0x8000, rflags = 0x202, rbp = 1, rbx = 2, r12 = 3, r13 = 4, r14 = 5, r15 = 6\<rparr>,
      tss_rsp0 = 0\<rparr>))"

lemma set_free_sched [simp]:
  "threads (set_free f s) = threads s" "current_thread (set_free f s) = current_thread s"
  "cpu (set_free f s) = cpu s"
  by (rule pmm_frame_field [of s]; simp add: pmm_clear_def)+

lemma sched_example_fields:
  "threads sched_example = [example_thread THREAD_RUNNING 0, example_thread THREAD_READY 0,
     example_thread THREAD_BLOCKED 0x55, example_thread THREAD_UNUSED 0]"
  "current_thread sched_example = 0" "phys_mem sched_example = (\<lambda>_. 0)" "cr3 sched_example = 0x10000"
  "heap_head sched_example = 0"
  "cpu sched_example = \<lparr>rip = 0, rsp = 0x8000, rflags = 0x202, rbp = 1, rbx = 2, r12 = 3, r13 = 4, r14 = 5, r15 = 6\<rparr>"
  by (simp_all add: sched_example_def)

lemma example_thread_ok: "thread_ok (example_thread st ch)"
  by (simp add: thread_ok_def example_thread_def THREAD_PRIO_NORMAL_def THREAD_PRIO_COUNT_def)

lemma sched_example_inv: "sched_inv sched_example"
  by (simp add: sched_inv_def tid_ok_iff sched_example_fields example_thread_ok All_less_Suc)
    (simp add: example_thread_def)


text \<open>
  C17: Round robin is fair. A thread that is \<open>READY\<close> while another one has the CPU becomes the
  current thread after at most \<open>8 * (capacity - 1)\<close> timer ticks, whatever the priorities are.
\<close>

theorem sched_tick_fair:
  assumes "sched_inv s" and "i < length (threads s)" and "t_state (threads s ! i) = THREAD_READY"
    and "int i \<noteq> current_thread s"
  shows "\<exists>k \<le> 8 * (length (threads s) - 1). current_thread ((sched_tick ^^ k) s) = int i"
proof -
  let ?n = "length (threads s)"
  have w: "waits_turn i s" using assms by (simp add: waits_turn_def)
  note cur = sched_inv_current [OF assms(1)]
  have inv: "int i = (current_thread s + int (Suc (ahead ?n (current_thread s) (int i)))) mod int ?n"
    "ahead ?n (current_thread s) (int i) < ?n"
    using ahead_inverse [of "int i" ?n "current_thread s"] assms(2) by auto
  have "Suc (ahead ?n (current_thread s) (int i)) \<noteq> ?n"
    using inv(1) assms(4) cur by (auto simp del: of_nat_Suc)
  moreover have "t_ticks_remaining (threads s ! nat (current_thread s)) \<le> 8"
    using assms(1) cur by (simp add: sched_inv_def thread_ok_def)
  then have "nat (max 1 (t_ticks_remaining (threads s ! nat (current_thread s)))) \<le> 8" by simp
  ultimately have "turn_weight i s \<le> 8 * (?n - 1)" using inv(2) by (simp add: turn_weight_def)
  then show ?thesis using waits_turn_bounded [OF w] by (meson order_trans)
qed

theorem sched_tick_fair_witness:
  "\<exists>k \<le> 24. current_thread ((sched_tick ^^ k) sched_example) = 1"
  using sched_tick_fair [OF sched_example_inv, of 1] by (simp add: sched_example_fields example_thread_def)

text \<open>
  C34: A context switch loses nothing. When thread \<open>prev\<close> switches to \<open>nxt\<close> and later some thread
  switches to \<open>prev\<close>, with the saved stack pointer and the 64 bytes of the saved frame untouched and
  the stack of the thread that switches apart from them, the CPU continues at the return address of
  the first switch with every saved register and the flags as they were.
\<close>

theorem switch_context_roundtrip:
  assumes "t = switch_context (Some prev) nxt s"
    and "prev \<noteq> nxt" "0 \<le> prev" "prev < thread_capacity s" "0 \<le> nxt" "nxt < thread_capacity s"
    and "nat prev < length (threads u)" and "t_rsp (threads u ! nat prev) = t_rsp (threads t ! nat prev)"
    and "\<And>x. x - t_rsp (threads t ! nat prev) < 64 \<Longrightarrow> phys_mem u x = phys_mem t x"
    and "disjnt_ranges (rsp (cpu u) - 56) 56 (t_rsp (threads t ! nat prev)) 64"
  shows "cpu (switch_context (Some nxt) prev u) =
    (cpu s)\<lparr>rip := rd64 (phys_mem s) (rsp (cpu s)), rsp := rsp (cpu s) + 8\<rparr>"
proof -
  let ?c = "(cpu s)\<lparr>rip := rd64 (phys_mem s) (rsp (cpu s)), rsp := rsp (cpu s) + 8\<rparr>"
  have t: "t_rsp (threads t ! nat prev) = rsp (cpu s) - 56" "phys_mem t = phys_mem (save_context s)"
    using assms(1-6) by (simp_all add: switch_context_def Let_def nth_upd_thread save_context_frame(2))
  have "saved_frame (phys_mem t) (t_rsp (threads t ! nat prev)) ?c"
    unfolding t by (rule save_context_frame(1)) simp
  then have "saved_frame (phys_mem u) (t_rsp (threads u ! nat prev)) ?c"
    unfolding assms(8) by (rule saved_frame_cong) (rule assms(9))
  then show ?thesis
    using assms(2,3,5,7,8,10) by (intro switch_context_restores) auto
qed

theorem switch_context_roundtrip_witness:
  "cpu (switch_context (Some 1) 0 ((switch_context (Some 0) 1 sched_example)\<lparr>cpu := (cpu sched_example)\<lparr>rsp := 0xA000\<rparr>\<rparr>))
     = (cpu sched_example)\<lparr>rip := 0, rsp := 0x8008\<rparr>"
proof -
  let ?t = "switch_context (Some 0) 1 sched_example"
  let ?u = "?t\<lparr>cpu := (cpu sched_example)\<lparr>rsp := 0xA000\<rparr>\<rparr>"
  have len: "length (threads ?t) = 4"
    using same_but_rsp_length [OF switch_context_threads(1) [of "Some 0" 1 sched_example]]
    by (simp add: sched_example_fields)
  have rsp: "t_rsp (threads ?t ! 0) = 0x8000 - 56"
    by (simp add: switch_context_def Let_def nth_upd_thread save_context_frame(2) sched_example_fields)
  have "disjnt_ranges (0xA000 - 56) 56 (0x8000 - 56) 64"
    using range_iff [of "0xA000 - 56" 56] range_iff [of "0x8000 - 56" 64] by (auto simp: disjnt_ranges_def)
  then have "cpu (switch_context (Some 1) 0 ?u) =
      (cpu sched_example)\<lparr>rip := rd64 (phys_mem sched_example) (rsp (cpu sched_example)), rsp := rsp (cpu sched_example) + 8\<rparr>"
    by (intro switch_context_roundtrip [OF refl]) (simp_all add: len rsp, simp_all add: sched_example_fields)
  then show ?thesis by (simp add: sched_example_fields rd64_def)
qed



lemma sched_example_pmm: "pmm_ok sched_example" "free_set sched_example = {17, 18, 19}"
proof -
  let ?s = "\<lparr>phys_mem = \<lambda>_. 0, bitmap = \<lambda>_. 0xFF, total_frames = 3, free_frames = 0, search_hint = 16\<rparr> :: pmm_state"
  let ?e = "set_free 19 (set_free 18 (set_free 17 ?s))"
  have b: "bitmap sched_example = bitmap ?e" "free_frames sched_example = free_frames ?e"
    unfolding sched_example_def by (intro set_free_cong; simp)+
  have none: "free_set ?s = {}"
    by (auto simp: free_set_def is_used_all_ones)
  then have free: "free_set ?e = {17, 18, 19}" by (auto simp: PMM_MAX_FRAMES_eq)
  have "pmm_inv ?s" using none by (simp add: pmm_inv_def)
  then have "pmm_inv ?e" by (simp add: inv_intros)
  then have "pmm_ok ?e" using free by (simp add: pmm_ok_def)
  then show "pmm_ok sched_example" using pmm_ok_cong [OF b] by simp
  show "free_set sched_example = {17, 18, 19}" using free_set_cong [OF b(1)] free by simp
qed

lemma sched_example_heap: "heap_ok sched_example"
  using sched_example_pmm by (auto simp: heap_ok_def heap_rep_def sched_example_fields intro!: exI [of _ "[]"])

lemma sched_example_stack: "\<exists>t. alloc_guarded_stack sched_example = (t, Some (0x12000, 0x11000))"
proof -
  have "unat i = 0 \<or> unat i = 1 \<or> unat i = 2" if "i < 3" for i :: u64
    using that by (auto simp: word_less_nat_alt)
  then have three: "i = 0 \<or> i = 1 \<or> i = 2" if "i < 3" for i :: u64
    using that by (simp add: word_unat_eq_iff)
  have run17: "free_run sched_example 17 3"
    using sched_example_pmm(2) three by (fastforce simp: free_run_def free_set_def)
  have guard: "vmm_guard_page p t = t" "\<not> vmm_is_mapped p t" if m: "phys_mem t = (\<lambda>_. 0)"
    for p and t :: sched_state
  proof -
    have "get_pd_entry (\<lambda>_. 0) q v = 0" for q v by (simp add: get_pd_entry_def entry_def rd64_def)
    then show "vmm_guard_page p t = t" "\<not> vmm_is_mapped p t"
      using m by (simp_all add: vmm_guard_page_def vmm_guard_page_in_def vmm_unmap_page_in_def
          vmm_is_mapped_def vmm_is_mapped_in_def)
  qed
  show ?thesis
  proof (cases rule: pmm_alloc_contiguous_cases [of 3 sched_example])
    case none
    then show ?thesis using run17 by simp
  next
    case (run a t)
    have "\<not> is_used sched_example (a + 0)" using run(3) unfolding free_run_def by (rule allE [of _ 0]) simp
    then have "a \<in> free_set sched_example" by (simp add: free_set_def)
    moreover have "a \<le> 17" using run(4) run17 by blast
    ultimately have a: "a = 17" unfolding sched_example_pmm(2) by auto
    have "phys_mem t = (\<lambda>_. 0)" using pmm_frame_phys_mem [OF run(7)] by (simp add: sched_example_fields)
    then show ?thesis using run(1) guard by (simp add: alloc_guarded_stack_def THREAD_STACK_PAGES_def PMM_FRAME_SIZE_def a)
  qed
qed


text \<open>
  A growth of the table gives every thread, the running ones included, whatever the bytes of the new
  allocation hold as its owner: neither \<open>copy_thread_slot\<close> nor \<open>init_thread_slot\<close> assigns \<open>uid\<close>.
\<close>

theorem grow_thread_table_forgets_uid:
  assumes "grow_thread_table s = Some (t, 0)" and "i < length (threads s)"
  shows "\<exists>u p. kmalloc (THREAD_SIZE * of_nat (length (threads t))) s = Some (u, p) \<and>
     threads t ! i = (threads s ! i)\<lparr>t_uid := rd32 (phys_mem u) (p + of_nat i * THREAD_SIZE + THREAD_UID_OFFSET)\<rparr>"
  using assms(1)
proof (cases rule: grow_thread_table_cases)
  case (grown u p)
  have "threads t = grown_slots (phys_mem u) p (threads s)" using mm_frame_sched(1) [OF grown(5)] by simp
  then show ?thesis
    using grown(4) assms(2) length_grown_slots [of "threads s" "phys_mem u" p]
    by (intro exI [of _ u] exI [of _ p]) (simp add: grown_slots_nth)
qed simp

end
