(* ===== verification/Pipe.thy ===== *)
theory Pipe
  imports Thread Ring_Buffer
begin

text \<open>
  Pipes, \<open>kernel/core/pipe.c\<close>: eight fixed pipes of 1024 bytes with counts of readers and writers.
  A reader of an empty pipe and a writer of a full one sleep on the pipe's address. \<open>pipe_read\<close> and
  \<open>pipe_write\<close> are one round of their loops: they return a result, or they put the caller to sleep
  (\<open>None\<close>) and are entered again when it runs again.
\<close>

definition PIPE_MAX :: nat where "PIPE_MAX = 8"
definition PIPE_BUF_SIZE :: u32 where "PIPE_BUF_SIZE = 1024"

text \<open>\<open>sizeof(pipe_t)\<close>.\<close>

definition PIPE_SIZE :: u64 where "PIPE_SIZE = 1048"

record pipe =
  p_in_use :: bool
  p_buf :: "u8 list"
  p_read_pos :: u32
  p_write_pos :: u32
  p_count :: u32
  p_readers :: int
  p_writers :: int

text \<open>\<open>pipes_addr\<close> is where the linker put the array; \<open>&pipes[idx]\<close> is the channel of a pipe.\<close>

record pipe_state = sched_state +
  pipes :: "pipe list"
  pipes_addr :: u64

definition pipe_channel :: "int \<Rightarrow> 'a pipe_state_scheme \<Rightarrow> u64" where
  "pipe_channel idx s = pipes_addr s + of_nat (nat idx) * PIPE_SIZE"

definition upd_pipe :: "int \<Rightarrow> (pipe \<Rightarrow> pipe) \<Rightarrow> 'a pipe_state_scheme \<Rightarrow> 'a pipe_state_scheme" where
  "upd_pipe idx f s = s\<lparr>pipes := (pipes s)[nat idx := f (pipes s ! nat idx)]\<rparr>"

definition valid :: "int \<Rightarrow> 'a pipe_state_scheme \<Rightarrow> bool" where
  "valid idx s \<longleftrightarrow> idx \<ge> 0 \<and> idx < int PIPE_MAX \<and> p_in_use (pipes s ! nat idx)"

definition maybe_free :: "pipe \<Rightarrow> pipe" where
  "maybe_free p = (if p_readers p \<le> 0 \<and> p_writers p \<le> 0 then p\<lparr>p_in_use := False\<rparr> else p)"

definition pipe_create :: "'a pipe_state_scheme \<Rightarrow> 'a pipe_state_scheme \<times> int" where
  "pipe_create s =
     (case first_index (\<lambda>p. \<not> p_in_use p) (pipes s) of
        Some i \<Rightarrow> (upd_pipe (int i) (\<lambda>p. p\<lparr>p_in_use := True, p_read_pos := 0, p_write_pos := 0, p_count := 0,
                      p_readers := 1, p_writers := 1\<rparr>) s, int i)
      | None \<Rightarrow> (s, -1))"

definition pipe_add_reader :: "int \<Rightarrow> 'a pipe_state_scheme \<Rightarrow> 'a pipe_state_scheme \<times> int" where
  "pipe_add_reader idx s =
     (if \<not> valid idx s then (s, -1) else (upd_pipe idx (\<lambda>p. p\<lparr>p_readers := p_readers p + 1\<rparr>) s, 0))"

definition pipe_add_writer :: "int \<Rightarrow> 'a pipe_state_scheme \<Rightarrow> 'a pipe_state_scheme \<times> int" where
  "pipe_add_writer idx s =
     (if \<not> valid idx s then (s, -1) else (upd_pipe idx (\<lambda>p. p\<lparr>p_writers := p_writers p + 1\<rparr>) s, 0))"

definition pipe_close_reader :: "int \<Rightarrow> 'a pipe_state_scheme \<Rightarrow> 'a pipe_state_scheme" where
  "pipe_close_reader idx s =
     (if \<not> valid idx s then s
      else let s = upd_pipe idx (\<lambda>p. if p_readers p > 0 then p\<lparr>p_readers := p_readers p - 1\<rparr> else p) s;
               s = upd_pipe idx maybe_free s
        in sched_wakeup (pipe_channel idx s) s)"

definition pipe_close_writer :: "int \<Rightarrow> 'a pipe_state_scheme \<Rightarrow> 'a pipe_state_scheme" where
  "pipe_close_writer idx s =
     (if \<not> valid idx s then s
      else let s = upd_pipe idx (\<lambda>p. if p_writers p > 0 then p\<lparr>p_writers := p_writers p - 1\<rparr> else p) s;
               s = upd_pipe idx maybe_free s
        in sched_wakeup (pipe_channel idx s) s)"

text \<open>The copy loops.\<close>

fun pipe_copy_out :: "nat \<Rightarrow> pipe \<Rightarrow> pipe \<times> u8 list" where
  "pipe_copy_out 0 p = (p, [])"
| "pipe_copy_out (Suc n) p =
     (let b = p_buf p ! unat (p_read_pos p);
          (p, bs) = pipe_copy_out n (p\<lparr>p_read_pos := (p_read_pos p + 1) mod PIPE_BUF_SIZE\<rparr>)
      in (p, b # bs))"

fun pipe_copy_in :: "u8 list \<Rightarrow> pipe \<Rightarrow> pipe" where
  "pipe_copy_in [] p = p"
| "pipe_copy_in (b # bs) p =
     pipe_copy_in bs (p\<lparr>p_buf := (p_buf p)[unat (p_write_pos p) := b],
                        p_write_pos := (p_write_pos p + 1) mod PIPE_BUF_SIZE\<rparr>)"

text \<open>The transfers of the two loops, with the number of bytes that fit.\<close>

definition pipe_get_bytes :: "nat \<Rightarrow> pipe \<Rightarrow> pipe \<times> u8 list" where
  "pipe_get_bytes len p =
     (let n = (if unat (p_count p) < len then unat (p_count p) else len);
          (p, bs) = pipe_copy_out n p
      in (p\<lparr>p_count := p_count p - of_nat n\<rparr>, bs))"

definition pipe_put_bytes :: "u8 list \<Rightarrow> pipe \<Rightarrow> pipe" where
  "pipe_put_bytes src p =
     (let free_space = PIPE_BUF_SIZE - p_count p;
          n = (if unat free_space < length src then unat free_space else length src);
          p = pipe_copy_in (take n src) p
      in p\<lparr>p_count := p_count p + of_nat n\<rparr>)"

text \<open>The bytes read, with the return value; \<open>None\<close> when the caller went to sleep.\<close>

definition pipe_read :: "int \<Rightarrow> u32 \<Rightarrow> 'a pipe_state_scheme \<Rightarrow> 'a pipe_state_scheme \<times> (int \<times> u8 list) option" where
  "pipe_read idx len s =
     (if idx < 0 \<or> idx \<ge> int PIPE_MAX then (s, Some (-1, []))
      else let p = pipes s ! nat idx in
        if \<not> p_in_use p then (s, Some (-1, []))
        else if p_count p > 0 then
          let (p', bs) = pipe_get_bytes (unat len) p; s = upd_pipe idx (\<lambda>_. p') s
          in (sched_wakeup (pipe_channel idx s) s, Some (int (length bs), bs))
        else if p_writers p \<le> 0 then (s, Some (0, []))
        else (fst (sched_sleep (pipe_channel idx s) s), None))"

definition pipe_write :: "int \<Rightarrow> u8 list \<Rightarrow> 'a pipe_state_scheme \<Rightarrow> 'a pipe_state_scheme \<times> int option" where
  "pipe_write idx src s =
     (if idx < 0 \<or> idx \<ge> int PIPE_MAX then (s, Some (-1))
      else let p = pipes s ! nat idx in
        if \<not> p_in_use p then (s, Some (-1))
        else if p_readers p \<le> 0 then (s, Some (-1))
        else let free_space = PIPE_BUF_SIZE - p_count p in
          if free_space > 0 then
            let n = (if unat free_space < length src then unat free_space else length src);
                s = upd_pipe idx (pipe_put_bytes src) s
            in (sched_wakeup (pipe_channel idx s) s, Some (int n))
          else (fst (sched_sleep (pipe_channel idx s) s), None))"

section \<open>A pipe is a bounded stream\<close>

definition pipe_inv :: "pipe \<Rightarrow> bool" where
  "pipe_inv p \<longleftrightarrow> length (p_buf p) = 1024 \<and> unat (p_read_pos p) < 1024 \<and> unat (p_count p) \<le> 1024 \<and>
     unat (p_write_pos p) = (unat (p_read_pos p) + unat (p_count p)) mod 1024"

definition pipe_contents :: "pipe \<Rightarrow> u8 list" where
  "pipe_contents p = circ (p_buf p) (unat (p_read_pos p)) (unat (p_count p))"

lemma unat_next_pos: "unat i < 1024 \<Longrightarrow> unat ((i + 1) mod PIPE_BUF_SIZE) = Suc (unat i) mod 1024"
  using unat_succ_mod [of i PIPE_BUF_SIZE] by (simp add: PIPE_BUF_SIZE_def word_less_nat_alt)

text \<open>Reading \<open>n\<close> bytes walks the window; the buffer and the count are not touched.\<close>

lemma pipe_copy_out_circ:
  assumes "length (p_buf p) = 1024" and "unat (p_read_pos p) < 1024" and "pipe_copy_out n p = (q, bs)"
  shows "bs = circ (p_buf p) (unat (p_read_pos p)) n \<and>
     (\<exists>r. q = p\<lparr>p_read_pos := r\<rparr> \<and> unat r = (unat (p_read_pos p) + n) mod 1024)"
  using assms
proof (induction n arbitrary: p bs)
  case 0
  then show ?case by (auto intro!: exI [of _ "p_read_pos p"])
next
  case (Suc n)
  let ?r = "(p_read_pos p + 1) mod PIPE_BUF_SIZE" and ?p = "p\<lparr>p_read_pos := (p_read_pos p + 1) mod PIPE_BUF_SIZE\<rparr>"
  obtain cs where c: "pipe_copy_out n ?p = (q, cs)" and bs: "bs = p_buf p ! unat (p_read_pos p) # cs"
    using Suc.prems(3) by (auto simp: Let_def split: prod.splits)
  have r: "unat ?r = Suc (unat (p_read_pos p)) mod 1024" by (rule unat_next_pos [OF Suc.prems(2)])
  have IH: "cs = circ (p_buf p) (unat ?r) n" "\<exists>r'. q = ?p\<lparr>p_read_pos := r'\<rparr> \<and> unat r' = (unat ?r + n) mod 1024"
    using Suc.IH [of ?p cs] c Suc.prems(1) r by simp_all
  have "cs = circ (p_buf p) (Suc (unat (p_read_pos p))) n"
    using IH(1) circ_mod [of "p_buf p" "Suc (unat (p_read_pos p))" n] Suc.prems(1) by (simp add: r)
  then have "bs = circ (p_buf p) (unat (p_read_pos p)) (Suc n)"
    using bs Suc.prems(1,2) by (simp add: circ_Suc)
  moreover obtain r' where "q = ?p\<lparr>p_read_pos := r'\<rparr>" "unat r' = (unat ?r + n) mod 1024" using IH(2) by blast
  ultimately show ?case by (intro conjI exI [of _ r']) (simp_all add: r mod_add_left_eq)
qed

text \<open>Writing \<open>bs\<close> extends the window by \<open>bs\<close>, as long as it fits.\<close>

lemma pipe_copy_in_circ:
  assumes "length (p_buf p) = 1024" and "k + length bs \<le> 1024"
    and "unat (p_write_pos p) = (start + k) mod 1024"
  shows "\<exists>buf w. pipe_copy_in bs p = p\<lparr>p_buf := buf, p_write_pos := w\<rparr> \<and> length buf = 1024 \<and>
     circ buf start (k + length bs) = circ (p_buf p) start k @ bs \<and>
     unat w = (start + k + length bs) mod 1024"
  using assms
proof (induction bs arbitrary: p k)
  case Nil
  then show ?case by (intro exI [of _ "p_buf p"] exI [of _ "p_write_pos p"]) simp
next
  case (Cons b bs)
  let ?w = "(p_write_pos p + 1) mod PIPE_BUF_SIZE"
  let ?p = "p\<lparr>p_buf := (p_buf p)[unat (p_write_pos p) := b], p_write_pos := ?w\<rparr>"
  have w: "unat ?w = (start + Suc k) mod 1024"
    using unat_next_pos [of "p_write_pos p"] Cons.prems(3) by (simp add: mod_Suc_eq)
  obtain buf w' where IH: "pipe_copy_in bs ?p = ?p\<lparr>p_buf := buf, p_write_pos := w'\<rparr>" "length buf = 1024"
    "circ buf start (Suc k + length bs) = circ (p_buf ?p) start (Suc k) @ bs"
    "unat w' = (start + Suc k + length bs) mod 1024"
    using Cons.IH [of ?p "Suc k"] Cons.prems w by auto
  have "circ (p_buf ?p) start (Suc k) = circ (p_buf p) start k @ [b]"
    using circ_push [of k "p_buf p" start b] Cons.prems by simp
  then show ?case using IH by (intro exI [of _ buf] exI [of _ w']) simp
qed


lemma circ_take: "n \<le> k \<Longrightarrow> take n (circ buf start k) = circ buf start n"
  by (simp add: circ_def take_map)

lemma circ_drop: "n \<le> k \<Longrightarrow> drop n (circ buf start k) = circ buf (start + n) (k - n)"
  by (rule nth_equalityI) (auto simp: circ_def ac_simps)

lemma unat_minus_of_nat: "n \<le> unat c \<Longrightarrow> unat (c - of_nat n) = unat c - n" for c :: u32
proof -
  assume le: "n \<le> unat c"
  have "unat c < 2 ^ LENGTH(32)" by (rule unsigned_less)
  then have "n < 2 ^ LENGTH(32)" using le by linarith
  then have "unat (of_nat n :: u32) = n" by (simp add: unat_of_nat)
  then show ?thesis using le by (simp add: unat_sub_if')
qed

lemma unat_plus_of_nat: "unat c + n \<le> 1024 \<Longrightarrow> unat (c + of_nat n) = unat c + n" for c :: u32
  by (simp add: unat_word_ariths unat_of_nat mod_add_right_eq)

lemma pipe_get_bytes_correct:
  assumes inv: "pipe_inv p" and g: "pipe_get_bytes n p = (q, bs)"
  shows "pipe_inv q" "bs = take n (pipe_contents p)" "pipe_contents q = drop n (pipe_contents p)"
    "p_in_use q = p_in_use p" "p_readers q = p_readers p" "p_writers q = p_writers p"
    "unat (p_count q) = unat (p_count p) - n"
proof -
  let ?n = "if unat (p_count p) < n then unat (p_count p) else n"
  obtain r where c: "pipe_copy_out ?n p = (r, bs)" and q: "q = r\<lparr>p_count := p_count r - of_nat ?n\<rparr>"
    using g by (auto simp: pipe_get_bytes_def Let_def split: prod.splits)
  have p: "length (p_buf p) = 1024" "unat (p_read_pos p) < 1024" "unat (p_count p) \<le> 1024"
    "unat (p_write_pos p) = (unat (p_read_pos p) + unat (p_count p)) mod 1024" using inv by (auto simp: pipe_inv_def)
  obtain x where bs: "bs = circ (p_buf p) (unat (p_read_pos p)) ?n"
    and r: "r = p\<lparr>p_read_pos := x\<rparr>" and x: "unat x = (unat (p_read_pos p) + ?n) mod 1024"
    using pipe_copy_out_circ [OF p(1,2) c] by blast
  have le: "?n \<le> unat (p_count p)" by auto
  have cnt: "unat (p_count q) = unat (p_count p) - ?n"
    unfolding q r using unat_minus_of_nat [OF le] by simp
  then show "unat (p_count q) = unat (p_count p) - n" by simp
  have "(unat x + (unat (p_count p) - ?n)) mod 1024 = unat (p_write_pos p)"
    unfolding x p(4) mod_add_left_eq using le by simp
  then show "pipe_inv q" using cnt p x unfolding pipe_inv_def q r by simp
  show "bs = take n (pipe_contents p)"
    unfolding bs pipe_contents_def by (simp add: circ_take)
  have "pipe_contents q = circ (p_buf p) (unat (p_read_pos p) + ?n) (unat (p_count p) - ?n)"
    using circ_mod [of "p_buf p" "unat (p_read_pos p) + ?n"] cnt x p(1) unfolding pipe_contents_def q r by simp
  also have "\<dots> = drop n (pipe_contents p)" unfolding pipe_contents_def by (simp add: circ_drop)
  finally show "pipe_contents q = drop n (pipe_contents p)" .
  show "p_in_use q = p_in_use p" "p_readers q = p_readers p" "p_writers q = p_writers p" unfolding q r by simp_all
qed

lemma pipe_put_bytes_correct:
  assumes inv: "pipe_inv p"
  shows "pipe_inv (pipe_put_bytes bs p)"
    "pipe_contents (pipe_put_bytes bs p) = pipe_contents p @ take (1024 - length (pipe_contents p)) bs"
    "p_in_use (pipe_put_bytes bs p) = p_in_use p" "p_readers (pipe_put_bytes bs p) = p_readers p"
    "p_writers (pipe_put_bytes bs p) = p_writers p"
proof -
  let ?f = "unat (PIPE_BUF_SIZE - p_count p)"
  let ?n = "if ?f < length bs then ?f else length bs"
  have p: "length (p_buf p) = 1024" "unat (p_read_pos p) < 1024" "unat (p_count p) \<le> 1024"
    "unat (p_write_pos p) = (unat (p_read_pos p) + unat (p_count p)) mod 1024" using inv by (auto simp: pipe_inv_def)
  have f: "?f = 1024 - unat (p_count p)" using p(3) by (simp add: PIPE_BUF_SIZE_def unat_sub_if')
  have n: "unat (p_count p) + length (take ?n bs) \<le> 1024" using p(3) f by auto
  have nl: "length (take ?n bs) = ?n" by simp
  obtain buf w where c: "pipe_copy_in (take ?n bs) p = p\<lparr>p_buf := buf, p_write_pos := w\<rparr>" "length buf = 1024"
    "circ buf (unat (p_read_pos p)) (unat (p_count p) + length (take ?n bs)) =
       circ (p_buf p) (unat (p_read_pos p)) (unat (p_count p)) @ take ?n bs"
    "unat w = (unat (p_read_pos p) + unat (p_count p) + length (take ?n bs)) mod 1024"
    using pipe_copy_in_circ [OF p(1) n p(4)] by blast
  have q: "pipe_put_bytes bs p = p\<lparr>p_buf := buf, p_write_pos := w, p_count := p_count p + of_nat ?n\<rparr>"
    unfolding pipe_put_bytes_def Let_def c(1) by simp
  have cnt: "unat (p_count p + of_nat ?n) = unat (p_count p) + ?n" using unat_plus_of_nat [of "p_count p" ?n] n unfolding nl by simp
  show "pipe_inv (pipe_put_bytes bs p)"
    using c(2,4) p cnt n nl unfolding pipe_inv_def q by (simp add: add.assoc)
  show "pipe_contents (pipe_put_bytes bs p) = pipe_contents p @ take (1024 - length (pipe_contents p)) bs"
    using c(3) cnt nl f unfolding pipe_contents_def q by (simp split: if_splits)
  show "p_in_use (pipe_put_bytes bs p) = p_in_use p" "p_readers (pipe_put_bytes bs p) = p_readers p"
    "p_writers (pipe_put_bytes bs p) = p_writers p" unfolding q by simp_all
qed

interpretation pipe: bounded_stream pipe_inv pipe_contents "\<lambda>_. 1024" pipe_put_bytes pipe_get_bytes
proof
  fix p :: pipe and xs :: "u8 list" and n :: nat and t ys
  assume inv: "pipe_inv p"
  then show "length (pipe_contents p) \<le> 1024" by (simp add: pipe_inv_def pipe_contents_def)
  show "pipe_inv (pipe_put_bytes xs p)"
    "pipe_contents (pipe_put_bytes xs p) = pipe_contents p @ take (1024 - length (pipe_contents p)) xs"
    by (fact pipe_put_bytes_correct [OF inv])+
  assume "pipe_get_bytes n p = (t, ys)"
  then show "pipe_inv t \<and> (1024::nat) = 1024 \<and> ys = take n (pipe_contents p) \<and> pipe_contents t = drop n (pipe_contents p)"
    using pipe_get_bytes_correct(1-3) [OF inv] by blast
qed simp


section \<open>The operations on the state\<close>

definition pipes_ok :: "'a pipe_state_scheme \<Rightarrow> bool" where
  "pipes_ok s \<longleftrightarrow> length (pipes s) = PIPE_MAX \<and> (\<forall>p\<in>set (pipes s). pipe_inv p)"

lemma upd_pipe_fields [simp]:
  "threads (upd_pipe idx f s) = threads s" "current_thread (upd_pipe idx f s) = current_thread s"
  "pipes_addr (upd_pipe idx f s) = pipes_addr s"
  "pipes (upd_pipe idx f s) = (pipes s)[nat idx := f (pipes s ! nat idx)]"
  by (simp_all add: upd_pipe_def)

lemma sched_frame_pipes:
  assumes "sched_frame s t"
  shows "pipes t = pipes s" "pipes_addr t = pipes_addr s"
  by (rule sched_frame_field [OF assms], simp add: sched_clear_def mm_clear_def pmm_clear_def)+

lemma pipes_sched [simp]:
  "pipes (sched_wakeup ch s) = pipes s" "pipes_addr (sched_wakeup ch s) = pipes_addr s"
  "pipes (fst (sched_sleep ch s)) = pipes s" "pipes_addr (fst (sched_sleep ch s)) = pipes_addr s"
  by (rule sched_frame_pipes; simp add: sched_frame_simps)+

lemma pipes_ok_nth: "pipes_ok s \<Longrightarrow> 0 \<le> idx \<Longrightarrow> idx < int PIPE_MAX \<Longrightarrow> pipe_inv (pipes s ! nat idx) \<and> nat idx < length (pipes s)"
  by (auto simp: pipes_ok_def nat_less_iff)

lemma pipe_inv_empty: "pipe_inv p \<Longrightarrow> pipe_contents p = [] \<longleftrightarrow> p_count p = 0"
  by (metis circ_0 length_circ list.size(3) pipe_contents_def unat_eq_zero unsigned_0)

lemma pipe_inv_full: "pipe_inv p \<Longrightarrow> length (pipe_contents p) = 1024 \<longleftrightarrow> PIPE_BUF_SIZE - p_count p = 0"
  unfolding right_minus_eq by (auto simp: pipe_contents_def PIPE_BUF_SIZE_def word_unat_eq_iff)

lemma sched_inv_upd_pipe [simp]: "sched_inv (upd_pipe idx f s) = sched_inv s"
  by (rule sched_inv_cong) simp_all

lemma pipes_ok_upd:
  "pipes_ok s \<Longrightarrow> (pipe_inv (pipes s ! nat idx) \<Longrightarrow> pipe_inv (f (pipes s ! nat idx))) \<Longrightarrow> pipes_ok (upd_pipe idx f s)"
  unfolding pipes_ok_def by (cases "nat idx < length (pipes s)")
    (auto dest!: set_update_subset_insert [THEN subsetD] simp: list_update_beyond)

text \<open>
  Nobody sleeps on a pipe that could serve it: whenever a thread is blocked on the channel of a
  pipe, the pipe is open and is either empty with a writer left, or full with a reader left.
\<close>

definition pipe_sleepers_ok :: "'a pipe_state_scheme \<Rightarrow> bool" where
  "pipe_sleepers_ok s \<longleftrightarrow> (\<forall>i<PIPE_MAX. blocked_on (pipe_channel (int i) s) s \<longrightarrow>
     p_in_use (pipes s ! i) \<and>
     (pipe_contents (pipes s ! i) = [] \<and> p_writers (pipes s ! i) > 0 \<or>
      length (pipe_contents (pipes s ! i)) = 1024 \<and> p_readers (pipes s ! i) > 0))"

lemma pipe_channel_inj:
  assumes "pipe_channel (int i) s = pipe_channel (int j) s" and "i < PIPE_MAX" and "j < PIPE_MAX"
  shows "i = j"
proof -
  have small: "unat (of_nat k * PIPE_SIZE) = k * 1048" if "k < PIPE_MAX" for k
  proof -
    have "of_nat k * PIPE_SIZE = (of_nat (k * 1048) :: u64)" by (simp add: PIPE_SIZE_def)
    moreover have "k * 1048 < 2 ^ LENGTH(64)" using that by (simp add: PIPE_MAX_def)
    ultimately show ?thesis by (simp only: unat_of_nat mod_less)
  qed
  have "of_nat i * PIPE_SIZE = of_nat j * PIPE_SIZE" using assms(1) by (simp add: pipe_channel_def)
  then have "unat (of_nat i * PIPE_SIZE) = unat (of_nat j * PIPE_SIZE)" by (rule arg_cong)
  then show ?thesis unfolding small [OF assms(2)] small [OF assms(3)] by simp
qed

text \<open>An update of pipe \<open>idx\<close> followed by a wakeup of its channel, or one that only adds an end.\<close>

lemma pipe_sleepers_wakeup:
  assumes "pipe_sleepers_ok s" and "0 \<le> idx" and "idx < int PIPE_MAX" and "u = upd_pipe idx f s"
  shows "pipe_sleepers_ok (sched_wakeup (pipe_channel idx u) u)"
proof -
  have ch: "pipe_channel (int i) (sched_wakeup c u) = pipe_channel (int i) s" "blocked_on c' u = blocked_on c' s"
    "pipe_channel idx u = pipe_channel idx s" for i c c'
    using assms(4) by (simp_all add: pipe_channel_def blocked_on_def)
  have "pipes u ! i = pipes s ! i" if "i < PIPE_MAX" "pipe_channel (int i) s \<noteq> pipe_channel idx s" for i
    using that assms(2,4) by (cases "i = nat idx") auto
  then show ?thesis using assms(1) unfolding pipe_sleepers_ok_def ch blocked_on_wakeup pipes_sched by metis
qed

lemma pipe_sleepers_mono:
  assumes "pipe_sleepers_ok s" and "\<And>c. blocked_on c t \<Longrightarrow> blocked_on c s" and "pipes_addr t = pipes_addr s"
    and "\<And>i. i < PIPE_MAX \<Longrightarrow> p_in_use (pipes s ! i) \<Longrightarrow> p_in_use (pipes t ! i) \<and>
      pipe_contents (pipes t ! i) = pipe_contents (pipes s ! i) \<and>
      p_readers (pipes s ! i) \<le> p_readers (pipes t ! i) \<and> p_writers (pipes s ! i) \<le> p_writers (pipes t ! i)"
  shows "pipe_sleepers_ok t"
proof -
  have "pipe_channel (int i) t = pipe_channel (int i) s" for i using assms(3) by (simp add: pipe_channel_def)
  then show ?thesis using assms(1,2,4) unfolding pipe_sleepers_ok_def by (smt (verit, ccfv_threshold))
qed


section \<open>Steps of the pipes\<close>

text \<open>
  What happens to pipes: the operations above, interleaved with every step of the scheduler that
  does not sleep on the channel of a pipe.
\<close>

inductive pipe_step :: "'a pipe_state_scheme \<Rightarrow> 'a pipe_state_scheme \<Rightarrow> bool" where
  create: "pipe_step s (fst (pipe_create s))"
| add_reader: "pipe_step s (fst (pipe_add_reader idx s))"
| add_writer: "pipe_step s (fst (pipe_add_writer idx s))"
| close_reader: "pipe_step s (pipe_close_reader idx s)"
| close_writer: "pipe_step s (pipe_close_writer idx s)"
| read: "pipe_step s (fst (pipe_read idx len s))"
| write_bytes: "pipe_step s (fst (pipe_write idx src s))"
| tick: "pipe_step s (sched_tick s)"
| yield: "pipe_step s (sched_yield s)"
| resume: "sched_sleep_resume s = Some t \<Longrightarrow> pipe_step s t"
| wakeup: "pipe_step s (sched_wakeup ch s)"
| other_sleep: "(\<And>i. i < PIPE_MAX \<Longrightarrow> ch \<noteq> pipe_channel (int i) s) \<Longrightarrow> pipe_step s (fst (sched_sleep ch s))"
| spawn: "heap_ok s \<Longrightarrow> sched_spawn_prio_with_context fn p c s = Some (t, slot) \<Longrightarrow> pipe_step s t"

definition pipe_system_ok :: "'a pipe_state_scheme \<Rightarrow> bool" where
  "pipe_system_ok s \<longleftrightarrow> sched_inv s \<and> pipes_ok s \<and> pipe_sleepers_ok s"

lemma pipe_inv_cong:
  "pipe_inv (p\<lparr>p_readers := r\<rparr>) = pipe_inv p" "pipe_inv (p\<lparr>p_writers := r\<rparr>) = pipe_inv p"
  "pipe_inv (p\<lparr>p_in_use := b\<rparr>) = pipe_inv p"
  by (simp_all add: pipe_inv_def)

lemma pipe_contents_cong [simp]:
  "pipe_contents (p\<lparr>p_readers := r\<rparr>) = pipe_contents p" "pipe_contents (p\<lparr>p_writers := r\<rparr>) = pipe_contents p"
  by (simp_all add: pipe_contents_def)

lemma pipes_ok_cong: "pipes t = pipes s \<Longrightarrow> pipes_ok t = pipes_ok s"
  by (simp add: pipes_ok_def)

text \<open>The three shapes of a step: within the scheduler, an update with a wakeup, a sleep on a pipe.\<close>

lemma pipe_system_sched:
  assumes "pipe_system_ok s" and "sched_inv t" and "sched_frame s t" and "\<And>c. blocked_on c t \<Longrightarrow> blocked_on c s"
  shows "pipe_system_ok t"
proof -
  have p: "pipes t = pipes s" "pipes_addr t = pipes_addr s" by (rule sched_frame_pipes [OF assms(3)])+
  have "pipes_ok t = pipes_ok s" by (rule pipes_ok_cong [OF p(1)])
  moreover have "pipe_sleepers_ok t"
  proof (rule pipe_sleepers_mono)
    show "pipe_sleepers_ok s" using assms(1) by (simp add: pipe_system_ok_def)
    show "blocked_on c s" if "blocked_on c t" for c using that by (rule assms(4))
  qed (simp_all add: p)
  ultimately show ?thesis using assms(1,2) by (simp add: pipe_system_ok_def)
qed

lemma pipe_system_wakeup:
  assumes "pipe_system_ok s" and "valid idx s" and "\<And>p. pipe_inv p \<Longrightarrow> pipe_inv (f p)"
    and "u = upd_pipe idx f s"
  shows "pipe_system_ok (sched_wakeup (pipe_channel idx u) u)"
proof -
  have "pipe_sleepers_ok (sched_wakeup (pipe_channel idx u) u)"
    using assms(1,2,4) by (intro pipe_sleepers_wakeup [of s]) (auto simp: pipe_system_ok_def valid_def)
  moreover have "pipes_ok u" using assms by (auto simp: pipe_system_ok_def intro: pipes_ok_upd)
  moreover have "pipes_ok (sched_wakeup c u) = pipes_ok u" for c by (rule pipes_ok_cong) simp
  ultimately show ?thesis using assms(1,4) by (simp add: pipe_system_ok_def sched_inv_wakeup)
qed

lemma pipe_system_sleep:
  assumes "pipe_system_ok s" and "valid idx s"
    and "pipe_contents (pipes s ! nat idx) = [] \<and> p_writers (pipes s ! nat idx) > 0 \<or>
      length (pipe_contents (pipes s ! nat idx)) = 1024 \<and> p_readers (pipes s ! nat idx) > 0"
  shows "pipe_system_ok (fst (sched_sleep (pipe_channel idx s) s))"
proof -
  let ?c = "pipe_channel idx s" and ?t = "fst (sched_sleep (pipe_channel idx s) s)"
  have inv: "sched_inv s" and idx: "0 \<le> idx" "nat idx < PIPE_MAX" "p_in_use (pipes s ! nat idx)"
    using assms(1,2) by (auto simp: pipe_system_ok_def valid_def)
  have ch: "pipe_channel (int i) ?t = pipe_channel (int i) s" for i by (simp add: pipe_channel_def)
  have "pipe_sleepers_ok ?t"
    unfolding pipe_sleepers_ok_def ch pipes_sched
  proof (intro allI impI)
    fix i
    assume i: "i < PIPE_MAX" and b: "blocked_on (pipe_channel (int i) s) ?t"
    show "p_in_use (pipes s ! i) \<and> (pipe_contents (pipes s ! i) = [] \<and> p_writers (pipes s ! i) > 0 \<or>
      length (pipe_contents (pipes s ! i)) = 1024 \<and> p_readers (pipes s ! i) > 0)"
    proof (cases "i = nat idx")
      case True
      then show ?thesis using idx(3) assms(3) by simp
    next
      case False
      then have "pipe_channel (int i) s \<noteq> ?c" using pipe_channel_inj [OF _ i idx(2), of s] idx(1) by auto
      then have "blocked_on (pipe_channel (int i) s) s" using blocked_on_sleep [OF inv b] by simp
      then show ?thesis using assms(1) i by (auto simp: pipe_system_ok_def pipe_sleepers_ok_def)
    qed
  qed
  moreover have "pipes_ok ?t = pipes_ok s" by (rule pipes_ok_cong) simp
  ultimately show ?thesis using assms(1) sched_inv_sleep [OF inv, of ?c] by (simp add: pipe_system_ok_def)
qed

lemma pipe_system_read: "pipe_system_ok s \<Longrightarrow> pipe_system_ok (fst (pipe_read idx len s))"
proof -
  assume ok: "pipe_system_ok s"
  let ?p = "pipes s ! nat idx"
  have wake: "pipe_system_ok (sched_wakeup (pipe_channel idx u) u)"
    if "valid idx s" "pipe_get_bytes (unat len) ?p = (q, bs)" "u = upd_pipe idx (\<lambda>_. q) s" for q bs u
  proof -
    have "pipe_inv ?p" using ok that(1) pipes_ok_nth [of s idx] by (auto simp: pipe_system_ok_def valid_def)
    then have "pipe_inv q" using pipe_get_bytes_correct(1) that(2) by blast
    then show ?thesis using that pipe_system_wakeup [OF ok, of idx "\<lambda>_. q"] by blast
  qed
  have sleep: "pipe_system_ok (fst (sched_sleep (pipe_channel idx s) s))" if "valid idx s" "p_count ?p = 0" "p_writers ?p > 0"
    using that by (intro pipe_system_sleep [OF ok]) (simp_all add: pipe_contents_def)
  have "p_count ?p = 0" if "\<not> p_count ?p > 0" using that by (simp add: word_gt_0)
  then show ?thesis using ok wake sleep
    by (auto simp: pipe_read_def Let_def valid_def split: prod.split)
qed

lemma pipe_system_write: "pipe_system_ok s \<Longrightarrow> pipe_system_ok (fst (pipe_write idx src s))"
proof -
  assume ok: "pipe_system_ok s"
  let ?p = "pipes s ! nat idx" and ?u = "upd_pipe idx (pipe_put_bytes src) s"
  have wake: "pipe_system_ok (sched_wakeup (pipe_channel idx ?u) ?u)" if "valid idx s"
    using pipe_system_wakeup [OF ok that _ refl] pipe_put_bytes_correct(1) by blast
  have sleep: "pipe_system_ok (fst (sched_sleep (pipe_channel idx s) s))"
    if v: "valid idx s" "p_readers ?p > 0" "\<not> PIPE_BUF_SIZE - p_count ?p > 0"
  proof -
    have "pipe_inv ?p" using ok v(1) pipes_ok_nth [of s idx] by (auto simp: pipe_system_ok_def valid_def)
    then have "length (pipe_contents ?p) = 1024" using v(3) pipe_inv_full by (simp add: word_gt_0)
    then show ?thesis using v by (intro pipe_system_sleep [OF ok]) simp_all
  qed
  show ?thesis using ok wake sleep by (auto simp: pipe_write_def Let_def valid_def)
qed

lemma pipe_system_add:
  assumes ok: "pipe_system_ok s" and "valid idx s" and "f = (\<lambda>p. p\<lparr>p_readers := p_readers p + 1\<rparr>) \<or> f = (\<lambda>p. p\<lparr>p_writers := p_writers p + 1\<rparr>)"
  shows "pipe_system_ok (upd_pipe idx f s)"
proof -
  have "pipe_inv p \<Longrightarrow> pipe_inv (f p)" for p using assms(3) by (auto simp: pipe_inv_cong)
  then have "pipes_ok (upd_pipe idx f s)" using ok by (auto simp: pipe_system_ok_def intro: pipes_ok_upd)
  moreover have "pipe_sleepers_ok (upd_pipe idx f s)"
  proof (rule pipe_sleepers_mono [of s])
    fix i
    assume "i < PIPE_MAX" "p_in_use (pipes s ! i)"
    moreover have "nat idx < length (pipes s)" using ok assms(2) by (auto simp: pipe_system_ok_def pipes_ok_def valid_def)
    ultimately show "p_in_use (pipes (upd_pipe idx f s) ! i) \<and>
      pipe_contents (pipes (upd_pipe idx f s) ! i) = pipe_contents (pipes s ! i) \<and>
      p_readers (pipes s ! i) \<le> p_readers (pipes (upd_pipe idx f s) ! i) \<and>
      p_writers (pipes s ! i) \<le> p_writers (pipes (upd_pipe idx f s) ! i)"
      using assms(3) by (cases "i = nat idx") auto
  qed (use ok in \<open>auto simp: pipe_system_ok_def blocked_on_def\<close>)
  ultimately show ?thesis using ok by (simp add: pipe_system_ok_def)
qed


lemma pipe_system_create: "pipe_system_ok s \<Longrightarrow> pipe_system_ok (fst (pipe_create s))"
proof -
  assume ok: "pipe_system_ok s"
  show ?thesis
  proof (cases "first_index (\<lambda>p. \<not> p_in_use p) (pipes s)")
    case None
    then show ?thesis unfolding pipe_create_def None using ok by simp
  next
    case (Some k)
    let ?f = "\<lambda>p. p\<lparr>p_in_use := True, p_read_pos := 0, p_write_pos := 0, p_count := 0, p_readers := 1, p_writers := 1\<rparr>"
    have k: "k < length (pipes s)" "\<not> p_in_use (pipes s ! k)" using first_index_SomeD [OF Some] by simp_all
    have "pipes_ok (upd_pipe (int k) ?f s)"
      using ok by (intro pipes_ok_upd) (auto simp: pipe_system_ok_def pipe_inv_def)
    moreover have "pipe_sleepers_ok (upd_pipe (int k) ?f s)"
    proof (rule pipe_sleepers_mono [of s])
      fix i
      assume "i < PIPE_MAX" "p_in_use (pipes s ! i)"
      then show "p_in_use (pipes (upd_pipe (int k) ?f s) ! i) \<and>
        pipe_contents (pipes (upd_pipe (int k) ?f s) ! i) = pipe_contents (pipes s ! i) \<and>
        p_readers (pipes s ! i) \<le> p_readers (pipes (upd_pipe (int k) ?f s) ! i) \<and>
        p_writers (pipes s ! i) \<le> p_writers (pipes (upd_pipe (int k) ?f s) ! i)"
        using k by (cases "i = k") auto
    qed (use ok in \<open>auto simp: pipe_system_ok_def blocked_on_def\<close>)
    ultimately show ?thesis using ok by (simp add: pipe_create_def Some pipe_system_ok_def)
  qed
qed

lemma pipe_system_close:
  "pipe_system_ok s \<Longrightarrow> pipe_system_ok (pipe_close_reader idx s)"
  "pipe_system_ok s \<Longrightarrow> pipe_system_ok (pipe_close_writer idx s)"
proof -
  assume ok: "pipe_system_ok s"
  have free: "pipe_inv (maybe_free p) = pipe_inv p" for p by (simp add: maybe_free_def pipe_inv_cong)
  have close: "pipe_system_ok (sched_wakeup (pipe_channel idx (upd_pipe idx maybe_free u)) (upd_pipe idx maybe_free u))"
    if v: "valid idx s" and u: "u = upd_pipe idx f s" and f: "\<And>p. pipe_inv p \<Longrightarrow> pipe_inv (f p)" for f u
  proof -
    have "nat idx < length (pipes s)" using ok v by (auto simp: pipe_system_ok_def pipes_ok_def valid_def)
    then have two: "upd_pipe idx maybe_free u = upd_pipe idx (maybe_free \<circ> f) s" unfolding u by (simp add: upd_pipe_def)
    show ?thesis by (rule pipe_system_wakeup [OF ok v _ two]) (simp add: free f)
  qed
  show "pipe_system_ok (pipe_close_reader idx s)" "pipe_system_ok (pipe_close_writer idx s)"
    using ok by (auto simp: pipe_close_reader_def pipe_close_writer_def Let_def pipe_inv_cong intro!: close [OF _ refl])
qed

lemma pipe_step_ok: "pipe_step s t \<Longrightarrow> pipe_system_ok s \<Longrightarrow> pipe_system_ok t"
proof (induction rule: pipe_step.induct)
  case (tick s)
  then have inv: "sched_inv s" by (simp add: pipe_system_ok_def)
  show ?case by (rule pipe_system_sched [OF tick])
    (use blocked_on_tick [OF inv] in \<open>simp_all add: sched_inv_tick inv sched_frame_simps\<close>)
next
  case (yield s)
  then have inv: "sched_inv s" by (simp add: pipe_system_ok_def)
  show ?case by (rule pipe_system_sched [OF yield])
    (use blocked_on_yield [OF inv] in \<open>simp_all add: sched_inv_yield inv sched_frame_simps\<close>)
next
  case (resume s t)
  then have inv: "sched_inv s" by (simp add: pipe_system_ok_def)
  have "sched_frame s t" using resume(1) by (auto simp: sched_sleep_resume_def sched_frame_simps split: if_splits)
  then show ?case
    by (rule pipe_system_sched [OF resume(2) sched_inv_resume [OF inv resume(1)]]) (rule blocked_on_resume [OF resume(1)])
next
  case (wakeup s ch)
  then have inv: "sched_inv s" by (simp add: pipe_system_ok_def)
  show ?case by (rule pipe_system_sched [OF wakeup]) (simp_all add: sched_inv_wakeup inv sched_frame_simps)
next
  case (other_sleep ch s)
  then have inv: "sched_inv s" and sl: "pipe_sleepers_ok s" and po: "pipes_ok s" by (simp_all add: pipe_system_ok_def)
  let ?t = "fst (sched_sleep ch s)"
  have "pipe_channel (int i) ?t = pipe_channel (int i) s" for i by (simp add: pipe_channel_def)
  moreover have "blocked_on (pipe_channel (int i) s) s" if "i < PIPE_MAX" "blocked_on (pipe_channel (int i) s) ?t" for i
    using blocked_on_sleep [OF inv that(2)] other_sleep(1) [OF that(1)] by simp
  ultimately have "pipe_sleepers_ok ?t" using sl by (simp add: pipe_sleepers_ok_def)
  moreover have "pipes_ok ?t = pipes_ok s" by (rule pipes_ok_cong) simp
  ultimately show ?case using sched_inv_sleep [OF inv] po by (simp add: pipe_system_ok_def)
next
  case (spawn s fn p c t slot)
  then have inv: "sched_inv s" by (simp add: pipe_system_ok_def)
  show ?case
    by (rule pipe_system_sched [OF spawn(3) sched_inv_spawn [OF inv spawn(1,2)] sched_spawn_frame [OF spawn(2)]])
      (rule blocked_on_spawn [OF spawn(2)])
qed (auto simp: pipe_system_create pipe_system_close pipe_system_read pipe_system_write pipe_system_add
    pipe_add_reader_def pipe_add_writer_def)


section \<open>Properties\<close>

text \<open>
  C25: A pipe delivers the bytes in order and loses none. In any sequence of transfers into and out of
  a pipe its positions stay inside the buffer, at most 1024 bytes are held, and the bytes held at the
  start followed by those accepted are those delivered followed by those still held.
\<close>

theorem pipe_fifo:
  assumes "pipe_inv p" and "pipe.run_ops ops p = (q, accepted, delivered)"
  shows "pipe_inv q \<and> length (pipe_contents q) \<le> 1024 \<and>
     pipe_contents p @ accepted = delivered @ pipe_contents q"
  using pipe.run_ops_fifo [OF assms] pipe.bounded [of q] by simp

definition fresh_pipe :: pipe where
  "fresh_pipe = \<lparr>p_in_use = True, p_buf = replicate 1024 0, p_read_pos = 0, p_write_pos = 0, p_count = 0,
     p_readers = 1, p_writers = 1\<rparr>"

lemma fresh_pipe_inv: "pipe_inv fresh_pipe" "pipe_contents fresh_pipe = []"
  by (simp_all add: fresh_pipe_def pipe_inv_def pipe_contents_def)

theorem pipe_fifo_witness:
  "\<exists>q. pipe.run_ops [Put [1, 2, 3], Get 2, Put [4], Get 5] fresh_pipe = (q, [1, 2, 3, 4], [1, 2, 3, 4]) \<and>
     pipe_contents q = []"
proof -
  obtain q acc del where r: "pipe.run_ops [Put [1, 2, 3], Get 2, Put [4], Get 5] fresh_pipe = (q, acc, del)"
    by (metis prod_cases3)
  let ?a = "pipe_put_bytes [1, 2, 3] fresh_pipe"
  obtain b xs where b: "pipe_get_bytes 2 ?a = (b, xs)" by fastforce
  let ?c = "pipe_put_bytes [4] b"
  obtain d ys where d: "pipe_get_bytes 5 ?c = (d, ys)" by fastforce
  note a = pipe_put_bytes_correct(1,2) [OF fresh_pipe_inv(1), of "[1, 2, 3]", unfolded fresh_pipe_inv(2)]
  note b' = pipe_get_bytes_correct(1-3) [OF a(1) b]
  note c = pipe_put_bytes_correct(1,2) [OF b'(1), of "[4]"]
  note d' = pipe_get_bytes_correct(1-3) [OF c(1) d]
  have bc: "pipe_contents ?a = [1, 2, 3]" "xs = [1, 2]" "pipe_contents b = [3]" "pipe_contents ?c = [3, 4]"
    "ys = [3, 4]" using a(2) b'(2,3) c(2) d'(2) by simp_all
  have "acc = [1, 2, 3, 4]" "del = [1, 2, 3, 4]" using r b d bc fresh_pipe_inv(2) by auto
  then show ?thesis using pipe_fifo [OF fresh_pipe_inv(1) r] r fresh_pipe_inv(2) by auto
qed

text \<open>
  C5: No wakeup is lost. Whatever sequence of pipe operations and scheduler steps happens, a thread
  that is blocked on a pipe waits for something that has not happened: the pipe is open, and it is
  empty with a writer left, or full with a reader left. A sleeper is never left behind by a transfer,
  by the last close of an end, or by the reuse of a pipe.
\<close>

theorem pipe_no_lost_wakeup:
  assumes "pipe_step\<^sup>*\<^sup>* s t" and "pipe_system_ok s"
    and "i < PIPE_MAX" and "blocked_on (pipe_channel (int i) t) t"
  shows "p_in_use (pipes t ! i) \<and>
     (pipe_contents (pipes t ! i) = [] \<and> p_writers (pipes t ! i) > 0 \<or>
      length (pipe_contents (pipes t ! i)) = 1024 \<and> p_readers (pipes t ! i) > 0)"
proof -
  have "pipe_system_ok t" using assms(1,2) by (induction rule: rtranclp_induct) (auto intro: pipe_step_ok)
  then show ?thesis using assms(3,4) by (simp add: pipe_system_ok_def pipe_sleepers_ok_def)
qed

text \<open>The threads of \<open>sched_example\<close> with eight pipes, the first of them open.\<close>

definition pipe_example :: pipe_state where
  "pipe_example = sched_state.extend sched_example
     \<lparr>pipes = fresh_pipe # replicate 7 (fresh_pipe\<lparr>p_in_use := False\<rparr>), pipes_addr = 0x200000\<rparr>"

lemma pipe_example_fields:
  "threads pipe_example = threads sched_example" "current_thread pipe_example = current_thread sched_example"
  "pipes pipe_example = fresh_pipe # replicate 7 (fresh_pipe\<lparr>p_in_use := False\<rparr>)" "pipes_addr pipe_example = 0x200000"
  by (simp_all add: pipe_example_def sched_state.defs)

lemma pipe_example_ok: "pipe_system_ok pipe_example"
proof -
  have "sched_inv pipe_example"
    using sched_example_inv by (simp add: sched_inv_def tid_ok_iff pipe_example_fields)
  moreover have "pipes_ok pipe_example"
    using fresh_pipe_inv(1) by (simp add: pipes_ok_def pipe_example_fields PIPE_MAX_def pipe_inv_cong)
  moreover have "\<not> blocked_on (pipe_channel (int i) pipe_example) pipe_example" if "i < PIPE_MAX" for i
  proof -
    have "pipe_channel (int i) pipe_example \<noteq> 0x55"
    proof
      have "i * 1048 + 0x200000 < 2 ^ LENGTH(64)" using that by (simp add: PIPE_MAX_def)
      moreover have "pipe_channel (int i) pipe_example = of_nat (i * 1048 + 0x200000)"
        by (simp add: pipe_channel_def pipe_example_fields PIPE_SIZE_def)
      ultimately have "unat (pipe_channel (int i) pipe_example) = i * 1048 + 0x200000"
        by (simp only: unat_of_nat mod_less)
      moreover assume "pipe_channel (int i) pipe_example = 0x55"
      ultimately show False by simp
    qed
    then show ?thesis
      by (auto simp: blocked_on_set pipe_example_fields sched_example_fields example_thread_def)
  qed
  ultimately show ?thesis by (simp add: pipe_system_ok_def pipe_sleepers_ok_def)
qed

theorem pipe_no_lost_wakeup_witness:
  "p_in_use (pipes (fst (pipe_read 0 10 pipe_example)) ! 0)"
proof -
  let ?t = "fst (pipe_read 0 10 pipe_example)"
  have r: "?t = fst (sched_sleep (pipe_channel 0 pipe_example) pipe_example)"
    by (simp add: pipe_read_def PIPE_MAX_def pipe_example_fields fresh_pipe_def)
  have inv: "sched_inv pipe_example" using pipe_example_ok by (simp add: pipe_system_ok_def)
  have n: "nat (current_thread pipe_example) < length (threads ?t)"
    using sched_sleep_length [OF inv] sched_inv_current(3) [OF inv] by (simp add: r)
  have "pipe_channel (int 0) ?t = pipe_channel 0 pipe_example" by (simp add: r pipe_channel_def)
  then have "blocked_on (pipe_channel (int 0) ?t) ?t"
    using sched_sleep_blocks [OF inv, of "pipe_channel 0 pipe_example"] n unfolding blocked_on_def r by auto
  moreover have "pipe_step\<^sup>*\<^sup>* pipe_example ?t" by (rule r_into_rtranclp) (rule pipe_step.read)
  ultimately show ?thesis
    using pipe_no_lost_wakeup [OF _ pipe_example_ok, of ?t 0] by (simp add: PIPE_MAX_def)
qed


text \<open>
  Every outcome of \<open>pipe_read\<close>. A bad index or a closed pipe is an error and changes nothing. A
  pipe with bytes delivers the first \<open>len\<close> of them, removes exactly those, and wakes every thread
  asleep on the pipe. An empty pipe without writers is at its end (result 0). Otherwise the caller
  is blocked on the pipe and no byte moves.
\<close>

theorem pipe_read_correct:
  assumes "pipes_ok s" and "sched_inv s" and "pipe_read idx len s = (t, r)"
  shows "(if \<not> valid idx s then r = Some (-1, []) \<and> t = s
     else let p = pipes s ! nat idx; c = pipe_channel idx s in
       if pipe_contents p \<noteq> [] then
         (\<exists>q. r = Some (int (min (unat len) (length (pipe_contents p))), take (unat len) (pipe_contents p)) \<and>
            pipes t = (pipes s)[nat idx := q] \<and> pipe_contents q = drop (unat len) (pipe_contents p) \<and>
            p_readers q = p_readers p \<and> p_writers q = p_writers p \<and> threads t = map (wake c) (threads s))
       else if p_writers p \<le> 0 then r = Some (0, []) \<and> t = s
       else r = None \<and> pipes t = pipes s \<and>
         t_state (threads t ! nat (current_thread s)) = THREAD_BLOCKED \<and>
         t_wait_channel (threads t ! nat (current_thread s)) = c)"
proof (cases "valid idx s")
  case False
  then show ?thesis using assms(3) by (auto simp: pipe_read_def Let_def valid_def split: if_splits)
next
  case True
  let ?p = "pipes s ! nat idx"
  have idx: "\<not> idx < 0" "\<not> idx \<ge> int PIPE_MAX" "p_in_use ?p" using True by (auto simp: valid_def)
  have inv: "pipe_inv ?p" using pipes_ok_nth [OF assms(1)] idx by auto
  have filled: "p_count ?p > 0 \<longleftrightarrow> pipe_contents ?p \<noteq> []" using pipe_inv_empty [OF inv] by (simp add: word_gt_0)
  obtain q bs where q: "pipe_get_bytes (unat len) ?p = (q, bs)" by fastforce
  note qc = pipe_get_bytes_correct [OF inv q]
  show ?thesis
    using assms(3) True idx qc sched_sleep_blocks [OF assms(2), of "pipe_channel idx s"] unfolding pipe_read_def q Let_def filled
    by (auto simp: pipe_channel_def sched_wakeup_def split: if_splits)
qed

theorem pipe_read_correct_witness:
  "snd (pipe_read 0 4 (pipe_example\<lparr>pipes := replicate 8 (pipe_put_bytes [7, 8] fresh_pipe)\<rparr>)) = Some (2, [7, 8])"
proof -
  let ?p = "pipe_put_bytes [7, 8] fresh_pipe" and ?s = "pipe_example\<lparr>pipes := replicate 8 (pipe_put_bytes [7, 8] fresh_pipe)\<rparr>"
  note p = pipe_put_bytes_correct [OF fresh_pipe_inv(1), of "[7, 8]", unfolded fresh_pipe_inv(2)]
  have ok: "pipes_ok ?s" using p(1) by (simp add: pipes_ok_def PIPE_MAX_def)
  have "sched_inv ?s = sched_inv pipe_example" by (rule sched_inv_cong) simp_all
  then have inv: "sched_inv ?s" using pipe_example_ok by (simp add: pipe_system_ok_def)
  have v: "valid 0 ?s" using p(3) by (simp add: valid_def PIPE_MAX_def fresh_pipe_def)
  obtain t r where r: "pipe_read 0 4 ?s = (t, r)" by fastforce
  then show ?thesis using pipe_read_correct [OF ok inv r] v p(2) by (simp add: Let_def)
qed

text \<open>
  Every outcome of \<open>pipe_write\<close>. A bad index, a closed pipe and a pipe that nobody can read are
  errors and change nothing. Otherwise, when there is room, the longest prefix that fits is appended,
  its length is returned and every thread asleep on the pipe is woken; when the pipe is full the caller
  is blocked on it and no byte moves.
\<close>

theorem pipe_write_correct:
  assumes "pipes_ok s" and "sched_inv s" and "pipe_write idx src s = (t, r)"
  shows "(if \<not> valid idx s \<or> p_readers (pipes s ! nat idx) \<le> 0 then r = Some (-1) \<and> t = s
     else let p = pipes s ! nat idx; c = pipe_channel idx s; room = 1024 - length (pipe_contents p) in
       if room > 0 then
         (\<exists>q. r = Some (int (min room (length src))) \<and> pipes t = (pipes s)[nat idx := q] \<and>
            pipe_contents q = pipe_contents p @ take room src \<and>
            p_readers q = p_readers p \<and> p_writers q = p_writers p \<and> threads t = map (wake c) (threads s))
       else r = None \<and> pipes t = pipes s \<and>
         t_state (threads t ! nat (current_thread s)) = THREAD_BLOCKED \<and>
         t_wait_channel (threads t ! nat (current_thread s)) = c)"
proof (cases "valid idx s \<and> p_readers (pipes s ! nat idx) > 0")
  case False
  then show ?thesis using assms(3) by (auto simp: pipe_write_def Let_def valid_def split: if_splits)
next
  case True
  let ?p = "pipes s ! nat idx"
  have idx: "\<not> idx < 0" "\<not> idx \<ge> int PIPE_MAX" "p_in_use ?p" "\<not> p_readers ?p \<le> 0" using True by (auto simp: valid_def)
  have inv: "pipe_inv ?p" using pipes_ok_nth [OF assms(1)] idx by auto
  have room: "unat (PIPE_BUF_SIZE - p_count ?p) = 1024 - length (pipe_contents ?p)"
    using inv by (simp add: pipe_inv_def pipe_contents_def PIPE_BUF_SIZE_def unat_sub_if')
  have full: "PIPE_BUF_SIZE - p_count ?p > 0 \<longleftrightarrow> 1024 - length (pipe_contents ?p) > 0"
    using room by (metis unat_gt_0 word_gt_0)
  note qc = pipe_put_bytes_correct [OF inv, of src]
  show ?thesis
    using assms(3) True idx qc sched_sleep_blocks [OF assms(2), of "pipe_channel idx s"]
    unfolding pipe_write_def Let_def full room
    by (auto simp: pipe_channel_def sched_wakeup_def split: if_splits)
qed

theorem pipe_write_correct_witness:
  "snd (pipe_write 0 [7, 8, 9] pipe_example) = Some 3 \<and> snd (pipe_write 1 [7] pipe_example) = Some (-1)"
proof -
  have ok: "pipes_ok pipe_example" "sched_inv pipe_example" using pipe_example_ok by (simp_all add: pipe_system_ok_def)
  have v: "valid 0 pipe_example" "p_readers (pipes pipe_example ! 0) = 1" "pipe_contents (pipes pipe_example ! 0) = []"
    using fresh_pipe_inv(2) by (simp_all add: valid_def PIPE_MAX_def pipe_example_fields fresh_pipe_def)
  have w: "\<not> valid 1 pipe_example" by (simp add: valid_def pipe_example_fields)
  obtain t r where r: "pipe_write 0 [7, 8, 9] pipe_example = (t, r)" by fastforce
  obtain t' r' where r': "pipe_write 1 [7] pipe_example = (t', r')" by fastforce
  show ?thesis using pipe_write_correct [OF ok r] pipe_write_correct [OF ok r'] v w r r' by (auto simp: Let_def)
qed

end
