(* ===== verification/Heap_Client.thy ===== *)
theory Heap_Client
  imports Mm_Frame
begin

text \<open>
  What the users of the kernel heap rely on beyond \<open>kmalloc\<close> and \<open>kfree\<close>: bytes may be written
  inside a live payload without disturbing the heap or any other payload. The interface extends
  \<open>kernel_allocator\<close>; its buffers are read with \<open>bytes_at\<close> and filled by byte loops.
\<close>

section \<open>Buffers in memory\<close>

definition bytes_at :: "memory \<Rightarrow> u64 \<Rightarrow> nat \<Rightarrow> u8 list" where
  "bytes_at m p n = map (\<lambda>i. m (p + of_nat i)) [0..<n]"

lemma length_bytes_at [simp]: "length (bytes_at m p n) = n"
  by (simp add: bytes_at_def)

lemma nth_bytes_at [simp]: "i < n \<Longrightarrow> bytes_at m p n ! i = m (p + of_nat i)"
  by (simp add: bytes_at_def)

definition in_payload :: "u64 \<Rightarrow> nat \<Rightarrow> u64 \<Rightarrow> bool" where
  "in_payload p n x \<longleftrightarrow> unat p \<le> unat x \<and> unat x < unat p + n"

lemma unat_offset: "unat p + n \<le> 2 ^ 32 \<Longrightarrow> i \<le> n \<Longrightarrow> unat (p + of_nat i) = unat p + i" for p :: u64
proof -
  assume a: "unat p + n \<le> 2 ^ 32" "i \<le> n"
  then have i: "i < 2 ^ LENGTH(64)" by simp
  then have "unat (of_nat i :: u64) = i" by (simp only: unat_of_nat mod_less)
  then show ?thesis using a by (simp add: unat_word_ariths)
qed

lemma in_payload_offset: "unat p + n \<le> 2 ^ 32 \<Longrightarrow> i < n \<Longrightarrow> in_payload p n (p + of_nat i)"
  by (simp add: in_payload_def unat_offset)

lemma in_payload_index:
  assumes "unat p + n \<le> 2 ^ 32" and "in_payload p n x"
  shows "x = p + of_nat (unat x - unat p)" and "unat x - unat p < n"
proof -
  show "unat x - unat p < n" using assms(2) by (auto simp: in_payload_def)
  have "unat (p + of_nat (unat x - unat p)) = unat x"
    using assms by (subst unat_offset [of p n]) (auto simp: in_payload_def)
  then show "x = p + of_nat (unat x - unat p)" by (simp add: word_unat_eq_iff)
qed

lemma bytes_at_cong: "(\<And>i. i < n \<Longrightarrow> m' (p + of_nat i) = m (p + of_nat i)) \<Longrightarrow> bytes_at m' p n = bytes_at m p n"
  by (simp add: bytes_at_def)

lemma bytes_at_same_payloads:
  "same_payloads L m m' \<Longrightarrow> (p, k) \<in> L \<Longrightarrow> n \<le> k \<Longrightarrow> unat p + k \<le> 2 ^ 32 \<Longrightarrow> bytes_at m' p n = bytes_at m p n"
  by (rule bytes_at_cong) (fastforce simp: same_payloads_def unat_offset [of p k])

text \<open>A counted loop as a fold over the naturals.\<close>

lemma for_w_fold: "for_w i n body s = fold (\<lambda>k. body (of_nat k)) [unat i..<unat n] s"
proof (induction i n body s rule: for_w.induct)
  case (1 i n body s)
  show ?case
  proof (cases "i < n")
    case True
    then have "[unat i..<unat n] = unat i # [unat (i + 1)..<unat n]"
      by (simp add: unat_plus_one_less upt_conv_Cons word_less_nat_alt)
    then show ?thesis using 1 True by (simp add: for_w_step)
  next
    case False
    then show ?thesis by (simp add: for_w_done word_less_nat_alt)
  qed
qed

text \<open>\<open>n\<close> bytes from \<open>q\<close> set to \<open>h 0, h 1, ...\<close>; a loop that fills a buffer computes this.\<close>

definition fill :: "u64 \<Rightarrow> nat \<Rightarrow> (nat \<Rightarrow> u8) \<Rightarrow> memory \<Rightarrow> memory" where
  "fill q n h m = (\<lambda>x. if in_payload q n x then h (unat x - unat q) else m x)"

lemma fold_fill:
  assumes q: "unat q + n \<le> 2 ^ 32"
    and g: "\<And>i m'. i < n \<Longrightarrow> (\<And>x. \<not> in_payload q n x \<Longrightarrow> m' x = m x) \<Longrightarrow> g i m' = h i"
  shows "fold (\<lambda>i m. m(q + of_nat i := g i m)) [0..<n] m = fill q n h m"
proof -
  define f where "f = (\<lambda>i m. m(q + of_nat i := g i m))"
  have "k \<le> n \<Longrightarrow> fold f [0..<k] m = fill q k h m" for k
  proof (induction k)
    case 0
    then show ?case by (auto simp: fill_def in_payload_def fun_eq_iff)
  next
    case (Suc k)
    let ?m = "fill q k h m"
    have u: "unat (q + of_nat k) = unat q + k" using q Suc.prems by (intro unat_offset [of q n]) auto
    have "g k ?m = h k" using Suc.prems by (intro g) (auto simp: fill_def in_payload_def)
    moreover have "in_payload q (Suc k) x \<longleftrightarrow> in_payload q k x \<or> x = q + of_nat k" for x
      using u by (auto simp: in_payload_def word_unat_eq_iff)
    ultimately have "f k ?m = fill q (Suc k) h m"
      using u by (auto simp: f_def fill_def fun_eq_iff)
    then show ?case using Suc by simp
  qed
  then show ?thesis unfolding f_def by simp
qed

lemma ucast_of_nat32: "k < 2 ^ 32 \<Longrightarrow> (ucast (of_nat k :: u32) :: u64) = of_nat k"
  by (simp add: word_unat_eq_iff unsigned_ucast_eq unat_of_nat)

lemma ucast_add32: "unat off + k < 2 ^ 32 \<Longrightarrow> (ucast (off + of_nat k) :: u64) = ucast off + of_nat k" for off :: u32
proof -
  assume a: "unat off + k < 2 ^ 32"
  have "off + of_nat k = of_nat (unat off + k)" by simp
  then have "(ucast (off + of_nat k) :: u64) = of_nat (unat off + k)" using ucast_of_nat32 [OF a] by simp
  also have "\<dots> = ucast off + of_nat k" by simp
  finally show ?thesis .
qed

text \<open>The loops \<open>for (unsigned int i = 0; i < n; i++) p[off + i] = g(i)\<close>.\<close>

lemma for_w_fill32:
  fixes n off :: u32
  assumes "unat p + (unat off + unat n) \<le> 2 ^ 32" and "unat off + unat n < 2 ^ 32"
    and g: "\<And>i m'. i < unat n \<Longrightarrow> (\<And>x. \<not> in_payload (p + ucast off) (unat n) x \<Longrightarrow> m' x = m x) \<Longrightarrow> g (of_nat i) m' = h i"
  shows "for_w 0 n (\<lambda>i m. m(p + ucast (off + i) := g i m)) m = fill (p + ucast off) (unat n) h m"
proof -
  have "p + ucast off = p + of_nat (unat off)" by simp
  then have "unat (p + ucast off) = unat p + unat off" using unat_offset [of p "unat off" "unat off"] assms(1) by simp
  then have q: "unat (p + ucast off) + unat n \<le> 2 ^ 32" using assms(1) by simp
  have "for_w 0 n (\<lambda>i m. m(p + ucast (off + i) := g i m)) m =
      fold (\<lambda>k m. m(p + ucast (off + of_nat k) := g (of_nat k) m)) [0..<unat n] m"
    unfolding for_w_fold by simp
  also have "\<dots> = fold (\<lambda>k m. m(p + ucast off + of_nat k := g (of_nat k) m)) [0..<unat n] m"
    using assms(2) by (intro fold_cong refl) (auto simp: ucast_add32 add.assoc)
  also have "\<dots> = fill (p + ucast off) (unat n) h m" by (rule fold_fill [OF q g])
  finally show ?thesis .
qed

lemma bytes_at_fill: "unat q + n \<le> 2 ^ 32 \<Longrightarrow> bytes_at (fill q n h m) q n = map h [0..<n]"
  by (simp add: bytes_at_def fill_def in_payload_def unat_offset [of q n])

lemma fill_other: "\<not> in_payload q n x \<Longrightarrow> fill q n h m x = m x"
  by (simp add: fill_def)

section \<open>States with the same heap\<close>

lemma heap_rep_cong:
  fixes s :: "'a heap_state_scheme" and t :: "'b heap_state_scheme"
  assumes "phys_mem t = phys_mem s" "heap_head t = heap_head s" "bitmap t = bitmap s" "free_frames t = free_frames s"
  shows "heap_rep t bs = heap_rep s bs"
proof -
  have "free_set t = free_set s" using assms(3) by (rule free_set_cong)
  moreover have "pmm_ok t = pmm_ok s" using assms(3,4) by (rule pmm_ok_cong)
  ultimately show ?thesis using assms by (simp add: heap_rep_def)
qed

lemma heap_ok_cong:
  fixes s :: "'a heap_state_scheme" and t :: "'b heap_state_scheme"
  assumes "phys_mem t = phys_mem s" "heap_head t = heap_head s" "bitmap t = bitmap s" "free_frames t = free_frames s"
  shows "heap_ok t = heap_ok s" and "live t = live s"
  using heap_rep_cong [OF assms] assms by (simp_all add: heap_ok_def live_def)

lemma live_bounds:
  assumes "heap_ok s" and "(p, n) \<in> live s"
  shows "unat p + n \<le> 2 ^ 32" and "p \<noteq> 0"
proof -
  obtain bs where rep: "heap_rep s bs" using assms(1) by (auto simp: heap_ok_def)
  obtain b where b: "b \<in> set bs" "p = b_addr b + 24" "n = unat (b_size b)"
    using assms(2) live_rep [OF rep] by (auto simp: allocs_def)
  have ok: "block_ok b" using rep b(1) by (auto simp: heap_rep_def blocks_ok_def)
  then have u: "unat p = unat (b_addr b) + 24" using b(2) payload_addr by simp
  then show "unat p + n \<le> 2 ^ 32" using ok b(3) by (simp add: block_ok_def)
  show "p \<noteq> 0" using u by auto
qed

section \<open>Writing into a payload\<close>

lemma heap_seg_headers:
  assumes "\<And>b x. b \<in> set bs \<Longrightarrow> x - b_addr b < 24 \<Longrightarrow> m' x = m x" and "heap_seg m p bs q"
  shows "heap_seg m' p bs q"
  using assms
proof (induction bs arbitrary: p)
  case (Cons b bs)
  have "heap_seg m' (blk_next m (b_addr b)) bs q"
    using Cons.IH [of "blk_next m (b_addr b)"] Cons.prems by auto
  moreover have "m' x = m x" if "x - b_addr b < 24" for x using Cons.prems(1) [of b x] that by simp
  ultimately show ?case
    using Cons.prems(2) header_cong [of "b_addr b" m' m] by auto
qed simp

lemma heap_rep_payload_write:
  assumes rep: "heap_rep s bs" and pn: "(p, n) \<in> allocs bs"
    and out: "\<And>x. \<not> in_payload p n x \<Longrightarrow> m x = phys_mem s x"
  shows "heap_rep (s\<lparr>phys_mem := m\<rparr>) bs"
proof -
  obtain b where b: "b \<in> set bs" "p = b_addr b + 24" "n = unat (b_size b)" using pn by (auto simp: allocs_def)
  have ok: "blocks_ok bs" "block_ok b" using rep b(1) by (auto simp: heap_rep_def blocks_ok_def)
  have "m x = phys_mem s x" if c: "c \<in> set bs" and x: "x - b_addr c < 24" for c x
  proof (rule out)
    have cok: "block_ok c" using ok(1) c by (auto simp: blocks_ok_def)
    have xc: "unat x \<in> ext c" using header_in_ext [OF cok x] .
    have rx: "unat (b_addr c) \<le> unat x" "unat x < unat (b_addr c) + 24"
      using range_iff [of "b_addr c" 24 x] x cok by (auto simp: block_ok_def)
    show "\<not> in_payload p n x"
    proof
      assume "in_payload p n x"
      then have xb: "unat x \<in> ext b" "unat (b_addr b) + 24 \<le> unat x"
        using payload_in_ext [OF ok(2)] payload_addr ok(2) by (auto simp: in_payload_def b(2,3))
      then have "b = c" using sorted_wrt_apart_pair [of bs b c] ok(1) b(1) c xc by (auto simp: blocks_ok_def apart_def)
      then show False using rx xb(2) by simp
    qed
  qed
  then have "heap_seg m (heap_head s) bs 0"
    using rep by (intro heap_seg_headers [of bs m "phys_mem s"]) (auto simp: heap_rep_def)
  moreover have "free_set (s\<lparr>phys_mem := m\<rparr>) = free_set s" by simp
  moreover have "pmm_ok (s\<lparr>phys_mem := m\<rparr>) = pmm_ok s" by (rule pmm_ok_cong) simp_all
  ultimately show ?thesis using rep by (simp add: heap_rep_def)
qed

locale payload_allocator = kernel_allocator +
  fixes set_mem :: "memory \<Rightarrow> 'a \<Rightarrow> 'a"
  assumes write_law: "ok s \<Longrightarrow> (p, n) \<in> live s \<Longrightarrow> (\<And>x. \<not> in_payload p n x \<Longrightarrow> m x = mem s x) \<Longrightarrow>
      ok (set_mem m s) \<and> live (set_mem m s) = live s \<and> mem (set_mem m s) = m"
begin

text \<open>A write into one payload leaves the bytes of the others alone.\<close>

lemma write_others:
  assumes "ok s" and "(p, n) \<in> live s" and "\<And>x. \<not> in_payload p n x \<Longrightarrow> m x = mem s x"
  shows "same_payloads {(q, k) \<in> live s. q \<noteq> p} (mem s) (mem (set_mem m s))"
proof -
  have "m x = mem s x" if "(q, k) \<in> live s" "q \<noteq> p" "in_payload q k x" for q k x
    using live_apart [OF assms(1,2) that(1)] that(2,3) by (intro assms(3)) (auto simp: in_payload_def)
  then show ?thesis using write_law [OF assms] by (auto simp: same_payloads_def in_payload_def)
qed

end

interpretation kheap: payload_allocator heap_ok live phys_mem kmalloc kfree "\<lambda>m s. s\<lparr>phys_mem := m\<rparr>"
proof
  fix s :: "'a heap_state_scheme" and p n m
  assume "heap_ok s" "(p, n) \<in> live s" and out: "\<And>x. \<not> in_payload p n x \<Longrightarrow> m x = phys_mem s x"
  then obtain bs where rep: "heap_rep s bs" by (auto simp: heap_ok_def)
  then have "heap_rep (s\<lparr>phys_mem := m\<rparr>) bs"
    using heap_rep_payload_write [OF rep _ out] live_rep [OF rep] \<open>(p, n) \<in> live s\<close> by simp
  then show "heap_ok (s\<lparr>phys_mem := m\<rparr>) \<and> live (s\<lparr>phys_mem := m\<rparr>) = live s \<and> phys_mem (s\<lparr>phys_mem := m\<rparr>) = m"
    using live_rep [OF rep] live_rep by (auto simp: heap_ok_def)
qed

end
