(* ===== verification/Cstring.thy ===== *)
theory Cstring
  imports Memory
begin

text \<open>
  Byte buffers as the file systems use them: C strings inside buffers, the string comparisons of
  \<open>memfs.c\<close>, \<open>ufs.c\<close>, \<open>fs.c\<close> and \<open>users.c\<close>, little-endian 32-bit fields, and writes of a block of
  bytes into a buffer. A C string argument is the list of bytes it points to; \<open>chr\<close> reads a byte,
  and the end of the list reads as the terminator, so a list without a zero byte stands for the
  string it spells.
\<close>

definition chr :: "u8 list \<Rightarrow> nat \<Rightarrow> u8" where
  "chr a i = (if i < length a then a ! i else 0)"

text \<open>The string that a buffer holds: the bytes before the first terminator.\<close>

definition cstr :: "u8 list \<Rightarrow> u8 list" where
  "cstr a = takeWhile (\<lambda>b. b \<noteq> 0) a"

lemma cstr_no_nul [simp]: "0 \<notin> set (cstr a)"
  using set_takeWhileD by (fastforce simp: cstr_def)

lemma cstr_id: "0 \<notin> set a \<Longrightarrow> cstr a = a"
  unfolding cstr_def by (rule takeWhile_eq_all_conv [THEN iffD2]) auto

lemma cstr_cstr [simp]: "cstr (cstr a) = cstr a"
  by (rule cstr_id) simp

lemma cstr_Nil [simp]: "cstr [] = []" and cstr_Cons: "cstr (b # a) = (if b = 0 then [] else b # cstr a)"
  by (simp_all add: cstr_def)

lemma cstr_append_nul: "0 \<notin> set a \<Longrightarrow> cstr (a @ 0 # b) = a"
  by (induction a) (auto simp: cstr_Cons)

text \<open>The bytes of a string literal of the source.\<close>

definition literal :: "string \<Rightarrow> u8 list" where
  "literal s = map of_char s"

lemma length_literal [simp]: "length (literal s) = length s"
  by (simp add: literal_def)

section \<open>Comparison and length\<close>

text \<open>\<open>for (; a[i] != 0 || b[i] != 0; i++) if (a[i] != b[i]) return 0; return 1;\<close>\<close>

fun str_eq :: "u8 list \<Rightarrow> u8 list \<Rightarrow> bool" where
  "str_eq [] [] = True"
| "str_eq (x # a) [] = (if x \<noteq> 0 then False else True)"
| "str_eq [] (y # b) = (if y \<noteq> 0 then False else True)"
| "str_eq (x # a) (y # b) =
     (if x \<noteq> 0 \<or> y \<noteq> 0 then if x \<noteq> y then False else str_eq a b else True)"

text \<open>\<open>while (a[i] != 0 && b[i] != 0) { if (a[i] != b[i]) return 0; i++; } return a[i] == 0 && b[i] == 0;\<close>\<close>

fun str_eq_and :: "u8 list \<Rightarrow> u8 list \<Rightarrow> bool" where
  "str_eq_and [] [] = True"
| "str_eq_and [] (y # b) = (y = 0)"
| "str_eq_and (x # a) [] = (x = 0)"
| "str_eq_and (x # a) (y # b) =
     (if x \<noteq> 0 \<and> y \<noteq> 0 then if x \<noteq> y then False else str_eq_and a b else x = 0 \<and> y = 0)"

lemma str_eq_cstr: "str_eq a b \<longleftrightarrow> cstr a = cstr b"
  by (induction a b rule: str_eq.induct) (auto simp: cstr_Cons)

lemma str_eq_and_cstr: "str_eq_and a b \<longleftrightarrow> cstr a = cstr b"
  by (induction a b rule: str_eq_and.induct) (auto simp: cstr_Cons)

fun str_len :: "u8 list \<Rightarrow> nat" where
  "str_len [] = 0"
| "str_len (x # a) = (if x \<noteq> 0 then Suc (str_len a) else 0)"

lemma str_len_cstr: "str_len a = length (cstr a)"
  by (induction a) (auto simp: cstr_Cons)

section \<open>Blocks of bytes in a buffer\<close>

definition slice :: "nat \<Rightarrow> nat \<Rightarrow> 'a list \<Rightarrow> 'a list" where
  "slice i n xs = take n (drop i xs)"

text \<open>\<open>for (i = 0; i < n; i++) buf[off + i] = src[i];\<close>\<close>

definition overwrite :: "nat \<Rightarrow> 'a list \<Rightarrow> 'a list \<Rightarrow> 'a list" where
  "overwrite off src buf = take off buf @ src @ drop (off + length src) buf"

lemma length_overwrite [simp]:
  "off + length src \<le> length buf \<Longrightarrow> length (overwrite off src buf) = length buf"
  by (simp add: overwrite_def)

lemma nth_overwrite:
  assumes "off + length src \<le> length buf" and "i < length buf"
  shows "overwrite off src buf ! i = (if off \<le> i \<and> i < off + length src then src ! (i - off) else buf ! i)"
  using assms by (auto simp: overwrite_def nth_append min_def)

lemma length_slice: "length (slice i n xs) = min n (length xs - i)"
  by (simp add: slice_def)

lemma nth_slice: "k < n \<Longrightarrow> i + n \<le> length xs \<Longrightarrow> slice i n xs ! k = xs ! (i + k)"
  by (simp add: slice_def)

lemma slice_overwrite_same:
  "off + length src \<le> length buf \<Longrightarrow> slice off (length src) (overwrite off src buf) = src"
  by (simp add: slice_def overwrite_def)

lemma slice_overwrite_other:
  assumes "off + length src \<le> length buf" and "i + n \<le> off \<or> off + length src \<le> i"
  shows "slice i n (overwrite off src buf) = slice i n buf"
proof (rule nth_equalityI)
  show "length (slice i n (overwrite off src buf)) = length (slice i n buf)"
    using assms(1) by (simp add: length_slice)
next
  fix k
  assume "k < length (slice i n (overwrite off src buf))"
  then have "k < n" "i + k < length buf" using assms(1) by (auto simp: length_slice)
  then show "slice i n (overwrite off src buf) ! k = slice i n buf ! k"
    using assms nth_overwrite [OF assms(1), of "i + k"] by (auto simp: slice_def)
qed

lemma overwrite_all: "length src = length buf \<Longrightarrow> overwrite 0 src buf = src"
  by (simp add: overwrite_def)

section \<open>Little-endian 32-bit fields\<close>

definition u32_bytes :: "u32 \<Rightarrow> u8 list" where
  "u32_bytes v = [ucast (v AND 0xFF), ucast (drop_bit 8 v AND 0xFF), ucast (drop_bit 16 v AND 0xFF),
                  ucast (drop_bit 24 v AND 0xFF)]"

text \<open>\<open>write_u32(buf + off, v)\<close> and \<open>read_u32(buf + off)\<close>.\<close>

definition write_u32 :: "nat \<Rightarrow> u32 \<Rightarrow> u8 list \<Rightarrow> u8 list" where
  "write_u32 off v buf = buf[off := ucast (v AND 0xFF), off + 1 := ucast (drop_bit 8 v AND 0xFF),
     off + 2 := ucast (drop_bit 16 v AND 0xFF), off + 3 := ucast (drop_bit 24 v AND 0xFF)]"

definition read_u32 :: "nat \<Rightarrow> u8 list \<Rightarrow> u32" where
  "read_u32 off buf = ucast (buf ! off) OR push_bit 8 (ucast (buf ! (off + 1))) OR
     push_bit 16 (ucast (buf ! (off + 2))) OR push_bit 24 (ucast (buf ! (off + 3)))"

lemma length_u32_bytes [simp]: "length (u32_bytes v) = 4"
  by (simp add: u32_bytes_def)

lemma length_write_u32 [simp]: "length (write_u32 off v buf) = length buf"
  by (simp add: write_u32_def)

lemma write_u32_overwrite: "off + 4 \<le> length buf \<Longrightarrow> write_u32 off v buf = overwrite off (u32_bytes v) buf"
proof (rule nth_equalityI)
  assume "off + 4 \<le> length buf"
  then show "length (write_u32 off v buf) = length (overwrite off (u32_bytes v) buf)"
    by (simp add: length_overwrite)
  fix i
  assume i: "i < length (write_u32 off v buf)" and le: "off + 4 \<le> length buf"
  have "i < off \<or> off + 4 \<le> i \<or> i = off \<or> i = off + 1 \<or> i = off + 2 \<or> i = off + 3" by linarith
  then show "write_u32 off v buf ! i = overwrite off (u32_bytes v) buf ! i"
    using i le nth_overwrite [of off "u32_bytes v" buf i]
    by (auto simp: write_u32_def nth_list_update u32_bytes_def)
qed

lemma ucast_byte: "(ucast (v AND 0xFF) :: u8) = ucast v" for v :: u32
proof -
  have m: "(0xFF :: u32) = mask 8" by (simp add: mask_eq_exp_minus_1)
  show ?thesis unfolding m by (rule bit_word_eqI) (auto simp: bit_simps)
qed

lemma join_bytes32:
  "ucast (ucast v :: u8) OR push_bit 8 (ucast (ucast (drop_bit 8 v) :: u8)) OR
     push_bit 16 (ucast (ucast (drop_bit 16 v) :: u8)) OR push_bit 24 (ucast (ucast (drop_bit 24 v) :: u8)) = v"
  for v :: u32
proof -
  have last: "ucast (ucast (drop_bit 24 v) :: u8) = drop_bit 24 v"
    by (rule bit_word_eqI) (auto simp: bit_ucast_iff bit_drop_bit_eq dest: bit_imp_le_length)
  show ?thesis
    using split_byte [of 0 v] split_byte [of 8 v] split_byte [of 16 v] last by simp
qed

lemma read_write_u32 [simp]: "off + 4 \<le> length buf \<Longrightarrow> read_u32 off (write_u32 off v buf) = v"
  by (simp add: read_u32_def write_u32_def nth_list_update ucast_byte join_bytes32)

lemma read_u32_slice: "off + 4 \<le> length buf \<Longrightarrow> read_u32 off buf = read_u32 0 (slice off 4 buf)"
  by (simp add: read_u32_def nth_slice)

lemma read_write_u32_other:
  assumes "off + 4 \<le> length buf" and "off' + 4 \<le> length buf" and "off' + 4 \<le> off \<or> off + 4 \<le> off'"
  shows "read_u32 off' (write_u32 off v buf) = read_u32 off' buf"
  using assms slice_overwrite_other [of off "u32_bytes v" buf off' 4]
  by (simp add: read_u32_slice write_u32_overwrite)

lemma nth_write_u32_other:
  "off + 4 \<le> length buf \<Longrightarrow> i < off \<or> off + 4 \<le> i \<Longrightarrow> write_u32 off v buf ! i = buf ! i"
  by (auto simp: write_u32_def)

end
