(* ===== verification/File_Store.thy ===== *)
theory File_Store
  imports Cstring
begin

text \<open>
  The contract that the two writable file systems share and that the descriptor layer uses: files are
  named by handles, a write changes the bytes of one file only and a read returns them. \<open>ok\<close> is the
  file system's invariant, \<open>content\<close> the bytes of the file behind a handle, \<open>limit\<close> the largest end of a
  write for which the contract is kept. A write or a read
  may fail; what the result means is the same for both systems.
\<close>

text \<open>
  \<open>written off src c c'\<close>: \<open>c'\<close> is \<open>c\<close> after a write of \<open>src\<close> at \<open>off\<close>. When the write starts behind the
  end of \<open>c\<close> the bytes of the gap are not determined: neither file system clears them.
\<close>

definition written :: "nat \<Rightarrow> u8 list \<Rightarrow> u8 list \<Rightarrow> u8 list \<Rightarrow> bool" where
  "written off src c c' \<longleftrightarrow> length c' = max (length c) (off + length src) \<and>
     slice off (length src) c' = src \<and>
     (\<forall>i<length c. i < off \<or> off + length src \<le> i \<longrightarrow> c' ! i = c ! i)"

lemma written_inside:
  assumes "written off src c c'" and "off + length src \<le> length c"
  shows "c' = overwrite off src c"
proof (rule nth_equalityI)
  show len: "length c' = length (overwrite off src c)" using assms by (simp add: written_def)
  fix i
  assume i: "i < length c'"
  then have ic: "i < length c" using assms by (simp add: written_def)
  show "c' ! i = overwrite off src c ! i"
  proof (cases "off \<le> i \<and> i < off + length src")
    case True
    then have "slice off (length src) c' ! (i - off) = c' ! i"
      using assms by (subst nth_slice) (auto simp: written_def)
    then show ?thesis using True assms nth_overwrite [OF assms(2) ic] by (simp add: written_def)
  next
    case False
    then show ?thesis using ic assms nth_overwrite [OF assms(2) ic] by (auto simp: written_def)
  qed
qed

lemma written_append:
  assumes "written (length c) src c c'"
  shows "c' = c @ src"
proof (rule nth_equalityI)
  show "length c' = length (c @ src)" using assms by (simp add: written_def)
  fix i
  assume i: "i < length c'"
  show "c' ! i = (c @ src) ! i"
  proof (cases "i < length c")
    case True
    then show ?thesis using assms by (simp add: written_def nth_append)
  next
    case False
    then have "slice (length c) (length src) c' ! (i - length c) = c' ! i"
      using assms i by (subst nth_slice) (auto simp: written_def)
    then show ?thesis using False assms by (simp add: written_def nth_append)
  qed
qed

locale file_store =
  fixes limit :: nat and ok :: "'s \<Rightarrow> bool" and content :: "'s \<Rightarrow> int \<Rightarrow> u8 list option"
    and wr :: "int \<Rightarrow> u32 \<Rightarrow> u8 list \<Rightarrow> 's \<Rightarrow> ('s \<times> int) option"
    and rd :: "int \<Rightarrow> u32 \<Rightarrow> u32 \<Rightarrow> 's \<Rightarrow> 's \<times> int \<times> u8 list"
  assumes wr_done: "ok s \<Longrightarrow> content s h = Some c \<Longrightarrow> length src < 2 ^ 31 \<Longrightarrow> unat off + length src \<le> limit \<Longrightarrow>
      src \<noteq> [] \<or> unat off \<le> length c \<Longrightarrow> wr h off src s = Some (t, r) \<Longrightarrow> 0 \<le> r \<Longrightarrow>
      r = int (length src) \<and> (\<exists>c'. content t h = Some c' \<and> written (unat off) src c c')"
    and wr_others: "ok s \<Longrightarrow> content s h = Some c \<Longrightarrow> length src < 2 ^ 31 \<Longrightarrow> unat off + length src \<le> limit \<Longrightarrow>
      src \<noteq> [] \<or> unat off \<le> length c \<Longrightarrow> wr h off src s = Some (t, r) \<Longrightarrow>
      ok t \<and> content t h \<noteq> None \<and> (\<forall>h'. h' \<noteq> h \<longrightarrow> content t h' = content s h')"
    and rd_done: "ok s \<Longrightarrow> content s h = Some c \<Longrightarrow> unat len < 2 ^ 31 \<Longrightarrow> rd h off len s = (t, r, bs) \<Longrightarrow> 0 \<le> r \<Longrightarrow>
      bs = take (unat len) (drop (unat off) c) \<and> r = int (length bs)"
    and rd_keeps: "ok s \<Longrightarrow> rd h off len s = (t, r, bs) \<Longrightarrow> ok t \<and> content t = content s"
begin

text \<open>What was written is read back, from any state in which the write and the read succeed.\<close>

lemma write_read:
  assumes "ok s" "content s h = Some c" "length src < 2 ^ 31" "unat off + length src \<le> limit"
    and "src \<noteq> [] \<or> unat off \<le> length c"
    and "wr h off src s = Some (t, r)" "0 \<le> r" and "rd h off (of_nat (length src)) t = (u, n, bs)" "0 \<le> n"
  shows "bs = src \<and> n = int (length src)"
proof -
  have t: "ok t" using wr_others [OF assms(1-6)] by simp
  obtain c' where c: "content t h = Some c'" "written (unat off) src c c'" using wr_done [OF assms(1-7)] by blast
  have "unat (of_nat (length src) :: u32) = length src"
    using assms(3) by (simp add: unat_of_nat)
  moreover from this have "unat (of_nat (length src) :: u32) < 2 ^ 31" using assms(3) by simp
  then have "bs = take (unat (of_nat (length src) :: u32)) (drop (unat off) c')" "n = int (length bs)"
    using rd_done [OF t c(1) _ assms(8,9)] by auto
  ultimately show ?thesis using c(2) by (simp add: written_def slice_def)
qed

text \<open>A run of writes to other files leaves a file as it is.\<close>

fun run_writes :: "(int \<times> u32 \<times> u8 list) list \<Rightarrow> 's \<Rightarrow> 's option" where
  "run_writes [] s = Some s"
| "run_writes ((h, off, src) # ws) s = (case wr h off src s of None \<Rightarrow> None | Some (t, _) \<Rightarrow> run_writes ws t)"

lemma run_writes_others:
  assumes "ok s" and "run_writes ws s = Some t" and "\<And>g off src. (g, off, src) \<in> set ws \<Longrightarrow>
      g \<noteq> h \<and> content s g \<noteq> None \<and> src \<noteq> [] \<and> length src < 2 ^ 31 \<and> unat off + length src \<le> limit"
  shows "ok t \<and> content t h = content s h"
  using assms
proof (induction ws arbitrary: s)
  case Nil
  then show ?case by simp
next
  case (Cons w ws)
  obtain g off src where w: "w = (g, off, src)" by (cases w)
  obtain u r where u: "wr g off src s = Some (u, r)" "run_writes ws u = Some t"
    using Cons.prems(2) by (auto simp: w split: option.splits)
  have g: "g \<noteq> h" "content s g \<noteq> None" "src \<noteq> []" "length src < 2 ^ 31" "unat off + length src \<le> limit"
    using Cons.prems(3) w by auto
  then obtain c where c: "content s g = Some c" by auto
  have step: "ok u" "content u g \<noteq> None" "\<And>h'. h' \<noteq> g \<Longrightarrow> content u h' = content s h'"
    using wr_others [OF Cons.prems(1) c g(4,5) _ u(1)] g(3) by auto
  have valid: "content u g' \<noteq> None" if "content s g' \<noteq> None" for g'
    using that step(2,3) by (cases "g' = g") auto
  have "g' \<noteq> h \<and> content u g' \<noteq> None \<and> src' \<noteq> [] \<and> length src' < 2 ^ 31 \<and>
      unat off' + length src' \<le> limit" if "(g', off', src') \<in> set ws" for g' off' src'
    using Cons.prems(3) [of g' off' src'] that valid by auto
  then have "ok t \<and> content t h = content u h" by (rule Cons.IH [OF step(1) u(2)])
  then show ?case using step(3) [of h] g(1) by auto
qed

end

end
