(* ===== verification/Memfs.thy ===== *)
theory Memfs
  imports Pipe Heap_Client File_Store
begin

text \<open>
  The in-memory file system, \<open>kernel/core/memfs.c\<close>. The table of entries is a list whose length is
  \<open>entry_capacity\<close>, kept with the pointer that \<open>kmalloc\<close> returned for it; the bytes of the files are
  in memory, in payloads of the heap. A name is the string in the entry's \<open>name\<close> array. The loops
  that may not end are partial: \<open>None\<close> stands for a call that does not return.
\<close>

definition MEMFS_INITIAL_CAPACITY :: nat where "MEMFS_INITIAL_CAPACITY = 4"
definition MEMFS_NAME_MAX :: nat where "MEMFS_NAME_MAX = 32"
definition MEMFS_INITIAL_BUFFER_SIZE :: u32 where "MEMFS_INITIAL_BUFFER_SIZE = 256"

record memfs_entry =
  e_name :: "u8 list"
  e_data :: u64
  e_size :: u32
  e_capacity :: u32
  e_in_use :: bool

text \<open>\<open>sizeof(memfs_entry_t)\<close>.\<close>

definition MEMFS_ENTRY_SIZE :: u64 where "MEMFS_ENTRY_SIZE = 56"

record memfs_state = pipe_state +
  mf_entries :: "memfs_entry list"
  mf_entries_ptr :: u64

definition init_entry_slot :: "memfs_entry \<Rightarrow> memfs_entry" where
  "init_entry_slot e = e\<lparr>e_name := [], e_data := 0, e_size := 0, e_capacity := 0, e_in_use := False\<rparr>"

definition copy_entry_slot :: "memfs_entry \<Rightarrow> memfs_entry \<Rightarrow> memfs_entry" where
  "copy_entry_slot dst src = dst\<lparr>e_name := e_name src, e_data := e_data src, e_size := e_size src,
     e_capacity := e_capacity src, e_in_use := e_in_use src\<rparr>"

text \<open>A slot of a table just allocated: all of its fields are assigned before they are read.\<close>

definition raw_entry_slot :: memfs_entry where
  "raw_entry_slot = \<lparr>e_name = [], e_data = 0, e_size = 0, e_capacity = 0, e_in_use = False\<rparr>"

definition grow_table :: "'a memfs_state_scheme \<Rightarrow> ('a memfs_state_scheme \<times> int) option" where
  "grow_table s =
     (let n = length (mf_entries s);
          new_capacity = (if n = 0 then MEMFS_INITIAL_CAPACITY else n * 2) in do {
        (s, new_table) \<leftarrow> kmalloc (MEMFS_ENTRY_SIZE * of_nat new_capacity) s;
        if new_table = 0 then Some (s, -1)
        else let copied = map (\<lambda>i. copy_entry_slot raw_entry_slot (mf_entries s ! i)) [0..<n];
                 inited = map (\<lambda>i. init_entry_slot raw_entry_slot) [n..<new_capacity];
                 old_table = mf_entries_ptr s;
                 s = s\<lparr>mf_entries := copied @ inited, mf_entries_ptr := new_table\<rparr> in
          if old_table \<noteq> 0 then do { s \<leftarrow> kfree old_table s; Some (s, 0) }
          else Some (s, 0)
      })"

text \<open>\<open>copy_name\<close>: at most \<open>MEMFS_NAME_MAX - 1\<close> bytes of the name, then the terminator.\<close>

fun copy_name_loop :: "nat \<Rightarrow> u8 list \<Rightarrow> u8 list" where
  "copy_name_loop 0 src = []"
| "copy_name_loop (Suc k) [] = []"
| "copy_name_loop (Suc k) (b # src) = (if b \<noteq> 0 then b # copy_name_loop k src else [])"

definition copy_name :: "u8 list \<Rightarrow> u8 list" where
  "copy_name src = copy_name_loop (MEMFS_NAME_MAX - 1) src"

definition find_slot :: "u8 list \<Rightarrow> memfs_entry list \<Rightarrow> int" where
  "find_slot name es = index_or_minus1 (first_index (\<lambda>e. e_in_use e \<and> str_eq_and (e_name e) name) es)"

definition find_free_slot :: "memfs_entry list \<Rightarrow> int" where
  "find_free_slot es = index_or_minus1 (first_index (\<lambda>e. \<not> e_in_use e) es)"

definition upd_entry :: "int \<Rightarrow> (memfs_entry \<Rightarrow> memfs_entry) \<Rightarrow> 'a memfs_state_scheme \<Rightarrow> 'a memfs_state_scheme" where
  "upd_entry slot f s = s\<lparr>mf_entries := (mf_entries s)[nat slot := f (mf_entries s ! nat slot)]\<rparr>"

text \<open>The slot of a new file: a free one of the table, or the first of a larger table.\<close>

definition memfs_slot_for_new :: "'a memfs_state_scheme \<Rightarrow> ('a memfs_state_scheme \<times> int option) option" where
  "memfs_slot_for_new s =
     (let slot = find_free_slot (mf_entries s) in
      if slot = -1 then let previous_capacity = int (length (mf_entries s)) in do {
        (s, rc) \<leftarrow> grow_table s;
        Some (s, if rc \<noteq> 0 then None else Some previous_capacity)
      }
      else Some (s, Some slot))"

definition memfs_create :: "u8 list \<Rightarrow> 'a memfs_state_scheme \<Rightarrow> ('a memfs_state_scheme \<times> int) option" where
  "memfs_create name s =
     (if find_slot name (mf_entries s) \<ge> 0 then Some (s, -1)
      else do {
        (s, slot) \<leftarrow> memfs_slot_for_new s;
        case slot of None \<Rightarrow> Some (s, -1)
        | Some slot \<Rightarrow> do {
            (s, buf) \<leftarrow> kmalloc (ucast MEMFS_INITIAL_BUFFER_SIZE) s;
            if buf = 0 then Some (s, -1)
            else Some (upd_entry slot (\<lambda>e. e\<lparr>e_name := copy_name name, e_data := buf, e_size := 0,
                         e_capacity := MEMFS_INITIAL_BUFFER_SIZE, e_in_use := True\<rparr>) s, slot)
          }
      })"

definition memfs_find :: "u8 list \<Rightarrow> 'a memfs_state_scheme \<Rightarrow> int" where
  "memfs_find name s = find_slot name (mf_entries s)"

definition memfs_delete :: "u8 list \<Rightarrow> 'a memfs_state_scheme \<Rightarrow> ('a memfs_state_scheme \<times> int) option" where
  "memfs_delete name s =
     (let slot = find_slot name (mf_entries s) in
      if slot = -1 then Some (s, -1)
      else do {
        s \<leftarrow> kfree (e_data (mf_entries s ! nat slot)) s;
        Some (upd_entry slot init_entry_slot s, 0)
      })"

definition memfs_handle_ok :: "int \<Rightarrow> memfs_entry list \<Rightarrow> bool" where
  "memfs_handle_ok handle es \<longleftrightarrow> \<not> (handle < 0 \<or> handle \<ge> int (length es) \<or> \<not> e_in_use (es ! nat handle))"

definition memfs_size :: "int \<Rightarrow> 'a memfs_state_scheme \<Rightarrow> u32" where
  "memfs_size handle s =
     (if \<not> memfs_handle_ok handle (mf_entries s) then 0 else e_size (mf_entries s ! nat handle))"

text \<open>The doubling loop of \<open>ensure_capacity\<close>; the product wraps, so it ends only if a multiple fits.\<close>

partial_function (option) double_until :: "u32 \<Rightarrow> u32 \<Rightarrow> u32 option" where
  "double_until new_capacity needed =
     (if new_capacity < needed then double_until (new_capacity * 2) needed else Some new_capacity)"

definition memfs_ensure_capacity :: "int \<Rightarrow> u32 \<Rightarrow> 'a memfs_state_scheme \<Rightarrow> ('a memfs_state_scheme \<times> int) option" where
  "memfs_ensure_capacity handle needed s =
     (let e = mf_entries s ! nat handle in
      if needed \<le> e_capacity e then Some (s, 0)
      else do {
        new_capacity \<leftarrow> double_until (e_capacity e * 2) needed;
        (s, new_buf) \<leftarrow> kmalloc (ucast new_capacity) s;
        if new_buf = 0 then Some (s, -1)
        else do {
          let m = for_w 0 (e_size e) (\<lambda>i m. m(new_buf + ucast i := m (e_data e + ucast i))) (phys_mem s);
          s \<leftarrow> kfree (e_data e) (s\<lparr>phys_mem := m\<rparr>);
          Some (upd_entry handle (\<lambda>e. e\<lparr>e_data := new_buf, e_capacity := new_capacity\<rparr>) s, 0)
        }
      })"

definition memfs_write_at :: "int \<Rightarrow> u32 \<Rightarrow> u8 list \<Rightarrow> u32 \<Rightarrow> 'a memfs_state_scheme \<Rightarrow> ('a memfs_state_scheme \<times> int) option" where
  "memfs_write_at handle offset src len s =
     (if \<not> memfs_handle_ok handle (mf_entries s) then Some (s, -1)
      else let needed = offset + len in
        if needed < offset then Some (s, -1)
        else do {
          (s, rc) \<leftarrow> memfs_ensure_capacity handle needed s;
          if rc \<noteq> 0 then Some (s, -1)
          else let data = e_data (mf_entries s ! nat handle);
                   m = for_w 0 len (\<lambda>i m. m(data + ucast (offset + i) := src ! unat i)) (phys_mem s);
                   s = s\<lparr>phys_mem := m\<rparr>;
                   s = (if needed > e_size (mf_entries s ! nat handle)
                        then upd_entry handle (\<lambda>e. e\<lparr>e_size := needed\<rparr>) s else s)
            in Some (s, sint len)
        })"

definition memfs_read_at :: "int \<Rightarrow> u32 \<Rightarrow> u32 \<Rightarrow> 'a memfs_state_scheme \<Rightarrow> int \<times> u8 list" where
  "memfs_read_at handle offset len s =
     (if \<not> memfs_handle_ok handle (mf_entries s) then (-1, [])
      else let e = mf_entries s ! nat handle in
        if offset \<ge> e_size e then (0, [])
        else let available = e_size e - offset;
                 len = (if len > available then available else len)
          in (sint len, map (\<lambda>i. phys_mem s (e_data e + ucast (offset + of_nat i))) [0..<unat len]))"

definition memfs_first :: "'a memfs_state_scheme \<Rightarrow> int" where
  "memfs_first s = index_or_minus1 (first_index e_in_use (mf_entries s))"

text \<open>The loop of \<open>memfs_next\<close> starts at \<open>handle + 1\<close>.\<close>

definition memfs_next :: "int \<Rightarrow> 'a memfs_state_scheme \<Rightarrow> int" where
  "memfs_next handle s =
     (case first_index e_in_use (drop (nat (handle + 1)) (mf_entries s)) of
        None \<Rightarrow> -1 | Some i \<Rightarrow> handle + 1 + int i)"

definition memfs_name :: "int \<Rightarrow> 'a memfs_state_scheme \<Rightarrow> u8 list" where
  "memfs_name handle s =
     (if \<not> memfs_handle_ok handle (mf_entries s) then [] else e_name (mf_entries s ! nat handle))"

definition memfs_file_count :: "'a memfs_state_scheme \<Rightarrow> u32" where
  "memfs_file_count s = fold (\<lambda>e n. if e_in_use e then n + 1 else n) (mf_entries s) 0"

section \<open>The doubling loop\<close>

lemma double_until_done: "\<not> c < n \<Longrightarrow> double_until c n = Some c"
  by (subst double_until.simps) simp

lemma double_until_small:
  assumes "c \<noteq> 0" and "unat n \<le> 2 ^ 31"
  shows "\<exists>d. double_until c n = Some d \<and> n \<le> d \<and> c \<le> d"
  using assms
proof (induction "2 ^ 32 - unat c" arbitrary: c rule: less_induct)
  case less
  show ?case
  proof (cases "c < n")
    case False
    then show ?thesis using double_until_done [of c n] by auto
  next
    case True
    then have lt: "unat c < 2 ^ 31" using less.prems(2) by (simp add: word_less_nat_alt)
    have dbl: "unat (c * 2) = unat c * 2" using lt by (simp add: unat_word_ariths)
    have pos: "0 < unat c" using less.prems(1) by (simp add: unat_gt_0)
    have nz: "c * 2 \<noteq> 0" using dbl pos by auto
    have smaller: "2 ^ 32 - unat (c * 2) < 2 ^ 32 - unat c" using dbl pos lt by simp
    obtain d where d: "double_until (c * 2) n = Some d" "n \<le> d" "c * 2 \<le> d"
      using less.hyps [OF smaller nz less.prems(2)] by blast
    have "c \<le> c * 2" by (simp add: word_le_nat_alt dbl)
    then show ?thesis using d True by (subst double_until.simps) auto
  qed
qed


text \<open>Behind \<open>2 ^ 31\<close> a doubled power of two becomes 0 and the loop never ends.\<close>

lemma double_until_diverges:
  assumes "2 ^ 31 < unat n"
  shows "double_until (2 ^ k) n = None"
proof -
  have "\<forall>j. c = 2 ^ j \<longrightarrow> \<not> 2 ^ 31 < unat n" if "double_until c n = Some d" for c n d
  proof (rule double_until.raw_induct [where P = "\<lambda>c n d. \<forall>j. c = 2 ^ j \<longrightarrow> \<not> 2 ^ 31 < unat n", OF _ that],
      intro allI impI notI)
    fix f :: "u32 \<Rightarrow> u32 \<Rightarrow> u32 option" and c n d j
    assume 1: "\<And>c n d. f c n = Some d \<Longrightarrow> \<forall>j. c = 2 ^ j \<longrightarrow> \<not> 2 ^ 31 < unat n"
      "(if c < n then f (c * 2) n else Some c) = Some d" "c = 2 ^ j" "2 ^ 31 < unat n"
    have "unat (2 ^ j :: u32) \<le> 2 ^ 31"
    proof (cases "j < 32")
      case True
      then have "(2::nat) ^ j < 2 ^ LENGTH(32)" by (intro power_strict_increasing) simp_all
      then have "unat (of_nat (2 ^ j) :: u32) = 2 ^ j" by (simp only: unat_of_nat mod_less)
      then have "unat (2 ^ j :: u32) = 2 ^ j" by simp
      moreover have "j \<le> 31" using True by simp
      then have "(2::nat) ^ j \<le> 2 ^ 31" by (rule power_increasing) simp
      ultimately show ?thesis by simp
    next
      case False
      then have "(2 ^ j :: u32) = 0" by (simp add: exp_eq_zero_iff)
      then have "unat (2 ^ j :: u32) = 0" by (simp only: unsigned_0)
      then show ?thesis by linarith
    qed
    then have "c < n" using 1(3,4) by (simp add: word_less_nat_alt)
    then have "f (c * 2) n = Some d" using 1(2) by simp
    moreover have "c * 2 = 2 ^ Suc j" using 1(3) by simp
    ultimately show False using 1(1) 1(4) by blast
  qed
  then show ?thesis using assms by (cases "double_until (2 ^ k) n") blast+
qed

section \<open>The invariant and the contents\<close>

text \<open>
  Every file has its own payload of the heap, apart from the table's, which holds its capacity; its
  size fits; names are strings of at most 31 bytes and no two files have the same.
\<close>

definition memfs_entry_ok :: "u64 \<Rightarrow> (u64 \<times> nat) set \<Rightarrow> memfs_entry \<Rightarrow> bool" where
  "memfs_entry_ok ptr L e \<longleftrightarrow> (\<exists>n \<ge> unat (e_capacity e). (e_data e, n) \<in> L) \<and> e_size e \<le> e_capacity e \<and>
     e_capacity e \<noteq> 0 \<and> e_data e \<noteq> ptr \<and> cstr (e_name e) = e_name e \<and> length (e_name e) < MEMFS_NAME_MAX"

definition memfs_inv :: "memfs_entry list \<Rightarrow> u64 \<Rightarrow> (u64 \<times> nat) set \<Rightarrow> bool" where
  "memfs_inv es ptr L \<longleftrightarrow> (ptr = 0 \<or> (\<exists>n. (ptr, n) \<in> L)) \<and> (\<forall>i<length es. e_in_use (es ! i) \<longrightarrow> memfs_entry_ok ptr L (es ! i) \<and>
     (\<forall>j<length es. e_in_use (es ! j) \<and> i \<noteq> j \<longrightarrow> e_data (es ! i) \<noteq> e_data (es ! j) \<and> e_name (es ! i) \<noteq> e_name (es ! j)))"

definition memfs_ok :: "'a memfs_state_scheme \<Rightarrow> bool" where
  "memfs_ok s \<longleftrightarrow> heap_ok s \<and> memfs_inv (mf_entries s) (mf_entries_ptr s) (live s)"

definition entry_bytes :: "memory \<Rightarrow> memfs_entry \<Rightarrow> u8 list" where
  "entry_bytes m e = bytes_at m (e_data e) (unat (e_size e))"

definition memfs_content :: "'a memfs_state_scheme \<Rightarrow> int \<Rightarrow> u8 list option" where
  "memfs_content s h =
     (if memfs_handle_ok h (mf_entries s) then Some (entry_bytes (phys_mem s) (mf_entries s ! nat h)) else None)"

lemma memfs_inv_entry:
  "memfs_inv es ptr L \<Longrightarrow> memfs_handle_ok h es \<Longrightarrow> memfs_entry_ok ptr L (es ! nat h)"
  by (auto simp: memfs_inv_def memfs_handle_ok_def)

lemma memfs_inv_mono:
  assumes "memfs_inv es ptr L"
    and "\<And>i n. i < length es \<Longrightarrow> e_in_use (es ! i) \<Longrightarrow> (e_data (es ! i), n) \<in> L \<Longrightarrow> (e_data (es ! i), n) \<in> L'"
    and "\<And>i. i < length es \<Longrightarrow> e_in_use (es ! i) \<Longrightarrow> e_data (es ! i) \<noteq> ptr'"
    and "ptr' = 0 \<or> (\<exists>n. (ptr', n) \<in> L')"
  shows "memfs_inv es ptr' L'"
  using assms unfolding memfs_inv_def memfs_entry_ok_def by blast

text \<open>Replacing the entry of one slot.\<close>

lemma memfs_inv_upd:
  assumes "memfs_inv es ptr L" and "k < length es" and "e_in_use e \<Longrightarrow> memfs_entry_ok ptr L e"
    and "\<And>i. i < length es \<Longrightarrow> e_in_use e \<Longrightarrow> e_in_use (es ! i) \<Longrightarrow> i \<noteq> k \<Longrightarrow>
      e_data (es ! i) \<noteq> e_data e \<and> e_name (es ! i) \<noteq> e_name e"
  shows "memfs_inv (es[k := e]) ptr L"
  unfolding memfs_inv_def
proof (intro conjI allI impI)
  show "ptr = 0 \<or> (\<exists>n. (ptr, n) \<in> L)" using assms(1) by (simp add: memfs_inv_def)
next
  fix i
  assume i: "i < length (es[k := e])" and u: "e_in_use (es[k := e] ! i)"
  have il: "i < length es" using i by simp
  have old: "memfs_entry_ok ptr L (es ! i)" "\<And>j. j < length es \<Longrightarrow> e_in_use (es ! j) \<Longrightarrow> i \<noteq> j \<Longrightarrow>
      e_data (es ! i) \<noteq> e_data (es ! j) \<and> e_name (es ! i) \<noteq> e_name (es ! j)" if "i \<noteq> k"
    using assms(1) il u that unfolding memfs_inv_def by auto
  have one: "memfs_entry_ok ptr L (es[k := e] ! i)"
    using old(1) u assms(2,3) by (cases "i = k") auto
  have "e_data (es[k := e] ! i) \<noteq> e_data (es[k := e] ! j) \<and> e_name (es[k := e] ! i) \<noteq> e_name (es[k := e] ! j)"
    if j: "j < length es" "e_in_use (es[k := e] ! j)" "i \<noteq> j" for j
  proof (cases "i = k")
    case True
    then show ?thesis using assms(4) [OF j(1)] u j assms(2) by auto
  next
    case False
    then show ?thesis using old(2) [OF False, of j] assms(4) [OF il] u j assms(2) by (cases "j = k") auto
  qed
  note two = this
  show "memfs_entry_ok ptr L (es[k := e] ! i)" by (rule one)
  fix j
  assume "j < length (es[k := e])" "e_in_use (es[k := e] ! j) \<and> i \<noteq> j"
  then show "e_data (es[k := e] ! i) \<noteq> e_data (es[k := e] ! j)" "e_name (es[k := e] ! i) \<noteq> e_name (es[k := e] ! j)"
    using two by auto
qed

lemma entry_bytes_cong:
  assumes "heap_ok s" and "memfs_entry_ok ptr (live s) e" and "L \<subseteq> live s" and "\<And>n. (e_data e, n) \<in> live s \<Longrightarrow> (e_data e, n) \<in> L"
    and "same_payloads L (phys_mem s) m"
  shows "entry_bytes m e = entry_bytes (phys_mem s) e"
proof -
  obtain n where n: "unat (e_capacity e) \<le> n" "(e_data e, n) \<in> live s" using assms(2) by (auto simp: memfs_entry_ok_def)
  have le: "unat (e_size e) \<le> n" using assms(2) n(1) by (simp add: memfs_entry_ok_def word_le_nat_alt)
  have "(e_data e, n) \<in> L" by (rule assms(4) [OF n(2)])
  then show ?thesis
    unfolding entry_bytes_def by (rule bytes_at_same_payloads [OF assms(5) _ le live_bounds(1) [OF assms(1) n(2)]])
qed


lemma upd_entry_fields [simp]:
  "mf_entries (upd_entry k f s) = (mf_entries s)[nat k := f (mf_entries s ! nat k)]"
  "mf_entries_ptr (upd_entry k f s) = mf_entries_ptr s" "phys_mem (upd_entry k f s) = phys_mem s"
  by (simp_all add: upd_entry_def)

lemma memfs_upd_heap [simp]:
  "heap_ok (upd_entry k f s) = heap_ok s" "live (upd_entry k f s) = live s"
  "heap_ok (s\<lparr>mf_entries := es, mf_entries_ptr := p\<rparr>) = heap_ok s"
  "live (s\<lparr>mf_entries := es, mf_entries_ptr := p\<rparr>) = live s"
  by (rule heap_ok_cong; simp add: upd_entry_def)+

lemma mm_frame_memfs:
  assumes "mm_frame s t"
  shows "mf_entries t = mf_entries s" "mf_entries_ptr t = mf_entries_ptr s"
  by (rule mm_frame_field [OF assms]; simp add: mm_clear_def pmm_clear_def)+

lemma kmalloc_memfs:
  assumes "kmalloc n s = Some (t, p)"
  shows "mf_entries t = mf_entries s" "mf_entries_ptr t = mf_entries_ptr s"
  using mm_frame_memfs kmalloc_sched [OF assms] by blast+

lemma kfree_memfs:
  assumes "kfree p s = Some t"
  shows "mf_entries t = mf_entries s" "mf_entries_ptr t = mf_entries_ptr s"
  using mm_frame_memfs kfree_sched [OF assms] by blast+

section \<open>Making room\<close>

text \<open>What \<open>ensure_capacity\<close> guarantees when it returns: the files are as they were.\<close>

definition memfs_same_files :: "'a memfs_state_scheme \<Rightarrow> 'a memfs_state_scheme \<Rightarrow> bool" where
  "memfs_same_files s t \<longleftrightarrow> memfs_ok t \<and> memfs_content t = memfs_content s \<and>
     length (mf_entries t) = length (mf_entries s) \<and>
     (\<forall>i<length (mf_entries s). e_in_use (mf_entries t ! i) = e_in_use (mf_entries s ! i) \<and>
        e_size (mf_entries t ! i) = e_size (mf_entries s ! i) \<and> e_name (mf_entries t ! i) = e_name (mf_entries s ! i))"

lemma memfs_content_eqI:
  assumes "length (mf_entries t) = length (mf_entries s)"
    and "\<And>i. i < length (mf_entries s) \<Longrightarrow> e_in_use (mf_entries t ! i) = e_in_use (mf_entries s ! i)"
    and "\<And>i. i < length (mf_entries s) \<Longrightarrow> e_in_use (mf_entries s ! i) \<Longrightarrow>
      entry_bytes (phys_mem t) (mf_entries t ! i) = entry_bytes (phys_mem s) (mf_entries s ! i)"
  shows "memfs_content t = memfs_content s"
proof
  fix h
  show "memfs_content t h = memfs_content s h"
  proof (cases "0 \<le> h \<and> h < int (length (mf_entries s))")
    case True
    then have "nat h < length (mf_entries s)" by linarith
    then show ?thesis using assms(2,3) [of "nat h"] assms(1) True
      by (auto simp: memfs_content_def memfs_handle_ok_def)
  next
    case False
    then show ?thesis using assms(1) by (auto simp: memfs_content_def memfs_handle_ok_def)
  qed
qed

lemma memfs_relocate:
  fixes s :: "'a memfs_state_scheme"
  assumes ok: "memfs_ok s" and h: "memfs_handle_ok h (mf_entries s)" and e: "e = mf_entries s ! nat h"
    and cap: "unat (e_size e) \<le> unat cap" "cap \<noteq> 0"
    and k: "kmalloc (ucast cap) s = Some (u, p)" and p: "p \<noteq> 0"
    and m: "m = for_w 0 (e_size e) (\<lambda>i m. m(p + ucast i := m (e_data e + ucast i))) (phys_mem u)"
    and f: "kfree (e_data e) (u\<lparr>phys_mem := m\<rparr>) = Some v"
    and t: "t = upd_entry h (\<lambda>e. e\<lparr>e_data := p, e_capacity := cap\<rparr>) v"
  shows "memfs_same_files s t"
proof -
  have hs: "heap_ok s" and inv: "memfs_inv (mf_entries s) (mf_entries_ptr s) (live s)"
    using ok by (simp_all add: memfs_ok_def)
  have hl: "nat h < length (mf_entries s)" "e_in_use (mf_entries s ! nat h)" "0 \<le> h" using h by (auto simp: memfs_handle_ok_def)
  have eok: "memfs_entry_ok (mf_entries_ptr s) (live s) e" using memfs_inv_entry [OF inv h] by (simp add: e)
  obtain n0 where d: "(e_data e, n0) \<in> live s" "unat (e_capacity e) \<le> n0" using eok by (auto simp: memfs_entry_ok_def)
  \<comment> \<open>the new buffer\<close>
  obtain n where n: "unat (ucast cap :: u64) \<le> n" "\<forall>k. (p, k) \<notin> live s" "live u = insert (p, n) (live s)"
    "same_payloads (live s) (phys_mem s) (phys_mem u)" "heap_ok u"
    using heap.alloc_law [OF hs, of "ucast cap"] k p by auto
  have capn: "unat cap \<le> n" using n(1) by (simp add: unsigned_ucast_eq)
  have pl: "(p, n) \<in> live u" using n(3) by simp
  have pb: "unat p + n \<le> 2 ^ 32" by (rule live_bounds(1) [OF n(5) pl])
  have du: "(e_data e, n0) \<in> live u" using d n(3) by simp
  have db: "unat (e_data e) + n0 \<le> 2 ^ 32" by (rule live_bounds(1) [OF n(5) du])
  have apart: "unat p + n \<le> unat (e_data e) \<or> unat (e_data e) + n0 \<le> unat p"
    using heap.live_apart [OF n(5) pl du] d(1) n(2) by auto
  \<comment> \<open>the copy loop\<close>
  have sz: "unat (e_size e) \<le> n" "unat (e_size e) \<le> n0"
    using cap capn eok d(2) by (auto simp: memfs_entry_ok_def word_le_nat_alt)
  have szl: "unat (e_size e) < 2 ^ LENGTH(32)" by (rule unsigned_less)
  have "for_w 0 (e_size e) (\<lambda>i m. m(p + ucast (0 + i) := m (e_data e + ucast i))) (phys_mem u) =
      fill (p + ucast (0::u32)) (unat (e_size e)) (\<lambda>i. phys_mem u (e_data e + of_nat i)) (phys_mem u)"
  proof (rule for_w_fill32)
    fix i and m' :: memory
    assume i: "i < unat (e_size e)"
      and out: "\<And>x. \<not> in_payload (p + ucast (0::u32)) (unat (e_size e)) x \<Longrightarrow> m' x = phys_mem u x"
    have "i < 2 ^ 32" using i sz(1) pb by linarith
    then have "(ucast (of_nat i :: u32) :: u64) = of_nat i" by (rule ucast_of_nat32)
    then show "m' (e_data e + ucast (of_nat i :: u32)) = phys_mem u (e_data e + of_nat i)"
      using apart sz i unat_offset [OF db, of i] out by (auto simp: in_payload_def)
  qed (use pb sz(1) szl in simp_all)
  then have mf: "m = fill p (unat (e_size e)) (\<lambda>i. phys_mem u (e_data e + of_nat i)) (phys_mem u)"
    unfolding m by simp
  \<comment> \<open>the copy stays inside the new buffer, and the old buffer is released\<close>
  let ?u = "u\<lparr>phys_mem := m\<rparr>"
  have out: "m x = phys_mem u x" if "\<not> in_payload p n x" for x
    using that sz(1) unfolding mf by (intro fill_other) (auto simp: in_payload_def)
  have w: "heap_ok ?u" "live ?u = live u" using kheap.write_law [OF n(5) pl out] by auto
  have others: "same_payloads {(q, k) \<in> live u. q \<noteq> p} (phys_mem u) m" using kheap.write_others [OF n(5) pl out] by simp
  obtain hv: "heap_ok v" "live v = {(q, n) \<in> live u. q \<noteq> e_data e}" "same_payloads (live v) m (phys_mem v)"
    using heap.free_law [OF w(1), of "e_data e"] f w(2) by auto
  have es: "mf_entries v = mf_entries s" "mf_entries_ptr v = mf_entries_ptr s"
    using kfree_memfs [OF f] kmalloc_memfs [OF k] by simp_all
  have pd: "p \<noteq> e_data e" using n(2) d(1) by auto
  \<comment> \<open>the invariant\<close>
  let ?e = "e\<lparr>e_data := p, e_capacity := cap\<rparr>" and ?es = "mf_entries s" and ?ptr = "mf_entries_ptr s"
  have ptr: "p \<noteq> ?ptr" "?ptr \<noteq> e_data e" using inv n(2) p eok by (auto simp: memfs_inv_def memfs_entry_ok_def)
  have iu: "memfs_inv ?es ?ptr (live u)"
    using inv by (rule memfs_inv_mono) (use inv n(3) in \<open>auto simp: memfs_inv_def memfs_entry_ok_def\<close>)
  have "memfs_entry_ok ?ptr (live u) ?e"
    using eok capn cap pl ptr by (auto simp: memfs_entry_ok_def word_le_nat_alt)
  moreover have ne: "e_data (?es ! i) \<noteq> p" "i \<noteq> nat h \<Longrightarrow> e_data (?es ! i) \<noteq> e_data e \<and> e_name (?es ! i) \<noteq> e_name e"
    if "i < length ?es" "e_in_use (?es ! i)" for i
    using inv that n(2) hl unfolding memfs_inv_def memfs_entry_ok_def e by blast+
  ultimately have iu': "memfs_inv (?es[nat h := ?e]) ?ptr (live u)"
    by (intro memfs_inv_upd [OF iu hl(1)]) auto
  have it: "memfs_inv (?es[nat h := ?e]) ?ptr (live v)"
    using iu'
  proof (rule memfs_inv_mono)
    fix i k
    assume "i < length (?es[nat h := ?e])" "e_in_use (?es[nat h := ?e] ! i)" "(e_data (?es[nat h := ?e] ! i), k) \<in> live u"
    moreover from this have "e_data (?es[nat h := ?e] ! i) \<noteq> e_data e" using ne(2) pd hl(1) by (cases "i = nat h") auto
    ultimately show "(e_data (?es[nat h := ?e] ! i), k) \<in> live v" using hv(2) by auto
  qed (use iu' hv(2) ptr in \<open>auto simp: memfs_inv_def memfs_entry_ok_def\<close>)
  have mt: "memfs_ok t" using hv(1) it unfolding t memfs_ok_def by (simp add: es e [symmetric])
  \<comment> \<open>the contents\<close>
  have keep: "entry_bytes (phys_mem v) (?es ! i) = entry_bytes (phys_mem s) (?es ! i)"
    if i: "i < length ?es" "e_in_use (?es ! i)" "i \<noteq> nat h" for i
  proof -
    have ok_i: "memfs_entry_ok ?ptr (live s) (?es ! i)" using inv i by (simp add: memfs_inv_def)
    have a: "entry_bytes (phys_mem u) (?es ! i) = entry_bytes (phys_mem s) (?es ! i)"
      using entry_bytes_cong [OF hs ok_i subset_refl _ n(4)] by simp
    have ok_u: "memfs_entry_ok ?ptr (live u) (?es ! i)" using iu i by (simp add: memfs_inv_def)
    have b: "entry_bytes m (?es ! i) = entry_bytes (phys_mem u) (?es ! i)"
      by (rule entry_bytes_cong [OF n(5) ok_u _ _ others]) (use ne(1) [OF i(1,2)] in auto)
    have ok_w: "memfs_entry_ok ?ptr (live ?u) (?es ! i)" using ok_u w(2) by simp
    have "entry_bytes (phys_mem v) (?es ! i) = entry_bytes (phys_mem ?u) (?es ! i)"
      by (rule entry_bytes_cong [OF w(1) ok_w, of "live v"]) (use hv(2,3) w(2) ne(2) [OF i(1,2)] i(3) in auto)
    then show ?thesis using a b by simp
  qed
  have moved: "entry_bytes (phys_mem v) ?e = entry_bytes (phys_mem s) e"
  proof -
    have "(p, n) \<in> live v" using hv(2) pl pd by simp
    then have "bytes_at (phys_mem v) p (unat (e_size e)) = bytes_at m p (unat (e_size e))"
      by (rule bytes_at_same_payloads [OF hv(3) _ sz(1) pb])
    also have "\<dots> = map (\<lambda>i. phys_mem u (e_data e + of_nat i)) [0..<unat (e_size e)]"
      unfolding mf using pb sz(1) by (intro bytes_at_fill) linarith
    also have "\<dots> = bytes_at (phys_mem u) (e_data e) (unat (e_size e))" by (simp add: bytes_at_def)
    also have "\<dots> = bytes_at (phys_mem s) (e_data e) (unat (e_size e))"
      by (rule bytes_at_same_payloads [OF n(4) d(1) sz(2) db])
    finally show ?thesis by (simp add: entry_bytes_def)
  qed
  have "memfs_content t = memfs_content s"
  proof (rule memfs_content_eqI)
    fix i
    assume "i < length ?es" "e_in_use (?es ! i)"
    then show "entry_bytes (phys_mem t) (mf_entries t ! i) = entry_bytes (phys_mem s) (?es ! i)"
      using keep moved hl(1) unfolding t by (cases "i = nat h") (simp_all add: es e)
  qed (use hl in \<open>auto simp: t es nth_list_update\<close>)
  then show ?thesis using mt hl(1) by (auto simp: memfs_same_files_def t es nth_list_update)
qed


lemma double_until_bound: "double_until c n = Some d \<Longrightarrow> n \<le> d"
  by (erule double_until.raw_induct [where P = "\<lambda>c n d. n \<le> d", rotated]) (auto split: if_splits)

lemma memfs_same_files_refl: "memfs_ok s \<Longrightarrow> memfs_same_files s s"
  by (simp add: memfs_same_files_def)

lemma memfs_ensure_capacity_correct:
  assumes ok: "memfs_ok s" and h: "memfs_handle_ok h (mf_entries s)"
    and r: "memfs_ensure_capacity h needed s = Some (t, rc)"
  shows "memfs_same_files s t" "rc = 0 \<or> rc = -1" "rc = 0 \<Longrightarrow> needed \<le> e_capacity (mf_entries t ! nat h)"
    "rc = -1 \<Longrightarrow> t = s"
proof -
  let ?e = "mf_entries s ! nat h"
  have hl: "nat h < length (mf_entries s)" using h by (auto simp: memfs_handle_ok_def)
  have hs: "heap_ok s" using ok by (simp add: memfs_ok_def)
  have eok: "e_size ?e \<le> e_capacity ?e"
    using ok memfs_inv_entry [OF _ h] by (auto simp: memfs_ok_def memfs_entry_ok_def)
  have "memfs_same_files s t \<and> (rc = 0 \<and> needed \<le> e_capacity (mf_entries t ! nat h) \<or> rc = -1 \<and> t = s)"
  proof (cases "needed \<le> e_capacity ?e")
    case True
    then show ?thesis using r memfs_same_files_refl [OF ok] by (simp add: memfs_ensure_capacity_def)
  next
    case False
    obtain cap u p where k: "double_until (e_capacity ?e * 2) needed = Some cap" "kmalloc (ucast cap) s = Some (u, p)"
      using r False by (auto simp: memfs_ensure_capacity_def Let_def split: bind_splits)
    have cap: "needed \<le> cap" using double_until_bound [OF k(1)] .
    show ?thesis
    proof (cases "p = 0")
      case True
      then have "u = s" using heap.alloc_law [OF hs, of "ucast cap"] k(2) by auto
      then show ?thesis using r False k True memfs_same_files_refl [OF ok] by (simp add: memfs_ensure_capacity_def)
    next
      case pnz: False
      let ?m = "for_w 0 (e_size ?e) (\<lambda>i m. m(p + ucast i := m (e_data ?e + ucast i))) (phys_mem u)"
      obtain v where v: "kfree (e_data ?e) (u\<lparr>phys_mem := ?m\<rparr>) = Some v"
        and t: "t = upd_entry h (\<lambda>e. e\<lparr>e_data := p, e_capacity := cap\<rparr>) v" and rc: "rc = 0"
        using r False k pnz by (auto simp: memfs_ensure_capacity_def Let_def split: bind_splits)
      have "cap \<noteq> 0" using cap False by auto
      moreover have "unat (e_size ?e) \<le> unat cap" using eok cap False by (simp add: word_le_nat_alt)
      ultimately have "memfs_same_files s t" by (intro memfs_relocate [OF ok h refl _ _ k(2) pnz refl v t])
      moreover have "mf_entries v = mf_entries s" using kfree_memfs(1) [OF v] kmalloc_memfs(1) [OF k(2)] by simp
      ultimately show ?thesis using cap rc hl by (simp add: t)
    qed
  qed
  then show "memfs_same_files s t" "rc = 0 \<or> rc = -1" "rc = 0 \<Longrightarrow> needed \<le> e_capacity (mf_entries t ! nat h)"
    "rc = -1 \<Longrightarrow> t = s" by auto
qed

lemma memfs_ensure_capacity_total:
  assumes ok: "memfs_ok s" and h: "memfs_handle_ok h (mf_entries s)" and n: "unat needed \<le> 2 ^ 31"
  shows "\<exists>t rc. memfs_ensure_capacity h needed s = Some (t, rc)"
proof (cases "needed \<le> e_capacity (mf_entries s ! nat h)")
  case True
  then show ?thesis by (simp add: memfs_ensure_capacity_def)
next
  case False
  let ?e = "mf_entries s ! nat h"
  have hs: "heap_ok s" and eok: "memfs_entry_ok (mf_entries_ptr s) (live s) ?e"
    using ok memfs_inv_entry [OF _ h] by (auto simp: memfs_ok_def)
  have "unat (e_capacity ?e) < 2 ^ 31" using False n by (simp add: word_le_nat_alt)
  then have "unat (e_capacity ?e * 2) = unat (e_capacity ?e) * 2" by (simp add: unat_word_ariths)
  moreover have "0 < unat (e_capacity ?e)" using eok by (simp add: memfs_entry_ok_def unat_gt_0)
  ultimately have "e_capacity ?e * 2 \<noteq> 0" by auto
  then obtain cap where cap: "double_until (e_capacity ?e * 2) needed = Some cap"
    using double_until_small [OF _ n] by blast
  obtain u p where u: "kmalloc (ucast cap) s = Some (u, p)" "heap_ok u" "live s \<subseteq> live u"
    "p \<noteq> 0 \<longrightarrow> (\<exists>n\<ge>unat (ucast cap :: u64). (p, n) \<in> live u)"
    using heap.alloc_law [OF hs, of "ucast cap"] by fastforce
  show ?thesis
  proof (cases "p = 0")
    case True
    then show ?thesis using False cap u(1) by (simp add: memfs_ensure_capacity_def Let_def)
  next
    case pnz: False
    let ?m = "for_w 0 (e_size ?e) (\<lambda>i m. m(p + ucast i := m (e_data ?e + ucast i))) (phys_mem u)"
    obtain n where pn: "(p, n) \<in> live u" "unat cap \<le> n" using u(4) pnz by (auto simp: unsigned_ucast_eq)
    have "?m x = phys_mem u x" if "\<not> in_payload p n x" for x
    proof (rule for_w_keeps [where P = "\<lambda>m. m x = phys_mem u x"])
      fix j :: u32 and m :: memory
      assume j: "j < e_size ?e" and m: "m x = phys_mem u x"
      have "e_size ?e \<le> cap" using eok False double_until_bound [OF cap] by (auto simp: memfs_entry_ok_def)
      then have "unat j < n" using j pn(2) by (simp add: word_less_nat_alt word_le_nat_alt)
      moreover have "(ucast j :: u64) = of_nat (unat j)" by simp
      ultimately have "in_payload p n (p + ucast j)"
        using in_payload_offset [OF live_bounds(1) [OF u(2) pn(1)]] by metis
      then show "(m(p + ucast j := m (e_data ?e + ucast j))) x = phys_mem u x" using that m by auto
    qed simp
    then have "heap_ok (u\<lparr>phys_mem := ?m\<rparr>)" using kheap.write_law [OF u(2) pn(1)] by blast
    then obtain v where "kfree (e_data ?e) (u\<lparr>phys_mem := ?m\<rparr>) = Some v"
      using heap.free_law [of "u\<lparr>phys_mem := ?m\<rparr>" "e_data ?e"] by blast
    then show ?thesis using False cap u(1) pnz by (simp add: memfs_ensure_capacity_def Let_def)
  qed
qed


section \<open>Writing and reading\<close>

lemma memfs_store:
  fixes u :: "'a memfs_state_scheme"
  assumes ok: "memfs_ok u" and h: "memfs_handle_ok h (mf_entries u)" and e: "e = mf_entries u ! nat h"
    and room: "unat off + unat len \<le> unat (e_capacity e)" and src: "unat len \<le> length src"
    and m: "m = for_w 0 len (\<lambda>i m. m(e_data e + ucast (off + i) := src ! unat i)) (phys_mem u)"
    and t: "t = (if off + len > e_size e then upd_entry h (\<lambda>e. e\<lparr>e_size := off + len\<rparr>) (u\<lparr>phys_mem := m\<rparr>)
                 else u\<lparr>phys_mem := m\<rparr>)"
  shows "memfs_ok t" "\<And>g. g \<noteq> h \<Longrightarrow> memfs_content t g = memfs_content u g"
    "\<exists>c'. memfs_content t h = Some c' \<and> written (unat off) (take (unat len) src) (entry_bytes (phys_mem u) e) c'"
proof -
  let ?es = "mf_entries u" and ?ptr = "mf_entries_ptr u" and ?u = "u\<lparr>phys_mem := m\<rparr>"
  have hu: "heap_ok u" and inv: "memfs_inv ?es ?ptr (live u)" using ok by (simp_all add: memfs_ok_def)
  have hl: "nat h < length ?es" "e_in_use (?es ! nat h)" "0 \<le> h" "h < int (length ?es)"
    using h by (auto simp: memfs_handle_ok_def)
  have eok: "memfs_entry_ok ?ptr (live u) e" using memfs_inv_entry [OF inv h] by (simp add: e)
  obtain n where n: "(e_data e, n) \<in> live u" "unat (e_capacity e) \<le> n" using eok by (auto simp: memfs_entry_ok_def)
  have b: "unat (e_data e) + n \<le> 2 ^ 32" by (rule live_bounds(1) [OF hu n(1)])
  have nd: "unat (off + len) = unat off + unat len"
  proof -
    have "unat (e_capacity e) < 2 ^ LENGTH(32)" by (rule unsigned_less)
    then show ?thesis using room by (simp add: unat_word_ariths)
  qed
  have qe: "e_data e + ucast off = e_data e + of_nat (unat off)" by simp
  have q: "unat (e_data e + ucast off) = unat (e_data e) + unat off"
    unfolding qe using room n(2) by (intro unat_offset [OF b]) simp
  have cap32: "unat (e_capacity e) < 2 ^ LENGTH(32)" by (rule unsigned_less)
  have mf: "m = fill (e_data e + ucast off) (unat len) (\<lambda>i. src ! i) (phys_mem u)"
    unfolding m by (rule for_w_fill32) (use b n(2) room cap32 in \<open>auto simp: unat_of_nat\<close>)
  have inp: "in_payload (e_data e + ucast off) (unat len) x \<Longrightarrow> in_payload (e_data e) n x" for x
    using room n(2) q by (auto simp: in_payload_def)
  have out: "m x = phys_mem u x" if "\<not> in_payload (e_data e) n x" for x
    using that inp unfolding mf by (intro fill_other) auto
  have w: "heap_ok ?u" "live ?u = live u" using kheap.write_law [OF hu n(1) out] by auto
  have others: "same_payloads {(q, k) \<in> live u. q \<noteq> e_data e} (phys_mem u) m" using kheap.write_others [OF hu n(1) out] by simp
  have t_fields: "phys_mem t = m" "length (mf_entries t) = length ?es"
    "\<And>i. i \<noteq> nat h \<Longrightarrow> mf_entries t ! i = ?es ! i"
    "mf_entries t ! nat h = e\<lparr>e_size := max (e_size e) (off + len)\<rparr>"
    using hl(1) by (auto simp: t e max_def nth_list_update)
  have size_ok: "memfs_entry_ok ?ptr (live u) (e\<lparr>e_size := off + len\<rparr>)"
    using eok room nd by (auto simp: memfs_entry_ok_def word_le_nat_alt)
  have dist: "e_data (?es ! i) \<noteq> e_data e \<and> e_name (?es ! i) \<noteq> e_name e" if "i < length ?es" "e_in_use (?es ! i)" "i \<noteq> nat h" for i
    using inv that hl unfolding memfs_inv_def e by blast
  have "memfs_inv (?es[nat h := e\<lparr>e_size := off + len\<rparr>]) ?ptr (live u)"
    using size_ok dist by (intro memfs_inv_upd [OF inv hl(1)]) auto
  then show "memfs_ok t" using w inv unfolding t memfs_ok_def by (auto simp: e)
  show "memfs_content t g = memfs_content u g" if g: "g \<noteq> h" for g
  proof (cases "memfs_handle_ok g ?es")
    case False
    then show ?thesis using t_fields(2,3) g hl(3) by (auto simp: memfs_content_def memfs_handle_ok_def nat_eq_iff2)
  next
    case True
    then have gl: "nat g < length ?es" "e_in_use (?es ! nat g)" "nat g \<noteq> nat h"
      using g hl(3) by (auto simp: memfs_handle_ok_def)
    have "memfs_entry_ok ?ptr (live u) (?es ! nat g)" by (rule memfs_inv_entry [OF inv True])
    then have "entry_bytes m (?es ! nat g) = entry_bytes (phys_mem u) (?es ! nat g)"
      using dist [OF gl] by (intro entry_bytes_cong [OF hu _ _ _ others]) auto
    then show ?thesis using True gl t_fields by (simp add: memfs_content_def memfs_handle_ok_def)
  qed
  let ?c' = "bytes_at m (e_data e) (unat (max (e_size e) (off + len)))"
  have size: "unat (e_size e) \<le> n" "unat (max (e_size e) (off + len)) = max (unat (e_size e)) (unat off + unat len)"
    using eok n(2) nd by (auto simp: memfs_entry_ok_def word_le_nat_alt max_def)
  have at: "m (e_data e + of_nat i) = (if unat off \<le> i \<and> i < unat off + unat len then src ! (i - unat off)
      else phys_mem u (e_data e + of_nat i))" if "i < n" for i
    using unat_offset [OF b, of i] that q by (auto simp: mf fill_def in_payload_def)
  have at_src: "m (e_data e + (ucast off + of_nat i)) = src ! i" if "i < unat len" for i
    using at [of "unat off + i"] that room n(2) by simp
  have "written (unat off) (take (unat len) src) (entry_bytes (phys_mem u) e) ?c'"
    unfolding written_def
  proof (intro conjI allI impI)
    show "slice (unat off) (length (take (unat len) src)) ?c' = take (unat len) src"
      using src room n(2) size by (intro nth_equalityI) (auto simp: length_slice nth_slice at_src)
    fix i
    assume "i < length (entry_bytes (phys_mem u) e)" "i < unat off \<or> unat off + length (take (unat len) src) \<le> i"
    then show "?c' ! i = entry_bytes (phys_mem u) e ! i"
      using src size at [of i] by (auto simp: entry_bytes_def)
  qed (use src size in \<open>simp add: entry_bytes_def\<close>)
  moreover have "memfs_content t h = Some ?c'"
    using hl t_fields by (simp add: memfs_content_def memfs_handle_ok_def entry_bytes_def e)
  ultimately show "\<exists>c'. memfs_content t h = Some c' \<and> written (unat off) (take (unat len) src) (entry_bytes (phys_mem u) e) c'"
    by blast
qed


lemma sint_small: "unat len < 2 ^ 31 \<Longrightarrow> sint len = int (unat len)" for len :: u32
proof -
  assume "unat len < 2 ^ 31"
  then have "int (unat len) < int (2 ^ 31)" by (simp only: of_nat_less_iff)
  then have u: "uint len < 2 ^ 31" by simp
  have n: "uint len = int (unat len)" by (rule uint_nat)
  have "sint len = signed_take_bit 31 (uint len)" by (simp add: sint_uint)
  also have "\<dots> = uint len" 
  proof (rule signed_take_bit_int_eq_self)
    have "0 \<le> uint len" by simp
    then show "- (2 ^ 31) \<le> uint len" by (rule order_trans [rotated]) simp
  qed (rule u)
  finally show ?thesis by (simp only: n)
qed

lemma memfs_same_files_handle:
  "memfs_same_files s t \<Longrightarrow> memfs_handle_ok h (mf_entries t) = memfs_handle_ok h (mf_entries s)"
  by (auto simp: memfs_same_files_def memfs_handle_ok_def nat_less_iff)

lemma memfs_write_at_cases:
  fixes s :: "'a memfs_state_scheme"
  assumes ok: "memfs_ok s" and c: "memfs_content s h = Some c" and src: "unat len \<le> length src"
    and r: "memfs_write_at h off src len s = Some (t, r)"
  obtains (failed) "r = -1" "memfs_same_files s t"
  | (stored) c' where "r = sint len" "memfs_ok t" "\<And>g. g \<noteq> h \<Longrightarrow> memfs_content t g = memfs_content s g"
      "memfs_content t h = Some c'" "written (unat off) (take (unat len) src) c c'"
proof -
  have h: "memfs_handle_ok h (mf_entries s)" and c_eq: "c = entry_bytes (phys_mem s) (mf_entries s ! nat h)"
    using c by (auto simp: memfs_content_def split: if_splits)
  show ?thesis
  proof (cases "off + len < off")
    case True
    then show ?thesis using r h failed memfs_same_files_refl [OF ok] by (simp add: memfs_write_at_def)
  next
    case False
    then have nd: "unat (off + len) = unat off + unat len"
      using unat_plus_simple [of off len] by (simp only: linorder_not_less)
    obtain u rc where e: "memfs_ensure_capacity h (off + len) s = Some (u, rc)"
      using r h False by (auto simp: memfs_write_at_def Let_def split: bind_splits)
    note ec = memfs_ensure_capacity_correct [OF ok h e]
    show ?thesis
    proof (cases "rc = 0")
      case False
      then show ?thesis using r h \<open>\<not> off + len < off\<close> e ec failed by (simp add: memfs_write_at_def)
    next
      case True
      let ?e = "mf_entries u ! nat h"
      let ?m = "for_w 0 len (\<lambda>i m. m(e_data ?e + ucast (off + i) := src ! unat i)) (phys_mem u)"
      have u: "memfs_ok u" "memfs_content u = memfs_content s" using ec(1) by (simp_all add: memfs_same_files_def)
      have hu: "memfs_handle_ok h (mf_entries u)" using memfs_same_files_handle [OF ec(1)] h by simp
      have t: "t = (if off + len > e_size ?e then upd_entry h (\<lambda>e. e\<lparr>e_size := off + len\<rparr>) (u\<lparr>phys_mem := ?m\<rparr>)
          else u\<lparr>phys_mem := ?m\<rparr>)" and "r = sint len"
        using r h \<open>\<not> off + len < off\<close> e True by (auto simp: memfs_write_at_def Let_def)
      have room: "unat off + unat len \<le> unat (e_capacity ?e)" using ec(3) True nd by (simp add: word_le_nat_alt)
      have "entry_bytes (phys_mem u) ?e = c" using u(2) hu c by (metis memfs_content_def option.inject)
      then show ?thesis
        using memfs_store [OF u(1) hu refl room src refl t] u(2) stored \<open>r = sint len\<close> by auto
    qed
  qed
qed

lemma memfs_read_at_content:
  assumes ok: "memfs_ok s" and c: "memfs_content s h = Some c" and len: "unat len < 2 ^ 31"
  shows "memfs_read_at h off len s = (int (min (unat len) (length c - unat off)), take (unat len) (drop (unat off) c))"
proof -
  let ?e = "mf_entries s ! nat h"
  have h: "memfs_handle_ok h (mf_entries s)" and c_eq: "c = bytes_at (phys_mem s) (e_data ?e) (unat (e_size ?e))"
    using c by (auto simp: memfs_content_def entry_bytes_def split: if_splits)
  have lc: "length c = unat (e_size ?e)" using c_eq by simp
  show ?thesis
  proof (cases "off \<ge> e_size ?e")
    case True
    then show ?thesis using h lc by (simp add: memfs_read_at_def word_le_nat_alt)
  next
    case False
    let ?l = "if len > e_size ?e - off then e_size ?e - off else len"
    have av: "unat (e_size ?e - off) = unat (e_size ?e) - unat off" using False by (simp add: unat_sub_if' word_le_nat_alt)
    have l: "unat ?l = min (unat len) (unat (e_size ?e) - unat off)" using av by (auto simp: word_less_nat_alt)
    have s32: "unat (e_size ?e) < 2 ^ LENGTH(32)" by (rule unsigned_less)
    have "map (\<lambda>i. phys_mem s (e_data ?e + ucast (off + of_nat i))) [0..<unat ?l] = take (unat len) (drop (unat off) c)"
    proof (rule nth_equalityI)
      fix i
      assume "i < length (map (\<lambda>i. phys_mem s (e_data ?e + ucast (off + of_nat i))) [0..<unat ?l])"
      then have i: "i < unat ?l" "unat off + i < unat (e_size ?e)" using l by auto
      then have "(ucast (off + of_nat i) :: u64) = of_nat (unat off + i)" using ucast_add32 [of off i] s32 by simp
      then show "map (\<lambda>i. phys_mem s (e_data ?e + ucast (off + of_nat i))) [0..<unat ?l] ! i = take (unat len) (drop (unat off) c) ! i"
        using i l c_eq by simp
    qed (simp add: l lc)
    moreover have "sint ?l = int (unat ?l)" using l len by (intro sint_small) simp
    ultimately show ?thesis using h False l lc by (simp add: memfs_read_at_def Let_def)
  qed
qed

interpretation memfs: file_store "2 ^ 33" memfs_ok memfs_content
  "\<lambda>h off src. memfs_write_at h off src (of_nat (length src))"
  "\<lambda>h off len s. (s, memfs_read_at h off len s)"
proof
  fix s t :: "'a memfs_state_scheme" and h c off r and src bs :: "u8 list" and len :: u32
  show "memfs_ok t \<and> memfs_content t = memfs_content s" if "memfs_ok s" "(s, memfs_read_at h off len s) = (t, r, bs)"
    using that by simp
  assume ok: "memfs_ok s" and c: "memfs_content s h = Some c"
  show "bs = take (unat len) (drop (unat off) c) \<and> r = int (length bs)"
    if "unat len < 2 ^ 31" "(s, memfs_read_at h off len s) = (t, r, bs)"
    using memfs_read_at_content [OF ok c that(1)] that(2) by auto
  assume l: "length src < 2 ^ 31"
  have u: "unat (of_nat (length src) :: u32) = length src" using l by (simp add: unat_of_nat)
  have si: "sint (of_nat (length src) :: u32) = int (length src)" using sint_small [of "of_nat (length src)"] l u by simp
  assume w: "memfs_write_at h off src (of_nat (length src)) s = Some (t, r)"
  show "r = int (length src) \<and> (\<exists>c'. memfs_content t h = Some c' \<and> written (unat off) src c c')" if "0 \<le> r"
    using ok c _ w by (cases rule: memfs_write_at_cases) (use u si that in auto)
  show "memfs_ok t \<and> memfs_content t h \<noteq> None \<and> (\<forall>h'. h' \<noteq> h \<longrightarrow> memfs_content t h' = memfs_content s h')"
    using ok c _ w by (cases rule: memfs_write_at_cases) (use u c in \<open>auto simp: memfs_same_files_def\<close>)
qed


section \<open>Names\<close>

lemma copy_name_cstr: "copy_name_loop k src = take k (cstr src)"
  by (induction k src rule: copy_name_loop.induct) (auto simp: cstr_Cons)

text \<open>The directory: which handle a name leads to.\<close>

definition memfs_dir :: "'a memfs_state_scheme \<Rightarrow> u8 list \<Rightarrow> int option" where
  "memfs_dir s name = (if memfs_find name s = -1 then None else Some (memfs_find name s))"

lemma find_slot_Some:
  assumes "memfs_inv es ptr L"
  shows "find_slot name es = int i \<longleftrightarrow> i < length es \<and> e_in_use (es ! i) \<and> e_name (es ! i) = cstr name"
proof -
  have m: "e_in_use (es ! j) \<and> str_eq_and (e_name (es ! j)) name \<longleftrightarrow> e_in_use (es ! j) \<and> e_name (es ! j) = cstr name"
    if "j < length es" for j
    using assms that by (auto simp: memfs_inv_def memfs_entry_ok_def str_eq_and_cstr)
  have uniq: "j = i" if "i < length es" "j < length es" "e_in_use (es ! i)" "e_in_use (es ! j)"
    "e_name (es ! i) = e_name (es ! j)" for i j
    using assms that unfolding memfs_inv_def by blast
  show ?thesis
  proof (cases "first_index (\<lambda>e. e_in_use e \<and> str_eq_and (e_name e) name) es")
    case None
    then have "find_slot name es = -1" unfolding find_slot_def None by simp
    moreover have "\<forall>j<length es. \<not> (e_in_use (es ! j) \<and> e_name (es ! j) = cstr name)"
      using None m by (auto simp: all_set_conv_all_nth)
    ultimately show ?thesis by auto
  next
    case (Some k)
    then have "k < length es" "e_in_use (es ! k)" "e_name (es ! k) = cstr name"
      using first_index_SomeD(1,2) [OF Some] m by auto
    then show ?thesis using Some uniq by (auto simp: find_slot_def)
  qed
qed

lemma find_slot_range: "find_slot name es = -1 \<or> (\<exists>i<length es. find_slot name es = int i)"
proof (cases "first_index (\<lambda>e. e_in_use e \<and> str_eq_and (e_name e) name) es")
  case None
  show ?thesis unfolding find_slot_def None by simp
next
  case (Some k)
  then show ?thesis using first_index_SomeD(1) [OF Some] by (auto simp: find_slot_def)
qed

lemma memfs_dir_Some:
  assumes "memfs_ok s"
  shows "memfs_dir s name = Some h \<longleftrightarrow>
    memfs_handle_ok h (mf_entries s) \<and> e_name (mf_entries s ! nat h) = cstr name"
proof -
  have inv: "memfs_inv (mf_entries s) (mf_entries_ptr s) (live s)" using assms by (simp add: memfs_ok_def)
  show ?thesis
  proof (cases "0 \<le> h")
    case True
    then have "memfs_dir s name = Some h \<longleftrightarrow> find_slot name (mf_entries s) = int (nat h)"
      by (auto simp: memfs_dir_def memfs_find_def)
    then show ?thesis using True find_slot_Some [OF inv, of name "nat h"] by (auto simp: memfs_handle_ok_def nat_less_iff)
  next
    case False
    then show ?thesis using find_slot_range [of name "mf_entries s"]
      by (auto simp: memfs_dir_def memfs_find_def memfs_handle_ok_def)
  qed
qed

section \<open>Creating and deleting\<close>

lemma memfs_inv_append:
  assumes "memfs_inv es ptr L"
  shows "memfs_inv (es @ replicate k raw_entry_slot) ptr L"
proof -
  let ?new = "es @ replicate k raw_entry_slot"
  have nth: "i < length es \<and> ?new ! i = es ! i \<and> e_in_use (es ! i)" if "i < length ?new" "e_in_use (?new ! i)" for i
    using that by (cases "i < length es") (auto simp: nth_append raw_entry_slot_def)
  show ?thesis unfolding memfs_inv_def
  proof (intro conjI allI impI)
    show "ptr = 0 \<or> (\<exists>n. (ptr, n) \<in> L)" using assms by (simp add: memfs_inv_def)
    fix i
    assume i: "i < length ?new" "e_in_use (?new ! i)"
    show "memfs_entry_ok ptr L (?new ! i)" using nth [OF i] assms by (simp add: memfs_inv_def)
    fix j
    assume "j < length ?new" "e_in_use (?new ! j) \<and> i \<noteq> j"
    then have j: "j < length es" "?new ! j = es ! j" "e_in_use (es ! j)" "i \<noteq> j" using nth by auto
    show "e_data (?new ! i) \<noteq> e_data (?new ! j)" "e_name (?new ! i) \<noteq> e_name (?new ! j)"
      using nth [OF i] j assms unfolding memfs_inv_def by auto
  qed
qed

lemma memfs_grow_table:
  assumes ok: "memfs_ok s" and g: "grow_table s = Some (t, rc)"
  shows "rc = -1 \<and> t = s \<or> rc = 0 \<and> memfs_ok t \<and> memfs_content t = memfs_content s \<and>
     (\<exists>k>0. mf_entries t = mf_entries s @ replicate k raw_entry_slot)"
proof -
  let ?n = "length (mf_entries s)" and ?es = "mf_entries s" and ?ptr = "mf_entries_ptr s"
  let ?c = "if ?n = 0 then MEMFS_INITIAL_CAPACITY else ?n * 2"
  have hs: "heap_ok s" and inv: "memfs_inv ?es ?ptr (live s)" using ok by (simp_all add: memfs_ok_def)
  obtain u p where k: "kmalloc (MEMFS_ENTRY_SIZE * of_nat ?c) s = Some (u, p)"
    using g by (auto simp: grow_table_def Let_def split: bind_splits)
  note ku = kmalloc_memfs [OF k]
  show ?thesis
  proof (cases "p = 0")
    case True
    then have "u = s" using heap.alloc_law [OF hs, of "MEMFS_ENTRY_SIZE * of_nat ?c"] k by auto
    then show ?thesis using g k True by (auto simp: grow_table_def Let_def)
  next
    case False
    let ?new = "?es @ replicate (?c - ?n) raw_entry_slot"
    let ?u = "u\<lparr>mf_entries := ?new, mf_entries_ptr := p\<rparr>"
    obtain n where n: "\<forall>k. (p, k) \<notin> live s" "live u = insert (p, n) (live s)"
      "same_payloads (live s) (phys_mem s) (phys_mem u)" "heap_ok u"
      using heap.alloc_law [OF hs, of "MEMFS_ENTRY_SIZE * of_nat ?c"] k False by auto
    have copied: "map (\<lambda>i. copy_entry_slot raw_entry_slot (?es ! i)) [0..<?n] = ?es"
      by (rule nth_equalityI) (simp_all add: copy_entry_slot_def raw_entry_slot_def)
    have inited: "map (\<lambda>i. init_entry_slot raw_entry_slot) [?n..<?c] = replicate (?c - ?n) raw_entry_slot"
      by (rule nth_equalityI) (simp_all add: init_entry_slot_def raw_entry_slot_def)
    have "grow_table s = (if ?ptr \<noteq> 0 then do { v \<leftarrow> kfree ?ptr ?u; Some (v, 0) } else Some (?u, 0))"
      unfolding grow_table_def Let_def k using False by (simp only: ku copied inited bind.simps prod.case if_False)
    moreover have "kfree 0 ?u = Some ?u" by (simp add: kfree_def)
    ultimately have t: "rc = 0" "kfree ?ptr ?u = Some t" using g by (auto split: if_splits bind_splits)
    obtain ht: "heap_ok t" "live t = {(q, n) \<in> live u. q \<noteq> ?ptr}" "same_payloads (live t) (phys_mem u) (phys_mem t)"
      using heap.free_law [of ?u ?ptr] n(4) t(2) by auto
    have et: "mf_entries t = ?new" "mf_entries_ptr t = p" using kfree_memfs [OF t(2)] by simp_all
    have nth: "i < ?n \<and> ?new ! i = ?es ! i" if "i < length ?new" "e_in_use (?new ! i)" for i
      using that by (cases "i < ?n") (auto simp: nth_append raw_entry_slot_def)
    have keep: "(e_data (?es ! i), m) \<in> live t" if "i < ?n" "e_in_use (?es ! i)" "(e_data (?es ! i), m) \<in> live s" for i m
      using inv that ht(2) n(2) by (auto simp: memfs_inv_def memfs_entry_ok_def)
    have "memfs_inv ?new ?ptr (live s)" using inv by (rule memfs_inv_append)
    then have "memfs_inv ?new p (live t)"
    proof (rule memfs_inv_mono)
      show "p = 0 \<or> (\<exists>n. (p, n) \<in> live t)" using ht(2) n(1,2) inv by (auto simp: memfs_inv_def)
      fix i
      assume i: "i < length ?new" "e_in_use (?new ! i)"
      then have j: "i < ?n" "?new ! i = ?es ! i" "e_in_use (?es ! i)" using nth by auto
      then show "e_data (?new ! i) \<noteq> p" using inv n(1) by (auto simp: memfs_inv_def memfs_entry_ok_def)
      show "(e_data (?new ! i), m) \<in> live t" if "(e_data (?new ! i), m) \<in> live s" for m using keep j that by simp
    qed
    then have mt: "memfs_ok t" using ht(1) by (simp add: memfs_ok_def et)
    have same: "entry_bytes (phys_mem t) (?es ! i) = entry_bytes (phys_mem s) (?es ! i)" if i: "i < ?n" "e_in_use (?es ! i)" for i
    proof -
      have e: "memfs_entry_ok ?ptr (live s) (?es ! i)" using inv i by (simp add: memfs_inv_def)
      then have eu: "memfs_entry_ok ?ptr (live u) (?es ! i)" using n(2) by (auto simp: memfs_entry_ok_def)
      have a: "entry_bytes (phys_mem u) (?es ! i) = entry_bytes (phys_mem s) (?es ! i)"
        by (rule entry_bytes_cong [OF hs e _ _ n(3)]) auto
      have "entry_bytes (phys_mem t) (?es ! i) = entry_bytes (phys_mem u) (?es ! i)"
        by (rule entry_bytes_cong [OF n(4) eu _ _ ht(3)]) (use ht(2) eu in \<open>auto simp: memfs_entry_ok_def\<close>)
      then show ?thesis using a by simp
    qed
    have "memfs_content t h = memfs_content s h" for h
    proof (cases "memfs_handle_ok h ?es")
      case True
      then show ?thesis using same [of "nat h"]
        by (auto simp: memfs_content_def memfs_handle_ok_def et nth_append nat_less_iff)
    next
      case False
      then have "\<not> memfs_handle_ok h ?new" using nth [of "nat h"] by (auto simp: memfs_handle_ok_def nat_less_iff)
      then show ?thesis using False by (simp add: memfs_content_def et)
    qed
    moreover have "0 < ?c - ?n" by (auto simp: MEMFS_INITIAL_CAPACITY_def)
    ultimately show ?thesis using t(1) mt et by blast
  qed
qed


text \<open>Filling a free slot with a fresh, empty file.\<close>

lemma memfs_new_file:
  fixes s :: "'a memfs_state_scheme"
  assumes ok: "memfs_ok s" and i: "i < length (mf_entries s)" "\<not> e_in_use (mf_entries s ! i)"
    and name: "length (cstr name) < MEMFS_NAME_MAX" "memfs_dir s name = None"
    and k: "kmalloc (ucast MEMFS_INITIAL_BUFFER_SIZE) s = Some (u, p)" and p: "p \<noteq> 0"
    and t: "t = upd_entry (int i) (\<lambda>e. e\<lparr>e_name := copy_name name, e_data := p, e_size := 0,
                         e_capacity := MEMFS_INITIAL_BUFFER_SIZE, e_in_use := True\<rparr>) u"
  shows "memfs_ok t" "memfs_content t = (memfs_content s)(int i \<mapsto> [])"
    "memfs_handle_ok (int i) (mf_entries t)" "e_name (mf_entries t ! i) = cstr name"
    "\<And>j. j \<noteq> i \<Longrightarrow> mf_entries t ! j = mf_entries s ! j" "length (mf_entries t) = length (mf_entries s)"
proof -
  let ?es = "mf_entries s" and ?ptr = "mf_entries_ptr s"
  let ?e = "(?es ! i)\<lparr>e_name := copy_name name, e_data := p, e_size := 0, e_capacity := MEMFS_INITIAL_BUFFER_SIZE, e_in_use := True\<rparr>"
  have hs: "heap_ok s" and inv: "memfs_inv ?es ?ptr (live s)" using ok by (simp_all add: memfs_ok_def)
  obtain n where n: "unat (ucast MEMFS_INITIAL_BUFFER_SIZE :: u64) \<le> n" "\<forall>k. (p, k) \<notin> live s" "live u = insert (p, n) (live s)"
      "same_payloads (live s) (phys_mem s) (phys_mem u)" "heap_ok u"
    using heap.alloc_law [OF hs, of "ucast MEMFS_INITIAL_BUFFER_SIZE"] k p by auto
  note ku = kmalloc_memfs [OF k]
  have nm: "copy_name name = cstr name" using name(1) by (simp add: copy_name_def copy_name_cstr MEMFS_NAME_MAX_def)
  have et: "mf_entries t = ?es[i := ?e]" "mf_entries_ptr t = ?ptr" "phys_mem t = phys_mem u" by (simp_all add: t ku)
  have iu: "memfs_inv ?es ?ptr (live u)"
    using inv by (rule memfs_inv_mono) (use inv n(3) in \<open>auto simp: memfs_inv_def memfs_entry_ok_def\<close>)
  have ptr: "p \<noteq> ?ptr" using inv n(2) p by (auto simp: memfs_inv_def)
  have eok: "memfs_entry_ok ?ptr (live u) ?e"
    using n(1,3) ptr name(1) nm by (auto simp: memfs_entry_ok_def MEMFS_INITIAL_BUFFER_SIZE_def)
  have ne: "e_data (?es ! j) \<noteq> p \<and> e_name (?es ! j) \<noteq> cstr name" if "j < length ?es" "e_in_use (?es ! j)" for j
  proof -
    have "e_data (?es ! j) \<noteq> p" using inv n(2) that by (auto simp: memfs_inv_def memfs_entry_ok_def)
    moreover have "memfs_dir s name \<noteq> Some (int j)" using name(2) by simp
    then have "e_name (?es ! j) \<noteq> cstr name" using that memfs_dir_Some [OF ok] by (auto simp: memfs_handle_ok_def)
    ultimately show ?thesis by simp
  qed
  have "memfs_inv (?es[i := ?e]) ?ptr (live u)" using eok ne nm by (intro memfs_inv_upd [OF iu i(1)]) auto
  then show "memfs_ok t" using n(5) et by (simp add: memfs_ok_def t ku)
  show "memfs_handle_ok (int i) (mf_entries t)" using i(1) by (simp add: memfs_handle_ok_def et)
  show "e_name (mf_entries t ! i) = cstr name" using i(1) nm by (simp add: et)
  show "\<And>j. j \<noteq> i \<Longrightarrow> mf_entries t ! j = mf_entries s ! j" "length (mf_entries t) = length (mf_entries s)" by (simp_all add: et)
  show "memfs_content t = (memfs_content s)(int i \<mapsto> [])"
  proof
    fix h
    show "memfs_content t h = ((memfs_content s)(int i \<mapsto> [])) h"
    proof (cases "h = int i")
      case True
      then show ?thesis using i(1) by (simp add: memfs_content_def memfs_handle_ok_def et entry_bytes_def bytes_at_def)
    next
      case False
      show ?thesis
      proof (cases "memfs_handle_ok h ?es")
        case True
        then have "memfs_entry_ok ?ptr (live s) (?es ! nat h)" by (rule memfs_inv_entry [OF inv])
        then have "entry_bytes (phys_mem u) (?es ! nat h) = entry_bytes (phys_mem s) (?es ! nat h)"
          by (rule entry_bytes_cong [OF hs _ _ _ n(4)]) auto
        moreover have "nat h \<noteq> i" using False True by (auto simp: memfs_handle_ok_def)
        ultimately show ?thesis using True False by (simp add: memfs_content_def memfs_handle_ok_def et)
      next
        case bad: False
        then have "\<not> memfs_handle_ok h (?es[i := ?e])" using False by (auto simp: memfs_handle_ok_def)
        then show ?thesis using bad False by (simp add: memfs_content_def et)
      qed
    qed
  qed
qed

lemma memfs_dir_new:
  assumes "memfs_ok s" "memfs_ok t" and "memfs_handle_ok (int i) (mf_entries t)" "e_name (mf_entries t ! i) = cstr name"
    and "\<And>j. j \<noteq> i \<Longrightarrow> mf_entries t ! j = mf_entries s ! j" "length (mf_entries t) = length (mf_entries s)"
    and "\<not> e_in_use (mf_entries s ! i)"
  shows "memfs_dir t = (\<lambda>n. if cstr n = cstr name then Some (int i) else memfs_dir s n)"
proof
  fix n
  have "memfs_dir t n = Some h \<longleftrightarrow> (if cstr n = cstr name then Some (int i) else memfs_dir s n) = Some h" for h
  proof (cases "h = int i")
    case True
    then show ?thesis using assms by (auto simp: memfs_dir_Some memfs_handle_ok_def)
  next
    case False
    show ?thesis
    proof (cases "cstr n = cstr name")
      case True
      then show ?thesis using False memfs_dir_Some [OF assms(2), of n "int i"] assms(3,4) by auto
    next
      case ne: False
      have "nat h = i \<Longrightarrow> h < 0" using False by auto
      then show ?thesis using False ne assms(5) [of "nat h"] assms(6)
        by (auto simp: memfs_dir_Some [OF assms(1)] memfs_dir_Some [OF assms(2)] memfs_handle_ok_def)
    qed
  qed
  then show "memfs_dir t n = (if cstr n = cstr name then Some (int i) else memfs_dir s n)"
    by (metis not_None_eq)
qed

lemma memfs_dir_cong_append:
  assumes "memfs_ok s" "memfs_ok t" "mf_entries t = mf_entries s @ replicate k raw_entry_slot"
  shows "memfs_dir t = memfs_dir s"
proof
  fix n
  have "memfs_dir t n = Some h \<longleftrightarrow> memfs_dir s n = Some h" for h
    unfolding memfs_dir_Some [OF assms(1)] memfs_dir_Some [OF assms(2)] assms(3) memfs_handle_ok_def
    by (auto simp: nth_append raw_entry_slot_def split: if_splits)
  then show "memfs_dir t n = memfs_dir s n" by (metis not_None_eq)
qed


lemma grow_table_total:
  fixes s :: "'a memfs_state_scheme"
  assumes "heap_ok s"
  shows "\<exists>t rc. grow_table s = Some (t, rc)"
proof -
  let ?n = "length (mf_entries s)"
  let ?c = "if ?n = 0 then MEMFS_INITIAL_CAPACITY else ?n * 2"
  obtain u p where k: "kmalloc (MEMFS_ENTRY_SIZE * of_nat ?c) s = Some (u, p)" "heap_ok u"
    using heap.alloc_law [OF assms, of "MEMFS_ENTRY_SIZE * of_nat ?c"] by blast
  let ?new = "map (\<lambda>i. copy_entry_slot raw_entry_slot (mf_entries u ! i)) [0..<?n] @ map (\<lambda>i. init_entry_slot raw_entry_slot) [?n..<?c]"
  obtain v where v: "kfree (mf_entries_ptr u) (u\<lparr>mf_entries := ?new, mf_entries_ptr := p\<rparr>) = Some v"
    using heap.free_law [of "u\<lparr>mf_entries := ?new, mf_entries_ptr := p\<rparr>" "mf_entries_ptr u"] k(2) by auto
  show ?thesis
    unfolding grow_table_def Let_def k(1)
    by (cases "p = 0"; cases "mf_entries_ptr u = 0") (use v in \<open>auto\<close>)
qed

lemma memfs_free_slot:
  fixes s :: "'a memfs_state_scheme"
  assumes ok: "memfs_ok s"
  shows "\<exists>t slot. memfs_slot_for_new s = Some (t, slot) \<and> memfs_ok t \<and> memfs_content t = memfs_content s \<and> memfs_dir t = memfs_dir s \<and>
     (slot = None \<or> (\<exists>i. slot = Some (int i) \<and> i < length (mf_entries t) \<and> \<not> e_in_use (mf_entries t ! i)))"
proof (cases "first_index (\<lambda>e. \<not> e_in_use e) (mf_entries s)")
  case (Some i)
  then have "memfs_slot_for_new s = Some (s, Some (int i))" by (simp add: memfs_slot_for_new_def find_free_slot_def)
  then show ?thesis using first_index_SomeD(1,2) [OF Some] ok by auto
next
  case None
  then have free: "find_free_slot (mf_entries s) = -1" unfolding find_free_slot_def None by simp
  obtain t rc where g: "grow_table s = Some (t, rc)"
    using grow_table_total ok unfolding memfs_ok_def by blast
  have r: "memfs_slot_for_new s = Some (t, if rc \<noteq> 0 then None else Some (int (length (mf_entries s))))" by (simp add: memfs_slot_for_new_def free g)
  consider "rc = -1" "t = s" | k where "rc = 0" "memfs_ok t" "memfs_content t = memfs_content s" "0 < k"
      "mf_entries t = mf_entries s @ replicate k raw_entry_slot"
    using memfs_grow_table [OF ok g] by blast
  then show ?thesis
  proof cases
    case 1
    then show ?thesis using r ok by simp
  next
    case (2 k)
    have "memfs_dir t = memfs_dir s" by (rule memfs_dir_cong_append [OF ok 2(2,5)])
    moreover have "\<not> e_in_use (mf_entries t ! length (mf_entries s))" using 2(4,5) by (simp add: nth_append raw_entry_slot_def)
    ultimately show ?thesis using r 2 by auto
  qed
qed

lemma memfs_create_cases:
  fixes s :: "'a memfs_state_scheme"
  assumes ok: "memfs_ok s" and name: "length (cstr name) < MEMFS_NAME_MAX" and fresh: "memfs_dir s name = None"
  obtains (failed) t where "memfs_create name s = Some (t, -1)" "memfs_ok t" "memfs_content t = memfs_content s"
      "memfs_dir t = memfs_dir s"
  | (created) t i where "memfs_create name s = Some (t, int i)" "memfs_ok t" "memfs_content s (int i) = None"
      "memfs_content t = (memfs_content s)(int i \<mapsto> [])"
      "memfs_dir t = (\<lambda>n. if cstr n = cstr name then Some (int i) else memfs_dir s n)"
proof -
  have nf: "\<not> 0 \<le> find_slot name (mf_entries s)"
    using fresh find_slot_range [of name "mf_entries s"] by (auto simp: memfs_dir_def memfs_find_def split: if_splits)
  obtain u slot where u: "memfs_slot_for_new s = Some (u, slot)"
    "memfs_ok u" "memfs_content u = memfs_content s" "memfs_dir u = memfs_dir s"
    "slot = None \<or> (\<exists>i. slot = Some (int i) \<and> i < length (mf_entries u) \<and> \<not> e_in_use (mf_entries u ! i))"
    using memfs_free_slot [OF ok] by blast
  have hu: "heap_ok u" using u(2) by (simp add: memfs_ok_def)
  from u(5) show ?thesis
  proof
    assume "slot = None"
    then have "memfs_create name s = Some (u, -1)"
      using u(1) nf by (simp add: memfs_create_def)
    then show ?thesis by (rule failed [OF _ u(2-4)])
  next
    assume "\<exists>i. slot = Some (int i) \<and> i < length (mf_entries u) \<and> \<not> e_in_use (mf_entries u ! i)"
    then obtain i where i: "slot = Some (int i)" "i < length (mf_entries u)" "\<not> e_in_use (mf_entries u ! i)" by blast
    obtain v p where v: "kmalloc (ucast MEMFS_INITIAL_BUFFER_SIZE) u = Some (v, p)" "p = 0 \<longrightarrow> v = u"
      using heap.alloc_law [OF hu, of "ucast MEMFS_INITIAL_BUFFER_SIZE"] by auto
    let ?t = "upd_entry (int i) (\<lambda>e. e\<lparr>e_name := copy_name name, e_data := p, e_size := 0,
                         e_capacity := MEMFS_INITIAL_BUFFER_SIZE, e_in_use := True\<rparr>) v"
    have r: "memfs_create name s = Some (if p = 0 then (v, -1) else (?t, int i))"
      using u(1) i(1) v(1) nf by (simp add: memfs_create_def)
    show ?thesis
    proof (cases "p = 0")
      case True
      then show ?thesis using r v(2) failed [OF _ u(2-4)] by simp
    next
      case False
      have d: "memfs_dir u name = None" using fresh u(4) by simp
      note nw = memfs_new_file [OF u(2) i(2,3) name d v(1) False refl]
      show ?thesis
      proof (rule created)
        show "memfs_create name s = Some (?t, int i)" using r False by simp
        show "memfs_ok ?t" by (rule nw(1))
        have "memfs_content u (int i) = None" using i(3) by (simp add: memfs_content_def memfs_handle_ok_def)
        then show "memfs_content s (int i) = None" by (simp add: u(3))
        show "memfs_content ?t = (memfs_content s)(int i \<mapsto> [])" unfolding nw(2) u(3) by simp
        show "memfs_dir ?t = (\<lambda>n. if cstr n = cstr name then Some (int i) else memfs_dir s n)"
          unfolding u(4) [symmetric] by (rule memfs_dir_new [OF u(2) nw(1,3,4,5,6) i(3)])
      qed
    qed
  qed
qed

lemma memfs_delete_correct:
  fixes s :: "'a memfs_state_scheme"
  assumes ok: "memfs_ok s" and d: "memfs_dir s name = Some h"
  shows "\<exists>t. memfs_delete name s = Some (t, 0) \<and> memfs_ok t \<and> memfs_content t = (memfs_content s)(h := None) \<and>
     memfs_dir t = (\<lambda>n. if cstr n = cstr name then None else memfs_dir s n)"
proof -
  let ?es = "mf_entries s" and ?ptr = "mf_entries_ptr s" and ?e = "mf_entries s ! nat h"
  have hs: "heap_ok s" and inv: "memfs_inv ?es ?ptr (live s)" using ok by (simp_all add: memfs_ok_def)
  have h: "memfs_handle_ok h ?es" "e_name ?e = cstr name" using d memfs_dir_Some [OF ok] by auto
  have hl: "0 \<le> h" "nat h < length ?es" "e_in_use ?e" using h(1) by (auto simp: memfs_handle_ok_def)
  have slot: "find_slot name ?es = h" "h \<noteq> -1" using d by (auto simp: memfs_dir_def memfs_find_def split: if_splits)
  obtain v where v: "kfree (e_data ?e) s = Some v" "heap_ok v" "live v = {(q, n) \<in> live s. q \<noteq> e_data ?e}"
      "same_payloads (live v) (phys_mem s) (phys_mem v)"
    using heap.free_law [OF hs, of "e_data ?e"] by blast
  note kv = kfree_memfs [OF v(1)]
  let ?t = "upd_entry h init_entry_slot v"
  have et: "mf_entries ?t = ?es[nat h := init_entry_slot ?e]" by (simp add: kv)
  have off: "\<not> e_in_use (init_entry_slot ?e)" by (simp add: init_entry_slot_def)
  have dist: "e_data (?es ! i) \<noteq> e_data ?e \<and> e_name (?es ! i) \<noteq> e_name ?e" if "i < length ?es" "e_in_use (?es ! i)" "i \<noteq> nat h" for i
    using inv that hl unfolding memfs_inv_def by blast
  have "memfs_inv (?es[nat h := init_entry_slot ?e]) ?ptr (live s)" using off by (intro memfs_inv_upd [OF inv hl(2)]) auto
  then have "memfs_inv (?es[nat h := init_entry_slot ?e]) ?ptr (live v)"
  proof (rule memfs_inv_mono)
    fix i
    assume i: "i < length (?es[nat h := init_entry_slot ?e])" "e_in_use (?es[nat h := init_entry_slot ?e] ! i)"
    then have j: "i < length ?es" "i \<noteq> nat h" "e_in_use (?es ! i)" using off hl(2) by (cases "i = nat h"; simp)+
    then show "e_data (?es[nat h := init_entry_slot ?e] ! i) \<noteq> ?ptr" using inv by (auto simp: memfs_inv_def memfs_entry_ok_def)
    show "(e_data (?es[nat h := init_entry_slot ?e] ! i), n) \<in> live v"
      if "(e_data (?es[nat h := init_entry_slot ?e] ! i), n) \<in> live s" for n
      using that dist [OF j(1,3,2)] j(2) v(3) by auto
  qed (use inv memfs_inv_entry [OF inv h(1)] v(3) in \<open>auto simp: memfs_inv_def memfs_entry_ok_def\<close>)
  then have mt: "memfs_ok ?t" using v(2) by (simp add: memfs_ok_def kv)
  have "memfs_content ?t g = ((memfs_content s)(h := None)) g" for g
  proof (cases "g = h")
    case True
    then show ?thesis using off hl by (simp add: memfs_content_def memfs_handle_ok_def kv)
  next
    case ne: False
    show ?thesis
    proof (cases "memfs_handle_ok g ?es")
      case False
      then have "\<not> memfs_handle_ok g (?es[nat h := init_entry_slot ?e])"
        using ne hl(1) by (auto simp: memfs_handle_ok_def nth_list_update)
      then show ?thesis using False ne by (simp add: memfs_content_def kv)
    next
      case True
      then have g: "0 \<le> g" "nat g < length ?es" "e_in_use (?es ! nat g)" "nat g \<noteq> nat h" "memfs_handle_ok g ?es"
        using ne hl(1) by (auto simp: memfs_handle_ok_def)
      have "entry_bytes (phys_mem v) (?es ! nat g) = entry_bytes (phys_mem s) (?es ! nat g)"
        by (rule entry_bytes_cong [OF hs memfs_inv_entry [OF inv g(5)] _ _ v(4)]) (use v(3) dist [OF g(2,3,4)] in auto)
      then show ?thesis using ne g by (simp add: memfs_content_def memfs_handle_ok_def kv)
    qed
  qed
  moreover have "memfs_dir ?t n = (if cstr n = cstr name then None else memfs_dir s n)" for n
  proof -
    have "memfs_dir ?t n = Some g \<longleftrightarrow> cstr n \<noteq> cstr name \<and> memfs_dir s n = Some g" for g
      unfolding memfs_dir_Some [OF mt] memfs_dir_Some [OF ok] et memfs_handle_ok_def
      using off hl h(2) dist [of "nat g"] by (cases "nat g = nat h") (auto simp: nat_less_iff)
    then show ?thesis by (metis not_None_eq)
  qed
  ultimately show ?thesis using v(1) slot mt by (auto simp: memfs_delete_def)
qed


section \<open>Properties\<close>

text \<open>
  C26: A write to a file of the memory file system takes effect on that file only, and is read back.
  The call returns whenever the write ends at or below \<open>2^31\<close>; it fails with every file unchanged, or
  stores exactly the given bytes at the offset, keeps the rest of the file, and a read of the same
  range then returns the bytes. Every other file keeps its contents, also when the file has to move
  to a larger buffer.
\<close>

theorem memfs_write_read:
  assumes "memfs_ok s" and "memfs_content s h = Some c" and "unat off + length src \<le> 2 ^ 31" and "length src < 2 ^ 31"
  shows "\<exists>t r. memfs_write_at h off src (of_nat (length src)) s = Some (t, r) \<and> memfs_ok t \<and>
    (\<forall>g. g \<noteq> h \<longrightarrow> memfs_content t g = memfs_content s g) \<and>
    (r = -1 \<and> memfs_content t = memfs_content s \<or>
     r = int (length src) \<and> (\<exists>c'. memfs_content t h = Some c' \<and> written (unat off) src c c') \<and>
     memfs_read_at h off (of_nat (length src)) t = (int (length src), src))"
proof -
  let ?len = "of_nat (length src) :: u32"
  have l: "unat ?len = length src" using assms(4) by (simp add: unat_of_nat)
  have l31: "unat ?len < 2 ^ 31" using assms(4) l by simp
  have sum: "unat (off + ?len) = unat off + length src" using assms(3) l by (simp add: unat_word_ariths)
  have hh: "memfs_handle_ok h (mf_entries s)" using assms(2) by (auto simp: memfs_content_def split: if_splits)
  have "unat (off + ?len) \<le> 2 ^ 31" using sum assms(3) by simp
  then obtain u rc where u: "memfs_ensure_capacity h (off + ?len) s = Some (u, rc)"
    using memfs_ensure_capacity_total [OF assms(1) hh] by blast
  then obtain t r where w: "memfs_write_at h off src ?len s = Some (t, r)"
    using hh by (cases "off + ?len < off"; cases "rc = 0") (simp_all add: memfs_write_at_def Let_def)
  have "unat ?len \<le> length src" using l by simp
  with assms(1,2) show ?thesis
    using w
  proof (cases rule: memfs_write_at_cases)
    case failed
    then show ?thesis using w by (auto simp: memfs_same_files_def)
  next
    case (stored c')
    have wr: "written (unat off) src c c'" using stored(5) l by simp
    have read: "memfs_read_at h off ?len t = (int (min (unat ?len) (length c' - unat off)), take (unat ?len) (drop (unat off) c'))"
      by (rule memfs_read_at_content [OF stored(2,4) l31])
    have "take (length src) (drop (unat off) c') = src" "length src \<le> length c' - unat off"
      using wr by (auto simp: written_def slice_def)
    then have "memfs_read_at h off ?len t = (int (length src), src)" using read l by simp
    moreover have "r = int (length src)" using stored(1) sint_small [OF l31] l by simp
    ultimately show ?thesis using w stored(2,3,4) wr by blast
  qed
qed

text \<open>One file of two bytes with a buffer of 256 bytes, on a heap of one block.\<close>

definition memfs_example :: memfs_state where
  "memfs_example = pipe_state.extend (pipe_example\<lparr>bitmap := \<lambda>_. 0xFF, free_frames := 0, heap_head := 0x14000,
       phys_mem := set_blk_next 0x14000 0 (set_blk_free 0x14000 0 (set_blk_size 0x14000 4072 (\<lambda>_. 0)))\<rparr>)
     \<lparr>mf_entries = [\<lparr>e_name = [0x61], e_data = 0x14018, e_size = 2, e_capacity = 256, e_in_use = True\<rparr>,
        raw_entry_slot], mf_entries_ptr = 0\<rparr>"

lemma memfs_example_fields:
  "bitmap memfs_example = (\<lambda>_. 0xFF)" "free_frames memfs_example = 0" "heap_head memfs_example = 0x14000"
  "phys_mem memfs_example = set_blk_next 0x14000 0 (set_blk_free 0x14000 0 (set_blk_size 0x14000 4072 (\<lambda>_. 0)))"
  "mf_entries memfs_example = [\<lparr>e_name = [0x61], e_data = 0x14018, e_size = 2, e_capacity = 256, e_in_use = True\<rparr>,
        raw_entry_slot]" "mf_entries_ptr memfs_example = 0"
  by (simp_all add: memfs_example_def pipe_state.defs)

lemma memfs_example_heap: "heap_ok memfs_example" "live memfs_example = {(0x14018, 4072)}"
proof -
  let ?s = "\<lparr>phys_mem = \<lambda>_. 0, bitmap = \<lambda>_. 0xFF, total_frames = 3, free_frames = 0, search_hint = 16\<rparr> :: pmm_state"
  have "free_set ?s = {}" by (auto simp: free_set_def is_used_all_ones)
  moreover have "free_set memfs_example = free_set ?s" by (rule free_set_cong) (simp add: memfs_example_fields)
  ultimately have free: "free_set memfs_example = {}" by simp
  then have pmm: "pmm_ok memfs_example" by (simp add: pmm_ok_def pmm_inv_def memfs_example_fields)
  have rep: "heap_rep memfs_example [Block 0x14000 4072 False]"
    using pmm free by (simp add: heap_rep_def block_ok_def memfs_example_fields)
  then show "heap_ok memfs_example" by (auto simp: heap_ok_def)
  show "live memfs_example = {(0x14018, 4072)}" using live_rep [OF rep] by simp
qed

lemma memfs_example_ok: "memfs_ok memfs_example"
proof -
  have "memfs_entry_ok 0 {(0x14018, 4072)} \<lparr>e_name = [0x61], e_data = 0x14018, e_size = 2, e_capacity = 256, e_in_use = True\<rparr>"
    by (simp add: memfs_entry_ok_def cstr_def MEMFS_NAME_MAX_def)
  then show ?thesis
    using memfs_example_heap by (auto simp: memfs_ok_def memfs_inv_def memfs_example_fields less_Suc_eq raw_entry_slot_def)
qed

lemma memfs_example_content: "\<exists>c. memfs_content memfs_example 0 = Some c \<and> length c = 2"
  by (simp add: memfs_content_def memfs_handle_ok_def memfs_example_fields entry_bytes_def)

theorem memfs_write_read_witness:
  "\<exists>t. memfs_write_at 0 1 [7, 8, 9] 3 memfs_example = Some (t, 3) \<and> memfs_read_at 0 1 3 t = (3, [7, 8, 9])"
proof -
  obtain c where c: "memfs_content memfs_example 0 = Some c" using memfs_example_content by blast
  obtain t r where t: "memfs_write_at 0 1 [7, 8, 9] 3 memfs_example = Some (t, r)"
    "r = -1 \<or> r = 3 \<and> memfs_read_at 0 1 3 t = (3, [7, 8, 9])"
    using memfs_write_read [OF memfs_example_ok c, of 1 "[7, 8, 9]"] by auto
  moreover have "r \<noteq> -1"
    using t(1) sint_small [of 3] by (auto simp: memfs_write_at_def memfs_ensure_capacity_def memfs_handle_ok_def memfs_example_fields Let_def)
  ultimately show ?thesis by auto
qed

text \<open>
  Names of the memory file system behave as a finite map. For names that fit in the \<open>name\<close> array,
  \<open>memfs_create\<close> always returns: it refuses a name that exists and changes nothing; otherwise it
  fails with the files and names as they were, or adds exactly this name, leading to a new handle of
  an empty file (growing the table when it is full). \<open>memfs_delete\<close> removes exactly the name and its
  file, and refuses a name that does not exist.
\<close>

theorem memfs_names:
  assumes "memfs_ok s" and "length (cstr name) < MEMFS_NAME_MAX"
  shows "(memfs_dir s name \<noteq> None \<longrightarrow> memfs_create name s = Some (s, -1) \<and>
      (\<exists>t. memfs_delete name s = Some (t, 0) \<and> memfs_ok t \<and>
         memfs_content t = (memfs_content s)(the (memfs_dir s name) := None) \<and>
         memfs_dir t = (\<lambda>n. if cstr n = cstr name then None else memfs_dir s n))) \<and>
    (memfs_dir s name = None \<longrightarrow> memfs_delete name s = Some (s, -1) \<and>
      (\<exists>t r. memfs_create name s = Some (t, r) \<and> memfs_ok t \<and>
         (r = -1 \<and> memfs_content t = memfs_content s \<and> memfs_dir t = memfs_dir s \<or>
          0 \<le> r \<and> memfs_content s r = None \<and> memfs_content t = (memfs_content s)(r \<mapsto> []) \<and>
          memfs_dir t = (\<lambda>n. if cstr n = cstr name then Some r else memfs_dir s n))))"
proof (intro conjI impI)
  assume d: "memfs_dir s name \<noteq> None"
  then have "0 \<le> find_slot name (mf_entries s)"
    using find_slot_range [of name "mf_entries s"] by (auto simp: memfs_dir_def memfs_find_def split: if_splits)
  then show "memfs_create name s = Some (s, -1)" by (simp add: memfs_create_def)
  show "\<exists>t. memfs_delete name s = Some (t, 0) \<and> memfs_ok t \<and>
      memfs_content t = (memfs_content s)(the (memfs_dir s name) := None) \<and>
      memfs_dir t = (\<lambda>n. if cstr n = cstr name then None else memfs_dir s n)"
    using d memfs_delete_correct [OF assms(1)] by auto
next
  assume d: "memfs_dir s name = None"
  then show "memfs_delete name s = Some (s, -1)"
    by (simp add: memfs_delete_def memfs_dir_def memfs_find_def split: if_splits)
  show "\<exists>t r. memfs_create name s = Some (t, r) \<and> memfs_ok t \<and>
      (r = -1 \<and> memfs_content t = memfs_content s \<and> memfs_dir t = memfs_dir s \<or>
       0 \<le> r \<and> memfs_content s r = None \<and> memfs_content t = (memfs_content s)(r \<mapsto> []) \<and>
       memfs_dir t = (\<lambda>n. if cstr n = cstr name then Some r else memfs_dir s n))"
    using assms d
  proof (cases rule: memfs_create_cases)
    case (failed t)
    then show ?thesis by blast
  next
    case (created t i)
    then show ?thesis by (intro exI [of _ t] exI [of _ "int i"]) simp
  qed
qed

theorem memfs_names_witness:
  "memfs_create [0x61] memfs_example = Some (memfs_example, -1) \<and>
   (\<exists>t. memfs_delete [0x61] memfs_example = Some (t, 0) \<and> memfs_content t 0 = None)"
proof -
  have d: "memfs_dir memfs_example [0x61] = Some 0"
    by (simp add: memfs_dir_Some [OF memfs_example_ok] memfs_handle_ok_def memfs_example_fields cstr_def)
  have "length (cstr [0x61]) < MEMFS_NAME_MAX" by (simp add: cstr_def MEMFS_NAME_MAX_def)
  from memfs_names [OF memfs_example_ok this] d show ?thesis by auto
qed

text \<open>
  When \<open>memfs_write_at\<close> returns. A request that ends at or below \<open>2^31\<close> always returns; one that
  ends above it, and does not wrap, never does when the file's capacity is a power of two, as every
  capacity of the file system is: the doubled 32-bit capacity becomes 0 and the loop of
  \<open>ensure_capacity\<close> runs for ever.
\<close>

theorem memfs_write_termination:
  assumes "memfs_ok s" and "memfs_handle_ok h (mf_entries s)" and "e_capacity (mf_entries s ! nat h) = 2 ^ k"
    and "off \<le> off + len"
  shows "memfs_write_at h off src len s \<noteq> None \<longleftrightarrow> unat (off + len) \<le> 2 ^ 31"
proof
  assume "unat (off + len) \<le> 2 ^ 31"
  then obtain u rc where "memfs_ensure_capacity h (off + len) s = Some (u, rc)"
    using memfs_ensure_capacity_total [OF assms(1,2)] by blast
  then show "memfs_write_at h off src len s \<noteq> None"
    using assms(2) by (auto simp: memfs_write_at_def Let_def)
next
  assume "memfs_write_at h off src len s \<noteq> None"
  then obtain r where e: "memfs_ensure_capacity h (off + len) s = Some r"
    using assms(2,4) by (auto simp: memfs_write_at_def Let_def linorder_not_less [symmetric] split: bind_splits)
  have "0 < unat (2 ^ k :: u32)" using assms(1,3) memfs_inv_entry [OF _ assms(2)]
    by (auto simp: memfs_ok_def memfs_entry_ok_def unat_gt_0)
  moreover have "(2 ^ k :: u32) = 0" if "32 \<le> k" using that by (simp add: exp_eq_zero_iff)
  ultimately have "k < 32" by (metis linorder_not_less less_irrefl unsigned_0)
  then have "(2::nat) ^ k < 2 ^ LENGTH(32)" by (intro power_strict_increasing) simp_all
  then have "unat (of_nat (2 ^ k) :: u32) = 2 ^ k" by (simp only: unat_of_nat mod_less)
  moreover have "(2::nat) ^ k \<le> 2 ^ 31" using \<open>k < 32\<close> by (intro power_increasing) simp_all
  ultimately have cap: "unat (2 ^ k :: u32) \<le> 2 ^ 31" by simp
  show "unat (off + len) \<le> 2 ^ 31"
  proof (rule ccontr)
    assume big: "\<not> unat (off + len) \<le> 2 ^ 31"
    then have n: "\<not> off + len \<le> 2 ^ k" using cap by (auto simp: word_le_nat_alt)
    have "double_until (2 ^ Suc k) (off + len) = None" by (rule double_until_diverges) (use big in simp)
    then have "memfs_ensure_capacity h (off + len) s = None"
      using n assms(3) by (simp add: memfs_ensure_capacity_def Let_def mult.commute)
    then show False using e by simp
  qed
qed

theorem memfs_write_termination_witness:
  "memfs_write_at 0 0x80000000 [7] 1 memfs_example = None"
proof -
  have "memfs_handle_ok 0 (mf_entries memfs_example)" "e_capacity (mf_entries memfs_example ! nat 0) = 2 ^ 8"
    by (simp_all add: memfs_handle_ok_def memfs_example_fields)
  then have "memfs_write_at 0 0x80000000 [7] 1 memfs_example \<noteq> None \<longleftrightarrow> unat (0x80000000 + 1 :: u32) \<le> 2 ^ 31"
    by (rule memfs_write_termination [OF memfs_example_ok]) (simp add: word_le_nat_alt)
  then show ?thesis by (simp del: not_None_eq)
qed

end
