(* ===== verification/Ata.thy ===== *)
theory Ata
  imports Memfs
begin

text \<open>
  The disk driver (\<open>kernel/drivers/ata.c\<close>, \<open>kernel/include/kernel/io.h\<close>): sector reads and writes in
  PIO mode. The device behind the I/O ports is not code of the repository. It is a parameter of the
  model: a function from the history of port accesses to the value the next input reads, so the
  device may answer anything at any time. \<open>drive_ok\<close> is what the driver relies on, the documented
  behaviour of an ATA drive in 28-bit LBA mode: which bytes the data port transfers after which
  command, and that the status register reports readiness within the polls the driver makes. The
  driver's contract towards the file system is the locale \<open>block_device\<close>.
\<close>

section \<open>Port input and output (\<open>io.h\<close>)\<close>

datatype port_event = In8 u16 | In16 u16 | Out8 u16 u8 | Out16 u16 u16

record io_state = memfs_state +
  device :: "port_event list \<Rightarrow> u16 \<Rightarrow> u16"
  io_log :: "port_event list"

definition io_event :: "port_event \<Rightarrow> 'a io_state_scheme \<Rightarrow> 'a io_state_scheme" where
  "io_event e s = s\<lparr>io_log := io_log s @ [e]\<rparr>"

definition inb :: "u16 \<Rightarrow> 'a io_state_scheme \<Rightarrow> u8 \<times> 'a io_state_scheme" where
  "inb port s = (ucast (device s (io_log s) port), io_event (In8 port) s)"

definition inw :: "u16 \<Rightarrow> 'a io_state_scheme \<Rightarrow> u16 \<times> 'a io_state_scheme" where
  "inw port s = (device s (io_log s) port, io_event (In16 port) s)"

definition outb :: "u16 \<Rightarrow> u8 \<Rightarrow> 'a io_state_scheme \<Rightarrow> 'a io_state_scheme" where
  "outb port v s = io_event (Out8 port v) s"

definition outw :: "u16 \<Rightarrow> u16 \<Rightarrow> 'a io_state_scheme \<Rightarrow> 'a io_state_scheme" where
  "outw port v s = io_event (Out16 port v) s"

section \<open>The driver\<close>

definition ATA_DATA :: u16 where "ATA_DATA = 0x1F0"
definition ATA_SECCOUNT :: u16 where "ATA_SECCOUNT = 0x1F2"
definition ATA_LBA_LO :: u16 where "ATA_LBA_LO = 0x1F3"
definition ATA_LBA_MID :: u16 where "ATA_LBA_MID = 0x1F4"
definition ATA_LBA_HI :: u16 where "ATA_LBA_HI = 0x1F5"
definition ATA_DRIVE_HEAD :: u16 where "ATA_DRIVE_HEAD = 0x1F6"
definition ATA_STATUS :: u16 where "ATA_STATUS = 0x1F7"
definition ATA_COMMAND :: u16 where "ATA_COMMAND = 0x1F7"

definition ATA_SR_BSY :: u8 where "ATA_SR_BSY = 0x80"
definition ATA_SR_DRQ :: u8 where "ATA_SR_DRQ = 0x08"
definition ATA_SR_ERR :: u8 where "ATA_SR_ERR = 0x01"

definition ATA_CMD_READ_SECTORS :: u8 where "ATA_CMD_READ_SECTORS = 0x20"
definition ATA_CMD_WRITE_SECTORS :: u8 where "ATA_CMD_WRITE_SECTORS = 0x30"
definition ATA_CMD_CACHE_FLUSH :: u8 where "ATA_CMD_CACHE_FLUSH = 0xE7"

definition ATA_POLLS :: nat where "ATA_POLLS = 1000000"

fun ata_wait_ready_loop :: "nat \<Rightarrow> 'a io_state_scheme \<Rightarrow> int \<times> 'a io_state_scheme" where
  "ata_wait_ready_loop 0 s = (-1, s)"
| "ata_wait_ready_loop (Suc n) s =
    (let (status, s) = inb ATA_STATUS s in
     if status AND ATA_SR_ERR \<noteq> 0 then (-1, s)
     else if status AND ATA_SR_BSY = 0 \<and> status AND ATA_SR_DRQ \<noteq> 0 then (0, s)
     else ata_wait_ready_loop n s)"

definition ata_wait_ready :: "'a io_state_scheme \<Rightarrow> int \<times> 'a io_state_scheme" where
  "ata_wait_ready = ata_wait_ready_loop ATA_POLLS"

fun ata_wait_not_busy_loop :: "nat \<Rightarrow> 'a io_state_scheme \<Rightarrow> int \<times> 'a io_state_scheme" where
  "ata_wait_not_busy_loop 0 s = (-1, s)"
| "ata_wait_not_busy_loop (Suc n) s =
    (let (status, s) = inb ATA_STATUS s in
     if status AND ATA_SR_BSY = 0 then (0, s) else ata_wait_not_busy_loop n s)"

definition ata_wait_not_busy :: "'a io_state_scheme \<Rightarrow> int \<times> 'a io_state_scheme" where
  "ata_wait_not_busy = ata_wait_not_busy_loop ATA_POLLS"

text \<open>The six register writes that start a transfer, the same in both directions.\<close>

definition ata_start :: "u64 \<Rightarrow> u32 \<Rightarrow> u8 \<Rightarrow> 'a io_state_scheme \<Rightarrow> 'a io_state_scheme" where
  "ata_start lba count command s =
    (let s = outb ATA_DRIVE_HEAD (ucast (0xE0 OR (drop_bit 24 lba AND 0x0F))) s;
         s = outb ATA_SECCOUNT (if count = 256 then 0 else ucast count) s;
         s = outb ATA_LBA_LO (ucast (lba AND 0xFF)) s;
         s = outb ATA_LBA_MID (ucast (drop_bit 8 lba AND 0xFF)) s;
         s = outb ATA_LBA_HI (ucast (drop_bit 16 lba AND 0xFF)) s
     in outb ATA_COMMAND command s)"

text \<open>\<open>dst[k] = inw(ATA_DATA)\<close> for \<open>n\<close> words from word \<open>k\<close> on; the buffer is a list of bytes.\<close>

fun ata_get_words :: "nat \<Rightarrow> nat \<Rightarrow> u8 list \<Rightarrow> 'a io_state_scheme \<Rightarrow> u8 list \<times> 'a io_state_scheme" where
  "ata_get_words 0 k dst s = (dst, s)"
| "ata_get_words (Suc n) k dst s =
    (let (w, s) = inw ATA_DATA s
     in ata_get_words n (k + 1) (dst[2 * k := ucast w, 2 * k + 1 := ucast (drop_bit 8 w)]) s)"

fun ata_get_sectors :: "nat \<Rightarrow> nat \<Rightarrow> u8 list \<Rightarrow> 'a io_state_scheme \<Rightarrow> int \<times> u8 list \<times> 'a io_state_scheme" where
  "ata_get_sectors 0 k dst s = (0, dst, s)"
| "ata_get_sectors (Suc n) k dst s =
    (let (rc, s) = ata_wait_ready s in
     if rc \<noteq> 0 then (-1, dst, s)
     else let (dst, s) = ata_get_words 256 (k * 256) dst s in ata_get_sectors n (k + 1) dst s)"

definition ata_read_sectors :: "u64 \<Rightarrow> u32 \<Rightarrow> u8 list \<Rightarrow> 'a io_state_scheme \<Rightarrow> int \<times> u8 list \<times> 'a io_state_scheme" where
  "ata_read_sectors lba count buf s =
    (if count = 0 \<or> count > 256 then (-1, buf, s)
     else let (rc, s) = ata_wait_not_busy s in
     if rc \<noteq> 0 then (-1, buf, s)
     else ata_get_sectors (unat count) 0 buf (ata_start lba count ATA_CMD_READ_SECTORS s))"

fun ata_put_words :: "nat \<Rightarrow> nat \<Rightarrow> u8 list \<Rightarrow> 'a io_state_scheme \<Rightarrow> 'a io_state_scheme" where
  "ata_put_words 0 k src s = s"
| "ata_put_words (Suc n) k src s =
    ata_put_words n (k + 1) src
      (outw ATA_DATA (ucast (src ! (2 * k)) OR push_bit 8 (ucast (src ! (2 * k + 1)))) s)"

fun ata_put_sectors :: "nat \<Rightarrow> nat \<Rightarrow> u8 list \<Rightarrow> 'a io_state_scheme \<Rightarrow> int \<times> 'a io_state_scheme" where
  "ata_put_sectors 0 k src s = (0, s)"
| "ata_put_sectors (Suc n) k src s =
    (let (rc, s) = ata_wait_ready s in
     if rc \<noteq> 0 then (-1, s)
     else ata_put_sectors n (k + 1) src (ata_put_words 256 (k * 256) src s))"

definition ata_write_sectors :: "u64 \<Rightarrow> u32 \<Rightarrow> u8 list \<Rightarrow> 'a io_state_scheme \<Rightarrow> int \<times> 'a io_state_scheme" where
  "ata_write_sectors lba count buf s =
    (if count = 0 \<or> count > 256 then (-1, s)
     else let (rc, s) = ata_wait_not_busy s in
     if rc \<noteq> 0 then (-1, s)
     else let (rc, s) = ata_put_sectors (unat count) 0 buf (ata_start lba count ATA_CMD_WRITE_SECTORS s) in
     if rc \<noteq> 0 then (-1, s)
     else let (rc, s) = ata_wait_not_busy s in
     if rc \<noteq> 0 then (-1, s)
     else let (rc, s) = ata_wait_not_busy (outb ATA_COMMAND ATA_CMD_CACHE_FLUSH s) in
     if rc \<noteq> 0 then (-1, s) else (0, s))"

section \<open>What the driver relies on: an ATA drive in 28-bit LBA mode\<close>

text \<open>
  The drive's side of the protocol. A command is accepted when the drive is idle; a read then sends
  and a write receives the bytes of the addressed sectors, two per access to the data port, low byte
  first, and the drive is idle again after the last byte. Head bits 6 (LBA mode) and 4 (drive
  number) must select LBA mode on the first drive; sector count 0 stands for 256.
\<close>

datatype ata_phase = Idle | Sending nat nat "u8 list" | Receiving nat nat "u8 list"

record ata_drive =
  sectors :: "nat \<Rightarrow> u8 list"
  head_reg :: u8
  count_reg :: u8
  lo_reg :: u8
  mid_reg :: u8
  hi_reg :: u8
  phase :: ata_phase

definition drive_lba :: "ata_drive \<Rightarrow> nat" where
  "drive_lba d = unat (head_reg d AND 0x0F) * 2 ^ 24 + unat (hi_reg d) * 2 ^ 16 + unat (mid_reg d) * 2 ^ 8 + unat (lo_reg d)"

definition drive_count :: "ata_drive \<Rightarrow> nat" where
  "drive_count d = (if count_reg d = 0 then 256 else unat (count_reg d))"

definition drive_command :: "u8 \<Rightarrow> ata_drive \<Rightarrow> ata_drive" where
  "drive_command c d =
    (if phase d \<noteq> Idle \<or> \<not> bit (head_reg d) 6 \<or> bit (head_reg d) 4 then d
     else if c = 0x20 then d\<lparr>phase := Sending (drive_lba d) (drive_count d) (sectors d (drive_lba d))\<rparr>
     else if c = 0x30 then d\<lparr>phase := Receiving (drive_lba d) (drive_count d) []\<rparr>
     else d)"

definition drive_sent :: "ata_drive \<Rightarrow> ata_drive" where
  "drive_sent d = (case phase d of
     Sending l n bs \<Rightarrow>
       let rest = drop 2 bs in
       if rest \<noteq> [] then d\<lparr>phase := Sending l n rest\<rparr>
       else if n \<le> 1 then d\<lparr>phase := Idle\<rparr>
       else d\<lparr>phase := Sending (l + 1) (n - 1) (sectors d (l + 1))\<rparr>
   | _ \<Rightarrow> d)"

definition drive_received :: "u16 \<Rightarrow> ata_drive \<Rightarrow> ata_drive" where
  "drive_received w d = (case phase d of
     Receiving l n bs \<Rightarrow>
       let got = bs @ [ucast w, ucast (drop_bit 8 w)] in
       if length got < 512 then d\<lparr>phase := Receiving l n got\<rparr>
       else d\<lparr>sectors := (sectors d)(l := got), phase := (if n \<le> 1 then Idle else Receiving (l + 1) (n - 1) [])\<rparr>
   | _ \<Rightarrow> d)"

fun drive_step :: "port_event \<Rightarrow> ata_drive \<Rightarrow> ata_drive" where
  "drive_step (In8 p) d = d"
| "drive_step (In16 p) d = (if p = 0x1F0 then drive_sent d else d)"
| "drive_step (Out16 p w) d = (if p = 0x1F0 then drive_received w d else d)"
| "drive_step (Out8 p v) d =
    (if p = 0x1F2 then d\<lparr>count_reg := v\<rparr> else if p = 0x1F3 then d\<lparr>lo_reg := v\<rparr>
     else if p = 0x1F4 then d\<lparr>mid_reg := v\<rparr> else if p = 0x1F5 then d\<lparr>hi_reg := v\<rparr>
     else if p = 0x1F6 then d\<lparr>head_reg := v\<rparr> else if p = 0x1F7 then drive_command v d else d)"

text \<open>
  The answers of the device, at a history that left the drive in \<open>d\<close>: the data port reads the next
  two bytes of a sector being sent; an idle drive stops being busy, and a drive that has a sector
  below \<open>cap\<close> to transfer gets ready for it without an error, each within \<open>ATA_POLLS\<close> status reads.
\<close>

definition status_after :: "(port_event list \<Rightarrow> u16 \<Rightarrow> u16) \<Rightarrow> port_event list \<Rightarrow> nat \<Rightarrow> u8" where
  "status_after dev log k = ucast (dev (log @ replicate k (In8 0x1F7)) 0x1F7)"

definition answers :: "nat \<Rightarrow> (port_event list \<Rightarrow> u16 \<Rightarrow> u16) \<Rightarrow> port_event list \<Rightarrow> ata_drive \<Rightarrow> bool" where
  "answers cap dev log d = (case phase d of
     Idle \<Rightarrow> \<exists>k<ATA_POLLS. \<not> bit (status_after dev log k) 7
   | Sending l n bs \<Rightarrow>
       (2 \<le> length bs \<longrightarrow> dev log 0x1F0 = ucast (bs ! 0) OR push_bit 8 (ucast (bs ! 1))) \<and>
       (l < cap \<longrightarrow> (\<exists>k<ATA_POLLS. \<not> bit (status_after dev log k) 7 \<and> bit (status_after dev log k) 3 \<and>
          (\<forall>j\<le>k. \<not> bit (status_after dev log j) 0)))
   | Receiving l n bs \<Rightarrow>
       l < cap \<longrightarrow> (\<exists>k<ATA_POLLS. \<not> bit (status_after dev log k) 7 \<and> bit (status_after dev log k) 3 \<and>
          (\<forall>j\<le>k. \<not> bit (status_after dev log j) 0)))"

definition drive_ok :: "nat \<Rightarrow> 'a io_state_scheme \<Rightarrow> ata_drive \<Rightarrow> bool" where
  "drive_ok cap s d \<longleftrightarrow> (\<forall>ext. answers cap (device s) (io_log s @ ext) (fold drive_step ext d))"

text \<open>The disk as the file system sees it: an idle drive of \<open>cap\<close> sectors holding \<open>sec\<close>.\<close>

definition disk :: "nat \<Rightarrow> 'a io_state_scheme \<Rightarrow> (nat \<Rightarrow> u8 list) \<Rightarrow> bool" where
  "disk cap s sec \<longleftrightarrow> (\<exists>d. drive_ok cap s d \<and> phase d = Idle \<and> sectors d = sec) \<and> (\<forall>l. length (sec l) = 512) \<and> cap \<le> 2 ^ 28"

section \<open>Histories of port accesses\<close>

text \<open>Port accesses change the history only.\<close>

definition io_frame :: "'a io_state_scheme \<Rightarrow> 'a io_state_scheme \<Rightarrow> bool" where
  "io_frame s t \<longleftrightarrow> t = s\<lparr>io_log := io_log t\<rparr>"

lemma io_frame_refl [simp]: "io_frame s s"
  by (simp add: io_frame_def)

lemma io_frame_trans: "io_frame s t \<Longrightarrow> io_frame t u \<Longrightarrow> io_frame s u"
  unfolding io_frame_def by (cases s; cases t; cases u) simp

lemma io_frame_event [simp]: "io_frame s (io_event e s)"
  by (simp add: io_frame_def io_event_def)

lemma io_frame_log [simp]: "io_frame s (s\<lparr>io_log := L\<rparr>)"
  by (simp add: io_frame_def)

lemma drive_ok_run:
  assumes "drive_ok cap s d"
  shows "drive_ok cap (s\<lparr>io_log := io_log s @ es\<rparr>) (fold drive_step es d)"
  unfolding drive_ok_def
proof
  fix ext
  have "answers cap (device s) (io_log s @ (es @ ext)) (fold drive_step (es @ ext) d)"
    using assms unfolding drive_ok_def by blast
  then show "answers cap (device (s\<lparr>io_log := io_log s @ es\<rparr>)) (io_log (s\<lparr>io_log := io_log s @ es\<rparr>) @ ext)
      (fold drive_step ext (fold drive_step es d))" by simp
qed

lemma drive_ok_event: "drive_ok cap s d \<Longrightarrow> drive_ok cap (io_event e s) (drive_step e d)"
  using drive_ok_run [of cap s d "[e]"] by (simp add: io_event_def)

lemma drive_ok_answers: "drive_ok cap s d \<Longrightarrow> answers cap (device s) (io_log s) d"
  unfolding drive_ok_def by (metis append_Nil2 fold_simps(1) id_apply)

lemma drive_polls [simp]: "(drive_step (In8 p) ^^ k) d = d"
  by (induction k) simp_all

section \<open>Polling the status register\<close>

lemma status_after_Suc: "status_after (device s) (io_log s) (Suc k) = status_after (device s) (io_log s @ [In8 ATA_STATUS]) k"
  by (simp add: status_after_def ATA_STATUS_def replicate_append_same [symmetric])

lemma status_bits:
  "(v AND ATA_SR_ERR = 0) = (\<not> bit v 0)" "(v AND ATA_SR_BSY = 0) = (\<not> bit v 7)" "(v AND ATA_SR_DRQ = 0) = (\<not> bit v 3)"
  using and_exp_eq_0 [of v 0] and_exp_eq_0 [of v 7] and_exp_eq_0 [of v 3]
  by (simp_all add: ATA_SR_ERR_def ATA_SR_BSY_def ATA_SR_DRQ_def)

lemma status_read: "inb ATA_STATUS s = (status_after (device s) (io_log s) 0, io_event (In8 ATA_STATUS) s)"
  by (simp add: inb_def status_after_def ATA_STATUS_def)

lemma ata_wait_ready_loop_done:
  assumes "k < n" and "\<not> bit (status_after (device s) (io_log s) k) 7" and "bit (status_after (device s) (io_log s) k) 3"
    and "\<forall>j\<le>k. \<not> bit (status_after (device s) (io_log s) j) 0"
  shows "\<exists>m. ata_wait_ready_loop n s = (0, s\<lparr>io_log := io_log s @ replicate m (In8 ATA_STATUS)\<rparr>)"
  using assms
proof (induction n arbitrary: k s)
  case 0
  then show ?case by simp
next
  case (Suc n)
  let ?st = "status_after (device s) (io_log s) 0"
  have err: "\<not> bit ?st 0" using Suc.prems(4) by blast
  show ?case
  proof (cases "\<not> bit ?st 7 \<and> bit ?st 3")
    case True
    then have "ata_wait_ready_loop (Suc n) s = (0, s\<lparr>io_log := io_log s @ replicate 1 (In8 ATA_STATUS)\<rparr>)"
      using err by (simp add: status_read status_bits io_event_def)
    then show ?thesis by blast
  next
    case False
    then obtain k' where k: "k = Suc k'" using Suc.prems(2,3) by (cases k) auto
    let ?s = "io_event (In8 ATA_STATUS) s"
    have step: "status_after (device ?s) (io_log ?s) j = status_after (device s) (io_log s) (Suc j)" for j
      by (simp add: io_event_def status_after_Suc)
    have "\<exists>m. ata_wait_ready_loop n ?s = (0, ?s\<lparr>io_log := io_log ?s @ replicate m (In8 ATA_STATUS)\<rparr>)"
      by (rule Suc.IH [of k']) (use Suc.prems k in \<open>auto simp: step\<close>)
    then obtain m where "ata_wait_ready_loop n ?s = (0, ?s\<lparr>io_log := io_log ?s @ replicate m (In8 ATA_STATUS)\<rparr>)" ..
    then have "ata_wait_ready_loop (Suc n) s = (0, s\<lparr>io_log := io_log s @ replicate (Suc m) (In8 ATA_STATUS)\<rparr>)"
      using False err by (auto simp: status_read status_bits io_event_def)
    then show ?thesis by blast
  qed
qed

lemma ata_wait_not_busy_loop_done:
  assumes "k < n" and "\<not> bit (status_after (device s) (io_log s) k) 7"
  shows "\<exists>m. ata_wait_not_busy_loop n s = (0, s\<lparr>io_log := io_log s @ replicate m (In8 ATA_STATUS)\<rparr>)"
  using assms
proof (induction n arbitrary: k s)
  case 0
  then show ?case by simp
next
  case (Suc n)
  let ?st = "status_after (device s) (io_log s) 0"
  show ?case
  proof (cases "bit ?st 7")
    case False
    then have "ata_wait_not_busy_loop (Suc n) s = (0, s\<lparr>io_log := io_log s @ replicate 1 (In8 ATA_STATUS)\<rparr>)"
      by (simp add: status_read status_bits io_event_def)
    then show ?thesis by blast
  next
    case True
    then obtain k' where k: "k = Suc k'" using Suc.prems(2) by (cases k) auto
    let ?s = "io_event (In8 ATA_STATUS) s"
    have "status_after (device ?s) (io_log ?s) k' = status_after (device s) (io_log s) k"
      by (simp add: io_event_def status_after_Suc k)
    then have "\<exists>m. ata_wait_not_busy_loop n ?s = (0, ?s\<lparr>io_log := io_log ?s @ replicate m (In8 ATA_STATUS)\<rparr>)"
      by (intro Suc.IH [of k']) (use Suc.prems k in auto)
    then obtain m where "ata_wait_not_busy_loop n ?s = (0, ?s\<lparr>io_log := io_log ?s @ replicate m (In8 ATA_STATUS)\<rparr>)" ..
    then have "ata_wait_not_busy_loop (Suc n) s = (0, s\<lparr>io_log := io_log s @ replicate (Suc m) (In8 ATA_STATUS)\<rparr>)"
      using True by (simp add: status_read status_bits io_event_def)
    then show ?thesis by blast
  qed
qed

lemma ata_wait_not_busy_ok:
  assumes "drive_ok cap s d" and "phase d = Idle"
  obtains t where "ata_wait_not_busy s = (0, t)" "drive_ok cap t d" "io_frame s t"
proof -
  obtain k where k: "k < ATA_POLLS" "\<not> bit (status_after (device s) (io_log s) k) 7"
    using drive_ok_answers [OF assms(1)] assms(2) by (auto simp: answers_def)
  obtain m where m: "ata_wait_not_busy_loop ATA_POLLS s = (0, s\<lparr>io_log := io_log s @ replicate m (In8 ATA_STATUS)\<rparr>)"
    using ata_wait_not_busy_loop_done [OF k] by blast
  show thesis
    by (rule that [OF m [folded ata_wait_not_busy_def]])
      (use drive_ok_run [OF assms(1), of "replicate m (In8 ATA_STATUS)"] in simp_all)
qed

lemma ata_wait_ready_ok:
  assumes "drive_ok cap s d" and "phase d = Sending l n bs \<or> phase d = Receiving l n bs" and "l < cap"
  obtains t where "ata_wait_ready s = (0, t)" "drive_ok cap t d" "io_frame s t"
proof -
  obtain k where k: "k < ATA_POLLS" "\<not> bit (status_after (device s) (io_log s) k) 7"
      "bit (status_after (device s) (io_log s) k) 3" "\<forall>j\<le>k. \<not> bit (status_after (device s) (io_log s) j) 0"
    using drive_ok_answers [OF assms(1)] assms(2,3) by (auto simp: answers_def)
  obtain m where m: "ata_wait_ready_loop ATA_POLLS s = (0, s\<lparr>io_log := io_log s @ replicate m (In8 ATA_STATUS)\<rparr>)"
    using ata_wait_ready_loop_done [OF k] by blast
  show thesis
    by (rule that [OF m [folded ata_wait_ready_def]])
      (use drive_ok_run [OF assms(1), of "replicate m (In8 ATA_STATUS)"] in simp_all)
qed

section \<open>The data phase\<close>

lemma overwrite_append:
  "off + length a + length b \<le> length buf \<Longrightarrow> overwrite (off + length a) b (overwrite off a buf) = overwrite off (a @ b) buf"
  by (rule nth_equalityI) (auto simp: nth_overwrite nth_append)

lemma overwrite_Nil [simp]: "overwrite off [] buf = buf"
  by (simp add: overwrite_def)

lemma store_word: "i + 1 < length buf \<Longrightarrow> buf[i := a, i + 1 := b] = overwrite i [a, b] buf"
  by (rule nth_equalityI) (auto simp: nth_overwrite nth_list_update)

text \<open>The drive's phase at a sector boundary with \<open>n\<close> sectors left.\<close>

definition sending :: "nat \<Rightarrow> nat \<Rightarrow> ata_drive \<Rightarrow> ata_drive" where
  "sending l n d = d\<lparr>phase := (if n = 0 then Idle else Sending l n (sectors d l))\<rparr>"

definition receiving :: "nat \<Rightarrow> nat \<Rightarrow> ata_drive \<Rightarrow> ata_drive" where
  "receiving l n d = d\<lparr>phase := (if n = 0 then Idle else Receiving l n [])\<rparr>"

lemma word_of_bytes:
  "ucast ((ucast a :: u16) OR push_bit 8 (ucast b)) = a" "ucast (drop_bit 8 ((ucast a :: u16) OR push_bit 8 (ucast b))) = b"
  for a b :: u8
  by (rule bit_word_eqI; auto simp: bit_simps dest: bit_imp_le_length)+

lemma ata_get_words_ok:
  assumes "drive_ok cap s (d\<lparr>phase := Sending l (Suc n) bs\<rparr>)" and "length bs = 2 * m" and "0 < m" and "2 * k + 2 * m \<le> length dst"
  shows "\<exists>t. ata_get_words m k dst s = (overwrite (2 * k) bs dst, t) \<and> drive_ok cap t (sending (l + 1) n d) \<and> io_frame s t"
  using assms
proof (induction m arbitrary: k bs dst s)
  case 0
  then show ?case by simp
next
  case (Suc m)
  obtain b0 b1 rest where bs: "bs = b0 # b1 # rest" and len: "length rest = 2 * m"
    using Suc.prems(2) by (cases bs; cases "tl bs") auto
  let ?t = "io_event (In16 ATA_DATA) s" and ?dst = "overwrite (2 * k) [b0, b1] dst"
  have w: "inw ATA_DATA s = (ucast b0 OR push_bit 8 (ucast b1), ?t)"
    using drive_ok_answers [OF Suc.prems(1)] by (simp add: inw_def answers_def bs ATA_DATA_def)
  have step: "ata_get_words (Suc m) k dst s = ata_get_words m (k + 1) ?dst ?t"
    unfolding ata_get_words.simps w Let_def prod.case word_of_bytes
    using Suc.prems(4) store_word [of "2 * k" dst b0 b1] by simp
  have ok: "drive_ok cap ?t (drive_sent (d\<lparr>phase := Sending l (Suc n) bs\<rparr>))"
    using drive_ok_event [OF Suc.prems(1), of "In16 ATA_DATA"] by (simp add: ATA_DATA_def)
  show ?case
  proof (cases "m = 0")
    case True
    then have "drive_sent (d\<lparr>phase := Sending l (Suc n) bs\<rparr>) = sending (l + 1) n d"
      using len by (simp add: drive_sent_def bs sending_def)
    then show ?thesis using ok step True len bs by simp
  next
    case False
    then have "drive_sent (d\<lparr>phase := Sending l (Suc n) bs\<rparr>) = d\<lparr>phase := Sending l (Suc n) rest\<rparr>"
      using len by (auto simp: drive_sent_def bs)
    then have "drive_ok cap ?t (d\<lparr>phase := Sending l (Suc n) rest\<rparr>)" using ok by simp
    then obtain t where t: "ata_get_words m (k + 1) ?dst ?t = (overwrite (2 * (k + 1)) rest ?dst, t)"
        "drive_ok cap t (sending (l + 1) n d)" "io_frame ?t t"
      using Suc.IH [of ?t rest "k + 1" ?dst] len False Suc.prems(4) by auto
    have "overwrite (2 * (k + 1)) rest ?dst = overwrite (2 * k) bs dst"
      using overwrite_append [of "2 * k" "[b0, b1]" rest dst] Suc.prems(4) len by (simp add: bs)
    then show ?thesis using t step io_frame_trans [OF io_frame_event t(3)] by auto
  qed
qed

definition disk_bytes :: "(nat \<Rightarrow> u8 list) \<Rightarrow> nat \<Rightarrow> nat \<Rightarrow> u8 list" where
  "disk_bytes sec l n = concat (map sec [l..<l + n])"

lemma disk_bytes_0 [simp]: "disk_bytes sec l 0 = []"
  by (simp add: disk_bytes_def)

lemma disk_bytes_1 [simp]: "disk_bytes sec l (Suc 0) = sec l"
  by (simp add: disk_bytes_def)

lemma disk_bytes_Suc: "disk_bytes sec l (Suc n) = sec l @ disk_bytes sec (l + 1) n"
  using upt_conv_Cons [of l "l + Suc n"] by (simp add: disk_bytes_def del: upt_Suc)

lemma disk_bytes_add: "disk_bytes sec l (m + n) = disk_bytes sec l m @ disk_bytes sec (l + m) n"
  using upt_add_eq_append [of l "l + m" n] by (simp add: disk_bytes_def add.assoc)

lemma length_disk_bytes: "(\<And>l. length (sec l) = 512) \<Longrightarrow> length (disk_bytes sec l n) = 512 * n"
  by (induction n arbitrary: l) (simp_all add: disk_bytes_Suc)

lemma ata_get_sectors_ok:
  assumes "drive_ok cap s (sending l n d)" and "\<And>l. length (sectors d l) = 512" and "l + n \<le> cap"
    and "512 * (k + n) \<le> length dst"
  shows "\<exists>t. ata_get_sectors n k dst s = (0, overwrite (512 * k) (disk_bytes (sectors d) l n) dst, t) \<and>
    drive_ok cap t (d\<lparr>phase := Idle\<rparr>) \<and> io_frame s t"
  using assms
proof (induction n arbitrary: l k dst s)
  case 0
  then show ?case by (simp add: sending_def)
next
  case (Suc n)
  have ok: "drive_ok cap s (d\<lparr>phase := Sending l (Suc n) (sectors d l)\<rparr>)" using Suc.prems(1) by (simp add: sending_def)
  obtain s1 where s1: "ata_wait_ready s = (0, s1)" "drive_ok cap s1 (d\<lparr>phase := Sending l (Suc n) (sectors d l)\<rparr>)" "io_frame s s1"
    by (rule ata_wait_ready_ok [OF ok]) (use Suc.prems(3) in auto)
  let ?dst = "overwrite (512 * k) (sectors d l) dst"
  have "\<exists>t. ata_get_words 256 (k * 256) dst s1 = (overwrite (2 * (k * 256)) (sectors d l) dst, t) \<and>
      drive_ok cap t (sending (l + 1) n d) \<and> io_frame s1 t"
    by (rule ata_get_words_ok [OF s1(2)]) (use Suc.prems(2,4) in auto)
  then obtain s2 where s2: "ata_get_words 256 (k * 256) dst s1 = (?dst, s2)"
      "drive_ok cap s2 (sending (l + 1) n d)" "io_frame s1 s2" by (auto simp: mult.commute)
  have "\<exists>t. ata_get_sectors n (k + 1) ?dst s2 = (0, overwrite (512 * (k + 1)) (disk_bytes (sectors d) (l + 1) n) ?dst, t) \<and>
      drive_ok cap t (d\<lparr>phase := Idle\<rparr>) \<and> io_frame s2 t"
    by (rule Suc.IH [OF s2(2)]) (use Suc.prems in auto)
  then obtain t where t: "ata_get_sectors n (k + 1) ?dst s2 = (0, overwrite (512 * (k + 1)) (disk_bytes (sectors d) (l + 1) n) ?dst, t)"
      "drive_ok cap t (d\<lparr>phase := Idle\<rparr>)" "io_frame s2 t" by blast
  have "overwrite (512 * (k + 1)) (disk_bytes (sectors d) (l + 1) n) ?dst = overwrite (512 * k) (disk_bytes (sectors d) l (Suc n)) dst"
    using overwrite_append [of "512 * k" "sectors d l" "disk_bytes (sectors d) (l + 1) n" dst] Suc.prems(2,4)
    by (simp add: disk_bytes_Suc length_disk_bytes algebra_simps)
  then show ?case using t s1(1) s2(1) io_frame_trans [OF s1(3) io_frame_trans [OF s2(3) t(3)]] by (auto simp: Let_def)
qed

lemma bytes_of_word:
  "ucast ((ucast a :: u16) OR push_bit 8 (ucast b)) = a" for a b :: u8
  by (rule word_of_bytes)

text \<open>The write direction: \<open>done\<close> are the bytes of the current sector the drive already has.\<close>

lemma ata_put_words_ok:
  assumes "drive_ok cap s (d\<lparr>phase := Receiving l (Suc n) bs\<rparr>)" and "length bs + 2 * m = 512" and "0 < m"
    and "2 * k + 2 * m \<le> length src"
  shows "drive_ok cap (ata_put_words m k src s)
      (receiving (l + 1) n (d\<lparr>sectors := (sectors d)(l := bs @ slice (2 * k) (2 * m) src)\<rparr>)) \<and>
    io_frame s (ata_put_words m k src s)"
  using assms
proof (induction m arbitrary: k bs s)
  case 0
  then show ?case by simp
next
  case (Suc m)
  let ?b0 = "src ! (2 * k)" and ?b1 = "src ! (2 * k + 1)"
  let ?w = "(ucast ?b0 :: u16) OR push_bit 8 (ucast ?b1)"
  let ?t = "io_event (Out16 ATA_DATA ?w) s"
  have step: "ata_put_words (Suc m) k src s = ata_put_words m (k + 1) src ?t"
    by (simp add: outw_def)
  have ok: "drive_ok cap ?t (drive_received ?w (d\<lparr>phase := Receiving l (Suc n) bs\<rparr>))"
    using drive_ok_event [OF Suc.prems(1), of "Out16 ATA_DATA ?w"] by (simp add: ATA_DATA_def)
  have rcv: "drive_received ?w (d\<lparr>phase := Receiving l (Suc n) bs\<rparr>) =
      (if length bs + 2 < 512 then d\<lparr>phase := Receiving l (Suc n) (bs @ [?b0, ?b1])\<rparr>
       else receiving (l + 1) n (d\<lparr>sectors := (sectors d)(l := bs @ [?b0, ?b1])\<rparr>))"
    unfolding drive_received_def Let_def word_of_bytes by (auto simp: receiving_def)
  have src: "[?b0, ?b1] @ slice (2 * (k + 1)) (2 * m) src = slice (2 * k) (2 * Suc m) src"
    using Suc.prems(4) by (simp add: slice_def Cons_nth_drop_Suc [symmetric])
  show ?case
  proof (cases "m = 0")
    case True
    then show ?thesis using ok step rcv Suc.prems(2) src by (simp add: slice_def fun_upd_def)
  next
    case False
    then have ok': "drive_ok cap ?t (d\<lparr>phase := Receiving l (Suc n) (bs @ [?b0, ?b1])\<rparr>)"
      using ok rcv Suc.prems(2) by simp
    have ih: "drive_ok cap (ata_put_words m (k + 1) src ?t) (receiving (l + 1) n
        (d\<lparr>sectors := (sectors d)(l := (bs @ [?b0, ?b1]) @ slice (2 * (k + 1)) (2 * m) src)\<rparr>)) \<and>
      io_frame ?t (ata_put_words m (k + 1) src ?t)"
      by (rule Suc.IH [OF ok']) (use False Suc.prems(2,4) in auto)
    show ?thesis
      unfolding step using ih [unfolded append_assoc src] io_frame_trans [OF io_frame_event] by blast
  qed
qed

text \<open>The sectors after \<open>n\<close> of them were written from \<open>l\<close> on.\<close>

definition put_sectors :: "nat \<Rightarrow> nat \<Rightarrow> nat \<Rightarrow> u8 list \<Rightarrow> (nat \<Rightarrow> u8 list) \<Rightarrow> nat \<Rightarrow> u8 list" where
  "put_sectors l n k src sec i = (if l \<le> i \<and> i < l + n then slice (512 * (k + (i - l))) 512 src else sec i)"

lemma put_sectors_0 [simp]: "put_sectors l 0 k src sec = sec"
  by (rule ext) (auto simp: put_sectors_def)

lemma put_sectors_Suc:
  "put_sectors (l + 1) n (k + 1) src (sec(l := slice (512 * k) 512 src)) = put_sectors l (Suc n) k src sec"
  by (rule ext) (auto simp: put_sectors_def Suc_le_eq dest!: less_imp_Suc_add)

lemma ata_put_sectors_ok:
  assumes "drive_ok cap s (receiving l n d)" and "l + n \<le> cap" and "512 * (k + n) \<le> length src"
  shows "\<exists>t. ata_put_sectors n k src s = (0, t) \<and>
    drive_ok cap t (d\<lparr>sectors := put_sectors l n k src (sectors d), phase := Idle\<rparr>) \<and> io_frame s t"
  using assms
proof (induction n arbitrary: l k s d)
  case 0
  then show ?case by (simp add: receiving_def)
next
  case (Suc n)
  have ok: "drive_ok cap s (d\<lparr>phase := Receiving l (Suc n) []\<rparr>)" using Suc.prems(1) by (simp add: receiving_def)
  obtain s1 where s1: "ata_wait_ready s = (0, s1)" "drive_ok cap s1 (d\<lparr>phase := Receiving l (Suc n) []\<rparr>)" "io_frame s s1"
    by (rule ata_wait_ready_ok [OF ok]) (use Suc.prems(2) in auto)
  let ?d = "d\<lparr>sectors := (sectors d)(l := slice (512 * k) 512 src)\<rparr>" and ?s2 = "ata_put_words 256 (k * 256) src s1"
  have s2: "drive_ok cap ?s2 (receiving (l + 1) n ?d)" "io_frame s1 ?s2"
    using ata_put_words_ok [OF s1(2), of 256 "k * 256" src] Suc.prems(3) by (simp_all add: mult.commute)
  have "\<exists>t. ata_put_sectors n (k + 1) src ?s2 = (0, t) \<and>
      drive_ok cap t (?d\<lparr>sectors := put_sectors (l + 1) n (k + 1) src (sectors ?d), phase := Idle\<rparr>) \<and> io_frame ?s2 t"
    by (rule Suc.IH [OF s2(1)]) (use Suc.prems in auto)
  then obtain t where t: "ata_put_sectors n (k + 1) src ?s2 = (0, t)"
      "drive_ok cap t (?d\<lparr>sectors := put_sectors (l + 1) n (k + 1) src (sectors ?d), phase := Idle\<rparr>)" "io_frame ?s2 t"
    by blast
  have "drive_ok cap t (d\<lparr>sectors := put_sectors l (Suc n) k src (sectors d), phase := Idle\<rparr>)"
    using t(2) put_sectors_Suc [of l n k src "sectors d"] by simp
  then show ?case using t(1) s1(1) io_frame_trans [OF s1(3) io_frame_trans [OF s2(2) t(3)]] by (auto simp: Let_def)
qed

section \<open>The command phase\<close>

lemma lba_registers:
  fixes lba :: u64
  assumes "unat lba < 2 ^ 28"
  shows "unat ((ucast (0xE0 OR (drop_bit 24 lba AND 0x0F)) :: u8) AND 0x0F) = unat lba div 2 ^ 24"
    and "unat (ucast (drop_bit 16 lba AND 0xFF) :: u8) = unat lba div 2 ^ 16 mod 256"
    and "unat (ucast (drop_bit 8 lba AND 0xFF) :: u8) = unat lba div 2 ^ 8 mod 256"
    and "unat (ucast (lba AND 0xFF) :: u8) = unat lba mod 256"
proof -
  have m: "(0xFF :: u64) = mask 8" "(0x0F :: u64) = mask 4" "(0x0F :: u8) = mask 4" by (simp_all add: mask_eq_exp_minus_1)
  have low: "unat (ucast (w AND 0xFF) :: u8) = unat w mod 256" for w :: u64
    by (simp add: m unsigned_ucast_eq unat_and_mask take_bit_eq_mod)
  show "unat (ucast (drop_bit 16 lba AND 0xFF) :: u8) = unat lba div 2 ^ 16 mod 256"
    "unat (ucast (drop_bit 8 lba AND 0xFF) :: u8) = unat lba div 2 ^ 8 mod 256"
    "unat (ucast (lba AND 0xFF) :: u8) = unat lba mod 256"
    by (simp_all only: low) (simp_all add: unat_drop_bit_eq drop_bit_eq_div unat_div_distrib)
  have low4: "\<not> bit (0xE0 :: u64) n" if "n < 4" for n
  proof -
    have "n = 0 \<or> n = 1 \<or> n = 2 \<or> n = 3" using that by arith
    then show ?thesis by (auto simp: bit_numeral_rec)
  qed
  have "(ucast (0xE0 OR (drop_bit 24 lba AND 0x0F)) :: u8) AND 0x0F = ucast (drop_bit 24 lba) AND 0x0F"
    using low4 by (intro bit_word_eqI) (auto simp: m bit_simps)
  then have "unat ((ucast (0xE0 OR (drop_bit 24 lba AND 0x0F)) :: u8) AND 0x0F) = unat lba div 2 ^ 24 mod 256 mod 16"
    by (simp add: m unat_and_mask unsigned_ucast_eq unat_drop_bit_eq drop_bit_eq_div unat_div_distrib take_bit_eq_mod)
  then show "unat ((ucast (0xE0 OR (drop_bit 24 lba AND 0x0F)) :: u8) AND 0x0F) = unat lba div 2 ^ 24"
    using assms by (simp add: less_mult_imp_div_less)
qed

lemma head_bits:
  "bit (ucast (0xE0 OR (drop_bit 24 lba AND 0x0F)) :: u8) 6" "\<not> bit (ucast (0xE0 OR (drop_bit 24 lba AND 0x0F)) :: u8) 4"
  for lba :: u64
  by (simp_all add: bit_simps bit_numeral_rec)

lemma digits_256: "n div 2 ^ 24 * 2 ^ 24 + n div 2 ^ 16 mod 256 * 2 ^ 16 + n div 2 ^ 8 mod 256 * 2 ^ 8 + n mod 256 = n" for n :: nat
proof -
  have d: "n div 2 ^ 24 = n div 256 div 256 div 256" "n div 2 ^ 16 = n div 256 div 256" "n div 2 ^ 8 = n div 256"
    by (simp_all add: div_mult2_eq [symmetric])
  have step: "m div 256 * 256 + m mod 256 = m" for m :: nat by simp
  have "a * 2 ^ 24 + b * 2 ^ 16 + c * 2 ^ 8 + e = ((a * 256 + b) * 256 + c) * 256 + e" for a b c e :: nat
    by simp
  then show ?thesis unfolding d step by (simp only: step)
qed

lemma ata_start_ok:
  assumes "drive_ok cap s d" and "phase d = Idle" and "unat lba < 2 ^ 28" and "0 < count" and "count \<le> 256"
  shows "\<exists>d'. drive_ok cap (ata_start lba count ATA_CMD_READ_SECTORS s) (sending (unat lba) (unat count) d') \<and>
      sectors d' = sectors d"
    and "\<exists>d'. drive_ok cap (ata_start lba count ATA_CMD_WRITE_SECTORS s) (receiving (unat lba) (unat count) d') \<and>
      sectors d' = sectors d"
    and "io_frame s (ata_start lba count c s)"
proof -
  let ?head = "ucast (0xE0 OR (drop_bit 24 lba AND 0x0F)) :: u8" and ?cnt = "if count = 256 then 0 else ucast count :: u8"
  let ?d = "d\<lparr>head_reg := ?head, count_reg := ?cnt, lo_reg := ucast (lba AND 0xFF),
      mid_reg := ucast (drop_bit 8 lba AND 0xFF), hi_reg := ucast (drop_bit 16 lba AND 0xFF)\<rparr>"
  have lba: "drive_lba ?d = unat lba"
    unfolding drive_lba_def using lba_registers [OF assms(3)] digits_256 [of "unat lba"] by simp
  have cnt: "drive_count ?d = unat count"
  proof (cases "count = 256")
    case True
    then show ?thesis by (simp add: drive_count_def)
  next
    case False
    have "unat count \<noteq> 256" using False by (simp add: word_unat_eq_iff)
    then have small: "unat count < 256" using assms(5) by (simp add: word_le_nat_alt)
    have pos: "unat count \<noteq> 0" using assms(4) by (simp add: unat_eq_0)
    have u: "unat (ucast count :: u8) = unat count" using small by (simp add: unsigned_ucast_eq take_bit_eq_mod)
    then have "(ucast count :: u8) \<noteq> 0" using pos by (metis unsigned_0)
    then show ?thesis using False u by (simp add: drive_count_def)
  qed
  have run: "drive_ok cap (ata_start lba count c s) (drive_command c ?d)" for c
    unfolding ata_start_def Let_def outb_def
    using drive_ok_event [OF drive_ok_event [OF drive_ok_event [OF drive_ok_event [OF drive_ok_event [OF drive_ok_event [OF assms(1),
        of "Out8 ATA_DRIVE_HEAD ?head"], of "Out8 ATA_SECCOUNT ?cnt"], of "Out8 ATA_LBA_LO (ucast (lba AND 0xFF))"],
        of "Out8 ATA_LBA_MID (ucast (drop_bit 8 lba AND 0xFF))"], of "Out8 ATA_LBA_HI (ucast (drop_bit 16 lba AND 0xFF))"],
        of "Out8 ATA_COMMAND c"]
    by (simp add: ATA_DRIVE_HEAD_def ATA_SECCOUNT_def ATA_LBA_LO_def ATA_LBA_MID_def ATA_LBA_HI_def ATA_COMMAND_def)
  have pos: "unat count \<noteq> 0" using assms(4) by (simp add: unat_eq_0)
  have "drive_command ATA_CMD_READ_SECTORS ?d = sending (unat lba) (unat count) ?d"
    "drive_command ATA_CMD_WRITE_SECTORS ?d = receiving (unat lba) (unat count) ?d"
    unfolding drive_command_def lba cnt using assms(2) head_bits pos
    by (simp_all add: ATA_CMD_READ_SECTORS_def ATA_CMD_WRITE_SECTORS_def sending_def receiving_def)
  then show "\<exists>d'. drive_ok cap (ata_start lba count ATA_CMD_READ_SECTORS s) (sending (unat lba) (unat count) d') \<and> sectors d' = sectors d"
    "\<exists>d'. drive_ok cap (ata_start lba count ATA_CMD_WRITE_SECTORS s) (receiving (unat lba) (unat count) d') \<and> sectors d' = sectors d"
    using run [of ATA_CMD_READ_SECTORS] run [of ATA_CMD_WRITE_SECTORS] by (simp_all only:) (rule exI [of _ ?d]; simp)+
  show "io_frame s (ata_start lba count c s)"
    by (simp add: ata_start_def Let_def outb_def io_frame_def io_event_def)
qed

section \<open>Transfers\<close>

lemma disk_sector_length: "disk cap s sec \<Longrightarrow> length (sec l) = 512"
  by (simp add: disk_def)

lemma ata_read_sectors_ok:
  assumes "disk cap s sec" and "0 < count" and "count \<le> 256" and "unat lba + unat count \<le> cap"
    and "512 * unat count \<le> length buf"
  obtains t where "ata_read_sectors lba count buf s = (0, overwrite 0 (disk_bytes sec (unat lba) (unat count)) buf, t)"
    "disk cap t sec" "io_frame s t"
proof -
  obtain d where d: "drive_ok cap s d" "phase d = Idle" "sectors d = sec" using assms(1) by (auto simp: disk_def)
  have len: "\<And>l. length (sec l) = 512" and cap: "cap \<le> 2 ^ 28" using assms(1) by (simp_all add: disk_def)
  have pos: "unat count \<noteq> 0" using assms(2) by (simp add: unat_eq_0)
  obtain s1 where s1: "ata_wait_not_busy s = (0, s1)" "drive_ok cap s1 d" "io_frame s s1"
    by (rule ata_wait_not_busy_ok [OF d(1,2)])
  have lba: "unat lba < 2 ^ 28" using assms(4) cap pos by linarith
  obtain d' where d': "drive_ok cap (ata_start lba count ATA_CMD_READ_SECTORS s1) (sending (unat lba) (unat count) d')"
      "sectors d' = sec" using ata_start_ok(1) [OF s1(2) d(2) lba assms(2,3)] d(3) by auto
  obtain t where t: "ata_get_sectors (unat count) 0 buf (ata_start lba count ATA_CMD_READ_SECTORS s1) =
      (0, overwrite (512 * 0) (disk_bytes (sectors d') (unat lba) (unat count)) buf, t)"
      "drive_ok cap t (d'\<lparr>phase := Idle\<rparr>)" "io_frame (ata_start lba count ATA_CMD_READ_SECTORS s1) t"
    using ata_get_sectors_ok [OF d'(1), where k = 0 and dst = buf] d'(2) len assms(4,5) by auto
  have "io_frame s t"
    by (rule io_frame_trans [OF s1(3) io_frame_trans [OF ata_start_ok(3) t(3)]]) (use s1 d assms lba in auto)
  moreover have "disk cap t sec" using t(2) d'(2) len cap by (auto simp: disk_def)
  moreover have "ata_read_sectors lba count buf s = (0, overwrite 0 (disk_bytes sec (unat lba) (unat count)) buf, t)"
    using s1(1) t(1) d'(2) assms(2,3) by (auto simp: ata_read_sectors_def Let_def)
  ultimately show thesis using that by blast
qed

lemma ata_write_sectors_ok:
  assumes "disk cap s sec" and "0 < count" and "count \<le> 256" and "unat lba + unat count \<le> cap"
    and "512 * unat count \<le> length buf"
  obtains t where "ata_write_sectors lba count buf s = (0, t)"
    "disk cap t (put_sectors (unat lba) (unat count) 0 buf sec)" "io_frame s t"
proof -
  obtain d where d: "drive_ok cap s d" "phase d = Idle" "sectors d = sec" using assms(1) by (auto simp: disk_def)
  have len: "\<And>l. length (sec l) = 512" and cap: "cap \<le> 2 ^ 28" using assms(1) by (simp_all add: disk_def)
  have pos: "unat count \<noteq> 0" using assms(2) by (simp add: unat_eq_0)
  obtain s1 where s1: "ata_wait_not_busy s = (0, s1)" "drive_ok cap s1 d" "io_frame s s1"
    by (rule ata_wait_not_busy_ok [OF d(1,2)])
  have lba: "unat lba < 2 ^ 28" using assms(4) cap pos by linarith
  let ?s2 = "ata_start lba count ATA_CMD_WRITE_SECTORS s1" and ?sec = "put_sectors (unat lba) (unat count) 0 buf sec"
  obtain d' where d': "drive_ok cap ?s2 (receiving (unat lba) (unat count) d')" "sectors d' = sec"
    using ata_start_ok(2) [OF s1(2) d(2) lba assms(2,3)] d(3) by auto
  have f2: "io_frame s1 ?s2" by (rule ata_start_ok(3) [OF s1(2) d(2) lba assms(2,3)])
  obtain s3 where s3: "ata_put_sectors (unat count) 0 buf ?s2 = (0, s3)"
      "drive_ok cap s3 (d'\<lparr>sectors := ?sec, phase := Idle\<rparr>)" "io_frame ?s2 s3"
    using ata_put_sectors_ok [OF d'(1), where k = 0 and src = buf] d'(2) assms(4,5) by auto
  let ?d = "d'\<lparr>sectors := ?sec, phase := Idle\<rparr>"
  obtain s4 where s4: "ata_wait_not_busy s3 = (0, s4)" "drive_ok cap s4 ?d" "io_frame s3 s4"
    by (rule ata_wait_not_busy_ok [OF s3(2)]) auto
  let ?s5 = "outb ATA_COMMAND ATA_CMD_CACHE_FLUSH s4"
  have "drive_ok cap ?s5 (drive_command ATA_CMD_CACHE_FLUSH ?d)"
    using drive_ok_event [OF s4(2), of "Out8 ATA_COMMAND ATA_CMD_CACHE_FLUSH"] by (simp add: outb_def ATA_COMMAND_def)
  moreover have "drive_command ATA_CMD_CACHE_FLUSH ?d = ?d" by (simp add: drive_command_def ATA_CMD_CACHE_FLUSH_def)
  ultimately have s5: "drive_ok cap ?s5 ?d" by (simp only:)
  obtain t where t: "ata_wait_not_busy ?s5 = (0, t)" "drive_ok cap t ?d" "io_frame ?s5 t"
    by (rule ata_wait_not_busy_ok [OF s5]) auto
  have "io_frame s4 ?s5" by (simp add: outb_def)
  then have "io_frame s t"
    using io_frame_trans [OF s1(3) io_frame_trans [OF f2 io_frame_trans [OF s3(3) io_frame_trans [OF s4(3) io_frame_trans]]]] t(3)
    by blast
  moreover have "length (?sec l) = 512" for l
    using len assms(5) by (auto simp: put_sectors_def length_slice)
  then have "disk cap t ?sec" using t(2) cap by (auto simp: disk_def)
  moreover have "ata_write_sectors lba count buf s = (0, t)"
    using s1(1) s3(1) s4(1) t(1) assms(2,3) by (auto simp: ata_write_sectors_def Let_def)
  ultimately show thesis using that by blast
qed

text \<open>What a transfer leaves alone, whatever the device answers.\<close>

lemma ata_wait_frame: "io_frame s (snd (ata_wait_ready_loop n s))" "io_frame s (snd (ata_wait_not_busy_loop n s))"
  by (induction n arbitrary: s) (auto simp: inb_def Let_def intro: io_frame_trans [OF io_frame_event])

lemma ata_get_words_frame: "io_frame s (snd (ata_get_words n k dst s))"
  by (induction n arbitrary: k dst s) (auto simp: inw_def Let_def intro: io_frame_trans [OF io_frame_event])

lemma ata_put_words_frame: "io_frame s (ata_put_words n k src s)"
proof (induction n arbitrary: k s)
  case (Suc n)
  show ?case unfolding ata_put_words.simps outw_def by (rule io_frame_trans [OF io_frame_event Suc])
qed simp

lemma length_ata_get_words [simp]: "length (fst (ata_get_words n k dst s)) = length dst"
  by (induction n arbitrary: k dst s) (auto simp: inw_def Let_def)

lemma ata_get_sectors_any:
  assumes "ata_get_sectors n k dst s = (rc, buf, t)"
  shows "(rc = 0 \<or> rc = -1) \<and> length buf = length dst \<and> io_frame s t"
  using assms
proof (induction n arbitrary: k dst s)
  case (Suc n)
  obtain r s1 where w: "ata_wait_ready s = (r, s1)" by fastforce
  have f1: "io_frame s s1" using ata_wait_frame(1) [of s ATA_POLLS] w by (simp add: ata_wait_ready_def)
  show ?case
  proof (cases "r = 0")
    case True
    obtain dst' s2 where g: "ata_get_words 256 (k * 256) dst s1 = (dst', s2)" by fastforce
    have "io_frame s1 s2" "length dst' = length dst"
      using ata_get_words_frame [of s1 256 "k * 256" dst] length_ata_get_words [of 256 "k * 256" dst s1] g by simp_all
    moreover have "(rc = 0 \<or> rc = -1) \<and> length buf = length dst' \<and> io_frame s2 t"
      by (rule Suc.IH [of "k + 1"]) (use Suc.prems w g True in \<open>simp add: Let_def\<close>)
    ultimately show ?thesis using io_frame_trans [OF f1 io_frame_trans] by auto
  qed (use Suc.prems w f1 in \<open>auto simp: Let_def\<close>)
qed simp

lemma ata_put_sectors_any:
  assumes "ata_put_sectors n k src s = (rc, t)"
  shows "(rc = 0 \<or> rc = -1) \<and> io_frame s t"
  using assms
proof (induction n arbitrary: k s)
  case (Suc n)
  obtain r s1 where w: "ata_wait_ready s = (r, s1)" by fastforce
  have f1: "io_frame s s1" using ata_wait_frame(1) [of s ATA_POLLS] w by (simp add: ata_wait_ready_def)
  show ?case
  proof (cases "r = 0")
    case True
    have "(rc = 0 \<or> rc = -1) \<and> io_frame (ata_put_words 256 (k * 256) src s1) t"
      by (rule Suc.IH [of "k + 1"]) (use Suc.prems w True in \<open>simp add: Let_def\<close>)
    then show ?thesis
      using io_frame_trans [OF f1 io_frame_trans [OF ata_put_words_frame [of s1 256 "k * 256" src]]] by blast
  qed (use Suc.prems w f1 in \<open>auto simp: Let_def\<close>)
qed simp

lemma ata_start_frame: "io_frame s (ata_start lba count c s)"
  by (simp add: ata_start_def Let_def outb_def io_frame_def io_event_def)

lemma ata_wait_not_busy_frame: "ata_wait_not_busy s = (rc, t) \<Longrightarrow> io_frame s t"
  using ata_wait_frame(2) [of s ATA_POLLS] by (simp add: ata_wait_not_busy_def)

lemma ata_read_sectors_any:
  assumes "ata_read_sectors lba count buf s = (rc, buf', t)"
  shows "(rc = 0 \<or> rc = -1) \<and> length buf' = length buf \<and> io_frame s t"
proof (cases "count = 0 \<or> count > 256")
  case False
  obtain r s1 where w: "ata_wait_not_busy s = (r, s1)" by fastforce
  note f1 = ata_wait_not_busy_frame [OF w]
  show ?thesis
  proof (cases "r = 0")
    case True
    then have "ata_get_sectors (unat count) 0 buf (ata_start lba count ATA_CMD_READ_SECTORS s1) = (rc, buf', t)"
      using assms False w by (auto simp: ata_read_sectors_def Let_def)
    from ata_get_sectors_any [OF this] show ?thesis
      using io_frame_trans [OF f1 io_frame_trans [OF ata_start_frame]] by blast
  qed (use assms False w f1 in \<open>auto simp: ata_read_sectors_def Let_def\<close>)
qed (use assms in \<open>auto simp: ata_read_sectors_def\<close>)

lemma ata_write_sectors_any:
  assumes "ata_write_sectors lba count buf s = (rc, t)"
  shows "(rc = 0 \<or> rc = -1) \<and> io_frame s t"
proof (cases "count = 0 \<or> count > 256")
  case False
  obtain r s1 where w: "ata_wait_not_busy s = (r, s1)" by fastforce
  obtain r2 s2 where p: "ata_put_sectors (unat count) 0 buf (ata_start lba count ATA_CMD_WRITE_SECTORS s1) = (r2, s2)" by fastforce
  obtain r3 s3 where w3: "ata_wait_not_busy s2 = (r3, s3)" by fastforce
  obtain r4 s4 where w4: "ata_wait_not_busy (outb ATA_COMMAND ATA_CMD_CACHE_FLUSH s3) = (r4, s4)" by fastforce
  note f1 = ata_wait_not_busy_frame [OF w]
  have f2: "io_frame s s2" using ata_put_sectors_any [OF p] io_frame_trans [OF f1 io_frame_trans [OF ata_start_frame]] by blast
  have f3: "io_frame s s3" by (rule io_frame_trans [OF f2 ata_wait_not_busy_frame [OF w3]])
  have f4: "io_frame s s4"
    by (rule io_frame_trans [OF f3 io_frame_trans [OF _ ata_wait_not_busy_frame [OF w4]]]) (simp add: outb_def)
  show ?thesis
    using assms False w p w3 w4 f1 f2 f3 f4 by (simp add: ata_write_sectors_def Let_def split: if_splits)
qed (use assms in \<open>auto simp: ata_write_sectors_def\<close>)

text \<open>The bytes on disk after a write.\<close>

lemma disk_bytes_cong: "(\<And>i. l \<le> i \<Longrightarrow> i < l + n \<Longrightarrow> sec i = sec' i) \<Longrightarrow> disk_bytes sec l n = disk_bytes sec' l n"
  by (auto simp: disk_bytes_def intro!: arg_cong [where f = concat])

lemma disk_bytes_put_sectors_gen:
  "512 * (k + n) \<le> length src \<Longrightarrow> disk_bytes (put_sectors l n k src sec) l n = slice (512 * k) (512 * n) src"
proof (induction n arbitrary: k l sec)
  case 0
  then show ?case by (simp add: slice_def)
next
  case (Suc n)
  have "put_sectors l (Suc n) k src sec l = slice (512 * k) 512 src" by (simp add: put_sectors_def)
  moreover have "disk_bytes (put_sectors l (Suc n) k src sec) (l + 1) n = slice (512 * (k + 1)) (512 * n) src"
    using Suc.IH [of "k + 1" "l + 1"] Suc.prems by (simp add: put_sectors_Suc [symmetric])
  moreover have "slice (512 * k) 512 src @ slice (512 * (k + 1)) (512 * n) src = slice (512 * k) (512 * Suc n) src"
    using take_add [of 512 "512 * n" "drop (512 * k) src"] by (simp add: slice_def algebra_simps)
  ultimately show ?case by (simp add: disk_bytes_Suc)
qed

lemma disk_bytes_put_sectors: "length src = 512 * n \<Longrightarrow> disk_bytes (put_sectors l n 0 src sec) l n = src"
  using disk_bytes_put_sectors_gen [of 0 n src l sec] by (simp add: slice_def)

lemma disk_bytes_put_sectors_other:
  "l' + n' \<le> l \<or> l + n \<le> l' \<Longrightarrow> disk_bytes (put_sectors l n k src sec) l' n' = disk_bytes sec l' n'"
  by (rule disk_bytes_cong) (auto simp: put_sectors_def)

section \<open>The contract towards the file system\<close>

text \<open>
  A block device of \<open>cap\<close> sectors: \<open>dev s sec\<close> says that it holds the sectors \<open>sec\<close>, a read in range
  returns them and a write in range replaces them. \<open>keep s t\<close> says that only the device moved.
\<close>

locale block_device =
  fixes dev :: "'s \<Rightarrow> (nat \<Rightarrow> u8 list) \<Rightarrow> bool" and cap :: nat and keep :: "'s \<Rightarrow> 's \<Rightarrow> bool"
    and rd :: "u64 \<Rightarrow> u32 \<Rightarrow> u8 list \<Rightarrow> 's \<Rightarrow> int \<times> u8 list \<times> 's"
    and wr :: "u64 \<Rightarrow> u32 \<Rightarrow> u8 list \<Rightarrow> 's \<Rightarrow> int \<times> 's"
  assumes dev_length: "dev s sec \<Longrightarrow> length (sec i) = 512"
    and rd_law: "dev s sec \<Longrightarrow> 0 < n \<Longrightarrow> n \<le> 256 \<Longrightarrow> unat l + unat n \<le> cap \<Longrightarrow> 512 * unat n \<le> length buf \<Longrightarrow>
      \<exists>t. rd l n buf s = (0, overwrite 0 (disk_bytes sec (unat l) (unat n)) buf, t) \<and> dev t sec \<and> keep s t"
    and wr_law: "dev s sec \<Longrightarrow> 0 < n \<Longrightarrow> n \<le> 256 \<Longrightarrow> unat l + unat n \<le> cap \<Longrightarrow> 512 * unat n \<le> length buf \<Longrightarrow>
      \<exists>t. wr l n buf s = (0, t) \<and> dev t (put_sectors (unat l) (unat n) 0 buf sec) \<and> keep s t"
begin

lemma put_sectors_length:
  "dev s sec \<Longrightarrow> 512 * n \<le> length buf \<Longrightarrow> length (put_sectors l n 0 buf sec i) = 512"
  using dev_length [of s sec i] by (auto simp: put_sectors_def length_slice)

text \<open>What was written is read back.\<close>

lemma write_read:
  assumes "dev s sec" and "0 < n" and "n \<le> 256" and "unat l + unat n \<le> cap" and "length src = 512 * unat n"
    and "length buf = 512 * unat n"
  shows "\<exists>t u. wr l n src s = (0, t) \<and> rd l n buf t = (0, src, u)"
proof -
  obtain t where t: "wr l n src s = (0, t)" "dev t (put_sectors (unat l) (unat n) 0 src sec)"
    using wr_law [OF assms(1-4), of src] assms(5) by auto
  obtain u where u: "rd l n buf t = (0, overwrite 0 (disk_bytes (put_sectors (unat l) (unat n) 0 src sec) (unat l) (unat n)) buf, u)"
    using rd_law [OF t(2) assms(2-4), of buf] assms(6) by auto
  have "disk_bytes (put_sectors (unat l) (unat n) 0 src sec) (unat l) (unat n) = src"
    using assms(5) by (simp add: disk_bytes_put_sectors)
  then show ?thesis using t(1) u assms(5,6) by (simp add: overwrite_all)
qed

text \<open>One sector: the access pattern of byte-wise file operations.\<close>

lemma read_one:
  assumes "dev s sec" and "unat l < cap" and "length buf = 512"
  obtains t where "rd l 1 buf s = (0, sec (unat l), t)" "dev t sec" "keep s t"
  using rd_law [OF assms(1), of 1 l buf] assms(2,3) dev_length [OF assms(1)] by (auto simp: overwrite_all)

lemma write_one:
  assumes "dev s sec" and "unat l < cap" and "length buf = 512"
  obtains t where "wr l 1 buf s = (0, t)" "dev t (sec(unat l := buf))" "keep s t"
proof -
  have "put_sectors (unat l) 1 0 buf sec = sec(unat l := buf)"
    using assms(3) by (auto simp: put_sectors_def slice_def fun_eq_iff)
  then show thesis using that wr_law [OF assms(1), of 1 l buf] assms(2,3) by auto
qed

end

interpretation ata: block_device "disk cap" cap io_frame ata_read_sectors ata_write_sectors for cap
proof
  fix s :: "'a io_state_scheme" and sec :: "nat \<Rightarrow> u8 list" and l :: u64 and n :: u32 and buf :: "u8 list"
  assume d: "disk cap s sec" "0 < n" "n \<le> 256" "unat l + unat n \<le> cap" "512 * unat n \<le> length buf"
  show "\<exists>t. ata_read_sectors l n buf s = (0, overwrite 0 (disk_bytes sec (unat l) (unat n)) buf, t) \<and> disk cap t sec \<and> io_frame s t"
    by (rule ata_read_sectors_ok [OF d]) blast
  show "\<exists>t. ata_write_sectors l n buf s = (0, t) \<and> disk cap t (put_sectors (unat l) (unat n) 0 buf sec) \<and> io_frame s t"
    by (rule ata_write_sectors_ok [OF d]) blast
qed (rule disk_sector_length)

section \<open>The bytes on the disk\<close>

text \<open>What a read of one sector returns now; on a working drive, the sector.\<close>

definition disk_image :: "'a io_state_scheme \<Rightarrow> nat \<Rightarrow> u8 list" where
  "disk_image s l = fst (snd (ata_read_sectors (of_nat l) 1 (replicate 512 0) s))"

lemma disk_image: "disk cap s sec \<Longrightarrow> l < cap \<Longrightarrow> disk_image s l = sec l"
proof -
  assume d: "disk cap s sec" and l: "l < cap"
  then have "l < 2 ^ LENGTH(64)" using d by (simp add: disk_def)
  then have u: "unat (of_nat l :: u64) = l" by (simp only: unat_of_nat mod_less)
  obtain t where "ata_read_sectors (of_nat l) 1 (replicate 512 0) s = (0, sec (unat (of_nat l :: u64)), t)"
    using ata.read_one [OF d, of "of_nat l" "replicate 512 0"] u l by auto
  then show "disk_image s l = sec l" using u by (simp add: disk_image_def)
qed

definition disk_ok :: "nat \<Rightarrow> 'a io_state_scheme \<Rightarrow> bool" where
  "disk_ok cap s \<longleftrightarrow> (\<exists>sec. disk cap s sec)"

lemma disk_image_length: "disk_ok cap s \<Longrightarrow> l < cap \<Longrightarrow> length (disk_image s l) = 512"
  using disk_image disk_sector_length by (metis disk_ok_def)

lemma disk_bytes_image: "disk cap s sec \<Longrightarrow> l + n \<le> cap \<Longrightarrow> disk_bytes (disk_image s) l n = disk_bytes sec l n"
  by (rule disk_bytes_cong) (simp add: disk_image)

lemma length_disk_bytes_image: "disk_ok cap s \<Longrightarrow> l + n \<le> cap \<Longrightarrow> length (disk_bytes (disk_image s) l n) = 512 * n"
  by (metis disk_bytes_image disk_ok_def disk_sector_length length_disk_bytes)

text \<open>The driver's contract over \<open>disk_image\<close>. Only the first \<open>cap\<close> sectors matter.\<close>

definition same_disk :: "nat \<Rightarrow> 'a io_state_scheme \<Rightarrow> 'a io_state_scheme \<Rightarrow> bool" where
  "same_disk cap s t \<longleftrightarrow> (\<forall>l<cap. disk_image t l = disk_image s l)"

lemma same_disk_refl [simp]: "same_disk cap s s"
  by (simp add: same_disk_def)

lemma same_disk_trans: "same_disk cap s t \<Longrightarrow> same_disk cap t u \<Longrightarrow> same_disk cap s u"
  by (simp add: same_disk_def)

lemma same_disk_bytes: "same_disk cap s t \<Longrightarrow> l + n \<le> cap \<Longrightarrow> disk_bytes (disk_image t) l n = disk_bytes (disk_image s) l n"
  by (rule disk_bytes_cong) (simp add: same_disk_def)

lemma disk_read:
  assumes "disk_ok cap s" and "0 < count" and "count \<le> 256" and "unat lba + unat count \<le> cap" and "512 * unat count \<le> length buf"
  obtains t where "ata_read_sectors lba count buf s = (0, overwrite 0 (disk_bytes (disk_image s) (unat lba) (unat count)) buf, t)"
    "disk_ok cap t" "io_frame s t" "same_disk cap s t"
proof -
  obtain sec where sec: "disk cap s sec" using assms(1) by (auto simp: disk_ok_def)
  obtain t where t: "ata_read_sectors lba count buf s = (0, overwrite 0 (disk_bytes sec (unat lba) (unat count)) buf, t)"
      "disk cap t sec" "io_frame s t" using ata.rd_law [OF sec assms(2-5)] by auto
  show thesis
    by (rule that [OF _ _ t(3)])
      (use t sec assms(4) in \<open>auto simp: disk_bytes_image disk_ok_def same_disk_def disk_image\<close>)
qed

lemma disk_write:
  assumes "disk_ok cap s" and "0 < count" and "count \<le> 256" and "unat lba + unat count \<le> cap" and "512 * unat count \<le> length buf"
  obtains t where "ata_write_sectors lba count buf s = (0, t)" "disk_ok cap t" "io_frame s t"
    "\<And>l. l < cap \<Longrightarrow> disk_image t l = put_sectors (unat lba) (unat count) 0 buf (disk_image s) l"
proof -
  obtain sec where sec: "disk cap s sec" using assms(1) by (auto simp: disk_ok_def)
  obtain t where t: "ata_write_sectors lba count buf s = (0, t)"
      "disk cap t (put_sectors (unat lba) (unat count) 0 buf sec)" "io_frame s t"
    using ata.wr_law [OF sec assms(2-5)] by auto
  show thesis
    by (rule that [OF t(1) _ t(3)]) (use t(2) sec in \<open>auto simp: disk_ok_def disk_image put_sectors_def\<close>)
qed

text \<open>\<open>disk_ok\<close> and \<open>disk_image\<close> read the device and its history only.\<close>

definition same_io :: "'a io_state_scheme \<Rightarrow> 'b io_state_scheme \<Rightarrow> bool" where
  "same_io s t \<longleftrightarrow> device t = device s \<and> io_log t = io_log s"

lemma disk_cong: "same_io s t \<Longrightarrow> disk cap t sec = disk cap s sec"
  by (simp add: same_io_def disk_def drive_ok_def)

lemma disk_ok_cong: "same_io s t \<Longrightarrow> disk_ok cap t = disk_ok cap s"
  by (simp add: disk_ok_def disk_cong)

lemma disk_image_cong: "disk_ok cap s \<Longrightarrow> same_io s t \<Longrightarrow> l < cap \<Longrightarrow> disk_image t l = disk_image s l"
  by (metis disk_cong disk_image disk_ok_def)

section \<open>A simulated drive\<close>

text \<open>The simplest device that meets \<open>drive_ok\<close>: always ready, and it answers from the drive's state.\<close>

definition sim_device :: "ata_drive \<Rightarrow> port_event list \<Rightarrow> u16 \<Rightarrow> u16" where
  "sim_device d0 log p = (let d = fold drive_step log d0 in
     if p = 0x1F7 then (if phase d = Idle then 0x40 else 0x48)
     else case phase d of Sending l n bs \<Rightarrow> ucast (bs ! 0) OR push_bit 8 (ucast (bs ! 1)) | _ \<Rightarrow> 0)"

lemma sim_device_answers: "answers cap (sim_device d0) log (fold drive_step log d0)"
proof -
  have "\<exists>k. k < ATA_POLLS" by (rule exI [of _ 0]) (simp add: ATA_POLLS_def)
  then show ?thesis
    by (auto simp: answers_def status_after_def sim_device_def Let_def bit_simps bit_numeral_rec split: ata_phase.splits)
qed

lemma sim_drive_ok: "device s = sim_device d0 \<Longrightarrow> io_log s = [] \<Longrightarrow> drive_ok cap s d0"
  by (simp add: drive_ok_def sim_device_answers)

definition sim_drive :: "(nat \<Rightarrow> u8 list) \<Rightarrow> ata_drive" where
  "sim_drive sec = \<lparr>sectors = sec, head_reg = 0, count_reg = 0, lo_reg = 0, mid_reg = 0, hi_reg = 0, phase = Idle\<rparr>"

lemma sim_disk:
  assumes "device s = sim_device (sim_drive sec)" and "io_log s = []" and "\<And>l. length (sec l) = 512" and "cap \<le> 2 ^ 28"
  shows "disk cap s sec"
  using sim_drive_ok [OF assms(1,2), of cap] assms(3,4) by (auto simp: disk_def sim_drive_def)

definition ata_example :: io_state where
  "ata_example = memfs_state.extend memfs_example
    \<lparr>device = sim_device (sim_drive (\<lambda>l. replicate 512 0)), io_log = []\<rparr>"

lemma ata_example_disk: "disk (2 ^ 20) ata_example (\<lambda>l. replicate 512 0)"
  by (rule sim_disk) (simp_all add: ata_example_def memfs_state.defs)

section \<open>Properties\<close>

text \<open>
  C27: A transfer that the drive accepts does what it says: writing \<open>count\<close> sectors and reading them back
  returns 0 both times and the bytes written, every other sector keeps its bytes, and nothing but
  the device moves. The hypothesis \<open>disk\<close> is the documented protocol of an ATA drive of \<open>cap\<close> sectors.
\<close>

theorem ata_transfer_roundtrip:
  assumes "disk cap s sec" and "0 < count" and "count \<le> 256" and "unat lba + unat count \<le> cap"
    and "length src = 512 * unat count" and "length buf = 512 * unat count"
  shows "\<exists>t u sec'. ata_write_sectors lba count src s = (0, t) \<and> ata_read_sectors lba count buf t = (0, src, u) \<and>
    disk cap u sec' \<and> (\<forall>l. l < unat lba \<or> unat lba + unat count \<le> l \<longrightarrow> sec' l = sec l) \<and>
    disk_bytes sec' (unat lba) (unat count) = src \<and> io_frame s u"
proof -
  let ?sec = "put_sectors (unat lba) (unat count) 0 src sec"
  obtain t where t: "ata_write_sectors lba count src s = (0, t)" "disk cap t ?sec" "io_frame s t"
    using ata.wr_law [OF assms(1-4), of src] assms(5) by auto
  obtain u where u: "ata_read_sectors lba count buf t = (0, src, u)" "disk cap u ?sec" "io_frame t u"
    using ata.rd_law [OF t(2) assms(2-4), of buf] assms(5,6) by (auto simp: disk_bytes_put_sectors overwrite_all)
  have "io_frame s u" by (rule io_frame_trans [OF t(3) u(3)])
  moreover have "\<forall>l. l < unat lba \<or> unat lba + unat count \<le> l \<longrightarrow> ?sec l = sec l" by (auto simp: put_sectors_def)
  ultimately show ?thesis using t(1) u(1,2) disk_bytes_put_sectors [OF assms(5)] by blast
qed

theorem ata_transfer_roundtrip_witness:
  "\<exists>t u. ata_write_sectors 5 2 (replicate 1024 7) ata_example = (0, t) \<and>
     ata_read_sectors 5 2 (replicate 1024 0) t = (0, replicate 1024 7, u)"
  using ata_transfer_roundtrip [OF ata_example_disk, of 2 5 "replicate 1024 7" "replicate 1024 0"] by auto

end
