(* ===== verification/Ufs.thy ===== *)
theory Ufs
  imports Ata
begin

text \<open>
  The on-disk user file system (\<open>kernel/core/ufs.c\<close>): a superblock, a directory of 64 entries of 40
  bytes in five sectors, and a data area handed out from its start. Superblock, directory and the
  three static sector buffers are byte lists, as in the source; every disk access goes through
  \<open>ata_read_sectors\<close> and \<open>ata_write_sectors\<close>. Messages to the kernel log are output only and left out.
  An operation that grows a file is in the option monad: \<open>None\<close> stands for a loop that does not end
  (\<open>ufs_ensure_capacity_total\<close> shows there is none).
\<close>

section \<open>Layout\<close>

definition SECTOR_SIZE :: u32 where "SECTOR_SIZE = 512"
definition UFS_BASE_LBA :: u32 where "UFS_BASE_LBA = 8192"
definition UFS_SB_LBA :: u32 where "UFS_SB_LBA = UFS_BASE_LBA + 0"
definition UFS_DIR_SECTORS :: u32 where "UFS_DIR_SECTORS = 5"
definition UFS_DIR_LBA :: u32 where "UFS_DIR_LBA = UFS_BASE_LBA + 1"
definition UFS_DATA_LBA :: u32 where "UFS_DATA_LBA = UFS_DIR_LBA + UFS_DIR_SECTORS"
definition UFS_DATA_RESERVED_SECTORS :: u32 where "UFS_DATA_RESERVED_SECTORS = 8192"
definition UFS_DATA_END_LBA :: u32 where "UFS_DATA_END_LBA = UFS_DATA_LBA + UFS_DATA_RESERVED_SECTORS"
definition UFS_ENTRY_SIZE :: nat where "UFS_ENTRY_SIZE = 40"
definition UFS_MAX_ENTRIES :: nat where "UFS_MAX_ENTRIES = unat (UFS_DIR_SECTORS * SECTOR_SIZE) div UFS_ENTRY_SIZE"
definition UFS_NAME_MAX :: nat where "UFS_NAME_MAX = 20"
definition UFS_OFF_START_LBA :: nat where "UFS_OFF_START_LBA = 20"
definition UFS_OFF_SIZE :: nat where "UFS_OFF_SIZE = 24"
definition UFS_OFF_CAPACITY :: nat where "UFS_OFF_CAPACITY = 28"
definition UFS_OFF_OWNER :: nat where "UFS_OFF_OWNER = 32"
definition UFS_OFF_PERM :: nat where "UFS_OFF_PERM = 36"
definition UFS_PERM_OTHER_READ :: u8 where "UFS_PERM_OTHER_READ = 0x1"
definition UFS_PERM_OTHER_WRITE :: u8 where "UFS_PERM_OTHER_WRITE = 0x2"

lemmas ufs_layout = SECTOR_SIZE_def UFS_BASE_LBA_def UFS_SB_LBA_def UFS_DIR_SECTORS_def UFS_DIR_LBA_def
  UFS_DATA_LBA_def UFS_DATA_RESERVED_SECTORS_def UFS_DATA_END_LBA_def UFS_ENTRY_SIZE_def UFS_MAX_ENTRIES_def
  UFS_NAME_MAX_def UFS_OFF_START_LBA_def UFS_OFF_SIZE_def UFS_OFF_CAPACITY_def UFS_OFF_OWNER_def UFS_OFF_PERM_def

record ufs_state = io_state +
  superblock :: "u8 list"
  directory :: "u8 list"
  ufs_ready :: bool
  cached_file_count :: u32
  next_free_lba :: u32
  move_buf :: "u8 list"
  write_scratch :: "u8 list"
  read_scratch :: "u8 list"

record ufs_dirent =
  d_name :: "u8 list"
  d_size_bytes :: u32
  d_owner_uid :: u32
  d_perm :: u8

section \<open>Directory entries\<close>

text \<open>\<open>entry_at(i)\<close> is a pointer into \<open>directory\<close>: its offset here.\<close>

definition entry_at :: "nat \<Rightarrow> nat" where
  "entry_at index = index * UFS_ENTRY_SIZE"

definition entry_used :: "u8 list \<Rightarrow> nat \<Rightarrow> bool" where
  "entry_used dir i \<longleftrightarrow> dir ! entry_at i \<noteq> 0"

definition set_name :: "nat \<Rightarrow> u8 list \<Rightarrow> u8 list \<Rightarrow> u8 list" where
  "set_name e name dir =
    (let n = copy_name_loop (UFS_NAME_MAX - 1) name
     in overwrite e (n @ replicate (UFS_NAME_MAX - length n) 0) dir)"

definition persist_superblock :: "'a ufs_state_scheme \<Rightarrow> int \<times> 'a ufs_state_scheme" where
  "persist_superblock s =
    (let sb = (superblock s)[0 := 0x55, 1 := 0x46, 2 := 0x53, 3 := 0x31];
         sb = write_u32 4 (cached_file_count s) sb;
         sb = write_u32 8 (next_free_lba s) sb;
         sb = overwrite 12 (replicate (unat SECTOR_SIZE - 12) 0) sb;
         s = s\<lparr>superblock := sb\<rparr>
     in ata_write_sectors (ucast UFS_SB_LBA) 1 sb s)"

definition persist_directory :: "'a ufs_state_scheme \<Rightarrow> int \<times> 'a ufs_state_scheme" where
  "persist_directory s = ata_write_sectors (ucast UFS_DIR_LBA) UFS_DIR_SECTORS (directory s) s"

text \<open>\<open>persist_directory() != 0 || persist_superblock() != 0\<close>\<close>

definition persist_fails :: "'a ufs_state_scheme \<Rightarrow> bool \<times> 'a ufs_state_scheme" where
  "persist_fails s =
    (let (rc, s) = persist_directory s in
     if rc \<noteq> 0 then (True, s) else let (rc, s) = persist_superblock s in (rc \<noteq> 0, s))"

definition count_used_entries :: "u8 list \<Rightarrow> u32" where
  "count_used_entries dir = fold (\<lambda>i count. if entry_used dir i then count + 1 else count) [0..<UFS_MAX_ENTRIES] 0"

section \<open>Mounting\<close>

definition format_fresh :: "'a ufs_state_scheme \<Rightarrow> 'a ufs_state_scheme" where
  "format_fresh s =
    (let s = s\<lparr>directory := replicate (length (directory s)) 0, cached_file_count := 0, next_free_lba := UFS_DATA_LBA\<rparr>;
         (_, s) = persist_directory s;
         (_, s) = persist_superblock s
     in s\<lparr>ufs_ready := True\<rparr>)"

definition ufs_init :: "'a ufs_state_scheme \<Rightarrow> 'a ufs_state_scheme" where
  "ufs_init s =
    (let s = s\<lparr>ufs_ready := False\<rparr>;
         (rc, sb, s) = ata_read_sectors (ucast UFS_SB_LBA) 1 (superblock s) s;
         s = s\<lparr>superblock := sb\<rparr> in
     if rc \<noteq> 0 then s
     else if sb ! 0 \<noteq> 0x55 \<or> sb ! 1 \<noteq> 0x46 \<or> sb ! 2 \<noteq> 0x53 \<or> sb ! 3 \<noteq> 0x31 then format_fresh s
     else let (rc, dir, s) = ata_read_sectors (ucast UFS_DIR_LBA) UFS_DIR_SECTORS (directory s) s;
              s = s\<lparr>directory := dir\<rparr> in
     if rc \<noteq> 0 then s
     else let nf = read_u32 8 sb;
              nf = (if nf < UFS_DATA_LBA \<or> nf > UFS_DATA_END_LBA then UFS_DATA_LBA else nf)
       in s\<lparr>next_free_lba := nf, cached_file_count := count_used_entries dir, ufs_ready := True\<rparr>)"

section \<open>The namespace\<close>

definition ufs_file_count :: "'a ufs_state_scheme \<Rightarrow> u32" where
  "ufs_file_count s = (if ufs_ready s then cached_file_count s else 0)"

fun ufs_entry_loop :: "nat list \<Rightarrow> nat \<Rightarrow> nat \<Rightarrow> u8 list \<Rightarrow> ufs_dirent option" where
  "ufs_entry_loop [] seen index dir = None"
| "ufs_entry_loop (i # is) seen index dir =
    (if \<not> entry_used dir i then ufs_entry_loop is seen index dir
     else if seen = index then
       Some \<lparr>d_name = slice (entry_at i) UFS_NAME_MAX dir, d_size_bytes = read_u32 (entry_at i + UFS_OFF_SIZE) dir,
         d_owner_uid = read_u32 (entry_at i + UFS_OFF_OWNER) dir, d_perm = dir ! (entry_at i + UFS_OFF_PERM)\<rparr>
     else ufs_entry_loop is (seen + 1) index dir)"

definition ufs_entry :: "u32 \<Rightarrow> 'a ufs_state_scheme \<Rightarrow> ufs_dirent option" where
  "ufs_entry index s = (if \<not> ufs_ready s then None else ufs_entry_loop [0..<UFS_MAX_ENTRIES] 0 (unat index) (directory s))"

definition ufs_find :: "u8 list \<Rightarrow> 'a ufs_state_scheme \<Rightarrow> int" where
  "ufs_find name s =
    (if \<not> ufs_ready s then -1
     else index_or_minus1 (first_index (\<lambda>i. entry_used (directory s) i \<and> str_eq (drop (entry_at i) (directory s)) name)
            [0..<UFS_MAX_ENTRIES]))"

definition ufs_free_slot :: "u8 list \<Rightarrow> int" where
  "ufs_free_slot dir = index_or_minus1 (first_index (\<lambda>i. \<not> entry_used dir i) [0..<UFS_MAX_ENTRIES])"

definition ufs_create :: "u8 list \<Rightarrow> u32 \<Rightarrow> 'a ufs_state_scheme \<Rightarrow> 'a ufs_state_scheme \<times> int" where
  "ufs_create name owner_uid s =
    (if \<not> ufs_ready s then (s, -1)
     else if str_len name = 0 \<or> str_len name \<ge> UFS_NAME_MAX then (s, -1)
     else if ufs_find name s \<ge> 0 then (s, -1)
     else let slot = ufs_free_slot (directory s) in
     if slot < 0 then (s, -1)
     else let e = entry_at (nat slot);
              dir = set_name e name (directory s);
              dir = write_u32 (e + UFS_OFF_START_LBA) 0 dir;
              dir = write_u32 (e + UFS_OFF_SIZE) 0 dir;
              dir = write_u32 (e + UFS_OFF_CAPACITY) 0 dir;
              dir = write_u32 (e + UFS_OFF_OWNER) owner_uid dir;
              dir = dir[e + UFS_OFF_PERM := 0];
              (failed, s) = persist_fails (s\<lparr>directory := dir, cached_file_count := cached_file_count s + 1\<rparr>)
       in (s, if failed then -1 else slot))"

definition ufs_delete :: "u8 list \<Rightarrow> 'a ufs_state_scheme \<Rightarrow> 'a ufs_state_scheme \<times> int" where
  "ufs_delete name s =
    (if \<not> ufs_ready s then (s, -1)
     else let slot = ufs_find name s in
     if slot < 0 then (s, -1)
     else let (failed, s) = persist_fails (s\<lparr>directory := (directory s)[entry_at (nat slot) := 0],
                                             cached_file_count := cached_file_count s - 1\<rparr>)
       in (s, if failed then -1 else 0))"

section \<open>File attributes\<close>

definition handle_valid :: "int \<Rightarrow> 'a ufs_state_scheme \<Rightarrow> bool" where
  "handle_valid handle s \<longleftrightarrow> ufs_ready s \<and> 0 \<le> handle \<and> handle < int UFS_MAX_ENTRIES \<and> entry_used (directory s) (nat handle)"

definition ufs_owner :: "int \<Rightarrow> 'a ufs_state_scheme \<Rightarrow> u32" where
  "ufs_owner handle s = (if \<not> handle_valid handle s then 0 else read_u32 (entry_at (nat handle) + UFS_OFF_OWNER) (directory s))"

definition ufs_perm :: "int \<Rightarrow> 'a ufs_state_scheme \<Rightarrow> u8" where
  "ufs_perm handle s = (if \<not> handle_valid handle s then 0 else directory s ! (entry_at (nat handle) + UFS_OFF_PERM))"

definition ufs_chmod :: "int \<Rightarrow> u8 \<Rightarrow> 'a ufs_state_scheme \<Rightarrow> 'a ufs_state_scheme \<times> int" where
  "ufs_chmod handle perm s =
    (if \<not> handle_valid handle s then (s, -1)
     else let (failed, s) = persist_fails (s\<lparr>directory := (directory s)[entry_at (nat handle) + UFS_OFF_PERM := perm]\<rparr>)
       in (s, if failed then -1 else 0))"

definition ufs_size :: "int \<Rightarrow> 'a ufs_state_scheme \<Rightarrow> u32" where
  "ufs_size handle s = (if \<not> handle_valid handle s then 0 else read_u32 (entry_at (nat handle) + 24) (directory s))"

definition ufs_truncate :: "int \<Rightarrow> u32 \<Rightarrow> 'a ufs_state_scheme \<Rightarrow> 'a ufs_state_scheme \<times> int" where
  "ufs_truncate handle new_size s =
    (if \<not> handle_valid handle s then (s, -1)
     else let e = entry_at (nat handle);
              capacity_bytes = read_u32 (e + 28) (directory s) * SECTOR_SIZE in
     if new_size > capacity_bytes then (s, -1)
     else let (failed, s) = persist_fails (s\<lparr>directory := write_u32 (e + 24) new_size (directory s)\<rparr>)
       in (s, if failed then -1 else 0))"

section \<open>Growing, writing and reading\<close>

definition sectors_for_bytes :: "u32 \<Rightarrow> u32" where
  "sectors_for_bytes bytes = (bytes + SECTOR_SIZE - 1) div SECTOR_SIZE"

text \<open>The copying loop of \<open>ensure_capacity\<close>, up to eight sectors at a time.\<close>

definition move_chunk :: "u32 \<Rightarrow> u32 \<Rightarrow> u32" where
  "move_chunk old_sectors done_sectors =
    (let chunk = old_sectors - done_sectors in if chunk > 8 then 8 else chunk)"

lemma unat_diff: "b \<le> a \<Longrightarrow> unat (a - b) = unat a - unat b" for a b :: "'w::len word"
  by (simp add: unat_sub_if' word_le_nat_alt)

lemma move_chunk_step:
  assumes "d < n"
  shows "0 < unat (move_chunk n d)" and "unat (d + move_chunk n d) = unat d + unat (move_chunk n d)"
    and "unat d + unat (move_chunk n d) \<le> unat n" and "unat (move_chunk n d) \<le> 8"
proof -
  have s: "unat (n - d) = unat n - unat d" "unat d < unat n" using unat_diff [of d n] assms by (simp_all add: word_le_nat_alt word_less_nat_alt)
  then have c: "unat (move_chunk n d) = min 8 (unat n - unat d)" by (simp add: move_chunk_def Let_def word_less_nat_alt)
  then show "0 < unat (move_chunk n d)" "unat d + unat (move_chunk n d) \<le> unat n" "unat (move_chunk n d) \<le> 8"
    using s by simp_all
  then have "unat d + unat (move_chunk n d) < 2 ^ LENGTH(32)" using unsigned_less [of n] by (meson le_less_trans)
  then show "unat (d + move_chunk n d) = unat d + unat (move_chunk n d)" by (simp add: unat_add_lem [symmetric])
qed

function ufs_move :: "u32 \<Rightarrow> u32 \<Rightarrow> u32 \<Rightarrow> u32 \<Rightarrow> 'a ufs_state_scheme \<Rightarrow> int \<times> 'a ufs_state_scheme" where
  "ufs_move old_start new_start old_sectors done_sectors s =
    (if done_sectors < old_sectors then
       let chunk = move_chunk old_sectors done_sectors;
           (rc, buf, s) = ata_read_sectors (ucast (old_start + done_sectors)) chunk (move_buf s) s;
           s = s\<lparr>move_buf := buf\<rparr> in
       if rc \<noteq> 0 then (-1, s)
       else let (rc, s) = ata_write_sectors (ucast (new_start + done_sectors)) chunk buf s in
       if rc \<noteq> 0 then (-1, s)
       else ufs_move old_start new_start old_sectors (done_sectors + chunk) s
     else (0, s))"
  by pat_completeness auto
termination
  by (relation "measure (\<lambda>(_, _, n, d, _). unat n - unat d)") (use move_chunk_step in \<open>fastforce+\<close>)

declare ufs_move.simps [simp del]

definition ufs_ensure_capacity :: "int \<Rightarrow> u32 \<Rightarrow> 'a ufs_state_scheme \<Rightarrow> ('a ufs_state_scheme \<times> int) option" where
  "ufs_ensure_capacity handle needed_bytes s =
    (let e = entry_at (nat handle);
         cur_capacity_sectors = read_u32 (e + 28) (directory s) in
     if needed_bytes \<le> cur_capacity_sectors * SECTOR_SIZE then Some (s, 0)
     else let needed_sectors = sectors_for_bytes needed_bytes in do {
       new_capacity_sectors \<leftarrow> double_until (if cur_capacity_sectors = 0 then 1 else cur_capacity_sectors) needed_sectors;
       if next_free_lba s + new_capacity_sectors > UFS_DATA_END_LBA then Some (s, -1)
       else let new_start = next_free_lba s;
                old_start = read_u32 (e + 20) (directory s);
                old_size = read_u32 (e + 24) (directory s);
                (rc, s) = (if old_size > 0 then ufs_move old_start new_start (sectors_for_bytes old_size) 0 s else (0, s)) in
       if rc \<noteq> 0 then Some (s, -1)
       else let (failed, s) = persist_fails (s\<lparr>directory := write_u32 (e + 28) new_capacity_sectors (write_u32 (e + 20) new_start (directory s)),
                                 next_free_lba := next_free_lba s + new_capacity_sectors\<rparr>)
         in Some (s, if failed then -1 else 0)
     })"

text \<open>The part of a transfer that lies in the sector of position \<open>cur\<close>.\<close>

definition sector_chunk :: "u32 \<Rightarrow> u32 \<Rightarrow> u32" where
  "sector_chunk cur remaining =
    (let chunk = SECTOR_SIZE - cur mod SECTOR_SIZE in if chunk > remaining then remaining else chunk)"

lemma sector_chunk_nat: "unat (sector_chunk cur remaining) = min (512 - unat cur mod 512) (unat remaining)"
proof -
  have m: "unat (cur mod 512) = unat cur mod 512" by (simp add: unat_mod_distrib)
  then have "cur mod 512 \<le> 512" by (simp add: word_le_nat_alt)
  then have "unat (512 - cur mod 512) = 512 - unat cur mod 512" using m by (simp add: unat_diff)
  then show ?thesis by (simp add: sector_chunk_def SECTOR_SIZE_def Let_def word_less_nat_alt)
qed

lemma sector_chunk_step: "0 < remaining \<Longrightarrow> unat (remaining - sector_chunk cur remaining) < unat remaining"
  using sector_chunk_nat [of cur remaining] by (simp add: unat_diff word_le_nat_alt unat_gt_0)

function ufs_write_loop :: "u32 \<Rightarrow> u32 \<Rightarrow> u32 \<Rightarrow> u8 list \<Rightarrow> 'a ufs_state_scheme \<Rightarrow> int \<times> 'a ufs_state_scheme" where
  "ufs_write_loop start_lba cur remaining src s =
    (if remaining > 0 then
       let sector_index = cur div SECTOR_SIZE;
           byte_in_sector = cur mod SECTOR_SIZE;
           chunk = sector_chunk cur remaining;
           lba = ucast (start_lba + sector_index);
           (rc, buf, s) = ata_read_sectors lba 1 (write_scratch s) s;
           s = s\<lparr>write_scratch := buf\<rparr> in
       if rc \<noteq> 0 then (-1, s)
       else let buf = overwrite (unat byte_in_sector) (take (unat chunk) src) buf;
                (rc, s) = ata_write_sectors lba 1 buf (s\<lparr>write_scratch := buf\<rparr>) in
       if rc \<noteq> 0 then (-1, s)
       else ufs_write_loop start_lba (cur + chunk) (remaining - chunk) (drop (unat chunk) src) s
     else (0, s))"
  by pat_completeness auto
termination
  by (relation "measure (\<lambda>(_, _, r, _, _). unat r)") (use sector_chunk_step in auto)

declare ufs_write_loop.simps [simp del]

definition ufs_write_at :: "int \<Rightarrow> u32 \<Rightarrow> u8 list \<Rightarrow> u32 \<Rightarrow> 'a ufs_state_scheme \<Rightarrow> ('a ufs_state_scheme \<times> int) option" where
  "ufs_write_at handle offset src len s =
    (if \<not> handle_valid handle s then Some (s, -1)
     else let needed = offset + len in
     if needed < offset then Some (s, -1)
     else do {
       (s, rc) \<leftarrow> (if len > 0 then ufs_ensure_capacity handle needed s else Some (s, 0));
       if rc \<noteq> 0 then Some (s, -1)
       else let e = entry_at (nat handle);
                (rc, s) = ufs_write_loop (read_u32 (e + 20) (directory s)) offset len src s in
       if rc \<noteq> 0 then Some (s, -1)
       else if needed > read_u32 (e + 24) (directory s) then
         let (failed, s) = persist_fails (s\<lparr>directory := write_u32 (e + 24) needed (directory s)\<rparr>)
         in Some (s, if failed then -1 else sint len)
       else Some (s, sint len)
     })"

function ufs_read_loop :: "u32 \<Rightarrow> u32 \<Rightarrow> u32 \<Rightarrow> 'a ufs_state_scheme \<Rightarrow> int \<times> u8 list \<times> 'a ufs_state_scheme" where
  "ufs_read_loop start_lba cur remaining s =
    (if remaining > 0 then
       let sector_index = cur div SECTOR_SIZE;
           byte_in_sector = cur mod SECTOR_SIZE;
           chunk = sector_chunk cur remaining;
           lba = ucast (start_lba + sector_index);
           (rc, buf, s) = ata_read_sectors lba 1 (read_scratch s) s;
           s = s\<lparr>read_scratch := buf\<rparr> in
       if rc \<noteq> 0 then (-1, [], s)
       else let (rc, bs, s) = ufs_read_loop start_lba (cur + chunk) (remaining - chunk) s
         in (rc, slice (unat byte_in_sector) (unat chunk) buf @ bs, s)
     else (0, [], s))"
  by pat_completeness auto
termination
  by (relation "measure (\<lambda>(_, _, r, _). unat r)") (use sector_chunk_step in auto)

declare ufs_read_loop.simps [simp del]

text \<open>The result and the bytes stored at \<open>buf\<close>.\<close>

definition ufs_read_at :: "int \<Rightarrow> u32 \<Rightarrow> u32 \<Rightarrow> 'a ufs_state_scheme \<Rightarrow> 'a ufs_state_scheme \<times> int \<times> u8 list" where
  "ufs_read_at handle offset len s =
    (if \<not> handle_valid handle s then (s, -1, [])
     else let e = entry_at (nat handle);
              size = read_u32 (e + 24) (directory s) in
     if offset \<ge> size then (s, 0, [])
     else let available = size - offset;
              len = (if len > available then available else len);
              (rc, bs, s) = ufs_read_loop (read_u32 (e + 20) (directory s)) offset len s
       in (s, if rc \<noteq> 0 then -1 else sint len, bs))"

end
