(* ===== verification/Ufs_Files.thy ===== *)
theory Ufs_Files
  imports Ufs File_Store
begin

text \<open>
  The user file system on a working drive. \<open>ufs_ok\<close> is its invariant: every file's extent lies in the
  data area below the first free sector, extents of different files are disjoint, names are distinct
  and terminated, and the directory and superblock on disk are the ones in memory. \<open>ufs_content\<close> is the
  content of a file as bytes. The lemmas show that every operation keeps the invariant, what it
  does to the content, and that mounting again finds the same files.
\<close>

section \<open>Numbers of the layout\<close>

abbreviation UFS_END :: nat where "UFS_END \<equiv> 16390"

lemma ufs_numbers:
  "unat UFS_SB_LBA = 8192" "unat UFS_DIR_LBA = 8193" "unat UFS_DATA_LBA = 8198" "unat UFS_DATA_END_LBA = UFS_END"
  "unat UFS_DIR_SECTORS = 5" "UFS_DIR_SECTORS = 5" "SECTOR_SIZE = 512"
  "unat (ucast UFS_SB_LBA :: u64) = 8192" "unat (ucast UFS_DIR_LBA :: u64) = 8193"
  "UFS_ENTRY_SIZE = 40" "UFS_MAX_ENTRIES = 64" "UFS_NAME_MAX = 20"
  "UFS_OFF_START_LBA = 20" "UFS_OFF_SIZE = 24" "UFS_OFF_CAPACITY = 28" "UFS_OFF_OWNER = 32" "UFS_OFF_PERM = 36"
  by (simp_all add: ufs_layout)

lemma entry_at_eq: "entry_at i = 40 * i"
  by (simp add: entry_at_def ufs_numbers)

section \<open>Frames\<close>

text \<open>The file system changes its own fields and the device; the rest of the kernel stays.\<close>

definition ufs_clear :: "'a ufs_state_scheme \<Rightarrow> 'a ufs_state_scheme" where
  "ufs_clear s = s\<lparr>io_log := [], superblock := [], directory := [], ufs_ready := False, cached_file_count := 0,
     next_free_lba := 0, move_buf := [], write_scratch := [], read_scratch := []\<rparr>"

definition ufs_frame :: "'a ufs_state_scheme \<Rightarrow> 'a ufs_state_scheme \<Rightarrow> bool" where
  "ufs_frame s t \<longleftrightarrow> ufs_clear t = ufs_clear s"

lemma ufs_frame_refl [simp]: "ufs_frame s s"
  by (simp add: ufs_frame_def)

lemma ufs_frame_trans: "ufs_frame s t \<Longrightarrow> ufs_frame t u \<Longrightarrow> ufs_frame s u"
  by (simp add: ufs_frame_def)

lemma ufs_frame_upd [simp]:
  "ufs_frame s (superblock_update f t) = ufs_frame s t" "ufs_frame s (directory_update f t) = ufs_frame s t"
  "ufs_frame s (ufs_ready_update g t) = ufs_frame s t" "ufs_frame s (cached_file_count_update h t) = ufs_frame s t"
  "ufs_frame s (next_free_lba_update h t) = ufs_frame s t" "ufs_frame s (move_buf_update f t) = ufs_frame s t"
  "ufs_frame s (write_scratch_update f t) = ufs_frame s t" "ufs_frame s (read_scratch_update f t) = ufs_frame s t"
  "ufs_frame s (io_log_update k t) = ufs_frame s t"
  by (simp_all add: ufs_frame_def ufs_clear_def)

lemma io_frame_field: "(\<And>L. f (s\<lparr>io_log := L\<rparr>) = f s) \<Longrightarrow> io_frame s t \<Longrightarrow> f t = f s"
  unfolding io_frame_def by metis

lemma io_frame_ufs:
  fixes s t :: "'a ufs_state_scheme"
  assumes "io_frame s t"
  shows "directory t = directory s" "superblock t = superblock s" "ufs_ready t = ufs_ready s"
    "cached_file_count t = cached_file_count s" "next_free_lba t = next_free_lba s" "move_buf t = move_buf s"
    "write_scratch t = write_scratch s" "read_scratch t = read_scratch s" "ufs_frame s t"
proof -
  note f = io_frame_field [OF _ assms]
  show "directory t = directory s" "superblock t = superblock s" "ufs_ready t = ufs_ready s"
    "cached_file_count t = cached_file_count s" "next_free_lba t = next_free_lba s" "move_buf t = move_buf s"
    "write_scratch t = write_scratch s" "read_scratch t = read_scratch s"
    by (rule f; simp)+
  have "ufs_clear t = ufs_clear s" by (rule f) (simp add: ufs_clear_def)
  then show "ufs_frame s t" by (simp add: ufs_frame_def)
qed

text \<open>The buffers have their declared sizes.\<close>

definition ufs_shape :: "'a ufs_state_scheme \<Rightarrow> bool" where
  "ufs_shape s \<longleftrightarrow> length (superblock s) = 512 \<and> length (directory s) = 2560 \<and> length (move_buf s) = 4096 \<and>
     length (write_scratch s) = 512 \<and> length (read_scratch s) = 512"

text \<open>What the operations keep of the file system's memory: the directory and the counters.\<close>

definition same_meta :: "'a ufs_state_scheme \<Rightarrow> 'a ufs_state_scheme \<Rightarrow> bool" where
  "same_meta s t \<longleftrightarrow> directory t = directory s \<and> ufs_ready t = ufs_ready s \<and> cached_file_count t = cached_file_count s \<and>
     next_free_lba t = next_free_lba s \<and> ufs_frame s t"

lemma same_meta_refl [simp]: "same_meta s s"
  by (simp add: same_meta_def)

lemma same_meta_trans: "same_meta s t \<Longrightarrow> same_meta t u \<Longrightarrow> same_meta s u"
  by (auto simp: same_meta_def intro: ufs_frame_trans)

lemma io_frame_meta: "io_frame s t \<Longrightarrow> same_meta s t"
  by (simp add: same_meta_def io_frame_ufs)

lemma same_meta_buffers [simp]:
  "same_meta s (move_buf_update f t) = same_meta s t" "same_meta s (write_scratch_update f t) = same_meta s t"
  "same_meta s (read_scratch_update f t) = same_meta s t" "same_meta s (superblock_update f t) = same_meta s t"
  by (simp_all add: same_meta_def)

lemma same_io_buffers [simp]:
  "same_io t (move_buf_update f t)" "same_io t (write_scratch_update f t)" "same_io t (read_scratch_update f t)"
  "same_io t (superblock_update f t)" "same_io t (directory_update f t)" "same_io t (ufs_ready_update g t)"
  "same_io t (cached_file_count_update h t)" "same_io t (next_free_lba_update h t)"
  by (simp_all add: same_io_def)

lemma disk_ok_upd [simp]:
  "disk_ok cap (move_buf_update f t) = disk_ok cap t" "disk_ok cap (write_scratch_update f t) = disk_ok cap t"
  "disk_ok cap (read_scratch_update f t) = disk_ok cap t" "disk_ok cap (superblock_update f t) = disk_ok cap t"
  "disk_ok cap (directory_update f t) = disk_ok cap t" "disk_ok cap (ufs_ready_update g t) = disk_ok cap t"
  "disk_ok cap (cached_file_count_update h t) = disk_ok cap t" "disk_ok cap (next_free_lba_update h t) = disk_ok cap t"
  by (rule disk_ok_cong; simp)+

lemma disk_image_upd:
  assumes "disk_ok cap t" "l < cap"
  shows "disk_image (move_buf_update f t) l = disk_image t l" "disk_image (write_scratch_update f t) l = disk_image t l"
    "disk_image (read_scratch_update f t) l = disk_image t l" "disk_image (superblock_update f t) l = disk_image t l"
    "disk_image (directory_update f t) l = disk_image t l" "disk_image (ufs_ready_update g t) l = disk_image t l"
    "disk_image (cached_file_count_update h t) l = disk_image t l" "disk_image (next_free_lba_update h t) l = disk_image t l"
  by (rule disk_image_cong [OF assms(1) _ assms(2)]; simp)+

section \<open>Bytes and sectors\<close>

lemma overwrite_mid: "off + length xs \<le> length b \<Longrightarrow> overwrite (length a + off) xs (a @ b @ c) = a @ overwrite off xs b @ c"
  by (simp add: overwrite_def)

lemma disk_bytes_at: "k < n \<Longrightarrow> disk_bytes sec l n = disk_bytes sec l k @ sec (l + k) @ disk_bytes sec (l + k + 1) (n - k - 1)"
proof -
  assume "k < n"
  then have "n = k + Suc (n - k - 1)" by simp
  then have "disk_bytes sec l n = disk_bytes sec l (k + Suc (n - k - 1))" by simp
  then show ?thesis by (simp only: disk_bytes_add disk_bytes_Suc)
qed

lemma length_disk_bytes_range:
  "(\<And>i. l \<le> i \<Longrightarrow> i < l + n \<Longrightarrow> length (sec i) = 512) \<Longrightarrow> length (disk_bytes sec l n) = 512 * n"
proof (induction n arbitrary: l)
  case (Suc n)
  then show ?case using Suc.IH [of "l + 1"] by (simp add: disk_bytes_Suc)
qed simp

lemma disk_bytes_update:
  assumes "k < n" and "\<And>i. l \<le> i \<Longrightarrow> i < l + n \<Longrightarrow> length (sec i) = 512" and "b + length xs \<le> 512"
  shows "disk_bytes (sec(l + k := overwrite b xs (sec (l + k)))) l n = overwrite (512 * k + b) xs (disk_bytes sec l n)"
proof -
  let ?sec = "sec(l + k := overwrite b xs (sec (l + k)))"
  have len: "length (disk_bytes sec l k) = 512 * k" by (rule length_disk_bytes_range) (use assms in auto)
  have "disk_bytes ?sec l k = disk_bytes sec l k" "disk_bytes ?sec (l + k + 1) (n - k - 1) = disk_bytes sec (l + k + 1) (n - k - 1)"
    by (rule disk_bytes_cong; simp)+
  then have "disk_bytes ?sec l n = disk_bytes sec l k @ overwrite b xs (sec (l + k)) @ disk_bytes sec (l + k + 1) (n - k - 1)"
    using disk_bytes_at [OF assms(1), of ?sec l] by simp
  also have "\<dots> = overwrite (length (disk_bytes sec l k) + b) xs (disk_bytes sec l k @ sec (l + k) @ disk_bytes sec (l + k + 1) (n - k - 1))"
    by (rule overwrite_mid [symmetric]) (use assms in auto)
  finally show ?thesis unfolding len disk_bytes_at [OF assms(1), of sec l, symmetric] .
qed

lemma slice_mid: "off + n \<le> length b \<Longrightarrow> slice (length a + off) n (a @ b @ c) = slice off n b"
  by (simp add: slice_def)

lemma slice_disk_bytes:
  assumes "k < n" and "\<And>i. l \<le> i \<Longrightarrow> i < l + n \<Longrightarrow> length (sec i) = 512" and "b + c \<le> 512"
  shows "slice (512 * k + b) c (disk_bytes sec l n) = slice b c (sec (l + k))"
proof -
  have len: "length (disk_bytes sec l k) = 512 * k" by (rule length_disk_bytes_range) (use assms in auto)
  have "slice (length (disk_bytes sec l k) + b) c (disk_bytes sec l k @ sec (l + k) @ disk_bytes sec (l + k + 1) (n - k - 1)) =
      slice b c (sec (l + k))"
    by (rule slice_mid) (use assms in auto)
  then show ?thesis unfolding len disk_bytes_at [OF assms(1), of sec l, symmetric] .
qed

lemma slice_append: "slice i (m + n) xs = slice i m xs @ slice (i + m) n xs"
  using take_add [of m n "drop i xs"] by (simp add: slice_def add.commute)

section \<open>Writing the directory and the superblock\<close>

definition sb_image :: "u32 \<Rightarrow> u32 \<Rightarrow> u8 list" where
  "sb_image count nf = [0x55, 0x46, 0x53, 0x31] @ u32_bytes count @ u32_bytes nf @ replicate 500 0"

text \<open>The superblock and the directory on disk are the ones in memory.\<close>

definition synced :: "'a ufs_state_scheme \<Rightarrow> bool" where
  "synced s \<longleftrightarrow> disk_image s 8192 = sb_image (cached_file_count s) (next_free_lba s) \<and>
     disk_bytes (disk_image s) 8193 5 = directory s"

lemma sb_image_built:
  assumes "length sb = 512"
  shows "overwrite 12 (replicate (unat SECTOR_SIZE - 12) 0) (write_u32 8 nf (write_u32 4 c (sb[0 := 0x55, 1 := 0x46, 2 := 0x53, 3 := 0x31])))
    = sb_image c nf"
proof -
  have "length sb = Suc (Suc (Suc (Suc 508)))" using assms by simp
  then obtain a0 a1 a2 a3 r where sb: "sb = a0 # a1 # a2 # a3 # r" and r: "length r = 508"
    unfolding length_Suc_conv by blast
  show ?thesis
    using r by (simp add: sb write_u32_overwrite overwrite_def sb_image_def ufs_numbers)
qed

lemma persist_fails_ok:
  fixes s :: "'a ufs_state_scheme"
  assumes "disk_ok UFS_END s" and "ufs_shape s"
  obtains t where "persist_fails s = (False, t)" "disk_ok UFS_END t" "ufs_shape t" "same_meta s t" "synced t"
    "\<And>l. 8198 \<le> l \<Longrightarrow> l < UFS_END \<Longrightarrow> disk_image t l = disk_image s l"
proof -
  obtain s1 where s1: "ata_write_sectors (ucast UFS_DIR_LBA) UFS_DIR_SECTORS (directory s) s = (0, s1)" "disk_ok UFS_END s1"
      "io_frame s s1" "\<And>l. l < UFS_END \<Longrightarrow> disk_image s1 l = put_sectors 8193 5 0 (directory s) (disk_image s) l"
    using assms disk_write [OF assms(1), of UFS_DIR_SECTORS "ucast UFS_DIR_LBA" "directory s"]
    by (auto simp: ufs_numbers ufs_shape_def)
  let ?sb = "sb_image (cached_file_count s1) (next_free_lba s1)"
  let ?s2 = "s1\<lparr>superblock := ?sb\<rparr>"
  have shape1: "ufs_shape s1" using assms(2) io_frame_ufs [OF s1(3)] by (simp add: ufs_shape_def)
  have lsb: "length ?sb = 512" by (simp add: sb_image_def)
  obtain t where t: "ata_write_sectors (ucast UFS_SB_LBA) 1 ?sb ?s2 = (0, t)" "disk_ok UFS_END t" "io_frame ?s2 t"
      "\<And>l. l < UFS_END \<Longrightarrow> disk_image t l = put_sectors 8192 1 0 ?sb (disk_image ?s2) l"
    using s1(2) lsb disk_write [of UFS_END ?s2 1 "ucast UFS_SB_LBA" ?sb] by (auto simp: ufs_numbers)
  have built: "persist_superblock s1 = ata_write_sectors (ucast UFS_SB_LBA) 1 ?sb ?s2"
    using shape1 sb_image_built [of "superblock s1"] by (simp only: persist_superblock_def Let_def ufs_shape_def)
  have img: "disk_image t l = (if l = 8192 then ?sb else if 8193 \<le> l \<and> l < 8198 then slice (512 * (l - 8193)) 512 (directory s)
      else disk_image s l)" if "l < UFS_END" for l
    using t(4) [OF that] s1(4) [OF that] disk_image_upd(4) [OF s1(2) that] lsb
    by (auto simp: put_sectors_def slice_def)
  have meta: "same_meta s1 t" by (rule same_meta_trans [OF _ io_frame_meta [OF t(3)]]) simp
  then have st: "same_meta s t" using same_meta_trans [OF io_frame_meta [OF s1(3)]] by blast
  have "disk_bytes (disk_image t) 8193 5 = disk_bytes (put_sectors 8193 5 0 (directory s) (disk_image s)) 8193 5"
    by (rule disk_bytes_cong) (auto simp: img put_sectors_def)
  also have "\<dots> = directory t"
    using st assms(2) by (simp add: disk_bytes_put_sectors ufs_shape_def same_meta_def)
  finally have "synced t" using img [of 8192] meta by (simp add: synced_def same_meta_def)
  moreover have "ufs_shape t"
    using shape1 io_frame_ufs [OF t(3)] lsb by (simp add: ufs_shape_def)
  moreover have "persist_fails s = (False, t)"
    using s1(1) t(1) built by (simp add: persist_fails_def persist_directory_def)
  ultimately show thesis using that t(2) st img by auto
qed

section \<open>The transfer loops\<close>

lemma unat_add_small: "unat x + unat y < 2 ^ LENGTH('w) \<Longrightarrow> unat (x + y) = unat x + unat y" for x y :: "'w::len word"
  by (rule unat_add_lem [THEN iffD1])

lemma lba_in_range:
  fixes start cur :: u32
  assumes "unat start + cap \<le> UFS_END" and "unat cur < 512 * cap"
  shows "unat (ucast (start + cur div SECTOR_SIZE) :: u64) = unat start + unat cur div 512" and "unat cur div 512 < cap"
proof -
  have d: "unat (cur div SECTOR_SIZE) = unat cur div 512" by (simp add: ufs_numbers unat_div_distrib)
  show lt: "unat cur div 512 < cap" using assms(2) by (simp add: less_mult_imp_div_less mult.commute)
  then have "unat start + unat cur div 512 < 2 ^ LENGTH(32)" using assms(1) by simp
  then have "unat (start + cur div SECTOR_SIZE) = unat start + unat cur div 512" using d unat_add_small by metis
  then show "unat (ucast (start + cur div SECTOR_SIZE) :: u64) = unat start + unat cur div 512"
    by (simp add: unsigned_ucast_eq take_bit_eq_mod)
qed

lemma read_sector:
  assumes "disk_ok cap s" and "unat lba < cap" and "length buf = 512"
  obtains t where "ata_read_sectors lba 1 buf s = (0, disk_image s (unat lba), t)" "disk_ok cap t" "io_frame s t" "same_disk cap s t"
  using disk_read [OF assms(1), of 1 lba buf] assms(2,3) disk_image_length [OF assms(1,2)] by (auto simp: overwrite_all)

lemma write_sector:
  assumes "disk_ok cap s" and "unat lba < cap" and "length buf = 512"
  obtains t where "ata_write_sectors lba 1 buf s = (0, t)" "disk_ok cap t" "io_frame s t"
    "\<And>l. l < cap \<Longrightarrow> disk_image t l = (if l = unat lba then buf else disk_image s l)"
proof -
  obtain t where t: "ata_write_sectors lba 1 buf s = (0, t)" "disk_ok cap t" "io_frame s t"
      "\<And>l. l < cap \<Longrightarrow> disk_image t l = put_sectors (unat lba) 1 0 buf (disk_image s) l"
    using disk_write [OF assms(1), of 1 lba buf] assms(2,3) by auto
  show thesis by (rule that [OF t(1-3)]) (use t(4) assms(3) in \<open>auto simp: put_sectors_def slice_def\<close>)
qed

lemma ufs_read_loop_ok:
  fixes s :: "'a ufs_state_scheme"
  assumes "disk_ok UFS_END s" and "ufs_shape s" and "unat start + cap \<le> UFS_END" and "unat cur + unat rem \<le> 512 * cap"
  shows "\<exists>t. ufs_read_loop start cur rem s = (0, slice (unat cur) (unat rem) (disk_bytes (disk_image s) (unat start) cap), t) \<and>
    disk_ok UFS_END t \<and> ufs_shape t \<and> same_meta s t \<and> same_disk UFS_END s t \<and> superblock t = superblock s"
  using assms
proof (induction "unat rem" arbitrary: cur rem s rule: less_induct)
  case less
  let ?D = "disk_bytes (disk_image s) (unat start) cap"
  show ?case
  proof (cases "0 < rem")
    case False
    then have "rem = 0" using word_gt_0 by blast
    then show ?thesis using less.prems by (subst ufs_read_loop.simps) (simp add: slice_def)
  next
    case True
    let ?c = "sector_chunk cur rem" and ?k = "unat cur div 512" and ?b = "unat cur mod 512"
    have cap: "unat cur < 512 * cap" using True less.prems(4) by (simp add: word_less_nat_alt)
    note lba = lba_in_range [OF less.prems(3) cap]
    have c: "unat ?c = min (512 - ?b) (unat rem)" by (rule sector_chunk_nat)
    have b: "unat (cur mod SECTOR_SIZE) = ?b" by (simp add: ufs_numbers unat_mod_distrib)
    obtain s1 where s1: "ata_read_sectors (ucast (start + cur div SECTOR_SIZE)) 1 (read_scratch s) s =
          (0, disk_image s (unat start + ?k), s1)" "disk_ok UFS_END s1" "io_frame s s1" "same_disk UFS_END s s1"
      using read_sector [OF less.prems(1), of "ucast (start + cur div SECTOR_SIZE)" "read_scratch s"] lba less.prems(2,3)
      by (auto simp: ufs_shape_def)
    let ?s2 = "s1\<lparr>read_scratch := disk_image s (unat start + ?k)\<rparr>"
    have lenk: "length (disk_image s i) = 512" if "i < UFS_END" for i by (rule disk_image_length [OF less.prems(1) that])
    have s2: "disk_ok UFS_END ?s2" "ufs_shape ?s2" "same_meta s ?s2" "superblock ?s2 = superblock s"
      using s1(2) less.prems(2,3) lba(2) lenk io_frame_ufs [OF s1(3)] io_frame_meta [OF s1(3)] by (simp_all add: ufs_shape_def)
    have d2: "same_disk UFS_END s ?s2" using s1(2,4) by (simp add: same_disk_def disk_image_upd)
    have rem': "unat (rem - ?c) = unat rem - unat ?c" using c by (simp add: unat_diff word_le_nat_alt)
    have "unat cur + unat ?c < 2 ^ LENGTH(32)" using less.prems(3,4) c by simp
    then have cur': "unat (cur + ?c) = unat cur + unat ?c" by (rule unat_add_small)
    have "unat ?c \<le> unat rem" using c by simp
    then have room: "unat (cur + ?c) + unat (rem - ?c) \<le> 512 * cap" unfolding cur' rem' using less.prems(4) by linarith
    obtain t where t: "ufs_read_loop start (cur + ?c) (rem - ?c) ?s2 =
          (0, slice (unat (cur + ?c)) (unat (rem - ?c)) (disk_bytes (disk_image ?s2) (unat start) cap), t)"
        "disk_ok UFS_END t" "ufs_shape t" "same_meta ?s2 t" "same_disk UFS_END ?s2 t" "superblock t = superblock ?s2"
      using less.hyps [OF sector_chunk_step [OF True] s2(1,2) less.prems(3) room] by blast
    have D: "disk_bytes (disk_image ?s2) (unat start) cap = ?D" by (rule same_disk_bytes [OF d2 less.prems(3)])
    have "slice (512 * ?k + ?b) (unat ?c) ?D = slice ?b (unat ?c) (disk_image s (unat start + ?k))"
      by (rule slice_disk_bytes) (use lba(2) c less.prems(3) in \<open>auto intro!: lenk\<close>)
    moreover have "slice (unat cur) (unat rem) ?D = slice (unat cur) (unat ?c) ?D @ slice (unat cur + unat ?c) (unat rem - unat ?c) ?D"
      using slice_append [of "unat cur" "unat ?c" "unat rem - unat ?c" ?D] c by simp
    ultimately have "ufs_read_loop start cur rem s = (0, slice (unat cur) (unat rem) ?D, t)"
      using True s1(1) t(1) b cur' rem' D by (subst ufs_read_loop.simps) (simp add: Let_def)
    moreover note same_meta_trans [OF s2(3) t(4)] same_disk_trans [OF d2 t(5)]
    ultimately show ?thesis using t(2,3,6) s2(4) by simp
  qed
qed

lemma take_append_drop_overwrite:
  assumes "a + m + n \<le> length buf" and "m + n \<le> length src"
  shows "overwrite (a + m) (take n (drop m src)) (overwrite a (take m src) buf) = overwrite a (take (m + n) src) buf"
proof -
  have "take (m + n) src = take m src @ take n (drop m src)" by (rule take_add)
  moreover have "length (take m src) = m" using assms(2) by simp
  ultimately show ?thesis
    using overwrite_append [of a "take m src" "take n (drop m src)" buf] assms by simp
qed

text \<open>Only the sectors \<open>[l, l + n)\<close> may differ.\<close>

definition outside_same :: "nat \<Rightarrow> nat \<Rightarrow> 'a io_state_scheme \<Rightarrow> 'a io_state_scheme \<Rightarrow> bool" where
  "outside_same l n s t \<longleftrightarrow> (\<forall>i<UFS_END. i < l \<or> l + n \<le> i \<longrightarrow> disk_image t i = disk_image s i)"

lemma outside_same_refl [simp]: "outside_same l n s s"
  by (simp add: outside_same_def)

lemma outside_same_trans: "outside_same l n s t \<Longrightarrow> outside_same l n t u \<Longrightarrow> outside_same l n s u"
  by (simp add: outside_same_def)

lemma outside_same_bytes:
  "outside_same l n s t \<Longrightarrow> l' + m \<le> UFS_END \<Longrightarrow> l' + m \<le> l \<or> l + n \<le> l' \<Longrightarrow>
    disk_bytes (disk_image t) l' m = disk_bytes (disk_image s) l' m"
  by (rule disk_bytes_cong) (auto simp: outside_same_def)

lemma ufs_write_loop_ok:
  fixes s :: "'a ufs_state_scheme"
  assumes "disk_ok UFS_END s" and "ufs_shape s" and "unat start + cap \<le> UFS_END" and "unat cur + unat rem \<le> 512 * cap"
    and "unat rem \<le> length src"
  shows "\<exists>t. ufs_write_loop start cur rem src s = (0, t) \<and> disk_ok UFS_END t \<and> ufs_shape t \<and> same_meta s t \<and>
    superblock t = superblock s \<and> outside_same (unat start) cap s t \<and>
    disk_bytes (disk_image t) (unat start) cap =
      overwrite (unat cur) (take (unat rem) src) (disk_bytes (disk_image s) (unat start) cap)"
  using assms
proof (induction "unat rem" arbitrary: cur rem src s rule: less_induct)
  case less
  let ?D = "disk_bytes (disk_image s) (unat start) cap"
  show ?case
  proof (cases "0 < rem")
    case False
    then have "rem = 0" using word_gt_0 by blast
    then show ?thesis using less.prems by (subst ufs_write_loop.simps) simp
  next
    case True
    let ?c = "sector_chunk cur rem" and ?k = "unat cur div 512" and ?b = "unat cur mod 512"
    let ?l = "unat start + ?k" and ?lba = "ucast (start + cur div SECTOR_SIZE) :: u64"
    have cap: "unat cur < 512 * cap" using True less.prems(4) by (simp add: word_less_nat_alt)
    note lba = lba_in_range [OF less.prems(3) cap]
    have l: "?l < UFS_END" using lba(2) less.prems(3) by linarith
    have c: "unat ?c = min (512 - ?b) (unat rem)" by (rule sector_chunk_nat)
    then have c_rem: "unat ?c \<le> unat rem" and c_sec: "?b + unat ?c \<le> 512" by simp_all
    have b: "unat (cur mod SECTOR_SIZE) = ?b" by (simp add: ufs_numbers unat_mod_distrib)
    have lenk: "length (disk_image s i) = 512" if "i < UFS_END" for i by (rule disk_image_length [OF less.prems(1) that])
    obtain s1 where s1: "ata_read_sectors ?lba 1 (write_scratch s) s = (0, disk_image s ?l, s1)" "disk_ok UFS_END s1"
        "io_frame s s1" "same_disk UFS_END s s1"
      using read_sector [OF less.prems(1), of ?lba "write_scratch s"] lba l less.prems(2) by (auto simp: ufs_shape_def)
    let ?new = "overwrite ?b (take (unat ?c) src) (disk_image s ?l)"
    have lsrc: "length (take (unat ?c) src) = unat ?c" using c_rem less.prems(5) by simp
    have lnew: "length ?new = 512" using lenk [OF l] c_sec lsrc by simp
    let ?s2 = "s1\<lparr>write_scratch := ?new\<rparr>"
    obtain s3 where s3: "ata_write_sectors ?lba 1 ?new ?s2 = (0, s3)" "disk_ok UFS_END s3" "io_frame ?s2 s3"
        "\<And>i. i < UFS_END \<Longrightarrow> disk_image s3 i = (if i = ?l then ?new else disk_image ?s2 i)"
      using write_sector [of UFS_END ?s2 ?lba ?new] s1(2) lba l lnew by auto
    have img: "disk_image s3 i = (if i = ?l then ?new else disk_image s i)" if "i < UFS_END" for i
      using s3(4) [OF that] disk_image_upd(2) [OF s1(2) that] s1(4) that by (simp add: same_disk_def)
    have f1: "io_frame s s1" by (rule s1(3))
    have shape3: "ufs_shape s3" and sb3: "superblock s3 = superblock s"
      using less.prems(2) lnew io_frame_ufs [OF f1] io_frame_ufs [OF s3(3)] by (simp_all add: ufs_shape_def)
    have m2: "same_meta s ?s2" using io_frame_meta [OF f1] by simp
    have meta3: "same_meta s s3" by (rule same_meta_trans [OF m2 io_frame_meta [OF s3(3)]])
    have out3: "outside_same (unat start) cap s s3" using img lba(2) by (auto simp: outside_same_def)
    have "disk_bytes (disk_image s3) (unat start) cap = disk_bytes ((disk_image s)(?l := ?new)) (unat start) cap"
      by (rule disk_bytes_cong) (use img less.prems(3) in auto)
    also have "\<dots> = overwrite (512 * ?k + ?b) (take (unat ?c) src) ?D"
      by (rule disk_bytes_update) (use lba(2) less.prems(3) c_sec lsrc lenk in auto)
    finally have D3: "disk_bytes (disk_image s3) (unat start) cap = overwrite (unat cur) (take (unat ?c) src) ?D" by simp
    have rem': "unat (rem - ?c) = unat rem - unat ?c" using c_rem by (simp add: unat_diff word_le_nat_alt)
    have "unat cur + unat ?c < 2 ^ LENGTH(32)" using less.prems(3,4) c_rem by simp
    then have cur': "unat (cur + ?c) = unat cur + unat ?c" by (rule unat_add_small)
    have room: "unat (cur + ?c) + unat (rem - ?c) \<le> 512 * cap" unfolding cur' rem' using less.prems(4) c_rem by linarith
    have lsrc': "unat (rem - ?c) \<le> length (drop (unat ?c) src)" unfolding rem' using less.prems(5) by simp
    obtain t where t: "ufs_write_loop start (cur + ?c) (rem - ?c) (drop (unat ?c) src) s3 = (0, t)" "disk_ok UFS_END t"
        "ufs_shape t" "same_meta s3 t" "superblock t = superblock s3" "outside_same (unat start) cap s3 t"
        "disk_bytes (disk_image t) (unat start) cap = overwrite (unat (cur + ?c)) (take (unat (rem - ?c)) (drop (unat ?c) src))
           (disk_bytes (disk_image s3) (unat start) cap)"
      using less.hyps [OF sector_chunk_step [OF True] s3(2) shape3 less.prems(3) room lsrc'] by blast
    have lD: "length ?D = 512 * cap" by (rule length_disk_bytes_range) (use lenk less.prems(3) in auto)
    have "disk_bytes (disk_image t) (unat start) cap = overwrite (unat cur) (take (unat rem) src) ?D"
      unfolding t(7) D3 cur' rem'
      using take_append_drop_overwrite [of "unat cur" "unat ?c" "unat rem - unat ?c" ?D src] lD less.prems(4,5) c_rem by simp
    moreover have "ufs_write_loop start cur rem src s = (0, t)"
      using True s1(1) s3(1) t(1) b by (subst ufs_write_loop.simps) (simp add: Let_def)
    ultimately show ?thesis
      using t(2,3,5) sb3 same_meta_trans [OF meta3 t(4)] outside_same_trans [OF out3 t(6)] by simp
  qed
qed

lemma lba_add:
  fixes a d :: u32
  assumes "unat a + unat d \<le> UFS_END"
  shows "unat (ucast (a + d) :: u64) = unat a + unat d"
proof -
  have "unat a + unat d < 2 ^ LENGTH(32)" using assms by simp
  then have "unat (a + d) = unat a + unat d" by (rule unat_add_small)
  then show ?thesis by (simp add: unsigned_ucast_eq take_bit_eq_mod)
qed

lemma ufs_move_ok:
  fixes s :: "'a ufs_state_scheme"
  assumes "disk_ok UFS_END s" and "ufs_shape s" and "unat os + unat n \<le> unat ns" and "unat ns + unat n \<le> UFS_END"
    and "unat d \<le> unat n"
  shows "\<exists>t. ufs_move os ns n d s = (0, t) \<and> disk_ok UFS_END t \<and> ufs_shape t \<and> same_meta s t \<and> superblock t = superblock s \<and>
    (\<forall>l<UFS_END. disk_image t l = (if unat ns + unat d \<le> l \<and> l < unat ns + unat n
      then disk_image s (l - unat ns + unat os) else disk_image s l))"
  using assms
proof (induction "unat n - unat d" arbitrary: d s rule: less_induct)
  case less
  show ?case
  proof (cases "d < n")
    case False
    then show ?thesis using less.prems by (subst ufs_move.simps) (auto simp: word_less_nat_alt)
  next
    case True
    let ?c = "move_chunk n d"
    note c = move_chunk_step [OF True]
    let ?B = "disk_bytes (disk_image s) (unat os + unat d) (unat ?c)"
    have os: "unat (ucast (os + d) :: u64) = unat os + unat d" and ns: "unat (ucast (ns + d) :: u64) = unat ns + unat d"
      by (rule lba_add; use less.prems in linarith)+
    have cpos: "0 < ?c" "?c \<le> 256" using c by (auto simp: word_less_nat_alt word_le_nat_alt)
    have lB: "length ?B = 512 * unat ?c"
      by (rule length_disk_bytes_image [OF less.prems(1)]) (use less.prems c in linarith)
    let ?buf = "overwrite 0 ?B (move_buf s)"
    obtain s1 where s1: "ata_read_sectors (ucast (os + d)) ?c (move_buf s) s = (0, ?buf, s1)" "disk_ok UFS_END s1"
        "io_frame s s1" "same_disk UFS_END s s1"
      using disk_read [OF less.prems(1) cpos, of "ucast (os + d)" "move_buf s"] os less.prems c by (auto simp: ufs_shape_def)
    let ?s2 = "s1\<lparr>move_buf := ?buf\<rparr>"
    have lbuf: "length ?buf = 4096" using less.prems(2) lB c(4) by (simp add: ufs_shape_def)
    have pre: "unat (ucast (ns + d) :: u64) + unat ?c \<le> UFS_END" "512 * unat ?c \<le> length ?buf" "disk_ok UFS_END ?s2"
      using ns lbuf less.prems(4) c(3,4) s1(2) by simp_all
    obtain s3 where s3: "ata_write_sectors (ucast (ns + d)) ?c ?buf ?s2 = (0, s3)" "disk_ok UFS_END s3" "io_frame ?s2 s3"
        "\<And>l. l < UFS_END \<Longrightarrow> disk_image s3 l = put_sectors (unat ns + unat d) (unat ?c) 0 ?buf (disk_image ?s2) l"
      using disk_write [OF pre(3) cpos pre(1,2)] ns by auto
    have sec: "slice (512 * j) 512 ?buf = disk_image s (unat os + unat d + j)" if "j < unat ?c" for j
    proof -
      have "slice (512 * j) 512 ?buf = slice (512 * j) 512 ?B"
        using that lB lbuf by (simp add: overwrite_def slice_def drop_take)
      also have "\<dots> = slice 0 512 (disk_image s (unat os + unat d + j))"
        using slice_disk_bytes [OF that, of "unat os + unat d" "disk_image s" 0 512] disk_image_length [OF less.prems(1)] less.prems c
        by simp
      also have "\<dots> = disk_image s (unat os + unat d + j)"
        using disk_image_length [OF less.prems(1), of "unat os + unat d + j"] that less.prems c by (simp add: slice_def)
      finally show ?thesis .
    qed
    have img: "disk_image s3 l = (if unat ns + unat d \<le> l \<and> l < unat ns + unat d + unat ?c
        then disk_image s (l - unat ns + unat os) else disk_image s l)" if "l < UFS_END" for l
    proof (cases "unat ns + unat d \<le> l \<and> l < unat ns + unat d + unat ?c")
      case True
      then have "unat os + unat d + (l - (unat ns + unat d)) = l - unat ns + unat os" by linarith
      then show ?thesis
        using True s3(4) [OF that] sec [of "l - (unat ns + unat d)"] by (simp add: put_sectors_def less_diff_conv2)
    next
      case False
      then show ?thesis
        using s3(4) [OF that] disk_image_upd(1) [OF s1(2) that] s1(4) that by (auto simp: put_sectors_def same_disk_def)
    qed
    have shape3: "ufs_shape s3" and sb3: "superblock s3 = superblock s"
      using less.prems(2) lbuf io_frame_ufs [OF s1(3)] io_frame_ufs [OF s3(3)] by (simp_all add: ufs_shape_def)
    have m2: "same_meta s ?s2" using io_frame_meta [OF s1(3)] by simp
    have meta3: "same_meta s s3" by (rule same_meta_trans [OF m2 io_frame_meta [OF s3(3)]])
    have dec: "unat n - unat (d + ?c) < unat n - unat d" and le: "unat (d + ?c) \<le> unat n"
      using c True by (simp_all add: word_less_nat_alt)
    obtain t where t: "ufs_move os ns n (d + ?c) s3 = (0, t)" "disk_ok UFS_END t" "ufs_shape t" "same_meta s3 t"
        "superblock t = superblock s3"
        "\<And>l. l < UFS_END \<Longrightarrow> disk_image t l = (if unat ns + unat (d + ?c) \<le> l \<and> l < unat ns + unat n
          then disk_image s3 (l - unat ns + unat os) else disk_image s3 l)"
      using less.hyps [OF dec s3(2) shape3 less.prems(3,4) le] by blast
    have "disk_image t l = (if unat ns + unat d \<le> l \<and> l < unat ns + unat n
        then disk_image s (l - unat ns + unat os) else disk_image s l)" if "l < UFS_END" for l
    proof -
      have "disk_image s3 (l - unat ns + unat os) = disk_image s (l - unat ns + unat os)" if "unat ns \<le> l" "l < unat ns + unat n"
        using img [of "l - unat ns + unat os"] that less.prems(3,4) by auto
      then show ?thesis using t(6) [OF that] img [OF that] c(2,3) by auto
    qed
    moreover have "ufs_move os ns n d s = (0, t)"
      using True s1(1) s3(1) t(1) by (subst ufs_move.simps) (simp add: Let_def)
    ultimately show ?thesis using t(2,3,5) sb3 same_meta_trans [OF meta3 t(4)] by simp
  qed
qed

section \<open>Directory entries\<close>

text \<open>The 40 bytes of an entry, and its fields.\<close>

definition ent :: "u8 list \<Rightarrow> nat \<Rightarrow> u8 list" where
  "ent dir i = slice (40 * i) 40 dir"

definition ent_used :: "u8 list \<Rightarrow> bool" where "ent_used e \<longleftrightarrow> e ! 0 \<noteq> 0"
definition ent_name :: "u8 list \<Rightarrow> u8 list" where "ent_name e = cstr (take 20 e)"
definition ent_start :: "u8 list \<Rightarrow> nat" where "ent_start e = unat (read_u32 20 e)"
definition ent_size :: "u8 list \<Rightarrow> nat" where "ent_size e = unat (read_u32 24 e)"
definition ent_cap :: "u8 list \<Rightarrow> nat" where "ent_cap e = unat (read_u32 28 e)"

lemma length_ent: "length dir = 2560 \<Longrightarrow> i < 64 \<Longrightarrow> length (ent dir i) = 40"
  by (simp add: ent_def length_slice)

lemma ent_nth: "length dir = 2560 \<Longrightarrow> i < 64 \<Longrightarrow> k < 40 \<Longrightarrow> ent dir i ! k = dir ! (40 * i + k)"
  by (simp add: ent_def nth_slice)

lemma entry_used_ent: "length dir = 2560 \<Longrightarrow> i < 64 \<Longrightarrow> entry_used dir i = ent_used (ent dir i)"
  by (simp add: entry_used_def ent_used_def ent_nth entry_at_eq)

lemma read_u32_ent: "length dir = 2560 \<Longrightarrow> i < 64 \<Longrightarrow> k + 4 \<le> 40 \<Longrightarrow> read_u32 (40 * i + k) dir = read_u32 k (ent dir i)"
  by (simp add: read_u32_def ent_nth add.assoc)

lemma ent_overwrite:
  assumes "length dir = 2560" and "i < 64" and "j < 64" and "k + length xs \<le> 40"
  shows "ent (overwrite (40 * i + k) xs dir) j = (if i = j then overwrite k xs (ent dir j) else ent dir j)"
proof (rule nth_equalityI)
  have len: "40 * i + k + length xs \<le> length dir" using assms by simp
  show "length (ent (overwrite (40 * i + k) xs dir) j) = length (if i = j then overwrite k xs (ent dir j) else ent dir j)"
    using assms len by (simp add: length_ent)
  fix m
  assume "m < length (ent (overwrite (40 * i + k) xs dir) j)"
  then have m: "m < 40" using assms len by (simp add: length_ent)
  have ij: "40 * i + 40 \<le> 40 * j \<or> 40 * j + 40 \<le> 40 * i" if "i \<noteq> j" using that by linarith
  have "ent (overwrite (40 * i + k) xs dir) j ! m = overwrite (40 * i + k) xs dir ! (40 * j + m)"
    by (rule ent_nth) (use assms len m in simp_all)
  also have "\<dots> = (if 40 * i + k \<le> 40 * j + m \<and> 40 * j + m < 40 * i + k + length xs then xs ! (40 * j + m - (40 * i + k))
      else dir ! (40 * j + m))"
    by (rule nth_overwrite [OF len]) (use assms m in simp)
  also have "\<dots> = (if i = j then overwrite k xs (ent dir j) else ent dir j) ! m"
    using assms m ij by (auto simp: nth_overwrite length_ent ent_nth)
  finally show "ent (overwrite (40 * i + k) xs dir) j ! m = (if i = j then overwrite k xs (ent dir j) else ent dir j) ! m" .
qed

lemma update_overwrite: "i < length xs \<Longrightarrow> xs[i := b] = overwrite i [b] xs"
  by (rule nth_equalityI) (auto simp: nth_overwrite nth_list_update)

lemma ent_write_u32:
  assumes "length dir = 2560" and "i < 64" and "j < 64" and "k + 4 \<le> 40"
  shows "ent (write_u32 (40 * i + k) v dir) j = (if i = j then write_u32 k v (ent dir j) else ent dir j)"
  using ent_overwrite [OF assms(1-3), of k "u32_bytes v"] assms by (simp add: write_u32_overwrite length_ent)

lemma ent_update:
  assumes "length dir = 2560" and "i < 64" and "j < 64" and "k < 40"
  shows "ent (dir[40 * i + k := b]) j = (if i = j then (ent dir j)[k := b] else ent dir j)"
  using ent_overwrite [OF assms(1-3), of k "[b]"] assms by (simp add: update_overwrite length_ent)

lemma ent_set_name:
  assumes "length dir = 2560" and "i < 64" and "j < 64"
  shows "ent (set_name (40 * i) name dir) j =
    (if i = j then overwrite 0 (take 19 (cstr name) @ replicate (20 - length (take 19 (cstr name))) 0) (ent dir j) else ent dir j)"
  using ent_overwrite [OF assms, of 0 "take 19 (cstr name) @ replicate (20 - length (take 19 (cstr name))) 0"]
  by (simp add: set_name_def Let_def ufs_numbers copy_name_cstr)

lemma length_set_name: "length dir = 2560 \<Longrightarrow> i < 64 \<Longrightarrow> length (set_name (40 * i) name dir) = 2560"
  by (simp add: set_name_def Let_def ufs_numbers copy_name_cstr)

end
