(* ===== verification/Ufs_Store.thy ===== *)
theory Ufs_Store
  imports Ufs_Files
begin

text \<open>
  The invariant of the user file system, the content of its files and its name space, and what every
  operation does to them on a working drive.
\<close>

section \<open>The invariant\<close>

definition ent_fits :: "nat \<Rightarrow> u8 list \<Rightarrow> bool" where
  "ent_fits nf e \<longleftrightarrow> ent_size e \<le> 512 * ent_cap e \<and>
     (ent_cap e \<noteq> 0 \<longrightarrow> 8198 \<le> ent_start e \<and> ent_start e + ent_cap e \<le> nf) \<and> e ! 19 = 0"

definition ent_apart :: "u8 list \<Rightarrow> u8 list \<Rightarrow> bool" where
  "ent_apart e f \<longleftrightarrow> (ent_cap e = 0 \<or> ent_cap f = 0 \<or> ent_start e + ent_cap e \<le> ent_start f \<or> ent_start f + ent_cap f \<le> ent_start e) \<and>
     ent_name e \<noteq> ent_name f"

definition ufs_inv :: "u8 list \<Rightarrow> nat \<Rightarrow> bool" where
  "ufs_inv dir nf \<longleftrightarrow> 8198 \<le> nf \<and> nf \<le> UFS_END \<and>
     (\<forall>i<64. ent_used (ent dir i) \<longrightarrow> ent_fits nf (ent dir i) \<and>
       (\<forall>j<64. ent_used (ent dir j) \<and> i \<noteq> j \<longrightarrow> ent_apart (ent dir i) (ent dir j)))"

definition ufs_ok :: "'a ufs_state_scheme \<Rightarrow> bool" where
  "ufs_ok s \<longleftrightarrow> disk_ok UFS_END s \<and> ufs_shape s \<and> ufs_ready s \<and> synced s \<and>
     cached_file_count s = count_used_entries (directory s) \<and> ufs_inv (directory s) (unat (next_free_lba s))"

definition ent_bytes :: "(nat \<Rightarrow> u8 list) \<Rightarrow> u8 list \<Rightarrow> u8 list" where
  "ent_bytes img e = take (ent_size e) (disk_bytes img (ent_start e) (ent_cap e))"

definition ufs_content :: "'a ufs_state_scheme \<Rightarrow> int \<Rightarrow> u8 list option" where
  "ufs_content s h = (if handle_valid h s then Some (ent_bytes (disk_image s) (ent (directory s) (nat h))) else None)"

lemma ent_apart_sym: "ent_apart e f = ent_apart f e"
  by (auto simp: ent_apart_def)

lemma ufs_invD:
  assumes "ufs_inv dir nf" and "i < 64" and "ent_used (ent dir i)"
  shows "ent_fits nf (ent dir i)" and "j < 64 \<Longrightarrow> ent_used (ent dir j) \<Longrightarrow> i \<noteq> j \<Longrightarrow> ent_apart (ent dir i) (ent dir j)"
  using assms by (auto simp: ufs_inv_def)

lemma ent_fits_mono: "ent_fits nf e \<Longrightarrow> nf \<le> nf' \<Longrightarrow> ent_fits nf' e"
  by (auto simp: ent_fits_def)

text \<open>An update of one entry.\<close>

lemma ufs_inv_upd:
  assumes inv: "ufs_inv dir nf" and nf: "nf \<le> nf'" "nf' \<le> UFS_END" and "i < 64"
    and others: "\<And>j. j < 64 \<Longrightarrow> j \<noteq> i \<Longrightarrow> ent dir' j = ent dir j"
    and new: "ent_used (ent dir' i) \<Longrightarrow> ent_fits nf' (ent dir' i)"
    and apart: "\<And>j. ent_used (ent dir' i) \<Longrightarrow> j < 64 \<Longrightarrow> ent_used (ent dir j) \<Longrightarrow> j \<noteq> i \<Longrightarrow> ent_apart (ent dir' i) (ent dir j)"
  shows "ufs_inv dir' nf'"
  unfolding ufs_inv_def
proof (intro conjI allI impI)
  show "8198 \<le> nf'" "nf' \<le> UFS_END" using inv nf by (auto simp: ufs_inv_def)
  fix j
  assume j: "j < 64" "ent_used (ent dir' j)"
  show "ent_fits nf' (ent dir' j)"
    using j new others ufs_invD(1) [OF inv, of j] ent_fits_mono [OF _ nf(1)] by (cases "j = i") auto
  fix k
  assume k: "k < 64" "ent_used (ent dir' k) \<and> j \<noteq> k"
  show "ent_apart (ent dir' j) (ent dir' k)"
  proof (cases "j = i \<or> k = i")
    case True
    then show ?thesis using apart [of j] apart [of k] others j k ent_apart_sym by metis
  next
    case False
    then show ?thesis using others ufs_invD(2) [OF inv, of j k] j k by simp
  qed
qed

lemma ent_start_bound: "ent_fits nf e \<Longrightarrow> nf \<le> UFS_END \<Longrightarrow> ent_cap e \<noteq> 0 \<Longrightarrow> ent_start e + ent_cap e \<le> UFS_END"
  by (simp add: ent_fits_def)

text \<open>The content depends on the sectors of the extent only.\<close>

lemma ent_bytes_cong:
  assumes "\<And>l. ent_start e \<le> l \<Longrightarrow> l < ent_start e + ent_cap e \<Longrightarrow> img' l = img l"
  shows "ent_bytes img' e = ent_bytes img e"
  using disk_bytes_cong [of "ent_start e" "ent_cap e" img' img] assms by (simp add: ent_bytes_def)

lemma handle_valid_cases:
  assumes "ufs_ok s"
  shows "handle_valid h s \<longleftrightarrow> 0 \<le> h \<and> nat h < 64 \<and> ent_used (ent (directory s) (nat h))"
  using assms by (auto simp: handle_valid_def ufs_numbers entry_used_ent ufs_ok_def ufs_shape_def)

lemma length_ufs_content:
  assumes "ufs_ok s" and "ufs_content s h = Some c"
  shows "length c = ent_size (ent (directory s) (nat h))"
proof -
  let ?e = "ent (directory s) (nat h)"
  have v: "nat h < 64" "ent_used ?e" and c: "c = ent_bytes (disk_image s) ?e"
    using assms handle_valid_cases [OF assms(1)] by (auto simp: ufs_content_def split: if_splits)
  have fits: "ent_fits (unat (next_free_lba s)) ?e" and nf: "unat (next_free_lba s) \<le> UFS_END"
    using assms(1) ufs_invD(1) [OF _ v] by (auto simp: ufs_ok_def ufs_inv_def)
  have "length (disk_bytes (disk_image s) (ent_start ?e) (ent_cap ?e)) = 512 * ent_cap ?e"
  proof (cases "ent_cap ?e = 0")
    case False
    then show ?thesis
      using assms(1) length_disk_bytes_image ent_start_bound [OF fits nf] by (auto simp: ufs_ok_def)
  qed simp
  then show ?thesis using fits c by (simp add: ent_bytes_def ent_fits_def)
qed

text \<open>
  A step that keeps every used entry of other slots and their sectors, and keeps the files of other
  handles. Most operations follow this pattern: an entry changes, the directory is written out.
\<close>

lemma ufs_content_others:
  assumes ok: "ufs_ok s" and ok': "ufs_ok t"
    and ents: "\<And>j. j < 64 \<Longrightarrow> j \<noteq> i \<Longrightarrow> ent (directory t) j = ent (directory s) j"
    and sectors: "\<And>j l. j < 64 \<Longrightarrow> j \<noteq> i \<Longrightarrow> ent_used (ent (directory s) j) \<Longrightarrow> ent_start (ent (directory s) j) \<le> l \<Longrightarrow>
      l < ent_start (ent (directory s) j) + ent_cap (ent (directory s) j) \<Longrightarrow> disk_image t l = disk_image s l"
    and h: "h \<noteq> int i"
  shows "ufs_content t h = ufs_content s h"
proof (cases "0 \<le> h \<and> nat h < 64")
  case True
  then have "nat h \<noteq> i" using h by auto
  then have e: "ent (directory t) (nat h) = ent (directory s) (nat h)" using ents True by blast
  then have v: "handle_valid h t = handle_valid h s" using handle_valid_cases [OF ok] handle_valid_cases [OF ok'] by simp
  have "ent_bytes (disk_image t) (ent (directory s) (nat h)) = ent_bytes (disk_image s) (ent (directory s) (nat h))"
    if "handle_valid h s"
    by (rule ent_bytes_cong) (use sectors \<open>nat h \<noteq> i\<close> True that handle_valid_cases [OF ok] in blast)
  then show ?thesis using v e by (simp add: ufs_content_def)
next
  case False
  then show ?thesis using handle_valid_cases [OF ok] handle_valid_cases [OF ok'] by (auto simp: ufs_content_def)
qed

text \<open>The end of every operation that changes the directory: write it out.\<close>

lemma persist_step:
  fixes s u :: "'a ufs_state_scheme"
  assumes disk: "disk_ok UFS_END u" and shape: "ufs_shape u" and ready: "ufs_ready u"
    and count: "cached_file_count u = count_used_entries (directory u)" and inv: "ufs_inv (directory u) (unat (next_free_lba u))"
    and frame: "ufs_frame s u"
  obtains t where "persist_fails u = (False, t)" "ufs_ok t" "ufs_frame s t" "directory t = directory u"
    "next_free_lba t = next_free_lba u" "\<And>l. 8198 \<le> l \<Longrightarrow> l < UFS_END \<Longrightarrow> disk_image t l = disk_image u l"
proof -
  obtain t where t: "persist_fails u = (False, t)" "disk_ok UFS_END t" "ufs_shape t" "same_meta u t" "synced t"
      "\<And>l. 8198 \<le> l \<Longrightarrow> l < UFS_END \<Longrightarrow> disk_image t l = disk_image u l"
    by (rule persist_fails_ok [OF disk shape]) blast
  show thesis
    by (rule that [OF t(1)]) (use t assms in \<open>auto simp: ufs_ok_def same_meta_def intro: ufs_frame_trans\<close>)
qed

section \<open>Fields of an entry\<close>

lemma ent_write_fields:
  assumes "length e = 40"
  shows "ent_used (write_u32 20 v e) = ent_used e" "ent_used (write_u32 24 v e) = ent_used e" "ent_used (write_u32 28 v e) = ent_used e"
    "ent_name (write_u32 20 v e) = ent_name e" "ent_name (write_u32 24 v e) = ent_name e" "ent_name (write_u32 28 v e) = ent_name e"
    "ent_start (write_u32 20 v e) = unat v" "ent_start (write_u32 24 v e) = ent_start e" "ent_start (write_u32 28 v e) = ent_start e"
    "ent_size (write_u32 20 v e) = ent_size e" "ent_size (write_u32 24 v e) = unat v" "ent_size (write_u32 28 v e) = ent_size e"
    "ent_cap (write_u32 20 v e) = ent_cap e" "ent_cap (write_u32 24 v e) = ent_cap e" "ent_cap (write_u32 28 v e) = unat v"
    "write_u32 20 v e ! 19 = e ! 19" "write_u32 24 v e ! 19 = e ! 19" "write_u32 28 v e ! 19 = e ! 19"
proof -
  have name: "take 20 (write_u32 k v e) = take 20 e" if "20 \<le> k" "k + 4 \<le> 40" for k
    using slice_overwrite_other [of k "u32_bytes v" e 0 20] that assms by (simp add: write_u32_overwrite slice_def)
  show "ent_name (write_u32 20 v e) = ent_name e" "ent_name (write_u32 24 v e) = ent_name e" "ent_name (write_u32 28 v e) = ent_name e"
    by (simp_all add: ent_name_def name)
qed (use assms in \<open>simp_all add: ent_used_def ent_start_def ent_size_def ent_cap_def read_write_u32_other nth_write_u32_other\<close>)

text \<open>The part of an entry that is not about storage: name, owner and permissions.\<close>

definition ent_attrs :: "u8 list \<Rightarrow> u8 list \<times> u8 list" where
  "ent_attrs e = (slice 0 20 e, slice 32 8 e)"

lemma ent_attrs_write:
  "length e = 40 \<Longrightarrow> ent_attrs (write_u32 20 v e) = ent_attrs e" "length e = 40 \<Longrightarrow> ent_attrs (write_u32 24 v e) = ent_attrs e"
  "length e = 40 \<Longrightarrow> ent_attrs (write_u32 28 v e) = ent_attrs e"
  by (simp_all add: ent_attrs_def write_u32_overwrite slice_overwrite_other)

lemma ent_attrs_used: "length e = 40 \<Longrightarrow> length f = 40 \<Longrightarrow> ent_attrs e = ent_attrs f \<Longrightarrow> ent_used e = ent_used f"
  by (cases e; cases f) (auto simp: ent_attrs_def ent_used_def slice_def)

definition same_attrs :: "'a ufs_state_scheme \<Rightarrow> 'a ufs_state_scheme \<Rightarrow> bool" where
  "same_attrs s t \<longleftrightarrow> (\<forall>i<64. ent_attrs (ent (directory t) i) = ent_attrs (ent (directory s) i))"

lemma same_attrs_refl [simp]: "same_attrs s s"
  by (simp add: same_attrs_def)

lemma same_attrs_trans: "same_attrs s t \<Longrightarrow> same_attrs t u \<Longrightarrow> same_attrs s u"
  by (simp add: same_attrs_def)

lemma ufs_ok_dir: "ufs_ok s \<Longrightarrow> length (directory s) = 2560"
  by (simp add: ufs_ok_def ufs_shape_def)

lemma same_attrs_valid:
  assumes "ufs_ok s" and "ufs_ok t" and "same_attrs s t"
  shows "handle_valid h t = handle_valid h s"
proof (cases "nat h < 64")
  case True
  then have "ent_used (ent (directory t) (nat h)) = ent_used (ent (directory s) (nat h))"
    using assms by (intro ent_attrs_used) (simp_all add: same_attrs_def length_ent ufs_ok_dir)
  then show ?thesis using assms by (simp add: handle_valid_cases)
next
  case False
  then show ?thesis using assms by (simp add: handle_valid_cases)
qed

lemma count_used_cong: "(\<And>i. i < 64 \<Longrightarrow> entry_used dir' i = entry_used dir i) \<Longrightarrow> count_used_entries dir' = count_used_entries dir"
  unfolding count_used_entries_def by (rule fold_cong) (auto simp: ufs_numbers)

lemma count_used_attrs:
  assumes "length dir' = 2560" "length dir = 2560" "\<And>i. i < 64 \<Longrightarrow> ent_attrs (ent dir' i) = ent_attrs (ent dir i)"
  shows "count_used_entries dir' = count_used_entries dir"
  by (rule count_used_cong) (use assms ent_attrs_used in \<open>auto simp: entry_used_ent length_ent\<close>)

section \<open>Growing a file\<close>

lemma double_until_upper: "double_until c n = Some d \<Longrightarrow> d = c \<or> unat d \<le> 2 * unat n"
proof (erule double_until.raw_induct [where P = "\<lambda>c n d. d = c \<or> unat d \<le> 2 * unat n", rotated])
  fix rec and c n d :: u32
  assume ih: "\<And>c n d. rec c n = Some d \<Longrightarrow> d = c \<or> unat d \<le> 2 * unat n"
    and r: "(if c < n then rec (c * 2) n else Some c) = Some d"
  show "d = c \<or> unat d \<le> 2 * unat n"
  proof (cases "c < n")
    case True
    have "unat (c * 2) \<le> unat c * 2" by (simp add: unat_word_ariths)
    then show ?thesis using True ih [of "c * 2" n d] r by (auto simp: word_less_nat_alt)
  qed (use r in simp)
qed

lemma sectors_for_bytes_nat:
  assumes "unat b \<le> 2 ^ 32 - 512"
  shows "unat (sectors_for_bytes b) = (unat b + 511) div 512"
proof -
  have "b + SECTOR_SIZE - 1 = b + 511" by (simp add: ufs_numbers)
  moreover have "unat (b + 511) = unat b + 511"
    using assms unat_add_small [of b 511] by simp
  ultimately show ?thesis by (simp only: sectors_for_bytes_def unat_div_distrib ufs_numbers) simp
qed

lemma take_disk_bytes:
  assumes "m \<le> 512 * n" and "n \<le> k" and "\<And>i. l \<le> i \<Longrightarrow> i < l + k \<Longrightarrow> length (sec i) = 512"
  shows "take m (disk_bytes sec l k) = take m (disk_bytes sec l n)"
proof -
  have "disk_bytes sec l k = disk_bytes sec l n @ disk_bytes sec (l + n) (k - n)"
    using disk_bytes_add [of sec l n "k - n"] assms(2) by simp
  moreover have "length (disk_bytes sec l n) = 512 * n" by (rule length_disk_bytes_range) (use assms in auto)
  ultimately show ?thesis using assms(1) by simp
qed

lemma disk_bytes_shift: "(\<And>i. i < n \<Longrightarrow> sec' (l' + i) = sec (l + i)) \<Longrightarrow> disk_bytes sec' l' n = disk_bytes sec l n"
proof (induction n arbitrary: l l')
  case (Suc n)
  have "disk_bytes sec' (l' + 1) n = disk_bytes sec (l + 1) n"
    by (rule Suc.IH) (use Suc.prems [of "Suc i" for i] in simp)
  then show ?case using Suc.prems [of 0] by (simp add: disk_bytes_Suc)
qed simp

text \<open>The handle's entry, and what the invariant says about it.\<close>

lemma ufs_ok_entry:
  assumes "ufs_ok s" and "handle_valid h s"
  obtains i where "i = nat h" "i < 64" "h = int i" "ent_used (ent (directory s) i)" "length (directory s) = 2560"
    "ent_fits (unat (next_free_lba s)) (ent (directory s) i)" "length (ent (directory s) i) = 40"
    "8198 \<le> unat (next_free_lba s)" "unat (next_free_lba s) \<le> UFS_END"
    "\<And>k. k + 4 \<le> 40 \<Longrightarrow> read_u32 (entry_at (nat h) + k) (directory s) = read_u32 k (ent (directory s) i)"
proof -
  let ?e = "ent (directory s) (nat h)"
  have h: "0 \<le> h" "nat h < 64" "ent_used ?e" using assms by (simp_all add: handle_valid_cases [OF assms(1)])
  have l: "length (directory s) = 2560" and inv: "ufs_inv (directory s) (unat (next_free_lba s))"
    using assms(1) by (simp_all add: ufs_ok_def ufs_shape_def)
  show thesis
    by (rule that [of "nat h"]) (use h l inv in \<open>auto simp: length_ent read_u32_ent entry_at_eq ufs_inv_def\<close>)
qed

lemma ufs_relocate:
  fixes s s1 :: "'a ufs_state_scheme"
  assumes ok: "ufs_ok s" and i: "i < 64" and used: "ent_used (ent (directory s) i)"
    and d: "ent_cap (ent (directory s) i) \<le> unat d" "unat (next_free_lba s) + unat d \<le> UFS_END"
    and n: "ent_size (ent (directory s) i) \<le> 512 * n" "n \<le> ent_cap (ent (directory s) i)"
    and s1: "disk_ok UFS_END s1" "ufs_shape s1" "same_meta s s1"
    and moved: "\<And>l. l < UFS_END \<Longrightarrow> disk_image s1 l =
      (if unat (next_free_lba s) \<le> l \<and> l < unat (next_free_lba s) + n
       then disk_image s (l - unat (next_free_lba s) + ent_start (ent (directory s) i)) else disk_image s l)"
  shows "\<exists>t. persist_fails (s1\<lparr>directory := write_u32 (40 * i + 28) d (write_u32 (40 * i + 20) (next_free_lba s) (directory s)),
        next_free_lba := next_free_lba s + d\<rparr>) = (False, t) \<and> ufs_ok t \<and> ufs_frame s t \<and> ufs_content t = ufs_content s \<and>
      same_attrs s t \<and> ent_cap (ent (directory t) i) = unat d"
proof -
  let ?dir = "directory s" and ?nf = "next_free_lba s"
  let ?e = "ent ?dir i"
  let ?dir' = "write_u32 (40 * i + 28) d (write_u32 (40 * i + 20) ?nf ?dir)"
  let ?u = "s1\<lparr>directory := ?dir', next_free_lba := ?nf + d\<rparr>"
  note len = ufs_ok_dir [OF ok]
  have le: "length ?e = 40" by (rule length_ent [OF len i])
  have inv: "ufs_inv ?dir (unat ?nf)" and nf: "8198 \<le> unat ?nf" "unat ?nf \<le> UFS_END" using ok by (auto simp: ufs_ok_def ufs_inv_def)
  note fits = ufs_invD(1) [OF inv i used]
  have nf': "unat (?nf + d) = unat ?nf + unat d" by (rule unat_add_small) (use d in simp)
  have ents: "ent ?dir' j = (if j = i then write_u32 28 d (write_u32 20 ?nf ?e) else ent ?dir j)" if "j < 64" for j
    using i that len by (simp add: ent_write_u32)
  note flds = ent_write_fields [OF le] ent_write_fields [of "write_u32 20 ?nf ?e", simplified, OF le]
  have below: "ent_start (ent ?dir j) + ent_cap (ent ?dir j) \<le> unat ?nf \<and> 8198 \<le> ent_start (ent ?dir j)"
    if "j < 64" "ent_used (ent ?dir j)" "ent_cap (ent ?dir j) \<noteq> 0" for j
    using ufs_invD(1) [OF inv that(1,2)] that(3) by (simp add: ent_fits_def)
  have inv': "ufs_inv ?dir' (unat (?nf + d))"
  proof (rule ufs_inv_upd [OF inv _ _ i])
    show "unat ?nf \<le> unat (?nf + d)" "unat (?nf + d) \<le> UFS_END" using nf' d by simp_all
    show "ent_fits (unat (?nf + d)) (ent ?dir' i)"
      using ents [OF i] fits d nf nf' by (auto simp: ent_fits_def flds)
    show "ent_apart (ent ?dir' i) (ent ?dir j)" if j: "j < 64" "ent_used (ent ?dir j)" "j \<noteq> i" for j
      using ents [OF i] ufs_invD(2) [OF inv i used j(1,2)] below [OF j(1,2)] j(3) by (auto simp: ent_apart_def flds)
  qed (use ents in auto)
  have attrs: "ent_attrs (ent ?dir' j) = ent_attrs (ent ?dir j)" if "j < 64" for j
    using ents [OF that] le by (simp add: ent_attrs_write)
  have count: "count_used_entries ?dir' = count_used_entries ?dir"
    by (rule count_used_attrs) (use attrs len in auto)
  obtain t where t: "persist_fails ?u = (False, t)" "ufs_ok t" "ufs_frame s t" "directory t = directory ?u"
      "next_free_lba t = next_free_lba ?u" "\<And>l. 8198 \<le> l \<Longrightarrow> l < UFS_END \<Longrightarrow> disk_image t l = disk_image ?u l"
    by (rule persist_step [of ?u s])
      (use s1 len inv' count ok in \<open>auto simp: ufs_shape_def same_meta_def ufs_ok_def\<close>)
  have img: "disk_image t l = disk_image s1 l" if "8198 \<le> l" "l < UFS_END" for l
    using t(6) [OF that] disk_image_cong [OF s1(1) _ that(2), of ?u] by (simp add: same_io_def)
  have dir: "directory t = ?dir'" using t(4) by simp
  have att: "same_attrs s t" using attrs dir by (simp add: same_attrs_def)
  have bytes: "ent_bytes (disk_image t) (ent (directory t) i) = ent_bytes (disk_image s) ?e"
  proof -
    let ?D = "disk_bytes (disk_image s) (ent_start ?e)"
    have e': "ent_start (ent (directory t) i) = unat ?nf" "ent_size (ent (directory t) i) = ent_size ?e" "ent_cap (ent (directory t) i) = unat d"
      using dir ents [OF i] by (simp_all add: flds)
    have dt: "disk_ok UFS_END t" using t(2) by (simp add: ufs_ok_def)
    have lent: "length (disk_image t l) = 512" if "l < UFS_END" for l
      using disk_image_length [OF dt that] .
    have "disk_bytes (disk_image t) (unat ?nf) n = ?D n"
      by (rule disk_bytes_shift) (use img moved nf n d in \<open>auto simp: add.commute\<close>)
    moreover have "take (ent_size ?e) (disk_bytes (disk_image t) (unat ?nf) (unat d)) = take (ent_size ?e) (disk_bytes (disk_image t) (unat ?nf) n)"
      by (rule take_disk_bytes [OF n(1)]) (use n d lent in auto)
    moreover have "take (ent_size ?e) (?D (ent_cap ?e)) = take (ent_size ?e) (?D n)"
    proof (cases "ent_cap ?e = 0")
      case False
      have ds: "disk_ok UFS_END s" using ok by (simp add: ufs_ok_def)
      show ?thesis
        by (rule take_disk_bytes [OF n(1,2)], rule disk_image_length [OF ds])
          (use ent_start_bound [OF fits nf(2) False] in linarith)
    qed (use n in simp)
    ultimately show ?thesis by (simp add: ent_bytes_def e')
  qed
  have "ufs_content t h = ufs_content s h" for h
  proof (cases "h = int i")
    case True
    then show ?thesis using bytes same_attrs_valid [OF ok t(2) att] by (simp add: ufs_content_def)
  next
    case False
    show ?thesis
    proof (rule ufs_content_others [OF ok t(2) _ _ False])
      fix j l
      assume j: "j < 64" "j \<noteq> i"
      show "ent (directory t) j = ent (directory s) j" using ents j dir by simp
      assume u: "ent_used (ent ?dir j)" and l: "ent_start (ent ?dir j) \<le> l" "l < ent_start (ent ?dir j) + ent_cap (ent ?dir j)"
      then have "8198 \<le> l" "l < unat ?nf" using below [OF j(1) u] by auto
      then show "disk_image t l = disk_image s l" using img [of l] moved [of l] nf by auto
    qed
  qed
  moreover have "ent_cap (ent (directory t) i) = unat d" using dir ents [OF i] by (simp add: flds)
  ultimately show ?thesis using t(1-3) att by blast
qed

text \<open>A file may fail to grow only when its extent is too small and the data area has no room for a new one.\<close>

definition ufs_full :: "'a ufs_state_scheme \<Rightarrow> int \<Rightarrow> nat \<Rightarrow> bool" where
  "ufs_full s h needed \<longleftrightarrow> 512 * ent_cap (ent (directory s) (nat h)) < needed \<and>
     UFS_END < unat (next_free_lba s) + max (ent_cap (ent (directory s) (nat h))) (2 * ((needed + 511) div 512))"

lemma ufs_ensure_capacity_correct:
  fixes s :: "'a ufs_state_scheme"
  assumes ok: "ufs_ok s" and h: "handle_valid h s" and needed: "unat needed \<le> 2 ^ 32 - 512"
  shows "\<exists>t rc. ufs_ensure_capacity h needed s = Some (t, rc) \<and>
    (rc = -1 \<and> t = s \<and> ufs_full s h (unat needed) \<or>
    rc = 0 \<and> ufs_ok t \<and> ufs_frame s t \<and> ufs_content t = ufs_content s \<and> same_attrs s t \<and>
    unat needed \<le> 512 * ent_cap (ent (directory t) (nat h)))"
proof -
  obtain i where i: "i = nat h" "i < 64" "h = int i" "ent_used (ent (directory s) i)" "length (directory s) = 2560"
      "ent_fits (unat (next_free_lba s)) (ent (directory s) i)" "length (ent (directory s) i) = 40"
      "8198 \<le> unat (next_free_lba s)" "unat (next_free_lba s) \<le> UFS_END"
      "\<And>k. k + 4 \<le> 40 \<Longrightarrow> read_u32 (entry_at (nat h) + k) (directory s) = read_u32 k (ent (directory s) i)"
    by (rule ufs_ok_entry [OF ok h]) blast
  let ?e = "ent (directory s) i" and ?nf = "next_free_lba s"
  let ?cap = "read_u32 28 ?e" and ?size = "read_u32 24 ?e" and ?ns = "sectors_for_bytes needed"
  have cap: "unat ?cap \<le> 8192"
    using i(6,8,9) by (auto simp: ent_fits_def ent_cap_def)
  then have capb: "unat (?cap * SECTOR_SIZE) = unat ?cap * 512" by (simp add: ufs_numbers unat_word_ariths)
  show ?thesis
  proof (cases "needed \<le> ?cap * SECTOR_SIZE")
    case True
    then have "unat needed \<le> 512 * ent_cap ?e" using capb by (simp add: word_le_nat_alt ent_cap_def mult.commute)
    moreover have "ufs_ensure_capacity h needed s = Some (s, 0)"
      using True i(10) [of 28] by (simp add: ufs_ensure_capacity_def Let_def)
    ultimately show ?thesis using ok i(1) by simp
  next
    case False
    let ?c0 = "if ?cap = 0 then 1 else ?cap"
    have ns: "unat ?ns = (unat needed + 511) div 512" by (rule sectors_for_bytes_nat [OF needed])
    then have ns_le: "unat ?ns \<le> 2 ^ 23" using needed by simp
    have c0: "?c0 \<noteq> 0" by simp
    have ns31: "unat ?ns \<le> 2 ^ 31" using ns_le by simp
    obtain d where d: "double_until ?c0 ?ns = Some d" "?ns \<le> d" "?c0 \<le> d"
      using double_until_small [OF c0 ns31] by blast
    have dmax: "unat d \<le> 2 ^ 24" using double_until_upper [OF d(1)] cap ns_le by (auto split: if_splits)
    have dcap: "ent_cap ?e \<le> unat d" using d(3) by (auto simp: ent_cap_def word_le_nat_alt split: if_splits)
    have room: "unat needed \<le> 512 * unat d" using d(2) ns by (simp add: word_le_nat_alt)
    have nfd: "unat (?nf + d) = unat ?nf + unat d" by (rule unat_add_small) (use i(9) dmax in simp)
    show ?thesis
    proof (cases "?nf + d > UFS_DATA_END_LBA")
      case True
      have small: "512 * ent_cap ?e < unat needed" using False capb by (simp add: word_le_nat_alt ent_cap_def)
      have "unat d \<le> max (ent_cap ?e) (2 * unat ?ns)"
        using double_until_upper [OF d(1)] small ns by (auto simp: ent_cap_def split: if_splits)
      moreover have "UFS_END < unat ?nf + unat d" using True nfd by (simp add: word_less_nat_alt ufs_numbers)
      ultimately have "ufs_full s h (unat needed)" using small ns i(1) by (simp add: ufs_full_def)
      moreover have "ufs_ensure_capacity h needed s = Some (s, -1)"
      proof -
        have nh: "nat h = i" using i(1) by simp
        have r: "read_u32 (40 * i + 28) (directory s) = ?cap" using i(10) [of 28] by (simp add: nh entry_at_eq)
        show ?thesis
          unfolding ufs_ensure_capacity_def Let_def entry_at_eq nh r if_not_P [OF False] d(1) bind.bind_lunit if_P [OF True] ..
      qed
      ultimately show ?thesis using i(1) by simp
    next
      case fits: False
      then have nf_le: "unat ?nf + unat d \<le> UFS_END" using nfd by (simp add: word_less_nat_alt ufs_numbers)
      let ?n = "sectors_for_bytes ?size"
      have size: "unat ?size \<le> 512 * unat ?cap" using i(6) by (simp add: ent_fits_def ent_size_def ent_cap_def)
      then have n: "unat ?n = (unat ?size + 511) div 512" using cap by (intro sectors_for_bytes_nat) simp
      have n1: "ent_size ?e \<le> 512 * unat ?n" "unat ?n \<le> ent_cap ?e" using n size by (simp_all add: ent_size_def ent_cap_def)
      let ?mv = "if ?size > 0 then ufs_move (read_u32 20 ?e) ?nf ?n 0 s else (0, s)"
      have "\<exists>s1. ?mv = (0, s1) \<and> disk_ok UFS_END s1 \<and> ufs_shape s1 \<and> same_meta s s1 \<and> (\<forall>l<UFS_END. disk_image s1 l =
          (if unat ?nf \<le> l \<and> l < unat ?nf + unat ?n then disk_image s (l - unat ?nf + ent_start ?e) else disk_image s l))"
      proof (cases "?size > 0")
        case True
        then have "ent_cap ?e \<noteq> 0" using size by (auto simp: ent_cap_def word_less_nat_alt)
        then have p1: "unat (read_u32 20 ?e) + unat ?n \<le> unat ?nf" using i(6) n1(2) by (simp add: ent_fits_def ent_start_def)
        have p2: "unat ?nf + unat ?n \<le> UFS_END" using n1(2) dcap nf_le by linarith
        have z: "unat (0 :: u32) \<le> unat ?n" by simp
        have "disk_ok UFS_END s" "ufs_shape s" using ok by (simp_all add: ufs_ok_def)
        note mv = ufs_move_ok [OF this p1 p2 z, unfolded unsigned_0 add_0_right]
        show ?thesis unfolding ent_start_def if_P [OF True] using mv by (elim exE conjE) (intro exI conjI; assumption)
      next
        case False
        then have "unat ?size = 0" by (simp add: word_less_nat_alt)
        then have "unat ?n = 0" using n by simp
        then have "disk_image s l = (if unat ?nf \<le> l \<and> l < unat ?nf + unat ?n
            then disk_image s (l - unat ?nf + ent_start ?e) else disk_image s l)" for l by auto
        moreover have "disk_ok UFS_END s" "ufs_shape s" using ok by (simp_all add: ufs_ok_def)
        ultimately show ?thesis unfolding if_not_P [OF False] by (intro exI [of _ s] conjI allI impI) (assumption | simp only: same_meta_refl)+
      qed
      then obtain s1 where s1: "?mv = (0, s1)" "disk_ok UFS_END s1" "ufs_shape s1" "same_meta s s1"
          "\<And>l. l < UFS_END \<Longrightarrow> disk_image s1 l = (if unat ?nf \<le> l \<and> l < unat ?nf + unat ?n
            then disk_image s (l - unat ?nf + ent_start ?e) else disk_image s l)" by blast
      obtain t where t: "persist_fails (s1\<lparr>directory := write_u32 (40 * i + 28) d (write_u32 (40 * i + 20) ?nf (directory s)),
            next_free_lba := ?nf + d\<rparr>) = (False, t)" "ufs_ok t" "ufs_frame s t" "ufs_content t = ufs_content s" "same_attrs s t"
            "ent_cap (ent (directory t) i) = unat d"
        using ufs_relocate [OF ok i(2,4) dcap nf_le n1 s1(2-5)] by blast
      have "ufs_ensure_capacity h needed s = Some (t, 0)"
      proof -
        have nh: "nat h = i" using i(1) by simp
        have r: "read_u32 (40 * i + 28) (directory s) = ?cap" "read_u32 (40 * i + 20) (directory s) = read_u32 20 ?e"
          "read_u32 (40 * i + 24) (directory s) = ?size" "directory s1 = directory s" "next_free_lba s1 = ?nf"
          using i(10) [of 28] i(10) [of 20] i(10) [of 24] s1(4) by (simp_all add: nh entry_at_eq same_meta_def)
        show ?thesis
          unfolding ufs_ensure_capacity_def Let_def entry_at_eq nh r if_not_P [OF False] d(1) bind.bind_lunit if_not_P [OF fits] s1(1)
          by (simp add: r t(1))
      qed
      then show ?thesis using t(2-6) room i(1) by auto
    qed
  qed
qed

section \<open>Writing and reading files\<close>

text \<open>A change of data sectors alone keeps the invariant.\<close>

lemma ufs_ok_data:
  assumes "ufs_ok s" and "disk_ok UFS_END t" and "ufs_shape t" and "same_meta s t"
    and "\<And>l. 8192 \<le> l \<Longrightarrow> l < 8198 \<Longrightarrow> disk_image t l = disk_image s l"
  shows "ufs_ok t"
proof -
  have "disk_bytes (disk_image t) 8193 5 = disk_bytes (disk_image s) 8193 5"
    by (rule disk_bytes_cong) (use assms(5) in auto)
  then show ?thesis
    using assms by (auto simp: ufs_ok_def same_meta_def synced_def)
qed

lemma written_overwrite:
  assumes "off + length src \<le> length D" and "n \<le> length D"
  shows "written off src (take n D) (take (max n (off + length src)) (overwrite off src D))"
  unfolding written_def
proof (intro conjI allI impI)
  show "length (take (max n (off + length src)) (overwrite off src D)) = max (length (take n D)) (off + length src)"
    using assms by simp
  have "slice off (length src) (take (max n (off + length src)) (overwrite off src D)) = slice off (length src) (overwrite off src D)"
    by (simp add: slice_def drop_take min_def)
  then show "slice off (length src) (take (max n (off + length src)) (overwrite off src D)) = src"
    using slice_overwrite_same [OF assms(1)] by simp
  fix i
  assume "i < length (take n D)" "i < off \<or> off + length src \<le> i"
  then show "take (max n (off + length src)) (overwrite off src D) ! i = take n D ! i"
    using assms nth_overwrite [OF assms(1), of i] by auto
qed

lemma ufs_content_entry:
  assumes "ufs_ok s" and "ufs_content s h = Some c"
  shows "handle_valid h s" and "c = ent_bytes (disk_image s) (ent (directory s) (nat h))"
  using assms by (auto simp: ufs_content_def split: if_splits)

text \<open>The end of a write: the size grows when the write ended behind it.\<close>

lemma ufs_set_size:
  fixes s :: "'a ufs_state_scheme"
  assumes ok: "ufs_ok s" and i: "i < 64" and used: "ent_used (ent (directory s) i)"
    and size: "unat n \<le> 512 * ent_cap (ent (directory s) i)"
  obtains t where "persist_fails (s\<lparr>directory := write_u32 (40 * i + 24) n (directory s)\<rparr>) = (False, t)" "ufs_ok t" "ufs_frame s t"
    "same_attrs s t" "\<And>h. h \<noteq> int i \<Longrightarrow> ufs_content t h = ufs_content s h"
    "ent_bytes (disk_image t) (ent (directory t) i) =
       take (unat n) (disk_bytes (disk_image s) (ent_start (ent (directory s) i)) (ent_cap (ent (directory s) i)))"
    "ent_size (ent (directory t) i) = unat n" "ent_cap (ent (directory t) i) = ent_cap (ent (directory s) i)"
    "next_free_lba t = next_free_lba s"
proof -
  let ?dir = "directory s"
  let ?e = "ent ?dir i" and ?dir' = "write_u32 (40 * i + 24) n ?dir"
  let ?u = "s\<lparr>directory := ?dir'\<rparr>"
  note len = ufs_ok_dir [OF ok]
  have le: "length ?e = 40" by (rule length_ent [OF len i])
  have inv: "ufs_inv ?dir (unat (next_free_lba s))" and nf: "unat (next_free_lba s) \<le> UFS_END"
    using ok by (auto simp: ufs_ok_def ufs_inv_def)
  note fits = ufs_invD(1) [OF inv i used]
  have ents: "ent ?dir' j = (if j = i then write_u32 24 n ?e else ent ?dir j)" if "j < 64" for j
    using i that len by (simp add: ent_write_u32)
  note flds = ent_write_fields [OF le]
  have inv': "ufs_inv ?dir' (unat (next_free_lba s))"
    by (rule ufs_inv_upd [OF inv _ nf i])
      (use ents i fits size ufs_invD(2) [OF inv i used] in \<open>auto simp: ent_fits_def ent_apart_def flds\<close>)
  have attrs: "ent_attrs (ent ?dir' j) = ent_attrs (ent ?dir j)" if "j < 64" for j
    using ents [OF that] le by (simp add: ent_attrs_write)
  have count: "count_used_entries ?dir' = count_used_entries ?dir" by (rule count_used_attrs) (use attrs len in auto)
  have ds: "disk_ok UFS_END s" using ok by (simp add: ufs_ok_def)
  obtain t where t: "persist_fails ?u = (False, t)" "ufs_ok t" "ufs_frame s t" "directory t = directory ?u" "next_free_lba t = next_free_lba s"
      "\<And>l. 8198 \<le> l \<Longrightarrow> l < UFS_END \<Longrightarrow> disk_image t l = disk_image ?u l"
    by (rule persist_step [of ?u s]) (use ok len inv' count in \<open>auto simp: ufs_shape_def ufs_ok_def\<close>)
  have img: "disk_image t l = disk_image s l" if "8198 \<le> l" "l < UFS_END" for l
    using t(6) [OF that] disk_image_cong [OF ds _ that(2), of ?u] by (simp add: same_io_def)
  have dir: "directory t = ?dir'" using t(4) by simp
  have att: "same_attrs s t" using attrs dir by (simp add: same_attrs_def)
  have others: "ufs_content t h = ufs_content s h" if h: "h \<noteq> int i" for h
  proof (rule ufs_content_others [OF ok t(2) _ _ h])
    fix j l
    assume j: "j < 64" "j \<noteq> i"
    show "ent (directory t) j = ent (directory s) j" using ents j dir by simp
    assume u: "ent_used (ent ?dir j)" and l: "ent_start (ent ?dir j) \<le> l" "l < ent_start (ent ?dir j) + ent_cap (ent ?dir j)"
    then have "8198 \<le> l" "l < UFS_END" using ufs_invD(1) [OF inv j(1) u] nf by (auto simp: ent_fits_def)
    then show "disk_image t l = disk_image s l" by (rule img)
  qed
  have "disk_bytes (disk_image t) (ent_start ?e) (ent_cap ?e) = disk_bytes (disk_image s) (ent_start ?e) (ent_cap ?e)"
    by (rule disk_bytes_cong, rule img) (use fits nf in \<open>auto simp: ent_fits_def\<close>)
  then have "ent_bytes (disk_image t) (ent (directory t) i) = take (unat n) (disk_bytes (disk_image s) (ent_start ?e) (ent_cap ?e))"
    using dir ents [OF i] by (simp add: ent_bytes_def flds)
  moreover have "ent_size (ent (directory t) i) = unat n" "ent_cap (ent (directory t) i) = ent_cap ?e"
    using dir ents [OF i] by (simp_all add: flds)
  ultimately show thesis using that [OF t(1-3) att others _ _ _ t(5)] by blast
qed

text \<open>The loop of \<open>ufs_write_at\<close>, in a file with room for the bytes.\<close>

lemma ufs_store_bytes:
  fixes s :: "'a ufs_state_scheme"
  assumes ok: "ufs_ok s" and i: "i < 64" and used: "ent_used (ent (directory s) i)"
    and room: "unat off + unat len \<le> 512 * ent_cap (ent (directory s) i)" and src: "unat len \<le> length src" and pos: "0 < unat len"
  obtains t where "ufs_write_loop (read_u32 20 (ent (directory s) i)) off len src s = (0, t)" "ufs_ok t" "same_meta s t"
    "\<And>h. h \<noteq> int i \<Longrightarrow> ufs_content t h = ufs_content s h"
    "disk_bytes (disk_image t) (ent_start (ent (directory s) i)) (ent_cap (ent (directory s) i)) =
       overwrite (unat off) (take (unat len) src) (disk_bytes (disk_image s) (ent_start (ent (directory s) i)) (ent_cap (ent (directory s) i)))"
proof -
  let ?e = "ent (directory s) i"
  have inv: "ufs_inv (directory s) (unat (next_free_lba s))" and nf: "unat (next_free_lba s) \<le> UFS_END"
    and ds: "disk_ok UFS_END s" "ufs_shape s"
    using ok by (auto simp: ufs_ok_def ufs_inv_def)
  note fits = ufs_invD(1) [OF inv i used]
  have cap: "ent_cap ?e \<noteq> 0" using room pos by auto
  have ext: "8198 \<le> ent_start ?e" "ent_start ?e + ent_cap ?e \<le> UFS_END" using fits nf cap by (auto simp: ent_fits_def)
  have e: "unat (read_u32 20 ?e) + ent_cap ?e \<le> UFS_END" using ext(2) by (simp add: ent_start_def)
  obtain t where t: "ufs_write_loop (read_u32 20 ?e) off len src s = (0, t)" "disk_ok UFS_END t" "ufs_shape t" "same_meta s t"
      "outside_same (ent_start ?e) (ent_cap ?e) s t"
      "disk_bytes (disk_image t) (ent_start ?e) (ent_cap ?e) =
         overwrite (unat off) (take (unat len) src) (disk_bytes (disk_image s) (ent_start ?e) (ent_cap ?e))"
    using ufs_write_loop_ok [OF ds e room src] unfolding ent_start_def by blast
  have okt: "ufs_ok t" by (rule ufs_ok_data [OF ok t(2-4)]) (use t(5) ext in \<open>auto simp: outside_same_def\<close>)
  have "ufs_content t h = ufs_content s h" if h: "h \<noteq> int i" for h
  proof (rule ufs_content_others [OF ok okt _ _ h])
    show "ent (directory t) j = ent (directory s) j" for j using t(4) by (simp add: same_meta_def)
    fix j l
    assume j: "j < 64" "j \<noteq> i" "ent_used (ent (directory s) j)"
      and l: "ent_start (ent (directory s) j) \<le> l" "l < ent_start (ent (directory s) j) + ent_cap (ent (directory s) j)"
    have "ent_apart ?e (ent (directory s) j)" using ufs_invD(2) [OF inv i used j(1,3)] j(2) by auto
    then have "l < ent_start ?e \<or> ent_start ?e + ent_cap ?e \<le> l" using l cap by (auto simp: ent_apart_def)
    moreover have "l < UFS_END" using ufs_invD(1) [OF inv j(1,3)] l nf by (auto simp: ent_fits_def)
    ultimately show "disk_image t l = disk_image s l" using t(5) by (auto simp: outside_same_def)
  qed
  then show thesis using that [OF t(1) okt t(4) _ t(6)] by blast
qed

lemma ufs_write_at_cases:
  fixes s :: "'a ufs_state_scheme"
  assumes ok: "ufs_ok s" and c: "ufs_content s h = Some c" and src: "unat len \<le> length src"
    and lim: "unat off + unat len \<le> 2 ^ 32 - 512" and gap: "0 < unat len \<or> unat off \<le> length c"
  shows "\<exists>t r. ufs_write_at h off src len s = Some (t, r) \<and>
    (r = -1 \<and> t = s \<and> ufs_full s h (unat off + unat len) \<or>
    r = sint len \<and> ufs_ok t \<and> ufs_frame s t \<and> same_attrs s t \<and> (\<forall>g. g \<noteq> h \<longrightarrow> ufs_content t g = ufs_content s g) \<and>
    (\<exists>c'. ufs_content t h = Some c' \<and> written (unat off) (take (unat len) src) c c'))"
proof -
  note hv = ufs_content_entry [OF ok c]
  have lc: "length c = ent_size (ent (directory s) (nat h))" by (rule length_ufs_content [OF ok c])
  have n: "unat (off + len) = unat off + unat len" by (rule unat_add_small) (use lim in simp)
  then have nwrap: "\<not> off + len < off" by (simp add: word_less_nat_alt)
  obtain i where i: "i = nat h" "i < 64" "h = int i" "ent_used (ent (directory s) i)" "length (directory s) = 2560"
      "\<And>k. k + 4 \<le> 40 \<Longrightarrow> read_u32 (entry_at (nat h) + k) (directory s) = read_u32 k (ent (directory s) i)"
    by (rule ufs_ok_entry [OF ok hv(1)]) blast
  have nh: "nat h = i" using i(1) by simp
  show ?thesis
  proof (cases "len = 0")
    case True
    then have "\<not> off + len > read_u32 24 (ent (directory s) i)"
      using gap lc nh by (simp add: word_less_nat_alt ent_size_def)
    moreover have "ufs_write_loop a off len src s = (0, s)" for a using True by (subst ufs_write_loop.simps) simp
    ultimately have "ufs_write_at h off src len s = Some (s, sint len)"
      using True hv(1) i(6) [of 24] by (simp add: ufs_write_at_def)
    moreover have "written (unat off) (take (unat len) src) c c"
      using True gap by (simp add: written_def slice_def)
    ultimately show ?thesis using ok c by auto
  next
    case False
    then have pos: "0 < len" "0 < unat len" by (simp_all add: word_gt_0 unat_gt_0)
    have lim': "unat (off + len) \<le> 2 ^ 32 - 512" using n lim by simp
    obtain s1 rc where e: "ufs_ensure_capacity h (off + len) s = Some (s1, rc)" "rc = -1 \<and> s1 = s \<and> ufs_full s h (unat (off + len)) \<or>
        rc = 0 \<and> ufs_ok s1 \<and> ufs_frame s s1 \<and> ufs_content s1 = ufs_content s \<and> same_attrs s s1 \<and>
        unat (off + len) \<le> 512 * ent_cap (ent (directory s1) (nat h))"
      using ufs_ensure_capacity_correct [OF ok hv(1) lim'] by blast
    show ?thesis
    proof (cases "rc = 0")
      case False
      then show ?thesis using e n hv(1) pos nwrap by (simp add: ufs_write_at_def)
    next
      case True
      then have s1: "ufs_ok s1" "ufs_frame s s1" "ufs_content s1 = ufs_content s" "same_attrs s s1"
          "unat off + unat len \<le> 512 * ent_cap (ent (directory s1) i)" using e(2) n nh by auto
      let ?e = "ent (directory s1) i"
      have v1: "handle_valid h s1" using hv(1) same_attrs_valid [OF ok s1(1,4)] by simp
      have used1: "ent_used ?e" using v1 handle_valid_cases [OF s1(1)] nh by simp
      have rd: "read_u32 (entry_at (nat h) + k) (directory s1) = read_u32 k ?e" if "k + 4 \<le> 40" for k
        using that i(2) ufs_ok_dir [OF s1(1)] by (simp add: nh entry_at_eq read_u32_ent)
      obtain t1 where t1: "ufs_write_loop (read_u32 20 ?e) off len src s1 = (0, t1)" "ufs_ok t1" "same_meta s1 t1"
          "\<And>g. g \<noteq> int i \<Longrightarrow> ufs_content t1 g = ufs_content s1 g"
          "disk_bytes (disk_image t1) (ent_start ?e) (ent_cap ?e) =
             overwrite (unat off) (take (unat len) src) (disk_bytes (disk_image s1) (ent_start ?e) (ent_cap ?e))"
        using ufs_store_bytes [OF s1(1) i(2) used1 s1(5) src pos(2)] by blast
      have dir1: "directory t1 = directory s1" "ufs_frame s t1" "same_attrs s t1"
        using t1(3) s1(2,4) ufs_frame_trans by (auto simp: same_meta_def same_attrs_def)
      let ?D = "disk_bytes (disk_image s1) (ent_start ?e) (ent_cap ?e)"
      have fits: "ent_fits (unat (next_free_lba s1)) ?e" and nf: "unat (next_free_lba s1) \<le> UFS_END"
        using s1(1) ufs_invD(1) [OF _ i(2) used1] by (auto simp: ufs_ok_def ufs_inv_def)
      have lD: "length ?D = 512 * ent_cap ?e"
      proof (cases "ent_cap ?e = 0")
        case False
        have "disk_ok UFS_END s1" using s1(1) by (simp add: ufs_ok_def)
        then show ?thesis by (rule length_disk_bytes_image [OF _ ent_start_bound [OF fits nf False]])
      qed simp
      have c1: "c = take (ent_size ?e) ?D"
        using ufs_content_entry(2) [OF s1(1), of h c] c s1(3) nh by (simp add: ent_bytes_def)
      have lsrc: "length (take (unat len) src) = unat len" using src by simp
      have W: "written (unat off) (take (unat len) src) c
          (take (max (ent_size ?e) (unat off + unat len)) (overwrite (unat off) (take (unat len) src) ?D))"
        using written_overwrite [of "unat off" "take (unat len) src" ?D "ent_size ?e"] lsrc lD s1(5) fits
        unfolding c1 by (simp add: ent_fits_def)
      have pre: "ufs_write_at h off src len s = (if off + len > read_u32 24 ?e then
          let (failed, s) = persist_fails (t1\<lparr>directory := write_u32 (40 * i + 24) (off + len) (directory t1)\<rparr>)
          in Some (s, if failed then -1 else sint len) else Some (t1, sint len))"
        unfolding ufs_write_at_def Let_def using hv(1) nwrap pos(1) e(1) True rd [of 20] rd [of 24] t1(1)
        by (simp add: dir1 nh entry_at_eq)
      show ?thesis
      proof (cases "off + len > read_u32 24 ?e")
        case True
        have size: "unat (off + len) \<le> 512 * ent_cap (ent (directory t1) i)" using n s1(5) dir1 by simp
        have u: "ent_used (ent (directory t1) i)" using used1 dir1 by simp
        obtain t where t: "persist_fails (t1\<lparr>directory := write_u32 (40 * i + 24) (off + len) (directory t1)\<rparr>) = (False, t)"
            "ufs_ok t" "ufs_frame t1 t" "same_attrs t1 t" "\<And>g. g \<noteq> int i \<Longrightarrow> ufs_content t g = ufs_content t1 g"
            "ent_bytes (disk_image t) (ent (directory t) i) = take (unat (off + len))
               (disk_bytes (disk_image t1) (ent_start (ent (directory t1) i)) (ent_cap (ent (directory t1) i)))"
          by (rule ufs_set_size [OF t1(2) i(2) u size]) blast
        have att: "same_attrs s t" by (rule same_attrs_trans [OF dir1(3) t(4)])
        have "max (ent_size ?e) (unat off + unat len) = unat (off + len)"
          using True n by (simp add: ent_size_def word_less_nat_alt)
        then have "ufs_content t h = Some (take (max (ent_size ?e) (unat off + unat len)) (overwrite (unat off) (take (unat len) src) ?D))"
          using t(6) t1(5) dir1 hv(1) same_attrs_valid [OF ok t(2) att] nh by (simp add: ufs_content_def)
        moreover have "ufs_write_at h off src len s = Some (t, sint len)" using pre True t(1) by simp
        ultimately show ?thesis
          using W t(2,5) att t1(4) s1(3) i(3) ufs_frame_trans [OF dir1(2) t(3)] by auto
      next
        case False
        have "max (ent_size ?e) (unat off + unat len) = ent_size ?e"
          using False n by (simp add: ent_size_def word_less_nat_alt)
        then have "ufs_content t1 h = Some (take (max (ent_size ?e) (unat off + unat len)) (overwrite (unat off) (take (unat len) src) ?D))"
          using t1(5) dir1 hv(1) same_attrs_valid [OF ok t1(2) dir1(3)] nh by (simp add: ufs_content_def ent_bytes_def)
        moreover have "ufs_write_at h off src len s = Some (t1, sint len)" using pre False by simp
        ultimately show ?thesis
          using W t1(2,4) dir1(2,3) s1(3) i(3) by auto
      qed
    qed
  qed
qed

lemma ufs_read_at_content:
  fixes s :: "'a ufs_state_scheme"
  assumes ok: "ufs_ok s" and c: "ufs_content s h = Some c"
  shows "\<exists>t. ufs_read_at h off len s =
      (t, sint (of_nat (min (unat len) (length c - unat off)) :: u32), take (unat len) (drop (unat off) c)) \<and>
    ufs_ok t \<and> ufs_frame s t \<and> directory t = directory s \<and> ufs_content t = ufs_content s"
proof -
  note hv = ufs_content_entry [OF ok c]
  let ?e = "ent (directory s) (nat h)"
  let ?D = "disk_bytes (disk_image s) (ent_start ?e) (ent_cap ?e)" and ?size = "read_u32 24 ?e"
  have lc: "length c = ent_size ?e" by (rule length_ufs_content [OF ok c])
  have v: "nat h < 64" "ent_used ?e" using hv(1) handle_valid_cases [OF ok] by simp_all
  have inv: "ufs_inv (directory s) (unat (next_free_lba s))" using ok by (simp add: ufs_ok_def)
  have fits: "ent_fits (unat (next_free_lba s)) ?e" and nf: "unat (next_free_lba s) \<le> UFS_END"
    using ufs_invD(1) [OF inv v] inv by (simp_all add: ufs_inv_def)
  have rd: "read_u32 (entry_at (nat h) + k) (directory s) = read_u32 k ?e" if "k + 4 \<le> 40" for k
    using that v ufs_ok_dir [OF ok] by (simp add: entry_at_eq read_u32_ent)
  show ?thesis
  proof (cases "off \<ge> ?size")
    case True
    then have "length c \<le> unat off" using lc by (simp add: word_le_nat_alt ent_size_def)
    moreover have "ufs_read_at h off len s = (s, 0, [])" using True hv(1) rd [of 24] by (simp add: ufs_read_at_def)
    ultimately show ?thesis using ok by simp
  next
    case False
    let ?l = "if len > ?size - off then ?size - off else len"
    have av: "unat (?size - off) = ent_size ?e - unat off" using False by (simp add: unat_sub_if' word_le_nat_alt ent_size_def)
    have off: "unat off < ent_size ?e" using False by (simp add: word_le_nat_alt ent_size_def)
    have l: "unat ?l = min (unat len) (ent_size ?e - unat off)" using av by (auto simp: word_less_nat_alt)
    have room: "unat off + unat ?l \<le> 512 * ent_cap ?e" using l off fits unfolding ent_fits_def by linarith
    have cap: "ent_cap ?e \<noteq> 0" using off fits by (auto simp: ent_fits_def)
    have ext: "unat (read_u32 20 ?e) + ent_cap ?e \<le> UFS_END"
      using ent_start_bound [OF fits nf cap] by (simp add: ent_start_def)
    have ds: "disk_ok UFS_END s" "ufs_shape s" using ok by (simp_all add: ufs_ok_def)
    obtain t where t: "ufs_read_loop (read_u32 20 ?e) off ?l s = (0, slice (unat off) (unat ?l) ?D, t)" "disk_ok UFS_END t"
        "ufs_shape t" "same_meta s t" "same_disk UFS_END s t"
      using ufs_read_loop_ok [OF ds ext room] unfolding ent_start_def by blast
    have okt: "ufs_ok t" by (rule ufs_ok_data [OF ok t(2-4)]) (use t(5) in \<open>simp add: same_disk_def\<close>)
    have "ufs_content t g = ufs_content s g" for g
    proof (cases "handle_valid g s")
      case True
      then have vg: "nat g < 64" "ent_used (ent (directory s) (nat g))" using handle_valid_cases [OF ok] by auto
      have "ent_bytes (disk_image t) (ent (directory s) (nat g)) = ent_bytes (disk_image s) (ent (directory s) (nat g))"
        by (rule ent_bytes_cong)
          (use t(5) ufs_invD(1) [OF inv vg] nf in \<open>auto simp: same_disk_def ent_fits_def\<close>)
      then show ?thesis using t(4) by (simp add: ufs_content_def handle_valid_def same_meta_def)
    next
      case False
      then have "\<not> handle_valid g t" using t(4) by (auto simp: handle_valid_def same_meta_def)
      then show ?thesis using False by (simp add: ufs_content_def)
    qed
    moreover have "slice (unat off) (unat ?l) ?D = take (unat len) (drop (unat off) c)"
      using hv(2) l by (simp add: ent_bytes_def slice_def drop_take min.commute)
    moreover have "?l = of_nat (min (unat len) (length c - unat off))"
    proof -
      have "of_nat (unat x) = x" for x :: u32 by simp
      from this [of ?l] show ?thesis unfolding l lc ..
    qed
    moreover have "ufs_read_at h off len s = (t, sint ?l, slice (unat off) (unat ?l) ?D)"
      using t(1) False hv(1) rd [of 24] rd [of 20] by (simp add: ufs_read_at_def Let_def)
    moreover have "ufs_frame s t" "directory t = directory s" using t(4) by (simp_all add: same_meta_def)
    ultimately show ?thesis using okt by (simp add: fun_eq_iff)
  qed
qed

text \<open>The user file system is a file store.\<close>

interpretation ufs: file_store "2 ^ 32 - 512" ufs_ok ufs_content
  "\<lambda>h off src. ufs_write_at h off src (of_nat (length src))" ufs_read_at
proof
  fix s t :: "'a ufs_state_scheme" and h c off r and src bs :: "u8 list" and len :: u32
  show "ufs_ok t \<and> ufs_content t = ufs_content s" if "ufs_ok s" "ufs_read_at h off len s = (t, r, bs)"
  proof (cases "handle_valid h s")
    case True
    then obtain c where "ufs_content s h = Some c" by (simp add: ufs_content_def)
    from ufs_read_at_content [OF that(1) this, of off len] that(2) show ?thesis by auto
  next
    case False
    then show ?thesis using that by (auto simp: ufs_read_at_def)
  qed
  assume ok: "ufs_ok s" and c: "ufs_content s h = Some c"
  show "bs = take (unat len) (drop (unat off) c) \<and> r = int (length bs)"
    if "unat len < 2 ^ 31" "ufs_read_at h off len s = (t, r, bs)"
  proof -
    have m: "min (unat len) (length c - unat off) < 2 ^ 31" using that(1) by simp
    then have "unat (of_nat (min (unat len) (length c - unat off)) :: u32) = min (unat len) (length c - unat off)"
      by (simp add: unat_of_nat)
    then have "sint (of_nat (min (unat len) (length c - unat off)) :: u32) = int (min (unat len) (length c - unat off))"
      using sint_small m by metis
    then show ?thesis using ufs_read_at_content [OF ok c, of off len] that(2) by auto
  qed
  assume l: "length src < 2 ^ 31" and lim: "unat off + length src \<le> 2 ^ 32 - 512"
  have u: "unat (of_nat (length src) :: u32) = length src" using l by (simp add: unat_of_nat)
  have si: "sint (of_nat (length src) :: u32) = int (length src)" using sint_small [of "of_nat (length src)"] l u by simp
  assume gap: "src \<noteq> [] \<or> unat off \<le> length c" and w: "ufs_write_at h off src (of_nat (length src)) s = Some (t, r)"
  note cases = ufs_write_at_cases [OF ok c, of "of_nat (length src)" src off, unfolded u]
  show "r = int (length src) \<and> (\<exists>c'. ufs_content t h = Some c' \<and> written (unat off) src c c')" if "0 \<le> r"
    using cases lim gap w si that by auto
  show "ufs_ok t \<and> ufs_content t h \<noteq> None \<and> (\<forall>h'. h' \<noteq> h \<longrightarrow> ufs_content t h' = ufs_content s h')"
    using cases lim gap w ok c by auto
qed

end
