(* ===== verification/Ufs_Names.thy ===== *)
theory Ufs_Names
  imports Ufs_Store
begin

text \<open>
  The name space of the user file system, mounting, and the properties of the file system: create,
  find and delete implement a finite map from names to files, and mounting again finds the files that
  were there.
\<close>

section \<open>Finding a name\<close>

lemma cstr_take: "xs ! k = 0 \<Longrightarrow> k < n \<Longrightarrow> k < length xs \<Longrightarrow> cstr (take n xs) = cstr xs"
proof (induction xs arbitrary: k n)
  case (Cons x xs)
  then obtain m where m: "n = Suc m" by (cases n) auto
  show ?case
  proof (cases k)
    case 0
    then show ?thesis using Cons.prems m by (simp add: cstr_Cons)
  next
    case (Suc k')
    then show ?thesis using Cons.prems m Cons.IH [of k' m] by (simp add: cstr_Cons)
  qed
qed simp

lemma cstr_drop_ent:
  assumes "length dir = 2560" and "i < 64" and "ent dir i ! 19 = 0"
  shows "cstr (drop (entry_at i) dir) = ent_name (ent dir i)"
proof -
  have "drop (40 * i) dir ! 19 = 0" using assms ent_nth [of dir i 19] by simp
  then have "cstr (take 20 (drop (40 * i) dir)) = cstr (drop (40 * i) dir)"
    by (rule cstr_take) (use assms in simp_all)
  then show ?thesis by (simp add: ent_name_def ent_def slice_def entry_at_eq min_def)
qed

definition ufs_dir :: "'a ufs_state_scheme \<Rightarrow> u8 list \<Rightarrow> int option" where
  "ufs_dir s name = (if 0 \<le> ufs_find name s then Some (ufs_find name s) else None)"

lemma ufs_find_match:
  assumes "ufs_ok s" and "i < 64"
  shows "entry_used (directory s) i \<and> str_eq (drop (entry_at i) (directory s)) name \<longleftrightarrow>
    ent_used (ent (directory s) i) \<and> ent_name (ent (directory s) i) = cstr name"
proof -
  note len = ufs_ok_dir [OF assms(1)]
  have "ent (directory s) i ! 19 = 0" if "ent_used (ent (directory s) i)"
    using assms ufs_invD(1) [OF _ assms(2) that] by (auto simp: ufs_ok_def ent_fits_def)
  then show ?thesis using entry_used_ent [OF len assms(2)] cstr_drop_ent [OF len assms(2)] by (auto simp: str_eq_cstr)
qed

lemma ufs_dir_Some:
  assumes ok: "ufs_ok s"
  shows "ufs_dir s name = Some h \<longleftrightarrow> handle_valid h s \<and> ent_name (ent (directory s) (nat h)) = cstr name"
proof -
  let ?P = "\<lambda>i. entry_used (directory s) i \<and> str_eq (drop (entry_at i) (directory s)) name"
  let ?Q = "\<lambda>i. ent_used (ent (directory s) i) \<and> ent_name (ent (directory s) i) = cstr name"
  have ready: "ufs_ready s" and inv: "ufs_inv (directory s) (unat (next_free_lba s))" using ok by (simp_all add: ufs_ok_def)
  have find: "ufs_find name s = index_or_minus1 (first_index ?P [0..<64])"
    using ready by (simp add: ufs_find_def ufs_numbers)
  show ?thesis
  proof
    assume "ufs_dir s name = Some h"
    then obtain i where i: "first_index ?P [0..<64] = Some i" "h = int i"
      by (auto simp: ufs_dir_def find index_or_minus1_def split: if_splits option.splits)
    then have "i < 64" "?P i" using first_index_SomeD(1,2) [OF i(1)] by auto
    then show "handle_valid h s \<and> ent_name (ent (directory s) (nat h)) = cstr name"
      using ufs_find_match [OF ok, of i name] i(2) handle_valid_cases [OF ok] by auto
  next
    assume h: "handle_valid h s \<and> ent_name (ent (directory s) (nat h)) = cstr name"
    then have i: "nat h < 64" "0 \<le> h" "?Q (nat h)" using handle_valid_cases [OF ok] by auto
    then have "?P (nat h)" using ufs_find_match [OF ok i(1), of name] by simp
    then have "first_index ?P [0..<64] \<noteq> None" using i(1) by (auto simp del: not_None_eq)
    then obtain j where j: "first_index ?P [0..<64] = Some j" by blast
    then have "j < 64" "?P j" using first_index_SomeD(1,2) [OF j] by auto
    then have "j < 64" "?Q j" using ufs_find_match [OF ok, of j name] by auto
    then have "j = nat h" using i ufs_invD(2) [OF inv, of j "nat h"] by (auto simp: ent_apart_def)
    then show "ufs_dir s name = Some h" using j i(2) by (simp add: ufs_dir_def find)
  qed
qed

lemma ufs_dir_None: "ufs_dir s name = None \<longleftrightarrow> ufs_find name s < 0"
  by (auto simp: ufs_dir_def)

section \<open>Counting entries\<close>

lemma fold_count: "fold (\<lambda>i c. if P i then c + 1 else c) xs a = a + of_nat (length (filter P xs))" for a :: u32
  by (induction xs arbitrary: a) (auto simp: add_ac)

lemma count_used_card: "count_used_entries dir = of_nat (card {i. i < 64 \<and> entry_used dir i})"
proof -
  have "{i. i < 64 \<and> entry_used dir i} = {i. entry_used dir i} \<inter> set [0..<64]" by auto
  then show ?thesis
    by (simp add: count_used_entries_def fold_count distinct_length_filter ufs_numbers)
qed

lemma count_used_add:
  assumes "i < 64" and "\<not> entry_used dir i" and "entry_used dir' i" and "\<And>j. j < 64 \<Longrightarrow> j \<noteq> i \<Longrightarrow> entry_used dir' j = entry_used dir j"
  shows "count_used_entries dir' = count_used_entries dir + 1"
proof -
  have "{j. j < 64 \<and> entry_used dir' j} = insert i {j. j < 64 \<and> entry_used dir j}" using assms by (auto; metis)
  moreover have "finite {j. j < 64 \<and> entry_used dir j}" "i \<notin> {j. j < 64 \<and> entry_used dir j}" using assms(2) by auto
  ultimately show ?thesis by (simp add: count_used_card)
qed

section \<open>Creating and deleting files\<close>

lemma cstr_pad: "cstr (cstr a @ replicate n 0) = cstr a"
  by (cases n) (simp_all add: cstr_append_nul)

text \<open>The entry that \<open>ufs_create\<close> writes.\<close>

definition new_entry :: "u8 list \<Rightarrow> u32 \<Rightarrow> u8 list \<Rightarrow> u8 list" where
  "new_entry name uid e =
    (write_u32 32 uid (write_u32 28 0 (write_u32 24 0 (write_u32 20 0
       (overwrite 0 (take 19 (cstr name) @ replicate (20 - length (take 19 (cstr name))) 0) e)))))[36 := 0]"

lemma new_entry_fields:
  assumes "length e = 40" and "cstr name \<noteq> []" and "length (cstr name) < 20"
  shows "length (new_entry name uid e) = 40" "ent_used (new_entry name uid e)" "ent_name (new_entry name uid e) = cstr name"
    "ent_start (new_entry name uid e) = 0" "ent_size (new_entry name uid e) = 0" "ent_cap (new_entry name uid e) = 0"
    "new_entry name uid e ! 19 = 0" "read_u32 32 (new_entry name uid e) = uid" "new_entry name uid e ! 36 = 0"
proof -
  let ?n = "cstr name @ replicate (20 - length (cstr name)) 0"
  let ?e0 = "overwrite 0 ?n e"
  have n: "length ?n = 20" using assms(3) by simp
  have e: "new_entry name uid e = (write_u32 32 uid (write_u32 28 0 (write_u32 24 0 (write_u32 20 0 ?e0))))[36 := 0]"
    using assms(3) by (simp add: new_entry_def)
  have l0: "length ?e0 = 40" using n assms(1) by simp
  have upd: "read_u32 k (x[36 := 0]) = read_u32 k x" if "k + 4 \<le> 36" for k x using that by (simp add: read_u32_def)
  have low: "new_entry name uid e ! k = ?n ! k" if "k < 20" for k
    using that l0 n nth_overwrite [of 0 ?n e k] assms(1) by (simp add: e nth_write_u32_other)
  show "length (new_entry name uid e) = 40" using l0 by (simp add: e)
  have "cstr name ! 0 \<noteq> 0" using assms(2) cstr_no_nul [of name] by (metis length_greater_0_conv nth_mem)
  then show "ent_used (new_entry name uid e)" using low [of 0] assms(2) by (simp add: ent_used_def nth_append)
  have "take 20 (new_entry name uid e) = ?n"
    by (rule nth_equalityI) (use low l0 n in \<open>auto simp: e\<close>)
  then show "ent_name (new_entry name uid e) = cstr name"
    by (simp add: ent_name_def cstr_pad)
  show "new_entry name uid e ! 19 = 0" using low [of 19] assms(3) by (simp add: nth_append)
  show "ent_start (new_entry name uid e) = 0" "ent_size (new_entry name uid e) = 0" "ent_cap (new_entry name uid e) = 0"
    "read_u32 32 (new_entry name uid e) = uid" "new_entry name uid e ! 36 = 0"
    using l0 by (simp_all add: e ent_start_def ent_size_def ent_cap_def upd read_write_u32_other)
qed

lemma ufs_create_correct:
  fixes s :: "'a ufs_state_scheme"
  assumes ok: "ufs_ok s" and name: "cstr name \<noteq> []" "length (cstr name) < 20" and new: "ufs_dir s name = None"
  shows "ufs_create name uid s = (s, -1) \<and> (\<forall>i<64. ent_used (ent (directory s) i)) \<or>
    (\<exists>t i. ufs_create name uid s = (t, int i) \<and> ufs_ok t \<and> ufs_frame s t \<and> i < 64 \<and>
      ufs_content s (int i) = None \<and> ufs_content t = (ufs_content s)(int i \<mapsto> []) \<and> next_free_lba t = next_free_lba s \<and>
      (\<forall>j<64. ent (directory t) j = (if j = i then new_entry name uid (ent (directory s) j) else ent (directory s) j)))"
proof (cases "first_index (\<lambda>i. \<not> entry_used (directory s) i) [0..<UFS_MAX_ENTRIES]")
  case None
  then have "\<forall>i<64. entry_used (directory s) i" unfolding first_index_None by (auto simp: ufs_numbers)
  moreover have "ufs_create name uid s = (s, -1)"
    using None new ok name by (simp add: ufs_create_def ufs_dir_None ufs_free_slot_def str_len_cstr ufs_numbers)
  ultimately show ?thesis using entry_used_ent [OF ufs_ok_dir [OF ok]] by auto
next
  case (Some i)
  let ?dir = "directory s"
  let ?e = "ent ?dir i"
  note len = ufs_ok_dir [OF ok]
  have i: "i < 64" "\<not> entry_used ?dir i" using first_index_SomeD(1,2) [OF Some] by (auto simp: ufs_numbers)
  have le: "length ?e = 40" by (rule length_ent [OF len i(1)])
  note E = new_entry_fields [OF le name, of uid]
  let ?d1 = "set_name (40 * i) name ?dir"
  let ?d2 = "write_u32 (40 * i + 32) uid (write_u32 (40 * i + 28) 0 (write_u32 (40 * i + 24) 0 (write_u32 (40 * i + 20) 0 ?d1)))"
  let ?dir' = "?d2[40 * i + 36 := 0]"
  let ?u = "s\<lparr>directory := ?dir', cached_file_count := cached_file_count s + 1\<rparr>"
  have len': "length ?dir' = 2560" using length_set_name [OF len i(1)] by simp
  have ents: "ent ?dir' j = (if j = i then new_entry name uid (ent ?dir j) else ent ?dir j)" if "j < 64" for j
    using i(1) that len length_set_name [OF len i(1), of name]
    by (simp add: ent_update ent_write_u32 ent_set_name new_entry_def)
  have inv: "ufs_inv ?dir (unat (next_free_lba s))" and nf: "unat (next_free_lba s) \<le> UFS_END"
    using ok by (auto simp: ufs_ok_def ufs_inv_def)
  have fresh: "ent_name (ent ?dir j) \<noteq> cstr name" if "j < 64" "ent_used (ent ?dir j)" for j
    using new ufs_dir_Some [OF ok, of name "int j"] handle_valid_cases [OF ok, of "int j"] that by auto
  have apart: "ent_apart (new_entry name uid ?e) (ent ?dir j)" if "j < 64" "ent_used (ent ?dir j)" for j
    using fresh [OF that] E(3,6) by (simp add: ent_apart_def)
  have inv': "ufs_inv ?dir' (unat (next_free_lba s))"
    by (rule ufs_inv_upd [OF inv _ nf i(1)]) (use ents [OF i(1)] ents E apart in \<open>auto simp: ent_fits_def\<close>)
  have used: "entry_used ?dir' j = (if j = i then True else entry_used ?dir j)" if "j < 64" for j
    using ents [OF that] E(2) that by (simp add: entry_used_ent [OF len'] entry_used_ent [OF len])
  have count: "count_used_entries ?dir' = count_used_entries ?dir + 1"
    by (rule count_used_add [of i]) (use used i in auto)
  obtain t where t: "persist_fails ?u = (False, t)" "ufs_ok t" "ufs_frame s t" "directory t = directory ?u" "next_free_lba t = next_free_lba s"
      "\<And>l. 8198 \<le> l \<Longrightarrow> l < UFS_END \<Longrightarrow> disk_image t l = disk_image ?u l"
    by (rule persist_step [of ?u s]) (use ok len' inv' count in \<open>auto simp: ufs_shape_def ufs_ok_def\<close>)
  have ds: "disk_ok UFS_END s" using ok by (simp add: ufs_ok_def)
  have img: "disk_image t l = disk_image s l" if "8198 \<le> l" "l < UFS_END" for l
    using t(6) [OF that] disk_image_cong [OF ds _ that(2), of ?u] by (simp add: same_io_def)
  have dir: "directory t = ?dir'" using t(4) by simp
  have "ufs_content t h = ((ufs_content s)(int i \<mapsto> [])) h" for h
  proof (cases "h = int i")
    case True
    have "handle_valid h t" using True i(1) ents [OF i(1)] E(2) dir by (simp add: handle_valid_cases [OF t(2)])
    then show ?thesis using True ents [OF i(1)] E(5) dir by (simp add: ufs_content_def ent_bytes_def)
  next
    case False
    have "ufs_content t h = ufs_content s h"
    proof (rule ufs_content_others [OF ok t(2) _ _ False])
      fix j l
      assume j: "j < 64" "j \<noteq> i"
      show "ent (directory t) j = ent (directory s) j" using ents j dir by simp
      assume u: "ent_used (ent ?dir j)" and l: "ent_start (ent ?dir j) \<le> l" "l < ent_start (ent ?dir j) + ent_cap (ent ?dir j)"
      then have "8198 \<le> l" "l < UFS_END" using ufs_invD(1) [OF inv j(1) u] nf by (auto simp: ent_fits_def)
      then show "disk_image t l = disk_image s l" by (rule img)
    qed
    then show ?thesis using False by simp
  qed
  moreover have "ufs_content s (int i) = None"
    using i entry_used_ent [OF len i(1)] handle_valid_cases [OF ok, of "int i"] by (simp add: ufs_content_def)
  moreover have "ufs_create name uid s = (t, int i)"
    using Some new ok name t(1)
    by (simp add: ufs_create_def ufs_dir_None ufs_free_slot_def str_len_cstr ufs_numbers entry_at_eq ufs_ok_def Let_def)
  ultimately show ?thesis using t(2,3,5) i(1) ents dir by (intro disjI2 exI [of _ t] exI [of _ i]) auto
qed

lemma ufs_delete_correct:
  fixes s :: "'a ufs_state_scheme"
  assumes ok: "ufs_ok s" and d: "ufs_dir s name = Some h"
  shows "\<exists>t. ufs_delete name s = (t, 0) \<and> ufs_ok t \<and> ufs_frame s t \<and> ufs_content t = (ufs_content s)(h := None) \<and>
    (\<forall>j<64. j \<noteq> nat h \<longrightarrow> ent (directory t) j = ent (directory s) j) \<and> \<not> ent_used (ent (directory t) (nat h))"
proof -
  let ?dir = "directory s" and ?i = "nat h"
  note len = ufs_ok_dir [OF ok]
  have h: "0 \<le> h" "?i < 64" "ent_used (ent ?dir ?i)" "h = int ?i"
    using d ufs_dir_Some [OF ok] handle_valid_cases [OF ok] by auto
  have find: "ufs_find name s = h" using d by (simp add: ufs_dir_def split: if_splits)
  let ?dir' = "?dir[40 * ?i := 0]"
  let ?u = "s\<lparr>directory := ?dir', cached_file_count := cached_file_count s - 1\<rparr>"
  have len': "length ?dir' = 2560" using len by simp
  have ents: "ent ?dir' j = (if j = ?i then (ent ?dir j)[0 := 0] else ent ?dir j)" if "j < 64" for j
    using ent_update [OF len h(2) that, of 0 0] by (auto split: if_splits)
  have free: "\<not> ent_used (ent ?dir' ?i)"
    using ents [OF h(2)] length_ent [OF len h(2)] by (simp add: ent_used_def)
  have inv: "ufs_inv ?dir (unat (next_free_lba s))" and nf: "unat (next_free_lba s) \<le> UFS_END"
    using ok by (auto simp: ufs_ok_def ufs_inv_def)
  have inv': "ufs_inv ?dir' (unat (next_free_lba s))"
    by (rule ufs_inv_upd [OF inv _ nf h(2)]) (use ents free in auto)
  have used: "entry_used ?dir j = (if j = ?i then True else entry_used ?dir' j)" if "j < 64" for j
    using ents [OF that] h(3) that by (simp add: entry_used_ent [OF len'] entry_used_ent [OF len])
  have "count_used_entries ?dir = count_used_entries ?dir' + 1"
    by (rule count_used_add [of ?i]) (use used h(2) free in \<open>auto simp: entry_used_ent [OF len']\<close>)
  then have count: "count_used_entries ?dir' = count_used_entries ?dir - 1" by simp
  obtain t where t: "persist_fails ?u = (False, t)" "ufs_ok t" "ufs_frame s t" "directory t = directory ?u"
      "\<And>l. 8198 \<le> l \<Longrightarrow> l < UFS_END \<Longrightarrow> disk_image t l = disk_image ?u l"
    by (rule persist_step [of ?u s]) (use ok len' inv' count in \<open>auto simp: ufs_shape_def ufs_ok_def\<close>)
  have ds: "disk_ok UFS_END s" using ok by (simp add: ufs_ok_def)
  have img: "disk_image t l = disk_image s l" if "8198 \<le> l" "l < UFS_END" for l
    using t(5) [OF that] disk_image_cong [OF ds _ that(2), of ?u] by (simp add: same_io_def)
  have dir: "directory t = ?dir'" using t(4) by simp
  have "ufs_content t g = ((ufs_content s)(h := None)) g" for g
  proof (cases "g = h")
    case True
    then show ?thesis using free dir handle_valid_cases [OF t(2)] by (simp add: ufs_content_def)
  next
    case False
    then have gi: "g \<noteq> int ?i" using h(4) by simp
    have "ufs_content t g = ufs_content s g"
    proof (rule ufs_content_others [OF ok t(2) _ _ gi])
      fix j l
      assume j: "j < 64" "j \<noteq> ?i"
      show "ent (directory t) j = ent (directory s) j" using ents j dir by simp
      assume u: "ent_used (ent ?dir j)" and l: "ent_start (ent ?dir j) \<le> l" "l < ent_start (ent ?dir j) + ent_cap (ent ?dir j)"
      then have "8198 \<le> l" "l < UFS_END" using ufs_invD(1) [OF inv j(1) u] nf by (auto simp: ent_fits_def)
      then show "disk_image t l = disk_image s l" by (rule img)
    qed
    then show ?thesis using False by simp
  qed
  moreover have "ufs_delete name s = (t, 0)"
    using find h(1) ok t(1) by (simp add: ufs_delete_def entry_at_eq ufs_ok_def)
  ultimately show ?thesis using t(2,3) ents dir free by (intro exI [of _ t]) auto
qed

section \<open>Mounting\<close>

lemma sb_image_reads:
  "sb_image c nf ! 0 = 0x55" "sb_image c nf ! 1 = 0x46" "sb_image c nf ! 2 = 0x53" "sb_image c nf ! 3 = 0x31"
  "read_u32 8 (sb_image c nf) = nf" "length (sb_image c nf) = 512"
proof -
  have s: "sb_image c nf = write_u32 8 nf ([0x55, 0x46, 0x53, 0x31] @ u32_bytes c @ replicate 504 0)"
    by (simp add: sb_image_def write_u32_overwrite overwrite_def)
  show "read_u32 8 (sb_image c nf) = nf" unfolding s by (rule read_write_u32) simp
qed (simp_all add: sb_image_def)

text \<open>Reading the superblock and the directory, the two steps of \<open>ufs_init\<close>.\<close>

lemma read_superblock:
  fixes t :: "'a ufs_state_scheme"
  assumes "disk_ok UFS_END t" and "ufs_shape t"
  obtains u where "ata_read_sectors (ucast UFS_SB_LBA) 1 (superblock t) t = (0, disk_image t 8192, u)" "disk_ok UFS_END u"
    "same_meta t u" "same_disk UFS_END t u" "ufs_shape u"
proof -
  obtain u where u: "ata_read_sectors (ucast UFS_SB_LBA) 1 (superblock t) t = (0, disk_image t 8192, u)" "disk_ok UFS_END u"
      "io_frame t u" "same_disk UFS_END t u"
    using read_sector [OF assms(1), of "ucast UFS_SB_LBA" "superblock t"] assms(2) by (auto simp: ufs_numbers ufs_shape_def)
  have "ufs_shape u" using assms(2) io_frame_ufs [OF u(3)] by (simp add: ufs_shape_def)
  then show thesis by (rule that [OF u(1,2) io_frame_meta [OF u(3)] u(4)])
qed

lemma read_directory:
  fixes t :: "'a ufs_state_scheme"
  assumes "disk_ok UFS_END t" and "ufs_shape t"
  obtains u where "ata_read_sectors (ucast UFS_DIR_LBA) UFS_DIR_SECTORS (directory t) t = (0, disk_bytes (disk_image t) 8193 5, u)"
    "disk_ok UFS_END u" "same_meta t u" "same_disk UFS_END t u" "ufs_shape u"
proof -
  have lb: "length (disk_bytes (disk_image t) 8193 5) = 512 * 5"
    by (rule length_disk_bytes_image [OF assms(1)]) simp
  then have lb': "length (disk_bytes (disk_image t) 8193 5) = length (directory t)" using assms(2) by (simp add: ufs_shape_def)
  obtain u where u: "ata_read_sectors (ucast UFS_DIR_LBA) UFS_DIR_SECTORS (directory t) t =
        (0, overwrite 0 (disk_bytes (disk_image t) 8193 5) (directory t), u)" "disk_ok UFS_END u" "io_frame t u" "same_disk UFS_END t u"
    using disk_read [OF assms(1), of UFS_DIR_SECTORS "ucast UFS_DIR_LBA" "directory t"] assms(2) by (auto simp: ufs_numbers ufs_shape_def)
  have "ufs_shape u" using assms(2) io_frame_ufs [OF u(3)] by (simp add: ufs_shape_def)
  then show thesis using that [OF _ u(2) io_frame_meta [OF u(3)] u(4)] u(1) by (simp add: overwrite_all [OF lb'])
qed

lemma ent_extent:
  assumes "ufs_ok s" and "j < 64" and "ent_used (ent (directory s) j)"
    and "ent_start (ent (directory s) j) \<le> l" and "l < ent_start (ent (directory s) j) + ent_cap (ent (directory s) j)"
  shows "8198 \<le> l" and "l < UFS_END"
proof -
  have inv: "ufs_inv (directory s) (unat (next_free_lba s))" using assms(1) by (simp add: ufs_ok_def)
  note fits = ufs_invD(1) [OF inv assms(2,3)]
  show "8198 \<le> l" "l < UFS_END" using fits inv assms(4,5) by (auto simp: ent_fits_def ufs_inv_def)
qed

lemma ufs_content_cong:
  assumes "ufs_ok s" and "ufs_ok t" and "directory t = directory s"
    and "\<And>l. 8198 \<le> l \<Longrightarrow> l < UFS_END \<Longrightarrow> disk_image t l = disk_image s l"
  shows "ufs_content t = ufs_content s"
proof
  fix h
  show "ufs_content t h = ufs_content s h"
    by (rule ufs_content_others [OF assms(1,2), of "nat h + 1"]) (use assms(3,4) ent_extent [OF assms(1)] in auto)
qed

lemma ufs_init_mounts:
  fixes s t :: "'a ufs_state_scheme"
  assumes ok: "ufs_ok s" and io: "same_io s t" and shape: "ufs_shape t"
  shows "ufs_ok (ufs_init t) \<and> directory (ufs_init t) = directory s \<and> next_free_lba (ufs_init t) = next_free_lba s \<and>
    ufs_content (ufs_init t) = ufs_content s \<and> ufs_frame t (ufs_init t)"
proof -
  have ds: "disk_ok UFS_END s" and sync: "synced s" and inv: "ufs_inv (directory s) (unat (next_free_lba s))"
    using ok by (simp_all add: ufs_ok_def)
  let ?t = "t\<lparr>ufs_ready := False\<rparr>" and ?sb = "sb_image (cached_file_count s) (next_free_lba s)"
  have io': "same_io s ?t" using io by (simp add: same_io_def)
  have dt: "disk_ok UFS_END ?t" using disk_ok_cong [OF io'] ds by simp
  have it: "disk_image ?t l = disk_image s l" if "l < UFS_END" for l by (rule disk_image_cong [OF ds io' that])
  have st: "ufs_shape ?t" using shape by (simp add: ufs_shape_def)
  obtain u where u: "ata_read_sectors (ucast UFS_SB_LBA) 1 (superblock ?t) ?t = (0, disk_image ?t 8192, u)" "disk_ok UFS_END u"
      "same_meta ?t u" "same_disk UFS_END ?t u" "ufs_shape u" by (rule read_superblock [OF dt st])
  have sb: "disk_image ?t 8192 = ?sb" using it [of 8192] sync by (simp add: synced_def)
  let ?u = "u\<lparr>superblock := ?sb\<rparr>"
  have du: "disk_ok UFS_END ?u" "ufs_shape ?u" using u(2,5) by (simp_all add: ufs_shape_def sb_image_reads)
  have iu: "disk_image ?u l = disk_image s l" if "l < UFS_END" for l
    using disk_image_cong [OF u(2) _ that, of ?u] u(4) it [OF that] that by (simp add: same_disk_def)
  obtain v where v: "ata_read_sectors (ucast UFS_DIR_LBA) UFS_DIR_SECTORS (directory ?u) ?u = (0, disk_bytes (disk_image ?u) 8193 5, v)"
      "disk_ok UFS_END v" "same_meta ?u v" "same_disk UFS_END ?u v" "ufs_shape v" by (rule read_directory [OF du])
  have "disk_bytes (disk_image ?u) 8193 5 = disk_bytes (disk_image s) 8193 5"
    by (rule disk_bytes_cong) (use iu in auto)
  then have dir: "disk_bytes (disk_image ?u) 8193 5 = directory s" using sync by (simp add: synced_def)
  let ?v = "v\<lparr>directory := directory s, next_free_lba := next_free_lba s,
      cached_file_count := count_used_entries (directory s), ufs_ready := True\<rparr>"
  have "next_free_lba s \<ge> UFS_DATA_LBA" "next_free_lba s \<le> UFS_DATA_END_LBA"
    using inv by (simp_all add: ufs_inv_def word_le_nat_alt ufs_numbers)
  then have init: "ufs_init t = ?v"
    unfolding ufs_init_def Let_def using u(1) v(1) sb dir sb_image_reads by (simp add: linorder_not_less)
  have iv: "disk_image ?v l = disk_image s l" if "l < UFS_END" for l
    using disk_image_cong [OF v(2) _ that, of ?v] v(4) iu [OF that] that by (simp add: same_disk_def same_io_def)
  have "disk_bytes (disk_image ?v) 8193 5 = disk_bytes (disk_image s) 8193 5"
    by (rule disk_bytes_cong) (use iv in auto)
  moreover have "disk_image ?v 8192 = ?sb" using iv [of 8192] sync by (simp add: synced_def)
  ultimately have "ufs_ok ?v"
    using ok v(2,5) sync by (simp add: ufs_ok_def ufs_shape_def synced_def)
  moreover have "ufs_frame t ?v" using u(3) v(3) by (simp add: same_meta_def ufs_frame_def ufs_clear_def)
  ultimately show ?thesis unfolding init using ufs_content_cong [OF ok, of ?v] iv by simp
qed

text \<open>A disk without a file system is formatted.\<close>

lemma ufs_init_formats:
  fixes t :: "'a ufs_state_scheme"
  assumes disk: "disk_ok UFS_END t" and shape: "ufs_shape t" and blank: "take 4 (disk_image t 8192) \<noteq> [0x55, 0x46, 0x53, 0x31]"
  shows "ufs_ok (ufs_init t) \<and> ufs_content (ufs_init t) = Map.empty \<and> ufs_frame t (ufs_init t) \<and>
    next_free_lba (ufs_init t) = UFS_DATA_LBA"
proof -
  let ?t = "t\<lparr>ufs_ready := False\<rparr>"
  have dt: "disk_ok UFS_END ?t" "ufs_shape ?t" using disk shape by (simp_all add: ufs_shape_def)
  have it: "disk_image ?t l = disk_image t l" if "l < UFS_END" for l by (rule disk_image_cong [OF disk _ that]) simp
  obtain u where u: "ata_read_sectors (ucast UFS_SB_LBA) 1 (superblock ?t) ?t = (0, disk_image ?t 8192, u)" "disk_ok UFS_END u"
      "same_meta ?t u" "same_disk UFS_END ?t u" "ufs_shape u" by (rule read_superblock [OF dt])
  let ?sb = "disk_image ?t 8192"
  have lsb: "length ?sb = 512" by (rule disk_image_length [OF dt(1)]) simp
  have four: "take 4 ?sb = [?sb ! 0, ?sb ! 1, ?sb ! 2, ?sb ! 3]"
  proof -
    have "length ?sb = Suc (Suc (Suc (Suc 508)))" using lsb by simp
    then obtain a b c d r where "?sb = a # b # c # d # r" unfolding length_Suc_conv by blast
    then show ?thesis by simp
  qed
  have magic: "?sb ! 0 \<noteq> 0x55 \<or> ?sb ! 1 \<noteq> 0x46 \<or> ?sb ! 2 \<noteq> 0x53 \<or> ?sb ! 3 \<noteq> 0x31"
    using blank it [of 8192] four by auto
  let ?w = "u\<lparr>superblock := ?sb, directory := replicate (length (directory u)) 0, cached_file_count := 0, next_free_lba := UFS_DATA_LBA\<rparr>"
  have w: "disk_ok UFS_END ?w" "ufs_shape ?w" using u(2,5) lsb by (simp_all add: ufs_shape_def)
  obtain v where v: "persist_fails ?w = (False, v)" "disk_ok UFS_END v" "ufs_shape v" "same_meta ?w v" "synced v"
    by (rule persist_fails_ok [OF w]) blast
  have pd: "\<exists>s1. persist_directory ?w = (0, s1) \<and> persist_superblock s1 = (0, v)"
    using v(1) by (auto simp: persist_fails_def Let_def split: prod.splits if_splits)
  then have init: "ufs_init t = v\<lparr>ufs_ready := True\<rparr>"
    unfolding ufs_init_def Let_def format_fresh_def using u(1) magic by auto
  have dir: "directory v = replicate 2560 0" "next_free_lba v = UFS_DATA_LBA" "cached_file_count v = 0"
    using v(4) u(5) by (simp_all add: same_meta_def ufs_shape_def)
  have none: "\<not> ent_used (ent (directory v) i)" if "i < 64" for i
    using that dir ent_nth [of "directory v" i 0] by (simp add: ent_used_def)
  have "count_used_entries (directory v) = 0"
    using none dir by (simp add: count_used_card entry_used_ent cong: conj_cong)
  moreover have "ufs_inv (directory v) (unat UFS_DATA_LBA)" using none by (auto simp: ufs_inv_def ufs_numbers)
  moreover have "synced (v\<lparr>ufs_ready := True\<rparr>)"
    using v(5) disk_image_cong [OF v(2), of "v\<lparr>ufs_ready := True\<rparr>"] disk_bytes_cong [of 8193 5 "disk_image (v\<lparr>ufs_ready := True\<rparr>)" "disk_image v"]
    by (simp add: synced_def)
  ultimately have ok: "ufs_ok (v\<lparr>ufs_ready := True\<rparr>)" using v(2,3) dir by (simp add: ufs_ok_def ufs_shape_def)
  moreover have "ufs_content (v\<lparr>ufs_ready := True\<rparr>) h = None" for h
    using none handle_valid_cases [OF ok] by (simp add: ufs_content_def)
  moreover have "ufs_frame t (v\<lparr>ufs_ready := True\<rparr>)"
    using u(3) v(4) by (simp add: same_meta_def ufs_frame_def ufs_clear_def)
  ultimately show ?thesis unfolding init using dir by (simp add: fun_eq_iff)
qed

section \<open>The name space after an operation\<close>

lemma option_eqI: "(\<And>x. a = Some x \<longleftrightarrow> b = Some x) \<Longrightarrow> a = b"
  by (cases a; cases b) auto

lemma ufs_dir_created:
  assumes ok: "ufs_ok s" and okt: "ufs_ok t" and i: "i < 64" and name: "cstr name \<noteq> []" "length (cstr name) < 20"
    and fresh: "ufs_content s (int i) = None"
    and ents: "\<forall>j<64. ent (directory t) j = (if j = i then new_entry name uid (ent (directory s) j) else ent (directory s) j)"
    and new: "ufs_dir s name = None"
  shows "ufs_dir t = (\<lambda>n. if cstr n = cstr name then Some (int i) else ufs_dir s n)"
proof (rule ext, rule option_eqI)
  fix n h
  have "length (ent (directory s) i) = 40" using ufs_ok_dir [OF ok] i by (simp add: length_ent)
  note E = new_entry_fields [OF this name, of uid]
  have free: "\<not> handle_valid (int i) s" using fresh by (simp add: ufs_content_def split: if_splits)
  have i': "ent_used (ent (directory t) i)" "ent_name (ent (directory t) i) = cstr name" using ents i E by auto
  have o: "handle_valid h t \<and> ent_name (ent (directory t) (nat h)) = cstr n \<longleftrightarrow>
      handle_valid h s \<and> ent_name (ent (directory s) (nat h)) = cstr n" if "h \<noteq> int i"
    using that ents handle_valid_cases [OF ok] handle_valid_cases [OF okt] by (cases "nat h < 64") auto
  have absent: "\<not> (handle_valid h s \<and> ent_name (ent (directory s) (nat h)) = cstr name)"
    using new ufs_dir_Some [OF ok, of name h] by simp
  show "ufs_dir t n = Some h \<longleftrightarrow> (if cstr n = cstr name then Some (int i) else ufs_dir s n) = Some h"
  proof (cases "h = int i")
    case True
    then show ?thesis
      using i i' free ufs_dir_Some [OF okt, of n h] ufs_dir_Some [OF ok, of n h] handle_valid_cases [OF okt, of h] by auto
  next
    case False
    then show ?thesis using o absent ufs_dir_Some [OF okt, of n h] ufs_dir_Some [OF ok, of n h] by auto
  qed
qed

lemma ufs_dir_deleted:
  assumes ok: "ufs_ok s" and okt: "ufs_ok t" and d: "ufs_dir s name = Some h"
    and ents: "\<forall>j<64. j \<noteq> nat h \<longrightarrow> ent (directory t) j = ent (directory s) j" and free: "\<not> ent_used (ent (directory t) (nat h))"
  shows "ufs_dir t = (\<lambda>n. if cstr n = cstr name then None else ufs_dir s n)"
proof (rule ext, rule option_eqI)
  fix n g
  have h: "handle_valid h s" "ent_name (ent (directory s) (nat h)) = cstr name" using d ufs_dir_Some [OF ok] by auto
  show "ufs_dir t n = Some g \<longleftrightarrow> (if cstr n = cstr name then None else ufs_dir s n) = Some g"
  proof (cases "g = h")
    case True
    then show ?thesis
      using free h ufs_dir_Some [OF okt, of n g] ufs_dir_Some [OF ok, of n g] handle_valid_cases [OF okt, of g] by auto
  next
    case False
    have unique: "\<not> (handle_valid g s \<and> ent_name (ent (directory s) (nat g)) = cstr name)"
      using False d ufs_dir_Some [OF ok, of name g] by auto
    have "handle_valid g t \<and> ent_name (ent (directory t) (nat g)) = cstr n \<longleftrightarrow>
        handle_valid g s \<and> ent_name (ent (directory s) (nat g)) = cstr n"
    proof (cases "0 \<le> g \<and> nat g < 64")
      case True
      then have "nat g \<noteq> nat h" using False h(1) handle_valid_cases [OF ok, of h] by auto
      then show ?thesis using True ents handle_valid_cases [OF ok, of g] handle_valid_cases [OF okt, of g] by auto
    next
      case False
      then show ?thesis using handle_valid_cases [OF ok, of g] handle_valid_cases [OF okt, of g] by auto
    qed
    then show ?thesis using unique ufs_dir_Some [OF okt, of n g] ufs_dir_Some [OF ok, of n g] by auto
  qed
qed

section \<open>Example states\<close>

text \<open>A blank disk, the file system formatted on it, and a file in it.\<close>

definition ufs_blank :: ufs_state where
  "ufs_blank = io_state.extend ata_example
    \<lparr>superblock = replicate 512 0, directory = replicate 2560 0, ufs_ready = False, cached_file_count = 0,
     next_free_lba = 0, move_buf = replicate 4096 0, write_scratch = replicate 512 0, read_scratch = replicate 512 0\<rparr>"

definition ufs_example :: ufs_state where
  "ufs_example = ufs_init ufs_blank"

definition ufs_example_file :: ufs_state where
  "ufs_example_file = fst (ufs_create [0x61] 7 ufs_example)"

lemma ufs_blank_disk: "disk UFS_END ufs_blank (\<lambda>l. replicate 512 0)"
  by (rule sim_disk) (simp_all add: ufs_blank_def ata_example_def io_state.defs memfs_state.defs)

lemma ufs_example_ok: "ufs_ok ufs_example" "ufs_content ufs_example = Map.empty"
proof -
  have "disk_ok UFS_END ufs_blank" using ufs_blank_disk by (auto simp: disk_ok_def)
  moreover have "ufs_shape ufs_blank" by (simp add: ufs_shape_def ufs_blank_def io_state.defs)
  moreover have "take 4 (disk_image ufs_blank 8192) \<noteq> [0x55, 0x46, 0x53, 0x31]"
  proof
    have z: "take 4 (disk_image ufs_blank 8192) ! 0 = 0" using disk_image [OF ufs_blank_disk, of 8192] by simp
    assume e: "take 4 (disk_image ufs_blank 8192) = [0x55, 0x46, 0x53, 0x31]"
    show False using z unfolding e by simp
  qed
  ultimately show "ufs_ok ufs_example" "ufs_content ufs_example = Map.empty"
    using ufs_init_formats [of ufs_blank] by (simp_all add: ufs_example_def)
qed

lemma ufs_example_dir: "ufs_dir ufs_example name = None"
proof -
  have "\<not> handle_valid h ufs_example" for h
    using fun_cong [OF ufs_example_ok(2), of h] by (simp add: ufs_content_def split: if_splits)
  then show ?thesis using ufs_dir_Some [OF ufs_example_ok(1), of name] by (cases "ufs_dir ufs_example name") auto
qed

lemma ufs_example_file:
  obtains i where "ufs_ok ufs_example_file" "ufs_content ufs_example_file = [int i \<mapsto> []]"
    "ufs_create [0x61] 7 ufs_example = (ufs_example_file, int i)" "ufs_dir ufs_example_file [0x61] = Some (int i)"
proof -
  have name: "cstr [0x61] \<noteq> []" "length (cstr [0x61]) < 20" by (simp_all add: cstr_Cons)
  have "\<not> ent_used (ent (directory ufs_example) 0)"
    using fun_cong [OF ufs_example_ok(2), of 0] handle_valid_cases [OF ufs_example_ok(1), of 0] by (auto simp: ufs_content_def)
  then obtain t i where t: "ufs_create [0x61] 7 ufs_example = (t, int i)" "ufs_ok t" "i < 64" "ufs_content ufs_example (int i) = None"
      "ufs_content t = (ufs_content ufs_example)(int i \<mapsto> [])"
      "\<forall>j<64. ent (directory t) j = (if j = i then new_entry [0x61] 7 (ent (directory ufs_example) j) else ent (directory ufs_example) j)"
    using ufs_create_correct [OF ufs_example_ok(1) name ufs_example_dir, of 7] by (metis zero_less_numeral)
  have "ufs_dir t [0x61] = Some (int i)"
    using ufs_dir_created [OF ufs_example_ok(1) t(2,3) name t(4,6) ufs_example_dir] by simp
  then show thesis using that [of i] t(1,2,5) ufs_example_ok(2) by (simp add: ufs_example_file_def)
qed

section \<open>An empty write behind the end\<close>

text \<open>
  \<open>ufs_write_at\<close> skips \<open>ensure_capacity\<close> when the length is 0 and still raises the size to the offset. The
  size then exceeds the extent, and later reads return sectors of other files.
\<close>

lemma ufs_empty_write_breaks:
  fixes s :: "'a ufs_state_scheme"
  assumes ok: "ufs_ok s" and h: "handle_valid h s" and off: "512 * ent_cap (ent (directory s) (nat h)) < unat off"
  shows "\<exists>t. ufs_write_at h off [] 0 s = Some (t, 0) \<and> \<not> ufs_ok t \<and> ent_size (ent (directory t) (nat h)) = unat off \<and>
    ent_cap (ent (directory t) (nat h)) = ent_cap (ent (directory s) (nat h))"
proof -
  obtain i where i: "i = nat h" "i < 64" "h = int i" "ent_used (ent (directory s) i)" "length (directory s) = 2560"
      "ent_fits (unat (next_free_lba s)) (ent (directory s) i)" "length (ent (directory s) i) = 40"
      "\<And>k. k + 4 \<le> 40 \<Longrightarrow> read_u32 (entry_at (nat h) + k) (directory s) = read_u32 k (ent (directory s) i)"
    by (rule ufs_ok_entry [OF ok h]) blast
  have nh: "nat h = i" using i(1) by simp
  let ?e = "ent (directory s) i" and ?u = "s\<lparr>directory := write_u32 (40 * i + 24) off (directory s)\<rparr>"
  have u: "disk_ok UFS_END ?u" "ufs_shape ?u" using ok by (simp_all add: ufs_ok_def ufs_shape_def)
  obtain t where t: "persist_fails ?u = (False, t)" "same_meta ?u t"
    by (rule persist_fails_ok [OF u]) blast
  have grow: "off > read_u32 24 ?e"
    using off i(6) nh by (simp add: word_less_nat_alt ent_fits_def ent_size_def)
  have "ufs_write_loop a off 0 [] s = (0, s)" for a by (subst ufs_write_loop.simps) simp
  then have w: "ufs_write_at h off [] 0 s = Some (t, 0)"
    using h grow t(1) i(8) [of 24] by (simp add: ufs_write_at_def nh entry_at_eq)
  have "ent (directory t) i = write_u32 24 off ?e"
    using t(2) i(2,5) by (simp add: same_meta_def ent_write_u32)
  then have e: "ent_size (ent (directory t) i) = unat off" "ent_cap (ent (directory t) i) = ent_cap ?e" "ent_used (ent (directory t) i)"
    using ent_write_fields [OF i(7), of off] i(4) by simp_all
  have "\<not> ufs_ok t"
  proof
    assume "ufs_ok t"
    then have "ent_fits (unat (next_free_lba t)) (ent (directory t) i)"
      using ufs_invD(1) [OF _ i(2) e(3)] by (auto simp: ufs_ok_def)
    then show False using e off nh by (simp add: ent_fits_def)
  qed
  then show ?thesis using w e nh by blast
qed

section \<open>Properties\<close>



text \<open>
  C13: The file system survives a restart. Whatever the memory of the file system holds, mounting the
  disk again makes it well formed, with the same directory, free space, file contents, owners and
  permissions as before.
\<close>

theorem ufs_remount:
  fixes s t :: "'a ufs_state_scheme"
  assumes "ufs_ok s" and "same_io s t" and "ufs_shape t"
  shows "ufs_ok (ufs_init t) \<and> ufs_content (ufs_init t) = ufs_content s \<and> ufs_dir (ufs_init t) = ufs_dir s \<and>
    ufs_owner h (ufs_init t) = ufs_owner h s \<and> ufs_perm h (ufs_init t) = ufs_perm h s \<and>
    next_free_lba (ufs_init t) = next_free_lba s \<and> ufs_file_count (ufs_init t) = ufs_file_count s"
proof -
  note m = ufs_init_mounts [OF assms]
  have ready: "ufs_ready (ufs_init t)" "ufs_ready s" "cached_file_count (ufs_init t) = cached_file_count s"
    using m assms(1) by (simp_all add: ufs_ok_def)
  then have "ufs_find name (ufs_init t) = ufs_find name s" "handle_valid h (ufs_init t) = handle_valid h s" for name
    using m by (simp_all add: ufs_find_def handle_valid_def)
  then show ?thesis using m ready by (simp add: ufs_dir_def ufs_owner_def ufs_perm_def ufs_file_count_def fun_eq_iff)
qed

theorem ufs_remount_witness:
  "ufs_content (ufs_init (ufs_example_file\<lparr>directory := replicate 2560 9, ufs_ready := False\<rparr>)) = ufs_content ufs_example_file"
proof -
  obtain i where i: "ufs_ok ufs_example_file" by (rule ufs_example_file)
  then have "ufs_shape (ufs_example_file\<lparr>directory := replicate 2560 9, ufs_ready := False\<rparr>)"
    by (simp add: ufs_ok_def ufs_shape_def)
  with ufs_remount [OF i, of "ufs_example_file\<lparr>directory := replicate 2560 9, ufs_ready := False\<rparr>" 0]
  show ?thesis by (simp add: same_io_def)
qed

text \<open>
  C28: The name space of the user file system is a finite map from names to files. Creating a name that
  exists fails; deleting a name that exists removes that file; creating a new name fails when the
  directory is full, and otherwise adds an empty file that belongs to the caller, with no access
  for others.
\<close>

theorem ufs_names:
  assumes "ufs_ok s" and "cstr name \<noteq> []" and "length (cstr name) < UFS_NAME_MAX"
  shows "(\<forall>h. ufs_dir s name = Some h \<longrightarrow> ufs_create name uid s = (s, -1) \<and>
      (\<exists>t. ufs_delete name s = (t, 0) \<and> ufs_ok t \<and> ufs_content t = (ufs_content s)(h := None) \<and>
        ufs_dir t = (\<lambda>n. if cstr n = cstr name then None else ufs_dir s n))) \<and>
    (ufs_dir s name = None \<longrightarrow> ufs_delete name s = (s, -1) \<and>
      (ufs_create name uid s = (s, -1) \<and> (\<forall>i<64. ufs_content s (int i) \<noteq> None) \<or>
       (\<exists>t r. ufs_create name uid s = (t, r) \<and> ufs_ok t \<and> ufs_content s r = None \<and>
         ufs_content t = (ufs_content s)(r \<mapsto> []) \<and> ufs_owner r t = uid \<and> ufs_perm r t = 0 \<and>
         ufs_dir t = (\<lambda>n. if cstr n = cstr name then Some r else ufs_dir s n))))"
proof -
  have len: "length (cstr name) < 20" using assms(3) by (simp add: ufs_numbers)
  show ?thesis
  proof (rule conjI, intro allI impI)
    fix h
    assume d: "ufs_dir s name = Some h"
    have "ufs_create name uid s = (s, -1)"
      using d assms by (auto simp: ufs_create_def ufs_dir_def ufs_ok_def str_len_cstr ufs_numbers split: if_splits)
    then show "ufs_create name uid s = (s, -1) \<and>
      (\<exists>t. ufs_delete name s = (t, 0) \<and> ufs_ok t \<and> ufs_content t = (ufs_content s)(h := None) \<and>
        ufs_dir t = (\<lambda>n. if cstr n = cstr name then None else ufs_dir s n))"
      using ufs_delete_correct [OF assms(1) d] ufs_dir_deleted [OF assms(1) _ d] by blast
  next
    show "ufs_dir s name = None \<longrightarrow> ufs_delete name s = (s, -1) \<and>
      (ufs_create name uid s = (s, -1) \<and> (\<forall>i<64. ufs_content s (int i) \<noteq> None) \<or>
       (\<exists>t r. ufs_create name uid s = (t, r) \<and> ufs_ok t \<and> ufs_content s r = None \<and>
         ufs_content t = (ufs_content s)(r \<mapsto> []) \<and> ufs_owner r t = uid \<and> ufs_perm r t = 0 \<and>
         ufs_dir t = (\<lambda>n. if cstr n = cstr name then Some r else ufs_dir s n)))"
    proof
      assume d: "ufs_dir s name = None"
      have del: "ufs_delete name s = (s, -1)" using d by (simp add: ufs_delete_def ufs_dir_None)
      show "ufs_delete name s = (s, -1) \<and>
        (ufs_create name uid s = (s, -1) \<and> (\<forall>i<64. ufs_content s (int i) \<noteq> None) \<or>
         (\<exists>t r. ufs_create name uid s = (t, r) \<and> ufs_ok t \<and> ufs_content s r = None \<and>
           ufs_content t = (ufs_content s)(r \<mapsto> []) \<and> ufs_owner r t = uid \<and> ufs_perm r t = 0 \<and>
           ufs_dir t = (\<lambda>n. if cstr n = cstr name then Some r else ufs_dir s n)))"
      using ufs_create_correct [OF assms(1,2) len d, of uid]
    proof (elim disjE exE conjE)
      assume "ufs_create name uid s = (s, -1)" and full: "\<forall>i<64. ent_used (ent (directory s) i)"
      then show ?thesis using del handle_valid_cases [OF assms(1)] by (auto simp: ufs_content_def)
    next
      fix t i
      assume t: "ufs_create name uid s = (t, int i)" "ufs_ok t" "i < 64" "ufs_content s (int i) = None"
          "ufs_content t = (ufs_content s)(int i \<mapsto> [])"
          "\<forall>j<64. ent (directory t) j = (if j = i then new_entry name uid (ent (directory s) j) else ent (directory s) j)"
      have le: "length (ent (directory s) i) = 40" using ufs_ok_dir [OF assms(1)] t(3) by (simp add: length_ent)
      note E = new_entry_fields [OF le assms(2) len, of uid]
      have v: "handle_valid (int i) t" using t(3,6) E(2) handle_valid_cases [OF t(2)] by simp
      have e: "ent (directory t) i = new_entry name uid (ent (directory s) i)" using t(3,6) by simp
      have "read_u32 (40 * i + 32) (directory t) = uid" "directory t ! (40 * i + 36) = 0"
        using E(8,9) e t(3) read_u32_ent [OF ufs_ok_dir [OF t(2)] t(3), of 32] ent_nth [OF ufs_ok_dir [OF t(2)] t(3), of 36] by simp_all
      then have "ufs_owner (int i) t = uid" "ufs_perm (int i) t = 0"
        using v by (simp_all add: ufs_owner_def ufs_perm_def entry_at_eq ufs_numbers)
      then show ?thesis
        using del t ufs_dir_created [OF assms(1) t(2,3) assms(2) len t(4,6) d] by blast
      qed
    qed
  qed
qed

theorem ufs_names_witness:
  "ufs_create [0x61] 9 ufs_example_file = (ufs_example_file, -1) \<and>
   (\<exists>t. ufs_delete [0x61] ufs_example_file = (t, 0) \<and> ufs_dir t [0x61] = None)"
proof -
  obtain i where i: "ufs_ok ufs_example_file" "ufs_dir ufs_example_file [0x61] = Some (int i)" by (rule ufs_example_file)
  have name: "cstr [0x61] \<noteq> []" "length (cstr [0x61]) < UFS_NAME_MAX" by (simp_all add: cstr_Cons ufs_numbers)
  show ?thesis using ufs_names [OF i(1) name, of 9] i(2) by auto
qed

end
