(* ===== verification/Fs.thy ===== *)
theory Fs
  imports Ufs_Names
begin

text \<open>
  The read-only boot file system (\<open>kernel/core/fs.c\<close>): a superblock, one directory sector of 16 entries
  of 32 bytes, and contiguous files. The static buffers are byte lists; messages to the kernel log
  are left out.
\<close>

definition FS_BASE_LBA :: u32 where "FS_BASE_LBA = 2048"
definition FS_SUPERBLOCK_LBA :: u32 where "FS_SUPERBLOCK_LBA = FS_BASE_LBA + 0"
definition FS_DIR_LBA :: u32 where "FS_DIR_LBA = FS_BASE_LBA + 1"
definition FS_MAX_ENTRIES :: u32 where "FS_MAX_ENTRIES = 16"
definition FS_MAGIC :: "u8 list" where "FS_MAGIC = [0x4D, 0x46, 0x53, 0x31]"

lemmas fs_layout = FS_BASE_LBA_def FS_SUPERBLOCK_LBA_def FS_DIR_LBA_def FS_MAX_ENTRIES_def

record fs_dirent =
  f_name :: "u8 list"
  f_start_lba :: u32
  f_size_bytes :: u32

record fs_state = ufs_state +
  fs_superblock :: "u8 list"
  fs_dir_sector :: "u8 list"
  fs_ready :: bool
  fs_cached_file_count :: u32

definition fs_init :: "'a fs_state_scheme \<Rightarrow> 'a fs_state_scheme" where
  "fs_init s =
    (let s = s\<lparr>fs_ready := False, fs_cached_file_count := 0\<rparr>;
         (rc, sb, s) = ata_read_sectors (ucast FS_SUPERBLOCK_LBA) 1 (fs_superblock s) s;
         s = s\<lparr>fs_superblock := sb\<rparr> in
     if rc \<noteq> 0 then s
     else if sb ! 0 \<noteq> FS_MAGIC ! 0 \<or> sb ! 1 \<noteq> FS_MAGIC ! 1 \<or> sb ! 2 \<noteq> FS_MAGIC ! 2 \<or> sb ! 3 \<noteq> FS_MAGIC ! 3 then s
     else let (rc, dir, s) = ata_read_sectors (ucast FS_DIR_LBA) 1 (fs_dir_sector s) s;
              s = s\<lparr>fs_dir_sector := dir\<rparr> in
     if rc \<noteq> 0 then s
     else let count = read_u32 4 sb;
              count = (if count > FS_MAX_ENTRIES then FS_MAX_ENTRIES else count)
       in s\<lparr>fs_cached_file_count := count, fs_ready := True\<rparr>)"

definition fs_file_count :: "'a fs_state_scheme \<Rightarrow> u32" where
  "fs_file_count s = (if fs_ready s then fs_cached_file_count s else 0)"

definition fs_entry :: "nat \<Rightarrow> 'a fs_state_scheme \<Rightarrow> fs_dirent option" where
  "fs_entry index s =
    (if \<not> fs_ready s \<or> index \<ge> unat (fs_cached_file_count s) then None
     else let raw = index * 32 in
       Some \<lparr>f_name = slice raw 20 (fs_dir_sector s), f_start_lba = read_u32 (raw + 20) (fs_dir_sector s),
         f_size_bytes = read_u32 (raw + 24) (fs_dir_sector s)\<rparr>)"

text \<open>
  \<open>str_eq\<close> on \<open>e->name\<close> reads on into the following fields of the structure when the 20 bytes of the name
  hold no terminator.
\<close>

definition dirent_chars :: "fs_dirent \<Rightarrow> u8 list" where
  "dirent_chars e = f_name e @ u32_bytes (f_start_lba e) @ u32_bytes (f_size_bytes e)"

fun fs_find_loop :: "nat list \<Rightarrow> u8 list \<Rightarrow> 'a fs_state_scheme \<Rightarrow> fs_dirent option" where
  "fs_find_loop [] name s = None"
| "fs_find_loop (i # is) name s =
    (case fs_entry i s of None \<Rightarrow> fs_find_loop is name s
     | Some e \<Rightarrow> if str_eq (dirent_chars e) name then Some e else fs_find_loop is name s)"

definition fs_find :: "u8 list \<Rightarrow> 'a fs_state_scheme \<Rightarrow> fs_dirent option" where
  "fs_find name s = fs_find_loop [0..<unat (fs_file_count s)] name s"

definition fs_sectors :: "fs_dirent \<Rightarrow> u32" where
  "fs_sectors e = (let left = (f_size_bytes e + 511) div 512 in if left = 0 then 1 else left)"

text \<open>The loop of \<open>fs_read_file\<close>; \<open>dst\<close> is the offset of the pointer in the buffer.\<close>

definition read_chunk :: "u32 \<Rightarrow> u32" where
  "read_chunk left = (if left > 256 then 256 else left)"

lemma read_chunk_step:
  assumes "0 < n"
  shows "unat (n - read_chunk n) = unat n - unat (read_chunk n)" and "0 < unat (read_chunk n)" and "unat (read_chunk n) \<le> unat n"
  using assms unat_diff [of 256 n] by (auto simp: read_chunk_def word_less_nat_alt word_le_nat_alt)

function fs_read_loop :: "u32 \<Rightarrow> nat \<Rightarrow> u32 \<Rightarrow> u8 list \<Rightarrow> 'a fs_state_scheme \<Rightarrow> int \<times> u8 list \<times> 'a fs_state_scheme" where
  "fs_read_loop start dst left buf s =
    (if left > 0 then
       let chunk = read_chunk left;
           (rc, part, s) = ata_read_sectors (ucast start + of_nat (dst div 512)) chunk (drop dst buf) s;
           buf = take dst buf @ part in
       if rc \<noteq> 0 then (-1, buf, s)
       else fs_read_loop start (dst + unat chunk * 512) (left - chunk) buf s
     else (0, buf, s))"
  by pat_completeness auto
termination
  by (relation "measure (\<lambda>(_, _, n, _, _). unat n)") (use read_chunk_step in fastforce)+

declare fs_read_loop.simps [simp del]

definition fs_read_file :: "fs_dirent option \<Rightarrow> u8 list \<Rightarrow> 'a fs_state_scheme \<Rightarrow> int \<times> u8 list \<times> 'a fs_state_scheme" where
  "fs_read_file dirent buf s =
    (case dirent of None \<Rightarrow> (-1, buf, s)
     | Some e \<Rightarrow> fs_read_loop (f_start_lba e) 0 (fs_sectors e) buf s)"

section \<open>Reading a file\<close>

lemma overwrite_drop:
  "dst + length xs \<le> length buf \<Longrightarrow> take dst buf @ overwrite 0 xs (drop dst buf) = overwrite dst xs buf"
  by (simp add: overwrite_def add.commute)

lemma fs_read_loop_ok:
  fixes s :: "'a fs_state_scheme"
  assumes "disk_ok cap s" and "512 * k + 512 * unat n \<le> length buf" and "unat start + k + unat n \<le> cap" and "cap \<le> 2 ^ 28"
  shows "\<exists>t. fs_read_loop start (512 * k) n buf s =
      (0, overwrite (512 * k) (disk_bytes (disk_image s) (unat start + k) (unat n)) buf, t) \<and>
    disk_ok cap t \<and> io_frame s t \<and> same_disk cap s t"
  using assms
proof (induction "unat n" arbitrary: k n buf s rule: less_induct)
  case less
  show ?case
  proof (cases "0 < n")
    case False
    then have "n = 0" using word_gt_0 by blast
    then show ?thesis using less.prems by (subst fs_read_loop.simps) simp
  next
    case True
    let ?c = "read_chunk n"
    note c = read_chunk_step [OF True]
    have c256: "0 < ?c" "?c \<le> 256" using True by (auto simp: read_chunk_def)
    have k: "k < 2 ^ 28" using less.prems(3,4) c by linarith
    have "unat (of_nat k :: u64) = k" using k by (simp add: unat_of_nat)
    moreover have "unat (ucast start :: u64) = unat start" by (simp add: unsigned_ucast_eq take_bit_eq_mod)
    moreover have "unat start + k < 2 ^ LENGTH(64)" using less.prems(3,4) by simp
    ultimately have lba: "unat (ucast start + of_nat k :: u64) = unat start + k" using unat_add_small [of "ucast start :: u64" "of_nat k"] by simp
    let ?B = "disk_bytes (disk_image s) (unat start + k) (unat ?c)"
    have lB: "length ?B = 512 * unat ?c" by (rule length_disk_bytes_image [OF less.prems(1)]) (use less.prems(3) c in linarith)
    have pre: "unat (ucast start + of_nat k :: u64) + unat ?c \<le> cap" "512 * unat ?c \<le> length (drop (512 * k) buf)"
      using lba less.prems(2,3) c by auto
    obtain s1 where s1: "ata_read_sectors (ucast start + of_nat k) ?c (drop (512 * k) buf) s = (0, overwrite 0 ?B (drop (512 * k) buf), s1)"
        "disk_ok cap s1" "io_frame s s1" "same_disk cap s s1"
      using disk_read [OF less.prems(1) c256 pre] unfolding lba by blast
    let ?buf = "overwrite (512 * k) ?B buf"
    have fit: "512 * k + length ?B \<le> length buf" using lB less.prems(2) c by simp
    have dec: "unat (n - ?c) < unat n" using c by simp
    have room: "512 * (k + unat ?c) + 512 * unat (n - ?c) \<le> length ?buf"
    proof -
      have "unat (n - ?c) + unat ?c = unat n" using c by simp
      moreover have "512 * (k + b) + 512 * a = 512 * k + 512 * m" if "a + b = m" for a b m :: nat using that by (simp add: algebra_simps)
      ultimately have "512 * (k + unat ?c) + 512 * unat (n - ?c) = 512 * k + 512 * unat n" by blast
      then show ?thesis unfolding length_overwrite [OF fit] using less.prems(2) by simp
    qed
    have lim: "unat start + (k + unat ?c) + unat (n - ?c) \<le> cap" using less.prems(3) c by simp
    obtain t where t: "fs_read_loop start (512 * (k + unat ?c)) (n - ?c) ?buf s1 =
          (0, overwrite (512 * (k + unat ?c)) (disk_bytes (disk_image s1) (unat start + (k + unat ?c)) (unat (n - ?c))) ?buf, t)"
        "disk_ok cap t" "io_frame s1 t" "same_disk cap s1 t"
      using less.hyps [OF dec s1(2) room lim less.prems(4)] by blast
    have "disk_bytes (disk_image s1) (unat start + (k + unat ?c)) (unat (n - ?c)) =
        disk_bytes (disk_image s) (unat start + k + unat ?c) (unat n - unat ?c)"
      using same_disk_bytes [OF s1(4), of "unat start + (k + unat ?c)" "unat (n - ?c)"] lim c by (simp add: add.assoc)
    moreover have "?B @ disk_bytes (disk_image s) (unat start + k + unat ?c) (unat n - unat ?c) =
        disk_bytes (disk_image s) (unat start + k) (unat n)"
      using disk_bytes_add [of "disk_image s" "unat start + k" "unat ?c" "unat n - unat ?c"] c by simp
    moreover have "length (disk_bytes (disk_image s) (unat start + k + unat ?c) (unat n - unat ?c)) = 512 * (unat n - unat ?c)"
      by (rule length_disk_bytes_image [OF less.prems(1)]) (use less.prems(3) c in linarith)
    ultimately have ov: "overwrite (512 * (k + unat ?c)) (disk_bytes (disk_image s1) (unat start + (k + unat ?c)) (unat (n - ?c))) ?buf =
        overwrite (512 * k) (disk_bytes (disk_image s) (unat start + k) (unat n)) buf"
      using overwrite_append [of "512 * k" ?B "disk_bytes (disk_image s) (unat start + k + unat ?c) (unat n - unat ?c)" buf]
        lB less.prems(2) c by (simp add: algebra_simps)
    have "fs_read_loop start (512 * k) n buf s = fs_read_loop start (512 * (k + unat ?c)) (n - ?c) ?buf s1"
      using True s1(1) overwrite_drop [OF fit] by (subst fs_read_loop.simps) (simp add: Let_def algebra_simps)
    then show ?thesis using t ov io_frame_trans [OF s1(3) t(3)] same_disk_trans [OF s1(4) t(4)] by simp
  qed
qed

lemma fs_sectors_nat:
  assumes "unat (f_size_bytes e) \<le> 2 ^ 32 - 512"
  shows "unat (fs_sectors e) = max 1 ((unat (f_size_bytes e) + 511) div 512)"
proof -
  have n: "unat (f_size_bytes e + 511) = unat (f_size_bytes e) + 511" using assms unat_add_small [of "f_size_bytes e" 511] by simp
  have d: "unat ((f_size_bytes e + 511) div 512) = (unat (f_size_bytes e) + 511) div 512"
    unfolding unat_div_distrib n by simp
  show ?thesis
  proof (cases "(f_size_bytes e + 511) div 512 = 0")
    case True
    then show ?thesis using d by (simp add: fs_sectors_def Let_def)
  next
    case False
    then have "(unat (f_size_bytes e) + 511) div 512 \<noteq> 0" using d by (metis unat_eq_0)
    then have "1 \<le> (unat (f_size_bytes e) + 511) div 512" by linarith
    then show ?thesis using False d by (simp add: fs_sectors_def Let_def max_def)
  qed
qed

lemma whole_sectors:
  fixes m n :: nat
  assumes "n = max 1 ((m + 511) div 512)"
  shows "m \<le> 512 * n \<and> 512 * n < m + 512 + (if m = 0 then 1 else 0) \<and> (512 * n = m \<longleftrightarrow> 0 < m \<and> m mod 512 = 0)"
proof (cases "m = 0")
  case True
  then show ?thesis using assms by simp
next
  case False
  then have n: "n = (m + 511) div 512" using assms by (simp add: max_def)
  have d: "512 * ((m + 511) div 512) + (m + 511) mod 512 = m + 511" "(m + 511) mod 512 < 512" by simp_all
  have "512 * n = m" if "m mod 512 = 0"
  proof -
    have "m div 512 * 512 = m" using that div_mult_mod_eq [of m 512] by simp
    then have "(m + 511) div 512 = m div 512" using d by linarith
    then show ?thesis using \<open>m div 512 * 512 = m\<close> n by simp
  qed
  moreover have "m mod 512 = 0" if "512 * n = m" unfolding that [symmetric] by simp
  moreover have "m \<le> 512 * n" "512 * n < m + 512" using d unfolding n by linarith+
  ultimately show ?thesis using False by auto
qed

section \<open>Finding a file\<close>

lemma fs_find_loop_Some:
  "fs_find_loop is name s = Some e \<Longrightarrow> \<exists>i\<in>set is. fs_entry i s = Some e \<and> cstr (dirent_chars e) = cstr name"
  by (induction "is") (auto simp: str_eq_cstr split: option.splits if_splits)

lemma fs_find_loop_None:
  "fs_find_loop is name s = None \<Longrightarrow> i \<in> set is \<Longrightarrow> fs_entry i s = Some e \<Longrightarrow> cstr (dirent_chars e) \<noteq> cstr name"
  by (induction "is") (auto simp: str_eq_cstr split: option.splits if_splits)

text \<open>Mounting reads the superblock and the directory of a disk that holds a file system.\<close>

lemma fs_init_mounts:
  fixes s :: "'a fs_state_scheme"
  assumes "disk_ok cap s" and "2050 \<le> cap" and "length (fs_superblock s) = 512" and "length (fs_dir_sector s) = 512"
    and magic: "take 4 (disk_image s 2048) = FS_MAGIC"
  shows "fs_ready (fs_init s) \<and> fs_dir_sector (fs_init s) = disk_image s 2049 \<and>
    fs_file_count (fs_init s) = min (read_u32 4 (disk_image s 2048)) FS_MAX_ENTRIES"
proof -
  let ?s = "s\<lparr>fs_ready := False, fs_cached_file_count := 0\<rparr>"
  have io: "same_io s ?s" by (simp add: same_io_def)
  have ds: "disk_ok cap ?s" using disk_ok_cong [OF io] assms(1) by simp
  have img: "disk_image ?s l = disk_image s l" if "l < cap" for l by (rule disk_image_cong [OF assms(1) io that])
  have lba: "unat (ucast FS_SUPERBLOCK_LBA :: u64) = 2048" "unat (ucast FS_DIR_LBA :: u64) = 2049"
    by (simp_all add: fs_layout)
  obtain u where u: "ata_read_sectors (ucast FS_SUPERBLOCK_LBA) 1 (fs_superblock ?s) ?s = (0, disk_image s 2048, u)" "disk_ok cap u"
      "io_frame ?s u" "same_disk cap ?s u"
    using read_sector [OF ds, of "ucast FS_SUPERBLOCK_LBA" "fs_superblock ?s"] lba assms(2,3) img [of 2048] by auto
  let ?u = "u\<lparr>fs_superblock := disk_image s 2048\<rparr>"
  have io': "same_io u ?u" by (simp add: same_io_def)
  have du: "disk_ok cap ?u" using disk_ok_cong [OF io'] u(2) by simp
  have "disk_image ?u 2049 = disk_image s 2049"
    using disk_image_cong [OF u(2) io', of 2049] u(4) img [of 2049] assms(2) by (simp add: same_disk_def)
  moreover have "length (fs_dir_sector ?u) = 512"
    using io_frame_field [OF _ u(3), of fs_dir_sector] assms(4) by simp
  ultimately obtain v where v: "ata_read_sectors (ucast FS_DIR_LBA) 1 (fs_dir_sector ?u) ?u = (0, disk_image s 2049, v)"
    using read_sector [OF du, of "ucast FS_DIR_LBA" "fs_dir_sector ?u"] lba assms(2) by auto
  have "disk_image s 2048 ! k = FS_MAGIC ! k" if "k < 4" for k using magic that by (metis nth_take)
  then have "fs_init s = v\<lparr>fs_dir_sector := disk_image s 2049, fs_cached_file_count :=
      (if read_u32 4 (disk_image s 2048) > FS_MAX_ENTRIES then FS_MAX_ENTRIES else read_u32 4 (disk_image s 2048)), fs_ready := True\<rparr>"
    unfolding fs_init_def Let_def using u(1) v by simp
  then show ?thesis by (auto simp: fs_file_count_def min_def)
qed

section \<open>Properties\<close>

text \<open>
  \<open>fs_read_file\<close> copies the file's sectors, in order and whatever their number, to the start of the
  buffer. It writes whole sectors: a buffer of exactly \<open>size_bytes\<close> bytes is overrun by up to 511
  bytes, unless the size is a positive multiple of the sector size.
\<close>

theorem fs_read_file_correct:
  fixes s :: "'a fs_state_scheme"
  assumes "disk_ok cap s" and "cap \<le> 2 ^ 28" and "unat (f_size_bytes e) \<le> 2 ^ 32 - 512"
    and "unat (f_start_lba e) + unat (fs_sectors e) \<le> cap" and "512 * unat (fs_sectors e) \<le> length buf"
  shows "\<exists>t. fs_read_file (Some e) buf s =
      (0, overwrite 0 (disk_bytes (disk_image s) (unat (f_start_lba e)) (unat (fs_sectors e))) buf, t) \<and>
    io_frame s t \<and> same_disk cap s t \<and>
    unat (f_size_bytes e) \<le> 512 * unat (fs_sectors e) \<and> 512 * unat (fs_sectors e) < unat (f_size_bytes e) + 512 + (if f_size_bytes e = 0 then 1 else 0) \<and>
    (512 * unat (fs_sectors e) = unat (f_size_bytes e) \<longleftrightarrow> 0 < unat (f_size_bytes e) \<and> unat (f_size_bytes e) mod 512 = 0)"
proof -
  have n: "unat (fs_sectors e) = max 1 ((unat (f_size_bytes e) + 511) div 512)" by (rule fs_sectors_nat [OF assms(3)])
  obtain t where t: "fs_read_loop (f_start_lba e) 0 (fs_sectors e) buf s =
        (0, overwrite 0 (disk_bytes (disk_image s) (unat (f_start_lba e)) (unat (fs_sectors e))) buf, t)"
      "io_frame s t" "same_disk cap s t"
    using fs_read_loop_ok [OF assms(1), of 0 "fs_sectors e" buf "f_start_lba e"] assms(2,4,5) by auto
  have z: "f_size_bytes e = 0 \<longleftrightarrow> unat (f_size_bytes e) = 0" by (simp add: unat_eq_0)
  note whole_sectors [OF n, folded z]
  then show ?thesis using t by (simp add: fs_read_file_def)
qed

definition fs_example :: fs_state where
  "fs_example = ufs_state.extend ufs_blank
    \<lparr>fs_superblock = replicate 512 0, fs_dir_sector = replicate 512 0, fs_ready = True, fs_cached_file_count = 0\<rparr>"

lemma fs_example_disk: "disk_ok UFS_END fs_example"
proof -
  have "disk UFS_END fs_example (\<lambda>l. replicate 512 0)"
    by (rule sim_disk) (simp_all add: fs_example_def ufs_blank_def ata_example_def ufs_state.defs io_state.defs memfs_state.defs)
  then show ?thesis by (auto simp: disk_ok_def)
qed

theorem fs_read_file_correct_witness:
  "\<exists>t. fst (fs_read_file (Some \<lparr>f_name = [0x61], f_start_lba = 3000, f_size_bytes = 700\<rparr>) (replicate 1024 1) fs_example) = 0 \<and>
     io_frame fs_example t \<and> 512 * unat (fs_sectors \<lparr>f_name = [0x61], f_start_lba = 3000, f_size_bytes = 700\<rparr>) \<noteq> 700"
proof -
  let ?e = "\<lparr>f_name = [0x61], f_start_lba = 3000, f_size_bytes = 700\<rparr> :: fs_dirent"
  have "unat (fs_sectors ?e) = 2" by (simp add: fs_sectors_nat)
  then show ?thesis using fs_read_file_correct [OF fs_example_disk, of ?e "replicate 1024 1"] by auto
qed

end
