(* ===== verification/Users.thy ===== *)
theory Users
  imports Fs
begin

text \<open>
  User accounts (\<open>kernel/core/users.c\<close>): a table of 16 accounts kept in the file \<open>.passwd\<close> of the user
  file system. The model's table is the list of accounts, and a string operation on a user name reads
  the bytes of the table from there on, as the code does. Messages to the kernel log are left out.
\<close>

definition USER_NAME_MAX :: nat where "USER_NAME_MAX = 20"
definition USER_MAX_ACCOUNTS :: nat where "USER_MAX_ACCOUNTS = 16"
definition RECORD_SIZE :: nat where "RECORD_SIZE = 32"

definition PASSWD_FILE :: "u8 list" where "PASSWD_FILE = literal ''.passwd''"

lemmas users_layout = USER_NAME_MAX_def USER_MAX_ACCOUNTS_def RECORD_SIZE_def

record account =
  username :: "u8 list"
  a_uid :: u32
  password_hash :: u32

record users_state = fs_state +
  accounts :: "account list"
  users_init_buf :: "u8 list"

text \<open>The bytes of the table.\<close>

definition account_chars :: "account list \<Rightarrow> u8 list" where
  "account_chars as = concat (map (\<lambda>a. username a @ u32_bytes (a_uid a) @ u32_bytes (password_hash a)) as)"

definition account_used :: "account \<Rightarrow> bool" where
  "account_used a \<longleftrightarrow> username a ! 0 \<noteq> 0"

section \<open>Passwords\<close>

definition fnv_step :: "u8 \<Rightarrow> u32 \<Rightarrow> u32" where
  "fnv_step c h = (h XOR ucast c) * 16777619"

definition hash_password :: "u8 list \<Rightarrow> u32" where
  "hash_password password =
    (let h = 2166136261;
         h = fold fnv_step (literal ''MiniKernelSalt'') h
     in fold fnv_step (cstr password) h)"

section \<open>Storing the table\<close>

definition set_username :: "u8 list \<Rightarrow> account \<Rightarrow> account" where
  "set_username name a =
    (let n = copy_name_loop (USER_NAME_MAX - 1) name in a\<lparr>username := overwrite 0 (n @ [0]) (username a)\<rparr>)"

definition account_record :: "account \<Rightarrow> u8 list" where
  "account_record a = username a @ u32_bytes (a_uid a) @ u32_bytes (password_hash a) @ [0, 0, 0, 0]"

definition persist :: "'a users_state_scheme \<Rightarrow> 'a users_state_scheme option" where
  "persist s =
    (let buf = concat (map account_record (accounts s));
         handle = ufs_find PASSWD_FILE s;
         (handle, s) =
           (if handle < 0 then
              let (s, handle) = ufs_create PASSWD_FILE 0 s in
              if handle < 0 then (handle, s) else (handle, fst (ufs_chmod handle 0 s))
            else (handle, fst (ufs_truncate handle 0 s))) in
     if handle < 0 then Some s
     else map_option fst (ufs_write_at handle 0 buf (of_nat (USER_MAX_ACCOUNTS * RECORD_SIZE)) s))"

definition seed_defaults :: "'a users_state_scheme \<Rightarrow> 'a users_state_scheme option" where
  "seed_defaults s =
    (let as = map (\<lambda>a. a\<lparr>username := (username a)[0 := 0]\<rparr>) (accounts s);
         as = as[0 := set_username (literal ''root'') (as ! 0) \<lparr>a_uid := 0, password_hash := hash_password (literal ''root'')\<rparr>];
         as = as[1 := set_username (literal ''user'') (as ! 1) \<lparr>a_uid := 1000, password_hash := hash_password (literal ''user'')\<rparr>]
     in persist (s\<lparr>accounts := as\<rparr>))"

definition account_at :: "u8 list \<Rightarrow> nat \<Rightarrow> account" where
  "account_at buf i =
    (let rec = i * RECORD_SIZE in
     \<lparr>username = slice rec USER_NAME_MAX buf, a_uid = read_u32 (rec + 20) buf, password_hash = read_u32 (rec + 24) buf\<rparr>)"

definition users_init :: "'a users_state_scheme \<Rightarrow> 'a users_state_scheme option" where
  "users_init s =
    (let handle = ufs_find PASSWD_FILE s in
     if handle < 0 then seed_defaults s
     else if ufs_size handle s \<noteq> of_nat (USER_MAX_ACCOUNTS * RECORD_SIZE) then seed_defaults s
     else let (s, _, bs) = ufs_read_at handle 0 (of_nat (USER_MAX_ACCOUNTS * RECORD_SIZE)) s;
              buf = overwrite 0 bs (users_init_buf s)
       in Some (s\<lparr>users_init_buf := buf, accounts := map (account_at buf) [0..<USER_MAX_ACCOUNTS]\<rparr>))"

section \<open>Looking accounts up\<close>

text \<open>None stands for the result -1, \<open>Some uid\<close> for 0 with \<open>uid\<close> stored.\<close>

fun authenticate_loop :: "account list \<Rightarrow> u8 list \<Rightarrow> u32 \<Rightarrow> u32 option" where
  "authenticate_loop [] name h = None"
| "authenticate_loop (a # as) name h =
    (if \<not> account_used a then authenticate_loop as name h
     else if \<not> str_eq (account_chars (a # as)) name then authenticate_loop as name h
     else if password_hash a \<noteq> h then None
     else Some (a_uid a))"

definition users_authenticate :: "u8 list \<Rightarrow> u8 list \<Rightarrow> 'a users_state_scheme \<Rightarrow> u32 option" where
  "users_authenticate name password s = authenticate_loop (accounts s) name (hash_password password)"

fun account_exists :: "account list \<Rightarrow> u8 list \<Rightarrow> bool" where
  "account_exists [] name = False"
| "account_exists (a # as) name = (account_used a \<and> str_eq (account_chars (a # as)) name \<or> account_exists as name)"

definition users_add :: "u8 list \<Rightarrow> u8 list \<Rightarrow> u32 \<Rightarrow> 'a users_state_scheme \<Rightarrow> ('a users_state_scheme \<times> int) option" where
  "users_add name password uid s =
    (if str_len name = 0 \<or> str_len name \<ge> USER_NAME_MAX then Some (s, -1)
     else if account_exists (accounts s) name then Some (s, -1)
     else case first_index (\<lambda>a. \<not> account_used a) (accounts s) of
       None \<Rightarrow> Some (s, -1)
     | Some slot \<Rightarrow>
         let a = set_username name (accounts s ! slot) \<lparr>a_uid := uid, password_hash := hash_password password\<rparr>
         in map_option (\<lambda>s. (s, 0)) (persist (s\<lparr>accounts := (accounts s)[slot := a]\<rparr>)))"

text \<open>The result and the buffer \<open>out\<close>. With \<open>out_len = 0\<close> the terminator is stored all the same.\<close>

fun name_for_uid_loop :: "account list \<Rightarrow> u32 \<Rightarrow> u8 list option" where
  "name_for_uid_loop [] uid = None"
| "name_for_uid_loop (a # as) uid =
    (if \<not> account_used a then name_for_uid_loop as uid
     else if a_uid a \<noteq> uid then name_for_uid_loop as uid
     else Some (account_chars (a # as)))"

definition users_name_for_uid :: "u32 \<Rightarrow> u8 list \<Rightarrow> u32 \<Rightarrow> 'a users_state_scheme \<Rightarrow> int \<times> u8 list" where
  "users_name_for_uid uid out out_len s =
    (case name_for_uid_loop (accounts s) uid of
       None \<Rightarrow> (-1, out)
     | Some name \<Rightarrow> (0, overwrite 0 (copy_name_loop (unat out_len - 1) name @ [0]) out))"

section \<open>The table and its names\<close>

definition account_ok :: "account \<Rightarrow> bool" where
  "account_ok a \<longleftrightarrow> length (username a) = 20 \<and> username a ! 19 = 0"

definition users_ok :: "'a users_state_scheme \<Rightarrow> bool" where
  "users_ok s \<longleftrightarrow> length (accounts s) = 16 \<and> (\<forall>a\<in>set (accounts s). account_ok a) \<and> length (users_init_buf s) = 512"

definition account_name :: "account \<Rightarrow> u8 list" where
  "account_name a = cstr (username a)"

lemma account_used_name: "account_ok a \<Longrightarrow> account_used a \<longleftrightarrow> account_name a \<noteq> []"
  by (cases "username a") (auto simp: account_ok_def account_used_def account_name_def cstr_Cons)

lemma account_chars_name: "account_ok a \<Longrightarrow> cstr (account_chars (a # as)) = account_name a"
  using cstr_take [of "account_chars (a # as)" 19 20]
  by (simp add: account_ok_def account_name_def account_chars_def nth_append)

lemma str_eq_account: "account_ok a \<Longrightarrow> str_eq (account_chars (a # as)) name \<longleftrightarrow> account_name a = cstr name"
  by (simp add: str_eq_cstr account_chars_name)

lemma account_exists_iff:
  "\<forall>a\<in>set as. account_ok a \<Longrightarrow> account_exists as name \<longleftrightarrow> (\<exists>a\<in>set as. account_used a \<and> account_name a = cstr name)"
  by (induction as) (auto simp: str_eq_account)

text \<open>A new account answers to its own name and to no other.\<close>

lemma authenticate_added:
  assumes "\<forall>a\<in>set as. account_ok a" and "account_ok new" and "account_used new" and "i < length as" and "\<not> account_used (as ! i)"
    and "\<not> account_exists as (account_name new)"
  shows "authenticate_loop (as[i := new]) n h =
    (if cstr n = account_name new then if password_hash new = h then Some (a_uid new) else None else authenticate_loop as n h)"
  using assms
proof (induction as arbitrary: i)
  case (Cons a as)
  have c: "cstr (account_name new) = account_name new" by (simp add: account_name_def)
  show ?case
  proof (cases i)
    case 0
    have "authenticate_loop as n h = None" if "cstr n = account_name new"
    proof -
      have "\<forall>a\<in>set as. \<not> (account_used a \<and> account_name a = cstr n)"
        using Cons.prems(1,6) that c by (simp add: account_exists_iff)
      then show ?thesis using Cons.prems(1) by (induction as) (auto simp: str_eq_account)
    qed
    then show ?thesis using 0 Cons.prems by (auto simp: str_eq_account)
  next
    case (Suc j)
    then show ?thesis using Cons.prems Cons.IH [of j] c by (auto simp: str_eq_account)
  qed
qed simp

lemma set_username_ok:
  assumes "account_ok a" and "length (cstr name) < 20"
  shows "account_ok (set_username name a)" and "account_name (set_username name a) = cstr name"
proof -
  let ?n = "cstr name"
  have n: "copy_name_loop 19 name = ?n" using assms(2) by (simp add: copy_name_cstr)
  have len: "0 + length (?n @ [0]) \<le> length (username a)" using assms by (simp add: account_ok_def)
  have u: "username (set_username name a) = overwrite 0 (?n @ [0]) (username a)"
    by (simp add: set_username_def users_layout n)
  have "overwrite 0 (?n @ [0]) (username a) ! 19 = 0"
    using nth_overwrite [OF len, of 19] assms by (auto simp: account_ok_def nth_append)
  then show "account_ok (set_username name a)" using assms(1) len by (simp add: account_ok_def u del: length_append)
  show "account_name (set_username name a) = cstr name"
    by (simp add: account_name_def u overwrite_def cstr_append_nul)
qed

section \<open>The table on disk\<close>

lemma length_records: "\<forall>a\<in>set as. account_ok a \<Longrightarrow> length (concat (map account_record as)) = 32 * length as"
  by (induction as) (auto simp: account_record_def account_ok_def)

lemma slice_record:
  "\<forall>a\<in>set as. account_ok a \<Longrightarrow> i < length as \<Longrightarrow> slice (32 * i) 32 (concat (map account_record as)) = account_record (as ! i)"
proof (induction as arbitrary: i)
  case (Cons a as)
  then have "length (account_record a) = 32" by (simp add: account_record_def account_ok_def)
  then show ?case using Cons by (cases i) (auto simp: slice_def)
qed simp

lemma read_u32_bytes: "read_u32 0 (u32_bytes v @ xs) = v"
  using read_write_u32 [of 0 "replicate 4 0 @ xs" v] by (simp add: write_u32_overwrite overwrite_def)

lemma read_u32_drop: "read_u32 (k + l) buf = read_u32 l (drop k buf)" if "k + l + 4 \<le> length buf"
  using that by (simp add: read_u32_def add.assoc)

lemma account_at_record:
  assumes "\<forall>a\<in>set as. account_ok a" and "i < length as"
  shows "account_at (concat (map account_record as)) i = as ! i"
proof -
  let ?B = "concat (map account_record as)" and ?a = "as ! i"
  have a: "account_ok ?a" using assms by simp
  have r: "length (account_record ?a) = 32" using a by (simp add: account_record_def account_ok_def)
  have "32 * Suc i \<le> length ?B" using length_records [OF assms(1)] assms(2) by simp
  then have len: "32 * i + 32 \<le> length ?B" by simp
  have f: "slice (32 * i + k) n ?B = slice k n (account_record ?a)" if "k + n \<le> 32" for k n
    unfolding slice_record [OF assms, symmetric] using that by (simp add: slice_def take_drop min_def add.commute)
  have w: "read_u32 (32 * i + k) ?B = read_u32 k (account_record ?a)" if "k + 4 \<le> 32" for k
    using that len r f [of k 4] read_u32_slice [of "32 * i + k" ?B] read_u32_slice [of k "account_record ?a"] by simp
  have "slice 0 20 (account_record ?a) = username ?a" using a by (simp add: slice_def account_record_def account_ok_def)
  moreover have "read_u32 20 (account_record ?a) = a_uid ?a"
    using read_u32_drop [of 20 0 "account_record ?a"] a r by (simp add: account_record_def account_ok_def read_u32_bytes)
  moreover have "read_u32 24 (account_record ?a) = password_hash ?a"
    using read_u32_drop [of 24 0 "account_record ?a"] a r by (simp add: account_record_def account_ok_def read_u32_bytes)
  ultimately show ?thesis
    using f [of 0 20] w [of 20] w [of 24] by (simp add: account_at_def users_layout mult.commute)
qed

lemma ufs_frame_users:
  fixes s t :: "'a users_state_scheme"
  assumes "ufs_frame s t"
  shows "accounts t = accounts s" "users_init_buf t = users_init_buf s"
proof -
  have c: "ufs_clear t = ufs_clear s" using assms by (simp add: ufs_frame_def)
  show "accounts t = accounts s" using arg_cong [OF c, of accounts] by (simp add: ufs_clear_def)
  show "users_init_buf t = users_init_buf s" using arg_cong [OF c, of users_init_buf] by (simp add: ufs_clear_def)
qed

lemma ufs_dir_attrs:
  assumes "ufs_ok s" and "ufs_ok t" and "same_attrs s t"
  shows "ufs_dir t = ufs_dir s"
proof (rule ext, rule option_eqI)
  fix n h
  have v: "handle_valid h t = handle_valid h s" by (rule same_attrs_valid [OF assms])
  have "ent_name (ent (directory t) (nat h)) = ent_name (ent (directory s) (nat h))" if "handle_valid h s"
  proof -
    have "ent_attrs (ent (directory t) (nat h)) = ent_attrs (ent (directory s) (nat h))"
      using that assms handle_valid_cases [OF assms(1)] by (auto simp: same_attrs_def)
    then show ?thesis by (simp add: ent_attrs_def ent_name_def slice_def)
  qed
  then show "ufs_dir t n = Some h \<longleftrightarrow> ufs_dir s n = Some h"
    using v ufs_dir_Some [OF assms(1), of n h] ufs_dir_Some [OF assms(2), of n h] by auto
qed

lemma ufs_size_content: "ufs_ok s \<Longrightarrow> ufs_content s h = Some c \<Longrightarrow> ufs_size h s = of_nat (length c)"
proof -
  assume ok: "ufs_ok s" and c: "ufs_content s h = Some c"
  have v: "handle_valid h s" by (rule ufs_content_entry(1) [OF ok c])
  then obtain i where i: "i = nat h" "\<And>k. k + 4 \<le> 40 \<Longrightarrow> read_u32 (entry_at (nat h) + k) (directory s) = read_u32 k (ent (directory s) i)"
    by (rule ufs_ok_entry [OF ok]) blast
  have "of_nat (unat x) = x" for x :: u32 by simp
  then show "ufs_size h s = of_nat (length c)"
    using v i length_ufs_content [OF ok c] by (simp add: ufs_size_def ent_size_def)
qed

lemma users_literals:
  "cstr PASSWD_FILE = PASSWD_FILE" "PASSWD_FILE \<noteq> []" "length PASSWD_FILE = 7"
  by (simp_all add: PASSWD_FILE_def literal_def cstr_Cons)

text \<open>The file system of a state with the same device and the same memory of the file system.\<close>

definition ufs_same :: "'a ufs_state_scheme \<Rightarrow> 'a ufs_state_scheme \<Rightarrow> bool" where
  "ufs_same s t \<longleftrightarrow> superblock t = superblock s \<and> directory t = directory s \<and> ufs_ready t = ufs_ready s \<and>
     cached_file_count t = cached_file_count s \<and> next_free_lba t = next_free_lba s \<and> move_buf t = move_buf s \<and>
     write_scratch t = write_scratch s \<and> read_scratch t = read_scratch s"

lemma ufs_ok_cong:
  assumes "ufs_ok s" and "same_io s t" and "ufs_same s t"
  shows "ufs_ok t"
proof -
  have d: "disk_ok UFS_END s" using assms(1) by (simp add: ufs_ok_def)
  note img = disk_image_cong [OF d assms(2)]
  have "disk_bytes (disk_image t) 8193 5 = disk_bytes (disk_image s) 8193 5"
    by (rule disk_bytes_cong) (use img in auto)
  then show ?thesis
    using assms img [of 8192] disk_ok_cong [OF assms(2)] by (auto simp: ufs_ok_def ufs_same_def ufs_shape_def synced_def)
qed

lemma ufs_dir_cong: "ufs_same s t \<Longrightarrow> ufs_dir t = ufs_dir s"
  by (simp add: fun_eq_iff ufs_dir_def ufs_find_def ufs_same_def)

text \<open>\<open>persist\<close> empties the file and writes the records.\<close>

lemma persist_correct:
  fixes s :: "'a users_state_scheme"
  assumes ok: "ufs_ok s" and users: "users_ok s" and pw: "ufs_dir s PASSWD_FILE = Some h" and room: "\<not> ufs_full s h 512"
  obtains t where "persist s = Some t" "ufs_ok t" "ufs_frame s t" "ufs_dir t PASSWD_FILE = Some h"
    "ufs_content t h = Some (concat (map account_record (accounts s)))" "\<And>g. g \<noteq> h \<Longrightarrow> ufs_content t g = ufs_content s g"
proof -
  let ?B = "concat (map account_record (accounts s))"
  have lB: "length ?B = 512" using length_records [of "accounts s"] users by (simp add: users_ok_def)
  have h: "handle_valid h s" "ufs_find PASSWD_FILE s = h" "0 \<le> h"
    using pw ufs_dir_Some [OF ok, of PASSWD_FILE h] by (auto simp: ufs_dir_def split: if_splits)
  obtain i where i: "i = nat h" "i < 64" "h = int i" "ent_used (ent (directory s) i)"
      "\<And>k. k + 4 \<le> 40 \<Longrightarrow> read_u32 (entry_at (nat h) + k) (directory s) = read_u32 k (ent (directory s) i)"
    by (rule ufs_ok_entry [OF ok h(1)]) blast
  obtain s1 where s1: "persist_fails (s\<lparr>directory := write_u32 (40 * i + 24) 0 (directory s)\<rparr>) = (False, s1)" "ufs_ok s1" "ufs_frame s s1"
      "same_attrs s s1" "\<And>g. g \<noteq> int i \<Longrightarrow> ufs_content s1 g = ufs_content s g"
      "ent_bytes (disk_image s1) (ent (directory s1) i) =
         take (unat (0 :: u32)) (disk_bytes (disk_image s) (ent_start (ent (directory s) i)) (ent_cap (ent (directory s) i)))"
      "ent_cap (ent (directory s1) i) = ent_cap (ent (directory s) i)" "next_free_lba s1 = next_free_lba s"
    by (rule ufs_set_size [OF ok i(2,4), of 0]) (simp, blast)
  have nh: "nat h = i" using i(1) by simp
  have tr: "ufs_truncate h 0 s = (s1, 0)" using h(1) s1(1) by (simp add: ufs_truncate_def nh entry_at_eq)
  have v1: "handle_valid h s1" using h(1) same_attrs_valid [OF ok s1(2,4)] by simp
  have c1: "ufs_content s1 h = Some []" using v1 s1(6) by (simp add: ufs_content_def nh)
  have room1: "\<not> ufs_full s1 h 512" using room s1(7,8) by (simp add: ufs_full_def nh)
  obtain t r where t: "ufs_write_at h 0 ?B 512 s1 = Some (t, r)" "ufs_ok t" "ufs_frame s1 t" "same_attrs s1 t"
      "\<And>g. g \<noteq> h \<Longrightarrow> ufs_content t g = ufs_content s1 g" "\<exists>c'. ufs_content t h = Some c' \<and> written 0 ?B [] c'"
    using ufs_write_at_cases [OF s1(2) c1, of 512 ?B 0] lB room1 by auto
  have att: "same_attrs s t" by (rule same_attrs_trans [OF s1(4) t(4)])
  have "ufs_content t h = Some ?B" using t(6) written_append [of "[]" ?B] by auto
  moreover have "persist s = Some t"
    unfolding persist_def Let_def h(2) using h(3) tr t(1) by (simp add: users_layout)
  moreover have "ufs_content t g = ufs_content s g" if "g \<noteq> h" for g using t(5) [OF that] s1(5) [of g] that i(3) by simp
  ultimately show thesis
    using that t(2) ufs_frame_trans [OF s1(3) t(3)] ufs_dir_attrs [OF ok t(2) att] pw by metis
qed

text \<open>\<open>users_init\<close> reads the records back.\<close>

lemma users_init_loads:
  fixes s :: "'a users_state_scheme"
  assumes ok: "ufs_ok s" and pw: "ufs_dir s PASSWD_FILE = Some h" and buf: "length (users_init_buf s) = 512"
    and as: "\<forall>a\<in>set as. account_ok a" "length as = 16" and c: "ufs_content s h = Some (concat (map account_record as))"
  obtains t where "users_init s = Some t" "accounts t = as" "ufs_ok t" "users_ok t"
proof -
  let ?B = "concat (map account_record as)"
  have lB: "length ?B = 512" using length_records [OF as(1)] as(2) by simp
  have h: "ufs_find PASSWD_FILE s = h" "0 \<le> h" using pw by (auto simp: ufs_dir_def split: if_splits)
  have sz: "ufs_size h s = 512" using ufs_size_content [OF ok c] lB by simp
  obtain t r where t: "ufs_read_at h 0 512 s = (t, r, ?B)" "ufs_ok t" "ufs_frame s t"
    using ufs_read_at_content [OF ok c, of 0 512] lB by auto
  let ?t = "t\<lparr>users_init_buf := ?B, accounts := map (account_at ?B) [0..<16]\<rparr>"
  have "users_init_buf t = users_init_buf s" by (rule ufs_frame_users [OF t(3)])
  then have "overwrite 0 ?B (users_init_buf t) = ?B" using lB buf by (simp add: overwrite_all)
  then have "users_init s = Some ?t" unfolding users_init_def Let_def h(1) using h(2) sz t(1) by (simp add: users_layout)
  moreover have "map (account_at ?B) [0..<16] = as"
    by (rule nth_equalityI) (use account_at_record [OF as(1)] as(2) in auto)
  moreover have "ufs_ok ?t" by (rule ufs_ok_cong [OF t(2)]) (simp_all add: same_io_def ufs_same_def)
  ultimately show thesis using that [of ?t] as lB by (simp add: users_ok_def)
qed

section \<open>Adding an account\<close>

lemma ufs_remount_dir:
  fixes s t :: "'a ufs_state_scheme"
  assumes "ufs_ok s" and "same_io s t" and "ufs_shape t"
  shows "ufs_dir (ufs_init t) = ufs_dir s"
proof -
  note m = ufs_init_mounts [OF assms]
  then have "ufs_ready (ufs_init t)" "ufs_ready s" using assms(1) by (simp_all add: ufs_ok_def)
  then show ?thesis using m by (simp add: fun_eq_iff ufs_dir_def ufs_find_def)
qed

text \<open>A restart keeps the device and the sizes of the static buffers.\<close>

definition rebooted :: "'a users_state_scheme \<Rightarrow> 'a users_state_scheme \<Rightarrow> bool" where
  "rebooted t b \<longleftrightarrow> same_io t b \<and> ufs_shape b \<and> length (users_init_buf b) = 512"

lemma persist_reboot:
  fixes s b :: "'a users_state_scheme"
  assumes ok: "ufs_ok t" and pw: "ufs_dir t PASSWD_FILE = Some h" and as: "\<forall>a\<in>set as. account_ok a" "length as = 16"
    and c: "ufs_content t h = Some (concat (map account_record as))" and b: "rebooted t b"
  shows "\<exists>u. users_init (ufs_init b) = Some u \<and> accounts u = as \<and> ufs_ok u \<and> users_ok u"
proof -
  have io: "same_io t b" "ufs_shape b" "length (users_init_buf b) = 512" using b by (simp_all add: rebooted_def)
  note m = ufs_init_mounts [OF ok io(1,2)]
  note dir = ufs_remount_dir [OF ok io(1,2)]
  have "length (users_init_buf (ufs_init b)) = 512" using io(3) m ufs_frame_users(2) [of b "ufs_init b"] by simp
  then obtain u where "users_init (ufs_init b) = Some u" "accounts u = as" "ufs_ok u" "users_ok u"
    using users_init_loads [of "ufs_init b" h as] m dir pw as c by metis
  then show ?thesis by blast
qed

lemma users_add_steps:
  fixes s :: "'a users_state_scheme"
  assumes users: "users_ok s" and add: "users_add name pw uid s \<noteq> Some (s, -1)"
  obtains slot a where "slot < 16" "\<not> account_used (accounts s ! slot)" "\<not> account_exists (accounts s) name" "account_ok a"
    "account_name a = cstr name" "a_uid a = uid" "password_hash a = hash_password pw" "cstr name \<noteq> []"
    "users_add name pw uid s = map_option (\<lambda>s. (s, 0)) (persist (s\<lparr>accounts := (accounts s)[slot := a]\<rparr>))"
    "users_ok (s\<lparr>accounts := (accounts s)[slot := a]\<rparr>)"
proof -
  have name: "cstr name \<noteq> []" "length (cstr name) < 20" "\<not> account_exists (accounts s) name"
    using add by (auto simp: users_add_def str_len_cstr users_layout split: if_splits)
  obtain slot where slot: "first_index (\<lambda>a. \<not> account_used a) (accounts s) = Some slot"
    using add by (auto simp: users_add_def split: if_splits option.splits)
  have len: "length (accounts s) = 16" using users by (simp add: users_ok_def)
  note fi = first_index_SomeD [OF slot]
  have i: "slot < 16" "\<not> account_used (accounts s ! slot)" using fi len by auto
  have a0: "account_ok (accounts s ! slot)" using users i(1) len by (simp add: users_ok_def)
  let ?a = "set_username name (accounts s ! slot) \<lparr>a_uid := uid, password_hash := hash_password pw\<rparr>"
  have a: "account_ok ?a" "account_name ?a = cstr name"
    using set_username_ok [OF a0 name(2)] by (simp_all add: account_ok_def account_name_def)
  have "\<forall>x\<in>set ((accounts s)[slot := ?a]). account_ok x"
    using users a(1) set_update_subset_insert [of "accounts s" slot ?a] by (auto simp: users_ok_def)
  then have "users_ok (s\<lparr>accounts := (accounts s)[slot := ?a]\<rparr>)" using users by (simp add: users_ok_def)
  moreover have "users_add name pw uid s = map_option (\<lambda>s. (s, 0)) (persist (s\<lparr>accounts := (accounts s)[slot := ?a]\<rparr>))"
    using name slot by (simp add: users_add_def str_len_cstr users_layout)
  ultimately show thesis using that [of slot ?a] i a name by simp
qed

section \<open>An example\<close>

definition users_blank :: users_state where
  "users_blank = fs_state.extend fs_example
    \<lparr>accounts = replicate 16 \<lparr>username = replicate 20 0, a_uid = 0, password_hash = 0\<rparr>, users_init_buf = replicate 512 0\<rparr>"

definition users_example :: users_state where
  "users_example = fst (ufs_create PASSWD_FILE 0 (ufs_init users_blank))"

lemma users_example_ok:
  obtains h where "ufs_ok users_example" "users_ok users_example" "ufs_dir users_example PASSWD_FILE = Some h"
    "\<not> ufs_full users_example h 512" "\<And>n. \<not> account_exists (accounts users_example) n" "\<not> account_used (accounts users_example ! 0)"
proof -
  have disk: "disk UFS_END users_blank (\<lambda>l. replicate 512 0)"
    by (rule sim_disk)
      (simp_all add: users_blank_def fs_example_def ufs_blank_def ata_example_def fs_state.defs ufs_state.defs io_state.defs memfs_state.defs)
  have "disk_ok UFS_END users_blank" using disk by (auto simp: disk_ok_def)
  moreover have "ufs_shape users_blank"
    by (simp add: ufs_shape_def users_blank_def fs_example_def ufs_blank_def fs_state.defs ufs_state.defs io_state.defs)
  moreover have "take 4 (disk_image users_blank 8192) \<noteq> [0x55, 0x46, 0x53, 0x31]"
  proof
    have z: "take 4 (disk_image users_blank 8192) ! 0 = 0" using disk_image [OF disk, of 8192] by simp
    assume e: "take 4 (disk_image users_blank 8192) = [0x55, 0x46, 0x53, 0x31]"
    show False using z unfolding e by simp
  qed
  ultimately have m: "ufs_ok (ufs_init users_blank)" "ufs_content (ufs_init users_blank) = Map.empty"
      "ufs_frame users_blank (ufs_init users_blank)" "next_free_lba (ufs_init users_blank) = UFS_DATA_LBA"
    using ufs_init_formats by blast+
  let ?s = "ufs_init users_blank"
  have invalid: "\<not> handle_valid h ?s" for h
    using fun_cong [OF m(2), of h] by (simp add: ufs_content_def split: if_splits)
  have new: "ufs_dir ?s PASSWD_FILE = None"
    using invalid ufs_dir_Some [OF m(1), of PASSWD_FILE] by (cases "ufs_dir ?s PASSWD_FILE") auto
  have unused: "\<not> ent_used (ent (directory ?s) 0)" using invalid [of 0] handle_valid_cases [OF m(1), of 0] by auto
  have name: "cstr PASSWD_FILE \<noteq> []" "length (cstr PASSWD_FILE) < 20" using users_literals by simp_all
  obtain t i where t: "ufs_create PASSWD_FILE 0 ?s = (t, int i)" "ufs_ok t" "ufs_frame ?s t" "i < 64" "ufs_content ?s (int i) = None"
      "next_free_lba t = next_free_lba ?s"
      "\<forall>j<64. ent (directory t) j = (if j = i then new_entry PASSWD_FILE 0 (ent (directory ?s) j) else ent (directory ?s) j)"
    using ufs_create_correct [OF m(1) name new, of 0] unused by (metis zero_less_numeral)
  have ex: "users_example = t" using t(1) by (simp add: users_example_def)
  have dir: "ufs_dir t PASSWD_FILE = Some (int i)" using ufs_dir_created [OF m(1) t(2,4) name t(5,7) new] by simp
  have "length (ent (directory ?s) i) = 40" using ufs_ok_dir [OF m(1)] t(4) by (simp add: length_ent)
  note E = new_entry_fields [OF this name, of 0]
  have "ent_cap (ent (directory t) i) = 0" using t(4,7) E(6) by simp
  then have room: "\<not> ufs_full t (int i) 512" using t(6) m(4) by (simp add: ufs_full_def ufs_numbers)
  have u: "accounts t = accounts users_blank" "users_init_buf t = users_init_buf users_blank"
    using ufs_frame_users [OF ufs_frame_trans [OF m(3) t(3)]] by simp_all
  have free: "\<forall>a\<in>set (accounts users_blank). \<not> account_used a \<and> account_ok a"
    by (auto simp: users_blank_def fs_state.defs account_used_def account_ok_def)
  have len: "length (accounts users_blank) = 16" "length (users_init_buf users_blank) = 512" by (simp_all add: users_blank_def fs_state.defs)
  show thesis
  proof (rule that [of "int i"], unfold ex)
    show "users_ok t" using u len free by (simp add: users_ok_def)
    show "\<not> account_exists (accounts t) n" for n using u free account_exists_iff [of "accounts users_blank" n] by auto
    show "\<not> account_used (accounts t ! 0)" using u len free by (metis nth_mem zero_less_numeral)
  qed (use t(2) dir room in simp_all)
qed

section \<open>Properties\<close>

text \<open>
  C32: Adding an account is durable. \<open>users_add\<close> returns; it refuses and changes nothing, or the new
  account authenticates with its password and with no password of another hash, nobody else's login changes, and
  after a restart \<open>users_init\<close> finds the same accounts on disk. (The password file exists and there
  is room to write it: \<open>persist\<close> ignores a write that fails.)
\<close>

theorem users_add_durable:
  fixes s :: "'a users_state_scheme"
  assumes "ufs_ok s" and "users_ok s" and "ufs_dir s PASSWD_FILE = Some h" and "\<not> ufs_full s h 512"
  shows "users_add name pw uid s = Some (s, -1) \<or>
    (\<exists>t. users_add name pw uid s = Some (t, 0) \<and> users_ok t \<and> ufs_ok t \<and>
      (\<forall>p. users_authenticate name p t = (if hash_password p = hash_password pw then Some uid else None)) \<and>
      (\<forall>n p. cstr n \<noteq> cstr name \<longrightarrow> users_authenticate n p t = users_authenticate n p s) \<and>
      (\<forall>g. g \<noteq> h \<longrightarrow> ufs_content t g = ufs_content s g) \<and>
      (\<forall>b. rebooted t b \<longrightarrow> (\<exists>u. users_init (ufs_init b) = Some u \<and> accounts u = accounts t \<and> ufs_ok u \<and> users_ok u)))"
proof (cases "users_add name pw uid s = Some (s, -1)")
  case False
  obtain slot a where a: "slot < 16" "\<not> account_used (accounts s ! slot)" "\<not> account_exists (accounts s) name" "account_ok a"
      "account_name a = cstr name" "a_uid a = uid" "password_hash a = hash_password pw" "cstr name \<noteq> []"
      "users_add name pw uid s = map_option (\<lambda>s. (s, 0)) (persist (s\<lparr>accounts := (accounts s)[slot := a]\<rparr>))"
      "users_ok (s\<lparr>accounts := (accounts s)[slot := a]\<rparr>)"
    by (rule users_add_steps [OF assms(2) False])
  let ?as = "(accounts s)[slot := a]"
  let ?s = "s\<lparr>accounts := ?as\<rparr>"
  have same: "same_io s ?s" "ufs_same s ?s" by (simp_all add: same_io_def ufs_same_def)
  have ok: "ufs_ok ?s" by (rule ufs_ok_cong [OF assms(1) same])
  have "ufs_dir ?s PASSWD_FILE = Some h" "\<not> ufs_full ?s h 512"
    using ufs_dir_cong [OF same(2)] assms(3,4) by (simp_all add: ufs_full_def)
  then obtain t where t: "persist ?s = Some t" "ufs_ok t" "ufs_frame ?s t" "ufs_dir t PASSWD_FILE = Some h"
      "ufs_content t h = Some (concat (map account_record ?as))" "\<And>g. g \<noteq> h \<Longrightarrow> ufs_content t g = ufs_content ?s g"
    using persist_correct [OF ok a(10), of h] by (metis users_state.select_convs(1) users_state.surjective users_state.update_convs(1))
  have at: "accounts t = ?as" "users_init_buf t = users_init_buf s" using ufs_frame_users [OF t(3)] by simp_all
  have okt: "users_ok t" using a(10) at by (simp add: users_ok_def)
  have as: "\<forall>x\<in>set (accounts s). account_ok x" "length (accounts s) = 16" using assms(2) by (simp_all add: users_ok_def)
  have used: "account_used a" using account_used_name [OF a(4)] a(5,8) by simp
  have "\<not> account_exists (accounts s) (account_name a)" using a(3,5) as(1) by (simp add: account_exists_iff)
  then have auth: "users_authenticate n p t =
      (if cstr n = cstr name then if hash_password pw = hash_password p then Some uid else None else users_authenticate n p s)" for n p
    using authenticate_added [OF as(1) a(4) used _ a(2)] as(2) a(1,5,6,7) by (simp add: users_authenticate_def at)
  have "disk_ok UFS_END s" using assms(1) by (simp add: ufs_ok_def)
  then have "ufs_content ?s = ufs_content s"
    using ufs_content_cong [OF assms(1) ok] disk_image_cong [OF _ same(1)] by simp
  then have "ufs_content t g = ufs_content s g" if "g \<noteq> h" for g using t(6) [OF that] by simp
  moreover have "\<exists>u. users_init (ufs_init b) = Some u \<and> accounts u = accounts t \<and> ufs_ok u \<and> users_ok u" if "rebooted t b" for b
    using persist_reboot [OF t(2,4) _ _ t(5) that] okt at by (simp add: users_ok_def)
  moreover have "users_add name pw uid s = Some (t, 0)" using a(9) t(1) by simp
  ultimately show ?thesis using auth okt t(2) by auto
qed simp

theorem users_add_durable_witness:
  "\<exists>t. users_add (literal ''ann'') (literal ''pw'') 7 users_example = Some (t, 0) \<and>
     users_authenticate (literal ''ann'') (literal ''pw'') t = Some 7 \<and>
     (\<exists>u. users_init (ufs_init t) = Some u \<and> users_authenticate (literal ''ann'') (literal ''pw'') u = Some 7)"
proof -
  obtain h where h: "ufs_ok users_example" "users_ok users_example" "ufs_dir users_example PASSWD_FILE = Some h"
      "\<not> ufs_full users_example h 512" "\<And>n. \<not> account_exists (accounts users_example) n" "\<not> account_used (accounts users_example ! 0)"
    using users_example_ok by metis
  have len: "length (accounts users_example) = 16" using h(2) by (simp add: users_ok_def)
  have "users_add (literal ''ann'') (literal ''pw'') 7 users_example \<noteq> Some (users_example, -1)"
  proof -
    obtain a as where "accounts users_example = a # as" using len by (cases "accounts users_example") auto
    then have "first_index (\<lambda>a. \<not> account_used a) (accounts users_example) = Some 0" using h(6) by simp
    then show ?thesis using h(5) by (auto simp: users_add_def literal_def users_layout)
  qed
  then obtain t where t: "users_add (literal ''ann'') (literal ''pw'') 7 users_example = Some (t, 0)" "users_ok t" "ufs_ok t"
      "users_authenticate (literal ''ann'') (literal ''pw'') t = Some 7"
      "\<And>b. rebooted t b \<Longrightarrow> \<exists>u. users_init (ufs_init b) = Some u \<and> accounts u = accounts t \<and> ufs_ok u \<and> users_ok u"
    using users_add_durable [OF h(1-4), of "literal ''ann''" "literal ''pw''" 7] by auto
  have "rebooted t t" using t(2,3) by (simp add: rebooted_def users_ok_def ufs_ok_def same_io_def)
  then obtain u where "users_init (ufs_init t) = Some u" "accounts u = accounts t" using t(5) by blast
  then show ?thesis using t(1,4) by (auto simp: users_authenticate_def)
qed

end
