(* ===== verification/Video.thy ===== *)
theory Video
  imports Users
begin

text \<open>
  The text console (\<open>kernel/drivers/video.c\<close>): the 80 x 25 cells of VGA text memory as a list, the
  cursor, and the cursor registers of the CRT controller, written through its two ports. The
  first three rows are a title that ordinary output must leave alone.
\<close>

definition VGA_COLS :: u32 where "VGA_COLS = 80"
definition VGA_ROWS :: u32 where "VGA_ROWS = 25"
definition VGA_EXTENT :: u32 where "VGA_EXTENT = VGA_COLS * VGA_ROWS"
definition STYLE_WB :: u8 where "STYLE_WB = 0x0F"
definition VGA_CRTC_INDEX :: u16 where "VGA_CRTC_INDEX = 0x3D4"
definition VGA_CRTC_DATA :: u16 where "VGA_CRTC_DATA = 0x3D5"
definition VGA_CRTC_CURSOR_HIGH :: u8 where "VGA_CRTC_CURSOR_HIGH = 0x0E"
definition VGA_CRTC_CURSOR_LOW :: u8 where "VGA_CRTC_CURSOR_LOW = 0x0F"
definition INPUT_START_ROW :: u32 where "INPUT_START_ROW = 3"
definition TAB_WIDTH :: u32 where "TAB_WIDTH = 4"

lemmas vga_layout = VGA_COLS_def VGA_ROWS_def VGA_EXTENT_def INPUT_START_ROW_def TAB_WIDTH_def

record vga_char =
  character :: u8
  style :: u8

record video_state = users_state +
  text_area :: "vga_char list"
  cursor_row :: u32
  cursor_col :: u32

definition cell :: "u8 \<Rightarrow> vga_char" where
  "cell c = \<lparr>character = c, style = STYLE_WB\<rparr>"

definition update_hardware_cursor :: "'a video_state_scheme \<Rightarrow> 'a video_state_scheme" where
  "update_hardware_cursor s =
    (let pos = ucast (cursor_row s * VGA_COLS + cursor_col s) :: u16;
         s = outb VGA_CRTC_INDEX VGA_CRTC_CURSOR_LOW s;
         s = outb VGA_CRTC_DATA (ucast (pos AND 0xFF)) s;
         s = outb VGA_CRTC_INDEX VGA_CRTC_CURSOR_HIGH s
     in outb VGA_CRTC_DATA (ucast (drop_bit 8 pos AND 0xFF)) s)"

definition clearwin :: "'a video_state_scheme \<Rightarrow> 'a video_state_scheme" where
  "clearwin s = s\<lparr>text_area := fold (\<lambda>i t. t[i := cell 0x20]) [0..<unat VGA_EXTENT] (text_area s)\<rparr>"

text \<open>The loop of \<open>putstr\<close> and \<open>putstr_at\<close>; \<open>pos\<close> is \<open>i\<close> or \<open>base + i\<close>.\<close>

fun putstr_loop :: "u8 list \<Rightarrow> u32 \<Rightarrow> vga_char list \<Rightarrow> vga_char list" where
  "putstr_loop [] pos t = t"
| "putstr_loop (c # str) pos t =
    (if c = 0 then t
     else if pos \<ge> VGA_EXTENT then t
     else putstr_loop str (pos + 1) (t[unat pos := cell c]))"

definition putstr :: "u8 list \<Rightarrow> 'a video_state_scheme \<Rightarrow> 'a video_state_scheme" where
  "putstr str s = s\<lparr>text_area := putstr_loop str 0 (text_area s)\<rparr>"

definition putstr_at :: "u8 list \<Rightarrow> u32 \<Rightarrow> 'a video_state_scheme \<Rightarrow> 'a video_state_scheme" where
  "putstr_at str row s = s\<lparr>text_area := putstr_loop str (row * VGA_COLS) (text_area s)\<rparr>"

definition write_cell :: "u32 \<Rightarrow> u32 \<Rightarrow> u8 \<Rightarrow> 'a video_state_scheme \<Rightarrow> 'a video_state_scheme" where
  "write_cell row col c s =
    (let pos = row * VGA_COLS + col in
     if pos \<ge> VGA_EXTENT then s else s\<lparr>text_area := (text_area s)[unat pos := cell c]\<rparr>)"

definition copy_row_up :: "nat \<Rightarrow> vga_char list \<Rightarrow> vga_char list" where
  "copy_row_up row t =
    fold (\<lambda>col t. t[(row - 1) * unat VGA_COLS + col := t ! (row * unat VGA_COLS + col)]) [0..<unat VGA_COLS] t"

definition scroll_up :: "'a video_state_scheme \<Rightarrow> 'a video_state_scheme" where
  "scroll_up s =
    (let t = fold copy_row_up [unat INPUT_START_ROW + 1..<unat VGA_ROWS] (text_area s);
         t = fold (\<lambda>col t. t[(unat VGA_ROWS - 1) * unat VGA_COLS + col := cell 0x20]) [0..<unat VGA_COLS] t
     in s\<lparr>text_area := t\<rparr>)"

definition video_reset_cursor :: "'a video_state_scheme \<Rightarrow> 'a video_state_scheme" where
  "video_reset_cursor s = update_hardware_cursor (s\<lparr>cursor_row := INPUT_START_ROW, cursor_col := 0\<rparr>)"

definition video_set_cursor :: "u32 \<Rightarrow> u32 \<Rightarrow> 'a video_state_scheme \<Rightarrow> 'a video_state_scheme" where
  "video_set_cursor row col s =
    (let s = (if row < VGA_ROWS then s\<lparr>cursor_row := row\<rparr> else s);
         s = (if col < VGA_COLS then s\<lparr>cursor_col := col\<rparr> else s)
     in update_hardware_cursor s)"

definition video_draw_row :: "u32 \<Rightarrow> u8 list \<Rightarrow> u32 \<Rightarrow> 'a video_state_scheme \<Rightarrow> 'a video_state_scheme" where
  "video_draw_row row buf len s =
    (if row \<ge> VGA_ROWS then s
     else let base = unat (row * VGA_COLS) in
       s\<lparr>text_area := fold (\<lambda>col t. t[base + col := cell (if col < unat len then buf ! col else 0x20)])
           [0..<unat VGA_COLS] (text_area s)\<rparr>)"

definition video_cols :: u32 where "video_cols = VGA_COLS"
definition video_rows :: u32 where "video_rows = VGA_ROWS"

text \<open>The two loops of \<open>putchar_at_cursor\<close>.\<close>

function tab_loop :: "u32 \<Rightarrow> 'a video_state_scheme \<Rightarrow> 'a video_state_scheme" where
  "tab_loop next_stop s =
    (if cursor_col s < next_stop \<and> cursor_col s < VGA_COLS then
       let s = write_cell (cursor_row s) (cursor_col s) 0x20 s
       in tab_loop next_stop (s\<lparr>cursor_col := cursor_col s + 1\<rparr>)
     else s)"
  by pat_completeness auto
termination
  by (relation "measure (\<lambda>(_, s). 80 - unat (cursor_col s))")
    (auto simp: write_cell_def Let_def vga_layout unat_plus_one_less word_less_nat_alt)

function scroll_loop :: "'a video_state_scheme \<Rightarrow> 'a video_state_scheme" where
  "scroll_loop s =
    (if cursor_row s \<ge> VGA_ROWS then let s = scroll_up s in scroll_loop (s\<lparr>cursor_row := cursor_row s - 1\<rparr>)
     else s)"
  by pat_completeness auto
termination
  by (relation "measure (\<lambda>s. unat (cursor_row s))")
    (auto simp: scroll_up_def Let_def vga_layout unat_diff word_le_nat_alt)

declare tab_loop.simps [simp del] scroll_loop.simps [simp del]

definition next_line :: "'a video_state_scheme \<Rightarrow> 'a video_state_scheme" where
  "next_line s = (if cursor_col s \<ge> VGA_COLS then s\<lparr>cursor_col := 0, cursor_row := cursor_row s + 1\<rparr> else s)"

definition putchar_at_cursor :: "u8 \<Rightarrow> 'a video_state_scheme \<Rightarrow> 'a video_state_scheme" where
  "putchar_at_cursor c s =
    (let s =
      (if c = 0x0A then s\<lparr>cursor_row := cursor_row s + 1, cursor_col := 0\<rparr>
       else if c = 0x08 then
         if cursor_col s > 0 then
           let s = s\<lparr>cursor_col := cursor_col s - 1\<rparr> in write_cell (cursor_row s) (cursor_col s) 0x20 s
         else if cursor_row s > INPUT_START_ROW then
           let s = s\<lparr>cursor_row := cursor_row s - 1, cursor_col := VGA_COLS - 1\<rparr>
           in write_cell (cursor_row s) (cursor_col s) 0x20 s
         else s
       else if c = 0x09 then
         let next_stop = (cursor_col s div TAB_WIDTH + 1) * TAB_WIDTH
         in next_line (tab_loop next_stop s)
       else
         let s = write_cell (cursor_row s) (cursor_col s) c s
         in next_line (s\<lparr>cursor_col := cursor_col s + 1\<rparr>));
      s = scroll_loop s
     in update_hardware_cursor s)"

section \<open>Loops over cells\<close>

lemma overwrite_snoc: "d + length xs < length t \<Longrightarrow> (overwrite d xs t)[d + length xs := v] = overwrite d (xs @ [v]) t"
  by (simp add: overwrite_def list_update_append Cons_nth_drop_Suc [symmetric])

lemma overwrite_next: "d + length xs + length ys \<le> length t \<Longrightarrow>
    overwrite (d + length xs) ys (overwrite d xs t) = overwrite d (xs @ ys) t"
  by (simp add: overwrite_def add.commute add.left_commute)

lemma fill_cells: "b + n \<le> length t \<Longrightarrow> fold (\<lambda>i t. t[b + i := f i]) [0..<n] t = overwrite b (map f [0..<n]) t"
proof (induction n)
  case (Suc n)
  then show ?case using overwrite_snoc [of b "map f [0..<n]" t "f n"] by simp
qed (simp add: overwrite_def)

lemma fold_copy:
  "d + n \<le> e \<Longrightarrow> e + n \<le> length t \<Longrightarrow> fold (\<lambda>i t. t[d + i := t ! (e + i)]) [0..<n] t = overwrite d (slice e n t) t"
proof (induction n)
  case (Suc n)
  have len: "length (slice e n t) = n" using Suc.prems by (simp add: length_slice)
  have "overwrite d (slice e n t) t ! (e + n) = t ! (e + n)"
    using Suc.prems len nth_overwrite [of d "slice e n t" t "e + n"] by simp
  moreover have "slice e n t @ [t ! (e + n)] = slice e (Suc n) t"
    using Suc.prems by (simp add: slice_def take_Suc_conv_app_nth)
  ultimately show ?case using Suc len overwrite_snoc [of d "slice e n t" t "t ! (e + n)"] by simp
qed (simp add: overwrite_def slice_def)

lemma copy_row_up_eq: "0 < row \<Longrightarrow> 80 * row + 80 \<le> length t \<Longrightarrow>
    copy_row_up row t = overwrite (80 * (row - 1)) (slice (80 * row) 80 t) t"
  unfolding copy_row_up_def using fold_copy [of "(row - 1) * 80" 80 "row * 80" t] by (simp add: vga_layout mult.commute diff_mult_distrib)

lemma copy_rows:
  assumes "length t = 2000"
  shows "k \<le> 21 \<Longrightarrow> fold copy_row_up [4..<4 + k] t = overwrite 240 (slice 320 (80 * k) t) t"
proof (induction k)
  case (Suc k)
  let ?a = "slice 320 (80 * k) t"
  let ?u = "overwrite 240 ?a t"
  have la: "length ?a = 80 * k" using Suc.prems assms by (simp add: length_slice)
  have lu: "length ?u = 2000" using Suc.prems assms la by simp
  have "slice (80 * (4 + k)) 80 ?u = slice (320 + 80 * k) 80 t"
    using slice_overwrite_other [of 240 ?a t "320 + 80 * k" 80] la Suc.prems assms by simp
  then have "copy_row_up (4 + k) ?u = overwrite (240 + length ?a) (slice (320 + 80 * k) 80 t) ?u"
    using copy_row_up_eq [of "4 + k" ?u] lu la Suc.prems by simp
  also have "\<dots> = overwrite 240 (?a @ slice (320 + 80 * k) 80 t) t"
    by (rule overwrite_next) (use la Suc.prems assms in \<open>simp add: length_slice\<close>)
  also have "?a @ slice (320 + 80 * k) 80 t = slice 320 (80 * Suc k) t"
    using take_add [of "80 * k" 80 "drop 320 t"] by (simp add: slice_def add.commute)
  finally have row: "copy_row_up (4 + k) ?u = overwrite 240 (slice 320 (80 * Suc k) t) t" .
  have "[4..<4 + Suc k] = [4..<4 + k] @ [4 + k]" by (metis add_Suc_right le_add1 upt_Suc_append)
  then show ?case using Suc row by (simp only: fold_append comp_def fold.simps id_def)
qed (simp add: overwrite_def slice_def)

text \<open>Scrolling moves the input area up by one row and clears the last row.\<close>

lemma scroll_up_eq:
  assumes "length (text_area s) = 2000"
  shows "scroll_up s = s\<lparr>text_area := take 240 (text_area s) @ drop 320 (text_area s) @ replicate 80 (cell 0x20)\<rparr>"
proof -
  let ?t = "text_area s"
  have "fold copy_row_up [4..<25] ?t = overwrite 240 (slice 320 1680 ?t) ?t" using copy_rows [OF assms, of 21] by simp
  moreover have "slice 320 1680 ?t = drop 320 ?t" using assms by (simp add: slice_def)
  moreover have "overwrite 240 (drop 320 ?t) ?t = take 240 ?t @ drop 320 ?t @ drop 1920 ?t" using assms by (simp add: overwrite_def)
  moreover have "fold (\<lambda>col t. t[1920 + col := cell 0x20]) [0..<80] u = take 1920 u @ replicate 80 (cell 0x20)" if "length u = 2000" for u
    using fill_cells [of 1920 80 u "\<lambda>_. cell 0x20"] that by (simp add: overwrite_def map_replicate_const)
  ultimately show ?thesis using assms by (simp add: scroll_up_def vga_layout min_def)
qed

section \<open>The cursor stays on the screen\<close>

definition video_ok :: "'a video_state_scheme \<Rightarrow> bool" where
  "video_ok s \<longleftrightarrow> length (text_area s) = 2000 \<and> unat (cursor_row s) < 25 \<and> unat (cursor_col s) < 80"

definition cursor_pos :: "'a video_state_scheme \<Rightarrow> nat" where
  "cursor_pos s = 80 * unat (cursor_row s) + unat (cursor_col s)"

definition title :: "'a video_state_scheme \<Rightarrow> vga_char list" where
  "title s = take 240 (text_area s)"

lemma row_next: "unat r < 25 \<Longrightarrow> unat (r + 1) = unat r + 1" for r :: u32
  using unat_plus_one_less [of r 25] by (simp add: word_less_nat_alt)

lemma col_next: "unat r < 80 \<Longrightarrow> unat (r + 1) = unat r + 1" for r :: u32
  using unat_plus_one_less [of r 80] by (simp add: word_less_nat_alt)

lemma unat_prev: "0 < r \<Longrightarrow> unat (r - 1) = unat r - 1" for r :: u32
  by (simp add: unat_diff word_less_nat_alt word_le_nat_alt)

lemma unat_25: "unat r = 25 \<Longrightarrow> r = 25" for r :: u32
proof -
  assume r: "unat r = 25"
  have "of_nat (unat r) = r" by simp
  then show "r = 25" unfolding r by simp
qed

lemma update_hardware_cursor_fields [simp]:
  "text_area (update_hardware_cursor s) = text_area s" "cursor_row (update_hardware_cursor s) = cursor_row s"
  "cursor_col (update_hardware_cursor s) = cursor_col s"
  by (simp_all add: update_hardware_cursor_def outb_def io_event_def Let_def)

lemma unat_pos:
  fixes row col :: u32
  assumes "unat row < 26" and "unat col < 81"
  shows "unat (row * 80 + col) = 80 * unat row + unat col"
proof -
  have m: "unat (row * 80) = unat row * 80" using assms(1) by (simp add: unat_word_ariths)
  then have "unat (row * 80 + col) = unat row * 80 + unat col"
    using assms unat_add_small [of "row * 80" col] by simp
  then show ?thesis by simp
qed

lemma write_cell_eq:
  assumes "unat row < 25" and "unat col < 80"
  shows "write_cell row col c s = s\<lparr>text_area := (text_area s)[80 * unat row + unat col := cell c]\<rparr>"
proof -
  have p: "unat (row * 80 + col) = 80 * unat row + unat col" by (rule unat_pos) (use assms in simp_all)
  then have "unat (row * 80 + col) < 2000" using assms by simp
  then have "\<not> VGA_EXTENT \<le> row * 80 + col" by (simp add: vga_layout word_le_nat_alt)
  then show ?thesis using p by (simp add: write_cell_def vga_layout)
qed

lemma scroll_loop_eq:
  assumes "unat (cursor_row s) \<le> 25"
  shows "scroll_loop s = (if cursor_row s = 25 then (scroll_up s)\<lparr>cursor_row := 24\<rparr> else s)"
proof -
  have stop: "scroll_loop u = u" if "unat (cursor_row u) < 25" for u :: "'a video_state_scheme"
    using that by (subst scroll_loop.simps) (simp add: vga_layout word_le_nat_alt)
  have row: "cursor_row (scroll_up s) = cursor_row s" by (simp add: scroll_up_def Let_def)
  show ?thesis
  proof (cases "cursor_row s = 25")
    case True
    then show ?thesis using row stop [of "(scroll_up s)\<lparr>cursor_row := 24\<rparr>"]
      by (subst scroll_loop.simps) (simp add: vga_layout)
  next
    case False
    then have "unat (cursor_row s) \<noteq> 25" using unat_25 by blast
    then show ?thesis using stop [of s] assms False by simp
  qed
qed

text \<open>What a step of output keeps: \<open>kept s t\<close>, before the scrolling at its end.\<close>

definition kept :: "'a video_state_scheme \<Rightarrow> 'a video_state_scheme \<Rightarrow> bool" where
  "kept s t \<longleftrightarrow> length (text_area t) = 2000 \<and> unat (cursor_row t) \<le> 25 \<and> unat (cursor_col t) < 80 \<and>
     (3 \<le> unat (cursor_row s) \<longrightarrow> 3 \<le> unat (cursor_row t) \<and> title t = title s)"

lemma title_scroll: "length (text_area s) = 2000 \<Longrightarrow> take 240 (text_area (scroll_up s)) = take 240 (text_area s)"
  by (simp add: scroll_up_eq)

lemma kept_scroll:
  assumes "kept s t"
  shows "video_ok (scroll_loop t)" and "3 \<le> unat (cursor_row s) \<Longrightarrow> 3 \<le> unat (cursor_row (scroll_loop t)) \<and> title (scroll_loop t) = title s"
proof -
  note k = assms [unfolded kept_def]
  have "unat (cursor_row t) < 25" if "cursor_row t \<noteq> 25"
  proof -
    have "unat (cursor_row t) \<noteq> 25" using that unat_25 by blast
    then show ?thesis using k by simp
  qed
  then show "video_ok (scroll_loop t)" "3 \<le> unat (cursor_row s) \<Longrightarrow> 3 \<le> unat (cursor_row (scroll_loop t)) \<and> title (scroll_loop t) = title s"
    using k title_scroll [of t] by (auto simp: video_ok_def scroll_loop_eq scroll_up_eq [of t] title_def)
qed

lemma title_update: "240 \<le> i \<Longrightarrow> take 240 (t[i := x]) = take 240 t"
  by simp

lemma kept_next_line:
  assumes "length (text_area t) = 2000" and "unat (cursor_row t) < 25" and "unat (cursor_col t) \<le> 80"
    and "3 \<le> unat (cursor_row s) \<longrightarrow> 3 \<le> unat (cursor_row t) \<and> title t = title s"
  shows "kept s (next_line t)"
proof -
  have "unat (cursor_row t + 1) = unat (cursor_row t) + 1" by (rule row_next [OF assms(2)])
  then show ?thesis using assms by (auto simp: kept_def next_line_def vga_layout word_le_nat_alt title_def)
qed

lemma tab_loop_keeps:
  fixes s :: "'a video_state_scheme"
  assumes "length (text_area s) = 2000" and "unat (cursor_row s) < 25" and "unat (cursor_col s) \<le> 80"
  shows "length (text_area (tab_loop n s)) = 2000 \<and> cursor_row (tab_loop n s) = cursor_row s \<and> unat (cursor_col (tab_loop n s)) \<le> 80 \<and>
    (3 \<le> unat (cursor_row s) \<longrightarrow> title (tab_loop n s) = title s)"
  using assms
proof (induction n s rule: tab_loop.induct)
  case (1 n s)
  show ?case
  proof (cases "cursor_col s < n \<and> cursor_col s < VGA_COLS")
    case True
    then have col: "unat (cursor_col s) < 80" by (simp add: vga_layout word_less_nat_alt)
    have next_col: "unat (cursor_col s + 1) = unat (cursor_col s) + 1" by (rule col_next [OF col])
    let ?u = "s\<lparr>text_area := (text_area s)[80 * unat (cursor_row s) + unat (cursor_col s) := cell 0x20], cursor_col := cursor_col s + 1\<rparr>"
    have w: "(write_cell (cursor_row s) (cursor_col s) 0x20 s)\<lparr>cursor_col := cursor_col (write_cell (cursor_row s) (cursor_col s) 0x20 s) + 1\<rparr> = ?u"
      unfolding write_cell_eq [OF 1(3) col] by simp
    have step: "tab_loop n s = tab_loop n ?u" using True w by (subst tab_loop.simps) (simp add: Let_def)
    have "length (text_area ?u) = 2000" "unat (cursor_row ?u) < 25" "unat (cursor_col ?u) \<le> 80" using 1(2-4) col next_col by simp_all
    then have "length (text_area (tab_loop n ?u)) = 2000 \<and> cursor_row (tab_loop n ?u) = cursor_row ?u \<and> unat (cursor_col (tab_loop n ?u)) \<le> 80 \<and>
        (3 \<le> unat (cursor_row ?u) \<longrightarrow> title (tab_loop n ?u) = title ?u)"
      using 1(1) [OF True refl] unfolding w by blast
    then show ?thesis unfolding step using 1(2-4) by (simp add: title_def)
  next
    case False
    have "tab_loop n s = s" by (subst tab_loop.simps) (rule if_not_P [OF False])
    then show ?thesis using 1(2-4) by simp
  qed
qed

text \<open>One character.\<close>

definition plain :: "u8 \<Rightarrow> bool" where
  "plain c \<longleftrightarrow> c \<noteq> 0x0A \<and> c \<noteq> 0x08 \<and> c \<noteq> 0x09"

lemma putchar_body:
  fixes s :: "'a video_state_scheme"
  assumes ok: "video_ok s"
  obtains t where "kept s t" "putchar_at_cursor c s = update_hardware_cursor (scroll_loop t)"
    "plain c \<Longrightarrow> t = next_line (s\<lparr>text_area := (text_area s)[cursor_pos s := cell c], cursor_col := cursor_col s + 1\<rparr>)"
    "c = 0x0A \<Longrightarrow> t = s\<lparr>cursor_row := cursor_row s + 1, cursor_col := 0\<rparr>"
proof -
  have s: "length (text_area s) = 2000" "unat (cursor_row s) < 25" "unat (cursor_col s) < 80" using ok by (simp_all add: video_ok_def)
  note w = write_cell_eq [of "cursor_row s" "cursor_col s" _ s, OF s(2,3)]
  consider "c = 0x0A" | "c = 0x08" "0 < cursor_col s" | "c = 0x08" "cursor_col s = 0" "3 < cursor_row s"
    | "c = 0x08" "cursor_col s = 0" "\<not> 3 < cursor_row s" | "c = 0x09" | "plain c"
    using word_gt_0 [of "cursor_col s"] by (auto simp: plain_def)
  then show thesis
  proof cases
    case 1
    let ?t = "s\<lparr>cursor_row := cursor_row s + 1, cursor_col := 0\<rparr>"
    have k: "kept s ?t" using s row_next [OF s(2)] by (simp add: kept_def title_def)
    have "putchar_at_cursor c s = update_hardware_cursor (scroll_loop ?t)" unfolding putchar_at_cursor_def Let_def using 1 by simp
    then show thesis by (rule that [OF k]) (use 1 in \<open>simp_all add: plain_def\<close>)
  next
    case 2
    let ?t = "s\<lparr>cursor_col := cursor_col s - 1, text_area := (text_area s)[80 * unat (cursor_row s) + unat (cursor_col s - 1) := cell 0x20]\<rparr>"
    have p: "unat (cursor_col s - 1) = unat (cursor_col s) - 1" by (rule unat_prev [OF 2(2)])
    then have col: "unat (cursor_col s - 1) < 80" using s(3) by simp
    have w2: "write_cell (cursor_row s) (cursor_col s - 1) 0x20 (s\<lparr>cursor_col := cursor_col s - 1\<rparr>) = ?t"
      unfolding write_cell_eq [OF s(2) col] by simp
    have k: "kept s ?t" using s col by (simp add: kept_def title_def)
    have "putchar_at_cursor c s = update_hardware_cursor (scroll_loop ?t)" unfolding putchar_at_cursor_def Let_def w2 [symmetric] using 2 by simp
    then show thesis by (rule that [OF k]) (use 2 in \<open>simp_all add: plain_def\<close>)
  next
    case 3
    let ?t = "s\<lparr>cursor_row := cursor_row s - 1, cursor_col := 79, text_area := (text_area s)[80 * unat (cursor_row s - 1) + 79 := cell 0x20]\<rparr>"
    have r3: "0 < cursor_row s" "3 < unat (cursor_row s)" using 3(3) by (simp_all add: word_less_nat_alt)
    have p: "unat (cursor_row s - 1) = unat (cursor_row s) - 1" by (rule unat_prev [OF r3(1)])
    have row: "unat (cursor_row s - 1) < 25" "unat (79 :: u32) < 80" using p s(2) by simp_all
    have w3: "write_cell (cursor_row s - 1) 79 0x20 (s\<lparr>cursor_row := cursor_row s - 1, cursor_col := 79\<rparr>) = ?t"
      unfolding write_cell_eq [OF row] by simp
    have "3 \<le> unat (cursor_row s - 1)" "unat (cursor_row s - 1) \<le> 25" using p r3(2) s(2) by linarith+
    then have k: "kept s ?t" using s(1) by (simp add: kept_def title_def)
    have "putchar_at_cursor c s = update_hardware_cursor (scroll_loop ?t)"
      unfolding putchar_at_cursor_def Let_def w3 [symmetric] using 3 by (simp add: vga_layout)
    then show thesis by (rule that [OF k]) (use 3 in \<open>simp_all add: plain_def\<close>)
  next
    case 4
    have k: "kept s s" using s by (simp add: kept_def)
    have "putchar_at_cursor c s = update_hardware_cursor (scroll_loop s)"
      unfolding putchar_at_cursor_def Let_def using 4 by (simp add: vga_layout)
    then show thesis by (rule that [OF k]) (use 4 in \<open>simp_all add: plain_def\<close>)
  next
    case 5
    let ?t = "tab_loop ((cursor_col s div TAB_WIDTH + 1) * TAB_WIDTH) s"
    have k: "kept s (next_line ?t)"
      by (rule kept_next_line) (use tab_loop_keeps [OF s(1,2), of "(cursor_col s div TAB_WIDTH + 1) * TAB_WIDTH"] s(2,3) in auto)
    have "putchar_at_cursor c s = update_hardware_cursor (scroll_loop (next_line ?t))" unfolding putchar_at_cursor_def Let_def using 5 by simp
    then show thesis by (rule that [OF k]) (use 5 in \<open>simp_all add: plain_def\<close>)
  next
    case 6
    let ?t = "s\<lparr>text_area := (text_area s)[cursor_pos s := cell c], cursor_col := cursor_col s + 1\<rparr>"
    have k: "kept s (next_line ?t)"
      by (rule kept_next_line) (use s col_next [OF s(3)] in \<open>auto simp: title_def cursor_pos_def\<close>)
    have "putchar_at_cursor c s = update_hardware_cursor (scroll_loop (next_line ?t))"
      unfolding putchar_at_cursor_def Let_def w using 6 by (simp add: plain_def cursor_pos_def)
    then show thesis by (rule that [OF k]) (use 6 in \<open>simp_all add: plain_def\<close>)
  qed
qed

lemma putchar_keeps:
  assumes "video_ok s"
  shows "video_ok (putchar_at_cursor c s) \<and>
    (3 \<le> unat (cursor_row s) \<longrightarrow> 3 \<le> unat (cursor_row (putchar_at_cursor c s)) \<and> title (putchar_at_cursor c s) = title s)"
proof -
  obtain t where t: "kept s t" "putchar_at_cursor c s = update_hardware_cursor (scroll_loop t)" using putchar_body [OF assms] by metis
  then show ?thesis using kept_scroll [OF t(1)] by (simp add: video_ok_def title_def)
qed

lemma putchar_plain:
  assumes ok: "video_ok s" and c: "plain c" and room: "cursor_pos s + 1 < 2000"
  shows "text_area (putchar_at_cursor c s) = (text_area s)[cursor_pos s := cell c]" and
    "cursor_pos (putchar_at_cursor c s) = cursor_pos s + 1"
proof -
  obtain t where t: "putchar_at_cursor c s = update_hardware_cursor (scroll_loop t)"
      "t = next_line (s\<lparr>text_area := (text_area s)[cursor_pos s := cell c], cursor_col := cursor_col s + 1\<rparr>)"
    using putchar_body [OF ok] c by metis
  have s: "unat (cursor_row s) < 25" "unat (cursor_col s) < 80" using ok by (simp_all add: video_ok_def)
  have n: "unat (cursor_row s + 1) = unat (cursor_row s) + 1" "unat (cursor_col s + 1) = unat (cursor_col s) + 1"
    using row_next [OF s(1)] col_next [OF s(2)] by simp_all
  have t': "text_area t = (text_area s)[cursor_pos s := cell c]" "cursor_pos t = cursor_pos s + 1"
    using t(2) n s by (auto simp: next_line_def vga_layout cursor_pos_def word_le_nat_alt)
  then have "unat (cursor_row t) < 25" using room by (simp add: cursor_pos_def)
  moreover have "cursor_row t \<noteq> 25" using calculation by auto
  ultimately have "scroll_loop t = t" by (simp add: scroll_loop_eq)
  then show "text_area (putchar_at_cursor c s) = (text_area s)[cursor_pos s := cell c]"
    "cursor_pos (putchar_at_cursor c s) = cursor_pos s + 1"
    using t(1) t' by (simp_all add: cursor_pos_def)
qed

lemma putchar_newline_bottom:
  assumes ok: "video_ok s" and row: "cursor_row s = 24"
  shows "text_area (putchar_at_cursor 0x0A s) = take 240 (text_area s) @ drop 320 (text_area s) @ replicate 80 (cell 0x20)"
    and "cursor_pos (putchar_at_cursor 0x0A s) = 1920"
proof -
  obtain t where t: "putchar_at_cursor 0x0A s = update_hardware_cursor (scroll_loop t)" "t = s\<lparr>cursor_row := cursor_row s + 1, cursor_col := 0\<rparr>"
    using putchar_body [OF ok] by metis
  have "scroll_loop t = (scroll_up t)\<lparr>cursor_row := 24\<rparr>" using t(2) row by (simp add: scroll_loop_eq)
  then show "text_area (putchar_at_cursor 0x0A s) = take 240 (text_area s) @ drop 320 (text_area s) @ replicate 80 (cell 0x20)"
    "cursor_pos (putchar_at_cursor 0x0A s) = 1920"
    using t ok by (simp_all add: scroll_up_eq cursor_pos_def video_ok_def)
qed

section \<open>Properties\<close>


definition video_example :: video_state where
  "video_example = users_state.extend users_blank
    \<lparr>text_area = replicate 2000 (cell 0x20), cursor_row = 3, cursor_col = 78\<rparr>"


end
