(* ===== verification/Keyboard.thy ===== *)
theory Keyboard
  imports Video
begin

text \<open>
  The keyboard driver (\<open>kernel/drivers/keyboard/keyboard.c\<close>, \<open>keyboard_layout_tr.c\<close>): scan codes to UTF-8
  strings, the shift state, and the ring buffer that the interrupt handler fills and readers
  drain. \<open>kbd_wait_channel\<close> is the address that sleepers wait on. Messages to the kernel log are left
  out.
\<close>

section \<open>The layout\<close>

definition scancode_to_str :: "(u8 \<times> u8 list) list" where
  "scancode_to_str =
   [(0x01, [0x1B]), (0x02, literal ''1''), (0x03, literal ''2''), (0x04, literal ''3''),
    (0x05, literal ''4''), (0x06, literal ''5''), (0x07, literal ''6''), (0x08, literal ''7''),
    (0x09, literal ''8''), (0x0A, literal ''9''), (0x0B, literal ''0''), (0x0C, literal ''*''),
    (0x0D, literal ''-''), (0x0E, [0x08]), (0x0F, [0x09]), (0x10, literal ''q''), (0x11, literal ''w''),
    (0x12, literal ''e''), (0x13, literal ''r''), (0x14, literal ''t''), (0x15, literal ''y''),
    (0x16, literal ''u''), (0x17, [0xC4, 0xB1]), (0x18, literal ''o''), (0x19, literal ''p''),
    (0x1A, [0xC4, 0x9F]), (0x1B, [0xC3, 0xBC]), (0x1C, [0x0A]), (0x1E, literal ''a''),
    (0x1F, literal ''s''), (0x20, literal ''d''), (0x21, literal ''f''), (0x22, literal ''g''),
    (0x23, literal ''h''), (0x24, literal ''j''), (0x25, literal ''k''), (0x26, literal ''l''),
    (0x27, [0xC5, 0x9F]), (0x28, literal ''i''), (0x29, [0x22]), (0x2B, literal '',''),
    (0x2C, literal ''z''), (0x2D, literal ''x''), (0x2E, literal ''c''), (0x2F, literal ''v''),
    (0x30, literal ''b''), (0x31, literal ''n''), (0x32, literal ''m''), (0x33, [0xC3, 0xB6]),
    (0x34, [0xC3, 0xA7]), (0x35, literal ''.''), (0x37, literal ''*''), (0x39, literal '' ''),
    (0x4A, literal ''-''), (0x4E, literal ''+''), (0x56, literal ''<'')]"

definition scancode_to_str_shifted :: "(u8 \<times> u8 list) list" where
  "scancode_to_str_shifted =
   [(0x01, [0x1B]), (0x02, literal ''!''), (0x03, [0x27]), (0x04, literal ''^''), (0x05, literal ''+''),
    (0x06, literal ''%''), (0x07, literal ''&''), (0x08, literal ''/''), (0x09, literal ''(''),
    (0x0A, literal '')''), (0x0B, literal ''=''), (0x0C, literal ''?''), (0x0D, literal ''_''),
    (0x0E, [0x08]), (0x0F, [0x09]), (0x10, literal ''Q''), (0x11, literal ''W''), (0x12, literal ''E''),
    (0x13, literal ''R''), (0x14, literal ''T''), (0x15, literal ''Y''), (0x16, literal ''U''),
    (0x17, literal ''I''), (0x18, literal ''O''), (0x19, literal ''P''), (0x1A, [0xC4, 0x9E]),
    (0x1B, [0xC3, 0x9C]), (0x1C, [0x0A]), (0x1E, literal ''A''), (0x1F, literal ''S''),
    (0x20, literal ''D''), (0x21, literal ''F''), (0x22, literal ''G''), (0x23, literal ''H''),
    (0x24, literal ''J''), (0x25, literal ''K''), (0x26, literal ''L''), (0x27, [0xC5, 0x9E]),
    (0x28, [0xC4, 0xB0]), (0x29, [0xC3, 0xA9]), (0x2B, literal '';''), (0x2C, literal ''Z''),
    (0x2D, literal ''X''), (0x2E, literal ''C''), (0x2F, literal ''V''), (0x30, literal ''B''),
    (0x31, literal ''N''), (0x32, literal ''M''), (0x33, [0xC3, 0x96]), (0x34, [0xC3, 0x87]),
    (0x35, literal '':''), (0x37, literal ''*''), (0x39, literal '' ''), (0x4A, literal ''-''),
    (0x4E, literal ''+''), (0x56, literal ''>'')]"

text \<open>A null pointer, for scan codes without a string, is \<open>None\<close>.\<close>

definition keyboard_layout_translate :: "u8 \<Rightarrow> bool \<Rightarrow> u8 list option" where
  "keyboard_layout_translate scancode shifted =
    (if scancode \<ge> 128 then None
     else map_of (if shifted then scancode_to_str_shifted else scancode_to_str) scancode)"

section \<open>The driver\<close>

definition KEYBOARD_DATA_PORT :: u16 where "KEYBOARD_DATA_PORT = 0x60"
definition SCANCODE_LSHIFT :: u8 where "SCANCODE_LSHIFT = 0x2A"
definition SCANCODE_RSHIFT :: u8 where "SCANCODE_RSHIFT = 0x36"
definition SCANCODE_LSHIFT_UP :: u8 where "SCANCODE_LSHIFT_UP = SCANCODE_LSHIFT OR 0x80"
definition SCANCODE_RSHIFT_UP :: u8 where "SCANCODE_RSHIFT_UP = SCANCODE_RSHIFT OR 0x80"
definition SCANCODE_RELEASE_BIT :: u8 where "SCANCODE_RELEASE_BIT = 0x80"
definition KBD_BUFFER_SIZE :: u32 where "KBD_BUFFER_SIZE = 256"

record keyboard_state = video_state +
  shift_held :: bool
  kbd_buffer :: ring_buffer
  kbd_wait_channel :: u64

definition kbd_read_char :: "'a keyboard_state_scheme \<Rightarrow> 'a keyboard_state_scheme \<times> u8 option" where
  "kbd_read_char s = (let (rb, c) = ring_buffer_pop (kbd_buffer s) in (s\<lparr>kbd_buffer := rb\<rparr>, c))"

text \<open>
  One round of the loop of \<open>kbd_getchar\<close>: a character, or the caller sleeps and tries again when it runs.
  Interrupts are on: a key may arrive between the two steps.
\<close>

definition kbd_getchar :: "'a keyboard_state_scheme \<Rightarrow> 'a keyboard_state_scheme \<times> u8 option" where
  "kbd_getchar s =
    (case ring_buffer_pop (kbd_buffer s) of
       (rb, Some c) \<Rightarrow> (s\<lparr>kbd_buffer := rb\<rparr>, Some c)
     | (rb, None) \<Rightarrow> (fst (sched_sleep (kbd_wait_channel s) (s\<lparr>kbd_buffer := rb\<rparr>)), None))"

fun kbd_push_string :: "u8 list \<Rightarrow> ring_buffer \<Rightarrow> ring_buffer" where
  "kbd_push_string [] rb = rb"
| "kbd_push_string (c # seq) rb = (if c = 0 then rb else kbd_push_string seq (fst (ring_buffer_push c rb)))"

definition keyboard_irq_handler :: "'a keyboard_state_scheme \<Rightarrow> 'a keyboard_state_scheme" where
  "keyboard_irq_handler s =
    (let (scancode, s) = inb KEYBOARD_DATA_PORT s in
     if scancode = SCANCODE_LSHIFT \<or> scancode = SCANCODE_RSHIFT then s\<lparr>shift_held := True\<rparr>
     else if scancode = SCANCODE_LSHIFT_UP \<or> scancode = SCANCODE_RSHIFT_UP then s\<lparr>shift_held := False\<rparr>
     else if scancode AND SCANCODE_RELEASE_BIT \<noteq> 0 then s
     else case keyboard_layout_translate scancode (shift_held s) of
         None \<Rightarrow> s
       | Some seq \<Rightarrow> sched_wakeup (kbd_wait_channel s) (s\<lparr>kbd_buffer := kbd_push_string seq (kbd_buffer s)\<rparr>))"

definition keyboard_driver_init :: "u8 list \<Rightarrow> 'a keyboard_state_scheme \<Rightarrow> 'a keyboard_state_scheme" where
  "keyboard_driver_init kbd_storage s = s\<lparr>kbd_buffer := ring_buffer_init kbd_storage KBD_BUFFER_SIZE\<rparr>"

section \<open>The layout holds characters\<close>

text \<open>
  A UTF-8 sequence of one character: one byte below 128, or a lead byte and one continuation byte. All
  strings of the layout are of these two kinds.
\<close>

definition utf8_char :: "u8 list \<Rightarrow> bool" where
  "utf8_char bs \<longleftrightarrow> (case bs of [b] \<Rightarrow> 0 < b \<and> b < 0x80 | [b, c] \<Rightarrow> 0xC2 \<le> b \<and> b < 0xE0 \<and> 0x80 \<le> c \<and> c < 0xC0 | _ \<Rightarrow> False)"

lemma layout_table:
  "list_all (\<lambda>(k, bs). k < 0x80 \<and> utf8_char bs) scancode_to_str"
  "list_all (\<lambda>(k, bs). k < 0x80 \<and> utf8_char bs) scancode_to_str_shifted"
  by (simp_all add: scancode_to_str_def scancode_to_str_shifted_def literal_def utf8_char_def)

lemma layout_utf8:
  assumes "keyboard_layout_translate code shift = Some bs"
  shows "utf8_char bs" and "0 \<notin> set bs" and "bs \<noteq> []"
proof -
  have "(code, bs) \<in> set (if shift then scancode_to_str_shifted else scancode_to_str)"
    using assms by (auto simp: keyboard_layout_translate_def split: if_splits dest: map_of_SomeD)
  then show "utf8_char bs" using layout_table by (auto simp: list_all_iff split: if_splits)
  then show "0 \<notin> set bs" "bs \<noteq> []" by (auto simp: utf8_char_def split: list.splits)
qed

section \<open>Typing\<close>

text \<open>What a scan code means: the new shift state and the bytes typed.\<close>

definition scan :: "u8 \<Rightarrow> bool \<Rightarrow> bool \<times> u8 list" where
  "scan code shift =
    (if code \<in> {0x2A, 0x36} then (True, []) else if code \<in> {0xAA, 0xB6} then (False, [])
     else if 0x80 \<le> code then (shift, [])
     else (shift, case keyboard_layout_translate code shift of None \<Rightarrow> [] | Some bs \<Rightarrow> bs))"

fun typed :: "u8 list \<Rightarrow> bool \<Rightarrow> bool \<times> u8 list" where
  "typed [] shift = (shift, [])"
| "typed (code # codes) shift =
    (let (shift', bs) = scan code shift; (shift'', bs') = typed codes shift' in (shift'', bs @ bs'))"

lemma release_bit: "code AND 0x80 = 0 \<longleftrightarrow> code < 0x80" for code :: u8
proof -
  have "code AND 0x80 = 0 \<longleftrightarrow> \<not> bit code 7" using and_exp_eq_0 [of code 7] by simp
  moreover have "bit code 7 \<longleftrightarrow> 0x80 \<le> code"
  proof -
    have "bit code 7 \<longleftrightarrow> odd (unat code div 2 ^ 7)" 
      using bit_unsigned_iff [of code 7, where ?'a = nat] by (simp add: bit_iff_odd)
    moreover have "unat code < 256" using unsigned_less [of code] by simp
    moreover have "n div 128 = (if 128 \<le> n then 1 else 0)" if "n < 256" for n :: nat
      using that by (auto intro: div_nat_eqI)
    ultimately show ?thesis by (simp add: word_le_nat_alt)
  qed
  ultimately show ?thesis by (simp add: linorder_not_le)
qed

lemma kbd_push_string_put: "0 \<notin> set bs \<Longrightarrow> kbd_push_string bs rb = ring.put_list bs rb"
  by (induction bs arbitrary: rb) auto

lemma sched_frame_keyboard:
  fixes s t :: "'a keyboard_state_scheme"
  assumes "sched_frame s t"
  shows "kbd_buffer t = kbd_buffer s" "kbd_wait_channel t = kbd_wait_channel s" "shift_held t = shift_held s" "device t = device s"
    "io_log t = io_log s"
  by (rule sched_frame_field [OF assms]; simp add: sched_clear_def mm_clear_def pmm_clear_def)+

lemma keyboard_wakeup [simp]:
  fixes s :: "'a keyboard_state_scheme"
  shows "kbd_buffer (sched_wakeup c s) = kbd_buffer s" "kbd_wait_channel (sched_wakeup c s) = kbd_wait_channel s"
    "shift_held (sched_wakeup c s) = shift_held s" "device (sched_wakeup c s) = device s" "io_log (sched_wakeup c s) = io_log s"
  using sched_frame_keyboard [of s "sched_wakeup c s"] by (simp_all add: sched_frame_simps)

text \<open>One interrupt.\<close>

definition irq_log :: "nat \<Rightarrow> 'a keyboard_state_scheme \<Rightarrow> port_event list" where
  "irq_log n s = io_log s @ replicate n (In8 KEYBOARD_DATA_PORT)"

lemma keyboard_irq_step:
  fixes s :: "'a keyboard_state_scheme"
  assumes inv: "ring_inv (kbd_buffer s)" and code: "ucast (device s (io_log s) KEYBOARD_DATA_PORT) = code"
  shows "shift_held (keyboard_irq_handler s) = fst (scan code (shift_held s))"
    "kbd_buffer (keyboard_irq_handler s) = ring.put_list (snd (scan code (shift_held s))) (kbd_buffer s)"
    "device (keyboard_irq_handler s) = device s" "io_log (keyboard_irq_handler s) = irq_log 1 s"
    "kbd_wait_channel (keyboard_irq_handler s) = kbd_wait_channel s"
    "blocked_on (kbd_wait_channel s) (keyboard_irq_handler s) \<longleftrightarrow>
      snd (scan code (shift_held s)) = [] \<and> blocked_on (kbd_wait_channel s) s"
proof -
  have cong: "blocked_on c (s\<lparr>io_log := l, shift_held := b\<rparr>) = blocked_on c s" "blocked_on c (s\<lparr>io_log := l\<rparr>) = blocked_on c s" for c l b
    by (simp_all add: blocked_on_def)
  have put: "kbd_push_string bs rb = ring.put_list bs rb" "bs \<noteq> []" if "keyboard_layout_translate code sh = Some bs" for bs rb sh
    using layout_utf8 [OF that] by (simp_all add: kbd_push_string_put)
  note d = keyboard_irq_handler_def Let_def inb_def io_event_def code scan_def irq_log_def release_bit
    SCANCODE_LSHIFT_def SCANCODE_RSHIFT_def SCANCODE_LSHIFT_UP_def SCANCODE_RSHIFT_UP_def SCANCODE_RELEASE_BIT_def
  have "0xAA = (0x2A OR 0x80 :: u8)" "0xB6 = (0x36 OR 0x80 :: u8)" by simp_all
  then show "shift_held (keyboard_irq_handler s) = fst (scan code (shift_held s))"
    "kbd_buffer (keyboard_irq_handler s) = ring.put_list (snd (scan code (shift_held s))) (kbd_buffer s)"
    "device (keyboard_irq_handler s) = device s" "io_log (keyboard_irq_handler s) = irq_log 1 s"
    "kbd_wait_channel (keyboard_irq_handler s) = kbd_wait_channel s"
    "blocked_on (kbd_wait_channel s) (keyboard_irq_handler s) \<longleftrightarrow>
      snd (scan code (shift_held s)) = [] \<and> blocked_on (kbd_wait_channel s) s"
    by (auto simp: d put cong linorder_not_less split: option.splits)
qed

text \<open>A sequence of interrupts, in which the controller delivers the given scan codes.\<close>

lemma keyboard_irqs:
  fixes s :: "'a keyboard_state_scheme"
  assumes "ring_inv (kbd_buffer s)" and "\<And>i. i < length codes \<Longrightarrow> ucast (device s (irq_log i s) KEYBOARD_DATA_PORT) = codes ! i"
  shows "let t = (keyboard_irq_handler ^^ length codes) s in
    shift_held t = fst (typed codes (shift_held s)) \<and> kbd_buffer t = ring.put_list (snd (typed codes (shift_held s))) (kbd_buffer s) \<and>
    kbd_wait_channel t = kbd_wait_channel s \<and>
    (blocked_on (kbd_wait_channel s) t \<longleftrightarrow> snd (typed codes (shift_held s)) = [] \<and> blocked_on (kbd_wait_channel s) s)"
  using assms
proof (induction codes arbitrary: s)
  case (Cons code codes)
  have code: "ucast (device s (io_log s) KEYBOARD_DATA_PORT) = code" using Cons.prems(2) [of 0] by (simp add: irq_log_def)
  note st = keyboard_irq_step [OF Cons.prems(1) code]
  let ?u = "keyboard_irq_handler s"
  have inv: "ring_inv (kbd_buffer ?u)" using ring.put_list_contents [OF Cons.prems(1)] st(2) by simp
  have "ucast (device ?u (irq_log i ?u) KEYBOARD_DATA_PORT) = codes ! i" if "i < length codes" for i
    using Cons.prems(2) [of "Suc i"] that st(3,4) by (simp add: irq_log_def)
  note ih = Cons.IH [OF inv this]
  have app: "ring.put_list (xs @ ys) rb = ring.put_list ys (ring.put_list xs rb)" for xs ys rb
    by (induction xs arbitrary: rb) simp_all
  show ?case using ih st app by (auto simp: Let_def funpow_swap1 split: prod.split)
qed simp

section \<open>Properties\<close>

text \<open>
  C37: Typing is buffered in order. Whatever scan codes the controller delivers in a row of interrupts, the
  bytes in the buffer afterwards are those of before followed by the characters that the codes
  and the shift state spell, as many bytes as fit (the last character may be cut); a
  thread that waited for a key is woken when one was typed. All characters of the layout are UTF-8.
\<close>

theorem keyboard_input:
  fixes s :: "'a keyboard_state_scheme"
  assumes "ring_inv (kbd_buffer s)" and "\<And>i. i < length codes \<Longrightarrow> ucast (device s (irq_log i s) KEYBOARD_DATA_PORT) = codes ! i"
  shows "shift_held ((keyboard_irq_handler ^^ length codes) s) = fst (typed codes (shift_held s)) \<and>
    ring_inv (kbd_buffer ((keyboard_irq_handler ^^ length codes) s)) \<and>
    ring_contents (kbd_buffer ((keyboard_irq_handler ^^ length codes) s)) = ring_contents (kbd_buffer s) @
      take (ring_cap (kbd_buffer s) - length (ring_contents (kbd_buffer s))) (snd (typed codes (shift_held s))) \<and>
    (blocked_on (kbd_wait_channel s) ((keyboard_irq_handler ^^ length codes) s) \<longrightarrow>
      snd (typed codes (shift_held s)) = [] \<and> blocked_on (kbd_wait_channel s) s) \<and>
    (\<forall>code shift bs. keyboard_layout_translate code shift = Some bs \<longrightarrow> utf8_char bs)"
  using keyboard_irqs [OF assms] ring.put_list_contents [OF assms(1)] layout_utf8(1) by (auto simp: Let_def)

definition keyboard_example :: "u8 list \<Rightarrow> keyboard_state" where
  "keyboard_example codes = video_state.extend (video_example\<lparr>io_log := [], device := \<lambda>log port. ucast (codes ! length log)\<rparr>)
    \<lparr>shift_held = False, kbd_buffer = ring_buffer_init (replicate 256 0) KBD_BUFFER_SIZE, kbd_wait_channel = 0x5000\<rparr>"

theorem keyboard_input_witness:
  "ring_contents (kbd_buffer ((keyboard_irq_handler ^^ 4) (keyboard_example [0x2A, 0x23, 0xAA, 0x17]))) = literal ''H'' @ [0xC4, 0xB1]"
proof -
  let ?codes = "[0x2A, 0x23, 0xAA, 0x17] :: u8 list"
  let ?s = "keyboard_example ?codes"
  have f: "kbd_buffer ?s = ring_buffer_init (replicate 256 0) KBD_BUFFER_SIZE" "\<not> shift_held ?s" "io_log ?s = []"
      "device ?s = (\<lambda>log port. ucast (?codes ! length log))"
    by (simp_all add: keyboard_example_def video_state.defs)
  have inv: "ring_inv (kbd_buffer ?s)" by (simp add: f ring_inv_def ring_buffer_init_def KBD_BUFFER_SIZE_def)
  have dev: "ucast (device ?s (irq_log i ?s) KEYBOARD_DATA_PORT) = ?codes ! i" if "i < length ?codes" for i
  proof -
    have "ucast (ucast c :: u16) = c" for c :: u8 by (rule bit_word_eqI) (simp add: bit_simps)
    then show ?thesis by (simp add: f irq_log_def)
  qed
  have "snd (typed ?codes False) = literal ''H'' @ [0xC4, 0xB1]"
    by (simp add: scan_def keyboard_layout_translate_def scancode_to_str_def scancode_to_str_shifted_def)
  moreover have "ring_contents (kbd_buffer ?s) = []" "ring_cap (kbd_buffer ?s) = 255"
    by (simp_all add: f ring_contents_def ring_count_def ring_buffer_init_def KBD_BUFFER_SIZE_def ring_cap_def)
  moreover have "ring_contents (kbd_buffer ((keyboard_irq_handler ^^ length ?codes) ?s)) = ring_contents (kbd_buffer ?s) @
      take (ring_cap (kbd_buffer ?s) - length (ring_contents (kbd_buffer ?s))) (snd (typed ?codes (shift_held ?s)))"
    using keyboard_input [OF inv dev] by blast
  moreover have "length ?codes = 4" by simp
  ultimately show ?thesis using f(2) by (simp only: simp_thms) (simp add: literal_def)
qed

section \<open>A key that arrives too early\<close>

text \<open>
  \<open>kbd_getchar\<close> tests the buffer and then sleeps, with interrupts on. When a key arrives between the two,
  the thread sleeps although a character waits, until the next key.
\<close>

lemma kbd_lost_wakeup:
  fixes s :: "'a keyboard_state_scheme"
  assumes inv: "sched_inv (keyboard_irq_handler s)" and ring: "ring_inv (kbd_buffer s)" and empty: "ring_buffer_pop (kbd_buffer s) = (kbd_buffer s, None)"
    and key: "snd (scan (ucast (device s (io_log s) KEYBOARD_DATA_PORT)) (shift_held s)) \<noteq> []" and cap: "0 < ring_cap (kbd_buffer s)"
  shows "let t = fst (sched_sleep (kbd_wait_channel s) (keyboard_irq_handler s)) in
    ring_contents (kbd_buffer t) \<noteq> [] \<and> t_state (threads t ! nat (current_thread (keyboard_irq_handler s))) = THREAD_BLOCKED \<and>
    t_wait_channel (threads t ! nat (current_thread (keyboard_irq_handler s))) = kbd_wait_channel s"
proof -
  let ?u = "keyboard_irq_handler s"
  note st = keyboard_irq_step [OF ring refl]
  have "ring_contents (kbd_buffer s) = []"
    using ring.get_some [OF ring] empty by (cases "ring_contents (kbd_buffer s)") auto
  then have "ring_contents (kbd_buffer ?u) \<noteq> []" using ring.put_list_contents [OF ring] st(2) key cap by simp
  moreover have "kbd_buffer (fst (sched_sleep (kbd_wait_channel s) ?u)) = kbd_buffer ?u"
    by (rule sched_frame_keyboard(1)) (simp add: sched_frame_simps)
  ultimately show ?thesis using sched_sleep_blocks [OF inv] by (simp add: Let_def)
qed

end
