(* ===== verification/Fd.thy ===== *)
theory Fd
  imports Keyboard
begin

text \<open>
  File descriptors (\<open>kernel/core/fd.c\<close>): the layer above the console, the pipes and the two writable file
  systems, and the place where permissions are checked. The result of a call is \<open>None\<close> when the
  caller goes to sleep inside it; the bytes that a read stores are returned beside it.
\<close>

definition FD_CREATE :: u64 where "FD_CREATE = 1"
definition FD_PERSIST :: u64 where "FD_PERSIST = 2"
definition FD_TRUNC :: u64 where "FD_TRUNC = 4"

definition fd_open :: "u8 list \<Rightarrow> u64 \<Rightarrow> 'a keyboard_state_scheme \<Rightarrow> ('a keyboard_state_scheme \<times> int) option" where
  "fd_open name flags s =
    (if flags AND FD_PERSIST \<noteq> 0 then
       let handle = ufs_find name s in
       if handle < 0 then
         if flags AND FD_CREATE = 0 then Some (s, -1)
         else let me = sched_get_uid (sched_current_tid s) s;
                  (s, handle) = ufs_create name me s in
           if handle < 0 then Some (s, -1) else Some (sched_fd_open FD_KIND_UFS handle s)
       else let me = sched_get_uid (sched_current_tid s) s;
                is_owner = (me = ufs_owner handle s) in
         if \<not> is_owner \<and> ufs_perm handle s AND UFS_PERM_OTHER_READ = 0 then Some (s, -1)
         else if flags AND FD_TRUNC \<noteq> 0 then
           if \<not> is_owner \<and> ufs_perm handle s AND UFS_PERM_OTHER_WRITE = 0 then Some (s, -1)
           else Some (sched_fd_open FD_KIND_UFS handle (fst (ufs_truncate handle 0 s)))
         else Some (sched_fd_open FD_KIND_UFS handle s)
     else let handle = memfs_find name s in
       if handle < 0 then
         if flags AND FD_CREATE = 0 then Some (s, -1)
         else do {
           (s, handle) \<leftarrow> memfs_create name s;
           if handle < 0 then Some (s, -1) else Some (sched_fd_open FD_KIND_MEMFS handle s)
         }
       else Some (sched_fd_open FD_KIND_MEMFS handle s))"

definition release_slot :: "fd_slot \<Rightarrow> 'a keyboard_state_scheme \<Rightarrow> 'a keyboard_state_scheme" where
  "release_slot slot s =
    (if fd_kind slot = FD_KIND_PIPE_READ then pipe_close_reader (fd_handle slot) s
     else if fd_kind slot = FD_KIND_PIPE_WRITE then pipe_close_writer (fd_handle slot) s
     else s)"

definition fd_cleanup_thread :: "int \<Rightarrow> 'a keyboard_state_scheme \<Rightarrow> 'a keyboard_state_scheme" where
  "fd_cleanup_thread tid s =
    fold (\<lambda>fd s. case sched_fd_get_for tid (int fd) s of None \<Rightarrow> s | Some slot \<Rightarrow> release_slot slot s) [0..<THREAD_MAX_FDS] s"

definition fd_close :: "int \<Rightarrow> 'a keyboard_state_scheme \<Rightarrow> 'a keyboard_state_scheme \<times> int" where
  "fd_close fd s =
    (case sched_fd_get fd s of None \<Rightarrow> (s, -1)
     | Some slot \<Rightarrow> sched_fd_close fd (release_slot slot s))"

text \<open>The console loop of \<open>fd_read\<close>: the bytes so far, and whether all of them came.\<close>

fun console_read :: "nat \<Rightarrow> 'a keyboard_state_scheme \<Rightarrow> 'a keyboard_state_scheme \<times> u8 list \<times> bool" where
  "console_read 0 s = (s, [], True)"
| "console_read (Suc n) s =
    (case kbd_getchar s of (s, None) \<Rightarrow> (s, [], False)
     | (s, Some c) \<Rightarrow> let (s, bs, all) = console_read n s in (s, c # bs, all))"

text \<open>\<open>slot->cursor += n\<close> through the pointer of the current thread's slot.\<close>

definition advance_cursor :: "int \<Rightarrow> int \<Rightarrow> 'a keyboard_state_scheme \<Rightarrow> 'a keyboard_state_scheme" where
  "advance_cursor fd n s =
    (if n > 0 then upd_fd (current_thread s) fd (\<lambda>f. f\<lparr>fd_cursor := fd_cursor f + word_of_int n\<rparr>) s else s)"

definition fd_read :: "int \<Rightarrow> u64 \<Rightarrow> 'a keyboard_state_scheme \<Rightarrow> 'a keyboard_state_scheme \<times> u8 list \<times> int option" where
  "fd_read fd len s =
    (case sched_fd_get fd s of None \<Rightarrow> (s, [], Some (-1))
     | Some slot \<Rightarrow>
       if fd_kind slot = FD_KIND_CONSOLE then
         let (s, bs, all) = console_read (unat len) s in (s, bs, if all then Some (sint len) else None)
       else if fd_kind slot = FD_KIND_PIPE_READ then
         (case pipe_read (fd_handle slot) (ucast len) s of (s, None) \<Rightarrow> (s, [], None) | (s, Some (n, bs)) \<Rightarrow> (s, bs, Some n))
       else if fd_kind slot = FD_KIND_UFS then
         let me = sched_get_uid (sched_current_tid s) s in
         if me \<noteq> ufs_owner (fd_handle slot) s \<and> ufs_perm (fd_handle slot) s AND UFS_PERM_OTHER_READ = 0 then (s, [], Some (-1))
         else let (s, n, bs) = ufs_read_at (fd_handle slot) (fd_cursor slot) (ucast len) s in (advance_cursor fd n s, bs, Some n)
       else if fd_kind slot = FD_KIND_MEMFS then
         let (n, bs) = memfs_read_at (fd_handle slot) (fd_cursor slot) (ucast len) s in (advance_cursor fd n s, bs, Some n)
       else (s, [], Some (-1)))"

definition fd_write :: "int \<Rightarrow> u8 list \<Rightarrow> u64 \<Rightarrow> 'a keyboard_state_scheme \<Rightarrow> ('a keyboard_state_scheme \<times> int option) option" where
  "fd_write fd buf len s =
    (case sched_fd_get fd s of None \<Rightarrow> Some (s, Some (-1))
     | Some slot \<Rightarrow>
       if fd_kind slot = FD_KIND_CONSOLE then Some (fold putchar_at_cursor (take (unat len) buf) s, Some (sint len))
       else if fd_kind slot = FD_KIND_PIPE_WRITE then Some (pipe_write (fd_handle slot) (take (unat (ucast len :: u32)) buf) s)
       else if fd_kind slot = FD_KIND_UFS then
         let me = sched_get_uid (sched_current_tid s) s in
         if me \<noteq> ufs_owner (fd_handle slot) s \<and> ufs_perm (fd_handle slot) s AND UFS_PERM_OTHER_WRITE = 0 then Some (s, Some (-1))
         else do {
           (s, n) \<leftarrow> ufs_write_at (fd_handle slot) (fd_cursor slot) buf (ucast len) s;
           Some (advance_cursor fd n s, Some n)
         }
       else if fd_kind slot = FD_KIND_MEMFS then do {
         (s, n) \<leftarrow> memfs_write_at (fd_handle slot) (fd_cursor slot) buf (ucast len) s;
         Some (advance_cursor fd n s, Some n)
       }
       else Some (s, Some (-1)))"

section \<open>What leaves the user file system alone\<close>

text \<open>\<open>fs_kept s t\<close>: the file system is well formed in \<open>t\<close> and has the same files, owners and permissions.\<close>

definition fs_kept :: "'a ufs_state_scheme \<Rightarrow> 'a ufs_state_scheme \<Rightarrow> bool" where
  "fs_kept s t \<longleftrightarrow> (ufs_ok s \<longrightarrow> ufs_ok t \<and> ufs_content t = ufs_content s \<and> same_attrs s t)"

lemma fs_kept_refl [simp]: "fs_kept s s"
  by (simp add: fs_kept_def)

lemma fs_kept_trans: "fs_kept s t \<Longrightarrow> fs_kept t u \<Longrightarrow> fs_kept s u"
  by (auto simp: fs_kept_def intro: same_attrs_trans)

lemma fs_kept_same: "same_io s t \<Longrightarrow> ufs_same s t \<Longrightarrow> fs_kept s t"
  unfolding fs_kept_def
proof
  assume io: "same_io s t" and same: "ufs_same s t" and ok: "ufs_ok s"
  have d: "disk_ok UFS_END s" using ok by (simp add: ufs_ok_def)
  have okt: "ufs_ok t" by (rule ufs_ok_cong [OF ok io same])
  have "ufs_content t = ufs_content s"
    by (rule ufs_content_cong [OF ok okt]) (use same disk_image_cong [OF d io] in \<open>auto simp: ufs_same_def\<close>)
  then show "ufs_ok t \<and> ufs_content t = ufs_content s \<and> same_attrs s t"
    using okt same by (simp add: ufs_same_def same_attrs_def)
qed

text \<open>Output to a port of another device does not disturb the drive.\<close>

definition ata_port :: "u16 \<Rightarrow> bool" where
  "ata_port p \<longleftrightarrow> p \<in> {0x1F0, 0x1F2, 0x1F3, 0x1F4, 0x1F5, 0x1F6, 0x1F7}"

lemma disk_outb: "disk cap s sec \<Longrightarrow> \<not> ata_port p \<Longrightarrow> disk cap (outb p v s) sec"
  unfolding disk_def outb_def using drive_ok_event [of cap s _ "Out8 p v"] by (fastforce simp: ata_port_def)

lemma fs_kept_outb:
  assumes "\<not> ata_port p"
  shows "fs_kept s (outb p v s)"
  unfolding fs_kept_def
proof
  assume ok: "ufs_ok s"
  let ?t = "outb p v s"
  have d: "disk_ok UFS_END s" using ok by (simp add: ufs_ok_def)
  then obtain sec where sec: "disk UFS_END s sec" by (auto simp: disk_ok_def)
  have sect: "disk UFS_END ?t sec" by (rule disk_outb [OF sec assms])
  have img: "disk_image ?t l = disk_image s l" if "l < UFS_END" for l
    using disk_image [OF sec that] disk_image [OF sect that] by simp
  have same: "ufs_same s ?t" "directory ?t = directory s" by (simp_all add: ufs_same_def outb_def io_event_def)
  have "disk_bytes (disk_image ?t) 8193 5 = disk_bytes (disk_image s) 8193 5" by (rule disk_bytes_cong) (use img in auto)
  then have okt: "ufs_ok ?t"
    using ok sect img [of 8192] same(1) by (auto simp: ufs_ok_def ufs_same_def ufs_shape_def synced_def disk_ok_def)
  have "ufs_content ?t = ufs_content s" by (rule ufs_content_cong [OF ok okt same(2)]) (use img in auto)
  then show "ufs_ok ?t \<and> ufs_content ?t = ufs_content s \<and> same_attrs s ?t" using okt same(2) by (simp add: same_attrs_def)
qed

lemma sched_frame_ufs:
  fixes s t :: "'a ufs_state_scheme"
  assumes "sched_frame s t"
  shows "fs_kept s t"
proof (rule fs_kept_same)
  note f = sched_frame_field [OF assms]
  show "same_io s t" unfolding same_io_def by (intro conjI f; simp add: sched_clear_def mm_clear_def pmm_clear_def)
  show "ufs_same s t" unfolding ufs_same_def by (intro conjI f; simp add: sched_clear_def mm_clear_def pmm_clear_def)
qed

text \<open>Console output touches text memory, the cursor and the ports of the CRT controller.\<close>

definition video_clear :: "'a video_state_scheme \<Rightarrow> 'a video_state_scheme" where
  "video_clear s = s\<lparr>text_area := [], cursor_row := 0, cursor_col := 0\<rparr>"

lemma video_clear_ops [simp]:
  "video_clear (write_cell r c x s) = video_clear s" "video_clear (scroll_up s) = video_clear s" "video_clear (next_line s) = video_clear s"
  by (simp_all add: video_clear_def write_cell_def scroll_up_def next_line_def Let_def)

lemma video_clear_upd [simp]:
  "video_clear (s\<lparr>cursor_row := r\<rparr>) = video_clear s" "video_clear (s\<lparr>cursor_col := r\<rparr>) = video_clear s"
  by (simp_all add: video_clear_def)

lemma video_clear_tab: "video_clear (tab_loop n s) = video_clear s"
proof (induction n s rule: tab_loop.induct)
  case (1 n s)
  show ?case
  proof (cases "cursor_col s < n \<and> cursor_col s < VGA_COLS")
    case True
    have "tab_loop n s = tab_loop n ((write_cell (cursor_row s) (cursor_col s) 0x20 s)\<lparr>cursor_col :=
        cursor_col (write_cell (cursor_row s) (cursor_col s) 0x20 s) + 1\<rparr>)"
      by (subst tab_loop.simps, subst if_P [OF True]) (simp only: Let_def)
    then show ?thesis using 1 [OF True refl] by simp
  next
    case False
    have "tab_loop n s = s" by (subst tab_loop.simps) (rule if_not_P [OF False])
    then show ?thesis by simp
  qed
qed

lemma video_clear_scroll: "video_clear (scroll_loop s) = video_clear s"
proof (induction s rule: scroll_loop.induct)
  case (1 s)
  show ?case
  proof (cases "VGA_ROWS \<le> cursor_row s")
    case True
    have "scroll_loop s = scroll_loop ((scroll_up s)\<lparr>cursor_row := cursor_row (scroll_up s) - 1\<rparr>)"
      by (subst scroll_loop.simps, subst if_P [OF True]) (simp only: Let_def)
    then show ?thesis using 1 [OF True refl] by simp
  next
    case False
    have "scroll_loop s = s" by (subst scroll_loop.simps) (rule if_not_P [OF False])
    then show ?thesis by simp
  qed
qed

lemma video_clear_kept:
  assumes "video_clear t = video_clear s"
  shows "fs_kept s t"
proof (rule fs_kept_same)
  have f: "sel t = sel s" if "\<And>u. sel (video_clear u) = sel u" for sel using assms that by metis
  show "same_io s t" unfolding same_io_def by (intro conjI f; simp add: video_clear_def)
  show "ufs_same s t" unfolding ufs_same_def by (intro conjI f; simp add: video_clear_def)
qed

lemma putchar_fs_kept: "fs_kept s (putchar_at_cursor c s)"
proof -
  obtain t where t: "putchar_at_cursor c s = update_hardware_cursor t" "video_clear t = video_clear s"
    by (rule that [of "scroll_loop _"], unfold putchar_at_cursor_def Let_def, rule refl) (simp add: video_clear_scroll video_clear_tab)
  have "\<not> ata_port VGA_CRTC_INDEX" "\<not> ata_port VGA_CRTC_DATA" by (simp_all add: ata_port_def VGA_CRTC_INDEX_def VGA_CRTC_DATA_def)
  then have "fs_kept t (update_hardware_cursor t)"
    unfolding update_hardware_cursor_def Let_def by (meson fs_kept_outb fs_kept_trans)
  then show ?thesis using video_clear_kept [OF t(2)] fs_kept_trans t(1) by metis
qed

lemma console_write_kept: "fs_kept s (fold putchar_at_cursor cs s)"
  by (induction cs arbitrary: s) (auto intro: fs_kept_trans putchar_fs_kept)

text \<open>Pipes, the keyboard and the memory file system.\<close>

text \<open>\<open>low_frame s t\<close>: the states differ at most in memory and in what lies below the user file system.\<close>

definition low_clear :: "'a memfs_state_scheme \<Rightarrow> 'a memfs_state_scheme" where
  "low_clear s = (sched_clear s)\<lparr>pipes := [], mf_entries := [], mf_entries_ptr := 0\<rparr>"

definition low_frame :: "'a memfs_state_scheme \<Rightarrow> 'a memfs_state_scheme \<Rightarrow> bool" where
  "low_frame s t \<longleftrightarrow> low_clear t = low_clear s"

named_theorems low_simps \<open>operations that stay below the user file system\<close>

lemma low_frame_refl [simp]: "low_frame s s"
  by (simp add: low_frame_def)

lemma sched_low_frame: "sched_frame t u \<Longrightarrow> low_frame s u = low_frame s t"
  by (simp add: sched_frame_def low_frame_def low_clear_def)

lemma low_frame_upd [low_simps]:
  "low_frame s (pipes_update f t) = low_frame s t" "low_frame s (mf_entries_update g t) = low_frame s t"
  "low_frame s (mf_entries_ptr_update h t) = low_frame s t" "low_frame s (phys_mem_update m t) = low_frame s t"
  by (simp_all add: low_frame_def low_clear_def sched_clear_def mm_clear_def pmm_clear_def)

lemma low_frame_ops [low_simps]:
  "low_frame s (sched_wakeup c t) = low_frame s t" "low_frame s (fst (sched_sleep c t)) = low_frame s t"
  "low_frame s (upd_fd tid fd f t) = low_frame s t" "low_frame s (fst (sched_fd_open k h t)) = low_frame s t"
  "low_frame s (fst (sched_fd_close fd t)) = low_frame s t" "low_frame s (upd_pipe i p t) = low_frame s t"
  "low_frame s (upd_entry slot e t) = low_frame s t"
  by (rule sched_low_frame, simp add: sched_frame_simps)+ (simp_all add: upd_pipe_def upd_entry_def low_simps)

lemma low_frame_alloc [low_simps]:
  "kmalloc n t = Some (u, p) \<Longrightarrow> low_frame s u = low_frame s t" "kfree q t = Some u \<Longrightarrow> low_frame s u = low_frame s t"
  by (rule sched_low_frame, simp add: mm_frame_sched_frame [OF kmalloc_sched] mm_frame_sched_frame [OF kfree_sched])+

lemma low_frame_kept:
  fixes s t :: "'a ufs_state_scheme"
  assumes "low_frame s t"
  shows "fs_kept s t"
proof (rule fs_kept_same)
  have f: "sel t = sel s" if "\<And>u. sel (low_clear u) = sel u" for sel using assms that by (metis low_frame_def)
  show "same_io s t" unfolding same_io_def by (intro conjI f; simp add: low_clear_def sched_clear_def mm_clear_def pmm_clear_def)
  show "ufs_same s t" unfolding ufs_same_def by (intro conjI f; simp add: low_clear_def sched_clear_def mm_clear_def pmm_clear_def)
qed

lemma pipe_low_frame [low_simps]:
  "low_frame s (fst (pipe_read i len t)) = low_frame s t" "low_frame s (fst (pipe_write i src t)) = low_frame s t"
  "low_frame s (pipe_close_reader i t) = low_frame s t" "low_frame s (pipe_close_writer i t) = low_frame s t"
  by (auto simp: pipe_read_def pipe_write_def pipe_close_reader_def pipe_close_writer_def Let_def low_simps split: prod.split)

lemma memfs_low_frame:
  "memfs_create name t = Some (u, h) \<Longrightarrow> low_frame s u = low_frame s t"
  "memfs_write_at h' off src len t = Some (u, n) \<Longrightarrow> low_frame s u = low_frame s t"
  by (auto simp: memfs_create_def memfs_slot_for_new_def grow_table_def memfs_write_at_def memfs_ensure_capacity_def Let_def low_simps
      split: if_splits option.splits bind_splits)

lemma fs_kept_kbd [simp]: "fs_kept s (s\<lparr>kbd_buffer := rb\<rparr>)"
  by (rule fs_kept_same; simp add: same_io_def ufs_same_def)

lemma kbd_getchar_kept: "fs_kept s (fst (kbd_getchar s))"
proof -
  obtain rb c where p: "ring_buffer_pop (kbd_buffer s) = (rb, c)" by fastforce
  have "fs_kept s (fst (sched_sleep (kbd_wait_channel s) (s\<lparr>kbd_buffer := rb\<rparr>)))"
    by (rule fs_kept_trans [of s "s\<lparr>kbd_buffer := rb\<rparr>", OF _ low_frame_kept]) (simp_all add: low_simps)
  then show ?thesis using p by (cases c) (simp_all add: kbd_getchar_def)
qed

lemma console_read_kept: "fs_kept s (fst (console_read n s))"
proof (induction n arbitrary: s)
  case (Suc n)
  obtain t c where t: "kbd_getchar s = (t, c)" by fastforce
  then have "fs_kept s t" using kbd_getchar_kept [of s] by simp
  then show ?case using t Suc [of t] by (cases c) (auto split: prod.split intro: fs_kept_trans)
qed simp

section \<open>Permissions\<close>

definition may_write :: "int \<Rightarrow> 'a keyboard_state_scheme \<Rightarrow> bool" where
  "may_write h s \<longleftrightarrow> sched_get_uid (current_thread s) s = ufs_owner h s \<or> ufs_perm h s AND UFS_PERM_OTHER_WRITE \<noteq> 0"

definition may_read :: "int \<Rightarrow> 'a keyboard_state_scheme \<Rightarrow> bool" where
  "may_read h s \<longleftrightarrow> sched_get_uid (current_thread s) s = ufs_owner h s \<or> ufs_perm h s AND UFS_PERM_OTHER_READ \<noteq> 0"

text \<open>\<open>file_kept h s t\<close>: file \<open>h\<close> has the same bytes, owner and permissions.\<close>

definition file_kept :: "int \<Rightarrow> 'a ufs_state_scheme \<Rightarrow> 'a ufs_state_scheme \<Rightarrow> bool" where
  "file_kept h s t \<longleftrightarrow> ufs_ok t \<and> ufs_content t h = ufs_content s h \<and> ufs_owner h t = ufs_owner h s \<and> ufs_perm h t = ufs_perm h s"

lemma ent_attrs_reads:
  assumes "length e = 40" and "length f = 40" and "ent_attrs e = ent_attrs f"
  shows "read_u32 32 e = read_u32 32 f" and "e ! 36 = f ! 36"
proof -
  have s: "slice 32 8 e = slice 32 8 f" using assms(3) by (simp add: ent_attrs_def)
  have "slice 32 4 e = take 4 (slice 32 8 e)" for e :: "u8 list" by (simp add: slice_def)
  then show "read_u32 32 e = read_u32 32 f" using s read_u32_slice [of 32 e] read_u32_slice [of 32 f] assms(1,2) by simp
  have "e ! 36 = slice 32 8 e ! 4" if "length e = 40" for e :: "u8 list" using that by (simp add: slice_def)
  then show "e ! 36 = f ! 36" using s assms(1,2) by simp
qed

lemma ufs_attrs_eq:
  assumes ok: "ufs_ok s" and okt: "ufs_ok t" and h: "handle_valid h s" and a: "ent_attrs (ent (directory t) (nat h)) = ent_attrs (ent (directory s) (nat h))"
  shows "ufs_owner h t = ufs_owner h s" and "ufs_perm h t = ufs_perm h s"
proof -
  have i: "nat h < 64" "0 \<le> h" using h handle_valid_cases [OF ok] by auto
  have len: "length (ent (directory s) (nat h)) = 40" "length (ent (directory t) (nat h)) = 40"
    using ufs_ok_dir [OF ok] ufs_ok_dir [OF okt] i by (simp_all add: length_ent)
  have ht: "handle_valid h t"
    using h i ent_attrs_used [OF len(2,1) a] by (simp add: handle_valid_cases [OF ok] handle_valid_cases [OF okt])
  note r = ent_attrs_reads [OF len(2,1) a]
  have "read_u32 (entry_at (nat h) + 32) d = read_u32 32 (ent d (nat h))" "d ! (entry_at (nat h) + 36) = ent d (nat h) ! 36"
    if "length d = 2560" for d
    using that i read_u32_ent [of d "nat h" 32] ent_nth [of d "nat h" 36] by (simp_all add: entry_at_eq)
  then show "ufs_owner h t = ufs_owner h s" "ufs_perm h t = ufs_perm h s"
    using r h ht ufs_ok_dir [OF ok] ufs_ok_dir [OF okt] by (simp_all add: ufs_owner_def ufs_perm_def ufs_numbers)
qed

lemma same_attrs_eq: "ufs_ok s \<Longrightarrow> ufs_ok t \<Longrightarrow> handle_valid h s \<Longrightarrow> same_attrs s t \<Longrightarrow> ufs_owner h t = ufs_owner h s \<and> ufs_perm h t = ufs_perm h s"
  using ufs_attrs_eq [of s t h] handle_valid_cases [of s h] by (auto simp: same_attrs_def)

lemma kept_file:
  assumes "fs_kept s t" and "ufs_ok s" and "handle_valid h s"
  shows "file_kept h s t"
  using assms same_attrs_eq [of s t h] by (auto simp: fs_kept_def file_kept_def)

lemma file_kept_trans: "file_kept h s t \<Longrightarrow> file_kept h t u \<Longrightarrow> file_kept h s u"
  by (simp add: file_kept_def)

lemma file_kept_refl: "ufs_ok s \<Longrightarrow> file_kept h s s"
  by (simp add: file_kept_def)

lemma file_kept_valid: "ufs_ok s \<Longrightarrow> handle_valid h s \<Longrightarrow> file_kept h s t \<Longrightarrow> handle_valid h t"
  by (auto simp: file_kept_def ufs_content_def split: if_splits)

text \<open>Creating another file, emptying another file and writing to another file.\<close>

lemma ufs_create_kept:
  fixes s :: "'a ufs_state_scheme"
  assumes ok: "ufs_ok s" and h: "handle_valid h s" and c: "ufs_create name uid s = (t, r)"
  shows "file_kept h s t"
proof (cases "cstr name \<noteq> [] \<and> length (cstr name) < 20 \<and> ufs_dir s name = None")
  case False
  then have "ufs_create name uid s = (s, -1)"
    using ok by (auto simp: ufs_create_def ufs_ok_def ufs_dir_def str_len_cstr ufs_numbers split: if_splits)
  then show ?thesis using c file_kept_refl [OF ok] by simp
next
  case True
  then have new: "cstr name \<noteq> []" "length (cstr name) < 20" "ufs_dir s name = None" by simp_all
  show ?thesis using ufs_create_correct [OF ok new, of uid]
  proof (elim disjE exE conjE)
    assume "ufs_create name uid s = (s, -1)"
    then show ?thesis using c file_kept_refl [OF ok] by simp
  next
    fix t' i
    assume t: "ufs_create name uid s = (t', int i)" "ufs_ok t'" "ufs_content s (int i) = None" "ufs_content t' = (ufs_content s)(int i \<mapsto> [])"
      "\<forall>j<64. ent (directory t') j = (if j = i then new_entry name uid (ent (directory s) j) else ent (directory s) j)"
    have hi: "h \<noteq> int i" using h t(3) by (auto simp: ufs_content_def)
    have "nat h < 64" "0 \<le> h" using h handle_valid_cases [OF ok] by auto
    then have "ent (directory t') (nat h) = ent (directory s) (nat h)" using t(5) hi by auto
    then show ?thesis using ufs_attrs_eq [OF ok t(2) h] t(2,4) hi t(1) c by (auto simp: file_kept_def)
  qed
qed

lemma ufs_truncate_kept:
  fixes s :: "'a ufs_state_scheme"
  assumes ok: "ufs_ok s" and h: "handle_valid h s" and g: "g \<noteq> h"
  shows "file_kept h s (fst (ufs_truncate g 0 s))"
proof (cases "handle_valid g s")
  case False
  then show ?thesis using file_kept_refl [OF ok] by (simp add: ufs_truncate_def)
next
  case True
  obtain i where i: "i = nat g" "i < 64" "g = int i" "ent_used (ent (directory s) i)"
    by (rule ufs_ok_entry [OF ok True]) blast
  obtain t where t: "persist_fails (s\<lparr>directory := write_u32 (40 * i + 24) 0 (directory s)\<rparr>) = (False, t)" "ufs_ok t"
      "same_attrs s t" "\<And>h. h \<noteq> int i \<Longrightarrow> ufs_content t h = ufs_content s h"
    by (rule ufs_set_size [OF ok i(2,4), of 0]) (simp, blast)
  have "nat g = i" using i(1) by simp
  then have "ufs_truncate g 0 s = (t, 0)" using True t(1) by (simp add: ufs_truncate_def entry_at_eq)
  then show ?thesis using same_attrs_eq [OF ok t(2) h t(3)] t(2) t(4) [of h] g i(3) by (simp add: file_kept_def)
qed

lemma ufs_write_kept:
  fixes s :: "'a ufs_state_scheme"
  assumes ok: "ufs_ok s" and h: "handle_valid h s" and g: "g \<noteq> h" and len: "unat len \<le> length src" "unat off + unat len \<le> 2 ^ 32 - 512"
    and size: "0 < unat len \<or> unat off \<le> unat (ufs_size g s)" and w: "ufs_write_at g off src len s = Some (t, r)"
  shows "file_kept h s t"
proof (cases "ufs_content s g")
  case None
  then have "\<not> handle_valid g s" by (simp add: ufs_content_def split: if_splits)
  then show ?thesis using w file_kept_refl [OF ok] by (simp add: ufs_write_at_def)
next
  case (Some c)
  have "unat (of_nat (unat x) :: u32) = unat x" for x :: u32 by simp
  moreover have "length c = unat (ufs_size g s)"
  proof -
    have v: "handle_valid g s" by (rule ufs_content_entry(1) [OF ok Some])
    obtain i where "i = nat g" "\<And>k. k + 4 \<le> 40 \<Longrightarrow> read_u32 (entry_at (nat g) + k) (directory s) = read_u32 k (ent (directory s) i)"
      by (rule ufs_ok_entry [OF ok v]) blast
    then show ?thesis using v length_ufs_content [OF ok Some] by (simp add: ufs_size_def ent_size_def)
  qed
  ultimately have gap: "0 < unat len \<or> unat off \<le> length c" using size by simp
  show ?thesis
    using ufs_write_at_cases [OF ok Some len gap] w same_attrs_eq [OF ok _ h, of t] file_kept_refl [OF ok] g
    by (auto simp: file_kept_def)
qed

lemma ufs_read_kept:
  fixes s :: "'a ufs_state_scheme"
  shows "fs_kept s (fst (ufs_read_at h off len s))"
  unfolding fs_kept_def
proof
  assume ok: "ufs_ok s"
  show "ufs_ok (fst (ufs_read_at h off len s)) \<and> ufs_content (fst (ufs_read_at h off len s)) = ufs_content s \<and>
      same_attrs s (fst (ufs_read_at h off len s))"
  proof (cases "ufs_content s h")
    case None
    then have "\<not> handle_valid h s" by (simp add: ufs_content_def split: if_splits)
    then show ?thesis using ok by (simp add: ufs_read_at_def)
  next
    case (Some c)
    then show ?thesis using ufs_read_at_content [OF ok Some, of off len] by (auto simp: same_attrs_def)
  qed
qed

lemma low_frame_fd [low_simps]:
  "low_frame s (release_slot slot t) = low_frame s t" "low_frame s (advance_cursor fd n t) = low_frame s t"
  "low_frame s (fst (fd_close fd t)) = low_frame s t"
  by (simp_all add: fd_close_def release_slot_def advance_cursor_def low_simps split: option.split)

lemma low_kept: "low_frame s t \<Longrightarrow> ufs_ok s \<Longrightarrow> handle_valid h s \<Longrightarrow> file_kept h s t" for s t :: "'a ufs_state_scheme"
  by (rule kept_file [OF low_frame_kept])

lemma fd_open_kept:
  fixes s :: "'a keyboard_state_scheme"
  assumes ok: "ufs_ok s" and h: "handle_valid h s" and no: "\<not> may_write h s" and w: "fd_open name flags s = Some (t, r)"
  shows "file_kept h s t"
proof -
  have opened: "file_kept h s (fst (sched_fd_open k g u))" if "file_kept h s u" for u :: "'a keyboard_state_scheme" and k g
    using file_kept_trans [OF that low_kept [of u _ h]] that file_kept_valid [OF ok h that] by (simp add: low_simps file_kept_def)
  have here: "file_kept h s s" by (rule file_kept_refl [OF ok])
  show ?thesis
  proof (cases "flags AND FD_PERSIST \<noteq> 0")
    case True
    show ?thesis
    proof (cases "ufs_find name s < 0")
      case new: True
      obtain u g where u: "ufs_create name (sched_get_uid (sched_current_tid s) s) s = (u, g)" by fastforce
      have "file_kept h s u" by (rule ufs_create_kept [OF ok h u])
      then show ?thesis using w new True here opened [of u FD_KIND_UFS g] u
        by (auto simp: fd_open_def Let_def split: if_splits)
    next
      case old: False
      let ?g = "ufs_find name s"
      have "file_kept h s (fst (ufs_truncate ?g 0 s))" if "sched_get_uid (current_thread s) s = ufs_owner ?g s \<or> ufs_perm ?g s AND UFS_PERM_OTHER_WRITE \<noteq> 0"
        using that no by (intro ufs_truncate_kept [OF ok h]) (auto simp: may_write_def)
      then show ?thesis using w old True opened here
        by (auto simp: fd_open_def Let_def sched_current_tid_def split: if_splits dest!: arg_cong [where f = fst])
    qed
  next
    case False
    have "low_frame s t"
      using w False by (auto simp: fd_open_def Let_def low_simps memfs_low_frame split: if_splits bind_splits dest!: arg_cong [where f = fst])
    then show ?thesis by (rule low_kept [OF _ ok h])
  qed
qed

lemma fd_read_kept: "fs_kept s (fst (fd_read fd len s))"
proof (cases "sched_fd_get fd s")
  case (Some slot)
  have ufs: "fs_kept s (advance_cursor fd n (fst (ufs_read_at g off l s)))" for n g off l
    by (rule fs_kept_trans [OF ufs_read_kept [of s g off l] low_frame_kept]) (simp add: low_simps)
  have mem: "fs_kept s (advance_cursor fd n s)" for n by (rule low_frame_kept) (simp add: low_simps)
  have pipe: "fs_kept s (fst (pipe_read g l s))" for g l by (rule low_frame_kept) (simp add: low_simps)
  show ?thesis
    using Some ufs [of _ "fd_handle slot" "fd_cursor slot" "ucast len"] mem pipe [of "fd_handle slot" "ucast len"] console_read_kept [of s "unat len"]
    by (auto simp: fd_read_def Let_def split: prod.split option.split)
qed (simp add: fd_read_def)

text \<open>The requests that the file system stores without harm (see \<open>ufs_empty_write_breaks\<close>).\<close>

definition write_in_range :: "int \<Rightarrow> u8 list \<Rightarrow> u64 \<Rightarrow> 'a keyboard_state_scheme \<Rightarrow> bool" where
  "write_in_range fd buf len s \<longleftrightarrow> (case sched_fd_get fd s of None \<Rightarrow> True | Some slot \<Rightarrow>
     let n = unat (ucast len :: u32) in n \<le> length buf \<and> unat (fd_cursor slot) + n \<le> 2 ^ 32 - 512 \<and>
       (0 < n \<or> unat (fd_cursor slot) \<le> unat (ufs_size (fd_handle slot) s)))"

lemma fd_write_kept:
  fixes s :: "'a keyboard_state_scheme"
  assumes ok: "ufs_ok s" and h: "handle_valid h s" and no: "\<not> may_write h s" and rng: "write_in_range fd buf len s"
    and w: "fd_write fd buf len s = Some (t, r)"
  shows "file_kept h s t"
proof (cases "sched_fd_get fd s")
  case None
  then show ?thesis using w file_kept_refl [OF ok] by (simp add: fd_write_def)
next
  case (Some slot)
  have here: "file_kept h s s" by (rule file_kept_refl [OF ok])
  have adv: "file_kept h s (advance_cursor fd n u)" if "file_kept h s u" for u n
    using file_kept_trans [OF that low_kept [of u _ h]] that file_kept_valid [OF ok h that] by (simp add: low_simps file_kept_def)
  consider (console) "fd_kind slot = FD_KIND_CONSOLE" | (pipe) "fd_kind slot = FD_KIND_PIPE_WRITE" | (ufs) "fd_kind slot = FD_KIND_UFS"
    | (memfs) "fd_kind slot = FD_KIND_MEMFS" | (other) "fd_kind slot \<notin> {FD_KIND_CONSOLE, FD_KIND_PIPE_WRITE, FD_KIND_UFS, FD_KIND_MEMFS}"
    by blast
  then show ?thesis
  proof cases
    case console
    then have "t = fold putchar_at_cursor (take (unat len) buf) s" using w Some by (simp add: fd_write_def)
    then show ?thesis using kept_file [OF console_write_kept ok h] by simp
  next
    case pipe
    then have "t = fst (pipe_write (fd_handle slot) (take (unat (ucast len :: u32)) buf) s)" using w Some
      by (auto simp: fd_write_def fd_kinds dest!: arg_cong [where f = fst])
    then show ?thesis using low_kept [OF _ ok h, of t] by (simp add: low_simps)
  next
    case ufs
    have "fd_handle slot \<noteq> h" if "\<not> (sched_get_uid (sched_current_tid s) s \<noteq> ufs_owner (fd_handle slot) s \<and> ufs_perm (fd_handle slot) s AND UFS_PERM_OTHER_WRITE = 0)"
      using that no by (auto simp: may_write_def sched_current_tid_def)
    moreover have "file_kept h s u" if "ufs_write_at (fd_handle slot) (fd_cursor slot) buf (ucast len) s = Some (u, n)" "fd_handle slot \<noteq> h" for u n
      using ufs_write_kept [OF ok h that(2) _ _ _ that(1)] rng Some by (simp add: write_in_range_def Let_def)
    ultimately show ?thesis using w Some ufs here adv by (auto simp: fd_write_def Let_def fd_kinds split: if_splits bind_splits)
  next
    case memfs
    then have "low_frame s t" using w Some by (auto simp: fd_write_def fd_kinds low_simps memfs_low_frame split: bind_splits)
    then show ?thesis by (rule low_kept [OF _ ok h])
  next
    case other
    then show ?thesis using w Some here by (auto simp: fd_write_def)
  qed
qed

section \<open>Reading a file in pieces\<close>

text \<open>Descriptor \<open>fd\<close> of the running thread is open on a readable file with bytes \<open>c\<close>, its cursor at \<open>p\<close>.\<close>

definition reading :: "int \<Rightarrow> u8 list \<Rightarrow> nat \<Rightarrow> 'a keyboard_state_scheme \<Rightarrow> bool" where
  "reading fd c p s \<longleftrightarrow> sched_inv s \<and> (\<exists>slot. sched_fd_get fd s = Some slot \<and> unat (fd_cursor slot) = p \<and>
     (fd_kind slot = FD_KIND_UFS \<and> ufs_ok s \<and> ufs_content s (fd_handle slot) = Some c \<and> may_read (fd_handle slot) s \<or>
      fd_kind slot = FD_KIND_MEMFS \<and> memfs_ok s \<and> memfs_content s (fd_handle slot) = Some c))"

lemma sched_fd_get_advance:
  assumes inv: "sched_inv s" and slot: "sched_fd_get fd s = Some slot"
  shows "sched_fd_get fd (advance_cursor fd n s) = Some (if n > 0 then slot\<lparr>fd_cursor := fd_cursor slot + word_of_int n\<rparr> else slot)"
proof -
  have i: "nat (current_thread s) < length (threads s)" "0 \<le> current_thread s" using sched_inv_current [OF inv] by auto
  have "length (t_fds (threads s ! nat (current_thread s))) = THREAD_MAX_FDS" using inv i(1) by (simp add: sched_inv_def thread_ok_def)
  then show ?thesis using slot i
    by (auto simp: advance_cursor_def sched_fd_get_def fd_at_def thread_at_def upd_fd_def nth_upd_thread fd_ok_def split: if_splits)
qed

lemma sched_uid_advance: "sched_inv s \<Longrightarrow> sched_get_uid (current_thread (advance_cursor fd n s)) (advance_cursor fd n s) = sched_get_uid (current_thread s) s"
  using sched_inv_current [of s] by (auto simp: advance_cursor_def upd_fd_def sched_get_uid_def tid_ok_iff thread_at_def nth_upd_thread)

lemma ufs_frame_sched:
  fixes s t :: "'a keyboard_state_scheme"
  assumes "ufs_frame s t"
  shows "threads t = threads s" "current_thread t = current_thread s"
proof -
  have c: "ufs_clear t = ufs_clear s" using assms by (simp add: ufs_frame_def)
  show "threads t = threads s" using arg_cong [OF c, of threads] by (simp add: ufs_clear_def)
  show "current_thread t = current_thread s" using arg_cong [OF c, of current_thread] by (simp add: ufs_clear_def)
qed

lemma cursor_add: "p + n < 2 ^ 32 \<Longrightarrow> unat w = p \<Longrightarrow> unat (w + word_of_int (int n)) = p + n" for w :: u32
  using unat_add_small [of w "word_of_nat n"] by (simp add: unat_of_nat)

lemma memfs_ok_advance:
  fixes s :: "'a keyboard_state_scheme"
  shows "memfs_ok (advance_cursor fd n s) = memfs_ok s" "memfs_content (advance_cursor fd n s) = memfs_content s"
proof -
  let ?t = "advance_cursor fd n s"
  have "?t = s\<lparr>threads := threads ?t\<rparr>" by (simp add: advance_cursor_def upd_fd_def upd_thread_def)
  moreover have "memfs_ok (s\<lparr>threads := ts\<rparr>) = memfs_ok s" "memfs_content (s\<lparr>threads := ts\<rparr>) = memfs_content s" for ts
    by (simp_all add: memfs_ok_def memfs_content_def heap_ok_cong [of "s\<lparr>threads := ts\<rparr>" s] live_def fun_eq_iff)
  ultimately show "memfs_ok ?t = memfs_ok s" "memfs_content ?t = memfs_content s" by metis+
qed

lemma fd_read_step:
  fixes s :: "'a keyboard_state_scheme"
  assumes r: "reading fd c p s" and len: "unat (ucast len :: u32) < 2 ^ 31"
  obtains t where "fd_read fd len s = (t, take (unat (ucast len :: u32)) (drop p c), Some (int (length (take (unat (ucast len :: u32)) (drop p c)))))"
    "reading fd c (p + length (take (unat (ucast len :: u32)) (drop p c))) t"
proof -
  let ?l = "ucast len :: u32" let ?bs = "take (unat ?l) (drop p c)"
  obtain slot where slot: "sched_inv s" "sched_fd_get fd s = Some slot" "unat (fd_cursor slot) = p"
    and kinds: "fd_kind slot = FD_KIND_UFS \<and> ufs_ok s \<and> ufs_content s (fd_handle slot) = Some c \<and> may_read (fd_handle slot) s \<or>
      fd_kind slot = FD_KIND_MEMFS \<and> memfs_ok s \<and> memfs_content s (fd_handle slot) = Some c" using r by (auto simp: reading_def)
  have adv: "unat (fd_cursor (if int (length ?bs) > 0 then slot\<lparr>fd_cursor := fd_cursor slot + word_of_int (int (length ?bs))\<rparr> else slot)) = p + length ?bs"
    if "length c < 2 ^ 32"
  proof (cases "?bs = []")
    case False
    then have "p + length ?bs \<le> length c" by (auto simp: min_def)
    then have "p + length ?bs < 2 ^ 32" using that by simp
    then show ?thesis using False cursor_add [OF _ slot(3)] by simp
  qed (auto simp: slot(3))
  from kinds show thesis
  proof (elim disjE conjE)
    assume u: "fd_kind slot = FD_KIND_UFS" "ufs_ok s" "ufs_content s (fd_handle slot) = Some c" "may_read (fd_handle slot) s"
    obtain v where v: "ufs_read_at (fd_handle slot) (fd_cursor slot) ?l s =
          (v, sint (of_nat (min (unat ?l) (length c - p)) :: u32), ?bs)" "ufs_ok v" "ufs_frame s v" "directory v = directory s"
        "ufs_content v = ufs_content s"
      using ufs_read_at_content [OF u(2,3), of "fd_cursor slot" ?l] unfolding slot(3) by blast
    have n: "sint (of_nat (min (unat ?l) (length c - p)) :: u32) = int (length ?bs)"
    proof -
      have "min (unat ?l) (length c - p) < 2 ^ 31" using len by simp
      then have "sint (of_nat (min (unat ?l) (length c - p)) :: u32) = int (min (unat ?l) (length c - p))"
        by (subst sint_small) (simp_all add: unat_of_nat)
      then show ?thesis by (simp add: min.commute)
    qed
    let ?t = "advance_cursor fd (int (length ?bs)) v"
    have fv: "threads v = threads s" "current_thread v = current_thread s" by (rule ufs_frame_sched [OF v(3)])+
    have inv: "sched_inv v" using slot(1) fv by (simp add: sched_inv_def tid_ok_iff)
    have "sched_fd_get fd v = sched_fd_get fd s" using fv by (simp add: sched_fd_get_def fd_at_def thread_at_def)
    then have sv: "sched_fd_get fd v = Some slot" using slot(2) by simp
    have kt: "fs_kept s ?t"
      by (rule fs_kept_trans [OF _ low_frame_kept]) (use v u(2) in \<open>auto simp: fs_kept_def same_attrs_def low_simps\<close>)
    have hv: "handle_valid (fd_handle slot) s" by (rule ufs_content_entry(1) [OF u(2,3)])
    have "may_read (fd_handle slot) ?t"
      using u(4) same_attrs_eq [OF u(2) _ hv, of ?t] kt u(2) sched_uid_advance [OF inv] fv
      by (auto simp: may_read_def fs_kept_def sched_get_uid_def tid_ok_iff thread_at_def)
    moreover have "sched_inv ?t" using inv by (simp add: advance_cursor_def sched_inv_upd_fd)
    moreover have "length c < 2 ^ 32" using length_ufs_content [OF u(2,3)] unsigned_less [of "read_u32 24 _"] by (simp add: ent_size_def)
    ultimately have "reading fd c (p + length ?bs) ?t"
      using sched_fd_get_advance [OF inv sv] adv kt u by (auto simp: reading_def fs_kept_def)
    moreover have "fd_read fd len s = (?t, ?bs, Some (int (length ?bs)))"
      using slot(2) u(1,4) v(1) n by (simp add: fd_read_def fd_kinds may_read_def sched_current_tid_def)
    ultimately show thesis using that by blast
  next
    assume m: "fd_kind slot = FD_KIND_MEMFS" "memfs_ok s" "memfs_content s (fd_handle slot) = Some c"
    let ?t = "advance_cursor fd (int (length ?bs)) s"
    have rd: "memfs_read_at (fd_handle slot) (fd_cursor slot) ?l s = (int (length ?bs), ?bs)"
      using memfs_read_at_content [OF m(2,3) len, of "fd_cursor slot"] slot(3) by (simp add: min.commute)
    have "length c < 2 ^ 32" using m(3) unsigned_less [of "e_size _"] by (auto simp: memfs_content_def entry_bytes_def split: if_splits)
    moreover have "sched_inv ?t" using slot(1) by (simp add: advance_cursor_def sched_inv_upd_fd)
    ultimately have "reading fd c (p + length ?bs) ?t"
      unfolding reading_def sched_fd_get_advance [OF slot(1,2)] memfs_ok_advance
      by (intro conjI exI [of _ "if int (length ?bs) > 0 then _ else _"]) (use m adv in auto)
    moreover have "fd_read fd len s = (?t, ?bs, Some (int (length ?bs)))" using slot(2) m(1) rd by (simp add: fd_read_def fd_kinds)
    ultimately show thesis using that by blast
  qed
qed

fun fd_reads :: "int \<Rightarrow> u64 list \<Rightarrow> 'a keyboard_state_scheme \<Rightarrow> 'a keyboard_state_scheme \<times> u8 list" where
  "fd_reads fd [] s = (s, [])"
| "fd_reads fd (len # lens) s =
    (let (s, bs, _) = fd_read fd len s; (s, rest) = fd_reads fd lens s in (s, bs @ rest))"

section \<open>Example states\<close>

definition fd_blank :: keyboard_state where
  "fd_blank = video_state.extend video_example
    \<lparr>shift_held = False, kbd_buffer = ring_buffer_init (replicate 256 0) KBD_BUFFER_SIZE, kbd_wait_channel = 0x5000\<rparr>"

text \<open>A memory file open as descriptor 2, and a disk file of user 9 open in a thread of user 7.\<close>

definition fd_example :: keyboard_state where
  "fd_example = fst (sched_fd_open FD_KIND_MEMFS 0 fd_blank)"

definition fd_private :: keyboard_state where
  "fd_private = (let (s, h) = ufs_create [0x61] 9 (ufs_init fd_blank) in fst (sched_fd_open FD_KIND_UFS h s))"

lemmas fd_blank_defs = fd_blank_def video_example_def users_blank_def fs_example_def ufs_blank_def ata_example_def
  video_state.defs users_state.defs fs_state.defs ufs_state.defs io_state.defs memfs_state.defs

lemma fd_blank_low: "memfs_state.truncate fd_blank = memfs_example"
  by (simp add: fd_blank_defs)

lemma fd_blank_fields:
  "phys_mem fd_blank = phys_mem memfs_example" "heap_head fd_blank = heap_head memfs_example" "bitmap fd_blank = bitmap memfs_example"
  "free_frames fd_blank = free_frames memfs_example" "mf_entries fd_blank = mf_entries memfs_example"
  "mf_entries_ptr fd_blank = mf_entries_ptr memfs_example" "threads fd_blank = threads memfs_example"
  "current_thread fd_blank = current_thread memfs_example"
  by (simp_all add: fd_blank_defs)

lemma fd_blank_memfs: "memfs_ok fd_blank" "memfs_content fd_blank = memfs_content memfs_example"
  using memfs_example_ok heap_ok_cong [OF fd_blank_fields(1-4)]
  by (simp_all add: memfs_ok_def memfs_content_def fd_blank_fields fun_eq_iff)

lemma fd_blank_threads: "threads fd_blank = threads sched_example" "current_thread fd_blank = current_thread sched_example"
  by (simp_all add: fd_blank_fields memfs_example_def pipe_example_def pipe_state.defs sched_state.defs)

lemma fd_blank_sched: "sched_inv fd_blank"
  using sched_example_inv by (simp add: sched_inv_def tid_ok_iff fd_blank_threads)

lemma fd_open_slot:
  assumes "threads s = threads sched_example" and "current_thread s = current_thread sched_example"
  shows "snd (sched_fd_open k h s) = 2" and "k \<noteq> FD_KIND_UNUSED \<Longrightarrow>
    sched_fd_get 2 (fst (sched_fd_open k h s)) = Some \<lparr>fd_kind = k, fd_handle = h, fd_cursor = 0\<rparr>"
  using assms
  by (simp_all add: sched_fd_open_def sched_fd_get_def thread_at_def fd_at_def upd_fd_def upd_thread_def sched_example_fields
      example_thread_def unused_fd_def THREAD_MAX_FDS_def fd_ok_def numeral_2_eq_2 numeral_eq_Suc)

lemma fd_private_facts:
  obtains i where "ufs_ok fd_private" "ufs_content fd_private (int i) = Some []" "ufs_owner (int i) fd_private = 9" "ufs_perm (int i) fd_private = 0"
    "sched_fd_get 2 fd_private = Some \<lparr>fd_kind = FD_KIND_UFS, fd_handle = int i, fd_cursor = 0\<rparr>" "sched_get_uid (current_thread fd_private) fd_private = 7"
proof -
  have disk: "disk UFS_END fd_blank (\<lambda>l. replicate 512 0)" by (rule sim_disk) (simp_all add: fd_blank_defs)
  have "disk_ok UFS_END fd_blank" using disk by (auto simp: disk_ok_def)
  moreover have "ufs_shape fd_blank" by (simp add: ufs_shape_def fd_blank_defs)
  moreover have "take 4 (disk_image fd_blank 8192) \<noteq> [0x55, 0x46, 0x53, 0x31]"
  proof
    have z: "take 4 (disk_image fd_blank 8192) ! 0 = 0" using disk_image [OF disk, of 8192] by simp
    assume e: "take 4 (disk_image fd_blank 8192) = [0x55, 0x46, 0x53, 0x31]"
    show False using z unfolding e by simp
  qed
  ultimately have m: "ufs_ok (ufs_init fd_blank)" "ufs_content (ufs_init fd_blank) = Map.empty" "ufs_frame fd_blank (ufs_init fd_blank)"
    using ufs_init_formats by blast+
  let ?s = "ufs_init fd_blank"
  have invalid: "\<not> handle_valid h ?s" for h using fun_cong [OF m(2), of h] by (simp add: ufs_content_def split: if_splits)
  have new: "ufs_dir ?s [0x61] = None" using invalid ufs_dir_Some [OF m(1), of "[0x61]"] by (cases "ufs_dir ?s [0x61]") auto
  have unused: "\<not> ent_used (ent (directory ?s) 0)" using invalid [of 0] handle_valid_cases [OF m(1), of 0] by auto
  have name: "cstr [0x61] \<noteq> []" "length (cstr [0x61]) < 20" by (simp_all add: cstr_Cons)
  obtain t i where t: "ufs_create [0x61] 9 ?s = (t, int i)" "ufs_ok t" "ufs_frame ?s t" "i < 64"
      "ufs_content t = (ufs_content ?s)(int i \<mapsto> [])"
      "\<forall>j<64. ent (directory t) j = (if j = i then new_entry [0x61] 9 (ent (directory ?s) j) else ent (directory ?s) j)"
    using ufs_create_correct [OF m(1) name new, of 9] unused by (metis zero_less_numeral)
  have le: "length (ent (directory ?s) i) = 40" using ufs_ok_dir [OF m(1)] t(4) by (simp add: length_ent)
  note E = new_entry_fields [OF le name, of 9]
  have v: "handle_valid (int i) t" using t(4,6) E(2) handle_valid_cases [OF t(2)] by simp
  have ct: "ufs_content t (int i) = Some []" using t(5) by simp
  have e: "ent (directory t) i = new_entry [0x61] 9 (ent (directory ?s) i)" using t(4,6) by simp
  have len: "length (directory t) = 2560" by (rule ufs_ok_dir [OF t(2)])
  have own: "ufs_owner (int i) t = 9" "ufs_perm (int i) t = 0"
    using v len t(4) E(8,9) read_u32_ent [OF len t(4), of 32] ent_nth [OF len t(4), of 36]
    by (simp_all add: ufs_owner_def ufs_perm_def ufs_numbers entry_at_eq e)
  have fr: "threads t = threads sched_example" "current_thread t = current_thread sched_example"
    using ufs_frame_sched [OF ufs_frame_trans [OF m(3) t(3)]] by (simp_all add: fd_blank_threads)
  have pr: "fd_private = fst (sched_fd_open FD_KIND_UFS (int i) t)" using t(1) by (simp add: fd_private_def)
  have k: "file_kept (int i) t fd_private" unfolding pr by (rule low_kept [OF _ t(2) v]) (simp add: low_simps)
  have inv: "sched_inv t" using sched_example_inv by (simp add: sched_inv_def tid_ok_iff fr)
  have "sched_get_uid (current_thread fd_private) fd_private = sched_get_uid (current_thread t) t"
    unfolding pr by (simp add: sched_fd_open_def sched_get_uid_def tid_ok_iff thread_at_def upd_fd_def threads_upd_thread fr sched_example_fields
        split: option.split)
  moreover have "sched_get_uid (current_thread t) t = 7"
    by (simp add: sched_get_uid_def tid_ok_iff thread_at_def fr sched_example_fields example_thread_def)
  ultimately show thesis
    using that [of i] k own ct fd_open_slot(2) [OF fr, of FD_KIND_UFS "int i"] pr by (simp add: file_kept_def fd_kinds)
qed

lemma fd_example_reading:
  obtains c where "length c = 2" "reading 2 c 0 fd_example"
proof -
  obtain c where c: "memfs_content memfs_example 0 = Some c" "length c = 2" using memfs_example_content by blast
  have slot: "sched_fd_get 2 fd_example = Some \<lparr>fd_kind = FD_KIND_MEMFS, fd_handle = 0, fd_cursor = 0\<rparr>"
    unfolding fd_example_def by (rule fd_open_slot(2)) (simp_all add: fd_blank_threads fd_kinds)
  have "fd_example = fd_blank\<lparr>threads := threads fd_example\<rparr>"
    by (simp add: fd_example_def sched_fd_open_def upd_fd_def upd_thread_def split: option.split)
  moreover have "memfs_ok (s\<lparr>threads := ts\<rparr>) = memfs_ok s" "memfs_content (s\<lparr>threads := ts\<rparr>) = memfs_content s" for s :: keyboard_state and ts
    by (simp_all add: memfs_ok_def memfs_content_def heap_ok_cong [of "s\<lparr>threads := ts\<rparr>" s] live_def fun_eq_iff)
  ultimately have "memfs_ok fd_example" "memfs_content fd_example = memfs_content fd_blank" using fd_blank_memfs by metis+
  moreover have "sched_inv fd_example" unfolding fd_example_def by (rule sched_inv_fd_open [OF fd_blank_sched])
  ultimately have "reading 2 c 0 fd_example" using slot c(1) fd_blank_memfs by (auto simp: reading_def)
  then show thesis using that c(2) by blast
qed

section \<open>Properties\<close>

text \<open>
  C9: Descriptors enforce the permissions of the user file system. A thread that neither owns a file nor
  may write it as another user leaves its bytes, owner and permissions as they are, whatever it opens
  (also to create or truncate), reads, writes or closes; and reading a file that it may not read returns
  -1 and no bytes. (Writes end below 2^32 - 512, and an empty write does not start behind the end.)
\<close>

theorem fd_access_control:
  fixes s :: "'a keyboard_state_scheme"
  assumes "ufs_ok s" and "handle_valid h s" and "\<not> may_write h s" and "write_in_range fd buf len s"
  shows "(\<forall>t r. fd_open name flags s = Some (t, r) \<longrightarrow> file_kept h s t) \<and>
    (\<forall>t r. fd_write fd buf len s = Some (t, r) \<longrightarrow> file_kept h s t) \<and>
    file_kept h s (fst (fd_read fd len s)) \<and> file_kept h s (fst (fd_close fd s)) \<and>
    (\<forall>slot. sched_fd_get fd s = Some slot \<and> fd_kind slot = FD_KIND_UFS \<and> fd_handle slot = h \<and> \<not> may_read h s \<longrightarrow>
      fd_read fd len s = (s, [], Some (-1)))"
proof -
  have "fd_read fd len s = (s, [], Some (-1))"
    if "sched_fd_get fd s = Some slot" "fd_kind slot = FD_KIND_UFS" "fd_handle slot = h" "\<not> may_read h s" for slot
    using that by (simp add: fd_read_def may_read_def sched_current_tid_def fd_kinds)
  moreover have "file_kept h s (fst (fd_close fd s))" by (rule low_kept [OF _ assms(1,2)]) (simp add: low_simps)
  ultimately show ?thesis
    using fd_open_kept [OF assms(1-3)] fd_write_kept [OF assms] kept_file [OF fd_read_kept assms(1,2)] by blast
qed

theorem fd_access_control_witness:
  "\<exists>h t. fd_write 2 [1, 2, 3] 3 fd_private = Some (t, Some (-1)) \<and> ufs_content fd_private h = Some [] \<and> file_kept h fd_private t \<and>
     fd_read 2 3 fd_private = (fd_private, [], Some (-1))"
proof -
  obtain i where i: "ufs_ok fd_private" "ufs_content fd_private (int i) = Some []" "ufs_owner (int i) fd_private = 9" "ufs_perm (int i) fd_private = 0"
      "sched_fd_get 2 fd_private = Some \<lparr>fd_kind = FD_KIND_UFS, fd_handle = int i, fd_cursor = 0\<rparr>" "sched_get_uid (current_thread fd_private) fd_private = 7"
    by (rule fd_private_facts)
  have v: "handle_valid (int i) fd_private" by (rule ufs_content_entry(1) [OF i(1,2)])
  have no: "\<not> may_write (int i) fd_private" "\<not> may_read (int i) fd_private" using i(3,4,6) by (simp_all add: may_write_def may_read_def)
  have rng: "write_in_range 2 [1, 2, 3] 3 fd_private" using i(5) by (simp add: write_in_range_def)
  have w: "fd_write 2 [1, 2, 3] 3 fd_private = Some (fd_private, Some (-1))"
    using i(3,4,5,6) by (simp add: fd_write_def sched_current_tid_def fd_kinds)
  have "file_kept (int i) fd_private fd_private \<and> fd_read 2 3 fd_private = (fd_private, [], Some (-1))"
    using fd_access_control [OF i(1) v no(1) rng] w i(5) no(2) by auto
  then show ?thesis using w i(2) by blast
qed

text \<open>
  C36: A file is read as a stream. Whatever the sizes of the reads, and for both file systems, successive reads
  of a descriptor return the bytes of the file in order from its cursor, no byte twice and none
  missing, until they have asked for the rest of it.
\<close>

theorem fd_read_stream:
  fixes s :: "'a keyboard_state_scheme"
  assumes "reading fd c p s" and "\<forall>len\<in>set lens. unat (ucast len :: u32) < 2 ^ 31"
  shows "\<exists>t. fd_reads fd lens s = (t, take (\<Sum>len\<leftarrow>lens. unat (ucast len :: u32)) (drop p c)) \<and>
    reading fd c (p + length (take (\<Sum>len\<leftarrow>lens. unat (ucast len :: u32)) (drop p c))) t"
  using assms
proof (induction lens arbitrary: p s)
  case (Cons len lens)
  let ?n = "unat (ucast len :: u32)" and ?m = "\<Sum>len\<leftarrow>lens. unat (ucast len :: u32)"
  obtain t where t: "fd_read fd len s = (t, take ?n (drop p c), Some (int (length (take ?n (drop p c)))))"
      "reading fd c (p + length (take ?n (drop p c))) t"
    using fd_read_step [OF Cons.prems(1), of len] Cons.prems(2) by auto
  have d: "take ?n (drop p c) @ take ?m (drop (p + length (take ?n (drop p c))) c) = take (?n + ?m) (drop p c)"
    by (cases "?n \<le> length c - p") (simp_all add: take_add add.commute min_def)
  obtain u where u: "fd_reads fd lens t = (u, take ?m (drop (p + length (take ?n (drop p c))) c))"
      "reading fd c (p + length (take ?n (drop p c)) + length (take ?m (drop (p + length (take ?n (drop p c))) c))) u"
    using Cons.IH [OF t(2)] Cons.prems(2) by auto
  have "reading fd c (p + length (take (?n + ?m) (drop p c))) u"
    using u(2) arg_cong [OF d, of length] by (simp only: length_append add.assoc)
  moreover have "fd_reads fd (len # lens) s = (u, take (?n + ?m) (drop p c))" using t(1) u(1) d by simp
  ultimately show ?case by simp
qed simp

theorem fd_read_stream_witness:
  "\<exists>c. length c = 2 \<and> snd (fd_reads 2 [1, 5] fd_example) = c"
proof -
  obtain c where c: "length c = 2" "reading 2 c 0 fd_example" by (rule fd_example_reading)
  then show ?thesis using fd_read_stream [OF c(2), of "[1, 5]"] by auto
qed

end
