(* ===== verification/User_Pages.thy ===== *)
theory User_Pages
  imports Address_Space
begin

text \<open>
  User pages of an address space, for the code that builds one (\<open>elf_loader.c\<close>, \<open>process.c\<close>): a
  page of 4 KiB, user accessible at every level, in a frame of its own. A space under construction
  is described by the pages mapped so far with their bytes; taking a frame, mapping it and writing
  it keep the description.
\<close>

definition user_page :: "memory \<Rightarrow> u64 \<Rightarrow> u64 \<Rightarrow> u64 \<Rightarrow> bool \<Rightarrow> bool" where
  "user_page m root v f w \<longleftrightarrow> (\<exists>pdpt pd pt.
     tbl m 4 root [pml4_index v] = Some pdpt \<and> tbl m 4 root [pml4_index v, pdpt_index v] = Some pd \<and>
     tbl m 4 root [pml4_index v, pdpt_index v, pd_index v] = Some pt \<and>
     bit (entry m root (pml4_index v)) 2 \<and> bit (entry m pdpt (pdpt_index v)) 2 \<and> bit (entry m pd (pd_index v)) 2 \<and>
     bit (entry m pt (pt_index v)) 0 \<and> bit (entry m pt (pt_index v)) 2 \<and> bit (entry m pt (pt_index v)) 1 = w \<and>
     entry m pt (pt_index v) AND PAGE_ADDR_MASK = f * PMM_FRAME_SIZE)"

lemma same_page_indices:
  "same_page v w \<Longrightarrow> pml4_index v = pml4_index w \<and> pdpt_index v = pdpt_index w \<and> pd_index v = pd_index w \<and> pt_index v = pt_index w"
  using va_path_eq_iff [of v w] by (simp add: va_path_def)

lemma user_page_same: "same_page v v' \<Longrightarrow> user_page m root v f w = user_page m root v' f w"
  using same_page_indices [of v v'] by (simp add: user_page_def del: tbl.simps)

lemma user_page_pd:
  assumes "tbl m 4 root [a, b] = Some pd" and "tbl m 4 root [a, b, c] = Some pt"
  shows "bit (entry m pd c) 0" and "\<not> bit (entry m pd c) 7" and "entry m pd c AND PAGE_ADDR_MASK = pt"
proof -
  have "is_tbl 2 (entry m pd c) \<and> entry m pd c AND PAGE_ADDR_MASK = pt"
    using assms tbl_append [of m 4 root "[a, b]" "[c]"] by (simp del: tbl.simps(2) add: tbl.simps(2) [of _ 2] split: if_splits)
  then show "bit (entry m pd c) 0" "\<not> bit (entry m pd c) 7" "entry m pd c AND PAGE_ADDR_MASK = pt" by (simp_all add: is_tbl_def)
qed

lemma user_page_walk: "user_page m root v f w \<Longrightarrow> walk m root v = Some (f * PMM_FRAME_SIZE + (v AND 0xFFF), w)"
  unfolding user_page_def
  by (elim exE conjE, frule (1) user_page_pd) (simp add: walk_def target_cases Let_def page_target_def user_page_pd del: tbl.simps)

lemma user_page_accessible: "user_page m (space_pml4 sp) v f w \<Longrightarrow> vmm_is_user_accessible_in sp v m"
  unfolding user_page_def user_accessible_tbl
  by (elim exE conjE, frule (1) user_page_pd) (simp add: Let_def user_page_pd del: tbl.simps)

lemma page_indices_ok [simp]:
  "idx_ok [pml4_index v]" "idx_ok [pml4_index v, pdpt_index v]" "idx_ok [pml4_index v, pdpt_index v, pd_index v]"
  "idx_ok [pml4_index v, pdpt_index v, pd_index v, pt_index v]"
  by simp_all

lemma user_page_grows:
  assumes "grows s root t" and "user_page (phys_mem s) root v f w"
  shows "user_page (phys_mem t) root v f w"
proof -
  note g = growsD [OF assms(1)]
  obtain pdpt pd pt where p: "tbl (phys_mem s) 4 root [pml4_index v] = Some pdpt" "tbl (phys_mem s) 4 root [pml4_index v, pdpt_index v] = Some pd"
      "tbl (phys_mem s) 4 root [pml4_index v, pdpt_index v, pd_index v] = Some pt"
      "bit (entry (phys_mem s) root (pml4_index v)) 2" "bit (entry (phys_mem s) pdpt (pdpt_index v)) 2" "bit (entry (phys_mem s) pd (pd_index v)) 2"
      "bit (entry (phys_mem s) pt (pt_index v)) 0" "bit (entry (phys_mem s) pt (pt_index v)) 2" "bit (entry (phys_mem s) pt (pt_index v)) 1 = w"
      "entry (phys_mem s) pt (pt_index v) AND PAGE_ADDR_MASK = f * PMM_FRAME_SIZE"
    using assms(2) unfolding user_page_def by blast
  have r: "tbl (phys_mem s) 4 root [] = Some root" by simp
  have q: "tbl (phys_mem t) 4 root [pml4_index v] = Some pdpt" "tbl (phys_mem t) 4 root [pml4_index v, pdpt_index v] = Some pd"
      "tbl (phys_mem t) 4 root [pml4_index v, pdpt_index v, pd_index v] = Some pt"
    by (rule g(5) [OF _ p(1)] g(5) [OF _ p(2)] g(5) [OF _ p(3)]; simp)+
  have b: "bit (entry (phys_mem t) root (pml4_index v)) 2" "bit (entry (phys_mem t) pdpt (pdpt_index v)) 2" "bit (entry (phys_mem t) pd (pd_index v)) 2"
    using g(6) [of "[]" "pml4_index v" root pdpt] g(6) [of "[pml4_index v]" "pdpt_index v" pdpt pd]
      g(6) [of "[pml4_index v, pdpt_index v]" "pd_index v" pd pt] p r by (simp_all del: tbl.simps)
  have l: "entry (phys_mem t) pt (pt_index v) = entry (phys_mem s) pt (pt_index v)" by (rule g(10) [OF _ _ p(3)]) simp_all
  show ?thesis unfolding user_page_def l
    by (intro exI [of _ pdpt] exI [of _ pd] exI [of _ pt]) (use q b p(7-10) in \<open>simp add: l del: tbl.simps\<close>)
qed

lemma in_frame_iff:
  assumes "f < PMM_MAX_FRAMES"
  shows "x - f * PMM_FRAME_SIZE < 4096 \<longleftrightarrow> frame_of x = f"
proof -
  let ?a = "f * PMM_FRAME_SIZE"
  have ua: "unat ?a = unat f * 4096" "unat f < 0x100000"
    using frame_address(1) [OF assms] assms by (simp_all add: PMM_MAX_FRAMES_eq word_less_nat_alt)
  have "x - ?a < 4096 \<longleftrightarrow> unat ?a \<le> unat x \<and> unat x < unat ?a + 4096" using range_iff [of ?a 4096 x] ua by simp
  also have "\<dots> \<longleftrightarrow> unat (frame_of x) = unat f" unfolding ua unat_frame_of by auto
  finally show ?thesis by (simp add: word_unat_eq_iff)
qed

text \<open>Mapping a page, seen from this page and from every other.\<close>

lemma user_page_map:
  fixes s :: "'a vmm_state_scheme"
  assumes "space_ok s (space_pml4 sp)" and "pmm_ok s" and "vmm_map_page_in sp v (f * PMM_FRAME_SIZE) flags s = (t, 0)"
    and "f < PMM_MAX_FRAMES" and "bit flags 2"
  shows "user_page (phys_mem t) (space_pml4 sp) v f (bit flags 1)"
proof (cases rule: get_or_split_pt_entry_cases [OF assms(1,2), of v])
  case (1 s')
  then show ?thesis using assms(3) by (simp add: vmm_map_page_in_def)
next
  case (2 s' pdpt pd pt)
  let ?root = "space_pml4 sp" and ?e = "pte_value (f * PMM_FRAME_SIZE) flags"
  note g = growsD [OF 2(2)]
  have "entry_at pt (pt_index v) \<noteq> 0" by (rule pte_nonnull [OF g(1) _ 2(5)]) simp_all
  then have t: "phys_mem t = set_entry pt (pt_index v) ?e (phys_mem s')"
    using assms(3) 2(1) by (auto simp: vmm_map_page_in_def set_entry_def pte_value_def)
  note w = set_pte [OF g(1,2) 2(5), where e = ?e]
  let ?m = "set_entry pt (pt_index v) ?e (phys_mem s')"
  have tb: "tbl ?m 4 ?root [pml4_index v] = Some pdpt" "tbl ?m 4 ?root [pml4_index v, pdpt_index v] = Some pd"
      "tbl ?m 4 ?root [pml4_index v, pdpt_index v, pd_index v] = Some pt"
    using w(5) 2(3-5) by (simp_all del: tbl.simps)
  have e4: "bit (entry ?m ?root (pml4_index v)) 2"
    using w(6) [of "[]" "pml4_index v" ?root] 2(6) by (simp add: va_path_def)
  have e3: "bit (entry ?m pdpt (pdpt_index v)) 2"
    using w(6) [OF _ _ 2(3), of "pdpt_index v"] 2(7) by (simp add: va_path_def)
  have e2: "bit (entry ?m pd (pd_index v)) 2"
    using w(6) [OF _ _ 2(4), of "pd_index v"] 2(8) by (simp add: va_path_def)
  have a: "f * PMM_FRAME_SIZE AND PAGE_ADDR_MASK = f * PMM_FRAME_SIZE" using page_addr_frame [OF assms(4)] by (simp add: page_addr_def)
  show ?thesis unfolding user_page_def t
    by (rule exI [of _ pdpt], rule exI [of _ pd], rule exI [of _ pt]) (use tb e4 e3 e2 w(7) a assms(5) in \<open>simp add: pte_value pte_value(2) [simplified] del: tbl.simps\<close>)
qed

lemma user_page_map_other:
  fixes s :: "'a vmm_state_scheme"
  assumes "space_ok s (space_pml4 sp)" and "pmm_ok s" and "vmm_map_page_in sp v phys flags s = (t, rc)"
    and "user_page (phys_mem s) (space_pml4 sp) x f w" and "\<not> same_page x v"
  shows "user_page (phys_mem t) (space_pml4 sp) x f w"
proof (cases rule: get_or_split_pt_entry_cases [OF assms(1,2), of v])
  case (1 s')
  then have "t = s'" using assms(3) by (simp add: vmm_map_page_in_def)
  then show ?thesis using user_page_grows [OF 1(2) assms(4)] by simp
next
  case (2 s' pdpt pd pt)
  let ?root = "space_pml4 sp" and ?e = "pte_value phys flags"
  note g = growsD [OF 2(2)]
  have "entry_at pt (pt_index v) \<noteq> 0" by (rule pte_nonnull [OF g(1) _ 2(5)]) simp_all
  then have t: "phys_mem t = set_entry pt (pt_index v) ?e (phys_mem s')"
    using assms(3) 2(1) by (auto simp: vmm_map_page_in_def set_entry_def pte_value_def)
  note w = set_pte [OF g(1,2) 2(5), where e = ?e]
  let ?m = "set_entry pt (pt_index v) ?e (phys_mem s')"
  obtain pdpt' pd' pt' where p: "tbl (phys_mem s') 4 ?root [pml4_index x] = Some pdpt'" "tbl (phys_mem s') 4 ?root [pml4_index x, pdpt_index x] = Some pd'"
      "tbl (phys_mem s') 4 ?root [pml4_index x, pdpt_index x, pd_index x] = Some pt'"
      "bit (entry (phys_mem s') ?root (pml4_index x)) 2" "bit (entry (phys_mem s') pdpt' (pdpt_index x)) 2" "bit (entry (phys_mem s') pd' (pd_index x)) 2"
      "bit (entry (phys_mem s') pt' (pt_index x)) 0" "bit (entry (phys_mem s') pt' (pt_index x)) 2" "bit (entry (phys_mem s') pt' (pt_index x)) 1 = w"
      "entry (phys_mem s') pt' (pt_index x) AND PAGE_ADDR_MASK = f * PMM_FRAME_SIZE"
    using user_page_grows [OF 2(2) assms(4)] unfolding user_page_def by blast
  have tb: "tbl ?m 4 ?root [pml4_index x] = Some pdpt'" "tbl ?m 4 ?root [pml4_index x, pdpt_index x] = Some pd'"
      "tbl ?m 4 ?root [pml4_index x, pdpt_index x, pd_index x] = Some pt'"
    using w(5) p(1-3) by (simp_all del: tbl.simps)
  have ne: "va_path x \<noteq> va_path v" using assms(5) va_path_eq_iff by blast
  have "entry ?m ?root (pml4_index x) = entry (phys_mem s') ?root (pml4_index x)"
    using w(6) [of "[]" "pml4_index x" ?root] by (simp add: va_path_def)
  moreover have "entry ?m pdpt' (pdpt_index x) = entry (phys_mem s') pdpt' (pdpt_index x)"
    using w(6) [OF _ _ p(1), of "pdpt_index x"] by (simp add: va_path_def)
  moreover have "entry ?m pd' (pd_index x) = entry (phys_mem s') pd' (pd_index x)"
    using w(6) [OF _ _ p(2), of "pd_index x"] by (simp add: va_path_def)
  moreover have "entry ?m pt' (pt_index x) = entry (phys_mem s') pt' (pt_index x)"
    using w(6) [OF _ _ p(3), of "pt_index x"] ne by (simp add: va_path_def)
  ultimately show ?thesis unfolding user_page_def t
    by (intro exI [of _ pdpt'] exI [of _ pd'] exI [of _ pt']) (use tb p(4-10) in \<open>simp del: tbl.simps\<close>)
qed

text \<open>Writing outside the tables changes no table, no translation and no user page.\<close>

lemma outside_tables:
  fixes s :: "'a vmm_state_scheme" and u :: "'a vmm_state_scheme"
  assumes ok: "space_ok s root" and m: "\<And>x. frame_of x \<in> table_frames (phys_mem s) root \<Longrightarrow> phys_mem u x = phys_mem s x"
    and fs: "free_set u \<subseteq> free_set s"
  shows "space_ok u root" and "table_frames (phys_mem u) root = table_frames (phys_mem s) root"
    and "walk (phys_mem u) root v = walk (phys_mem s) root v"
    and "user_page (phys_mem u) root v f w = user_page (phys_mem s) root v f w"
proof -
  have ent: "entry (phys_mem u) x j = entry (phys_mem s) x j"
    if "idx_ok (q @ [j])" "tbl (phys_mem s) 4 root q = Some x" for q x j
  proof -
    have "page_addr x" "j < 512" "frame_of x \<in> table_frames (phys_mem s) root"
      using space_okD(2) [OF ok _ that(2)] that(1) table_frames_I [OF _ that(2)] by auto
    then show ?thesis using m by (intro entry_cong) auto
  qed
  have same: "tbl (phys_mem u) 4 root q = tbl (phys_mem s) 4 root q" "look (phys_mem u) 4 root q = look (phys_mem s) 4 root q"
    if "idx_ok q" for q
  proof -
    have "sim_entry (4 - length p) (entry (phys_mem s) x j) (entry (phys_mem u) x j)"
      if "tbl (phys_mem s) 4 root p = Some x" "q = p @ j # r" for p x j r
      using ent [of p j x] that \<open>idx_ok q\<close> by (simp add: sim_entry_def)
    then show "tbl (phys_mem u) 4 root q = tbl (phys_mem s) 4 root q" "look (phys_mem u) 4 root q = look (phys_mem s) 4 root q"
      by (rule tbl_sim; blast)+
  qed
  show "space_ok u root" by (rule space_ok_cong [OF ok same]) (use fs in auto)
  show "table_frames (phys_mem u) root = table_frames (phys_mem s) root"
    unfolding table_frames_def using same(1) by (simp cong: conj_cong)
  show "walk (phys_mem u) root v = walk (phys_mem s) root v" by (rule walk_cong) (simp add: target_def same(2))
  have e1: "entry (phys_mem u) root (pml4_index v) = entry (phys_mem s) root (pml4_index v)"
    using ent [of "[]" "pml4_index v" root] by simp
  have e2: "tbl (phys_mem s) 4 root [pml4_index v] = Some x \<Longrightarrow> entry (phys_mem u) x (pdpt_index v) = entry (phys_mem s) x (pdpt_index v)" for x
    using ent [of "[pml4_index v]" "pdpt_index v" x] by (simp del: tbl.simps)
  have e3: "tbl (phys_mem s) 4 root [pml4_index v, pdpt_index v] = Some x \<Longrightarrow> entry (phys_mem u) x (pd_index v) = entry (phys_mem s) x (pd_index v)" for x
    using ent [of "[pml4_index v, pdpt_index v]" "pd_index v" x] by (simp del: tbl.simps)
  have e4: "tbl (phys_mem s) 4 root [pml4_index v, pdpt_index v, pd_index v] = Some x \<Longrightarrow> entry (phys_mem u) x (pt_index v) = entry (phys_mem s) x (pt_index v)" for x
    using ent [of "[pml4_index v, pdpt_index v, pd_index v]" "pt_index v" x] by (simp del: tbl.simps)
  show "user_page (phys_mem u) root v f w = user_page (phys_mem s) root v f w"
    unfolding user_page_def same(1) [OF page_indices_ok(1)] same(1) [OF page_indices_ok(2)] same(1) [OF page_indices_ok(3)]
    by (intro ex_cong1 conj_cong refl) (simp_all add: e1 e2 e3 e4 del: tbl.simps)
qed

section \<open>Building a space\<close>

text \<open>
  \<open>mapped_image s0 root V P s\<close>: since \<open>s0\<close> only the pages of \<open>V\<close> have changed their translation,
  the memory written was free or a table of the space, and every \<open>(va, f, w, g)\<close> of \<open>P\<close> is a user page
  in a frame of its own that holds the bytes \<open>g\<close>.
\<close>

type_synonym page_image = "u64 \<times> u64 \<times> bool \<times> (u64 \<Rightarrow> u8)"

definition mapped_image :: "'a vmm_state_scheme \<Rightarrow> u64 \<Rightarrow> u64 set \<Rightarrow> page_image set \<Rightarrow> 'a vmm_state_scheme \<Rightarrow> bool" where
  "mapped_image s0 root V P s \<longleftrightarrow> space_ok s root \<and> pmm_ok s \<and> free_set s \<subseteq> free_set s0 \<and>
     table_frames (phys_mem s) root \<subseteq> table_frames (phys_mem s0) root \<union> free_set s0 \<and>
     (\<forall>x. frame_of x \<notin> free_set s0 \<union> table_frames (phys_mem s0) root \<longrightarrow> phys_mem s x = phys_mem s0 x) \<and>
     (\<forall>v. (\<forall>va\<in>V. \<not> same_page v va) \<longrightarrow> walk (phys_mem s) root v = walk (phys_mem s0) root v) \<and>
     (\<forall>(va, f, w, g)\<in>P. f \<in> free_set s0 - free_set s \<and> f \<notin> table_frames (phys_mem s) root \<and>
        user_page (phys_mem s) root va f w \<and> (\<forall>x. frame_of x = f \<longrightarrow> phys_mem s x = g (x - f * PMM_FRAME_SIZE)))"

lemma mapped_imageD:
  assumes "mapped_image s0 root V P s"
  shows "space_ok s root" and "pmm_ok s" and "free_set s \<subseteq> free_set s0"
    and "table_frames (phys_mem s) root \<subseteq> table_frames (phys_mem s0) root \<union> free_set s0"
    and "frame_of x \<notin> free_set s0 \<union> table_frames (phys_mem s0) root \<Longrightarrow> phys_mem s x = phys_mem s0 x"
    and "(\<And>va. va \<in> V \<Longrightarrow> \<not> same_page v va) \<Longrightarrow> walk (phys_mem s) root v = walk (phys_mem s0) root v"
    and "(va, f, w, g) \<in> P \<Longrightarrow> f \<in> free_set s0" and "(va, f, w, g) \<in> P \<Longrightarrow> f \<notin> free_set s"
    and "(va, f, w, g) \<in> P \<Longrightarrow> f \<notin> table_frames (phys_mem s) root"
    and "(va, f, w, g) \<in> P \<Longrightarrow> user_page (phys_mem s) root va f w"
    and "(va, f, w, g) \<in> P \<Longrightarrow> frame_of x = f \<Longrightarrow> phys_mem s x = g (x - f * PMM_FRAME_SIZE)"
  using assms unfolding mapped_image_def by blast+

lemma mapped_imageI:
  assumes "space_ok s root" and "pmm_ok s" and "free_set s \<subseteq> free_set s0"
    and "table_frames (phys_mem s) root \<subseteq> table_frames (phys_mem s0) root \<union> free_set s0"
    and "\<And>x. frame_of x \<notin> free_set s0 \<union> table_frames (phys_mem s0) root \<Longrightarrow> phys_mem s x = phys_mem s0 x"
    and "\<And>v. (\<And>va. va \<in> V \<Longrightarrow> \<not> same_page v va) \<Longrightarrow> walk (phys_mem s) root v = walk (phys_mem s0) root v"
    and "\<And>va f w g. (va, f, w, g) \<in> P \<Longrightarrow> f \<in> free_set s0 - free_set s \<and> f \<notin> table_frames (phys_mem s) root \<and>
      user_page (phys_mem s) root va f w \<and> (\<forall>x. frame_of x = f \<longrightarrow> phys_mem s x = g (x - f * PMM_FRAME_SIZE))"
  shows "mapped_image s0 root V P s"
  unfolding mapped_image_def using assms by blast

lemma mapped_image_start: "space_ok s root \<Longrightarrow> pmm_ok s \<Longrightarrow> mapped_image s root {} {} s"
  by (rule mapped_imageI) simp_all

lemma mapped_image_wider: "mapped_image s0 root V P s \<Longrightarrow> V \<subseteq> W \<Longrightarrow> mapped_image s0 root W P s"
  unfolding mapped_image_def by blast

text \<open>Taking a frame, or writing one that is neither a table nor one of the pages.\<close>

lemma mapped_image_write:
  fixes s :: "'a vmm_state_scheme" and u :: "'a vmm_state_scheme"
  assumes i: "mapped_image s0 root V P s" and m: "\<And>x. frame_of x \<noteq> f \<Longrightarrow> phys_mem u x = phys_mem s x"
    and f: "f \<in> free_set s0" "f \<notin> table_frames (phys_mem s) root" "\<And>va w g. (va, f, w, g) \<notin> P"
    and fs: "free_set u \<subseteq> free_set s" and u: "pmm_ok u"
  shows "mapped_image s0 root V P u" and "table_frames (phys_mem u) root = table_frames (phys_mem s) root"
    and "user_page (phys_mem u) root va f' w = user_page (phys_mem s) root va f' w"
proof -
  note d = mapped_imageD [OF i]
  have mt: "frame_of x \<in> table_frames (phys_mem s) root \<Longrightarrow> phys_mem u x = phys_mem s x" for x
    using f(2) by (intro m) auto
  note o = outside_tables [OF d(1) mt fs]
  show tf: "table_frames (phys_mem u) root = table_frames (phys_mem s) root" by (rule o(2))
  show up: "user_page (phys_mem u) root va f' w = user_page (phys_mem s) root va f' w" for va f' w by (rule o(4))
  show "mapped_image s0 root V P u"
  proof (rule mapped_imageI)
    show "space_ok u root" by (rule o(1))
    show "pmm_ok u" by (rule u)
    show "free_set u \<subseteq> free_set s0" using fs d(3) by blast
    show "table_frames (phys_mem u) root \<subseteq> table_frames (phys_mem s0) root \<union> free_set s0" using tf d(4) by simp
    show "phys_mem u x = phys_mem s0 x" if "frame_of x \<notin> free_set s0 \<union> table_frames (phys_mem s0) root" for x
      using m [of x] d(5) [OF that] that f(1) by auto
    show "walk (phys_mem u) root v = walk (phys_mem s0) root v" if "\<And>va. va \<in> V \<Longrightarrow> \<not> same_page v va" for v
      using o(3) d(6) [OF that] by simp
  next
    fix va f' w g
    assume p: "(va, f', w, g) \<in> P"
    have "f' \<noteq> f" using p f(3) by blast
    then have "phys_mem u x = phys_mem s x" if "frame_of x = f'" for x using m that by simp
    then show "f' \<in> free_set s0 - free_set u \<and> f' \<notin> table_frames (phys_mem u) root \<and>
        user_page (phys_mem u) root va f' w \<and> (\<forall>x. frame_of x = f' \<longrightarrow> phys_mem u x = g (x - f' * PMM_FRAME_SIZE))"
      using d(7-11) [OF p] fs tf up by auto
  qed
qed

text \<open>Mapping one more page.\<close>

lemma vmm_map_page_in_tables:
  fixes s :: "'a vmm_state_scheme"
  assumes "space_ok s (space_pml4 sp)" and "pmm_ok s" and "vmm_map_page_in sp v phys flags s = (t, rc)"
  shows "free_set t \<subseteq> free_set s"
    and "table_frames (phys_mem t) (space_pml4 sp) \<subseteq> table_frames (phys_mem s) (space_pml4 sp) \<union> free_set s"
proof -
  have "free_set t \<subseteq> free_set s \<and> table_frames (phys_mem t) (space_pml4 sp) \<subseteq> table_frames (phys_mem s) (space_pml4 sp) \<union> free_set s"
  proof (cases rule: get_or_split_pt_entry_cases [OF assms(1,2), of v])
    case (1 s')
    then have "t = s'" using assms(3) by (simp add: vmm_map_page_in_def)
    then show ?thesis using growsD(3,9) [OF 1(2)] by blast
  next
    case (2 s' pdpt pd pt)
    let ?e = "pte_value phys flags"
    note g = growsD [OF 2(2)]
    have "entry_at pt (pt_index v) \<noteq> 0" by (rule pte_nonnull [OF g(1) _ 2(5)]) simp_all
    then have t: "t = s'\<lparr>phys_mem := set_entry pt (pt_index v) ?e (phys_mem s')\<rparr>"
      using assms(3) 2(1) by (simp add: vmm_map_page_in_def set_entry_def pte_value_def)
    have "table_frames (set_entry pt (pt_index v) ?e (phys_mem s')) (space_pml4 sp) = table_frames (phys_mem s') (space_pml4 sp)"
      unfolding table_frames_def using set_pte(5) [OF g(1,2) 2(5), where e = ?e] by (simp cong: conj_cong)
    then show ?thesis using g(3,9) by (simp add: t)
  qed
  then show "free_set t \<subseteq> free_set s"
    "table_frames (phys_mem t) (space_pml4 sp) \<subseteq> table_frames (phys_mem s) (space_pml4 sp) \<union> free_set s" by blast+
qed

lemma mapped_image_map:
  fixes s :: "'a vmm_state_scheme"
  assumes i: "mapped_image s0 (space_pml4 sp) V P s" and c: "vmm_map_page_in sp va phys flags s = (t, rc)"
    and new: "\<And>x f w g. (x, f, w, g) \<in> P \<Longrightarrow> \<not> same_page x va"
  shows "mapped_image s0 (space_pml4 sp) (insert va V) P t" and "rc \<noteq> 0 \<Longrightarrow> mapped_image s0 (space_pml4 sp) V P t"
proof -
  let ?root = "space_pml4 sp"
  note d = mapped_imageD [OF i]
  note mp = vmm_map_page_in_correct [OF d(1,2) c]
  note tb = vmm_map_page_in_tables [OF d(1,2) c]
  note mem = vmm_map_page_in_mem [OF d(1,2) c]
  have main: "mapped_image s0 ?root W P t"
    if w: "\<And>v. (\<And>x. x \<in> W \<Longrightarrow> \<not> same_page v x) \<Longrightarrow> walk (phys_mem t) ?root v = walk (phys_mem s) ?root v \<and> (\<forall>x\<in>V. \<not> same_page v x)" for W
  proof (rule mapped_imageI)
    show "space_ok t ?root" "pmm_ok t" using mp by blast+
    show "free_set t \<subseteq> free_set s0" using tb(1) d(3) by blast
    show "table_frames (phys_mem t) ?root \<subseteq> table_frames (phys_mem s0) ?root \<union> free_set s0" using tb(2) d(3,4) by blast
    show "phys_mem t x = phys_mem s0 x" if "frame_of x \<notin> free_set s0 \<union> table_frames (phys_mem s0) ?root" for x
    proof -
      have "phys_mem t x = phys_mem s x" using that d(3,4) by (intro mem) blast
      then show ?thesis using d(5) [OF that] by simp
    qed
    show "walk (phys_mem t) ?root v = walk (phys_mem s0) ?root v" if "\<And>x. x \<in> W \<Longrightarrow> \<not> same_page v x" for v
      using w [OF that] d(6) [of v] by simp
  next
    fix x f w g
    assume p: "(x, f, w, g) \<in> P"
    have "phys_mem t y = phys_mem s y" if "frame_of y = f" for y
      using d(8,9) [OF p] that by (intro mem) blast
    moreover have "user_page (phys_mem t) ?root x f w" by (rule user_page_map_other [OF d(1,2) c d(10) [OF p] new [OF p]])
    ultimately show "f \<in> free_set s0 - free_set t \<and> f \<notin> table_frames (phys_mem t) ?root \<and>
        user_page (phys_mem t) ?root x f w \<and> (\<forall>y. frame_of y = f \<longrightarrow> phys_mem t y = g (y - f * PMM_FRAME_SIZE))"
      using d(7-11) [OF p] tb by auto
  qed
  show "mapped_image s0 ?root (insert va V) P t" by (rule main) (use mp in auto)
  show "mapped_image s0 ?root V P t" if "rc \<noteq> 0" by (rule main) (use mp that in auto)
qed

end
