(* ===== verification/Elf.thy ===== *)
theory Elf
  imports User_Pages
begin

text \<open>
  The ELF loader (\<open>src/kernel/core/elf/elf_loader.c\<close>). The image is a range of kernel memory: the
  headers and the file bytes are read from the byte memory through the identity mapping, at the
  moment the code reads them, and the pages are written there too, so that an image overlapping the
  frames that are handed out would be seen. \<open>elf_load\<close> returns its result code and, on success,
  what it stores through \<open>out_entry\<close>.
\<close>

definition rd16 :: "memory \<Rightarrow> u64 \<Rightarrow> u16" where
  "rd16 m a = ucast (m a) OR push_bit 8 (ucast (m (a + 1)))"

record elf64_ehdr =
  e_ident :: "u8 list"
  e_type :: u16
  e_machine :: u16
  e_version :: u32
  e_entry :: u64
  e_phoff :: u64
  e_shoff :: u64
  e_flags :: u32
  e_ehsize :: u16
  e_phentsize :: u16
  e_phnum :: u16
  e_shentsize :: u16
  e_shnum :: u16
  e_shstrndx :: u16

record elf64_phdr =
  p_type :: u32
  p_flags :: u32
  p_offset :: u64
  p_vaddr :: u64
  p_paddr :: u64
  p_filesz :: u64
  p_memsz :: u64
  p_align :: u64

text \<open>Reading a packed structure through a pointer: every field at its offset.\<close>

definition elf64_ehdr_at :: "memory \<Rightarrow> u64 \<Rightarrow> elf64_ehdr" where
  "elf64_ehdr_at m a =
     \<lparr>e_ident = map (\<lambda>i. m (a + word_of_nat i)) [0..<16], e_type = rd16 m (a + 16), e_machine = rd16 m (a + 18),
      e_version = rd32 m (a + 20), e_entry = rd64 m (a + 24), e_phoff = rd64 m (a + 32),
      e_shoff = rd64 m (a + 40), e_flags = rd32 m (a + 48), e_ehsize = rd16 m (a + 52),
      e_phentsize = rd16 m (a + 54), e_phnum = rd16 m (a + 56), e_shentsize = rd16 m (a + 58),
      e_shnum = rd16 m (a + 60), e_shstrndx = rd16 m (a + 62)\<rparr>"

definition elf64_phdr_at :: "memory \<Rightarrow> u64 \<Rightarrow> elf64_phdr" where
  "elf64_phdr_at m a =
     \<lparr>p_type = rd32 m a, p_flags = rd32 m (a + 4), p_offset = rd64 m (a + 8), p_vaddr = rd64 m (a + 16),
      p_paddr = rd64 m (a + 24), p_filesz = rd64 m (a + 32), p_memsz = rd64 m (a + 40), p_align = rd64 m (a + 48)\<rparr>"

definition PT_LOAD :: u32 where "PT_LOAD = 1"
definition PAGE_SIZE_4K :: u64 where "PAGE_SIZE_4K = 4096"
definition ELF_MACHINE_X86_64 :: u16 where "ELF_MACHINE_X86_64 = 0x3E"
definition ELF_CLASS_64 :: u8 where "ELF_CLASS_64 = 2"
definition ELF_TYPE_EXEC :: u16 where "ELF_TYPE_EXEC = 2"
definition PF_X :: u32 where "PF_X = 1"
definition PF_W :: u32 where "PF_W = 2"
definition sizeof_ehdr :: u64 where "sizeof_ehdr = 64"
definition sizeof_phdr :: u64 where "sizeof_phdr = 56"

section \<open>One page of a segment\<close>

text \<open>\<open>for (k = 0; k < n; k++) dst[k] = src[k];\<close> over one memory, byte after byte.\<close>

definition copy_bytes :: "u64 \<Rightarrow> u64 \<Rightarrow> u64 \<Rightarrow> memory \<Rightarrow> memory" where
  "copy_bytes dst src n m = for_w 0 n (\<lambda>k m. m(dst + k := m (src + k))) m"

text \<open>The copy of the file bytes that fall into the page at \<open>va\<close>.\<close>

definition copy_page_bytes :: "u64 \<Rightarrow> elf64_phdr \<Rightarrow> u64 \<Rightarrow> u64 \<Rightarrow> u64 \<Rightarrow> memory \<Rightarrow> memory" where
  "copy_page_bytes data ph segment_vaddr va kview m =
     (let page_vstart = va; page_vend = va + PAGE_SIZE_4K;
          seg_data_start = segment_vaddr; seg_data_end = segment_vaddr + p_filesz ph;
          copy_start = (if page_vstart > seg_data_start then page_vstart else seg_data_start);
          copy_end = (if page_vend < seg_data_end then page_vend else seg_data_end)
      in if copy_end > copy_start then
           let file_off = p_offset ph + (copy_start - segment_vaddr);
               page_off = copy_start - page_vstart;
               n = copy_end - copy_start
           in copy_bytes (kview + page_off) (data + file_off) n m
         else m)"

definition load_page ::
  "u64 \<Rightarrow> u64 \<Rightarrow> u64 \<Rightarrow> u64 \<Rightarrow> u64 \<Rightarrow> 'a vmm_state_scheme \<Rightarrow> 'a vmm_state_scheme \<times> int" where
  "load_page sp data ph segment_vaddr va s =
     (let (s, frame) = pmm_alloc_frame s in
      if frame = 0 then (s, -1)
      else
        let s = s\<lparr>phys_mem := for_w (0::u32) 4096 (\<lambda>i m. m(frame + ucast i := 0)) (phys_mem s)\<rparr>;
            flags = (if p_flags (elf64_phdr_at (phys_mem s) ph) AND PF_W \<noteq> 0 then VMM_USER OR VMM_WRITABLE else VMM_USER);
            (s, rc) = vmm_map_page_in sp va frame flags s
        in if rc \<noteq> 0 then (s, -1)
           else (s\<lparr>phys_mem := copy_page_bytes data (elf64_phdr_at (phys_mem s) ph) segment_vaddr va frame (phys_mem s)\<rparr>, 0))"

text \<open>The loop over the pages. Nothing in its own text bounds it, so it is allowed not to return (\<open>None\<close>).\<close>

partial_function (option) load_pages ::
  "u64 \<Rightarrow> u64 \<Rightarrow> u64 \<Rightarrow> u64 \<Rightarrow> u64 \<Rightarrow> u64 \<Rightarrow> 'a vmm_state_scheme \<Rightarrow> ('a vmm_state_scheme \<times> int) option" where
  "load_pages sp data ph segment_vaddr va vaddr_end s =
     (if va < vaddr_end then
        case load_page sp data ph segment_vaddr va s of
          (s, rc) \<Rightarrow> if rc \<noteq> 0 then Some (s, -1)
                    else load_pages sp data ph segment_vaddr (va + PAGE_SIZE_4K) vaddr_end s
      else Some (s, 0))"

definition load_segment ::
  "u64 \<Rightarrow> u64 \<Rightarrow> u64 \<Rightarrow> u64 \<Rightarrow> u64 \<Rightarrow> 'a vmm_state_scheme \<Rightarrow> ('a vmm_state_scheme \<times> int) option" where
  "load_segment sp data sz ph load_bias s =
     (let h = elf64_phdr_at (phys_mem s) ph in
      if p_filesz h > p_memsz h \<or> p_offset h > sz \<or> p_filesz h > sz - p_offset h then Some (s, -1)
      else if p_vaddr h + load_bias < p_vaddr h then Some (s, -1)
      else
        let segment_vaddr = p_vaddr h + load_bias in
        if p_memsz h = 0 then Some (s, 0)
        else
          let vaddr_start = segment_vaddr AND NOT (PAGE_SIZE_4K - 1);
              vaddr_end = (segment_vaddr + p_memsz h + PAGE_SIZE_4K - 1) AND NOT (PAGE_SIZE_4K - 1)
          in if vaddr_end < segment_vaddr then Some (s, -1)
             else load_pages sp data ph segment_vaddr vaddr_start vaddr_end s)"

section \<open>The whole image\<close>

definition phdr_address :: "u64 \<Rightarrow> elf64_ehdr \<Rightarrow> u16 \<Rightarrow> u64" where
  "phdr_address data eh i = data + e_phoff eh + ucast i * ucast (e_phentsize eh)"

function entry_is_executable_from :: "elf64_ehdr \<Rightarrow> memory \<Rightarrow> u64 \<Rightarrow> u16 \<Rightarrow> bool" where
  "entry_is_executable_from eh m data i =
     (if i < e_phnum eh then
        let ph = elf64_phdr_at m (phdr_address data eh i) in
        if p_type ph \<noteq> PT_LOAD \<or> p_flags ph AND PF_X = 0 \<or> p_memsz ph = 0
        then entry_is_executable_from eh m data (i + 1)
        else if p_vaddr ph + p_memsz ph < p_vaddr ph then False
        else if e_entry eh \<ge> p_vaddr ph \<and> e_entry eh < p_vaddr ph + p_memsz ph then True
        else entry_is_executable_from eh m data (i + 1)
      else False)"
  by pat_completeness auto
termination
  by (relation "measure (\<lambda>(eh, _, _, i). unat (e_phnum eh) - unat i)")
    (auto simp: unat_plus_one_less word_less_nat_alt intro!: diff_less_mono2)

declare entry_is_executable_from.simps [simp del]

definition entry_is_executable :: "elf64_ehdr \<Rightarrow> memory \<Rightarrow> u64 \<Rightarrow> bool" where
  "entry_is_executable eh m data = entry_is_executable_from eh m data 0"

function load_segments ::
  "u64 \<Rightarrow> u64 \<Rightarrow> u64 \<Rightarrow> u64 \<Rightarrow> u16 \<Rightarrow> 'a vmm_state_scheme \<Rightarrow> ('a vmm_state_scheme \<times> int) option" where
  "load_segments sp data sz load_bias i s =
     (let eh = elf64_ehdr_at (phys_mem s) data in
      if i < e_phnum eh then
        let ph = phdr_address data eh i in
        if p_type (elf64_phdr_at (phys_mem s) ph) \<noteq> PT_LOAD then load_segments sp data sz load_bias (i + 1) s
        else
          case load_segment sp data sz ph load_bias s of
            None \<Rightarrow> None
          | Some (s, rc) \<Rightarrow> if rc \<noteq> 0 then Some (s, -1) else load_segments sp data sz load_bias (i + 1) s
      else Some (s, 0))"
  by pat_completeness auto
termination
proof (relation "measure (\<lambda>(_, _, _, _, i, _). 65536 - unat i)")
  have dec: "65536 - unat (i + 1) < 65536 - unat i" if "i < n" for i n :: u16
    using unat_plus_one_less [OF that] unsigned_less [of i, where ?'a = nat] by simp
  show "((sp, data, sz, load_bias, i + 1, s), sp, data, sz, load_bias, i, s) \<in> measure (\<lambda>(_, _, _, _, i, _). 65536 - unat i)"
    if "x = elf64_ehdr_at (phys_mem s) data" "i < e_phnum x"
    for sp data sz load_bias i and s :: "'a vmm_state_scheme" and x
    using dec [OF that(2)] by simp
  show "((sp, data, sz, load_bias, i + 1, t), sp, data, sz, load_bias, i, s) \<in> measure (\<lambda>(_, _, _, _, i, _). 65536 - unat i)"
    if "x = elf64_ehdr_at (phys_mem s) data" "i < e_phnum x"
    for sp data sz load_bias i and s t :: "'a vmm_state_scheme" and x
    using dec [OF that(2)] by simp
qed simp

declare load_segments.simps [simp del]

definition elf_load ::
  "u64 \<Rightarrow> u64 \<Rightarrow> u64 \<Rightarrow> u64 \<Rightarrow> 'a vmm_state_scheme \<Rightarrow> ('a vmm_state_scheme \<times> int \<times> u64 option) option" where
  "elf_load sp data sz load_bias s =
     (if sz < sizeof_ehdr then Some (s, -1, None)
      else
        let eh = elf64_ehdr_at (phys_mem s) data in
        if e_ident eh ! 0 \<noteq> 0x7F \<or> e_ident eh ! 1 \<noteq> 0x45 \<or> e_ident eh ! 2 \<noteq> 0x4C \<or> e_ident eh ! 3 \<noteq> 0x46
        then Some (s, -1, None)
        else if e_ident eh ! 4 \<noteq> ELF_CLASS_64 then Some (s, -1, None)
        else if e_machine eh \<noteq> ELF_MACHINE_X86_64 then Some (s, -1, None)
        else if e_type eh \<noteq> ELF_TYPE_EXEC then Some (s, -1, None)
        else if ucast (e_phentsize eh) \<noteq> sizeof_phdr then Some (s, -1, None)
        else if e_phoff eh > sz \<or> ucast (e_phnum eh) > (sz - e_phoff eh) div ucast (e_phentsize eh)
        then Some (s, -1, None)
        else if \<not> entry_is_executable eh (phys_mem s) data then Some (s, -1, None)
        else
          case load_segments sp data sz load_bias 0 s of
            None \<Rightarrow> None
          | Some (s, rc) \<Rightarrow>
              if rc \<noteq> 0 then Some (s, -1, None)
              else
                let eh = elf64_ehdr_at (phys_mem s) data in
                if e_entry eh + load_bias < e_entry eh then Some (s, -1, None)
                else Some (s, 0, Some (e_entry eh + load_bias)))"

section \<open>Pages of low addresses\<close>

lemma same_page_low:
  assumes "unat v < 2 ^ 48" and "unat w < 2 ^ 48"
  shows "same_page v w \<longleftrightarrow> unat v div 4096 = unat w div 4096"
proof -
  have high: "\<not> bit x n" if "unat x < 2 ^ 48" "48 \<le> n" for x :: u64 and n
  proof -
    have "(2::nat) ^ 48 \<le> 2 ^ n" using that(2) by (intro power_increasing) simp_all
    then have "unat x div 2 ^ n = 0" using that(1) by simp
    then have "\<not> bit (unat x) n" by (simp add: bit_nat_def)
    then show ?thesis by (auto simp: bit_unsigned_iff dest: bit_imp_le_length)
  qed
  have "same_page v w \<longleftrightarrow> drop_bit 12 v = drop_bit 12 w"
  proof
    assume s: "same_page v w"
    show "drop_bit 12 v = drop_bit 12 w"
    proof (rule bit_word_eqI)
      fix n
      show "bit (drop_bit 12 v) n = bit (drop_bit 12 w) n"
        using s high [OF assms(1), of "12 + n"] high [OF assms(2), of "12 + n"]
        unfolding same_page_bits bit_drop_bit_eq comp_def by (cases "12 + n < 48") auto
    qed
  next
    assume d: "drop_bit 12 v = drop_bit 12 w"
    show "same_page v w" unfolding same_page_bits
    proof (intro allI impI)
      fix n :: nat
      assume "12 \<le> n \<and> n < 48"
      then have "n = 12 + (n - 12)" by simp
      then show "bit v n = bit w n" using d bit_drop_bit_eq [of 12 v] bit_drop_bit_eq [of 12 w] by (metis comp_apply)
    qed
  qed
  also have "\<dots> \<longleftrightarrow> unat v div 4096 = unat w div 4096"
    by (simp add: word_unat_eq_iff drop_bit_eq_div unat_div)
  finally show ?thesis .
qed

lemma unat_page_offset: "unat (v AND 0xFFF) = unat v mod 4096" for v :: u64
  using unat_and_mask [of v 12] by (simp add: mask_eq_exp_minus_1)

lemma page_base_plus: "(v AND NOT 0xFFF) + (v AND 0xFFF) = v" for v :: u64
proof -
  have "(v AND NOT 0xFFF) + (v AND 0xFFF) = (v AND NOT 0xFFF) OR (v AND 0xFFF)"
    by (rule disjunctive_add_eq_or) (simp add: bit_eq_iff bit_simps)
  also have "\<dots> = v" by (rule bit_eqI) (auto simp: bit_simps)
  finally show ?thesis .
qed

lemma unat_page_base: "unat (v AND NOT 0xFFF) = unat v div 4096 * 4096" for v :: u64
proof -
  have "v AND NOT 0xFFF = v - (v AND 0xFFF)" using page_base_plus [of v] by (metis add_diff_cancel_right')
  moreover have "unat (v AND 0xFFF) \<le> unat v" unfolding unat_page_offset by simp
  ultimately have "unat (v AND NOT 0xFFF) = unat v - unat v mod 4096"
    unfolding unat_page_offset [symmetric] by (simp add: unat_sub word_le_nat_alt)
  then show ?thesis by (metis minus_mod_eq_div_mult)
qed

section \<open>The bytes of a page\<close>

text \<open>The byte that a segment at \<open>segment_vaddr\<close> has at the address \<open>v\<close>: from the file, then zeros.\<close>

definition segment_byte :: "memory \<Rightarrow> u64 \<Rightarrow> elf64_phdr \<Rightarrow> u64 \<Rightarrow> u64 \<Rightarrow> u8" where
  "segment_byte m data h segment_vaddr v =
     (if v - segment_vaddr < p_filesz h then m (data + p_offset h + (v - segment_vaddr)) else 0)"

lemma zero_frame:
  fixes a :: u64
  shows "for_w (0::u32) 4096 (\<lambda>i m. m(a + ucast i := 0)) m = (\<lambda>x. if x - a < 4096 then 0 else m x)"
proof -
  have "for_w (0::u32) 4096 (\<lambda>i m. m(a + ucast i := 0)) m = (\<lambda>x. if x - a < ucast (4096::u32) then 0 else m x)"
  proof (rule for_w_invariant [where P = "\<lambda>j t. t = (\<lambda>x. if x - a < ucast (j::u32) then 0 else m x)"])
    fix j :: u32 and t
    assume j: "j < 4096" and t: "t = (\<lambda>x. if x - a < ucast j then 0 else m x)"
    have "unat (ucast (j + 1) :: u64) = unat (ucast j + 1 :: u64)"
      using j by (simp add: unat_word_ariths word_less_nat_alt)
    then have e: "ucast (j + 1) = (ucast j + 1 :: u64)" by (simp add: word_unat_eq_iff)
    have lt: "(ucast j :: u64) < 4096" using j by (simp add: word_less_nat_alt)
    have "x - a < ucast j + 1 \<longleftrightarrow> x - a < ucast j \<or> x = a + ucast j" for x
      unfolding less_plus_one_iff [OF lt] by (auto simp: algebra_simps)
    then show "t(a + ucast j := 0) = (\<lambda>x. if x - a < ucast (j + 1) then 0 else m x)"
      unfolding t e by (auto simp: fun_eq_iff)
  qed simp_all
  then show ?thesis by simp
qed

lemma copy_bytes_apart:
  assumes "\<And>k. k < n \<Longrightarrow> \<not> src + k - dst < n"
  shows "copy_bytes dst src n m = (\<lambda>x. if x - dst < n then m (src + (x - dst)) else m x)"
  unfolding copy_bytes_def
proof (rule for_w_invariant [where P = "\<lambda>j t. t = (\<lambda>x. if x - dst < j then m (src + (x - dst)) else m x)"])
  fix j t
  assume j: "j < n" and t: "t = (\<lambda>x. if x - dst < j then m (src + (x - dst)) else m x)"
  have "x - dst < j + 1 \<longleftrightarrow> x - dst < j \<or> x = dst + j" for x
    unfolding less_plus_one_iff [OF j] by (auto simp: algebra_simps)
  moreover have "t (src + j) = m (src + j)" using assms [OF j] j unfolding t by auto
  ultimately show "t(dst + j := t (src + j)) = (\<lambda>x. if x - dst < j + 1 then m (src + (x - dst)) else m x)"
    unfolding t by (auto simp: fun_eq_iff)
qed simp_all

lemma copy_page_bytes_eq:
  fixes m :: memory
  assumes f: "f < PMM_MAX_FRAMES" and va: "unat va + 4096 < 2 ^ 64" and seg: "unat sv + unat (p_filesz h) < 2 ^ 64"
    and zero: "\<And>x. frame_of x = f \<Longrightarrow> m x = 0"
    and src: "\<And>k. k < p_filesz h \<Longrightarrow> frame_of (data + p_offset h + k) \<noteq> f"
  shows "copy_page_bytes data h sv va (f * PMM_FRAME_SIZE) m =
     (\<lambda>x. if frame_of x = f then segment_byte m data h sv (va + (x - f * PMM_FRAME_SIZE)) else m x)"
proof -
  let ?kv = "f * PMM_FRAME_SIZE"
  let ?cs = "if va > sv then va else sv"
  let ?ce = "if va + 4096 < sv + p_filesz h then va + 4096 else sv + p_filesz h"
  have u1: "unat (va + 4096) = unat va + 4096" using va by (simp add: unat_word_ariths)
  have u2: "unat (sv + p_filesz h) = unat sv + unat (p_filesz h)" using seg by (simp add: unat_word_ariths)
  have cs: "unat ?cs = max (unat va) (unat sv)" by (simp add: word_less_nat_alt max_def)
  have ce: "unat ?ce = min (unat va + 4096) (unat sv + unat (p_filesz h))" by (simp add: word_less_nat_alt u1 u2 min_def)
  have page: "frame_of x = f \<longleftrightarrow> x - ?kv < 4096" for x using in_frame_iff [OF f] by blast
  have infile: "v - sv < p_filesz h \<longleftrightarrow> unat sv \<le> unat v \<and> unat v < unat sv + unat (p_filesz h)" for v
    using seg by (intro range_iff) simp
  have inpage: "v - va < 4096 \<longleftrightarrow> unat va \<le> unat v \<and> unat v < unat va + 4096" for v
    using range_iff [of va 4096 v] va by simp
  show ?thesis
  proof (cases "?ce > ?cs")
    case True
    let ?n = "?ce - ?cs"
    have un: "unat ?n = unat ?ce - unat ?cs" using True by (intro unat_sub) simp
    have inn: "v - ?cs < ?n \<longleftrightarrow> v - va < 4096 \<and> v - sv < p_filesz h" for v
    proof -
      have "v - ?cs < ?n \<longleftrightarrow> unat ?cs \<le> unat v \<and> unat v < unat ?ce"
        using range_iff [of ?cs ?n v] un True unsigned_less [of ?ce, where ?'a = nat] by (simp add: word_less_nat_alt)
      then show ?thesis unfolding cs ce inpage infile by auto
    qed
    have dst: "x - (?kv + (?cs - va)) = (va + (x - ?kv)) - ?cs" for x by (simp add: algebra_simps)
    have sr: "data + (p_offset h + (?cs - sv)) + ((va + (x - ?kv)) - ?cs) = data + p_offset h + ((va + (x - ?kv)) - sv)" for x
      by (simp add: algebra_simps)
    have apart: "\<not> data + (p_offset h + (?cs - sv)) + k - (?kv + (?cs - va)) < ?n" if "k < ?n" for k
    proof
      assume a: "data + (p_offset h + (?cs - sv)) + k - (?kv + (?cs - va)) < ?n"
      have "(?cs + k) - ?cs < ?n" using that by simp
      then have "?cs + k - sv < p_filesz h" unfolding inn by blast
      then have "frame_of (data + p_offset h + (?cs + k - sv)) \<noteq> f" by (rule src)
      moreover have "data + (p_offset h + (?cs - sv)) + k = data + p_offset h + (?cs + k - sv)" by (simp add: algebra_simps)
      moreover have "data + (p_offset h + (?cs - sv)) + k - ?kv < 4096"
        using a unfolding dst inn add_diff_cancel_left' by blast
      ultimately show False using page by metis
    qed
    have "copy_page_bytes data h sv va ?kv m = copy_bytes (?kv + (?cs - va)) (data + (p_offset h + (?cs - sv))) ?n m"
      using True by (simp add: copy_page_bytes_def PAGE_SIZE_4K_def Let_def)
    also have "\<dots> = (\<lambda>x. if x - (?kv + (?cs - va)) < ?n then m (data + (p_offset h + (?cs - sv)) + (x - (?kv + (?cs - va)))) else m x)"
      by (rule copy_bytes_apart [OF apart])
    also have "\<dots> = (\<lambda>x. if frame_of x = f then segment_byte m data h sv (va + (x - ?kv)) else m x)"
      unfolding dst sr inn page segment_byte_def using zero page by (auto simp: fun_eq_iff)
    finally show ?thesis .
  next
    case False
    have "\<not> v - sv < p_filesz h" if "v - va < 4096" for v
      using False that unfolding word_less_nat_alt [of ?cs] cs ce inpage infile by auto
    then have "segment_byte m data h sv (va + (x - ?kv)) = 0" if "frame_of x = f" for x
      using that unfolding page segment_byte_def by simp
    then show ?thesis using False zero by (auto simp: copy_page_bytes_def PAGE_SIZE_4K_def Let_def fun_eq_iff)
  qed
qed

section \<open>Loading a page, a segment, the image\<close>

lemma add_less_bound: "y < a \<Longrightarrow> unat a + unat b \<le> unat c \<Longrightarrow> y + b < c" for y a b c :: u64
  using unsigned_less [of c, where ?'a = nat] by (simp add: word_less_nat_alt unat_word_ariths)

lemma field_bytes: "x - (a + b) < n \<Longrightarrow> unat n + unat b \<le> unat c \<Longrightarrow> x - a < c" for x a b c n :: u64
  using add_less_bound [of "x - (a + b)" n b c] by (simp add: algebra_simps)

lemma rd16_cong: "(\<And>x. x - a < 2 \<Longrightarrow> m x = m' x) \<Longrightarrow> rd16 m a = rd16 m' a"
  by (simp add: rd16_def)

lemma elf64_phdr_at_cong:
  assumes "\<And>x. x - a < 56 \<Longrightarrow> m x = m' x"
  shows "elf64_phdr_at m a = elf64_phdr_at m' a"
proof -
  have r64: "rd64 m (a + b) = rd64 m' (a + b)" if "unat b + 8 \<le> 56" for b
    by (rule rd64_cong, rule assms, erule field_bytes) (use that in simp)
  have r32: "rd32 m (a + b) = rd32 m' (a + b)" if "unat b + 4 \<le> 56" for b
    by (rule rd32_cong, rule assms, erule field_bytes) (use that in simp)
  show ?thesis using r32 [of 0] by (simp add: elf64_phdr_at_def r64 r32)
qed

lemma elf64_ehdr_at_cong:
  assumes "\<And>x. x - a < 64 \<Longrightarrow> m x = m' x"
  shows "elf64_ehdr_at m a = elf64_ehdr_at m' a"
proof -
  have r64: "rd64 m (a + b) = rd64 m' (a + b)" if "unat b + 8 \<le> 64" for b
    by (rule rd64_cong, rule assms, erule field_bytes) (use that in simp)
  have r32: "rd32 m (a + b) = rd32 m' (a + b)" if "unat b + 4 \<le> 64" for b
    by (rule rd32_cong, rule assms, erule field_bytes) (use that in simp)
  have r16: "rd16 m (a + b) = rd16 m' (a + b)" if "unat b + 2 \<le> 64" for b
    by (rule rd16_cong, rule assms, erule field_bytes) (use that in simp)
  have r8: "m (a + word_of_nat i) = m' (a + word_of_nat i)" if "i < 16" for i
    by (rule assms) (use that in \<open>simp add: word_less_nat_alt unat_of_nat\<close>)
  show ?thesis by (simp add: elf64_ehdr_at_def r64 r32 r16 r8)
qed

text \<open>Bytes that are neither free nor in a table of the space keep their value while it is built.\<close>

definition apart_from :: "'a vmm_state_scheme \<Rightarrow> u64 \<Rightarrow> u64 \<Rightarrow> u64 \<Rightarrow> bool" where
  "apart_from s root a n \<longleftrightarrow> (\<forall>k<n. frame_of (a + k) \<notin> free_set s \<union> table_frames (phys_mem s) root)"

lemma apart_fromD: "apart_from s root a n \<Longrightarrow> x - a < n \<Longrightarrow> frame_of x \<notin> free_set s \<union> table_frames (phys_mem s) root"
  unfolding apart_from_def by (metis add.commute diff_add_cancel)

lemma apart_from_part: "apart_from s root a n \<Longrightarrow> unat b + unat k \<le> unat n \<Longrightarrow> apart_from s root (a + b) k"
  unfolding apart_from_def
proof (intro allI impI)
  fix j
  assume a: "\<forall>k<n. frame_of (a + k) \<notin> free_set s \<union> table_frames (phys_mem s) root" "unat b + unat k \<le> unat n" "j < k"
  have "j + b < n" by (rule add_less_bound [OF a(3)]) (use a(2) in simp)
  then show "frame_of (a + b + j) \<notin> free_set s \<union> table_frames (phys_mem s) root"
    using a(1) by (simp add: add.assoc) (metis add.commute)
qed

lemma mapped_image_apart: "mapped_image s0 root V P s \<Longrightarrow> apart_from s0 root a n \<Longrightarrow> x - a < n \<Longrightarrow> phys_mem s x = phys_mem s0 x"
  using mapped_imageD(5) apart_fromD by blast

text \<open>The page of \<open>P\<close> that a segment puts at \<open>va\<close>, in frame \<open>f\<close>.\<close>

definition segment_page :: "memory \<Rightarrow> u64 \<Rightarrow> elf64_phdr \<Rightarrow> u64 \<Rightarrow> u64 \<Rightarrow> u64 \<Rightarrow> page_image" where
  "segment_page m data h sv va f = (va, f, bit (p_flags h) 1, \<lambda>k. segment_byte m data h sv (va + k))"

lemma load_page_image:
  fixes s :: "'a vmm_state_scheme" and sp :: u64
  defines "root \<equiv> space_pml4 sp"
  assumes i: "mapped_image s0 root V P s"
    and ph: "apart_from s0 root ph 56" and h: "h = elf64_phdr_at (phys_mem s0) ph"
    and src: "apart_from s0 root (data + p_offset h) (p_filesz h)"
    and va: "unat va + 4096 < 2 ^ 64" and seg: "unat sv + unat (p_filesz h) < 2 ^ 64"
    and new: "\<forall>q\<in>P. \<not> same_page (fst q) va"
    and c: "load_page sp data ph sv va s = (t, rc)"
  shows "rc \<noteq> 0 \<Longrightarrow> mapped_image s0 root V P t"
    and "rc = 0 \<Longrightarrow> \<exists>f. mapped_image s0 root (insert va V) (insert (segment_page (phys_mem s0) data h sv va f) P) t"
proof -
  note d = mapped_imageD [OF i]
  have hdr: "elf64_phdr_at (phys_mem u) ph = h" if "mapped_image s0 root W Q u" for W Q u
    unfolding h by (rule elf64_phdr_at_cong) (rule mapped_image_apart [OF that ph])
  have "(rc \<noteq> 0 \<longrightarrow> mapped_image s0 root V P t) \<and>
      (rc = 0 \<longrightarrow> (\<exists>f. mapped_image s0 root (insert va V) (insert (segment_page (phys_mem s0) data h sv va f) P) t))"
  proof (cases s rule: pmm_alloc_frame_cases)
    case none
    then show ?thesis using c i by (auto simp: load_page_def)
  next
    case (frame f j s1)
    let ?a = "f * PMM_FRAME_SIZE"
    have fb: "f < PMM_MAX_FRAMES" "?a \<noteq> 0"
      using free_set_below [OF frame(2)] frame_nonzero [OF frame(2)] d(2) by (simp_all add: pmm_ok_def)
    have m1: "phys_mem s1 = phys_mem s" by (rule pmm_frame_phys_mem [OF frame(9)])
    define s2 where "s2 = s1\<lparr>phys_mem := for_w (0::u32) 4096 (\<lambda>i m. m(?a + ucast i := 0)) (phys_mem s1)\<rparr>"
    have page: "frame_of x = f \<longleftrightarrow> x - ?a < 4096" for x using in_frame_iff [OF fb(1)] by blast
    have m2: "phys_mem s2 x = (if frame_of x = f then 0 else phys_mem s x)" for x
      by (simp add: s2_def zero_frame page m1)
    have ok2: "pmm_ok s2" using frame(6,8) d(2) pmm_ok_cong [of s2 s1] by (simp add: s2_def pmm_ok_def)
    have fs2: "free_set s2 = free_set s - {f}" using frame(6) by (simp add: s2_def)
    have f0: "f \<in> free_set s0" using frame(2) d(3) by blast
    have ft: "f \<notin> table_frames (phys_mem s) root" using space_okD(2) [OF d(1)] frame(2) unfolding table_frames_def by blast
    have fP: "(x, f, w, g) \<notin> P" for x w g using d(8) frame(2) by blast
    have "phys_mem s2 x = phys_mem s x" if "frame_of x \<noteq> f" for x using m2 that by simp
    moreover have "free_set s2 \<subseteq> free_set s" using fs2 by blast
    ultimately have i2: "mapped_image s0 root V P s2" and tf2: "table_frames (phys_mem s2) root = table_frames (phys_mem s) root"
      using mapped_image_write [OF i _ f0 ft fP _ ok2] by blast+
    note d2 = mapped_imageD [OF i2]
    define flags where "flags = (if p_flags h AND PF_W \<noteq> 0 then VMM_USER OR VMM_WRITABLE else VMM_USER)"
    have "PF_W = 2 ^ 1" by (simp add: PF_W_def)
    then have pw: "p_flags h AND PF_W \<noteq> 0 \<longleftrightarrow> bit (p_flags h) 1" by (metis and_exp_eq_0)
    have fl: "bit flags 2" "bit flags 1 = bit (p_flags h) 1"
      unfolding flags_def pw by (auto simp: page_bits bit_or_iff)
    obtain s3 rc3 where mp: "vmm_map_page_in sp va ?a flags s2 = (s3, rc3)" by fastforce
    have im: "mapped_image s0 root (insert va V) P s3" "rc3 \<noteq> 0 \<Longrightarrow> mapped_image s0 root V P s3"
      unfolding root_def by (rule mapped_image_map [OF i2 [unfolded root_def] mp]; use new in force)+
    note tb = vmm_map_page_in_tables [OF d2(1,2) [unfolded root_def] mp, folded root_def]
    define s4 where "s4 = s3\<lparr>phys_mem := copy_page_bytes data (elf64_phdr_at (phys_mem s3) ph) sv va ?a (phys_mem s3)\<rparr>"
    have lp: "load_page sp data ph sv va s = (if rc3 \<noteq> 0 then (s3, -1) else (s4, 0))"
      using frame(1) fb(2) mp hdr [OF i2] by (simp add: load_page_def s2_def [symmetric] s4_def flags_def)
    show ?thesis
    proof (cases "rc3 = 0")
      case False
      then show ?thesis using lp c im(2) by auto
    next
      case True
      have i3: "mapped_image s0 root (insert va V) P s3" by (rule im(1))
      note d3 = mapped_imageD [OF i3]
      have ff: "f \<notin> free_set s3" "f \<notin> table_frames (phys_mem s3) root" using tb fs2 ft tf2 by auto
      have z3: "phys_mem s3 x = 0" if "frame_of x = f" for x
      proof -
        have "phys_mem s3 x = phys_mem s2 x"
          using that fs2 ft tf2 by (intro vmm_map_page_in_mem [OF d2(1,2) [unfolded root_def] mp]) (simp add: root_def)
        then show ?thesis using m2 that by simp
      qed
      have far: "frame_of (data + p_offset h + k) \<noteq> f" if "k < p_filesz h" for k
        using src that f0 unfolding apart_from_def by blast
      have m4: "phys_mem s4 = (\<lambda>x. if frame_of x = f then segment_byte (phys_mem s3) data h sv (va + (x - ?a)) else phys_mem s3 x)"
        unfolding s4_def hdr [OF i3] by (simp add: copy_page_bytes_eq [OF fb(1) va seg z3 far])
      have sb: "segment_byte (phys_mem s3) data h sv v = segment_byte (phys_mem s0) data h sv v" for v
        unfolding segment_byte_def using mapped_image_apart [OF i3 src] by simp
      have up3: "user_page (phys_mem s3) root va f (bit flags 1)"
        using user_page_map [OF d2(1,2) [unfolded root_def] mp [unfolded True] fb(1) fl(1)] by (simp add: root_def)
      have b4: "bitmap s4 = bitmap s3" "free_frames s4 = free_frames s3" by (simp_all add: s4_def)
      have ok4: "pmm_ok s4" "free_set s4 = free_set s3"
        using pmm_ok_cong [OF b4] free_set_cong [OF b4(1)] d3(2) by simp_all
      have "phys_mem s4 x = phys_mem s3 x" if "frame_of x \<noteq> f" for x using m4 that by simp
      then have i4: "mapped_image s0 root (insert va V) P s4" and tf4: "table_frames (phys_mem s4) root = table_frames (phys_mem s3) root"
        and up4: "user_page (phys_mem s4) root va f (bit flags 1)"
        using mapped_image_write [OF i3 _ f0 ff(2) fP _ ok4(1)] ok4(2) up3 by simp_all
      have "mapped_image s0 root (insert va V) (insert (segment_page (phys_mem s0) data h sv va f) P) s4"
        using i4 f0 ff ok4(2) tf4 up4 m4 sb fl(2) unfolding mapped_image_def segment_page_def by auto
      then show ?thesis using lp c True by auto
    qed
  qed
  then show "rc \<noteq> 0 \<Longrightarrow> mapped_image s0 root V P t"
    and "rc = 0 \<Longrightarrow> \<exists>f. mapped_image s0 root (insert va V) (insert (segment_page (phys_mem s0) data h sv va f) P) t" by blast+
qed

text \<open>The pages of an address range, as the code runs through them.\<close>

definition page_span :: "u64 \<Rightarrow> u64 \<Rightarrow> u64 set" where
  "page_span lo hi = {x. unat x mod 4096 = 0 \<and> lo \<le> x \<and> x < hi}"

lemma page_span_iff: "x \<in> page_span lo hi \<longleftrightarrow> unat x mod 4096 = 0 \<and> unat lo \<le> unat x \<and> unat x < unat hi"
  by (simp add: page_span_def word_le_nat_alt word_less_nat_alt)

lemma aligned_next:
  fixes a x :: nat
  assumes "a mod 4096 = 0" and "x mod 4096 = 0" and "a < x"
  shows "a + 4096 \<le> x"
proof -
  obtain i j where "a = 4096 * i" "x = 4096 * j" using assms(1,2) by fastforce
  then show ?thesis using assms(3) by simp
qed

lemma page_span_step:
  assumes "unat hi = unat va + 4096 * Suc n" and "unat va mod 4096 = 0"
  shows "page_span va hi = insert va (page_span (va + 4096) hi)" and "va \<notin> page_span (va + 4096) hi"
    and "unat (va + 4096) = unat va + 4096"
proof -
  show u: "unat (va + 4096) = unat va + 4096"
    using assms(1) unsigned_less [of hi, where ?'a = nat] by (simp add: unat_word_ariths)
  have "x \<in> page_span va hi \<longleftrightarrow> x = va \<or> x \<in> page_span (va + 4096) hi" for x
    using aligned_next [OF assms(2), of "unat x"] assms unfolding page_span_iff u word_unat_eq_iff [of x va] by auto
  then show "page_span va hi = insert va (page_span (va + 4096) hi)" by blast
  show "va \<notin> page_span (va + 4096) hi" using u by (simp add: page_span_iff)
qed

lemma page_span_apart:
  assumes "x \<in> page_span lo hi" and "y \<in> page_span lo' hi'" and "unat hi \<le> 2 ^ 48" and "unat hi' \<le> 2 ^ 48" and "x \<noteq> y"
  shows "\<not> same_page x y"
proof
  assume s: "same_page x y"
  have b: "unat x < 2 ^ 48" "unat y < 2 ^ 48" and m: "unat x mod 4096 = 0" "unat y mod 4096 = 0"
    using assms(1-4) unfolding page_span_iff by linarith+
  have "unat x div 4096 = unat y div 4096" using s same_page_low [OF b] by blast
  then have "unat x = unat y" using m by (metis div_mult_mod_eq)
  then show False using assms(5) by (simp add: word_unat_eq_iff)
qed

lemma load_pages_image:
  fixes s :: "'a vmm_state_scheme" and sp :: u64
  defines "root \<equiv> space_pml4 sp"
  assumes ph: "apart_from s0 root ph 56" and h: "h = elf64_phdr_at (phys_mem s0) ph"
    and src: "apart_from s0 root (data + p_offset h) (p_filesz h)"
    and hi: "unat vend \<le> 2 ^ 48" and seg: "unat sv + unat (p_filesz h) < 2 ^ 64"
  shows "unat vend = unat va + 4096 * n \<Longrightarrow> unat va mod 4096 = 0 \<Longrightarrow> mapped_image s0 root V P s \<Longrightarrow>
    \<forall>q\<in>P. \<forall>p\<in>page_span va vend. \<not> same_page (fst q) p \<Longrightarrow>
    \<exists>t rc Q. load_pages sp data ph sv va vend s = Some (t, rc) \<and> (rc = 0 \<or> rc = -1) \<and>
      mapped_image s0 root (V \<union> page_span va vend) (P \<union> Q) t \<and> (\<forall>q\<in>Q. fst q \<in> page_span va vend) \<and>
      (rc = 0 \<longrightarrow> (\<forall>p\<in>page_span va vend. \<exists>f. segment_page (phys_mem s0) data h sv p f \<in> Q))"
proof (induction n arbitrary: va V P s)
  case 0
  then have "va = vend" by (simp add: word_unat_eq_iff)
  moreover have "page_span vend vend = {}" by (auto simp: page_span_def)
  ultimately show ?case using "0.prems"(3)
    by (intro exI [of _ s] exI [of _ 0] exI [of _ "{}"]) (simp add: load_pages.simps)
next
  case (Suc n)
  note st = page_span_step [OF Suc.prems(1,2)]
  have lt: "va < vend" using Suc.prems(1) by (simp add: word_less_nat_alt)
  obtain t1 rc1 where lp: "load_page sp data ph sv va s = (t1, rc1)" by fastforce
  have va: "unat va + 4096 < 2 ^ 64" using Suc.prems(1) hi by simp
  have new: "\<forall>q\<in>P. \<not> same_page (fst q) va" using Suc.prems(4) st(1) by blast
  note pg = load_page_image [OF Suc.prems(3) [unfolded root_def] ph [unfolded root_def] h src [unfolded root_def] va seg new lp, folded root_def]
  have un: "load_pages sp data ph sv va vend s =
      (if rc1 \<noteq> 0 then Some (t1, -1) else load_pages sp data ph sv (va + 4096) vend t1)"
    by (subst load_pages.simps) (simp add: lt lp PAGE_SIZE_4K_def)
  show ?case
  proof (cases "rc1 = 0")
    case False
    have "mapped_image s0 root (V \<union> page_span va vend) (P \<union> {}) t1"
      using mapped_image_wider [OF pg(1) [OF False]] by simp
    then show ?thesis unfolding un using False
      by (intro exI [of _ t1] exI [of _ "-1"] exI [of _ "{}"]) simp
  next
    case True
    obtain f where i1: "mapped_image s0 root (insert va V) (insert (segment_page (phys_mem s0) data h sv va f) P) t1"
      using pg(2) [OF True] by blast
    let ?p = "segment_page (phys_mem s0) data h sv va f"
    have apart: "\<not> same_page (fst q) p" if q: "q \<in> insert ?p P" and p: "p \<in> page_span (va + 4096) vend" for q p
    proof (cases "q \<in> P")
      case True
      then show ?thesis using Suc.prems(4) p st(1) by blast
    next
      case False
      then have "fst q = va" using q by (simp add: segment_page_def)
      moreover have "va \<noteq> p" using st(2) p by blast
      moreover have "va \<in> page_span va vend" using st(1) by blast
      ultimately show ?thesis using page_span_apart [OF _ p hi hi] by simp
    qed
    have nx: "unat vend = unat (va + 4096) + 4096 * n" "unat (va + 4096) mod 4096 = 0"
      using Suc.prems(1,2) st(3) by (simp_all add: mod_add_eq)
    have ap: "\<forall>q\<in>insert ?p P. \<forall>p\<in>page_span (va + 4096) vend. \<not> same_page (fst q) p" using apart by blast
    note ih = Suc.IH [OF nx i1 ap]
    obtain t rc Q where r: "load_pages sp data ph sv (va + 4096) vend t1 = Some (t, rc)" "rc = 0 \<or> rc = -1"
        "mapped_image s0 root (insert va V \<union> page_span (va + 4096) vend) (insert ?p P \<union> Q) t"
        "\<forall>q\<in>Q. fst q \<in> page_span (va + 4096) vend"
        "rc = 0 \<longrightarrow> (\<forall>p\<in>page_span (va + 4096) vend. \<exists>f. segment_page (phys_mem s0) data h sv p f \<in> Q)"
      using ih by (elim exE conjE) (rule that)
    have "insert va V \<union> page_span (va + 4096) vend = V \<union> page_span va vend" using st(1) by blast
    moreover have "insert ?p P \<union> Q = P \<union> insert ?p Q" by blast
    ultimately have "mapped_image s0 root (V \<union> page_span va vend) (P \<union> insert ?p Q) t" using r(3) by simp
    moreover have "\<forall>q\<in>insert ?p Q. fst q \<in> page_span va vend" using r(4) st(1) by (auto simp: segment_page_def)
    moreover have "rc = 0 \<longrightarrow> (\<forall>p\<in>page_span va vend. \<exists>f. segment_page (phys_mem s0) data h sv p f \<in> insert ?p Q)"
      unfolding st(1) using r(5) by fast
    ultimately show ?thesis unfolding un using r(1,2) True
      by (intro exI [of _ t] exI [of _ rc] exI [of _ "insert ?p Q"]) simp
  qed
qed

text \<open>The pages a segment touches, and the addresses that belong to it.\<close>

definition segment_pages :: "elf64_phdr \<Rightarrow> u64 \<Rightarrow> u64 set" where
  "segment_pages h bias =
     (if p_memsz h = 0 then {}
      else page_span ((p_vaddr h + bias) AND NOT 0xFFF) ((p_vaddr h + bias + p_memsz h + 0xFFF) AND NOT 0xFFF))"

definition segment_low :: "elf64_phdr \<Rightarrow> u64 \<Rightarrow> bool" where
  "segment_low h bias \<longleftrightarrow> unat (p_vaddr h) + unat bias + unat (p_memsz h) \<le> 2 ^ 47"

definition in_segment :: "elf64_phdr \<Rightarrow> u64 \<Rightarrow> u64 \<Rightarrow> bool" where
  "in_segment h bias v \<longleftrightarrow> v - (p_vaddr h + bias) < p_memsz h"

lemma segment_low_unat:
  assumes "segment_low h bias"
  shows "unat (p_vaddr h + bias) = unat (p_vaddr h) + unat bias"
    and "unat ((p_vaddr h + bias) AND NOT 0xFFF) = (unat (p_vaddr h) + unat bias) div 4096 * 4096"
    and "unat ((p_vaddr h + bias + p_memsz h + 0xFFF) AND NOT 0xFFF) =
      (unat (p_vaddr h) + unat bias + unat (p_memsz h) + 4095) div 4096 * 4096"
    and "unat ((p_vaddr h + bias + p_memsz h + 0xFFF) AND NOT 0xFFF) \<le> 2 ^ 48"
proof -
  let ?S = "unat (p_vaddr h) + unat bias" and ?M = "unat (p_memsz h)"
  have le: "?S + ?M \<le> 2 ^ 47" using assms by (simp add: segment_low_def)
  show u: "unat (p_vaddr h + bias) = ?S" using le by (simp add: unat_word_ariths)
  show "unat ((p_vaddr h + bias) AND NOT 0xFFF) = ?S div 4096 * 4096" unfolding unat_page_base u by (rule refl)
  have "unat (p_vaddr h + bias + p_memsz h) = ?S + ?M" unfolding unat_word_ariths(1) [of "p_vaddr h + bias"] u using le by simp
  then have e: "unat (p_vaddr h + bias + p_memsz h + 0xFFF) = ?S + ?M + 4095"
    unfolding unat_word_ariths(1) [of "p_vaddr h + bias + p_memsz h"] using le by simp
  show "unat ((p_vaddr h + bias + p_memsz h + 0xFFF) AND NOT 0xFFF) = (?S + ?M + 4095) div 4096 * 4096"
    unfolding unat_page_base e by (rule refl)
  have "(?S + ?M + 4095) div 4096 * 4096 \<le> ?S + ?M + 4095" by simp
  then show "unat ((p_vaddr h + bias + p_memsz h + 0xFFF) AND NOT 0xFFF) \<le> 2 ^ 48"
    unfolding unat_page_base e by (rule order_trans) (use le in simp)
qed

lemma in_segment_iff:
  assumes "segment_low h bias"
  shows "in_segment h bias v \<longleftrightarrow>
    unat (p_vaddr h) + unat bias \<le> unat v \<and> unat v < unat (p_vaddr h) + unat bias + unat (p_memsz h)"
  unfolding in_segment_def using range_iff [of "p_vaddr h + bias" "p_memsz h" v] segment_low_unat(1) [OF assms] assms
  by (simp add: segment_low_def)

lemma in_segment_page:
  assumes "segment_low h bias" and "in_segment h bias v"
  shows "v AND NOT 0xFFF \<in> segment_pages h bias"
proof -
  let ?S = "unat (p_vaddr h) + unat bias" and ?M = "unat (p_memsz h)"
  have v: "?S \<le> unat v" "unat v < ?S + ?M" using assms(2) in_segment_iff [OF assms(1)] by blast+
  have "?S div 4096 * 4096 \<le> unat v div 4096 * 4096" using v(1) by (simp add: div_le_mono)
  moreover have "unat v div 4096 * 4096 < (?S + ?M + 4095) div 4096 * 4096"
  proof -
    have "unat v div 4096 + 1 = (unat v + 4096) div 4096" by simp
    also have "\<dots> \<le> (?S + ?M + 4095) div 4096" using v(2) by (intro div_le_mono) linarith
    finally show ?thesis by simp
  qed
  moreover have "p_memsz h \<noteq> 0" using v by auto
  ultimately show ?thesis
    unfolding segment_pages_def if_not_P [OF \<open>p_memsz h \<noteq> 0\<close>] page_span_iff
    unfolding segment_low_unat(2,3) [OF assms(1)]
    unfolding unat_page_base by simp
qed

lemma round_up_ge: "k \<le> (k + 4095) div 4096 * 4096" for k :: nat
  using div_mult_mod_eq [of "k + 4095" 4096] mod_less_divisor [of 4096 "k + 4095"] by linarith

text \<open>What loading a segment adds to the image: all its pages, and nothing elsewhere.\<close>

definition segment_loaded :: "memory \<Rightarrow> u64 \<Rightarrow> u64 \<Rightarrow> u64 \<Rightarrow> elf64_phdr \<Rightarrow> page_image set \<Rightarrow> bool" where
  "segment_loaded m data sz bias h P \<longleftrightarrow>
     p_filesz h \<le> p_memsz h \<and> unat (p_offset h) + unat (p_filesz h) \<le> unat sz \<and>
     (\<forall>p\<in>segment_pages h bias. \<exists>f. segment_page m data h (p_vaddr h + bias) p f \<in> P)"

lemma load_segment_image:
  fixes s :: "'a vmm_state_scheme" and sp :: u64
  defines "root \<equiv> space_pml4 sp"
  assumes dat: "apart_from s0 root data sz" and ph: "apart_from s0 root ph 56" and h: "h = elf64_phdr_at (phys_mem s0) ph"
    and low: "segment_low h bias" and i: "mapped_image s0 root V P s"
    and new: "\<forall>q\<in>P. \<forall>p\<in>segment_pages h bias. \<not> same_page (fst q) p"
  shows "\<exists>t rc Q. load_segment sp data sz ph bias s = Some (t, rc) \<and> (rc = 0 \<or> rc = -1) \<and>
      mapped_image s0 root (V \<union> segment_pages h bias) (P \<union> Q) t \<and> (\<forall>q\<in>Q. fst q \<in> segment_pages h bias) \<and>
      (rc = 0 \<longrightarrow> segment_loaded (phys_mem s0) data sz bias h Q)"
proof -
  have hdr: "elf64_phdr_at (phys_mem s) ph = h"
    unfolding h by (rule elf64_phdr_at_cong) (rule mapped_image_apart [OF i ph])
  have same: "\<exists>t rc Q. Some (s, rc0) = Some (t, rc) \<and> (rc = 0 \<or> rc = -1) \<and>
      mapped_image s0 root (V \<union> segment_pages h bias) (P \<union> Q) t \<and> (\<forall>q\<in>Q. fst q \<in> segment_pages h bias) \<and>
      (rc = 0 \<longrightarrow> segment_loaded (phys_mem s0) data sz bias h Q)"
    if "rc0 = -1 \<or> rc0 = 0 \<and> segment_loaded (phys_mem s0) data sz bias h {}" for rc0 :: int
    using mapped_image_wider [OF i, of "V \<union> segment_pages h bias"] that
    by (intro exI [of _ s] exI [of _ rc0] exI [of _ "{}"]) auto
  let ?bad = "p_filesz h > p_memsz h \<or> p_offset h > sz \<or> p_filesz h > sz - p_offset h"
  let ?sv = "p_vaddr h + bias"
  let ?lo = "?sv AND NOT 0xFFF" and ?hi = "(?sv + p_memsz h + 0xFFF) AND NOT 0xFFF"
  note u = segment_low_unat [OF low]
  have wrap: "\<not> ?sv < p_vaddr h" using u(1) by (simp add: word_less_nat_alt)
  have "unat ?sv \<le> unat ?hi"
    unfolding u(1,3) using round_up_ge [of "unat (p_vaddr h) + unat bias + unat (p_memsz h)"] by linarith
  then have hiw: "\<not> ?hi < ?sv" by (simp add: word_less_nat_alt)
  have mask: "(4096 - 1 :: u64) = 0xFFF" by simp
  have assoc: "?sv + p_memsz h + 4096 - 1 = ?sv + p_memsz h + 0xFFF" by simp
  have unfolded: "load_segment sp data sz ph bias s =
      (if ?bad then Some (s, -1) else if p_memsz h = 0 then Some (s, 0) else load_pages sp data ph ?sv ?lo ?hi s)"
    unfolding load_segment_def hdr Let_def PAGE_SIZE_4K_def mask assoc using wrap hiw by simp
  show ?thesis
  proof (cases ?bad)
    case True
    show ?thesis unfolding unfolded if_P [OF True] by (rule same) simp
  next
    case ok: False
    have off: "unat (p_offset h) + unat (p_filesz h) \<le> unat sz"
      using ok unat_sub [of "p_offset h" sz] by (auto simp: not_less word_le_nat_alt)
    have le: "p_filesz h \<le> p_memsz h" using ok by (simp add: not_less)
    show ?thesis
    proof (cases "p_memsz h = 0")
      case True
      then have "segment_loaded (phys_mem s0) data sz bias h {}" using le off by (simp add: segment_loaded_def segment_pages_def)
      then show ?thesis unfolding unfolded if_not_P [OF ok] if_P [OF True] by (intro same) simp
    next
      case False
      have pages: "segment_pages h bias = page_span ?lo ?hi" using False by (simp add: segment_pages_def)
      have src: "apart_from s0 root (data + p_offset h) (p_filesz h)" by (rule apart_from_part [OF dat off])
      have fl: "unat ?sv + unat (p_filesz h) < 2 ^ 64" unfolding u(1) using low ok
        by (simp add: segment_low_def not_less word_le_nat_alt)
      have m0: "unat ?lo mod 4096 = 0" unfolding u(2) by simp
      have "unat ?lo \<le> unat ?hi" unfolding u(2,3) by (intro mult_le_mono1 div_le_mono) simp
      moreover have "4096 dvd unat ?hi - unat ?lo" unfolding u(2,3) by (simp add: left_diff_distrib [symmetric])
      ultimately have n: "unat ?hi = unat ?lo + 4096 * ((unat ?hi - unat ?lo) div 4096)" by simp
      note lp = load_pages_image [OF ph [unfolded root_def] h src [unfolded root_def] u(4) fl n m0 i [unfolded root_def] new [unfolded pages], folded root_def pages]
      obtain t rc Q where "load_pages sp data ph ?sv ?lo ?hi s = Some (t, rc)" "rc = 0 \<or> rc = -1"
          "mapped_image s0 root (V \<union> segment_pages h bias) (P \<union> Q) t" "\<forall>q\<in>Q. fst q \<in> segment_pages h bias"
          "rc = 0 \<longrightarrow> (\<forall>p\<in>segment_pages h bias. \<exists>f. segment_page (phys_mem s0) data h ?sv p f \<in> Q)"
        using lp by (elim exE conjE) (rule that)
      then show ?thesis unfolding unfolded if_not_P [OF ok] if_not_P [OF False] segment_loaded_def using ok off
        by (intro exI [of _ t] exI [of _ rc] exI [of _ Q]) (simp add: not_less)
    qed
  qed
qed

text \<open>The \<open>PT_LOAD\<close> headers of an image.\<close>

definition load_header :: "memory \<Rightarrow> u64 \<Rightarrow> u16 \<Rightarrow> elf64_phdr \<Rightarrow> bool" where
  "load_header m data i h \<longleftrightarrow> i < e_phnum (elf64_ehdr_at m data) \<and>
     h = elf64_phdr_at m (phdr_address data (elf64_ehdr_at m data) i) \<and> p_type h = PT_LOAD"

definition all_segment_pages :: "memory \<Rightarrow> u64 \<Rightarrow> u64 \<Rightarrow> u64 set" where
  "all_segment_pages m data bias = (\<Union>{segment_pages h bias | i h. load_header m data i h})"

lemma load_segments_image:
  fixes s :: "'a vmm_state_scheme" and sp :: u64
  defines "root \<equiv> space_pml4 sp"
  assumes eh: "apart_from s0 root data 64" and dat: "apart_from s0 root data sz"
    and ph: "\<And>i h. load_header (phys_mem s0) data i h \<Longrightarrow> segment_low h bias"
    and pa: "\<And>i. i < e_phnum (elf64_ehdr_at (phys_mem s0) data) \<Longrightarrow>
      apart_from s0 root (phdr_address data (elf64_ehdr_at (phys_mem s0) data) i) 56"
    and dj: "\<And>i h j h'. load_header (phys_mem s0) data i h \<Longrightarrow> load_header (phys_mem s0) data j h' \<Longrightarrow> i \<noteq> j \<Longrightarrow>
      segment_pages h bias \<inter> segment_pages h' bias = {}"
  shows "mapped_image s0 root (all_segment_pages (phys_mem s0) data bias) P s \<Longrightarrow>
    \<forall>q\<in>P. \<exists>j h. j < i \<and> load_header (phys_mem s0) data j h \<and> fst q \<in> segment_pages h bias \<Longrightarrow>
    \<exists>t rc Q. load_segments sp data sz bias i s = Some (t, rc) \<and> (rc = 0 \<or> rc = -1) \<and>
      mapped_image s0 root (all_segment_pages (phys_mem s0) data bias) (P \<union> Q) t \<and>
      (rc = 0 \<longrightarrow> (\<forall>j h. i \<le> j \<and> load_header (phys_mem s0) data j h \<longrightarrow> segment_loaded (phys_mem s0) data sz bias h Q))"
proof (induction "unat (e_phnum (elf64_ehdr_at (phys_mem s0) data)) - unat i" arbitrary: i P s rule: less_induct)
  case less
  let ?eh = "elf64_ehdr_at (phys_mem s0) data" and ?V = "all_segment_pages (phys_mem s0) data bias"
  let ?h = "elf64_phdr_at (phys_mem s0) (phdr_address data ?eh i)"
  have hdr: "elf64_ehdr_at (phys_mem s) data = ?eh"
    by (rule elf64_ehdr_at_cong) (rule mapped_image_apart [OF less.prems(1) eh])
  show ?case
  proof (cases "i < e_phnum ?eh")
    case False
    then have "load_segments sp data sz bias i s = Some (s, 0)" by (subst load_segments.simps) (simp add: hdr)
    moreover have "\<not> (i \<le> j \<and> load_header (phys_mem s0) data j h)" for j h using False by (auto simp: load_header_def)
    ultimately show ?thesis using less.prems(1) by (intro exI [of _ s] exI [of _ 0] exI [of _ "{}"]) auto
  next
    case i: True
    have phr: "elf64_phdr_at (phys_mem s) (phdr_address data ?eh i) = ?h"
      by (rule elf64_phdr_at_cong) (rule mapped_image_apart [OF less.prems(1) pa [OF i]])
    have un: "load_segments sp data sz bias i s =
        (if p_type ?h \<noteq> PT_LOAD then load_segments sp data sz bias (i + 1) s
         else case load_segment sp data sz (phdr_address data ?eh i) bias s of None \<Rightarrow> None
           | Some (s, rc) \<Rightarrow> if rc \<noteq> 0 then Some (s, -1) else load_segments sp data sz bias (i + 1) s)"
      by (subst load_segments.simps) (simp add: hdr i phr Let_def)
    have dec: "unat (e_phnum ?eh) - unat (i + 1) < unat (e_phnum ?eh) - unat i"
      using i unat_plus_one_less [OF i] by (simp add: word_less_nat_alt)
    have next_iff: "i + 1 \<le> j \<longleftrightarrow> i < j" for j by (rule plus_one_le_iff [OF i])
    have below: "\<exists>j h. j < i + 1 \<and> load_header (phys_mem s0) data j h \<and> fst q \<in> segment_pages h bias" if "q \<in> P" for q
      using less.prems(2) that less_plus_one_iff [OF i] by blast
    show ?thesis
    proof (cases "p_type ?h = PT_LOAD")
      case False
      have "\<forall>q\<in>P. \<exists>j h. j < i + 1 \<and> load_header (phys_mem s0) data j h \<and> fst q \<in> segment_pages h bias" using below by blast
      note ih = less.hyps [OF dec less.prems(1) this]
      have "\<not> load_header (phys_mem s0) data i h" for h using False by (simp add: load_header_def)
      then have "i \<le> j \<and> load_header (phys_mem s0) data j h \<longleftrightarrow> i + 1 \<le> j \<and> load_header (phys_mem s0) data j h" for j h
        unfolding next_iff by (metis order_le_less)
      then show ?thesis using ih un False by simp
    next
      case True
      have lh: "load_header (phys_mem s0) data i ?h" using i True by (simp add: load_header_def)
      have sub: "segment_pages ?h bias \<subseteq> ?V" using lh unfolding all_segment_pages_def by blast
      have lowpage: "x \<in> segment_pages h bias \<Longrightarrow> y \<in> segment_pages h' bias \<Longrightarrow> x \<noteq> y \<Longrightarrow> \<not> same_page x y"
        if "segment_low h bias" "segment_low h' bias" for x y h h'
        using page_span_apart segment_low_unat(4) that unfolding segment_pages_def by (metis empty_iff)
      have new: "\<forall>q\<in>P. \<forall>p\<in>segment_pages ?h bias. \<not> same_page (fst q) p"
      proof (intro ballI)
        fix q p
        assume q: "q \<in> P" and p: "p \<in> segment_pages ?h bias"
        obtain j h where j: "j < i" "load_header (phys_mem s0) data j h" "fst q \<in> segment_pages h bias"
          using less.prems(2) q by blast
        have "fst q \<noteq> p" using dj [OF j(2) lh] j(1,3) p by auto
        then show "\<not> same_page (fst q) p" using lowpage [OF ph [OF j(2)] ph [OF lh] j(3) p] by blast
      qed
      note ls = load_segment_image [OF dat [unfolded root_def] pa [OF i, unfolded root_def] refl ph [OF lh] less.prems(1) [unfolded root_def] new, folded root_def]
      obtain t1 rc1 Q1 where r: "load_segment sp data sz (phdr_address data ?eh i) bias s = Some (t1, rc1)" "rc1 = 0 \<or> rc1 = -1"
          "mapped_image s0 root (?V \<union> segment_pages ?h bias) (P \<union> Q1) t1" "\<forall>q\<in>Q1. fst q \<in> segment_pages ?h bias"
          "rc1 = 0 \<longrightarrow> segment_loaded (phys_mem s0) data sz bias ?h Q1"
        using ls by (elim exE conjE) (rule that)
      have m1: "mapped_image s0 root ?V (P \<union> Q1) t1" using r(3) sub by (simp add: Un_absorb2)
      show ?thesis
      proof (cases "rc1 = 0")
        case False
        then show ?thesis using un True r(1,2) m1
          by (intro exI [of _ t1] exI [of _ rc1] exI [of _ Q1]) simp
      next
        case rc: True
        have "\<forall>q\<in>P \<union> Q1. \<exists>j h. j < i + 1 \<and> load_header (phys_mem s0) data j h \<and> fst q \<in> segment_pages h bias"
          using below r(4) lh less_plus_one_iff [OF i] by blast
        note ih = less.hyps [OF dec m1 this]
        obtain t rc Q where q: "load_segments sp data sz bias (i + 1) t1 = Some (t, rc)" "rc = 0 \<or> rc = -1"
            "mapped_image s0 root ?V (P \<union> Q1 \<union> Q) t"
            "rc = 0 \<longrightarrow> (\<forall>j h. i + 1 \<le> j \<and> load_header (phys_mem s0) data j h \<longrightarrow> segment_loaded (phys_mem s0) data sz bias h Q)"
          using ih by (elim exE conjE) (rule that)
        have "segment_loaded (phys_mem s0) data sz bias h (Q1 \<union> Q)"
          if "rc = 0" "i \<le> j" "load_header (phys_mem s0) data j h" for j h
        proof (cases "i = j")
          case True
          then have "h = ?h" using that(3) by (simp add: load_header_def)
          then show ?thesis using r(5) rc unfolding segment_loaded_def by blast
        next
          case False
          then have "i + 1 \<le> j" using that(2) next_iff by simp
          then show ?thesis using q(4) that unfolding segment_loaded_def by blast
        qed
        then show ?thesis using un True r(1) rc q(1,2,3)
          by (intro exI [of _ t] exI [of _ rc] exI [of _ "Q1 \<union> Q"]) (auto simp: Un_assoc)
      qed
    qed
  qed
qed

lemma entry_is_executable_fromD:
  "entry_is_executable_from eh m data i \<Longrightarrow> \<exists>j h. j < e_phnum eh \<and> h = elf64_phdr_at m (phdr_address data eh j) \<and>
     p_type h = PT_LOAD \<and> p_flags h AND PF_X \<noteq> 0 \<and> e_entry eh - p_vaddr h < p_memsz h"
proof (induction eh m data i rule: entry_is_executable_from.induct)
  case (1 eh m data i)
  let ?h = "elf64_phdr_at m (phdr_address data eh i)"
  have inside: "e_entry eh - p_vaddr ?h < p_memsz ?h"
    if "\<not> p_vaddr ?h + p_memsz ?h < p_vaddr ?h" "p_vaddr ?h \<le> e_entry eh" "e_entry eh < p_vaddr ?h + p_memsz ?h"
    using that by (simp add: word_less_sub_right)
  show ?case using "1.prems" "1.IH" inside
    by (subst (asm) entry_is_executable_from.simps) (auto simp: Let_def not_less split: if_splits)
qed

lemma unat_ucast_16_64 [simp]: "unat (ucast i :: u64) = unat i" for i :: u16
  by (simp add: unsigned_ucast_eq) (use unsigned_less [of i, where ?'a = nat] in \<open>simp add: take_bit_nat_eq_self\<close>)

text \<open>The program headers of an image that passes the checks lie within it.\<close>

lemma phdr_in_image:
  assumes "apart_from s root data sz" and "e_phoff eh \<le> sz" and "ucast (e_phentsize eh) = sizeof_phdr"
    and "ucast (e_phnum eh) \<le> (sz - e_phoff eh) div ucast (e_phentsize eh)" and "i < e_phnum eh"
  shows "apart_from s root (phdr_address data eh i) 56"
proof -
  have n: "unat (e_phnum eh) * 56 \<le> unat sz - unat (e_phoff eh)"
  proof -
    have "unat (ucast (e_phnum eh) :: u64) \<le> unat ((sz - e_phoff eh) div 56)"
      using assms(3,4) by (simp add: sizeof_phdr_def word_le_nat_alt)
    also have "\<dots> = (unat sz - unat (e_phoff eh)) div 56" using assms(2) by (simp add: unat_div unat_sub)
    finally have "unat (e_phnum eh) \<le> (unat sz - unat (e_phoff eh)) div 56" by simp
    then have "unat (e_phnum eh) * 56 \<le> (unat sz - unat (e_phoff eh)) div 56 * 56" by simp
    then show ?thesis by (rule order_trans) simp
  qed
  have i: "unat i * 56 + 56 \<le> unat (e_phnum eh) * 56" using assms(5) by (simp add: word_less_nat_alt)
  have "unat (e_phoff eh) \<le> unat sz" using assms(2) by (simp add: word_le_nat_alt)
  then have b: "unat (e_phoff eh) + unat i * 56 + 56 \<le> unat sz" using n i by linarith
  have "unat (ucast i * 56 :: u64) = unat i * 56" using b unsigned_less [of sz, where ?'a = nat] by (simp add: unat_word_ariths)
  then have "unat (e_phoff eh + ucast i * 56) = unat (e_phoff eh) + unat i * 56"
    using b unsigned_less [of sz, where ?'a = nat] by (simp add: unat_word_ariths)
  then have "apart_from s root (data + (e_phoff eh + ucast i * 56)) 56" by (intro apart_from_part [OF assms(1)]) (use b in simp)
  then show ?thesis using assms(3) by (simp add: phdr_address_def sizeof_phdr_def add.assoc)
qed

text \<open>What a page of the finished image means for the addresses in it.\<close>

lemma segment_loaded_byte:
  fixes t :: "'a vmm_state_scheme"
  assumes i: "mapped_image s (space_pml4 sp) V P t" and l: "segment_loaded m data sz bias h P"
    and low: "segment_low h bias" and v: "in_segment h bias v"
  shows "\<exists>a. walk (phys_mem t) (space_pml4 sp) v = Some (a, bit (p_flags h) 1) \<and>
    vmm_is_user_accessible_in sp v (phys_mem t) \<and> phys_mem t a = segment_byte m data h (p_vaddr h + bias) v"
proof -
  let ?p = "v AND NOT 0xFFF" and ?o = "v AND 0xFFF"
  obtain f where f: "segment_page m data h (p_vaddr h + bias) ?p f \<in> P"
    using l in_segment_page [OF low v] unfolding segment_loaded_def by blast
  note d = mapped_imageD [OF i] and g = f [unfolded segment_page_def]
  have "same_page ?p v" using same_page_of_page [of ?p v] by (simp add: same_page_def)
  then have up: "user_page (phys_mem t) (space_pml4 sp) v f (bit (p_flags h) 1)" using d(10) [OF g] user_page_same by blast
  have fb: "f < PMM_MAX_FRAMES" by (rule free_set_below [OF d(7) [OF g]])
  have "unat ?o < 4096" unfolding unat_page_offset by simp
  then have "(f * PMM_FRAME_SIZE + ?o) - f * PMM_FRAME_SIZE < 4096" by (simp add: word_less_nat_alt)
  then have "frame_of (f * PMM_FRAME_SIZE + ?o) = f" using in_frame_iff [OF fb] by blast
  then have "phys_mem t (f * PMM_FRAME_SIZE + ?o) = segment_byte m data h (p_vaddr h + bias) (?p + ?o)"
    using d(11) [OF g] by simp
  then show ?thesis using user_page_walk [OF up] user_page_accessible [OF up] unfolding page_base_plus by blast
qed

section \<open>Properties\<close>


text \<open>
  A program of one page (two instructions, then zeros) as an image of 124 bytes at \<open>0x30000\<close>, to be
  loaded into a space with an empty PML4 in frame 16, with the frames 17, 18, 20, 21 and 22 free.
\<close>

definition elf_example_image :: "u8 list" where
  "elf_example_image =
     [127, 69, 76, 70, 2, 1, 1, 0, 0, 0, 0, 0, 0, 0, 0, 0, 2, 0, 62, 0, 1, 0, 0, 0,
      0, 0, 64, 0, 0, 0, 0, 0, 64, 0, 0, 0, 0, 0, 0, 0, 0, 0, 0, 0, 0, 0, 0, 0,
      0, 0, 0, 0, 64, 0, 56, 0, 1, 0, 0, 0, 0, 0, 0, 0, 1, 0, 0, 0, 5, 0, 0, 0,
      120, 0, 0, 0, 0, 0, 0, 0, 0, 0, 64, 0, 0, 0, 0, 0, 0, 0, 64, 0, 0, 0, 0, 0,
      4, 0, 0, 0, 0, 0, 0, 0, 8, 0, 0, 0, 0, 0, 0, 0, 0, 16, 0, 0, 0, 0, 0, 0,
      49, 192, 235, 254]"

definition elf_example :: vmm_state where
  "elf_example = set_free 22 (set_free 21 (vmm_example\<lparr>phys_mem :=
     \<lambda>x. if x - 0x30000 < 124 then elf_example_image ! unat (x - 0x30000) else 0\<rparr>))"

definition elf_example_phdr :: elf64_phdr where
  "elf_example_phdr =
     \<lparr>p_type = 1, p_flags = 5, p_offset = 120, p_vaddr = 0x400000, p_paddr = 0x400000, p_filesz = 4, p_memsz = 8, p_align = 0x1000\<rparr>"

lemma elf_example_mem:
  "phys_mem elf_example = (\<lambda>x. if x - 0x30000 < 124 then elf_example_image ! unat (x - 0x30000) else 0)"
  by (simp add: elf_example_def)

lemma elf_example_phnum: "e_phnum (elf64_ehdr_at (phys_mem elf_example) 0x30000) = 1"
  and elf_example_phaddr: "phdr_address 0x30000 (elf64_ehdr_at (phys_mem elf_example) 0x30000) 0 = 0x30040"
  by (simp_all add: elf_example_mem elf_example_image_def elf64_ehdr_at_def rd16_def rd64_def phdr_address_def)

lemma elf_example_header: "elf64_phdr_at (phys_mem elf_example) 0x30040 = elf_example_phdr"
  by (simp add: elf_example_mem elf_example_image_def elf64_phdr_at_def rd32_def rd64_def elf_example_phdr_def)

lemma elf_example_load_header: "load_header (phys_mem elf_example) 0x30000 i h \<longleftrightarrow> i = 0 \<and> h = elf_example_phdr"
proof -
  have "i < 1 \<longleftrightarrow> i = 0" by (simp add: word_less_nat_alt word_unat_eq_iff)
  then show ?thesis unfolding load_header_def elf_example_phnum
    using elf_example_phaddr elf_example_header by (auto simp: elf_example_phdr_def PT_LOAD_def)
qed

lemma elf_example_free: "free_set elf_example = {17, 18, 20, 21, 22}"
  by (auto simp: elf_example_def vmm_example_free PMM_MAX_FRAMES_eq)

lemma elf_example_pmm_ok: "pmm_ok elf_example"
proof -
  have "pmm_inv (vmm_example\<lparr>phys_mem := m\<rparr>)" for m
    using vmm_example_pmm_ok pmm_ok_cong [of "vmm_example\<lparr>phys_mem := m\<rparr>" vmm_example] by (simp add: pmm_ok_def)
  then have "pmm_inv elf_example" unfolding elf_example_def by (intro inv_intros)
  then show ?thesis by (simp add: pmm_ok_def elf_example_free)
qed

lemma empty_root: "tbl (\<lambda>_. 0) 4 r p = (if p = [] then Some r else None)" "look (\<lambda>_. 0) 4 r p = None"
proof -
  have zero: "entry (\<lambda>_. 0) t i = 0" for t i by (simp add: entry_def rd64_def)
  show "tbl (\<lambda>_. 0) 4 r p = (if p = [] then Some r else None)" by (cases p) (simp_all add: zero is_tbl_def)
  show "look (\<lambda>_. 0) 4 r p = None" by (cases p) (simp_all add: zero)
qed

lemma elf_example_tables: "table_frames (phys_mem elf_example) 0x10000 = {16}" "space_ok elf_example 0x10000"
proof -
  let ?s = "elf_example\<lparr>phys_mem := \<lambda>_. 0\<rparr>"
  have root: "frame_of 0x10000 = 16" "page_addr 0x10000"
    by (simp_all add: frame_of_def PMM_FRAME_SIZE_def page_addr_def PAGE_ADDR_MASK_def)
  have "table_frames (\<lambda>_. 0) 0x10000 = {frame_of 0x10000}" unfolding table_frames_def empty_root by auto
  then have tf: "table_frames (\<lambda>_. 0) 0x10000 = {16}" unfolding root(1) .
  have ok: "space_ok ?s 0x10000" unfolding space_ok_def using root by (simp add: empty_root elf_example_free)
  have m: "phys_mem elf_example x = phys_mem ?s x" if "frame_of x \<in> table_frames (phys_mem ?s) 0x10000" for x
  proof -
    have "unat (frame_of x) = 16" using that tf by simp
    then have "unat x div 4096 = 16" unfolding unat_frame_of .
    then have "\<not> x - 0x30000 < 124" using range_iff [of "0x30000" 124 x] by auto
    then show ?thesis by (simp add: elf_example_mem)
  qed
  have "free_set elf_example \<subseteq> free_set ?s" using free_set_cong [of elf_example ?s] by simp
  note o = outside_tables [OF ok m this]
  show "table_frames (phys_mem elf_example) 0x10000 = {16}" using o(2) tf by simp
  show "space_ok elf_example 0x10000" by (rule o(1))
qed


end
