(* ===== verification/Process.thy ===== *)
theory Process
  imports Fd Elf
begin

text \<open>
  Processes (\<open>kernel/core/process.c\<close>) and the operations of \<open>kernel/sched/thread.c\<close> that end a
  thread: spawning a program from the boot file system, the start of a process in its own address
  space, exit, kill, wait and the reclaiming of what a dead thread held. The calls between the two
  files run in both directions, so they are one component here. Pointers to table entries are
  indices into the list \<open>processes\<close>. Blocking calls stand for one round up to the sleep.
\<close>

section \<open>The process table\<close>

datatype process_state = PROCESS_UNUSED | PROCESS_STARTING | PROCESS_RUNNING | PROCESS_EXITED

record process =
  pr_pid :: int
  pr_tid :: int
  pr_parent_pid :: int
  pr_exit_status :: int
  pr_state :: process_state
  pr_address_space :: u64

record proc_state = keyboard_state +
  processes :: "process list"
  next_pid :: int

definition PROCESS_MAX :: nat where "PROCESS_MAX = 64"
definition USER_PML4_SLOT_BASE :: u64 where "USER_PML4_SLOT_BASE = 0x0000008000000000"
definition USER_PROCESS_SLOT_SIZE :: u64 where "USER_PROCESS_SLOT_SIZE = 16 * 1024 * 1024"
definition USER_IMAGE_LINK_BASE :: u64 where "USER_IMAGE_LINK_BASE = 0x400000"
definition USER_STACK_MAX_SIZE :: u64 where "USER_STACK_MAX_SIZE = 1024 * 1024"
definition USER_ARGV_RESERVED :: u64 where "USER_ARGV_RESERVED = 128"

definition find_process :: "int \<Rightarrow> 'a proc_state_scheme \<Rightarrow> nat option" where
  "find_process pid s = first_index (\<lambda>p. pr_state p \<noteq> PROCESS_UNUSED \<and> pr_pid p = pid) (processes s)"

definition find_process_by_tid :: "int \<Rightarrow> 'a proc_state_scheme \<Rightarrow> nat option" where
  "find_process_by_tid tid s = first_index (\<lambda>p. pr_state p \<noteq> PROCESS_UNUSED \<and> pr_tid p = tid) (processes s)"

definition current_pid :: "'a proc_state_scheme \<Rightarrow> int" where
  "current_pid s = (case find_process_by_tid (sched_current_tid s) s of None \<Rightarrow> 0 | Some i \<Rightarrow> pr_pid (processes s ! i))"

definition upd_process :: "nat \<Rightarrow> (process \<Rightarrow> process) \<Rightarrow> 'a proc_state_scheme \<Rightarrow> 'a proc_state_scheme" where
  "upd_process i f s = s\<lparr>processes := (processes s)[i := f (processes s ! i)]\<rparr>"

text \<open>\<open>next_pid++\<close> on a 32-bit \<open>int\<close>; the code expects the counter to wrap to a negative number.\<close>

definition inc_int :: "int \<Rightarrow> int" where
  "inc_int n = sint (word_of_int (n + 1) :: 32 word)"

definition reserve_process :: "'a proc_state_scheme \<Rightarrow> 'a proc_state_scheme \<times> int option" where
  "reserve_process s =
     (case first_index (\<lambda>p. \<not> pr_state p \<noteq> PROCESS_UNUSED) (processes s) of
        None \<Rightarrow> (s, None)
      | Some i \<Rightarrow>
          let pid = next_pid s;
              s = s\<lparr>next_pid := inc_int (next_pid s)\<rparr>;
              s = (if next_pid s \<le> 0 then s\<lparr>next_pid := 1\<rparr> else s)
          in (upd_process i (\<lambda>p. p\<lparr>pr_pid := pid, pr_tid := -1, pr_parent_pid := current_pid s, pr_exit_status := -1,
                pr_state := PROCESS_STARTING, pr_address_space := 0\<rparr>) s, Some pid))"

definition release_process :: "int \<Rightarrow> 'a proc_state_scheme \<Rightarrow> 'a proc_state_scheme" where
  "release_process pid s =
     (case find_process pid s of None \<Rightarrow> s
      | Some i \<Rightarrow> upd_process i (\<lambda>p. p\<lparr>pr_pid := 0, pr_tid := -1, pr_parent_pid := 0, pr_exit_status := 0,
          pr_state := PROCESS_UNUSED, pr_address_space := 0\<rparr>) s)"

section \<open>Exit, kill and wait\<close>

definition process_mark_exited :: "int \<Rightarrow> int \<Rightarrow> 'a proc_state_scheme \<Rightarrow> 'a proc_state_scheme" where
  "process_mark_exited tid status s =
     (case find_process_by_tid tid s of None \<Rightarrow> s
      | Some i \<Rightarrow>
          let s = upd_process i (\<lambda>p. p\<lparr>pr_exit_status := status, pr_state := PROCESS_EXITED\<rparr>) s
          in sched_wakeup (word_of_int (pr_pid (processes s ! i))) s)"

text \<open>The result says whether the CPU stays in the halt loop because nothing else can run.\<close>

definition sched_exit_status :: "int \<Rightarrow> 'a proc_state_scheme \<Rightarrow> 'a proc_state_scheme \<times> bool" where
  "sched_exit_status status s =
     (if current_thread s = -1 then (s, False)
      else
        let s = upd_thread (current_thread s) (\<lambda>t. t\<lparr>t_state := THREAD_ZOMBIE\<rparr>) s;
            s = process_mark_exited (current_thread s) status s;
            s = sched_wakeup (word_of_int (current_thread s)) s;
            nxt = find_next_runnable (current_thread s) (threads s)
        in if nxt = current_thread s then (s, True)
           else let s = upd_thread nxt (\<lambda>t. t\<lparr>t_state := THREAD_RUNNING\<rparr>) s;
                    s = activate nxt (s\<lparr>current_thread := nxt\<rparr>)
             in (switch_context None nxt s, False))"

definition sched_exit :: "'a proc_state_scheme \<Rightarrow> 'a proc_state_scheme \<times> bool" where
  "sched_exit s = sched_exit_status (-1) s"

definition process_exit :: "int \<Rightarrow> 'a proc_state_scheme \<Rightarrow> 'a proc_state_scheme \<times> bool" where
  "process_exit status s = sched_exit_status status s"

text \<open>\<open>sched_kill\<close> does not return (\<open>None\<close>) when a thread kills itself.\<close>

definition sched_kill :: "int \<Rightarrow> int \<Rightarrow> 'a proc_state_scheme \<Rightarrow> 'a proc_state_scheme \<times> int option" where
  "sched_kill tid status s =
     (if tid < 0 \<or> tid \<ge> thread_capacity s then (s, Some (-1))
      else if tid = current_thread s then (fst (sched_exit_status status s), None)
      else if t_state (thread_at tid s) = THREAD_UNUSED \<or> t_state (thread_at tid s) = THREAD_ZOMBIE then (s, Some (-1))
      else let s = upd_thread tid (\<lambda>t. t\<lparr>t_state := THREAD_ZOMBIE, t_wait_channel := 0\<rparr>) s
        in (process_mark_exited tid status s, Some 0))"

definition signal_exit_status :: "int \<Rightarrow> int" where
  "signal_exit_status sig = -128 - sig"

definition process_get_tid :: "int \<Rightarrow> 'a proc_state_scheme \<Rightarrow> int" where
  "process_get_tid pid s =
     (case find_process pid s of None \<Rightarrow> -1
      | Some i \<Rightarrow> if pr_state (processes s ! i) \<noteq> PROCESS_EXITED then pr_tid (processes s ! i) else -1)"

definition process_kill :: "int \<Rightarrow> int \<Rightarrow> 'a proc_state_scheme \<Rightarrow> 'a proc_state_scheme \<times> int option" where
  "process_kill pid sig s =
     (let tid = (case find_process pid s of None \<Rightarrow> -1
          | Some i \<Rightarrow> if pr_state (processes s ! i) \<noteq> PROCESS_EXITED then pr_tid (processes s ! i) else -1)
      in if tid < 0 then (s, Some (-1)) else sched_kill tid (signal_exit_status sig) s)"

definition process_reap_thread :: "int \<Rightarrow> u64 \<Rightarrow> 'a proc_state_scheme \<Rightarrow> 'a proc_state_scheme" where
  "process_reap_thread tid sp s =
     (let s = (case find_process_by_tid tid s of None \<Rightarrow> s
            | Some i \<Rightarrow> upd_process i (\<lambda>p. p\<lparr>pr_address_space := 0\<rparr>) s)
      in vmm_destroy_address_space sp s)"

text \<open>The three stages of \<open>reap_zombie\<close>: descriptors, kernel stack, address space; then the slot.\<close>

definition reap_stack :: "int \<Rightarrow> 'a proc_state_scheme \<Rightarrow> 'a proc_state_scheme" where
  "reap_stack tid s =
     (if t_guard_page (thread_at tid s) \<noteq> 0 then
        let s = for_w 0 THREAD_STACK_PAGES (\<lambda>i s. pmm_free_frame (t_stack_low (thread_at tid s) + i * PMM_FRAME_SIZE) s) s;
            s = fst (vmm_map_page (t_guard_page (thread_at tid s)) (t_guard_page (thread_at tid s)) VMM_WRITABLE s)
        in pmm_free_frame (t_guard_page (thread_at tid s)) s
      else s)"

definition reap_space :: "int \<Rightarrow> 'a proc_state_scheme \<Rightarrow> 'a proc_state_scheme option" where
  "reap_space tid s =
     (if t_address_space (thread_at tid s) \<noteq> vmm_kernel_address_space s then do {
        s \<leftarrow> vmm_unregister_growable_stack (t_address_space (thread_at tid s)) s;
        Some (process_reap_thread tid (t_address_space (thread_at tid s)) s)
      }
      else Some s)"

definition reap_zombie :: "int \<Rightarrow> 'a proc_state_scheme \<Rightarrow> 'a proc_state_scheme option" where
  "reap_zombie target_tid s =
     (if target_tid < 0 \<or> target_tid \<ge> thread_capacity s \<or> target_tid = current_thread s \<or>
         t_state (thread_at target_tid s) \<noteq> THREAD_ZOMBIE then Some s
      else do {
        s \<leftarrow> reap_space target_tid (reap_stack target_tid (fd_cleanup_thread target_tid s));
        Some (upd_thread target_tid (\<lambda>t. t\<lparr>t_state := THREAD_UNUSED, t_stack_low := 0, t_guard_page := 0, t_rsp := 0,
          t_address_space := 0, t_wait_channel := 0, t_context := 0, t_fds := map reset_fd_slot (t_fds t)\<rparr>) s)
      })"

definition sched_reap_thread :: "int \<Rightarrow> 'a proc_state_scheme \<Rightarrow> 'a proc_state_scheme option" where
  "sched_reap_thread tid s = reap_zombie tid s"

text \<open>
  One round of \<open>process_wait\<close>: the result code with the status on success, or the sleep on the
  channel of the child (\<open>None\<close> inside). The outer \<open>None\<close> is a \<open>kfree\<close> that does not return.
\<close>

definition process_wait :: "int \<Rightarrow> 'a proc_state_scheme \<Rightarrow> ('a proc_state_scheme \<times> (int \<times> int option) option) option" where
  "process_wait pid s =
     (case find_process pid s of None \<Rightarrow> Some (s, Some (-1, None))
      | Some i \<Rightarrow>
          if pr_parent_pid (processes s ! i) \<noteq> current_pid s then Some (s, Some (-1, None))
          else if pr_state (processes s ! i) = PROCESS_EXITED then
            let status = pr_exit_status (processes s ! i) in do {
              s \<leftarrow> (if pr_tid (processes s ! i) \<ge> 0 then sched_reap_thread (pr_tid (processes s ! i)) s else Some s);
              Some (release_process pid s, Some (0, Some status))
            }
          else Some (fst (sched_sleep (word_of_int pid) s), None))"

section \<open>Starting a process\<close>

definition user_process_layout :: "int \<Rightarrow> (u64 \<times> u64) option" where
  "user_process_layout tid =
     (if tid < 0 then None
      else let slot = word_of_int tid * USER_PROCESS_SLOT_SIZE in
        if slot div USER_PROCESS_SLOT_SIZE \<noteq> word_of_int tid \<or> slot > push_bit 39 1 - USER_PROCESS_SLOT_SIZE then None
        else Some (USER_PML4_SLOT_BASE + slot, USER_PML4_SLOT_BASE + slot + USER_PROCESS_SLOT_SIZE))"

text \<open>Bytes of the memory as a list, and a list of bytes stored there.\<close>

definition load_bytes :: "u64 \<Rightarrow> nat \<Rightarrow> memory \<Rightarrow> u8 list" where
  "load_bytes a n m = map (\<lambda>i. m (a + word_of_nat i)) [0..<n]"

definition store_bytes :: "u64 \<Rightarrow> u8 list \<Rightarrow> memory \<Rightarrow> memory" where
  "store_bytes a bs m = (\<lambda>x. if unat (x - a) < length bs then bs ! unat (x - a) else m x)"

text \<open>The stack top, the user address of the arguments and their length, or \<open>None\<close> for the failure code.\<close>

definition setup_user_stack ::
  "u64 \<Rightarrow> u64 \<Rightarrow> u8 list \<Rightarrow> u64 \<Rightarrow> 'a proc_state_scheme \<Rightarrow> ('a proc_state_scheme \<times> (u64 \<times> u64 \<times> u64) option) option" where
  "setup_user_stack sp stack_ceiling argv_str argv_len s =
     (let first_page = (stack_ceiling - PMM_FRAME_SIZE) AND NOT (PMM_FRAME_SIZE - 1);
          (s, frame) = pmm_alloc_zeroed_frame s
      in if frame = 0 then Some (s, None)
         else let (s, rc) = vmm_map_page_in sp first_page frame (VMM_WRITABLE OR VMM_USER) s in
           if rc \<noteq> 0 then Some (pmm_free_frame frame s, None)
           else do {
             s \<leftarrow> vmm_register_growable_stack sp stack_ceiling USER_STACK_MAX_SIZE s;
             (let argv_len = (if argv_len > USER_ARGV_RESERVED then USER_ARGV_RESERVED else argv_len);
                  argv_page_offset = PMM_FRAME_SIZE - USER_ARGV_RESERVED;
                  s = s\<lparr>phys_mem := store_bytes (frame + argv_page_offset) (take (unat argv_len) argv_str) (phys_mem s)\<rparr>
              in Some (s, Some (stack_ceiling - USER_ARGV_RESERVED, first_page + argv_page_offset, argv_len)))
           })"

text \<open>
  The request that the spawning thread leaves for the new one, \<open>elf_spawn_request_t\<close>: the offsets of
  its fields under the x86-64 ABI, and its size.
\<close>

definition ELF_REQUEST_SIZE :: u64 where "ELF_REQUEST_SIZE = 160"

definition store_request :: "u64 \<Rightarrow> u64 \<Rightarrow> u64 \<Rightarrow> bool \<Rightarrow> u8 list \<Rightarrow> u64 \<Rightarrow> memory \<Rightarrow> memory" where
  "store_request r elf_data elf_size owns_data argv argv_len m =
     store_bytes (r + 20) (take (unat argv_len) argv) (wr64 (r + 152) argv_len
       (wr32 (r + 16) (if owns_data then 1 else 0) (wr64 (r + 8) elf_size (wr64 r elf_data m))))"

text \<open>How the new thread's start ends: in user mode at an entry point, or in \<open>process_exit\<close>.\<close>

datatype process_start = ENTER_USERMODE u64 u64 u64 u64 | EXITED

definition free_if_owned :: "bool \<Rightarrow> u64 \<Rightarrow> 'a proc_state_scheme \<Rightarrow> 'a proc_state_scheme option" where
  "free_if_owned owns_data elf_data s = (if owns_data then kfree elf_data s else Some s)"

definition elf_process_trampoline :: "'a proc_state_scheme \<Rightarrow> ('a proc_state_scheme \<times> process_start) option" where
  "elf_process_trampoline s =
     (let request = sched_current_context s; s = sched_set_current_context 0 s in
      if request = 0 then Some (fst (process_exit (-1) s), EXITED)
      else
        let elf_data = rd64 (phys_mem s) request;
            elf_size = rd64 (phys_mem s) (request + 8);
            owns_data = (rd32 (phys_mem s) (request + 16) \<noteq> 0);
            argv_len = rd64 (phys_mem s) (request + 152);
            argv = load_bytes (request + 20) (unat argv_len) (phys_mem s)
        in do {
          s \<leftarrow> kfree request s;
          (let (s, sp) = vmm_create_address_space s in
           if sp = 0 then do {
             s \<leftarrow> free_if_owned owns_data elf_data s;
             Some (fst (process_exit (-1) s), EXITED)
           }
           else
             let s = sched_set_address_space (sched_current_tid s) sp s;
                 s = (case find_process_by_tid (sched_current_tid s) s of None \<Rightarrow> s
                      | Some i \<Rightarrow> upd_process i (\<lambda>p. p\<lparr>pr_address_space := sp, pr_state := PROCESS_RUNNING\<rparr>) s)
             in case user_process_layout (sched_current_tid s) of
                  None \<Rightarrow> do {
                    s \<leftarrow> free_if_owned owns_data elf_data s;
                    Some (fst (process_exit (-1) s), EXITED)
                  }
                | Some (image_base, stack_ceiling) \<Rightarrow> do {
                    (s, load_result, entry_point) \<leftarrow> elf_load sp elf_data elf_size (image_base - USER_IMAGE_LINK_BASE) s;
                    s \<leftarrow> free_if_owned owns_data elf_data s;
                    if load_result \<noteq> 0 then Some (fst (process_exit (-1) s), EXITED)
                    else do {
                      (s, stack) \<leftarrow> setup_user_stack sp stack_ceiling argv argv_len s;
                      case stack of
                        None \<Rightarrow> Some (fst (process_exit (-1) s), EXITED)
                      | Some (stack_top_addr, argv_uaddr, argv_actual_len) \<Rightarrow>
                          Some (s, ENTER_USERMODE (the entry_point) stack_top_addr argv_uaddr argv_actual_len)
                    }
                  })
        })"

text \<open>
  \<open>spawn_elf_request\<close>: \<open>trampoline\<close> is the address of \<open>elf_process_trampoline\<close> in the kernel image, the
  first instruction of the new thread. The argument bytes are those behind \<open>argv_str\<close>.
\<close>

definition spawn_elf_request ::
  "u64 \<Rightarrow> u64 \<Rightarrow> u64 \<Rightarrow> bool \<Rightarrow> u8 list \<Rightarrow> u64 \<Rightarrow> 'a proc_state_scheme \<Rightarrow> ('a proc_state_scheme \<times> int) option" where
  "spawn_elf_request trampoline elf_data elf_size owns_data argv_str argv_len s = do {
     (s, request) \<leftarrow> kmalloc ELF_REQUEST_SIZE s;
     if request = 0 then do { s \<leftarrow> free_if_owned owns_data elf_data s; Some (s, -1) }
     else
       let argv_len = (if argv_len > USER_ARGV_RESERVED then USER_ARGV_RESERVED else argv_len);
           s = s\<lparr>phys_mem := store_request request elf_data elf_size owns_data argv_str argv_len (phys_mem s)\<rparr>
       in case reserve_process s of
            (s, None) \<Rightarrow> do { s \<leftarrow> free_if_owned owns_data elf_data s; s \<leftarrow> kfree request s; Some (s, -1) }
          | (s, Some pid) \<Rightarrow> do {
              (s, tid) \<leftarrow> sched_spawn_with_context trampoline request s;
              if tid < 0 then do {
                s \<leftarrow> free_if_owned owns_data elf_data (release_process pid s);
                s \<leftarrow> kfree request s;
                Some (s, -1)
              }
              else Some (case find_process pid s of None \<Rightarrow> s | Some i \<Rightarrow> upd_process i (\<lambda>p. p\<lparr>pr_tid := tid\<rparr>) s, pid)
            }
   }"

definition process_spawn_from_elf :: "u64 \<Rightarrow> u64 \<Rightarrow> u64 \<Rightarrow> 'a proc_state_scheme \<Rightarrow> ('a proc_state_scheme \<times> int) option" where
  "process_spawn_from_elf trampoline elf_data elf_size s = spawn_elf_request trampoline elf_data elf_size False [] 0 s"

text \<open>
  \<open>fs_read_file\<close> writes whole sectors behind the pointer, whatever the size that was allocated: the
  bytes it may write are read from the memory, handed to it, and stored back.
\<close>

definition process_spawn_from_file ::
  "u64 \<Rightarrow> u8 list \<Rightarrow> u8 list \<Rightarrow> u64 \<Rightarrow> 'a proc_state_scheme \<Rightarrow> ('a proc_state_scheme \<times> int) option" where
  "process_spawn_from_file trampoline name argv_str argv_len s =
     (case fs_find name s of None \<Rightarrow> Some (s, -1)
      | Some e \<Rightarrow> do {
          (s, buf) \<leftarrow> kmalloc (ucast (f_size_bytes e)) s;
          if buf = 0 then Some (s, -1)
          else
            let (rc, bytes, s) = fs_read_file (Some e) (load_bytes buf (unat (fs_sectors e) * 512) (phys_mem s)) s;
                s = s\<lparr>phys_mem := store_bytes buf bytes (phys_mem s)\<rparr>
            in if rc \<noteq> 0 then do { s \<leftarrow> kfree buf s; Some (s, -1) }
               else spawn_elf_request trampoline buf (ucast (f_size_bytes e)) True argv_str argv_len s
        })"

text \<open>Handing an end of a pipe of the caller to the new thread, as its descriptor 0 or 1.\<close>

definition redirect_stdin :: "int \<Rightarrow> int \<Rightarrow> 'a proc_state_scheme \<Rightarrow> 'a proc_state_scheme" where
  "redirect_stdin tid stdin_fd s =
     (if tid \<ge> 0 \<and> stdin_fd \<ge> 0 then
        case sched_fd_get stdin_fd s of None \<Rightarrow> s
        | Some src \<Rightarrow> if fd_kind src = FD_KIND_PIPE_READ
            then fst (sched_fd_set tid 0 FD_KIND_PIPE_READ (fd_handle src) (fst (pipe_add_reader (fd_handle src) s)))
            else s
      else s)"

definition redirect_stdout :: "int \<Rightarrow> int \<Rightarrow> 'a proc_state_scheme \<Rightarrow> 'a proc_state_scheme" where
  "redirect_stdout tid stdout_fd s =
     (if tid \<ge> 0 \<and> stdout_fd \<ge> 0 then
        case sched_fd_get stdout_fd s of None \<Rightarrow> s
        | Some src \<Rightarrow> if fd_kind src = FD_KIND_PIPE_WRITE
            then fst (sched_fd_set tid 1 FD_KIND_PIPE_WRITE (fd_handle src) (fst (pipe_add_writer (fd_handle src) s)))
            else s
      else s)"

definition process_spawn_from_file_redirect ::
  "u64 \<Rightarrow> u8 list \<Rightarrow> u8 list \<Rightarrow> u64 \<Rightarrow> int \<Rightarrow> int \<Rightarrow> 'a proc_state_scheme \<Rightarrow> ('a proc_state_scheme \<times> int) option" where
  "process_spawn_from_file_redirect trampoline name argv_str argv_len stdin_fd stdout_fd s = do {
     (s, pid) \<leftarrow> process_spawn_from_file trampoline name argv_str argv_len s;
     if pid < 0 then Some (s, -1)
     else
       let tid = (case find_process pid s of None \<Rightarrow> -1 | Some i \<Rightarrow> pr_tid (processes s ! i))
       in Some (redirect_stdout tid stdout_fd (redirect_stdin tid stdin_fd s), pid)
   }"

text \<open>
  The demonstration thread: it shares the kernel's pages with user mode, so \<open>code\<close>, the address of
  \<open>user_demo_entry\<close>, and its own stack frame are marked as user pages.
\<close>

definition raw_entry_trampoline :: "u64 \<Rightarrow> 'a proc_state_scheme \<Rightarrow> 'a proc_state_scheme \<times> process_start" where
  "raw_entry_trampoline code s =
     (let (s, user_stack_frame) = pmm_alloc_zeroed_frame s; code_page = code AND NOT 0xFFF in
      if user_stack_frame = 0 then (fst (sched_exit s), EXITED)
      else let (s, sp) = vmm_create_address_space s in
        if sp = 0 then (fst (sched_exit s), EXITED)
        else
          let s = sched_set_address_space (sched_current_tid s) sp s;
              s = vmm_mark_user (code_page + PMM_FRAME_SIZE) (vmm_mark_user code_page (vmm_mark_user user_stack_frame s))
          in (s, ENTER_USERMODE code (user_stack_frame + PMM_FRAME_SIZE) 0 0))"

definition process_spawn_demo_entry :: "u64 \<Rightarrow> 'a proc_state_scheme \<Rightarrow> ('a proc_state_scheme \<times> int) option" where
  "process_spawn_demo_entry trampoline s = sched_spawn trampoline s"

section \<open>What the lower layers do to processes and threads\<close>

text \<open>The memory managers, the scheduler and the pipes do not know the process table.\<close>

lemma low_frame_procs:
  fixes s t :: "'a proc_state_scheme"
  assumes "low_frame s t"
  shows "processes t = processes s" and "next_pid t = next_pid s"
proof -
  have f: "sel t = sel s" if "\<And>u. sel (low_clear u) = sel u" for sel using assms that by (metis low_frame_def)
  show "processes t = processes s" "next_pid t = next_pid s"
    by (rule f, simp add: low_clear_def sched_clear_def mm_clear_def pmm_clear_def)+
qed

lemma sched_frame_procs:
  fixes s t :: "'a proc_state_scheme"
  assumes "sched_frame s t"
  shows "processes t = processes s" and "next_pid t = next_pid s"
proof -
  have "low_frame s t" using sched_low_frame [OF assms, of s] by simp
  then show "processes t = processes s" "next_pid t = next_pid s" by (rule low_frame_procs)+
qed

lemma mm_frame_procs:
  fixes s t :: "'a proc_state_scheme"
  assumes "mm_frame s t"
  shows "processes t = processes s" and "next_pid t = next_pid s"
proof -
  have "sched_frame s t" using mm_frame_sched_frame [OF assms, of s] by simp
  then show "processes t = processes s" "next_pid t = next_pid s" by (rule sched_frame_procs)+
qed

lemma upd_process_fields [simp]:
  "threads (upd_process i f s) = threads s" "current_thread (upd_process i f s) = current_thread s"
  "next_pid (upd_process i f s) = next_pid s" "processes (upd_process i f s) = (processes s)[i := f (processes s ! i)]"
  by (simp_all add: upd_process_def)

lemma sched_inv_upd_process [simp]: "sched_inv (upd_process i f s) = sched_inv s"
  by (rule sched_inv_cong) simp_all

lemma sched_wakeup_procs [simp]:
  "processes (sched_wakeup ch s) = processes s" "next_pid (sched_wakeup ch s) = next_pid s"
  "current_thread (sched_wakeup ch s) = current_thread s" "length (threads (sched_wakeup ch s)) = length (threads s)"
  by (simp_all add: sched_wakeup_def)

lemma upd_thread_procs [simp]:
  "processes (upd_thread tid g s) = processes s" "next_pid (upd_thread tid g s) = next_pid s"
  by (simp_all add: upd_thread_def)

text \<open>
  \<open>calm s t\<close>: from \<open>s\<close> to \<open>t\<close> no slot in use became unused and no thread fell asleep.
\<close>

definition calm :: "'a sched_state_scheme \<Rightarrow> 'a sched_state_scheme \<Rightarrow> bool" where
  "calm s t \<longleftrightarrow> length (threads s) \<le> length (threads t) \<and>
     (\<forall>i<length (threads s). t_state (threads s ! i) \<noteq> THREAD_UNUSED \<longrightarrow> t_state (threads t ! i) \<noteq> THREAD_UNUSED) \<and>
     (\<forall>c. blocked_on c t \<longrightarrow> blocked_on c s)"

named_theorems calm_intros \<open>operations that are calm\<close>

lemma calm_refl [calm_intros]: "calm s s"
  by (simp add: calm_def)

lemma calm_trans: "calm s t \<Longrightarrow> calm t u \<Longrightarrow> calm s u"
  unfolding calm_def by (elim conjE, intro conjI allI impI) (auto dest: order_less_le_trans)

lemma calm_cong: "threads t = threads s \<Longrightarrow> calm s t"
  by (simp add: calm_def blocked_on_def)

lemma calm_mm_frame: "mm_frame s t \<Longrightarrow> calm s t"
  by (rule calm_cong) (rule mm_frame_sched(1))

lemma calm_upd_thread:
  assumes "\<And>t. t_state (f t) = THREAD_BLOCKED \<Longrightarrow> t_state t = THREAD_BLOCKED \<and> t_wait_channel (f t) = t_wait_channel t"
    and "\<And>t. t_state (f t) = THREAD_UNUSED \<Longrightarrow> t_state t = THREAD_UNUSED"
  shows "calm s (upd_thread tid f s)"
  unfolding calm_def
proof (intro conjI allI impI)
  show "blocked_on c s" if "blocked_on c (upd_thread tid f s)" for c
    using that assms(1) by (rule blocked_on_upd_thread)
  show "t_state (threads (upd_thread tid f s) ! i) \<noteq> THREAD_UNUSED"
    if "i < length (threads s)" "t_state (threads s ! i) \<noteq> THREAD_UNUSED" for i
    using that assms(2) by (auto simp: nth_upd_thread)
qed simp

lemma calm_upd_fd [calm_intros]: "calm s (upd_fd tid fd f s)"
  unfolding upd_fd_def by (rule calm_upd_thread) simp_all

lemma calm_wakeup [calm_intros]: "calm s (sched_wakeup ch s)"
  by (simp add: calm_def) (simp add: sched_wakeup_def wake_def)

lemma calm_dispatch:
  assumes "nat n < length (threads s)"
  shows "calm s (dispatch n s)"
proof -
  have "length (threads (dispatch n s)) = length (threads s)" using dispatch_table(2) [OF assms assms] .
  then show ?thesis
    unfolding calm_def using blocked_on_dispatch [OF _ assms] dispatch_table(3) [OF _ assms] by auto
qed

lemma calm_yield [calm_intros]:
  assumes "sched_inv s"
  shows "calm s (sched_yield s)"
proof -
  note cur = sched_inv_current [OF assms]
  let ?s = "upd_thread (current_thread s) (\<lambda>t. t\<lparr>t_state := THREAD_READY\<rparr>) s"
  have "calm s ?s" by (rule calm_upd_thread) simp_all
  moreover have "calm ?s (dispatch (find_next_runnable (current_thread s) (threads s)) ?s)"
    by (rule calm_dispatch) (use find_next_runnable_range [OF cur(1,2)] in simp)
  ultimately show ?thesis using calm_trans by (auto simp: sched_yield_def Let_def calm_refl)
qed

lemma calm_tick [calm_intros]:
  assumes "sched_inv s"
  shows "calm s (sched_tick s)"
proof -
  let ?s = "upd_thread (current_thread s) (\<lambda>t. t\<lparr>t_ticks_remaining := t_ticks_remaining t - 1\<rparr>) s"
  have "sched_inv ?s" by (rule sched_inv_upd_thread [OF assms]) (simp_all add: thread_ok_def)
  then have "calm ?s (sched_yield ?s)" by (rule calm_yield)
  moreover have "calm s ?s" by (rule calm_upd_thread) simp_all
  ultimately show ?thesis using calm_trans by (auto simp: sched_tick_def Let_def calm_refl)
qed

lemma calm_resume: "sched_sleep_resume s = Some t \<Longrightarrow> calm s t"
  unfolding sched_sleep_resume_def by (auto split: if_splits intro!: calm_upd_thread)

text \<open>A created thread gets a slot that was unused; no other slot is taken or given up.\<close>

lemma spawn_result:
  fixes s :: "'a sched_state_scheme"
  assumes inv: "sched_inv s" and r: "sched_spawn_prio_with_context fn p c s = Some (t, tid)"
  shows "sched_inv t" and "calm s t"
    and "tid < 0 \<or> nat tid < length (threads t) \<and> t_state (threads t ! nat tid) = THREAD_READY \<and>
      (nat tid < length (threads s) \<longrightarrow> t_state (threads s ! nat tid) = THREAD_UNUSED)"
proof -
  obtain v sl where sl: "spawn_slot s = Some (v, sl)"
    using r by (auto simp: sched_spawn_prio_with_context_def Let_def split: bind_splits)
  note v = spawn_slot_cases [OF inv sl]
  obtain w st where st: "alloc_guarded_stack v = (w, st)" by (cases "alloc_guarded_stack v")
  have wf: "mm_frame v w" using alloc_guarded_stack_frame [of v] st by simp
  note wt = mm_frame_sched [OF wf]
  have vstate: "t_state (threads v ! i) = t_state (threads s ! i)" if "i < length (threads s)" for i
  proof -
    have "(threads v ! i)\<lparr>t_uid := 0\<rparr> = (threads s ! i)\<lparr>t_uid := 0\<rparr>" using that v(4) by (simp add: kept_threads_def)
    then have "t_state ((threads v ! i)\<lparr>t_uid := 0\<rparr>) = t_state ((threads s ! i)\<lparr>t_uid := 0\<rparr>)" by (rule arg_cong)
    then show ?thesis by simp
  qed
  have len: "length (threads s) \<le> length (threads v)" using v(4) by (simp add: kept_threads_def)
  have calm_v: "calm s v" unfolding calm_def using len vstate blocked_on_spawn_slot [OF sl] by simp
  have calm_w: "calm s w" and inv_w: "sched_inv w"
    using calm_trans [OF calm_v calm_mm_frame [OF wf]] sched_inv_mm_frame [OF wf] v(1) by simp_all
  have "sched_inv t \<and> calm s t \<and> (tid < 0 \<or> nat tid < length (threads t) \<and> t_state (threads t ! nat tid) = THREAD_READY \<and>
      (nat tid < length (threads s) \<longrightarrow> t_state (threads s ! nat tid) = THREAD_UNUSED))"
  proof (cases "sl = None \<or> st = None")
    case True
    then have "(t = v \<or> t = w) \<and> tid = -1"
      using r sl st by (auto simp: sched_spawn_prio_with_context_def Let_def split: option.splits)
    then show ?thesis using v(1) calm_v calm_w inv_w by auto
  next
    case False
    then obtain slot low guard where ss: "sl = Some slot" "st = Some (low, guard)" by (cases sl; cases st) auto
    note sv = v(5) [OF ss(1)]
    obtain f where f: "threads t = (threads w)[nat slot := f (threads w ! nat slot)]" "current_thread t = current_thread w"
        "tid = slot" "\<And>x. t_state (f x) = THREAD_READY" "\<And>x. thread_ok x \<Longrightarrow> thread_ok (f x)"
    proof -
      let ?p = "if p < 0 \<or> p \<ge> THREAD_PRIO_COUNT then THREAD_PRIO_NORMAL else p"
      let ?sp = "low + THREAD_STACK_SIZE"
      let ?a = "w\<lparr>phys_mem := initial_frame ?sp fn (phys_mem w)\<rparr>"
      let ?g = "\<lambda>t. t\<lparr>t_rsp := ?sp - 64, t_state := THREAD_READY, t_stack_low := low,
         t_guard_page := guard, t_priority := ?p, t_ticks_remaining := quantum_ticks ?p,
         t_address_space := vmm_kernel_address_space ?a, t_context := c,
         t_fds := map (\<lambda>i. if i < 2 then console_fd else unused_fd) [0..<THREAD_MAX_FDS]\<rparr>"
      let ?b = "upd_thread slot ?g ?a"
      let ?u = "if current_thread ?b \<ge> 0 then t_uid (thread_at (current_thread ?b) ?b) else 0"
      have "sched_spawn_prio_with_context fn p c s = Some (upd_thread slot (\<lambda>t. t\<lparr>t_uid := ?u\<rparr>) ?b, slot)"
        using sl st ss by (simp add: sched_spawn_prio_with_context_def Let_def)
      then have "t = upd_thread slot (\<lambda>t. t\<lparr>t_uid := ?u\<rparr>) ?b" "tid = slot" using r by simp_all
      moreover have "quantum_ticks ?p \<le> 8" "0 \<le> ?p" "?p < THREAD_PRIO_COUNT"
        using quantum_ticks_bounds [of ?p] by (auto simp: THREAD_PRIO_NORMAL_def THREAD_PRIO_COUNT_def)
      moreover have "nat slot < length (threads w)" using sv wt(1) by simp
      ultimately show ?thesis
        by (intro that [of "\<lambda>x. (?g x)\<lparr>t_uid := ?u\<rparr>"]) (auto simp: threads_upd_thread thread_ok_def THREAD_MAX_FDS_def)
    qed
    have slot: "0 \<le> slot" "nat slot < length (threads w)" "t_state (threads w ! nat slot) = THREAD_UNUSED" using sv wt(1) by auto
    have st_eq: "t_state (threads t ! i) = (if i = nat slot then THREAD_READY else t_state (threads w ! i))" if "i < length (threads w)" for i
      using that f(1,4) by auto
    have "sched_inv t"
      using inv_w f slot unfolding sched_inv_def tid_ok_iff by (auto simp: nth_list_update)
    moreover have "calm w t"
    proof -
      have "blocked_on ch w" if b: "blocked_on ch t" for ch
      proof -
        obtain i where i: "i < length (threads t)" "t_state (threads t ! i) = THREAD_BLOCKED" "t_wait_channel (threads t ! i) = ch"
          using b by (auto simp: blocked_on_def)
        then have "i < length (threads w)" "i \<noteq> nat slot" using f(1) st_eq [of i] by auto
        then show ?thesis using i f(1) unfolding blocked_on_def by auto
      qed
      then show ?thesis using f(1) st_eq unfolding calm_def by simp
    qed
    moreover have "t_state (threads s ! nat slot) = THREAD_UNUSED" if "nat slot < length (threads s)"
      using vstate [OF that] sv by simp
    ultimately show ?thesis using calm_trans [OF calm_w] slot f(1,3) st_eq [OF slot(2)] by simp
  qed
  then show "sched_inv t" "calm s t" "tid < 0 \<or> nat tid < length (threads t) \<and> t_state (threads t ! nat tid) = THREAD_READY \<and>
      (nat tid < length (threads s) \<longrightarrow> t_state (threads s ! nat tid) = THREAD_UNUSED)" by blast+
qed

section \<open>The invariant of the process table\<close>

text \<open>
  Every entry in use has a number of its own below the counter and, once it has one, a thread of its
  own in a slot that is in use. \<open>exits_seen\<close>: nobody sleeps on the number of a process that has exited.
\<close>

definition used_process :: "'a proc_state_scheme \<Rightarrow> nat \<Rightarrow> bool" where
  "used_process s i \<longleftrightarrow> i < length (processes s) \<and> pr_state (processes s ! i) \<noteq> PROCESS_UNUSED"

definition table_ok :: "'a proc_state_scheme \<Rightarrow> bool" where
  "table_ok s \<longleftrightarrow> length (processes s) = PROCESS_MAX \<and> 1 \<le> next_pid s \<and> next_pid s < 2 ^ 31 \<and>
     (\<forall>i. used_process s i \<longrightarrow> 1 \<le> pr_pid (processes s ! i) \<and> pr_pid (processes s ! i) < next_pid s) \<and>
     (\<forall>i j. used_process s i \<and> used_process s j \<and> pr_pid (processes s ! i) = pr_pid (processes s ! j) \<longrightarrow> i = j) \<and>
     (\<forall>i j. used_process s i \<and> used_process s j \<and> 0 \<le> pr_tid (processes s ! i) \<and>
        pr_tid (processes s ! i) = pr_tid (processes s ! j) \<longrightarrow> i = j)"

definition owns_slot :: "'a proc_state_scheme \<Rightarrow> nat \<Rightarrow> bool" where
  "owns_slot s i \<longleftrightarrow> pr_tid (processes s ! i) < 0 \<or>
     nat (pr_tid (processes s ! i)) < length (threads s) \<and> t_state (threads s ! nat (pr_tid (processes s ! i))) \<noteq> THREAD_UNUSED"

definition exits_seen :: "'a proc_state_scheme \<Rightarrow> bool" where
  "exits_seen s \<longleftrightarrow> (\<forall>i<length (processes s). pr_state (processes s ! i) = PROCESS_EXITED \<longrightarrow>
     \<not> blocked_on (word_of_int (pr_pid (processes s ! i))) s)"

definition process_system_ok :: "'a proc_state_scheme \<Rightarrow> bool" where
  "process_system_ok s \<longleftrightarrow> sched_inv s \<and> table_ok s \<and> (\<forall>i. used_process s i \<longrightarrow> owns_slot s i) \<and> exits_seen s"

text \<open>Two states with the same processes, up to the recorded address spaces.\<close>

definition same_procs :: "'a proc_state_scheme \<Rightarrow> 'a proc_state_scheme \<Rightarrow> bool" where
  "same_procs s t \<longleftrightarrow> next_pid t = next_pid s \<and>
     map (pr_address_space_update (\<lambda>_. 0)) (processes t) = map (pr_address_space_update (\<lambda>_. 0)) (processes s)"

lemma same_procsI: "processes t = processes s \<Longrightarrow> next_pid t = next_pid s \<Longrightarrow> same_procs s t"
  by (simp add: same_procs_def)

lemma same_procs_trans: "same_procs s t \<Longrightarrow> same_procs t u \<Longrightarrow> same_procs s u"
  by (simp add: same_procs_def)

lemma same_procs_length: "same_procs s t \<Longrightarrow> length (processes t) = length (processes s)"
  unfolding same_procs_def by (metis length_map)

lemma same_procs_nth:
  assumes "same_procs s t" and "i < length (processes s)"
  shows "pr_pid (processes t ! i) = pr_pid (processes s ! i)" "pr_tid (processes t ! i) = pr_tid (processes s ! i)"
    "pr_parent_pid (processes t ! i) = pr_parent_pid (processes s ! i)"
    "pr_exit_status (processes t ! i) = pr_exit_status (processes s ! i)"
    "pr_state (processes t ! i) = pr_state (processes s ! i)"
proof -
  have "(processes t ! i)\<lparr>pr_address_space := 0\<rparr> = (processes s ! i)\<lparr>pr_address_space := 0\<rparr>"
    using assms same_procs_length [OF assms(1)] unfolding same_procs_def by (metis nth_map)
  then have f: "sel ((processes t ! i)\<lparr>pr_address_space := 0\<rparr>) = sel ((processes s ! i)\<lparr>pr_address_space := 0\<rparr>)" for sel :: "process \<Rightarrow> 'z"
    by simp
  show "pr_pid (processes t ! i) = pr_pid (processes s ! i)" using f [of pr_pid] by simp
  show "pr_tid (processes t ! i) = pr_tid (processes s ! i)" using f [of pr_tid] by simp
  show "pr_parent_pid (processes t ! i) = pr_parent_pid (processes s ! i)" using f [of pr_parent_pid] by simp
  show "pr_exit_status (processes t ! i) = pr_exit_status (processes s ! i)" using f [of pr_exit_status] by simp
  show "pr_state (processes t ! i) = pr_state (processes s ! i)" using f [of pr_state] by simp
qed

lemma used_process_same: "same_procs s t \<Longrightarrow> used_process t i = used_process s i"
  using same_procs_length [of s t] same_procs_nth(5) [of s t i] by (auto simp: used_process_def)

lemma table_ok_same:
  assumes "same_procs s t"
  shows "table_ok t = table_ok s"
proof -
  have n: "used_process s i \<Longrightarrow> pr_pid (processes t ! i) = pr_pid (processes s ! i) \<and> pr_tid (processes t ! i) = pr_tid (processes s ! i)" for i
    using same_procs_nth [OF assms] by (simp add: used_process_def)
  have "next_pid t = next_pid s" using assms by (simp add: same_procs_def)
  then show ?thesis
    unfolding table_ok_def same_procs_length [OF assms] used_process_same [OF assms] using n by (simp cong: conj_cong imp_cong)
qed

lemma process_system_calm:
  fixes s t :: "'a proc_state_scheme"
  assumes ok: "process_system_ok s" and inv: "sched_inv t" and c: "calm s t" and p: "same_procs s t"
  shows "process_system_ok t"
  unfolding process_system_ok_def
proof (intro conjI allI impI)
  show "sched_inv t" by (rule inv)
  show "table_ok t" using ok table_ok_same [OF p] by (simp add: process_system_ok_def)
  show "owns_slot t i" if "used_process t i" for i
  proof -
    have u: "used_process s i" using that used_process_same [OF p] by simp
    then have "owns_slot s i" "pr_tid (processes t ! i) = pr_tid (processes s ! i)"
      using ok same_procs_nth(2) [OF p] by (auto simp: process_system_ok_def used_process_def)
    then show ?thesis using c unfolding owns_slot_def calm_def by auto
  qed
  show "exits_seen t"
    using ok c same_procs_length [OF p] same_procs_nth [OF p] unfolding process_system_ok_def exits_seen_def calm_def by auto
qed

lemma find_process_Some: "find_process pid s = Some i \<Longrightarrow> used_process s i \<and> pr_pid (processes s ! i) = pid"
  unfolding find_process_def used_process_def by (auto dest: first_index_SomeD)

lemma find_process_None: "find_process pid s = None \<longleftrightarrow> (\<forall>i. used_process s i \<longrightarrow> pr_pid (processes s ! i) \<noteq> pid)"
  unfolding find_process_def used_process_def by (auto simp: all_set_conv_all_nth)

lemma find_process_used:
  assumes "table_ok s" and "used_process s i"
  shows "find_process (pr_pid (processes s ! i)) s = Some i"
proof (cases "find_process (pr_pid (processes s ! i)) s")
  case None
  then show ?thesis using assms(2) find_process_None [of _ s] by blast
next
  case (Some j)
  then have "i = j" using find_process_Some [OF Some] assms unfolding table_ok_def by metis
  then show ?thesis using Some by simp
qed

lemma find_by_tid_Some: "find_process_by_tid tid s = Some i \<Longrightarrow> used_process s i \<and> pr_tid (processes s ! i) = tid"
  unfolding find_process_by_tid_def used_process_def by (auto dest: first_index_SomeD)

lemma find_by_tid_used:
  assumes "table_ok s" and "used_process s i" and "0 \<le> pr_tid (processes s ! i)"
  shows "find_process_by_tid (pr_tid (processes s ! i)) s = Some i"
proof (cases "find_process_by_tid (pr_tid (processes s ! i)) s")
  case None
  then have "\<forall>j<length (processes s). pr_state (processes s ! j) = PROCESS_UNUSED \<or> pr_tid (processes s ! j) \<noteq> pr_tid (processes s ! i)"
    unfolding find_process_by_tid_def by (simp add: all_set_conv_all_nth)
  then show ?thesis using assms(2) by (auto simp: used_process_def)
next
  case (Some j)
  then have "i = j" using find_by_tid_Some [OF Some] assms unfolding table_ok_def by metis
  then show ?thesis using Some by simp
qed

lemma pid_channel_inj:
  assumes "table_ok s" and "used_process s i" and "used_process s j"
    and "(word_of_int (pr_pid (processes s ! i)) :: u64) = word_of_int (pr_pid (processes s ! j))"
  shows "i = j"
proof -
  have b: "1 \<le> pr_pid (processes s ! k) \<and> pr_pid (processes s ! k) < 2 ^ 31" if "used_process s k" for k
    using assms(1) that unfolding table_ok_def by force
  have "uint (word_of_int (pr_pid (processes s ! k)) :: u64) = pr_pid (processes s ! k)" if "used_process s k" for k
    using b [OF that] unfolding uint_word_of_int by simp
  then have "pr_pid (processes s ! i) = pr_pid (processes s ! j)" using assms(2,3,4) by metis
  then show ?thesis using assms(1-3) unfolding table_ok_def by blast
qed

text \<open>A change of one entry that keeps its number, its thread and its being in use.\<close>

lemma table_ok_upd:
  assumes ok: "table_ok s" and f: "pr_pid (f (processes s ! i)) = pr_pid (processes s ! i)" "pr_tid (f (processes s ! i)) = pr_tid (processes s ! i)"
    and u: "pr_state (f (processes s ! i)) = PROCESS_UNUSED \<longleftrightarrow> pr_state (processes s ! i) = PROCESS_UNUSED"
  shows "table_ok (upd_process i f s)" and "used_process (upd_process i f s) j = used_process s j"
    and "pr_pid (processes (upd_process i f s) ! j) = pr_pid (processes s ! j)"
    and "pr_tid (processes (upd_process i f s) ! j) = pr_tid (processes s ! j)"
proof -
  have n: "processes (upd_process i f s) ! j = (if j = i \<and> i < length (processes s) then f (processes s ! i) else processes s ! j)" for j
    by (cases "i < length (processes s)") (auto simp: list_update_beyond)
  show used: "used_process (upd_process i f s) j = used_process s j" for j
    unfolding used_process_def n using u by auto
  show pid: "pr_pid (processes (upd_process i f s) ! j) = pr_pid (processes s ! j)" for j unfolding n using f(1) by auto
  show tid: "pr_tid (processes (upd_process i f s) ! j) = pr_tid (processes s ! j)" for j unfolding n using f(2) by auto
  show "table_ok (upd_process i f s)"
    using ok unfolding table_ok_def used pid tid by simp
qed

section \<open>Exit and kill\<close>

lemma mark_exited_fields [simp]:
  "current_thread (process_mark_exited tid st s) = current_thread s"
  "next_pid (process_mark_exited tid st s) = next_pid s"
  "length (processes (process_mark_exited tid st s)) = length (processes s)"
  "length (threads (process_mark_exited tid st s)) = length (threads s)"
  by (simp_all add: process_mark_exited_def Let_def split: option.split)

lemma process_system_mark_exited:
  assumes ok: "process_system_ok s"
  shows "process_system_ok (process_mark_exited tid st s)" and "calm s (process_mark_exited tid st s)"
proof -
  let ?t = "process_mark_exited tid st s"
  have "process_system_ok ?t \<and> calm s ?t"
  proof (cases "find_process_by_tid tid s")
    case None
    then show ?thesis using ok by (simp add: process_mark_exited_def calm_refl)
  next
    case (Some i)
    let ?f = "\<lambda>p. p\<lparr>pr_exit_status := st, pr_state := PROCESS_EXITED\<rparr>"
    let ?u = "upd_process i ?f s" and ?ch = "word_of_int (pr_pid (processes s ! i)) :: u64"
    have i: "used_process s i" using find_by_tid_Some [OF Some] by blast
    have t: "?t = sched_wakeup ?ch ?u" using Some i by (simp add: process_mark_exited_def used_process_def)
    have tab: "table_ok s" using ok by (simp add: process_system_ok_def)
    have same: "pr_state (?f (processes s ! i)) = PROCESS_UNUSED \<longleftrightarrow> pr_state (processes s ! i) = PROCESS_UNUSED"
      using i by (simp add: used_process_def)
    note up = table_ok_upd [where f = ?f and i = i and s = s, OF tab _ _ same, simplified]
    have c: "calm s ?t" unfolding t by (rule calm_trans [OF calm_cong calm_wakeup]) simp
    have procs: "processes ?t = processes ?u" unfolding t by (simp del: upd_process_fields)
    have ut: "used_process ?t j = used_process s j" for j
      using up(2) [of j] procs by (simp add: used_process_def)
    have "table_ok ?t"
      using up(1) table_ok_same [OF same_procsI [of ?t ?u]] unfolding t by simp
    moreover have "sched_inv ?t" using ok unfolding t by (simp add: process_system_ok_def sched_inv_wakeup)
    moreover have "owns_slot ?t j" if "used_process ?t j" for j
    proof -
      have "owns_slot s j" using ok that ut by (simp add: process_system_ok_def)
      moreover have "pr_tid (processes ?t ! j) = pr_tid (processes s ! j)" using up(4) [of j] procs by simp
      ultimately show ?thesis using c unfolding owns_slot_def calm_def by auto
    qed
    moreover have "exits_seen ?t"
      unfolding exits_seen_def
    proof (intro allI impI)
      fix j
      assume j: "j < length (processes ?t)" "pr_state (processes ?t ! j) = PROCESS_EXITED"
      have uj: "used_process s j" using j ut [of j] by (simp add: used_process_def)
      have pj: "pr_pid (processes ?t ! j) = pr_pid (processes s ! j)" using up(3) [of j] procs by simp
      show "\<not> blocked_on (word_of_int (pr_pid (processes ?t ! j))) ?t"
      proof (cases "j = i")
        case True
        then show ?thesis unfolding pj unfolding t by simp
      next
        case False
        then have "pr_state (processes s ! j) = PROCESS_EXITED" using j(2) procs by simp
        then have "\<not> blocked_on (word_of_int (pr_pid (processes s ! j))) s"
          using ok uj by (simp add: process_system_ok_def exits_seen_def used_process_def)
        then show ?thesis using c unfolding pj calm_def by blast
      qed
    qed
    ultimately show ?thesis using c by (simp add: process_system_ok_def)
  qed
  then show "process_system_ok ?t" "calm s ?t" by blast+
qed

text \<open>The switch away from a thread that has ended.\<close>

lemma same_but_rsp_states:
  assumes "same_but_rsp (threads t) (threads s)"
  shows "calm s t"
  using same_but_rsp_length [OF assms] same_but_rsp_nth(1,5) [OF assms]
  by (auto simp: calm_def blocked_on_def)

lemma exit_dispatch:
  fixes s :: "'a sched_state_scheme"
  assumes inv: "sched_inv s" and n: "0 \<le> nxt" "nat nxt < length (threads s)"
    and cur: "t_state (threads s ! nat (current_thread s)) \<noteq> THREAD_RUNNING"
  defines "t \<equiv> switch_context None nxt (activate nxt ((upd_thread nxt (\<lambda>t. t\<lparr>t_state := THREAD_RUNNING\<rparr>) s)\<lparr>current_thread := nxt\<rparr>))"
  shows "sched_inv t" and "calm s t"
proof -
  let ?u = "upd_thread nxt (\<lambda>t. t\<lparr>t_state := THREAD_RUNNING\<rparr>) s"
  have same: "same_but_rsp (threads t) (threads ?u)"
    using switch_context_threads(1) [of None nxt "activate nxt (?u\<lparr>current_thread := nxt\<rparr>)"] by (simp add: t_def)
  have ct: "current_thread t = nxt" by (simp add: t_def switch_context_threads(2))
  have "calm s ?u" by (rule calm_upd_thread) simp_all
  moreover have "calm ?u t" by (rule same_but_rsp_states [OF same])
  ultimately show "calm s t" by (rule calm_trans)
  have len: "length (threads t) = length (threads s)" using same_but_rsp_length [OF same] by simp
  have "thread_ok (threads t ! i) \<and> (t_state (threads t ! i) = THREAD_RUNNING \<longrightarrow> int i = nxt)" if i: "i < length (threads s)" for i
  proof -
    have old: "thread_ok (threads s ! i)" "t_state (threads s ! i) = THREAD_RUNNING \<longrightarrow> int i = current_thread s"
      using inv i by (auto simp: sched_inv_def)
    have norun: "t_state (threads s ! i) \<noteq> THREAD_RUNNING" using old(2) cur by (metis nat_int)
    note e = same_but_rsp_nth [OF same, of i]
    show ?thesis using e i old(1) norun n by (auto simp: thread_ok_def nth_upd_thread)
  qed
  then show "sched_inv t" using n ct len by (simp add: sched_inv_def tid_ok_iff)
qed

lemma process_system_exit:
  assumes ok: "process_system_ok s"
  shows "process_system_ok (fst (sched_exit_status st s))" and "calm s (fst (sched_exit_status st s))"
proof -
  have inv: "sched_inv s" using ok by (simp add: process_system_ok_def)
  note cur = sched_inv_current [OF inv]
  let ?a = "upd_thread (current_thread s) (\<lambda>t. t\<lparr>t_state := THREAD_ZOMBIE\<rparr>) s"
  let ?b = "process_mark_exited (current_thread s) st ?a"
  let ?c = "sched_wakeup (word_of_int (current_thread s)) ?b"
  let ?n = "find_next_runnable (current_thread s) (threads ?c)"
  have ca: "calm s ?a" by (rule calm_upd_thread) simp_all
  have "sched_inv ?a" by (rule sched_inv_upd_thread [OF inv]) (simp_all add: thread_ok_def)
  then have oka: "process_system_ok ?a" by (rule process_system_calm [OF ok _ ca same_procsI]) simp_all
  note b = process_system_mark_exited [OF oka, of "current_thread s" st]
  have cc: "calm s ?c" by (rule calm_trans [OF ca calm_trans [OF b(2) calm_wakeup]])
  have invc: "sched_inv ?c" using b(1) by (simp add: process_system_ok_def sched_inv_wakeup)
  have okc: "process_system_ok ?c" by (rule process_system_calm [OF b(1) invc calm_wakeup same_procsI]) simp_all
  have zombie: "t_state (threads ?c ! nat (current_thread s)) \<noteq> THREAD_RUNNING"
  proof -
    have z: "t_state (threads ?a ! nat (current_thread s)) = THREAD_ZOMBIE" using cur(3) by (simp add: nth_upd_thread)
    have w: "t_state (wake ch x) = THREAD_ZOMBIE" if "t_state x = THREAD_ZOMBIE" for ch x using that by (simp add: wake_def)
    have "t_state (threads ?b ! nat (current_thread s)) = THREAD_ZOMBIE"
      using z cur(3) w by (simp add: process_mark_exited_def Let_def sched_wakeup_def split: option.split)
    then have "t_state (threads ?c ! nat (current_thread s)) = THREAD_ZOMBIE" using cur(3) w by (simp add: sched_wakeup_def)
    then show ?thesis by simp
  qed
  have lenc: "length (threads ?c) = length (threads s)" by simp
  have n: "0 \<le> ?n" "nat ?n < length (threads ?c)"
    using find_next_runnable_range [of "current_thread s" "threads ?c"] cur lenc by (simp_all add: nat_less_iff)
  let ?t = "switch_context None ?n (activate ?n ((upd_thread ?n (\<lambda>t. t\<lparr>t_state := THREAD_RUNNING\<rparr>) ?c)\<lparr>current_thread := ?n\<rparr>))"
  have r: "fst (sched_exit_status st s) = (if ?n = current_thread s then ?c else ?t)"
    using cur(4) by (simp add: sched_exit_status_def Let_def)
  have cz: "t_state (threads ?c ! nat (current_thread ?c)) \<noteq> THREAD_RUNNING" using zombie by simp
  note d = exit_dispatch [OF invc n cz]
  have "sched_frame ?c ?t" by (simp add: sched_frame_simps)
  then have okt: "process_system_ok ?t" by (intro process_system_calm [OF okc d] same_procsI sched_frame_procs)
  show "process_system_ok (fst (sched_exit_status st s))" unfolding r using okc okt by simp
  show "calm s (fst (sched_exit_status st s))" unfolding r using cc calm_trans [OF cc d(2)] by simp
qed

lemma process_system_kill:
  assumes ok: "process_system_ok s"
  shows "process_system_ok (fst (sched_kill tid st s))"
proof -
  let ?a = "upd_thread tid (\<lambda>t. t\<lparr>t_state := THREAD_ZOMBIE, t_wait_channel := 0\<rparr>) s"
  have ca: "calm s ?a" by (rule calm_upd_thread) simp_all
  have "sched_inv s" using ok by (simp add: process_system_ok_def)
  then have "sched_inv ?a" by (rule sched_inv_upd_thread) (simp_all add: thread_ok_def)
  then have "process_system_ok ?a" by (rule process_system_calm [OF ok _ ca same_procsI]) simp_all
  then have "process_system_ok (process_mark_exited tid st ?a)" by (rule process_system_mark_exited(1))
  then show ?thesis using ok process_system_exit(1) [OF ok, of st] by (simp add: sched_kill_def Let_def)
qed

section \<open>Reaping\<close>

lemma release_slot_calm: "sched_inv s \<Longrightarrow> sched_inv (release_slot slot s) \<and> calm s (release_slot slot s)"
proof -
  assume inv: "sched_inv s"
  have "sched_inv (sched_wakeup c (upd_pipe i f (upd_pipe j g s))) \<and> calm s (sched_wakeup c (upd_pipe i f (upd_pipe j g s)))" for c i j f g
    using inv calm_trans [OF calm_cong [of "upd_pipe i f (upd_pipe j g s)" s] calm_wakeup] by (simp add: sched_inv_wakeup)
  then show ?thesis using inv
    by (simp add: release_slot_def pipe_close_reader_def pipe_close_writer_def Let_def calm_refl)
qed

lemma cleanup_calm:
  assumes "sched_inv s"
  shows "sched_inv (fd_cleanup_thread tid s)" and "calm s (fd_cleanup_thread tid s)" and "low_frame s (fd_cleanup_thread tid s)"
proof -
  let ?step = "\<lambda>fd s. case sched_fd_get_for tid (int fd) s of None \<Rightarrow> s | Some slot \<Rightarrow> release_slot slot s"
  have "sched_inv (fold ?step xs s) \<and> calm s (fold ?step xs s) \<and> low_frame s (fold ?step xs s)" if "sched_inv s" for xs and s :: "'a keyboard_state_scheme"
    using that
  proof (induction xs arbitrary: s)
    case (Cons x xs)
    have "sched_inv (?step x s) \<and> calm s (?step x s) \<and> low_frame s (?step x s)"
      using release_slot_calm [OF Cons.prems] Cons.prems by (auto simp: calm_refl low_simps split: option.split)
    then show ?case using Cons.IH [of "?step x s"] calm_trans by (auto simp: low_frame_def)
  qed (simp add: calm_refl)
  then show "sched_inv (fd_cleanup_thread tid s)" "calm s (fd_cleanup_thread tid s)" "low_frame s (fd_cleanup_thread tid s)"
    unfolding fd_cleanup_thread_def using assms by blast+
qed

lemma reap_stack_frame: "mm_frame s (reap_stack tid s)"
  by (simp add: reap_stack_def Let_def mm_simps mm_frame_for_w)

lemma process_reap_thread_same:
  "threads (process_reap_thread tid sp s) = threads s" "current_thread (process_reap_thread tid sp s) = current_thread s"
  "same_procs s (process_reap_thread tid sp s)"
proof -
  let ?u = "case find_process_by_tid tid s of None \<Rightarrow> s | Some i \<Rightarrow> upd_process i (\<lambda>p. p\<lparr>pr_address_space := 0\<rparr>) s"
  have m: "mm_frame ?u (process_reap_thread tid sp s)" by (simp add: process_reap_thread_def mm_simps)
  have u: "threads ?u = threads s" "current_thread ?u = current_thread s" by (simp_all split: option.split)
  show "threads (process_reap_thread tid sp s) = threads s" "current_thread (process_reap_thread tid sp s) = current_thread s"
    using mm_frame_sched [OF m] u by simp_all
  have "map (pr_address_space_update (\<lambda>_. 0)) ((processes s)[i := (processes s ! i)\<lparr>pr_address_space := 0\<rparr>]) =
      map (pr_address_space_update (\<lambda>_. 0)) (processes s)" for i
    by (cases "i < length (processes s)") (simp_all add: map_update list_update_beyond list_update_same_conv)
  then have "same_procs s ?u" by (simp add: same_procs_def split: option.split)
  then show "same_procs s (process_reap_thread tid sp s)"
    using mm_frame_procs [OF m] by (simp add: same_procs_def)
qed

lemma reap_space_same:
  assumes "reap_space tid s = Some t"
  shows "threads t = threads s" and "current_thread t = current_thread s" and "same_procs s t"
proof -
  have "threads t = threads s \<and> current_thread t = current_thread s \<and> same_procs s t"
  proof (cases "t_address_space (thread_at tid s) = vmm_kernel_address_space s")
    case True
    then show ?thesis using assms by (simp add: reap_space_def same_procsI)
  next
    case False
    let ?sp = "t_address_space (thread_at tid s)"
    obtain u where u: "vmm_unregister_growable_stack ?sp s = Some u" and t: "t = process_reap_thread tid (t_address_space (thread_at tid u)) u"
      using assms False by (auto simp: reap_space_def split: bind_splits)
    have "u = s \<or> (\<exists>rs d. kfree d (s\<lparr>stack_regions := rs\<rparr>) = Some u)"
      using u by (auto simp: vmm_unregister_growable_stack_def split: option.splits prod.splits)
    then have "threads u = threads s \<and> current_thread u = current_thread s \<and> same_procs s u"
    proof (elim disjE exE)
      fix rs d
      assume k: "kfree d (s\<lparr>stack_regions := rs\<rparr>) = Some u"
      note m = kfree_sched [OF k]
      show ?thesis using mm_frame_sched [OF m] mm_frame_procs [OF m] by (simp add: same_procsI)
    qed (simp add: same_procsI)
    then show ?thesis unfolding t using process_reap_thread_same same_procs_trans by metis
  qed
  then show "threads t = threads s" "current_thread t = current_thread s" "same_procs s t" by blast+
qed

text \<open>What reaping a dead thread does to the tables: its slot is given back with all descriptors unused.\<close>

lemma reap_zombie_result:
  fixes s :: "'a proc_state_scheme"
  assumes inv: "sched_inv s" and r: "reap_zombie tid s = Some t"
  shows "sched_inv t" and "same_procs s t" and "length (threads t) = length (threads s)"
    and "blocked_on c t \<Longrightarrow> blocked_on c s"
    and "j < length (threads s) \<Longrightarrow> int j \<noteq> tid \<Longrightarrow> t_state (threads s ! j) \<noteq> THREAD_UNUSED \<Longrightarrow> t_state (threads t ! j) \<noteq> THREAD_UNUSED"
    and "tid_ok tid s \<Longrightarrow> tid \<noteq> current_thread s \<Longrightarrow> t_state (threads s ! nat tid) = THREAD_ZOMBIE \<Longrightarrow>
      t_state (threads t ! nat tid) = THREAD_UNUSED \<and> t_fds (threads t ! nat tid) = replicate THREAD_MAX_FDS unused_fd"
proof -
  have main: "sched_inv t \<and> same_procs s t \<and> length (threads t) = length (threads s) \<and> (\<forall>c. blocked_on c t \<longrightarrow> blocked_on c s) \<and>
    (\<forall>j<length (threads s). int j \<noteq> tid \<longrightarrow> t_state (threads s ! j) \<noteq> THREAD_UNUSED \<longrightarrow> t_state (threads t ! j) \<noteq> THREAD_UNUSED) \<and>
    (tid_ok tid s \<and> tid \<noteq> current_thread s \<and> t_state (threads s ! nat tid) = THREAD_ZOMBIE \<longrightarrow>
      t_state (threads t ! nat tid) = THREAD_UNUSED \<and> t_fds (threads t ! nat tid) = replicate THREAD_MAX_FDS unused_fd)"
  proof (cases "tid < 0 \<or> tid \<ge> thread_capacity s \<or> tid = current_thread s \<or> t_state (thread_at tid s) \<noteq> THREAD_ZOMBIE")
    case True
    then have "t = s" using r by (simp add: reap_zombie_def)
    then show ?thesis using True inv by (auto simp: same_procsI tid_ok_iff thread_at_def)
  next
    case False
    let ?a = "reap_stack tid (fd_cleanup_thread tid s)"
    let ?f = "\<lambda>t. t\<lparr>t_state := THREAD_UNUSED, t_stack_low := 0, t_guard_page := 0, t_rsp := 0,
          t_address_space := 0, t_wait_channel := 0, t_context := 0, t_fds := map reset_fd_slot (t_fds t)\<rparr>"
    obtain u where u: "reap_space tid ?a = Some u" and t: "t = upd_thread tid ?f u"
      using r False by (auto simp: reap_zombie_def split: bind_splits)
    note cl = cleanup_calm [OF inv, of tid] and rs = reap_space_same [OF u]
    note mf = reap_stack_frame [of "fd_cleanup_thread tid s" tid]
    have th: "threads u = threads (fd_cleanup_thread tid s)" "current_thread u = current_thread (fd_cleanup_thread tid s)"
      using rs(1,2) mm_frame_sched [OF mf] by simp_all
    have invu: "sched_inv u" using cl(1) sched_inv_cong [OF th] by simp
    have calmu: "calm s u" using cl(2) th(1) by (simp add: calm_def blocked_on_def)
    have lenc: "length (threads (fd_cleanup_thread tid s)) = length (threads s)"
    proof -
      have "length (threads (release_slot sl v)) = length (threads v)" for sl and v :: "'a proc_state_scheme"
        by (simp add: release_slot_def pipe_close_reader_def pipe_close_writer_def Let_def sched_wakeup_def)
      then have "length (threads (fold (\<lambda>fd s. case sched_fd_get_for tid (int fd) s of None \<Rightarrow> s | Some slot \<Rightarrow> release_slot slot s) xs v)) = length (threads v)"
        for xs and v :: "'a proc_state_scheme" by (induction xs arbitrary: v) (auto split: option.split)
      then show ?thesis by (simp add: fd_cleanup_thread_def)
    qed
    have len: "length (threads u) = length (threads s)" using th(1) lenc by simp
    have tid: "0 \<le> tid" "nat tid < length (threads u)" using False len by (auto simp: not_le)
    have procs: "same_procs s u"
      using rs(3) mm_frame_procs [OF mf] low_frame_procs [OF cl(3)] by (simp add: same_procs_def)
    have "sched_inv t" unfolding t by (rule sched_inv_upd_thread [OF invu]) (simp_all add: thread_ok_def)
    moreover have "same_procs s t" unfolding t using procs by (simp add: same_procs_def)
    moreover have "blocked_on c s" if b: "blocked_on c t" for c
    proof -
      have "blocked_on c u" using b unfolding t by (rule blocked_on_upd_thread) simp
      then show ?thesis using calmu by (simp add: calm_def)
    qed
    moreover have "t_state (threads t ! j) \<noteq> THREAD_UNUSED"
      if "j < length (threads s)" "int j \<noteq> tid" "t_state (threads s ! j) \<noteq> THREAD_UNUSED" for j
      using that calmu len tid unfolding t by (auto simp: nth_upd_thread calm_def)
    moreover have "t_state (threads t ! nat tid) = THREAD_UNUSED \<and> t_fds (threads t ! nat tid) = replicate THREAD_MAX_FDS unused_fd"
    proof -
      have "length (t_fds (threads u ! nat tid)) = THREAD_MAX_FDS" using invu tid by (simp add: sched_inv_def thread_ok_def)
      moreover have "map reset_fd_slot xs = replicate (length xs) unused_fd" for xs
        by (induction xs) (simp_all add: reset_fd_slot_def unused_fd_def)
      ultimately show ?thesis unfolding t using tid by (simp add: nth_upd_thread)
    qed
    ultimately show ?thesis unfolding t using len by simp
  qed
  show "sched_inv t" "same_procs s t" "length (threads t) = length (threads s)" using main by blast+
  show "blocked_on c t \<Longrightarrow> blocked_on c s" using main by blast
  show "j < length (threads s) \<Longrightarrow> int j \<noteq> tid \<Longrightarrow> t_state (threads s ! j) \<noteq> THREAD_UNUSED \<Longrightarrow> t_state (threads t ! j) \<noteq> THREAD_UNUSED"
    using main by blast
  show "tid_ok tid s \<Longrightarrow> tid \<noteq> current_thread s \<Longrightarrow> t_state (threads s ! nat tid) = THREAD_ZOMBIE \<Longrightarrow>
      t_state (threads t ! nat tid) = THREAD_UNUSED \<and> t_fds (threads t ! nat tid) = replicate THREAD_MAX_FDS unused_fd"
    using main by blast
qed

section \<open>Wait\<close>

lemma release_process_fields [simp]:
  "threads (release_process pid s) = threads s" "current_thread (release_process pid s) = current_thread s"
  "next_pid (release_process pid s) = next_pid s" "length (processes (release_process pid s)) = length (processes s)"
  by (simp_all add: release_process_def split: option.split)

lemma release_process_used:
  assumes tab: "table_ok s" and i: "used_process s i"
  defines "t \<equiv> release_process (pr_pid (processes s ! i)) s"
  shows "processes t ! i = \<lparr>pr_pid = 0, pr_tid = -1, pr_parent_pid = 0, pr_exit_status = 0, pr_state = PROCESS_UNUSED, pr_address_space = 0\<rparr>"
    and "j \<noteq> i \<Longrightarrow> processes t ! j = processes s ! j" and "used_process t j \<longleftrightarrow> used_process s j \<and> j \<noteq> i" and "table_ok t"
proof -
  have il: "i < length (processes s)" using i by (simp add: used_process_def)
  have clear: "p\<lparr>pr_pid := 0, pr_tid := -1, pr_parent_pid := 0, pr_exit_status := 0, pr_state := PROCESS_UNUSED, pr_address_space := 0\<rparr> =
      \<lparr>pr_pid = 0, pr_tid = -1, pr_parent_pid = 0, pr_exit_status = 0, pr_state = PROCESS_UNUSED, pr_address_space = 0\<rparr>" for p :: process
    by (cases p) simp
  have t: "processes t = (processes s)[i := \<lparr>pr_pid = 0, pr_tid = -1, pr_parent_pid = 0, pr_exit_status = 0, pr_state = PROCESS_UNUSED, pr_address_space = 0\<rparr>]"
    "next_pid t = next_pid s"
    using find_process_used [OF tab i] by (simp_all add: t_def release_process_def clear)
  show "processes t ! i = \<lparr>pr_pid = 0, pr_tid = -1, pr_parent_pid = 0, pr_exit_status = 0, pr_state = PROCESS_UNUSED, pr_address_space = 0\<rparr>"
    using t il by simp
  show other: "j \<noteq> i \<Longrightarrow> processes t ! j = processes s ! j" for j using t by simp
  show used: "used_process t j \<longleftrightarrow> used_process s j \<and> j \<noteq> i" for j
    using t il by (cases "j = i") (auto simp: used_process_def)
  show "table_ok t"
  proof -
    have e: "used_process s j \<and> processes t ! j = processes s ! j" if "used_process t j" for j using that used other by blast
    have len: "length (processes t) = length (processes s)" using t(1) by simp
    have o: "length (processes s) = PROCESS_MAX" "1 \<le> next_pid s" "next_pid s < 2 ^ 31"
      and pid: "\<And>i. used_process s i \<Longrightarrow> 1 \<le> pr_pid (processes s ! i) \<and> pr_pid (processes s ! i) < next_pid s"
      and dp: "\<And>i j. used_process s i \<Longrightarrow> used_process s j \<Longrightarrow> pr_pid (processes s ! i) = pr_pid (processes s ! j) \<Longrightarrow> i = j"
      and dt: "\<And>i j. used_process s i \<Longrightarrow> used_process s j \<Longrightarrow> 0 \<le> pr_tid (processes s ! i) \<Longrightarrow>
        pr_tid (processes s ! i) = pr_tid (processes s ! j) \<Longrightarrow> i = j"
      using tab unfolding table_ok_def by blast+
    show ?thesis unfolding table_ok_def t(2) len
      using o pid dp dt e by (intro conjI allI impI; (elim conjE)?) metis+
  qed
qed

text \<open>Giving up an entry whose thread's slot may be gone, when nothing else has changed for the worse.\<close>

lemma process_system_release:
  fixes s u :: "'a proc_state_scheme"
  assumes ok: "process_system_ok s" and i: "used_process s i" and inv: "sched_inv u" and p: "same_procs s u"
    and len: "length (threads s) \<le> length (threads u)" and b: "\<And>c. blocked_on c u \<Longrightarrow> blocked_on c s"
    and kept: "\<And>j. j < length (threads s) \<Longrightarrow> int j \<noteq> pr_tid (processes s ! i) \<Longrightarrow>
      t_state (threads s ! j) \<noteq> THREAD_UNUSED \<Longrightarrow> t_state (threads u ! j) \<noteq> THREAD_UNUSED"
  shows "process_system_ok (release_process (pr_pid (processes s ! i)) u)"
proof -
  have il: "i < length (processes s)" using i by (simp add: used_process_def)
  have tabs: "table_ok s" using ok by (simp add: process_system_ok_def)
  have tab: "table_ok u" using table_ok_same [OF p] tabs by simp
  have iu: "used_process u i" using i used_process_same [OF p] by simp
  have pid: "pr_pid (processes s ! i) = pr_pid (processes u ! i)" using same_procs_nth(1) [OF p il] by simp
  let ?t = "release_process (pr_pid (processes u ! i)) u"
  note r = release_process_used [OF tab iu]
  have "owns_slot ?t j" if "used_process ?t j" for j
  proof -
    have j: "used_process s j" "j \<noteq> i" using that r(3) used_process_same [OF p] by auto
    have jl: "j < length (processes s)" using j by (simp add: used_process_def)
    have tid: "pr_tid (processes ?t ! j) = pr_tid (processes s ! j)" using r(2) [OF j(2)] same_procs_nth(2) [OF p jl] by simp
    have own: "owns_slot s j" using ok j(1) by (simp add: process_system_ok_def)
    have ne: "int (nat (pr_tid (processes s ! j))) \<noteq> pr_tid (processes s ! i)" if "0 \<le> pr_tid (processes s ! j)"
    proof
      assume "int (nat (pr_tid (processes s ! j))) = pr_tid (processes s ! i)"
      then have "pr_tid (processes s ! j) = pr_tid (processes s ! i)" using that by simp
      then show False using tabs i j that unfolding table_ok_def by blast
    qed
    show ?thesis
      using own kept [OF _ ne] len unfolding owns_slot_def tid by auto
  qed
  moreover have "exits_seen ?t"
    unfolding exits_seen_def
  proof (intro allI impI)
    fix j
    assume j: "j < length (processes ?t)" "pr_state (processes ?t ! j) = PROCESS_EXITED"
    then have ji: "j \<noteq> i" using r(1) by auto
    have jl: "j < length (processes s)" using j(1) same_procs_length [OF p] by simp
    have "pr_state (processes s ! j) = PROCESS_EXITED" "pr_pid (processes ?t ! j) = pr_pid (processes s ! j)"
      using j(2) r(2) [OF ji] same_procs_nth [OF p jl] by simp_all
    then show "\<not> blocked_on (word_of_int (pr_pid (processes ?t ! j))) ?t"
      using ok jl b by (auto simp: process_system_ok_def exits_seen_def blocked_on_def)
  qed
  moreover have "sched_inv ?t" using inv sched_inv_cong [of ?t u] by simp
  ultimately show ?thesis using r(4) pid by (simp add: process_system_ok_def)
qed

lemma slots_sleep:
  assumes "sched_inv s" and "i < length (threads s)" and "t_state (threads s ! i) \<noteq> THREAD_UNUSED"
  shows "t_state (threads (fst (sched_sleep ch s)) ! i) \<noteq> THREAD_UNUSED"
proof -
  note cur = sched_inv_current [OF assms(1)]
  let ?s = "upd_thread (current_thread s) (\<lambda>t. t\<lparr>t_wait_channel := ch, t_state := THREAD_BLOCKED\<rparr>) s"
  let ?n = "find_next_runnable (current_thread s) (threads ?s)"
  have n: "nat ?n < length (threads ?s)"
    using find_next_runnable_range [of "current_thread s" "threads ?s"] cur by simp
  have "t_state (threads ?s ! i) \<noteq> THREAD_UNUSED" using assms(2,3) by (simp add: nth_upd_thread)
  moreover have "t_state (threads (dispatch ?n ?s) ! i) \<noteq> THREAD_UNUSED"
    using dispatch_table(3) [OF _ n, of i] calculation assms(2) by simp
  ultimately show ?thesis by (simp add: sched_sleep_def Let_def)
qed

lemma process_system_sleep:
  fixes s :: "'a proc_state_scheme"
  assumes ok: "process_system_ok s"
    and ch: "\<And>i. i < length (processes s) \<Longrightarrow> pr_state (processes s ! i) = PROCESS_EXITED \<Longrightarrow> word_of_int (pr_pid (processes s ! i)) \<noteq> ch"
  shows "process_system_ok (fst (sched_sleep ch s))"
proof -
  let ?t = "fst (sched_sleep ch s)"
  have inv: "sched_inv s" using ok by (simp add: process_system_ok_def)
  have f: "sched_frame s ?t" by (simp add: sched_frame_simps)
  note p = sched_frame_procs [OF f]
  have same: "same_procs s ?t" using p by (simp add: same_procsI)
  have "owns_slot ?t i" if "used_process ?t i" for i
  proof -
    have "owns_slot s i" using ok that used_process_same [OF same] by (simp add: process_system_ok_def)
    then show ?thesis using slots_sleep [OF inv] sched_sleep_length [OF inv, of ch] by (auto simp: owns_slot_def p)
  qed
  moreover have "exits_seen ?t"
    using ok ch blocked_on_sleep [OF inv] unfolding process_system_ok_def exits_seen_def p by metis
  moreover have "sched_inv ?t" by (rule sched_inv_sleep [OF inv])
  ultimately show ?thesis using ok table_ok_same [OF same] by (simp add: process_system_ok_def)
qed

lemma process_system_wait:
  assumes ok: "process_system_ok s" and r: "process_wait pid s = Some (t, res)"
  shows "process_system_ok t"
proof (cases "find_process pid s")
  case None
  then show ?thesis using ok r by (simp add: process_wait_def)
next
  case (Some i)
  have i: "used_process s i" "pr_pid (processes s ! i) = pid" using find_process_Some [OF Some] by blast+
  have tab: "table_ok s" and inv: "sched_inv s" using ok by (simp_all add: process_system_ok_def)
  let ?p = "processes s ! i"
  consider "pr_parent_pid ?p \<noteq> current_pid s" | "pr_parent_pid ?p = current_pid s" "pr_state ?p = PROCESS_EXITED"
    | "pr_parent_pid ?p = current_pid s" "pr_state ?p \<noteq> PROCESS_EXITED" by blast
  then show ?thesis
  proof cases
    case 1
    then show ?thesis using ok r Some by (simp add: process_wait_def)
  next
    case 2
    then obtain u where u: "(if pr_tid ?p \<ge> 0 then sched_reap_thread (pr_tid ?p) s else Some s) = Some u" and t: "t = release_process pid u"
      using r Some by (auto simp: process_wait_def split: bind_splits)
    show ?thesis
    proof (cases "pr_tid ?p \<ge> 0")
      case True
      then have "reap_zombie (pr_tid ?p) s = Some u" using u by (simp add: sched_reap_thread_def)
      note z = reap_zombie_result [OF inv this]
      show ?thesis unfolding t i(2) [symmetric]
        by (rule process_system_release [OF ok i(1) z(1,2)]) (use z(3-5) in auto)
    next
      case False
      then have us: "u = s" using u by simp
      show ?thesis unfolding t us i(2) [symmetric]
        by (intro process_system_release [OF ok i(1) inv]) (simp_all add: same_procsI)
    qed
  next
    case 3
    then have "t = fst (sched_sleep (word_of_int pid) s)" using r Some by (simp add: process_wait_def)
    moreover have "word_of_int (pr_pid (processes s ! j)) \<noteq> (word_of_int pid :: u64)"
      if "j < length (processes s)" "pr_state (processes s ! j) = PROCESS_EXITED" for j
    proof
      assume "word_of_int (pr_pid (processes s ! j)) = (word_of_int pid :: u64)"
      then have "j = i" using pid_channel_inj [OF tab _ i(1), of j] that i(2) by (simp add: used_process_def)
      then show False using that 3 by simp
    qed
    ultimately show ?thesis using process_system_sleep [OF ok] by blast
  qed
qed

section \<open>Spawn\<close>

lemma inc_int_plus:
  assumes "0 \<le> n" and "n < 2 ^ 31 - 1"
  shows "inc_int n = n + 1"
proof -
  have "uint (word_of_int (n + 1) :: 32 word) = n + 1"
    unfolding uint_word_of_int using assms by simp
  moreover have "signed_take_bit 31 (n + 1) = n + 1" using assms by (intro signed_take_bit_int_eq_self) simp_all
  ultimately show ?thesis by (simp only: inc_int_def sint_uint) simp
qed

lemma used_upd_process:
  assumes "i < length (processes s)"
  shows "used_process (upd_process i f s) j \<longleftrightarrow> (if j = i then pr_state (f (processes s ! i)) \<noteq> PROCESS_UNUSED else used_process s j)"
    and "processes (upd_process i f s) ! j = (if j = i then f (processes s ! i) else processes s ! j)"
  using assms by (auto simp: used_process_def nth_list_update)

lemma process_system_reserve:
  fixes s :: "'a proc_state_scheme"
  assumes ok: "process_system_ok s" and np: "next_pid s < 2 ^ 31 - 1" and r: "reserve_process s = (t, Some pid)"
  shows "process_system_ok t"
    and "\<exists>i. used_process t i \<and> pr_pid (processes t ! i) = pid \<and> pr_tid (processes t ! i) = -1 \<and> pr_state (processes t ! i) = PROCESS_STARTING"
    and "threads t = threads s" and "current_thread t = current_thread s" and "pid = next_pid s"
proof -
  have tab: "table_ok s" and inv: "sched_inv s" using ok by (simp_all add: process_system_ok_def)
  have np1: "1 \<le> next_pid s" using tab by (simp add: table_ok_def)
  have inc: "inc_int (next_pid s) = next_pid s + 1" using np np1 by (intro inc_int_plus) simp_all
  have "first_index (\<lambda>p. \<not> pr_state p \<noteq> PROCESS_UNUSED) (processes s) \<noteq> None"
  proof
    assume "first_index (\<lambda>p. \<not> pr_state p \<noteq> PROCESS_UNUSED) (processes s) = None"
    then show False using r unfolding reserve_process_def by (simp del: first_index_None not_not)
  qed
  then obtain i where i: "first_index (\<lambda>p. \<not> pr_state p \<noteq> PROCESS_UNUSED) (processes s) = Some i" by blast
  let ?u = "s\<lparr>next_pid := next_pid s + 1\<rparr>"
  let ?f = "\<lambda>p. p\<lparr>pr_pid := pid, pr_tid := -1, pr_parent_pid := current_pid ?u, pr_exit_status := -1,
                pr_state := PROCESS_STARTING, pr_address_space := 0\<rparr>"
  have t: "t = upd_process i ?f ?u" and pid: "pid = next_pid s"
    using r i inc np1 by (auto simp: reserve_process_def Let_def)
  show "pid = next_pid s" by (rule pid)
  show th: "threads t = threads s" "current_thread t = current_thread s" unfolding t by simp_all
  have il: "i < length (processes s)" and free: "pr_state (processes s ! i) = PROCESS_UNUSED"
    using first_index_SomeD [OF i] by auto
  have il': "i < length (processes ?u)" using il by simp
  have uu: "used_process ?u j = used_process s j" "processes ?u = processes s" for j by (simp_all add: used_process_def)
  have n: "processes t ! j = (if j = i then ?f (processes s ! i) else processes s ! j)" for j
    unfolding t using used_upd_process(2) [OF il', of ?f j] uu(2) by simp
  have used: "used_process t j \<longleftrightarrow> j = i \<or> used_process s j" for j
    unfolding t used_upd_process(1) [OF il'] uu by auto
  have fresh: "\<not> used_process s i" using free by (simp add: used_process_def)
  have npt: "next_pid t = next_pid s + 1" "length (processes t) = length (processes s)" unfolding t by simp_all
  have o: "length (processes s) = PROCESS_MAX"
    and bound: "\<And>i. used_process s i \<Longrightarrow> 1 \<le> pr_pid (processes s ! i) \<and> pr_pid (processes s ! i) < next_pid s"
    and dp: "\<And>i j. used_process s i \<Longrightarrow> used_process s j \<Longrightarrow> pr_pid (processes s ! i) = pr_pid (processes s ! j) \<Longrightarrow> i = j"
    and dt: "\<And>i j. used_process s i \<Longrightarrow> used_process s j \<Longrightarrow> 0 \<le> pr_tid (processes s ! i) \<Longrightarrow>
      pr_tid (processes s ! i) = pr_tid (processes s ! j) \<Longrightarrow> i = j"
    using tab unfolding table_ok_def by blast+
  have "table_ok t"
    unfolding table_ok_def npt
  proof (intro conjI allI impI; (elim conjE)?)
    show "length (processes s) = PROCESS_MAX" by (rule o)
    show "1 \<le> next_pid s + 1" "next_pid s + 1 < 2 ^ 31" using np np1 by simp_all
    show "1 \<le> pr_pid (processes t ! j)" "pr_pid (processes t ! j) < next_pid s + 1" if "used_process t j" for j
      using that bound [of j] np1 unfolding used n pid by auto
    show "j = k" if "used_process t j" "used_process t k" "pr_pid (processes t ! j) = pr_pid (processes t ! k)" for j k
    proof (cases "j = i \<or> k = i")
      case True
      then show ?thesis using that bound [of j] bound [of k] unfolding used n pid by (auto split: if_splits)
    next
      case False
      then have "used_process s j" "used_process s k" "pr_pid (processes s ! j) = pr_pid (processes s ! k)" using that used n by simp_all
      then show ?thesis by (rule dp)
    qed
    show "j = k" if "used_process t j" "used_process t k" "0 \<le> pr_tid (processes t ! j)" "pr_tid (processes t ! j) = pr_tid (processes t ! k)" for j k
    proof (cases "j = i \<or> k = i")
      case True
      then show ?thesis using that unfolding n by (auto split: if_splits)
    next
      case False
      then have "used_process s j" "used_process s k" "0 \<le> pr_tid (processes s ! j)" "pr_tid (processes s ! j) = pr_tid (processes s ! k)"
        using that used n by simp_all
      then show ?thesis by (rule dt)
    qed
  qed
  moreover have "owns_slot t j" if "used_process t j" for j
    using that ok unfolding used process_system_ok_def owns_slot_def n th by (auto split: if_splits)
  moreover have "exits_seen t"
    using ok unfolding process_system_ok_def exits_seen_def npt n blocked_on_def th by (auto split: if_splits)
  moreover have "sched_inv t" using inv sched_inv_cong [OF th] by simp
  ultimately show "process_system_ok t" by (simp add: process_system_ok_def)
  show "\<exists>i. used_process t i \<and> pr_pid (processes t ! i) = pid \<and> pr_tid (processes t ! i) = -1 \<and> pr_state (processes t ! i) = PROCESS_STARTING"
    by (rule exI [of _ i]) (simp add: used n)
qed

lemma process_system_set_tid:
  assumes ok: "process_system_ok s" and i: "used_process s i" and tid: "nat tid < length (threads s)" "t_state (threads s ! nat tid) \<noteq> THREAD_UNUSED"
    and new: "\<And>j. used_process s j \<Longrightarrow> j \<noteq> i \<Longrightarrow> 0 \<le> pr_tid (processes s ! j) \<Longrightarrow> pr_tid (processes s ! j) \<noteq> tid"
  shows "process_system_ok (upd_process i (\<lambda>p. p\<lparr>pr_tid := tid\<rparr>) s)"
proof -
  let ?t = "upd_process i (\<lambda>p. p\<lparr>pr_tid := tid\<rparr>) s"
  have il: "i < length (processes s)" using i by (simp add: used_process_def)
  have used: "used_process ?t j \<longleftrightarrow> used_process s j" for j
    using used_upd_process(1) [OF il, of _ j] i by (auto simp: used_process_def)
  note n = used_upd_process(2) [OF il, of "\<lambda>p. p\<lparr>pr_tid := tid\<rparr>"]
  have tab: "table_ok s" using ok by (simp add: process_system_ok_def)
  have o: "length (processes s) = PROCESS_MAX" "1 \<le> next_pid s" "next_pid s < 2 ^ 31"
    and bound: "\<And>i. used_process s i \<Longrightarrow> 1 \<le> pr_pid (processes s ! i) \<and> pr_pid (processes s ! i) < next_pid s"
    and dp: "\<And>i j. used_process s i \<Longrightarrow> used_process s j \<Longrightarrow> pr_pid (processes s ! i) = pr_pid (processes s ! j) \<Longrightarrow> i = j"
    and dt: "\<And>i j. used_process s i \<Longrightarrow> used_process s j \<Longrightarrow> 0 \<le> pr_tid (processes s ! i) \<Longrightarrow>
      pr_tid (processes s ! i) = pr_tid (processes s ! j) \<Longrightarrow> i = j"
    using tab unfolding table_ok_def by blast+
  have np: "next_pid ?t = next_pid s" "length (processes ?t) = length (processes s)" by simp_all
  have "table_ok ?t"
    unfolding table_ok_def np
  proof (intro conjI allI impI; (elim conjE)?)
    show "length (processes s) = PROCESS_MAX" "1 \<le> next_pid s" "next_pid s < 2 ^ 31" by (rule o)+
    show "1 \<le> pr_pid (processes ?t ! j)" "pr_pid (processes ?t ! j) < next_pid s" if "used_process ?t j" for j
      using that bound [of j] unfolding used n by auto
    show "j = k" if "used_process ?t j" "used_process ?t k" "pr_pid (processes ?t ! j) = pr_pid (processes ?t ! k)" for j k
    proof (rule dp)
      show "used_process s j" "used_process s k" using that used by simp_all
      show "pr_pid (processes s ! j) = pr_pid (processes s ! k)" using that(3) unfolding n by (auto split: if_splits)
    qed
    show "j = k" if "used_process ?t j" "used_process ?t k" "0 \<le> pr_tid (processes ?t ! j)" "pr_tid (processes ?t ! j) = pr_tid (processes ?t ! k)" for j k
    proof (cases "j = i \<or> k = i")
      case True
      have "pr_tid (processes ?t ! i) = tid" unfolding n by simp
      then show ?thesis using True that new [of j] new [of k] used n by metis
    next
      case False
      then have "used_process s j" "used_process s k" "0 \<le> pr_tid (processes s ! j)" "pr_tid (processes s ! j) = pr_tid (processes s ! k)"
        using that used n by simp_all
      then show ?thesis by (rule dt)
    qed
  qed
  moreover have "owns_slot ?t j" if "used_process ?t j" for j
    using that ok tid unfolding used process_system_ok_def owns_slot_def n by (auto split: if_splits)
  moreover have "exits_seen ?t"
    using ok unfolding process_system_ok_def exits_seen_def n blocked_on_def by (auto split: if_splits)
  ultimately show ?thesis using ok by (simp add: process_system_ok_def)
qed

lemma process_system_mm:
  fixes s t :: "'a proc_state_scheme"
  assumes ok: "process_system_ok s" and f: "mm_frame s t"
  shows "process_system_ok t"
proof (rule process_system_calm [OF ok])
  show "sched_inv t" using sched_inv_mm_frame [OF f] ok by (simp add: process_system_ok_def)
  show "calm s t" by (rule calm_mm_frame [OF f])
  show "same_procs s t" using mm_frame_procs [OF f] by (intro same_procsI)
qed

lemma free_if_owned_frame: "free_if_owned o' d s = Some t \<Longrightarrow> mm_frame s t"
  by (auto simp: free_if_owned_def intro: kfree_sched split: if_splits)

lemma process_system_spawn:
  fixes s :: "'a proc_state_scheme"
  assumes ok: "process_system_ok s" and np: "next_pid s < 2 ^ 31 - 1"
    and r: "spawn_elf_request tr d n own a l s = Some (t, res)"
  shows "process_system_ok t"
proof -
  obtain s1 req where k: "kmalloc ELF_REQUEST_SIZE s = Some (s1, req)"
    using r by (auto simp: spawn_elf_request_def split: bind_splits)
  have f1: "mm_frame s s1" by (rule kmalloc_sched [OF k])
  have ok1: "process_system_ok s1" by (rule process_system_mm [OF ok f1])
  show ?thesis
  proof (cases "req = 0")
    case True
    then have "free_if_owned own d s1 = Some t" using r k by (auto simp: spawn_elf_request_def split: bind_splits)
    then show ?thesis using process_system_mm [OF ok1 free_if_owned_frame] by blast
  next
    case False
    let ?l = "if l > USER_ARGV_RESERVED then USER_ARGV_RESERVED else l"
    let ?s2 = "s1\<lparr>phys_mem := store_request req d n own a ?l (phys_mem s1)\<rparr>"
    have f2: "mm_frame s ?s2" using f1 by (simp add: mm_simps)
    have ok2: "process_system_ok ?s2" by (rule process_system_mm [OF ok f2])
    have np2: "next_pid ?s2 < 2 ^ 31 - 1" using mm_frame_procs(2) [OF f2] np by simp
    obtain s3 rp where rs: "reserve_process ?s2 = (s3, rp)" by fastforce
    show ?thesis
    proof (cases rp)
      case None
      then have "s3 = ?s2" using rs by (auto simp: reserve_process_def Let_def split: option.splits)
      then obtain u where u: "free_if_owned own d ?s2 = Some u" "kfree req u = Some t"
        using r k False rs None by (auto simp: spawn_elf_request_def Let_def split: bind_splits)
      show ?thesis by (rule process_system_mm [OF process_system_mm [OF ok2 free_if_owned_frame [OF u(1)]] kfree_sched [OF u(2)]])
    next
      case (Some pid)
      note rv = process_system_reserve [OF ok2 np2 rs [unfolded Some]]
      obtain i where i: "used_process s3 i" "pr_pid (processes s3 ! i) = pid" "pr_tid (processes s3 ! i) = -1" using rv(2) by blast
      have inv3: "sched_inv s3" using rv(1) by (simp add: process_system_ok_def)
      obtain s4 tid where sp: "sched_spawn_with_context tr req s3 = Some (s4, tid)"
        using r k False rs Some by (auto simp: spawn_elf_request_def Let_def split: bind_splits)
      note sp' = sp [unfolded sched_spawn_with_context_def]
      note sr = spawn_result [OF inv3 sp'] and fr = sched_frame_procs [OF sched_spawn_frame [OF sp']]
      have ok4: "process_system_ok s4" by (rule process_system_calm [OF rv(1) sr(1,2)]) (simp add: same_procsI fr)
      have i4: "used_process s4 i" "processes s4 ! i = processes s3 ! i" using i(1) fr by (simp_all add: used_process_def)
      have tab4: "table_ok s4" and inv4: "sched_inv s4" using ok4 by (simp_all add: process_system_ok_def)
      show ?thesis
      proof (cases "tid < 0")
        case True
        then obtain u where u: "free_if_owned own d (release_process pid s4) = Some u" "kfree req u = Some t"
          using r k False rs Some sp by (auto simp: spawn_elf_request_def Let_def split: bind_splits)
        have "process_system_ok (release_process (pr_pid (processes s4 ! i)) s4)"
          by (rule process_system_release [OF ok4 i4(1) inv4]) (simp_all add: same_procsI)
        then have "process_system_ok (release_process pid s4)" using i(2) i4(2) by simp
        then show ?thesis
          by (rule process_system_mm [OF process_system_mm [OF _ free_if_owned_frame [OF u(1)]] kfree_sched [OF u(2)]])
      next
        case False
        have fp: "find_process pid s4 = Some i" using find_process_used [OF tab4 i4(1)] i(2) i4(2) by simp
        have t: "t = upd_process i (\<lambda>p. p\<lparr>pr_tid := tid\<rparr>) s4"
          using r k \<open>req \<noteq> 0\<close> rs Some sp False fp by (simp add: spawn_elf_request_def Let_def)
        have slot: "nat tid < length (threads s4)" "t_state (threads s4 ! nat tid) = THREAD_READY"
          "nat tid < length (threads s3) \<Longrightarrow> t_state (threads s3 ! nat tid) = THREAD_UNUSED" using sr(3) False by auto
        have "pr_tid (processes s4 ! j) \<noteq> tid" if "used_process s4 j" "j \<noteq> i" "0 \<le> pr_tid (processes s4 ! j)" for j
        proof
          assume e: "pr_tid (processes s4 ! j) = tid"
          have "used_process s3 j" using that(1) fr by (simp add: used_process_def)
          then have "owns_slot s3 j" using rv(1) by (simp add: process_system_ok_def)
          then show False using e slot(3) False fr by (auto simp: owns_slot_def)
        qed
        then show ?thesis unfolding t by (intro process_system_set_tid [OF ok4 i4(1) slot(1)]) (use slot(2) in auto)
      qed
    qed
  qed
qed


section \<open>The first steps of a process\<close>

text \<open>Whatever leaves the two tables alone keeps the invariant.\<close>

lemma process_system_keep:
  fixes s t :: "'a proc_state_scheme"
  assumes ok: "process_system_ok s" and t: "threads t = threads s" "current_thread t = current_thread s"
    and p: "processes t = processes s" "next_pid t = next_pid s"
  shows "process_system_ok t"
proof (rule process_system_calm [OF ok])
  show "sched_inv t" using ok sched_inv_cong [OF t] by (simp add: process_system_ok_def)
qed (rule calm_cong [OF t(1)], rule same_procsI [OF p])

text \<open>A new field of a thread that the scheduler does not look at.\<close>

lemma process_system_thread_field:
  assumes ok: "process_system_ok s" and f: "\<And>t. t_state (f t) = t_state t" "\<And>t. t_wait_channel (f t) = t_wait_channel t"
    "\<And>t. thread_ok t \<Longrightarrow> thread_ok (f t)"
  shows "process_system_ok (upd_thread tid f s)"
proof (rule process_system_calm [OF ok])
  show "sched_inv (upd_thread tid f s)"
    using ok f by (intro sched_inv_upd_thread) (auto simp: process_system_ok_def)
  show "calm s (upd_thread tid f s)" by (rule calm_upd_thread) (simp_all add: f)
  show "same_procs s (upd_thread tid f s)" by (rule same_procsI) simp_all
qed

lemma process_system_space:
  assumes "process_system_ok s"
  shows "process_system_ok (sched_set_address_space tid sp s)"
proof -
  let ?u = "upd_thread tid (t_address_space_update (\<lambda>_. sp)) s"
  have u: "process_system_ok ?u" by (rule process_system_thread_field [OF assms]) (simp_all add: thread_ok_def)
  have "process_system_ok (vmm_switch_address_space sp ?u)"
    by (rule process_system_keep [OF u]) (simp_all add: vmm_switch_address_space_def)
  then show ?thesis using assms u
    by (cases "tid = current_thread s") (simp_all add: sched_set_address_space_def Let_def)
qed

lemma process_system_context:
  assumes "process_system_ok s"
  shows "process_system_ok (sched_set_current_context c s)"
proof -
  have "process_system_ok (upd_thread (current_thread s) (t_context_update (\<lambda>_. c)) s)"
    by (rule process_system_thread_field [OF assms]) (simp_all add: thread_ok_def)
  then show ?thesis using assms by (simp add: sched_set_current_context_def)
qed

lemma process_system_running:
  fixes s :: "'a proc_state_scheme"
  assumes ok: "process_system_ok s" and i: "used_process s i"
  shows "process_system_ok (upd_process i (\<lambda>p. p\<lparr>pr_address_space := sp, pr_state := PROCESS_RUNNING\<rparr>) s)"
proof -
  let ?f = "\<lambda>p. p\<lparr>pr_address_space := sp, pr_state := PROCESS_RUNNING\<rparr>"
  let ?t = "upd_process i ?f s"
  have tab: "table_ok s" using ok by (simp add: process_system_ok_def)
  have il: "i < length (processes s)" and st: "pr_state (processes s ! i) \<noteq> PROCESS_UNUSED" using i by (simp_all add: used_process_def)
  have same: "pr_state (?f (processes s ! i)) = PROCESS_UNUSED \<longleftrightarrow> pr_state (processes s ! i) = PROCESS_UNUSED"
    using st by simp
  note up = table_ok_upd [where f = ?f and i = i and s = s, OF tab _ _ same, simplified]
  have n: "processes ?t ! j = (if j = i then ?f (processes s ! i) else processes s ! j)" for j
    by (rule used_upd_process(2) [OF il])
  have "owns_slot ?t j" if "used_process ?t j" for j
    using that ok up(2) [of j] up(4) [of j] by (simp add: process_system_ok_def owns_slot_def)
  moreover have "exits_seen ?t"
    using ok unfolding process_system_ok_def exits_seen_def n blocked_on_def by (auto split: if_splits)
  moreover have "sched_inv ?t" using ok by (simp add: process_system_ok_def)
  ultimately show ?thesis using up(1) by (simp add: process_system_ok_def)
qed

text \<open>Loading an image stays inside the frame of the memory managers.\<close>

lemma load_page_frame: "mm_frame s (fst (load_page sp d ph sv va s))"
  by (simp add: load_page_def case_prod_unfold Let_def mm_simps)

lemma load_pages_frame:
  assumes "load_pages sp d ph sv va ve s = Some r"
  shows "mm_frame s (fst r)"
proof (rule load_pages.raw_induct [where P = "\<lambda>sp d ph sv va ve s r. mm_frame s (fst r)", OF _ assms], goal_cases)
  case (1 f sp d ph sv va ve s r)
  note step = load_page_frame [of s sp d ph sv va]
  obtain u rc where u: "load_page sp d ph sv va s = (u, rc)" by fastforce
  show ?case
  proof (cases "va < ve \<and> rc = 0")
    case True
    then have "f sp d ph sv (va + PAGE_SIZE_4K) ve u = Some r" using 1(2) u by simp
    then have "mm_frame u (fst r)" by (rule 1(1))
    then show ?thesis using step u mm_frame_trans by (metis fst_conv)
  next
    case False
    then show ?thesis using 1(2) u step by (auto split: if_splits)
  qed
qed

lemma load_segment_frame: "load_segment sp d sz ph b s = Some r \<Longrightarrow> mm_frame s (fst r)"
  by (auto simp: load_segment_def Let_def split: if_splits intro: load_pages_frame)

lemma load_segments_frame: "load_segments sp d sz b i s = Some r \<Longrightarrow> mm_frame s (fst r)"
proof (induction sp d sz b i s arbitrary: r rule: load_segments.induct)
  case (1 sp d sz b i s)
  let ?eh = "elf64_ehdr_at (phys_mem s) d"
  let ?ph = "phdr_address d ?eh i"
  note r = 1(3) [unfolded load_segments.simps [of sp d sz b i s] Let_def]
  consider (ende) "\<not> i < e_phnum ?eh" | (skip) "i < e_phnum ?eh" "p_type (elf64_phdr_at (phys_mem s) ?ph) \<noteq> PT_LOAD"
    | (seg) "i < e_phnum ?eh" "p_type (elf64_phdr_at (phys_mem s) ?ph) = PT_LOAD" by blast
  then show ?case
  proof cases
    case ende
    then show ?thesis using r by auto
  next
    case skip
    then show ?thesis using r 1(1) by simp
  next
    case seg
    obtain u rc where u: "load_segment sp d sz ?ph b s = Some (u, rc)" using r seg by (auto split: option.splits)
    have f: "mm_frame s u" using load_segment_frame [OF u] by simp
    show ?thesis
    proof (cases "rc = 0")
      case True
      then have "load_segments sp d sz b (i + 1) u = Some r" using r seg u by simp
      then have "mm_frame u (fst r)" using 1(2) [OF refl seg(1) refl _ u refl] seg(2) True by simp
      then show ?thesis by (rule mm_frame_trans [OF f])
    next
      case False
      then show ?thesis using r seg u f by auto
    qed
  qed
qed

lemma elf_load_frame: "elf_load sp d sz b s = Some (t, rc, e) \<Longrightarrow> mm_frame s t"
  by (auto simp: elf_load_def Let_def split: if_splits option.splits dest!: load_segments_frame)

lemma process_system_user_stack:
  assumes ok: "process_system_ok s" and r: "setup_user_stack sp c a l s = Some (t, res)"
  shows "process_system_ok t"
proof -
  let ?first = "(c - PMM_FRAME_SIZE) AND NOT (PMM_FRAME_SIZE - 1)"
  obtain u f where u: "pmm_alloc_zeroed_frame s = (u, f)" by fastforce
  obtain v rc where v: "vmm_map_page_in sp ?first f (VMM_WRITABLE OR VMM_USER) u = (v, rc)" by fastforce
  have fu: "mm_frame s u" using mm_frame_alloc_zeroed [of s s] u by simp
  have fv: "mm_frame s v" using mm_frame_map_page_in [of s sp ?first f "VMM_WRITABLE OR VMM_USER" u] v fu by simp
  consider "f = 0" | "f \<noteq> 0" "rc \<noteq> 0" | "f \<noteq> 0" "rc = 0" by blast
  then show ?thesis
  proof cases
    case 1
    then show ?thesis using r u process_system_mm [OF ok fu] by (simp add: setup_user_stack_def)
  next
    case 2
    then have "t = pmm_free_frame f v" using r u v by (simp add: setup_user_stack_def Let_def)
    then show ?thesis using process_system_mm [OF ok] fv by (simp add: mm_simps)
  next
    case 3
    obtain w m where w: "vmm_register_growable_stack sp c USER_STACK_MAX_SIZE v = Some w" and t: "t = w\<lparr>phys_mem := m\<rparr>"
      using r u v 3 by (auto simp: setup_user_stack_def Let_def split: bind_splits)
    obtain x p where x: "kmalloc STACK_REGION_SIZE v = Some (x, p)"
      using w by (auto simp: vmm_register_growable_stack_def split: bind_splits)
    have fx: "process_system_ok x" by (rule process_system_mm [OF process_system_mm [OF ok fv] kmalloc_sched [OF x]])
    have "w = x \<or> (\<exists>rs. w = x\<lparr>stack_regions := rs\<rparr>)"
      using w x by (auto simp: vmm_register_growable_stack_def split: if_splits)
    then have "threads t = threads x" "current_thread t = current_thread x" "processes t = processes x" "next_pid t = next_pid x"
      unfolding t by auto
    then show ?thesis by (rule process_system_keep [OF fx])
  qed
qed

lemma process_system_trampoline:
  fixes s :: "'a proc_state_scheme"
  assumes ok: "process_system_ok s" and r: "elf_process_trampoline s = Some (t, res)"
  shows "process_system_ok t"
proof -
  let ?a = "sched_set_current_context 0 s" and ?req = "sched_current_context s"
  let ?d = "rd64 (phys_mem ?a) ?req" and ?own = "rd32 (phys_mem ?a) (?req + 16) \<noteq> 0"
  have oka: "process_system_ok ?a" by (rule process_system_context [OF ok])
  have die: "process_system_ok t" if "process_system_ok u" "t = fst (process_exit (-1) u)" for u
    using that process_system_exit(1) by (simp add: process_exit_def)
  have free: "process_system_ok t"
    if u: "process_system_ok u" and b: "free_if_owned ?own ?d u \<bind> (\<lambda>s. Some (fst (process_exit (- 1) s), EXITED)) = Some (t, res)" for u
  proof -
    obtain w where "free_if_owned ?own ?d u = Some w" "t = fst (process_exit (-1) w)" using b by (auto split: bind_splits)
    then show ?thesis using die process_system_mm [OF u free_if_owned_frame] by blast
  qed
  show ?thesis
  proof (cases "?req = 0")
    case True
    then show ?thesis using r die [OF oka] by (simp add: elf_process_trampoline_def Let_def)
  next
    case False
    obtain b where b: "kfree ?req ?a = Some b"
      using r False by (auto simp: elf_process_trampoline_def Let_def split: bind_splits)
    have okb: "process_system_ok b" by (rule process_system_mm [OF oka kfree_sched [OF b]])
    obtain c sp where c: "vmm_create_address_space b = (c, sp)" by fastforce
    have "mm_frame b c" using mm_frame_create_address_space [of b b] c by simp
    then have okc: "process_system_ok c" by (rule process_system_mm [OF okb])
    show ?thesis
    proof (cases "sp = 0")
      case True
      show ?thesis by (rule free [OF okc]) (use r False b c True in \<open>simp add: elf_process_trampoline_def Let_def\<close>)
    next
      case sp: False
      let ?e = "sched_set_address_space (sched_current_tid c) sp c"
      let ?g = "case find_process_by_tid (sched_current_tid ?e) ?e of None \<Rightarrow> ?e
        | Some i \<Rightarrow> upd_process i (\<lambda>p. p\<lparr>pr_address_space := sp, pr_state := PROCESS_RUNNING\<rparr>) ?e"
      have oke: "process_system_ok ?e" by (rule process_system_space [OF okc])
      have okg: "process_system_ok ?g"
        using oke process_system_running [OF oke] find_by_tid_Some [of "sched_current_tid ?e" ?e] by (auto split: option.split)
      show ?thesis
      proof (cases "user_process_layout (sched_current_tid ?g)")
        case None
        show ?thesis by (rule free [OF okg]) (use r False b c sp None in \<open>simp add: elf_process_trampoline_def Let_def\<close>)
      next
        case (Some lay)
        obtain base ceiling where lay: "lay = (base, ceiling)" by fastforce
        obtain h rc ent where h: "elf_load sp ?d (rd64 (phys_mem ?a) (?req + 8)) (base - USER_IMAGE_LINK_BASE) ?g = Some (h, rc, ent)"
          using r False b c sp Some lay by (auto simp: elf_process_trampoline_def Let_def split: bind_splits)
        have okh: "process_system_ok h" by (rule process_system_mm [OF okg elf_load_frame [OF h]])
        obtain k where k: "free_if_owned ?own ?d h = Some k"
          using r False b c sp Some lay h by (auto simp: elf_process_trampoline_def Let_def split: bind_splits)
        have okk: "process_system_ok k" by (rule process_system_mm [OF okh free_if_owned_frame [OF k]])
        show ?thesis
        proof (cases "rc = 0")
          case False
          show ?thesis by (rule die [OF okk]) (use r \<open>?req \<noteq> 0\<close> b c sp Some lay h k False in \<open>simp add: elf_process_trampoline_def Let_def\<close>)
        next
          case True
          let ?al = "rd64 (phys_mem ?a) (?req + 152)"
          obtain l st where l: "setup_user_stack sp ceiling (load_bytes (?req + 20) (unat ?al) (phys_mem ?a)) ?al k = Some (l, st)"
            using r \<open>?req \<noteq> 0\<close> b c sp Some lay h k True by (auto simp: elf_process_trampoline_def Let_def split: bind_splits)
          have okl: "process_system_ok l" by (rule process_system_user_stack [OF okk l])
          have "t = fst (process_exit (-1) l) \<or> t = l"
            using r \<open>?req \<noteq> 0\<close> b c sp Some lay h k True l by (auto simp: elf_process_trampoline_def Let_def split: option.splits)
          then show ?thesis using okl die [OF okl] by blast
        qed
      qed
    qed
  qed
qed

section \<open>Processes under any interleaving\<close>

text \<open>
  One step of the system: a process is spawned, starts, waits, exits or is killed; a kernel thread is
  created; the scheduler takes a turn; some other code sleeps or wakes up sleepers, on channels that
  are not numbers of exited processes (they are addresses of kernel objects); or code runs that leaves
  the process and thread tables alone. The counter of process numbers has not yet gone once around.
\<close>

inductive process_step :: "'a proc_state_scheme \<Rightarrow> 'a proc_state_scheme \<Rightarrow> bool" where
  spawn: "next_pid s < 2 ^ 31 - 1 \<Longrightarrow> spawn_elf_request tr d n own a l s = Some (t, res) \<Longrightarrow> process_step s t"
| start: "elf_process_trampoline s = Some (t, how) \<Longrightarrow> process_step s t"
| waits: "process_wait pid s = Some (t, res) \<Longrightarrow> process_step s t"
| exits: "process_exit st s = (t, halted) \<Longrightarrow> process_step s t"
| kill: "process_kill pid sig s = (t, res) \<Longrightarrow> process_step s t"
| thread: "sched_spawn_prio_with_context fn p c s = Some (t, tid) \<Longrightarrow> process_step s t"
| tick: "process_step s (sched_tick s)"
| yield: "process_step s (sched_yield s)"
| resume: "sched_sleep_resume s = Some t \<Longrightarrow> process_step s t"
| wakeup: "process_step s (sched_wakeup ch s)"
| sleep: "\<forall>i<length (processes s). pr_state (processes s ! i) = PROCESS_EXITED \<longrightarrow> word_of_int (pr_pid (processes s ! i)) \<noteq> ch \<Longrightarrow>
    process_step s (fst (sched_sleep ch s))"
| descriptor: "process_step s (upd_fd tid fd f s)"
| other: "threads t = threads s \<Longrightarrow> current_thread t = current_thread s \<Longrightarrow> processes t = processes s \<Longrightarrow>
    next_pid t = next_pid s \<Longrightarrow> process_step s t"

inductive_cases process_stepE: "process_step s t"

lemma process_system_scheduler:
  fixes s t :: "'a proc_state_scheme"
  assumes ok: "process_system_ok s" and inv: "sched_inv t" and c: "calm s t" and f: "sched_frame s t"
  shows "process_system_ok t"
  by (rule process_system_calm [OF ok inv c same_procsI]) (rule sched_frame_procs [OF f])+

lemma process_system_process_kill:
  assumes "process_system_ok s"
  shows "process_system_ok (fst (process_kill pid sig s))"
  using assms process_system_kill [OF assms] by (simp add: process_kill_def Let_def)

lemma process_step_ok:
  fixes s t :: "'a proc_state_scheme"
  assumes "process_step s t" and ok: "process_system_ok s"
  shows "process_system_ok t"
proof -
  have inv: "sched_inv s" using ok by (simp add: process_system_ok_def)
  note sys = process_system_scheduler [OF ok]
  show ?thesis using assms(1)
  proof cases
    case spawn
    then show ?thesis using process_system_spawn [OF ok] by blast
  next
    case start
    then show ?thesis using process_system_trampoline [OF ok] by blast
  next
    case waits
    then show ?thesis using process_system_wait [OF ok] by blast
  next
    case (exits st halted)
    then show ?thesis using process_system_exit(1) [OF ok, of st] by (simp add: process_exit_def)
  next
    case (kill pid sig res)
    then show ?thesis using process_system_process_kill [OF ok, of pid sig] by simp
  next
    case thread
    show ?thesis by (rule sys [OF spawn_result(1,2) [OF inv thread] sched_spawn_frame [OF thread]])
  next
    case tick
    then show ?thesis using sys [OF sched_inv_tick [OF inv] calm_tick [OF inv]] by (simp add: sched_frame_simps)
  next
    case yield
    then show ?thesis using sys [OF sched_inv_yield [OF inv] calm_yield [OF inv]] by (simp add: sched_frame_simps)
  next
    case resume
    have "t = upd_thread (current_thread s) (\<lambda>t. t\<lparr>t_state := THREAD_RUNNING\<rparr>) s"
      using resume by (simp add: sched_sleep_resume_def split: if_splits)
    then have "sched_frame s t" by (simp add: sched_frame_simps)
    moreover have "sched_inv t" by (rule sched_inv_resume [OF inv resume])
    ultimately show ?thesis using sys calm_resume [OF resume] by blast
  next
    case wakeup
    then show ?thesis using sys [OF sched_inv_wakeup [OF inv] calm_wakeup] by (simp add: sched_frame_simps)
  next
    case (sleep ch)
    then show ?thesis using process_system_sleep [OF ok] by simp
  next
    case (descriptor tid fd f)
    have "sched_inv t" unfolding descriptor by (rule sched_inv_upd_fd [OF inv])
    then show ?thesis using sys calm_upd_fd [of s tid fd f] descriptor by (simp add: sched_frame_simps)
  next
    case other
    then show ?thesis using process_system_keep [OF ok] by blast
  qed
qed

lemma process_steps_ok: "process_step\<^sup>*\<^sup>* s t \<Longrightarrow> process_system_ok s \<Longrightarrow> process_system_ok t"
  by (induction rule: rtranclp_induct) (auto intro: process_step_ok)

text \<open>The static initialisation: no process, and 1 as the first number.\<close>

definition no_process :: process where
  "no_process = \<lparr>pr_pid = 0, pr_tid = 0, pr_parent_pid = 0, pr_exit_status = 0, pr_state = PROCESS_UNUSED, pr_address_space = 0\<rparr>"

definition no_processes :: "'a proc_state_scheme \<Rightarrow> bool" where
  "no_processes s \<longleftrightarrow> processes s = replicate PROCESS_MAX no_process \<and> next_pid s = 1"

lemma no_processes_ok:
  assumes "no_processes s" and "sched_inv s"
  shows "process_system_ok s"
proof -
  have p: "processes s = replicate PROCESS_MAX no_process" "next_pid s = 1" using assms(1) by (simp_all add: no_processes_def)
  have "pr_state (processes s ! i) = PROCESS_UNUSED" if "i < length (processes s)" for i using that p by (simp add: no_process_def)
  then have "\<not> used_process s i" "i < length (processes s) \<Longrightarrow> pr_state (processes s ! i) \<noteq> PROCESS_EXITED" for i
    by (auto simp: used_process_def)
  then show ?thesis using assms(2) p by (simp add: process_system_ok_def table_ok_def exits_seen_def)
qed

section \<open>The contract of wait\<close>

lemma reap_space_total:
  assumes "heap_ok s"
  shows "\<exists>t. reap_space tid s = Some t"
proof -
  have h: "heap_ok (s\<lparr>stack_regions := rs\<rparr>)" for rs using assms heap_ok_cong [of "s\<lparr>stack_regions := rs\<rparr>" s] by simp
  obtain rs d where u: "unlink_region (t_address_space (thread_at tid s)) (stack_regions s) = (rs, d)" by fastforce
  have "\<exists>t. vmm_unregister_growable_stack (t_address_space (thread_at tid s)) s = Some t"
  proof (cases d)
    case None
    then show ?thesis using u by (simp add: vmm_unregister_growable_stack_def)
  next
    case (Some p)
    obtain t where "kfree p (s\<lparr>stack_regions := rs\<rparr>) = Some t" using heap.free_law [OF h] by blast
    then show ?thesis using u Some by (simp add: vmm_unregister_growable_stack_def)
  qed
  then show ?thesis by (auto simp: reap_space_def)
qed

lemma process_wait_exited:
  assumes "find_process pid s = Some i" and "pr_parent_pid (processes s ! i) = current_pid s"
    and "pr_state (processes s ! i) = PROCESS_EXITED" and "0 \<le> pr_tid (processes s ! i)"
    and "sched_reap_thread (pr_tid (processes s ! i)) s = Some u"
  shows "process_wait pid s = Some (release_process pid u, Some (0, Some (pr_exit_status (processes s ! i))))"
  using assms by (simp add: process_wait_def Let_def)

section \<open>Properties\<close>

text \<open>
  C15: From the empty table, whatever the interleaving of spawns, starts, waits, exits, kills and
  scheduler steps: the table keeps its 64 entries, every entry in use has a positive number below the
  counter that no other entry has, and an entry that names a thread names a slot in use that no other
  entry names.
\<close>

theorem process_table_wellformed:
  fixes s t :: "'a proc_state_scheme"
  assumes "no_processes s" and "sched_inv s" and "process_step\<^sup>*\<^sup>* s t"
  shows "length (processes t) = PROCESS_MAX \<and>
    (\<forall>i. used_process t i \<longrightarrow> 1 \<le> pr_pid (processes t ! i) \<and> pr_pid (processes t ! i) < next_pid t \<and>
       (0 \<le> pr_tid (processes t ! i) \<longrightarrow> nat (pr_tid (processes t ! i)) < length (threads t) \<and>
          t_state (threads t ! nat (pr_tid (processes t ! i))) \<noteq> THREAD_UNUSED)) \<and>
    (\<forall>i j. used_process t i \<and> used_process t j \<and> i \<noteq> j \<longrightarrow> pr_pid (processes t ! i) \<noteq> pr_pid (processes t ! j) \<and>
       (0 \<le> pr_tid (processes t ! i) \<longrightarrow> pr_tid (processes t ! i) \<noteq> pr_tid (processes t ! j)))"
proof -
  have ok: "process_system_ok t" by (rule process_steps_ok [OF assms(3) no_processes_ok [OF assms(1,2)]])
  then have tab: "table_ok t" and own: "\<And>i. used_process t i \<Longrightarrow> owns_slot t i" by (simp_all add: process_system_ok_def)
  show ?thesis
  proof (intro conjI allI impI; (elim conjE)?)
    show "length (processes t) = PROCESS_MAX" using tab by (simp add: table_ok_def)
    show "1 \<le> pr_pid (processes t ! i)" "pr_pid (processes t ! i) < next_pid t" if "used_process t i" for i
      using tab that by (simp_all add: table_ok_def)
    show "nat (pr_tid (processes t ! i)) < length (threads t)" "t_state (threads t ! nat (pr_tid (processes t ! i))) \<noteq> THREAD_UNUSED"
      if "used_process t i" "0 \<le> pr_tid (processes t ! i)" for i
      using own [OF that(1)] that(2) by (simp_all add: owns_slot_def)
    show "pr_pid (processes t ! i) \<noteq> pr_pid (processes t ! j)" if "used_process t i" "used_process t j" "i \<noteq> j" for i j
      using tab that unfolding table_ok_def by blast
    show "pr_tid (processes t ! i) \<noteq> pr_tid (processes t ! j)"
      if "used_process t i" "used_process t j" "i \<noteq> j" "0 \<le> pr_tid (processes t ! i)" for i j
      using tab that unfolding table_ok_def by blast
  qed
qed

text \<open>
  C4: No exit is lost: in whatever order processes are spawned, wait, exit and are killed, no thread is
  ever asleep on the number of a process that has exited, so a parent that waits for a child sleeps
  only while the child lives.
\<close>

theorem process_no_lost_exit:
  assumes "process_system_ok s" and "process_step\<^sup>*\<^sup>* s t"
  shows "\<forall>i<length (processes t). pr_state (processes t ! i) = PROCESS_EXITED \<longrightarrow>
    (\<forall>j<length (threads t). \<not> (t_state (threads t ! j) = THREAD_BLOCKED \<and> t_wait_channel (threads t ! j) = word_of_int (pr_pid (processes t ! i))))"
  using process_steps_ok [OF assms(2,1)] by (simp add: process_system_ok_def exits_seen_def blocked_on_def)


text \<open>
  A thread that exits while nothing else can run stays current and halts with interrupts on. Once a
  thread has been woken, the next switch marks the dead thread as ready again.
\<close>

theorem zombie_resurrected:
  assumes inv: "sched_inv s" and dead: "sched_exit_status st s = (t, True)"
    and woken: "find_next_runnable (current_thread s) (threads (sched_wakeup ch t)) \<noteq> current_thread s"
  shows "t_state (threads t ! nat (current_thread s)) = THREAD_ZOMBIE \<and>
    t_state (threads (sched_yield (sched_wakeup ch t)) ! nat (current_thread s)) = THREAD_READY"
proof -
  note cur = sched_inv_current [OF inv]
  let ?a = "upd_thread (current_thread s) (\<lambda>t. t\<lparr>t_state := THREAD_ZOMBIE\<rparr>) s"
  have t: "t = sched_wakeup (word_of_int (current_thread s)) (process_mark_exited (current_thread s) st ?a)"
    using dead cur(4) by (auto simp: sched_exit_status_def Let_def split: if_splits)
  have ct: "current_thread t = current_thread s" "length (threads t) = length (threads s)" unfolding t by simp_all
  have z: "t_state (threads t ! nat (current_thread s)) = THREAD_ZOMBIE"
    using cur(3) unfolding t by (simp add: process_mark_exited_def Let_def sched_wakeup_def wake_def nth_upd_thread split: option.split)
  let ?n = "find_next_runnable (current_thread s) (threads (sched_wakeup ch t))"
  have n: "0 \<le> ?n" "nat ?n < length (threads s)"
    using find_next_runnable_range [of "current_thread s" "threads (sched_wakeup ch t)"] cur ct by simp_all
  have ne: "nat ?n \<noteq> nat (current_thread s)" using woken n(1) cur(1) by linarith
  let ?u = "upd_thread (current_thread s) (\<lambda>t. t\<lparr>t_state := THREAD_READY\<rparr>) (sched_wakeup ch t)"
  have "sched_yield (sched_wakeup ch t) = dispatch ?n ?u" using cur(4) ct woken by (simp add: sched_yield_def Let_def)
  then show ?thesis
    using z ne n cur(3) ct dispatch_table(3) [of "nat (current_thread s)" ?u ?n] by (simp add: nth_upd_thread)
qed

text \<open>
  Four threads and the shell's: the current thread 0 is the kernel's, thread 2 sleeps on number 0x55,
  the number of the running process of thread 1; process 0x57 has exited and left thread 4 behind.
\<close>

definition process_example :: proc_state where
  "process_example = keyboard_state.extend (fd_blank\<lparr>threads := threads fd_blank @ [example_thread THREAD_ZOMBIE 0]\<rparr>)
     \<lparr>processes = \<lparr>pr_pid = 0x55, pr_tid = 1, pr_parent_pid = 0, pr_exit_status = -1, pr_state = PROCESS_RUNNING, pr_address_space = 0\<rparr>
        # \<lparr>pr_pid = 0x57, pr_tid = 4, pr_parent_pid = 0, pr_exit_status = 3, pr_state = PROCESS_EXITED, pr_address_space = 0\<rparr>
        # replicate 62 no_process, next_pid = 0x58\<rparr>"

lemma process_example_fields:
  "threads process_example = [example_thread THREAD_RUNNING 0, example_thread THREAD_READY 0,
     example_thread THREAD_BLOCKED 0x55, example_thread THREAD_UNUSED 0, example_thread THREAD_ZOMBIE 0]"
  "current_thread process_example = 0" "next_pid process_example = 0x58"
  "processes process_example = \<lparr>pr_pid = 0x55, pr_tid = 1, pr_parent_pid = 0, pr_exit_status = -1, pr_state = PROCESS_RUNNING, pr_address_space = 0\<rparr>
        # \<lparr>pr_pid = 0x57, pr_tid = 4, pr_parent_pid = 0, pr_exit_status = 3, pr_state = PROCESS_EXITED, pr_address_space = 0\<rparr>
        # replicate 62 no_process"
  "phys_mem process_example = phys_mem fd_blank" "heap_head process_example = heap_head fd_blank"
  "bitmap process_example = bitmap fd_blank" "free_frames process_example = free_frames fd_blank"
  using fd_blank_threads sched_example_fields by (simp_all add: process_example_def keyboard_state.defs)

lemma process_example_used: "used_process process_example i \<longleftrightarrow> i = 0 \<or> i = 1"
proof (cases "i < 2")
  case True
  then have "i = 0 \<or> i = 1" by auto
  then show ?thesis by (auto simp: used_process_def process_example_fields)
next
  case False
  then obtain k where "i = Suc (Suc k)" by (metis add_2_eq_Suc le_Suc_ex not_less)
  then show ?thesis by (simp add: used_process_def process_example_fields no_process_def)
qed

lemma process_example_inv: "sched_inv process_example"
  by (simp add: sched_inv_def tid_ok_iff process_example_fields example_thread_ok All_less_Suc) (simp add: example_thread_def)

lemma process_example_ok: "process_system_ok process_example"
proof -
  have "table_ok process_example"
    unfolding table_ok_def process_example_used by (auto simp: process_example_fields PROCESS_MAX_def)
  moreover have "\<forall>i. used_process process_example i \<longrightarrow> owns_slot process_example i"
    unfolding process_example_used by (auto simp: owns_slot_def process_example_fields example_thread_def)
  moreover have "exits_seen process_example"
    unfolding exits_seen_def
  proof (intro allI impI)
    fix i
    assume i: "i < length (processes process_example)" "pr_state (processes process_example ! i) = PROCESS_EXITED"
    then have "used_process process_example i" by (simp add: used_process_def)
    then have "i = 1" using i unfolding process_example_used by (auto simp: process_example_fields)
    then show "\<not> blocked_on (word_of_int (pr_pid (processes process_example ! i))) process_example"
      by (simp add: blocked_on_set process_example_fields example_thread_def)
  qed
  ultimately show ?thesis using process_example_inv by (simp add: process_system_ok_def)
qed

lemma process_example_pid: "find_process 0x55 process_example = Some 0" "find_process 0x57 process_example = Some 1"
  using find_process_used [of process_example 0] find_process_used [of process_example 1] process_example_ok
  unfolding process_example_used by (simp_all add: process_system_ok_def process_example_fields)

lemma process_example_tid: "find_process_by_tid 1 process_example = Some 0"
  using find_by_tid_used [of process_example 0] process_example_ok
  unfolding process_example_used by (simp add: process_system_ok_def process_example_fields)

text \<open>Killing process 0x55 wakes the thread that waits for it.\<close>

theorem process_no_lost_exit_witness:
  "let t = fst (process_kill 0x55 9 process_example) in pr_state (processes t ! 0) = PROCESS_EXITED \<and>
     pr_exit_status (processes t ! 0) = -137 \<and>
     \<not> (t_state (threads t ! 2) = THREAD_BLOCKED \<and> t_wait_channel (threads t ! 2) = 0x55)"
proof -
  let ?t = "fst (process_kill 0x55 9 process_example)"
  let ?z = "upd_thread 1 (\<lambda>t. t\<lparr>t_state := THREAD_ZOMBIE, t_wait_channel := 0\<rparr>) process_example"
  have st: "t_state (thread_at 1 process_example) = THREAD_READY" by (simp add: thread_at_def process_example_fields example_thread_def)
  have k: "process_kill 0x55 9 process_example = (process_mark_exited 1 (signal_exit_status 9) ?z, Some 0)"
    using st by (simp add: process_kill_def process_example_pid sched_kill_def process_example_fields)
  have f: "find_process_by_tid 1 ?z = Some 0" using process_example_tid by (simp add: find_process_by_tid_def)
  have e: "length (processes ?t) = 64" "pr_state (processes ?t ! 0) = PROCESS_EXITED" "pr_exit_status (processes ?t ! 0) = -137"
      "pr_pid (processes ?t ! 0) = 0x55" "length (threads ?t) = 5"
    unfolding k using f by (simp_all add: process_mark_exited_def signal_exit_status_def process_example_fields Let_def)
  have "process_step process_example ?t" by (rule process_step.kill [OF surjective_pairing])
  then have all: "\<forall>i<length (processes ?t). pr_state (processes ?t ! i) = PROCESS_EXITED \<longrightarrow>
    (\<forall>j<length (threads ?t). \<not> (t_state (threads ?t ! j) = THREAD_BLOCKED \<and> t_wait_channel (threads ?t ! j) = word_of_int (pr_pid (processes ?t ! i))))"
    by (intro process_no_lost_exit [OF process_example_ok]) simp
  have "\<not> (t_state (threads ?t ! 2) = THREAD_BLOCKED \<and> t_wait_channel (threads ?t ! 2) = word_of_int (pr_pid (processes ?t ! 0)))"
    using all [rule_format, of 0 2] e by simp
  then show ?thesis using e by (simp add: Let_def)
qed


text \<open>The empty table after a turn of the scheduler.\<close>

definition process_boot :: proc_state where
  "process_boot = keyboard_state.extend fd_blank \<lparr>processes = replicate PROCESS_MAX no_process, next_pid = 1\<rparr>"

theorem process_table_wellformed_witness:
  "no_processes process_boot \<and> sched_inv process_boot \<and> length (processes (sched_yield process_boot)) = PROCESS_MAX"
proof -
  have b: "no_processes process_boot" by (simp add: no_processes_def process_boot_def keyboard_state.defs)
  have "threads process_boot = threads fd_blank" "current_thread process_boot = current_thread fd_blank"
    by (simp_all add: process_boot_def keyboard_state.defs)
  then have i: "sched_inv process_boot" using fd_blank_sched by (simp add: sched_inv_def tid_ok_iff)
  have "process_step\<^sup>*\<^sup>* process_boot (sched_yield process_boot)" by (simp add: process_step.yield r_into_rtranclp)
  then show ?thesis using b i process_table_wellformed [OF b i] by blast
qed

end
