(* ===== verification/Syscall.thy ===== *)
theory Syscall
  imports Process
begin

text \<open>
  The system calls (\<open>kernel/core/syscall.c\<close>): the door between user programs and every other component.
  A handler runs in the address space of the caller, so its accesses to user memory go through the
  page tables that \<open>CR3\<close> points to. Nothing on the way checks the writable bit: supervisor writes
  ignore it. The result is \<open>None\<close> when code below does not return, or when an access meets a page that
  is not present, which faults in the kernel. Messages to the kernel log are left out.
\<close>

definition SYS_WRITE_HELLO :: u64 where "SYS_WRITE_HELLO = 1"
definition SYS_EXIT :: u64 where "SYS_EXIT = 2"
definition SYS_WRITE :: u64 where "SYS_WRITE = 3"
definition SYS_READ :: u64 where "SYS_READ = 4"
definition SYS_SPAWN :: u64 where "SYS_SPAWN = 5"
definition SYS_WAIT :: u64 where "SYS_WAIT = 6"
definition SYS_OPEN :: u64 where "SYS_OPEN = 7"
definition SYS_CLOSE :: u64 where "SYS_CLOSE = 8"
definition SYS_LIST :: u64 where "SYS_LIST = 9"
definition SYS_WHOAMI :: u64 where "SYS_WHOAMI = 10"
definition SYS_MEMINFO :: u64 where "SYS_MEMINFO = 11"
definition SYS_REMOVE :: u64 where "SYS_REMOVE = 12"
definition SYS_CLEAR :: u64 where "SYS_CLEAR = 13"
definition SYS_SET_CURSOR :: u64 where "SYS_SET_CURSOR = 14"
definition SYS_DRAW_ROW :: u64 where "SYS_DRAW_ROW = 15"
definition SYS_SCREEN_INFO :: u64 where "SYS_SCREEN_INFO = 16"
definition SYS_KILL :: u64 where "SYS_KILL = 17"
definition SYS_PIPE :: u64 where "SYS_PIPE = 18"
definition SYS_SPAWN_REDIRECT :: u64 where "SYS_SPAWN_REDIRECT = 19"
definition SYS_GETUID :: u64 where "SYS_GETUID = 20"
definition SYS_CHMOD :: u64 where "SYS_CHMOD = 21"
definition SYS_LOGIN :: u64 where "SYS_LOGIN = 22"
definition SYS_ADDUSER :: u64 where "SYS_ADDUSER = 23"
definition SYS_USERNAME :: u64 where "SYS_USERNAME = 24"

lemmas sys_numbers = SYS_WRITE_HELLO_def SYS_EXIT_def SYS_WRITE_def SYS_READ_def SYS_SPAWN_def SYS_WAIT_def SYS_OPEN_def
  SYS_CLOSE_def SYS_LIST_def SYS_WHOAMI_def SYS_MEMINFO_def SYS_REMOVE_def SYS_CLEAR_def SYS_SET_CURSOR_def SYS_DRAW_ROW_def
  SYS_SCREEN_INFO_def SYS_KILL_def SYS_PIPE_def SYS_SPAWN_REDIRECT_def SYS_GETUID_def SYS_CHMOD_def SYS_LOGIN_def
  SYS_ADDUSER_def SYS_USERNAME_def

definition SYS_IO_MAX_LEN :: u64 where "SYS_IO_MAX_LEN = 4096"
definition SYS_DRAW_ROW_MAX_LEN :: u64 where "SYS_DRAW_ROW_MAX_LEN = 256"
definition SYS_SPAWN_CMDLINE_MAX :: u64 where "SYS_SPAWN_CMDLINE_MAX = 128"
definition SYS_SPAWN_NAME_MAX :: nat where "SYS_SPAWN_NAME_MAX = 20"
definition SYS_OPEN_NAME_MAX :: u64 where "SYS_OPEN_NAME_MAX = 32"

text \<open>The registers of the trap frame that the handler uses; and how a call ends.\<close>

record registers =
  rax :: u64
  rdi :: u64
  rsi :: u64
  rdx :: u64

datatype sys_result = RETURN u64 | BLOCKED | NEVER

definition fail :: sys_result where "fail = RETURN (-1)"

text \<open>The conversions \<open>(int)\<close> of a register and \<open>(unsigned long long)\<close> of a result.\<close>

definition to_int :: "u64 \<Rightarrow> int" where
  "to_int r = sint (ucast r :: 32 word)"

definition of_int_result :: "int \<Rightarrow> sys_result" where
  "of_int_result n = RETURN (word_of_int n)"

section \<open>User memory\<close>

text \<open>The loop over the pages of a range. Nothing in its own text bounds it (but see \<open>user_pages_ok_iff\<close>).\<close>

partial_function (option) user_pages_ok :: "u64 \<Rightarrow> u64 \<Rightarrow> u64 \<Rightarrow> memory \<Rightarrow> bool option" where
  "user_pages_ok sp page last_page m =
     (if \<not> vmm_is_user_accessible_in sp page m then Some False
      else if page = last_page then Some True
      else user_pages_ok sp (page + 0x1000) last_page m)"

definition user_range_ok :: "u64 \<Rightarrow> u64 \<Rightarrow> 'a vmm_state_scheme \<Rightarrow> bool option" where
  "user_range_ok vaddr len s =
     (if len = 0 then Some True
      else if len - 1 > NOT 0 - vaddr then Some False
      else user_pages_ok (vmm_current_address_space s) (vaddr AND NOT 0xFFF) ((vaddr + len - 1) AND NOT 0xFFF) (phys_mem s))"

text \<open>One byte at a virtual address, read and written by the kernel.\<close>

definition user_load :: "u64 \<Rightarrow> 'a vmm_state_scheme \<Rightarrow> u8 option" where
  "user_load v s = map_option (\<lambda>(p, _). phys_mem s p) (walk (phys_mem s) (space_pml4 (cr3 s)) v)"

definition user_store :: "u64 \<Rightarrow> u8 \<Rightarrow> 'a vmm_state_scheme \<Rightarrow> 'a vmm_state_scheme option" where
  "user_store v b s = map_option (\<lambda>(p, _). s\<lparr>phys_mem := (phys_mem s)(p := b)\<rparr>) (walk (phys_mem s) (space_pml4 (cr3 s)) v)"

fun user_bytes :: "nat \<Rightarrow> u64 \<Rightarrow> 'a vmm_state_scheme \<Rightarrow> u8 list option" where
  "user_bytes 0 v s = Some []"
| "user_bytes (Suc n) v s = do { b \<leftarrow> user_load v s; bs \<leftarrow> user_bytes n (v + 1) s; Some (b # bs) }"

text \<open>\<open>for (; i < n && src[i] != '\0'; i++) name[i] = src[i];\<close> with the zero that follows.\<close>

fun user_chars :: "nat \<Rightarrow> u64 \<Rightarrow> 'a vmm_state_scheme \<Rightarrow> u8 list option" where
  "user_chars 0 v s = Some [0]"
| "user_chars (Suc n) v s = do {
     c \<leftarrow> user_load v s;
     if c \<noteq> 0 then do { cs \<leftarrow> user_chars n (v + 1) s; Some (c # cs) } else Some [0]
   }"

fun user_write :: "u64 \<Rightarrow> u8 list \<Rightarrow> 'a vmm_state_scheme \<Rightarrow> 'a vmm_state_scheme option" where
  "user_write v [] s = Some s"
| "user_write v (b # bs) s = do { s \<leftarrow> user_store v b s; user_write (v + 1) bs s }"

definition user_write64 :: "u64 \<Rightarrow> u64 \<Rightarrow> 'a vmm_state_scheme \<Rightarrow> 'a vmm_state_scheme option" where
  "user_write64 v x s = user_write v (map (\<lambda>i. ucast (drop_bit (8 * i) x)) [0..<8]) s"

text \<open>\<open>checked\<close>: what most calls do first. \<open>guarded ranges k s\<close> refuses when a range is not the caller's.\<close>

fun guarded :: "(u64 \<times> u64) list \<Rightarrow> ('a vmm_state_scheme \<Rightarrow> ('a vmm_state_scheme \<times> sys_result) option) \<Rightarrow>
    'a vmm_state_scheme \<Rightarrow> ('a vmm_state_scheme \<times> sys_result) option" where
  "guarded [] k s = k s"
| "guarded ((v, len) # rs) k s = do {
     allowed \<leftarrow> user_range_ok v len s;
     if \<not> allowed then Some (s, fail) else guarded rs k s
   }"

section \<open>The calls\<close>

definition handle_write :: "registers \<Rightarrow> 'a proc_state_scheme \<Rightarrow> ('a proc_state_scheme \<times> sys_result) option" where
  "handle_write r s =
     (let fd = to_int (rdi r); buf = rsi r; len = rdx r in
      if len > SYS_IO_MAX_LEN then Some (s, fail)
      else guarded [(buf, len)] (\<lambda>s. do {
        bytes \<leftarrow> user_bytes (unat len) buf s;
        (s, n) \<leftarrow> fd_write fd bytes len s;
        Some (s, case n of None \<Rightarrow> BLOCKED | Some n \<Rightarrow> of_int_result n)
      }) s)"

definition handle_read :: "registers \<Rightarrow> 'a proc_state_scheme \<Rightarrow> ('a proc_state_scheme \<times> sys_result) option" where
  "handle_read r s =
     (let fd = to_int (rdi r); buf = rsi r; len = rdx r in
      if len > SYS_IO_MAX_LEN then Some (s, fail)
      else guarded [(buf, len)] (\<lambda>s.
        let (s, bytes, n) = fd_read fd len s in do {
          s \<leftarrow> user_write buf bytes s;
          Some (s, case n of None \<Rightarrow> BLOCKED | Some n \<Rightarrow> of_int_result n)
        }) s)"

definition handle_open :: "registers \<Rightarrow> 'a proc_state_scheme \<Rightarrow> ('a proc_state_scheme \<times> sys_result) option" where
  "handle_open r s =
     (let name_ptr = rsi r; flags = rdx r in
      guarded [(name_ptr, SYS_OPEN_NAME_MAX)] (\<lambda>s. do {
        name \<leftarrow> user_chars (unat SYS_OPEN_NAME_MAX - 1) name_ptr s;
        (s, fd) \<leftarrow> fd_open name flags s;
        Some (s, of_int_result fd)
      }) s)"

definition handle_remove :: "registers \<Rightarrow> 'a proc_state_scheme \<Rightarrow> ('a proc_state_scheme \<times> sys_result) option" where
  "handle_remove r s =
     (let name_ptr = rdi r in
      guarded [(name_ptr, SYS_OPEN_NAME_MAX)] (\<lambda>s. do {
        name \<leftarrow> user_chars (unat SYS_OPEN_NAME_MAX - 1) name_ptr s;
        (let handle = ufs_find name s in
         if handle < 0 \<or> ufs_owner handle s \<noteq> sched_get_uid (sched_current_tid s) s then Some (s, fail)
         else let (s, rc) = ufs_delete name s in Some (s, of_int_result rc))
      }) s)"

definition handle_draw_row :: "registers \<Rightarrow> 'a proc_state_scheme \<Rightarrow> ('a proc_state_scheme \<times> sys_result) option" where
  "handle_draw_row r s =
     (let row = rdi r; buf = rsi r; len = rdx r in
      if len > SYS_DRAW_ROW_MAX_LEN then Some (s, fail)
      else guarded [(buf, len)] (\<lambda>s. do {
        line \<leftarrow> user_bytes (unat len) buf s;
        Some (video_draw_row (ucast row) line (ucast len) s, RETURN 0)
      }) s)"

text \<open>\<open>SYS_SCREEN_INFO\<close> and \<open>SYS_MEMINFO\<close>: two 64-bit results behind two pointers.\<close>

definition handle_screen_info :: "registers \<Rightarrow> 'a proc_state_scheme \<Rightarrow> ('a proc_state_scheme \<times> sys_result) option" where
  "handle_screen_info r s =
     (let cols_ptr = rsi r; rows_ptr = rdx r in
      guarded [(cols_ptr, 8), (rows_ptr, 8)] (\<lambda>s. do {
        s \<leftarrow> user_write64 cols_ptr (ucast video_cols) s;
        s \<leftarrow> user_write64 rows_ptr (ucast video_rows) s;
        Some (s, RETURN 0)
      }) s)"

definition handle_meminfo :: "registers \<Rightarrow> 'a proc_state_scheme \<Rightarrow> ('a proc_state_scheme \<times> sys_result) option" where
  "handle_meminfo r s =
     (let total_ptr = rsi r; free_ptr = rdx r in
      guarded [(total_ptr, 8), (free_ptr, 8)] (\<lambda>s. do {
        s \<leftarrow> user_write64 total_ptr (pmm_total_frames s) s;
        s \<leftarrow> user_write64 free_ptr (pmm_free_frames s) s;
        Some (s, RETURN 0)
      }) s)"

definition handle_kill :: "registers \<Rightarrow> 'a proc_state_scheme \<Rightarrow> ('a proc_state_scheme \<times> sys_result) option" where
  "handle_kill r s =
     (let pid = rsi r; sig = rdx r in
      case process_kill (to_int pid) (to_int sig) s of
        (s, None) \<Rightarrow> Some (s, NEVER)
      | (s, Some rc) \<Rightarrow> Some (s, of_int_result rc))"

definition handle_pipe :: "registers \<Rightarrow> 'a proc_state_scheme \<Rightarrow> ('a proc_state_scheme \<times> sys_result) option" where
  "handle_pipe r s =
     (let out_ptr = rdi r in
      guarded [(out_ptr, 2 * 8)] (\<lambda>s.
        let (s, idx) = pipe_create s in
        if idx < 0 then Some (s, fail)
        else
          let (s, read_fd) = sched_fd_open FD_KIND_PIPE_READ idx s;
              (s, write_fd) = sched_fd_open FD_KIND_PIPE_WRITE idx s
          in if read_fd < 0 \<or> write_fd < 0 then
               let s = (if read_fd \<ge> 0 then fst (sched_fd_close read_fd s) else s);
                   s = (if write_fd \<ge> 0 then fst (sched_fd_close write_fd s) else s);
                   s = pipe_close_reader idx s;
                   s = pipe_close_writer idx s
               in Some (s, fail)
             else do {
               s \<leftarrow> user_write64 out_ptr (word_of_int read_fd) s;
               s \<leftarrow> user_write64 (out_ptr + 8) (word_of_int write_fd) s;
               Some (s, RETURN 0)
             }) s)"

text \<open>The command line of \<open>SYS_SPAWN\<close> and \<open>SYS_SPAWN_REDIRECT\<close>: the program's name and its arguments.\<close>

definition split_command :: "u8 list \<Rightarrow> (u8 list \<times> u8 list) option" where
  "split_command cmdline =
     (let split = length (takeWhile (\<lambda>c. c \<noteq> 0x20) cmdline) in
      if split = 0 \<or> split \<ge> SYS_SPAWN_NAME_MAX then None
      else Some (take split cmdline @ [0], dropWhile (\<lambda>c. c = 0x20) (drop split cmdline)))"

definition handle_spawn_redirect :: "u64 \<Rightarrow> registers \<Rightarrow> 'a proc_state_scheme \<Rightarrow> ('a proc_state_scheme \<times> sys_result) option" where
  "handle_spawn_redirect trampoline r s =
     (let buf = rdi r; len = rsi r; packed = rdx r in
      if len = 0 \<or> len \<ge> SYS_SPAWN_CMDLINE_MAX then Some (s, fail)
      else guarded [(buf, len)] (\<lambda>s. do {
        cmdline \<leftarrow> user_bytes (unat len) buf s;
        (case split_command cmdline of None \<Rightarrow> Some (s, fail)
         | Some (name, args) \<Rightarrow>
             let stdin_fd = sint (ucast (packed AND 0xFFFF) :: 16 word);
                 stdout_fd = sint (ucast (drop_bit 16 packed AND 0xFFFF) :: 16 word)
             in do {
               (s, pid) \<leftarrow> process_spawn_from_file_redirect trampoline name args (of_nat (length args)) stdin_fd stdout_fd s;
               Some (s, of_int_result pid)
             })
      }) s)"

definition handle_spawn :: "u64 \<Rightarrow> registers \<Rightarrow> 'a proc_state_scheme \<Rightarrow> ('a proc_state_scheme \<times> sys_result) option" where
  "handle_spawn trampoline r s =
     (let buf = rsi r; len = rdx r in
      if len = 0 \<or> len \<ge> SYS_SPAWN_CMDLINE_MAX then Some (s, fail)
      else guarded [(buf, len)] (\<lambda>s. do {
        cmdline \<leftarrow> user_bytes (unat len) buf s;
        (case split_command cmdline of None \<Rightarrow> Some (s, fail)
         | Some (name, args) \<Rightarrow> do {
             (s, pid) \<leftarrow> process_spawn_from_file trampoline name args (of_nat (length args)) s;
             Some (s, of_int_result pid)
           })
      }) s)"

definition handle_chmod :: "registers \<Rightarrow> 'a proc_state_scheme \<Rightarrow> ('a proc_state_scheme \<times> sys_result) option" where
  "handle_chmod r s =
     (let name_ptr = rsi r; perm = rdx r in
      guarded [(name_ptr, SYS_OPEN_NAME_MAX)] (\<lambda>s. do {
        name \<leftarrow> user_chars (unat SYS_OPEN_NAME_MAX - 1) name_ptr s;
        (let handle = ufs_find name s in
         if handle < 0 \<or> ufs_owner handle s \<noteq> sched_get_uid (sched_current_tid s) s then Some (s, fail)
         else let (s, rc) = ufs_chmod handle (ucast perm) s in Some (s, of_int_result rc))
      }) s)"

definition handle_login :: "registers \<Rightarrow> 'a proc_state_scheme \<Rightarrow> ('a proc_state_scheme \<times> sys_result) option" where
  "handle_login r s =
     (let user_ptr = rsi r; pass_ptr = rdx r in
      guarded [(user_ptr, of_nat USER_NAME_MAX), (pass_ptr, 64)] (\<lambda>s. do {
        user \<leftarrow> user_chars (USER_NAME_MAX - 1) user_ptr s;
        password \<leftarrow> user_chars 63 pass_ptr s;
        (case users_authenticate user password s of
           None \<Rightarrow> Some (s, fail)
         | Some uid \<Rightarrow> Some (fst (sched_set_uid (sched_current_tid s) uid s), RETURN 0))
      }) s)"

definition handle_adduser :: "registers \<Rightarrow> 'a proc_state_scheme \<Rightarrow> ('a proc_state_scheme \<times> sys_result) option" where
  "handle_adduser r s =
     (if sched_get_uid (sched_current_tid s) s \<noteq> 0 then Some (s, fail)
      else let user_ptr = rdi r; pass_ptr = rsi r; uid = rdx r in
        guarded [(user_ptr, of_nat USER_NAME_MAX), (pass_ptr, 64)] (\<lambda>s. do {
          user \<leftarrow> user_chars (USER_NAME_MAX - 1) user_ptr s;
          password \<leftarrow> user_chars 63 pass_ptr s;
          (s, rc) \<leftarrow> users_add user password (ucast uid) s;
          Some (s, of_int_result rc)
        }) s)"

text \<open>The name is built in a local buffer of 20 bytes, all of which the copy loop may read.\<close>

definition handle_username :: "registers \<Rightarrow> 'a proc_state_scheme \<Rightarrow> ('a proc_state_scheme \<times> sys_result) option" where
  "handle_username r s =
     (let uid = rdi r; out_ptr = rsi r; out_len = rdx r in
      guarded [(out_ptr, out_len)] (\<lambda>s.
        let (rc, name) = users_name_for_uid (ucast uid) (replicate USER_NAME_MAX 0) (of_nat USER_NAME_MAX) s in
        if rc \<noteq> 0 then Some (s, fail)
        else do {
          s \<leftarrow> user_write out_ptr (copy_name_loop (unat out_len - 1) name @ [0]) s;
          Some (s, RETURN 0)
        }) s)"

text \<open>\<open>while (handle >= 0 && i < memfs_index) { handle = memfs_next(handle); i++; }\<close>\<close>

fun memfs_skip :: "nat \<Rightarrow> int \<Rightarrow> 'a memfs_state_scheme \<Rightarrow> int" where
  "memfs_skip 0 handle s = handle"
| "memfs_skip (Suc n) handle s = (if handle \<ge> 0 then memfs_skip n (memfs_next handle s) s else handle)"

text \<open>The name of entry number \<open>index\<close> with the bytes behind it in its record.\<close>

definition list_name :: "u64 \<Rightarrow> 'a fs_state_scheme \<Rightarrow> u8 list option" where
  "list_name index s =
     (let disk_count = fs_file_count s; mem_count = memfs_file_count s in
      if index < ucast disk_count then
        map_option (\<lambda>e. f_name e @ u32_bytes (f_start_lba e) @ u32_bytes (f_size_bytes e)) (fs_entry (unat (ucast index :: u32)) s)
      else if index < ucast disk_count + ucast mem_count then
        let handle = memfs_skip (unat (index - ucast disk_count)) (memfs_first s) s in
        if handle \<ge> 0 then Some (memfs_name handle s) else None
      else
        map_option (\<lambda>e. d_name e @ u32_bytes (d_size_bytes e) @ u32_bytes (d_owner_uid e) @ [d_perm e])
          (ufs_entry (ucast (index - ucast disk_count - ucast mem_count)) s))"

definition handle_list :: "registers \<Rightarrow> 'a proc_state_scheme \<Rightarrow> ('a proc_state_scheme \<times> sys_result) option" where
  "handle_list r s =
     (let index = rdi r; buf = rsi r; buf_len = rdx r in
      if buf_len = 0 then Some (s, fail)
      else guarded [(buf, buf_len)] (\<lambda>s.
        case list_name index s of None \<Rightarrow> Some (s, fail)
        | Some name \<Rightarrow> do {
            s \<leftarrow> user_write buf (copy_name_loop (unat (buf_len - 1)) name @ [0]) s;
            Some (s, RETURN 0)
          }) s)"

definition handle_wait :: "registers \<Rightarrow> 'a proc_state_scheme \<Rightarrow> ('a proc_state_scheme \<times> sys_result) option" where
  "handle_wait r s = do {
     (s, res) \<leftarrow> process_wait (to_int (rdi r)) s;
     Some (s, case res of None \<Rightarrow> BLOCKED
       | Some (rc, status) \<Rightarrow> if rc \<noteq> 0 then fail else of_int_result (the status))
   }"

definition syscall_handler :: "u64 \<Rightarrow> registers \<Rightarrow> 'a proc_state_scheme \<Rightarrow> ('a proc_state_scheme \<times> sys_result) option" where
  "syscall_handler trampoline r s =
     (if rax r = SYS_WRITE_HELLO then Some (s, RETURN 0)
      else if rax r = SYS_WRITE then handle_write r s
      else if rax r = SYS_READ then handle_read r s
      else if rax r = SYS_OPEN then handle_open r s
      else if rax r = SYS_CLOSE then let (s, rc) = fd_close (to_int (rdi r)) s in Some (s, of_int_result rc)
      else if rax r = SYS_REMOVE then handle_remove r s
      else if rax r = SYS_CLEAR then Some (clearwin s, RETURN 0)
      else if rax r = SYS_SET_CURSOR then Some (video_set_cursor (ucast (rsi r)) (ucast (rdx r)) s, RETURN 0)
      else if rax r = SYS_DRAW_ROW then handle_draw_row r s
      else if rax r = SYS_SCREEN_INFO then handle_screen_info r s
      else if rax r = SYS_KILL then handle_kill r s
      else if rax r = SYS_PIPE then handle_pipe r s
      else if rax r = SYS_SPAWN_REDIRECT then handle_spawn_redirect trampoline r s
      else if rax r = SYS_GETUID then Some (s, RETURN (ucast (sched_get_uid (sched_current_tid s) s)))
      else if rax r = SYS_CHMOD then handle_chmod r s
      else if rax r = SYS_LOGIN then handle_login r s
      else if rax r = SYS_ADDUSER then handle_adduser r s
      else if rax r = SYS_USERNAME then handle_username r s
      else if rax r = SYS_LIST then handle_list r s
      else if rax r = SYS_WHOAMI then Some (s, of_int_result (sched_current_tid s))
      else if rax r = SYS_MEMINFO then handle_meminfo r s
      else if rax r = SYS_SPAWN then handle_spawn trampoline r s
      else if rax r = SYS_WAIT then handle_wait r s
      else if rax r = SYS_EXIT then Some (fst (process_exit (to_int (rdi r)) s), NEVER)
      else Some (s, fail))"

section \<open>The range check\<close>

text \<open>The loop visits the pages from the first to the last and returns, also when the addresses wrap.\<close>

lemma user_pages_ok_iff:
  assumes "n < 2 ^ 52"
  shows "user_pages_ok sp page (page + of_nat (4096 * n)) m =
    Some (\<forall>k\<le>n. vmm_is_user_accessible_in sp (page + of_nat (4096 * k)) m)"
  using assms
proof (induction n arbitrary: page)
  case 0
  show ?case by (subst user_pages_ok.simps) simp
next
  case (Suc n)
  have "of_nat (4096 * Suc n) \<noteq> (0 :: u64)"
  proof
    assume "of_nat (4096 * Suc n) = (0 :: u64)"
    then have "2 ^ 64 dvd 4096 * Suc n" by (simp only: word_of_nat_eq_0_iff) simp
    then show False using Suc.prems by (auto dest!: dvd_imp_le)
  qed
  then have ne: "page \<noteq> page + of_nat (4096 * Suc n)" by simp
  have shift: "page + 0x1000 + of_nat (4096 * k) = page + of_nat (4096 * Suc k)" for k by (simp add: algebra_simps)
  have ih: "user_pages_ok sp (page + 0x1000) (page + of_nat (4096 * Suc n)) m =
      Some (\<forall>k\<le>n. vmm_is_user_accessible_in sp (page + of_nat (4096 * Suc k)) m)"
    using Suc.IH [of "page + 0x1000"] Suc.prems unfolding shift by simp
  define L where "L = page + of_nat (4096 * Suc n)"
  define P where "P k = vmm_is_user_accessible_in sp (page + of_nat (4096 * k)) m" for k
  have all: "(\<forall>k\<le>Suc n. P k) \<longleftrightarrow> P 0 \<and> (\<forall>k\<le>n. P (Suc k))"
    by (metis le0 Suc_le_mono not0_implies_Suc)
  have "user_pages_ok sp page L m = (if \<not> P 0 then Some False else if page = L then Some True else user_pages_ok sp (page + 0x1000) L m)"
    by (subst user_pages_ok.simps) (simp add: P_def)
  moreover have "page \<noteq> L" unfolding L_def by (rule ne)
  moreover have "user_pages_ok sp (page + 0x1000) L m = Some (\<forall>k\<le>n. P (Suc k))" unfolding L_def P_def by (rule ih)
  ultimately have "user_pages_ok sp page L m = Some (\<forall>k\<le>Suc n. P k)" using all by simp
  then show ?case by (simp only: L_def P_def)
qed

lemma accessible_page: "vmm_is_user_accessible_in sp v m = vmm_is_user_accessible_in sp (v AND NOT 0xFFF) m"
proof -
  have low: "(0xFFF :: u64) = mask 12" by (simp add: mask_eq_exp_minus_1)
  have "same_page v (v AND NOT 0xFFF)"
    unfolding same_page_bits low by (auto simp: bit_simps)
  then show ?thesis unfolding user_accessible_tbl by (simp only: same_page_indices)
qed

lemma page_base_of_nat: "v AND NOT 0xFFF = of_nat (4096 * (unat v div 4096))" for v :: u64
proof -
  have "4096 * (unat v div 4096) < 2 ^ LENGTH(64)" using unsigned_less [of v, where ?'a = nat] by simp
  then have "unat (of_nat (4096 * (unat v div 4096)) :: u64) = 4096 * (unat v div 4096)" by (simp only: unat_of_nat mod_less)
  then show ?thesis unfolding word_unat_eq_iff unat_page_base by (simp only: mult.commute)
qed

lemma unat_space_above: "unat (NOT 0 - v) = 2 ^ 64 - 1 - unat v" for v :: u64
proof -
  have "unat (NOT 0 :: u64) = 2 ^ 64 - 1" by (simp add: unsigned_minus_1_eq_mask mask_eq_exp_minus_1)
  moreover have "v \<le> NOT 0" by simp
  ultimately show ?thesis by (simp only: unat_sub)
qed

lemma accessible_of_page: "vmm_is_user_accessible_in sp v m = vmm_is_user_accessible_in sp (of_nat (4096 * (unat v div 4096))) m"
  using accessible_page [of sp v m] unfolding page_base_of_nat .

text \<open>\<open>in_user_range\<close>: the specification, byte by byte and without wrapping.\<close>

definition in_user_range :: "u64 \<Rightarrow> u64 \<Rightarrow> 'a vmm_state_scheme \<Rightarrow> bool" where
  "in_user_range v len s \<longleftrightarrow> unat v + unat len \<le> 2 ^ 64 \<and>
     (\<forall>i<unat len. vmm_is_user_accessible_in (vmm_current_address_space s) (v + of_nat i) (phys_mem s))"

lemma user_range_ok_total:
  assumes "len \<noteq> 0"
  shows "user_range_ok v len s = Some (in_user_range v len s)"
proof (cases "unat v + unat len \<le> 2 ^ 64")
  case False
  have "len - 1 > NOT 0 - v"
  proof -
    note unat_space_above [of v]
    moreover have "unat (len - 1) = unat len - 1" using assms by (simp add: unat_minus_one)
    ultimately show ?thesis using False unsigned_less [of v, where ?'a = nat] unsigned_less [of len, where ?'a = nat]
      unfolding word_less_nat_alt by simp
  qed
  then show ?thesis using assms False by (simp add: user_range_ok_def in_user_range_def)
next
  case True
  let ?sp = "vmm_current_address_space s" and ?m = "phys_mem s"
  let ?A = "\<lambda>p. vmm_is_user_accessible_in ?sp (of_nat (4096 * p)) ?m"
  have l: "0 < unat len" using assms by (simp add: unat_gt_0)
  have le: "\<not> len - 1 > NOT 0 - v"
  proof -
    note unat_space_above [of v]
    moreover have "unat (len - 1) = unat len - 1" using assms by (simp add: unat_minus_one)
    ultimately show ?thesis using True by (simp add: word_less_nat_alt)
  qed
  have end_u: "unat (v + len - 1) = unat v + unat len - 1"
  proof -
    have e: "v + len - 1 = of_nat (unat v + unat len - 1)" using l by (simp add: of_nat_diff)
    have "unat v + unat len - 1 < 2 ^ LENGTH(64)" using True l by simp
    then show ?thesis by (simp only: e unat_of_nat mod_less)
  qed
  let ?q = "unat v div 4096" and ?q' = "(unat v + unat len - 1) div 4096"
  have q: "?q \<le> ?q'" by (rule div_le_mono) (use l in simp)
  have q': "?q' < 2 ^ 52" using True l by (simp add: less_mult_imp_div_less)
  note base = page_base_of_nat
  have last: "(v + len - 1) AND NOT 0xFFF = (v AND NOT 0xFFF) + of_nat (4096 * (?q' - ?q))"
    unfolding base end_u using q by (simp flip: of_nat_add add: algebra_simps diff_mult_distrib2)
  have pages: "(v AND NOT 0xFFF) + of_nat (4096 * k) = of_nat (4096 * (?q + k))" for k
    unfolding base by (simp add: algebra_simps)
  have byte: "vmm_is_user_accessible_in ?sp (v + of_nat i) ?m = ?A ((unat v + i) div 4096)" if "i < unat len" for i
  proof -
    have "unat (v + of_nat i) = unat v + i"
    proof -
      have e: "v + of_nat i = of_nat (unat v + i)" by simp
      have "unat v + i < 2 ^ LENGTH(64)" using True that by simp
      then show ?thesis by (simp only: e unat_of_nat mod_less)
    qed
    then show ?thesis using accessible_of_page [of ?sp "v + of_nat i" ?m] by simp
  qed
  have "(\<forall>k\<le>?q' - ?q. ?A (?q + k)) \<longleftrightarrow> (\<forall>i<unat len. ?A ((unat v + i) div 4096))"
  proof (intro iffI allI impI)
    fix i
    assume a: "\<forall>k\<le>?q' - ?q. ?A (?q + k)" and i: "i < unat len"
    define p where "p = (unat v + i) div 4096"
    have "?q \<le> p" "p \<le> ?q'" unfolding p_def using i by (auto intro: div_le_mono)
    then have "?A (?q + (p - ?q))" "?q + (p - ?q) = p" using a by (auto intro: diff_le_mono)
    then show "?A ((unat v + i) div 4096)" unfolding p_def by metis
  next
    fix k
    assume a: "\<forall>i<unat len. ?A ((unat v + i) div 4096)" and k: "k \<le> ?q' - ?q"
    show "?A (?q + k)"
    proof (cases "k = 0")
      case True
      then show ?thesis using a [rule_format, of 0] l by simp
    next
      case False
      have b: "4096 * (?q + k) \<le> unat v + unat len - 1"
      proof -
        have "?q + k \<le> ?q'" using k q by linarith
        then have "4096 * (?q + k) \<le> 4096 * ?q'" by (rule mult_le_mono2)
        also have "\<dots> \<le> unat v + unat len - 1" by simp
        finally show ?thesis .
      qed
      have "unat v < 4096 * (?q + k)"
      proof -
        have "unat v mod 4096 < 4096" by simp
        then have "unat v < 4096 * ?q + 4096" using div_mult_mod_eq [of "unat v" 4096] by linarith
        also have "\<dots> \<le> 4096 * (?q + k)" using False by simp
        finally show ?thesis .
      qed
      then have "unat v + (4096 * (?q + k) - unat v) = 4096 * (?q + k)" "4096 * (?q + k) - unat v < unat len" using b l by simp_all
      then show ?thesis using a [rule_format, of "4096 * (?q + k) - unat v"] by simp
    qed
  qed
  moreover have "user_range_ok v len s = Some (\<forall>k\<le>?q' - ?q. ?A (?q + k))"
  proof -
    have "user_range_ok v len s = user_pages_ok ?sp (v AND NOT 0xFFF) ((v + len - 1) AND NOT 0xFFF) ?m"
      unfolding user_range_ok_def using assms le by (simp only: if_False)
    also have "\<dots> = Some (\<forall>k\<le>?q' - ?q. ?A (?q + k))"
      unfolding last pages [symmetric] by (rule user_pages_ok_iff) (use q' in linarith)
    finally show ?thesis .
  qed
  ultimately show ?thesis using True byte by (simp add: in_user_range_def)
qed

lemma user_range_ok_eq: "user_range_ok v len s = Some (len = 0 \<or> in_user_range v len s)"
  using user_range_ok_total [of len v s] by (cases "len = 0") (simp_all add: user_range_ok_def)

text \<open>A byte that passed the check can be read.\<close>

lemma accessible_walk: "vmm_is_user_accessible_in sp v m \<Longrightarrow> walk m (space_pml4 sp) v \<noteq> None"
  unfolding user_accessible_tbl by (auto simp: walk_def target_cases Let_def simp del: tbl.simps)

lemma current_root: "space_pml4 (vmm_current_address_space s) = space_pml4 (cr3 s)"
  by (simp add: space_pml4_def vmm_current_address_space_def and.assoc)

lemma user_bytes_ok:
  assumes "\<forall>i<n. vmm_is_user_accessible_in (vmm_current_address_space s) (v + of_nat i) (phys_mem s)"
  shows "\<exists>bs. user_bytes n v s = Some bs \<and> length bs = n \<and>
    (\<forall>i<n. \<exists>p w. walk (phys_mem s) (space_pml4 (cr3 s)) (v + of_nat i) = Some (p, w) \<and> bs ! i = phys_mem s p)"
  using assms
proof (induction n arbitrary: v)
  case (Suc n)
  have "\<forall>i<n. vmm_is_user_accessible_in (vmm_current_address_space s) (v + 1 + of_nat i) (phys_mem s)"
    using Suc.prems by (auto simp: add.assoc dest: spec [of _ "Suc _"])
  then obtain bs where bs: "user_bytes n (v + 1) s = Some bs" "length bs = n"
      "\<forall>i<n. \<exists>p w. walk (phys_mem s) (space_pml4 (cr3 s)) (v + 1 + of_nat i) = Some (p, w) \<and> bs ! i = phys_mem s p"
    using Suc.IH [of "v + 1"] by blast
  have "walk (phys_mem s) (space_pml4 (cr3 s)) v \<noteq> None"
    using accessible_walk [of "vmm_current_address_space s" v "phys_mem s"] Suc.prems [rule_format, of 0] unfolding current_root by simp
  then obtain p w where p: "walk (phys_mem s) (space_pml4 (cr3 s)) v = Some (p, w)" by (cases "walk (phys_mem s) (space_pml4 (cr3 s)) v") auto
  show ?case
  proof (rule exI [of _ "phys_mem s p # bs"], intro conjI allI impI)
    show "user_bytes (Suc n) v s = Some (phys_mem s p # bs)" using bs(1) p by (simp add: user_load_def)
    show "\<exists>q w. walk (phys_mem s) (space_pml4 (cr3 s)) (v + of_nat i) = Some (q, w) \<and> (phys_mem s p # bs) ! i = phys_mem s q" if "i < Suc n" for i
      using that bs(3) p by (cases i) (auto simp: add.assoc)
  qed (use bs(2) in simp)
qed simp


section \<open>Refused pointers\<close>

lemma guarded_eq: "guarded rs k s = (if \<forall>(v, len)\<in>set rs. len = 0 \<or> in_user_range v len s then k s else Some (s, fail))"
proof (induction rs)
  case (Cons r rs)
  then show ?case by (cases r) (simp add: user_range_ok_eq)
qed simp

declare guarded.simps [simp del]

lemma guarded_refuses:
  assumes "(v, len) \<in> set rs" and "i < unat len"
    and "unat v + i \<ge> 2 ^ 64 \<or> \<not> vmm_is_user_accessible_in (vmm_current_address_space s) (v + of_nat i) (phys_mem s)"
  shows "guarded rs k s = Some (s, fail)"
proof -
  have "\<not> in_user_range v len s" "len \<noteq> 0" using assms(2,3) by (auto simp: in_user_range_def)
  then show ?thesis using assms(1) by (auto simp: guarded_eq)
qed

text \<open>The ranges of user memory that a call names in its registers: where each begins and its length.\<close>

definition named_ranges :: "registers \<Rightarrow> (u64 \<times> u64) list" where
  "named_ranges r =
     (if rax r \<in> {SYS_WRITE, SYS_READ, SYS_DRAW_ROW, SYS_SPAWN, SYS_USERNAME, SYS_LIST} then [(rsi r, rdx r)]
      else if rax r \<in> {SYS_OPEN, SYS_CHMOD} then [(rsi r, 32)]
      else if rax r = SYS_REMOVE then [(rdi r, 32)]
      else if rax r \<in> {SYS_SCREEN_INFO, SYS_MEMINFO} then [(rsi r, 8), (rdx r, 8)]
      else if rax r = SYS_PIPE then [(rdi r, 16)]
      else if rax r = SYS_SPAWN_REDIRECT then [(rdi r, rsi r)]
      else if rax r = SYS_LOGIN then [(rsi r, 20), (rdx r, 64)]
      else if rax r = SYS_ADDUSER then [(rdi r, 20), (rsi r, 64)]
      else [])"

lemmas handlers = handle_write_def handle_read_def handle_open_def handle_remove_def handle_draw_row_def handle_screen_info_def
  handle_meminfo_def handle_kill_def handle_pipe_def handle_spawn_redirect_def handle_spawn_def handle_chmod_def handle_login_def
  handle_adduser_def handle_username_def handle_list_def handle_wait_def

section \<open>What the calls leave alone\<close>

text \<open>\<open>store_frame s t\<close>: the same disk and the same state of the user file system.\<close>

definition store_frame :: "'a ufs_state_scheme \<Rightarrow> 'a ufs_state_scheme \<Rightarrow> bool" where
  "store_frame s t \<longleftrightarrow> same_io s t \<and> ufs_same s t"

named_theorems store_simps \<open>operations that do not touch the user file system\<close>

lemma store_frame_refl [simp]: "store_frame s s"
  by (simp add: store_frame_def same_io_def ufs_same_def)

lemma store_frame_kept: "store_frame s t \<Longrightarrow> fs_kept s t"
  unfolding store_frame_def by (auto intro: fs_kept_same)

lemma store_frame_trans: "store_frame s t \<Longrightarrow> store_frame t u \<Longrightarrow> store_frame s u"
  by (simp add: store_frame_def same_io_def ufs_same_def)

lemma store_frame_eq: "store_frame t u \<Longrightarrow> store_frame s u = store_frame s t"
  by (auto simp: store_frame_def same_io_def ufs_same_def)

lemma low_store_frame:
  fixes s t :: "'a ufs_state_scheme"
  assumes "low_frame s t"
  shows "store_frame s t"
proof -
  have f: "sel t = sel s" if "\<And>u. sel (low_clear u) = sel u" for sel using assms that by (metis low_frame_def)
  have "same_io s t" unfolding same_io_def by (intro conjI f; simp add: low_clear_def sched_clear_def mm_clear_def pmm_clear_def)
  moreover have "ufs_same s t" unfolding ufs_same_def by (intro conjI f; simp add: low_clear_def sched_clear_def mm_clear_def pmm_clear_def)
  ultimately show ?thesis by (simp add: store_frame_def)
qed

lemma sched_store_frame: "sched_frame s t \<Longrightarrow> store_frame s t" for s t :: "'a ufs_state_scheme"
  by (rule low_store_frame) (simp add: sched_low_frame [of s])

lemma mm_store_frame: "mm_frame s t \<Longrightarrow> store_frame s t" for s t :: "'a ufs_state_scheme"
  by (rule sched_store_frame) (simp add: mm_frame_sched_frame [of s])

lemma store_frame_table [store_simps]:
  "store_frame s (upd_process i f t) = store_frame s t" "store_frame s (next_pid_update g t) = store_frame s t"
  by (simp_all add: store_frame_def same_io_def ufs_same_def upd_process_def)

lemma store_frame_upd [store_simps]:
  "store_frame s (phys_mem_update m t) = store_frame s t" "store_frame s (stack_regions_update h t) = store_frame s t"
  "store_frame s (upd_thread tid k t) = store_frame s t" "store_frame s (current_thread_update c t) = store_frame s t"
  by (simp_all add: store_frame_def same_io_def ufs_same_def upd_thread_def)

lemma store_frame_low [store_simps]:
  "store_frame s (sched_wakeup ch t) = store_frame s t" "store_frame s (fst (sched_sleep ch t)) = store_frame s t"
  "store_frame s (fst (sched_fd_open k h t)) = store_frame s t" "store_frame s (fst (sched_fd_close fd t)) = store_frame s t"
  "store_frame s (pipe_close_reader p t) = store_frame s t" "store_frame s (pipe_close_writer p t) = store_frame s t"
  "store_frame s (upd_pipe p f t) = store_frame s t" "store_frame s (upd_fd tid fd e t) = store_frame s t"
  "store_frame s (activate tid t) = store_frame s t" "store_frame s (switch_context from to t) = store_frame s t"
  "store_frame s (sched_set_address_space tid sp t) = store_frame s t"
  by (rule store_frame_eq, rule low_store_frame, simp add: low_simps)+
    (rule store_frame_eq, rule sched_store_frame, simp add: sched_frame_simps)+

lemma store_frame_close [store_simps]: "store_frame s (fst (fd_close fd t)) = store_frame s t"
  by (rule store_frame_eq, rule low_store_frame) (simp add: low_simps)

lemma store_frame_alloc [store_simps]:
  "kmalloc n t = Some (u, p) \<Longrightarrow> store_frame s u = store_frame s t" "kfree q t = Some u \<Longrightarrow> store_frame s u = store_frame s t"
  by (rule store_frame_eq, rule mm_store_frame, erule kmalloc_sched, rule store_frame_eq, rule mm_store_frame, erule kfree_sched)

lemma store_frame_process [store_simps]:
  "store_frame s (process_mark_exited tid st t) = store_frame s t" "store_frame s (fst (sched_exit_status st t)) = store_frame s t"
  "store_frame s (fst (process_exit st t)) = store_frame s t" "store_frame s (fst (sched_kill tid st t)) = store_frame s t"
  "store_frame s (fst (process_kill pid sig t)) = store_frame s t" "store_frame s (release_process pid t) = store_frame s t"
  "store_frame s (fst (reserve_process t)) = store_frame s t" "store_frame s (fst (sched_set_uid tid uid t)) = store_frame s t"
proof -
  show mark: "store_frame s (process_mark_exited tid st t) = store_frame s t" for tid st t
    by (simp add: process_mark_exited_def Let_def store_simps split: option.split)
  show exit: "store_frame s (fst (sched_exit_status st t)) = store_frame s t" for st t
    by (simp add: sched_exit_status_def Let_def store_simps mark)
  show "store_frame s (fst (process_exit st t)) = store_frame s t" by (simp add: process_exit_def exit)
  show kill: "store_frame s (fst (sched_kill tid st t)) = store_frame s t" for tid st
    by (simp add: sched_kill_def Let_def store_simps mark exit)
  show "store_frame s (fst (process_kill pid sig t)) = store_frame s t" by (simp add: process_kill_def Let_def kill)
  show "store_frame s (release_process pid t) = store_frame s t" by (simp add: release_process_def store_simps split: option.split)
  show "store_frame s (fst (reserve_process t)) = store_frame s t" by (simp add: reserve_process_def Let_def store_simps split: option.split)
  show "store_frame s (fst (sched_set_uid tid uid t)) = store_frame s t" by (simp add: sched_set_uid_def store_simps)
qed

lemma store_frame_reap: "reap_zombie tid s = Some t \<Longrightarrow> store_frame s t"
proof -
  assume r: "reap_zombie tid s = Some t"
  have cl: "store_frame s (fd_cleanup_thread tid s)"
  proof -
    have "store_frame u (fold (\<lambda>fd s. case sched_fd_get_for tid (int fd) s of None \<Rightarrow> s | Some slot \<Rightarrow> release_slot slot s) xs u)" for xs u
    proof (induction xs arbitrary: u)
      case (Cons x xs)
      let ?v = "case sched_fd_get_for tid (int x) u of None \<Rightarrow> u | Some slot \<Rightarrow> release_slot slot u"
      have "store_frame u ?v" by (simp add: release_slot_def store_simps split: option.split)
      then show ?case using store_frame_trans [OF _ Cons.IH] by simp
    qed simp
    then show ?thesis by (simp add: fd_cleanup_thread_def)
  qed
  have st: "store_frame s (reap_stack tid (fd_cleanup_thread tid s))"
    by (rule store_frame_trans [OF cl mm_store_frame]) (rule reap_stack_frame)
  have sp: "store_frame u v" if rs: "reap_space tid u = Some v" for u v :: "'a proc_state_scheme"
  proof -
    have d: "store_frame w (process_reap_thread tid x w)" for x and w :: "'a proc_state_scheme"
      unfolding process_reap_thread_def Let_def
      by (rule store_frame_trans [of w "case find_process_by_tid tid w of None \<Rightarrow> w | Some i \<Rightarrow> upd_process i (\<lambda>p. p\<lparr>pr_address_space := 0\<rparr>) w",
            OF _ mm_store_frame]) (simp_all add: store_simps mm_simps split: option.split)
    have un: "store_frame u w" if "vmm_unregister_growable_stack x u = Some w" for x w
      using that by (auto simp: vmm_unregister_growable_stack_def store_simps split: option.splits prod.splits)
    consider "v = u" | w x y where "vmm_unregister_growable_stack x u = Some w" "v = process_reap_thread tid y w"
      using rs by (auto simp: reap_space_def split: if_splits bind_splits)
    then show ?thesis
    proof cases
      case 2
      show ?thesis unfolding 2(2) by (rule store_frame_trans [OF un [OF 2(1)] d])
    qed simp
  qed
  consider "t = s" | u f where "reap_space tid (reap_stack tid (fd_cleanup_thread tid s)) = Some u" "t = upd_thread tid f u"
    using r by (auto simp: reap_zombie_def split: if_splits bind_splits)
  then show ?thesis
  proof cases
    case 2
    then show ?thesis using store_frame_trans [OF st sp [OF 2(1)]] by (simp add: store_simps)
  qed simp
qed

lemma store_frame_wait: "process_wait pid s = Some (t, r) \<Longrightarrow> store_frame s t"
  by (auto simp: process_wait_def sched_reap_thread_def Let_def store_simps split: option.splits if_splits bind_splits dest: store_frame_reap)

lemma store_frame_spawn:
  fixes s t :: "'a proc_state_scheme"
  assumes "spawn_elf_request tr d n own a l s = Some (t, r)"
  shows "store_frame s t"
proof -
  have free: "store_frame u w" if "free_if_owned own d u = Some w" for u w :: "'a proc_state_scheme"
    by (rule mm_store_frame [OF free_if_owned_frame [OF that]])
  have sp: "store_frame u w" if "sched_spawn_with_context f c u = Some (w, tid)" for f c u tid and w :: "'a proc_state_scheme"
    using that by (intro sched_store_frame) (auto simp: sched_spawn_with_context_def dest: sched_spawn_frame)
  obtain s1 req where k: "kmalloc ELF_REQUEST_SIZE s = Some (s1, req)"
    using assms by (auto simp: spawn_elf_request_def split: bind_splits)
  have f1: "store_frame s s1" using store_frame_alloc(1) [OF k, of s] by simp
  show ?thesis
  proof (cases "req = 0")
    case True
    then have "free_if_owned own d s1 = Some t" using assms k by (auto simp: spawn_elf_request_def split: bind_splits)
    then show ?thesis using store_frame_trans [OF f1 free] by blast
  next
    case False
    let ?l = "if l > USER_ARGV_RESERVED then USER_ARGV_RESERVED else l"
    let ?s2 = "s1\<lparr>phys_mem := store_request req d n own a ?l (phys_mem s1)\<rparr>"
    obtain s3 rp where rs: "reserve_process ?s2 = (s3, rp)" by fastforce
    have f3: "store_frame s s3" using store_frame_process(7) [of s ?s2] rs f1 by (simp add: store_simps)
    show ?thesis
    proof (cases rp)
      case None
      then obtain u where u: "free_if_owned own d s3 = Some u" "kfree req u = Some t"
        using assms k False rs by (auto simp: spawn_elf_request_def Let_def split: bind_splits)
      show ?thesis using store_frame_trans [OF f3 free [OF u(1)]] store_frame_alloc(2) [OF u(2), of s] by simp
    next
      case (Some pid)
      obtain s4 tid where s4: "sched_spawn_with_context tr req s3 = Some (s4, tid)"
        using assms k False rs Some by (auto simp: spawn_elf_request_def Let_def split: bind_splits)
      have f4: "store_frame s s4" by (rule store_frame_trans [OF f3 sp [OF s4]])
      show ?thesis
      proof (cases "tid < 0")
        case True
        then obtain u where u: "free_if_owned own d (release_process pid s4) = Some u" "kfree req u = Some t"
          using assms k False rs Some s4 by (auto simp: spawn_elf_request_def Let_def split: bind_splits)
        have "store_frame s (release_process pid s4)" using f4 by (simp add: store_simps)
        then show ?thesis using store_frame_trans [OF _ free [OF u(1)]] store_frame_alloc(2) [OF u(2), of s] by simp
      next
        case False
        then have "t = (case find_process pid s4 of None \<Rightarrow> s4 | Some i \<Rightarrow> upd_process i (\<lambda>p. p\<lparr>pr_tid := tid\<rparr>) s4)"
          using assms k \<open>req \<noteq> 0\<close> rs Some s4 by (auto simp: spawn_elf_request_def Let_def)
        then show ?thesis using f4 by (simp add: store_simps split: option.split)
      qed
    qed
  qed
qed

text \<open>User memory, descriptors of a new process, the console.\<close>

lemma user_write_store: "user_write v bs s = Some t \<Longrightarrow> store_frame s t" for s t :: "'a ufs_state_scheme"
proof (induction bs arbitrary: v s)
  case (Cons b bs)
  obtain u where u: "user_store v b s = Some u" "user_write (v + 1) bs u = Some t" using Cons.prems by (auto split: bind_splits)
  have "store_frame s u" using u(1) by (auto simp: user_store_def store_simps)
  then show ?case using Cons.IH [OF u(2)] store_frame_trans by blast
qed simp

lemma user_write64_store: "user_write64 v x s = Some t \<Longrightarrow> store_frame s t" for s t :: "'a ufs_state_scheme"
  unfolding user_write64_def by (rule user_write_store)

lemma store_frame_redirect [store_simps]:
  "store_frame s (redirect_stdin tid fd t) = store_frame s t" "store_frame s (redirect_stdout tid fd t) = store_frame s t"
  by (simp_all add: redirect_stdin_def redirect_stdout_def sched_fd_set_def pipe_add_reader_def pipe_add_writer_def store_simps
      split: option.split)

lemma fs_kept_cursor: "fs_kept t (update_hardware_cursor t)"
proof -
  have "\<not> ata_port VGA_CRTC_INDEX" "\<not> ata_port VGA_CRTC_DATA" by (simp_all add: ata_port_def VGA_CRTC_INDEX_def VGA_CRTC_DATA_def)
  then show ?thesis unfolding update_hardware_cursor_def Let_def by (meson fs_kept_outb fs_kept_trans)
qed

lemma fs_kept_video: "fs_kept s (clearwin s)" "fs_kept s (video_draw_row row line len s)" "fs_kept s (video_set_cursor row col s)"
proof -
  show "fs_kept s (clearwin s)" by (rule video_clear_kept) (simp add: video_clear_def clearwin_def)
  show "fs_kept s (video_draw_row row line len s)" by (rule video_clear_kept) (simp add: video_clear_def video_draw_row_def Let_def)
  obtain t where t: "video_set_cursor row col s = update_hardware_cursor t" "video_clear t = video_clear s"
    by (rule that, unfold video_set_cursor_def Let_def, rule refl) simp
  show "fs_kept s (video_set_cursor row col s)"
    unfolding t(1) by (rule fs_kept_trans [OF video_clear_kept [OF t(2)] fs_kept_cursor])
qed

text \<open>Reading the boot file system, when its files lie on the disk.\<close>

lemma fs_kept_disk:
  assumes "disk_ok UFS_END t" and "same_disk UFS_END s t" and same: "ufs_same s t"
  shows "fs_kept s t"
  unfolding fs_kept_def
proof
  assume ok: "ufs_ok s"
  have img: "disk_image t l = disk_image s l" if "l < UFS_END" for l using assms(2) that by (simp add: same_disk_def)
  have dir: "directory t = directory s" using same by (simp add: ufs_same_def)
  have "disk_bytes (disk_image t) 8193 5 = disk_bytes (disk_image s) 8193 5" by (rule disk_bytes_cong) (use img in auto)
  then have okt: "ufs_ok t"
    using ok assms(1) img [of 8192] same by (auto simp: ufs_ok_def ufs_same_def ufs_shape_def synced_def)
  have "ufs_content t = ufs_content s" by (rule ufs_content_cong [OF ok okt dir]) (use img in auto)
  then show "ufs_ok t \<and> ufs_content t = ufs_content s \<and> same_attrs s t" using okt dir by (simp add: same_attrs_def)
qed

lemma fs_read_kept:
  fixes s :: "'a fs_state_scheme"
  assumes ok: "ufs_ok s" and lba: "unat (f_start_lba e) + unat (fs_sectors e) \<le> UFS_END" and buf: "512 * unat (fs_sectors e) \<le> length buf"
    and r: "fs_read_file (Some e) buf s = (rc, bytes, t)"
  shows "fs_kept s t"
proof -
  have d: "disk_ok UFS_END s" using ok by (simp add: ufs_ok_def)
  obtain u where u: "fs_read_loop (f_start_lba e) 0 (fs_sectors e) buf s =
      (0, overwrite 0 (disk_bytes (disk_image s) (unat (f_start_lba e)) (unat (fs_sectors e))) buf, u)"
      "disk_ok UFS_END u" "io_frame s u" "same_disk UFS_END s u"
    using fs_read_loop_ok [OF d, of 0 "fs_sectors e" buf "f_start_lba e"] lba buf by auto
  have t: "t = u" using r u(1) by (simp add: fs_read_file_def)
  have "t = s\<lparr>io_log := io_log t\<rparr>" using u(3) t by (simp add: io_frame_def)
  then obtain l where "t = s\<lparr>io_log := l\<rparr>" by blast
  then have "ufs_same s t" by (simp add: ufs_same_def)
  then show ?thesis using fs_kept_disk u(2,4) t by blast
qed

section \<open>Removing a file and changing its permissions\<close>

lemma ufs_delete_kept:
  fixes s :: "'a ufs_state_scheme"
  assumes ok: "ufs_ok s" and h: "handle_valid h s" and g: "\<not> ufs_find name s < 0" "ufs_find name s \<noteq> h"
  shows "file_kept h s (fst (ufs_delete name s))"
proof -
  let ?g = "ufs_find name s"
  have d: "ufs_dir s name = Some ?g" using g(1) by (simp add: ufs_dir_def)
  obtain t where t: "ufs_delete name s = (t, 0)" "ufs_ok t" "ufs_content t = (ufs_content s)(?g := None)"
      "\<forall>j<64. j \<noteq> nat ?g \<longrightarrow> ent (directory t) j = ent (directory s) j"
    using ufs_delete_correct [OF ok d] by blast
  have i: "nat h < 64" "0 \<le> h" using h handle_valid_cases [OF ok] by auto
  then have "nat h \<noteq> nat ?g" using g by linarith
  then have "ent_attrs (ent (directory t) (nat h)) = ent_attrs (ent (directory s) (nat h))" using t(4) i by simp
  then show ?thesis using ufs_attrs_eq [OF ok t(2) h] t(1-3) g(2) by (simp add: file_kept_def)
qed

lemma ufs_chmod_kept:
  fixes s :: "'a ufs_state_scheme"
  assumes ok: "ufs_ok s" and h: "handle_valid h s" and g: "g \<noteq> h"
  shows "file_kept h s (fst (ufs_chmod g perm s))"
proof (cases "handle_valid g s")
  case False
  then show ?thesis using file_kept_refl [OF ok] by (simp add: ufs_chmod_def)
next
  case True
  let ?dir = "directory s" and ?i = "nat g"
  note len = ufs_ok_dir [OF ok]
  have i: "?i < 64" "0 \<le> g" "ent_used (ent ?dir ?i)" using True handle_valid_cases [OF ok] by auto
  let ?dir' = "?dir[40 * ?i + 36 := perm]"
  let ?u = "s\<lparr>directory := ?dir'\<rparr>"
  have len': "length ?dir' = 2560" using len by simp
  have ents: "ent ?dir' j = (if j = ?i then (ent ?dir j)[36 := perm] else ent ?dir j)" if "j < 64" for j
    using ent_update [OF len i(1) that, of 36 perm] by (auto split: if_splits)
  have le: "length (ent ?dir ?i) = 40" by (rule length_ent [OF len i(1)])
  have flds: "ent_used (e[36 := perm]) = ent_used e" "ent_name (e[36 := perm]) = ent_name e" "ent_start (e[36 := perm]) = ent_start e"
    "ent_size (e[36 := perm]) = ent_size e" "ent_cap (e[36 := perm]) = ent_cap e" "e[36 := perm] ! 19 = e ! 19" for e
    by (simp_all add: ent_used_def ent_name_def ent_start_def ent_size_def ent_cap_def read_u32_def nth_list_update)
  have inv: "ufs_inv ?dir (unat (next_free_lba s))" and nf: "unat (next_free_lba s) \<le> UFS_END"
    using ok by (auto simp: ufs_ok_def ufs_inv_def)
  have inv': "ufs_inv ?dir' (unat (next_free_lba s))"
    by (rule ufs_inv_upd [OF inv _ nf i(1)])
      (use ents i ufs_invD(1,2) [OF inv i(1) i(3)] in \<open>auto simp: ent_fits_def ent_apart_def flds\<close>)
  have "entry_used ?dir' j = entry_used ?dir j" if "j < 64" for j
    using ents [OF that] that by (auto simp: entry_used_ent [OF len'] entry_used_ent [OF len] flds)
  then have count: "count_used_entries ?dir' = count_used_entries ?dir" by (rule count_used_cong)
  obtain t where t: "persist_fails ?u = (False, t)" "ufs_ok t" "directory t = directory ?u"
      "\<And>l. 8198 \<le> l \<Longrightarrow> l < UFS_END \<Longrightarrow> disk_image t l = disk_image ?u l"
    by (rule persist_step [of ?u s]) (use ok len' inv' count in \<open>auto simp: ufs_shape_def ufs_ok_def\<close>)
  have ds: "disk_ok UFS_END s" using ok by (simp add: ufs_ok_def)
  have img: "disk_image t l = disk_image s l" if "8198 \<le> l" "l < UFS_END" for l
    using t(4) [OF that] disk_image_cong [OF ds _ that(2), of ?u] by (simp add: same_io_def)
  have dir: "directory t = ?dir'" using t(3) by simp
  have hi: "h \<noteq> int ?i" using g i(2) by simp
  have "ufs_content t h = ufs_content s h"
  proof (rule ufs_content_others [OF ok t(2) _ _ hi])
    fix j l
    assume j: "j < 64" "j \<noteq> ?i"
    show "ent (directory t) j = ent (directory s) j" using ents j dir by simp
    assume u: "ent_used (ent ?dir j)" and l: "ent_start (ent ?dir j) \<le> l" "l < ent_start (ent ?dir j) + ent_cap (ent ?dir j)"
    then have "8198 \<le> l" "l < UFS_END" using ufs_invD(1) [OF inv j(1) u] nf by (auto simp: ent_fits_def)
    then show "disk_image t l = disk_image s l" by (rule img)
  qed
  moreover have "ent_attrs (ent (directory t) (nat h)) = ent_attrs (ent (directory s) (nat h))"
  proof -
    have hv: "nat h < 64" "0 \<le> h" using h handle_valid_cases [OF ok] by auto
    then have "nat h \<noteq> ?i" using g i(2) by (simp add: eq_nat_nat_iff)
    then show ?thesis using ents [OF hv(1)] dir by simp
  qed
  moreover have "ufs_chmod g perm s = (t, 0)"
    using True t(1) by (simp add: ufs_chmod_def entry_at_eq UFS_OFF_PERM_def)
  ultimately show ?thesis using ufs_attrs_eq [OF ok t(2) h] t(2) by (simp add: file_kept_def)
qed

section \<open>Files of other users\<close>

lemma file_kept_step: "ufs_ok s \<Longrightarrow> handle_valid h s \<Longrightarrow> file_kept h s u \<Longrightarrow> fs_kept u t \<Longrightarrow> file_kept h s t"
  using file_kept_trans [of h s u t] kept_file [of u t h] file_kept_valid [of s h u] by (auto simp: file_kept_def)

lemma guarded_result: "guarded rs k s = Some (t, res) \<Longrightarrow> t = s \<or> k s = Some (t, res)"
  by (auto simp: guarded_eq split: if_splits)

text \<open>The calls that only move bytes between the kernel and the caller, or run the scheduler.\<close>

lemma quiet_handlers_kept:
  fixes s t :: "'a proc_state_scheme"
  shows "handle_draw_row r s = Some (t, res) \<Longrightarrow> fs_kept s t"
    and "handle_screen_info r s = Some (t, res) \<Longrightarrow> fs_kept s t"
    and "handle_meminfo r s = Some (t, res) \<Longrightarrow> fs_kept s t"
    and "handle_kill r s = Some (t, res) \<Longrightarrow> fs_kept s t"
    and "handle_username r s = Some (t, res) \<Longrightarrow> fs_kept s t"
    and "handle_list r s = Some (t, res) \<Longrightarrow> fs_kept s t"
    and "handle_login r s = Some (t, res) \<Longrightarrow> fs_kept s t"
    and "handle_wait r s = Some (t, res) \<Longrightarrow> fs_kept s t"
    and "handle_read r s = Some (t, res) \<Longrightarrow> fs_kept s t"
proof -
  have two: "fs_kept s w" if "user_write64 a x s = Some u" "user_write64 b y u = Some w" for a b x y and u w :: "'a proc_state_scheme"
    by (rule store_frame_kept [OF store_frame_trans [OF user_write64_store [OF that(1)] user_write64_store [OF that(2)]]])
  have one: "fs_kept s u" if "user_write a bs s = Some u" for a bs and u :: "'a proc_state_scheme"
    by (rule store_frame_kept [OF user_write_store [OF that]])
  show "handle_draw_row r s = Some (t, res) \<Longrightarrow> fs_kept s t"
    by (auto simp: handle_draw_row_def Let_def fs_kept_video split: if_splits bind_splits dest!: guarded_result)
  show "handle_screen_info r s = Some (t, res) \<Longrightarrow> fs_kept s t" "handle_meminfo r s = Some (t, res) \<Longrightarrow> fs_kept s t"
    by (auto simp: handle_screen_info_def handle_meminfo_def Let_def split: bind_splits dest!: guarded_result intro: two)
  show "handle_kill r s = Some (t, res) \<Longrightarrow> fs_kept s t"
    using store_frame_process(5) [of s "to_int (rsi r)" "to_int (rdx r)" s]
    by (auto simp: handle_kill_def Let_def split: prod.splits option.splits intro: store_frame_kept)
  show "handle_username r s = Some (t, res) \<Longrightarrow> fs_kept s t"
    by (auto simp: handle_username_def Let_def split: prod.splits if_splits bind_splits dest!: guarded_result intro: one)
  show "handle_list r s = Some (t, res) \<Longrightarrow> fs_kept s t"
    by (auto simp: handle_list_def Let_def split: option.splits if_splits bind_splits dest!: guarded_result intro: one)
  show "handle_login r s = Some (t, res) \<Longrightarrow> fs_kept s t"
    by (auto simp: handle_login_def Let_def store_simps split: option.splits bind_splits dest!: guarded_result intro!: store_frame_kept)
  show "handle_wait r s = Some (t, res) \<Longrightarrow> fs_kept s t"
    by (auto simp: handle_wait_def split: bind_splits intro: store_frame_kept [OF store_frame_wait])
  show "fs_kept s t" if r: "handle_read r s = Some (t, res)"
  proof -
    obtain u bs n where u: "fd_read (to_int (rdi r)) (rdx r) s = (u, bs, n)" by (metis prod_cases3)
    have "fs_kept s u" using fd_read_kept [of s "to_int (rdi r)" "rdx r"] u by simp
    moreover have "t = s \<or> user_write (rsi r) bs u = Some t"
      using r u by (auto simp: handle_read_def Let_def split: if_splits bind_splits dest!: guarded_result)
    ultimately show ?thesis using fs_kept_trans store_frame_kept [OF user_write_store] by (metis fs_kept_refl)
  qed
qed

lemma handle_pipe_kept:
  fixes s t :: "'a proc_state_scheme"
  assumes "handle_pipe r s = Some (t, res)"
  shows "fs_kept s t"
proof -
  obtain u idx where u: "pipe_create s = (u, idx)" by fastforce
  obtain v rd where v: "sched_fd_open FD_KIND_PIPE_READ idx u = (v, rd)" by fastforce
  obtain w wr where w: "sched_fd_open FD_KIND_PIPE_WRITE idx v = (w, wr)" by fastforce
  have "store_frame s u" using u by (auto simp: pipe_create_def store_simps split: option.splits)
  then have "store_frame s v" using store_frame_low(3) [of s FD_KIND_PIPE_READ idx u] v by simp
  then have sw: "store_frame s w" using store_frame_low(3) [of s FD_KIND_PIPE_WRITE idx v] w by simp
  consider "t = s" | "t = u" "idx < 0" | "rd < 0 \<or> wr < 0" "\<not> idx < 0"
      "t = pipe_close_writer idx (pipe_close_reader idx
        (if wr \<ge> 0 then fst (sched_fd_close wr (if rd \<ge> 0 then fst (sched_fd_close rd w) else w)) else (if rd \<ge> 0 then fst (sched_fd_close rd w) else w)))"
    | x where "user_write64 (rdi r) (word_of_int rd) w = Some x" "user_write64 (rdi r + 8) (word_of_int wr) x = Some t"
    using assms u v w by (auto simp: handle_pipe_def Let_def split: if_splits bind_splits dest!: guarded_result)
  then show ?thesis
  proof cases
    case 2
    then show ?thesis using \<open>store_frame s u\<close> by (auto intro: store_frame_kept)
  next
    case 3
    show ?thesis unfolding 3(3) by (rule store_frame_kept) (use sw in \<open>simp add: store_simps\<close>)
  next
    case 4
    show ?thesis
      by (rule store_frame_kept [OF store_frame_trans [OF store_frame_trans [OF sw user_write64_store [OF 4(1)]] user_write64_store [OF 4(2)]]])
  qed simp
qed

text \<open>Spawning reads the program from the boot file system, whose files lie on the disk.\<close>

definition boot_files_on_disk :: "'a fs_state_scheme \<Rightarrow> bool" where
  "boot_files_on_disk s \<longleftrightarrow> (\<forall>name e. fs_find name s = Some e \<longrightarrow> unat (f_start_lba e) + unat (fs_sectors e) \<le> UFS_END)"

lemma spawn_file_kept:
  fixes s t :: "'a proc_state_scheme"
  assumes ok: "ufs_ok s" and boot: "boot_files_on_disk s" and r: "process_spawn_from_file tr name a l s = Some (t, res)"
  shows "fs_kept s t"
proof (cases "fs_find name s")
  case None
  then show ?thesis using r by (simp add: process_spawn_from_file_def)
next
  case (Some e)
  obtain u buf where u: "kmalloc (ucast (f_size_bytes e)) s = Some (u, buf)"
    using r Some by (auto simp: process_spawn_from_file_def split: bind_splits)
  have fu: "fs_kept s u" using store_frame_alloc(1) [OF u, of s] by (simp add: store_frame_kept)
  show ?thesis
  proof (cases "buf = 0")
    case True
    then have "t = u" using r Some u by (auto simp: process_spawn_from_file_def split: bind_splits)
    then show ?thesis using fu by simp
  next
    case False
    let ?old = "load_bytes buf (unat (fs_sectors e) * 512) (phys_mem u)"
    obtain rc bytes v where v: "fs_read_file (Some e) ?old u = (rc, bytes, v)" by (metis prod_cases3)
    have oku: "ufs_ok u" using fu ok by (simp add: fs_kept_def)
    have "unat (f_start_lba e) + unat (fs_sectors e) \<le> UFS_END" using boot Some unfolding boot_files_on_disk_def by blast
    then have fv: "fs_kept u v" by (rule fs_read_kept [OF oku _ _ v]) (simp add: load_bytes_def)
    let ?v = "v\<lparr>phys_mem := store_bytes buf bytes (phys_mem v)\<rparr>"
    have "fs_kept v ?v" by (rule store_frame_kept) (simp add: store_simps)
    then have sv: "fs_kept s ?v" using fu fv fs_kept_trans by blast
    have "kfree buf ?v = Some t \<or> spawn_elf_request tr buf (ucast (f_size_bytes e)) True a l ?v = Some (t, res)"
      using r Some u False v by (auto simp: process_spawn_from_file_def Let_def split: if_splits bind_splits)
    then have "store_frame ?v t"
    proof
      assume "kfree buf ?v = Some t"
      then show ?thesis using store_frame_alloc(2) [of buf ?v t ?v] by simp
    qed (rule store_frame_spawn)
    then show ?thesis using sv fs_kept_trans store_frame_kept by blast
  qed
qed

lemma handle_spawn_kept:
  fixes s t :: "'a proc_state_scheme"
  assumes ok: "ufs_ok s" and boot: "boot_files_on_disk s"
  shows "handle_spawn tr r s = Some (t, res) \<Longrightarrow> fs_kept s t" and "handle_spawn_redirect tr r s = Some (t, res) \<Longrightarrow> fs_kept s t"
proof -
  note sp = spawn_file_kept [OF ok boot]
  show "fs_kept s t" if call: "handle_spawn tr r s = Some (t, res)"
  proof -
    consider "t = s" | name a l pid where "process_spawn_from_file tr name a l s = Some (t, pid)"
      using call by (auto simp: handle_spawn_def Let_def split: if_splits option.splits bind_splits dest!: guarded_result)
    then show ?thesis by cases (simp, rule sp)
  qed
  have re: "fs_kept s w" if w: "process_spawn_from_file_redirect tr name a l i j s = Some (w, pid)" for name a l i j w pid
  proof -
    obtain u p where u: "process_spawn_from_file tr name a l s = Some (u, p)"
      using w by (auto simp: process_spawn_from_file_redirect_def split: bind_splits)
    have "store_frame u w"
      using w u by (auto simp: process_spawn_from_file_redirect_def Let_def store_simps split: if_splits)
    then show ?thesis using sp [OF u] fs_kept_trans store_frame_kept by blast
  qed
  show "fs_kept s t" if call: "handle_spawn_redirect tr r s = Some (t, res)"
  proof -
    consider "t = s" | name a l i j pid where "process_spawn_from_file_redirect tr name a l i j s = Some (t, pid)"
      using call by (auto simp: handle_spawn_redirect_def Let_def split: if_splits option.splits bind_splits dest!: guarded_result)
    then show ?thesis by cases (simp, rule re)
  qed
qed

text \<open>The calls that change the directory check the owner.\<close>

lemma owner_handlers_kept:
  fixes s t :: "'a proc_state_scheme"
  assumes ok: "ufs_ok s" and h: "handle_valid h s" and no: "\<not> may_write h s"
  shows "handle_remove r s = Some (t, res) \<Longrightarrow> file_kept h s t" and "handle_chmod r s = Some (t, res) \<Longrightarrow> file_kept h s t"
    and "handle_open r s = Some (t, res) \<Longrightarrow> file_kept h s t"
proof -
  have own: "g \<noteq> h" if "ufs_owner g s = sched_get_uid (sched_current_tid s) s" for g
    using that no by (auto simp: may_write_def sched_current_tid_def)
  have here: "file_kept h s s" by (rule file_kept_refl [OF ok])
  have del: "file_kept h s u" if "ufs_delete name s = (u, rc)" "\<not> ufs_find name s < 0" "ufs_owner (ufs_find name s) s = sched_get_uid (sched_current_tid s) s"
    for name u rc
    using ufs_delete_kept [OF ok h that(2) own [OF that(3)]] that(1) by simp
  have chm: "file_kept h s u" if "ufs_chmod g perm s = (u, rc)" "ufs_owner g s = sched_get_uid (sched_current_tid s) s" for g perm u rc
    using ufs_chmod_kept [OF ok h own [OF that(2)], of perm] that(1) by simp
  show "handle_remove r s = Some (t, res) \<Longrightarrow> file_kept h s t"
    using here by (auto simp: handle_remove_def Let_def split: if_splits prod.splits bind_splits dest!: guarded_result intro: del)
  show "handle_chmod r s = Some (t, res) \<Longrightarrow> file_kept h s t"
    using here by (auto simp: handle_chmod_def Let_def split: if_splits prod.splits bind_splits dest!: guarded_result intro: chm)
  show "handle_open r s = Some (t, res) \<Longrightarrow> file_kept h s t"
    using here by (auto simp: handle_open_def Let_def split: bind_splits dest!: guarded_result intro: fd_open_kept [OF ok h no])
qed

text \<open>A write that starts more than 4608 bytes below the 32-bit limit and, when empty, not behind the end.\<close>

definition small_cursor :: "registers \<Rightarrow> 'a keyboard_state_scheme \<Rightarrow> bool" where
  "small_cursor r s \<longleftrightarrow> (\<forall>slot. sched_fd_get (to_int (rdi r)) s = Some slot \<longrightarrow>
     unat (fd_cursor slot) \<le> 2 ^ 32 - 4608 \<and> (rdx r = 0 \<longrightarrow> unat (fd_cursor slot) \<le> unat (ufs_size (fd_handle slot) s)))"

lemma handle_write_kept:
  fixes s t :: "'a proc_state_scheme"
  assumes ok: "ufs_ok s" and h: "handle_valid h s" and no: "\<not> may_write h s" and c: "small_cursor r s"
    and r: "handle_write r s = Some (t, res)"
  shows "file_kept h s t"
proof -
  have here: "file_kept h s s" by (rule file_kept_refl [OF ok])
  consider "t = s" | bytes n where "rdx r \<le> SYS_IO_MAX_LEN" "user_bytes (unat (rdx r)) (rsi r) s = Some bytes"
      "fd_write (to_int (rdi r)) bytes (rdx r) s = Some (t, n)"
    using r by (auto simp: handle_write_def Let_def not_less split: if_splits bind_splits dest!: guarded_result)
  then show ?thesis
  proof cases
    case 2
    have len: "length bs = k" if "user_bytes k v s = Some bs" for k v bs
      using that by (induction k arbitrary: v bs) (auto split: bind_splits)
    have small: "unat (rdx r) \<le> 4096" using 2(1) by (simp add: SYS_IO_MAX_LEN_def word_le_nat_alt)
    have n: "unat (ucast (rdx r) :: u32) = unat (rdx r)" using small by (simp add: unsigned_ucast_eq take_bit_nat_eq_self)
    have "write_in_range (to_int (rdi r)) bytes (rdx r) s"
      using c small len [OF 2(2)] unfolding write_in_range_def small_cursor_def Let_def n by (auto split: option.split simp: unat_gt_0)
    then show ?thesis by (rule fd_write_kept [OF ok h no _ 2(3)])
  qed (simp add: here)
qed

lemma if_eqE: "(if b then x else y) = z \<Longrightarrow> (b \<Longrightarrow> x = z \<Longrightarrow> P) \<Longrightarrow> (\<not> b \<Longrightarrow> y = z \<Longrightarrow> P) \<Longrightarrow> P"
  by (simp split: if_splits)

section \<open>Properties\<close>

text \<open>
  C11: The check of user pointers is exact. \<open>user_range_ok\<close> always returns, and says yes just when the
  range is empty, or does not wrap around and every single byte of it is accessible to user mode in
  the caller's address space; such a range is read without a fault, byte for byte as the page tables
  translate it.
\<close>

theorem user_range_ok_correct:
  shows "(user_range_ok v len s = Some (len = 0 \<or> unat v + unat len \<le> 2 ^ 64 \<and>
      (\<forall>i<unat len. vmm_is_user_accessible_in (vmm_current_address_space s) (v + of_nat i) (phys_mem s)))) \<and>
    (user_range_ok v len s = Some True \<longrightarrow> (\<exists>bs. user_bytes (unat len) v s = Some bs \<and> length bs = unat len \<and>
      (\<forall>i<unat len. \<exists>p w. walk (phys_mem s) (space_pml4 (cr3 s)) (v + of_nat i) = Some (p, w) \<and> bs ! i = phys_mem s p)))"
proof (rule conjI)
  show "user_range_ok v len s = Some (len = 0 \<or> unat v + unat len \<le> 2 ^ 64 \<and>
      (\<forall>i<unat len. vmm_is_user_accessible_in (vmm_current_address_space s) (v + of_nat i) (phys_mem s)))"
    by (simp add: user_range_ok_eq in_user_range_def)
  show "user_range_ok v len s = Some True \<longrightarrow> (\<exists>bs. user_bytes (unat len) v s = Some bs \<and> length bs = unat len \<and>
      (\<forall>i<unat len. \<exists>p w. walk (phys_mem s) (space_pml4 (cr3 s)) (v + of_nat i) = Some (p, w) \<and> bs ! i = phys_mem s p))"
    using user_bytes_ok [of "unat len" s v] by (auto simp: user_range_ok_eq in_user_range_def)
qed

text \<open>
  C14: No call acts on memory that is not the caller's. When one of the ranges that a call names in its
  registers contains a byte that wraps around or that user mode may not access, the call returns -1
  and the state of the whole system is unchanged.
\<close>

theorem syscall_refuses_pointers:
  fixes s :: "'a proc_state_scheme"
  assumes "(v, n) \<in> set (named_ranges r)" and "i < unat n"
    and "unat v + i \<ge> 2 ^ 64 \<or> \<not> vmm_is_user_accessible_in (vmm_current_address_space s) (v + of_nat i) (phys_mem s)"
  shows "syscall_handler tr r s = Some (s, RETURN (-1))"
proof -
  have g: "guarded rs k s = Some (s, RETURN (-1))" if "(v, n) \<in> set rs" for rs k
    using guarded_refuses [OF that assms(2,3)] by (simp add: fail_def)
  have calls: "rax r \<in> {SYS_WRITE, SYS_READ, SYS_DRAW_ROW, SYS_SPAWN, SYS_USERNAME, SYS_LIST} \<and> (v, n) = (rsi r, rdx r) \<or>
      rax r \<in> {SYS_OPEN, SYS_CHMOD} \<and> (v, n) = (rsi r, 32) \<or> rax r = SYS_REMOVE \<and> (v, n) = (rdi r, 32) \<or>
      rax r \<in> {SYS_SCREEN_INFO, SYS_MEMINFO} \<and> (v, n) \<in> {(rsi r, 8), (rdx r, 8)} \<or> rax r = SYS_PIPE \<and> (v, n) = (rdi r, 16) \<or>
      rax r = SYS_SPAWN_REDIRECT \<and> (v, n) = (rdi r, rsi r) \<or> rax r = SYS_LOGIN \<and> (v, n) \<in> {(rsi r, 20), (rdx r, 64)} \<or>
      rax r = SYS_ADDUSER \<and> (v, n) \<in> {(rdi r, 20), (rsi r, 64)}"
    using assms(1) by (simp add: named_ranges_def split: if_splits)
  have one: "guarded [(a, b)] k s = Some (s, RETURN (-1))" if "(v, n) = (a, b)" for a b k using g that by simp
  have two: "guarded [(a, b), (c, d)] k s = Some (s, RETURN (-1))" if "(v, n) \<in> {(a, b), (c, d)}" for a b c d k using g that by auto
  note eval = syscall_handler_def sys_numbers handlers Let_def fail_def SYS_OPEN_NAME_MAX_def USER_NAME_MAX_def
  show ?thesis
    using calls
  proof (elim disjE conjE)
    assume "rax r \<in> {SYS_WRITE, SYS_READ, SYS_DRAW_ROW, SYS_SPAWN, SYS_USERNAME, SYS_LIST}" and b: "(v, n) = (rsi r, rdx r)"
    then show ?thesis using one [OF b] by (elim insertE) (simp_all add: eval)
  next
    assume "rax r \<in> {SYS_OPEN, SYS_CHMOD}" and b: "(v, n) = (rsi r, 32)"
    then show ?thesis using one [OF b] by (elim insertE) (simp_all add: eval)
  next
    assume "rax r = SYS_REMOVE" and b: "(v, n) = (rdi r, 32)"
    then show ?thesis using one [OF b] by (simp add: eval)
  next
    assume "rax r \<in> {SYS_SCREEN_INFO, SYS_MEMINFO}" and b: "(v, n) \<in> {(rsi r, 8), (rdx r, 8)}"
    then show ?thesis using two [OF b] by (elim insertE) (simp_all add: eval)
  next
    assume "rax r = SYS_PIPE" and b: "(v, n) = (rdi r, 16)"
    then show ?thesis using one [OF b] by (simp add: eval)
  next
    assume "rax r = SYS_SPAWN_REDIRECT" and b: "(v, n) = (rdi r, rsi r)"
    then show ?thesis using one [OF b] by (simp add: eval)
  next
    assume "rax r = SYS_LOGIN" and b: "(v, n) \<in> {(rsi r, 20), (rdx r, 64)}"
    then show ?thesis using two [OF b] by (simp add: eval)
  next
    assume "rax r = SYS_ADDUSER" and b: "(v, n) \<in> {(rdi r, 20), (rsi r, 64)}"
    then show ?thesis using two [OF b] by (simp add: eval)
  qed
qed


text \<open>
  \<open>SYS_USERNAME\<close> with the length 0 passes the check with any pointer and still stores the final zero: a
  program clears any byte that the kernel has mapped.
\<close>

theorem username_zero_length_writes:
  fixes s :: "'a proc_state_scheme"
  assumes "name_for_uid_loop (accounts s) (ucast (rdi r)) = Some name" and "rdx r = 0"
    and "walk (phys_mem s) (space_pml4 (cr3 s)) (rsi r) = Some (p, w)"
  shows "handle_username r s = Some (s\<lparr>phys_mem := (phys_mem s)(p := 0)\<rparr>, RETURN 0)"
  using assms by (simp add: handle_username_def guarded_eq users_name_for_uid_def Let_def user_store_def)

section \<open>Examples\<close>

text \<open>An address space whose first 2 MiB are one user page, and nothing else.\<close>

definition syscall_example :: proc_state where
  "syscall_example = process_boot\<lparr>phys_mem := wr64 0x10000 0x11007 (wr64 0x11000 0x12007 (wr64 0x12000 0x87 (\<lambda>_. 0))), cr3 := 0x10000\<rparr>"

lemma syscall_example_entries:
  "rd64 (phys_mem syscall_example) 0x10000 = 0x11007" "rd64 (phys_mem syscall_example) 0x11000 = 0x12007"
  "rd64 (phys_mem syscall_example) 0x12000 = 0x87" "rd64 (phys_mem syscall_example) 0x12008 = 0"
  by (simp_all add: syscall_example_def rd64_def wr64_def)

lemma syscall_example_accessible:
  "vmm_is_user_accessible_in 0x10000 0x1000 (phys_mem syscall_example)" "vmm_is_user_accessible_in 0x10000 0x1001 (phys_mem syscall_example)"
  "\<not> vmm_is_user_accessible_in 0x10000 0x200000 (phys_mem syscall_example)"
  by (simp_all add: vmm_is_user_accessible_in_def space_pml4_def PAGE_ADDR_MASK_def entry_def pml4_index_def pdpt_index_def pd_index_def
      PAGE_PRESENT_def PAGE_USER_def PAGE_SIZE_2MB_def syscall_example_entries Vmm.entry_at_def Let_def)

lemma syscall_example_space: "vmm_current_address_space syscall_example = 0x10000"
  by (simp add: vmm_current_address_space_def syscall_example_def PAGE_ADDR_MASK_def)

theorem user_range_ok_correct_witness:
  "user_range_ok 0x1000 2 syscall_example = Some True \<and> (\<exists>bs. user_bytes 2 0x1000 syscall_example = Some bs \<and> length bs = 2)"
proof -
  have "\<forall>i<unat (2 :: u64). vmm_is_user_accessible_in (vmm_current_address_space syscall_example) (0x1000 + of_nat i) (phys_mem syscall_example)"
  proof (intro allI impI)
    fix i
    assume "i < unat (2 :: u64)"
    then have "i = 0 \<or> i = 1" by auto
    then show "vmm_is_user_accessible_in (vmm_current_address_space syscall_example) (0x1000 + of_nat i) (phys_mem syscall_example)"
      using syscall_example_accessible(1,2) by (auto simp: syscall_example_space)
  qed
  then have ok: "user_range_ok 0x1000 2 syscall_example = Some True" using user_range_ok_correct [of "0x1000" 2 syscall_example, THEN conjunct1] by simp
  then show ?thesis using user_range_ok_correct [of "0x1000" 2 syscall_example, THEN conjunct2] by auto
qed

text \<open>A write from a buffer that no page holds.\<close>

theorem syscall_refuses_pointers_witness:
  "syscall_handler 0 \<lparr>rax = SYS_WRITE, rdi = 1, rsi = 0x200000, rdx = 4\<rparr> syscall_example = Some (syscall_example, RETURN (-1))"
proof (rule syscall_refuses_pointers [where i = 0])
  show "(0x200000, 4) \<in> set (named_ranges \<lparr>rax = SYS_WRITE, rdi = 1, rsi = 0x200000, rdx = 4\<rparr>)" by (simp add: named_ranges_def)
  show "2 ^ 64 \<le> unat (0x200000 :: u64) + 0 \<or>
      \<not> vmm_is_user_accessible_in (vmm_current_address_space syscall_example) (0x200000 + of_nat 0) (phys_mem syscall_example)"
    using syscall_example_accessible(3) by (simp add: syscall_example_space)
qed simp

text \<open>User 7 with the file of user 9 open as descriptor 2 closes it; there are no boot files.\<close>

definition syscall_private :: proc_state where
  "syscall_private = keyboard_state.extend (fd_private\<lparr>fs_cached_file_count := 0\<rparr>) \<lparr>processes = replicate PROCESS_MAX no_process, next_pid = 1\<rparr>"

lemma syscall_private_fields:
  "directory syscall_private = directory fd_private" "superblock syscall_private = superblock fd_private"
  "ufs_ready syscall_private = ufs_ready fd_private" "cached_file_count syscall_private = cached_file_count fd_private"
  "next_free_lba syscall_private = next_free_lba fd_private" "move_buf syscall_private = move_buf fd_private"
  "write_scratch syscall_private = write_scratch fd_private" "read_scratch syscall_private = read_scratch fd_private"
  "device syscall_private = device fd_private" "io_log syscall_private = io_log fd_private" "threads syscall_private = threads fd_private"
  "current_thread syscall_private = current_thread fd_private" "fs_cached_file_count syscall_private = 0"
  by (simp_all add: syscall_private_def keyboard_state.defs)

lemma syscall_private_ok:
  assumes "ufs_ok fd_private"
  shows "ufs_ok syscall_private"
proof -
  have io: "same_io fd_private syscall_private" by (simp add: same_io_def syscall_private_fields)
  have d: "disk_ok UFS_END fd_private" using assms by (simp add: ufs_ok_def)
  note img = disk_image_cong [OF d io]
  have "disk_bytes (disk_image syscall_private) 8193 5 = disk_bytes (disk_image fd_private) 8193 5" by (rule disk_bytes_cong) (use img in auto)
  then show ?thesis
    using assms disk_ok_cong [OF io, of UFS_END] img [of 8192]
    by (simp add: ufs_ok_def ufs_shape_def synced_def syscall_private_fields)
qed


end
