(* ===== verification/Interrupts.thy ===== *)
theory Interrupts
  imports Syscall
begin

text \<open>
  Segments, interrupts and exceptions (\<open>kernel/arch/x86_64/gdt.c\<close>, \<open>idt.c\<close>, \<open>irq.c\<close>, \<open>exceptions.c\<close>, the
  entry stubs \<open>isr.asm\<close> and \<open>irq_stubs.asm\<close>, \<open>kernel/drivers/pic.c\<close>, \<open>pit.c\<close>, \<open>timer.c\<close> and
  \<open>kernel/core/panic.c\<close>): the descriptor tables with the fields the code packs, the interrupt controller
  behind its ports, and how a vector that the CPU takes reaches the timer, the keyboard, the system
  calls, the growth of a user stack, or the end of the faulting process. Addresses that the linker
  chooses (the tables, the entry stubs) are parameters. What the processor reads out of a descriptor
  is written down separately, from its manual, and compared with what the code packs.
\<close>

section \<open>The state\<close>

record gdt_entry =
  limit_low :: u16
  base_low :: u16
  base_mid :: u8
  access :: u8
  granularity :: u8
  base_high :: u8

record tss_descriptor = gdt_entry +
  base_upper :: u32
  tss_reserved :: u32

record gdt_table =
  null_entry :: gdt_entry
  kernel_code :: gdt_entry
  kernel_data :: gdt_entry
  user_code :: gdt_entry
  user_data :: gdt_entry
  tss_entry :: tss_descriptor

text \<open>\<open>gdt_ptr_t\<close> and \<open>idt_ptr_t\<close>: the operand of \<open>lgdt\<close> and \<open>lidt\<close>.\<close>

record descriptor_ptr =
  ptr_limit :: u16
  ptr_base :: u64

record idt_entry =
  offset_low :: u16
  selector :: u16
  ist :: u8
  type_attr :: u8
  offset_mid :: u16
  offset_high :: u32
  idt_zero :: u32

text \<open>The two functions that are registered for interrupt lines.\<close>

datatype irq_handler_fn = TIMER_IRQ_HANDLER | KEYBOARD_IRQ_HANDLER

text \<open>Of the TSS the kernel uses \<open>rsp0\<close>, which is in the scheduler's state, and the bitmap offset.\<close>

record interrupt_state = proc_state +
  gdt :: gdt_table
  gdtr :: descriptor_ptr
  seg_code :: u16
  seg_data :: u16
  task_register :: u16
  iopb_offset :: u16
  idt :: "idt_entry list"
  idtr :: descriptor_ptr
  irq_handlers :: "irq_handler_fn option list"
  timer_ticks :: u64

section \<open>The global descriptor table (\<open>gdt.c\<close>)\<close>

definition GDT_KERNEL_CODE :: u16 where "GDT_KERNEL_CODE = 0x08"
definition GDT_KERNEL_DATA :: u16 where "GDT_KERNEL_DATA = 0x10"
definition GDT_USER_CODE :: u16 where "GDT_USER_CODE = 0x18"
definition GDT_USER_DATA :: u16 where "GDT_USER_DATA = 0x20"
definition GDT_TSS :: u16 where "GDT_TSS = 0x28"

text \<open>The sizes of the packed structures.\<close>

definition TSS_SIZE :: u32 where "TSS_SIZE = 104"
definition GDT_SIZE :: u16 where "GDT_SIZE = 5 * 8 + 16"
definition IDT_ENTRY_SIZE :: u16 where "IDT_ENTRY_SIZE = 16"

definition set_entry :: "u8 \<Rightarrow> u8 \<Rightarrow> gdt_entry \<Rightarrow> gdt_entry" where
  "set_entry acc gran e = e\<lparr>limit_low := 0, base_low := 0, base_mid := 0, access := acc, granularity := gran, base_high := 0\<rparr>"

definition set_tss_descriptor :: "u64 \<Rightarrow> u32 \<Rightarrow> tss_descriptor \<Rightarrow> tss_descriptor" where
  "set_tss_descriptor base limit d = d\<lparr>
     limit_low := ucast (limit AND 0xFFFF), base_low := ucast (base AND 0xFFFF),
     base_mid := ucast (drop_bit 16 base AND 0xFF), access := 0x89,
     granularity := ucast (drop_bit 16 limit AND 0x0F), base_high := ucast (drop_bit 24 base AND 0xFF),
     base_upper := ucast (drop_bit 32 base AND 0xFFFFFFFF), tss_reserved := 0\<rparr>"

definition gdt_init :: "u64 \<Rightarrow> u64 \<Rightarrow> 'a interrupt_state_scheme \<Rightarrow> 'a interrupt_state_scheme" where
  "gdt_init gdt_addr tss_addr s =
     (let s = s\<lparr>gdt := (gdt s)\<lparr>null_entry := set_entry 0x00 0x00 (null_entry (gdt s)),
              kernel_code := set_entry 0x9A 0xAF (kernel_code (gdt s)),
              kernel_data := set_entry 0x92 0xA0 (kernel_data (gdt s)),
              user_code := set_entry 0xFA 0xAF (user_code (gdt s)),
              user_data := set_entry 0xF2 0xA0 (user_data (gdt s))\<rparr>\<rparr>;
          s = s\<lparr>tss_rsp0 := 0\<rparr>;
          s = s\<lparr>iopb_offset := ucast TSS_SIZE\<rparr>;
          s = s\<lparr>gdt := (gdt s)\<lparr>tss_entry := set_tss_descriptor tss_addr (TSS_SIZE - 1) (tss_entry (gdt s))\<rparr>\<rparr>
      in s\<lparr>gdtr := \<lparr>ptr_limit = GDT_SIZE - 1, ptr_base = gdt_addr\<rparr>, seg_code := GDT_KERNEL_CODE,
           seg_data := GDT_KERNEL_DATA, task_register := GDT_TSS\<rparr>)"

section \<open>The interrupt descriptor table (\<open>idt.c\<close>)\<close>

definition IDT_ENTRIES :: nat where "IDT_ENTRIES = 256"
definition KERNEL_CODE_SEG :: u16 where "KERNEL_CODE_SEG = GDT_KERNEL_CODE"
definition IDT_GATE_INTERRUPT :: u8 where "IDT_GATE_INTERRUPT = 0x8E"
definition IDT_GATE_INTERRUPT_DPL3 :: u8 where "IDT_GATE_INTERRUPT_DPL3 = 0xEE"

definition idt_set_gate_attr :: "nat \<Rightarrow> u64 \<Rightarrow> u8 \<Rightarrow> 'a interrupt_state_scheme \<Rightarrow> 'a interrupt_state_scheme" where
  "idt_set_gate_attr n handler attr s = s\<lparr>idt := (idt s)[n := (idt s ! n)\<lparr>
     offset_low := ucast (handler AND 0xFFFF), selector := KERNEL_CODE_SEG, ist := 0, type_attr := attr,
     offset_mid := ucast (drop_bit 16 handler AND 0xFFFF),
     offset_high := ucast (drop_bit 32 handler AND 0xFFFFFFFF), idt_zero := 0\<rparr>]\<rparr>"

definition idt_set_gate :: "nat \<Rightarrow> u64 \<Rightarrow> 'a interrupt_state_scheme \<Rightarrow> 'a interrupt_state_scheme" where
  "idt_set_gate n handler s = idt_set_gate_attr n handler IDT_GATE_INTERRUPT s"

text \<open>
  \<open>stub n\<close> is the address of the entry stub of vector \<open>n\<close>: \<open>isr0\<close> to \<open>isr31\<close>, \<open>irq0\<close> and \<open>irq1\<close> for 32 and
  33, and \<open>isr128\<close>. The calls for the 32 exceptions are written out one by one in the source.
\<close>

definition idt_init :: "u64 \<Rightarrow> (nat \<Rightarrow> u64) \<Rightarrow> 'a interrupt_state_scheme \<Rightarrow> 'a interrupt_state_scheme" where
  "idt_init idt_addr stub s =
     (let s = fold (\<lambda>n. idt_set_gate n (stub n)) [0..<32] s;
          s = idt_set_gate 33 (stub 33) (idt_set_gate 32 (stub 32) s);
          s = idt_set_gate_attr 128 (stub 128) IDT_GATE_INTERRUPT_DPL3 s
      in s\<lparr>idtr := \<lparr>ptr_limit = of_nat IDT_ENTRIES * IDT_ENTRY_SIZE - 1, ptr_base = idt_addr\<rparr>\<rparr>)"

section \<open>The interrupt controller and the timer chip (\<open>pic.c\<close>, \<open>pit.c\<close>)\<close>

definition PIC1_COMMAND :: u16 where "PIC1_COMMAND = 0x20"
definition PIC1_DATA :: u16 where "PIC1_DATA = 0x21"
definition PIC2_COMMAND :: u16 where "PIC2_COMMAND = 0xA0"
definition PIC2_DATA :: u16 where "PIC2_DATA = 0xA1"
definition PIC_EOI :: u8 where "PIC_EOI = 0x20"
definition ICW1_ICW4 :: u8 where "ICW1_ICW4 = 0x01"
definition ICW1_INIT :: u8 where "ICW1_INIT = 0x10"
definition ICW4_8086 :: u8 where "ICW4_8086 = 0x01"

definition io_wait :: "'a io_state_scheme \<Rightarrow> 'a io_state_scheme" where
  "io_wait s = outb 0x80 0 s"

definition pic_remap :: "u8 \<Rightarrow> u8 \<Rightarrow> 'a io_state_scheme \<Rightarrow> 'a io_state_scheme" where
  "pic_remap offset1 offset2 s =
     (let s = io_wait (outb PIC1_COMMAND (ICW1_INIT OR ICW1_ICW4) s);
          s = io_wait (outb PIC2_COMMAND (ICW1_INIT OR ICW1_ICW4) s);
          s = io_wait (outb PIC1_DATA offset1 s);
          s = io_wait (outb PIC2_DATA offset2 s);
          s = io_wait (outb PIC1_DATA 4 s);
          s = io_wait (outb PIC2_DATA 2 s);
          s = io_wait (outb PIC1_DATA ICW4_8086 s);
          s = io_wait (outb PIC2_DATA ICW4_8086 s)
      in outb PIC2_DATA 0xFF (outb PIC1_DATA 0xFF s))"

definition pic_send_eoi :: "u8 \<Rightarrow> 'a io_state_scheme \<Rightarrow> 'a io_state_scheme" where
  "pic_send_eoi irq s =
     (let s = (if irq \<ge> 8 then outb PIC2_COMMAND PIC_EOI s else s) in outb PIC1_COMMAND PIC_EOI s)"

text \<open>The port of the mask register of a line, and the line within that chip.\<close>

definition pic_line :: "u8 \<Rightarrow> u16 \<times> u8" where
  "pic_line irq = (if irq < 8 then (PIC1_DATA, irq) else (PIC2_DATA, irq - 8))"

definition pic_unmask_irq :: "u8 \<Rightarrow> 'a io_state_scheme \<Rightarrow> 'a io_state_scheme" where
  "pic_unmask_irq irq s =
     (let (port, irq) = pic_line irq; (m, s) = inb port s in outb port (m AND NOT (push_bit (unat irq) 1)) s)"

definition pic_mask_irq :: "u8 \<Rightarrow> 'a io_state_scheme \<Rightarrow> 'a io_state_scheme" where
  "pic_mask_irq irq s =
     (let (port, irq) = pic_line irq; (m, s) = inb port s in outb port (m OR push_bit (unat irq) 1) s)"

definition PIT_CHANNEL0 :: u16 where "PIT_CHANNEL0 = 0x40"
definition PIT_COMMAND :: u16 where "PIT_COMMAND = 0x43"
definition PIT_BASE_FREQUENCY :: u32 where "PIT_BASE_FREQUENCY = 1193182"

definition pit_init :: "u32 \<Rightarrow> 'a io_state_scheme \<Rightarrow> 'a io_state_scheme" where
  "pit_init frequency_hz s =
     (let divisor = PIT_BASE_FREQUENCY div frequency_hz;
          s = outb PIT_COMMAND 0x36 s;
          s = outb PIT_CHANNEL0 (ucast (divisor AND 0xFF)) s
      in outb PIT_CHANNEL0 (ucast (drop_bit 8 divisor AND 0xFF)) s)"

section \<open>Interrupt lines (\<open>irq.c\<close>, \<open>timer.c\<close>)\<close>

definition MAX_IRQS :: nat where "MAX_IRQS = 16"

definition irq_register_handler :: "u8 \<Rightarrow> irq_handler_fn \<Rightarrow> 'a interrupt_state_scheme \<Rightarrow> 'a interrupt_state_scheme" where
  "irq_register_handler irq handler s =
     (if unat irq < MAX_IRQS then s\<lparr>irq_handlers := (irq_handlers s)[unat irq := Some handler]\<rparr> else s)"

definition timer_irq_handler :: "'a interrupt_state_scheme \<Rightarrow> 'a interrupt_state_scheme" where
  "timer_irq_handler s = sched_tick (s\<lparr>timer_ticks := timer_ticks s + 1\<rparr>)"

definition timer_get_ticks :: "'a interrupt_state_scheme \<Rightarrow> u64" where
  "timer_get_ticks s = timer_ticks s"

definition timer_driver_init :: "u32 \<Rightarrow> 'a interrupt_state_scheme \<Rightarrow> 'a interrupt_state_scheme" where
  "timer_driver_init frequency_hz s = irq_register_handler 0 TIMER_IRQ_HANDLER (pit_init frequency_hz s)"

text \<open>The call of \<open>handlers[irq]\<close>.\<close>

definition call_handler :: "irq_handler_fn \<Rightarrow> 'a interrupt_state_scheme \<Rightarrow> 'a interrupt_state_scheme" where
  "call_handler h s = (case h of TIMER_IRQ_HANDLER \<Rightarrow> timer_irq_handler s | KEYBOARD_IRQ_HANDLER \<Rightarrow> keyboard_irq_handler s)"

text \<open>The fields of the trap frame that the handlers look at; \<open>regs\<close> are those of a system call.\<close>

record trap_frame =
  vector :: u64
  error_code :: u64
  frame_cs :: u64
  regs :: registers

definition irq_handler :: "trap_frame \<Rightarrow> 'a interrupt_state_scheme \<Rightarrow> 'a interrupt_state_scheme" where
  "irq_handler r s =
     (let irq = ucast (vector r - 32) :: u8; s = pic_send_eoi irq s in
      if unat irq < MAX_IRQS \<and> irq_handlers s ! unat irq \<noteq> None then call_handler (the (irq_handlers s ! unat irq)) s
      else s)"

section \<open>Exceptions (\<open>exceptions.c\<close>, \<open>panic.c\<close>)\<close>

definition exception_names :: "string list" where
  "exception_names =
     [''Divide-by-zero'', ''Debug'', ''NMI'', ''Breakpoint'', ''Overflow'', ''Bound Range Exceeded'',
      ''Invalid Opcode'', ''Device Not Available'', ''Double Fault'', ''Coprocessor Overrun'', ''Invalid TSS'',
      ''Segment Not Present'', ''Stack-Segment Fault'', ''General Protection Fault'', ''Page Fault'', ''Reserved'',
      ''x87 Floating-Point'', ''Alignment Check'', ''Machine Check'', ''SIMD Floating-Point'', ''Virtualization'',
      ''Reserved'', ''Reserved'', ''Reserved'', ''Reserved'', ''Reserved'', ''Reserved'', ''Reserved'', ''Reserved'',
      ''Reserved'', ''Reserved'', ''Reserved'']"

text \<open>How a trap ends: the interrupted code goes on, its process is gone, or the kernel has stopped.\<close>

datatype trap_end = RESUMED | KILLED | PANIC | CALL sys_result

definition CS_RPL_MASK :: u64 where "CS_RPL_MASK = 0x3"
definition CS_RPL_USER :: u64 where "CS_RPL_USER = 0x3"

definition fault_from_usermode :: "trap_frame option \<Rightarrow> bool" where
  "fault_from_usermode r = (case r of None \<Rightarrow> False | Some r \<Rightarrow> frame_cs r AND CS_RPL_MASK = CS_RPL_USER)"

definition kill_faulting_process :: "'a proc_state_scheme \<Rightarrow> 'a proc_state_scheme" where
  "kill_faulting_process s = fst (process_exit (-1) s)"

definition kpanic :: "string \<Rightarrow> trap_frame option \<Rightarrow> 'a proc_state_scheme \<Rightarrow> 'a proc_state_scheme \<times> trap_end" where
  "kpanic reason r s =
     (if fault_from_usermode r then (kill_faulting_process s, KILLED)
      else (putstr_at (literal reason) 1 (putstr (literal ''*** KERNEL PANIC ***'') (clearwin s)), PANIC))"

definition kpanic_page_fault :: "u64 \<Rightarrow> trap_frame option \<Rightarrow> 'a proc_state_scheme \<Rightarrow> 'a proc_state_scheme \<times> trap_end" where
  "kpanic_page_fault fault_addr r s =
     (let (s, handled) = vmm_handle_page_fault fault_addr s in
      if handled then (s, RESUMED)
      else if fault_from_usermode r then (kill_faulting_process s, KILLED)
      else (putstr_at (literal ''Page Fault'') 1 (putstr (literal ''*** KERNEL PANIC ***'') (clearwin s)), PANIC))"

text \<open>\<open>cr2\<close> is the address that the processor leaves for a page fault.\<close>

definition isr_handler :: "u64 \<Rightarrow> trap_frame \<Rightarrow> 'a proc_state_scheme \<Rightarrow> 'a proc_state_scheme \<times> trap_end" where
  "isr_handler cr2 r s =
     (if vector r = 14 then kpanic_page_fault cr2 (Some r) s
      else kpanic (if vector r < 32 then exception_names ! unat (vector r) else ''Unknown Exception'') (Some r) s)"

text \<open>
  The entry stubs: each pushes its vector and calls \<open>isr_handler\<close>, \<open>irq_handler\<close> or \<open>syscall_handler\<close>. A
  vector without a stub has no gate.
\<close>

definition trap_entry :: "u64 \<Rightarrow> u64 \<Rightarrow> trap_frame \<Rightarrow> 'a interrupt_state_scheme \<Rightarrow> ('a interrupt_state_scheme \<times> trap_end) option" where
  "trap_entry trampoline cr2 r s =
     (if vector r < 32 then Some (isr_handler cr2 r s)
      else if vector r = 128 then do { (s, res) \<leftarrow> syscall_handler trampoline (regs r) s; Some (s, CALL res) }
      else Some (irq_handler r s, RESUMED))"

section \<open>What the processor reads\<close>

text \<open>The base address and the limit of a TSS descriptor, and the entry point of an interrupt gate.\<close>

definition tss_base :: "tss_descriptor \<Rightarrow> u64" where
  "tss_base d = ucast (base_low d) OR push_bit 16 (ucast (base_mid d)) OR push_bit 24 (ucast (base_high d)) OR
     push_bit 32 (ucast (base_upper d))"

definition tss_limit :: "tss_descriptor \<Rightarrow> u32" where
  "tss_limit d = ucast (limit_low d) OR push_bit 16 (ucast (granularity d AND 0x0F))"

definition gate_offset :: "idt_entry \<Rightarrow> u64" where
  "gate_offset e = ucast (offset_low e) OR push_bit 16 (ucast (offset_mid e)) OR push_bit 32 (ucast (offset_high e))"

text \<open>Present bit, privilege level and type of a gate or a segment; 64-bit code has the L bit and not the D bit.\<close>

definition gate_present :: "idt_entry \<Rightarrow> bool" where
  "gate_present e = bit (type_attr e) 7"

definition privilege :: "u8 \<Rightarrow> u8" where
  "privilege attr = drop_bit 5 attr AND 3"

definition interrupt_gate :: "idt_entry \<Rightarrow> bool" where
  "interrupt_gate e = (type_attr e AND 0x1F = 0x0E)"

definition code64 :: "gdt_entry \<Rightarrow> bool" where
  "code64 e = (access e AND 0x98 = 0x98 \<and> granularity e AND 0x60 = 0x20)"

text \<open>The segment that a selector names.\<close>

definition segment :: "u16 \<Rightarrow> gdt_table \<Rightarrow> gdt_entry" where
  "segment sel g = [null_entry g, kernel_code g, kernel_data g, user_code g, user_data g] ! unat (drop_bit 3 sel)"

text \<open>The instruction \<open>int n\<close> at privilege level \<open>cpl\<close> needs a gate whose level is no lower.\<close>

definition int_allowed :: "u8 \<Rightarrow> nat \<Rightarrow> 'a interrupt_state_scheme \<Rightarrow> bool" where
  "int_allowed cpl n s = (gate_present (idt s ! n) \<and> cpl \<le> privilege (type_attr (idt s ! n)))"

lemma split_word64:
  fixes a :: u64
  shows "ucast (ucast (a AND 0xFFFF) :: u16) OR push_bit 16 (ucast (ucast (drop_bit 16 a AND 0xFFFF) :: u16)) OR
      push_bit 32 (ucast (ucast (drop_bit 32 a AND 0xFFFFFFFF) :: u32)) = a"
    and "ucast (ucast (a AND 0xFFFF) :: u16) OR push_bit 16 (ucast (ucast (drop_bit 16 a AND 0xFF) :: u8)) OR
      push_bit 24 (ucast (ucast (drop_bit 24 a AND 0xFF) :: u8)) OR
      push_bit 32 (ucast (ucast (drop_bit 32 a AND 0xFFFFFFFF) :: u32)) = a"
proof -
  have m: "(0xFFFF :: u64) = mask 16" "(0xFF :: u64) = mask 8" "(0xFFFFFFFF :: u64) = mask 32"
    by (simp_all add: mask_eq_exp_minus_1)
  show "ucast (ucast (a AND 0xFFFF) :: u16) OR push_bit 16 (ucast (ucast (drop_bit 16 a AND 0xFFFF) :: u16)) OR
      push_bit 32 (ucast (ucast (drop_bit 32 a AND 0xFFFFFFFF) :: u32)) = a"
    unfolding m
  proof (rule bit_word_eqI, goal_cases)
    case (1 n)
    then show ?case by (cases "n < 16"; cases "n < 24"; cases "n < 32") (auto simp: bit_simps)
  qed
  show "ucast (ucast (a AND 0xFFFF) :: u16) OR push_bit 16 (ucast (ucast (drop_bit 16 a AND 0xFF) :: u8)) OR
      push_bit 24 (ucast (ucast (drop_bit 24 a AND 0xFF) :: u8)) OR
      push_bit 32 (ucast (ucast (drop_bit 32 a AND 0xFFFFFFFF) :: u32)) = a"
    unfolding m
  proof (rule bit_word_eqI, goal_cases)
    case (1 n)
    then show ?case by (cases "n < 16"; cases "n < 24"; cases "n < 32") (auto simp: bit_simps)
  qed
qed

lemma idt_set_gate_attr_nth:
  "n < length (idt s) \<Longrightarrow> idt (idt_set_gate_attr m h a s) ! n =
     (if n = m then (idt s ! n)\<lparr>offset_low := ucast (h AND 0xFFFF), selector := KERNEL_CODE_SEG, ist := 0, type_attr := a,
        offset_mid := ucast (drop_bit 16 h AND 0xFFFF), offset_high := ucast (drop_bit 32 h AND 0xFFFFFFFF), idt_zero := 0\<rparr>
      else idt s ! n)"
  by (simp add: idt_set_gate_attr_def nth_list_update)

lemma idt_gate_fields [simp]:
  "length (idt (idt_set_gate_attr m h a s)) = length (idt s)" "gdt (idt_set_gate_attr m h a s) = gdt s"
  "gdtr (idt_set_gate_attr m h a s) = gdtr s"
  by (simp_all add: idt_set_gate_attr_def)

text \<open>What the gate of a vector says after it was set.\<close>

definition gate_to :: "u64 \<Rightarrow> u8 \<Rightarrow> idt_entry \<Rightarrow> bool" where
  "gate_to h a e \<longleftrightarrow> gate_offset e = h \<and> selector e = KERNEL_CODE_SEG \<and> type_attr e = a"

lemma gate_to_packed:
  "gate_to h a (e\<lparr>offset_low := ucast (h AND 0xFFFF), selector := KERNEL_CODE_SEG, ist := 0, type_attr := a,
     offset_mid := ucast (drop_bit 16 h AND 0xFFFF), offset_high := ucast (drop_bit 32 h AND 0xFFFFFFFF), idt_zero := 0\<rparr>)"
  by (simp add: gate_to_def gate_offset_def split_word64(1))

lemma idt_exceptions:
  assumes "n < length (idt s)"
  shows "let t = fold (\<lambda>n. idt_set_gate n (stub n)) [0..<k] s in
    length (idt t) = length (idt s) \<and> gdt t = gdt s \<and> gdtr t = gdtr s \<and>
    (if n < k then gate_to (stub n) IDT_GATE_INTERRUPT (idt t ! n) else idt t ! n = idt s ! n)"
proof (induction k)
  case (Suc k)
  then show ?case using assms
    by (cases "n = k") (auto simp: Let_def idt_set_gate_def gate_to_packed idt_set_gate_attr_nth)
qed simp

lemma idt_init_nth:
  assumes "n < length (idt s)"
  shows "if n < 34 then gate_to (stub n) IDT_GATE_INTERRUPT (idt (idt_init a stub s) ! n)
    else if n = 128 then gate_to (stub n) IDT_GATE_INTERRUPT_DPL3 (idt (idt_init a stub s) ! n)
    else idt (idt_init a stub s) ! n = idt s ! n"
    and "gdt (idt_init a stub s) = gdt s" and "gdtr (idt_init a stub s) = gdtr s"
proof -
  let ?t = "fold (\<lambda>n. idt_set_gate n (stub n)) [0..<32] s"
  note f = idt_exceptions [OF assms, of stub 32, unfolded Let_def]
  have n: "n < length (idt ?t)" using assms f by simp
  consider "n < 32" | "n = 32" | "n = 33" | "n = 128" | "34 \<le> n" "n \<noteq> 128" by linarith
  then show "if n < 34 then gate_to (stub n) IDT_GATE_INTERRUPT (idt (idt_init a stub s) ! n)
    else if n = 128 then gate_to (stub n) IDT_GATE_INTERRUPT_DPL3 (idt (idt_init a stub s) ! n)
    else idt (idt_init a stub s) ! n = idt s ! n"
    using n f by cases (simp_all add: idt_init_def Let_def idt_set_gate_def idt_set_gate_attr_nth gate_to_packed)
  show "gdt (idt_init a stub s) = gdt s" "gdtr (idt_init a stub s) = gdtr s"
    using f by (simp_all add: idt_init_def Let_def idt_set_gate_def)
qed

section \<open>Interrupts are acknowledged before they are handled\<close>

lemma pic_send_eoi_log:
  "io_log (pic_send_eoi irq s) = io_log s @ (if irq \<ge> 8 then [Out8 PIC2_COMMAND PIC_EOI] else []) @ [Out8 PIC1_COMMAND PIC_EOI]"
  by (simp add: pic_send_eoi_def outb_def io_event_def)

text \<open>
  The timer's line is acknowledged first, so that the switch to another thread inside \<open>sched_tick\<close>
  does not leave the controller waiting; then the tick is counted and the scheduler runs.
\<close>

lemma irq_handler_timer:
  assumes "vector r = 32" and "0 < length (irq_handlers s)" and "irq_handlers s ! 0 = Some TIMER_IRQ_HANDLER"
  shows "irq_handler r s = sched_tick ((outb PIC1_COMMAND PIC_EOI s)\<lparr>timer_ticks := timer_ticks s + 1\<rparr>)"
  using assms by (simp add: irq_handler_def pic_send_eoi_def outb_def io_event_def MAX_IRQS_def call_handler_def timer_irq_handler_def Let_def)

lemma irq_handler_keyboard:
  assumes "vector r = 33" and "1 < length (irq_handlers s)" and "irq_handlers s ! 1 = Some KEYBOARD_IRQ_HANDLER"
  shows "irq_handler r s = keyboard_irq_handler (outb PIC1_COMMAND PIC_EOI s)"
proof -
  have "ucast (vector r - 32) = (1 :: u8)" "\<not> 8 \<le> (1 :: u8)" using assms(1) by (simp_all add: word_le_nat_alt)
  then show ?thesis
    using assms(2,3) by (simp add: irq_handler_def pic_send_eoi_def outb_def io_event_def MAX_IRQS_def call_handler_def Let_def)
qed

section \<open>The end of a faulting process\<close>

text \<open>A thread that exists and has not ended.\<close>

definition lives :: "thread \<Rightarrow> bool" where
  "lives t \<longleftrightarrow> t_state t \<noteq> THREAD_UNUSED \<and> t_state t \<noteq> THREAD_ZOMBIE"

lemma lives_wake [simp]: "lives (wake ch t) = lives t"
  by (auto simp: lives_def wake_def)

lemma zombie_wake [simp]: "t_state (wake ch t) = THREAD_ZOMBIE \<longleftrightarrow> t_state t = THREAD_ZOMBIE"
  by (auto simp: wake_def)

text \<open>Ending thread \<open>c\<close> ends no other one, up to wakeups.\<close>

definition only_ends :: "nat \<Rightarrow> thread list \<Rightarrow> thread list \<Rightarrow> bool" where
  "only_ends c ts us \<longleftrightarrow> length us = length ts \<and> t_state (us ! c) = THREAD_ZOMBIE \<and>
     (\<forall>j<length ts. j \<noteq> c \<longrightarrow> lives (ts ! j) \<longrightarrow> lives (us ! j))"

lemma only_ends_wakeup:
  "only_ends c ts (threads s) \<Longrightarrow> c < length ts \<Longrightarrow> only_ends c ts (threads (sched_wakeup ch s))"
  by (simp add: only_ends_def sched_wakeup_def)

lemma only_ends_mark:
  fixes s :: "'a proc_state_scheme"
  assumes "only_ends c ts (threads s)" and "c < length ts"
  shows "only_ends c ts (threads (process_mark_exited tid st s))"
proof (cases "find_process_by_tid tid s")
  case None
  then show ?thesis using assms by (simp add: process_mark_exited_def)
next
  case (Some i)
  let ?u = "upd_process i (\<lambda>p. p\<lparr>pr_exit_status := st, pr_state := PROCESS_EXITED\<rparr>) s"
  have "threads (process_mark_exited tid st s) = threads (sched_wakeup (word_of_int (pr_pid (processes ?u ! i))) ?u)"
    using Some by (simp add: process_mark_exited_def Let_def)
  moreover have "only_ends c ts (threads ?u)" using assms(1) by simp
  ultimately show ?thesis using only_ends_wakeup [OF _ assms(2), of ?u] by simp
qed

lemma only_ends_exit:
  fixes s :: "'a proc_state_scheme"
  assumes ok: "process_system_ok s"
  shows "only_ends (nat (current_thread s)) (threads s) (threads (fst (sched_exit_status st s)))"
proof -
  have inv: "sched_inv s" using ok by (simp add: process_system_ok_def)
  note cur = sched_inv_current [OF inv]
  let ?c = "nat (current_thread s)"
  let ?a = "upd_thread (current_thread s) (\<lambda>t. t\<lparr>t_state := THREAD_ZOMBIE\<rparr>) s"
  let ?b = "process_mark_exited (current_thread s) st ?a"
  let ?w = "sched_wakeup (word_of_int (current_thread s)) ?b"
  let ?n = "find_next_runnable (current_thread s) (threads ?w)"
  let ?u = "upd_thread ?n (\<lambda>t. t\<lparr>t_state := THREAD_RUNNING\<rparr>) ?w"
  let ?t = "switch_context None ?n (activate ?n (?u\<lparr>current_thread := ?n\<rparr>))"
  have "only_ends ?c (threads s) (threads ?a)" using cur(3) by (simp add: only_ends_def nth_upd_thread)
  then have w: "only_ends ?c (threads s) (threads ?w)" using cur(3) by (intro only_ends_wakeup only_ends_mark)
  have r: "fst (sched_exit_status st s) = (if ?n = current_thread s then ?w else ?t)"
    using cur(4) by (simp add: sched_exit_status_def Let_def)
  have "only_ends ?c (threads s) (threads ?t)" if n: "?n \<noteq> current_thread s"
  proof -
    have len: "length (threads ?w) = length (threads s)" by simp
    have nn: "0 \<le> ?n" "nat ?n < length (threads s)"
      using find_next_runnable_range [of "current_thread s" "threads ?w"] cur len by (simp_all add: nat_less_iff)
    then have ne: "nat ?n \<noteq> ?c" using n cur(1) by simp
    have same: "same_but_rsp (threads ?t) (threads ?u)"
      using switch_context_threads(1) [of None ?n "activate ?n (?u\<lparr>current_thread := ?n\<rparr>)"] by simp
    have st: "t_state (threads ?t ! j) = (if j = nat ?n then THREAD_RUNNING else t_state (threads ?w ! j))" if "j < length (threads s)" for j
      using same_but_rsp_nth(1) [OF same, of j] that nn len by (auto simp: nth_upd_thread)
    show ?thesis
      using w st [OF cur(3)] ne st same_but_rsp_length [OF same] unfolding only_ends_def lives_def by auto
  qed
  then show ?thesis using w r by simp
qed

lemma exit_processes:
  fixes s :: "'a proc_state_scheme"
  assumes ok: "process_system_ok s" and i: "used_process s i"
  shows "processes (fst (sched_exit_status st s)) ! i =
    (if pr_tid (processes s ! i) = current_thread s then (processes s ! i)\<lparr>pr_exit_status := st, pr_state := PROCESS_EXITED\<rparr>
     else processes s ! i)"
proof -
  have inv: "sched_inv s" and tab: "table_ok s" using ok by (simp_all add: process_system_ok_def)
  note cur = sched_inv_current [OF inv]
  let ?a = "upd_thread (current_thread s) (\<lambda>t. t\<lparr>t_state := THREAD_ZOMBIE\<rparr>) s"
  let ?b = "process_mark_exited (current_thread s) st ?a"
  let ?w = "sched_wakeup (word_of_int (current_thread s)) ?b"
  have f: "sched_frame ?w (fst (sched_exit_status st s))"
    using cur(4) by (simp add: sched_exit_status_def Let_def sched_frame_simps)
  have fa: "find_process_by_tid (current_thread s) ?a = find_process_by_tid (current_thread s) s"
    by (simp add: find_process_by_tid_def)
  have "processes (fst (sched_exit_status st s)) = processes ?b" using sched_frame_procs(1) [OF f] by simp
  also have "\<dots> ! i = (if pr_tid (processes s ! i) = current_thread s then (processes s ! i)\<lparr>pr_exit_status := st, pr_state := PROCESS_EXITED\<rparr>
     else processes s ! i)"
  proof (cases "find_process_by_tid (current_thread s) s")
    case None
    then have "pr_tid (processes s ! i) \<noteq> current_thread s" using find_by_tid_used [OF tab i] cur(1) by auto
    then show ?thesis using None fa by (simp add: process_mark_exited_def)
  next
    case (Some k)
    note k = find_by_tid_Some [OF Some]
    have "pr_tid (processes s ! i) = current_thread s \<longleftrightarrow> i = k" using find_by_tid_used [OF tab i] Some k cur(1) by auto
    then show ?thesis using Some fa k i by (auto simp: process_mark_exited_def Let_def used_process_def nth_list_update)
  qed
  finally show ?thesis .
qed

lemma page_fault_kept:
  fixes s :: "'a proc_state_scheme" and a :: u64
  defines "u \<equiv> fst (vmm_handle_page_fault a s)"
  assumes ok: "process_system_ok s"
  shows "process_system_ok u" and "threads u = threads s" and "current_thread u = current_thread s" and "processes u = processes s"
proof -
  have f: "mm_frame s u" by (simp add: u_def mm_simps)
  show "process_system_ok u" by (rule process_system_mm [OF ok f])
  show "threads u = threads s" "current_thread u = current_thread s" by (rule mm_frame_sched [OF f])+
  show "processes u = processes s" by (rule mm_frame_field [OF f]) (simp add: mm_clear_def pmm_clear_def)
qed


text \<open>
  C31: The descriptor tables do what the kernel relies on. After \<open>gdt_init\<close> and \<open>idt_init\<close> from the zeroed
  tables, the processor finds at each of the 256 vectors a gate exactly for the 32 exceptions, the two
  interrupt lines and the system call; each is an interrupt gate into its own entry stub in the 64-bit
  code segment of privilege 0; from user mode \<open>int n\<close> is allowed for the system call vector alone; the
  user segments have privilege 3; the TSS descriptor has the address and limit of the TSS; and the
  table registers cover the whole tables.
\<close>

theorem descriptor_tables_correct:
  fixes s :: "'a interrupt_state_scheme" and gdt_addr tss_addr idt_addr :: u64 and stub :: "nat \<Rightarrow> u64"
  defines "t \<equiv> idt_init idt_addr stub (gdt_init gdt_addr tss_addr s)"
  assumes len: "length (idt s) = IDT_ENTRIES" and zero: "\<forall>n<IDT_ENTRIES. type_attr (idt s ! n) = 0"
  shows "(\<forall>n<256. gate_present (idt t ! n) \<longleftrightarrow> n < 34 \<or> n = 128) \<and>
    (\<forall>n<256. gate_present (idt t ! n) \<longrightarrow> gate_offset (idt t ! n) = stub n \<and> interrupt_gate (idt t ! n) \<and>
      (let e = segment (selector (idt t ! n)) (gdt t) in code64 e \<and> privilege (access e) = 0)) \<and>
    (\<forall>n<256. int_allowed 3 n t \<longleftrightarrow> n = 128) \<and>
    (privilege (access (segment (GDT_USER_CODE OR 3) (gdt t))) = 3 \<and> code64 (segment (GDT_USER_CODE OR 3) (gdt t)) \<and>
      privilege (access (segment (GDT_USER_DATA OR 3) (gdt t))) = 3) \<and>
    (tss_base (tss_entry (gdt t)) = tss_addr \<and> tss_limit (tss_entry (gdt t)) = TSS_SIZE - 1) \<and>
    (idtr t = \<lparr>ptr_limit = 16 * 256 - 1, ptr_base = idt_addr\<rparr> \<and> gdtr t = \<lparr>ptr_limit = 8 * 7 - 1, ptr_base = gdt_addr\<rparr>)"
proof (rule conjI [OF _ conjI [OF _ conjI [OF _ conjI [OF _ conjI]]]])
  let ?g = "gdt_init gdt_addr tss_addr s"
  have g: "idt ?g = idt s" by (simp add: gdt_init_def Let_def)
  have gate: "if n < 34 then gate_to (stub n) 0x8E (idt t ! n)
    else if n = 128 then gate_to (stub n) 0xEE (idt t ! n) else type_attr (idt t ! n) = 0" if "n < 256" for n
    using idt_init_nth(1) [of n ?g stub idt_addr] that len zero unfolding t_def g
    by (auto simp: IDT_ENTRIES_def IDT_GATE_INTERRUPT_def IDT_GATE_INTERRUPT_DPL3_def)
  have gt: "gdt t = gdt ?g" "gdtr t = gdtr ?g" unfolding t_def by (rule idt_init_nth(2,3) [of 0]; simp add: g len IDT_ENTRIES_def)+
  have attr: "bit (0x8E :: u8) 7" "bit (0xEE :: u8) 7" "privilege 0x8E = 0" "privilege 0xEE = 3"
    by (simp_all add: privilege_def bit_iff_odd_drop_bit)
  have type: "type_attr (idt t ! n) = (if n < 34 then 0x8E else if n = 128 then 0xEE else 0)" if "n < 256" for n
    using gate [OF that] by (simp add: gate_to_def split: if_splits)
  show p: "\<forall>n<256. gate_present (idt t ! n) \<longleftrightarrow> n < 34 \<or> n = 128"
  proof (intro allI impI)
    fix n :: nat
    assume n: "n < 256"
    show "gate_present (idt t ! n) \<longleftrightarrow> n < 34 \<or> n = 128"
      unfolding gate_present_def type [OF n] by (simp add: attr(1,2) del: bit_numeral_iff)
  qed
  show "\<forall>n<256. int_allowed 3 n t \<longleftrightarrow> n = 128"
  proof (intro allI impI)
    fix n :: nat
    assume n: "n < 256"
    then have "gate_present (idt t ! n) \<longleftrightarrow> n < 34 \<or> n = 128" using p by blast
    then show "int_allowed 3 n t \<longleftrightarrow> n = 128"
      unfolding int_allowed_def type [OF n] using attr(3,4) by auto
  qed
  have seg: "segment KERNEL_CODE_SEG (gdt t) = kernel_code (gdt ?g)"
    unfolding gt by (simp add: segment_def KERNEL_CODE_SEG_def GDT_KERNEL_CODE_def)
  have kc: "code64 (kernel_code (gdt ?g)) \<and> privilege (access (kernel_code (gdt ?g))) = 0"
    by (simp add: gdt_init_def Let_def set_entry_def code64_def privilege_def)
  show "\<forall>n<256. gate_present (idt t ! n) \<longrightarrow> gate_offset (idt t ! n) = stub n \<and> interrupt_gate (idt t ! n) \<and>
      (let e = segment (selector (idt t ! n)) (gdt t) in code64 e \<and> privilege (access e) = 0)"
  proof (intro allI impI)
    fix n :: nat
    assume n: "n < 256" "gate_present (idt t ! n)"
    then have "gate_to (stub n) 0x8E (idt t ! n) \<or> gate_to (stub n) 0xEE (idt t ! n)"
      using gate [OF n(1)] p by (auto split: if_splits)
    then have "gate_offset (idt t ! n) = stub n" "selector (idt t ! n) = KERNEL_CODE_SEG" "interrupt_gate (idt t ! n)"
      by (auto simp: gate_to_def interrupt_gate_def)
    then show "gate_offset (idt t ! n) = stub n \<and> interrupt_gate (idt t ! n) \<and>
      (let e = segment (selector (idt t ! n)) (gdt t) in code64 e \<and> privilege (access e) = 0)"
      using seg kc by (simp add: Let_def)
  qed
  show "privilege (access (segment (GDT_USER_CODE OR 3) (gdt t))) = 3 \<and> code64 (segment (GDT_USER_CODE OR 3) (gdt t)) \<and>
      privilege (access (segment (GDT_USER_DATA OR 3) (gdt t))) = 3"
    unfolding gt by (simp add: segment_def GDT_USER_CODE_def GDT_USER_DATA_def gdt_init_def Let_def set_entry_def code64_def privilege_def)
  have "tss_base (set_tss_descriptor tss_addr (TSS_SIZE - 1) d) = tss_addr" for d
    by (simp add: tss_base_def set_tss_descriptor_def split_word64(2))
  moreover have "tss_limit (set_tss_descriptor tss_addr (TSS_SIZE - 1) d) = TSS_SIZE - 1" for d
    by (simp add: tss_limit_def set_tss_descriptor_def TSS_SIZE_def)
  ultimately show "tss_base (tss_entry (gdt t)) = tss_addr \<and> tss_limit (tss_entry (gdt t)) = TSS_SIZE - 1"
    unfolding gt by (simp add: gdt_init_def Let_def)
  show "idtr t = \<lparr>ptr_limit = 16 * 256 - 1, ptr_base = idt_addr\<rparr> \<and> gdtr t = \<lparr>ptr_limit = 8 * 7 - 1, ptr_base = gdt_addr\<rparr>"
    unfolding gt by (simp add: t_def idt_init_def gdt_init_def Let_def IDT_ENTRIES_def IDT_ENTRY_SIZE_def GDT_SIZE_def)
qed

section \<open>Concrete instances\<close>

text \<open>The processes of \<open>process_example\<close>, with thread 1 of process 0x55 running in user mode.\<close>

definition fault_example :: proc_state where
  "fault_example = process_example\<lparr>current_thread := 1, threads := (threads process_example)
     [0 := example_thread THREAD_READY 0, 1 := example_thread THREAD_RUNNING 0]\<rparr>"

lemma fault_example_fields:
  "threads fault_example = [example_thread THREAD_READY 0, example_thread THREAD_RUNNING 0,
     example_thread THREAD_BLOCKED 0x55, example_thread THREAD_UNUSED 0, example_thread THREAD_ZOMBIE 0]"
  "current_thread fault_example = 1" "processes fault_example = processes process_example"
  "next_pid fault_example = next_pid process_example"
  by (simp_all add: fault_example_def process_example_fields(1))

lemma fault_example_ok: "process_system_ok fault_example"
proof (rule process_system_calm [OF process_example_ok])
  show "sched_inv fault_example"
    by (simp add: sched_inv_def tid_ok_iff fault_example_fields example_thread_ok All_less_Suc) (simp add: example_thread_def)
  show "calm process_example fault_example"
    unfolding calm_def blocked_on_set fault_example_fields process_example_fields
    by (simp add: All_less_Suc) (simp add: example_thread_def)
  show "same_procs process_example fault_example" by (rule same_procsI) (simp_all add: fault_example_fields)
qed

text \<open>A general protection fault of process 0x55.\<close>

definition fault_frame :: trap_frame where
  "fault_frame = \<lparr>vector = 13, error_code = 0, frame_cs = 0x1B, regs = \<lparr>rax = 0, rdi = 0, rsi = 0, rdx = 0\<rparr>\<rparr>"


definition boot_tables :: interrupt_state where
  "boot_tables = proc_state.extend process_example
     \<lparr>gdt = (let e = \<lparr>limit_low = 0, base_low = 0, base_mid = 0, access = 0, granularity = 0, base_high = 0\<rparr> in
        \<lparr>null_entry = e, kernel_code = e, kernel_data = e, user_code = e, user_data = e,
         tss_entry = gdt_entry.extend e \<lparr>base_upper = 0, tss_reserved = 0\<rparr>\<rparr>),
      gdtr = \<lparr>ptr_limit = 0, ptr_base = 0\<rparr>, seg_code = 0, seg_data = 0, task_register = 0, iopb_offset = 0,
      idt = replicate 256 \<lparr>offset_low = 0, selector = 0, ist = 0, type_attr = 0, offset_mid = 0, offset_high = 0, idt_zero = 0\<rparr>,
      idtr = \<lparr>ptr_limit = 0, ptr_base = 0\<rparr>, irq_handlers = replicate 16 None, timer_ticks = 0\<rparr>"

theorem descriptor_tables_correct_witness:
  "let t = idt_init 0x20000 (\<lambda>n. 0x100000 + 16 * of_nat n) (gdt_init 0x21000 0xFFFF800000123456 boot_tables) in
     gate_offset (idt t ! 14) = 0x1000E0 \<and> \<not> int_allowed 3 14 t \<and> int_allowed 3 128 t \<and>
     tss_base (tss_entry (gdt t)) = 0xFFFF800000123456"
proof -
  have b: "length (idt boot_tables) = IDT_ENTRIES" "\<forall>n<IDT_ENTRIES. type_attr (idt boot_tables ! n) = 0"
    by (simp_all add: boot_tables_def proc_state.defs IDT_ENTRIES_def)
  note c = descriptor_tables_correct [OF b, of "0x20000" "\<lambda>n. 0x100000 + 16 * of_nat n" "0x21000" "0xFFFF800000123456"]
  show ?thesis
    using c [THEN conjunct1, rule_format, of 14] c [THEN conjunct2, THEN conjunct1, rule_format, of 14] c [THEN conjunct2, THEN conjunct2, THEN conjunct1, rule_format, of 14] c [THEN conjunct2, THEN conjunct2, THEN conjunct1, rule_format, of 128] c [THEN conjunct2, THEN conjunct2, THEN conjunct2, THEN conjunct2, THEN conjunct1]
    by (simp add: Let_def)
qed

end
