(* ===== verification/User_Lib.thy ===== *)
theory User_Lib
  imports Cstring
begin

text \<open>
  What the user programs under \<open>programs/\<close> share: the terminal they see through the system calls,
  printing and reading of decimal numbers, input of a line, and the line buffers of the interpreter
  and the editor. The terminal is the list of bytes that \<open>sys_read(STDIN, ..)\<close> delivers and the
  list of bytes that \<open>sys_write(STDOUT, ..)\<close> has written.
\<close>

record terminal =
  term_in :: "u8 list"
  term_out :: "u8 list"

text \<open>\<open>print(s)\<close> and \<open>sys_write(STDOUT, s, len)\<close>.\<close>

definition print_bytes :: "u8 list \<Rightarrow> 'a terminal_scheme \<Rightarrow> 'a terminal_scheme" where
  "print_bytes bs s = s\<lparr>term_out := term_out s @ bs\<rparr>"

lemma print_bytes_append: "print_bytes b (print_bytes a s) = print_bytes (a @ b) s"
  by (simp add: print_bytes_def)

text \<open>\<open>while (prefix[i] != 0) { if (s[i] != prefix[i]) return 0; i++; } return 1;\<close>\<close>

fun str_starts_with :: "u8 list \<Rightarrow> u8 list \<Rightarrow> bool" where
  "str_starts_with s [] = True"
| "str_starts_with s (p # ps) = (if p \<noteq> 0 then if chr s 0 \<noteq> p then False else str_starts_with (tl s) ps else True)"

lemma str_starts_with_prefix: "0 \<notin> set p \<Longrightarrow> str_starts_with s p \<longleftrightarrow> take (length p) s = p"
proof (induction s p rule: str_starts_with.induct)
  case (2 s p ps)
  then show ?case by (cases s) (auto simp: chr_def)
qed simp

text \<open>The outcome of a program: a value, an invalid access or a trap, or waiting for input.\<close>

datatype 'a run = Done 'a | Crash | Waits

text \<open>The file name that \<open>_start\<close> takes from its arguments.\<close>

definition arg_name :: "u8 list \<Rightarrow> u64 \<Rightarrow> u8 list" where
  "arg_name arg argv_len = takeWhile (\<lambda>c. c \<noteq> 0 \<and> c \<noteq> 0x20) (take (min (unat argv_len) 63) arg)"

section \<open>Decimal numbers\<close>

definition is_digit :: "u8 \<Rightarrow> bool" where
  "is_digit c = (0x30 \<le> c \<and> c \<le> 0x39)"

text \<open>\<open>while (v > 0) { digits[n++] = '0' + v % 10; v /= 10; }\<close>\<close>

function digits_of :: "u64 \<Rightarrow> u8 list" where
  "digits_of v = (if v > 0 then (0x30 + ucast (v mod 10)) # digits_of (v div 10) else [])"
  by auto
termination
  by (relation "measure unat") (auto simp: unat_div word_gt_0 unat_gt_0)

declare digits_of.simps [simp del]

text \<open>
  The characters of an unsigned number, most significant first: the digits are printed from the last
  one collected; a zero is one digit.
\<close>

definition utoa :: "u64 \<Rightarrow> u8 list" where
  "utoa v = rev ((if v = 0 then [0x30] else []) @ digits_of v)"

text \<open>The decimal numeral of a natural number.\<close>

fun numeral_of :: "nat \<Rightarrow> u8 list" where
  "numeral_of n = (if n < 10 then [] else numeral_of (n div 10)) @ [0x30 + of_nat (n mod 10)]"

declare numeral_of.simps [simp del]

lemma digits_numeral: "0 < v \<Longrightarrow> rev (digits_of v) = numeral_of (unat v)"
proof (induction v rule: digits_of.induct)
  case (1 v)
  have u: "unat (v div 10) = unat v div 10" "unat (v mod 10) = unat v mod 10" by (simp_all add: unat_div unat_mod)
  have d: "(ucast (v mod 10) :: u8) = of_nat (unat v mod 10)"
    by (simp add: u(2) [symmetric])
  show ?case
  proof (cases "v div 10 > 0")
    case True
    then have "\<not> unat v < 10" using u(1) by (metis div_less unat_gt_0 less_irrefl)
    then show ?thesis using 1 True d u(1) by (simp add: digits_of.simps [of v] numeral_of.simps [of "unat v"])
  next
    case False
    then have "unat v < 10" using u(1) by (simp add: word_gt_0 unat_eq_zero div_eq_0_iff flip: unat_0_iff)
    then show ?thesis using False 1(2) d by (simp add: digits_of.simps [of v] digits_of.simps [of "v div 10"] numeral_of.simps [of "unat v"])
  qed
qed

lemma utoa_numeral: "utoa v = numeral_of (unat v)"
  by (cases "v = 0") (simp_all add: utoa_def digits_numeral word_gt_0 digits_of.simps [of 0] numeral_of.simps [of 0])

text \<open>\<open>while ('0' <= *s && *s <= '9') { v = v * 10 + (*s - '0'); s++; }\<close>\<close>

fun read_digits :: "u64 \<Rightarrow> u8 list \<Rightarrow> u64 \<times> u8 list" where
  "read_digits v [] = (v, [])"
| "read_digits v (c # s) = (if is_digit c then read_digits (v * 10 + ucast (c - 0x30)) s else (v, c # s))"

definition no_digit :: "u8 list \<Rightarrow> bool" where
  "no_digit s = (\<not> is_digit (chr s 0))"

lemma digit_char: "d < 10 \<Longrightarrow> is_digit (0x30 + of_nat d)" "d < 10 \<Longrightarrow> ucast ((0x30 + of_nat d :: u8) - 0x30) = (of_nat d :: u64)"
proof -
  have c: "is_digit (0x30 + of_nat d) \<and> ucast ((0x30 + of_nat d :: u8) - 0x30) = (of_nat d :: u64)" if "d < 10"
  proof -
    have "d = 0 \<or> d = 1 \<or> d = 2 \<or> d = 3 \<or> d = 4 \<or> d = 5 \<or> d = 6 \<or> d = 7 \<or> d = 8 \<or> d = 9" using that by presburger
    then show ?thesis by (elim disjE) (simp_all add: is_digit_def)
  qed
  show "d < 10 \<Longrightarrow> is_digit (0x30 + of_nat d)" "d < 10 \<Longrightarrow> ucast ((0x30 + of_nat d :: u8) - 0x30) = (of_nat d :: u64)"
    using c by auto
qed

lemma read_digits_length: "length (snd (read_digits v s)) \<le> length s"
  by (induction v s rule: read_digits.induct) (auto intro: le_SucI)

lemma read_digits_numeral:
  "read_digits v (numeral_of n @ s) = read_digits (v * 10 ^ length (numeral_of n) + of_nat n) s"
proof (induction n arbitrary: v s rule: numeral_of.induct)
  case (1 n)
  let ?d = "n mod 10"
  have d: "?d < 10" by simp
  have step: "read_digits w ((0x30 + of_nat ?d) # s) = read_digits (w * 10 + of_nat ?d) s" for w
    using digit_char [OF d] by simp
  show ?case
  proof (cases "n < 10")
    case True
    then show ?thesis using step [of v] by (simp add: numeral_of.simps [of n])
  next
    case False
    have n: "(of_nat n :: u64) = of_nat (n div 10) * 10 + of_nat ?d"
      by (metis div_mult_mod_eq of_nat_add of_nat_mult of_nat_numeral)
    have "read_digits v (numeral_of n @ s) = read_digits v (numeral_of (n div 10) @ ((0x30 + of_nat ?d) # s))"
      using False by (simp add: numeral_of.simps [of n])
    also have "\<dots> = read_digits ((v * 10 ^ length (numeral_of (n div 10)) + of_nat (n div 10)) * 10 + of_nat ?d) s"
      using 1 False step by simp
    also have "(v * 10 ^ length (numeral_of (n div 10)) + of_nat (n div 10)) * 10 + of_nat ?d = v * 10 ^ length (numeral_of n) + of_nat n"
      using False n by (simp add: numeral_of.simps [of n] algebra_simps)
    finally show ?thesis .
  qed
qed

lemma read_digits_stop: "no_digit s \<Longrightarrow> read_digits v s = (v, s)"
  by (cases s) (simp_all add: no_digit_def chr_def)

lemma read_numeral: "no_digit s \<Longrightarrow> read_digits 0 (numeral_of n @ s) = (of_nat n, s)"
  by (simp add: read_digits_numeral read_digits_stop)

lemma numeral_Cons: obtains d ds where "numeral_of n = d # ds" and "is_digit d"
proof -
  have "\<exists>d ds. numeral_of n = d # ds \<and> is_digit d"
  proof (induction n rule: numeral_of.induct)
    case (1 n)
    then show ?case using digit_char(1) [of "n mod 10"] by (cases "n < 10") (auto simp: numeral_of.simps [of n])
  qed
  then show ?thesis using that by blast
qed

section \<open>Reading a line\<close>

text \<open>
  The loop of \<open>read_line\<close>: characters are echoed and collected up to the line end, a backspace takes
  the last one back, and what does not fit in \<open>max_len\<close> bytes is dropped. When the input ends before
  the line does, the program waits: \<open>None\<close>.
\<close>

fun read_line_loop :: "nat \<Rightarrow> u8 list \<Rightarrow> u8 list \<Rightarrow> u8 list \<Rightarrow> (u8 list \<times> u8 list \<times> u8 list) option" where
  "read_line_loop max_len buf [] out = None"
| "read_line_loop max_len buf (c # inp) out =
     (if c = 0x0A then Some (buf, inp, out @ [0x0A])
      else if c = 0x08 then
        if 0 < length buf then read_line_loop max_len (butlast buf) inp (out @ [0x08])
        else read_line_loop max_len buf inp out
      else if length buf + 1 < max_len then read_line_loop max_len (buf @ [c]) inp (out @ [c])
      else read_line_loop max_len buf inp out)"

definition read_line :: "nat \<Rightarrow> 'a terminal_scheme \<Rightarrow> ('a terminal_scheme \<times> u8 list) option" where
  "read_line max_len s = (case read_line_loop max_len [] (term_in s) (term_out s) of
     None \<Rightarrow> None
   | Some (buf, inp, out) \<Rightarrow> Some (s\<lparr>term_in := inp, term_out := out\<rparr>, buf))"

lemma read_line_loop_bound:
  "read_line_loop m buf inp out = Some (b, i, out') \<Longrightarrow> length buf < m \<Longrightarrow> length b < m \<and> length i < length inp"
proof (induction inp arbitrary: buf out)
  case (Cons c inp)
  have le: "length (butlast buf) < m" using Cons.prems(2) by simp
  show ?case
    using Cons.prems Cons.IH [of "butlast buf" "out @ [8]"] Cons.IH [of buf out] Cons.IH [of "buf @ [c]" "out @ [c]"] le
    by (simp split: if_splits)
qed simp

lemma read_line_bound: "read_line m s = Some (t, b) \<Longrightarrow> 0 < m \<Longrightarrow> length b < m"
  using read_line_loop_bound [of m "[]"] by (auto simp: read_line_def split: option.splits)

text \<open>A line typed without corrections is read as it is and echoed.\<close>

lemma read_line_loop_typed:
  assumes "0x0A \<notin> set l" and "0x08 \<notin> set l" and "length buf + length l < m"
  shows "read_line_loop m buf (l @ 0x0A # rest) out = Some (buf @ l, rest, out @ l @ [0x0A])"
  using assms by (induction l arbitrary: buf out) auto

lemma read_line_typed:
  assumes "term_in s = l @ 0x0A # rest" and "0x0A \<notin> set l" and "0x08 \<notin> set l" and "length l < m"
  shows "read_line m s = Some (s\<lparr>term_in := rest, term_out := term_out s @ l @ [0x0A]\<rparr>, l)"
  using read_line_loop_typed [of l "[]" m rest "term_out s"] assms by (simp add: read_line_def)

section \<open>Line buffers\<close>

text \<open>The arrays \<open>char lines[MAX_LINES][MAX_LINE_LEN + 1]\<close> of \<open>lang.c\<close> and \<open>edit.c\<close>, as the list of the lines in use.\<close>

definition MAX_LINES :: nat where "MAX_LINES = 200"
definition MAX_LINE_LEN :: nat where "MAX_LINE_LEN = 120"

text \<open>
  \<open>while (total + 512 <= sizeof(content) && (n = sys_read(fd, content + total, 512)) > 0) total += n;\<close>
  The read from the open file is a parameter that returns the bytes read, none at the end of the
  file or on an error.
\<close>

definition CONTENT_SIZE :: nat where "CONTENT_SIZE = MAX_LINES * (MAX_LINE_LEN + 1)"

function read_content :: "('s \<Rightarrow> 's \<times> u8 list) \<Rightarrow> u8 list \<Rightarrow> 's \<Rightarrow> 's \<times> u8 list" where
  "read_content rd content s =
     (if length content + 512 \<le> CONTENT_SIZE then
        let (t, bs) = rd s in if 0 < length bs then read_content rd (content @ bs) t else (t, content)
      else (s, content))"
  by auto
termination
  by (relation "measure (\<lambda>(rd, content, s). CONTENT_SIZE - length content)")
    (auto intro!: diff_less_mono2 simp: length_greater_0_conv [symmetric] simp del: length_greater_0_conv)

declare read_content.simps [simp del]

text \<open>The loop that cuts the content into lines; \<open>cur\<close> is the line being collected.\<close>

fun split_lines :: "u8 list list \<Rightarrow> u8 list \<Rightarrow> u8 list \<Rightarrow> u8 list list" where
  "split_lines ls cur [] = (if 0 < length cur \<and> length ls < MAX_LINES then ls @ [cur] else ls)"
| "split_lines ls cur (c # cs) =
     (if \<not> length ls < MAX_LINES then ls
      else if c = 0x0A then split_lines (ls @ [cur]) [] cs
      else if length cur < MAX_LINE_LEN then split_lines ls (cur @ [c]) cs
      else split_lines ls cur cs)"

definition load_lines :: "u8 list \<Rightarrow> u8 list list" where
  "load_lines content = split_lines [] [] content"

definition lines_ok :: "u8 list list \<Rightarrow> bool" where
  "lines_ok ls \<longleftrightarrow> length ls \<le> MAX_LINES \<and> (\<forall>l\<in>set ls. length l \<le> MAX_LINE_LEN \<and> 0x0A \<notin> set l)"

lemma split_lines_ok:
  "lines_ok ls \<Longrightarrow> length cur \<le> MAX_LINE_LEN \<Longrightarrow> 0x0A \<notin> set cur \<Longrightarrow> lines_ok (split_lines ls cur cs)"
  by (induction ls cur cs rule: split_lines.induct) (auto simp: lines_ok_def)

lemma load_lines_ok: "lines_ok (load_lines content)"
  unfolding load_lines_def by (rule split_lines_ok) (simp_all add: lines_ok_def)

text \<open>Lines written one after the other, each ended by a line feed, are loaded again as they were.\<close>

definition line_text :: "u8 list list \<Rightarrow> u8 list" where
  "line_text ls = concat (map (\<lambda>l. l @ [0x0A]) ls)"

lemma split_line:
  "0x0A \<notin> set l \<Longrightarrow> length cur + length l \<le> MAX_LINE_LEN \<Longrightarrow> length ls < MAX_LINES \<Longrightarrow>
     split_lines ls cur (l @ 0x0A # cs) = split_lines (ls @ [cur @ l]) [] cs"
  by (induction l arbitrary: cur) auto

lemma split_line_text: "lines_ok (ms @ ls) \<Longrightarrow> split_lines ms [] (line_text ls) = ms @ ls"
proof (induction ls arbitrary: ms)
  case (Cons l ls)
  then have "split_lines ms [] (line_text (l # ls)) = split_lines (ms @ [l]) [] (line_text ls)"
    using split_line [of l "[]" ms "line_text ls"] by (auto simp: line_text_def lines_ok_def)
  then show ?case using Cons.IH [of "ms @ [l]"] Cons.prems by simp
qed (simp add: line_text_def)

lemma load_line_text: "lines_ok ls \<Longrightarrow> load_lines (line_text ls) = ls"
  using split_line_text [of "[]" ls] by (simp add: load_lines_def)

end
