(* ===== verification/Kernel_Shell.thy ===== *)
theory Kernel_Shell
  imports Interrupts User_Lib
begin

text \<open>
  The kernel's own shell (\<open>kernel/core/shell/\<close>, \<open>kernel/core/power.c\<close>): the line it edits on the console, the
  tables of commands, and the commands that are not self tests. The self tests (\<open>vmmtest\<close>, \<open>ufstest\<close>
  and so on) are a parameter, and so are the BIOS memory map and the address at which new processes
  start. A result \<open>None\<close> stands for a call that does not return or a write outside an array.
\<close>

definition LINE_BUFFER_SIZE :: nat where "LINE_BUFFER_SIZE = 128"

text \<open>\<open>line_buffer\<close> up to \<open>line_length\<close>.\<close>

record kshell_state = proc_state +
  shell_line :: "u8 list"

section \<open>Output (\<open>shell_io.c\<close>)\<close>

definition print_chars :: "u8 list \<Rightarrow> 'a video_state_scheme \<Rightarrow> 'a video_state_scheme" where
  "print_chars str s = fold putchar_at_cursor (cstr str) s"

definition newline_text :: "string \<Rightarrow> u8 list" where
  "newline_text m = 0x0A # literal m"

text \<open>\<open>buf[2 + i] = digits[(value >> ((15 - i) * 4)) & 0xF]\<close>.\<close>

definition hex_digit :: "u64 \<Rightarrow> u8" where
  "hex_digit d = literal ''0123456789ABCDEF'' ! unat d"

definition hex_text :: "u64 \<Rightarrow> u8 list" where
  "hex_text value = literal ''0x'' @ map (\<lambda>i. hex_digit (drop_bit ((15 - i) * 4) value AND 0xF)) [0..<16]"

definition print_hex :: "u64 \<Rightarrow> 'a video_state_scheme \<Rightarrow> 'a video_state_scheme" where
  "print_hex value s = print_chars (hex_text value) s"

definition print_prompt :: "'a video_state_scheme \<Rightarrow> 'a video_state_scheme" where
  "print_prompt s = print_chars (newline_text ''> '') s"

section \<open>Commands\<close>

text \<open>How a command ends: it is done, \<open>run\<close> sleeps until its child exits, or the machine is off.\<close>

datatype command_end = FINISHED | RUN_WAITS u64 int | POWERED_OFF

definition cmd_help :: "'a video_state_scheme \<Rightarrow> 'a video_state_scheme" where
  "cmd_help s = print_chars (newline_text (''commands: help, clear, echo <text>, meminfo, alloctest, '' @
     ''vmmtest, heaptest, threadtest, largethreadtest, usermodetest, '' @
     ''elftest, ufstest, permtest, ls, run <name>, setuid <pid> <uid>, poweroff'')) s"

definition cmd_clear :: "'a video_state_scheme \<Rightarrow> 'a video_state_scheme" where
  "cmd_clear s = video_reset_cursor (clearwin s)"

definition cmd_echo :: "u8 list \<Rightarrow> 'a video_state_scheme \<Rightarrow> 'a video_state_scheme" where
  "cmd_echo arg s = print_chars arg (print_chars [0x0A] s)"

fun meminfo_regions :: "nat list \<Rightarrow> e820_buffer \<Rightarrow> 'a video_state_scheme \<Rightarrow> 'a video_state_scheme" where
  "meminfo_regions [] b s = s"
| "meminfo_regions (i # is) b s =
     (case e820_get_entry b (of_nat i) of
        None \<Rightarrow> s
      | Some e \<Rightarrow>
          let s = print_hex (entry_base e) (print_chars (newline_text ''  '') s);
              s = print_hex (entry_base e + entry_length e) (print_chars (literal '' - '') s)
          in meminfo_regions is b (print_chars (literal (e820_type_name (entry_type e))) (print_chars (literal ''  '') s)))"

definition cmd_meminfo :: "e820_buffer \<Rightarrow> 'a video_state_scheme \<Rightarrow> 'a video_state_scheme" where
  "cmd_meminfo b s =
     (let count = e820_entry_count b;
          s = print_chars (newline_text ''BIOS memory map ('') s;
          s = print_chars (literal '' regions):'') (print_hex (ucast count) s);
          s = meminfo_regions [0..<unat count] b s;
          s = print_hex (e820_total_usable_bytes b) (print_chars (newline_text ''total usable: '') s);
          s = print_chars (literal '' bytes'') s;
          s = print_chars (0x0A # newline_text ''frame allocator: '') s;
          s = print_chars (literal '' total frames, '') (print_hex (pmm_total_frames s) s);
          s = print_chars (literal '' free ('') (print_hex (pmm_free_frames s) s)
      in print_chars (literal '' used)'') (print_hex (pmm_total_frames s - pmm_free_frames s) s))"

definition shell_ls :: "'a video_state_scheme \<Rightarrow> 'a video_state_scheme" where
  "shell_ls s =
     (if fs_file_count s = 0 then print_chars (newline_text ''no filesystem mounted or no files present'') s
      else fold (\<lambda>i s. case fs_entry i s of None \<Rightarrow> s
        | Some e \<Rightarrow> print_chars (f_name e) (print_chars [0x0A] s)) [0..<unat (fs_file_count s)] s)"

text \<open>\<open>cmd_run\<close> up to its wait; \<open>run_wait\<close> is one round of the wait and what follows it.\<close>

definition run_wait :: "u64 \<Rightarrow> int \<Rightarrow> 'a proc_state_scheme \<Rightarrow> ('a proc_state_scheme \<times> command_end) option" where
  "run_wait buf pid s = do {
     (s, r) \<leftarrow> process_wait pid s;
     case r of None \<Rightarrow> Some (s, RUN_WAITS buf pid)
     | Some _ \<Rightarrow> do {
         s \<leftarrow> kfree buf s;
         Some (print_chars (newline_text ''process exited back through SYS_EXIT'') s, FINISHED)
       }
   }"

definition cmd_run :: "u64 \<Rightarrow> u8 list \<Rightarrow> 'a proc_state_scheme \<Rightarrow> ('a proc_state_scheme \<times> command_end) option" where
  "cmd_run trampoline name s =
     (case fs_find name s of
        None \<Rightarrow> Some (print_chars name (print_chars (newline_text ''file not found: '') s), FINISHED)
      | Some e \<Rightarrow> do {
          (s, buf) \<leftarrow> kmalloc (ucast (f_size_bytes e)) s;
          if buf = 0 then Some (print_chars (newline_text ''out of memory reading file'') s, FINISHED)
          else
            let (rc, bytes, s) = fs_read_file (Some e) (load_bytes buf (unat (fs_sectors e) * 512) (phys_mem s)) s;
                s = s\<lparr>phys_mem := store_bytes buf bytes (phys_mem s)\<rparr>
            in if rc \<noteq> 0 then do {
                 s \<leftarrow> kfree buf (print_chars (newline_text ''failed to read file from disk'') s);
                 Some (s, FINISHED)
               }
               else do {
                 (s, tid) \<leftarrow> process_spawn_from_elf trampoline buf (ucast (f_size_bytes e))
                   (print_chars (literal '' from disk, running it - check serial/klog output:'' @ [0x0A])
                     (print_chars name (print_chars (newline_text ''loaded '') s)));
                 if tid < 0 then do {
                   s \<leftarrow> kfree buf (print_chars (literal ''failed to spawn thread'') s);
                   Some (s, FINISHED)
                 }
                 else run_wait buf tid s
               }
        })"

text \<open>\<open>cmd_setuid\<close>: the numbers wrap at 32 bits; the message goes through \<open>char msg[32]\<close>.\<close>

fun read_int :: "u32 \<Rightarrow> u8 list \<Rightarrow> u32 \<times> u8 list" where
  "read_int v [] = (v, [])"
| "read_int v (c # s) = (if is_digit c then read_int (v * 10 + ucast (c - 0x30)) s else (v, c # s))"

definition MSG_SIZE :: nat where "MSG_SIZE = 32"

definition setuid_message :: "u32 \<Rightarrow> u8 list option" where
  "setuid_message uid =
     (let msg = newline_text ''setuid: pid now runs as uid '' @ utoa (ucast uid) in
      if length msg + 1 \<le> MSG_SIZE then Some msg else None)"

definition cmd_setuid :: "u8 list \<Rightarrow> 'a proc_state_scheme \<Rightarrow> 'a proc_state_scheme option" where
  "cmd_setuid args s =
     (let args = dropWhile (\<lambda>c. c = 0x20) args;
          any_pid_digit = is_digit (chr args 0);
          (pid, args) = read_int 0 args;
          args = dropWhile (\<lambda>c. c = 0x20) args;
          any_uid_digit = is_digit (chr args 0);
          (uid, args) = read_int 0 args
      in if \<not> any_pid_digit \<or> \<not> any_uid_digit then Some (print_chars (newline_text ''usage: setuid <pid> <uid>'') s)
         else let tid = process_get_tid (sint pid) s in
           if tid < 0 then Some (print_chars (newline_text ''setuid: no such process'') s)
           else let s = fst (sched_set_uid tid uid s) in map_option (\<lambda>msg. print_chars msg s) (setuid_message uid))"

definition poweroff :: "'a io_state_scheme \<Rightarrow> 'a io_state_scheme" where
  "poweroff s = outw 0x4004 0x3400 (outw 0xB004 0x2000 (outw 0x604 0x2000 s))"

section \<open>The command tables\<close>

datatype exact_command = HELP | MEMINFO | ALLOCTEST | VMMTEST | HEAPTEST | THREADTEST | LARGETHREADTEST
  | USERMODETEST | ELFTEST | UFSTEST | PERMTEST | LS | CLEAR | POWEROFF

definition exact_commands :: "(string \<times> exact_command \<times> bool) list" where
  "exact_commands =
     [(''help'', HELP, False), (''meminfo'', MEMINFO, False), (''alloctest'', ALLOCTEST, False), (''vmmtest'', VMMTEST, False),
      (''heaptest'', HEAPTEST, False), (''threadtest'', THREADTEST, False), (''largethreadtest'', LARGETHREADTEST, False),
      (''usermodetest'', USERMODETEST, False), (''elftest'', ELFTEST, False), (''ufstest'', UFSTEST, False),
      (''permtest'', PERMTEST, False), (''ls'', LS, False), (''clear'', CLEAR, True), (''poweroff'', POWEROFF, True)]"

datatype prefix_command = RUN | ECHO | SETUID

definition prefix_commands :: "(string \<times> prefix_command) list" where
  "prefix_commands = [(''run '', RUN), (''echo '', ECHO), (''setuid '', SETUID)]"

definition exact_handler ::
  "(exact_command \<Rightarrow> 'a proc_state_scheme \<Rightarrow> 'a proc_state_scheme option) \<Rightarrow> e820_buffer \<Rightarrow> exact_command \<Rightarrow>
     'a proc_state_scheme \<Rightarrow> ('a proc_state_scheme \<times> command_end) option" where
  "exact_handler tests b c s =
     (case c of HELP \<Rightarrow> Some (cmd_help s, FINISHED) | MEMINFO \<Rightarrow> Some (cmd_meminfo b s, FINISHED)
      | LS \<Rightarrow> Some (shell_ls s, FINISHED) | CLEAR \<Rightarrow> Some (cmd_clear s, FINISHED) | POWEROFF \<Rightarrow> Some (poweroff s, POWERED_OFF)
      | _ \<Rightarrow> map_option (\<lambda>s. (s, FINISHED)) (tests c s))"

definition prefix_handler ::
  "u64 \<Rightarrow> prefix_command \<Rightarrow> u8 list \<Rightarrow> 'a proc_state_scheme \<Rightarrow> ('a proc_state_scheme \<times> command_end) option" where
  "prefix_handler trampoline c arg s =
     (case c of RUN \<Rightarrow> cmd_run trampoline arg s | ECHO \<Rightarrow> Some (cmd_echo arg s, FINISHED)
      | SETUID \<Rightarrow> map_option (\<lambda>s. (s, FINISHED)) (cmd_setuid arg s))"

definition prompt_after :: "bool \<Rightarrow> ('a proc_state_scheme \<times> command_end) option \<Rightarrow> ('a proc_state_scheme \<times> command_end) option" where
  "prompt_after suppress r = map_option (\<lambda>(s, e). (if e = FINISHED \<and> \<not> suppress then print_prompt s else s, e)) r"

definition run_command ::
  "(exact_command \<Rightarrow> 'a proc_state_scheme \<Rightarrow> 'a proc_state_scheme option) \<Rightarrow> e820_buffer \<Rightarrow> u64 \<Rightarrow> u8 list \<Rightarrow>
     'a proc_state_scheme \<Rightarrow> ('a proc_state_scheme \<times> command_end) option" where
  "run_command tests b trampoline line s =
     (if chr line 0 = 0 then Some (print_prompt s, FINISHED)
      else case find (\<lambda>(name, _). str_eq_and line (literal name)) exact_commands of
        Some (_, c, suppress_prompt) \<Rightarrow> prompt_after suppress_prompt (exact_handler tests b c s)
      | None \<Rightarrow>
          (case find (\<lambda>(pre, _). str_starts_with line (literal pre)) prefix_commands of
             Some (pre, c) \<Rightarrow> prompt_after False (prefix_handler trampoline c (drop (length pre) line) s)
           | None \<Rightarrow> Some (print_prompt (print_chars line (print_chars (newline_text ''unknown command: '') s)), FINISHED)))"

text \<open>What the loop of \<open>shell_run\<close> does with one character.\<close>

definition shell_key ::
  "(exact_command \<Rightarrow> kshell_state \<Rightarrow> kshell_state option) \<Rightarrow> e820_buffer \<Rightarrow> u64 \<Rightarrow> u8 \<Rightarrow>
     kshell_state \<Rightarrow> (kshell_state \<times> command_end) option" where
  "shell_key tests b trampoline c s =
     (if c = 0x0A then
        map_option (\<lambda>(s, e). (s\<lparr>shell_line := []\<rparr>, e)) (run_command tests b trampoline (cstr (shell_line s)) s)
      else if c = 0x08 then
        if length (shell_line s) > 0 then
          Some (putchar_at_cursor 0x08 (s\<lparr>shell_line := butlast (shell_line s)\<rparr>), FINISHED)
        else Some (s, FINISHED)
      else if length (shell_line s) < LINE_BUFFER_SIZE - 1 then
        Some (putchar_at_cursor c (s\<lparr>shell_line := shell_line s @ [c]\<rparr>), FINISHED)
      else Some (s, FINISHED))"

text \<open>One round of the loop: a character of the keyboard, or the shell sleeps.\<close>

definition shell_round ::
  "(exact_command \<Rightarrow> kshell_state \<Rightarrow> kshell_state option) \<Rightarrow> e820_buffer \<Rightarrow> u64 \<Rightarrow> kshell_state \<Rightarrow>
     (kshell_state \<times> command_end) option" where
  "shell_round tests b trampoline s =
     (case kbd_getchar s of (s, None) \<Rightarrow> Some (s, FINISHED) | (s, Some c) \<Rightarrow> shell_key tests b trampoline c s)"

section \<open>The console leaves the rest of the system alone\<close>

definition console_clear :: "'a video_state_scheme \<Rightarrow> 'a video_state_scheme" where
  "console_clear s = s\<lparr>text_area := [], cursor_row := 0, cursor_col := 0, io_log := []\<rparr>"

definition console_frame :: "'a video_state_scheme \<Rightarrow> 'a video_state_scheme \<Rightarrow> bool" where
  "console_frame s t \<longleftrightarrow> console_clear t = console_clear s"

lemma console_frame_field: "console_frame s t \<Longrightarrow> (\<And>u. sel (console_clear u) = sel u) \<Longrightarrow> sel t = sel s"
  by (metis console_frame_def)

lemma console_clear_parts [simp]:
  "console_clear (write_cell r c ch s) = console_clear s" "console_clear (scroll_up s) = console_clear s"
  "console_clear (update_hardware_cursor s) = console_clear s" "console_clear (next_line s) = console_clear s"
  "console_clear (s\<lparr>cursor_row := r\<rparr>) = console_clear s" "console_clear (s\<lparr>cursor_col := c\<rparr>) = console_clear s"
  "console_clear (s\<lparr>text_area := a\<rparr>) = console_clear s"
  by (simp_all add: console_clear_def write_cell_def scroll_up_def update_hardware_cursor_def next_line_def outb_def io_event_def Let_def)

lemma console_clear_tab [simp]: "console_clear (tab_loop n s) = console_clear s"
proof (induction n s rule: tab_loop.induct)
  case (1 n s)
  then show ?case by (subst tab_loop.simps) (simp add: Let_def)
qed

lemma console_clear_scroll [simp]: "console_clear (scroll_loop s) = console_clear s"
proof (induction s rule: scroll_loop.induct)
  case (1 s)
  then show ?case by (subst scroll_loop.simps) (simp add: Let_def)
qed

lemma console_clear_putchar [simp]: "console_clear (putchar_at_cursor c s) = console_clear s"
  by (simp add: putchar_at_cursor_def Let_def)

lemma console_clear_print [simp]: "console_clear (print_chars str s) = console_clear s"
proof -
  have "console_clear (fold putchar_at_cursor cs s) = console_clear s" for cs by (induction cs arbitrary: s) simp_all
  then show ?thesis by (simp add: print_chars_def)
qed

section \<open>What is typed is what runs\<close>

text \<open>The line that a sequence of keys leaves, with backspaces applied and the excess dropped.\<close>

definition edit_key :: "u8 list \<Rightarrow> u8 \<Rightarrow> u8 list" where
  "edit_key line c = (if c = 0x08 then butlast line else if length line < LINE_BUFFER_SIZE - 1 then line @ [c] else line)"

primrec shell_keys ::
  "(exact_command \<Rightarrow> kshell_state \<Rightarrow> kshell_state option) \<Rightarrow> e820_buffer \<Rightarrow> u64 \<Rightarrow> u8 list \<Rightarrow>
     kshell_state \<Rightarrow> (kshell_state \<times> command_end) option" where
  "shell_keys tests b trampoline [] s = Some (s, FINISHED)"
| "shell_keys tests b trampoline (c # cs) s =
     (case shell_key tests b trampoline c s of None \<Rightarrow> None
      | Some (t, e) \<Rightarrow> if e = FINISHED then shell_keys tests b trampoline cs t else Some (t, e))"

lemma shell_line_console: "console_frame s t \<Longrightarrow> shell_line t = shell_line s" for s t :: kshell_state
  by (rule console_frame_field) (simp_all add: console_clear_def)

lemma console_clear_line: "console_clear (x\<lparr>shell_line := l\<rparr>) = (console_clear x)\<lparr>shell_line := l\<rparr>" for x :: kshell_state
  by (cases x) (simp add: console_clear_def)

lemma shell_key_edits:
  assumes "c \<noteq> 0x0A"
  shows "\<exists>t. shell_key tests b tr c s = Some (t, FINISHED) \<and> shell_line t = edit_key (shell_line s) c \<and>
    console_frame (s\<lparr>shell_line := []\<rparr>) (t\<lparr>shell_line := []\<rparr>)"
proof -
  have kept: "shell_line (putchar_at_cursor d u) = shell_line u" for d and u :: kshell_state
    by (rule shell_line_console) (simp add: console_frame_def)
  have clr: "console_frame (s\<lparr>shell_line := []\<rparr>) ((putchar_at_cursor d (s\<lparr>shell_line := l\<rparr>))\<lparr>shell_line := []\<rparr>)" for d l
    by (simp add: console_frame_def console_clear_line)
  show ?thesis
    using assms kept clr by (auto simp: shell_key_def edit_key_def console_frame_def)
qed

text \<open>
  Keys edit the line and nothing but the console; the line end runs the command that the edited line
  spells and starts an empty line.
\<close>

lemma shell_keys_edit:
  "0x0A \<notin> set cs \<Longrightarrow> \<exists>t. shell_keys tests b tr (cs @ ds) s = shell_keys tests b tr ds t \<and>
     shell_line t = foldl edit_key (shell_line s) cs \<and> console_frame (s\<lparr>shell_line := []\<rparr>) (t\<lparr>shell_line := []\<rparr>)"
proof (induction cs arbitrary: s)
  case (Cons c cs)
  obtain t where t: "shell_key tests b tr c s = Some (t, FINISHED)" "shell_line t = edit_key (shell_line s) c"
      "console_frame (s\<lparr>shell_line := []\<rparr>) (t\<lparr>shell_line := []\<rparr>)"
    using shell_key_edits [of c tests b tr s] Cons.prems by auto
  obtain u where "shell_keys tests b tr (cs @ ds) t = shell_keys tests b tr ds u" "shell_line u = foldl edit_key (shell_line t) cs"
      "console_frame (t\<lparr>shell_line := []\<rparr>) (u\<lparr>shell_line := []\<rparr>)"
    using Cons.IH [of t] Cons.prems by auto
  then show ?case using t by (auto simp: console_frame_def)
qed (auto simp: console_frame_def)

lemma kernel_shell_line:
  assumes "0x0A \<notin> set cs" and "shell_line s = []"
  shows "\<exists>t. shell_keys tests b tr (cs @ [0x0A]) s =
      map_option (\<lambda>(u, e). (u\<lparr>shell_line := []\<rparr>, e)) (run_command tests b tr (cstr (foldl edit_key [] cs)) t) \<and>
    console_frame (s\<lparr>shell_line := []\<rparr>) (t\<lparr>shell_line := []\<rparr>)"
proof -
  obtain t where t: "shell_keys tests b tr (cs @ [0x0A]) s = shell_keys tests b tr [0x0A] t"
      "shell_line t = foldl edit_key [] cs" "console_frame (s\<lparr>shell_line := []\<rparr>) (t\<lparr>shell_line := []\<rparr>)"
    using shell_keys_edit [OF assms(1), of tests b tr "[0x0A]" s] assms(2) by auto
  have "shell_keys tests b tr [0x0A] t = map_option (\<lambda>(u, e). (u\<lparr>shell_line := []\<rparr>, e)) (run_command tests b tr (cstr (foldl edit_key [] cs)) t)"
    using t(2) by (simp add: shell_key_def case_prod_unfold split: option.split)
  then show ?thesis using t by auto
qed

section \<open>The message of \<open>setuid\<close>\<close>

lemma numeral_two: "length (numeral_of n) \<le> 2 \<longleftrightarrow> n < 100"
proof -
  have "numeral_of m \<noteq> []" for m by (simp add: numeral_of.simps [of m])
  then show ?thesis
    by (auto simp: numeral_of.simps [of n] numeral_of.simps [of "n div 10"] not_le Suc_le_eq)
qed

text \<open>The message fits its 32 bytes only for a user id of at most two digits.\<close>

theorem setuid_message_overruns: "setuid_message uid = None \<longleftrightarrow> 100 \<le> unat uid"
proof -
  have "unat (ucast uid :: u64) = unat uid" by (simp add: unsigned_ucast_eq take_bit_nat_eq_self)
  then have "length (utoa (ucast uid)) \<le> 2 \<longleftrightarrow> unat uid < 100" by (simp add: utoa_numeral numeral_two)
  then show ?thesis by (auto simp: setuid_message_def MSG_SIZE_def newline_text_def Let_def)
qed

end
