(* ===== verification/Lang.thy ===== *)
theory Lang
  imports User_Lib "HOL-Library.Signed_Division"
begin

text \<open>
  The script interpreter (\<open>programs/lang.c\<close>). A pointer into the line that is being parsed is the
  list of the bytes from there on. Numbers are 64-bit words; signed overflow, undefined in C, wraps.
  The two ways in which a script can crash the interpreter are values: a division that the
  processor traps and the write through the null pointer of a variable that has no room.
\<close>

definition MAX_VARS :: nat where "MAX_VARS = 32"
definition VAR_NAME_LEN :: nat where "VAR_NAME_LEN = 16"
definition STEP_LIMIT :: nat where "STEP_LIMIT = 2000000"

type_synonym lang_var = "u8 list \<times> u64"

record lang_state = terminal +
  vars :: "lang_var list"

text \<open>\<open>print_int\<close>: the sign, then the digits of the absolute value.\<close>

definition print_int :: "u64 \<Rightarrow> 'a terminal_scheme \<Rightarrow> 'a terminal_scheme" where
  "print_int v s = (let neg = v <s 0; u = if neg then - v else v in
     print_bytes (utoa u) (if neg then print_bytes (literal ''-'') s else s))"

text \<open>\<open>var_ref\<close>: the slot of a variable, which is made when \<open>create\<close> is set and there is room.\<close>

definition var_ref :: "u8 list \<Rightarrow> bool \<Rightarrow> lang_var list \<Rightarrow> lang_var list \<times> nat option" where
  "var_ref name create vs = (case first_index (\<lambda>v. str_eq (fst v) name) vs of
     Some i \<Rightarrow> (vs, Some i)
   | None \<Rightarrow> if \<not> create \<or> length vs \<ge> MAX_VARS then (vs, None)
       else (vs @ [(take (VAR_NAME_LEN - 1) (cstr name), 0)], Some (length vs)))"

fun skip_ws :: "u8 list \<Rightarrow> u8 list" where
  "skip_ws [] = []"
| "skip_ws (c # s) = (if c = 0x20 \<or> c = 0x09 then skip_ws s else c # s)"

definition is_ident_char :: "u8 \<Rightarrow> bool" where
  "is_ident_char c \<longleftrightarrow> 0x61 \<le> c \<and> c \<le> 0x7A \<or> 0x41 \<le> c \<and> c \<le> 0x5A \<or> 0x30 \<le> c \<and> c \<le> 0x39 \<or> c = 0x5F"

text \<open>\<open>read_ident\<close>: the name, empty when there is none, and the rest of the line.\<close>

fun read_ident_loop :: "u8 list \<Rightarrow> u8 list \<Rightarrow> u8 list \<times> u8 list" where
  "read_ident_loop out [] = (out, [])"
| "read_ident_loop out (c # s) =
     (if is_ident_char c then read_ident_loop (if length out < VAR_NAME_LEN - 1 then out @ [c] else out) s
      else (out, c # s))"

definition read_ident :: "u8 list \<Rightarrow> u8 list \<times> u8 list" where
  "read_ident s = read_ident_loop [] s"

lemma skip_ws_length: "length (skip_ws s) \<le> length s"
  by (induction s) auto

lemma read_ident_length: "length (snd (read_ident_loop out s)) \<le> length s"
  by (induction out s rule: read_ident_loop.induct) (auto intro: le_SucI)

lemma chr_not_0: "chr s 0 \<noteq> 0 \<Longrightarrow> length (tl s) < length s"
  by (cases s) (auto simp: chr_def)

section \<open>Expressions\<close>

text \<open>\<open>v *= rhs\<close> and \<open>v = (rhs != 0) ? v / rhs : 0\<close>, \<open>None\<close> when the division traps.\<close>

definition term_op :: "u8 \<Rightarrow> u64 \<Rightarrow> u64 \<Rightarrow> u64 option" where
  "term_op op v rhs =
     (if op = 0x2A then Some (v * rhs)
      else if rhs = 0 then Some 0
      else if v = 0x8000000000000000 \<and> rhs = - 1 then None
      else Some (word_of_int (sint v sdiv sint rhs)))"

function (sequential)
  parse_factor :: "lang_var list \<Rightarrow> u8 list \<Rightarrow> (u64 \<times> u8 list) option" and
  parse_term :: "lang_var list \<Rightarrow> u8 list \<Rightarrow> (u64 \<times> u8 list) option" and
  term_loop :: "lang_var list \<Rightarrow> u64 \<Rightarrow> u8 list \<Rightarrow> (u64 \<times> u8 list) option" and
  parse_expr :: "lang_var list \<Rightarrow> u8 list \<Rightarrow> (u64 \<times> u8 list) option" and
  expr_loop :: "lang_var list \<Rightarrow> u64 \<Rightarrow> u8 list \<Rightarrow> (u64 \<times> u8 list) option"
where
  "parse_factor vs s = (let p = skip_ws s in
     if chr p 0 = 0x28 then
       (case parse_expr vs (tl p) of
          None \<Rightarrow> None
        | Some (v, r) \<Rightarrow> Some (v, if chr (skip_ws r) 0 = 0x29 then tl (skip_ws r) else skip_ws r))
     else if chr p 0 = 0x2D then
       (case parse_factor vs (tl p) of None \<Rightarrow> None | Some (v, r) \<Rightarrow> Some (- v, r))
     else if is_digit (chr p 0) then Some (read_digits 0 p)
     else (let (name, r) = read_ident p in
       if 0 < length name then
         Some (case var_ref name False vs of (us, Some i) \<Rightarrow> snd (us ! i) | (us, None) \<Rightarrow> 0, r)
       else Some (0, r)))"
| "parse_term vs s = (case parse_factor vs s of None \<Rightarrow> None | Some (v, r) \<Rightarrow> term_loop vs v (skip_ws r))"
| "term_loop vs v s =
     (if chr s 0 = 0x2A \<or> chr s 0 = 0x2F then
        (case parse_factor vs (tl s) of
           None \<Rightarrow> None
         | Some (rhs, r) \<Rightarrow> (case term_op (chr s 0) v rhs of None \<Rightarrow> None | Some w \<Rightarrow> term_loop vs w (skip_ws r)))
      else Some (v, s))"
| "parse_expr vs s = (case parse_term vs s of None \<Rightarrow> None | Some (v, r) \<Rightarrow> expr_loop vs v (skip_ws r))"
| "expr_loop vs v s =
     (if chr s 0 = 0x2B \<or> chr s 0 = 0x2D then
        (case parse_term vs (tl s) of
           None \<Rightarrow> None
         | Some (rhs, r) \<Rightarrow> expr_loop vs (if chr s 0 = 0x2B then v + rhs else v - rhs) (skip_ws r))
      else Some (v, s))"
  by pat_completeness auto

text \<open>Parsing only moves forward, so the recursion ends.\<close>

lemma chr_tl_length: "chr s 0 = c \<Longrightarrow> c \<noteq> 0 \<Longrightarrow> length (tl s) < length s"
  using chr_not_0 by auto

definition shorter :: "u8 list \<Rightarrow> (u64 \<times> u8 list) option \<Rightarrow> bool" where
  "shorter s res \<longleftrightarrow> (\<forall>v r. res = Some (v, r) \<longrightarrow> length r \<le> length s)"

lemma skip_ws_shorter: "length r \<le> n \<Longrightarrow> length (skip_ws r) \<le> n"
  using skip_ws_length le_trans by blast

lemma shorter_None [simp]: "shorter s None"
  by (simp add: shorter_def)

lemma shorter_rest: "shorter (skip_ws r) res \<Longrightarrow> length r \<le> length s \<Longrightarrow> shorter s res"
  using skip_ws_length [of r] by (fastforce simp: shorter_def)

lemma shorterD: "shorter s (Some (v, r)) \<Longrightarrow> length r \<le> length s"
  by (simp add: shorter_def)

lemma tl_skip_ws_less: "chr (skip_ws s) 0 \<noteq> 0 \<Longrightarrow> length (tl (skip_ws s)) < length s"
  using chr_not_0 [of "skip_ws s"] skip_ws_length [of s] by linarith

lemma parse_shorter:
  "parse_factor_parse_term_term_loop_parse_expr_expr_loop_dom (Inl (Inl (vs, s))) \<Longrightarrow> shorter s (parse_factor vs s)"
  "parse_factor_parse_term_term_loop_parse_expr_expr_loop_dom (Inl (Inr (vs, s))) \<Longrightarrow> shorter s (parse_term vs s)"
  "parse_factor_parse_term_term_loop_parse_expr_expr_loop_dom (Inr (Inl (vs, v, s))) \<Longrightarrow> shorter s (term_loop vs v s)"
  "parse_factor_parse_term_term_loop_parse_expr_expr_loop_dom (Inr (Inr (Inl (vs, s)))) \<Longrightarrow> shorter s (parse_expr vs s)"
  "parse_factor_parse_term_term_loop_parse_expr_expr_loop_dom (Inr (Inr (Inr (vs, v, s)))) \<Longrightarrow> shorter s (expr_loop vs v s)"
proof (induction vs s and vs s and vs v s and vs s and vs v s
    rule: parse_factor_parse_term_term_loop_parse_expr_expr_loop.pinduct)
  case (1 vs s)
  let ?p = "skip_ws s"
  have e: "shorter (tl ?p) (parse_expr vs (tl ?p))" if "chr ?p 0 = 0x28" using 1(2) [OF refl that] .
  have f: "shorter (tl ?p) (parse_factor vs (tl ?p))" if "chr ?p 0 = 0x2D" using 1(3) [OF refl _ that] that by simp
  have l: "length (tl ?p) < length s" if "chr ?p 0 \<noteq> 0" by (rule tl_skip_ws_less [OF that])
  have d: "length (snd (read_digits 0 ?p)) \<le> length s" using read_digits_length [of 0 ?p] skip_ws_length [of s] by linarith
  have i: "length (snd (read_ident ?p)) \<le> length s"
    using read_ident_length [of "[]" ?p] skip_ws_length [of s] by (simp add: read_ident_def)
  have t: "length (tl (skip_ws r)) \<le> n" "length (skip_ws r) \<le> n" if "length r \<le> n" for r n
    using skip_ws_shorter [OF that] by simp_all
  have "length r \<le> length s" if p: "parse_factor vs s = Some (v, r)" for v r
  proof -
    consider "chr ?p 0 = 0x28" | "chr ?p 0 = 0x2D" | "chr ?p 0 \<noteq> 0x28" "chr ?p 0 \<noteq> 0x2D" by blast
    then show ?thesis
    proof cases
      case 1
      then obtain v' r' where "parse_expr vs (tl ?p) = Some (v', r')" "r = tl (skip_ws r') \<or> r = skip_ws r'"
        using p parse_factor.psimps [OF \<open>parse_factor_parse_term_term_loop_parse_expr_expr_loop_dom (Inl (Inl (vs, s)))\<close>]
        by (auto simp: Let_def split: option.splits prod.splits if_splits)
      then show ?thesis using e [OF 1] l 1 t [of r' "length s"] by (auto simp: shorter_def)
    next
      case 2
      then show ?thesis
        using p parse_factor.psimps [OF \<open>parse_factor_parse_term_term_loop_parse_expr_expr_loop_dom (Inl (Inl (vs, s)))\<close>] f [OF 2] l
        by (fastforce simp: Let_def shorter_def split: option.splits prod.splits)
    next
      case 3
      then show ?thesis
        using p parse_factor.psimps [OF \<open>parse_factor_parse_term_term_loop_parse_expr_expr_loop_dom (Inl (Inl (vs, s)))\<close>] d i
        by (auto simp: Let_def split: prod.splits if_splits)
    qed
  qed
  then show ?case by (auto simp: shorter_def)
next
  case (2 vs s)
  note step = parse_term.psimps [OF 2(1)]
  show ?case
  proof (cases "parse_factor vs s")
    case (Some vr)
    then obtain v r where f: "parse_factor vs s = Some (v, r)" by (cases vr) simp
    then have "shorter (skip_ws r) (term_loop vs v (skip_ws r))" "length r \<le> length s"
      using 2(2) 2(3) [OF f refl] by (simp_all add: shorterD)
    then show ?thesis using step f by (simp add: shorter_rest)
  qed (simp add: step)
next
  case (3 vs v s)
  note step = term_loop.psimps [OF 3(1)]
  show ?case
  proof (cases "chr s 0 = 0x2A \<or> chr s 0 = 0x2F")
    case True
    then have l: "length (tl s) < length s" by (intro chr_not_0) auto
    show ?thesis
    proof (cases "parse_factor vs (tl s)")
      case (Some vr)
      then obtain rhs r where f: "parse_factor vs (tl s) = Some (rhs, r)" by (cases vr) simp
      then have r: "length r \<le> length s" using 3(2) [OF True] l by (fastforce dest: shorterD)
      show ?thesis
      proof (cases "term_op (chr s 0) v rhs")
        case (Some w)
        show ?thesis using shorter_rest [OF 3(3) [OF True f refl Some] r] step True f Some by simp
      qed (use step True f in simp)
    qed (use step True in simp)
  qed (simp add: step shorter_def)
next
  case (4 vs s)
  note step = parse_expr.psimps [OF 4(1)]
  show ?case
  proof (cases "parse_term vs s")
    case (Some vr)
    then obtain v r where f: "parse_term vs s = Some (v, r)" by (cases vr) simp
    then have "shorter (skip_ws r) (expr_loop vs v (skip_ws r))" "length r \<le> length s"
      using 4(2) 4(3) [OF f refl] by (simp_all add: shorterD)
    then show ?thesis using step f by (simp add: shorter_rest)
  qed (simp add: step)
next
  case (5 vs v s)
  note step = expr_loop.psimps [OF 5(1)]
  show ?case
  proof (cases "chr s 0 = 0x2B \<or> chr s 0 = 0x2D")
    case True
    then have l: "length (tl s) < length s" by (intro chr_not_0) auto
    show ?thesis
    proof (cases "parse_term vs (tl s)")
      case (Some vr)
      then obtain rhs r where f: "parse_term vs (tl s) = Some (rhs, r)" by (cases vr) simp
      then have r: "length r \<le> length s" using 5(2) [OF True] l by (fastforce dest: shorterD)
      show ?thesis using shorter_rest [OF 5(3) [OF True f refl] r] step True f by simp
    qed (use step True in simp)
  qed (simp add: step shorter_def)
qed

lemma shorter_skip: "shorter s res \<Longrightarrow> res = Some (v, r) \<Longrightarrow> length (skip_ws r) \<le> length s"
  using skip_ws_length [of r] by (fastforce simp: shorter_def)

termination parse_factor
proof (relation "measure (\<lambda>x. case x of
     Inl (Inl (vs, s)) \<Rightarrow> 3 * length s | Inl (Inr (vs, s)) \<Rightarrow> 3 * length s + 1
   | Inr (Inl (vs, v, s)) \<Rightarrow> 3 * length s | Inr (Inr (Inl (vs, s))) \<Rightarrow> 3 * length s + 2
   | Inr (Inr (Inr (vs, v, s))) \<Rightarrow> 3 * length s)", goal_cases)
  case (2 vs s p)
  then show ?case using tl_skip_ws_less [of s] by simp
next
  case (3 vs s p)
  then show ?case using tl_skip_ws_less [of s] by simp
next
  case (5 vs s vr v r)
  then show ?case using shorter_skip [OF parse_shorter(1), of vs s v r] by simp
next
  case (6 vs v s)
  then show ?case using chr_not_0 [of s] by auto
next
  case (7 vs v s vr x r w)
  then show ?case using shorter_skip [OF parse_shorter(1), of vs "tl s" x r] chr_not_0 [of s] by auto
next
  case (9 vs s vr v r)
  then show ?case using shorter_skip [OF parse_shorter(2), of vs s v r] by simp
next
  case (10 vs v s)
  then show ?case using chr_not_0 [of s] by auto
next
  case (11 vs v s vr x r)
  then show ?case using shorter_skip [OF parse_shorter(2), of vs "tl s" x r] chr_not_0 [of s] by auto
qed simp_all

declare parse_factor.simps [simp del] parse_term.simps [simp del] term_loop.simps [simp del]
  parse_expr.simps [simp del] expr_loop.simps [simp del]

section \<open>What an expression means\<close>

datatype exp = Num nat | Var "u8 list" | Neg exp | Mul exp exp | Div exp exp | Add exp exp | Sub exp exp

definition bind2 :: "('a \<Rightarrow> 'a \<Rightarrow> 'a option) \<Rightarrow> 'a option \<Rightarrow> 'a option \<Rightarrow> 'a option" where
  "bind2 f x y = (case (x, y) of (Some a, Some b) \<Rightarrow> f a b | _ \<Rightarrow> None)"

primrec eval :: "(u8 list \<rightharpoonup> u64) \<Rightarrow> exp \<Rightarrow> u64 option" where
  "eval \<sigma> (Num n) = Some (of_nat n)"
| "eval \<sigma> (Var x) = Some (case \<sigma> x of Some v \<Rightarrow> v | None \<Rightarrow> 0)"
| "eval \<sigma> (Neg a) = map_option uminus (eval \<sigma> a)"
| "eval \<sigma> (Mul a b) = bind2 (\<lambda>x y. Some (x * y)) (eval \<sigma> a) (eval \<sigma> b)"
| "eval \<sigma> (Div a b) = bind2 (\<lambda>x y. if y = 0 then Some 0
     else if sint x = - (2 ^ 63) \<and> sint y = - 1 then None else Some (word_of_int (sint x sdiv sint y))) (eval \<sigma> a) (eval \<sigma> b)"
| "eval \<sigma> (Add a b) = bind2 (\<lambda>x y. Some (x + y)) (eval \<sigma> a) (eval \<sigma> b)"
| "eval \<sigma> (Sub a b) = bind2 (\<lambda>x y. Some (x - y)) (eval \<sigma> a) (eval \<sigma> b)"

definition blanks :: "u8 list \<Rightarrow> bool" where
  "blanks w \<longleftrightarrow> set w \<subseteq> {0x20, 0x09}"

definition number :: "u8 list \<Rightarrow> nat" where
  "number ds = foldl (\<lambda>v c. v * 10 + unat (c - 0x30)) 0 ds"

definition ident :: "u8 list \<Rightarrow> bool" where
  "ident x \<longleftrightarrow> x \<noteq> [] \<and> (\<forall>c\<in>set x. is_ident_char c)"

text \<open>The grammar: which bytes stand for which expression, with blanks before every token.\<close>

inductive is_factor :: "u8 list \<Rightarrow> exp \<Rightarrow> bool" and is_term :: "u8 list \<Rightarrow> exp \<Rightarrow> bool" and
  is_expr :: "u8 list \<Rightarrow> exp \<Rightarrow> bool" where
  blank: "is_factor s e \<Longrightarrow> b = 0x20 \<or> b = 0x09 \<Longrightarrow> is_factor (b # s) e"
| num: "ds \<noteq> [] \<Longrightarrow> \<forall>c\<in>set ds. is_digit c \<Longrightarrow> is_factor ds (Num (number ds))"
| var: "ident x \<Longrightarrow> \<not> is_digit (hd x) \<Longrightarrow> is_factor x (Var (take (VAR_NAME_LEN - 1) x))"
| neg: "is_factor s e \<Longrightarrow> is_factor (0x2D # s) (Neg e)"
| paren: "is_expr s e \<Longrightarrow> blanks w \<Longrightarrow> is_factor (0x28 # s @ w @ [0x29]) e"
| factor: "is_factor s e \<Longrightarrow> is_term s e"
| mul: "is_term s a \<Longrightarrow> blanks w \<Longrightarrow> is_factor f b \<Longrightarrow> is_term (s @ w @ 0x2A # f) (Mul a b)"
| div: "is_term s a \<Longrightarrow> blanks w \<Longrightarrow> is_factor f b \<Longrightarrow> is_term (s @ w @ 0x2F # f) (Div a b)"
| lift: "is_term s e \<Longrightarrow> is_expr s e"
| add: "is_expr s a \<Longrightarrow> blanks w \<Longrightarrow> is_term t b \<Longrightarrow> is_expr (s @ w @ 0x2B # t) (Add a b)"
| sub: "is_expr s a \<Longrightarrow> blanks w \<Longrightarrow> is_term t b \<Longrightarrow> is_expr (s @ w @ 0x2D # t) (Sub a b)"

text \<open>The variables as a map, when each has its own name.\<close>

definition vars_ok :: "lang_var list \<Rightarrow> bool" where
  "vars_ok vs \<longleftrightarrow> distinct (map fst vs) \<and> length vs \<le> MAX_VARS \<and> (\<forall>v\<in>set vs. 0 \<notin> set (fst v) \<and> length (fst v) < VAR_NAME_LEN)"

lemma skip_blanks: "blanks w \<Longrightarrow> skip_ws (w @ s) = skip_ws s"
  by (induction w) (auto simp: blanks_def)

lemma skip_ws_id: "c \<noteq> 0x20 \<Longrightarrow> c \<noteq> 0x09 \<Longrightarrow> skip_ws (c # s) = c # s"
  by simp

lemma skip_ws_idem [simp]: "skip_ws (skip_ws s) = skip_ws s"
  by (induction s) auto

lemma parse_factor_skip: "skip_ws s = skip_ws t \<Longrightarrow> parse_factor vs s = parse_factor vs t"
  by (simp add: parse_factor.simps [of vs s] parse_factor.simps [of vs t])

lemma chr_Cons_0 [simp]: "chr (c # s) 0 = c"
  by (simp add: chr_def)

text \<open>What may follow a number or a name.\<close>

definition ends :: "u8 list \<Rightarrow> bool" where
  "ends s \<longleftrightarrow> \<not> is_ident_char (chr s 0)"

lemma digit_ident: "is_digit c \<Longrightarrow> is_ident_char c"
  by (auto simp: is_digit_def is_ident_char_def)

lemma ends_no_digit: "ends s \<Longrightarrow> no_digit s"
  using digit_ident by (auto simp: ends_def no_digit_def)

lemma ends_Cons [simp]: "ends (c # s) \<longleftrightarrow> \<not> is_ident_char c" and ends_Nil [simp]: "ends []"
  by (simp_all add: ends_def chr_def is_ident_char_def)

lemma ends_blanks: "blanks w \<Longrightarrow> ends s \<Longrightarrow> ends (w @ s)"
  by (cases w) (auto simp: blanks_def is_ident_char_def)

lemma read_digits_run:
  "\<forall>c\<in>set ds. is_digit c \<Longrightarrow> no_digit rest \<Longrightarrow> read_digits v (ds @ rest) = (foldl (\<lambda>v c. v * 10 + ucast (c - 0x30)) v ds, rest)"
  by (induction ds arbitrary: v) (auto simp: read_digits_stop)

lemma number_word: "foldl (\<lambda>v c. v * 10 + ucast (c - 0x30)) (of_nat n) ds = (of_nat (foldl (\<lambda>v c. v * 10 + unat (c - 0x30)) n ds) :: u64)" for ds :: "u8 list"
proof (induction ds arbitrary: n)
  case (Cons c ds)
  have "(of_nat n * 10 + ucast (c - 0x30) :: u64) = of_nat (n * 10 + unat (c - 0x30))" by (simp add: unsigned_of_nat)
  then show ?case using Cons [of "n * 10 + unat (c - 0x30)"] by simp
qed simp

lemma read_number: "\<forall>c\<in>set ds. is_digit c \<Longrightarrow> no_digit rest \<Longrightarrow> read_digits 0 (ds @ rest) = (of_nat (number ds), rest)"
  using read_digits_run [of ds rest 0] number_word [of 0 ds] by (simp add: number_def)

lemma read_ident_run:
  "\<forall>c\<in>set x. is_ident_char c \<Longrightarrow> ends rest \<Longrightarrow> length out \<le> VAR_NAME_LEN - 1 \<Longrightarrow>
     read_ident_loop out (x @ rest) = (take (VAR_NAME_LEN - 1) (out @ x), rest)"
proof (induction x arbitrary: out)
  case Nil
  then show ?case by (cases rest) simp_all
qed (auto simp: VAR_NAME_LEN_def take_Cons')

lemma read_ident_name: "ident x \<Longrightarrow> ends rest \<Longrightarrow> read_ident (x @ rest) = (take (VAR_NAME_LEN - 1) x, rest)"
  using read_ident_run [of x rest "[]"] by (simp add: read_ident_def ident_def)

lemma ident_no_nul: "ident x \<Longrightarrow> 0 \<notin> set (take n x)"
  using set_take_subset [of n x] by (fastforce simp: ident_def is_ident_char_def)

lemma var_ref_lookup:
  assumes "vars_ok vs" and "0 \<notin> set x"
  shows "(case var_ref x False vs of (us, Some i) \<Rightarrow> snd (us ! i) | (us, None) \<Rightarrow> 0) = (case map_of vs x of Some v \<Rightarrow> v | None \<Rightarrow> 0)"
proof (cases "first_index (\<lambda>v. str_eq (fst v) x) vs")
  case None
  then have "x \<notin> fst ` set vs" by (auto simp: str_eq_cstr cstr_id)
  then show ?thesis using None by (simp add: var_ref_def map_of_eq_None_iff [THEN iffD2] del: first_index_None)
next
  case (Some i)
  then have i: "i < length vs" "str_eq (fst (vs ! i)) x" by (rule first_index_SomeD)+
  then have "fst (vs ! i) = x" using assms nth_mem [OF i(1)] by (auto simp: str_eq_cstr cstr_id vars_ok_def)
  then have "map_of vs x = Some (snd (vs ! i))" using assms(1) i(1) by (auto simp: vars_ok_def intro!: map_of_is_SomeI)
  then show ?thesis using Some by (simp add: var_ref_def)
qed

lemma term_op_div: "term_op 0x2F x y = (if y = 0 then Some 0
     else if sint x = - (2 ^ 63) \<and> sint y = - 1 then None else Some (word_of_int (sint x sdiv sint y)))"
proof -
  have c: "sint (0x8000000000000000 :: u64) = - (2 ^ 63)" "sint (- 1 :: u64) = - 1" by simp_all
  have "x = 0x8000000000000000 \<longleftrightarrow> sint x = - (2 ^ 63)" using c(1) signed_word_eqI [of x "0x8000000000000000"] by auto
  moreover have "y = - 1 \<longleftrightarrow> sint y = - 1" using c(2) signed_word_eqI [of y "- 1"] by auto
  ultimately show ?thesis by (simp add: term_op_def)
qed

text \<open>
  The parser reads an expression as the grammar does: precedence, grouping from the left, parentheses,
  signs, blanks, numbers and names. It stops at the first byte that does not continue it.
\<close>

definition term_rest :: "lang_var list \<Rightarrow> u64 option \<Rightarrow> u8 list \<Rightarrow> (u64 \<times> u8 list) option" where
  "term_rest vs x rest = (case x of None \<Rightarrow> None | Some v \<Rightarrow> term_loop vs v (skip_ws rest))"

definition expr_rest :: "lang_var list \<Rightarrow> u64 option \<Rightarrow> u8 list \<Rightarrow> (u64 \<times> u8 list) option" where
  "expr_rest vs x rest = (case x of None \<Rightarrow> None | Some v \<Rightarrow> expr_loop vs v (skip_ws rest))"

definition after_term :: "u8 list \<Rightarrow> bool" where
  "after_term rest \<longleftrightarrow> chr (skip_ws rest) 0 \<noteq> 0x2A \<and> chr (skip_ws rest) 0 \<noteq> 0x2F"

lemma parse_grammar:
  "is_factor s e \<Longrightarrow> vars_ok vs \<Longrightarrow> ends rest \<Longrightarrow> parse_factor vs (s @ rest) = map_option (\<lambda>v. (v, rest)) (eval (map_of vs) e)"
  "is_term s e \<Longrightarrow> vars_ok vs \<Longrightarrow> ends rest \<Longrightarrow> parse_term vs (s @ rest) = term_rest vs (eval (map_of vs) e) rest"
  "is_expr s e \<Longrightarrow> vars_ok vs \<Longrightarrow> ends rest \<Longrightarrow> after_term rest \<Longrightarrow>
     parse_expr vs (s @ rest) = expr_rest vs (eval (map_of vs) e) rest"
proof (induction arbitrary: rest and rest and rest rule: is_factor_is_term_is_expr.inducts)
  case (blank s e b)
  then have "parse_factor vs ((b # s) @ rest) = parse_factor vs (s @ rest)" by (intro parse_factor_skip) auto
  then show ?case using blank by simp
next
  case (num ds)
  then obtain d es where d: "ds = d # es" "is_digit d" by (cases ds) auto
  then have n: "skip_ws (ds @ rest) = ds @ rest" "d \<noteq> 0x28" "d \<noteq> 0x2D" by (auto simp: is_digit_def)
  then show ?case using read_number [OF num(2) ends_no_digit [OF num(4)]] d by (simp add: parse_factor.simps Let_def del: skip_ws.simps)
next
  case (var x)
  then obtain c cs where c: "x = c # cs" "is_ident_char c" "\<not> is_digit c" by (cases x) (auto simp: ident_def)
  then have n: "skip_ws (x @ rest) = x @ rest" "c \<noteq> 0x28" "c \<noteq> 0x2D" by (auto simp: is_ident_char_def)
  have "take (VAR_NAME_LEN - 1) x \<noteq> []" using c(1) by (simp add: VAR_NAME_LEN_def)
  then show ?case
    using read_ident_name [OF var(1) var(4)] c n var_ref_lookup [OF var(3) ident_no_nul [OF var(1)]]
    by (simp add: parse_factor.simps Let_def del: skip_ws.simps)
next
  case (neg s e)
  then show ?case by (cases "eval (map_of vs) e") (simp_all add: parse_factor.simps [of vs "0x2D # _"])
next
  case (paren s e w)
  have a: "ends (w @ 0x29 # rest)" "after_term (w @ 0x29 # rest)" "skip_ws (w @ 0x29 # rest) = 0x29 # rest"
    using paren.hyps(2) ends_blanks [OF paren.hyps(2), of "0x29 # rest"] by (simp_all add: after_term_def skip_blanks is_ident_char_def)
  show ?case
    using paren.IH [OF paren.prems(1) a(1,2)] a(3)
    by (cases "eval (map_of vs) e") (simp_all add: parse_factor.simps [of vs "0x28 # _"] expr_rest_def expr_loop.simps [of vs _ "0x29 # _"])
next
  case (factor s e)
  then show ?case by (cases "eval (map_of vs) e") (simp_all add: parse_term.simps term_rest_def)
next
  case (mul s a w f b)
  have e: "ends (w @ 0x2A # f @ rest)" using ends_blanks [OF mul.hyps(2), of "0x2A # f @ rest"] by (simp add: is_ident_char_def)
  show ?case
    using mul.IH(1) [OF mul.prems(1) e] mul.IH(2) [OF mul.prems(1,2)] mul.hyps(2)
    by (cases "eval (map_of vs) a"; cases "eval (map_of vs) b")
       (simp_all add: term_rest_def bind2_def skip_blanks term_loop.simps [of vs _ "0x2A # _"] term_op_def)
next
  case (div s a w f b)
  have e: "ends (w @ 0x2F # f @ rest)" using ends_blanks [OF div.hyps(2), of "0x2F # f @ rest"] by (simp add: is_ident_char_def)
  show ?case
    using div.IH(1) [OF div.prems(1) e] div.IH(2) [OF div.prems(1,2)] div.hyps(2)
    by (cases "eval (map_of vs) a"; cases "eval (map_of vs) b")
       (simp_all add: term_rest_def bind2_def skip_blanks term_loop.simps [of vs _ "0x2F # _"] term_op_div)
next
  case (lift s e)
  then show ?case
    by (cases "eval (map_of vs) e") (simp_all add: parse_expr.simps term_rest_def expr_rest_def after_term_def term_loop.simps [of vs _ "skip_ws rest"])
next
  case (add s a w t b)
  have e: "ends (w @ 0x2B # t @ rest)" "after_term (w @ 0x2B # t @ rest)"
    using add.hyps(2) ends_blanks [OF add.hyps(2), of "0x2B # t @ rest"] by (simp_all add: is_ident_char_def after_term_def skip_blanks)
  show ?case
    using add.IH(1) [OF add.prems(1) e] add.IH(2) [OF add.prems(1,2)] add.hyps(2) add.prems(3)
    by (cases "eval (map_of vs) a"; cases "eval (map_of vs) b")
       (simp_all add: expr_rest_def term_rest_def bind2_def skip_blanks expr_loop.simps [of vs _ "0x2B # _"]
          after_term_def term_loop.simps [of vs _ "skip_ws rest"])
next
  case (sub s a w t b)
  have e: "ends (w @ 0x2D # t @ rest)" "after_term (w @ 0x2D # t @ rest)"
    using sub.hyps(2) ends_blanks [OF sub.hyps(2), of "0x2D # t @ rest"] by (simp_all add: is_ident_char_def after_term_def skip_blanks)
  show ?case
    using sub.IH(1) [OF sub.prems(1) e] sub.IH(2) [OF sub.prems(1,2)] sub.hyps(2) sub.prems(3)
    by (cases "eval (map_of vs) a"; cases "eval (map_of vs) b")
       (simp_all add: expr_rest_def term_rest_def bind2_def skip_blanks expr_loop.simps [of vs _ "0x2D # _"]
          after_term_def term_loop.simps [of vs _ "skip_ws rest"])
qed

text \<open>What may follow an expression: a byte that starts no operator and continues no name.\<close>

definition after_expr :: "u8 list \<Rightarrow> bool" where
  "after_expr rest \<longleftrightarrow> ends rest \<and> after_term rest \<and> chr (skip_ws rest) 0 \<noteq> 0x2B \<and> chr (skip_ws rest) 0 \<noteq> 0x2D"

lemma parse_expr_grammar:
  "is_expr s e \<Longrightarrow> vars_ok vs \<Longrightarrow> after_expr rest \<Longrightarrow>
     parse_expr vs (s @ rest) = map_option (\<lambda>v. (v, skip_ws rest)) (eval (map_of vs) e)"
  using parse_grammar(3) [of s e vs rest]
  by (cases "eval (map_of vs) e") (simp_all add: after_expr_def expr_rest_def expr_loop.simps [of vs _ "skip_ws rest"])

section \<open>Statements\<close>

text \<open>What a line does with the control flow: \<open>jumped\<close> with \<open>target\<close>, or \<open>running = 0\<close>.\<close>

datatype control = Next | Jump u64 | Stop

text \<open>\<open>*var_ref(name, 1) = value\<close>, a write through a null pointer when there is no room.\<close>

definition set_var :: "u8 list \<Rightarrow> u64 \<Rightarrow> lang_state \<Rightarrow> (lang_state \<times> control) run" where
  "set_var name value s = (case var_ref name True (vars s) of
     (vs, None) \<Rightarrow> Crash
   | (vs, Some i) \<Rightarrow> Done (s\<lparr>vars := vs[i := (fst (vs ! i), value)]\<rparr>, Next))"

text \<open>\<open>read_cmp_op\<close>: the operator packed into a number, 0 when there is none.\<close>

definition read_cmp_op :: "u8 list \<Rightarrow> u32 \<times> u8 list" where
  "read_cmp_op s = (let p = skip_ws s; a = chr p 0; b = chr p 1 in
     if a = 0x3D \<and> b = 0x3D \<or> a = 0x21 \<and> b = 0x3D \<or> a = 0x3C \<and> b = 0x3D \<or> a = 0x3E \<and> b = 0x3D
     then (ucast a OR push_bit 8 (ucast b), drop 2 p)
     else if a = 0x3C \<or> a = 0x3E then (ucast a, tl p)
     else (0, p))"

definition eval_cmp :: "u64 \<Rightarrow> u32 \<Rightarrow> u64 \<Rightarrow> bool" where
  "eval_cmp lhs op rhs =
     (if op = 0x3D OR push_bit 8 0x3D then lhs = rhs
      else if op = 0x21 OR push_bit 8 0x3D then lhs \<noteq> rhs
      else if op = 0x3C OR push_bit 8 0x3D then lhs \<le>s rhs
      else if op = 0x3E OR push_bit 8 0x3D then rhs \<le>s lhs
      else if op = 0x3C then lhs <s rhs
      else if op = 0x3E then rhs <s lhs
      else False)"

definition parse_line_number :: "u8 list \<Rightarrow> u64" where
  "parse_line_number s = (if is_digit (chr s 0) then fst (read_digits 0 s) else - 1)"

definition syntax_error :: "string \<Rightarrow> int \<Rightarrow> lang_state \<Rightarrow> (lang_state \<times> control) run" where
  "syntax_error what line_no s =
     Done (print_bytes [0x0A] (print_int (word_of_int line_no) (print_bytes (literal what) s)), Next)"

definition exec_let :: "u8 list \<Rightarrow> int \<Rightarrow> lang_state \<Rightarrow> (lang_state \<times> control) run" where
  "exec_let s line_no st = (let (name, r) = read_ident (skip_ws s) in
     if \<not> 0 < length name then syntax_error ''syntax error (bad name) on line '' line_no st
     else if chr (skip_ws r) 0 \<noteq> 0x3D then syntax_error ''syntax error (expected '=') on line '' line_no st
     else (case parse_expr (vars st) (tl (skip_ws r)) of None \<Rightarrow> Crash | Some (v, _) \<Rightarrow> set_var name v st))"

definition exec_print :: "u8 list \<Rightarrow> lang_state \<Rightarrow> (lang_state \<times> control) run" where
  "exec_print s st = (let p = skip_ws s in
     if chr p 0 = 0x22 then
       Done (print_bytes [0x0A] (print_bytes (takeWhile (\<lambda>c. c \<noteq> 0 \<and> c \<noteq> 0x22) (tl p)) st), Next)
     else (case parse_expr (vars st) p of None \<Rightarrow> Crash
       | Some (v, _) \<Rightarrow> Done (print_bytes [0x0A] (print_int v st), Next)))"

definition exec_input :: "u8 list \<Rightarrow> int \<Rightarrow> lang_state \<Rightarrow> (lang_state \<times> control) run" where
  "exec_input s line_no st = (let (name, r) = read_ident (skip_ws s) in
     if \<not> 0 < length name then syntax_error ''syntax error (bad name) on line '' line_no st
     else (case read_line 32 (print_bytes (literal ''? '') st) of
       None \<Rightarrow> Waits
     | Some (t, buf) \<Rightarrow> (case parse_expr (vars t) (skip_ws buf) of None \<Rightarrow> Crash | Some (v, _) \<Rightarrow> set_var name v t)))"

definition exec_if :: "u8 list \<Rightarrow> int \<Rightarrow> lang_state \<Rightarrow> (lang_state \<times> control) run" where
  "exec_if s line_no st =
     (case parse_expr (vars st) s of None \<Rightarrow> Crash
      | Some (lhs, r1) \<Rightarrow> (let (op, r2) = read_cmp_op r1 in
         case parse_expr (vars st) r2 of None \<Rightarrow> Crash
         | Some (rhs, r3) \<Rightarrow> (let p = skip_ws r3 in
             if \<not> str_starts_with p (literal ''goto '') then syntax_error ''syntax error (expected 'goto') on line '' line_no st
             else (let tgt = parse_line_number (skip_ws (drop 5 p)) in
               Done (st, if eval_cmp lhs op rhs \<and> 1 \<le>s tgt then Jump tgt else Next)))))"

definition exec_goto :: "u8 list \<Rightarrow> lang_state \<Rightarrow> (lang_state \<times> control) run" where
  "exec_goto s st = (let tgt = parse_line_number (skip_ws s) in Done (st, if 1 \<le>s tgt then Jump tgt else Next))"

definition exec_line :: "u8 list \<Rightarrow> int \<Rightarrow> lang_state \<Rightarrow> (lang_state \<times> control) run" where
  "exec_line line line_no st = (let s = skip_ws line in
     if chr s 0 = 0 \<or> chr s 0 = 0x23 then Done (st, Next)
     else if str_starts_with s (literal ''let '') then exec_let (drop 4 s) line_no st
     else if str_starts_with s (literal ''print '') then exec_print (drop 6 s) st
     else if str_starts_with s (literal ''input '') then exec_input (drop 6 s) line_no st
     else if str_starts_with s (literal ''if '') then exec_if (drop 3 s) line_no st
     else if str_starts_with s (literal ''goto '') then exec_goto (drop 5 s) st
     else if str_eq s (literal ''end'') then Done (st, Stop)
     else syntax_error ''syntax error (unknown statement) on line '' line_no st)"

text \<open>\<open>run_script\<close>: the program counter is an \<open>int\<close>, and a jump goes to \<open>(int)target - 1\<close>.\<close>

function run_loop :: "u8 list list \<Rightarrow> int \<Rightarrow> nat \<Rightarrow> lang_state \<Rightarrow> lang_state run" where
  "run_loop lines pc steps s =
     (if 0 \<le> pc \<and> pc < int (length lines) then
        if steps + 1 > STEP_LIMIT then
          Done (print_bytes (literal ''lang: step limit exceeded (possible infinite loop)'' @ [0x0A]) s)
        else (case exec_line (lines ! nat pc) (pc + 1) s of
          Crash \<Rightarrow> Crash
        | Waits \<Rightarrow> Waits
        | Done (t, Next) \<Rightarrow> run_loop lines (pc + 1) (steps + 1) t
        | Done (t, Jump target) \<Rightarrow> run_loop lines (sint (ucast target :: u32) - 1) (steps + 1) t
        | Done (t, Stop) \<Rightarrow> Done t)
      else Done s)"
  by auto
termination
  by (relation "measure (\<lambda>(lines, pc, steps, s). STEP_LIMIT - steps)") auto

declare run_loop.simps [simp del]

definition run_script :: "u8 list list \<Rightarrow> lang_state \<Rightarrow> lang_state run" where
  "run_script lines s = run_loop lines 0 0 s"

text \<open>
  \<open>_start\<close>: the script is opened and read through the system calls, which are parameters here, and run.
  The result is the final state with the exit code.
\<close>

definition lang_start :: "(u8 list \<Rightarrow> 'f option) \<Rightarrow> ('f \<Rightarrow> 'f \<times> u8 list) \<Rightarrow> u8 list \<Rightarrow> u64 \<Rightarrow> lang_state \<Rightarrow> (lang_state \<times> int) run" where
  "lang_start opn rd arg argv_len s = (let name = arg_name arg argv_len in
     if name = [] then Done (print_bytes (literal ''usage: lang <script filename>'' @ [0x0A]) s, 1)
     else (case opn name of
       None \<Rightarrow> Done (print_bytes [0x0A] (print_bytes name (print_bytes (literal ''lang: no such file: '') s)), 1)
     | Some f \<Rightarrow> (case run_script (load_lines (snd (read_content rd [] f))) s of
         Done t \<Rightarrow> Done (t, 0) | Crash \<Rightarrow> Crash | Waits \<Rightarrow> Waits)))"

section \<open>What a script means\<close>

datatype cmp = Eq | Ne | Le | Ge | Lt | Gt

primrec cmp_text :: "cmp \<Rightarrow> u8 list" where
  "cmp_text Eq = [0x3D, 0x3D]" | "cmp_text Ne = [0x21, 0x3D]" | "cmp_text Le = [0x3C, 0x3D]"
| "cmp_text Ge = [0x3E, 0x3D]" | "cmp_text Lt = [0x3C]" | "cmp_text Gt = [0x3E]"

primrec cmp_holds :: "cmp \<Rightarrow> int \<Rightarrow> int \<Rightarrow> bool" where
  "cmp_holds Eq x y = (x = y)" | "cmp_holds Ne x y = (x \<noteq> y)" | "cmp_holds Le x y = (x \<le> y)"
| "cmp_holds Ge x y = (x \<ge> y)" | "cmp_holds Lt x y = (x < y)" | "cmp_holds Gt x y = (x > y)"

datatype stmt = Empty | Let "u8 list" exp | Print exp | Say "u8 list" | Input "u8 list" | If exp cmp exp nat | Goto nat | End

inductive is_stmt :: "u8 list \<Rightarrow> stmt \<Rightarrow> bool" where
  blank: "blanks w \<Longrightarrow> is_stmt w Empty"
| comment: "blanks w \<Longrightarrow> is_stmt (w @ 0x23 # c) Empty"
| let_stmt: "blanks w \<Longrightarrow> blanks w1 \<Longrightarrow> ident x \<Longrightarrow> blanks w2 \<Longrightarrow> is_expr s e \<Longrightarrow> blanks w3 \<Longrightarrow>
    is_stmt (w @ literal ''let '' @ w1 @ x @ w2 @ 0x3D # s @ w3) (Let (take (VAR_NAME_LEN - 1) x) e)"
| print: "blanks w \<Longrightarrow> is_expr s e \<Longrightarrow> blanks w1 \<Longrightarrow> is_stmt (w @ literal ''print '' @ s @ w1) (Print e)"
| say: "blanks w \<Longrightarrow> blanks w1 \<Longrightarrow> 0 \<notin> set t \<Longrightarrow> 0x22 \<notin> set t \<Longrightarrow>
    is_stmt (w @ literal ''print '' @ w1 @ 0x22 # t @ 0x22 # rest) (Say t)"
| input: "blanks w \<Longrightarrow> blanks w1 \<Longrightarrow> ident x \<Longrightarrow> ends rest \<Longrightarrow>
    is_stmt (w @ literal ''input '' @ w1 @ x @ rest) (Input (take (VAR_NAME_LEN - 1) x))"
| if_stmt: "blanks w \<Longrightarrow> is_expr a ea \<Longrightarrow> blanks w1 \<Longrightarrow> is_expr b eb \<Longrightarrow> blanks w2 \<Longrightarrow> w2 \<noteq> [] \<Longrightarrow> blanks w3 \<Longrightarrow>
    ds \<noteq> [] \<Longrightarrow> \<forall>c\<in>set ds. is_digit c \<Longrightarrow> number ds < 2 ^ 31 \<Longrightarrow> no_digit rest \<Longrightarrow>
    is_stmt (w @ literal ''if '' @ a @ w1 @ cmp_text c @ b @ w2 @ literal ''goto '' @ w3 @ ds @ rest) (If ea c eb (number ds))"
| goto: "blanks w \<Longrightarrow> blanks w1 \<Longrightarrow> ds \<noteq> [] \<Longrightarrow> \<forall>c\<in>set ds. is_digit c \<Longrightarrow> number ds < 2 ^ 31 \<Longrightarrow> no_digit rest \<Longrightarrow>
    is_stmt (w @ literal ''goto '' @ w1 @ ds @ rest) (Goto (number ds))"
| end_stmt: "blanks w \<Longrightarrow> is_stmt (w @ literal ''end'') End"

text \<open>The machine that a script programs: variables as a map, at most \<open>MAX_VARS\<close> of them, and the terminal.\<close>

record lang_machine = terminal +
  env :: "u8 list \<rightharpoonup> u64"

definition decimal :: "int \<Rightarrow> u8 list" where
  "decimal i = (if i < 0 then 0x2D # numeral_of (nat (- i)) else numeral_of (nat i))"

definition has_room :: "u8 list \<Rightarrow> lang_machine \<Rightarrow> bool" where
  "has_room x \<sigma> \<longleftrightarrow> x \<in> dom (env \<sigma>) \<or> card (dom (env \<sigma>)) < MAX_VARS"

inductive exec :: "stmt \<Rightarrow> lang_machine \<Rightarrow> control \<Rightarrow> lang_machine \<Rightarrow> bool" where
  Empty: "exec Empty \<sigma> Next \<sigma>"
| Let: "eval (env \<sigma>) e = Some v \<Longrightarrow> has_room x \<sigma> \<Longrightarrow> exec (Let x e) \<sigma> Next (\<sigma>\<lparr>env := (env \<sigma>)(x \<mapsto> v)\<rparr>)"
| Print: "eval (env \<sigma>) e = Some v \<Longrightarrow> exec (Print e) \<sigma> Next (print_bytes (decimal (sint v) @ [0x0A]) \<sigma>)"
| Say: "exec (Say t) \<sigma> Next (print_bytes (t @ [0x0A]) \<sigma>)"
| Input: "read_line 32 (print_bytes (literal ''? '') \<sigma>) = Some (\<tau>, l @ w) \<Longrightarrow> is_expr l e \<Longrightarrow> blanks w \<Longrightarrow>
    eval (env \<tau>) e = Some v \<Longrightarrow> has_room x \<tau> \<Longrightarrow> exec (Input x) \<sigma> Next (\<tau>\<lparr>env := (env \<tau>)(x \<mapsto> v)\<rparr>)"
| If: "eval (env \<sigma>) a = Some x \<Longrightarrow> eval (env \<sigma>) b = Some y \<Longrightarrow>
    exec (If a c b n) \<sigma> (if cmp_holds c (sint x) (sint y) \<and> 1 \<le> n then Jump (of_nat n) else Next) \<sigma>"
| Goto: "exec (Goto n) \<sigma> (if 1 \<le> n then Jump (of_nat n) else Next) \<sigma>"
| End: "exec End \<sigma> Stop \<sigma>"

text \<open>\<open>runs P pc s n t\<close>: from line \<open>pc\<close> (counted from 0), the program halts after \<open>n\<close> statements.\<close>

inductive runs :: "stmt list \<Rightarrow> int \<Rightarrow> lang_machine \<Rightarrow> nat \<Rightarrow> lang_machine \<Rightarrow> bool" where
  halt: "\<not> (0 \<le> pc \<and> pc < int (length P)) \<Longrightarrow> runs P pc \<sigma> 0 \<sigma>"
| stop: "0 \<le> pc \<Longrightarrow> pc < int (length P) \<Longrightarrow> exec (P ! nat pc) \<sigma> Stop \<tau> \<Longrightarrow> runs P pc \<sigma> 1 \<tau>"
| step: "0 \<le> pc \<Longrightarrow> pc < int (length P) \<Longrightarrow> exec (P ! nat pc) \<sigma> Next \<tau> \<Longrightarrow> runs P (pc + 1) \<tau> n \<rho> \<Longrightarrow>
    runs P pc \<sigma> (Suc n) \<rho>"
| jump: "0 \<le> pc \<Longrightarrow> pc < int (length P) \<Longrightarrow> exec (P ! nat pc) \<sigma> (Jump m) \<tau> \<Longrightarrow> runs P (uint m - 1) \<tau> n \<rho> \<Longrightarrow>
    runs P pc \<sigma> (Suc n) \<rho>"

section \<open>The interpreter runs the script\<close>

definition machine_of :: "lang_state \<Rightarrow> lang_machine" where
  "machine_of s = \<lparr>term_in = term_in s, term_out = term_out s, env = map_of (vars s)\<rparr>"

lemma machine_of_simps [simp]:
  "env (machine_of s) = map_of (vars s)" "machine_of (print_bytes b s) = print_bytes b (machine_of s)"
  by (simp_all add: machine_of_def print_bytes_def)

lemma vars_print_bytes [simp]: "vars (print_bytes b s) = vars s"
  by (simp add: print_bytes_def)

lemma neg_unat: "v <s 0 \<longleftrightarrow> sint v < 0" "sint v < 0 \<Longrightarrow> unat (- v) = nat (- sint v)" "\<not> sint v < 0 \<Longrightarrow> unat v = nat (sint v)" for v :: u64
proof -
  show "v <s 0 \<longleftrightarrow> sint v < 0" by (simp add: word_sless_alt)
  have r: "- (2 ^ 63) \<le> sint v" "sint v < 2 ^ 63" using sint_ge [of v] sint_lt [of v] by simp_all
  show "unat (- v) = nat (- sint v)" if "sint v < 0"
  proof -
    have "- v = word_of_int (- sint v)" by simp
    then have "uint (- v) = uint (word_of_int (- sint v) :: u64)" by (rule arg_cong)
    also have "\<dots> = (- sint v) mod 2 ^ 64" unfolding uint_word_of_int by simp
    also have "\<dots> = - sint v" by (rule mod_pos_pos_trivial) (use r that in simp_all)
    finally show ?thesis by (simp add: unat_eq_nat_uint)
  qed
  show "unat v = nat (sint v)" if "\<not> sint v < 0"
  proof -
    have "uint v = uint (word_of_int (sint v) :: u64)" by simp
    also have "\<dots> = sint v mod 2 ^ 64" unfolding uint_word_of_int by simp
    also have "\<dots> = sint v" by (rule mod_pos_pos_trivial) (use r that in simp_all)
    finally show ?thesis by (simp add: unat_eq_nat_uint)
  qed
qed

lemma print_int_decimal: "print_int v s = print_bytes (decimal (sint v)) s"
  using neg_unat(2,3) [of v] by (auto simp: print_int_def Let_def neg_unat(1) decimal_def utoa_numeral print_bytes_append literal_def)

lemma set_var_machine:
  assumes "vars_ok (vars s)" and "0 \<notin> set x" and "length x < VAR_NAME_LEN" and "has_room x (machine_of s)"
  obtains t where "set_var x v s = Done (t, Next)" and "machine_of t = (machine_of s)\<lparr>env := (map_of (vars s))(x \<mapsto> v)\<rparr>" and "vars_ok (vars t)"
proof (cases "first_index (\<lambda>v. str_eq (fst v) x) (vars s)")
  case None
  then have n: "x \<notin> fst ` set (vars s)" using assms(1,2) by (auto simp: str_eq_cstr cstr_id vars_ok_def)
  have d: "card (dom (map_of (vars s))) = length (vars s)"
    using assms(1) by (simp add: vars_ok_def dom_map_of_conv_image_fst card_image distinct_map distinct_card)
  have r: "length (vars s) < MAX_VARS" using assms(4) n d by (auto simp: has_room_def dom_map_of_conv_image_fst)
  have x: "take (VAR_NAME_LEN - 1) (cstr x) = x" using assms(2,3) by (simp add: cstr_id)
  let ?t = "s\<lparr>vars := vars s @ [(x, v)]\<rparr>"
  have "set_var x v s = Done (?t, Next)" using None r x by (simp add: set_var_def var_ref_def del: first_index_None)
  moreover have "machine_of ?t = (machine_of s)\<lparr>env := (map_of (vars s))(x \<mapsto> v)\<rparr>"
  proof -
    have "map_of (vars s) x = None" using n by (simp add: map_of_eq_None_iff)
    then show ?thesis by (auto simp: machine_of_def map_add_def fun_eq_iff split: option.splits)
  qed
  moreover have "vars_ok (vars ?t)" using assms(1-3) n r by (auto simp: vars_ok_def)
  ultimately show ?thesis by (rule that)
next
  case (Some i)
  then have i: "i < length (vars s)" "str_eq (fst (vars s ! i)) x" by (rule first_index_SomeD)+
  then have f: "fst (vars s ! i) = x" using assms(1,2) nth_mem [OF i(1)] by (auto simp: str_eq_cstr cstr_id vars_ok_def)
  let ?t = "s\<lparr>vars := (vars s)[i := (x, v)]\<rparr>"
  have m: "map fst ((vars s)[i := (x, v)]) = map fst (vars s)" using f i(1) by (simp add: map_update list_update_same_conv)
  have "set_var x v s = Done (?t, Next)" using Some f by (simp add: set_var_def var_ref_def)
  moreover have "map_of ((vars s)[i := (x, v)]) = (map_of (vars s))(x \<mapsto> v)"
  proof
    fix y
    have d: "distinct (map fst (vars s))" using assms(1) by (simp add: vars_ok_def)
    show "map_of ((vars s)[i := (x, v)]) y = ((map_of (vars s))(x \<mapsto> v)) y"
    proof (cases "y = x")
      case True
      have "(x, v) \<in> set ((vars s)[i := (x, v)])" using i(1) by (simp add: set_update_memI)
      then show ?thesis using True m d by (simp add: map_of_is_SomeI)
    next
      case False
      have "(y, w) \<in> set ((vars s)[i := (x, v)]) \<longleftrightarrow> (y, w) \<in> set (vars s)" for w
      proof
        assume "(y, w) \<in> set ((vars s)[i := (x, v)])"
        then show "(y, w) \<in> set (vars s)" using set_update_subset_insert [of "vars s" i "(x, v)"] False by auto
      next
        assume "(y, w) \<in> set (vars s)"
        then obtain j where j: "j < length (vars s)" "vars s ! j = (y, w)" by (auto simp: in_set_conv_nth)
        then have "i \<noteq> j" using False f by auto
        then have "(vars s)[i := (x, v)] ! j = (y, w)" using j by simp
        then show "(y, w) \<in> set ((vars s)[i := (x, v)])" using j(1) by (metis length_list_update nth_mem)
      qed
      then show ?thesis using False m d by (metis (mono_tags, lifting) fun_upd_other map_of_eq_Some_iff not_Some_eq)
    qed
  qed
  moreover have "vars_ok (vars ?t)" using assms(1-3) m set_update_subset_insert [of "vars s" i "(x, v)"] by (auto simp: vars_ok_def)
  ultimately show ?thesis using that by (simp add: machine_of_def)
qed

lemma expr_start:
  "is_factor s e \<Longrightarrow> chr (skip_ws (s @ r)) 0 \<noteq> 0x22 \<and> s \<noteq> [] \<and> hd s \<noteq> 0x3D"
  "is_term s e \<Longrightarrow> chr (skip_ws (s @ r)) 0 \<noteq> 0x22 \<and> s \<noteq> [] \<and> hd s \<noteq> 0x3D"
  "is_expr s e \<Longrightarrow> chr (skip_ws (s @ r)) 0 \<noteq> 0x22 \<and> s \<noteq> [] \<and> hd s \<noteq> 0x3D"
proof (induction arbitrary: r and r and r rule: is_factor_is_term_is_expr.inducts)
  case (num ds)
  then show ?case by (cases ds) (auto simp: is_digit_def)
next
  case (var x)
  then show ?case by (cases x) (auto simp: ident_def is_ident_char_def)
qed auto

lemma parse_number: "ds \<noteq> [] \<Longrightarrow> \<forall>c\<in>set ds. is_digit c \<Longrightarrow> no_digit rest \<Longrightarrow> blanks w \<Longrightarrow>
    parse_line_number (skip_ws (w @ ds @ rest)) = of_nat (number ds)"
proof -
  assume a: "ds \<noteq> []" "\<forall>c\<in>set ds. is_digit c" "no_digit rest" "blanks w"
  then obtain d es where d: "ds = d # es" "is_digit d" by (cases ds) auto
  then have "skip_ws (ds @ rest) = ds @ rest" by (auto simp: is_digit_def)
  then show ?thesis using read_number [OF a(2,3)] d skip_blanks [OF a(4), of "ds @ rest"]
    by (simp add: parse_line_number_def del: skip_ws.simps)
qed

lemma target_word: "n < 2 ^ 31 \<Longrightarrow> 1 \<le>s (of_nat n :: u64) \<longleftrightarrow> 1 \<le> n" "n < 2 ^ 31 \<Longrightarrow> uint (of_nat n :: u64) = int n"
proof -
  assume n: "n < 2 ^ 31"
  have u: "uint (of_nat n :: u64) = int n" using n by (simp add: unsigned_of_nat take_bit_nat_eq_self flip: uint_nat)
  then show "uint (of_nat n :: u64) = int n" .
  have "sint (of_nat n :: u64) = int n" using n by (simp add: signed_of_nat signed_take_bit_int_eq_self)
  then show "1 \<le>s (of_nat n :: u64) \<longleftrightarrow> 1 \<le> n" by (simp add: word_sle_eq)
qed

text \<open>Selecting the statement by its first word.\<close>

lemma keyword_simps:
  "str_starts_with (literal ''let '' @ r) (literal ''let '')"
  "str_starts_with (literal ''print '' @ r) (literal ''print '')" "\<not> str_starts_with (literal ''print '' @ r) (literal ''let '')"
  "str_starts_with (literal ''input '' @ r) (literal ''input '')" "\<not> str_starts_with (literal ''input '' @ r) (literal ''let '')"
  "\<not> str_starts_with (literal ''input '' @ r) (literal ''print '')"
  "str_starts_with (literal ''if '' @ r) (literal ''if '')" "\<not> str_starts_with (literal ''if '' @ r) (literal ''let '')"
  "\<not> str_starts_with (literal ''if '' @ r) (literal ''print '')" "\<not> str_starts_with (literal ''if '' @ r) (literal ''input '')"
  "str_starts_with (literal ''goto '' @ r) (literal ''goto '')" "\<not> str_starts_with (literal ''goto '' @ r) (literal ''let '')"
  "\<not> str_starts_with (literal ''goto '' @ r) (literal ''print '')" "\<not> str_starts_with (literal ''goto '' @ r) (literal ''input '')"
  "\<not> str_starts_with (literal ''goto '' @ r) (literal ''if '')"
  by (simp_all add: literal_def chr_def)

lemma exec_line_keyword:
  assumes "blanks w"
  shows "exec_line (w @ literal ''let '' @ r) n s = exec_let r n s"
    and "exec_line (w @ literal ''print '' @ r) n s = exec_print r s"
    and "exec_line (w @ literal ''input '' @ r) n s = exec_input r n s"
    and "exec_line (w @ literal ''if '' @ r) n s = exec_if r n s"
    and "exec_line (w @ literal ''goto '' @ r) n s = exec_goto r s"
    and "exec_line (w @ literal ''end'') n s = Done (s, Stop)"
proof -
  have k: "skip_ws (literal k @ r) = literal k @ r \<and> chr (literal k @ r) 0 \<noteq> 0 \<and> chr (literal k @ r) 0 \<noteq> 0x23"
    if "k \<in> {''let '', ''print '', ''input '', ''if '', ''goto ''}" for k r
    using that by (elim insertE emptyE) (simp_all add: literal_def)
  have d: "drop 4 (literal ''let '' @ r) = r" "drop 6 (literal ''print '' @ r) = r" "drop 6 (literal ''input '' @ r) = r"
      "drop 3 (literal ''if '' @ r) = r" "drop 5 (literal ''goto '' @ r) = r" by simp_all
  note line = exec_line_def [of "w @ literal _ @ r"] Let_def skip_blanks [OF assms] keyword_simps d
  show "exec_line (w @ literal ''let '' @ r) n s = exec_let r n s" using k [of "''let ''" r] by (simp add: line)
  show "exec_line (w @ literal ''print '' @ r) n s = exec_print r s" using k [of "''print ''" r] by (simp add: line)
  show "exec_line (w @ literal ''input '' @ r) n s = exec_input r n s" using k [of "''input ''" r] by (simp add: line)
  show "exec_line (w @ literal ''if '' @ r) n s = exec_if r n s" using k [of "''if ''" r] by (simp add: line)
  show "exec_line (w @ literal ''goto '' @ r) n s = exec_goto r s" using k [of "''goto ''" r] by (simp add: line)
  show "exec_line (w @ literal ''end'') n s = Done (s, Stop)"
    using skip_blanks [OF assms, of "literal ''end''"] by (simp add: exec_line_def literal_def chr_def)
qed

lemma skip_ident: "ident x \<Longrightarrow> skip_ws (x @ r) = x @ r"
  by (cases x) (auto simp: ident_def is_ident_char_def)

lemma ident_name: "ident x \<Longrightarrow> 0 < length (take (VAR_NAME_LEN - 1) x) \<and> 0 \<notin> set (take (VAR_NAME_LEN - 1) x) \<and>
    length (take (VAR_NAME_LEN - 1) x) < VAR_NAME_LEN"
  using ident_no_nul [of x] by (auto simp: ident_def VAR_NAME_LEN_def)

lemma read_name:
  "ident x \<Longrightarrow> ends r \<Longrightarrow> blanks w \<Longrightarrow> read_ident (skip_ws (w @ x @ r)) = (take (VAR_NAME_LEN - 1) x, r)"
  by (simp add: skip_blanks skip_ident read_ident_name)

lemma after_expr_end: "blanks w \<Longrightarrow> after_expr w"
  using skip_blanks [of w "[]"] ends_blanks [of w "[]"] by (simp add: after_expr_def after_term_def chr_def)

text \<open>What executing a line gives, in terms of the machine.\<close>

definition does :: "(lang_state \<times> control) run \<Rightarrow> control \<Rightarrow> lang_machine \<Rightarrow> bool" where
  "does res c \<tau> \<longleftrightarrow> (\<exists>t. res = Done (t, c) \<and> machine_of t = \<tau> \<and> vars_ok (vars t))"

lemma set_var_does:
  "vars_ok (vars s) \<Longrightarrow> ident x \<Longrightarrow> has_room (take (VAR_NAME_LEN - 1) x) (machine_of s) \<Longrightarrow>
     does (set_var (take (VAR_NAME_LEN - 1) x) v s) Next ((machine_of s)\<lparr>env := (map_of (vars s))(take (VAR_NAME_LEN - 1) x \<mapsto> v)\<rparr>)"
  using set_var_machine [of s "take (VAR_NAME_LEN - 1) x" v] ident_name [of x] unfolding does_def by metis

lemma let_does:
  assumes "vars_ok (vars s)" and "blanks w1" and "ident x" and "blanks w2" and "is_expr t e" and "blanks w3"
    and "eval (map_of (vars s)) e = Some v" and "has_room (take (VAR_NAME_LEN - 1) x) (machine_of s)"
  shows "does (exec_let (w1 @ x @ w2 @ 0x3D # t @ w3) n s) Next ((machine_of s)\<lparr>env := (map_of (vars s))(take (VAR_NAME_LEN - 1) x \<mapsto> v)\<rparr>)"
proof -
  have "ends (w2 @ 0x3D # t @ w3)" using ends_blanks [OF assms(4), of "0x3D # t @ w3"] by (simp add: is_ident_char_def)
  then have "exec_let (w1 @ x @ w2 @ 0x3D # t @ w3) n s = set_var (take (VAR_NAME_LEN - 1) x) v s"
    using parse_expr_grammar [OF assms(5,1) after_expr_end [OF assms(6)]] assms(7) ident_name [OF assms(3)]
    by (simp add: exec_let_def read_name [OF assms(3) _ assms(2)] skip_blanks [OF assms(4)])
  then show ?thesis using set_var_does [OF assms(1,3,8)] by simp
qed

lemma print_does:
  assumes "vars_ok (vars s)" and "is_expr t e" and "blanks w1" and "eval (map_of (vars s)) e = Some v"
  shows "does (exec_print (t @ w1) s) Next (print_bytes (decimal (sint v) @ [0x0A]) (machine_of s))"
proof -
  have k: "parse_expr (vars s) (skip_ws (t @ w1)) = parse_expr (vars s) (t @ w1)"
    using parse_factor_skip [of "skip_ws (t @ w1)" "t @ w1"] by (simp add: parse_expr.simps parse_term.simps)
  show ?thesis
    using expr_start(3) [OF assms(2), of w1] k parse_expr_grammar [OF assms(2,1) after_expr_end [OF assms(3)]] assms(1,4)
    by (simp add: exec_print_def Let_def does_def print_int_decimal print_bytes_append)
qed

lemma say_does:
  assumes "vars_ok (vars s)" and "blanks w1" and "0 \<notin> set t" and "0x22 \<notin> set t"
  shows "does (exec_print (w1 @ 0x22 # t @ 0x22 # rest) s) Next (print_bytes (t @ [0x0A]) (machine_of s))"
proof -
  have "takeWhile (\<lambda>c. c \<noteq> 0 \<and> c \<noteq> 0x22) (t @ 0x22 # rest) = t"
    using assms(3,4) by (subst takeWhile_append2) auto
  then show ?thesis using assms(1) by (simp add: exec_print_def skip_blanks [OF assms(2)] does_def print_bytes_append)
qed

lemma input_does:
  assumes "vars_ok (vars s)" and "blanks w1" and "ident x" and "ends rest"
    and "read_line 32 (print_bytes (literal ''? '') (machine_of s)) = Some (\<tau>, l @ w)" and "is_expr l e" and "blanks w"
    and "eval (env \<tau>) e = Some v" and "has_room (take (VAR_NAME_LEN - 1) x) \<tau>"
  shows "does (exec_input (w1 @ x @ rest) n s) Next (\<tau>\<lparr>env := (env \<tau>)(take (VAR_NAME_LEN - 1) x \<mapsto> v)\<rparr>)"
proof -
  let ?s = "print_bytes (literal ''? '') s"
  obtain i u where u: "read_line_loop 32 [] (term_in s) (term_out s @ literal ''? '') = Some (l @ w, i, u)"
      "\<tau> = \<lparr>term_in = i, term_out = u, env = map_of (vars s)\<rparr>"
    using assms(5) by (auto simp: read_line_def machine_of_def print_bytes_def split: option.splits)
  let ?t = "s\<lparr>term_in := i, term_out := u\<rparr>"
  have "read_line 32 ?s = Some (?t, l @ w)" using u(1) by (simp add: read_line_def print_bytes_def)
  moreover have "machine_of ?t = \<tau>" using u(2) by (simp add: machine_of_def)
  ultimately obtain t where t: "read_line 32 ?s = Some (t, l @ w)" "machine_of t = \<tau>" "vars t = vars s" by simp
  have e: "env \<tau> = map_of (vars t)" using t(2) by (simp flip: t(2))
  have k: "parse_expr (vars s) (skip_ws (l @ w)) = parse_expr (vars s) (l @ w)"
    using parse_factor_skip [of "skip_ws (l @ w)" "l @ w"] by (simp add: parse_expr.simps parse_term.simps)
  have "exec_input (w1 @ x @ rest) n s = set_var (take (VAR_NAME_LEN - 1) x) v t"
    using t k e parse_expr_grammar [OF assms(6,1) after_expr_end [OF assms(7)]] assms(8) ident_name [OF assms(3)]
    by (simp add: exec_input_def read_name [OF assms(3,4,2)])
  then show ?thesis using set_var_does [of t x v] assms(1,3,9) t e by simp
qed

text \<open>Comparison operators.\<close>

lemma read_cmp:
  assumes "is_expr b e" and "blanks w"
  shows "\<exists>op. read_cmp_op (skip_ws (w @ cmp_text c @ b @ r)) = (op, b @ r) \<and> (\<forall>x y. eval_cmp x op y = cmp_holds c (sint x) (sint y))"
proof -
  obtain d ds where b: "b = d # ds" "d \<noteq> 0x3D" using expr_start(3) [OF assms(1)] by (cases b) auto
  show ?thesis
    using b by (cases c) (simp_all add: skip_blanks [OF assms(2)] read_cmp_op_def chr_def eval_cmp_def word_sle_eq word_sless_alt
        signed_word_eqI [THEN sym] word_eq_iff_signed)
qed

lemma if_does:
  assumes "vars_ok (vars s)" and "is_expr a ea" and "blanks w1" and "is_expr b eb" and "blanks w2" and "w2 \<noteq> []" and "blanks w3"
    and "ds \<noteq> []" and "\<forall>c\<in>set ds. is_digit c" and "number ds < 2 ^ 31" and "no_digit rest"
    and "eval (map_of (vars s)) ea = Some x" and "eval (map_of (vars s)) eb = Some y"
  shows "does (exec_if (a @ w1 @ cmp_text c @ b @ w2 @ literal ''goto '' @ w3 @ ds @ rest) n s)
    (if cmp_holds c (sint x) (sint y) \<and> 1 \<le> number ds then Jump (of_nat (number ds)) else Next) (machine_of s)"
proof -
  let ?g = "literal ''goto '' @ w3 @ ds @ rest"
  let ?r = "w1 @ cmp_text c @ b @ w2 @ ?g"
  have "after_expr (cmp_text c @ b @ w2 @ ?g)" by (cases c) (simp_all add: after_expr_def after_term_def is_ident_char_def)
  then have r: "after_expr ?r"
    using ends_blanks [OF assms(3)] by (simp add: after_expr_def after_term_def skip_blanks [OF assms(3)])
  have g: "after_expr (w2 @ ?g)" "skip_ws (w2 @ ?g) = ?g"
    using assms(5,6) by (cases w2; simp add: after_expr_def after_term_def skip_blanks blanks_def is_ident_char_def literal_def; auto)+
  obtain op where op: "read_cmp_op (skip_ws ?r) = (op, b @ w2 @ ?g)" "\<And>x y. eval_cmp x op y = cmp_holds c (sint x) (sint y)"
    using read_cmp [OF assms(4,3), of c "w2 @ ?g"] by blast
  have "parse_expr (vars s) (a @ ?r) = Some (x, skip_ws ?r)" using parse_expr_grammar [OF assms(2,1) r] assms(12) by simp
  moreover have "parse_expr (vars s) (b @ w2 @ ?g) = Some (y, ?g)" using parse_expr_grammar [OF assms(4,1) g(1)] assms(13) g(2) by simp
  moreover have "skip_ws ?g = ?g" using g(2) skip_ws_idem [of "w2 @ ?g"] by simp
  moreover have "str_starts_with ?g (literal ''goto '')" "drop 5 ?g = w3 @ ds @ rest" using keyword_simps by simp_all
  moreover have "parse_line_number (skip_ws (w3 @ ds @ rest)) = of_nat (number ds)" by (rule parse_number [OF assms(8,9,11,7)])
  ultimately show ?thesis using op assms(1) target_word(1) [OF assms(10)] by (simp add: exec_if_def Let_def does_def)
qed

lemma goto_does:
  assumes "vars_ok (vars s)" and "blanks w1" and "ds \<noteq> []" and "\<forall>c\<in>set ds. is_digit c" and "number ds < 2 ^ 31" and "no_digit rest"
  shows "does (exec_goto (w1 @ ds @ rest) s) (if 1 \<le> number ds then Jump (of_nat (number ds)) else Next) (machine_of s)"
  using parse_number [OF assms(3,4,6,2)] target_word(1) [OF assms(5)] assms(1) by (simp add: exec_goto_def does_def)

inductive_cases exec_cases:
  "exec Empty \<sigma> c \<tau>" "exec (Let x e) \<sigma> c \<tau>" "exec (Print e) \<sigma> c \<tau>" "exec (Say t) \<sigma> c \<tau>" "exec (Input x) \<sigma> c \<tau>"
  "exec (If a op b n) \<sigma> c \<tau>" "exec (Goto n) \<sigma> c \<tau>" "exec End \<sigma> c \<tau>"

text \<open>A line does what its statement means.\<close>

lemma exec_line_does:
  assumes "is_stmt line st" and "vars_ok (vars s)" and "exec st (machine_of s) c \<tau>"
  shows "does (exec_line line n s) c \<tau>"
  using assms(1)
proof cases
  case (blank)
  then show ?thesis using assms skip_blanks [of line "[]"] by (auto elim!: exec_cases simp: exec_line_def chr_def does_def)
next
  case (comment w t)
  then show ?thesis using assms by (auto elim!: exec_cases simp: exec_line_def skip_blanks does_def)
next
  case (let_stmt w w1 x w2 t e w3)
  then show ?thesis using assms let_does [of s w1 x w2 t e w3] by (auto elim!: exec_cases simp: exec_line_keyword machine_of_def [symmetric])
next
  case (print w t e w1)
  then show ?thesis using assms print_does by (auto elim!: exec_cases simp: exec_line_keyword)
next
  case (say w w1 t rest)
  then show ?thesis using assms say_does by (auto elim!: exec_cases simp: exec_line_keyword)
next
  case (input w w1 x rest)
  then show ?thesis using assms input_does by (auto elim!: exec_cases simp: exec_line_keyword)
next
  case (if_stmt w a ea w1 b eb w2 w3 ds rest op)
  then show ?thesis using assms if_does by (auto elim!: exec_cases simp: exec_line_keyword)
next
  case (goto w w1 ds rest)
  then show ?thesis using assms goto_does by (auto elim!: exec_cases simp: exec_line_keyword)
next
  case (end_stmt w)
  then show ?thesis using assms by (auto elim!: exec_cases simp: exec_line_keyword does_def)
qed

lemma jump_small: "is_stmt line st \<Longrightarrow> exec st \<sigma> (Jump m) \<tau> \<Longrightarrow> uint m < 2 ^ 31"
  by (erule is_stmt.cases) (auto elim!: exec_cases split: if_splits simp: target_word(2))

lemma jump_target: "uint m < 2 ^ 31 \<Longrightarrow> sint (ucast m :: u32) = uint m" for m :: u64
proof -
  assume m: "uint m < 2 ^ 31"
  have "uint (ucast m :: u32) = uint m" using m by (simp add: unsigned_ucast_eq take_bit_int_eq_self)
  moreover have "signed_take_bit 31 (uint m) = uint m"
    by (rule signed_take_bit_int_eq_self [OF order_trans [OF _ uint_ge_0]]) (use m in simp_all)
  ultimately show ?thesis by (simp add: sint_uint)
qed

lemma run_loop_runs:
  assumes "runs P pc \<sigma> n \<tau>" and "list_all2 is_stmt lines P" and "machine_of s = \<sigma>" and "vars_ok (vars s)" and "steps + n \<le> STEP_LIMIT"
  shows "\<exists>t. run_loop lines pc steps s = Done t \<and> machine_of t = \<tau> \<and> vars_ok (vars t)"
  using assms
proof (induction arbitrary: s steps rule: runs.induct)
  case (halt pc P \<sigma>)
  then show ?case by (auto simp: run_loop.simps [of lines pc] list_all2_lengthD)
next
  case (stop pc P \<sigma> \<tau>)
  have l: "pc < int (length lines)" "is_stmt (lines ! nat pc) (P ! nat pc)"
    using stop.hyps stop.prems(1) by (auto simp: list_all2_lengthD intro: list_all2_nthD)
  obtain t where "exec_line (lines ! nat pc) (pc + 1) s = Done (t, Stop)" "machine_of t = \<tau>" "vars_ok (vars t)"
    using exec_line_does [OF l(2) stop.prems(3), of Stop \<tau> "pc + 1"] stop.hyps(3) stop.prems(2) by (auto simp: does_def)
  then show ?case using stop.hyps(1) stop.prems(4) l(1) by (simp add: run_loop.simps [of lines pc])
next
  case (step pc P \<sigma> \<tau> n \<rho>)
  have l: "pc < int (length lines)" "is_stmt (lines ! nat pc) (P ! nat pc)"
    using step.hyps step.prems(1) by (auto simp: list_all2_lengthD intro: list_all2_nthD)
  obtain t where t: "exec_line (lines ! nat pc) (pc + 1) s = Done (t, Next)" "machine_of t = \<tau>" "vars_ok (vars t)"
    using exec_line_does [OF l(2) step.prems(3), of Next \<tau> "pc + 1"] step.hyps(3) step.prems(2) by (auto simp: does_def)
  have "run_loop lines pc steps s = run_loop lines (pc + 1) (steps + 1) t"
    using t(1) step.hyps(1) step.prems(4) l(1) by (simp add: run_loop.simps [of lines pc])
  then show ?case using step.IH [OF step.prems(1) t(2,3), of "steps + 1"] step.prems(4) by simp
next
  case (jump pc P \<sigma> m \<tau> n \<rho>)
  have l: "pc < int (length lines)" "is_stmt (lines ! nat pc) (P ! nat pc)"
    using jump.hyps jump.prems(1) by (auto simp: list_all2_lengthD intro: list_all2_nthD)
  obtain t where t: "exec_line (lines ! nat pc) (pc + 1) s = Done (t, Jump m)" "machine_of t = \<tau>" "vars_ok (vars t)"
    using exec_line_does [OF l(2) jump.prems(3), of "Jump m" \<tau> "pc + 1"] jump.hyps(3) jump.prems(2) by (auto simp: does_def)
  have "run_loop lines pc steps s = run_loop lines (uint m - 1) (steps + 1) t"
    using t(1) jump.hyps(1) jump.prems(4) l(1) jump_target [OF jump_small [OF l(2) jump.hyps(3)]]
    by (simp add: run_loop.simps [of lines pc])
  then show ?case using jump.IH [OF jump.prems(1) t(2,3), of "steps + 1"] jump.prems(4) by simp
qed

section \<open>How a script can crash the interpreter\<close>

text \<open>A script with more than 32 variables writes through the null pointer that \<open>var_ref\<close> returns.\<close>

lemma lang_too_many_vars:
  assumes "vars_ok (vars s)" and "length (vars s) = MAX_VARS" and "0 \<notin> set x" and "x \<notin> fst ` set (vars s)"
  shows "set_var x v s = Crash"
proof -
  have "first_index (\<lambda>v. str_eq (fst v) x) (vars s) = None" using assms by (auto simp: str_eq_cstr cstr_id vars_ok_def)
  then show ?thesis using assms(2) by (simp add: set_var_def var_ref_def del: first_index_None)
qed

text \<open>The division of the least number by -1 traps.\<close>

lemma lang_division_trap: "exec_line (literal ''print (0-9223372036854775807-1)/(0-1)'') 1 \<lparr>term_in = [], term_out = [], vars = []\<rparr> = Crash"
  by code_simp

section \<open>Properties\<close>

text \<open>
  C29: The interpreter runs a script as the language defines it. When every line is a statement of the
  grammar and the program, run on the abstract machine (a map of variables and the terminal), halts
  after at most STEP_LIMIT statements, run_script returns with exactly the machine's variables, output
  and remaining input: operator precedence, signed arithmetic, comparisons and jumps included.
\<close>

theorem lang_runs_scripts:
  assumes "list_all2 is_stmt lines P" and "vars_ok (vars s)" and "runs P 0 (machine_of s) n \<tau>" and "n \<le> STEP_LIMIT"
  shows "\<exists>t. run_script lines s = Done t \<and> machine_of t = \<tau> \<and> vars_ok (vars t)"
  using run_loop_runs [OF assms(3,1) refl assms(2), of 0] assms(4) by (simp add: run_script_def)

definition lang_example :: "u8 list list" where
  "lang_example = map literal [''let n = 2'', ''print n * (n + 1)'', ''let n = n - 1'', ''if n > 0 goto 2'', ''end'']"

definition lang_program :: "stmt list" where
  "lang_program = [Let [0x6E] (Num 2), Print (Mul (Var [0x6E]) (Add (Var [0x6E]) (Num 1))), Let [0x6E] (Sub (Var [0x6E]) (Num 1)),
     If (Var [0x6E]) Gt (Num 0) 2, End]"

lemma example_parts:
  "is_factor [0x6E] (Var [0x6E])" "is_factor [0x20, 0x6E] (Var [0x6E])" "is_factor (0x20 # [0x30 + of_nat d]) (Num d)" if "d < 10"
proof -
  have v: "is_factor [0x6E] (Var (take (VAR_NAME_LEN - 1) [0x6E]))" by (rule is_factor_is_term_is_expr.var) (simp_all add: ident_def is_ident_char_def is_digit_def)
  then show "is_factor [0x6E] (Var [0x6E])" by (simp add: VAR_NAME_LEN_def)
  then show "is_factor [0x20, 0x6E] (Var [0x6E])" by (rule is_factor_is_term_is_expr.blank) simp
  have "is_factor [0x30 + of_nat d] (Num (number [0x30 + of_nat d]))"
    by (rule is_factor_is_term_is_expr.num) (simp_all add: digit_char [OF that])
  moreover have "number [0x30 + of_nat d] = d" using that by (simp add: number_def unsigned_of_nat take_bit_nat_eq_self)
  ultimately have "is_factor [0x30 + of_nat d] (Num d)" by simp
  then show "is_factor (0x20 # [0x30 + of_nat d]) (Num d)" by (rule is_factor_is_term_is_expr.blank) simp
qed

lemma example_lines: "list_all2 is_stmt lang_example lang_program"
proof -
  note f = example_parts [of 2] example_parts(3) [of 1] example_parts(3) [of 0]
  have 1: "is_stmt (literal ''let n = 2'') (Let [0x6E] (Num 2))"
    using is_stmt.let_stmt [of "[]" "[]" "[0x6E]" "[0x20]" "[0x20, 0x32]" "Num 2" "[]"] f
    by (simp add: literal_def blanks_def ident_def is_ident_char_def VAR_NAME_LEN_def is_factor_is_term_is_expr.factor is_factor_is_term_is_expr.lift)
  have add: "is_expr ([0x6E] @ [0x20] @ 0x2B # [0x20, 0x31]) (Add (Var [0x6E]) (Num 1))"
    by (intro is_factor_is_term_is_expr.intros(10) is_factor_is_term_is_expr.factor is_factor_is_term_is_expr.lift)
       (use f in \<open>simp_all add: blanks_def\<close>)
  have "is_factor (0x20 # 0x28 # ([0x6E] @ [0x20] @ 0x2B # [0x20, 0x31]) @ [] @ [0x29]) (Add (Var [0x6E]) (Num 1))"
    by (intro is_factor_is_term_is_expr.blank is_factor_is_term_is_expr.paren add) (simp_all add: blanks_def)
  then have "is_term ([0x6E] @ [0x20] @ 0x2A # (0x20 # 0x28 # ([0x6E] @ [0x20] @ 0x2B # [0x20, 0x31]) @ [] @ [0x29]))
      (Mul (Var [0x6E]) (Add (Var [0x6E]) (Num 1)))"
    using f by (intro is_factor_is_term_is_expr.mul is_factor_is_term_is_expr.factor) (simp_all add: blanks_def)
  from is_stmt.print [of "[]" _ _ "[]", OF _ is_factor_is_term_is_expr.lift [OF this]]
  have 2: "is_stmt (literal ''print n * (n + 1)'') (Print (Mul (Var [0x6E]) (Add (Var [0x6E]) (Num 1))))"
    by (simp add: literal_def blanks_def)
  have "is_expr ([0x20, 0x6E] @ [0x20] @ 0x2D # [0x20, 0x31]) (Sub (Var [0x6E]) (Num 1))"
    by (intro is_factor_is_term_is_expr.intros(11) is_factor_is_term_is_expr.factor is_factor_is_term_is_expr.lift)
       (use f in \<open>simp_all add: blanks_def\<close>)
  from is_stmt.let_stmt [of "[]" "[]" "[0x6E]" "[0x20]" _ _ "[]", OF _ _ _ _ this]
  have 3: "is_stmt (literal ''let n = n - 1'') (Let [0x6E] (Sub (Var [0x6E]) (Num 1)))"
    by (simp add: literal_def blanks_def ident_def is_ident_char_def VAR_NAME_LEN_def)
  have 4: "is_stmt (literal ''if n > 0 goto 2'') (If (Var [0x6E]) Gt (Num 0) 2)"
    using is_stmt.if_stmt [of "[]" "[0x6E]" "Var [0x6E]" "[0x20]" "[0x20, 0x30]" "Num 0" "[0x20]" "[]" "[0x32]" "[]" Gt] f
    by (simp add: literal_def blanks_def is_digit_def number_def no_digit_def chr_def is_factor_is_term_is_expr.factor is_factor_is_term_is_expr.lift)
  have 5: "is_stmt (literal ''end'') End" using is_stmt.end_stmt [of "[]"] by (simp add: blanks_def)
  show ?thesis using 1 2 3 4 5 by (simp add: lang_example_def lang_program_def)
qed

definition example_state :: "u64 \<Rightarrow> u8 list \<Rightarrow> lang_machine" where
  "example_state n out = \<lparr>term_in = [], term_out = out, env = [[0x6E] \<mapsto> n]\<rparr>"

lemma example_steps:
  "exec (lang_program ! 0) \<lparr>term_in = [], term_out = [], env = Map.empty\<rparr> Next (example_state 2 [])"
  "exec (lang_program ! 1) (example_state n out) Next (example_state n (out @ decimal (sint (n * (n + 1))) @ [0x0A]))"
  "exec (lang_program ! 2) (example_state n out) Next (example_state (n - 1) out)"
  "exec (lang_program ! 3) (example_state n out) (if sint n > 0 then Jump 2 else Next) (example_state n out)"
  "exec (lang_program ! 4) (example_state n out) Stop (example_state n out)"
proof -
  show "exec (lang_program ! 0) \<lparr>term_in = [], term_out = [], env = Map.empty\<rparr> Next (example_state 2 [])"
    using exec.Let [of "\<lparr>term_in = [], term_out = [], env = Map.empty\<rparr>" "Num 2" 2 "[0x6E]"]
    by (simp add: lang_program_def example_state_def has_room_def MAX_VARS_def)
  show "exec (lang_program ! 1) (example_state n out) Next (example_state n (out @ decimal (sint (n * (n + 1))) @ [0x0A]))"
    using exec.Print [of "example_state n out" "Mul (Var [0x6E]) (Add (Var [0x6E]) (Num 1))" "n * (n + 1)"]
    by (simp add: lang_program_def example_state_def bind2_def print_bytes_def)
  show "exec (lang_program ! 2) (example_state n out) Next (example_state (n - 1) out)"
    using exec.Let [of "example_state n out" "Sub (Var [0x6E]) (Num 1)" "n - 1" "[0x6E]"]
    by (simp add: lang_program_def example_state_def bind2_def has_room_def)
  show "exec (lang_program ! 3) (example_state n out) (if sint n > 0 then Jump 2 else Next) (example_state n out)"
    using exec.If [of "example_state n out" "Var [0x6E]" n "Num 0" 0 Gt 2]
    by (cases "0 < sint n") (simp_all add: lang_program_def example_state_def)
  show "exec (lang_program ! 4) (example_state n out) Stop (example_state n out)"
    using exec.End by (simp add: lang_program_def)
qed

lemma example_runs:
  "runs lang_program 0 \<lparr>term_in = [], term_out = [], env = Map.empty\<rparr> 8
     (example_state 0 (literal ''6'' @ [0x0A] @ literal ''2'' @ [0x0A]))"
proof -
  let ?o = "literal ''6'' @ [0x0A]"
  let ?p = "?o @ literal ''2'' @ [0x0A]"
  have len: "length lang_program = 5" by (simp add: lang_program_def)
  have d: "decimal 6 = literal ''6''" "decimal 2 = literal ''2''"
    by (simp_all add: decimal_def numeral_of.simps [of 6] numeral_of.simps [of 2] literal_def)
  have "runs lang_program 4 (example_state 0 ?p) 1 (example_state 0 ?p)"
    using example_steps(5) by (intro runs.stop) (simp_all add: len)
  then have "runs lang_program 3 (example_state 0 ?p) 2 (example_state 0 ?p)"
    using runs.step [of 3 lang_program "example_state 0 ?p" "example_state 0 ?p" 1] example_steps(4) [of 0 ?p] by (simp add: len numeral_2_eq_2)
  then have "runs lang_program 2 (example_state 1 ?p) 3 (example_state 0 ?p)"
    using runs.step [of 2 lang_program "example_state 1 ?p" "example_state 0 ?p" 2] example_steps(3) [of 1 ?p] by (simp add: len)
  then have "runs lang_program 1 (example_state 1 ?o) 4 (example_state 0 ?p)"
    using runs.step [of 1 lang_program "example_state 1 ?o" "example_state 1 ?p" 3] example_steps(2) [of 1 ?o] by (simp add: len d)
  then have "runs lang_program 3 (example_state 1 ?o) 5 (example_state 0 ?p)"
    using runs.jump [of 3 lang_program "example_state 1 ?o" 2 "example_state 1 ?o" 4] example_steps(4) [of 1 ?o] by (simp add: len)
  then have "runs lang_program 2 (example_state 2 ?o) 6 (example_state 0 ?p)"
    using runs.step [of 2 lang_program "example_state 2 ?o" "example_state 1 ?o" 5] example_steps(3) [of 2 ?o] by (simp add: len)
  then have "runs lang_program 1 (example_state 2 []) 7 (example_state 0 ?p)"
    using runs.step [of 1 lang_program "example_state 2 []" "example_state 2 ?o" 6] example_steps(2) [of 2 "[]"] by (simp add: len d)
  then show ?thesis
    using runs.step [of 0 lang_program _ "example_state 2 []" 7] example_steps(1) by (simp add: len)
qed

theorem lang_runs_scripts_witness:
  "\<exists>t. run_script lang_example \<lparr>term_in = [], term_out = [], vars = []\<rparr> = Done t \<and> term_out t = literal ''6'' @ [0x0A] @ literal ''2'' @ [0x0A]"
proof -
  have "vars_ok (vars \<lparr>term_in = [], term_out = [], vars = []\<rparr>)" by (simp add: vars_ok_def)
  then show ?thesis
    using lang_runs_scripts [OF example_lines, of "\<lparr>term_in = [], term_out = [], vars = []\<rparr>" 8] example_runs
    by (auto simp: machine_of_def STEP_LIMIT_def example_state_def)
qed

end
