(* ===== verification/Edit.thy ===== *)
theory Edit
  imports User_Lib
begin

text \<open>
  The line editor (\<open>programs/edit.c\<close>). The line buffer is the whole array of \<open>MAX_LINES\<close> strings with the
  number of those in use; an access outside it is a crash. Opening the file for writing and writing
  to it are system calls and parameters, with \<open>disk_file\<close> the state they work on; drawing a row and
  moving the cursor are recorded in the state.
\<close>

definition CMD_MAX :: nat where "CMD_MAX = 128"
definition TITLE_ROW :: u64 where "TITLE_ROW = 0"
definition HINT_ROW :: u64 where "HINT_ROW = 1"
definition TEXT_TOP :: u64 where "TEXT_TOP = 2"

record 'f edit_state = terminal +
  line_buf :: "u8 list list"
  line_count :: nat
  modified :: bool
  file_name :: "u8 list"
  status_row :: u64
  cmd_row :: u64
  text_rows_visible :: u64
  top_line :: int
  screen_rows :: "u64 \<Rightarrow> u8 list"
  cursor_pos :: "u64 \<times> u64"
  disk_file :: 'f

text \<open>\<open>sys_draw_row\<close> and \<open>sys_set_cursor\<close>.\<close>

definition draw_row :: "u64 \<Rightarrow> u8 list \<Rightarrow> 'f edit_state \<Rightarrow> 'f edit_state" where
  "draw_row row text s = s\<lparr>screen_rows := (screen_rows s)(row := text)\<rparr>"

definition set_cursor :: "u64 \<Rightarrow> u64 \<Rightarrow> 'f edit_state \<Rightarrow> 'f edit_state" where
  "set_cursor row col s = s\<lparr>cursor_pos := (row, col)\<rparr>"

text \<open>\<open>parse_uint\<close>: spaces, then digits; -1 without any.\<close>

definition parse_uint :: "u8 list \<Rightarrow> u64" where
  "parse_uint s = (let p = dropWhile (\<lambda>c. c = 0x20) s in if is_digit (chr p 0) then fst (read_digits 0 p) else - 1)"

text \<open>\<open>utoa(value, out, min_digits)\<close>: padded with zeros on the left.\<close>

definition utoa_padded :: "u64 \<Rightarrow> nat \<Rightarrow> u8 list" where
  "utoa_padded v min_digits = replicate (min_digits - length (utoa v)) 0x30 @ utoa v"

definition status :: "string \<Rightarrow> 'f edit_state \<Rightarrow> 'f edit_state" where
  "status msg s = draw_row (status_row s) (literal msg) s"

text \<open>\<open>redraw\<close>: title, hint and the visible lines; a line below 0 is an access outside the buffer.\<close>

definition title_text :: "u8 list \<Rightarrow> bool \<Rightarrow> u8 list" where
  "title_text name m = literal ''MiniKernel editor - '' @ take 64 name @ (if m then literal '' [modified]'' else [])"

definition row_text :: "int \<Rightarrow> 'f edit_state \<Rightarrow> u8 list run" where
  "row_text i s =
     (if i < int (line_count s) then
        if 0 \<le> i then Done (utoa_padded (word_of_int (i + 1)) 3 @ literal ''| '' @ cstr (line_buf s ! nat i)) else Crash
      else Done (literal ''~''))"

primrec redraw_rows :: "nat \<Rightarrow> nat \<Rightarrow> 'f edit_state \<Rightarrow> 'f edit_state run" where
  "redraw_rows row 0 s = Done s"
| "redraw_rows row (Suc n) s = (case row_text (top_line s + int row) s of
     Done t \<Rightarrow> redraw_rows (Suc row) n (draw_row (TEXT_TOP + of_nat row) t s)
   | Crash \<Rightarrow> Crash | Waits \<Rightarrow> Waits)"

definition redraw :: "'f edit_state \<Rightarrow> 'f edit_state run" where
  "redraw s = redraw_rows 0 (unat (text_rows_visible s))
     (draw_row HINT_ROW (literal ''a=append  i<n> r<n> d<n>=insert/replace/delete line  g<n>=goto  w=save  q=quit  wq  q!=discard'')
       (draw_row TITLE_ROW (title_text (file_name s) (modified s)) s))"

definition ensure_visible :: "int \<Rightarrow> 'f edit_state \<Rightarrow> 'f edit_state" where
  "ensure_visible line s =
     (if line < top_line s then s\<lparr>top_line := line\<rparr>
      else if line \<ge> top_line s + int (unat (text_rows_visible s)) then
        (let top = line - int (unat (text_rows_visible s)) + 1 in s\<lparr>top_line := (if top < 0 then 0 else top)\<rparr>)
      else s)"

text \<open>\<open>load_file\<close>, with the file as the read calls see it: \<open>None\<close> when it cannot be opened.\<close>

definition load_file :: "('r \<Rightarrow> 'r \<times> u8 list) \<Rightarrow> 'r option \<Rightarrow> 'f edit_state \<Rightarrow> 'f edit_state" where
  "load_file rd f s = (case f of
     None \<Rightarrow> s\<lparr>line_count := 0\<rparr>
   | Some r \<Rightarrow> (let ls = load_lines (snd (read_content rd [] r)) in
       s\<lparr>line_buf := overwrite 0 ls (line_buf s), line_count := length ls\<rparr>))"

text \<open>
  \<open>save_file\<close>: the lines are written one by one, each followed by a line feed; the results of the
  writes are not looked at.
\<close>

primrec save_lines :: "(u8 list \<Rightarrow> 'f \<Rightarrow> 'f) \<Rightarrow> u8 list list \<Rightarrow> 'f \<Rightarrow> 'f" where
  "save_lines wr [] f = f"
| "save_lines wr (l # ls) f = save_lines wr ls (wr [0x0A] (wr (take (str_len l) l) f))"

definition save_file :: "('f \<Rightarrow> 'f option) \<Rightarrow> (u8 list \<Rightarrow> 'f \<Rightarrow> 'f) \<Rightarrow> 'f edit_state \<Rightarrow> 'f edit_state" where
  "save_file opn wr s = (case opn (disk_file s) of
     None \<Rightarrow> status ''save failed: could not open file'' s
   | Some f \<Rightarrow> (let ls = take (line_count s) (line_buf s); total = (\<Sum>l\<leftarrow>ls. str_len l + 1) in
       draw_row (status_row s) (literal ''saved ('' @ utoa_padded (of_nat total) 0 @ literal '' bytes)'')
         (s\<lparr>disk_file := save_lines wr ls f, modified := False\<rparr>)))"

section \<open>Commands\<close>

text \<open>Copying a string into a line of the buffer.\<close>

definition set_line :: "nat \<Rightarrow> u8 list \<Rightarrow> 'f edit_state \<Rightarrow> 'f edit_state" where
  "set_line i l s = s\<lparr>line_buf := (line_buf s)[i := cstr l]\<rparr>"

lemma read_line_less: "read_line m s = Some (t, b) \<Longrightarrow> 0 < m \<Longrightarrow> length (term_in t) < length (term_in s)"
  using read_line_loop_bound [of m "[]"] by (auto simp: read_line_def split: option.splits)

text \<open>\<open>redraw\<close> and the bookkeeping around it leave the input alone.\<close>

lemma term_in_simps [simp]:
  "term_in (draw_row r t s) = term_in s" "term_in (set_cursor r c s) = term_in s" "term_in (status m s) = term_in s"
  "term_in (print_bytes b s) = term_in s" "term_in (ensure_visible i s) = term_in s"
  by (simp_all add: draw_row_def set_cursor_def status_def print_bytes_def ensure_visible_def Let_def)

lemma redraw_rows_term_in: "redraw_rows row n s = Done t \<Longrightarrow> term_in t = term_in s"
  by (induction n arbitrary: row s) (auto split: run.splits)

lemma redraw_term_in: "redraw s = Done t \<Longrightarrow> term_in t = term_in s"
  by (simp add: redraw_def redraw_rows_term_in)

function append_loop :: "'f edit_state \<Rightarrow> 'f edit_state run" where
  "append_loop s = (case read_line (MAX_LINE_LEN + 1) (print_bytes (literal ''+ '') (set_cursor (cmd_row s) 0 s)) of
     None \<Rightarrow> Waits
   | Some (t, buf) \<Rightarrow>
       if length buf = 0 then Done (status ''append finished'' t)
       else if line_count t \<ge> MAX_LINES then Done (status ''append finished'' (status ''file full, can't append more lines'' t))
       else (let u = ensure_visible (int (line_count t)) ((set_line (line_count t) buf t)\<lparr>line_count := line_count t + 1, modified := True\<rparr>) in
         case redraw u of Done v \<Rightarrow> append_loop v | Crash \<Rightarrow> Crash | Waits \<Rightarrow> Waits))"
  by auto
termination
proof (relation "measure (\<lambda>s. length (term_in s))", goal_cases)
  case (2 s x t buf u v)
  have "term_in u = term_in t" using 2(5) by (simp add: set_line_def)
  then show ?case using redraw_term_in [OF 2(6)] read_line_less 2(1,2) by fastforce
qed simp

declare append_loop.simps [simp del]

definition cmd_append :: "'f edit_state \<Rightarrow> 'f edit_state run" where
  "cmd_append s = (case redraw (status ''append mode: type lines, blank line to stop'' s) of
     Done t \<Rightarrow> append_loop t | Crash \<Rightarrow> Crash | Waits \<Rightarrow> Waits)"

text \<open>\<open>for (i = line_count; i > at; i--) lines[i] = lines[i - 1];\<close>\<close>

fun shift_down :: "nat \<Rightarrow> nat \<Rightarrow> u8 list list \<Rightarrow> u8 list list" where
  "shift_down i at ls = (if at < i then shift_down (i - 1) at (ls[i := cstr (ls ! (i - 1))]) else ls)"

text \<open>\<open>for (i = at; i < line_count - 1; i++) lines[i] = lines[i + 1];\<close>\<close>

function shift_up :: "nat \<Rightarrow> nat \<Rightarrow> u8 list list \<Rightarrow> u8 list list" where
  "shift_up i n ls = (if i + 1 < n then shift_up (i + 1) n (ls[i := cstr (ls ! (i + 1))]) else ls)"
  by auto
termination
  by (relation "measure (\<lambda>(i, n, ls). n - i)") auto

declare shift_down.simps [simp del] shift_up.simps [simp del]

definition cmd_insert :: "int \<Rightarrow> 'f edit_state \<Rightarrow> 'f edit_state run" where
  "cmd_insert at s =
     (if at < 0 \<or> at > int (line_count s) \<or> line_count s \<ge> MAX_LINES then Done (status ''bad line number'' s)
      else (case read_line (MAX_LINE_LEN + 1) (print_bytes (literal ''text> '') (set_cursor (cmd_row s) 0 s)) of
        None \<Rightarrow> Waits
      | Some (t, buf) \<Rightarrow>
          Done (status ''inserted'' (ensure_visible at
            ((set_line (nat at) buf (t\<lparr>line_buf := shift_down (line_count t) (nat at) (line_buf t)\<rparr>))
               \<lparr>line_count := line_count t + 1, modified := True\<rparr>)))))"

definition cmd_replace :: "int \<Rightarrow> 'f edit_state \<Rightarrow> 'f edit_state run" where
  "cmd_replace at s =
     (if at < 0 \<or> at \<ge> int (line_count s) then Done (status ''bad line number'' s)
      else (case read_line (MAX_LINE_LEN + 1) (print_bytes (literal ''text> '') (set_cursor (cmd_row s) 0 s)) of
        None \<Rightarrow> Waits
      | Some (t, buf) \<Rightarrow>
          Done (status ''replaced'' (ensure_visible at ((set_line (nat at) buf t)\<lparr>modified := True\<rparr>)))))"

definition cmd_delete :: "int \<Rightarrow> 'f edit_state \<Rightarrow> 'f edit_state" where
  "cmd_delete at s =
     (if at < 0 \<or> at \<ge> int (line_count s) then status ''bad line number'' s
      else status ''deleted'' (s\<lparr>line_buf := shift_up (nat at) (line_count s) (line_buf s),
        line_count := line_count s - 1, modified := True\<rparr>))"

text \<open>The line number of a command: \<open>(int)n - 1\<close>.\<close>

definition line_index :: "u64 \<Rightarrow> int" where
  "line_index n = sint (ucast n :: u32) - 1"

text \<open>
  One round of the main loop: the state and whether the loop goes on. \<open>quiet\<close> is the \<open>continue\<close>
  that skips the redraw.
\<close>

datatype round = Redraw | Quiet | Leave

definition edit_command :: "('f \<Rightarrow> 'f option) \<Rightarrow> (u8 list \<Rightarrow> 'f \<Rightarrow> 'f) \<Rightarrow> u8 list \<Rightarrow> 'f edit_state \<Rightarrow> ('f edit_state run) \<times> round" where
  "edit_command opn wr cmd s = (let n = parse_uint (tl cmd) in
     if str_eq cmd (literal ''q'') then
       if modified s then (Done (status ''unsaved changes - use 'wq' to save, or 'q!' to discard'' s), Quiet) else (Done s, Leave)
     else if str_eq cmd (literal ''q!'') then (Done s, Leave)
     else if str_eq cmd (literal ''wq'') then (Done (save_file opn wr s), Leave)
     else if str_eq cmd (literal ''w'') then (Done (save_file opn wr s), Redraw)
     else if str_eq cmd (literal ''a'') then (cmd_append s, Redraw)
     else if str_starts_with cmd (literal ''i'') then
       (if n <s 0 then Done (status ''usage: i<line number>'' s) else cmd_insert (line_index n) s, Redraw)
     else if str_starts_with cmd (literal ''r'') then
       (if n <s 0 then Done (status ''usage: r<line number>'' s) else cmd_replace (line_index n) s, Redraw)
     else if str_starts_with cmd (literal ''d'') then
       (if n <s 0 then Done (status ''usage: d<line number>'' s) else Done (cmd_delete (line_index n) s), Redraw)
     else if str_starts_with cmd (literal ''g'') then
       (if n <s 0 then Done (status ''usage: g<line number>'' s) else Done (ensure_visible (line_index n) s), Redraw)
     else if chr cmd 0 = 0 then (Done s, Redraw)
     else (Done (status ''unknown command (see hint row)'' s), Redraw))"

text \<open>The main loop: read a command, execute it, redraw unless the round is quiet.\<close>

lemma append_loop_term_in: "append_loop s = Done t \<Longrightarrow> length (term_in t) \<le> length (term_in s)"
proof (induction s rule: append_loop.induct)
  case (1 s)
  let ?r = "read_line (MAX_LINE_LEN + 1) (print_bytes (literal ''+ '') (set_cursor (cmd_row s) 0 s))"
  obtain u buf where r: "?r = Some (u, buf)" using 1(2) by (cases ?r) (auto simp: append_loop.simps [of s])
  have l: "length (term_in u) < length (term_in s)" using read_line_less [OF r] by simp
  let ?v = "ensure_visible (int (line_count u)) ((set_line (line_count u) buf u)\<lparr>line_count := line_count u + 1, modified := True\<rparr>)"
  have v: "term_in ?v = term_in u" by (simp add: set_line_def)
  show ?case
  proof (cases "length buf = 0 \<or> line_count u \<ge> MAX_LINES")
    case True
    then show ?thesis using 1(2) r l by (auto simp: append_loop.simps [of s] split: if_splits)
  next
    case False
    then obtain w where w: "redraw ?v = Done w" "append_loop w = Done t"
      using 1(2) r by (auto simp: append_loop.simps [of s] Let_def split: run.splits)
    then have "length (term_in t) \<le> length (term_in w)" using 1(1) [OF r refl] False by auto
    then show ?thesis using redraw_term_in [OF w(1)] v l by simp
  qed
qed

lemma edit_command_term_in: "fst (edit_command opn wr cmd s) = Done t \<Longrightarrow> length (term_in t) \<le> length (term_in s)"
proof -
  have a: "cmd_append s = Done t \<Longrightarrow> length (term_in t) \<le> length (term_in s)" for s t :: "'a edit_state"
    using redraw_term_in append_loop_term_in by (fastforce simp: cmd_append_def split: run.splits)
  have i: "cmd_insert at s = Done t \<Longrightarrow> length (term_in t) \<le> length (term_in s)" for at and s t :: "'a edit_state"
    using read_line_less [of "MAX_LINE_LEN + 1"] by (fastforce simp: cmd_insert_def set_line_def split: option.splits if_splits)
  have r: "cmd_replace at s = Done t \<Longrightarrow> length (term_in t) \<le> length (term_in s)" for at and s t :: "'a edit_state"
    using read_line_less [of "MAX_LINE_LEN + 1"] by (fastforce simp: cmd_replace_def set_line_def split: option.splits if_splits)
  have d: "term_in (cmd_delete at s) = term_in s" for at and s :: "'a edit_state" by (simp add: cmd_delete_def)
  have f: "term_in (save_file opn wr s) = term_in s" by (simp add: save_file_def Let_def split: option.splits)
  assume "fst (edit_command opn wr cmd s) = Done t"
  then show ?thesis using a i r d f by (auto simp: edit_command_def Let_def split: if_splits)
qed

function edit_loop :: "('f \<Rightarrow> 'f option) \<Rightarrow> (u8 list \<Rightarrow> 'f \<Rightarrow> 'f) \<Rightarrow> 'f edit_state \<Rightarrow> 'f edit_state run" where
  "edit_loop opn wr s = (case read_line CMD_MAX (print_bytes (literal ''cmd> '') (set_cursor (cmd_row s) 0 s)) of
     None \<Rightarrow> Waits
   | Some (t, cmd) \<Rightarrow> (case fst (edit_command opn wr cmd t) of
       Crash \<Rightarrow> Crash
     | Waits \<Rightarrow> Waits
     | Done u \<Rightarrow> (case snd (edit_command opn wr cmd t) of
         Leave \<Rightarrow> Done u
       | Quiet \<Rightarrow> edit_loop opn wr u
       | Redraw \<Rightarrow> (case redraw u of Done v \<Rightarrow> edit_loop opn wr v | Crash \<Rightarrow> Crash | Waits \<Rightarrow> Waits))))"
  by auto
termination
proof (relation "measure (\<lambda>(opn, wr, s). length (term_in s))", goal_cases)
  case (2 opn wr s x t cmd u v)
  then show ?case using edit_command_term_in [of opn wr cmd t u] redraw_term_in [of u v] read_line_less [of CMD_MAX _ t cmd]
    by (fastforce simp: CMD_MAX_def)
next
  case (3 opn wr s x t cmd u)
  then show ?case using edit_command_term_in [of opn wr cmd t u] read_line_less [of CMD_MAX _ t cmd]
    by (fastforce simp: CMD_MAX_def)
qed simp

declare edit_loop.simps [simp del]

text \<open>
  \<open>_start\<close>: the screen size, when the call gives it, the file, and the loop; the exit code comes with the
  state.
\<close>

definition edit_start :: "('f \<Rightarrow> 'f option) \<Rightarrow> (u8 list \<Rightarrow> 'f \<Rightarrow> 'f) \<Rightarrow> ('r \<Rightarrow> 'r \<times> u8 list) \<Rightarrow> (u8 list \<Rightarrow> 'r option) \<Rightarrow>
    (u64 \<times> u64) option \<Rightarrow> u8 list \<Rightarrow> u64 \<Rightarrow> 'f edit_state \<Rightarrow> ('f edit_state \<times> int) run" where
  "edit_start opn wr rd file screen arg argv_len s = (let name = arg_name arg argv_len in
     if name = [] then Done (print_bytes (literal ''usage: edit <filename>'' @ [0x0A]) s, 1)
     else (let rows = (case screen of Some (cols, rows) \<Rightarrow> rows | None \<Rightarrow> 25);
         t = load_file rd (file name) (s\<lparr>file_name := name, status_row := rows - 2, cmd_row := rows - 1,
               text_rows_visible := rows - 2 - TEXT_TOP\<rparr>);
         u = status ''loaded'' (t\<lparr>screen_rows := \<lambda>_. []\<rparr>) in
       case redraw u of
         Done v \<Rightarrow> (case edit_loop opn wr v of
             Done w \<Rightarrow> Done (set_cursor 0 0 (w\<lparr>screen_rows := \<lambda>_. []\<rparr>), 0) | Crash \<Rightarrow> Crash | Waits \<Rightarrow> Waits)
       | Crash \<Rightarrow> Crash | Waits \<Rightarrow> Waits))"

section \<open>The text and its invariant\<close>

definition text_of :: "'f edit_state \<Rightarrow> u8 list list" where
  "text_of s = map cstr (take (line_count s) (line_buf s))"

definition edit_ok :: "'f edit_state \<Rightarrow> bool" where
  "edit_ok s \<longleftrightarrow> length (line_buf s) = MAX_LINES \<and> line_count s \<le> MAX_LINES \<and> lines_ok (text_of s) \<and> 0 \<le> top_line s"

lemma length_text: "edit_ok s \<Longrightarrow> length (text_of s) = line_count s"
  by (simp add: edit_ok_def text_of_def)

lemma length_shift_down [simp]: "length (shift_down i at ls) = length ls"
  by (induction i at ls rule: shift_down.induct) (simp add: shift_down.simps)

lemma nth_shift_down:
  "i < length ls \<Longrightarrow> k < length ls \<Longrightarrow> shift_down i at ls ! k = (if at < k \<and> k \<le> i then cstr (ls ! (k - 1)) else ls ! k)"
proof (induction i at ls rule: shift_down.induct)
  case (1 i at ls)
  show ?case
  proof (cases "at < i")
    case True
    have "shift_down i at ls ! k = shift_down (i - 1) at (ls[i := cstr (ls ! (i - 1))]) ! k" using True by (simp add: shift_down.simps [of i])
    also have "\<dots> = (if at < k \<and> k \<le> i - 1 then cstr (ls[i := cstr (ls ! (i - 1))] ! (k - 1)) else ls[i := cstr (ls ! (i - 1))] ! k)"
      using 1 True by simp
    also have "\<dots> = (if at < k \<and> k \<le> i then cstr (ls ! (k - 1)) else ls ! k)" using True 1(2,3) by (auto simp: nth_list_update)
    finally show ?thesis .
  qed (auto simp: shift_down.simps [of i])
qed

lemma length_shift_up [simp]: "length (shift_up i n ls) = length ls"
  by (induction i n ls rule: shift_up.induct) (simp add: shift_up.simps)

lemma nth_shift_up:
  "n \<le> length ls \<Longrightarrow> k < length ls \<Longrightarrow> shift_up i n ls ! k = (if i \<le> k \<and> k + 1 < n then cstr (ls ! (k + 1)) else ls ! k)"
proof (induction i n ls rule: shift_up.induct)
  case (1 i n ls)
  show ?case
  proof (cases "i + 1 < n")
    case True
    have "shift_up i n ls ! k = shift_up (i + 1) n (ls[i := cstr (ls ! (i + 1))]) ! k" using True by (simp add: shift_up.simps [of i])
    also have "\<dots> = (if i + 1 \<le> k \<and> k + 1 < n then cstr (ls[i := cstr (ls ! (i + 1))] ! (k + 1)) else ls[i := cstr (ls ! (i + 1))] ! k)"
      using 1 True by simp
    also have "\<dots> = (if i \<le> k \<and> k + 1 < n then cstr (ls ! (k + 1)) else ls ! k)" using True 1(2,3) by (auto simp: nth_list_update)
    finally show ?thesis .
  qed (auto simp: shift_up.simps [of i])
qed

lemma text_insert:
  assumes "length ls = MAX_LINES" and "n < MAX_LINES" and "at \<le> n"
  shows "map cstr (take (n + 1) ((shift_down n at ls)[at := cstr l])) =
    take at (map cstr (take n ls)) @ [cstr l] @ drop at (map cstr (take n ls))"
proof (rule nth_equalityI)
  show "length (map cstr (take (n + 1) ((shift_down n at ls)[at := cstr l]))) =
      length (take at (map cstr (take n ls)) @ [cstr l] @ drop at (map cstr (take n ls)))"
    using assms by simp
next
  fix k
  assume "k < length (map cstr (take (n + 1) ((shift_down n at ls)[at := cstr l])))"
  then have k: "k \<le> n" "k < length ls" using assms by auto
  then show "map cstr (take (n + 1) ((shift_down n at ls)[at := cstr l])) ! k =
      (take at (map cstr (take n ls)) @ [cstr l] @ drop at (map cstr (take n ls))) ! k"
    using assms nth_shift_down [of n ls k at] by (auto simp: nth_append nth_list_update nth_Cons' min_def)
qed

lemma text_replace:
  "at < n \<Longrightarrow> map cstr (take n (ls[at := cstr l])) = (map cstr (take n ls))[at := cstr l]"
  by (simp add: take_update_swap map_update)

lemma text_delete:
  assumes "length ls = MAX_LINES" and "n \<le> MAX_LINES" and "at < n"
  shows "map cstr (take (n - 1) (shift_up at n ls)) = take at (map cstr (take n ls)) @ drop (Suc at) (map cstr (take n ls))"
proof (rule nth_equalityI)
  show "length (map cstr (take (n - 1) (shift_up at n ls))) = length (take at (map cstr (take n ls)) @ drop (Suc at) (map cstr (take n ls)))"
    using assms by simp
next
  fix k
  assume "k < length (map cstr (take (n - 1) (shift_up at n ls)))"
  then have k: "k < n - 1" "k < length ls" using assms by auto
  then show "map cstr (take (n - 1) (shift_up at n ls)) ! k = (take at (map cstr (take n ls)) @ drop (Suc at) (map cstr (take n ls))) ! k"
    using assms nth_shift_up [of n ls k at] by (auto simp: nth_append min_def)
qed

text \<open>Drawing changes the screen only.\<close>

definition same_but_screen :: "'f edit_state \<Rightarrow> 'f edit_state \<Rightarrow> bool" where
  "same_but_screen s t \<longleftrightarrow> (\<exists>f. t = s\<lparr>screen_rows := f\<rparr>)"

lemma screen_refl: "same_but_screen s s"
  unfolding same_but_screen_def by (rule exI [of _ "screen_rows s"]) simp

lemma draw_row_screen: "same_but_screen s t \<Longrightarrow> same_but_screen s (draw_row r x t)"
  by (auto simp: same_but_screen_def draw_row_def)

lemma status_screen: "same_but_screen s t \<Longrightarrow> same_but_screen s (status m t)"
  by (simp add: status_def draw_row_screen)

lemma redraw_rows_ok: "same_but_screen s t \<Longrightarrow> 0 \<le> top_line s \<Longrightarrow> \<exists>u. redraw_rows row n t = Done u \<and> same_but_screen s u"
proof (induction n arbitrary: row t)
  case (Suc n)
  have "\<exists>x. row_text (top_line t + int row) t = Done x" using Suc.prems by (auto simp: row_text_def same_but_screen_def)
  then show ?case using Suc.IH [OF draw_row_screen [OF Suc.prems(1)] Suc.prems(2)] by auto
qed simp

lemma redraw_ok: "0 \<le> top_line s \<Longrightarrow> \<exists>u. redraw s = Done u \<and> same_but_screen s u"
  unfolding redraw_def by (rule redraw_rows_ok) (intro draw_row_screen screen_refl)

text \<open>\<open>about s t text\<close>: the state \<open>t\<close> holds a text, in order, and the file and input of \<open>s\<close>.\<close>

definition holds :: "'f edit_state \<Rightarrow> u8 list list \<Rightarrow> u8 list \<Rightarrow> 'f \<Rightarrow> bool" where
  "holds s tx inp f \<longleftrightarrow> edit_ok s \<and> text_of s = tx \<and> term_in s = inp \<and> disk_file s = f"

lemma holds_screen: "same_but_screen s t \<Longrightarrow> holds t tx inp f = holds s tx inp f"
  by (auto simp: same_but_screen_def holds_def edit_ok_def text_of_def)

lemma holds_upd [simp]:
  "holds (draw_row r x s) tx inp f = holds s tx inp f"
  "holds (status m s) tx inp f = holds s tx inp f" "holds (set_cursor r c s) tx inp f = holds s tx inp f"
  "holds (print_bytes b s) tx inp f = holds s tx inp f" "holds (s\<lparr>modified := m'\<rparr>) tx inp f = holds s tx inp f"
  by (simp_all add: holds_def edit_ok_def text_of_def status_def draw_row_def set_cursor_def print_bytes_def)

lemma ensure_visible_ok: "0 \<le> line \<Longrightarrow> holds s tx inp f \<Longrightarrow> holds (ensure_visible line s) tx inp f"
  by (auto simp: ensure_visible_def holds_def edit_ok_def text_of_def Let_def)

text \<open>A line of plain characters, as it is typed.\<close>

definition plain_line :: "u8 list \<Rightarrow> bool" where
  "plain_line l \<longleftrightarrow> 0 \<notin> set l \<and> 0x0A \<notin> set l \<and> 0x08 \<notin> set l \<and> length l \<le> MAX_LINE_LEN"

lemma read_typed:
  "holds s tx (l @ 0x0A # inp) f \<Longrightarrow> 0x0A \<notin> set l \<Longrightarrow> 0x08 \<notin> set l \<Longrightarrow> length l < m \<Longrightarrow>
     \<exists>t. read_line m s = Some (t, l) \<and> holds t tx inp f \<and> line_buf t = line_buf s \<and> line_count t = line_count s \<and> cmd_row t = cmd_row s"
  using read_line_typed [of s l inp m] by (auto simp: holds_def edit_ok_def text_of_def)

lemma holds_text: "holds s tx inp f \<Longrightarrow> length (line_buf s) = MAX_LINES \<and> line_count s = length tx \<and> lines_ok tx \<and> text_of s = tx"
  using length_text [of s] by (auto simp: holds_def edit_ok_def)

lemma holds_lines: "holds s tx inp f \<Longrightarrow> map cstr (take (length tx) (line_buf s)) = tx"
  using holds_text [of s tx inp f] unfolding text_of_def by metis

lemma holds_change:
  assumes "holds s tx inp f" and "length b = MAX_LINES" and "map cstr (take n b) = tx'" and "lines_ok tx'" and "n \<le> MAX_LINES"
  shows "holds (s\<lparr>line_buf := b, line_count := n, modified := m\<rparr>) tx' inp f"
  using assms by (simp add: holds_def edit_ok_def text_of_def)

lemma plain_ok: "lines_ok tx \<Longrightarrow> plain_line l \<Longrightarrow> length tx < MAX_LINES \<Longrightarrow> lines_ok (take i tx @ l # drop i tx)"
  by (auto simp: lines_ok_def plain_line_def min_def dest: in_set_takeD in_set_dropD)

lemma cmd_insert_ok:
  assumes "holds s tx (l @ 0x0A # inp) f" and "plain_line l" and "at \<le> length tx" and "length tx < MAX_LINES"
  shows "\<exists>t. cmd_insert (int at) s = Done t \<and> holds t (take at tx @ l # drop at tx) inp f"
proof -
  let ?s = "print_bytes (literal ''text> '') (set_cursor (cmd_row s) 0 s)"
  have "holds ?s tx (l @ 0x0A # inp) f" using assms(1) by simp
  then obtain t where t: "read_line (MAX_LINE_LEN + 1) ?s = Some (t, l)" "holds t tx inp f" "line_count t = length tx"
    using read_typed [of ?s tx l inp f "MAX_LINE_LEN + 1"] assms(2) holds_text by (fastforce simp: plain_line_def)
  let ?b = "(shift_down (line_count t) at (line_buf t))[at := cstr l]"
  have b: "map cstr (take (line_count t + 1) ?b) = take at tx @ l # drop at tx"
    using text_insert [of "line_buf t" "line_count t" "at" l] holds_text [OF t(2)] holds_lines [OF t(2)] assms(2-4)
    by (simp add: plain_line_def cstr_id)
  have "holds (t\<lparr>line_buf := ?b, line_count := line_count t + 1, modified := True\<rparr>) (take at tx @ l # drop at tx) inp f"
    by (rule holds_change [OF t(2) _ b]) (use holds_text [OF t(2)] assms t(3) plain_ok in auto)
  from ensure_visible_ok [OF _ this, of "int at"] show ?thesis
    using t(1) holds_text [OF assms(1)] assms(3,4) by (simp add: cmd_insert_def set_line_def)
qed

lemma cmd_replace_ok:
  assumes "holds s tx (l @ 0x0A # inp) f" and "plain_line l" and "at < length tx"
  shows "\<exists>t. cmd_replace (int at) s = Done t \<and> holds t (tx[at := l]) inp f"
proof -
  let ?s = "print_bytes (literal ''text> '') (set_cursor (cmd_row s) 0 s)"
  have "holds ?s tx (l @ 0x0A # inp) f" using assms(1) by simp
  then obtain t where t: "read_line (MAX_LINE_LEN + 1) ?s = Some (t, l)" "holds t tx inp f" "line_count t = length tx"
    using read_typed [of ?s tx l inp f "MAX_LINE_LEN + 1"] assms(2) holds_text by (fastforce simp: plain_line_def)
  have b: "map cstr (take (line_count t) ((line_buf t)[at := cstr l])) = tx[at := l]"
    using text_replace [of "at" "line_count t" "line_buf t" l] holds_text [OF t(2)] holds_lines [OF t(2)] assms(2,3) t(3)
    by (simp add: plain_line_def cstr_id)
  have ok: "lines_ok (tx[at := l])"
    using holds_text [OF t(2)] assms(2) set_update_subset_insert [of tx "at" l] by (auto simp: lines_ok_def plain_line_def)
  have "holds (t\<lparr>line_buf := (line_buf t)[at := cstr l], line_count := line_count t, modified := True\<rparr>) (tx[at := l]) inp f"
    by (rule holds_change [OF t(2) _ b ok]) (use holds_text [OF t(2)] in \<open>auto simp: lines_ok_def\<close>)
  then have "holds ((set_line at l t)\<lparr>modified := True\<rparr>) (tx[at := l]) inp f" by (simp add: set_line_def)
  from ensure_visible_ok [OF _ this, of "int at"]
  have "holds (ensure_visible (int at) ((set_line at l t)\<lparr>modified := True\<rparr>)) (tx[at := l]) inp f" by simp
  then show ?thesis using t(1) holds_text [OF assms(1)] assms(3) by (simp add: cmd_replace_def)
qed

lemma cmd_delete_ok:
  assumes "holds s tx inp f"
  shows "holds (cmd_delete at s) (if 0 \<le> at \<and> at < int (length tx) then take (nat at) tx @ drop (Suc (nat at)) tx else tx) inp f"
proof (cases "0 \<le> at \<and> at < int (length tx)")
  case True
  note h = holds_text [OF assms]
  have b: "map cstr (take (line_count s - 1) (shift_up (nat at) (line_count s) (line_buf s))) = take (nat at) tx @ drop (Suc (nat at)) tx"
    using text_delete [of "line_buf s" "line_count s" "nat at"] h True by (auto simp: text_of_def lines_ok_def)
  have ok: "lines_ok (take (nat at) tx @ drop (Suc (nat at)) tx)"
    using h True by (auto simp: lines_ok_def dest: in_set_takeD in_set_dropD)
  have "holds (s\<lparr>line_buf := shift_up (nat at) (line_count s) (line_buf s), line_count := line_count s - 1, modified := True\<rparr>)
      (take (nat at) tx @ drop (Suc (nat at)) tx) inp f"
    by (rule holds_change [OF assms _ b ok]) (use h in \<open>auto simp: lines_ok_def\<close>)
  then show ?thesis using True h by (simp add: cmd_delete_def)
next
  case False
  then show ?thesis using assms holds_text [OF assms] by (auto simp: cmd_delete_def)
qed

lemma append_loop_ok:
  "holds s tx (concat (map (\<lambda>l. l @ [0x0A]) ls) @ 0x0A # inp) f \<Longrightarrow> \<forall>l\<in>set ls. plain_line l \<and> l \<noteq> [] \<Longrightarrow>
     length tx + length ls \<le> MAX_LINES \<Longrightarrow> \<exists>t. append_loop s = Done t \<and> holds t (tx @ ls) inp f"
proof (induction ls arbitrary: s tx)
  case Nil
  let ?s = "print_bytes (literal ''+ '') (set_cursor (cmd_row s) 0 s)"
  have "holds ?s tx ([] @ 0x0A # inp) f" using Nil(1) by simp
  then obtain t where "read_line (MAX_LINE_LEN + 1) ?s = Some (t, [])" "holds t tx inp f"
    using read_typed [of ?s tx "[]" inp f "MAX_LINE_LEN + 1"] by auto
  then show ?case by (simp add: append_loop.simps [of s])
next
  case (Cons l ls)
  let ?s = "print_bytes (literal ''+ '') (set_cursor (cmd_row s) 0 s)" and ?inp = "concat (map (\<lambda>l. l @ [0x0A]) ls) @ 0x0A # inp"
  have l: "plain_line l" "l \<noteq> []" using Cons.prems(2) by auto
  have "holds ?s tx (l @ 0x0A # ?inp) f" using Cons.prems(1) by simp
  then obtain t where t: "read_line (MAX_LINE_LEN + 1) ?s = Some (t, l)" "holds t tx ?inp f"
    using read_typed [of ?s tx l ?inp f "MAX_LINE_LEN + 1"] l by (fastforce simp: plain_line_def)
  note h = holds_text [OF t(2)]
  have n: "line_count t < MAX_LINES" using h Cons.prems(3) by simp
  let ?b = "(line_buf t)[line_count t := cstr l]"
  have b: "map cstr (take (line_count t + 1) ?b) = tx @ [l]"
    using h n l(1) holds_lines [OF t(2)] by (simp add: take_Suc_conv_app_nth plain_line_def cstr_id)
  have "lines_ok (tx @ [l])" using h l(1) Cons.prems(3) by (auto simp: lines_ok_def plain_line_def)
  then have "holds (t\<lparr>line_buf := ?b, line_count := line_count t + 1, modified := True\<rparr>) (tx @ [l]) ?inp f"
    by (intro holds_change [OF t(2) _ b]) (use h n in auto)
  from ensure_visible_ok [OF _ this, of "int (line_count t)"]
  have u: "holds (ensure_visible (int (line_count t)) ((set_line (line_count t) l t)\<lparr>line_count := line_count t + 1, modified := True\<rparr>)) (tx @ [l]) ?inp f"
      (is "holds ?u _ _ _") by (simp add: set_line_def)
  then obtain v where v: "redraw ?u = Done v" "holds v (tx @ [l]) ?inp f"
    using redraw_ok [of ?u] holds_screen by (fastforce simp: holds_def edit_ok_def)
  have "append_loop s = append_loop v" using t(1) v(1) l(2) n by (simp add: append_loop.simps [of s] Let_def)
  then show ?case using Cons.IH [OF v(2)] Cons.prems(2,3) by simp
qed

section \<open>Editing sessions\<close>

datatype edit_op = Append "u8 list list" | Insert nat "u8 list" | Replace nat "u8 list" | Delete nat | View nat | Save

text \<open>The keys of an operation, what it does to the text, and when the keys mean it.\<close>

primrec keys :: "edit_op \<Rightarrow> u8 list" where
  "keys (Append ls) = literal ''a'' @ 0x0A # concat (map (\<lambda>l. l @ [0x0A]) ls) @ [0x0A]"
| "keys (Insert n l) = literal ''i'' @ numeral_of n @ 0x0A # l @ [0x0A]"
| "keys (Replace n l) = literal ''r'' @ numeral_of n @ 0x0A # l @ [0x0A]"
| "keys (Delete n) = literal ''d'' @ numeral_of n @ [0x0A]"
| "keys (View n) = literal ''g'' @ numeral_of n @ [0x0A]"
| "keys Save = literal ''w'' @ [0x0A]"

primrec edited :: "edit_op \<Rightarrow> u8 list list \<Rightarrow> u8 list list" where
  "edited (Append ls) tx = tx @ ls"
| "edited (Insert n l) tx = take (n - 1) tx @ l # drop (n - 1) tx"
| "edited (Replace n l) tx = tx[n - 1 := l]"
| "edited (Delete n) tx = (if 1 \<le> n \<and> n \<le> length tx then take (n - 1) tx @ drop n tx else tx)"
| "edited (View n) tx = tx"
| "edited Save tx = tx"

primrec op_ok :: "edit_op \<Rightarrow> u8 list list \<Rightarrow> bool" where
  "op_ok (Append ls) tx \<longleftrightarrow> (\<forall>l\<in>set ls. plain_line l \<and> l \<noteq> []) \<and> length tx + length ls \<le> MAX_LINES"
| "op_ok (Insert n l) tx \<longleftrightarrow> plain_line l \<and> 1 \<le> n \<and> n \<le> length tx + 1 \<and> length tx < MAX_LINES"
| "op_ok (Replace n l) tx \<longleftrightarrow> plain_line l \<and> 1 \<le> n \<and> n \<le> length tx"
| "op_ok (Delete n) tx \<longleftrightarrow> n < 2 ^ 31"
| "op_ok (View n) tx \<longleftrightarrow> 1 \<le> n \<and> n < 2 ^ 31"
| "op_ok Save tx \<longleftrightarrow> True"

fun session_ok :: "edit_op list \<Rightarrow> u8 list list \<Rightarrow> bool" where
  "session_ok [] tx = True"
| "session_ok (op # ops) tx = (op_ok op tx \<and> session_ok ops (edited op tx))"

text \<open>What the editor relies on: opening truncates the file, and writes append to it.\<close>

definition file_calls :: "('f \<Rightarrow> u8 list) \<Rightarrow> ('f \<Rightarrow> 'f option) \<Rightarrow> (u8 list \<Rightarrow> 'f \<Rightarrow> 'f) \<Rightarrow> bool" where
  "file_calls content opn wr \<longleftrightarrow>
     (\<forall>f. \<exists>g. opn f = Some g \<and> content g = []) \<and> (\<forall>bs f. content (wr bs f) = content f @ bs)"

lemma save_lines_content: "file_calls content opn wr \<Longrightarrow> 0 \<notin> \<Union> (set ` set ls) \<Longrightarrow> content (save_lines wr ls f) = content f @ line_text ls"
proof (induction ls arbitrary: f)
  case (Cons l ls)
  have "take (str_len l) l = l" using Cons.prems(2) by (simp add: str_len_cstr cstr_id)
  then show ?case using Cons by (simp add: file_calls_def line_text_def)
qed (simp add: line_text_def)

lemma save_lines_cstr: "save_lines wr (map cstr ls) f = save_lines wr ls f"
proof (induction ls arbitrary: f)
  case (Cons l ls)
  have "take (str_len l) l = cstr l" unfolding str_len_cstr cstr_def by (rule takeWhile_eq_take [symmetric])
  moreover have "take (str_len (cstr l)) (cstr l) = cstr l" by (simp add: str_len_cstr)
  ultimately show ?case using Cons by simp
qed simp

lemma holds_disk: "holds s tx inp f \<Longrightarrow> holds (s\<lparr>disk_file := g\<rparr>) tx inp g"
  by (auto simp: holds_def edit_ok_def text_of_def)

lemma save_file_ok:
  assumes "opn f = Some g" and "holds s tx inp f"
  shows "holds (save_file opn wr s) tx inp (save_lines wr tx g) \<and> \<not> modified (save_file opn wr s)"
proof -
  have f: "disk_file s = f" "map cstr (take (line_count s) (line_buf s)) = tx" using assms(2) by (simp_all add: holds_def text_of_def)
  have g: "save_lines wr (take (line_count s) (line_buf s)) g = save_lines wr tx g"
    using save_lines_cstr [of wr "take (line_count s) (line_buf s)" g] f(2) by simp
  let ?t = "s\<lparr>disk_file := save_lines wr tx g, modified := False\<rparr>"
  have "holds ?t tx inp (save_lines wr tx g)" using holds_disk [OF assms(2)] by simp
  then show ?thesis using assms(1) f(1) g by (simp add: save_file_def Let_def) (simp add: draw_row_def)
qed

lemma numeral_chars: "c \<in> set (numeral_of n) \<Longrightarrow> is_digit c"
proof (induction n rule: numeral_of.induct)
  case (1 n)
  then show ?case using digit_char(1) [of "n mod 10"] by (auto simp: numeral_of.simps [of n] split: if_splits)
qed

lemma numeral_length: "n < 10 ^ k \<Longrightarrow> 0 < k \<Longrightarrow> length (numeral_of n) \<le> k"
proof (induction k arbitrary: n)
  case (Suc k)
  show ?case
  proof (cases "n < 10")
    case False
    then have "0 < k" "n div 10 < 10 ^ k" using Suc.prems(1) by (cases k; auto)+
    then show ?thesis using Suc.IH [of "n div 10"] False by (simp add: numeral_of.simps [of n])
  qed (simp add: numeral_of.simps [of n])
qed simp

lemma numeral_typed: "n < 2 ^ 31 \<Longrightarrow> length (numeral_of n) < 12 \<and> 0x0A \<notin> set (numeral_of n) \<and> 0x08 \<notin> set (numeral_of n)"
  using numeral_length [of n 10] numeral_chars [of "0x0A" n] numeral_chars [of "0x08" n] by (auto simp: is_digit_def)

lemma parse_uint_numeral: "n < 2 ^ 31 \<Longrightarrow> \<not> parse_uint (numeral_of n) <s 0 \<and> line_index (parse_uint (numeral_of n)) = int n - 1"
proof -
  assume n: "n < 2 ^ 31"
  obtain d ds where d: "numeral_of n = d # ds" "is_digit d" by (rule numeral_Cons)
  then have "d \<noteq> 0x20" by (auto simp: is_digit_def)
  then have p: "parse_uint (numeral_of n) = of_nat n"
    using d read_numeral [of "[]" n] by (simp add: parse_uint_def chr_def no_digit_def is_digit_def)
  have "sint (of_nat n :: u64) = int n" "sint (ucast (of_nat n :: u64) :: u32) = int n"
    using n by (simp_all add: signed_of_nat signed_take_bit_int_eq_self unsigned_of_nat take_bit_nat_eq_self)
  then show ?thesis by (simp add: p line_index_def word_sless_alt)
qed

text \<open>One round of the main loop.\<close>

lemma edit_round:
  assumes "holds s tx (cmd @ 0x0A # inp) f" and "0x0A \<notin> set cmd" and "0x08 \<notin> set cmd" and "length cmd < CMD_MAX"
    and "\<And>t. holds t tx inp f \<Longrightarrow> \<exists>u. edit_command opn wr cmd t = (Done u, Redraw) \<and> holds u tx' inp' g"
  shows "\<exists>v. edit_loop opn wr s = edit_loop opn wr v \<and> holds v tx' inp' g"
proof -
  let ?s = "print_bytes (literal ''cmd> '') (set_cursor (cmd_row s) 0 s)"
  have "holds ?s tx (cmd @ 0x0A # inp) f" using assms(1) by simp
  then obtain t where t: "read_line CMD_MAX ?s = Some (t, cmd)" "holds t tx inp f"
    using read_typed [of ?s tx cmd inp f CMD_MAX] assms(2-4) by blast
  obtain u where u: "edit_command opn wr cmd t = (Done u, Redraw)" "holds u tx' inp' g" using assms(5) [OF t(2)] by blast
  then obtain v where v: "redraw u = Done v" "same_but_screen u v" using redraw_ok [of u] by (auto simp: holds_def edit_ok_def)
  have "edit_loop opn wr s = edit_loop opn wr v" using t(1) u(1) v(1) by (simp add: edit_loop.simps [of opn wr s])
  then show ?thesis using holds_screen [OF v(2)] u(2) by blast
qed

lemma command_keys:
  "edit_command opn wr (literal ''a'') s = (cmd_append s, Redraw)"
  "edit_command opn wr (literal ''w'') s = (Done (save_file opn wr s), Redraw)"
  "edit_command opn wr (literal ''wq'') s = (Done (save_file opn wr s), Leave)"
  "\<not> parse_uint x <s 0 \<Longrightarrow> edit_command opn wr (literal ''i'' @ x) s = (cmd_insert (line_index (parse_uint x)) s, Redraw)"
  "\<not> parse_uint x <s 0 \<Longrightarrow> edit_command opn wr (literal ''r'' @ x) s = (cmd_replace (line_index (parse_uint x)) s, Redraw)"
  "\<not> parse_uint x <s 0 \<Longrightarrow> edit_command opn wr (literal ''d'' @ x) s = (Done (cmd_delete (line_index (parse_uint x)) s), Redraw)"
  "\<not> parse_uint x <s 0 \<Longrightarrow> edit_command opn wr (literal ''g'' @ x) s = (Done (ensure_visible (line_index (parse_uint x)) s), Redraw)"
  by (simp_all add: edit_command_def literal_def chr_def)

lemma cmd_append_ok:
  assumes "holds s tx (concat (map (\<lambda>l. l @ [0x0A]) ls) @ 0x0A # inp) f" and "\<forall>l\<in>set ls. plain_line l \<and> l \<noteq> []" and "length tx + length ls \<le> MAX_LINES"
  shows "\<exists>t. cmd_append s = Done t \<and> holds t (tx @ ls) inp f"
proof -
  let ?s = "status ''append mode: type lines, blank line to stop'' s"
  obtain t where t: "redraw ?s = Done t" "same_but_screen ?s t"
    using redraw_ok [of ?s] assms(1) by (auto simp: holds_def edit_ok_def status_def draw_row_def)
  then have "holds t tx (concat (map (\<lambda>l. l @ [0x0A]) ls) @ 0x0A # inp) f" using holds_screen [OF t(2)] assms(1) by simp
  then show ?thesis using append_loop_ok [OF _ assms(2,3)] t(1) by (simp add: cmd_append_def)
qed

lemma edit_op_round:
  assumes "file_calls content opn wr" and "holds s tx (keys op @ inp) f" and "op_ok op tx"
  shows "\<exists>v g. edit_loop opn wr s = edit_loop opn wr v \<and> holds v (edited op tx) inp g"
proof (cases op)
  case (Append ls)
  have "\<exists>v. edit_loop opn wr s = edit_loop opn wr v \<and> holds v (tx @ ls) inp f"
  proof (rule edit_round [where cmd = "literal ''a''" and inp = "concat (map (\<lambda>l. l @ [0x0A]) ls) @ 0x0A # inp" and tx = tx and f = f])
    fix t :: "'a edit_state"
    assume "holds t tx (concat (map (\<lambda>l. l @ [0x0A]) ls) @ 0x0A # inp) f"
    then show "\<exists>u. edit_command opn wr (literal ''a'') t = (Done u, Redraw) \<and> holds u (tx @ ls) inp f"
      using cmd_append_ok [of t tx ls inp f] assms(3) Append by (simp add: command_keys)
  qed (use assms(2) Append in \<open>auto simp: literal_def CMD_MAX_def\<close>)
  then show ?thesis using Append by auto
next
  case (Insert n l)
  have n: "n < 2 ^ 31" using assms(3) Insert by (simp add: MAX_LINES_def)
  have i: "int n - 1 = int (n - 1)" using assms(3) Insert by simp
  have "\<exists>v. edit_loop opn wr s = edit_loop opn wr v \<and> holds v (take (n - 1) tx @ l # drop (n - 1) tx) inp f"
  proof (rule edit_round [where cmd = "literal ''i'' @ numeral_of n" and inp = "l @ 0x0A # inp" and tx = tx and f = f])
    fix t :: "'a edit_state"
    assume t: "holds t tx (l @ 0x0A # inp) f"
    have "edit_command opn wr (literal ''i'' @ numeral_of n) t = (cmd_insert (int (n - 1)) t, Redraw)"
      using parse_uint_numeral [OF n] unfolding i by (simp add: command_keys)
    moreover have "\<exists>u. cmd_insert (int (n - 1)) t = Done u \<and> holds u (take (n - 1) tx @ l # drop (n - 1) tx) inp f"
      by (rule cmd_insert_ok [OF t]) (use assms(3) Insert in auto)
    ultimately show "\<exists>u. edit_command opn wr (literal ''i'' @ numeral_of n) t = (Done u, Redraw) \<and> holds u (take (n - 1) tx @ l # drop (n - 1) tx) inp f"
      by simp
  qed (use assms(2) Insert numeral_typed [OF n] in \<open>auto simp: literal_def CMD_MAX_def\<close>)
  then show ?thesis using Insert by auto
next
  case (Replace n l)
  have n: "n < 2 ^ 31" "length tx \<le> MAX_LINES"
    using assms(3) Replace holds_text [OF assms(2)] by (auto simp: MAX_LINES_def lines_ok_def)
  have i: "int n - 1 = int (n - 1)" using assms(3) Replace by simp
  have "\<exists>v. edit_loop opn wr s = edit_loop opn wr v \<and> holds v (tx[n - 1 := l]) inp f"
  proof (rule edit_round [where cmd = "literal ''r'' @ numeral_of n" and inp = "l @ 0x0A # inp" and tx = tx and f = f])
    fix t :: "'a edit_state"
    assume t: "holds t tx (l @ 0x0A # inp) f"
    have "edit_command opn wr (literal ''r'' @ numeral_of n) t = (cmd_replace (int (n - 1)) t, Redraw)"
      using parse_uint_numeral [OF n(1)] unfolding i by (simp add: command_keys)
    moreover have "\<exists>u. cmd_replace (int (n - 1)) t = Done u \<and> holds u (tx[n - 1 := l]) inp f"
      by (rule cmd_replace_ok [OF t]) (use assms(3) Replace in auto)
    ultimately show "\<exists>u. edit_command opn wr (literal ''r'' @ numeral_of n) t = (Done u, Redraw) \<and> holds u (tx[n - 1 := l]) inp f"
      by simp
  qed (use assms(2) Replace numeral_typed [OF n(1)] in \<open>auto simp: literal_def CMD_MAX_def\<close>)
  then show ?thesis using Replace by auto
next
  case (Delete n)
  have n: "n < 2 ^ 31" using assms(3) Delete by simp
  have e: "(if 0 \<le> int n - 1 \<and> int n - 1 < int (length tx) then take (nat (int n - 1)) tx @ drop (Suc (nat (int n - 1))) tx else tx) = edited (Delete n) tx"
    by (cases n) auto
  have "\<exists>v. edit_loop opn wr s = edit_loop opn wr v \<and> holds v (edited (Delete n) tx) inp f"
  proof (rule edit_round [where cmd = "literal ''d'' @ numeral_of n" and inp = inp and tx = tx and f = f])
    fix t :: "'a edit_state"
    assume "holds t tx inp f"
    from cmd_delete_ok [OF this, of "int n - 1"]
    show "\<exists>u. edit_command opn wr (literal ''d'' @ numeral_of n) t = (Done u, Redraw) \<and> holds u (edited (Delete n) tx) inp f"
      unfolding e using parse_uint_numeral [OF n] by (simp add: command_keys del: edited.simps)
  qed (use assms(2) Delete numeral_typed [OF n] in \<open>auto simp: literal_def CMD_MAX_def\<close>)
  then show ?thesis unfolding Delete by blast
next
  case (View n)
  have n: "n < 2 ^ 31" "1 \<le> n" using assms(3) View by simp_all
  have "\<exists>v. edit_loop opn wr s = edit_loop opn wr v \<and> holds v tx inp f"
  proof (rule edit_round [where cmd = "literal ''g'' @ numeral_of n" and inp = inp and tx = tx and f = f])
    fix t :: "'a edit_state"
    assume "holds t tx inp f"
    from ensure_visible_ok [OF _ this, of "int n - 1"]
    show "\<exists>u. edit_command opn wr (literal ''g'' @ numeral_of n) t = (Done u, Redraw) \<and> holds u tx inp f"
      using parse_uint_numeral [OF n(1)] n(2) by (simp add: command_keys)
  qed (use assms(2) View numeral_typed [OF n(1)] in \<open>auto simp: literal_def CMD_MAX_def\<close>)
  then show ?thesis using View by auto
next
  case Save
  obtain g where g: "opn f = Some g" using assms(1) unfolding file_calls_def by blast
  have "\<exists>v. edit_loop opn wr s = edit_loop opn wr v \<and> holds v tx inp (save_lines wr tx g)"
  proof (rule edit_round [where cmd = "literal ''w''" and inp = inp and tx = tx and f = f])
    fix t :: "'a edit_state"
    assume "holds t tx inp f"
    then show "\<exists>u. edit_command opn wr (literal ''w'') t = (Done u, Redraw) \<and> holds u tx inp (save_lines wr tx g)"
      using save_file_ok [of opn f g t tx inp wr] g by (simp add: command_keys)
  qed (use assms(2) Save in \<open>auto simp: literal_def CMD_MAX_def\<close>)
  then show ?thesis using Save by auto
qed

lemma edit_session:
  assumes "file_calls content opn wr" and "holds s tx (concat (map keys ops) @ literal ''wq'' @ 0x0A # rest) f" and "session_ok ops tx"
  shows "\<exists>t g. edit_loop opn wr s = Done t \<and> holds t (fold edited ops tx) rest g \<and> content g = line_text (fold edited ops tx) \<and> \<not> modified t"
  using assms(2,3)
proof (induction ops arbitrary: s tx f)
  case Nil
  let ?s = "print_bytes (literal ''cmd> '') (set_cursor (cmd_row s) 0 s)"
  have "holds ?s tx (literal ''wq'' @ 0x0A # rest) f" using Nil.prems(1) by simp
  then obtain t where t: "read_line CMD_MAX ?s = Some (t, literal ''wq'')" "holds t tx rest f"
    using read_typed [of ?s tx "literal ''wq''" rest f CMD_MAX] by (auto simp: literal_def CMD_MAX_def)
  obtain g where g: "opn f = Some g" "content g = []" using assms(1) unfolding file_calls_def by blast
  have z: "0 \<notin> \<Union> (set ` set tx)" using t(2) by (auto simp: holds_def text_of_def)
  have "edit_loop opn wr s = Done (save_file opn wr t)" using t(1) by (simp add: edit_loop.simps [of opn wr s] command_keys)
  then show ?case using save_file_ok [of opn f g t tx rest wr] g(1) t(2) save_lines_content [OF assms(1) z] g(2) by fastforce
next
  case (Cons op ops)
  have "holds s tx (keys op @ concat (map keys ops) @ literal ''wq'' @ 0x0A # rest) f" using Cons.prems(1) by simp
  then obtain v g where v: "edit_loop opn wr s = edit_loop opn wr v" "holds v (edited op tx) (concat (map keys ops) @ literal ''wq'' @ 0x0A # rest) g"
    using edit_op_round [OF assms(1)] Cons.prems(2) by fastforce
  show ?case using Cons.IH [OF v(2)] Cons.prems(2) v(1) by simp
qed

text \<open>
  The command \<open>g0\<close> makes line -1 the first one on the screen, and drawing it reads before the buffer.
\<close>

lemma edit_goto_zero:
  assumes "holds s tx (literal ''g0'' @ 0x0A # inp) f" and "tx \<noteq> []" and "0 < text_rows_visible s"
  shows "edit_loop opn wr s = Crash"
proof -
  let ?s = "print_bytes (literal ''cmd> '') (set_cursor (cmd_row s) 0 s)"
  have t: "read_line CMD_MAX ?s = Some (?s\<lparr>term_in := inp, term_out := term_out ?s @ literal ''g0'' @ [0x0A]\<rparr>, literal ''g0'')" (is "_ = Some (?t, _)")
    using assms(1) by (intro read_line_typed) (auto simp: holds_def literal_def CMD_MAX_def)
  have g: "literal ''g0'' = literal ''g'' @ literal ''0''" by (simp add: literal_def)
  have n: "parse_uint (literal ''0'') = 0" by (simp add: parse_uint_def literal_def chr_def is_digit_def)
  let ?u = "ensure_visible (-1) ?t"
  have "edit_command opn wr (literal ''g0'') x = (Done (ensure_visible (-1) x), Redraw)" for x :: "'a edit_state"
    unfolding g using command_keys(7) [of "literal ''0''" opn wr x] by (simp add: n line_index_def)
  then have c: "edit_command opn wr (literal ''g0'') ?t = (Done ?u, Redraw)" by blast
  have u: "top_line ?u = -1" "line_count ?u = line_count s" "text_rows_visible ?u = text_rows_visible s" "file_name ?u = file_name s"
    using assms(1) by (auto simp: ensure_visible_def holds_def edit_ok_def set_cursor_def print_bytes_def)
  have "0 < line_count s" using holds_text [OF assms(1)] assms(2) by simp
  then have "row_text (-1) (draw_row r x (draw_row r' x' ?u)) = Crash" for r x r' x' using u(2) by (simp add: row_text_def draw_row_def)
  then have "redraw_rows 0 (Suc k) (draw_row r x (draw_row r' x' ?u)) = Crash" for k r x r' x' using u(1) by (simp add: draw_row_def)
  moreover obtain k where "unat (text_rows_visible s) = Suc k" using assms(3) by (metis gr0_implies_Suc unat_gt_0 word_gt_0)
  ultimately have "redraw ?u = Crash" unfolding redraw_def using u(3) by simp
  then show ?thesis using t c by (simp add: edit_loop.simps [of opn wr s])
qed

section \<open>Properties\<close>


definition edit_example :: "u8 list edit_state" where
  "edit_example = \<lparr>term_in = concat (map keys [Append [literal ''one'', literal ''two''], Insert 2 (literal ''x''), Delete 1]) @ literal ''wq'' @ 0x0A # [],
     term_out = [], line_buf = replicate MAX_LINES [], line_count = 0, modified = False, file_name = literal ''notes'', status_row = 23,
     cmd_row = 24, text_rows_visible = 21, top_line = 0, screen_rows = \<lambda>_. [], cursor_pos = (0, 0), disk_file = [0x21]\<rparr>"


end
