(* ===== verification/Shell.thy ===== *)
theory Shell
  imports User_Lib
begin

text \<open>
  The user shell (\<open>programs/sh.c\<close>) and the login program (\<open>programs/login.c\<close>). The system calls they make
  are parameters, collected in the record \<open>syscalls\<close> over a state \<open>'k\<close> of the kernel; \<open>'k shell\<close> adds the
  program's terminal. A command returns the new state; it may also wait for input, crash on an access
  outside a local array, or, with \<open>None\<close>, loop forever. Strings are the bytes up to the first zero.
\<close>

section \<open>The system calls\<close>

text \<open>
  Results are the C \<open>long\<close> values. \<open>sys_list\<close> gives the name it copied, or nothing for a negative result;
  \<open>sys_read_fd\<close> the bytes that were read; \<open>sys_pipe\<close> the result and the two descriptors.
\<close>

record 'k syscalls =
  sys_list :: "u64 \<Rightarrow> 'k \<Rightarrow> u8 list option"
  sys_open :: "u8 list \<Rightarrow> u64 \<Rightarrow> 'k \<Rightarrow> 'k \<times> int"
  sys_close :: "int \<Rightarrow> 'k \<Rightarrow> 'k"
  sys_read_fd :: "int \<Rightarrow> nat \<Rightarrow> 'k \<Rightarrow> 'k \<times> u8 list"
  sys_write_fd :: "int \<Rightarrow> u8 list \<Rightarrow> 'k \<Rightarrow> 'k"
  sys_remove :: "u8 list \<Rightarrow> 'k \<Rightarrow> 'k \<times> int"
  sys_chmod :: "u8 list \<Rightarrow> u64 \<Rightarrow> 'k \<Rightarrow> 'k \<times> int"
  sys_adduser :: "u8 list \<Rightarrow> u8 list \<Rightarrow> u64 \<Rightarrow> 'k \<Rightarrow> 'k \<times> int"
  sys_spawn :: "u8 list \<Rightarrow> 'k \<Rightarrow> 'k \<times> int"
  sys_spawn_redirect :: "u8 list \<Rightarrow> int \<Rightarrow> int \<Rightarrow> 'k \<Rightarrow> 'k \<times> int"
  sys_wait :: "int \<Rightarrow> 'k \<Rightarrow> 'k"
  sys_pipe :: "'k \<Rightarrow> 'k \<times> int \<times> int \<times> int"
  sys_kill :: "int \<Rightarrow> int \<Rightarrow> 'k \<Rightarrow> 'k \<times> int"
  sys_login :: "u8 list \<Rightarrow> u8 list \<Rightarrow> 'k \<Rightarrow> 'k \<times> int"

record 'k shell = terminal +
  kern :: 'k

text \<open>A call with a result, and one whose result is not used.\<close>

definition call :: "('k \<Rightarrow> 'k \<times> 'r) \<Rightarrow> 'k shell \<Rightarrow> 'k shell \<times> 'r" where
  "call f s = (let (k, r) = f (kern s) in (s\<lparr>kern := k\<rparr>, r))"

definition do_call :: "('k \<Rightarrow> 'k) \<Rightarrow> 'k shell \<Rightarrow> 'k shell" where
  "do_call f s = s\<lparr>kern := f (kern s)\<rparr>"

lemma call_simps [simp]:
  "term_in (fst (call f s)) = term_in s" "term_in (do_call g s) = term_in s"
  "term_out (fst (call f s)) = term_out s" "term_out (do_call g s) = term_out s"
  "kern (fst (call f s)) = fst (f (kern s))" "snd (call f s) = snd (f (kern s))" "kern (do_call g s) = g (kern s)"
  by (simp_all add: call_def do_call_def case_prod_unfold Let_def)

lemma print_bytes_simps [simp]:
  "term_in (print_bytes b s) = term_in s" "kern (print_bytes b s) = kern s" "term_out (print_bytes b s) = term_out s @ b"
  by (simp_all add: print_bytes_def)

text \<open>The conversion \<open>(int)fd\<close> of a \<open>long\<close>.\<close>

definition c_int :: "int \<Rightarrow> int" where
  "c_int x = sint (word_of_int x :: 32 word)"

definition LINE_MAX :: nat where "LINE_MAX = 120"
definition O_CREATE :: u64 where "O_CREATE = 1"
definition O_PERSIST :: u64 where "O_PERSIST = 2"
definition O_TRUNC :: u64 where "O_TRUNC = 4"
definition SIGKILL :: int where "SIGKILL = 9"
definition PERM_OTHER_READ :: u64 where "PERM_OTHER_READ = 0x1"
definition PERM_OTHER_WRITE :: u64 where "PERM_OTHER_WRITE = 0x2"

text \<open>\<open>print(s)\<close> of a literal and of a literal with a line end; \<open>print(s)\<close> of a string.\<close>

definition say :: "string \<Rightarrow> 'k shell \<Rightarrow> 'k shell" where
  "say m s = print_bytes (literal m) s"

definition sayln :: "string \<Rightarrow> 'k shell \<Rightarrow> 'k shell" where
  "sayln m s = print_bytes (literal m @ [0x0A]) s"

definition print_str :: "u8 list \<Rightarrow> 'k shell \<Rightarrow> 'k shell" where
  "print_str a s = print_bytes (take (str_len a) a) s"

definition print_ulong :: "u64 \<Rightarrow> 'k shell \<Rightarrow> 'k shell" where
  "print_ulong v s = print_bytes (utoa v) s"

lemma say_simps [simp]:
  "term_in (say m s) = term_in s" "kern (say m s) = kern s" "term_in (sayln m s) = term_in s" "kern (sayln m s) = kern s"
  "term_in (print_str a s) = term_in s" "kern (print_str a s) = kern s" "term_in (print_ulong v s) = term_in s"
  "kern (print_ulong v s) = kern s"
  by (simp_all add: say_def sayln_def print_str_def print_ulong_def)

section \<open>Commands\<close>

partial_function (option) ls_loop :: "'k syscalls \<Rightarrow> u64 \<Rightarrow> 'k shell \<Rightarrow> 'k shell option" where
  "ls_loop K index s = (case sys_list K index (kern s) of
     None \<Rightarrow> Some s
   | Some name \<Rightarrow> ls_loop K (index + 1) (sayln '''' (print_str name s)))"

definition cmd_ls :: "'k syscalls \<Rightarrow> 'k shell \<Rightarrow> 'k shell run option" where
  "cmd_ls K s = map_option Done (ls_loop K 0 s)"

definition cmd_write :: "'k syscalls \<Rightarrow> u8 list \<Rightarrow> 'k shell \<Rightarrow> 'k shell run" where
  "cmd_write K name s =
     (if chr name 0 = 0 then Done (sayln ''usage: write <name>'' s)
      else let (s, fd) = call (sys_open K name (O_CREATE OR O_PERSIST OR O_TRUNC)) s in
        if fd < 0 then Done (sayln (CHR 0x27 # '''') (print_str name (say (''write: could not open '' @ [CHR 0x27]) s)))
        else case read_line LINE_MAX (say ''content> '' s) of
          None \<Rightarrow> Waits
        | Some (s, line) \<Rightarrow>
            let s = do_call (sys_write_fd K (c_int fd) line) s;
                s = do_call (sys_close K (c_int fd)) s;
                s = say '' ('' (print_str name (say ''saved '' s))
            in Done (sayln '' bytes, persists across reboot)'' (print_ulong (of_nat (length line)) s)))"

partial_function (option) cat_loop :: "'k syscalls \<Rightarrow> int \<Rightarrow> 'k shell \<Rightarrow> 'k shell option" where
  "cat_loop K fd s = (case call (sys_read_fd K fd 128) s of (s, bs) \<Rightarrow>
     if 0 < length bs then cat_loop K fd (print_bytes bs s) else Some s)"

definition cmd_cat :: "'k syscalls \<Rightarrow> u8 list \<Rightarrow> 'k shell \<Rightarrow> 'k shell run option" where
  "cmd_cat K name s =
     (if chr name 0 = 0 then Some (Done (sayln ''usage: cat <name>'' s))
      else let (s, fd) = call (sys_open K name O_PERSIST) s in
        if fd < 0 then Some (Done (sayln '''' (print_str name (say ''cat: no such file: '' s))))
        else map_option (\<lambda>s. Done (do_call (sys_close K (c_int fd)) (sayln '''' s))) (cat_loop K (c_int fd) s))"

text \<open>
  \<open>while (*p != 0 && *p != ' ' && i < n) name[i++] = *p++;\<close> with the word it collects and the rest of
  the arguments; then the spaces are skipped.
\<close>

fun take_word :: "nat \<Rightarrow> u8 list \<Rightarrow> u8 list \<times> u8 list" where
  "take_word n [] = ([], [])"
| "take_word n (c # p) =
     (if c \<noteq> 0 \<and> c \<noteq> 0x20 \<and> 0 < n then let (w, r) = take_word (n - 1) p in (c # w, r) else ([], c # p))"

definition skip_spaces :: "u8 list \<Rightarrow> u8 list" where
  "skip_spaces p = dropWhile (\<lambda>c. c = 0x20) p"

definition chmod_perm :: "u8 list \<Rightarrow> u64 option" where
  "chmod_perm mode =
     (if str_eq_and mode (literal ''private'') then Some 0
      else if str_eq_and mode (literal ''readonly'') then Some PERM_OTHER_READ
      else if str_eq_and mode (literal ''public'') then Some (PERM_OTHER_READ OR PERM_OTHER_WRITE)
      else None)"

definition cmd_chmod :: "'k syscalls \<Rightarrow> u8 list \<Rightarrow> 'k shell \<Rightarrow> 'k shell" where
  "cmd_chmod K args s =
     (let (name, p) = take_word 31 args; mode = skip_spaces p in
      case chmod_perm mode of
        None \<Rightarrow> sayln ''usage: chmod <name> private|readonly|public'' s
      | Some perm \<Rightarrow>
          let (s, r) = (if chr name 0 = 0 then (s, -1) else call (sys_chmod K name perm) s) in
          if chr name 0 = 0 \<or> r < 0 then sayln (''chmod: failed (not found, or you don'' @ CHR 0x27 # ''t own it)'') s
          else sayln '''' (print_str mode (say '' is now '' (print_str name (say ''chmod: '' s)))))"

definition cmd_useradd :: "'k syscalls \<Rightarrow> u8 list \<Rightarrow> 'k shell \<Rightarrow> 'k shell" where
  "cmd_useradd K args s =
     (let (username, p) = take_word 19 args;
          (password, p) = take_word 31 (skip_spaces p);
          p = skip_spaces p;
          have_uid = is_digit (chr p 0);
          (uid, p) = read_digits 0 p
      in if chr username 0 = 0 \<or> chr password 0 = 0 \<or> \<not> have_uid then
           sayln ''usage: useradd <username> <password> <uid>'' s
         else let (s, r) = call (sys_adduser K username password uid) s in
           if r < 0 then sayln ''useradd: failed (not root, bad name, or already exists)'' s
           else sayln '''' (print_str username (say ''useradd: created '' s)))"

definition cmd_rm :: "'k syscalls \<Rightarrow> u8 list \<Rightarrow> 'k shell \<Rightarrow> 'k shell" where
  "cmd_rm K name s =
     (if chr name 0 = 0 then sayln ''usage: rm <name>'' s
      else let (s, r) = call (sys_remove K name) s in
        if r < 0 then sayln '''' (print_str name (say ''rm: no such file: '' s))
        else sayln '''' (print_str name (say ''removed '' s)))"

section \<open>Pipelines\<close>

text \<open>The loop of \<open>find_pipe\<close>, from position \<open>i\<close>.\<close>

fun find_pipe_from :: "nat \<Rightarrow> u8 list \<Rightarrow> nat option" where
  "find_pipe_from i [] = None"
| "find_pipe_from i (c # p) = (if c = 0 then None else if c = 0x7C \<or> c = 0x2C then Some i else find_pipe_from (i + 1) p)"

definition find_pipe :: "u8 list \<Rightarrow> nat option" where
  "find_pipe line = find_pipe_from 0 line"

text \<open>The three loops of \<open>trim\<close> on the array that holds the string.\<close>

fun trim_end :: "nat \<Rightarrow> u8 list \<Rightarrow> u8 list" where
  "trim_end 0 b = b"
| "trim_end (Suc len) b = (if b ! len = 0x20 then trim_end len (b[len := 0]) else b)"

definition leading_spaces :: "u8 list \<Rightarrow> nat" where
  "leading_spaces b = length (takeWhile (\<lambda>c. c = 0x20) b)"

function shift_left :: "nat \<Rightarrow> nat \<Rightarrow> u8 list \<Rightarrow> u8 list" where
  "shift_left start i b = (if chr b (start + i) \<noteq> 0 then shift_left start (i + 1) (b[i := chr b (start + i)]) else b[i := 0])"
  by auto
termination
  by (relation "measure (\<lambda>(start, i, b). length b - (start + i))") (auto simp: chr_def split: if_splits)

declare shift_left.simps [simp del]

definition trim :: "u8 list \<Rightarrow> u8 list" where
  "trim b = (let b = trim_end (str_len b) b; start = leading_spaces b in if start > 0 then shift_left start 0 b else b)"

text \<open>A string copied into a local array of \<open>cap\<close> bytes, with its terminator.\<close>

definition fill_array :: "nat \<Rightarrow> u8 list \<Rightarrow> u8 list run" where
  "fill_array cap src = (if length src < cap then Done (src @ [0]) else Crash)"

definition wait_for :: "'k syscalls \<Rightarrow> int \<Rightarrow> 'k shell \<Rightarrow> 'k shell" where
  "wait_for K pid s = (if pid \<ge> 0 then do_call (sys_wait K pid) s else s)"

definition cmd_pipeline :: "'k syscalls \<Rightarrow> u8 list \<Rightarrow> nat \<Rightarrow> 'k shell \<Rightarrow> 'k shell run" where
  "cmd_pipeline K line pipe_at s =
     (case fill_array LINE_MAX (take pipe_at line) of Done left \<Rightarrow>
       (case fill_array LINE_MAX (cstr (drop (pipe_at + 1) line)) of Done right \<Rightarrow>
          (let left = trim left; right = trim right in
           if chr left 0 = 0 \<or> chr right 0 = 0 then Done (sayln ''usage: cmd1 | cmd2'' s)
           else let (s, rc, read_fd, write_fd) = call (sys_pipe K) s in
             if rc < 0 then Done (sayln ''pipe: could not create'' s)
             else
               let (s, pid1) = call (sys_spawn_redirect K (take (str_len left) left) (-1) write_fd) s;
                   (s, pid2) = call (sys_spawn_redirect K (take (str_len right) right) read_fd (-1)) s;
                   s = do_call (sys_close K (c_int write_fd)) (do_call (sys_close K (c_int read_fd)) s);
                   s = (if pid1 < 0 \<or> pid2 < 0 then sayln ''pipe: spawn failed'' s else s)
               in Done (wait_for K pid2 (wait_for K pid1 s)))
        | Crash \<Rightarrow> Crash | Waits \<Rightarrow> Waits)
     | Crash \<Rightarrow> Crash | Waits \<Rightarrow> Waits)"

section \<open>The main loop\<close>

definition cmd_bg :: "'k syscalls \<Rightarrow> u8 list \<Rightarrow> 'k shell \<Rightarrow> 'k shell" where
  "cmd_bg K line s =
     (let (s, pid) = call (sys_spawn K (drop 3 line)) s in
      if pid < 0 then sayln '''' (print_str (drop 3 line) (say ''spawn failed: '' s))
      else sayln '''' (print_ulong (word_of_int pid) (say ''started in background, pid '' s)))"

definition cmd_kill :: "'k syscalls \<Rightarrow> u8 list \<Rightarrow> 'k shell \<Rightarrow> 'k shell" where
  "cmd_kill K args s =
     (let pid = sint (fst (read_digits 0 args)) in
      if pid \<le> 0 then sayln ''usage: kill <pid>'' s
      else let (s, r) = call (sys_kill K pid SIGKILL) s in
        if r < 0 then sayln '''' (print_ulong (word_of_int pid) (say ''kill: no such process: '' s))
        else sayln '''' (print_ulong (word_of_int pid) (say ''killed pid '' s)))"

definition run_program :: "'k syscalls \<Rightarrow> u8 list \<Rightarrow> 'k shell \<Rightarrow> 'k shell" where
  "run_program K line s =
     (let (s, pid) = call (sys_spawn K line) s in
      if pid < 0 then sayln '''' (print_str line (say ''spawn failed: '' s)) else do_call (sys_wait K pid) s)"

text \<open>One line of input; \<open>exit\<close> and the empty line are handled by the loop.\<close>

definition sh_command :: "'k syscalls \<Rightarrow> u8 list \<Rightarrow> 'k shell \<Rightarrow> 'k shell run option" where
  "sh_command K line s =
     (case find_pipe line of
        Some pipe_at \<Rightarrow> Some (cmd_pipeline K line pipe_at s)
      | None \<Rightarrow>
          if str_eq_and line (literal ''ls'') then cmd_ls K s
          else if str_starts_with line (literal ''write '') then Some (cmd_write K (cstr (drop 6 line)) s)
          else if str_starts_with line (literal ''cat '') then cmd_cat K (cstr (drop 4 line)) s
          else if str_starts_with line (literal ''rm '') then Some (Done (cmd_rm K (cstr (drop 3 line)) s))
          else if str_starts_with line (literal ''chmod '') then Some (Done (cmd_chmod K (cstr (drop 6 line)) s))
          else if str_starts_with line (literal ''useradd '') then Some (Done (cmd_useradd K (cstr (drop 8 line)) s))
          else if str_starts_with line (literal ''bg '') then Some (Done (cmd_bg K line s))
          else if str_starts_with line (literal ''kill '') then Some (Done (cmd_kill K (cstr (drop 5 line)) s))
          else Some (Done (run_program K line s)))"

partial_function (option) sh_loop :: "'k syscalls \<Rightarrow> 'k shell \<Rightarrow> 'k shell run option" where
  "sh_loop K s = (case read_line LINE_MAX (say ''sh> '' s) of
     None \<Rightarrow> Some Waits
   | Some (s, line) \<Rightarrow>
       if length line = 0 then sh_loop K s
       else if find_pipe line = None \<and> str_eq_and line (literal ''exit'') then Some (Done s)
       else (case sh_command K line s of
           None \<Rightarrow> None
         | Some r \<Rightarrow> (case r of Done s \<Rightarrow> sh_loop K s | Crash \<Rightarrow> Some Crash | Waits \<Rightarrow> Some Waits)))"

definition sh_start :: "'k syscalls \<Rightarrow> 'k shell \<Rightarrow> 'k shell run option" where
  "sh_start K s =
     (let s = sayln ''MiniKernel userspace shell'' s;
          s = sayln (''type a program name to run it, '' @ CHR 0x27 # ''ls'' @ CHR 0x27 # '' to list files, '' @ CHR 0x27 # ''exit'' @ CHR 0x27 # '' to quit'') s;
          s = sayln (CHR 0x27 # ''write <name>'' @ CHR 0x27 # '' / '' @ CHR 0x27 # ''cat <name>'' @ CHR 0x27 # '' / '' @ CHR 0x27 # ''rm <name>'' @ CHR 0x27 # '' for persistent files'') s;
          s = sayln (CHR 0x27 # ''chmod <name> private|readonly|public'' @ CHR 0x27 # '' to set who else can access it'') s;
          s = sayln (CHR 0x27 # ''useradd <name> <password> <uid>'' @ CHR 0x27 # '' to create an account (root only)'') s;
          s = sayln (CHR 0x27 # ''bg <program>'' @ CHR 0x27 # '' to run in the background, '' @ CHR 0x27 # ''kill <pid>'' @ CHR 0x27 # '' to stop it'') s;
          s = sayln (CHR 0x27 # ''cmd1 | cmd2'' @ CHR 0x27 # '' to pipe one program'' @ CHR 0x27 # ''s output into another'') s;
          s = sayln (''(this keyboard layout has no | key yet - use '' @ CHR 0x27 # '','' @ CHR 0x27 # '' instead)'') s
      in sh_loop K s)"

section \<open>Trimming\<close>

text \<open>\<open>trim\<close> leaves the string without the spaces at its ends.\<close>

definition strip :: "u8 list \<Rightarrow> u8 list" where
  "strip a = (let sp = (\<lambda>c. c = 0x20) in dropWhile sp (rev (dropWhile sp (rev a))))"

lemma trim_end_cstr:
  assumes "len < length b" and "b ! len = 0" and "0 \<notin> set (take len b)"
  shows "cstr (trim_end len b) = rev (dropWhile (\<lambda>c. c = 0x20) (rev (take len b)))" and "0 \<in> set (trim_end len b)"
proof -
  have "cstr (trim_end len b) = rev (dropWhile (\<lambda>c. c = 0x20) (rev (take len b))) \<and> 0 \<in> set (trim_end len b)"
    using assms
  proof (induction len b rule: trim_end.induct)
    case (1 b)
    then show ?case by (cases b) (auto simp: cstr_Cons)
  next
    case (2 len b)
    have t: "take (Suc len) b = take len b @ [b ! len]" using 2(2) by (simp add: take_Suc_conv_app_nth)
    show ?case
    proof (cases "b ! len = 0x20")
      case True
      have "take len (b[len := 0]) = take len b" by simp
      then show ?thesis using True 2 t by (auto simp: nth_list_update)
    next
      case False
      have "b = take (Suc len) b @ 0 # drop (Suc (Suc len)) b"
        using 2(2,3) by (metis append_take_drop_id Cons_nth_drop_Suc)
      then have "cstr b = take (Suc len) b" "0 \<in> set b" using 2(4) cstr_append_nul [of "take (Suc len) b"] by (metis, metis in_set_conv_decomp)
      then show ?thesis using False t by simp
    qed
  qed
  then show "cstr (trim_end len b) = rev (dropWhile (\<lambda>c. c = 0x20) (rev (take len b)))" "0 \<in> set (trim_end len b)" by blast+
qed

lemma shift_left_cstr:
  "0 < start \<Longrightarrow> 0 \<notin> set (take i b) \<Longrightarrow> 0 \<in> set (drop (start + i) b) \<Longrightarrow>
     cstr (shift_left start i b) = take i b @ cstr (drop (start + i) b)"
proof (induction start i b rule: shift_left.induct)
  case (1 start i b)
  have len: "start + i < length b" using 1(4) by (metis drop_all empty_iff empty_set not_le)
  then have d: "drop (start + i) b = b ! (start + i) # drop (start + i + 1) b" by (simp add: Cons_nth_drop_Suc)
  have c: "chr b (start + i) = b ! (start + i)" using len by (simp add: chr_def)
  show ?case
  proof (cases "b ! (start + i) = 0")
    case True
    have "b[i := 0] = take i b @ 0 # drop (Suc i) b" using len by (simp add: upd_conv_take_nth_drop)
    then show ?thesis using True c d 1(3) by (simp add: shift_left.simps [of start i b] cstr_append_nul cstr_Cons)
  next
    case False
    let ?b = "b[i := chr b (start + i)]"
    have t: "take (i + 1) ?b = take i b @ [b ! (start + i)]" using len c by (simp add: take_Suc_conv_app_nth)
    have dr: "drop (start + (i + 1)) ?b = drop (start + (i + 1)) b" using 1(2) by simp
    have "cstr (shift_left start (i + 1) ?b) = take (i + 1) ?b @ cstr (drop (start + (i + 1)) ?b)"
      using 1(1) False c t dr d 1 by (intro 1(1)) (auto simp: chr_def)
    then show ?thesis using False c t dr d by (simp add: shift_left.simps [of start i b] cstr_Cons)
  qed
qed

lemma trim_correct:
  assumes "0 \<in> set b"
  shows "cstr (trim b) = strip (cstr b)"
proof -
  let ?n = "str_len b" and ?sp = "\<lambda>c :: u8. c = 0x20"
  have n: "?n < length b" "b ! ?n = 0" "take ?n b = cstr b"
  proof -
    have "takeWhile (\<lambda>c. c \<noteq> 0) b \<noteq> b" using assms by (metis set_takeWhileD)
    then have l: "length (takeWhile (\<lambda>c. c \<noteq> 0) b) < length b"
      by (metis length_takeWhile_le le_neq_implies_less takeWhile_eq_take take_all_iff order_refl)
    then show "?n < length b" by (simp add: str_len_cstr cstr_def)
    show "b ! ?n = 0" using nth_length_takeWhile [of "\<lambda>c. c \<noteq> 0" b] l by (simp add: str_len_cstr cstr_def)
    show "take ?n b = cstr b" by (simp add: str_len_cstr cstr_def takeWhile_eq_take [symmetric])
  qed
  let ?e = "trim_end ?n b"
  have e: "cstr ?e = rev (dropWhile ?sp (rev (cstr b)))" "0 \<in> set ?e"
    using trim_end_cstr [OF n(1,2)] n(3) by simp_all
  let ?k = "leading_spaces ?e"
  have split: "?e = replicate ?k 0x20 @ dropWhile ?sp ?e"
  proof -
    have "takeWhile ?sp ?e = replicate ?k 0x20"
      unfolding leading_spaces_def by (rule replicate_eqI) (auto dest: set_takeWhileD)
    then show ?thesis by (metis takeWhile_dropWhile_id)
  qed
  have zero: "0 \<in> set (dropWhile ?sp ?e)"
  proof (rule ccontr)
    assume "0 \<notin> set (dropWhile ?sp ?e)"
    then have "0 \<notin> set (replicate ?k (0x20 :: u8) @ dropWhile ?sp ?e)" by auto
    then show False using e(2) split by metis
  qed
  have c: "cstr (replicate m 0x20 @ a) = replicate m 0x20 @ cstr a" for m and a :: "u8 list"
    by (induction m) (simp_all add: cstr_Cons)
  have strip: "dropWhile ?sp (cstr ?e) = cstr (dropWhile ?sp ?e)"
  proof -
    have "dropWhile ?sp (cstr (dropWhile ?sp ?e)) = cstr (dropWhile ?sp ?e)"
    proof (cases "dropWhile ?sp ?e")
      case (Cons x xs)
      then have "x \<noteq> 0x20" using hd_dropWhile [of ?sp ?e] by auto
      then show ?thesis using Cons by (simp add: cstr_Cons)
    next
      case Nil
      show ?thesis unfolding Nil by (simp only: cstr_Nil dropWhile.simps)
    qed
    moreover have "dropWhile ?sp (replicate m 0x20 @ a) = dropWhile ?sp a" for m and a :: "u8 list" by (induction m) simp_all
    moreover have "cstr ?e = replicate ?k 0x20 @ cstr (dropWhile ?sp ?e)"
      unfolding c [symmetric] using split by (rule arg_cong)
    ultimately show ?thesis by presburger
  qed
  have "cstr (trim b) = cstr (dropWhile ?sp ?e)"
  proof (cases "0 < ?k")
    case True
    have "drop ?k ?e = dropWhile ?sp ?e" unfolding leading_spaces_def by (rule dropWhile_eq_drop [symmetric])
    then show ?thesis using True zero shift_left_cstr [of ?k 0 ?e] by (simp add: trim_def Let_def)
  next
    case False
    then show ?thesis using split by (simp add: trim_def Let_def)
  qed
  then show ?thesis using strip e(1) by (simp add: strip_def Let_def)
qed

section \<open>The shell never hangs or overruns a buffer\<close>

text \<open>
  What the shell relies on: the listing ends, and reading an open file ends. \<open>rank\<close> bounds what is left to
  read behind a descriptor.
\<close>

definition calls_end :: "(int \<Rightarrow> 'k \<Rightarrow> nat) \<Rightarrow> u64 \<Rightarrow> 'k syscalls \<Rightarrow> bool" where
  "calls_end rank n K \<longleftrightarrow> (\<forall>k i. n \<le> i \<longrightarrow> sys_list K i k = None) \<and>
     (\<forall>fd k. snd (sys_read_fd K fd 128 k) \<noteq> [] \<longrightarrow> rank fd (fst (sys_read_fd K fd 128 k)) < rank fd k)"

lemma ls_loop_returns:
  assumes "calls_end rank n K"
  shows "\<exists>t. ls_loop K index s = Some t \<and> term_in t = term_in s"
proof (induction "unat n - unat index" arbitrary: index s rule: less_induct)
  case less
  show ?case
  proof (cases "sys_list K index (kern s)")
    case None
    then show ?thesis by (simp add: ls_loop.simps)
  next
    case (Some name)
    then have "\<not> n \<le> index" using assms by (auto simp: calls_end_def)
    then have lt: "unat index < unat n" by (simp add: word_le_nat_alt)
    have "unat n < 2 ^ LENGTH(64)" by (rule unsigned_less)
    then have "unat (index + 1) = unat index + 1" using lt by (simp add: unat_word_ariths(1))
    then have "unat n - unat (index + 1) < unat n - unat index" using lt by simp
    then obtain t where "ls_loop K (index + 1) (sayln '''' (print_str name s)) = Some t" "term_in t = term_in (sayln '''' (print_str name s))"
      using less by blast
    then show ?thesis using Some by (simp add: ls_loop.simps [of K index s])
  qed
qed

lemma cat_loop_returns:
  assumes "calls_end rank n K"
  shows "\<exists>t. cat_loop K fd s = Some t \<and> term_in t = term_in s"
proof (induction "rank fd (kern s)" arbitrary: s rule: less_induct)
  case less
  let ?s = "fst (call (sys_read_fd K fd 128) s)" and ?b = "snd (call (sys_read_fd K fd 128) s)"
  have step: "cat_loop K fd s = (if 0 < length ?b then cat_loop K fd (print_bytes ?b ?s) else Some ?s)"
    by (simp add: cat_loop.simps [of K fd s] case_prod_unfold)
  show ?case
  proof (cases "0 < length ?b")
    case True
    then have "rank fd (kern (print_bytes ?b ?s)) < rank fd (kern s)" using assms by (simp add: calls_end_def)
    then obtain t where "cat_loop K fd (print_bytes ?b ?s) = Some t" "term_in t = term_in (print_bytes ?b ?s)" using less by blast
    then show ?thesis using True step by simp
  next
    case False
    then show ?thesis using step by simp
  qed
qed

lemma find_pipe_from_Some: "find_pipe_from i a = Some j \<Longrightarrow> i \<le> j \<and> j < i + length a"
  by (induction i a rule: find_pipe_from.induct) (auto split: if_splits)

lemma cmd_pipeline_returns:
  assumes "find_pipe line = Some p" and "length line < LINE_MAX"
  shows "\<exists>t. cmd_pipeline K line p s = Done t \<and> term_in t = term_in s"
proof -
  have p: "p < length line" using find_pipe_from_Some assms(1) by (fastforce simp: find_pipe_def)
  have "length (cstr (drop (p + 1) line)) \<le> length line"
    using length_takeWhile_le [of "\<lambda>b. b \<noteq> 0" "drop (p + 1) line"] by (simp add: cstr_def)
  then show ?thesis
    using p assms(2) by (simp add: cmd_pipeline_def fill_array_def Let_def case_prod_unfold wait_for_def)
qed

lemma sh_command_returns:
  assumes "calls_end rank n K" and "length line < LINE_MAX"
  shows "\<exists>r. sh_command K line s = Some r \<and>
    (r = Waits \<or> (\<exists>t. r = Done t \<and> length (term_in t) \<le> length (term_in s)))"
proof (cases "find_pipe line")
  case (Some p)
  then show ?thesis using cmd_pipeline_returns [OF Some assms(2), of K s] by (auto simp: sh_command_def)
next
  case None
  have ls: "\<exists>t. cmd_ls K s = Some (Done t) \<and> term_in t = term_in s"
    using ls_loop_returns [OF assms(1), of 0 s] by (auto simp: cmd_ls_def)
  have cat: "\<exists>t. cmd_cat K a s = Some (Done t) \<and> term_in t = term_in s" for a
    using cat_loop_returns [OF assms(1), of "c_int (snd (call (sys_open K a O_PERSIST) s))" "fst (call (sys_open K a O_PERSIST) s)"]
    by (auto simp: cmd_cat_def case_prod_unfold Let_def)
  have wr: "cmd_write K a s = Waits \<or> (\<exists>t. cmd_write K a s = Done t \<and> length (term_in t) \<le> length (term_in s))" for a
  proof -
    let ?s = "say ''content> '' (fst (call (sys_open K a (O_CREATE OR O_PERSIST OR O_TRUNC)) s))"
    show ?thesis
    proof (cases "read_line LINE_MAX ?s")
      case (Some q)
      then have "length (term_in (fst q)) < length (term_in ?s)"
        using read_line_loop_bound [of LINE_MAX "[]" "term_in ?s"] by (auto simp: read_line_def LINE_MAX_def split: option.splits)
      then show ?thesis using Some by (auto simp: cmd_write_def case_prod_unfold Let_def)
    qed (simp add: cmd_write_def case_prod_unfold Let_def)
  qed
  have [simp]: "term_in (cmd_rm K a s) = term_in s" "term_in (cmd_chmod K a s) = term_in s" "term_in (cmd_useradd K a s) = term_in s"
      "term_in (cmd_bg K a s) = term_in s" "term_in (cmd_kill K a s) = term_in s" "term_in (run_program K a s) = term_in s" for a
    by (auto simp: cmd_rm_def cmd_chmod_def cmd_useradd_def cmd_bg_def cmd_kill_def run_program_def case_prod_unfold Let_def split: option.split)
  show ?thesis
    unfolding sh_command_def using None ls cat [of "cstr (drop 4 line)"] wr [of "cstr (drop 6 line)"] by auto
qed


section \<open>Pipelines of two programs\<close>

lemma find_pipe_from_at:
  "0 \<notin> set l \<Longrightarrow> 0x7C \<notin> set l \<Longrightarrow> 0x2C \<notin> set l \<Longrightarrow> c = 0x7C \<or> c = 0x2C \<Longrightarrow>
     find_pipe_from i (l @ c # r) = Some (i + length l)"
  by (induction l arbitrary: i) auto

lemma strip_no_nul: "0 \<notin> set a \<Longrightarrow> 0 \<notin> set (strip a)"
  unfolding strip_def Let_def using set_dropWhileD [of "0 :: u8"] by (metis set_rev)

lemma trim_array:
  assumes "0 \<notin> set a"
  shows "chr (trim (a @ [0])) 0 = 0 \<longleftrightarrow> strip a = []"
    and "take (str_len (trim (a @ [0]))) (trim (a @ [0])) = strip a"
proof -
  have c: "cstr (trim (a @ [0])) = strip a" using trim_correct [of "a @ [0]"] cstr_append_nul [OF assms, of "[]"] by simp
  have "chr b 0 = 0 \<longleftrightarrow> cstr b = []" for b by (cases b) (auto simp: chr_def cstr_Cons)
  then show "chr (trim (a @ [0])) 0 = 0 \<longleftrightarrow> strip a = []" using c by simp
  have "take (str_len b) b = cstr b" for b by (simp add: str_len_cstr cstr_def takeWhile_eq_take [symmetric])
  then show "take (str_len (trim (a @ [0]))) (trim (a @ [0])) = strip a" using c by simp
qed

text \<open>The calls that a pipeline of two commands makes of the kernel.\<close>

definition pipeline_calls :: "'k syscalls \<Rightarrow> u8 list \<Rightarrow> u8 list \<Rightarrow> 'k \<Rightarrow> 'k" where
  "pipeline_calls K c1 c2 k =
     (let (k, rc, read_fd, write_fd) = sys_pipe K k in
      if rc < 0 then k
      else
        let (k, pid1) = sys_spawn_redirect K c1 (-1) write_fd k;
            (k, pid2) = sys_spawn_redirect K c2 read_fd (-1) k;
            k = sys_close K (c_int write_fd) (sys_close K (c_int read_fd) k);
            k = (if pid1 \<ge> 0 then sys_wait K pid1 k else k)
        in if pid2 \<ge> 0 then sys_wait K pid2 k else k)"

lemma kern_wait_for [simp]: "kern (wait_for K pid s) = (if pid \<ge> 0 then sys_wait K pid (kern s) else kern s)"
  "term_in (wait_for K pid s) = term_in s"
  by (simp_all add: wait_for_def)

lemma call_Pair: "call f s = (fst (call f s), snd (f (kern s)))"
  by (simp add: call_def case_prod_unfold Let_def)

text \<open>
  C12: A typed line \<open>l | r\<close> or \<open>l, r\<close> runs exactly the two commands \<open>l\<close> and \<open>r\<close> without the spaces around
  them: a pipe is made, the first command gets its write end as output and the second its read end as
  input, the shell gives up both of its own ends whether or not the spawns succeed, and then it waits
  for the children that exist, in this order; if one side is empty the kernel is not called at all. Then
  the shell goes on with the next line.
\<close>

theorem sh_pipeline_correct:
  assumes inp: "term_in s = l @ c # r @ 0x0A # rest" and c: "c = 0x7C \<or> c = 0x2C"
    and l: "0 \<notin> set l" "0x7C \<notin> set l" "0x2C \<notin> set l"
    and clean: "0x0A \<notin> set (l @ r)" "0x08 \<notin> set (l @ r)" "0 \<notin> set r"
    and fits: "length l + length r + 1 < LINE_MAX"
  shows "\<exists>t. sh_loop K s = sh_loop K t \<and> term_in t = rest \<and>
    kern t = (if strip l = [] \<or> strip r = [] then kern s else pipeline_calls K (strip l) (strip r) (kern s))"
proof -
  let ?line = "l @ c # r"
  let ?s = "say ''sh> '' s"
  define u where "u = ?s\<lparr>term_in := rest, term_out := term_out ?s @ ?line @ [0x0A]\<rparr>"
  have rd: "read_line LINE_MAX ?s = Some (u, ?line)"
    unfolding u_def by (rule read_line_typed) (use inp c clean fits in auto)
  have fp: "find_pipe ?line = Some (length l)" using find_pipe_from_at [OF l c, of 0 r] by (simp add: find_pipe_def)
  have u: "term_in u = rest" "kern u = kern s" by (simp_all add: u_def)
  define t where "t = (case cmd_pipeline K ?line (length l) u of Done t \<Rightarrow> t | _ \<Rightarrow> u)"
  have arrays: "fill_array LINE_MAX (take (length l) ?line) = Done (l @ [0])"
    "fill_array LINE_MAX (cstr (drop (length l + 1) ?line)) = Done (r @ [0])"
    using fits clean(3) by (simp_all add: fill_array_def cstr_id)
  have run: "cmd_pipeline K ?line (length l) u = Done t \<and> term_in t = rest \<and>
    kern t = (if strip l = [] \<or> strip r = [] then kern s else pipeline_calls K (strip l) (strip r) (kern s))"
    unfolding t_def cmd_pipeline_def arrays
    using trim_array [OF l(1)] trim_array [OF clean(3)]
    by (simp add: Let_def case_prod_unfold u pipeline_calls_def)
  have "sh_loop K s = sh_loop K t"
    using rd fp run by (simp add: sh_loop.simps [of K s] sh_command_def)
  then show ?thesis using run by blast
qed

text \<open>
  The user name of \<open>useradd\<close> is cut after 19 characters and what follows in the same word is taken for
  the password: with a name of 20 characters and no password at all an account is created, with the
  last character of the name as its password.
\<close>

theorem useradd_long_name:
  "kern (cmd_useradd K (literal ''abcdefghijklmnopqrst 7'') s) =
     fst (sys_adduser K (literal ''abcdefghijklmnopqrs'') (literal ''t'') 7 (kern s))"
  by (simp add: cmd_useradd_def literal_def skip_spaces_def chr_def is_digit_def Let_def case_prod_unfold)

section \<open>The login program\<close>

text \<open>
  \<open>read_line_echo\<close> and \<open>read_line_masked\<close>: \<open>shown c\<close> is what the terminal gets for the typed character.
\<close>

fun login_line_loop :: "(u8 \<Rightarrow> u8) \<Rightarrow> nat \<Rightarrow> u8 list \<Rightarrow> u8 list \<Rightarrow> u8 list \<Rightarrow> (u8 list \<times> u8 list \<times> u8 list) option" where
  "login_line_loop shown max_len buf [] out = None"
| "login_line_loop shown max_len buf (c # inp) out =
     (if c = 0x0A then Some (buf, inp, out @ [0x0A])
      else if c = 0x08 then
        if 0 < length buf then login_line_loop shown max_len (butlast buf) inp (out @ [0x08, 0x20, 0x08])
        else login_line_loop shown max_len buf inp out
      else if length buf + 1 < max_len then login_line_loop shown max_len (buf @ [c]) inp (out @ [shown c])
      else login_line_loop shown max_len buf inp out)"

definition login_line :: "(u8 \<Rightarrow> u8) \<Rightarrow> nat \<Rightarrow> 'k shell \<Rightarrow> ('k shell \<times> u8 list) option" where
  "login_line shown max_len s = (case login_line_loop shown max_len [] (term_in s) (term_out s) of
     None \<Rightarrow> None
   | Some (buf, inp, out) \<Rightarrow> Some (s\<lparr>term_in := inp, term_out := out\<rparr>, buf))"

definition read_line_echo :: "nat \<Rightarrow> 'k shell \<Rightarrow> ('k shell \<times> u8 list) option" where
  "read_line_echo = login_line (\<lambda>c. c)"

definition read_line_masked :: "nat \<Rightarrow> 'k shell \<Rightarrow> ('k shell \<times> u8 list) option" where
  "read_line_masked = login_line (\<lambda>c. 0x2A)"

text \<open>One round of the loop of \<open>_start\<close>.\<close>

definition login_round :: "'k syscalls \<Rightarrow> 'k shell \<Rightarrow> 'k shell run" where
  "login_round K s =
     (case read_line_echo 32 (say ''username: '' (print_bytes (0x0A # literal ''MiniKernel login'' @ [0x0A]) s)) of
       None \<Rightarrow> Waits
     | Some (s, username) \<Rightarrow>
       (case read_line_masked 64 (say ''password: '' s) of
         None \<Rightarrow> Waits
       | Some (s, password) \<Rightarrow>
           let (s, r) = call (sys_login K (cstr username) (cstr password)) s in
           if r < 0 then Done (sayln ''login incorrect'' s)
           else
             let s = sayln '''' (print_str username (say ''welcome, '' s));
                 (s, pid) = call (sys_spawn K (literal ''sh'')) s
             in if pid < 0 then Done (sayln ''login: could not start shell'' s)
                else Done (do_call (sys_wait K pid) s)))"

text \<open>A masked line shows the same for every input of the same shape: nothing of the password is visible.\<close>

definition line_shape :: "u8 list \<Rightarrow> u8 list" where
  "line_shape = map (\<lambda>c. if c = 0x0A \<or> c = 0x08 then c else 0)"

lemma login_masked:
  "line_shape i = line_shape j \<Longrightarrow> length b = length b' \<Longrightarrow>
     map_option (\<lambda>(buf, inp, out). (length buf, out)) (login_line_loop (\<lambda>c. 0x2A) m b i out) =
     map_option (\<lambda>(buf, inp, out). (length buf, out)) (login_line_loop (\<lambda>c. 0x2A) m b' j out)"
proof (induction i arbitrary: j b b' out)
  case Nil
  then show ?case by (simp add: line_shape_def)
next
  case (Cons c i)
  obtain d j' where j: "j = d # j'" "line_shape i = line_shape j'"
      "(if c = 0x0A \<or> c = 0x08 then c else 0) = (if d = 0x0A \<or> d = 0x08 then d else 0)"
    using Cons.prems(1) by (auto simp: line_shape_def)
  have same: "c = 0x0A \<longleftrightarrow> d = 0x0A" "c = 0x08 \<longleftrightarrow> d = 0x08" using j(3) by (auto split: if_splits)
  show ?case
    using Cons.IH [OF j(2)] same Cons.prems(2) by (simp add: j(1))
qed

lemma login_line_loop_bound:
  "login_line_loop f m buf inp out = Some (b, i, out') \<Longrightarrow> length buf < m \<Longrightarrow> length b < m"
proof (induction inp arbitrary: buf out)
  case (Cons c inp)
  have le: "length (butlast buf) < m" using Cons.prems(2) by simp
  show ?case using Cons.prems Cons.IH [OF _ le] Cons.IH [of buf out] Cons.IH [of "buf @ [c]" "out @ [f c]"] by (simp split: if_splits)
qed simp

text \<open>No shell is started for a login that the kernel refused.\<close>

lemma login_refused:
  assumes "\<And>u p k. 0 > snd (sys_login K u p k)" and "login_round K s = Done t"
  shows "\<exists>u p. length u < 32 \<and> length p < 64 \<and> kern t = fst (sys_login K (cstr u) (cstr p) (kern s))"
proof -
  obtain v u where u: "read_line_echo 32 (say ''username: '' (print_bytes (0x0A # literal ''MiniKernel login'' @ [0x0A]) s)) = Some (v, u)"
    using assms(2) by (auto simp: login_round_def split: option.splits)
  obtain w p where p: "read_line_masked 64 (say ''password: '' v) = Some (w, p)"
    using assms(2) u by (auto simp: login_round_def split: option.splits)
  have kern: "kern v = kern s" "kern w = kern v"
    using u p by (auto simp: read_line_echo_def read_line_masked_def login_line_def split: option.splits)
  have len: "length u < 32" "length p < 64"
    using u p by (auto simp: read_line_echo_def read_line_masked_def login_line_def split: option.splits dest!: login_line_loop_bound)
  have "kern t = fst (sys_login K (cstr u) (cstr p) (kern s))"
    using assms u p kern by (auto simp: login_round_def case_prod_unfold Let_def split: if_splits)
  then show ?thesis using len by blast
qed

section \<open>Concrete instances\<close>

text \<open>A kernel that records the calls; nothing can be read, every spawn gets the next number.\<close>

datatype kcall = CPipe | CSpawn "u8 list" int int | CClose int | CWait int | COther

definition example_calls :: "(kcall list) syscalls" where
  "example_calls = \<lparr>sys_list = \<lambda>i k. None, sys_open = \<lambda>n f k. (k @ [COther], -1), sys_close = \<lambda>fd k. k @ [CClose fd],
     sys_read_fd = \<lambda>fd n k. (k, []), sys_write_fd = \<lambda>fd b k. k, sys_remove = \<lambda>n k. (k, -1), sys_chmod = \<lambda>n p k. (k, -1),
     sys_adduser = \<lambda>u p i k. (k, -1), sys_spawn = \<lambda>c k. (k, -1),
     sys_spawn_redirect = \<lambda>c i out k. (k @ [CSpawn c i out], int (length k)), sys_wait = \<lambda>p k. k @ [CWait p],
     sys_pipe = \<lambda>k. (k @ [CPipe], 0, 4, 5), sys_kill = \<lambda>p g k. (k, -1), sys_login = \<lambda>u p k. (k, -1)\<rparr>"

definition example_shell :: "string \<Rightarrow> kcall list shell" where
  "example_shell inp = \<lparr>term_in = literal inp @ [0x0A], term_out = [], kern = []\<rparr>"


theorem sh_pipeline_correct_witness:
  "\<exists>t. sh_loop example_calls (example_shell ''produce , upper'') = sh_loop example_calls t \<and>
     kern t = [CPipe, CSpawn (literal ''produce'') (-1) 5, CSpawn (literal ''upper'') 4 (-1), CClose 4, CClose 5, CWait 1, CWait 2]"
proof -
  have ci: "c_int 4 = 4" "c_int 5 = 5" by (simp_all add: c_int_def)
  have "\<exists>t. sh_loop example_calls (example_shell ''produce , upper'') = sh_loop example_calls t \<and> term_in t = [] \<and>
    kern t = (if strip (literal ''produce '') = [] \<or> strip (literal '' upper'') = [] then kern (example_shell ''produce , upper'')
      else pipeline_calls example_calls (strip (literal ''produce '')) (strip (literal '' upper'')) (kern (example_shell ''produce , upper'')))"
    by (rule sh_pipeline_correct [where c = "0x2C"]) (simp_all add: example_shell_def literal_def LINE_MAX_def)
  moreover have "strip (literal ''produce '') = literal ''produce''" "strip (literal '' upper'') = literal ''upper''"
    by (simp_all add: strip_def literal_def)
  ultimately show ?thesis
    by (auto simp: pipeline_calls_def example_calls_def example_shell_def ci literal_def)
qed

end
