(* ===== verification/Spec2Isabelle.thy ===== *)
theory Spec2Isabelle
  imports E820 Ring_Buffer Address_Space Memfs Fd Elf Process Syscall Kernel_Shell Lang Edit Shell
begin

text \<open>
  MiniKernel: a verification development.

  MiniKernel is a small x86-64 operating system in C: physical and virtual memory, a kernel heap, threads
  with a preemptive round-robin scheduler, pipes, two writable file systems and a read-only one on an
  ATA disk, user accounts with file permissions, a text console and a keyboard, ELF programs that run
  in user mode in address spaces of their own and reach the kernel through \<open>int 0x80\<close>, and a few user
  programs. The development models the C sources function by function and proves what makes each part
  correct, up to the guarantees that span them: no system call of a user changes a disk file that the
  user may not write, an exception of a program ends that program only, and no wakeup is lost.

  \<^bold>\<open>How the code is modelled.\<close> Integers are words of their C width and wrap (\<open>u8\<close> to \<open>u64\<close>); a C \<open>int\<close> is an
  \<open>int\<close> where the code relies on no overflow and a 32-bit word where it wraps. Static data is a field of a
  record, and the records extend each other along the calls between the files:
  \<open>machine\<close> (byte memory) \<open>\<subseteq>\<close> \<open>pmm_state\<close> \<open>\<subseteq>\<close> \<open>heap_state\<close> \<open>\<subseteq>\<close> \<open>vmm_state\<close> \<open>\<subseteq>\<close> \<open>stack_state\<close> \<open>\<subseteq>\<close> \<open>sched_state\<close> \<open>\<subseteq>\<close>
  \<open>pipe_state\<close> \<open>\<subseteq>\<close> \<open>memfs_state\<close> \<open>\<subseteq>\<close> \<open>io_state\<close> \<open>\<subseteq>\<close> \<open>ufs_state\<close> \<open>\<subseteq>\<close> \<open>fs_state\<close> \<open>\<subseteq>\<close> \<open>users_state\<close> \<open>\<subseteq>\<close> \<open>video_state\<close> \<open>\<subseteq>\<close>
  \<open>keyboard_state\<close> \<open>\<subseteq>\<close> \<open>proc_state\<close> \<open>\<subseteq>\<close> \<open>interrupt_state\<close>. Functions take the state and return it with their
  result. Page tables, heap headers, thread stacks, file buffers and ELF images live in the one byte
  memory \<open>phys_mem\<close>, at the addresses the code computes, so that overlaps are visible. Code between
  \<open>irq_save\<close> and \<open>irq_restore\<close> is atomic; where the source leaves interrupts on, the steps are separate
  (\<open>kbd_getchar\<close>) or the interleaving is a step relation. A call that blocks is modelled up to the point
  where the CPU leaves it (one round of its loop). Error codes are kept as values. A loop that the C
  code does not bound is a \<open>partial_function\<close> in the option monad, \<open>None\<close> is non-termination, and that it
  returns is a theorem; no fuel is used except where the source itself bounds a loop, as the 1000000
  polls of the disk status.

  \<^bold>\<open>The theories\<close>, each with its source under \<open>src/kernel/\<close> (or \<open>src/programs/\<close>) and what is proved.

  \<^item> \<open>Prelude\<close>, \<open>Memory\<close>, \<open>Cstring\<close>, \<open>File_Store\<close>: words, bounded loops, first match in a list; little-endian access to
    the byte memory; C strings in buffers; the contract of a file store.
  \<^item> \<open>E820\<close> (\<open>mm/e820.c\<close>), \<open>Pmm\<close> (\<open>mm/pmm.c\<close>): allocation takes exactly the next free frame or first-fit run;
    initialisation makes free exactly the usable frames outside the reserved ranges.
  \<^item> \<open>Heap\<close>, \<open>Heap_Client\<close> (\<open>mm/heap.c\<close>): on the linked blocks in memory, \<open>kmalloc\<close> and \<open>kfree\<close> return, refine a first-fit
    allocator on an abstract list of blocks, and keep live payloads disjoint and intact.
  \<^item> \<open>Vmm\<close>, \<open>Address_Space\<close>, \<open>User_Pages\<close> (\<open>mm/vmm.c\<close>, \<open>mm/vmm_growable_stack.c\<close>): a walk of the tables as the
    processor does it is the specification; mapping and unmapping change exactly one translation,
    splitting a large page changes none; address spaces are created, destroyed and grown as promised.
  \<^item> \<open>Mm_Frame\<close>: what the memory managers leave unchanged, for the components above them.
  \<^item> \<open>Thread\<close> (\<open>sched/thread.c\<close>, \<open>arch/x86_64/context_switch.asm\<close>): at most one running thread under any sequence
    of operations; a ready thread runs within a bounded number of ticks; a context switch restores all
    saved registers; spawning.
  \<^item> \<open>Ring_Buffer\<close> (\<open>lib/ring_buffer.c\<close>), \<open>Pipe\<close> (\<open>core/pipe.c\<close>): bounded queues, no lost wakeup.
  \<^item> \<open>Memfs\<close> (\<open>core/memfs.c\<close>): what is written is read back; names are a finite map.
  \<^item> \<open>Ata\<close> (\<open>drivers/ata.c\<close>, \<open>io.h\<close>): sectors round trip on a drive that follows the protocol.
  \<^item> \<open>Ufs\<close>, \<open>Ufs_Files\<close>, \<open>Ufs_Store\<close>, \<open>Ufs_Names\<close> (\<open>core/ufs.c\<close>): write and read, names, and that mounting again finds
    what was stored. \<open>Fs\<close> (\<open>core/fs.c\<close>): the boot file system.
  \<^item> \<open>Users\<close> (\<open>core/users.c\<close>): an account survives a restart and authenticates with its password only.
  \<^item> \<open>Video\<close> (\<open>drivers/video.c\<close>), \<open>Keyboard\<close> (\<open>drivers/keyboard/\<close>): bounds of the text memory, title kept; scan codes to
    characters in order.
  \<^item> \<open>Fd\<close> (\<open>core/fd.c\<close>): streams and permissions at the descriptor layer.
  \<^item> \<open>Elf\<close> (\<open>core/elf/elf_loader.c\<close>): the loader refuses an image or maps exactly its segments, file bytes and zeros
    in place. \<open>Process\<close> (\<open>core/process.c\<close> and the ending of threads): the process table, exit, wait, kill and reaping
    as a step relation with its invariant.
  \<^item> \<open>Syscall\<close> (\<open>core/syscall.c\<close>): every call; checks of user pointers; access control over all of them.
  \<^item> \<open>Interrupts\<close> (\<open>arch/x86_64/gdt.c\<close>, \<open>idt.c\<close>, \<open>irq.c\<close>, \<open>exceptions.c\<close>, \<open>drivers/pic.c\<close>, \<open>pit.c\<close>, \<open>timer.c\<close>, \<open>core/panic.c\<close>): what the
    processor reads from the packed descriptors; exceptions are contained.
  \<^item> \<open>Kernel_Shell\<close> (\<open>core/shell/\<close>): line editing and commands of the kernel's shell.
  \<^item> \<open>User_Lib\<close>, \<open>Lang\<close>, \<open>Edit\<close>, \<open>Shell\<close> (\<open>programs/lang.c\<close>, \<open>edit.c\<close>, \<open>sh.c\<close>, \<open>login.c\<close>): the script interpreter agrees with a
    grammar and an abstract machine; an editing session ends with the text its commands describe; the
    shell runs the pipeline that was typed and never hangs. The system calls are parameters there.

  \<^bold>\<open>Interfaces.\<close> Seven locales state what a client relies on, each interpreted on the model of the code:
  \<open>frame_source\<close> (PMM), \<open>kernel_allocator\<close> and its extension \<open>payload_allocator\<close> (heap), \<open>bounded_queue\<close> with the
  sublocale \<open>bounded_stream\<close> (ring buffer and pipes), \<open>block_device\<close> (disk driver) and \<open>file_store\<close>, which
  both writable file systems provide.

  \<^bold>\<open>Parameters and assumptions.\<close> The disk and the other devices are a function from the history of port
  accesses to the value that is read next; the file system theorems assume \<open>drive_ok\<close>, the documented
  behaviour of an ATA drive in 28-bit mode. The BIOS memory map, addresses that the linker chooses and
  the state of user programs' system calls are arguments. The well-formedness predicates (\<open>pmm_ok\<close>, \<open>heap_ok\<close>,
  \<open>space_ok\<close>, \<open>ufs_ok\<close>, \<open>process_system_ok\<close> and so on) are shown to hold of concrete states by the theorems
  whose names end in \<open>witness\<close>.

  \<^bold>\<open>What modelling showed.\<close> Several theorems state defects of the code as it is:
  \<open>username_zero_length_writes\<close> (a system call that writes a zero byte anywhere), \<open>zombie_resurrected\<close>,
  \<open>grow_thread_table_forgets_uid\<close>, \<open>kbd_lost_wakeup\<close>, \<open>memfs_write_termination\<close> (a loop that ends exactly up to 2 GiB),
  \<open>ufs_empty_write_breaks\<close>, \<open>fs_read_file_correct\<close> (whole sectors are written behind a smaller buffer),
  \<open>setuid_message_overruns\<close>, \<open>useradd_long_name\<close>, \<open>lang_division_trap\<close>, \<open>lang_too_many_vars\<close>, \<open>edit_goto_zero\<close>.

  \<^bold>\<open>Not modelled.\<close> The bootloader and the boot sequence of \<open>main.c\<close> (each function it calls is modelled);
  the kernel log and the serial port, which only produce output; the translation cache and \<open>invlpg\<close>;
  caches and timing; the self tests of the kernel shell and the sample programs, which exercise what is
  modelled and print the outcome; the scripts that build the disk image.
\<close>

end
